(* ===== verification/Prelude.thy ===== *)
theory Prelude
  imports Main "HOL-Library.Word" "HOL-Library.Signed_Division"
begin

text \<open>
  The prelude of the development: the machine types of \<^verbatim>\<open>kernel/types.h\<close>, the result
  type in which every kernel routine of the model returns, the sequencing combinators the
  routines are written with, and the lemmas on them that the component theories share.

  A kernel routine is a function from a state to a result. A result is one of:
  \<^item> \<open>Ret a s\<close>: the routine returns \<open>a\<close> in state \<open>s\<close>;
  \<^item> \<open>Sched s k\<close>: the routine has switched to the per-CPU scheduler (\<^verbatim>\<open>swtch\<close> in \<^verbatim>\<open>sched()\<close>) in
    state \<open>s\<close>; when its process is picked again, in whatever state \<open>t\<close> that happens, it goes
    on as \<open>k t\<close>;
  \<^item> \<open>Spin s\<close>: the routine busy-waits for a spin lock that another CPU holds;
  \<^item> \<open>Panic m\<close>: the kernel called \<^verbatim>\<open>panic(m)\<close>, which never returns;
  \<^item> \<open>UB\<close>: the C program has undefined behaviour here (a null pointer is followed, an object
    is accessed out of its bounds);
  \<^item> \<open>Loop\<close>: a loop of the source has not ended within the fuel it was given.
\<close>

type_synonym u8 = "8 word"
type_synonym u16 = "16 word"
type_synonym u32 = "32 word"
type_synonym u64 = "64 word"

named_theorems kstep \<open>equations that execute one statement of a routine\<close>
named_theorems kframe \<open>what a routine leaves unchanged\<close>

datatype ('s, 'a) kres =
    Ret 'a 's | Sched 's "'s \<Rightarrow> ('s, 'a) kres" | Spin 's | Panic string | UB | Loop

text \<open>Sequencing goes under the switches: what follows a routine that sleeps runs behind it.\<close>

primrec kthen :: "('s, 'a) kres \<Rightarrow> ('a \<Rightarrow> 's \<Rightarrow> ('s, 'b) kres) \<Rightarrow> ('s, 'b) kres" where
  "kthen (Ret a s) g = g a s"
| "kthen (Sched s k) g = Sched s (\<lambda>t. kthen (k t) g)"
| "kthen (Spin s) g = Spin s"
| "kthen (Panic m) g = Panic m"
| "kthen UB g = UB"
| "kthen Loop g = Loop"

definition kbind ::
  "('s \<Rightarrow> ('s, 'a) kres) \<Rightarrow> ('a \<Rightarrow> 's \<Rightarrow> ('s, 'b) kres) \<Rightarrow> 's \<Rightarrow> ('s, 'b) kres" where
  "kbind f g s = kthen (f s) g"

definition kret :: "'a \<Rightarrow> 's \<Rightarrow> ('s, 'a) kres" where
  "kret a s = Ret a s"

definition kget :: "('s \<Rightarrow> 'a) \<Rightarrow> 's \<Rightarrow> ('s, 'a) kres" where
  "kget f s = Ret (f s) s"

definition kmod :: "('s \<Rightarrow> 's) \<Rightarrow> 's \<Rightarrow> ('s, unit) kres" where
  "kmod f s = Ret () (f s)"

definition kpanic :: "string \<Rightarrow> 's \<Rightarrow> ('s, 'a) kres" where
  "kpanic m s = Panic m"

definition kub :: "'s \<Rightarrow> ('s, 'a) kres" where
  "kub s = UB"

definition kwhen :: "bool \<Rightarrow> ('s \<Rightarrow> ('s, unit) kres) \<Rightarrow> 's \<Rightarrow> ('s, unit) kres" where
  "kwhen b f = (if b then f else kret ())"

text \<open>\<open>kseq f g\<close> is \<^verbatim>\<open>f; g\<close>, and \<open>kfor xs f\<close> a \<^verbatim>\<open>for\<close> loop over the indices \<open>xs\<close> in order.\<close>

definition kseq ::
  "('s \<Rightarrow> ('s, unit) kres) \<Rightarrow> ('s \<Rightarrow> ('s, 'b) kres) \<Rightarrow> 's \<Rightarrow> ('s, 'b) kres" where
  "kseq f g = kbind f (\<lambda>_. g)"

primrec kfor :: "'i list \<Rightarrow> ('i \<Rightarrow> 's \<Rightarrow> ('s, unit) kres) \<Rightarrow> 's \<Rightarrow> ('s, unit) kres" where
  "kfor [] f = kret ()"
| "kfor (i # is) f = kseq (f i) (kfor is f)"

lemma kbind_simps [simp]:
  "f s = Ret a s' \<Longrightarrow> kbind f g s = g a s'"
  "f s = Sched s' k \<Longrightarrow> kbind f g s = Sched s' (kbind k g)"
  "f s = Spin s' \<Longrightarrow> kbind f g s = Spin s'"
  "f s = Panic m \<Longrightarrow> kbind f g s = Panic m"
  "f s = UB \<Longrightarrow> kbind f g s = UB"
  "f s = Loop \<Longrightarrow> kbind f g s = Loop"
  by (simp_all add: kbind_def fun_eq_iff)

lemma kseq_simps [simp]:
  "f s = Ret a s' \<Longrightarrow> kseq f g s = g s'"
  "f s = Sched s' k \<Longrightarrow> kseq f g s = Sched s' (kseq k g)"
  "f s = Spin s' \<Longrightarrow> kseq f g s = Spin s'"
  "f s = Panic m \<Longrightarrow> kseq f g s = Panic m"
  "f s = UB \<Longrightarrow> kseq f g s = UB"
  "f s = Loop \<Longrightarrow> kseq f g s = Loop"
  by (simp_all add: kseq_def)

lemma kthen_eq_Ret: "kthen r g = Ret b t \<longleftrightarrow> (\<exists>a s. r = Ret a s \<and> g a s = Ret b t)"
  by (cases r) simp_all

lemma kbind_kret [simp]: "kbind (kret a) g s = g a s"
  by (simp add: kret_def kbind_def)

lemma kbind_kget [simp]: "kbind (kget f) g s = g (f s) s"
  by (simp add: kget_def kbind_def)

lemma kbind_kpanic [simp]: "kbind (kpanic m) g s = Panic m"
  by (simp add: kpanic_def kbind_def)

lemma kseq_kmod [simp]: "kseq (kmod f) g s = g (f s)"
  by (simp add: kmod_def kseq_def kbind_def)

lemma kseq_kret [simp]: "kseq (kret a) g s = g s"
  by (simp add: kret_def kseq_def kbind_def)

lemma kseq_kpanic [simp]: "kseq (kpanic m) g s = Panic m"
  by (simp add: kpanic_def kseq_def kbind_def)

lemma kwhen_simps [simp]: "kwhen True f = f" "kwhen False f = kret ()"
  by (simp_all add: kwhen_def)

lemma kthen_assoc: "kthen (kthen r g) h = kthen r (\<lambda>a s. kthen (g a s) h)"
  by (induction r) (simp_all add: fun_eq_iff)

lemma kbind_assoc: "kbind (kbind f g) h s = kbind f (\<lambda>a. kbind (g a) h) s"
  by (simp add: kbind_def [abs_def] kthen_assoc)

lemma kbind_eq_Ret:
  "kbind f g s = Ret b t \<longleftrightarrow> (\<exists>a s'. f s = Ret a s' \<and> g a s' = Ret b t)"
  by (simp add: kbind_def kthen_eq_Ret)

lemma kseq_eq_Ret:
  "kseq f g s = Ret b t \<longleftrightarrow> (\<exists>a s'. f s = Ret a s' \<and> g s' = Ret b t)"
  by (auto simp: kseq_def kbind_eq_Ret)

text \<open>
  \<open>returns P f Q\<close>: from every state with \<open>P\<close> the routine returns, and its value and final
  state satisfy \<open>Q\<close> (total correctness: no panic, no undefined behaviour, no blocking).
\<close>

definition returns :: "('s \<Rightarrow> bool) \<Rightarrow> ('s \<Rightarrow> ('s, 'a) kres) \<Rightarrow> ('a \<Rightarrow> 's \<Rightarrow> bool) \<Rightarrow> bool" where
  "returns P f Q \<longleftrightarrow> (\<forall>s. P s \<longrightarrow> (\<exists>a s'. f s = Ret a s' \<and> Q a s'))"

lemma returnsI: "(\<And>s. P s \<Longrightarrow> \<exists>a s'. f s = Ret a s' \<and> Q a s') \<Longrightarrow> returns P f Q"
  by (simp add: returns_def)

lemma returnsE:
  assumes "returns P f Q" and "P s"
  obtains a s' where "f s = Ret a s'" and "Q a s'"
  using assms by (auto simp: returns_def)

lemma returns_kret: "returns (Q a) (kret a) Q"
  by (simp add: returns_def kret_def)

lemma returns_kseq:
  assumes "returns P f (\<lambda>_. R)" and "returns R g Q"
  shows "returns P (kseq f g) Q"
  using assms by (fastforce simp: returns_def)

lemma returns_kbind:
  assumes "returns P f R" and "\<And>a. returns (R a) (g a) Q"
  shows "returns P (kbind f g) Q"
  using assms by (fastforce simp: returns_def)

lemma returns_kfor:
  assumes "\<And>i. i \<in> set is \<Longrightarrow> returns I (f i) (\<lambda>_. I)"
  shows "returns I (kfor is f) (\<lambda>_. I)"
  using assms
proof (induction "is")
  case Nil
  show ?case by (simp add: returns_def kret_def)
next
  case (Cons i "is")
  then show ?case by (auto intro: returns_kseq)
qed

text \<open>The remainder of C's \<^verbatim>\<open>%\<close> truncates towards zero; on a non-negative dividend it is \<open>mod\<close>.\<close>

lemma smod_nonneg: "0 \<le> a \<Longrightarrow> 0 < b \<Longrightarrow> a smod b = a mod (b::int)"
  by (cases "a = 0") (simp_all add: signed_modulo_int_def)

end
