(* ===== verification/Kstring.thy ===== *)
theory Kstring
  imports Prelude
begin

text \<open>
  The byte memory of the machine and the routines of \<^verbatim>\<open>kernel/string.c\<close> on it: \<^verbatim>\<open>memset\<close>,
  \<^verbatim>\<open>memcmp\<close>, \<^verbatim>\<open>memmove\<close>, \<^verbatim>\<open>memcpy\<close>, \<^verbatim>\<open>strncmp\<close>, \<^verbatim>\<open>strncpy\<close>, \<^verbatim>\<open>safestrcpy\<close> and \<^verbatim>\<open>strlen\<close>. A pointer is a
  64-bit address, pointer arithmetic wraps as it does on the machine, and every loop is a
  recursion over the count the loop decrements. A routine that writes returns the memory it
  leaves; the destination pointer that the C routine also returns is the caller's argument.
\<close>

type_synonym mem = "u64 \<Rightarrow> u8"

subsection \<open>Regions of memory\<close>

text \<open>\<open>in_region p n a\<close>: address \<open>a\<close> is one of the \<open>n\<close> bytes from \<open>p\<close> on.\<close>

definition in_region :: "u64 \<Rightarrow> nat \<Rightarrow> u64 \<Rightarrow> bool" where
  "in_region p n a \<longleftrightarrow> unat (a - p) < n"

subsection \<open>The routines\<close>

primrec memset_loop :: "mem \<Rightarrow> u64 \<Rightarrow> u8 \<Rightarrow> nat \<Rightarrow> nat \<Rightarrow> mem" where
  "memset_loop m cdst c 0 i = m"
| "memset_loop m cdst c (Suc k) i = memset_loop (m(cdst + of_nat i := c)) cdst c k (Suc i)"

definition memset :: "mem \<Rightarrow> u64 \<Rightarrow> u8 \<Rightarrow> u32 \<Rightarrow> mem" where
  "memset m dst c n = memset_loop m dst c (unat n) 0"

primrec memcmp_loop :: "mem \<Rightarrow> u64 \<Rightarrow> u64 \<Rightarrow> nat \<Rightarrow> int" where
  "memcmp_loop m s1 s2 0 = 0"
| "memcmp_loop m s1 s2 (Suc n) =
     (if m s1 \<noteq> m s2 then uint (m s1) - uint (m s2) else memcmp_loop m (s1 + 1) (s2 + 1) n)"

definition memcmp :: "mem \<Rightarrow> u64 \<Rightarrow> u64 \<Rightarrow> u32 \<Rightarrow> int" where
  "memcmp m v1 v2 n = memcmp_loop m v1 v2 (unat n)"

text \<open>\<open>copy_back\<close> is \<^verbatim>\<open>while (n-- > 0) *--d = *--s\<close>, \<open>copy_fwd\<close> is \<^verbatim>\<open>while (n-- > 0) *d++ = *s++\<close>.\<close>

primrec copy_back :: "mem \<Rightarrow> u64 \<Rightarrow> u64 \<Rightarrow> nat \<Rightarrow> mem" where
  "copy_back m d s 0 = m"
| "copy_back m d s (Suc n) = copy_back (m(d - 1 := m (s - 1))) (d - 1) (s - 1) n"

primrec copy_fwd :: "mem \<Rightarrow> u64 \<Rightarrow> u64 \<Rightarrow> nat \<Rightarrow> mem" where
  "copy_fwd m d s 0 = m"
| "copy_fwd m d s (Suc n) = copy_fwd (m(d := m s)) (d + 1) (s + 1) n"

definition memmove :: "mem \<Rightarrow> u64 \<Rightarrow> u64 \<Rightarrow> u32 \<Rightarrow> mem" where
  "memmove m dst src n =
     (if n = 0 then m
      else if src < dst \<and> dst < src + ucast n
      then copy_back m (dst + ucast n) (src + ucast n) (unat n)
      else copy_fwd m dst src (unat n))"

definition memcpy :: "mem \<Rightarrow> u64 \<Rightarrow> u64 \<Rightarrow> u32 \<Rightarrow> mem" where
  "memcpy m dst src n = memmove m dst src n"

primrec strncmp_loop :: "mem \<Rightarrow> u64 \<Rightarrow> u64 \<Rightarrow> nat \<Rightarrow> int" where
  "strncmp_loop m p q 0 = 0"
| "strncmp_loop m p q (Suc n) =
     (if m p \<noteq> 0 \<and> m p = m q then strncmp_loop m (p + 1) (q + 1) n
      else uint (m p) - uint (m q))"

definition strncmp :: "mem \<Rightarrow> u64 \<Rightarrow> u64 \<Rightarrow> u32 \<Rightarrow> int" where
  "strncmp m p q n = strncmp_loop m p q (unat n)"

text \<open>The two loops of \<^verbatim>\<open>strncpy\<close>: copy up to and including the NUL, then fill with NULs.\<close>

primrec zero_fill :: "mem \<Rightarrow> u64 \<Rightarrow> nat \<Rightarrow> mem" where
  "zero_fill m s 0 = m"
| "zero_fill m s (Suc n) = zero_fill (m(s := 0)) (s + 1) n"

primrec strncpy_loop :: "mem \<Rightarrow> u64 \<Rightarrow> u64 \<Rightarrow> nat \<Rightarrow> mem" where
  "strncpy_loop m s t 0 = m"
| "strncpy_loop m s t (Suc n) =
     (let m' = m(s := m t)
      in if m t \<noteq> 0 then strncpy_loop m' (s + 1) (t + 1) n else zero_fill m' (s + 1) n)"

definition strncpy :: "mem \<Rightarrow> u64 \<Rightarrow> u64 \<Rightarrow> int \<Rightarrow> mem" where
  "strncpy m s t n = strncpy_loop m s t (nat n)"

text \<open>
  The loop of \<^verbatim>\<open>safestrcpy\<close> with \<open>Suc n\<close> left before the pre-decrement \<^verbatim>\<open>--n\<close>. After the NUL of
  the source has been copied the pointer has moved past it, so a second NUL is written.
\<close>

primrec safestrcpy_loop :: "mem \<Rightarrow> u64 \<Rightarrow> u64 \<Rightarrow> nat \<Rightarrow> mem" where
  "safestrcpy_loop m s t 0 = m(s := 0)"
| "safestrcpy_loop m s t (Suc n) =
     (let m' = m(s := m t)
      in if m t \<noteq> 0 then safestrcpy_loop m' (s + 1) (t + 1) n else m'(s + 1 := 0))"

definition safestrcpy :: "mem \<Rightarrow> u64 \<Rightarrow> u64 \<Rightarrow> int \<Rightarrow> mem" where
  "safestrcpy m s t n = (if n \<le> 0 then m else safestrcpy_loop m s t (nat (n - 1)))"

text \<open>\<^verbatim>\<open>strlen\<close> runs on until it finds a NUL: \<open>None\<close> stands for a loop that does not end.\<close>

partial_function (option) strlen_loop :: "mem \<Rightarrow> u64 \<Rightarrow> nat \<Rightarrow> nat option" where
  "strlen_loop m s n = (if m (s + of_nat n) = 0 then Some n else strlen_loop m s (Suc n))"

definition strlen :: "mem \<Rightarrow> u64 \<Rightarrow> nat option" where
  "strlen m s = strlen_loop m s 0"

subsection \<open>Words in memory\<close>

text \<open>64-bit loads and stores, little-endian as on RISC-V.\<close>

definition load64 :: "mem \<Rightarrow> u64 \<Rightarrow> u64" where
  "load64 m a = word_of_int (horner_sum uint 256 (map (\<lambda>i. m (a + of_nat i)) [0..<8]))"

definition store64 :: "mem \<Rightarrow> u64 \<Rightarrow> u64 \<Rightarrow> mem" where
  "store64 m a v =
     (\<lambda>b. if in_region a 8 b then ucast (drop_bit (8 * unat (b - a)) v) else m b)"

subsection \<open>Offsets inside a region\<close>

lemma unat_of_nat_u64: "k < 2 ^ 64 \<Longrightarrow> unat (of_nat k :: u64) = k"
  by (simp add: unat_of_nat take_bit_nat_eq_self)

lemma in_region_offset: "k < 2 ^ 64 \<Longrightarrow> in_region p n (p + of_nat k) \<longleftrightarrow> k < n"
  by (simp add: in_region_def unat_of_nat_u64)

lemma in_regionE:
  assumes "in_region p n a"
  obtains k where "k < n" "k < 2 ^ 64" "a = p + of_nat k"
proof
  show "unat (a - p) < n" using assms by (simp add: in_region_def)
  show "unat (a - p) < 2 ^ 64" using unsigned_less [of "a - p", where 'a = nat] by simp
  show "a = p + of_nat (unat (a - p))" by simp
qed

lemma in_region_Suc: "Suc n < 2 ^ 64 \<Longrightarrow> in_region p (Suc n) a \<longleftrightarrow> a = p \<or> in_region (p + 1) n a"
proof -
  assume n: "Suc n < 2 ^ 64"
  show ?thesis
  proof (cases "a = p")
    case True
    then show ?thesis by (simp add: in_region_def)
  next
    case False
    then have "0 < unat (a - p)" by (simp add: unat_gt_0)
    with False have "unat (a - p) = Suc (unat (a - (p + 1)))"
      using unat_minus_one [of "a - p"] by (simp add: diff_diff_eq)
    with False show ?thesis by (simp add: in_region_def)
  qed
qed

lemma in_region_last: "n < 2 ^ 64 \<Longrightarrow> in_region p (Suc n) a \<longleftrightarrow> in_region p n a \<or> a = p + of_nat n"
proof -
  assume n: "n < 2 ^ 64"
  have "unat (a - p) = n \<longleftrightarrow> a = p + of_nat n"
    using unat_of_nat_u64 [OF n] by auto
  then show ?thesis by (auto simp: in_region_def less_Suc_eq)
qed

lemma unat_minus_one_u64: "unat (- 1 :: u64) = 2 ^ 64 - 1"
  by (simp add: unsigned_minus_1_eq_mask mask_eq_exp_minus_1)

lemma unat_u32_lt: "unat (n :: u32) < 2 ^ 32"
  using unsigned_less [of n, where 'a = nat] by simp

subsection \<open>What the routines write\<close>

lemma memset_loop_eq:
  "i + k < 2 ^ 64 \<Longrightarrow>
   memset_loop m d c k i a = (if in_region (d + of_nat i) k a then c else m a)"
proof (induction k arbitrary: m i)
  case 0
  then show ?case by (simp add: in_region_def)
next
  case (Suc k)
  then have "in_region (d + of_nat i) (Suc k) a \<longleftrightarrow>
      a = d + of_nat i \<or> in_region (d + of_nat (Suc i)) k a"
    by (subst in_region_Suc) (simp_all add: add.assoc add.commute [of 1])
  with Suc show ?case by simp
qed

lemma memset_eq: "memset m d c n a = (if in_region d (unat n) a then c else m a)"
  using unat_u32_lt [of n] by (simp add: memset_def memset_loop_eq)

lemma copy_fwd_eq:
  assumes "unat (d - s) = 0 \<or> n \<le> unat (d - s)" and "n < 2 ^ 64"
  shows "copy_fwd m d s n a = (if in_region d n a then m (s + (a - d)) else m a)"
  using assms
proof (induction n arbitrary: m d s)
  case 0
  then show ?case by (simp add: in_region_def)
next
  case (Suc n)
  have split: "in_region d (Suc n) a \<longleftrightarrow> a = d \<or> in_region (d + 1) n a"
    using Suc.prems(2) by (rule in_region_Suc)
  have IH: "copy_fwd (m(d := m s)) (d + 1) (s + 1) n a =
      (if in_region (d + 1) n a then (m(d := m s)) (s + 1 + (a - (d + 1))) else (m(d := m s)) a)"
    by (rule Suc.IH) (use Suc.prems in \<open>auto simp: algebra_simps\<close>)
  have src: "s + (a - d) \<noteq> d \<or> a = d" if r: "in_region (d + 1) n a"
  proof (rule ccontr)
    assume no: "\<not> ?thesis"
    then have "d - s = a - d" by (auto simp: algebra_simps)
    moreover have "unat (a - d) < Suc n" using r split by (simp add: in_region_def)
    ultimately have "unat (d - s) = 0" using Suc.prems(1) by auto
    then have "d = s" by (metis diff_add_cancel add_0 unat_eq_0)
    with no show False by (auto simp: algebra_simps)
  qed
  show ?case
  proof (cases "in_region (d + 1) n a")
    case True
    then show ?thesis using IH src [OF True] split by (auto simp: algebra_simps)
  next
    case False
    then show ?thesis using IH split by auto
  qed
qed

lemma copy_back_eq:
  assumes "unat (s - d) = 0 \<or> n \<le> unat (s - d)" and "n < 2 ^ 64"
  shows "copy_back m d s n a = (if in_region (d - of_nat n) n a then m (s + (a - d)) else m a)"
  using assms
proof (induction n arbitrary: m d s)
  case 0
  then show ?case by (simp add: in_region_def)
next
  case (Suc n)
  have split: "in_region (d - of_nat (Suc n)) (Suc n) a \<longleftrightarrow>
      in_region (d - 1 - of_nat n) n a \<or> a = d - 1"
    using Suc.prems(2) by (subst in_region_last) (simp_all add: algebra_simps)
  have IH: "copy_back (m(d - 1 := m (s - 1))) (d - 1) (s - 1) n a =
      (if in_region (d - 1 - of_nat n) n a then (m(d - 1 := m (s - 1))) (s - 1 + (a - (d - 1)))
       else (m(d - 1 := m (s - 1))) a)"
    by (rule Suc.IH) (use Suc.prems in \<open>auto simp: algebra_simps\<close>)
  have src: "s + (a - d) \<noteq> d - 1 \<or> a = d - 1" if r: "in_region (d - 1 - of_nat n) n a"
  proof (rule ccontr)
    assume no: "\<not> ?thesis"
    obtain k where k: "k < n" "a = d - 1 - of_nat n + of_nat k"
      using r by (rule in_regionE)
    with no have "s - d = of_nat n - of_nat k" by (auto simp: algebra_simps)
    then have sd: "s - d = of_nat (n - k)" using k(1) by (simp add: of_nat_diff)
    then have "unat (s - d) = n - k" using Suc.prems(2) by (simp add: unat_of_nat_u64)
    with k(1) Suc.prems(1) show False by auto
  qed
  show ?case
  proof (cases "in_region (d - 1 - of_nat n) n a")
    case True
    then show ?thesis using IH src [OF True] split by (auto simp: algebra_simps)
  next
    case False
    then show ?thesis using IH split by auto
  qed
qed

lemma unat_diff_wrap: "(x :: u64) < y \<Longrightarrow> unat (x - y) = 2 ^ 64 - (unat y - unat x)"
  by (simp add: unat_sub_if' word_less_nat_alt)

text \<open>
  Copying a region onto another gives the destination the bytes the source had before,
  whatever the overlap.
\<close>

lemma memmove_eq:
  assumes src: "unat src + unat n < 2 ^ 64" and dst: "unat dst + unat n < 2 ^ 64"
  shows "memmove m dst src n a = (if in_region dst (unat n) a then m (src + (a - dst)) else m a)"
proof -
  let ?n = "unat n"
  have n32: "?n < 2 ^ 64" using unat_u32_lt [of n] by simp
  have un: "unat (ucast n :: u64) = ?n" using n32 by (simp add: unsigned_ucast_eq take_bit_nat_eq_self)
  have sn: "unat (src + ucast n) = unat src + ?n"
    using src by (simp add: unat_word_ariths un)
  consider (zero) "n = 0" | (bwd) "n \<noteq> 0" "src < dst" "dst < src + ucast n"
    | (fwd) "n \<noteq> 0" "\<not> (src < dst \<and> dst < src + ucast n)" by blast
  then show ?thesis
  proof cases
    case zero
    then show ?thesis by (simp add: memmove_def in_region_def)
  next
    case bwd
    have "?n \<le> unat (src - dst)"
      using bwd(2) dst by (simp add: unat_diff_wrap word_less_nat_alt)
    then have "?n \<le> unat (src + ucast n - (dst + ucast n))" by simp
    then show ?thesis using bwd n32
      by (simp add: memmove_def copy_back_eq algebra_simps)
  next
    case fwd
    have "unat (dst - src) = 0 \<or> ?n \<le> unat (dst - src)"
    proof (cases "dst < src")
      case True
      then show ?thesis using src by (simp add: unat_diff_wrap word_less_nat_alt)
    next
      case False
      show ?thesis
      proof (cases "src = dst")
        case False
        with \<open>\<not> dst < src\<close> fwd(2) sn have "unat src + ?n \<le> unat dst"
          by (auto simp: word_less_nat_alt not_less word_unat_eq_iff)
        then show ?thesis by (auto simp: unat_sub_if')
      qed simp
    qed
    then show ?thesis using fwd n32 by (auto simp: memmove_def copy_fwd_eq)
  qed
qed

lemma memcmp_loop_zero: "memcmp_loop m p q n = 0 \<longleftrightarrow> (\<forall>i < n. m (p + of_nat i) = m (q + of_nat i))"
proof (induction n arbitrary: p q)
  case 0
  then show ?case by simp
next
  case (Suc n)
  have "(\<forall>i < Suc n. m (p + of_nat i) = m (q + of_nat i)) \<longleftrightarrow>
      m p = m q \<and> (\<forall>i < n. m (p + 1 + of_nat i) = m (q + 1 + of_nat i))"
    by (auto simp: All_less_Suc2 add.assoc)
  with Suc show ?case by (simp add: word_uint_eq_iff)
qed

lemma strncmp_loop_zero:
  "strncmp_loop m p q n = 0 \<longleftrightarrow>
   (\<forall>i < n. (\<forall>j < i. m (p + of_nat j) \<noteq> 0) \<longrightarrow> m (p + of_nat i) = m (q + of_nat i))"
proof (induction n arbitrary: p q)
  case 0
  then show ?case by simp
next
  case (Suc n)
  have "(\<forall>i < Suc n. (\<forall>j < i. m (p + of_nat j) \<noteq> 0) \<longrightarrow> m (p + of_nat i) = m (q + of_nat i)) \<longleftrightarrow>
      m p = m q \<and> (m p \<noteq> 0 \<longrightarrow>
        (\<forall>i < n. (\<forall>j < i. m (p + 1 + of_nat j) \<noteq> 0) \<longrightarrow> m (p + 1 + of_nat i) = m (q + 1 + of_nat i)))"
    by (auto simp: All_less_Suc2 add.assoc)
  with Suc show ?case by (auto simp: word_uint_eq_iff)
qed

lemma zero_fill_eq:
  "n < 2 ^ 64 \<Longrightarrow> zero_fill m s n a = (if in_region s n a then 0 else m a)"
  by (induction n arbitrary: m s) (auto simp: in_region_def [of _ 0] in_region_Suc)

lemma strlen_loop_found:
  "m (s + of_nat (n + k)) = 0 \<Longrightarrow> \<forall>i < k. m (s + of_nat (n + i)) \<noteq> 0 \<Longrightarrow>
   strlen_loop m s n = Some (n + k)"
proof (induction k arbitrary: n)
  case 0
  then show ?case by (subst strlen_loop.simps) simp
next
  case (Suc k)
  have "m (s + of_nat (Suc n + i)) \<noteq> 0" if "i < k" for i
    using Suc.prems(2) that by (metis Suc_less_eq add_Suc add_Suc_right)
  with Suc.prems(1) have "strlen_loop m s (Suc n) = Some (Suc n + k)"
    by (intro Suc.IH) simp_all
  moreover have "m (s + of_nat n) \<noteq> 0" using Suc.prems(2) by force
  ultimately show ?case by (subst strlen_loop.simps) simp
qed

text \<open>
  \<^verbatim>\<open>safestrcpy\<close> writes only inside its buffer of \<open>Suc n\<close> bytes, leaves a NUL in it, and the bytes
  before that NUL are the source's, as long as the two buffers are disjoint.
\<close>

definition disjoint_regions :: "u64 \<Rightarrow> nat \<Rightarrow> u64 \<Rightarrow> nat \<Rightarrow> bool" where
  "disjoint_regions p k q l \<longleftrightarrow> (\<forall>a. \<not> (in_region p k a \<and> in_region q l a))"

lemma disjoint_regions_Suc:
  "disjoint_regions p (Suc k) q (Suc l) \<Longrightarrow> Suc k < 2 ^ 64 \<Longrightarrow> Suc l < 2 ^ 64 \<Longrightarrow>
   disjoint_regions (p + 1) k (q + 1) l"
  by (auto simp: disjoint_regions_def in_region_Suc)

lemma safestrcpy_loop_frame:
  "Suc n < 2 ^ 64 \<Longrightarrow> \<not> in_region s (Suc n) a \<Longrightarrow> safestrcpy_loop m s t n a = m a"
proof (induction n arbitrary: m s t)
  case 0
  then show ?case by (auto simp: in_region_def)
next
  case (Suc n)
  then have "a \<noteq> s" and r: "\<not> in_region (s + 1) (Suc n) a"
    by (simp_all add: in_region_Suc)
  moreover from r have "a \<noteq> s + 1" by (auto simp: in_region_def)
  ultimately show ?case using Suc by (simp add: Let_def)
qed

lemma safestrcpy_loop_copies:
  assumes "Suc n < 2 ^ 64" and "disjoint_regions s (Suc n) t (Suc n)"
  shows "\<exists>k \<le> n. safestrcpy_loop m s t n (s + of_nat k) = 0 \<and>
     (\<forall>i < k. m (t + of_nat i) \<noteq> 0 \<and> safestrcpy_loop m s t n (s + of_nat i) = m (t + of_nat i)) \<and>
     (k < n \<longrightarrow> m (t + of_nat k) = 0)"
  using assms
proof (induction n arbitrary: m s t)
  case 0
  then show ?case by simp
next
  case (Suc n)
  let ?m = "m(s := m t)"
  have fr: "safestrcpy_loop ?m (s + 1) (t + 1) n s = m t"
    using Suc.prems(1) by (subst safestrcpy_loop_frame) (simp_all add: in_region_def unat_minus_one_u64)
  have tsrc: "?m (t + 1 + of_nat i) = m (t + 1 + of_nat i)" if "i \<le> n" for i
  proof -
    have "in_region t (Suc (Suc n)) (t + of_nat (Suc i))"
      using that Suc.prems(1) by (subst in_region_offset) simp_all
    moreover have "in_region s (Suc (Suc n)) s" by (simp add: in_region_def)
    ultimately have "t + of_nat (Suc i) \<noteq> s"
      using Suc.prems(2) by (metis disjoint_regions_def)
    then show ?thesis by (auto simp: add.assoc)
  qed
  show ?case
  proof (cases "m t = 0")
    case True
    then show ?thesis by (intro exI [of _ 0]) (simp add: Let_def)
  next
    case False
    have "disjoint_regions (s + 1) (Suc n) (t + 1) (Suc n)"
      using disjoint_regions_Suc [OF Suc.prems(2)] Suc.prems(1) by simp
    moreover have "Suc n < 2 ^ 64" using Suc.prems(1) by simp
    ultimately obtain k where k: "k \<le> n" "safestrcpy_loop ?m (s + 1) (t + 1) n (s + 1 + of_nat k) = 0"
      "\<forall>i < k. ?m (t + 1 + of_nat i) \<noteq> 0 \<and>
         safestrcpy_loop ?m (s + 1) (t + 1) n (s + 1 + of_nat i) = ?m (t + 1 + of_nat i)"
      "k < n \<longrightarrow> ?m (t + 1 + of_nat k) = 0"
      using Suc.IH [of "s + 1" "t + 1" ?m] by blast
    have "\<forall>i < Suc k. m (t + of_nat i) \<noteq> 0 \<and>
        safestrcpy_loop ?m (s + 1) (t + 1) n (s + of_nat i) = m (t + of_nat i)"
      using k(1,3) tsrc False fr by (simp add: All_less_Suc2 add.assoc)
    with k(1,2,4) tsrc [of k] False show ?thesis
      by (intro exI [of _ "Suc k"]) (simp add: Let_def add.assoc)
  qed
qed

subsection \<open>Loads and stores of words\<close>

lemma store64_frame: "\<not> in_region a 8 b \<Longrightarrow> store64 m a v b = m b"
  by (simp add: store64_def)

lemma load64_cong: "(\<And>b. in_region a 8 b \<Longrightarrow> m b = m' b) \<Longrightarrow> load64 m a = load64 m' a"
  unfolding load64_def
  by (intro arg_cong [where f = word_of_int] arg_cong [where f = "horner_sum uint 256"] map_cong)
    (auto simp: in_region_offset)

lemma bit_horner_sum_u8:
  "bit (horner_sum uint 256 ws) n \<longleftrightarrow> n div 8 < length ws \<and> bit (ws ! (n div 8)) (n mod 8)"
  for ws :: "u8 list"
  using bit_horner_sum_uint_exp_iff [of ws n] by simp

lemma load64_store64 [simp]: "load64 (store64 m a v) a = v"
proof (rule bit_word_eqI)
  fix n assume n: "n < LENGTH(64)"
  let ?bs = "map (\<lambda>i. store64 m a v (a + of_nat i)) [0..<8]"
  have d: "n div 8 < 8" using n by simp
  then have "?bs ! (n div 8) = store64 m a v (a + of_nat (n div 8))"
    by (simp del: upt_rec_numeral)
  also have "\<dots> = ucast (drop_bit (8 * (n div 8)) v)"
    using d by (simp add: store64_def in_region_offset unat_of_nat_u64)
  finally have b: "?bs ! (n div 8) = ucast (drop_bit (8 * (n div 8)) v)" .
  have "bit (load64 (store64 m a v) a) n \<longleftrightarrow> bit (?bs ! (n div 8)) (n mod 8)"
    using n d by (simp add: load64_def bit_word_of_int_iff bit_horner_sum_u8 del: upt_rec_numeral)
  also have "\<dots> \<longleftrightarrow> bit v (8 * (n div 8) + n mod 8)"
    by (simp add: b bit_unsigned_iff bit_drop_bit_eq)
  finally show "bit (load64 (store64 m a v) a) n = bit v n" by simp
qed

lemma load64_store64_other:
  "disjoint_regions a 8 b 8 \<Longrightarrow> load64 (store64 m a v) b = load64 m b"
  by (intro load64_cong store64_frame) (auto simp: disjoint_regions_def)

end
