(* ===== verification/Spinlock.thy ===== *)
theory Spinlock
  imports Prelude
begin

text \<open>
  Spin locks and the interrupt-enable stack: \<^verbatim>\<open>kernel/spinlock.c\<close>, with \<^verbatim>\<open>struct spinlock\<close>
  (\<^verbatim>\<open>kernel/spinlock.h\<close>), the per-CPU state \<^verbatim>\<open>struct cpu\<close> (\<^verbatim>\<open>kernel/proc.h\<close>) and the routines
  \<^verbatim>\<open>cpuid\<close>, \<^verbatim>\<open>mycpu\<close> and \<^verbatim>\<open>myproc\<close> of \<^verbatim>\<open>kernel/proc.c\<close>. The routines run on one hart (the \<open>tp\<close>
  field of the state); a lock that another hart holds makes \<open>acquire\<close> spin.

  The state of harts and locks is the record \<open>kcore\<close>; it is the first field of the kernel's
  state, which the other components extend with their own fields. The first half of the
  theory holds the routines, the second what they do to \<open>kcore\<close>: \<open>c_acq\<close>, \<open>c_rel\<close> and \<open>touch\<close>
  are the net effects of \<open>acquire\<close>, of \<open>release\<close> and of a closed critical section.
\<close>

subsection \<open>Data\<close>

text \<open>Every spin lock of the kernel has a name in the model.\<close>

datatype lockid =
    PidLock | WaitLock | MlfqLock | TicksLock | KmemLock | FtableLock | BcacheLock | LogLock
  | ItableLock | ConsLock | PrLock | VdiskLock | TxLk
  | ProcLock nat | PipeLock u64 | BufLk nat | InodeLk nat

record spinlock =
  locked :: u32
  lname :: string
  lcpu :: "nat option"

text \<open>Callee-saved registers saved by \<^verbatim>\<open>swtch\<close>: \<open>ra\<close>, \<open>sp\<close> and \<open>s0\<close> to \<open>s11\<close>.\<close>

datatype ctxreg = C_ra | C_sp | C_s nat

type_synonym kcontext = "ctxreg \<Rightarrow> u64"

record cpu =
  cproc :: "nat option"
  ccontext :: kcontext
  noff :: int
  intena :: bool

text \<open>\<open>sie\<close> is the supervisor interrupt-enable bit of each hart's \<^verbatim>\<open>sstatus\<close> register.\<close>

record kcore =
  tp :: nat
  cpus :: "nat \<Rightarrow> cpu"
  sie :: "nat \<Rightarrow> bool"
  locks :: "lockid \<Rightarrow> spinlock"

record kbase =
  core :: kcore

text \<open>The state the loader leaves: every global is zero, hart 0 runs.\<close>

definition core0 :: kcore where
  "core0 = \<lparr>tp = 0,
     cpus = (\<lambda>_. \<lparr>cproc = None, ccontext = (\<lambda>_. 0), noff = 0, intena = False\<rparr>),
     sie = (\<lambda>_. False), locks = (\<lambda>_. \<lparr>locked = 0, lname = [], lcpu = None\<rparr>)\<rparr>"

subsection \<open>Routines\<close>

definition cpuid :: "kcore \<Rightarrow> nat" where
  "cpuid c = tp c"

definition mycpu :: "kcore \<Rightarrow> cpu" where
  "mycpu c = cpus c (cpuid c)"

definition upd_mycpu :: "(cpu \<Rightarrow> cpu) \<Rightarrow> kcore \<Rightarrow> kcore" where
  "upd_mycpu f c = c\<lparr>cpus := (cpus c)(cpuid c := f (mycpu c))\<rparr>"

definition upd_lock :: "lockid \<Rightarrow> (spinlock \<Rightarrow> spinlock) \<Rightarrow> kcore \<Rightarrow> kcore" where
  "upd_lock lk f c = c\<lparr>locks := (locks c)(lk := f (locks c lk))\<rparr>"

definition kcore_mod :: "(kcore \<Rightarrow> kcore) \<Rightarrow> 'z kbase_scheme \<Rightarrow> ('z kbase_scheme, unit) kres" where
  "kcore_mod f = kmod (\<lambda>s. s\<lparr>core := f (core s)\<rparr>)"

definition intr_get :: "kcore \<Rightarrow> bool" where
  "intr_get c = sie c (cpuid c)"

definition set_sie :: "bool \<Rightarrow> kcore \<Rightarrow> kcore" where
  "set_sie b c = c\<lparr>sie := (sie c)(cpuid c := b)\<rparr>"

definition intr_on :: "'z kbase_scheme \<Rightarrow> ('z kbase_scheme, unit) kres" where
  "intr_on = kcore_mod (set_sie True)"

definition intr_off :: "'z kbase_scheme \<Rightarrow> ('z kbase_scheme, unit) kres" where
  "intr_off = kcore_mod (set_sie False)"

definition initlock :: "lockid \<Rightarrow> string \<Rightarrow> 'z kbase_scheme \<Rightarrow> ('z kbase_scheme, unit) kres" where
  "initlock lk nm = kcore_mod (upd_lock lk (\<lambda>_. \<lparr>locked = 0, lname = nm, lcpu = None\<rparr>))"

definition holding :: "lockid \<Rightarrow> kcore \<Rightarrow> bool" where
  "holding lk c \<longleftrightarrow> locked (locks c lk) \<noteq> 0 \<and> lcpu (locks c lk) = Some (cpuid c)"

definition push_off :: "'z kbase_scheme \<Rightarrow> ('z kbase_scheme, unit) kres" where
  "push_off =
     kbind (kget (\<lambda>s. intr_get (core s))) (\<lambda>old.
     kseq intr_off (
     kbind (kget (\<lambda>s. noff (mycpu (core s)))) (\<lambda>n.
     kseq (kwhen (n = 0) (kcore_mod (upd_mycpu (\<lambda>c. c\<lparr>intena := old\<rparr>))))
          (kcore_mod (upd_mycpu (\<lambda>c. c\<lparr>noff := noff c + 1\<rparr>))))))"

definition pop_off :: "'z kbase_scheme \<Rightarrow> ('z kbase_scheme, unit) kres" where
  "pop_off =
     kbind (kget (\<lambda>s. intr_get (core s))) (\<lambda>on.
     if on then kpanic ''pop_off - interruptible''
     else kbind (kget (\<lambda>s. noff (mycpu (core s)))) (\<lambda>n.
       if n < 1 then kpanic ''pop_off''
       else kseq (kcore_mod (upd_mycpu (\<lambda>c. c\<lparr>noff := noff c - 1\<rparr>)))
         (kbind (kget (\<lambda>s. noff (mycpu (core s)) = 0 \<and> intena (mycpu (core s)))) (\<lambda>b.
          kwhen b intr_on))))"

text \<open>
  \<^verbatim>\<open>acquire\<close>: the atomic exchange either finds the lock free and takes it, or the routine
  spins; interrupts are off in both cases.
\<close>

definition acquire :: "lockid \<Rightarrow> 'z kbase_scheme \<Rightarrow> ('z kbase_scheme, unit) kres" where
  "acquire lk =
     kseq push_off (
     kbind (kget (\<lambda>s. holding lk (core s))) (\<lambda>h.
     if h then kpanic ''acquire''
     else kbind (kget (\<lambda>s. locked (locks (core s) lk))) (\<lambda>l.
       if l \<noteq> 0 then Spin
       else kseq (kcore_mod (upd_lock lk (\<lambda>v. v\<lparr>locked := 1\<rparr>)))
                 (kcore_mod (\<lambda>c. upd_lock lk (\<lambda>v. v\<lparr>lcpu := Some (cpuid c)\<rparr>) c)))))"

definition release :: "lockid \<Rightarrow> 'z kbase_scheme \<Rightarrow> ('z kbase_scheme, unit) kres" where
  "release lk =
     kbind (kget (\<lambda>s. holding lk (core s))) (\<lambda>h.
     if \<not> h then kpanic ''release''
     else kseq (kcore_mod (upd_lock lk (\<lambda>v. v\<lparr>lcpu := None\<rparr>)))
         (kseq (kcore_mod (upd_lock lk (\<lambda>v. v\<lparr>locked := 0\<rparr>)))
          pop_off))"

text \<open>\<^verbatim>\<open>myproc\<close> of \<^verbatim>\<open>kernel/proc.c\<close>: the process this hart runs.\<close>

definition myproc :: "'z kbase_scheme \<Rightarrow> ('z kbase_scheme, nat option) kres" where
  "myproc =
     kseq push_off (
     kbind (kget (\<lambda>s. cproc (mycpu (core s)))) (\<lambda>p.
     kseq pop_off (kret p)))"

subsection \<open>Net effects on harts and locks\<close>

text \<open>
  \<open>cpu_ok\<close>: the nesting depth is not negative, and interrupts are off inside a
  \<^verbatim>\<open>push_off\<close> section.
\<close>

definition cpu_ok :: "kcore \<Rightarrow> bool" where
  "cpu_ok c \<longleftrightarrow> 0 \<le> noff (mycpu c) \<and> (0 < noff (mycpu c) \<longrightarrow> \<not> intr_get c)"

definition touch :: "kcore \<Rightarrow> kcore" where
  "touch c = upd_mycpu (\<lambda>v. if noff v = 0 then v\<lparr>intena := intr_get c\<rparr> else v) c"

definition c_push :: "kcore \<Rightarrow> kcore" where
  "c_push c = upd_mycpu (\<lambda>v. v\<lparr>noff := noff v + 1\<rparr>) (set_sie False (touch c))"

definition c_pop :: "kcore \<Rightarrow> kcore" where
  "c_pop c = (let d = upd_mycpu (\<lambda>v. v\<lparr>noff := noff v - 1\<rparr>) c in
     if noff (mycpu d) = 0 \<and> intena (mycpu d) then set_sie True d else d)"

definition c_acq :: "lockid \<Rightarrow> kcore \<Rightarrow> kcore" where
  "c_acq lk c = upd_lock lk (\<lambda>v. v\<lparr>locked := 1, lcpu := Some (cpuid c)\<rparr>) (c_push c)"

definition c_rel :: "lockid \<Rightarrow> kcore \<Rightarrow> kcore" where
  "c_rel lk c = c_pop (upd_lock lk (\<lambda>v. v\<lparr>lcpu := None, locked := 0\<rparr>) c)"

definition free_lock :: "lockid \<Rightarrow> kcore \<Rightarrow> bool" where
  "free_lock lk c \<longleftrightarrow> locked (locks c lk) = 0 \<and> lcpu (locks c lk) = None"

lemmas core_defs = cpuid_def mycpu_def upd_mycpu_def upd_lock_def intr_get_def set_sie_def
lemmas hart_defs = core_defs touch_def c_push_def c_pop_def c_acq_def c_rel_def free_lock_def
  holding_def cpu_ok_def

lemma push_off_eq [kstep]: "push_off s = Ret () (s\<lparr>core := c_push (core s)\<rparr>)"
  by (simp add: push_off_def c_push_def touch_def core_defs intr_off_def kcore_mod_def kmod_def
      kwhen_def kret_def kget_def kbind_def kseq_def)

lemma pop_off_interruptible:
  "intr_get (core s) \<Longrightarrow> pop_off s = Panic ''pop_off - interruptible''"
  by (simp add: pop_off_def kpanic_def)

lemma pop_off_unmatched:
  "\<not> intr_get (core s) \<Longrightarrow> noff (mycpu (core s)) < 1 \<Longrightarrow> pop_off s = Panic ''pop_off''"
  by (simp add: pop_off_def kpanic_def)

lemma pop_off_eq [kstep]:
  "\<not> intr_get (core s) \<Longrightarrow> 1 \<le> noff (mycpu (core s)) \<Longrightarrow>
   pop_off s = Ret () (s\<lparr>core := c_pop (core s)\<rparr>)"
  by (simp add: pop_off_def c_pop_def core_defs intr_on_def kcore_mod_def kmod_def kwhen_def
      kret_def Let_def)

lemma acquire_eq [kstep]:
  "free_lock lk (core s) \<Longrightarrow> acquire lk s = Ret () (s\<lparr>core := c_acq lk (core s)\<rparr>)"
  by (simp add: acquire_def push_off_eq hart_defs kcore_mod_def kmod_def kget_def kbind_def kseq_def)

lemma acquire_held: "holding lk (core s) \<Longrightarrow> acquire lk s = Panic ''acquire''"
  by (simp add: acquire_def push_off_eq hart_defs kpanic_def)

lemma acquire_other:
  "locked (locks (core s) lk) \<noteq> 0 \<Longrightarrow> \<not> holding lk (core s) \<Longrightarrow>
   acquire lk s = Spin (s\<lparr>core := c_push (core s)\<rparr>)"
  by (simp add: acquire_def push_off_eq hart_defs)

lemma release_not_held: "\<not> holding lk (core s) \<Longrightarrow> release lk s = Panic ''release''"
  by (simp add: release_def kpanic_def)

lemma release_eq [kstep]:
  "holding lk (core s) \<Longrightarrow> \<not> intr_get (core s) \<Longrightarrow> 1 \<le> noff (mycpu (core s)) \<Longrightarrow>
   release lk s = Ret () (s\<lparr>core := c_rel lk (core s)\<rparr>)"
  by (simp add: release_def kcore_mod_def pop_off_eq hart_defs Let_def)

lemma noff_c_push [simp]: "noff (mycpu (c_push c)) = noff (mycpu c) + 1"
  by (simp add: hart_defs)

lemma noff_c_acq [simp]: "noff (mycpu (c_acq lk c)) = noff (mycpu c) + 1"
  by (simp add: hart_defs)

lemma intr_get_off [simp]: "\<not> intr_get (c_push c)" "\<not> intr_get (c_acq lk c)"
  by (simp_all add: hart_defs)

lemma cpuid_simps [simp]:
  "cpuid (c_push c) = cpuid c" "cpuid (c_acq lk c) = cpuid c" "cpuid (touch c) = cpuid c"
  "cpuid (c_rel lk c) = cpuid c" "cpuid (upd_mycpu f c) = cpuid c"
  by (simp_all add: hart_defs Let_def)

lemma cproc_simps [simp]:
  "cproc (mycpu (c_push c)) = cproc (mycpu c)" "cproc (mycpu (c_acq lk c)) = cproc (mycpu c)"
  "cproc (mycpu (touch c)) = cproc (mycpu c)" "cproc (mycpu (c_rel lk c)) = cproc (mycpu c)"
  by (simp_all add: hart_defs Let_def)

lemma noff_touch [simp]: "noff (mycpu (touch c)) = noff (mycpu c)"
  by (simp add: hart_defs)

lemma intr_get_touch [simp]: "intr_get (touch c) = intr_get c"
  by (simp add: hart_defs)

lemma holding_c_acq [simp]: "holding lk (c_acq lk c)"
  by (simp add: hart_defs)

lemma holding_c_acq_other [simp]: "lk \<noteq> lk' \<Longrightarrow> holding lk (c_acq lk' c) = holding lk c"
  by (simp add: hart_defs)

lemma holding_touch [simp]: "holding lk (touch c) = holding lk c"
  by (simp add: hart_defs)

lemma free_lock_simps [simp]:
  "free_lock lk (touch c) = free_lock lk c"
  "free_lock lk (c_push c) = free_lock lk c"
  "lk \<noteq> lk' \<Longrightarrow> free_lock lk (c_acq lk' c) = free_lock lk c"
  "\<not> free_lock lk (c_acq lk c)"
  by (simp_all add: hart_defs)

lemma free_lock_upd_mycpu [simp]: "free_lock lk (upd_mycpu f c) = free_lock lk c"
  by (simp add: hart_defs)

lemma cpu_ok_simps [simp]:
  "cpu_ok c \<Longrightarrow> cpu_ok (c_push c)" "cpu_ok (touch c) = cpu_ok c" "cpu_ok c \<Longrightarrow> cpu_ok (c_acq lk c)"
  by (auto simp: hart_defs)

lemma touch_touch [simp]: "touch (touch c) = touch c"
  by (auto simp: hart_defs intro!: kcore.equality)

lemma touch_nested [simp]: "noff (mycpu c) \<noteq> 0 \<Longrightarrow> touch c = c"
  by (simp add: hart_defs)

lemma cpu_ok_noff: "cpu_ok c \<Longrightarrow> 0 \<le> noff (mycpu c)"
  by (simp add: cpu_ok_def)

lemma touch_c_acq [simp]: "cpu_ok c \<Longrightarrow> touch (c_acq lk c) = c_acq lk c"
  using cpu_ok_noff by (intro touch_nested) force

lemma c_pop_c_push [simp]: "cpu_ok c \<Longrightarrow> c_pop (c_push c) = touch c"
  by (auto simp: hart_defs Let_def fun_upd_idem_iff intro!: kcore.equality cpu.equality)

lemma c_rel_c_acq [simp]:
  assumes "cpu_ok c" and "free_lock lk c"
  shows "c_rel lk (c_acq lk c) = touch c"
proof -
  have "upd_lock lk (\<lambda>v. v\<lparr>lcpu := None, locked := 0\<rparr>) (c_acq lk c) = c_push c"
    using assms(2) by (auto simp: hart_defs intro!: kcore.equality spinlock.equality)
  with assms(1) show ?thesis by (simp add: c_rel_def)
qed

lemma myproc_eq [kstep]:
  "cpu_ok (core s) \<Longrightarrow> myproc s = Ret (cproc (mycpu (core s))) (s\<lparr>core := touch (core s)\<rparr>)"
  by (simp add: myproc_def kstep kret_def cpu_ok_noff)

text \<open>A release directly inside its critical section: its side conditions hold.\<close>

lemma release_section [kstep]:
  "core s = c_acq lk c \<Longrightarrow> cpu_ok c \<Longrightarrow> release lk s = Ret () (s\<lparr>core := c_rel lk (core s)\<rparr>)"
  using cpu_ok_noff [of c] by (intro release_eq) simp_all

lemma core0_ok [simp]: "cpu_ok core0" "free_lock lk core0"
  by (simp_all add: core0_def hart_defs)

end
