(* ===== verification/Kalloc.thy ===== *)
theory Kalloc
  imports Kstring Spinlock
begin

text \<open>
  The physical page allocator, \<^verbatim>\<open>kernel/kalloc.c\<close>: pages of 4096 bytes on a free list that is
  threaded through the free pages themselves. The state gains the byte memory \<open>phys\<close>, the
  head \<open>freelist\<close> of \<^verbatim>\<open>kmem\<close>, and \<open>kend\<close>, the address of the linker's symbol \<^verbatim>\<open>end\<close>.

  The abstract view of the allocator is the list of free pages, \<open>free_pages\<close>; \<open>kmem_inv\<close> says
  that the chain in memory is well formed. The locale \<open>page_allocator\<close> is the contract the
  clients of the allocator use, and the interpretation \<open>kmem\<close> discharges it for
  \<open>kalloc\<close> and \<open>kfree\<close>.
\<close>

unbundle bit_operations_syntax

record kmem_state = kbase +
  phys :: mem
  freelist :: u64
  kend :: u64

subsection \<open>Layout\<close>

definition PGSIZE :: u64 where "PGSIZE = 4096"
definition KERNBASE :: u64 where "KERNBASE = 0x80000000"
definition PHYSTOP :: u64 where "PHYSTOP = KERNBASE + 128 * 1024 * 1024"

definition PGROUNDUP :: "u64 \<Rightarrow> u64" where
  "PGROUNDUP sz = (sz + PGSIZE - 1) AND NOT (PGSIZE - 1)"

definition PGROUNDDOWN :: "u64 \<Rightarrow> u64" where
  "PGROUNDDOWN a = a AND NOT (PGSIZE - 1)"

subsection \<open>The routines\<close>

definition kfree :: "u64 \<Rightarrow> 'z kmem_state_scheme \<Rightarrow> ('z kmem_state_scheme, unit) kres" where
  "kfree pa =
     kbind (kget kend) (\<lambda>e.
     if pa mod PGSIZE \<noteq> 0 \<or> pa < e \<or> PHYSTOP \<le> pa then kpanic ''kfree''
     else
       kseq (kmod (\<lambda>s. s\<lparr>phys := memset (phys s) pa 1 4096\<rparr>)) (
       kseq (acquire KmemLock) (
       kseq (kmod (\<lambda>s. s\<lparr>phys := store64 (phys s) pa (freelist s)\<rparr>)) (
       kseq (kmod (\<lambda>s. s\<lparr>freelist := pa\<rparr>)) (
       release KmemLock)))))"

definition kalloc :: "'z kmem_state_scheme \<Rightarrow> ('z kmem_state_scheme, u64) kres" where
  "kalloc =
     kseq (acquire KmemLock) (
     kbind (kget freelist) (\<lambda>r.
     kseq (kwhen (r \<noteq> 0) (kmod (\<lambda>s. s\<lparr>freelist := load64 (phys s) r\<rparr>))) (
     kseq (release KmemLock) (
     kseq (kwhen (r \<noteq> 0) (kmod (\<lambda>s. s\<lparr>phys := memset (phys s) r 5 4096\<rparr>))) (
     kret r)))))"

text \<open>
  \<^verbatim>\<open>freerange\<close>: the loop \<^verbatim>\<open>for (; p + PGSIZE <= pa_end; p += PGSIZE) kfree(p)\<close>. \<open>kfree\<close> panics on a
  page at or above \<^verbatim>\<open>PHYSTOP\<close>, so the loop goes on only below it; saying so makes the
  recursion terminate even for addresses that wrap around.
\<close>

function freerange_loop :: "u64 \<Rightarrow> u64 \<Rightarrow> 'z kmem_state_scheme \<Rightarrow> ('z kmem_state_scheme, unit) kres" where
  "freerange_loop p pa_end =
     (if p + PGSIZE \<le> pa_end
      then kseq (kfree p) (if p < PHYSTOP then freerange_loop (p + PGSIZE) pa_end else kret ())
      else kret ())"
  by pat_completeness auto
termination
proof (relation "measure (\<lambda>(p, pa_end). unat pa_end - unat p)")
  fix p pa_end :: u64
  assume le: "p + PGSIZE \<le> pa_end" and lt: "p < PHYSTOP"
  from lt have "unat (p + PGSIZE) = unat p + 4096"
    by (simp add: PGSIZE_def PHYSTOP_def KERNBASE_def word_less_nat_alt unat_word_ariths)
  with le show "((p + PGSIZE, pa_end), p, pa_end) \<in> measure (\<lambda>(p, pa_end). unat pa_end - unat p)"
    by (auto simp: word_le_nat_alt)
qed auto

declare freerange_loop.simps [simp del]

definition freerange :: "u64 \<Rightarrow> u64 \<Rightarrow> 'z kmem_state_scheme \<Rightarrow> ('z kmem_state_scheme, unit) kres" where
  "freerange pa_start pa_end = freerange_loop (PGROUNDUP pa_start) pa_end"

definition kinit :: "'z kmem_state_scheme \<Rightarrow> ('z kmem_state_scheme, unit) kres" where
  "kinit =
     kseq (initlock KmemLock ''kmem'') (
     kbind (kget kend) (\<lambda>e. freerange e PHYSTOP))"

subsection \<open>Pages\<close>

definition page_aligned :: "u64 \<Rightarrow> bool" where
  "page_aligned p \<longleftrightarrow> p mod PGSIZE = 0"

text \<open>The pages \<open>kfree\<close> accepts.\<close>

definition valid_page :: "u64 \<Rightarrow> u64 \<Rightarrow> bool" where
  "valid_page e p \<longleftrightarrow> page_aligned p \<and> e \<le> p \<and> p < PHYSTOP"

lemma page_aligned_nat: "page_aligned p \<longleftrightarrow> unat p mod 4096 = 0"
  by (simp add: page_aligned_def PGSIZE_def word_unat_eq_iff unat_mod_distrib)

lemma page_base:
  assumes "page_aligned p" and "in_region p 4096 a"
  shows "unat p = 4096 * (unat a div 4096)"
proof -
  obtain k where k: "k < 4096" "a = p + of_nat k"
    using assms(2) by (rule in_regionE)
  have p: "unat p mod 4096 = 0" using assms(1) by (simp add: page_aligned_nat)
  have "unat p < 2 ^ 64" using unsigned_less [of p, where 'a = nat] by simp
  moreover from p obtain j where j: "unat p = 4096 * j" by (auto elim!: dvdE)
  ultimately have "j < 2 ^ 52" by simp
  then have "j \<le> 2 ^ 52 - 1" by linarith
  then have "unat p + k < 2 ^ 64" using k(1) j by simp
  then have "unat a = unat p + k"
    using k by (simp add: unat_word_ariths unat_of_nat_u64)
  with j k(1) show ?thesis by simp
qed

lemma page_disjoint:
  assumes "page_aligned p" and "page_aligned q" and "p \<noteq> q"
    and "in_region p 4096 a"
  shows "\<not> in_region q 4096 a"
  using assms page_base [of p a] page_base [of q a] by (metis word_unat_eq_iff)

lemma page_unique:
  "page_aligned p \<Longrightarrow> page_aligned q \<Longrightarrow> in_region p 4096 a \<Longrightarrow> in_region q 4096 a \<Longrightarrow> p = q"
  using page_disjoint by blast

lemma in_region_mono: "in_region p k a \<Longrightarrow> k \<le> l \<Longrightarrow> in_region p l a"
  by (simp add: in_region_def)

lemma memset_page_frame:
  "page_aligned p \<Longrightarrow> page_aligned q \<Longrightarrow> p \<noteq> q \<Longrightarrow> in_region q 4096 a \<Longrightarrow>
   memset m p c 4096 a = m a"
  using page_disjoint [of q p a] by (simp add: memset_eq)

lemma store64_page_frame:
  "page_aligned p \<Longrightarrow> page_aligned q \<Longrightarrow> p \<noteq> q \<Longrightarrow> in_region q 4096 a \<Longrightarrow>
   store64 m p v a = m a"
  using page_disjoint [of q p a] by (auto simp: store64_def dest: in_region_mono [where l = 4096])

subsection \<open>The free list\<close>

primrec flist :: "mem \<Rightarrow> u64 \<Rightarrow> u64 list \<Rightarrow> bool" where
  "flist m p [] = (p = 0)"
| "flist m p (x # xs) = (p = x \<and> x \<noteq> 0 \<and> flist m (load64 m x) xs)"

lemma flist_unique: "flist m p xs \<Longrightarrow> flist m p ys \<Longrightarrow> xs = ys"
proof (induction xs arbitrary: p ys)
  case Nil
  then show ?case by (cases ys) auto
next
  case (Cons x xs)
  then show ?case by (cases ys) auto
qed

lemma flist_cong:
  assumes "flist m p xs" and "\<And>x a. x \<in> set xs \<Longrightarrow> in_region x 8 a \<Longrightarrow> m a = m' a"
  shows "flist m' p xs"
  using assms
proof (induction xs arbitrary: p)
  case (Cons x xs)
  have "load64 m x = load64 m' x" using Cons.prems(2) by (intro load64_cong) auto
  with Cons show ?case by auto
qed simp

definition chain_ok :: "u64 \<Rightarrow> mem \<Rightarrow> u64 \<Rightarrow> u64 list \<Rightarrow> bool" where
  "chain_ok e m h ps \<longleftrightarrow> flist m h ps \<and> distinct ps \<and> (\<forall>p \<in> set ps. valid_page e p)"

text \<open>
  \<open>kmem_inv\<close>: \<open>freelist\<close> heads a chain of distinct valid pages. The kernel is not at address
  zero, so that no page is the null pointer.
\<close>

definition kmem_inv :: "'z kmem_state_scheme \<Rightarrow> bool" where
  "kmem_inv s \<longleftrightarrow> 0 < kend s \<and> (\<exists>ps. chain_ok (kend s) (phys s) (freelist s) ps)"

definition free_pages :: "'z kmem_state_scheme \<Rightarrow> u64 list" where
  "free_pages s = (THE ps. flist (phys s) (freelist s) ps)"

lemma free_pages_eq: "flist (phys s) (freelist s) ps \<Longrightarrow> free_pages s = ps"
  unfolding free_pages_def by (rule the_equality) (auto intro: flist_unique)

lemma kmem_inv_iff: "kmem_inv s \<longleftrightarrow> 0 < kend s \<and> chain_ok (kend s) (phys s) (freelist s) (free_pages s)"
  by (auto simp: kmem_inv_def chain_ok_def free_pages_eq)

lemma chain_ok_frame:
  assumes "chain_ok e m h ps" and "\<And>p a. p \<in> set ps \<Longrightarrow> in_region p 4096 a \<Longrightarrow> m' a = m a"
  shows "chain_ok e m' h ps"
proof -
  have "flist m' h ps"
  proof (rule flist_cong [of m])
    show "flist m h ps" using assms(1) by (simp add: chain_ok_def)
    show "m a = m' a" if "x \<in> set ps" "in_region x 8 a" for x a
    proof -
      have "in_region x 4096 a" using that(2) by (simp add: in_region_def)
      from assms(2) [OF that(1) this] show ?thesis by (rule sym)
    qed
  qed
  with assms(1) show ?thesis by (simp add: chain_ok_def)
qed

lemma chain_ok_pop: "chain_ok e m h (p # ps) \<Longrightarrow> chain_ok e m (load64 m h) ps"
  by (simp add: chain_ok_def)

lemma chain_ok_push:
  assumes ok: "chain_ok e m h ps" and v: "valid_page e pa" and new: "pa \<notin> set ps" and e: "0 < e"
  shows "chain_ok e (store64 (memset m pa 1 4096) pa h) pa (pa # ps)" (is "chain_ok e ?m pa _")
proof -
  have "?m a = m a" if "p \<in> set ps" "in_region p 4096 a" for p a
  proof -
    have "page_aligned p" "page_aligned pa" "pa \<noteq> p"
      using ok v new that(1) by (auto simp: chain_ok_def valid_page_def)
    then show ?thesis using that(2)
      by (simp add: store64_page_frame [where q = p] memset_page_frame [where q = p])
  qed
  then have "chain_ok e ?m h ps" using chain_ok_frame [OF ok] by blast
  moreover have "pa \<noteq> 0" using v e by (auto simp: valid_page_def)
  ultimately show ?thesis using v new by (simp add: chain_ok_def)
qed

subsection \<open>What the routines do\<close>

definition kmem_ready :: "'z kmem_state_scheme \<Rightarrow> bool" where
  "kmem_ready s \<longleftrightarrow> kmem_inv s \<and> cpu_ok (core s) \<and> free_lock KmemLock (core s)"

definition kalloc_eff :: "'z kmem_state_scheme \<Rightarrow> 'z kmem_state_scheme" where
  "kalloc_eff s = (if freelist s = 0 then s\<lparr>core := touch (core s)\<rparr>
     else s\<lparr>core := touch (core s), freelist := load64 (phys s) (freelist s),
            phys := memset (phys s) (freelist s) 5 4096\<rparr>)"

definition kfree_eff :: "u64 \<Rightarrow> 'z kmem_state_scheme \<Rightarrow> 'z kmem_state_scheme" where
  "kfree_eff pa s = s\<lparr>core := touch (core s),
     phys := store64 (memset (phys s) pa 1 4096) pa (freelist s), freelist := pa\<rparr>"

lemma kalloc_eq [kstep]:
  "cpu_ok (core s) \<Longrightarrow> free_lock KmemLock (core s) \<Longrightarrow> kalloc s = Ret (freelist s) (kalloc_eff s)"
  by (auto simp: kalloc_def kalloc_eff_def kstep kmod_def kret_def intro!: kmem_state.equality)

lemma kfree_eq [kstep]:
  "cpu_ok (core s) \<Longrightarrow> free_lock KmemLock (core s) \<Longrightarrow> valid_page (kend s) pa \<Longrightarrow>
   kfree pa s = Ret () (kfree_eff pa s)"
  by (auto simp: kfree_def kfree_eff_def valid_page_def page_aligned_def kstep not_le not_less
      intro!: kmem_state.equality)

lemma kfree_panics: "\<not> valid_page (kend s) pa \<Longrightarrow> kfree pa s = Panic ''kfree''"
  by (auto simp: kfree_def valid_page_def page_aligned_def kpanic_def not_le not_less)

lemma kalloc_eff_simps [simp]:
  "core (kalloc_eff s) = touch (core s)" "kend (kalloc_eff s) = kend s"
  "kmem_state.more (kalloc_eff s) = kmem_state.more s"
  by (simp_all add: kalloc_eff_def)

lemma kfree_eff_simps [simp]:
  "core (kfree_eff pa s) = touch (core s)" "kend (kfree_eff pa s) = kend s"
  "kmem_state.more (kfree_eff pa s) = kmem_state.more s" "freelist (kfree_eff pa s) = pa"
  by (simp_all add: kfree_eff_def)

lemma kmem_inv_freelist: "kmem_inv s \<Longrightarrow> free_pages s = p # ps \<Longrightarrow> freelist s = p \<and> p \<noteq> 0"
  by (auto simp: kmem_inv_iff chain_ok_def)

lemma kmem_inv_empty: "kmem_inv s \<Longrightarrow> free_pages s = [] \<longleftrightarrow> freelist s = 0"
  by (cases "free_pages s") (auto simp: kmem_inv_iff chain_ok_def)

lemma kalloc_eff_inv:
  assumes "kmem_inv s"
  shows "kmem_inv (kalloc_eff s) \<and> free_pages (kalloc_eff s) = tl (free_pages s)"
proof (cases "free_pages s")
  case Nil
  then have "flist (phys s) 0 []" "freelist s = 0" using assms kmem_inv_empty by auto
  with Nil have "free_pages (kalloc_eff s) = []"
    by (intro free_pages_eq) (simp add: kalloc_eff_def)
  with assms Nil \<open>freelist s = 0\<close> show ?thesis by (simp add: kmem_inv_iff kalloc_eff_def)
next
  case (Cons p ps)
  then have p: "freelist s = p" "p \<noteq> 0" using kmem_inv_freelist [OF assms] by auto
  have ok: "chain_ok (kend s) (phys s) (load64 (phys s) p) ps" and v: "valid_page (kend s) p"
    and new: "p \<notin> set ps" and vs: "\<forall>q \<in> set ps. page_aligned q"
    using assms p(1) Cons by (auto simp: kmem_inv_iff chain_ok_def valid_page_def)
  have "chain_ok (kend s) (memset (phys s) p 5 4096) (load64 (phys s) p) ps"
  proof (rule chain_ok_frame [OF ok])
    show "memset (phys s) p 5 4096 a = phys s a" if "q \<in> set ps" "in_region q 4096 a" for q a
      using that new vs v by (intro memset_page_frame [of p q]) (auto simp: valid_page_def)
  qed
  moreover from this have "free_pages (kalloc_eff s) = ps"
    by (intro free_pages_eq) (simp add: kalloc_eff_def p chain_ok_def)
  ultimately show ?thesis using assms Cons p by (simp add: kmem_inv_iff kalloc_eff_def)
qed

lemma kfree_eff_inv:
  assumes "kmem_inv s" and "valid_page (kend s) pa" and "pa \<notin> set (free_pages s)"
  shows "kmem_inv (kfree_eff pa s) \<and> free_pages (kfree_eff pa s) = pa # free_pages s"
proof -
  have "chain_ok (kend s) (phys (kfree_eff pa s)) pa (pa # free_pages s)"
    unfolding kfree_eff_def using assms by (simp add: kmem_inv_iff chain_ok_push)
  moreover from this have "free_pages (kfree_eff pa s) = pa # free_pages s"
    by (intro free_pages_eq) (simp add: chain_ok_def)
  ultimately show ?thesis using assms(1) by (simp add: kmem_inv_iff)
qed

subsection \<open>The allocator's contract\<close>

locale page_allocator =
  fixes alloc :: "'s \<Rightarrow> ('s, u64) kres"
    and free :: "u64 \<Rightarrow> 's \<Rightarrow> ('s, unit) kres"
    and inv :: "'s \<Rightarrow> bool"
    and avail :: "'s \<Rightarrow> u64 list"
    and legal :: "'s \<Rightarrow> u64 \<Rightarrow> bool"
  assumes avail_distinct: "inv s \<Longrightarrow> distinct (avail s)"
    and avail_legal: "inv s \<Longrightarrow> p \<in> set (avail s) \<Longrightarrow> legal s p"
    and legal_nonzero: "inv s \<Longrightarrow> legal s p \<Longrightarrow> p \<noteq> 0"
    and alloc_none: "inv s \<Longrightarrow> avail s = [] \<Longrightarrow>
      \<exists>s'. alloc s = Ret 0 s' \<and> inv s' \<and> avail s' = [] \<and> legal s' = legal s"
    and alloc_some: "inv s \<Longrightarrow> avail s = p # ps \<Longrightarrow>
      \<exists>s'. alloc s = Ret p s' \<and> inv s' \<and> avail s' = ps \<and> legal s' = legal s"
    and free_page: "inv s \<Longrightarrow> legal s p \<Longrightarrow> p \<notin> set (avail s) \<Longrightarrow>
      \<exists>s'. free p s = Ret () s' \<and> inv s' \<and> avail s' = p # avail s \<and> legal s' = legal s"
begin

text \<open>Allocating \<open>n\<close> pages in a row, collecting their addresses; \<open>0\<close> stands for a failure.\<close>

primrec alloc_many :: "nat \<Rightarrow> 's \<Rightarrow> ('s, u64 list) kres" where
  "alloc_many 0 = kret []"
| "alloc_many (Suc n) = kbind alloc (\<lambda>p. kbind (alloc_many n) (\<lambda>ps. kret (p # ps)))"

primrec free_many :: "u64 list \<Rightarrow> 's \<Rightarrow> ('s, unit) kres" where
  "free_many [] = kret ()"
| "free_many (p # ps) = kseq (free p) (free_many ps)"

lemma alloc_many_take:
  "inv s \<Longrightarrow> n \<le> length (avail s) \<Longrightarrow>
   \<exists>s'. alloc_many n s = Ret (take n (avail s)) s' \<and> inv s' \<and> avail s' = drop n (avail s) \<and>
        legal s' = legal s"
proof (induction n arbitrary: s)
  case 0
  then show ?case by (simp add: kret_def)
next
  case (Suc n)
  then obtain p ps where ps: "avail s = p # ps" by (cases "avail s") auto
  with Suc.prems(1) obtain s1 where s1: "alloc s = Ret p s1" "inv s1" "avail s1 = ps" "legal s1 = legal s"
    using alloc_some by blast
  with Suc.IH [of s1] Suc.prems(2) ps obtain s2 where
    "alloc_many n s1 = Ret (take n ps) s2" "inv s2" "avail s2 = drop n ps" "legal s2 = legal s1"
    by auto
  with s1 ps show ?case by (auto simp: kret_def)
qed

lemma alloc_many_distinct:
  assumes "inv s" and "n \<le> length (avail s)"
  obtains ps s' where "alloc_many n s = Ret ps s'" "length ps = n" "distinct ps" "0 \<notin> set ps"
    "inv s'" "set ps \<inter> set (avail s') = {}"
proof -
  obtain s' where s': "alloc_many n s = Ret (take n (avail s)) s'" "inv s'"
    "avail s' = drop n (avail s)"
    using alloc_many_take [OF assms] by auto
  have d: "distinct (avail s)" using assms(1) by (rule avail_distinct)
  have "0 \<notin> set (take n (avail s))"
    using assms(1) avail_legal legal_nonzero by (blast dest: in_set_takeD)
  moreover have "set (take n (avail s)) \<inter> set (drop n (avail s)) = {}"
    using d by (rule set_take_disj_set_drop_if_distinct) simp
  ultimately show thesis using that [of "take n (avail s)" s'] s' d assms(2) by simp
qed

lemma alloc_exhausted: "inv s \<Longrightarrow> avail s = [] \<Longrightarrow> \<exists>s'. alloc s = Ret 0 s' \<and> inv s'"
  using alloc_none by blast

lemma free_alloc: "inv s \<Longrightarrow> legal s p \<Longrightarrow> p \<notin> set (avail s) \<Longrightarrow>
   \<exists>s'. kseq (free p) alloc s = Ret p s' \<and> inv s' \<and> avail s' = avail s"
proof -
  assume "inv s" "legal s p" "p \<notin> set (avail s)"
  then obtain s1 where s1: "free p s = Ret () s1" "inv s1" "avail s1 = p # avail s"
    using free_page by blast
  with alloc_some [of s1] obtain s2 where "alloc s1 = Ret p s2" "inv s2" "avail s2 = avail s"
    by blast
  with s1 show ?thesis by simp
qed

end

interpretation kmem: page_allocator kalloc kfree kmem_ready free_pages "\<lambda>s. valid_page (kend s)"
proof unfold_locales
  fix s :: "'a kmem_state_scheme" and p :: u64 and ps :: "u64 list"
  assume r: "kmem_ready s"
  then have i: "kmem_inv s" and ok: "cpu_ok (core s)" "free_lock KmemLock (core s)"
    by (simp_all add: kmem_ready_def)
  have rdy: "kmem_ready (kalloc_eff s)"
    using kalloc_eff_inv [OF i] ok by (simp add: kmem_ready_def)
  show "distinct (free_pages s)" using i by (simp add: kmem_inv_iff chain_ok_def)
  show "valid_page (kend s) p" if "p \<in> set (free_pages s)"
    using i that by (simp add: kmem_inv_iff chain_ok_def)
  show "p \<noteq> 0" if "valid_page (kend s) p"
    using i that by (auto simp: kmem_inv_iff valid_page_def)
  show "\<exists>s'. kalloc s = Ret 0 s' \<and> kmem_ready s' \<and> free_pages s' = [] \<and>
      valid_page (kend s') = valid_page (kend s)" if "free_pages s = []"
    using that kmem_inv_empty [OF i] ok rdy kalloc_eff_inv [OF i] by (simp add: kstep)
  show "\<exists>s'. kalloc s = Ret p s' \<and> kmem_ready s' \<and> free_pages s' = ps \<and>
      valid_page (kend s') = valid_page (kend s)" if "free_pages s = p # ps"
    using that kmem_inv_freelist [OF i that] i ok rdy kalloc_eff_inv [OF i] by (simp add: kstep)
  show "\<exists>s'. kfree p s = Ret () s' \<and> kmem_ready s' \<and> free_pages s' = p # free_pages s \<and>
      valid_page (kend s') = valid_page (kend s)"
    if "valid_page (kend s) p" "p \<notin> set (free_pages s)"
    using that i ok kfree_eff_inv [OF i] by (simp add: kstep kmem_ready_def)
qed

subsection \<open>Boot: every page between the kernel and the end of memory becomes free\<close>

lemma PHYSTOP_nat: "unat PHYSTOP = 0x88000000"
  by (simp add: PHYSTOP_def KERNBASE_def)

lemma next_page:
  assumes "page_aligned p" and "p < PHYSTOP"
  shows "unat (p + PGSIZE) = unat p + 4096" "page_aligned (p + PGSIZE)" "p + PGSIZE \<le> PHYSTOP"
proof -
  have lt: "unat p < 0x88000000" using assms(2) by (simp add: word_less_nat_alt PHYSTOP_nat)
  then show n: "unat (p + PGSIZE) = unat p + 4096"
    by (simp add: PGSIZE_def unat_word_ariths)
  from assms(1) obtain j where j: "unat p = 4096 * j"
    by (auto simp: page_aligned_nat elim!: dvdE)
  then have "unat p + 4096 = 4096 * Suc j" by simp
  then show "page_aligned (p + PGSIZE)" using n by (simp add: page_aligned_nat)
  show "p + PGSIZE \<le> PHYSTOP" using n j lt by (simp add: word_le_nat_alt PHYSTOP_nat)
qed

lemma page_step:
  assumes "page_aligned p" and "page_aligned q" and "p < q" and "p < PHYSTOP"
  shows "p + PGSIZE \<le> q"
proof -
  obtain i j where "unat p = 4096 * i" "unat q = 4096 * j"
    using assms(1,2) by (auto simp: page_aligned_nat elim!: dvdE)
  then show ?thesis
    using assms(3) next_page(1) [OF assms(1,4)] by (simp add: word_le_nat_alt word_less_nat_alt)
qed

lemma freerange_loop_frees:
  assumes "kmem_ready s" and "page_aligned p" and "kend s \<le> p" and "p \<le> PHYSTOP"
    and "\<forall>q \<in> set (free_pages s). q < p"
  shows "\<exists>s'. freerange_loop p PHYSTOP s = Ret () s' \<and> kmem_ready s' \<and> kend s' = kend s \<and>
     set (free_pages s') = set (free_pages s) \<union> {q. page_aligned q \<and> p \<le> q \<and> q < PHYSTOP}"
  using assms
proof (induction "unat PHYSTOP - unat p" arbitrary: p s rule: less_induct)
  case less
  show ?case
  proof (cases "p = PHYSTOP")
    case True
    then have "\<not> p + PGSIZE \<le> PHYSTOP"
      by (simp add: PHYSTOP_def KERNBASE_def PGSIZE_def)
    then have "freerange_loop p PHYSTOP s = Ret () s"
      by (subst freerange_loop.simps) (simp add: kret_def)
    with True less.prems(1) show ?thesis by auto
  next
    case False
    with less.prems(4) have lt: "p < PHYSTOP" by simp
    note np = next_page [OF less.prems(2) lt]
    have v: "valid_page (kend s) p" using less.prems(2,3) lt by (simp add: valid_page_def)
    have i: "kmem_inv s" using less.prems(1) by (simp add: kmem_ready_def)
    have fresh: "p \<notin> set (free_pages s)" using less.prems(5) by blast
    let ?s = "kfree_eff p s"
    have k: "kfree p s = Ret () ?s"
      using less.prems(1) v by (simp add: kstep kmem_ready_def)
    have fp: "free_pages ?s = p # free_pages s" "kmem_inv ?s"
      using kfree_eff_inv [OF i v fresh] by simp_all
    have lt': "p < p + PGSIZE" using np(1) by (simp add: word_less_nat_alt)
    have "\<exists>s'. freerange_loop (p + PGSIZE) PHYSTOP ?s = Ret () s' \<and> kmem_ready s' \<and>
        kend s' = kend ?s \<and> set (free_pages s') =
          set (free_pages ?s) \<union> {q. page_aligned q \<and> p + PGSIZE \<le> q \<and> q < PHYSTOP}"
    proof (rule less.hyps)
      show "unat PHYSTOP - unat (p + PGSIZE) < unat PHYSTOP - unat p"
        using np(1) lt by (simp add: word_less_nat_alt)
      show "kmem_ready ?s" using fp(2) less.prems(1) by (simp add: kmem_ready_def)
      show "page_aligned (p + PGSIZE)" by (rule np(2))
      show "kend ?s \<le> p + PGSIZE" using less.prems(3) lt' by simp
      show "p + PGSIZE \<le> PHYSTOP" by (rule np(3))
      show "\<forall>q \<in> set (free_pages ?s). q < p + PGSIZE"
        using fp(1) less.prems(5) lt' by auto
    qed
    moreover have "{q. page_aligned q \<and> p \<le> q \<and> q < PHYSTOP} =
        insert p {q. page_aligned q \<and> p + PGSIZE \<le> q \<and> q < PHYSTOP}"
      using less.prems(2) lt lt' page_step [OF less.prems(2)] by (auto simp: order.order_iff_strict)
    ultimately show ?thesis using k fp(1) np(3) lt
      by (subst freerange_loop.simps) (auto simp: Un_insert_left)
  qed
qed

lemma PGROUNDDOWN_shift: "PGROUNDDOWN a = push_bit 12 (drop_bit 12 a)"
proof -
  have "(4095 :: u64) = mask 12" by (simp add: mask_eq_exp_minus_1)
  then show ?thesis
    by (auto simp: PGROUNDDOWN_def PGSIZE_def bit_eq_iff bit_simps)
qed

lemma unat_PGROUNDDOWN: "unat (PGROUNDDOWN a) = 4096 * (unat a div 4096)"
proof -
  have "unat (drop_bit 12 a) = unat a div 4096"
    by (simp add: drop_bit_eq_div unat_div_distrib)
  moreover have "unat a div 4096 < 2 ^ 52"
    using unsigned_less [of a, where 'a = nat] by simp
  ultimately show ?thesis
    by (simp add: PGROUNDDOWN_shift push_bit_eq_mult unat_word_ariths)
qed

lemma page_aligned_PGROUNDDOWN [simp]: "page_aligned (PGROUNDDOWN a)"
  by (simp add: page_aligned_nat unat_PGROUNDDOWN)

lemma in_page_PGROUNDDOWN: "in_region (PGROUNDDOWN a) 4096 a"
proof -
  have "PGROUNDDOWN a \<le> a"
    by (simp add: word_le_nat_alt unat_PGROUNDDOWN)
  then have "unat (a - PGROUNDDOWN a) = unat a mod 4096"
    by (simp add: unat_sub unat_PGROUNDDOWN minus_mult_div_eq_mod)
  then show ?thesis by (simp add: in_region_def)
qed

lemma PGROUNDUP_eq: "PGROUNDUP a = PGROUNDDOWN (a + 4095)"
  by (simp add: PGROUNDUP_def PGROUNDDOWN_def PGSIZE_def add.commute)

lemma unat_PGROUNDUP:
  assumes "unat a + 4095 < 2 ^ 64"
  shows "unat (PGROUNDUP a) = 4096 * ((unat a + 4095) div 4096)"
proof -
  have "unat (a + 4095) = unat a + 4095" using assms by (simp add: unat_word_ariths)
  then show ?thesis by (simp add: PGROUNDUP_eq unat_PGROUNDDOWN)
qed

lemma page_aligned_PGROUNDUP [simp]: "page_aligned (PGROUNDUP a)"
  by (simp add: PGROUNDUP_eq)

lemma PGROUNDUP_ge:
  assumes "unat a + 4095 < 2 ^ 64"
  shows "a \<le> PGROUNDUP a"
proof -
  have "unat a \<le> 4096 * ((unat a + 4095) div 4096)"
    using div_mult_mod_eq [of "unat a + 4095" 4096] mod_less_divisor [of 4096 "unat a + 4095"]
    by linarith
  then show ?thesis by (simp add: word_le_nat_alt unat_PGROUNDUP [OF assms])
qed

lemma PGROUNDUP_le:
  assumes "page_aligned q" and "a \<le> q" and "unat a + 4095 < 2 ^ 64"
  shows "PGROUNDUP a \<le> q"
proof -
  obtain j where j: "unat q = 4096 * j"
    using assms(1) by (auto simp: page_aligned_nat elim!: dvdE)
  have "unat a + 4095 < 4096 * Suc j" using assms(2) j by (simp add: word_le_nat_alt)
  then have "(unat a + 4095) div 4096 \<le> j" by (simp add: div_less_iff_less_mult)
  then show ?thesis by (simp add: word_le_nat_alt unat_PGROUNDUP [OF assms(3)] j)
qed

lemma initlock_eq [kstep]:
  "initlock lk nm s = Ret () (s\<lparr>core := upd_lock lk (\<lambda>_. \<lparr>locked = 0, lname = nm, lcpu = None\<rparr>) (core s)\<rparr>)"
  by (simp add: initlock_def kcore_mod_def kmod_def)

lemma upd_lock_simps [simp]:
  "cpu_ok (upd_lock lk f c) = cpu_ok c"
  "free_lock lk (upd_lock lk (\<lambda>_. \<lparr>locked = 0, lname = nm, lcpu = None\<rparr>) c)"
  by (simp_all add: hart_defs)

lemma page_aligned_PHYSTOP: "page_aligned PHYSTOP"
  by (simp add: page_aligned_nat PHYSTOP_nat)

text \<open>
  Booting the allocator: from an empty free list, \<^verbatim>\<open>kinit\<close> returns, and afterwards the free
  list holds exactly the page-aligned addresses from the end of the kernel up to \<^verbatim>\<open>PHYSTOP\<close>,
  each once.
\<close>

theorem kinit_frees_all_pages:
  assumes "freelist s = 0" and "cpu_ok (core s)" and "0 < kend s" and "kend s \<le> PHYSTOP"
  shows "\<exists>s'. kinit s = Ret () s' \<and> kmem_ready s' \<and> distinct (free_pages s') \<and>
     set (free_pages s') = {q. page_aligned q \<and> kend s \<le> q \<and> q < PHYSTOP}"
proof -
  let ?s = "s\<lparr>core := upd_lock KmemLock (\<lambda>_. \<lparr>locked = 0, lname = ''kmem'', lcpu = None\<rparr>) (core s)\<rparr>"
  have fp: "free_pages ?s = []"
    by (rule free_pages_eq) (simp add: assms(1))
  then have r: "kmem_ready ?s"
    using assms by (simp add: kmem_ready_def kmem_inv_iff chain_ok_def)
  have no: "unat (kend s) + 4095 < 2 ^ 64"
    using assms(4) by (simp add: word_le_nat_alt PHYSTOP_nat)
  have up: "page_aligned q \<Longrightarrow> PGROUNDUP (kend s) \<le> q \<longleftrightarrow> kend s \<le> q" for q
    using PGROUNDUP_le [OF _ _ no, of q] PGROUNDUP_ge [OF no] by (meson order_trans)
  obtain s' where s': "freerange_loop (PGROUNDUP (kend s)) PHYSTOP ?s = Ret () s'" "kmem_ready s'"
    "set (free_pages s') = {q. page_aligned q \<and> PGROUNDUP (kend s) \<le> q \<and> q < PHYSTOP}"
    using freerange_loop_frees [OF r, of "PGROUNDUP (kend s)"] fp assms(4)
      up [OF page_aligned_PHYSTOP] PGROUNDUP_ge [OF no] by auto
  then have "distinct (free_pages s')" by (simp add: kmem.avail_distinct)
  with s' up show ?thesis
    by (auto simp: kinit_def kstep freerange_def)
qed

theorem kinit_frees_all_pages_witness:
  "\<exists>s'. kinit \<lparr>core = core0, phys = (\<lambda>_. 0), freelist = 0, kend = 0x80020000\<rparr> = Ret () s' \<and>
     kmem_ready s' \<and> distinct (free_pages s') \<and>
     set (free_pages s') = {q. page_aligned q \<and> 0x80020000 \<le> q \<and> q < PHYSTOP}"
  using kinit_frees_all_pages
    [of "\<lparr>core = core0, phys = (\<lambda>_. 0), freelist = 0, kend = 0x80020000\<rparr>"]
  by (simp add: PHYSTOP_def KERNBASE_def)

end
