(* ===== verification/Ring.thy ===== *)
theory Ring
  imports Prelude
begin

text \<open>
  Circular buffers. The scheduler's run queues, the pipes and the console's input line are all
  arrays read and written at indices that wrap around; \<open>ring N f h n\<close> is the list of the \<open>n\<close>
  elements from position \<open>h\<close> on of an array \<open>f\<close> of \<open>N\<close> cells. The locale \<open>fifo\<close> is the contract of
  a queue with its list view, and holds what a client may conclude from it.
\<close>

definition ring :: "int \<Rightarrow> (int \<Rightarrow> 'a) \<Rightarrow> int \<Rightarrow> nat \<Rightarrow> 'a list" where
  "ring N f h n = map (\<lambda>k. f ((h + int k) mod N)) [0..<n]"

lemma length_ring [simp]: "length (ring N f h n) = n"
  by (simp add: ring_def)

lemma ring_0 [simp]: "ring N f h 0 = []"
  by (simp add: ring_def)

lemma nth_ring [simp]: "k < n \<Longrightarrow> ring N f h n ! k = f ((h + int k) mod N)"
  by (simp add: ring_def)

lemma set_ring: "set (ring N f h n) = (\<lambda>k. f ((h + int k) mod N)) ` {0..<n}"
  by (simp add: ring_def)

lemma ring_cong: "(\<And>k. k < n \<Longrightarrow> f ((h + int k) mod N) = g ((h + int k) mod N)) \<Longrightarrow> ring N f h n = ring N g h n"
  by (simp add: ring_def)

lemma map_ring: "map g (ring N f h n) = ring N (\<lambda>i. g (f i)) h n"
  by (simp add: ring_def)

lemma ring_mod_start: "ring N f (h mod N) n = ring N f h n"
  by (simp add: ring_def mod_add_left_eq)

text \<open>Two positions less than \<open>N\<close> apart are different cells.\<close>

lemma ring_index_neq:
  assumes "0 < d" and "d < N"
  shows "(a + d) mod N \<noteq> a mod (N :: int)"
proof
  assume "(a + d) mod N = a mod N"
  then have "N dvd d" by (metis add_diff_cancel_left' mod_eq_dvd_iff)
  with assms show False by (meson zdvd_imp_le not_le)
qed

lemma ring_snoc:
  assumes "int n < N"
  shows "ring N (f((h + int n) mod N := x)) h (Suc n) = ring N f h n @ [x]"
proof -
  have "(h + int k) mod N \<noteq> (h + int n) mod N" if "k < n" for k
    using ring_index_neq [of "int n - int k" N "h + int k"] that assms by simp
  then have "ring N (f((h + int n) mod N := x)) h n = ring N f h n"
    by (intro ring_cong) simp
  then show ?thesis by (simp add: ring_def)
qed

lemma ring_Suc: "ring N f h (Suc n) = f (h mod N) # ring N f (h + 1) n"
  by (rule nth_equalityI) (auto simp: nth_Cons' add.commute add.left_commute less_Suc_eq_0_disj)

lemma ring_cons:
  assumes "int n < N"
  shows "ring N (f((h - 1) mod N := x)) (h - 1) (Suc n) = x # ring N f h n"
proof -
  have "(h + int k) mod N \<noteq> (h - 1) mod N" if "k < n" for k
    using ring_index_neq [of "int k + 1" N "h - 1"] that assms by (simp add: algebra_simps)
  then have "ring N (f((h - 1) mod N := x)) h n = ring N f h n"
    by (intro ring_cong) simp
  then show ?thesis by (simp add: ring_Suc)
qed

subsection \<open>First in, first out\<close>

locale fifo =
  fixes put :: "'a \<Rightarrow> 's \<Rightarrow> ('s, unit) kres"
    and get :: "'s \<Rightarrow> ('s, 'a option) kres"
    and inv :: "'s \<Rightarrow> bool"
    and view :: "'s \<Rightarrow> 'a list"
    and room :: "'s \<Rightarrow> 'a \<Rightarrow> bool"
  assumes put_view: "inv s \<Longrightarrow> room s x \<Longrightarrow>
      \<exists>s'. put x s = Ret () s' \<and> inv s' \<and> view s' = view s @ [x]"
    and get_empty: "inv s \<Longrightarrow> view s = [] \<Longrightarrow> get s = Ret None s"
    and get_view: "inv s \<Longrightarrow> view s = x # xs \<Longrightarrow>
      \<exists>s'. get s = Ret (Some x) s' \<and> inv s' \<and> view s' = xs"
begin

primrec get_many :: "nat \<Rightarrow> 's \<Rightarrow> ('s, 'a list) kres" where
  "get_many 0 = kret []"
| "get_many (Suc n) =
     kbind get (\<lambda>x. case x of None \<Rightarrow> kret []
       | Some x \<Rightarrow> kbind (get_many n) (\<lambda>xs. kret (x # xs)))"

text \<open>Elements come out in the order they went in, and taking more than there are stops.\<close>

lemma get_many_take:
  "inv s \<Longrightarrow> \<exists>s'. get_many n s = Ret (take n (view s)) s' \<and> inv s' \<and> view s' = drop n (view s)"
proof (induction n arbitrary: s)
  case 0
  then show ?case by (simp add: kret_def)
next
  case (Suc n)
  show ?case
  proof (cases "view s")
    case Nil
    with Suc.prems have "get s = Ret None s" by (rule get_empty)
    with Nil Suc.prems show ?thesis by (simp add: kret_def)
  next
    case (Cons x xs)
    then obtain s1 where s1: "get s = Ret (Some x) s1" "inv s1" "view s1 = xs"
      using get_view [OF Suc.prems] by blast
    from Suc.IH [OF s1(2)] obtain s2 where
      "get_many n s1 = Ret (take n xs) s2" "inv s2" "view s2 = drop n xs"
      using s1(3) by auto
    with s1 Cons show ?thesis by (simp add: kret_def)
  qed
qed

lemma put_get_many:
  assumes "inv s" and "room s x"
  shows "\<exists>s'. kseq (put x) (get_many (Suc (length (view s)))) s = Ret (view s @ [x]) s' \<and> inv s' \<and> view s' = []"
proof -
  obtain s1 where s1: "put x s = Ret () s1" "inv s1" "view s1 = view s @ [x]"
    using put_view [OF assms] by blast
  then show ?thesis
    using get_many_take [OF s1(2), of "Suc (length (view s))"] by simp
qed

end

end
