(* ===== verification/Mlfq.thy ===== *)
theory Mlfq
  imports Kalloc Ring "HOL-Library.Multiset"
begin

text \<open>
  The process table and the multi-level feedback queue scheduler: \<^verbatim>\<open>kernel/proc.h\<close> and the
  \<^verbatim>\<open>#ifdef mlfq\<close> part of \<^verbatim>\<open>kernel/proc.c\<close>, together with \<^verbatim>\<open>sched\<close>, \<^verbatim>\<open>yield\<close>, \<^verbatim>\<open>sleep_prepare\<close>, \<^verbatim>\<open>sleep\<close>,
  \<^verbatim>\<open>wakeup\<close>, \<^verbatim>\<open>kkill\<close>, \<^verbatim>\<open>killed\<close> and \<^verbatim>\<open>setkilled\<close>. A process pointer is its index in \<^verbatim>\<open>proc[]\<close>.

  The four queues are rows of one array of \<open>4 * NPROC\<close> slots, as in the source. A slot is
  addressed by its flat index \<open>q * NPROC + i\<close>, which is what \<^verbatim>\<open>mlfqi[q][i]\<close> computes; an index
  outside the array is undefined behaviour. \<open>head\<close>, \<open>tail\<close> and \<open>len\<close> are C ints that never get
  near the bounds of their type, and \<^verbatim>\<open>%\<close> is C's truncating remainder (\<open>smod\<close>).
\<close>

subsection \<open>Data\<close>

datatype procstate = UNUSED | USED | SLEEPING | RUNNABLE | RUNNING | ZOMBIE

text \<open>
  A sleep channel is an address in the source; distinct objects have distinct addresses, so
  the model names the objects the kernel sleeps on. The null channel is \<open>None\<close> below.
\<close>

datatype chan =
  ChTicks | ChProc nat | ChPipeRead u64 | ChPipeWrite u64 | ChLog | ChSleeplock lockid | ChCons
| ChTx | ChBuf nat | ChDesc

text \<open>The words of \<^verbatim>\<open>struct trapframe\<close>.\<close>

datatype tfreg =
    T_kernel_satp | T_kernel_sp | T_kernel_trap | T_epc | T_kernel_hartid
  | T_ra | T_sp | T_gp | T_tp | T_t0 | T_t1 | T_t2 | T_s0 | T_s1
  | T_a0 | T_a1 | T_a2 | T_a3 | T_a4 | T_a5 | T_a6 | T_a7
  | T_s2 | T_s3 | T_s4 | T_s5 | T_s6 | T_s7 | T_s8 | T_s9 | T_s10 | T_s11
  | T_t3 | T_t4 | T_t5 | T_t6

type_synonym ktrapframe = "tfreg \<Rightarrow> u64"

record proc =
  state :: procstate
  chan :: "chan option"
  killed_flag :: int
  xstate :: int
  pid :: int
  parent :: "nat option"
  kstack :: u64
  sz :: u64
  pagetable :: u64
  trapframe :: u64
  pcontext :: kcontext
  ofile :: "nat \<Rightarrow> nat option"
  cwd :: "nat option"
  pname :: string
  queue :: int
  tick :: int
  inq :: int

definition NPROC :: nat where "NPROC = 64"

record sched_state = kmem_state +
  procs :: "nat \<Rightarrow> proc"
  trapframes :: "u64 \<Rightarrow> ktrapframe"
  nextpid :: int
  initproc :: "nat option"
  ticks :: u32
  mlfqi :: "int \<Rightarrow> nat option"
  head :: "int \<Rightarrow> int"
  tail :: "int \<Rightarrow> int"
  len :: "int \<Rightarrow> int"
  boost :: u32
  stimecmp :: "nat \<Rightarrow> u64"

text \<open>The zeroed state of a freshly loaded kernel.\<close>

definition proc0 :: proc where
  "proc0 = \<lparr>state = UNUSED, chan = None, killed_flag = 0, xstate = 0, pid = 0, parent = None,
     kstack = 0, sz = 0, pagetable = 0, trapframe = 0, pcontext = (\<lambda>_. 0), ofile = (\<lambda>_. None),
     cwd = None, pname = [], queue = 0, tick = 0, inq = 0\<rparr>"

definition sched0 :: sched_state where
  "sched0 = \<lparr>core = core0, phys = (\<lambda>_. 0), freelist = 0, kend = 0x80020000, procs = (\<lambda>_. proc0),
     trapframes = (\<lambda>_ _. 0), nextpid = 1, initproc = None, ticks = 0, mlfqi = (\<lambda>_. None),
     head = (\<lambda>_. 0), tail = (\<lambda>_. 0), len = (\<lambda>_. 0), boost = 0,
     stimecmp = (\<lambda>_. 0)\<rparr>"

definition upd_proc :: "nat \<Rightarrow> (proc \<Rightarrow> proc) \<Rightarrow> 'z sched_state_scheme \<Rightarrow> 'z sched_state_scheme" where
  "upd_proc p f s = s\<lparr>procs := (procs s)(p := f (procs s p))\<rparr>"

subsection \<open>The queues\<close>

definition slot :: "int \<Rightarrow> int \<Rightarrow> int" where
  "slot q i = q * int NPROC + i"

definition slot_ok :: "int \<Rightarrow> bool" where
  "slot_ok a \<longleftrightarrow> 0 \<le> a \<and> a < 4 * int NPROC"

definition mlfqi_set :: "int \<Rightarrow> int \<Rightarrow> nat \<Rightarrow> 'z sched_state_scheme \<Rightarrow> ('z sched_state_scheme, unit) kres" where
  "mlfqi_set q i p =
     (if slot_ok (slot q i) then kmod (\<lambda>s. s\<lparr>mlfqi := (mlfqi s)(slot q i := Some p)\<rparr>) else kub)"

definition push :: "nat \<Rightarrow> int \<Rightarrow> bool \<Rightarrow> 'z sched_state_scheme \<Rightarrow> ('z sched_state_scheme, unit) kres" where
  "push p q t =
     kbind (kget (\<lambda>s. inq (procs s p))) (\<lambda>i.
     if i \<noteq> 0 then kret ()
     else kseq
       (if t
        then kbind (kget (\<lambda>s. tail s q)) (\<lambda>k.
             kseq (mlfqi_set q k p)
                  (kmod (\<lambda>s. s\<lparr>tail := (tail s)(q := (tail s q + 1) smod int NPROC)\<rparr>)))
        else kseq (kmod (\<lambda>s. s\<lparr>head := (head s)(q := (head s q - 1) smod int NPROC)\<rparr>))
             (kbind (kget (\<lambda>s. head s q)) (\<lambda>k. mlfqi_set q k p)))
       (kseq (kmod (\<lambda>s. s\<lparr>len := (len s)(q := len s q + 1)\<rparr>))
             (kmod (upd_proc p (\<lambda>r. r\<lparr>inq := 1\<rparr>)))))"

definition pop :: "int \<Rightarrow> 'z sched_state_scheme \<Rightarrow> ('z sched_state_scheme, nat option) kres" where
  "pop q =
     kbind (kget (\<lambda>s. len s q)) (\<lambda>n.
     if n = 0 then kret None
     else kbind (kget (\<lambda>s. slot q (head s q))) (\<lambda>a.
       if \<not> slot_ok a then kub
       else kbind (kget (\<lambda>s. mlfqi s a)) (\<lambda>r.
         kseq (kmod (\<lambda>s. s\<lparr>head := (head s)(q := (head s q + 1) smod int NPROC)\<rparr>)) (
         kseq (kmod (\<lambda>s. s\<lparr>len := (len s)(q := len s q - 1)\<rparr>)) (
         case r of
           None \<Rightarrow> kub
         | Some p \<Rightarrow> kseq (kmod (upd_proc p (\<lambda>v. v\<lparr>inq := 0\<rparr>))) (kret (Some p)))))))"

definition m_getqueue :: "nat \<Rightarrow> 'z sched_state_scheme \<Rightarrow> ('z sched_state_scheme, int) kres" where
  "m_getqueue p =
     kseq (acquire MlfqLock) (
     kbind (kget (\<lambda>s. queue (procs s p))) (\<lambda>q.
     kseq (release MlfqLock) (kret q)))"

subsection \<open>The scheduler loop\<close>

text \<open>\<^verbatim>\<open>for (int i = 0; i < 4 && p == 0; i++) p = pop(i);\<close>\<close>

primrec pop_first :: "int list \<Rightarrow> 'z sched_state_scheme \<Rightarrow> ('z sched_state_scheme, nat option) kres" where
  "pop_first [] = kret None"
| "pop_first (i # is) = kbind (pop i) (\<lambda>p. if p = None then pop_first is else kret p)"

text \<open>
  One turn of \<^verbatim>\<open>scheduler_mlfq\<close> up to \<^verbatim>\<open>swtch\<close>: \<open>Some p\<close> if it switches to process \<open>p\<close> (whose
  lock it then holds), \<open>None\<close> if it goes round again. \<open>scheduler_mlfq_start\<close> is what precedes the loop, and
  \<open>scheduler_mlfq_back\<close> what the loop does when the process has switched back.
\<close>

definition scheduler_mlfq_start :: "'z sched_state_scheme \<Rightarrow> ('z sched_state_scheme, unit) kres" where
  "scheduler_mlfq_start = kcore_mod (upd_mycpu (\<lambda>c. c\<lparr>cproc := None\<rparr>))"

definition scheduler_mlfq_pick :: "'z sched_state_scheme \<Rightarrow> ('z sched_state_scheme, nat option) kres" where
  "scheduler_mlfq_pick =
     kseq intr_on (
     kseq intr_off (
     kseq (acquire MlfqLock) (
     kbind (pop_first [0, 1, 2, 3]) (\<lambda>p.
     kseq (release MlfqLock) (
     case p of
       None \<Rightarrow> kret None
     | Some p \<Rightarrow>
         kseq (acquire (ProcLock p)) (
         kbind (kget (\<lambda>s. state (procs s p))) (\<lambda>st.
         if st = RUNNABLE
         then kseq (kmod (upd_proc p (\<lambda>r. r\<lparr>state := RUNNING\<rparr>))) (
              kseq (kcore_mod (upd_mycpu (\<lambda>c. c\<lparr>cproc := Some p\<rparr>))) (
              kret (Some p)))
         else kseq (release (ProcLock p)) (kret None))))))))"

definition scheduler_mlfq_back :: "nat \<Rightarrow> 'z sched_state_scheme \<Rightarrow> ('z sched_state_scheme, unit) kres" where
  "scheduler_mlfq_back p =
     kseq (kcore_mod (upd_mycpu (\<lambda>c. c\<lparr>cproc := None\<rparr>))) (
     release (ProcLock p))"

text \<open>
  \<^verbatim>\<open>sched\<close>: its checks, then the switch to the scheduler. The process comes back on the hart
  that picks it, and that hart's \<^verbatim>\<open>intena\<close> becomes the one saved before the switch.
\<close>

definition swtch_scheduler :: "bool \<Rightarrow> 'z sched_state_scheme \<Rightarrow> ('z sched_state_scheme, unit) kres" where
  "swtch_scheduler ie s = Sched s (kcore_mod (upd_mycpu (\<lambda>c. c\<lparr>intena := ie\<rparr>)))"

definition sched :: "'z sched_state_scheme \<Rightarrow> ('z sched_state_scheme, unit) kres" where
  "sched =
     kbind myproc (\<lambda>p.
     case p of
       None \<Rightarrow> kub
     | Some p \<Rightarrow>
         kbind (kget core) (\<lambda>c.
         if \<not> holding (ProcLock p) c then kpanic ''sched p->lock''
         else if noff (mycpu c) \<noteq> 1 then kpanic ''sched locks''
         else kbind (kget (\<lambda>s. state (procs s p))) (\<lambda>st.
           if st = RUNNING then kpanic ''sched RUNNING''
           else if intr_get c then kpanic ''sched interruptible''
           else swtch_scheduler (intena (mycpu c)))))"

subsection \<open>Yield and the priority boost\<close>

text \<open>
  \<^verbatim>\<open>while ((pp = pop(i)) != 0) { pp->queue = 0; pp->tick = 0; push(pp, 0, 1); }\<close> with \<open>n\<close> units
  of fuel: one for every turn of the loop and one for its exit.
\<close>

fun boost_drain :: "nat \<Rightarrow> int \<Rightarrow> 'z sched_state_scheme \<Rightarrow> ('z sched_state_scheme, unit) kres" where
  "boost_drain 0 i = (\<lambda>s. Loop)"
| "boost_drain (Suc n) i =
     kbind (pop i) (\<lambda>pp.
     case pp of
       None \<Rightarrow> kret ()
     | Some pp \<Rightarrow>
         kseq (kmod (upd_proc pp (\<lambda>r. r\<lparr>queue := 0, tick := 0\<rparr>))) (
         kseq (push pp 0 True) (
         boost_drain n i)))"

definition boost_all :: "nat \<Rightarrow> nat \<Rightarrow> 'z sched_state_scheme \<Rightarrow> ('z sched_state_scheme, unit) kres" where
  "boost_all n p =
     kseq (kfor [0, 1, 2, 3] (boost_drain n)) (
     kseq (kmod (upd_proc p (\<lambda>r. r\<lparr>queue := 0, tick := 0\<rparr>)))
          (kmod (\<lambda>s. s\<lparr>boost := ticks s\<rparr>)))"

definition qtick :: "int \<Rightarrow> int" where
  "qtick q = (if q = 0 then 1 else if q = 1 then 4 else if q = 2 then 8 else 16)"

definition charge_tick :: "nat \<Rightarrow> 'z sched_state_scheme \<Rightarrow> ('z sched_state_scheme, unit) kres" where
  "charge_tick p =
     kseq (kmod (upd_proc p (\<lambda>r. r\<lparr>tick := tick r + 1\<rparr>))) (
     kbind (kget (\<lambda>s. procs s p)) (\<lambda>r.
     if qtick (queue r) \<le> tick r
     then kseq (kmod (upd_proc p (\<lambda>r. r\<lparr>tick := 0\<rparr>))) (
          kseq (kmod (upd_proc p (\<lambda>r. if queue r < 3 then r\<lparr>queue := queue r + 1\<rparr> else r))) (
          kbind (kget (\<lambda>s. queue (procs s p))) (\<lambda>q. push p q True)))
     else push p (queue r) False))"

definition yield_mlfq :: "nat \<Rightarrow> 'z sched_state_scheme \<Rightarrow> ('z sched_state_scheme, unit) kres" where
  "yield_mlfq n =
     kbind myproc (\<lambda>p.
     case p of
       None \<Rightarrow> kub
     | Some p \<Rightarrow>
         kseq (acquire (ProcLock p)) (
         kseq (acquire MlfqLock) (
         kbind (kget (\<lambda>s. ticks s - boost s)) (\<lambda>d.
         kseq (kwhen (48 \<le> d) (boost_all n p)) (
         kseq (charge_tick p) (
         kseq (release MlfqLock) (
         kseq (kmod (upd_proc p (\<lambda>r. r\<lparr>state := RUNNABLE\<rparr>))) (
         kseq sched (release (ProcLock p))))))))))"

text \<open>\<^verbatim>\<open>yield\<close> is \<^verbatim>\<open>yield_mlfq\<close> in a kernel built with the MLFQ scheduler.\<close>

definition yield :: "nat \<Rightarrow> 'z sched_state_scheme \<Rightarrow> ('z sched_state_scheme, unit) kres" where
  "yield n = yield_mlfq n"

subsection \<open>The list view of the queues\<close>

definition is_level :: "int \<Rightarrow> bool" where
  "is_level q \<longleftrightarrow> 0 \<le> q \<and> q < 4"

definition qcells :: "'z sched_state_scheme \<Rightarrow> int \<Rightarrow> nat option list" where
  "qcells s q = ring 64 (\<lambda>i. mlfqi s (slot q i)) (head s q) (nat (len s q))"

text \<open>\<open>qview s q\<close>: the processes of queue \<open>q\<close>, the next one to run first.\<close>

definition qview :: "'z sched_state_scheme \<Rightarrow> int \<Rightarrow> nat list" where
  "qview s q = map the (qcells s q)"

definition queued :: "'z sched_state_scheme \<Rightarrow> nat list" where
  "queued s = qview s 0 @ qview s 1 @ qview s 2 @ qview s 3"

definition row_ok :: "'z sched_state_scheme \<Rightarrow> int \<Rightarrow> bool" where
  "row_ok s q \<longleftrightarrow> 0 \<le> head s q \<and> head s q < 64 \<and> 0 \<le> len s q \<and>
     tail s q = (head s q + len s q) mod 64 \<and> None \<notin> set (qcells s q)"

text \<open>
  \<open>mlfq_wf\<close>: every row is a ring, no process is queued twice, and a process is queued
  exactly if its \<^verbatim>\<open>inq\<close> flag is set.
\<close>

definition mlfq_wf :: "'z sched_state_scheme \<Rightarrow> bool" where
  "mlfq_wf s \<longleftrightarrow> (\<forall>q. is_level q \<longrightarrow> row_ok s q) \<and> distinct (queued s) \<and>
     (\<forall>p. inq (procs s p) = of_bool (p \<in> set (queued s))) \<and> (\<forall>p \<in> set (queued s). p < NPROC)"

lemma is_level_cases: "is_level q \<Longrightarrow> q = 0 \<or> q = 1 \<or> q = 2 \<or> q = 3"
  by (auto simp: is_level_def)

lemma slot_eq: "slot q i = slot q j \<longleftrightarrow> i = j"
  by (simp add: slot_def)

lemma slot_neq: "q \<noteq> q' \<Longrightarrow> 0 \<le> i \<Longrightarrow> i < 64 \<Longrightarrow> 0 \<le> j \<Longrightarrow> j < 64 \<Longrightarrow> slot q i \<noteq> slot q' j"
  by (auto simp: slot_def NPROC_def)

lemma slot_ok_level: "is_level q \<Longrightarrow> 0 \<le> i \<Longrightarrow> i < 64 \<Longrightarrow> slot_ok (slot q i)"
  by (auto simp: slot_ok_def slot_def is_level_def NPROC_def)

lemma row_upd_other:
  "q \<noteq> q' \<Longrightarrow> 0 \<le> i \<Longrightarrow> i < 64 \<Longrightarrow>
   ring 64 (\<lambda>j. if slot q' j = slot q i then x else m (slot q' j)) h n = ring 64 (\<lambda>j. m (slot q' j)) h n"
  by (intro ring_cong) (use slot_neq [of q' q _ i] in force)

lemma smod64: "0 \<le> a \<Longrightarrow> a smod int NPROC = a mod 64"
  by (simp add: NPROC_def smod_nonneg)

lemma length_qview [simp]: "length (qview s q) = nat (len s q)"
  by (simp add: qview_def qcells_def)

lemma mlfq_wf_level: "mlfq_wf s \<Longrightarrow> is_level q \<Longrightarrow> row_ok s q"
  by (simp add: mlfq_wf_def)

lemma qview_sub: "is_level q \<Longrightarrow> set (qview s q) \<subseteq> set (queued s)"
  by (auto simp: queued_def dest!: is_level_cases)

lemma length_qview_queued: "is_level q \<Longrightarrow> length (qview s q) \<le> length (queued s)"
  by (auto simp: queued_def dest!: is_level_cases)

text \<open>A process that is not queued leaves room in every queue.\<close>

lemma queue_room:
  assumes "mlfq_wf s" and "is_level q" and "p < NPROC" and "inq (procs s p) = 0"
  shows "len s q < 64"
proof -
  have "length (queued s) = card (set (queued s))"
    using assms(1) by (simp add: mlfq_wf_def distinct_card)
  also have "\<dots> < card {..<NPROC}"
    using assms by (intro psubset_card_mono) (auto simp: mlfq_wf_def)
  finally have "length (qview s q) < 64"
    using length_qview_queued [OF assms(2), of s] by (simp add: NPROC_def)
  then show ?thesis by simp
qed

text \<open>Replacing the contents of one queue: how the list views determine \<open>queued\<close>.\<close>

lemma queued_replace:
  assumes "is_level q" and "\<And>q'. is_level q' \<Longrightarrow> q' \<noteq> q \<Longrightarrow> qview t q' = qview s q'"
  shows "\<exists>xs ys. queued s = xs @ qview s q @ ys \<and> queued t = xs @ qview t q @ ys"
proof -
  have o: "q' \<noteq> q \<Longrightarrow> q' \<in> {0, 1, 2, 3} \<Longrightarrow> qview t q' = qview s q'" for q'
    using assms(2) by (auto simp: is_level_def)
  have "?thesis" if "q = 0"
    by (rule exI [of _ "[]"], rule exI [of _ "qview s 1 @ qview s 2 @ qview s 3"])
      (use o that in \<open>simp add: queued_def\<close>)
  moreover have "?thesis" if "q = 1"
    by (rule exI [of _ "qview s 0"], rule exI [of _ "qview s 2 @ qview s 3"])
      (use o that in \<open>simp add: queued_def\<close>)
  moreover have "?thesis" if "q = 2"
    by (rule exI [of _ "qview s 0 @ qview s 1"], rule exI [of _ "qview s 3"])
      (use o that in \<open>simp add: queued_def\<close>)
  moreover have "?thesis" if "q = 3"
    by (rule exI [of _ "qview s 0 @ qview s 1 @ qview s 2"], rule exI [of _ "[]"])
      (use o that in \<open>simp add: queued_def\<close>)
  ultimately show ?thesis using is_level_cases [OF assms(1)] by blast
qed

subsection \<open>Effects of push and pop\<close>

definition push_tail :: "nat \<Rightarrow> int \<Rightarrow> 'z sched_state_scheme \<Rightarrow> 'z sched_state_scheme" where
  "push_tail p q s = upd_proc p (\<lambda>r. r\<lparr>inq := 1\<rparr>)
     (s\<lparr>mlfqi := (mlfqi s)(slot q (tail s q) := Some p),
        tail := (tail s)(q := (tail s q + 1) smod int NPROC), len := (len s)(q := len s q + 1)\<rparr>)"

definition push_head :: "nat \<Rightarrow> int \<Rightarrow> 'z sched_state_scheme \<Rightarrow> 'z sched_state_scheme" where
  "push_head p q s = (let h = (head s q - 1) smod int NPROC in
     upd_proc p (\<lambda>r. r\<lparr>inq := 1\<rparr>)
     (s\<lparr>head := (head s)(q := h), mlfqi := (mlfqi s)(slot q h := Some p),
        len := (len s)(q := len s q + 1)\<rparr>))"

definition pop_head :: "nat \<Rightarrow> int \<Rightarrow> 'z sched_state_scheme \<Rightarrow> 'z sched_state_scheme" where
  "pop_head p q s = upd_proc p (\<lambda>r. r\<lparr>inq := 0\<rparr>)
     (s\<lparr>head := (head s)(q := (head s q + 1) smod int NPROC), len := (len s)(q := len s q - 1)\<rparr>)"

lemmas queue_eff_defs = push_tail_def push_head_def pop_head_def upd_proc_def Let_def

lemma push_queued: "inq (procs s p) \<noteq> 0 \<Longrightarrow> push p q t s = Ret () s"
  by (simp add: push_def kret_def)

lemma push_tail_eq:
  "inq (procs s p) = 0 \<Longrightarrow> slot_ok (slot q (tail s q)) \<Longrightarrow> push p q True s = Ret () (push_tail p q s)"
  by (simp add: push_def push_tail_def mlfqi_set_def kmod_def kseq_def kbind_def kget_def)

lemma push_head_eq:
  "inq (procs s p) = 0 \<Longrightarrow> slot_ok (slot q ((head s q - 1) smod int NPROC)) \<Longrightarrow>
   push p q False s = Ret () (push_head p q s)"
  by (simp add: push_def push_head_def mlfqi_set_def kmod_def kseq_def kbind_def kget_def Let_def)

lemma pop_eq:
  "len s q \<noteq> 0 \<Longrightarrow> slot_ok (slot q (head s q)) \<Longrightarrow> mlfqi s (slot q (head s q)) = Some p \<Longrightarrow>
   pop q s = Ret (Some p) (pop_head p q s)"
  by (simp add: pop_def pop_head_def kmod_def kret_def kseq_def kbind_def kget_def)

lemma pop_empty: "len s q = 0 \<Longrightarrow> pop q s = Ret None s"
  by (simp add: pop_def kret_def)

lemma push_tail_view:
  assumes "row_ok s q" and "len s q < 64"
  shows "qcells (push_tail p q s) q = qcells s q @ [Some p]"
proof -
  have "tail s q = (head s q + int (nat (len s q))) mod 64" using assms(1) by (simp add: row_ok_def)
  moreover have "nat (len s q + 1) = Suc (nat (len s q))"
    using assms(1) by (simp add: row_ok_def nat_add_distrib)
  ultimately show ?thesis
    using assms(2) ring_snoc [of "nat (len s q)" 64 "\<lambda>i. mlfqi s (slot q i)" "head s q" "Some p"]
    by (simp add: qcells_def queue_eff_defs slot_eq fun_upd_def)
qed

lemma push_head_view:
  assumes "row_ok s q" and "len s q < 64" and "head s q \<noteq> 0"
  shows "qcells (push_head p q s) q = Some p # qcells s q"
proof -
  have h: "0 \<le> head s q - 1" "head s q - 1 < 64" using assms by (simp_all add: row_ok_def)
  have "nat (len s q + 1) = Suc (nat (len s q))"
    using assms(1) by (simp add: row_ok_def nat_add_distrib)
  then show ?thesis
    using assms(2) h ring_cons [of "nat (len s q)" 64 "\<lambda>i. mlfqi s (slot q i)" "head s q" "Some p"]
    by (simp add: qcells_def queue_eff_defs slot_eq fun_upd_def smod64)
qed

lemma pop_head_view:
  assumes "row_ok s q" and "len s q \<noteq> 0"
  shows "qcells s q = mlfqi s (slot q (head s q)) # qcells (pop_head p q s) q"
proof -
  have n: "nat (len s q) = Suc (nat (len s q - 1))" using assms by (auto simp: row_ok_def)
  have "(head s q + 1) smod int NPROC = (head s q + 1) mod 64" "head s q mod 64 = head s q"
    using assms(1) by (simp_all add: smod64 row_ok_def)
  then show ?thesis
    by (simp add: qcells_def n ring_Suc queue_eff_defs ring_mod_start del: ring_mod_start)
       (simp add: ring_mod_start)
qed

lemma queue_eff_other:
  assumes "q' \<noteq> q" and "row_ok s q"
  shows "qcells (push_tail p q s) q' = qcells s q'"
    and "head s q \<noteq> 0 \<Longrightarrow> qcells (push_head p q s) q' = qcells s q'"
    and "qcells (pop_head p q s) q' = qcells s q'"
  using assms by (simp_all add: qcells_def queue_eff_defs row_upd_other smod64 row_ok_def)

lemma mlfq_wf_add:
  assumes wf: "mlfq_wf s" and q: "is_level q" and p: "inq (procs s p) = 0" "p < NPROC"
    and rows: "\<And>q'. is_level q' \<Longrightarrow> row_ok t q'"
    and other: "\<And>q'. is_level q' \<Longrightarrow> q' \<noteq> q \<Longrightarrow> qview t q' = qview s q'"
    and new: "mset (qview t q) = add_mset p (mset (qview s q))"
    and flag: "\<And>r. inq (procs t r) = (if r = p then 1 else inq (procs s r))"
  shows "mlfq_wf t"
proof -
  obtain xs ys where "queued s = xs @ qview s q @ ys" "queued t = xs @ qview t q @ ys"
    using queued_replace [OF q other] by blast
  then have m: "mset (queued t) = mset (p # queued s)" using new by simp
  then have "set (queued t) = insert p (set (queued s))" by (metis list.simps(15) mset_eq_setD)
  moreover have "distinct (queued t) \<longleftrightarrow> distinct (p # queued s)"
    using m by (rule mset_eq_imp_distinct_iff)
  ultimately show ?thesis using wf p rows flag by (auto simp: mlfq_wf_def)
qed

lemma mlfq_wf_remove:
  assumes wf: "mlfq_wf s" and q: "is_level q"
    and rows: "\<And>q'. is_level q' \<Longrightarrow> row_ok t q'"
    and other: "\<And>q'. is_level q' \<Longrightarrow> q' \<noteq> q \<Longrightarrow> qview t q' = qview s q'"
    and new: "qview s q = p # qview t q"
    and flag: "\<And>r. inq (procs t r) = (if r = p then 0 else inq (procs s r))"
  shows "mlfq_wf t"
proof -
  obtain xs ys where e: "queued s = xs @ qview s q @ ys" "queued t = xs @ qview t q @ ys"
    using queued_replace [OF q other] by blast
  then have m: "mset (queued s) = mset (p # queued t)" using new by simp
  then have s: "set (queued s) = insert p (set (queued t))" by (metis list.simps(15) mset_eq_setD)
  have "distinct (queued s) \<longleftrightarrow> distinct (p # queued t)"
    using m by (rule mset_eq_imp_distinct_iff)
  with s wf rows flag show ?thesis by (auto simp: mlfq_wf_def)
qed

text \<open>Fields and queues that a queue operation leaves alone.\<close>

lemma push_tail_simps [simp]:
  "core (push_tail p q s) = core s" "ticks (push_tail p q s) = ticks s"
  "boost (push_tail p q s) = boost s"
  "procs (push_tail p q s) = (procs s)(p := (procs s p)\<lparr>inq := 1\<rparr>)"
  by (simp_all add: queue_eff_defs)

lemma push_head_simps [simp]:
  "core (push_head p q s) = core s" "ticks (push_head p q s) = ticks s"
  "boost (push_head p q s) = boost s"
  "procs (push_head p q s) = (procs s)(p := (procs s p)\<lparr>inq := 1\<rparr>)"
  by (simp_all add: queue_eff_defs)

lemma pop_head_simps [simp]:
  "core (pop_head p q s) = core s" "ticks (pop_head p q s) = ticks s"
  "boost (pop_head p q s) = boost s"
  "procs (pop_head p q s) = (procs s)(p := (procs s p)\<lparr>inq := 0\<rparr>)"
  by (simp_all add: queue_eff_defs)

lemma upd_proc_simps [simp]:
  "core (upd_proc p f s) = core s" "ticks (upd_proc p f s) = ticks s" "boost (upd_proc p f s) = boost s"
  "procs (upd_proc p f s) = (procs s)(p := f (procs s p))"
  "qcells (upd_proc p f s) = qcells s" "head (upd_proc p f s) = head s" "tail (upd_proc p f s) = tail s"
  "len (upd_proc p f s) = len s" "mlfqi (upd_proc p f s) = mlfqi s"
  by (simp_all add: upd_proc_def qcells_def fun_eq_iff)

lemma qview_upd_proc [simp]: "qview (upd_proc p f s) = qview s" "queued (upd_proc p f s) = queued s"
  by (simp_all add: qview_def queued_def fun_eq_iff)

lemma mlfq_wf_upd_proc [simp]:
  assumes "inq (f (procs s p)) = inq (procs s p)"
  shows "mlfq_wf (upd_proc p f s) = mlfq_wf s"
proof -
  have "inq (procs (upd_proc p f s) r) = inq (procs s r)" for r using assms by simp
  then show ?thesis
    by (simp only: mlfq_wf_def row_ok_def upd_proc_simps(5-8) qview_upd_proc)
qed

lemma row_ok_other:
  assumes "row_ok s q'" and "row_ok s q" and "q' \<noteq> q"
  shows "row_ok (push_tail p q s) q'" and "head s q \<noteq> 0 \<Longrightarrow> row_ok (push_head p q s) q'"
    and "row_ok (pop_head p q s) q'"
  using assms queue_eff_other [OF assms(3,2)]
  by (simp_all add: row_ok_def) (simp_all add: queue_eff_defs)

lemma row_ok_push_tail: "row_ok s q \<Longrightarrow> len s q < 64 \<Longrightarrow> row_ok (push_tail p q s) q"
  using push_tail_view [of s q p]
  by (auto simp: row_ok_def) (simp_all add: queue_eff_defs smod64 mod_add_left_eq add.assoc)

lemma row_ok_push_head: "row_ok s q \<Longrightarrow> len s q < 64 \<Longrightarrow> head s q \<noteq> 0 \<Longrightarrow> row_ok (push_head p q s) q"
  using push_head_view [of s q p]
  by (auto simp: row_ok_def) (simp_all add: queue_eff_defs smod64)

lemma row_ok_pop_head: "row_ok s q \<Longrightarrow> len s q \<noteq> 0 \<Longrightarrow> row_ok (pop_head p q s) q"
  using pop_head_view [of s q p]
  by (auto simp: row_ok_def) (simp_all add: queue_eff_defs smod64 mod_add_left_eq)

lemma push_tail_ok:
  assumes wf: "mlfq_wf s" and q: "is_level q" and p: "p < NPROC" "inq (procs s p) = 0"
  shows "push p q True s = Ret () (push_tail p q s)" and "mlfq_wf (push_tail p q s)"
    and "qview (push_tail p q s) = (qview s)(q := qview s q @ [p])"
proof -
  have r: "row_ok s q" using wf q by (rule mlfq_wf_level)
  have l: "len s q < 64" using wf q p by (rule queue_room)
  have "slot_ok (slot q (tail s q))" using r q by (intro slot_ok_level) (auto simp: row_ok_def)
  then show "push p q True s = Ret () (push_tail p q s)" using p by (intro push_tail_eq)
  have v: "qview (push_tail p q s) q = qview s q @ [p]"
    using push_tail_view [OF r l, of p] by (simp add: qview_def)
  have o: "qview (push_tail p q s) q' = qview s q'" if "q' \<noteq> q" for q'
    using queue_eff_other(1) [OF that r] by (simp add: qview_def)
  show "qview (push_tail p q s) = (qview s)(q := qview s q @ [p])"
    using v o by (auto simp: fun_eq_iff)
  show "mlfq_wf (push_tail p q s)"
  proof (rule mlfq_wf_add [OF wf q p(2,1)])
    show "row_ok (push_tail p q s) q'" if "is_level q'" for q'
      using row_ok_push_tail [OF r l] row_ok_other(1) [OF mlfq_wf_level [OF wf that] r]
      by (cases "q' = q") auto
  qed (use v o in auto)
qed

lemma push_head_ok:
  assumes wf: "mlfq_wf s" and q: "is_level q" and p: "p < NPROC" "inq (procs s p) = 0"
    and h: "head s q \<noteq> 0"
  shows "push p q False s = Ret () (push_head p q s)" and "mlfq_wf (push_head p q s)"
    and "qview (push_head p q s) = (qview s)(q := p # qview s q)"
proof -
  have r: "row_ok s q" using wf q by (rule mlfq_wf_level)
  have l: "len s q < 64" using wf q p by (rule queue_room)
  have "slot_ok (slot q ((head s q - 1) smod int NPROC))"
    using r q h by (intro slot_ok_level) (auto simp: row_ok_def smod64)
  then show "push p q False s = Ret () (push_head p q s)" using p by (intro push_head_eq)
  have v: "qview (push_head p q s) q = p # qview s q"
    using push_head_view [OF r l h, of p] by (simp add: qview_def)
  have o: "qview (push_head p q s) q' = qview s q'" if "q' \<noteq> q" for q'
    using queue_eff_other(2) [OF that r h] by (simp add: qview_def)
  show "qview (push_head p q s) = (qview s)(q := p # qview s q)"
    using v o by (auto simp: fun_eq_iff)
  show "mlfq_wf (push_head p q s)"
  proof (rule mlfq_wf_add [OF wf q p(2,1)])
    show "row_ok (push_head p q s) q'" if "is_level q'" for q'
      using row_ok_push_head [OF r l h] row_ok_other(2) [OF mlfq_wf_level [OF wf that] r _ h]
      by (cases "q' = q") auto
  qed (use v o in auto)
qed

lemma pop_ok:
  assumes wf: "mlfq_wf s" and q: "is_level q" and ne: "qview s q = p # ps"
  shows "pop q s = Ret (Some p) (pop_head p q s)" and "mlfq_wf (pop_head p q s)"
    and "qview (pop_head p q s) = (qview s)(q := ps)"
proof -
  have r: "row_ok s q" using wf q by (rule mlfq_wf_level)
  have l: "len s q \<noteq> 0"
    using arg_cong [OF ne, of length] by auto
  have c: "qcells s q = mlfqi s (slot q (head s q)) # qcells (pop_head p q s) q"
    using pop_head_view [OF r l] .
  then have "mlfqi s (slot q (head s q)) \<noteq> None"
    using r by (cases "mlfqi s (slot q (head s q))") (auto simp: row_ok_def)
  moreover have "the (mlfqi s (slot q (head s q))) = p" using c ne by (simp add: qview_def)
  ultimately have m: "mlfqi s (slot q (head s q)) = Some p" by auto
  have "slot_ok (slot q (head s q))" using r q by (intro slot_ok_level) (auto simp: row_ok_def)
  then show "pop q s = Ret (Some p) (pop_head p q s)" using l m by (intro pop_eq)
  have v: "qview (pop_head p q s) q = ps" using c ne by (simp add: qview_def)
  have o: "qview (pop_head p q s) q' = qview s q'" if "q' \<noteq> q" for q'
    using queue_eff_other(3) [OF that r] by (simp add: qview_def)
  show "qview (pop_head p q s) = (qview s)(q := ps)"
    using v o by (auto simp: fun_eq_iff)
  show "mlfq_wf (pop_head p q s)"
  proof (rule mlfq_wf_remove [OF wf q])
    show "row_ok (pop_head p q s) q'" if "is_level q'" for q'
      using row_ok_pop_head [OF r l] row_ok_other(3) [OF mlfq_wf_level [OF wf that] r]
      by (cases "q' = q") auto
  qed (use v o ne in auto)
qed

lemma pop_none:
  assumes "mlfq_wf s" and "is_level q" and "qview s q = []"
  shows "pop q s = Ret None s"
proof (rule pop_empty)
  have "0 \<le> len s q" using mlfq_wf_level [OF assms(1,2)] by (simp add: row_ok_def)
  then show "len s q = 0" using arg_cong [OF assms(3), of length] by simp
qed

text \<open>Each level is a first-in first-out queue for \<^verbatim>\<open>push\<close> at the tail and \<^verbatim>\<open>pop\<close>.\<close>

definition level_inv :: "int \<Rightarrow> 'z sched_state_scheme \<Rightarrow> bool" where
  "level_inv q s \<longleftrightarrow> mlfq_wf s \<and> is_level q"

interpretation runq: fifo "\<lambda>p. push p q True" "pop q" "level_inv q" "\<lambda>s. qview s q"
  "\<lambda>s p. p < NPROC \<and> inq (procs s p) = 0"
proof unfold_locales
  fix s :: "'a sched_state_scheme" and p :: nat and ps :: "nat list"
  assume i: "level_inv q s"
  then have wf: "mlfq_wf s" and q: "is_level q" by (simp_all add: level_inv_def)
  show "\<exists>s'. push p q True s = Ret () s' \<and> level_inv q s' \<and> qview s' q = qview s q @ [p]"
    if "p < NPROC \<and> inq (procs s p) = 0"
    using push_tail_ok [OF wf q] that q by (auto simp: level_inv_def)
  show "pop q s = Ret None s" if "qview s q = []"
    using wf q that by (rule pop_none)
  show "\<exists>s'. pop q s = Ret (Some p) s' \<and> level_inv q s' \<and> qview s' q = ps" if "qview s q = p # ps"
    using pop_ok [OF wf q that] q by (auto simp: level_inv_def)
qed

subsection \<open>Picking the next process\<close>

lemma queue_core_simps [simp]:
  "qcells (s\<lparr>core := c\<rparr>) = qcells s" "qview (s\<lparr>core := c\<rparr>) = qview s"
  "queued (s\<lparr>core := c\<rparr>) = queued s" "row_ok (s\<lparr>core := c\<rparr>) = row_ok s"
  "mlfq_wf (s\<lparr>core := c\<rparr>) = mlfq_wf s"
  by (simp_all add: qcells_def qview_def queued_def row_ok_def mlfq_wf_def fun_eq_iff)

text \<open>\<open>next_level s q\<close>: \<open>q\<close> is the highest-priority level with a process in it.\<close>

definition next_level :: "'z sched_state_scheme \<Rightarrow> int \<Rightarrow> bool" where
  "next_level s q \<longleftrightarrow> is_level q \<and> qview s q \<noteq> [] \<and> (\<forall>q'. is_level q' \<and> q' < q \<longrightarrow> qview s q' = [])"

lemma pop_first_cons:
  assumes "mlfq_wf s" and "is_level q"
  shows "pop_first (q # qs) s =
     (case qview s q of [] \<Rightarrow> pop_first qs s | p # ps \<Rightarrow> Ret (Some p) (pop_head p q s))"
proof (cases "qview s q")
  case Nil
  then show ?thesis using pop_none [OF assms] by simp
next
  case (Cons p ps)
  then show ?thesis using pop_ok(1) [OF assms Cons] by (simp add: kret_def)
qed

lemma pop_first_eq:
  assumes wf: "mlfq_wf s" and q: "next_level s q" and p: "qview s q = p # ps"
  shows "pop_first [0, 1, 2, 3] s = Ret (Some p) (pop_head p q s)"
proof -
  have l: "is_level 0" "is_level 1" "is_level 2" "is_level 3" by (simp_all add: is_level_def)
  have lower: "q' \<in> {0, 1, 2, 3} \<Longrightarrow> q' < q \<Longrightarrow> qview s q' = []" for q'
    using q l by (auto simp: next_level_def)
  have "is_level q" using q by (simp add: next_level_def)
  from is_level_cases [OF this] p lower show ?thesis
    by (elim disjE) (simp_all add: pop_first_cons wf l del: pop_first.simps)
qed

lemma pop_first_none:
  assumes wf: "mlfq_wf s" and e: "queued s = []"
  shows "pop_first [0, 1, 2, 3] s = Ret None s"
proof -
  have l: "is_level 0" "is_level 1" "is_level 2" "is_level 3" by (simp_all add: is_level_def)
  show ?thesis
    using e by (simp add: queued_def pop_first_cons wf l del: pop_first.simps)
      (simp add: kret_def)
qed

lemma set_sie_simps [simp]:
  "cpuid (set_sie b c) = cpuid c" "noff (mycpu (set_sie b c)) = noff (mycpu c)"
  "cproc (mycpu (set_sie b c)) = cproc (mycpu c)" "free_lock lk (set_sie b c) = free_lock lk c"
  "holding lk (set_sie b c) = holding lk c" "intr_get (set_sie b c) = b"
  by (simp_all add: hart_defs)

lemma cpu_ok_set_sie [simp]: "0 \<le> noff (mycpu c) \<Longrightarrow> cpu_ok (set_sie False c)"
  by (simp add: cpu_ok_def)

lemma intr_eq [kstep]:
  "intr_on s = Ret () (s\<lparr>core := set_sie True (core s)\<rparr>)"
  "intr_off s = Ret () (s\<lparr>core := set_sie False (core s)\<rparr>)"
  by (simp_all add: intr_on_def intr_off_def kcore_mod_def kmod_def)

lemma kcore_mod_eq [kstep]: "kcore_mod f s = Ret () (s\<lparr>core := f (core s)\<rparr>)"
  by (simp add: kcore_mod_def kmod_def)

lemma kmod_eq [kstep]: "kmod f s = Ret () (f s)"
  by (simp add: kmod_def)

lemma upd_mycpu_simps [simp]:
  "noff (mycpu (upd_mycpu (\<lambda>c. c\<lparr>cproc := x\<rparr>) c)) = noff (mycpu c)"
  "cproc (mycpu (upd_mycpu (\<lambda>c. c\<lparr>cproc := x\<rparr>) c)) = x"
  "holding lk (upd_mycpu f c) = holding lk c" "intr_get (upd_mycpu f c) = intr_get c"
  by (simp_all add: hart_defs)

subsection \<open>The priority boost\<close>

lemma boost_drain_step:
  assumes wf: "mlfq_wf s" and q: "is_level q" and ne: "qview s q = p # ps"
  obtains t where "boost_drain (Suc n) q s = boost_drain n q t" and "mlfq_wf t"
    and "qview t = ((qview s)(q := ps))(0 := ((qview s)(q := ps)) 0 @ [p])"
    and "procs t = (procs s)(p := (procs s p)\<lparr>inq := 1, queue := 0, tick := 0\<rparr>)"
    and "core t = core s" and "ticks t = ticks s" and "boost t = boost s"
proof -
  let ?a = "pop_head p q s" and ?f = "\<lambda>r. r\<lparr>queue := 0, tick := 0\<rparr>"
  let ?b = "upd_proc p ?f ?a" and ?c = "push_tail p 0 (upd_proc p ?f ?a)"
  note pk = pop_ok [OF wf q ne]
  have b: "mlfq_wf ?b" using pk(2) by simp
  have p: "p < NPROC" using wf q ne qview_sub [OF q, of s] by (auto simp: mlfq_wf_def)
  have z: "is_level 0" by (simp add: is_level_def)
  have ps: "push p 0 True ?b = Ret () ?c" "mlfq_wf ?c" "qview ?c = (qview ?b)(0 := qview ?b 0 @ [p])"
    using push_tail_ok [OF b z p] by simp_all
  show thesis
  proof (rule that [of ?c])
    show "boost_drain (Suc n) q s = boost_drain n q ?c" using pk(1) ps(1) by simp
    show "qview ?c = ((qview s)(q := ps))(0 := ((qview s)(q := ps)) 0 @ [p])"
      using ps(3) pk(3) by simp
    show "procs ?c = (procs s)(p := (procs s p)\<lparr>inq := 1, queue := 0, tick := 0\<rparr>)"
      by (simp add: fun_eq_iff)
  qed (use ps(2) in simp_all)
qed

text \<open>
  A level below the top one is emptied onto the tail of queue 0, in order, and the loop ends
  after one turn more than the level has processes.
\<close>

lemma boost_drain_lower:
  assumes "mlfq_wf s" and "is_level q" and "q \<noteq> 0" and "length (qview s q) < n"
  shows "\<exists>t. boost_drain n q s = Ret () t \<and> mlfq_wf t \<and>
     qview t = (qview s)(q := [], 0 := qview s 0 @ qview s q) \<and>
     procs t = (\<lambda>p. if p \<in> set (qview s q) then (procs s p)\<lparr>queue := 0, tick := 0\<rparr> else procs s p) \<and>
     core t = core s \<and> ticks t = ticks s \<and> boost t = boost s"
  using assms
proof (induction "qview s q" arbitrary: s n)
  case Nil
  then obtain m where "n = Suc m" by (cases n) auto
  moreover have "pop q s = Ret None s" using Nil.hyps Nil.prems(1,2) by (intro pop_none) simp_all
  ultimately show ?case using Nil by (intro exI [of _ s]) (auto simp: kret_def)
next
  case (Cons p ps)
  then obtain m where m: "n = Suc m" by (cases n) auto
  obtain t where t: "boost_drain (Suc m) q s = boost_drain m q t" "mlfq_wf t"
    "qview t = ((qview s)(q := ps))(0 := ((qview s)(q := ps)) 0 @ [p])"
    "procs t = (procs s)(p := (procs s p)\<lparr>inq := 1, queue := 0, tick := 0\<rparr>)"
    "core t = core s" "ticks t = ticks s" "boost t = boost s"
    using boost_drain_step [OF Cons.prems(1,2) Cons.hyps(2) [symmetric]] by blast
  have tq: "ps = qview t q" using t(3) Cons.prems(3) by simp
  have "length (qview t q) < m" using Cons.prems(4) Cons.hyps(2) m tq
    by (metis Suc_less_eq length_Cons)
  from Cons.hyps(1) [OF tq t(2) Cons.prems(2,3) this] obtain u where
    u: "boost_drain m q t = Ret () u" "mlfq_wf u"
    "qview u = (qview t)(q := [], 0 := qview t 0 @ qview t q)"
    "procs u = (\<lambda>p. if p \<in> set (qview t q) then (procs t p)\<lparr>queue := 0, tick := 0\<rparr> else procs t p)"
    "core u = core t" "ticks u = ticks t" "boost u = boost t" by blast
  have "p \<in> set (queued s)" using Cons.hyps(2) qview_sub [OF Cons.prems(2), of s]
    by (metis list.set_intros(1) subsetD)
  then have "inq (procs s p) = 1" using Cons.prems(1) by (simp add: mlfq_wf_def)
  then have tp: "procs t = (procs s)(p := (procs s p)\<lparr>queue := 0, tick := 0\<rparr>)"
    using t(4) by (cases "procs s p") simp
  have qv: "qview s q = p # ps" using Cons.hyps(2) by simp
  have "qview u = (qview s)(q := [], 0 := qview s 0 @ qview s q)"
    using u(3) t(3) qv Cons.prems(3) by (auto simp: fun_eq_iff)
  moreover have "procs u = (\<lambda>r. if r \<in> set (qview s q) then (procs s r)\<lparr>queue := 0, tick := 0\<rparr> else procs s r)"
    using u(4) tq tp qv by (auto simp: fun_eq_iff)
  ultimately show ?case using t(1,5-7) u(1,2,5-7) m by auto
qed

text \<open>On queue 0 the loop puts every process back where it takes the next one from: it never ends.\<close>

lemma boost_drain_top: "mlfq_wf s \<Longrightarrow> qview s 0 \<noteq> [] \<Longrightarrow> boost_drain n 0 s = Loop"
proof (induction n arbitrary: s)
  case 0
  then show ?case by simp
next
  case (Suc n)
  then obtain p ps where ne: "qview s 0 = p # ps" by (cases "qview s 0") auto
  have "is_level 0" by (simp add: is_level_def)
  from boost_drain_step [OF Suc.prems(1) this ne] obtain t where
    "boost_drain (Suc n) 0 s = boost_drain n 0 t" "mlfq_wf t" "qview t 0 = ps @ [p]"
    by (metis fun_upd_same)
  with Suc.IH [of t] show ?case by simp
qed

lemma length_qview_le: "mlfq_wf s \<Longrightarrow> is_level q \<Longrightarrow> length (qview s q) \<le> 64"
proof -
  assume wf: "mlfq_wf s" and q: "is_level q"
  have "length (queued s) = card (set (queued s))"
    using wf by (simp add: mlfq_wf_def distinct_card)
  also have "\<dots> \<le> card {..<NPROC}"
    using wf by (intro card_mono) (auto simp: mlfq_wf_def)
  finally show ?thesis using length_qview_queued [OF q, of s] by (simp add: NPROC_def)
qed

lemma boost_all_ok:
  assumes wf: "mlfq_wf s" and top: "qview s 0 = []" and n: "64 < n"
    and p: "p \<notin> set (queued s)"
  shows "\<exists>t. boost_all n p s = Ret () t \<and> mlfq_wf t \<and>
     qview t 0 = queued s \<and> (\<forall>q. is_level q \<and> q \<noteq> 0 \<longrightarrow> qview t q = []) \<and>
     procs t = (\<lambda>r. if r = p \<or> r \<in> set (queued s) then (procs s r)\<lparr>queue := 0, tick := 0\<rparr> else procs s r) \<and>
     core t = core s \<and> ticks t = ticks s \<and> boost t = ticks s"
proof -
  have l: "is_level 0" "is_level 1" "is_level 2" "is_level 3" by (simp_all add: is_level_def)
  note drain = boost_drain_lower [OF _ _ _ le_less_trans [OF length_qview_le n]]
  obtain m where m: "n = Suc m" using n by (cases n) auto
  have d0: "boost_drain n 0 s = Ret () s"
    using pop_none [OF wf l(1) top] m by (simp add: kret_def)
  obtain a where a: "boost_drain n 1 s = Ret () a" "mlfq_wf a"
    "qview a = (qview s)(1 := [], 0 := qview s 0 @ qview s 1)"
    "procs a = (\<lambda>p. if p \<in> set (qview s 1) then (procs s p)\<lparr>queue := 0, tick := 0\<rparr> else procs s p)"
    "core a = core s" "ticks a = ticks s" "boost a = boost s"
    using drain [OF wf l(2) _ wf l(2)] by auto
  obtain b where b: "boost_drain n 2 a = Ret () b" "mlfq_wf b"
    "qview b = (qview a)(2 := [], 0 := qview a 0 @ qview a 2)"
    "procs b = (\<lambda>p. if p \<in> set (qview a 2) then (procs a p)\<lparr>queue := 0, tick := 0\<rparr> else procs a p)"
    "core b = core a" "ticks b = ticks a" "boost b = boost a"
    using drain [OF a(2) l(3) _ a(2) l(3)] by auto
  obtain c where c: "boost_drain n 3 b = Ret () c" "mlfq_wf c"
    "qview c = (qview b)(3 := [], 0 := qview b 0 @ qview b 3)"
    "procs c = (\<lambda>p. if p \<in> set (qview b 3) then (procs b p)\<lparr>queue := 0, tick := 0\<rparr> else procs b p)"
    "core c = core b" "ticks c = ticks b" "boost c = boost b"
    using drain [OF b(2) l(4) _ b(2) l(4)] by auto
  let ?t = "(upd_proc p (\<lambda>r. r\<lparr>queue := 0, tick := 0\<rparr>) c)\<lparr>boost := ticks c\<rparr>"
  have bq: "qcells (x\<lparr>boost := y\<rparr>) = qcells x" for x :: "'a sched_state_scheme" and y
    by (simp add: qcells_def fun_eq_iff)
  have "boost_all n p s = Ret () ?t"
    using d0 a(1) b(1) c(1) by (simp add: boost_all_def kmod_def kret_def)
  moreover have "qview ?t = qview c" by (simp add: qview_def bq fun_eq_iff)
  moreover have "mlfq_wf ?t = mlfq_wf (upd_proc p (\<lambda>r. r\<lparr>queue := 0, tick := 0\<rparr>) c)"
    by (simp add: mlfq_wf_def row_ok_def bq queued_def qview_def)
  moreover have "procs ?t =
      (\<lambda>r. if r = p \<or> r \<in> set (queued s) then (procs s r)\<lparr>queue := 0, tick := 0\<rparr> else procs s r)"
    using a(3,4) b(3,4) c(3,4) top p by (auto simp: fun_eq_iff queued_def)
  ultimately show ?thesis
    using a(3,5-7) b(3,5-7) c(2,3,5-7) top by (auto simp: queued_def is_level_def)
qed

subsection \<open>Charging a tick\<close>

definition demoted :: "int \<Rightarrow> int" where
  "demoted q = (if q < 3 then q + 1 else q)"

lemma charge_tick_expired:
  assumes wf: "mlfq_wf s" and p: "p < NPROC" "inq (procs s p) = 0" and q: "is_level (queue (procs s p))"
    and over: "qtick (queue (procs s p)) \<le> tick (procs s p) + 1"
  defines "q' \<equiv> demoted (queue (procs s p))"
  shows "\<exists>t. charge_tick p s = Ret () t \<and> mlfq_wf t \<and> qview t = (qview s)(q' := qview s q' @ [p]) \<and>
     procs t = (procs s)(p := (procs s p)\<lparr>tick := 0, queue := q', inq := 1\<rparr>) \<and>
     core t = core s \<and> ticks t = ticks s \<and> boost t = boost s"
proof -
  define b where "b = upd_proc p (\<lambda>r. if queue r < 3 then r\<lparr>queue := queue r + 1\<rparr> else r)
     (upd_proc p (\<lambda>r. r\<lparr>tick := 0\<rparr>) (upd_proc p (\<lambda>r. r\<lparr>tick := tick r + 1\<rparr>) s))"
  have q': "is_level q'" using q by (auto simp: q'_def demoted_def is_level_def)
  have b: "mlfq_wf b" "inq (procs b p) = 0" using wf p by (simp_all add: b_def)
  have pb: "procs b = (procs s)(p := (procs s p)\<lparr>tick := 0, queue := q'\<rparr>)"
    by (auto simp: fun_eq_iff q'_def demoted_def b_def)
  have fb: "qview b = qview s" "core b = core s" "ticks b = ticks s" "boost b = boost s"
    by (simp_all add: b_def)
  have "queue (procs b p) = q'" using pb by simp
  then have "charge_tick p s = push p q' True b"
    using over unfolding charge_tick_def b_def by simp
  then have "charge_tick p s = Ret () (push_tail p q' b)"
    using push_tail_ok(1) [OF b(1) q' p(1) b(2)] by simp
  moreover have "procs (push_tail p q' b) = (procs s)(p := (procs s p)\<lparr>tick := 0, queue := q', inq := 1\<rparr>)"
    by (simp add: pb)
  ultimately show ?thesis
    using push_tail_ok(2,3) [OF b(1) q' p(1) b(2)] fb by auto
qed

lemma charge_tick_continues:
  assumes wf: "mlfq_wf s" and p: "p < NPROC" "inq (procs s p) = 0" and q: "is_level (queue (procs s p))"
    and left: "tick (procs s p) + 1 < qtick (queue (procs s p))"
    and head: "head s (queue (procs s p)) \<noteq> 0"
  defines "q \<equiv> queue (procs s p)"
  shows "\<exists>t. charge_tick p s = Ret () t \<and> mlfq_wf t \<and> qview t = (qview s)(q := p # qview s q) \<and>
     procs t = (procs s)(p := (procs s p)\<lparr>tick := tick (procs s p) + 1, inq := 1\<rparr>) \<and>
     core t = core s \<and> ticks t = ticks s \<and> boost t = boost s"
proof -
  let ?b = "upd_proc p (\<lambda>r. r\<lparr>tick := tick r + 1\<rparr>) s"
  have b: "mlfq_wf ?b" "inq (procs ?b p) = 0" "head ?b q \<noteq> 0" using wf p head by (simp_all add: q_def)
  have "charge_tick p s = push p q False ?b"
    using left unfolding charge_tick_def by (simp add: q_def)
  with push_head_ok [OF b(1) q [folded q_def] p(1) b(2,3)] show ?thesis
    by (intro exI [of _ "push_head p q ?b"]) (simp add: fun_eq_iff)
qed

lemma sched_switches:
  assumes "cproc (mycpu (core s)) = Some p" and "cpu_ok (core s)" and "noff (mycpu (core s)) = 1"
    and "holding (ProcLock p) (core s)" and "state (procs s p) \<noteq> RUNNING"
  shows "sched s = swtch_scheduler (intena (mycpu (core s))) s"
  using assms by (simp add: sched_def kstep cpu_ok_def)

text \<open>
  \<open>picked p t\<close>: the scheduler has just switched to \<open>p\<close>, whose lock it took. \<open>back_on ie p t\<close> is
  the state after \<^verbatim>\<open>sched\<close> has returned and \<open>p\<close>'s lock has been released.
\<close>

definition picked :: "nat \<Rightarrow> 'z sched_state_scheme \<Rightarrow> bool" where
  "picked p t \<longleftrightarrow> cproc (mycpu (core t)) = Some p \<and> holding (ProcLock p) (core t) \<and>
     noff (mycpu (core t)) = 1 \<and> \<not> intr_get (core t)"

definition back_on :: "bool \<Rightarrow> nat \<Rightarrow> 'z sched_state_scheme \<Rightarrow> 'z sched_state_scheme" where
  "back_on ie p t = t\<lparr>core := c_rel (ProcLock p) (upd_mycpu (\<lambda>c. c\<lparr>intena := ie\<rparr>) (core t))\<rparr>"

lemma swtch_resume [kstep]:
  assumes "picked p t"
  shows "kseq (kcore_mod (upd_mycpu (\<lambda>c. c\<lparr>intena := ie\<rparr>))) (release (ProcLock p)) t =
     Ret () (back_on ie p t)"
proof -
  have "holding (ProcLock p) (upd_mycpu (\<lambda>c. c\<lparr>intena := ie\<rparr>) (core t))"
    "\<not> intr_get (upd_mycpu (\<lambda>c. c\<lparr>intena := ie\<rparr>) (core t))"
    "noff (mycpu (upd_mycpu (\<lambda>c. c\<lparr>intena := ie\<rparr>) (core t))) = 1"
    using assms by (simp_all add: picked_def hart_defs)
  then show ?thesis by (simp add: kcore_mod_def back_on_def release_eq)
qed

lemma mlfq_wf_sched0 [simp]: "mlfq_wf sched0" "qview sched0 q = []"
  by (auto simp: mlfq_wf_def row_ok_def qcells_def queued_def qview_def sched0_def proc0_def)

lemma sched0_simps [simp]:
  "core sched0 = core0" "procs sched0 p = proc0" "ticks sched0 = 0" "boost sched0 = 0"
  "head sched0 q = 0" "tail sched0 q = 0" "len sched0 q = 0"
  by (simp_all add: sched0_def)

lemma proc0_simps [simp]:
  "state proc0 = UNUSED" "queue proc0 = 0" "tick proc0 = 0" "inq proc0 = 0" "chan proc0 = None"
  by (simp_all add: proc0_def)

lemma core0_simps [simp]:
  "noff (mycpu core0) = 0" "cproc (mycpu core0) = None" "cpuid core0 = 0"
  by (simp_all add: core0_def core_defs)

lemma is_level_numerals [simp]: "is_level 0" "is_level 1" "is_level 2" "is_level 3"
  by (simp_all add: is_level_def)

lemma NPROC_less [simp]: "0 < NPROC" "Suc 0 < NPROC" "2 < NPROC" "3 < NPROC"
  by (simp_all add: NPROC_def)

subsection \<open>Properties of the scheduler\<close>

text \<open>
  C4. Strict priority: one turn of \<^verbatim>\<open>scheduler_mlfq\<close> switches to the first process of the
  highest-priority queue that has one. That process is removed from its queue, marked
  \<open>RUNNING\<close>, made the CPU's process, and the scheduler arrives at the switch with exactly that
  process's lock held and interrupts off. No other queue and no other process changes.
\<close>

theorem scheduler_picks_highest_priority:
  assumes wf: "mlfq_wf s" and q: "next_level s q" and p: "qview s q = p # ps"
    and run: "state (procs s p) = RUNNABLE"
    and idle: "noff (mycpu (core s)) = 0"
    and free: "free_lock MlfqLock (core s)" "free_lock (ProcLock p) (core s)"
  shows "\<exists>s'. scheduler_mlfq_pick s = Ret (Some p) s' \<and> mlfq_wf s' \<and> qview s' = (qview s)(q := ps) \<and>
     procs s' = (procs s)(p := (procs s p)\<lparr>inq := 0, state := RUNNING\<rparr>) \<and>
     cproc (mycpu (core s')) = Some p \<and> holding (ProcLock p) (core s') \<and> noff (mycpu (core s')) = 1 \<and>
     \<not> intr_get (core s')"
proof -
  let ?c = "set_sie False (set_sie True (core s))"
  let ?d = "c_acq MlfqLock ?c"
  have ok: "cpu_ok ?c" using idle by simp
  have lvl: "is_level q" using q by (simp add: next_level_def)
  have pf: "pop_first [0, 1, 2, 3] (s\<lparr>core := ?d\<rparr>) = Ret (Some p) (pop_head p q (s\<lparr>core := ?d\<rparr>))"
    using wf q p by (intro pop_first_eq [where ps = ps]) (simp_all add: next_level_def)
  note pk = pop_ok [of "s\<lparr>core := ?d\<rparr>" q p ps]
  show ?thesis
    unfolding scheduler_mlfq_pick_def
    using pf pk wf q p lvl ok free run
    by (simp add: kstep kret_def idle del: pop_first.simps)
qed

theorem scheduler_picks_highest_priority_witness:
  "\<exists>s'. scheduler_mlfq_pick (push_tail 2 1 (upd_proc 2 (\<lambda>r. r\<lparr>state := RUNNABLE\<rparr>) sched0)) = Ret (Some 2) s' \<and>
     cproc (mycpu (core s')) = Some 2"
proof -
  let ?s = "push_tail 2 1 (upd_proc 2 (\<lambda>r. r\<lparr>state := RUNNABLE\<rparr>) sched0)"
  have wf: "mlfq_wf ?s" and v: "qview ?s = (\<lambda>_. [])(1 := [2])"
    using push_tail_ok(2,3) [of "upd_proc 2 (\<lambda>r. r\<lparr>state := RUNNABLE\<rparr>) sched0" 1 2]
    by (simp_all add: fun_eq_iff)
  have n: "next_level ?s 1" using v by (auto simp: next_level_def)
  have p: "qview ?s 1 = 2 # []" using v by simp
  from scheduler_picks_highest_priority [OF wf n p] show ?thesis by auto
qed

text \<open>\<open>runs_alone s p\<close>: this CPU runs \<open>p\<close> outside every critical section, with \<open>p\<close> not queued.\<close>

definition runs_alone :: "'z sched_state_scheme \<Rightarrow> nat \<Rightarrow> bool" where
  "runs_alone s p \<longleftrightarrow> cproc (mycpu (core s)) = Some p \<and> noff (mycpu (core s)) = 0 \<and>
     free_lock (ProcLock p) (core s) \<and> free_lock MlfqLock (core s) \<and>
     p < NPROC \<and> inq (procs s p) = 0 \<and> is_level (queue (procs s p))"

text \<open>
  The tail of \<^verbatim>\<open>yield_mlfq\<close> behind the optional boost: once the tick has been charged, the
  process becomes runnable and passes every check of \<^verbatim>\<open>sched\<close>.
\<close>

lemma yield_after_charge:
  assumes r: "runs_alone s p"
    and c: "core a = c_acq MlfqLock (c_acq (ProcLock p) (touch (core s)))"
    and b: "kwhen (48 \<le> ticks s - boost s) (boost_all n p)
      (s\<lparr>core := c_acq MlfqLock (c_acq (ProcLock p) (touch (core s)))\<rparr>) = Ret () a"
    and ch: "charge_tick p a = Ret () t" and ct: "core t = core a"
  shows "\<exists>k. yield_mlfq n s = Sched (upd_proc p (\<lambda>r. r\<lparr>state := RUNNABLE\<rparr>)
       (t\<lparr>core := c_acq (ProcLock p) (touch (core s))\<rparr>)) k \<and>
     (\<forall>u. picked p u \<longrightarrow> k u = Ret () (back_on (intr_get (core s)) p u))"
proof -
  let ?t = "upd_proc p (\<lambda>r. r\<lparr>state := RUNNABLE\<rparr>) (t\<lparr>core := c_acq (ProcLock p) (touch (core s))\<rparr>)"
  have ok: "cpu_ok (core s)" using r by (simp add: runs_alone_def cpu_ok_def)
  have ie: "intena (mycpu (c_acq (ProcLock p) (touch (core s)))) = intr_get (core s)"
    using r by (simp add: runs_alone_def hart_defs)
  have sw: "sched ?t = Sched ?t (kcore_mod (upd_mycpu (\<lambda>c. c\<lparr>intena := intr_get (core s)\<rparr>)))"
    using r ok sched_switches [of ?t p] by (simp add: runs_alone_def swtch_scheduler_def ie)
  then have "yield_mlfq n s = Sched ?t
      (kseq (kcore_mod (upd_mycpu (\<lambda>c. c\<lparr>intena := intr_get (core s)\<rparr>))) (release (ProcLock p)))"
    unfolding yield_mlfq_def
    using r ok b ch ct c by (simp add: runs_alone_def kstep)
  then show ?thesis by (simp add: swtch_resume)
qed

lemma wf_acq: "mlfq_wf s \<Longrightarrow> mlfq_wf (s\<lparr>core := c\<rparr>)"
  by simp

text \<open>
  C16. Demotion: a process whose time slice is used up (1, 4, 8 or 16 ticks on levels 0 to 3)
  is put at the tail of the next lower queue, or of queue 3 again if it is there already; its
  tick count restarts, it is runnable, and control reaches the scheduler with only the
  process's own lock held. When the scheduler picks the process again, \<^verbatim>\<open>yield\<close> returns with
  that lock released.
\<close>

theorem yield_demotes_expired:
  assumes wf: "mlfq_wf s" and r: "runs_alone s p" and nb: "ticks s - boost s < 48"
    and over: "qtick (queue (procs s p)) \<le> tick (procs s p) + 1"
  shows "\<exists>s' k. yield_mlfq n s = Sched s' k \<and> (\<forall>u. picked p u \<longrightarrow> k u = Ret () (back_on (intr_get (core s)) p u)) \<and>
     mlfq_wf s' \<and>
     qview s' = (qview s)(demoted (queue (procs s p)) := qview s (demoted (queue (procs s p))) @ [p]) \<and>
     procs s' = (procs s)(p := (procs s p)\<lparr>tick := 0, queue := demoted (queue (procs s p)), inq := 1,
       state := RUNNABLE\<rparr>) \<and>
     core s' = c_acq (ProcLock p) (touch (core s))"
proof -
  define a where "a = s\<lparr>core := c_acq MlfqLock (c_acq (ProcLock p) (touch (core s)))\<rparr>"
  have a: "mlfq_wf a" "procs a = procs s" "qview a = qview s" using wf by (simp_all add: a_def)
  obtain t where t: "charge_tick p a = Ret () t" "mlfq_wf t" "core t = core a"
    "qview t = (qview s)(demoted (queue (procs s p)) := qview s (demoted (queue (procs s p))) @ [p])"
    "procs t = (procs s)(p := (procs s p)\<lparr>tick := 0, queue := demoted (queue (procs s p)), inq := 1\<rparr>)"
    using charge_tick_expired [of a p] a r over by (auto simp: runs_alone_def)
  have "kwhen (48 \<le> ticks s - boost s) (boost_all n p) a = Ret () a"
    using nb by (simp add: kwhen_def kret_def not_le [symmetric])
  then obtain k where "yield_mlfq n s = Sched (upd_proc p (\<lambda>r. r\<lparr>state := RUNNABLE\<rparr>)
       (t\<lparr>core := c_acq (ProcLock p) (touch (core s))\<rparr>)) k"
    "\<forall>u. picked p u \<longrightarrow> k u = Ret () (back_on (intr_get (core s)) p u)"
    using yield_after_charge [OF r, of a n t] t by (auto simp: a_def)
  with t show ?thesis by (simp add: a_def)
qed

theorem yield_demotes_expired_witness:
  "\<exists>s' k. yield_mlfq 0 (sched0\<lparr>core := upd_mycpu (\<lambda>c. c\<lparr>cproc := Some 1\<rparr>) core0\<rparr>) = Sched s' k \<and>
     qview s' 1 = [1] \<and> queue (procs s' 1) = 1"
proof -
  let ?s = "sched0\<lparr>core := upd_mycpu (\<lambda>c. c\<lparr>cproc := Some 1\<rparr>) core0\<rparr>"
  have s: "procs ?s = (\<lambda>_. proc0)" "ticks ?s = 0" "boost ?s = 0" by (simp_all add: sched0_def)
  have "runs_alone ?s 1" by (simp add: runs_alone_def s)
  moreover have "qtick (queue (procs ?s 1)) \<le> tick (procs ?s 1) + 1" by (simp add: s qtick_def)
  ultimately show ?thesis
    using yield_demotes_expired [of ?s 1 0] by (force simp: s demoted_def)
qed

text \<open>
  Inside its time slice a preempted process keeps its level and goes back to the head of
  its own queue, so that it is the next one of that level to run. The statement needs the
  queue's \<^verbatim>\<open>head\<close> index to be non-zero; the theorem after the next shows why.
\<close>

theorem yield_keeps_slice:
  assumes wf: "mlfq_wf s" and r: "runs_alone s p" and nb: "ticks s - boost s < 48"
    and left: "tick (procs s p) + 1 < qtick (queue (procs s p))"
    and head: "head s (queue (procs s p)) \<noteq> 0"
  shows "\<exists>s' k. yield_mlfq n s = Sched s' k \<and> (\<forall>u. picked p u \<longrightarrow> k u = Ret () (back_on (intr_get (core s)) p u)) \<and>
     mlfq_wf s' \<and>
     qview s' = (qview s)(queue (procs s p) := p # qview s (queue (procs s p))) \<and>
     procs s' = (procs s)(p := (procs s p)\<lparr>tick := tick (procs s p) + 1, inq := 1, state := RUNNABLE\<rparr>) \<and>
     core s' = c_acq (ProcLock p) (touch (core s))"
proof -
  define a where "a = s\<lparr>core := c_acq MlfqLock (c_acq (ProcLock p) (touch (core s)))\<rparr>"
  have a: "mlfq_wf a" "procs a = procs s" "qview a = qview s" "head a = head s"
    using wf by (simp_all add: a_def)
  obtain t where t: "charge_tick p a = Ret () t" "mlfq_wf t" "core t = core a"
    "qview t = (qview s)(queue (procs s p) := p # qview s (queue (procs s p)))"
    "procs t = (procs s)(p := (procs s p)\<lparr>tick := tick (procs s p) + 1, inq := 1\<rparr>)"
    using charge_tick_continues [of a p] a r left head by (auto simp: runs_alone_def)
  have "kwhen (48 \<le> ticks s - boost s) (boost_all n p) a = Ret () a"
    using nb by (simp add: kwhen_def kret_def not_le [symmetric])
  then obtain k where "yield_mlfq n s = Sched (upd_proc p (\<lambda>r. r\<lparr>state := RUNNABLE\<rparr>)
       (t\<lparr>core := c_acq (ProcLock p) (touch (core s))\<rparr>)) k"
    "\<forall>u. picked p u \<longrightarrow> k u = Ret () (back_on (intr_get (core s)) p u)"
    using yield_after_charge [OF r, of a n t] t by (auto simp: a_def)
  with t show ?thesis by (simp add: a_def)
qed

theorem yield_keeps_slice_witness:
  "\<exists>s' k. yield_mlfq 0 (pop_head 2 1 (push_tail 2 1 (upd_proc 2 (\<lambda>r. r\<lparr>queue := 1\<rparr>)
       (sched0\<lparr>core := upd_mycpu (\<lambda>c. c\<lparr>cproc := Some 2\<rparr>) core0\<rparr>)))) = Sched s' k \<and>
     qview s' 1 = [2] \<and> tick (procs s' 2) = 1"
proof -
  let ?a = "upd_proc 2 (\<lambda>r. r\<lparr>queue := 1\<rparr>) (sched0\<lparr>core := upd_mycpu (\<lambda>c. c\<lparr>cproc := Some 2\<rparr>) core0\<rparr>)"
  let ?b = "push_tail 2 1 ?a" and ?s = "pop_head 2 1 (push_tail 2 1 ?a)"
  have pa: "procs ?a = (\<lambda>_. proc0)(2 := proc0\<lparr>queue := 1\<rparr>)" by (simp add: sched0_def)
  have b: "mlfq_wf ?b" "qview ?b = (\<lambda>_. [])(1 := [2])"
    using push_tail_ok(2,3) [of ?a 1 2] by (simp_all add: pa fun_eq_iff)
  then have s: "mlfq_wf ?s" "qview ?s = (\<lambda>_. [])"
    using pop_ok(2,3) [of ?b 1 2 "[]"] by (simp_all add: fun_eq_iff)
  have ps: "procs ?s = (\<lambda>_. proc0)(2 := proc0\<lparr>queue := 1, inq := 0\<rparr>)"
    by (simp add: sched0_def fun_eq_iff)
  have "head ?s 1 = 1" "ticks ?s = 0" "boost ?s = 0"
    by (simp_all add: queue_eff_defs sched0_def smod64)
  moreover have "runs_alone ?s 2" by (simp add: runs_alone_def ps)
  ultimately show ?thesis
    using yield_keeps_slice [of ?s 2 0] s by (force simp: ps qtick_def)
qed

text \<open>
  What \<^verbatim>\<open>push\<close> at the head does when \<^verbatim>\<open>head[q]\<close> is 0 and \<open>q\<close> is not the top queue: C's
  remainder makes the new index \<open>-1\<close>, and the process is stored in the last slot of the queue
  above. A process that was waiting there is overwritten. (The intended index is
  \<open>NPROC - 1\<close> of the same queue.)
\<close>

theorem push_at_head_zero_clobbers:
  assumes "inq (procs s p) = 0" and "head s q = 0" and "1 \<le> q" and "q < 4"
  shows "\<exists>s'. push p q False s = Ret () s' \<and> head s' q = - 1 \<and>
     mlfqi s' (slot (q - 1) 63) = Some p \<and> mlfqi s' (slot q 63) = mlfqi s (slot q 63)"
proof -
  have sl: "slot q (- 1) = slot (q - 1) 63" "slot q 63 \<noteq> slot q (- 1)"
    by (simp_all add: slot_def NPROC_def algebra_simps)
  have h: "(head s q - 1) smod int NPROC = - 1"
    using assms(2) by (simp add: NPROC_def signed_modulo_int_def)
  moreover have "slot_ok (slot q (- 1))"
    using assms(3,4) by (auto simp: slot_ok_def slot_def NPROC_def)
  ultimately have "push p q False s = Ret () (push_head p q s)"
    using assms(1) by (intro push_head_eq) simp_all
  with h sl show ?thesis by (simp add: queue_eff_defs)
qed

text \<open>
  The witness is a well-formed state in which process 1 is the only one in queue 0, in its
  last slot; process 2 goes back to the head of queue 1, and queue 0 now holds process 2.
\<close>

theorem push_at_head_zero_clobbers_witness:
  "let s = push_tail 1 0 (sched0\<lparr>head := (\<lambda>_. 0)(0 := 63), tail := (\<lambda>_. 0)(0 := 63)\<rparr>)
   in mlfq_wf s \<and> qview s 0 = [1] \<and>
      (\<exists>s'. push 2 1 False s = Ret () s' \<and> mlfqi s' (slot 0 63) = Some 2)"
proof -
  let ?a = "sched0\<lparr>head := (\<lambda>_. 0)(0 := 63), tail := (\<lambda>_. 0)(0 := 63)\<rparr>"
  have "mlfq_wf ?a"
    by (auto simp: mlfq_wf_def row_ok_def qcells_def queued_def qview_def sched0_def proc0_def)
  moreover have "qview ?a = (\<lambda>_. [])" by (simp add: qview_def qcells_def sched0_def fun_eq_iff)
  moreover have "inq (procs ?a 1) = 0" by (simp add: sched0_def)
  ultimately have s: "mlfq_wf (push_tail 1 0 ?a)" "qview (push_tail 1 0 ?a) 0 = [1]"
    using push_tail_ok(2,3) [of ?a 0 1] by simp_all
  have "inq (procs (push_tail 1 0 ?a) 2) = 0" "head (push_tail 1 0 ?a) 1 = 0"
    by (simp_all add: queue_eff_defs sched0_def)
  with push_at_head_zero_clobbers [of "push_tail 1 0 ?a" 2 1] s show ?thesis
    by (auto simp: Let_def)
qed

text \<open>
  C17. The priority boost when queue 0 is empty: with more fuel than a queue can hold it
  returns, every queued process is then in queue 0, level 1's processes first, in order, with
  level and tick count reset (as are those of the running process), and the boost time is
  recorded.
\<close>

theorem boost_moves_everyone_up:
  assumes "mlfq_wf s" and "qview s 0 = []" and "64 < n" and "p \<notin> set (queued s)"
  shows "\<exists>t. boost_all n p s = Ret () t \<and> mlfq_wf t \<and>
     qview t 0 = qview s 1 @ qview s 2 @ qview s 3 \<and> (\<forall>q. is_level q \<and> q \<noteq> 0 \<longrightarrow> qview t q = []) \<and>
     (\<forall>r \<in> insert p (set (queued s)). queue (procs t r) = 0 \<and> tick (procs t r) = 0) \<and>
     boost t = ticks s"
  using boost_all_ok [OF assms] assms(2) by (auto simp: queued_def)

theorem boost_moves_everyone_up_witness:
  "\<exists>t. boost_all 65 1 (push_tail 2 3 sched0) = Ret () t \<and> qview t 0 = [2]"
proof -
  let ?s = "push_tail 2 3 sched0"
  have "mlfq_wf ?s" "qview ?s = (\<lambda>_. [])(3 := [2])"
    using push_tail_ok(2,3) [of sched0 3 2] by (simp_all add: fun_eq_iff)
  then show ?thesis
    using boost_moves_everyone_up [of ?s 65 1] by (auto simp: queued_def)
qed

text \<open>
  C15. The priority boost when queue 0 is not empty: the loop over queue 0 takes a process off
  the queue and puts it back on the same queue, so \<^verbatim>\<open>yield_mlfq\<close> does not return, whatever the
  fuel, and it does not return holding two spin locks.
\<close>

theorem boost_hangs_on_nonempty_top_queue:
  assumes "mlfq_wf s" and "runs_alone s p" and "48 \<le> ticks s - boost s" and "qview s 0 \<noteq> []"
  shows "yield_mlfq n s = Loop"
proof -
  define a where "a = s\<lparr>core := c_acq MlfqLock (c_acq (ProcLock p) (touch (core s)))\<rparr>"
  have "boost_drain n 0 a = Loop"
    using assms by (intro boost_drain_top) (simp_all add: a_def)
  then have "boost_all n p a = Loop" by (simp add: boost_all_def)
  moreover have "cpu_ok (core s)" using assms(2) by (simp add: runs_alone_def cpu_ok_def)
  ultimately show ?thesis
    using assms(2,3) unfolding yield_mlfq_def a_def by (simp add: runs_alone_def kstep)
qed

theorem boost_hangs_on_nonempty_top_queue_witness:
  "\<forall>n. yield_mlfq n (push_tail 2 0 (sched0\<lparr>core := upd_mycpu (\<lambda>c. c\<lparr>cproc := Some 1\<rparr>) core0, ticks := 48\<rparr>)) = Loop"
proof
  fix n
  let ?a = "sched0\<lparr>core := upd_mycpu (\<lambda>c. c\<lparr>cproc := Some 1\<rparr>) core0, ticks := 48\<rparr>"
  let ?s = "push_tail 2 0 ?a"
  have "mlfq_wf ?a"
    by (auto simp: mlfq_wf_def row_ok_def qcells_def queued_def qview_def sched0_def proc0_def)
  moreover have "procs ?a = (\<lambda>_. proc0)" by (simp add: sched0_def)
  ultimately have s: "mlfq_wf ?s" "qview ?s 0 \<noteq> []"
    using push_tail_ok(2,3) [of ?a 0 2] by simp_all
  have "runs_alone ?s 1" using \<open>procs ?a = _\<close> by (simp add: runs_alone_def)
  moreover have "ticks ?s = 48" "boost ?s = 0" by (simp_all add: sched0_def)
  ultimately show "yield_mlfq n ?s = Loop"
    using boost_hangs_on_nonempty_top_queue [OF s(1) _ _ s(2)] by simp
qed

end
