(* ===== verification/Vm.thy ===== *)
theory Vm
  imports Kalloc
begin

text \<open>
  Virtual memory, \<^verbatim>\<open>kernel/vm.c\<close>: the three-level Sv39 page tables in physical memory, their
  construction and destruction, and the copies between kernel and user memory. A page table
  is the address of its root page, a page-table entry is a 64-bit word in the byte memory
  \<open>phys\<close>, and \<^verbatim>\<open>walk\<close> returns the address of an entry or 0, all as in the source.

  Kernel buffers that \<^verbatim>\<open>copyout\<close>, \<^verbatim>\<open>copyin\<close> and \<^verbatim>\<open>copyinstr\<close> copy from or to are lists of bytes: the
  first takes the bytes, the other two return the bytes they stored together with the
  status.
\<close>

subsection \<open>Page-table entries\<close>

definition PTE_V :: u64 where "PTE_V = 1"
definition PTE_R :: u64 where "PTE_R = 2"
definition PTE_W :: u64 where "PTE_W = 4"
definition PTE_X :: u64 where "PTE_X = 8"
definition PTE_U :: u64 where "PTE_U = 16"

definition PA2PTE :: "u64 \<Rightarrow> u64" where
  "PA2PTE pa = push_bit 10 (drop_bit 12 pa)"

definition PTE2PA :: "u64 \<Rightarrow> u64" where
  "PTE2PA pte = push_bit 12 (drop_bit 10 pte)"

definition PTE_FLAGS :: "u64 \<Rightarrow> u64" where
  "PTE_FLAGS pte = pte AND 0x3FF"

definition PXSHIFT :: "nat \<Rightarrow> nat" where
  "PXSHIFT level = 12 + 9 * level"

definition PX :: "nat \<Rightarrow> u64 \<Rightarrow> u64" where
  "PX level va = drop_bit (PXSHIFT level) va AND 0x1FF"

definition MAXVA :: u64 where "MAXVA = push_bit (9 + 9 + 9 + 12 - 1) 1"

definition pte_V :: "u64 \<Rightarrow> bool" where
  "pte_V pte \<longleftrightarrow> pte AND PTE_V \<noteq> 0"

text \<open>The entry of table \<open>pt\<close> at index \<open>i\<close>.\<close>

definition pte_at :: "u64 \<Rightarrow> u64 \<Rightarrow> u64" where
  "pte_at pt i = pt + 8 * i"

definition get_pte :: "u64 \<Rightarrow> 'z kmem_state_scheme \<Rightarrow> ('z kmem_state_scheme, u64) kres" where
  "get_pte a = kget (\<lambda>s. load64 (phys s) a)"

definition set_pte :: "u64 \<Rightarrow> u64 \<Rightarrow> 'z kmem_state_scheme \<Rightarrow> ('z kmem_state_scheme, unit) kres" where
  "set_pte a v = kmod (\<lambda>s. s\<lparr>phys := store64 (phys s) a v\<rparr>)"

definition zero_page :: "u64 \<Rightarrow> 'z kmem_state_scheme \<Rightarrow> ('z kmem_state_scheme, unit) kres" where
  "zero_page pa = kmod (\<lambda>s. s\<lparr>phys := memset (phys s) pa 0 4096\<rparr>)"

subsection \<open>Walking a page table\<close>

primrec walk_loop :: "nat \<Rightarrow> u64 \<Rightarrow> u64 \<Rightarrow> bool \<Rightarrow> 'z kmem_state_scheme \<Rightarrow> ('z kmem_state_scheme, u64) kres" where
  "walk_loop 0 pt va alloc = kret (pte_at pt (PX 0 va))"
| "walk_loop (Suc l) pt va alloc =
     kbind (get_pte (pte_at pt (PX (Suc l) va))) (\<lambda>pte.
     if pte_V pte then walk_loop l (PTE2PA pte) va alloc
     else if \<not> alloc then kret 0
     else kbind kalloc (\<lambda>pg.
       if pg = 0 then kret 0
       else kseq (zero_page pg) (
            kseq (set_pte (pte_at pt (PX (Suc l) va)) (PA2PTE pg OR PTE_V)) (
            walk_loop l pg va alloc))))"

definition walk :: "u64 \<Rightarrow> u64 \<Rightarrow> bool \<Rightarrow> 'z kmem_state_scheme \<Rightarrow> ('z kmem_state_scheme, u64) kres" where
  "walk pt va alloc = (if MAXVA \<le> va then kpanic ''walk'' else walk_loop 2 pt va alloc)"

definition walkaddr :: "u64 \<Rightarrow> u64 \<Rightarrow> 'z kmem_state_scheme \<Rightarrow> ('z kmem_state_scheme, u64) kres" where
  "walkaddr pt va =
     (if MAXVA \<le> va then kret 0
      else kbind (walk pt va False) (\<lambda>a.
        if a = 0 then kret 0
        else kbind (get_pte a) (\<lambda>pte.
          if \<not> pte_V pte then kret 0
          else if pte AND PTE_U = 0 then kret 0
          else kret (PTE2PA pte))))"

text \<open>
  The loop of \<^verbatim>\<open>mappages\<close> with one unit of fuel for every page; the fuel given by \<^verbatim>\<open>mappages\<close>, the
  size in pages, is exactly what the loop uses.
\<close>

primrec mappages_loop ::
  "nat \<Rightarrow> u64 \<Rightarrow> u64 \<Rightarrow> u64 \<Rightarrow> u64 \<Rightarrow> u64 \<Rightarrow> 'z kmem_state_scheme \<Rightarrow> ('z kmem_state_scheme, int) kres" where
  "mappages_loop 0 pt a final pa perm = (\<lambda>s. Loop)"
| "mappages_loop (Suc n) pt a final pa perm =
     kbind (walk pt a True) (\<lambda>p.
     if p = 0 then kret (- 1)
     else kbind (get_pte p) (\<lambda>pte.
       if pte_V pte then kpanic ''mappages: remap''
       else kseq (set_pte p (PA2PTE pa OR perm OR PTE_V)) (
            if a = final then kret 0
            else mappages_loop n pt (a + PGSIZE) final (pa + PGSIZE) perm)))"

definition mappages ::
  "u64 \<Rightarrow> u64 \<Rightarrow> u64 \<Rightarrow> u64 \<Rightarrow> u64 \<Rightarrow> 'z kmem_state_scheme \<Rightarrow> ('z kmem_state_scheme, int) kres" where
  "mappages pt va sz pa perm =
     (if va mod PGSIZE \<noteq> 0 then kpanic ''mappages: va not aligned''
      else if sz mod PGSIZE \<noteq> 0 then kpanic ''mappages: size not aligned''
      else if sz = 0 then kpanic ''mappages: size''
      else mappages_loop (unat (sz div PGSIZE)) pt va (va + sz - PGSIZE) pa perm)"

definition uvmcreate :: "'z kmem_state_scheme \<Rightarrow> ('z kmem_state_scheme, u64) kres" where
  "uvmcreate = kbind kalloc (\<lambda>pt. if pt = 0 then kret 0 else kseq (zero_page pt) (kret pt))"

text \<open>
  \<^verbatim>\<open>walk\<close> panics at \<^verbatim>\<open>MAXVA\<close>, so the loops over the pages of an address range end there at the
  latest; saying so makes the recursions terminate for ranges that wrap around.
\<close>

definition uvmunmap_one :: "u64 \<Rightarrow> bool \<Rightarrow> u64 \<Rightarrow> 'z kmem_state_scheme \<Rightarrow> ('z kmem_state_scheme, unit) kres" where
  "uvmunmap_one pt do_free a =
     kbind (walk pt a False) (\<lambda>p.
     if p = 0 then kret ()
     else kbind (get_pte p) (\<lambda>pte.
       if \<not> pte_V pte then kret ()
       else kseq (kwhen do_free (kfree (PTE2PA pte))) (set_pte p 0)))"

function uvmunmap_loop :: "u64 \<Rightarrow> bool \<Rightarrow> u64 \<Rightarrow> u64 \<Rightarrow> 'z kmem_state_scheme \<Rightarrow> ('z kmem_state_scheme, unit) kres" where
  "uvmunmap_loop pt do_free a final =
     (if a < final
      then kseq (uvmunmap_one pt do_free a)
             (if a < MAXVA then uvmunmap_loop pt do_free (a + PGSIZE) final else kret ())
      else kret ())"
  by pat_completeness auto
termination
proof (relation "measure (\<lambda>(pt, f, a, final). unat final - unat a)")
  fix a final :: u64 and pt f
  assume "a < final" "a < MAXVA"
  then have "unat (a + PGSIZE) = unat a + 4096"
    by (simp add: PGSIZE_def MAXVA_def word_less_nat_alt unat_word_ariths)
  with \<open>a < final\<close> show "((pt, f, a + PGSIZE, final), pt, f, a, final) \<in> measure (\<lambda>(pt, f, a, final). unat final - unat a)"
    by (simp add: word_less_nat_alt)
qed auto

declare uvmunmap_loop.simps [simp del]

definition uvmunmap :: "u64 \<Rightarrow> u64 \<Rightarrow> u64 \<Rightarrow> bool \<Rightarrow> 'z kmem_state_scheme \<Rightarrow> ('z kmem_state_scheme, unit) kres" where
  "uvmunmap pt va npages do_free =
     (if va mod PGSIZE \<noteq> 0 then kpanic ''uvmunmap: not aligned''
      else uvmunmap_loop pt do_free va (va + npages * PGSIZE))"

text \<open>The number of pages goes through an \<^verbatim>\<open>int\<close> before it is passed on.\<close>

definition uvmdealloc :: "u64 \<Rightarrow> u64 \<Rightarrow> u64 \<Rightarrow> 'z kmem_state_scheme \<Rightarrow> ('z kmem_state_scheme, u64) kres" where
  "uvmdealloc pt oldsz newsz =
     (if oldsz \<le> newsz then kret oldsz
      else kseq (kwhen (PGROUNDUP newsz < PGROUNDUP oldsz)
             (let npages = ucast ((PGROUNDUP oldsz - PGROUNDUP newsz) div PGSIZE) :: u32
              in uvmunmap pt (PGROUNDUP newsz) (scast npages) True))
           (kret newsz))"

function uvmalloc_loop :: "u64 \<Rightarrow> u64 \<Rightarrow> u64 \<Rightarrow> u64 \<Rightarrow> u64 \<Rightarrow> 'z kmem_state_scheme \<Rightarrow> ('z kmem_state_scheme, u64) kres" where
  "uvmalloc_loop pt oldsz newsz xperm a =
     (if a < newsz
      then kbind kalloc (\<lambda>mem.
        if mem = 0 then kseq (kbind (uvmdealloc pt a oldsz) (\<lambda>_. kret ())) (kret 0)
        else kseq (zero_page mem) (
          kbind (mappages pt a PGSIZE mem (PTE_R OR PTE_U OR xperm)) (\<lambda>r.
          if r \<noteq> 0
          then kseq (kfree mem) (kseq (kbind (uvmdealloc pt a oldsz) (\<lambda>_. kret ())) (kret 0))
          else if a < MAXVA then uvmalloc_loop pt oldsz newsz xperm (a + PGSIZE) else kret newsz)))
      else kret newsz)"
  by pat_completeness auto
termination
proof (relation "measure (\<lambda>(pt, oldsz, newsz, xperm, a). unat newsz - unat a)")
  fix a newsz pt oldsz xperm :: u64
  assume "a < newsz" "a < MAXVA"
  then have "unat (a + PGSIZE) = unat a + 4096"
    by (simp add: PGSIZE_def MAXVA_def word_less_nat_alt unat_word_ariths)
  with \<open>a < newsz\<close> show "((pt, oldsz, newsz, xperm, a + PGSIZE), pt, oldsz, newsz, xperm, a) \<in>
      measure (\<lambda>(pt, oldsz, newsz, xperm, a). unat newsz - unat a)"
    by (simp add: word_less_nat_alt)
qed auto

declare uvmalloc_loop.simps [simp del]

definition uvmalloc :: "u64 \<Rightarrow> u64 \<Rightarrow> u64 \<Rightarrow> u64 \<Rightarrow> 'z kmem_state_scheme \<Rightarrow> ('z kmem_state_scheme, u64) kres" where
  "uvmalloc pt oldsz newsz xperm =
     (if newsz < oldsz then kret oldsz
      else uvmalloc_loop pt (PGROUNDUP oldsz) newsz xperm (PGROUNDUP oldsz))"

text \<open>
  \<^verbatim>\<open>freewalk\<close> descends as deep as the tables go; the fuel bounds the depth. A page table has
  three levels.
\<close>

fun freewalk :: "nat \<Rightarrow> u64 \<Rightarrow> 'z kmem_state_scheme \<Rightarrow> ('z kmem_state_scheme, unit) kres" where
  "freewalk 0 pt = (\<lambda>s. Loop)"
| "freewalk (Suc n) pt =
     kseq (kfor [0..<512] (\<lambda>i.
       kbind (get_pte (pte_at pt (of_nat i))) (\<lambda>pte.
       if pte_V pte \<and> pte AND (PTE_R OR PTE_W OR PTE_X) = 0
       then kseq (freewalk n (PTE2PA pte)) (set_pte (pte_at pt (of_nat i)) 0)
       else if pte_V pte then kpanic ''freewalk: leaf''
       else kret ())))
     (kfree pt)"

definition uvmfree :: "u64 \<Rightarrow> u64 \<Rightarrow> 'z kmem_state_scheme \<Rightarrow> ('z kmem_state_scheme, unit) kres" where
  "uvmfree pt sz =
     kseq (kwhen (0 < sz) (uvmunmap pt 0 (PGROUNDUP sz div PGSIZE) True))
          (freewalk 3 pt)"

text \<open>One turn of the loop of \<^verbatim>\<open>uvmcopy\<close>: \<open>False\<close> is the jump to \<^verbatim>\<open>err\<close>.\<close>

definition uvmcopy_one :: "u64 \<Rightarrow> u64 \<Rightarrow> u64 \<Rightarrow> 'z kmem_state_scheme \<Rightarrow> ('z kmem_state_scheme, bool) kres" where
  "uvmcopy_one old new i =
     kbind (walk old i False) (\<lambda>p.
     if p = 0 then kret True
     else kbind (get_pte p) (\<lambda>pte.
       if \<not> pte_V pte then kret True
       else kbind kalloc (\<lambda>mem.
         if mem = 0 then kret False
         else kseq (kmod (\<lambda>s. s\<lparr>phys := memmove (phys s) mem (PTE2PA pte) 4096\<rparr>)) (
           kbind (mappages new i PGSIZE mem (PTE_FLAGS pte)) (\<lambda>r.
           if r \<noteq> 0 then kseq (kfree mem) (kret False) else kret True)))))"

function uvmcopy_loop :: "u64 \<Rightarrow> u64 \<Rightarrow> u64 \<Rightarrow> u64 \<Rightarrow> 'z kmem_state_scheme \<Rightarrow> ('z kmem_state_scheme, int) kres" where
  "uvmcopy_loop old new sz i =
     (if i < sz
      then kbind (uvmcopy_one old new i) (\<lambda>ok.
        if \<not> ok then kseq (uvmunmap new 0 (i div PGSIZE) True) (kret (- 1))
        else if i < MAXVA then uvmcopy_loop old new sz (i + PGSIZE) else kret 0)
      else kret 0)"
  by pat_completeness auto
termination
proof (relation "measure (\<lambda>(old, new, sz, i). unat sz - unat i)")
  fix i sz old new :: u64
  assume "i < sz" "i < MAXVA"
  then have "unat (i + PGSIZE) = unat i + 4096"
    by (simp add: PGSIZE_def MAXVA_def word_less_nat_alt unat_word_ariths)
  with \<open>i < sz\<close> show "((old, new, sz, i + PGSIZE), old, new, sz, i) \<in> measure (\<lambda>(old, new, sz, i). unat sz - unat i)"
    by (simp add: word_less_nat_alt)
qed auto

declare uvmcopy_loop.simps [simp del]

definition uvmcopy :: "u64 \<Rightarrow> u64 \<Rightarrow> u64 \<Rightarrow> 'z kmem_state_scheme \<Rightarrow> ('z kmem_state_scheme, int) kres" where
  "uvmcopy old new sz = uvmcopy_loop old new sz 0"

definition uvmclear :: "u64 \<Rightarrow> u64 \<Rightarrow> 'z kmem_state_scheme \<Rightarrow> ('z kmem_state_scheme, unit) kres" where
  "uvmclear pt va =
     kbind (walk pt va False) (\<lambda>p.
     if p = 0 then kpanic ''uvmclear''
     else kbind (get_pte p) (\<lambda>pte. set_pte p (pte AND NOT PTE_U)))"

subsection \<open>Lazy allocation and copying\<close>

definition ismapped :: "u64 \<Rightarrow> u64 \<Rightarrow> 'z kmem_state_scheme \<Rightarrow> ('z kmem_state_scheme, bool) kres" where
  "ismapped pt va =
     kbind (walk pt va False) (\<lambda>p.
     if p = 0 then kret False
     else kbind (get_pte p) (\<lambda>pte. kret (pte_V pte)))"

definition vmfault :: "u64 \<Rightarrow> u64 \<Rightarrow> u64 \<Rightarrow> bool \<Rightarrow> 'z kmem_state_scheme \<Rightarrow> ('z kmem_state_scheme, u64) kres" where
  "vmfault pt psz va rd =
     (if psz \<le> va then kret 0
      else kbind (ismapped pt (PGROUNDDOWN va)) (\<lambda>m.
        if m then kret 0
        else kbind kalloc (\<lambda>mem.
          if mem = 0 then kret 0
          else kseq (zero_page mem) (
            kbind (mappages pt (PGROUNDDOWN va) PGSIZE mem (PTE_W OR PTE_U OR PTE_R)) (\<lambda>r.
            if r \<noteq> 0 then kseq (kfree mem) (kret 0) else kret mem)))))"

text \<open>Bytes in memory, and how many of \<open>k\<close> bytes from \<open>va\<close> on lie in \<open>va\<close>'s page.\<close>

primrec store_bytes :: "mem \<Rightarrow> u64 \<Rightarrow> u8 list \<Rightarrow> mem" where
  "store_bytes m a [] = m"
| "store_bytes m a (b # bs) = store_bytes (m(a := b)) (a + 1) bs"

definition load_bytes :: "mem \<Rightarrow> u64 \<Rightarrow> nat \<Rightarrow> u8 list" where
  "load_bytes m a n = map (\<lambda>i. m (a + of_nat i)) [0..<n]"

definition chunk :: "u64 \<Rightarrow> nat \<Rightarrow> nat" where
  "chunk va k = min (unat (PGSIZE - (va - PGROUNDDOWN va))) k"

lemma chunk_pos: "0 < k \<Longrightarrow> 0 < chunk va k"
proof -
  assume k: "0 < k"
  have "unat (va - PGROUNDDOWN va) < 4096"
    using in_page_PGROUNDDOWN [of va] by (simp add: in_region_def)
  then have "va - PGROUNDDOWN va < PGSIZE" by (simp add: word_less_nat_alt PGSIZE_def)
  then have "PGSIZE - (va - PGROUNDDOWN va) \<noteq> 0" by auto
  then show ?thesis using k by (simp add: chunk_def unat_gt_0)
qed

text \<open>The page a copy works on: the mapped one, or a new one from \<^verbatim>\<open>vmfault\<close>, or 0.\<close>

definition user_page :: "u64 \<Rightarrow> u64 \<Rightarrow> u64 \<Rightarrow> bool \<Rightarrow> 'z kmem_state_scheme \<Rightarrow> ('z kmem_state_scheme, u64) kres" where
  "user_page pt psz va0 rd =
     kbind (walkaddr pt va0) (\<lambda>pa0. if pa0 = 0 then vmfault pt psz va0 rd else kret pa0)"

function copyout :: "u64 \<Rightarrow> u64 \<Rightarrow> u64 \<Rightarrow> u8 list \<Rightarrow> 'z kmem_state_scheme \<Rightarrow> ('z kmem_state_scheme, int) kres" where
  "copyout pt psz dstva src =
     (if src = [] then kret 0
      else if MAXVA \<le> PGROUNDDOWN dstva then kret (- 1)
      else kbind (user_page pt psz (PGROUNDDOWN dstva) False) (\<lambda>pa0.
        if pa0 = 0 then kret (- 1)
        else kbind (walk pt (PGROUNDDOWN dstva) False) (\<lambda>p.
          if p = 0 then kub
          else kbind (get_pte p) (\<lambda>pte.
            if pte AND PTE_W = 0 then kret (- 1)
            else kseq (kmod (\<lambda>s. s\<lparr>phys := store_bytes (phys s) (pa0 + (dstva - PGROUNDDOWN dstva))
                                      (take (chunk dstva (length src)) src)\<rparr>))
                 (copyout pt psz (PGROUNDDOWN dstva + PGSIZE) (drop (chunk dstva (length src)) src))))))"
  by pat_completeness auto
termination
  by (relation "measure (\<lambda>(pt, psz, dstva, src). length src)") (auto simp: chunk_pos)

declare copyout.simps [simp del]

text \<open>The result of \<^verbatim>\<open>copyin\<close>: its status and the bytes it has stored at \<^verbatim>\<open>dst\<close>.\<close>

function copyin :: "u64 \<Rightarrow> u64 \<Rightarrow> u64 \<Rightarrow> nat \<Rightarrow> 'z kmem_state_scheme \<Rightarrow> ('z kmem_state_scheme, int \<times> u8 list) kres" where
  "copyin pt psz srcva len =
     (if len = 0 then kret (0, [])
      else kbind (user_page pt psz (PGROUNDDOWN srcva) True) (\<lambda>pa0.
        if pa0 = 0 then kret (- 1, [])
        else kbind (kget (\<lambda>s. load_bytes (phys s) (pa0 + (srcva - PGROUNDDOWN srcva)) (chunk srcva len))) (\<lambda>bs.
          kbind (copyin pt psz (PGROUNDDOWN srcva + PGSIZE) (len - chunk srcva len)) (\<lambda>(r, rest).
          kret (r, bs @ rest)))))"
  by pat_completeness auto
termination
  by (relation "measure (\<lambda>(pt, psz, srcva, len). len)") (auto simp: chunk_pos)

declare copyin.simps [simp del]

text \<open>The inner loop of \<^verbatim>\<open>copyinstr\<close>: the bytes copied from one page, and whether a NUL was seen.\<close>

primrec copy_to_nul :: "mem \<Rightarrow> u64 \<Rightarrow> nat \<Rightarrow> u8 list \<times> bool" where
  "copy_to_nul m p 0 = ([], False)"
| "copy_to_nul m p (Suc n) =
     (if m p = 0 then ([0], True)
      else let (bs, z) = copy_to_nul m (p + 1) n in (m p # bs, z))"

function copyinstr :: "u64 \<Rightarrow> u64 \<Rightarrow> u64 \<Rightarrow> nat \<Rightarrow> 'z kmem_state_scheme \<Rightarrow> ('z kmem_state_scheme, int \<times> u8 list) kres" where
  "copyinstr pt psz srcva mx =
     (if mx = 0 then kret (- 1, [])
      else kbind (user_page pt psz (PGROUNDDOWN srcva) True) (\<lambda>pa0.
        if pa0 = 0 then kret (- 1, [])
        else kbind (kget (\<lambda>s. copy_to_nul (phys s) (pa0 + (srcva - PGROUNDDOWN srcva)) (chunk srcva mx))) (\<lambda>(bs, z).
          if z then kret (0, bs)
          else kbind (copyinstr pt psz (PGROUNDDOWN srcva + PGSIZE) (mx - chunk srcva mx)) (\<lambda>(r, rest).
            kret (r, bs @ rest)))))"
  by pat_completeness auto
termination
  by (relation "measure (\<lambda>(pt, psz, srcva, mx). mx)") (auto simp: chunk_pos)

declare copyinstr.simps [simp del]

subsection \<open>The kernel's page table\<close>

definition UART0 :: u64 where "UART0 = 0x10000000"
definition VIRTIO0 :: u64 where "VIRTIO0 = 0x10001000"
definition PLIC :: u64 where "PLIC = 0x0c000000"
definition TRAMPOLINE :: u64 where "TRAMPOLINE = MAXVA - PGSIZE"
definition TRAPFRAME :: u64 where "TRAPFRAME = TRAMPOLINE - PGSIZE"

definition KSTACK :: "nat \<Rightarrow> u64" where
  "KSTACK p = TRAMPOLINE - (of_nat p + 1) * 2 * PGSIZE"

definition kvmmap :: "u64 \<Rightarrow> u64 \<Rightarrow> u64 \<Rightarrow> u64 \<Rightarrow> u64 \<Rightarrow> 'z kmem_state_scheme \<Rightarrow> ('z kmem_state_scheme, unit) kres" where
  "kvmmap kpgtbl va pa sz perm =
     kbind (mappages kpgtbl va sz pa perm) (\<lambda>r. kwhen (r \<noteq> 0) (kpanic ''kvmmap''))"

definition proc_mapstacks :: "u64 \<Rightarrow> 'z kmem_state_scheme \<Rightarrow> ('z kmem_state_scheme, unit) kres" where
  "proc_mapstacks kpgtbl = kfor [0..<64] (\<lambda>p.
     kbind kalloc (\<lambda>pa.
     if pa = 0 then kpanic ''kalloc''
     else kvmmap kpgtbl (KSTACK p) pa PGSIZE (PTE_R OR PTE_W)))"

text \<open>\<open>etext\<close> and \<open>trampoline\<close> are addresses the linker fixes.\<close>

definition kvmmake :: "u64 \<Rightarrow> u64 \<Rightarrow> 'z kmem_state_scheme \<Rightarrow> ('z kmem_state_scheme, u64) kres" where
  "kvmmake etext trampoline =
     kbind kalloc (\<lambda>kpgtbl.
     if kpgtbl = 0 then kub else
     kseq (zero_page kpgtbl) (
     kseq (kvmmap kpgtbl UART0 UART0 PGSIZE (PTE_R OR PTE_W)) (
     kseq (kvmmap kpgtbl VIRTIO0 VIRTIO0 PGSIZE (PTE_R OR PTE_W)) (
     kseq (kvmmap kpgtbl PLIC PLIC 0x4000000 (PTE_R OR PTE_W)) (
     kseq (kvmmap kpgtbl KERNBASE KERNBASE (etext - KERNBASE) (PTE_R OR PTE_X)) (
     kseq (kvmmap kpgtbl etext etext (PHYSTOP - etext) (PTE_R OR PTE_W)) (
     kseq (kvmmap kpgtbl TRAMPOLINE trampoline PGSIZE (PTE_R OR PTE_X)) (
     kseq (proc_mapstacks kpgtbl) (kret kpgtbl)))))))))"

end
