(* ===== verification/Sched.thy ===== *)
theory Sched
  imports Mlfq Vm
begin

text \<open>
  The rest of the process-state machinery of \<^verbatim>\<open>kernel/proc.c\<close> that does not touch memory maps or
  files: \<^verbatim>\<open>procinit\<close>, \<^verbatim>\<open>allocpid\<close>, \<^verbatim>\<open>sleep_prepare\<close>, \<^verbatim>\<open>sleep\<close>, \<^verbatim>\<open>wakeup\<close>, \<^verbatim>\<open>kkill\<close>, \<^verbatim>\<open>setkilled\<close>, \<^verbatim>\<open>killed\<close>,
  \<^verbatim>\<open>reparent\<close>, \<^verbatim>\<open>procdump\<close>, the round-robin scheduler and \<^verbatim>\<open>yield\<close> of the default build; the
  argument fetching of \<^verbatim>\<open>kernel/syscall.c\<close>; \<^verbatim>\<open>clockintr\<close> of \<^verbatim>\<open>kernel/trap.c\<close>; and the system calls of
  \<^verbatim>\<open>kernel/sysproc.c\<close> that are thin wrappers around them.

  The second half shows that a wakeup is never lost, whichever way it interleaves with
  \<^verbatim>\<open>sleep_prepare\<close> and \<^verbatim>\<open>sleep\<close>, and what \<^verbatim>\<open>wakeup\<close>, \<^verbatim>\<open>kkill\<close>, \<^verbatim>\<open>clockintr\<close> and \<^verbatim>\<open>sys_pause\<close> do to the
  process table and the run queues.
\<close>

subsection \<open>Boot\<close>

definition procinit :: "'z sched_state_scheme \<Rightarrow> ('z sched_state_scheme, unit) kres" where
  "procinit =
     kseq (initlock PidLock ''nextpid'') (
     kseq (initlock WaitLock ''wait_lock'') (
     kseq (initlock MlfqLock ''mlfq_lock'') (
     kfor [0..<NPROC] (\<lambda>p.
       kseq (initlock (ProcLock p) ''proc'')
            (kmod (upd_proc p (\<lambda>r. r\<lparr>state := UNUSED, kstack := KSTACK p\<rparr>)))))))"

definition allocpid :: "'z sched_state_scheme \<Rightarrow> ('z sched_state_scheme, int) kres" where
  "allocpid =
     kseq (acquire PidLock) (
     kbind (kget nextpid) (\<lambda>pid.
     kseq (kmod (\<lambda>s. s\<lparr>nextpid := nextpid s + 1\<rparr>)) (
     kseq (release PidLock) (kret pid))))"

subsection \<open>Sleeping and waking\<close>

text \<open>The running process; the kernel never calls these routines without one.\<close>

definition with_proc ::
  "(nat \<Rightarrow> 'z sched_state_scheme \<Rightarrow> ('z sched_state_scheme, 'a) kres) \<Rightarrow>
   'z sched_state_scheme \<Rightarrow> ('z sched_state_scheme, 'a) kres" where
  "with_proc f = kbind myproc (\<lambda>p. case p of None \<Rightarrow> kub | Some p \<Rightarrow> f p)"

definition sleep_prepare :: "chan option \<Rightarrow> 'z sched_state_scheme \<Rightarrow> ('z sched_state_scheme, unit) kres" where
  "sleep_prepare ch = with_proc (\<lambda>p.
     kseq (acquire (ProcLock p)) (
     case ch of
       None \<Rightarrow> kpanic ''sleep_prepare: zero chan''
     | Some _ \<Rightarrow>
         kseq (kmod (upd_proc p (\<lambda>r. r\<lparr>chan := ch\<rparr>))) (
         release (ProcLock p))))"

definition sleep :: "'z sched_state_scheme \<Rightarrow> ('z sched_state_scheme, unit) kres" where
  "sleep = with_proc (\<lambda>p.
     kseq (acquire (ProcLock p)) (
     kbind (kget (\<lambda>s. chan (procs s p))) (\<lambda>ch.
     kseq (kwhen (ch \<noteq> None)
            (kseq (kmod (upd_proc p (\<lambda>r. r\<lparr>state := SLEEPING\<rparr>))) sched)) (
     release (ProcLock p)))))"

text \<open>Marking a sleeper runnable and queueing it, as \<^verbatim>\<open>wakeup\<close> and \<^verbatim>\<open>kkill\<close> do.\<close>

definition make_runnable :: "nat \<Rightarrow> 'z sched_state_scheme \<Rightarrow> ('z sched_state_scheme, unit) kres" where
  "make_runnable p =
     kseq (kmod (upd_proc p (\<lambda>r. r\<lparr>state := RUNNABLE\<rparr>))) (
     kseq (acquire MlfqLock) (
     kbind (kget (\<lambda>s. queue (procs s p))) (\<lambda>q.
     kseq (push p q True) (
     release MlfqLock))))"

definition wakeup_one :: "chan option \<Rightarrow> nat \<Rightarrow> 'z sched_state_scheme \<Rightarrow> ('z sched_state_scheme, unit) kres" where
  "wakeup_one ch p =
     kseq (acquire (ProcLock p)) (
     kbind (kget (\<lambda>s. chan (procs s p))) (\<lambda>c.
     kseq (kwhen (c = ch)
       (kseq (kmod (upd_proc p (\<lambda>r. r\<lparr>chan := None\<rparr>))) (
        kbind (kget (\<lambda>s. state (procs s p))) (\<lambda>st.
        kwhen (st = SLEEPING) (make_runnable p))))) (
     release (ProcLock p))))"

definition wakeup :: "chan option \<Rightarrow> 'z sched_state_scheme \<Rightarrow> ('z sched_state_scheme, unit) kres" where
  "wakeup ch = kfor [0..<NPROC] (wakeup_one ch)"

primrec kkill_loop :: "int \<Rightarrow> nat list \<Rightarrow> 'z sched_state_scheme \<Rightarrow> ('z sched_state_scheme, int) kres" where
  "kkill_loop n [] = kret (- 1)"
| "kkill_loop n (p # ps) =
     kseq (acquire (ProcLock p)) (
     kbind (kget (\<lambda>s. pid (procs s p))) (\<lambda>i.
     if i = n
     then kseq (kmod (upd_proc p (\<lambda>r. r\<lparr>killed_flag := 1\<rparr>))) (
          kbind (kget (\<lambda>s. state (procs s p))) (\<lambda>st.
          kseq (kwhen (st = SLEEPING) (make_runnable p)) (
          kseq (release (ProcLock p)) (kret 0))))
     else kseq (release (ProcLock p)) (kkill_loop n ps)))"

definition kkill :: "int \<Rightarrow> 'z sched_state_scheme \<Rightarrow> ('z sched_state_scheme, int) kres" where
  "kkill n = kkill_loop n [0..<NPROC]"

definition setkilled :: "nat \<Rightarrow> 'z sched_state_scheme \<Rightarrow> ('z sched_state_scheme, unit) kres" where
  "setkilled p =
     kseq (acquire (ProcLock p)) (
     kseq (kmod (upd_proc p (\<lambda>r. r\<lparr>killed_flag := 1\<rparr>))) (
     release (ProcLock p)))"

definition killed :: "nat \<Rightarrow> 'z sched_state_scheme \<Rightarrow> ('z sched_state_scheme, int) kres" where
  "killed p =
     kseq (acquire (ProcLock p)) (
     kbind (kget (\<lambda>s. killed_flag (procs s p))) (\<lambda>k.
     kseq (release (ProcLock p)) (kret k)))"

definition reparent :: "nat \<Rightarrow> 'z sched_state_scheme \<Rightarrow> ('z sched_state_scheme, unit) kres" where
  "reparent p = kfor [0..<NPROC] (\<lambda>pp.
     kbind (kget (\<lambda>s. parent (procs s pp))) (\<lambda>par.
     kwhen (par = Some p)
       (kbind (kget initproc) (\<lambda>ip.
        kseq (kmod (upd_proc pp (\<lambda>r. r\<lparr>parent := ip\<rparr>)))
             (wakeup (map_option ChProc ip))))))"

subsection \<open>The default build: round robin\<close>

text \<open>
  One turn of the inner loop of \<^verbatim>\<open>scheduler\<close> for process \<open>p\<close> up to \<^verbatim>\<open>swtch\<close> (\<open>True\<close>: it switches
  to \<open>p\<close>), and what it does when \<open>p\<close> has switched back.
\<close>

definition scheduler_rr_try :: "nat \<Rightarrow> 'z sched_state_scheme \<Rightarrow> ('z sched_state_scheme, bool) kres" where
  "scheduler_rr_try p =
     kseq (acquire (ProcLock p)) (
     kbind (kget (\<lambda>s. state (procs s p))) (\<lambda>st.
     if st = RUNNABLE
     then kseq (kmod (upd_proc p (\<lambda>r. r\<lparr>state := RUNNING\<rparr>))) (
          kseq (kcore_mod (upd_mycpu (\<lambda>c. c\<lparr>cproc := Some p\<rparr>))) (kret True))
     else kseq (release (ProcLock p)) (kret False)))"

definition scheduler_rr_back :: "nat \<Rightarrow> 'z sched_state_scheme \<Rightarrow> ('z sched_state_scheme, unit) kres" where
  "scheduler_rr_back p =
     kseq (kcore_mod (upd_mycpu (\<lambda>c. c\<lparr>intena := False\<rparr>))) (
     kseq (kcore_mod (upd_mycpu (\<lambda>c. c\<lparr>cproc := None\<rparr>))) (
     release (ProcLock p)))"

text \<open>The scan of the table from a position on: the first process it switches to.\<close>

primrec scheduler_rr_scan :: "nat list \<Rightarrow> 'z sched_state_scheme \<Rightarrow> ('z sched_state_scheme, nat option) kres" where
  "scheduler_rr_scan [] = kret None"
| "scheduler_rr_scan (p # ps) =
     kbind (scheduler_rr_try p) (\<lambda>b. if b then kret (Some p) else scheduler_rr_scan ps)"

definition yield_rr :: "'z sched_state_scheme \<Rightarrow> ('z sched_state_scheme, unit) kres" where
  "yield_rr = with_proc (\<lambda>p.
     kseq (acquire (ProcLock p)) (
     kseq (kmod (upd_proc p (\<lambda>r. r\<lparr>state := RUNNABLE\<rparr>))) (
     kseq sched (release (ProcLock p)))))"

subsection \<open>The process listing\<close>

definition state_name :: "procstate \<Rightarrow> string" where
  "state_name st = (case st of UNUSED \<Rightarrow> ''unused'' | USED \<Rightarrow> ''used'' | SLEEPING \<Rightarrow> ''sleep ''
     | RUNNABLE \<Rightarrow> ''runble'' | RUNNING \<Rightarrow> ''run   '' | ZOMBIE \<Rightarrow> ''zombie'')"

text \<open>
  The lines \<^verbatim>\<open>procdump\<close> prints behind the empty one, as the arguments of its \<^verbatim>\<open>printk\<close>: pid, name,
  state, queue and tick. In the MLFQ build the loop body ends with \<^verbatim>\<open>return\<close>.
\<close>

primrec procdump_loop :: "nat list \<Rightarrow> 'z sched_state_scheme \<Rightarrow> (int \<times> string \<times> string \<times> int \<times> int) list" where
  "procdump_loop [] s = []"
| "procdump_loop (p # ps) s =
     (let r = procs s p
      in if state r = UNUSED then procdump_loop ps s
         else [(pid r, pname r, state_name (state r), queue r, tick r)])"

definition procdump :: "'z sched_state_scheme \<Rightarrow> (int \<times> string \<times> string \<times> int \<times> int) list" where
  "procdump s = procdump_loop [0..<NPROC] s"

subsection \<open>The clock and the system calls on processes\<close>

text \<open>\<open>now\<close> is what \<^verbatim>\<open>r_time()\<close> reads.\<close>

definition clockintr :: "u64 \<Rightarrow> 'z sched_state_scheme \<Rightarrow> ('z sched_state_scheme, unit) kres" where
  "clockintr now =
     kbind (kget (\<lambda>s. cpuid (core s))) (\<lambda>id.
     kseq (kwhen (id = 0)
       (kseq (acquire TicksLock) (
        kseq (kmod (\<lambda>s. s\<lparr>ticks := ticks s + 1\<rparr>)) (
        kseq (wakeup (Some ChTicks)) (
        release TicksLock))))) (
     kmod (\<lambda>s. s\<lparr>stimecmp := (stimecmp s)(id := now + 1000000)\<rparr>)))"

definition argraw :: "nat \<Rightarrow> 'z sched_state_scheme \<Rightarrow> ('z sched_state_scheme, u64) kres" where
  "argraw n = with_proc (\<lambda>p.
     kbind (kget (\<lambda>s. trapframes s (trapframe (procs s p)))) (\<lambda>tf.
     case n of
       0 \<Rightarrow> kret (tf T_a0)
     | Suc 0 \<Rightarrow> kret (tf T_a1)
     | Suc (Suc 0) \<Rightarrow> kret (tf T_a2)
     | Suc (Suc (Suc 0)) \<Rightarrow> kret (tf T_a3)
     | Suc (Suc (Suc (Suc 0))) \<Rightarrow> kret (tf T_a4)
     | Suc (Suc (Suc (Suc (Suc 0)))) \<Rightarrow> kret (tf T_a5)
     | _ \<Rightarrow> kpanic ''argraw''))"

text \<open>\<^verbatim>\<open>argint\<close> keeps the low 32 bits of the register, as a signed number.\<close>

definition argint :: "nat \<Rightarrow> 'z sched_state_scheme \<Rightarrow> ('z sched_state_scheme, int) kres" where
  "argint n = kbind (argraw n) (\<lambda>v. kret (sint (ucast v :: u32)))"

definition argaddr :: "nat \<Rightarrow> 'z sched_state_scheme \<Rightarrow> ('z sched_state_scheme, u64) kres" where
  "argaddr n = argraw n"

definition sys_getpid :: "'z sched_state_scheme \<Rightarrow> ('z sched_state_scheme, u64) kres" where
  "sys_getpid = with_proc (\<lambda>p. kbind (kget (\<lambda>s. pid (procs s p))) (\<lambda>i. kret (word_of_int i)))"

definition sys_kill :: "'z sched_state_scheme \<Rightarrow> ('z sched_state_scheme, u64) kres" where
  "sys_kill = kbind (argint 0) (\<lambda>n. kbind (kkill n) (\<lambda>r. kret (word_of_int r)))"

definition sys_uptime :: "'z sched_state_scheme \<Rightarrow> ('z sched_state_scheme, u64) kres" where
  "sys_uptime =
     kseq (acquire TicksLock) (
     kbind (kget ticks) (\<lambda>x.
     kseq (release TicksLock) (kret (ucast x))))"

definition sys_getqueue :: "'z sched_state_scheme \<Rightarrow> ('z sched_state_scheme, u64) kres" where
  "sys_getqueue = with_proc (\<lambda>p. kbind (m_getqueue p) (\<lambda>q. kret (word_of_int q)))"

text \<open>
  \<^verbatim>\<open>sys_pause\<close>: the loop from the test on, with \<^verbatim>\<open>tickslock\<close> held. Every turn either returns or
  goes to sleep, and takes one unit of fuel.
\<close>

fun pause_loop :: "nat \<Rightarrow> u32 \<Rightarrow> int \<Rightarrow> 'z sched_state_scheme \<Rightarrow> ('z sched_state_scheme, u64) kres" where
  "pause_loop 0 ticks0 n = (\<lambda>s. Loop)"
| "pause_loop (Suc fuel) ticks0 n =
     kbind (kget (\<lambda>s. ticks s - ticks0 < word_of_int n)) (\<lambda>wait.
     if wait
     then with_proc (\<lambda>p. kbind (killed p) (\<lambda>k.
       if k \<noteq> 0 then kseq (release TicksLock) (kret (- 1))
       else kseq (sleep_prepare (Some ChTicks)) (
            kseq (release TicksLock) (
            kseq sleep (
            kseq (acquire TicksLock) (
            pause_loop fuel ticks0 n))))))
     else kseq (release TicksLock) (kret 0))"

definition sys_pause :: "nat \<Rightarrow> 'z sched_state_scheme \<Rightarrow> ('z sched_state_scheme, u64) kres" where
  "sys_pause fuel =
     kbind (argint 0) (\<lambda>n.
     let n = (if n < 0 then 0 else n) in
     kseq (acquire TicksLock) (
     kbind (kget ticks) (\<lambda>ticks0. pause_loop fuel ticks0 n)))"

subsection \<open>Effects of waking\<close>

lemma core_out [simp]:
  "upd_proc p f (s\<lparr>core := c\<rparr>) = (upd_proc p f s)\<lparr>core := c\<rparr>"
  "push_tail p q (s\<lparr>core := c\<rparr>) = (push_tail p q s)\<lparr>core := c\<rparr>"
  by (simp_all add: queue_eff_defs)

definition wake_eff :: "chan option \<Rightarrow> nat \<Rightarrow> 'z sched_state_scheme \<Rightarrow> 'z sched_state_scheme" where
  "wake_eff ch p s =
     (if chan (procs s p) \<noteq> ch then s
      else if state (procs s p) = SLEEPING
      then push_tail p (queue (procs s p)) (upd_proc p (\<lambda>r. r\<lparr>chan := None, state := RUNNABLE\<rparr>) s)
      else upd_proc p (\<lambda>r. r\<lparr>chan := None\<rparr>) s)"

text \<open>What \<^verbatim>\<open>wakeup\<close> does to one entry of the process table.\<close>

definition woken :: "chan option \<Rightarrow> proc \<Rightarrow> proc" where
  "woken ch r = (if chan r \<noteq> ch then r
     else if state r = SLEEPING then r\<lparr>chan := None, state := RUNNABLE, inq := 1\<rparr>
     else r\<lparr>chan := None\<rparr>)"

definition asleep_on :: "chan option \<Rightarrow> proc \<Rightarrow> bool" where
  "asleep_on ch r \<longleftrightarrow> chan r = ch \<and> state r = SLEEPING"

text \<open>
  \<open>table_ok\<close>: the queues are well formed, every process is on one of the four levels, and no
  sleeper is queued. \<open>table_free\<close>: none of the locks that \<^verbatim>\<open>wakeup\<close> takes is held.
\<close>

definition table_ok :: "'z sched_state_scheme \<Rightarrow> bool" where
  "table_ok s \<longleftrightarrow> mlfq_wf s \<and>
     (\<forall>p < NPROC. is_level (queue (procs s p)) \<and> (state (procs s p) = SLEEPING \<longrightarrow> inq (procs s p) = 0))"

definition table_free :: "kcore \<Rightarrow> bool" where
  "table_free c \<longleftrightarrow> cpu_ok c \<and> free_lock MlfqLock c \<and> (\<forall>p < NPROC. free_lock (ProcLock p) c)"

lemma table_free_simps [simp]:
  "table_free (touch c) = table_free c"
  by (simp add: table_free_def)

lemma table_ok_core [simp]: "table_ok (s\<lparr>core := c\<rparr>) = table_ok s"
  by (simp add: table_ok_def)

lemma table_free_acq [simp]:
  "table_free c \<Longrightarrow> lk \<noteq> MlfqLock \<Longrightarrow> (\<And>p. lk \<noteq> ProcLock p) \<Longrightarrow> table_free (c_acq lk c)"
  unfolding table_free_def using free_lock_simps(3) by (metis cpu_ok_simps(3))

lemma make_runnable_eq:
  assumes "mlfq_wf s" "is_level (queue (procs s p))" "p < NPROC" "inq (procs s p) = 0"
    and c: "cpu_ok (core s)" "free_lock MlfqLock (core s)"
  shows "make_runnable p s =
     Ret () ((push_tail p (queue (procs s p)) (upd_proc p (\<lambda>r. r\<lparr>state := RUNNABLE\<rparr>) s))\<lparr>core := touch (core s)\<rparr>)"
proof -
  let ?a = "upd_proc p (\<lambda>r. r\<lparr>state := RUNNABLE\<rparr>) s"
  have "push p (queue (procs s p)) True (?a\<lparr>core := c_acq MlfqLock (core s)\<rparr>) =
      Ret () ((push_tail p (queue (procs s p)) ?a)\<lparr>core := c_acq MlfqLock (core s)\<rparr>)"
    using assms push_tail_ok(1) [of "?a\<lparr>core := c_acq MlfqLock (core s)\<rparr>" "queue (procs s p)" p] by simp
  with c show ?thesis by (simp add: make_runnable_def kstep)
qed

lemma upd_proc_twice: "upd_proc p f (upd_proc p g s) = upd_proc p (\<lambda>r. f (g r)) s"
  by (simp add: upd_proc_def)

lemma wake_eff_core [simp]:
  "core (wake_eff ch p s) = core s" "wake_eff ch p (s\<lparr>core := c\<rparr>) = (wake_eff ch p s)\<lparr>core := c\<rparr>"
  by (simp_all add: wake_eff_def)

lemma wakeup_one_eq:
  assumes "table_ok s" "table_free (core s)" "p < NPROC"
  shows "wakeup_one ch p s = Ret () ((wake_eff ch p s)\<lparr>core := touch (core s)\<rparr>)"
proof -
  have c: "cpu_ok (core s)" "free_lock MlfqLock (core s)" "free_lock (ProcLock p) (core s)"
    using assms by (simp_all add: table_free_def)
  let ?a = "upd_proc p (\<lambda>r. r\<lparr>chan := None\<rparr>) s"
  have "make_runnable p (?a\<lparr>core := c_acq (ProcLock p) (core s)\<rparr>) =
      Ret () ((push_tail p (queue (procs s p)) (upd_proc p (\<lambda>r. r\<lparr>chan := None, state := RUNNABLE\<rparr>) s))
        \<lparr>core := c_acq (ProcLock p) (core s)\<rparr>)" if "state (procs s p) = SLEEPING"
    using make_runnable_eq [of "?a\<lparr>core := c_acq (ProcLock p) (core s)\<rparr>" p] assms c that
    by (simp add: table_ok_def upd_proc_twice)
  then show ?thesis
    using c by (simp add: wakeup_one_def wake_eff_def kstep kwhen_def kret_def)
qed

lemma wake_eff_ok:
  assumes "table_ok s" "p < NPROC"
  shows "table_ok (wake_eff ch p s)" and "procs (wake_eff ch p s) = (procs s)(p := woken ch (procs s p))"
    and "qview (wake_eff ch p s) = (if asleep_on ch (procs s p)
       then (qview s)(queue (procs s p) := qview s (queue (procs s p)) @ [p]) else qview s)"
proof -
  let ?a = "upd_proc p (\<lambda>r. r\<lparr>chan := None, state := RUNNABLE\<rparr>) s"
  have q: "is_level (queue (procs s p))" "mlfq_wf s" using assms by (simp_all add: table_ok_def)
  have i: "inq (procs s p) = 0" if "state (procs s p) = SLEEPING" using assms that by (simp add: table_ok_def)
  note pt = push_tail_ok(2,3) [of ?a "queue (procs s p)" p]
  show "procs (wake_eff ch p s) = (procs s)(p := woken ch (procs s p))"
    by (simp add: wake_eff_def woken_def)
  then show "table_ok (wake_eff ch p s)"
    using assms q i pt by (auto simp: table_ok_def wake_eff_def woken_def)
  show "qview (wake_eff ch p s) = (if asleep_on ch (procs s p)
       then (qview s)(queue (procs s p) := qview s (queue (procs s p)) @ [p]) else qview s)"
    using assms q i pt by (auto simp: wake_eff_def asleep_on_def)
qed

lemma wakeup_loop:
  assumes "table_ok s" "table_free (core s)" "set ps \<subseteq> {..<NPROC}" "ps \<noteq> []"
  shows "kfor ps (wakeup_one ch) s = Ret () ((fold (wake_eff ch) ps s)\<lparr>core := touch (core s)\<rparr>)"
  using assms
proof (induction ps arbitrary: s)
  case (Cons p ps)
  have 1: "wakeup_one ch p s = Ret () ((wake_eff ch p s)\<lparr>core := touch (core s)\<rparr>)"
    using Cons.prems by (intro wakeup_one_eq) auto
  have t: "table_ok (wake_eff ch p s)" using Cons.prems by (intro wake_eff_ok) auto
  have f: "fold (wake_eff ch) ps (x\<lparr>core := c\<rparr>) = (fold (wake_eff ch) ps x)\<lparr>core := c\<rparr>" for x :: "'a sched_state_scheme" and c
    by (induction ps arbitrary: x) simp_all
  show ?case
  proof (cases "ps = []")
    case True
    with 1 show ?thesis by (simp add: kret_def)
  next
    case False
    with Cons.IH [of "(wake_eff ch p s)\<lparr>core := touch (core s)\<rparr>"] Cons.prems t 1 f
    show ?thesis by simp
  qed
qed simp

lemma fold_wake_eff:
  assumes "table_ok s" "set ps \<subseteq> {..<NPROC}" "distinct ps"
  shows "table_ok (fold (wake_eff ch) ps s)"
    and "procs (fold (wake_eff ch) ps s) = (\<lambda>p. if p \<in> set ps then woken ch (procs s p) else procs s p)"
    and "qview (fold (wake_eff ch) ps s) q =
      qview s q @ filter (\<lambda>p. asleep_on ch (procs s p) \<and> queue (procs s p) = q) ps"
  using assms
proof (induction ps arbitrary: s)
  case (Cons p ps)
  { case (1 s) note w = wake_eff_ok [of s p ch]
    with 1 Cons.IH(1) [of "wake_eff ch p s"] w show ?case by auto }
  { case (2 s) note w = wake_eff_ok [of s p ch]
    with 2 Cons.IH(2) [of "wake_eff ch p s"] w show ?case by (auto simp: fun_eq_iff) }
  { case (3 s) note w = wake_eff_ok [of s p ch]
    have "filter (\<lambda>r. asleep_on ch (((procs s)(p := woken ch (procs s p))) r) \<and>
        queue (((procs s)(p := woken ch (procs s p))) r) = q) ps =
      filter (\<lambda>r. asleep_on ch (procs s r) \<and> queue (procs s r) = q) ps"
      using 3 by (intro filter_cong) auto
    with 3 Cons.IH(3) [of "wake_eff ch p s"] w show ?case by auto }
qed simp_all

definition wakeup_eff :: "chan option \<Rightarrow> 'z sched_state_scheme \<Rightarrow> 'z sched_state_scheme" where
  "wakeup_eff ch s = (fold (wake_eff ch) [0..<NPROC] s)\<lparr>core := touch (core s)\<rparr>"

lemma wakeup_eq [kstep]:
  "table_ok s \<Longrightarrow> table_free (core s) \<Longrightarrow> wakeup ch s = Ret () (wakeup_eff ch s)"
  unfolding wakeup_def wakeup_eff_def by (rule wakeup_loop) (auto simp: NPROC_def)

lemma wakeup_eff_ok:
  assumes "table_ok s"
  shows "table_ok (wakeup_eff ch s)"
    and "p < NPROC \<Longrightarrow> procs (wakeup_eff ch s) p = woken ch (procs s p)"
    and "qview (wakeup_eff ch s) q =
      qview s q @ filter (\<lambda>p. asleep_on ch (procs s p) \<and> queue (procs s p) = q) [0..<NPROC]"
  using fold_wake_eff [OF assms, of "[0..<NPROC]" ch] by (auto simp: wakeup_eff_def atLeast0LessThan)

subsection \<open>Sleeping\<close>

lemma with_proc_eq [kstep]:
  "cpu_ok (core s) \<Longrightarrow> cproc (mycpu (core s)) = Some p \<Longrightarrow>
   with_proc f s = f p (s\<lparr>core := touch (core s)\<rparr>)"
  by (simp add: with_proc_def kstep)

lemma sleep_prepare_eq:
  "cpu_ok (core s) \<Longrightarrow> cproc (mycpu (core s)) = Some p \<Longrightarrow> free_lock (ProcLock p) (core s) \<Longrightarrow>
   sleep_prepare (Some ch) s = Ret () ((upd_proc p (\<lambda>r. r\<lparr>chan := Some ch\<rparr>) s)\<lparr>core := touch (core s)\<rparr>)"
  by (simp add: sleep_prepare_def kstep)

lemma sleep_returns:
  "cpu_ok (core s) \<Longrightarrow> cproc (mycpu (core s)) = Some p \<Longrightarrow> free_lock (ProcLock p) (core s) \<Longrightarrow>
   chan (procs s p) = None \<Longrightarrow> sleep s = Ret () (s\<lparr>core := touch (core s)\<rparr>)"
  by (simp add: sleep_def kstep)

lemma sleep_switches:
  assumes "cproc (mycpu (core s)) = Some p" "free_lock (ProcLock p) (core s)"
    and n: "noff (mycpu (core s)) = 0" and "chan (procs s p) = Some ch"
  shows "sleep s = Sched ((upd_proc p (\<lambda>r. r\<lparr>state := SLEEPING\<rparr>) s)\<lparr>core := c_acq (ProcLock p) (touch (core s))\<rparr>)
     (kseq (kcore_mod (upd_mycpu (\<lambda>c. c\<lparr>intena := intr_get (core s)\<rparr>))) (release (ProcLock p)))"
proof -
  have ok: "cpu_ok (core s)" using n by (simp add: cpu_ok_def)
  let ?t = "(upd_proc p (\<lambda>r. r\<lparr>state := SLEEPING\<rparr>) s)\<lparr>core := c_acq (ProcLock p) (touch (core s))\<rparr>"
  have "intena (mycpu (core ?t)) = intr_get (core s)" using n by (simp add: hart_defs)
  then have "sched ?t = Sched ?t (kcore_mod (upd_mycpu (\<lambda>c. c\<lparr>intena := intr_get (core s)\<rparr>)))"
    using assms ok sched_switches [of ?t p] by (simp add: swtch_scheduler_def)
  then show ?thesis using assms ok by (simp add: sleep_def kstep)
qed

definition on_hart :: "nat \<Rightarrow> 'z kbase_scheme \<Rightarrow> 'z kbase_scheme" where
  "on_hart h s = s\<lparr>core := (core s)\<lparr>tp := h\<rparr>\<rparr>"

lemma on_hart_simps [simp]:
  "core (on_hart h s) = (core s)\<lparr>tp := h\<rparr>" "procs (on_hart h s) = procs s"
  "qview (on_hart h s) = qview s" "table_ok (on_hart h s) = table_ok s"
  by (simp_all add: on_hart_def)

lemma free_lock_tp [simp]: "free_lock lk (c\<lparr>tp := h\<rparr>) = free_lock lk c"
  by (simp add: free_lock_def)

lemma touch_tp [simp]: "(touch c)\<lparr>tp := tp c\<rparr> = touch c" "(c\<lparr>tp := h\<rparr>)\<lparr>tp := tp c\<rparr> = c"
  by (simp_all add: touch_def core_defs)

lemma cpu_ok_touch_other [simp]: "cpu_ok ((touch c)\<lparr>tp := h\<rparr>) = cpu_ok (c\<lparr>tp := h\<rparr>)"
  by (simp add: hart_defs)

lemma table_free_tp: "table_free c \<Longrightarrow> cpu_ok (c\<lparr>tp := h\<rparr>) \<Longrightarrow> table_free (c\<lparr>tp := h\<rparr>)"
  by (simp add: table_free_def)

lemma touch_other_hart:
  "cpu_ok ((touch (c\<lparr>tp := h\<rparr>))\<lparr>tp := g\<rparr>) = cpu_ok (c\<lparr>tp := g\<rparr>)"
  "cproc (mycpu ((touch (c\<lparr>tp := h\<rparr>))\<lparr>tp := g\<rparr>)) = cproc (mycpu (c\<lparr>tp := g\<rparr>))"
  by (simp_all add: hart_defs)

text \<open>A wakeup between \<^verbatim>\<open>sleep_prepare\<close> and \<^verbatim>\<open>sleep\<close>: the process does not go to sleep.\<close>

lemma wakeup_before_sleep:
  assumes "table_ok s" "table_free (core s)" "cproc (mycpu (core s)) = Some p" "p < NPROC"
    and st: "state (procs s p) = RUNNING" and ch: "chan (procs s p) = Some ch"
    and h: "cpu_ok ((core s)\<lparr>tp := h\<rparr>)"
  shows "\<exists>s2 s3. wakeup (Some ch) (on_hart h s) = Ret () s2 \<and> sleep (on_hart (tp (core s)) s2) = Ret () s3 \<and>
     state (procs s3 p) = RUNNING"
proof -
  let ?s2 = "wakeup_eff (Some ch) (on_hart h s)"
  have w: "wakeup (Some ch) (on_hart h s) = Ret () ?s2"
    using assms table_free_tp [of "core s" h] by (intro wakeup_eq) simp_all
  have p: "procs ?s2 p = (procs s p)\<lparr>chan := None\<rparr>"
    using assms wakeup_eff_ok(2) [of "on_hart h s" p "Some ch"] by (simp add: woken_def)
  have "core ?s2 = touch ((core s)\<lparr>tp := h\<rparr>)" by (simp add: wakeup_eff_def)
  then have "sleep (on_hart (tp (core s)) ?s2) = Ret () ((on_hart (tp (core s)) ?s2)\<lparr>core := touch (core (on_hart (tp (core s)) ?s2))\<rparr>)"
    using assms p by (intro sleep_returns [where p = p]) (simp_all add: touch_other_hart table_free_def)
  with w p st show ?thesis by simp
qed

text \<open>A wakeup when the process is asleep: it becomes runnable and is queued.\<close>

lemma wakeup_after_sleep:
  assumes tab: "table_ok s" and fr: "table_free (core s)" and run: "cproc (mycpu (core s)) = Some p" "p < NPROC"
    "noff (mycpu (core s)) = 0" and st: "state (procs s p) = RUNNING" "inq (procs s p) = 0"
    and ch: "chan (procs s p) = Some ch" and h: "cpu_ok ((core s)\<lparr>tp := h\<rparr>)"
  shows "\<exists>s2 k s3 s4. sleep s = Sched s2 k \<and> state (procs s2 p) = SLEEPING \<and>
     scheduler_mlfq_back p s2 = Ret () s3 \<and> wakeup (Some ch) (on_hart h s3) = Ret () s4 \<and>
     state (procs s4 p) = RUNNABLE \<and> p \<in> set (qview s4 (queue (procs s p)))"
proof -
  let ?c = "c_acq (ProcLock p) (touch (core s))"
  let ?s2 = "(upd_proc p (\<lambda>r. r\<lparr>state := SLEEPING\<rparr>) s)\<lparr>core := ?c\<rparr>"
  let ?d = "c_rel (ProcLock p) (upd_mycpu (\<lambda>c. c\<lparr>cproc := None\<rparr>) ?c)"
  let ?s3 = "?s2\<lparr>core := ?d\<rparr>"
  have fp: "free_lock (ProcLock p) (core s)" using fr run by (simp add: table_free_def)
  obtain k where sl: "sleep s = Sched ?s2 k" using run ch fp sleep_switches by blast
  have cs: "holding (ProcLock p) (upd_mycpu (\<lambda>c. c\<lparr>cproc := None\<rparr>) ?c)"
    "\<not> intr_get (upd_mycpu (\<lambda>c. c\<lparr>cproc := None\<rparr>) ?c)"
    "noff (mycpu (upd_mycpu (\<lambda>c. c\<lparr>cproc := None\<rparr>) ?c)) = 1"
    using run by (simp_all add: hart_defs)
  then have bk: "scheduler_mlfq_back p ?s2 = Ret () ?s3"
    by (simp add: scheduler_mlfq_back_def kstep)
  have fl: "free_lock lk ?d = free_lock lk (core s)" for lk
    using fp by (auto simp: hart_defs Let_def)
  have "table_ok ?s3" using tab st by (simp add: table_ok_def)
  moreover have "cpu_ok (?d\<lparr>tp := h\<rparr>)"
    using h run by (auto simp: hart_defs Let_def)
  moreover define t where "t = on_hart h ?s3"
  ultimately have w: "wakeup (Some ch) (on_hart h ?s3) = Ret () (wakeup_eff (Some ch) t)"
    using fr fl by (subst wakeup_eq) (simp_all add: table_free_def)
  have t: "table_ok t" "procs t = (procs s)(p := (procs s p)\<lparr>state := SLEEPING\<rparr>)"
    using \<open>table_ok ?s3\<close> by (simp_all add: t_def)
  then have "asleep_on (Some ch) (procs t p)" using ch by (simp add: asleep_on_def)
  then have "p \<in> set (qview (wakeup_eff (Some ch) t) (queue (procs s p)))"
    using run t(2) by (simp add: wakeup_eff_ok(3) [OF t(1)])
  moreover have "state (procs (wakeup_eff (Some ch) t) p) = RUNNABLE"
    using run ch t(2) by (simp add: wakeup_eff_ok(2) [OF t(1)] woken_def)
  ultimately show ?thesis using sl bk w by fastforce
qed

text \<open>
  C3. No wakeup is lost. A process that waits for a condition guarded by the lock \<open>lk\<close> calls
  \<^verbatim>\<open>sleep_prepare(ch)\<close> with \<open>lk\<close> held, releases \<open>lk\<close> and calls \<^verbatim>\<open>sleep()\<close>. If another hart runs
  \<^verbatim>\<open>wakeup(ch)\<close> before that \<^verbatim>\<open>sleep()\<close>, the process does not sleep at all; if it runs it after the
  switch to the scheduler, the process becomes runnable and stands in its run queue.
\<close>

theorem no_lost_wakeup:
  assumes "table_ok s" and c: "core s = c_acq lk c" "table_free c" "free_lock lk c" "noff (mycpu c) = 0"
    and lk: "lk \<noteq> MlfqLock" "\<And>r. lk \<noteq> ProcLock r"
    and run: "cproc (mycpu c) = Some p" "p < NPROC" "state (procs s p) = RUNNING" "inq (procs s p) = 0"
    and h: "cpu_ok (c\<lparr>tp := h\<rparr>)"
  shows "\<exists>s1. kseq (sleep_prepare (Some ch)) (release lk) s = Ret () s1 \<and>
     (\<exists>s2 s3. wakeup (Some ch) (on_hart h s1) = Ret () s2 \<and> sleep (on_hart (tp (core s1)) s2) = Ret () s3 \<and>
        state (procs s3 p) = RUNNING) \<and>
     (\<exists>s2 k s3 s4. sleep s1 = Sched s2 k \<and> state (procs s2 p) = SLEEPING \<and>
        scheduler_mlfq_back p s2 = Ret () s3 \<and> wakeup (Some ch) (on_hart h s3) = Ret () s4 \<and>
        state (procs s4 p) = RUNNABLE \<and> p \<in> set (qview s4 (queue (procs s p))))"
proof -
  have ok: "cpu_ok c" using c by (simp add: table_free_def)
  let ?s1 = "(upd_proc p (\<lambda>r. r\<lparr>chan := Some ch\<rparr>) s)\<lparr>core := touch c\<rparr>"
  have "free_lock (ProcLock p) (core s)"
    using c run lk(2) [of p] by (simp add: table_free_def)
  then have "sleep_prepare (Some ch) s = Ret () ((upd_proc p (\<lambda>r. r\<lparr>chan := Some ch\<rparr>) s)\<lparr>core := c_acq lk c\<rparr>)"
    using sleep_prepare_eq [of s p ch] c ok run by simp
  then have s1: "kseq (sleep_prepare (Some ch)) (release lk) s = Ret () ?s1"
    using ok c by (simp add: kstep)
  have t: "table_ok ?s1" using assms(1) run by (simp add: table_ok_def)
  show ?thesis
    using s1 wakeup_before_sleep [of ?s1 p ch h] wakeup_after_sleep [of ?s1 p ch h] t c run h
    by simp
qed

text \<open>Process 3 waits for the clock, as in \<^verbatim>\<open>sys_pause\<close>; hart 1 is the one that wakes it.\<close>

theorem no_lost_wakeup_witness:
  "let s = (upd_proc 3 (\<lambda>r. r\<lparr>state := RUNNING\<rparr>) sched0)\<lparr>core :=
        c_acq TicksLock (upd_mycpu (\<lambda>c. c\<lparr>cproc := Some 3\<rparr>) core0)\<rparr>
   in \<exists>s1 s2 k. kseq (sleep_prepare (Some ChTicks)) (release TicksLock) s = Ret () s1 \<and>
     sleep s1 = Sched s2 k \<and> state (procs s2 3) = SLEEPING"
proof -
  let ?c = "upd_mycpu (\<lambda>c. c\<lparr>cproc := Some 3\<rparr>) core0"
  let ?s = "(upd_proc 3 (\<lambda>r. r\<lparr>state := RUNNING\<rparr>) sched0)\<lparr>core := c_acq TicksLock ?c\<rparr>"
  have "table_ok ?s" by (simp add: table_ok_def is_level_def)
  moreover have "table_free ?c" by (simp add: table_free_def core0_def hart_defs)
  moreover have "cpu_ok (?c\<lparr>tp := 1\<rparr>)" by (simp add: core0_def hart_defs)
  ultimately show ?thesis
    using no_lost_wakeup [of ?s TicksLock ?c 3 1 ChTicks] by (simp add: NPROC_def) blast
qed

text \<open>
  \<^verbatim>\<open>wakeup(ch)\<close> clears the channel of exactly the processes that wait on \<open>ch\<close>, makes those of
  them that sleep runnable, appends them to the queues of their levels in table order, and
  leaves every other process and the order of the queues alone.
\<close>

theorem wakeup_exact:
  assumes "table_ok s" "table_free (core s)"
  shows "\<exists>s'. wakeup ch s = Ret () s' \<and> table_ok s' \<and> core s' = touch (core s) \<and>
     (\<forall>p < NPROC. procs s' p = woken ch (procs s p)) \<and>
     (\<forall>q. qview s' q = qview s q @ filter (\<lambda>p. asleep_on ch (procs s p) \<and> queue (procs s p) = q) [0..<NPROC])"
  using wakeup_eq [OF assms, of ch] wakeup_eff_ok [OF assms(1)] by (simp add: wakeup_eff_def)

theorem wakeup_exact_witness:
  "\<exists>s'. wakeup (Some ChTicks) (upd_proc 5 (\<lambda>r. r\<lparr>chan := Some ChTicks, state := SLEEPING, queue := 2\<rparr>) sched0) = Ret () s' \<and>
     state (procs s' 5) = RUNNABLE \<and> 5 \<in> set (qview s' 2)"
proof -
  let ?s = "upd_proc 5 (\<lambda>r. r\<lparr>chan := Some ChTicks, state := SLEEPING, queue := 2\<rparr>) sched0"
  have "table_ok ?s" "table_free (core ?s)" by (simp_all add: table_ok_def is_level_def table_free_def)
  from wakeup_exact [OF this, of "Some ChTicks"] show ?thesis
    by (force simp: woken_def asleep_on_def NPROC_def)
qed

subsection \<open>Killing a process\<close>

definition kill_eff :: "nat \<Rightarrow> 'z sched_state_scheme \<Rightarrow> 'z sched_state_scheme" where
  "kill_eff p s =
     (if state (procs s p) = SLEEPING
      then push_tail p (queue (procs s p)) (upd_proc p (\<lambda>r. r\<lparr>killed_flag := 1, state := RUNNABLE\<rparr>) s)
      else upd_proc p (\<lambda>r. r\<lparr>killed_flag := 1\<rparr>) s)"

lemma kkill_loop_hit:
  assumes "table_ok s" "table_free (core s)" "p < NPROC" "pid (procs s p) = n"
  shows "kkill_loop n (p # ps) s = Ret 0 ((kill_eff p s)\<lparr>core := touch (core s)\<rparr>)"
proof -
  have c: "cpu_ok (core s)" "free_lock MlfqLock (core s)" "free_lock (ProcLock p) (core s)"
    using assms by (simp_all add: table_free_def)
  let ?a = "upd_proc p (\<lambda>r. r\<lparr>killed_flag := 1\<rparr>) s"
  have "make_runnable p (?a\<lparr>core := c_acq (ProcLock p) (core s)\<rparr>) =
      Ret () ((push_tail p (queue (procs s p)) (upd_proc p (\<lambda>r. r\<lparr>killed_flag := 1, state := RUNNABLE\<rparr>) s))
        \<lparr>core := c_acq (ProcLock p) (core s)\<rparr>)" if "state (procs s p) = SLEEPING"
    using make_runnable_eq [of "?a\<lparr>core := c_acq (ProcLock p) (core s)\<rparr>" p] assms c that
    by (simp add: table_ok_def upd_proc_twice)
  then show ?thesis
    using c assms(4) by (simp add: kill_eff_def kstep kwhen_def kret_def)
qed

lemma kkill_loop_miss:
  assumes "table_free (core s)" "p < NPROC" "pid (procs s p) \<noteq> n"
  shows "kkill_loop n (p # ps) s = kkill_loop n ps (s\<lparr>core := touch (core s)\<rparr>)"
  using assms by (simp add: kstep table_free_def)

lemma kkill_loop_eq:
  assumes "table_ok s" "table_free (core s)" "set ps \<subseteq> {..<NPROC}"
  shows "kkill_loop n ps s = (case find (\<lambda>p. pid (procs s p) = n) ps of
      None \<Rightarrow> Ret (- 1) (s\<lparr>core := if ps = [] then core s else touch (core s)\<rparr>)
    | Some p \<Rightarrow> Ret 0 ((kill_eff p s)\<lparr>core := touch (core s)\<rparr>))"
  using assms
proof (induction ps arbitrary: s)
  case Nil
  then show ?case by (simp add: kret_def)
next
  case (Cons p ps)
  have kc: "(kill_eff r (s\<lparr>core := c\<rparr>))\<lparr>core := d\<rparr> = (kill_eff r s)\<lparr>core := d\<rparr>" for r c d
    by (simp add: kill_eff_def)
  show ?case
  proof (cases "pid (procs s p) = n")
    case True
    with Cons.prems show ?thesis by (subst kkill_loop_hit) simp_all
  next
    case False
    with Cons.prems Cons.IH [of "s\<lparr>core := touch (core s)\<rparr>"] show ?thesis
      by (subst kkill_loop_miss) (simp_all add: kc split: option.split)
  qed
qed

lemma find_upt_first:
  assumes "p < n" "P p" "\<forall>r < p. \<not> P r"
  shows "find P [0..<n] = Some p"
  using assms by (force simp: find_Some_iff)

text \<open>
  \<^verbatim>\<open>kkill(pid)\<close> marks the first process with that pid killed and returns 0; if the process
  sleeps it is made runnable and queued at the tail of its level, so that it can see the mark.
  It changes no other process.
\<close>

theorem kkill_marks_and_wakes:
  assumes "table_ok s" "table_free (core s)"
    and p: "p < NPROC" "pid (procs s p) = n" "\<forall>r < p. pid (procs s r) \<noteq> n"
  shows "\<exists>s'. kkill n s = Ret 0 s' \<and> table_ok s' \<and> killed_flag (procs s' p) = 1 \<and>
     state (procs s' p) \<noteq> SLEEPING \<and> (\<forall>r. r \<noteq> p \<longrightarrow> procs s' r = procs s r) \<and>
     qview s' = (if state (procs s p) = SLEEPING
       then (qview s)(queue (procs s p) := qview s (queue (procs s p)) @ [p]) else qview s)"
proof -
  let ?a = "upd_proc p (\<lambda>r. r\<lparr>killed_flag := 1, state := RUNNABLE\<rparr>) s"
  have k: "kkill n s = Ret 0 ((kill_eff p s)\<lparr>core := touch (core s)\<rparr>)"
    using kkill_loop_eq [OF assms(1,2), of "[0..<NPROC]" n] find_upt_first [of p NPROC "\<lambda>p. pid (procs s p) = n"] p
    by (simp add: kkill_def atLeast0LessThan)
  have q: "is_level (queue (procs s p))" "mlfq_wf ?a" using assms by (simp_all add: table_ok_def)
  have i: "inq (procs ?a p) = 0" if "state (procs s p) = SLEEPING" using assms that by (simp add: table_ok_def)
  note pt = push_tail_ok(2,3) [OF q(2,1) p(1) i]
  have "table_ok (kill_eff p s)"
    using assms pt by (auto simp: kill_eff_def table_ok_def)
  moreover have "qview (kill_eff p s) = (if state (procs s p) = SLEEPING
       then (qview s)(queue (procs s p) := qview s (queue (procs s p)) @ [p]) else qview s)"
    using pt by (simp add: kill_eff_def)
  ultimately show ?thesis using k by (simp add: kill_eff_def)
qed

theorem kkill_marks_and_wakes_witness:
  "\<exists>s'. kkill 7 (upd_proc 5 (\<lambda>r. r\<lparr>pid := 7, chan := Some ChTicks, state := SLEEPING\<rparr>) sched0) = Ret 0 s' \<and>
     killed_flag (procs s' 5) = 1 \<and> qview s' 0 = [5]"
proof -
  let ?s = "upd_proc 5 (\<lambda>r. r\<lparr>pid := 7, chan := Some ChTicks, state := SLEEPING\<rparr>) sched0"
  have "table_ok ?s" "table_free (core ?s)" by (simp_all add: table_ok_def is_level_def table_free_def)
  moreover have "pid (procs ?s 5) = 7" "\<forall>r < 5. pid (procs ?s r) \<noteq> 7" by (simp_all add: proc0_def)
  ultimately show ?thesis
    using kkill_marks_and_wakes [of ?s 5 7] by (force simp: NPROC_def)
qed

lemma kkill_unknown:
  assumes "table_ok s" "table_free (core s)" "\<forall>p < NPROC. pid (procs s p) \<noteq> n"
  shows "kkill n s = Ret (- 1) (s\<lparr>core := touch (core s)\<rparr>)"
proof -
  have "find (\<lambda>p. pid (procs s p) = n) [0..<NPROC] = None"
    using assms(3) by (simp add: find_None_iff)
  then show ?thesis
    using kkill_loop_eq [OF assms(1,2), of "[0..<NPROC]" n]
    by (simp add: kkill_def atLeast0LessThan NPROC_def)
qed

subsection \<open>Process identifiers, the clock, and pausing\<close>

lemma allocpid_eq [kstep]:
  "cpu_ok (core s) \<Longrightarrow> free_lock PidLock (core s) \<Longrightarrow>
   allocpid s = Ret (nextpid s) (s\<lparr>nextpid := nextpid s + 1, core := touch (core s)\<rparr>)"
  by (simp add: allocpid_def kstep kret_def)

lemma wake_eff_frame [kframe, simp]:
  "ticks (wake_eff ch p s) = ticks s" "nextpid (wake_eff ch p s) = nextpid s"
  "stimecmp (wake_eff ch p s) = stimecmp s" "trapframes (wake_eff ch p s) = trapframes s"
  "phys (wake_eff ch p s) = phys s" "initproc (wake_eff ch p s) = initproc s"
  "sched_state.more (wake_eff ch p s) = sched_state.more s"
  by (simp_all add: wake_eff_def queue_eff_defs)

lemma fold_wake_eff_frame [kframe, simp]:
  "core (fold (wake_eff ch) ps s) = core s"
  "ticks (fold (wake_eff ch) ps s) = ticks s" "nextpid (fold (wake_eff ch) ps s) = nextpid s"
  "stimecmp (fold (wake_eff ch) ps s) = stimecmp s" "trapframes (fold (wake_eff ch) ps s) = trapframes s"
  "phys (fold (wake_eff ch) ps s) = phys s" "initproc (fold (wake_eff ch) ps s) = initproc s"
  "sched_state.more (fold (wake_eff ch) ps s) = sched_state.more s"
  by (induction ps arbitrary: s; simp)+

lemma wakeup_eff_frame [kframe, simp]:
  "core (wakeup_eff ch s) = touch (core s)"
  "ticks (wakeup_eff ch s) = ticks s" "nextpid (wakeup_eff ch s) = nextpid s"
  "stimecmp (wakeup_eff ch s) = stimecmp s" "trapframes (wakeup_eff ch s) = trapframes s"
  "phys (wakeup_eff ch s) = phys s" "initproc (wakeup_eff ch s) = initproc s"
  "sched_state.more (wakeup_eff ch s) = sched_state.more s"
  by (simp_all add: wakeup_eff_def)

lemma table_ok_frame [simp]:
  "table_ok (s\<lparr>ticks := x\<rparr>) = table_ok s" "qview (s\<lparr>ticks := x\<rparr>) = qview s"
  "table_ok (s\<lparr>stimecmp := y\<rparr>) = table_ok s" "qview (s\<lparr>stimecmp := y\<rparr>) = qview s"
  by (simp_all add: table_ok_def mlfq_wf_def row_ok_def queued_def qview_def qcells_def fun_eq_iff)

text \<open>
  The timer interrupt on hart 0 advances \<^verbatim>\<open>ticks\<close> by one, wakes exactly the processes that
  wait for the clock, and programs the next interrupt; on another hart it only programs the
  next interrupt.
\<close>

theorem clockintr_ticks:
  assumes "table_ok s" "table_free (core s)" "free_lock TicksLock (core s)"
  shows "\<exists>s'. clockintr now s = Ret () s' \<and> stimecmp s' = (stimecmp s)(cpuid (core s) := now + 1000000) \<and>
     (if cpuid (core s) = 0
      then ticks s' = ticks s + 1 \<and> table_ok s' \<and> (\<forall>p < NPROC. procs s' p = woken (Some ChTicks) (procs s p))
      else ticks s' = ticks s \<and> procs s' = procs s)"
proof (cases "cpuid (core s) = 0")
  case True
  have ok: "cpu_ok (core s)" using assms by (simp add: table_free_def)
  let ?a = "s\<lparr>core := c_acq TicksLock (core s), ticks := ticks s + 1\<rparr>"
  have t: "table_ok ?a" using assms by simp
  have "wakeup (Some ChTicks) ?a = Ret () (wakeup_eff (Some ChTicks) ?a)"
    using t assms by (intro wakeup_eq) simp_all
  then have "clockintr now s = Ret () ((wakeup_eff (Some ChTicks) ?a)\<lparr>core := touch (core s),
       stimecmp := (stimecmp s)(cpuid (core s) := now + 1000000)\<rparr>)"
    using True ok assms by (simp add: clockintr_def kstep)
  then show ?thesis using True wakeup_eff_ok(1) [OF t, of "Some ChTicks"]
    wakeup_eff_ok(2) [OF t, of _ "Some ChTicks"] by simp
next
  case False
  then show ?thesis by (simp add: clockintr_def kmod_def)
qed

theorem clockintr_ticks_witness:
  "\<exists>s'. clockintr 5 (upd_proc 5 (\<lambda>r. r\<lparr>chan := Some ChTicks, state := SLEEPING\<rparr>) sched0) = Ret () s' \<and>
     ticks s' = 1 \<and> state (procs s' 5) = RUNNABLE \<and> stimecmp s' 0 = 1000005"
proof -
  let ?s = "upd_proc 5 (\<lambda>r. r\<lparr>chan := Some ChTicks, state := SLEEPING\<rparr>) sched0"
  have "table_ok ?s" "table_free (core ?s)" "free_lock TicksLock (core ?s)"
    by (simp_all add: table_ok_def is_level_def table_free_def)
  from clockintr_ticks [OF this, of 5] show ?thesis by (force simp: NPROC_def woken_def)
qed

text \<open>
  \<^verbatim>\<open>procdump\<close> of the MLFQ build lists at most one process: the loop over the process table
  returns after the first line it prints.
\<close>

theorem procdump_stops_early: "length (procdump s) \<le> 1"
proof -
  have "length (procdump_loop ps s) \<le> 1" for ps
    by (induction ps) (simp_all add: Let_def)
  then show ?thesis by (simp add: procdump_def)
qed

lemma killed_eq [kstep]:
  "cpu_ok (core s) \<Longrightarrow> free_lock (ProcLock p) (core s) \<Longrightarrow>
   killed p s = Ret (killed_flag (procs s p)) (s\<lparr>core := touch (core s)\<rparr>)"
  by (simp add: killed_def kstep kret_def)

text \<open>
  \<^verbatim>\<open>sys_pause\<close> waits without spinning and does not oversleep: with \<^verbatim>\<open>tickslock\<close> held and the
  \<open>n\<close> ticks not yet over, a process that was not killed goes to sleep on the clock with all
  other locks released; when it is picked again and the \<open>n\<close> ticks are over, the call returns 0.
\<close>

theorem pause_sleeps_then_returns:
  assumes c: "core s = c_acq TicksLock c" "table_free c" "free_lock TicksLock c" "noff (mycpu c) = 0"
    and run: "cproc (mycpu c) = Some p" "p < NPROC" "killed_flag (procs s p) = 0"
    and early: "ticks s - ticks0 < word_of_int n"
  shows "\<exists>s' k. pause_loop (Suc (Suc fuel)) ticks0 n s = Sched s' k \<and>
     state (procs s' p) = SLEEPING \<and> chan (procs s' p) = Some ChTicks \<and> free_lock TicksLock (core s') \<and>
     (\<forall>u. picked p u \<and> free_lock TicksLock (core u) \<and> \<not> ticks u - ticks0 < word_of_int n \<longrightarrow>
       (\<exists>u'. k u = Ret 0 u' \<and> procs u' = procs u))"
proof -
  have ok: "cpu_ok c" using c by (simp add: table_free_def)
  let ?s1 = "(upd_proc p (\<lambda>r. r\<lparr>chan := Some ChTicks\<rparr>) s)\<lparr>core := touch c\<rparr>"
  let ?k = "kseq (kcore_mod (upd_mycpu (\<lambda>d. d\<lparr>intena := intr_get c\<rparr>))) (release (ProcLock p))"
  have fp: "free_lock (ProcLock p) (core s)" "free_lock (ProcLock p) c"
    using c run by (simp_all add: table_free_def)
  have pr: "sleep_prepare (Some ChTicks) s = Ret () ((upd_proc p (\<lambda>r. r\<lparr>chan := Some ChTicks\<rparr>) s)\<lparr>core := c_acq TicksLock c\<rparr>)"
    using sleep_prepare_eq [of s p ChTicks] c ok run fp by simp
  have sl: "sleep ?s1 = Sched ((upd_proc p (\<lambda>r. r\<lparr>state := SLEEPING\<rparr>) ?s1)\<lparr>core := c_acq (ProcLock p) (touch c)\<rparr>) ?k"
    using sleep_switches [of ?s1 p ChTicks] fp c run by simp
  have sid: "s\<lparr>core := c_acq TicksLock c\<rparr> = s" by (simp add: c(1) [symmetric])
  have l: "pause_loop (Suc (Suc fuel)) ticks0 n s =
      Sched ((upd_proc p (\<lambda>r. r\<lparr>state := SLEEPING\<rparr>) ?s1)\<lparr>core := c_acq (ProcLock p) (touch c)\<rparr>)
        (kseq ?k (kseq (acquire TicksLock) (pause_loop (Suc fuel) ticks0 n)))"
    using early run c ok fp pr sl
    by (subst pause_loop.simps(2)) (simp add: kstep sid del: pause_loop.simps)
  have "\<exists>u'. kseq ?k (kseq (acquire TicksLock) (pause_loop (Suc fuel) ticks0 n)) u = Ret 0 u' \<and> procs u' = procs u"
    if u: "picked p u" "free_lock TicksLock (core u)" "\<not> ticks u - ticks0 < word_of_int n" for u
  proof -
    let ?v = "back_on (intr_get c) p u"
    have "cpu_ok (core ?v)" "free_lock TicksLock (core ?v)"
      using u by (auto simp: back_on_def picked_def hart_defs Let_def)
    moreover have "ticks ?v = ticks u" "procs ?v = procs u" by (simp_all add: back_on_def)
    ultimately show ?thesis using u swtch_resume [OF u(1), of "intr_get c"] by (simp add: kstep kret_def)
  qed
  with l c show ?thesis by (simp del: pause_loop.simps) blast
qed

theorem pause_sleeps_then_returns_witness:
  "let s = sched0\<lparr>core := c_acq TicksLock (upd_mycpu (\<lambda>c. c\<lparr>cproc := Some 3\<rparr>) core0)\<rparr>
   in \<exists>s' k. pause_loop 2 0 10 s = Sched s' k \<and> state (procs s' 3) = SLEEPING"
proof -
  let ?c = "upd_mycpu (\<lambda>c. c\<lparr>cproc := Some 3\<rparr>) core0"
  let ?s = "sched0\<lparr>core := c_acq TicksLock ?c\<rparr>"
  have "table_free ?c" by (simp add: table_free_def core0_def hart_defs)
  then have "\<exists>s' k. pause_loop (Suc (Suc 0)) 0 10 ?s = Sched s' k \<and> state (procs s' 3) = SLEEPING"
    using pause_sleeps_then_returns [of ?s ?c 3 0 10 0] by (force simp: NPROC_def proc0_def)
  then show ?thesis by (simp add: numeral_2_eq_2)
qed

end
