(* ===== verification/Pagetable.thy ===== *)
theory Pagetable
  imports Vm "HOL-Library.Sublist"
begin

text \<open>
  The page tables of \<^verbatim>\<open>kernel/vm.c\<close> as trees. \<open>tab m r P\<close> is the table that the entries along the
  path \<open>P\<close> (deepest index first) lead to, \<open>pte_of m r va\<close> the leaf entry of an address, 0 if there
  is none. \<open>pt_inv\<close> says that the tables of a page table are distinct valid pages off the free
  list. Under it, \<^verbatim>\<open>walk\<close> finds exactly the leaf entry, allocating tables leaves every leaf
  entry as it was, and writing a leaf entry changes that one only; \<^verbatim>\<open>mappages\<close>, \<^verbatim>\<open>uvmunmap\<close>,
  \<^verbatim>\<open>vmfault\<close> and the user copies are verified on top of that.
\<close>

subsection \<open>Entries\<close>

lemma pte_V_bit: "pte_V pte \<longleftrightarrow> bit pte 0"
  by (simp add: pte_V_def PTE_V_def and_one_eq mod_2_eq_odd bit_0)

lemma pte_V_simps [simp]: "pte_V (x OR PTE_V)" "\<not> pte_V 0" "pte_V (x OR (y OR PTE_V))"
  by (simp_all add: pte_V_bit PTE_V_def bit_simps)

definition flag_word :: "u64 \<Rightarrow> bool" where
  "flag_word f \<longleftrightarrow> f AND 0x3FF = f"

lemma flag_word_bit: "flag_word f \<Longrightarrow> bit f n \<Longrightarrow> n < 10"
proof -
  assume f: "flag_word f" and b: "bit f n"
  have m: "(0x3FF :: u64) = mask 10" by (simp add: mask_eq_exp_minus_1)
  from f have "bit (f AND mask 10) n \<longleftrightarrow> bit f n" by (simp add: flag_word_def m)
  with b show "n < 10" by (simp add: bit_simps)
qed

lemma PTE2PA_PA2PTE:
  assumes "flag_word f"
  shows "PTE2PA (PA2PTE pa OR f) = PGROUNDDOWN pa"
proof (rule bit_eqI)
  fix n assume "possible_bit TYPE(64 word) n"
  then have n: "n < 64" by simp
  have "\<not> bit f (n - 2)" if "12 \<le> n" using flag_word_bit [OF assms, of "n - 2"] that by linarith
  moreover have "n - 12 + 10 = n - 2" "n - 2 - 10 + 12 = n" if "12 \<le> n" using that by simp_all
  ultimately show "bit (PTE2PA (PA2PTE pa OR f)) n = bit (PGROUNDDOWN pa) n"
    using n by (auto simp: PTE2PA_def PA2PTE_def PGROUNDDOWN_shift bit_simps)
qed

lemma page_aligned_PGROUNDDOWN_id: "page_aligned p \<Longrightarrow> PGROUNDDOWN p = p"
proof -
  assume "page_aligned p"
  then obtain j where "unat p = 4096 * j" by (auto simp: page_aligned_nat elim!: dvdE)
  then show ?thesis by (simp add: word_unat_eq_iff unat_PGROUNDDOWN)
qed

lemma PTE_FLAGS_PA2PTE:
  assumes "flag_word f"
  shows "PTE_FLAGS (PA2PTE pa OR f) = f"
proof (rule bit_eqI)
  fix n assume "possible_bit TYPE(64 word) n"
  have m: "(0x3FF :: u64) = mask 10" by (simp add: mask_eq_exp_minus_1)
  show "bit (PTE_FLAGS (PA2PTE pa OR f)) n = bit f n"
    using flag_word_bit [OF assms, of n] \<open>possible_bit TYPE(64 word) n\<close>
    by (auto simp: PTE_FLAGS_def PA2PTE_def m bit_simps)
qed

lemma flag_word_simps [simp]:
  "flag_word PTE_V" "flag_word PTE_R" "flag_word PTE_W" "flag_word PTE_X" "flag_word PTE_U"
  "flag_word 0" "flag_word (PTE_FLAGS x)"
  by (simp_all add: flag_word_def PTE_V_def PTE_R_def PTE_W_def PTE_X_def PTE_U_def PTE_FLAGS_def and.assoc)

lemma flag_word_or [simp]: "flag_word f \<Longrightarrow> flag_word g \<Longrightarrow> flag_word (f OR g)"
  by (simp add: flag_word_def bit.conj_disj_distrib2)

subsection \<open>Slots of a table\<close>

lemma PX_less: "PX l va < 512"
proof -
  have m: "(0x1FF :: u64) = mask 9" by (simp add: mask_eq_exp_minus_1)
  have "PX l va = take_bit 9 (drop_bit (PXSHIFT l) va)" by (simp add: PX_def m take_bit_eq_mask and.commute)
  then show ?thesis using take_bit_int_less_exp by (simp add: word_less_nat_alt unsigned_take_bit_eq take_bit_nat_def)
qed

lemma in_slot_page:
  assumes i: "i < 512" and b: "in_region (pte_at x i) 8 b"
  shows "in_region x 4096 b" and "unat (b - x) div 8 = unat i"
proof -
  obtain k where k: "k < 8" "b = pte_at x i + of_nat k" using b by (rule in_regionE)
  have "unat i < 512" using i by (simp add: word_less_nat_alt)
  then have "unat (8 * i + of_nat k) = 8 * unat i + k"
    using k(1) by (simp add: unat_word_ariths unat_of_nat_u64)
  moreover have "b - x = 8 * i + of_nat k" using k(2) by (simp add: pte_at_def)
  ultimately have u: "unat (b - x) = 8 * unat i + k" by simp
  with k(1) \<open>unat i < 512\<close> show "in_region x 4096 b" by (simp add: in_region_def)
  from u k(1) show "unat (b - x) div 8 = unat i" by simp
qed

lemma slot_disjoint:
  assumes "i < 512" "j < 512" "i \<noteq> j" "in_region (pte_at x i) 8 b"
  shows "\<not> in_region (pte_at x j) 8 b"
  using in_slot_page(2) [OF assms(1,4)] in_slot_page(2) [OF assms(2), of x b] assms(3)
  by (auto simp: word_unat_eq_iff)

lemma load_store_slot:
  assumes "i < 512" "j < 512" "page_aligned x" "page_aligned y"
  shows "load64 (store64 m (pte_at x i) v) (pte_at y j) = (if x = y \<and> i = j then v else load64 m (pte_at y j))"
proof (cases "x = y \<and> i = j")
  case False
  have "\<not> in_region (pte_at x i) 8 b" if b: "in_region (pte_at y j) 8 b" for b
  proof
    assume a: "in_region (pte_at x i) 8 b"
    have "in_region y 4096 b" "in_region x 4096 b"
      using in_slot_page(1) [OF assms(2) b] in_slot_page(1) [OF assms(1) a] by simp_all
    then have "x = y" using assms(3,4) page_unique by blast
    with False slot_disjoint [OF assms(1,2) _ a] b show False by auto
  qed
  then show ?thesis using False by (auto intro!: load64_cong store64_frame)
qed auto

lemma load_slot_cong:
  "j < 512 \<Longrightarrow> (\<And>b. in_region y 4096 b \<Longrightarrow> m' b = m b) \<Longrightarrow> load64 m' (pte_at y j) = load64 m (pte_at y j)"
  by (intro load64_cong) (use in_slot_page(1) in blast)

lemma load64_zero: "(\<And>b. in_region a 8 b \<Longrightarrow> m b = 0) \<Longrightarrow> load64 m a = 0"
proof -
  assume z: "\<And>b. in_region a 8 b \<Longrightarrow> m b = 0"
  have "load64 m a = load64 (\<lambda>_. 0) a" using z by (intro load64_cong) auto
  also have "\<dots> = 0" by (simp add: load64_def horner_sum_eq_sum)
  finally show ?thesis .
qed

lemma pte_at_nonzero:
  assumes "page_aligned x" "x \<noteq> 0" "i < 512"
  shows "pte_at x i \<noteq> 0"
proof
  assume z: "pte_at x i = 0"
  have "in_region (pte_at x i) 8 (pte_at x i)" by (simp add: in_region_def)
  then have "in_region x 4096 0" using in_slot_page(1) [OF assms(3)] z by metis
  then show False using page_base [OF assms(1), of 0] assms(2) by (simp add: word_unat_eq_iff)
qed

subsection \<open>The tree of tables\<close>

definition node :: "mem \<Rightarrow> u64 \<Rightarrow> u64 \<Rightarrow> u64 option" where
  "node m x i = (let e = load64 m (pte_at x i) in if pte_V e then Some (PTE2PA e) else None)"

primrec tab :: "mem \<Rightarrow> u64 \<Rightarrow> u64 list \<Rightarrow> u64 option" where
  "tab m r [] = Some r"
| "tab m r (i # P) = (case tab m r P of None \<Rightarrow> None | Some x \<Rightarrow> node m x i)"

definition ptpath :: "u64 list \<Rightarrow> bool" where
  "ptpath P \<longleftrightarrow> length P \<le> 2 \<and> (\<forall>i \<in> set P. i < 512)"

definition tabs :: "mem \<Rightarrow> u64 \<Rightarrow> u64 set" where
  "tabs m r = {x. \<exists>P. ptpath P \<and> tab m r P = Some x}"

definition pt_ok :: "u64 \<Rightarrow> mem \<Rightarrow> u64 \<Rightarrow> bool" where
  "pt_ok e m r \<longleftrightarrow> (\<forall>P Q x. ptpath P \<and> ptpath Q \<and> tab m r P = Some x \<and> tab m r Q = Some x \<longrightarrow> P = Q) \<and>
     (\<forall>x \<in> tabs m r. valid_page e x)"

text \<open>The path to the last-level table of an address, and the leaf entry.\<close>

definition vpath :: "u64 \<Rightarrow> u64 list" where
  "vpath va = [PX 1 va, PX 2 va]"

definition pte_of :: "mem \<Rightarrow> u64 \<Rightarrow> u64 \<Rightarrow> u64" where
  "pte_of m r va = (case tab m r (vpath va) of None \<Rightarrow> 0 | Some y \<Rightarrow> load64 m (pte_at y (PX 0 va)))"

lemma path_simps [simp]:
  "ptpath []" "ptpath (i # P) \<longleftrightarrow> i < 512 \<and> ptpath P \<and> length P < 2"
  by (auto simp: ptpath_def)

lemma path_vpath [simp]: "ptpath (vpath va)" "length (vpath va) = 2"
  by (simp_all add: vpath_def PX_less)

lemma pt_ok_inj: "pt_ok e m r \<Longrightarrow> ptpath P \<Longrightarrow> ptpath Q \<Longrightarrow> tab m r P = Some x \<Longrightarrow> tab m r Q = Some x \<Longrightarrow> P = Q"
  unfolding pt_ok_def by blast

lemma tabsI: "ptpath P \<Longrightarrow> tab m r P = Some x \<Longrightarrow> x \<in> tabs m r"
  by (auto simp: tabs_def)

lemma pt_ok_valid: "pt_ok e m r \<Longrightarrow> ptpath P \<Longrightarrow> tab m r P = Some x \<Longrightarrow> valid_page e x"
  unfolding pt_ok_def by (blast intro: tabsI)

lemma pt_ok_aligned: "pt_ok e m r \<Longrightarrow> ptpath P \<Longrightarrow> tab m r P = Some x \<Longrightarrow> page_aligned x"
  using pt_ok_valid by (auto simp: valid_page_def)

lemma tab_frame:
  assumes "\<And>x b. x \<in> tabs m r \<Longrightarrow> in_region x 4096 b \<Longrightarrow> m' b = m b" and "ptpath P"
  shows "tab m' r P = tab m r P"
  using assms(2)
proof (induction P)
  case (Cons i P)
  show ?case
  proof (cases "tab m r P")
    case (Some x)
    then have "x \<in> tabs m r" using Cons.prems by (auto intro: tabsI)
    then have "load64 m' (pte_at x i) = load64 m (pte_at x i)"
      using Cons.prems assms(1) by (intro load_slot_cong) auto
    then show ?thesis using Cons Some by (simp add: node_def)
  qed (use Cons in simp)
qed simp

lemma pt_frame:
  assumes "\<And>x b. x \<in> tabs m r \<Longrightarrow> in_region x 4096 b \<Longrightarrow> m' b = m b"
  shows "tabs m' r = tabs m r" "pt_ok e m' r = pt_ok e m r" "pte_of m' r va = pte_of m r va"
proof -
  have t: "ptpath P \<Longrightarrow> tab m' r P = tab m r P" for P using assms by (rule tab_frame)
  then show s: "tabs m' r = tabs m r" by (auto simp: tabs_def)
  show "pt_ok e m' r = pt_ok e m r" unfolding pt_ok_def s by (simp add: t cong: conj_cong)
  show "pte_of m' r va = pte_of m r va"
  proof (cases "tab m r (vpath va)")
    case (Some y)
    then have "y \<in> tabs m r" by (rule tabsI [OF path_vpath(1)])
    then have "load64 m' (pte_at y (PX 0 va)) = load64 m (pte_at y (PX 0 va))"
      using assms by (intro load_slot_cong) (auto simp: PX_less)
    then show ?thesis using Some t by (simp add: pte_of_def)
  qed (use t in \<open>simp add: pte_of_def\<close>)
qed

subsection \<open>Adding a table\<close>

text \<open>\<open>fill m x i pg\<close>: the memory after an empty entry has been made to point to a zeroed page.\<close>

definition fill :: "mem \<Rightarrow> u64 \<Rightarrow> u64 \<Rightarrow> u64 \<Rightarrow> mem" where
  "fill m x i pg = store64 (memset m pg 0 4096) (pte_at x i) (PA2PTE pg OR PTE_V)"

definition fill_step :: "u64 \<Rightarrow> mem \<Rightarrow> u64 \<Rightarrow> u64 list \<Rightarrow> u64 \<Rightarrow> u64 \<Rightarrow> u64 \<Rightarrow> bool" where
  "fill_step e m r P x i pg \<longleftrightarrow> pt_ok e m r \<and> ptpath P \<and> length P < 2 \<and> tab m r P = Some x \<and> i < 512 \<and>
     \<not> pte_V (load64 m (pte_at x i)) \<and> valid_page e pg \<and> pg \<notin> tabs m r"

lemma fill_stepD:
  assumes "fill_step e m r P x i pg"
  shows "pt_ok e m r" "ptpath P" "length P < 2" "tab m r P = Some x" "i < 512"
    "\<not> pte_V (load64 m (pte_at x i))" "valid_page e pg" "pg \<notin> tabs m r"
    "page_aligned pg" "page_aligned x"
  using assms pt_ok_aligned [of e m r P x] by (auto simp: fill_step_def valid_page_def)

lemma load_old:
  assumes f: "fill_step e m r P x i pg" and Q: "ptpath Q" "tab m r Q = Some y" "j < 512" "Q \<noteq> P \<or> j \<noteq> i"
  shows "load64 (fill m x i pg) (pte_at y j) = load64 m (pte_at y j)"
proof -
  note fd = fill_stepD [OF f]
  have y: "page_aligned y" "y \<noteq> pg" using fd(1,8) Q(1,2) pt_ok_aligned tabsI by blast+
  have "\<not> (x = y \<and> i = j)" using Q pt_ok_inj [OF fd(1,2) Q(1) fd(4)] by auto
  then have "load64 (fill m x i pg) (pte_at y j) = load64 (memset m pg 0 4096) (pte_at y j)"
    unfolding fill_def by (subst load_store_slot [OF fd(5) Q(3) fd(10) y(1)]) auto
  also have "\<dots> = load64 m (pte_at y j)"
    using memset_page_frame [OF fd(9) y(1)] y(2) Q(3) by (intro load_slot_cong) auto
  finally show ?thesis .
qed

lemma load_new:
  assumes f: "fill_step e m r P x i pg" and j: "j < 512"
  shows "load64 (fill m x i pg) (pte_at pg j) = 0"
proof -
  note fd = fill_stepD [OF f]
  have "x \<noteq> pg" using fd(2,4,8) by (auto dest: tabsI)
  then have "load64 (fill m x i pg) (pte_at pg j) = load64 (memset m pg 0 4096) (pte_at pg j)"
    unfolding fill_def by (subst load_store_slot [OF fd(5) j fd(10,9)]) auto
  also have "\<dots> = 0"
    using in_slot_page(1) [OF j] by (intro load64_zero) (simp add: memset_eq)
  finally show ?thesis .
qed

lemma tab_old:
  assumes f: "fill_step e m r P x i pg"
  shows "ptpath Q \<Longrightarrow> \<not> suffix (i # P) Q \<Longrightarrow> tab (fill m x i pg) r Q = tab m r Q"
proof (induction Q)
  case (Cons j Q)
  then have q: "ptpath Q" "\<not> suffix (i # P) Q" "Q \<noteq> P \<or> j \<noteq> i" "j < 512" by (auto simp: suffix_Cons)
  with Cons.IH have IH: "tab (fill m x i pg) r Q = tab m r Q" by blast
  show ?case
  proof (cases "tab m r Q")
    case (Some y)
    with load_old [OF f q(1) Some q(4,3)] IH show ?thesis by (simp add: node_def)
  qed (use IH in simp)
qed simp

lemma tab_none: "fill_step e m r P x i pg \<Longrightarrow> suffix (i # P) Q \<Longrightarrow> tab m r Q = None"
proof (induction Q)
  case (Cons j Q)
  then show ?case using fill_stepD(4,6) [OF Cons.prems(1)] by (auto simp: suffix_Cons node_def)
qed simp

lemma tab_new:
  assumes f: "fill_step e m r P x i pg"
  shows "tab (fill m x i pg) r (i # P) = Some pg"
proof -
  note fd = fill_stepD [OF f]
  have "tab (fill m x i pg) r P = Some x"
    using tab_old [OF f fd(2)] fd(4) by (auto simp: suffix_def)
  moreover have "load64 (fill m x i pg) (pte_at x i) = PA2PTE pg OR PTE_V" by (simp add: fill_def)
  ultimately show ?thesis
    by (simp add: node_def PTE2PA_PA2PTE page_aligned_PGROUNDDOWN_id fd(9))
qed

lemma tab_below:
  "fill_step e m r P x i pg \<Longrightarrow> ptpath (j # i # P) \<Longrightarrow> tab (fill m x i pg) r (j # i # P) = None"
  using tab_new [of e m r P x i pg] load_new [of e m r P x i pg j] by (simp add: node_def)

lemma suffix_cases:
  assumes "ptpath Q" "suffix (i # P) Q"
  shows "Q = i # P \<or> (\<exists>j. Q = j # i # P)"
proof -
  obtain R where R: "Q = R @ i # P" using assms(2) by (auto simp: suffix_def)
  with assms(1) have "length R \<le> 1" by (simp add: ptpath_def)
  with R show ?thesis by (cases R) auto
qed

lemma tab_fill:
  assumes f: "fill_step e m r P x i pg" and Q: "ptpath Q" "tab (fill m x i pg) r Q = Some y"
  shows "(Q = i # P \<and> y = pg) \<or> (tab m r Q = Some y \<and> y \<noteq> pg)"
proof (cases "suffix (i # P) Q")
  case True
  then consider "Q = i # P" | j where "Q = j # i # P" using suffix_cases [OF Q(1)] by blast
  then show ?thesis
  proof cases
    case 1
    with Q tab_new [OF f] show ?thesis by (simp del: tab.simps)
  next
    case 2
    with Q tab_below [OF f, of j] show ?thesis by (simp del: tab.simps path_simps)
  qed
next
  case False
  with tab_old [OF f Q(1)] Q have "tab m r Q = Some y" by simp
  moreover from this have "y \<noteq> pg" using tabsI [OF Q(1)] fill_stepD(8) [OF f] by blast
  ultimately show ?thesis by simp
qed

lemma pt_ok_fill:
  assumes f: "fill_step e m r P x i pg"
  shows "pt_ok e (fill m x i pg) r"
proof -
  note fd = fill_stepD [OF f]
  have "Q = R" if "ptpath Q" "ptpath R" "tab (fill m x i pg) r Q = Some y" "tab (fill m x i pg) r R = Some y" for Q R y
    using tab_fill [OF f that(1,3)] tab_fill [OF f that(2,4)] that by (auto dest: pt_ok_inj [OF fd(1)])
  moreover have "valid_page e y" if "y \<in> tabs (fill m x i pg) r" for y
    using that tab_fill [OF f] fd(7) pt_ok_valid [OF fd(1)] by (fastforce simp: tabs_def)
  ultimately show ?thesis unfolding pt_ok_def by blast
qed

lemma tabs_fill: "fill_step e m r P x i pg \<Longrightarrow> tabs (fill m x i pg) r \<subseteq> insert pg (tabs m r)"
  using tab_fill by (fastforce simp: tabs_def)

lemma pte_of_fill:
  assumes f: "fill_step e m r P x i pg"
  shows "pte_of (fill m x i pg) r va = pte_of m r va"
proof (cases "suffix (i # P) (vpath va)")
  case True
  then have "tab m r (vpath va) = None" by (rule tab_none [OF f])
  moreover have "vpath va = i # P \<or> (\<exists>j. vpath va = j # i # P)" using suffix_cases True by simp
  ultimately show ?thesis
    using tab_new [OF f] load_new [OF f PX_less] tab_below [OF f] path_vpath(1) [of va]
    by (auto simp: pte_of_def simp del: path_vpath path_simps)
next
  case False
  then have t: "tab (fill m x i pg) r (vpath va) = tab m r (vpath va)" by (simp add: tab_old [OF f])
  have "vpath va \<noteq> P" using fill_stepD(3) [OF f] path_vpath(2) [of va] by auto
  then show ?thesis using t load_old [OF f path_vpath(1) _ PX_less] by (auto simp: pte_of_def split: option.split)
qed

lemma frame_fill:
  "fill_step e m r P x i pg \<Longrightarrow> \<not> in_region x 4096 b \<Longrightarrow> \<not> in_region pg 4096 b \<Longrightarrow> fill m x i pg b = m b"
  using in_slot_page(1) [of i x b] fill_stepD(5) [of e m r P x i pg]
  by (auto simp: fill_def store64_def memset_eq)

subsection \<open>Writing a leaf entry\<close>

lemma unat_PX: "unat (PX l va) = unat va div 2 ^ (12 + 9 * l) mod 512"
proof -
  have m: "(0x1FF :: u64) = mask 9" by (simp add: mask_eq_exp_minus_1)
  have "PX l va = take_bit 9 (drop_bit (12 + 9 * l) va)"
    by (simp add: PX_def PXSHIFT_def m take_bit_eq_mask and.commute)
  moreover have "unat va mod 2 ^ 64 = unat va" using unsigned_less [of va, where 'a = nat] by simp
  ultimately show ?thesis by (simp add: unsigned_take_bit_eq take_bit_nat_def unsigned_drop_bit_eq drop_bit_nat_def)
qed

text \<open>Below \<^verbatim>\<open>MAXVA\<close> the three indices determine the page.\<close>

lemma PX_page: "PGROUNDDOWN va = PGROUNDDOWN vb \<Longrightarrow> PX l va = PX l vb"
proof -
  assume "PGROUNDDOWN va = PGROUNDDOWN vb"
  then have "unat va div 2 ^ 12 = unat vb div 2 ^ 12" by (simp add: word_unat_eq_iff unat_PGROUNDDOWN)
  then show ?thesis by (simp add: word_unat_eq_iff unat_PX power_add div_mult2_eq)
qed

lemma vpath_page: "PGROUNDDOWN va = PGROUNDDOWN vb \<Longrightarrow> vpath va = vpath vb"
  using PX_page [of va vb] by (simp only: vpath_def)

lemma pte_of_page: "PGROUNDDOWN va = PGROUNDDOWN vb \<Longrightarrow> pte_of m r va = pte_of m r vb"
  unfolding pte_of_def by (simp add: vpath_page [of va vb] PX_page [of va vb] cong: option.case_cong)

lemma PX_inj:
  assumes "va < MAXVA" "vb < MAXVA" "PX 0 va = PX 0 vb" "PX 1 va = PX 1 vb" "PX 2 va = PX 2 vb"
  shows "PGROUNDDOWN va = PGROUNDDOWN vb"
proof -
  have split: "unat v div 4096 = unat (PX 0 v) + 512 * (unat (PX 1 v) + 512 * unat (PX 2 v))" if "v < MAXVA" for v
  proof -
    have "unat v < 2 ^ 38" using that by (simp add: word_less_nat_alt MAXVA_def)
    then have "unat v div 4096 < 2 ^ 26" by simp
    moreover have "unat v div 2 ^ 21 = unat v div 4096 div 512" "unat v div 2 ^ 30 = unat v div 4096 div 512 div 512"
      by (simp_all add: div_mult2_eq [symmetric])
    moreover define w where "w = unat v div 4096"
    ultimately have w: "w div 512 div 512 < 512" "unat v div 2 ^ 21 = w div 512" "unat v div 2 ^ 30 = w div 512 div 512"
      by (simp_all add: div_less_iff_less_mult)
    then show ?thesis
      using div_mult_mod_eq [of w 512] div_mult_mod_eq [of "w div 512" 512] by (simp add: unat_PX w_def [symmetric])
  qed
  then show ?thesis
    using split [OF assms(1)] split [OF assms(2)] assms(3-5)
    by (simp add: word_unat_eq_iff unat_PGROUNDDOWN)
qed

lemma leaf_write:
  fixes v :: u64
  assumes ok: "pt_ok e m r" and y: "tab m r (vpath va) = Some y" and va: "va < MAXVA"
  defines "m' \<equiv> store64 m (pte_at y (PX 0 va)) v"
  shows "ptpath Q \<Longrightarrow> tab m' r Q = tab m r Q"
    and "vb < MAXVA \<Longrightarrow> pte_of m' r vb = (if PGROUNDDOWN vb = PGROUNDDOWN va then v else pte_of m r vb)"
proof -
  have ya: "page_aligned y" using ok _ y by (rule pt_ok_aligned) simp
  have ld: "load64 m' (pte_at z j) = (if z = y \<and> j = PX 0 va then v else load64 m (pte_at z j))"
    if "page_aligned z" "j < 512" for z j
    unfolding m'_def using load_store_slot [OF PX_less that(2) ya that(1)] by auto
  show t: "tab m' r Q = tab m r Q" if "ptpath Q" for Q
    using that
  proof (induction Q)
    case (Cons j Q)
    show ?case
    proof (cases "tab m r Q")
      case (Some z)
      have "z \<noteq> y" using pt_ok_inj [OF ok _ _ Some, of "vpath va"] y Cons.prems by auto
      moreover have "page_aligned z" using ok _ Some by (rule pt_ok_aligned) (use Cons.prems in simp)
      ultimately show ?thesis using Cons Some ld by (simp add: node_def)
    qed (use Cons in simp)
  qed simp
  show "pte_of m' r vb = (if PGROUNDDOWN vb = PGROUNDDOWN va then v else pte_of m r vb)" if vb: "vb < MAXVA"
  proof (cases "tab m r (vpath vb)")
    case None
    have "PGROUNDDOWN vb \<noteq> PGROUNDDOWN va"
      using None y vpath_page [of vb va] by auto
    then show ?thesis using None t by (simp add: pte_of_def)
  next
    case (Some z)
    have za: "page_aligned z" using ok _ Some by (rule pt_ok_aligned) simp
    have "z = y \<and> PX 0 vb = PX 0 va \<longleftrightarrow> PGROUNDDOWN vb = PGROUNDDOWN va"
    proof
      assume a: "z = y \<and> PX 0 vb = PX 0 va"
      then have "vpath vb = vpath va" using pt_ok_inj [OF ok path_vpath(1) path_vpath(1) Some] y by simp
      with a show "PGROUNDDOWN vb = PGROUNDDOWN va"
        using PX_inj [OF vb va] by (simp add: vpath_def)
    next
      assume "PGROUNDDOWN vb = PGROUNDDOWN va"
      then have "vpath vb = vpath va" "PX 0 vb = PX 0 va" by (rule vpath_page, rule PX_page)
      with Some y show "z = y \<and> PX 0 vb = PX 0 va" by simp
    qed
    then show ?thesis using Some t ld [OF za PX_less] by (simp add: pte_of_def)
  qed
qed

subsection \<open>Walking\<close>

lemma kmem_frame:
  assumes "kmem_inv s" "freelist s' = freelist s" "kend s' = kend s"
    and "\<And>p b. p \<in> set (free_pages s) \<Longrightarrow> in_region p 4096 b \<Longrightarrow> phys s' b = phys s b"
  shows "kmem_inv s'" "free_pages s' = free_pages s"
proof -
  have c: "chain_ok (kend s) (phys s') (freelist s) (free_pages s)"
    by (rule chain_ok_frame [of _ "phys s"]) (use assms(1,4) in \<open>simp_all add: kmem_inv_iff\<close>)
  then show f: "free_pages s' = free_pages s"
    using assms(2) by (intro free_pages_eq) (simp add: chain_ok_def)
  show "kmem_inv s'" using c assms(1-3) by (auto simp: kmem_inv_def)
qed

definition pt_inv :: "u64 \<Rightarrow> 'z kmem_state_scheme \<Rightarrow> bool" where
  "pt_inv r s \<longleftrightarrow> kmem_ready s \<and> pt_ok (kend s) (phys s) r \<and> tabs (phys s) r \<inter> set (free_pages s) = {}"

text \<open>
  \<open>ext r s s'\<close>: what the operations on page table \<open>r\<close> may do to the state besides changing leaf
  entries: take pages off the front of the free list and make some of them tables of \<open>r\<close>, and
  write into tables and pages that were free.
\<close>

definition ext :: "u64 \<Rightarrow> 'z kmem_state_scheme \<Rightarrow> 'z kmem_state_scheme \<Rightarrow> bool" where
  "ext r s s' \<longleftrightarrow> pt_inv r s' \<and> core s' \<in> {core s, touch (core s)} \<and> kend s' = kend s \<and>
     kmem_state.more s' = kmem_state.more s \<and>
     (\<exists>ps. free_pages s = ps @ free_pages s' \<and> tabs (phys s') r \<subseteq> tabs (phys s) r \<union> set ps) \<and>
     (\<forall>b. (\<forall>x \<in> tabs (phys s) r \<union> set (free_pages s). \<not> in_region x 4096 b) \<longrightarrow> phys s' b = phys s b)"

lemma ext_refl: "pt_inv r s \<Longrightarrow> ext r s s"
  by (auto simp: ext_def)

lemma ext_trans:
  assumes "ext r s t" "ext r t u"
  shows "ext r s u"
proof -
  obtain ps where ps: "free_pages s = ps @ free_pages t" "tabs (phys t) r \<subseteq> tabs (phys s) r \<union> set ps"
    using assms(1) by (auto simp: ext_def)
  obtain qs where qs: "free_pages t = qs @ free_pages u" "tabs (phys u) r \<subseteq> tabs (phys t) r \<union> set qs"
    using assms(2) by (auto simp: ext_def)
  have "free_pages s = (ps @ qs) @ free_pages u \<and> tabs (phys u) r \<subseteq> tabs (phys s) r \<union> set (ps @ qs)"
    using ps qs by auto
  moreover have "phys u b = phys s b"
    if "\<forall>x \<in> tabs (phys s) r \<union> set (free_pages s). \<not> in_region x 4096 b" for b
  proof -
    have "\<forall>x \<in> tabs (phys t) r \<union> set (free_pages t). \<not> in_region x 4096 b" using that ps by auto
    then have "phys u b = phys t b" using assms(2) by (simp add: ext_def)
    also have "\<dots> = phys s b" using that assms(1) by (simp add: ext_def)
    finally show ?thesis .
  qed
  moreover have "core u \<in> {core s, touch (core s)}" using assms by (auto simp: ext_def)
  ultimately show ?thesis using assms unfolding ext_def by metis
qed

lemma walk_read:
  assumes "va < MAXVA"
  shows "walk r va False s =
     Ret (case tab (phys s) r (vpath va) of None \<Rightarrow> 0 | Some y \<Rightarrow> pte_at y (PX 0 va)) s"
  using assms
  by (simp add: walk_def numeral_2_eq_2 get_pte_def vpath_def node_def kret_def not_le [symmetric])

definition vp :: "nat \<Rightarrow> u64 \<Rightarrow> u64 list" where
  "vp l va = map (\<lambda>k. PX k va) [Suc l..<3]"

lemma vp_simps: "vp 2 va = []" "vp 0 va = vpath va" "l < 2 \<Longrightarrow> vp l va = PX (Suc l) va # vp (Suc l) va"
  by (auto simp: vp_def vpath_def upt_conv_Cons numeral_3_eq_3 numeral_2_eq_2 less_Suc_eq)

lemma path_vp: "ptpath (vp l va)"
  by (auto simp: ptpath_def vp_def PX_less)

lemma memset_memset: "memset (memset m p c n) p d n = memset m p d n"
  by (simp add: fun_eq_iff memset_eq)

text \<open>One new table: the state after \<^verbatim>\<open>kalloc\<close>, \<^verbatim>\<open>memset\<close> and the store of the entry.\<close>

lemma fill_ext:
  assumes inv: "pt_inv r s" and f: "free_pages s = pg # fs"
    and st: "ptpath P" "length P < 2" "tab (phys s) r P = Some x" "i < 512" "\<not> pte_V (load64 (phys s) (pte_at x i))"
  defines "t \<equiv> (kalloc_eff s)\<lparr>phys := fill (phys s) x i pg\<rparr>"
  shows "ext r s t" "fill_step (kend s) (phys s) r P x i pg"
proof -
  have k: "kmem_inv s" "kmem_ready s" "pt_ok (kend s) (phys s) r" "tabs (phys s) r \<inter> set (free_pages s) = {}"
    using inv by (simp_all add: pt_inv_def kmem_ready_def)
  have v: "valid_page (kend s) p" if "p \<in> set (free_pages s)" for p
    using k(1) that by (simp add: kmem_inv_iff chain_ok_def)
  show fs: "fill_step (kend s) (phys s) r P x i pg"
    using st k v [of pg] f by (auto simp: fill_step_def)
  note fd = fill_stepD [OF fs]
  have xt: "x \<in> tabs (phys s) r" using fd(2,4) by (rule tabsI)
  have e: "kmem_inv (kalloc_eff s)" "free_pages (kalloc_eff s) = fs" using kalloc_eff_inv [OF k(1)] f by simp_all
  have fl: "freelist s = pg" "pg \<noteq> 0" using kmem_inv_freelist [OF k(1) f] by auto
  have dist: "pg \<notin> set fs" using k(1) f by (auto simp: kmem_inv_iff chain_ok_def)
  have fr: "phys t b = phys (kalloc_eff s) b" if "p \<in> set fs" "in_region p 4096 b" for p b
  proof -
    have p: "page_aligned p" "p \<noteq> pg" "p \<noteq> x" using that(1) f v dist k(4) xt by (auto simp: valid_page_def)
    then have "\<not> in_region x 4096 b" "\<not> in_region pg 4096 b"
      using that(2) page_disjoint [OF p(1) fd(10)] page_disjoint [OF p(1) fd(9)] by auto
    then show ?thesis using frame_fill [OF fs] fl by (simp add: t_def kalloc_eff_def memset_eq)
  qed
  have t: "kmem_inv t" "free_pages t = fs"
    using kmem_frame [OF e(1), of t] fr e(2) by (simp_all add: t_def)
  have tb: "tabs (phys t) r \<subseteq> insert pg (tabs (phys s) r)" using tabs_fill [OF fs] by (simp add: t_def)
  have "pt_inv r t"
    using t k pt_ok_fill [OF fs] tb f dist by (auto simp: pt_inv_def kmem_ready_def t_def)
  moreover have "phys t b = phys s b" if "\<forall>y \<in> tabs (phys s) r \<union> set (free_pages s). \<not> in_region y 4096 b" for b
    using that xt f frame_fill [OF fs] by (simp add: t_def)
  ultimately show "ext r s t" using t(2) f tb by (auto simp: ext_def t_def)
qed

lemma walk_loop_alloc:
  assumes "pt_inv r s" "l \<le> 2" "tab (phys s) r (vp l va) = Some x"
  shows "\<exists>a s'. walk_loop l x va True s = Ret a s' \<and> ext r s s' \<and>
     (\<forall>vb. pte_of (phys s') r vb = pte_of (phys s) r vb) \<and>
     (if a = 0 then free_pages s' = [] else \<exists>y. tab (phys s') r (vpath va) = Some y \<and> a = pte_at y (PX 0 va))"
  using assms
proof (induction l arbitrary: s x)
  case 0
  then have x: "tab (phys s) r (vpath va) = Some x" by (simp add: vp_simps)
  have "valid_page (kend s) x" "0 < kend s"
    using 0(1) pt_ok_valid [OF _ path_vpath(1) x] by (simp_all add: pt_inv_def kmem_ready_def kmem_inv_iff)
  then have "pte_at x (PX 0 va) \<noteq> 0"
    by (intro pte_at_nonzero) (auto simp: valid_page_def PX_less)
  with x ext_refl [OF 0(1)] show ?case by (simp add: kret_def)
next
  case (Suc l)
  let ?i = "PX (Suc l) va" and ?e = "load64 (phys s) (pte_at x (PX (Suc l) va))"
  have vp: "vp l va = ?i # vp (Suc l) va" using Suc.prems(2) by (simp add: vp_simps)
  have rd: "cpu_ok (core s)" "free_lock KmemLock (core s)" "kmem_inv s"
    using Suc.prems(1) by (simp_all add: pt_inv_def kmem_ready_def)
  show ?case
  proof (cases "pte_V ?e")
    case True
    then have "tab (phys s) r (vp l va) = Some (PTE2PA ?e)" using Suc.prems(3) vp by (simp add: node_def)
    with Suc.IH [OF Suc.prems(1)] Suc.prems(2) True show ?thesis by (simp add: get_pte_def)
  next
    case False
    show ?thesis
    proof (cases "free_pages s")
      case Nil
      then have z: "freelist s = 0" using kmem_inv_empty [OF rd(3)] by simp
      have "ext r s (kalloc_eff s)" "free_pages (kalloc_eff s) = []" "phys (kalloc_eff s) = phys s"
        using Suc.prems(1) kalloc_eff_inv [OF rd(3)] Nil z
        by (auto simp: ext_def pt_inv_def kmem_ready_def kalloc_eff_def)
      with False z show ?thesis by (simp add: get_pte_def kstep rd kret_def)
    next
      case (Cons pg fs)
      let ?t = "(kalloc_eff s)\<lparr>phys := fill (phys s) x ?i pg\<rparr>"
      have fl: "freelist s = pg" "pg \<noteq> 0" using kmem_inv_freelist [OF rd(3) Cons] by auto
      have len: "length (vp (Suc l) va) < 2" using Suc.prems(2) by (simp add: vp_def)
      note fe = fill_ext [OF Suc.prems(1) Cons path_vp len Suc.prems(3) PX_less False]
      have "tab (phys ?t) r (vp l va) = Some pg" using tab_new [OF fe(2)] vp by simp
      with Suc.IH [of ?t pg] fe(1) Suc.prems(2) obtain a s' where IH:
        "walk_loop l pg va True ?t = Ret a s'" "ext r ?t s'"
        "\<forall>vb. pte_of (phys s') r vb = pte_of (phys ?t) r vb"
        "if a = 0 then free_pages s' = [] else \<exists>y. tab (phys s') r (vpath va) = Some y \<and> a = pte_at y (PX 0 va)"
        by (auto simp: ext_def)
      have "(kalloc_eff s)\<lparr>phys := store64 (memset (phys (kalloc_eff s)) pg 0 4096) (pte_at x ?i) (PA2PTE pg OR PTE_V)\<rparr> = ?t"
        using fl by (simp add: kalloc_eff_def fill_def memset_memset)
      then have "walk_loop (Suc l) x va True s = walk_loop l pg va True ?t"
        using False fl by (simp add: get_pte_def kstep rd zero_page_def set_pte_def)
      with IH ext_trans [OF fe(1) IH(2)] pte_of_fill [OF fe(2)] show ?thesis by auto
    qed
  qed
qed

lemma walk_alloc:
  assumes "pt_inv r s" "va < MAXVA"
  shows "\<exists>a s'. walk r va True s = Ret a s' \<and> ext r s s' \<and>
     (\<forall>vb. pte_of (phys s') r vb = pte_of (phys s) r vb) \<and>
     (if a = 0 then free_pages s' = [] else \<exists>y. tab (phys s') r (vpath va) = Some y \<and> a = pte_at y (PX 0 va))"
  using walk_loop_alloc [OF assms(1), of 2 va r] assms(2)
  by (simp add: walk_def vp_simps not_le [symmetric] del: walk_loop.simps)

subsection \<open>Mapping pages\<close>

lemma leaf_ext:
  fixes v :: u64
  assumes inv: "pt_inv r s" and y: "tab (phys s) r (vpath va) = Some y" and va: "va < MAXVA"
  defines "t \<equiv> s\<lparr>phys := store64 (phys s) (pte_at y (PX 0 va)) v\<rparr>"
  shows "ext r s t" and "free_pages t = free_pages s" and "tabs (phys t) r = tabs (phys s) r"
    and "vb < MAXVA \<Longrightarrow> pte_of (phys t) r vb = (if PGROUNDDOWN vb = PGROUNDDOWN va then v else pte_of (phys s) r vb)"
proof -
  have k: "kmem_inv s" "kmem_ready s" "pt_ok (kend s) (phys s) r" "tabs (phys s) r \<inter> set (free_pages s) = {}"
    using inv by (simp_all add: pt_inv_def kmem_ready_def)
  note lw = leaf_write [OF k(3) y va, of _ v]
  have yt: "y \<in> tabs (phys s) r" "page_aligned y"
    using tabsI [OF path_vpath(1) y] pt_ok_aligned [OF k(3) path_vpath(1) y] by simp_all
  have fr: "phys t b = phys s b" if "\<not> in_region y 4096 b" for b
    using that in_slot_page(1) [OF PX_less, of y 0 va b] by (auto simp: t_def store64_def)
  have v: "valid_page (kend s) p" if "p \<in> set (free_pages s)" for p
    using k(1) that by (simp add: kmem_inv_iff chain_ok_def)
  have "phys t b = phys s b" if "p \<in> set (free_pages s)" "in_region p 4096 b" for p b
    using fr page_disjoint [of p y b] that v [OF that(1)] yt k(4) by (auto simp: valid_page_def)
  then have t: "kmem_inv t" "free_pages t = free_pages s"
    using kmem_frame [OF k(1), of t] by (simp_all add: t_def)
  then show "free_pages t = free_pages s" by simp
  show tb: "tabs (phys t) r = tabs (phys s) r" using lw(1) by (auto simp: tabs_def t_def)
  have "pt_ok (kend s) (phys t) r"
    using k(3) unfolding pt_ok_def tb by (simp add: lw(1) t_def cong: conj_cong)
  then have "pt_inv r t" using k t tb by (simp add: pt_inv_def kmem_ready_def t_def)
  then show "ext r s t" using t tb fr yt by (auto simp: ext_def t_def)
  show "pte_of (phys t) r vb = (if PGROUNDDOWN vb = PGROUNDDOWN va then v else pte_of (phys s) r vb)" if "vb < MAXVA"
    using lw(2) [OF that] by (simp add: t_def)
qed

lemma pte_of_tab: "tab m r (vpath va) = Some y \<Longrightarrow> load64 m (pte_at y (PX 0 va)) = pte_of m r va"
  by (simp add: pte_of_def)

lemma walk_nonzero:
  assumes "pt_inv r s" "tab (phys s) r (vpath va) = Some y"
  shows "pte_at y (PX 0 va) \<noteq> 0"
proof -
  have "valid_page (kend s) y" "0 < kend s"
    using assms pt_ok_valid [OF _ path_vpath(1) assms(2)] by (simp_all add: pt_inv_def kmem_ready_def kmem_inv_iff)
  then show ?thesis by (intro pte_at_nonzero) (auto simp: valid_page_def PX_less)
qed

text \<open>The leaf entry \<open>mappages\<close> writes for an address of the range that starts at \<open>va\<close>.\<close>

definition mapped_pte :: "u64 \<Rightarrow> u64 \<Rightarrow> u64 \<Rightarrow> u64 \<Rightarrow> u64" where
  "mapped_pte va pa perm vb = PA2PTE (pa + (PGROUNDDOWN vb - va)) OR perm OR PTE_V"

definition in_pages :: "u64 \<Rightarrow> nat \<Rightarrow> u64 \<Rightarrow> bool" where
  "in_pages va n vb \<longleftrightarrow> unat va \<le> unat vb \<and> unat vb < unat va + 4096 * n"

lemma in_pages_Suc:
  assumes "page_aligned va" "unat va + 4096 * Suc n \<le> 2 ^ 38"
  shows "in_pages va (Suc n) vb \<longleftrightarrow> PGROUNDDOWN vb = va \<or> in_pages (va + PGSIZE) n vb"
    and "unat (va + PGSIZE) = unat va + 4096" and "page_aligned (va + PGSIZE)"
proof -
  obtain j where j: "unat va = 4096 * j" using assms(1) by (auto simp: page_aligned_nat elim!: dvdE)
  show u: "unat (va + PGSIZE) = unat va + 4096" using assms(2) by (simp add: PGSIZE_def unat_word_ariths)
  show "page_aligned (va + PGSIZE)" using u j by (simp add: page_aligned_nat)
  have "PGROUNDDOWN vb = va \<longleftrightarrow> unat vb div 4096 = j"
    using j by (simp add: word_unat_eq_iff unat_PGROUNDDOWN)
  moreover have "unat vb div 4096 = j \<longleftrightarrow> 4096 * j \<le> unat vb \<and> unat vb < 4096 * j + 4096"
    by (metis add.commute div_nat_eqI dividend_less_times_div mult.commute mult_Suc times_div_less_eq_dividend
        zero_less_numeral)
  ultimately show "in_pages va (Suc n) vb \<longleftrightarrow> PGROUNDDOWN vb = va \<or> in_pages (va + PGSIZE) n vb"
    using u j by (auto simp: in_pages_def)
qed

lemma map_one_page:
  assumes inv: "pt_inv r s" and va: "va < MAXVA" and un: "\<not> pte_V (pte_of (phys s) r va)"
  shows "(\<exists>s'. walk r va True s = Ret 0 s' \<and> ext r s s' \<and> free_pages s' = [] \<and>
       (\<forall>vb. pte_of (phys s') r vb = pte_of (phys s) r vb)) \<or>
     (\<exists>a s1. a \<noteq> 0 \<and> walk r va True s = Ret a s1 \<and> get_pte a s1 = Ret (pte_of (phys s) r va) s1 \<and>
       (\<forall>v. \<exists>s'. set_pte a v s1 = Ret () s' \<and> ext r s s' \<and>
         (\<forall>vb < MAXVA. pte_of (phys s') r vb = (if PGROUNDDOWN vb = PGROUNDDOWN va then v else pte_of (phys s) r vb))))"
proof -
  obtain a s1 where w: "walk r va True s = Ret a s1" "ext r s s1" "\<forall>vb. pte_of (phys s1) r vb = pte_of (phys s) r vb"
    "if a = 0 then free_pages s1 = [] else \<exists>y. tab (phys s1) r (vpath va) = Some y \<and> a = pte_at y (PX 0 va)"
    using walk_alloc [OF inv va] by blast
  show ?thesis
  proof (cases "a = 0")
    case False
    then obtain y where y: "tab (phys s1) r (vpath va) = Some y" "a = pte_at y (PX 0 va)" using w(4) by auto
    have i1: "pt_inv r s1" using w(2) by (simp add: ext_def)
    have "\<exists>s'. set_pte a v s1 = Ret () s' \<and> ext r s s' \<and>
         (\<forall>vb < MAXVA. pte_of (phys s') r vb = (if PGROUNDDOWN vb = PGROUNDDOWN va then v else pte_of (phys s) r vb))" for v
      using leaf_ext(1) [OF i1 y(1) va, of v] leaf_ext(4) [OF i1 y(1) va, of _ v] ext_trans [OF w(2)] w(3) y(2) by (auto simp: set_pte_def kmod_def)
    moreover have "get_pte a s1 = Ret (pte_of (phys s) r va) s1"
      using pte_of_tab [OF y(1)] w(3) y(2) by (simp add: get_pte_def kget_def)
    ultimately show ?thesis using w(1) False by auto
  qed (use w in auto)
qed

lemma mappages_loop_maps:
  assumes "pt_inv r s" "page_aligned va" "unat va + 4096 * Suc n \<le> 2 ^ 38"
    and "\<And>vb. in_pages va (Suc n) vb \<Longrightarrow> \<not> pte_V (pte_of (phys s) r vb)"
  shows "\<exists>ret s' j. mappages_loop (Suc n) r va (va + of_nat n * PGSIZE) pa perm s = Ret ret s' \<and> ext r s s' \<and>
     (if ret = 0 then j = Suc n else ret = - 1 \<and> j \<le> n \<and> free_pages s' = []) \<and>
     (\<forall>vb < MAXVA. pte_of (phys s') r vb = (if in_pages va j vb then mapped_pte va pa perm vb else pte_of (phys s) r vb))"
  using assms
proof (induction n arbitrary: s va pa)
  case (0 s va)
  have lt: "va < MAXVA" using 0(3) by (simp add: MAXVA_def word_less_nat_alt)
  have self: "in_pages va (Suc 0) va" by (simp add: in_pages_def)
  have ip: "in_pages va (Suc 0) vb \<longleftrightarrow> PGROUNDDOWN vb = va" for vb
    using in_pages_Suc(1) [OF 0(2,3)] by (auto simp: in_pages_def)
  have pv: "PGROUNDDOWN va = va" using 0(2) by (rule page_aligned_PGROUNDDOWN_id)
  from map_one_page [OF 0(1) lt 0(4) [OF self]] show ?case
  proof (elim disjE exE conjE)
    fix s' assume "walk r va True s = Ret 0 s'" "ext r s s'" "free_pages s' = []"
      "\<forall>vb. pte_of (phys s') r vb = pte_of (phys s) r vb"
    then show ?thesis by (intro exI [of _ "- 1"] exI [of _ s'] exI [of _ 0]) (auto simp: kret_def in_pages_def)
  next
    fix a s1 assume a: "a \<noteq> 0" "walk r va True s = Ret a s1" "get_pte a s1 = Ret (pte_of (phys s) r va) s1"
      "\<forall>v. \<exists>s'. set_pte a v s1 = Ret () s' \<and> ext r s s' \<and>
         (\<forall>vb < MAXVA. pte_of (phys s') r vb = (if PGROUNDDOWN vb = PGROUNDDOWN va then v else pte_of (phys s) r vb))"
    obtain s' where s': "set_pte a (PA2PTE pa OR perm OR PTE_V) s1 = Ret () s'" "ext r s s'"
      "\<forall>vb < MAXVA. pte_of (phys s') r vb = (if PGROUNDDOWN vb = PGROUNDDOWN va then PA2PTE pa OR perm OR PTE_V else pte_of (phys s) r vb)"
      using a(4) by blast
    then show ?thesis using a 0(4) [OF self] pv ip
      by (intro exI [of _ 0] exI [of _ s'] exI [of _ "Suc 0"]) (auto simp: kret_def mapped_pte_def)
  qed
next
  case (Suc n s va pa)
  have lt: "va < MAXVA" using Suc.prems(3) by (simp add: MAXVA_def word_less_nat_alt)
  have self: "in_pages va (Suc (Suc n)) va" by (simp add: in_pages_def)
  have pv: "PGROUNDDOWN va = va" using Suc.prems(2) by (rule page_aligned_PGROUNDDOWN_id)
  note ips = in_pages_Suc [OF Suc.prems(2,3)]
  from map_one_page [OF Suc.prems(1) lt Suc.prems(4) [OF self]] show ?case
  proof (elim disjE exE conjE)
    fix s' assume "walk r va True s = Ret 0 s'" "ext r s s'" "free_pages s' = []"
      "\<forall>vb. pte_of (phys s') r vb = pte_of (phys s) r vb"
    then show ?thesis by (intro exI [of _ "- 1"] exI [of _ s'] exI [of _ 0]) (auto simp: kret_def in_pages_def)
  next
    fix a s1 assume a: "a \<noteq> 0" "walk r va True s = Ret a s1" "get_pte a s1 = Ret (pte_of (phys s) r va) s1"
      "\<forall>v. \<exists>s'. set_pte a v s1 = Ret () s' \<and> ext r s s' \<and>
         (\<forall>vb < MAXVA. pte_of (phys s') r vb = (if PGROUNDDOWN vb = PGROUNDDOWN va then v else pte_of (phys s) r vb))"
    obtain t where t: "set_pte a (PA2PTE pa OR perm OR PTE_V) s1 = Ret () t" "ext r s t"
      "\<forall>vb < MAXVA. pte_of (phys t) r vb = (if PGROUNDDOWN vb = PGROUNDDOWN va then PA2PTE pa OR perm OR PTE_V else pte_of (phys s) r vb)"
      using a(4) by blast
    have fin: "va + of_nat (Suc n) * PGSIZE = va + PGSIZE + of_nat n * PGSIZE" by (simp add: algebra_simps)
    have ne: "va \<noteq> va + of_nat (Suc n) * PGSIZE"
    proof -
      have "unat (of_nat (Suc n) * PGSIZE :: u64) = Suc n * 4096"
        using Suc.prems(3) by (simp add: PGSIZE_def unat_word_ariths unat_of_nat_u64)
      then show ?thesis by auto
    qed
    have un: "\<not> pte_V (pte_of (phys t) r vb)" if "in_pages (va + PGSIZE) (Suc n) vb" for vb
    proof -
      have "vb < MAXVA" "PGROUNDDOWN vb \<noteq> va"
        using that Suc.prems(3) ips(2) unat_PGROUNDDOWN [of vb] times_div_less_eq_dividend [of 4096 "unat vb"]
        by (auto simp: in_pages_def MAXVA_def word_less_nat_alt)
      then show ?thesis using t(3) Suc.prems(4) that ips(1) pv by simp
    qed
    obtain ret s' j where IH: "mappages_loop (Suc n) r (va + PGSIZE) (va + PGSIZE + of_nat n * PGSIZE) (pa + PGSIZE) perm t = Ret ret s'"
      "ext r t s'" "if ret = 0 then j = Suc n else ret = - 1 \<and> j \<le> n \<and> free_pages s' = []"
      "\<forall>vb < MAXVA. pte_of (phys s') r vb = (if in_pages (va + PGSIZE) j vb then mapped_pte (va + PGSIZE) (pa + PGSIZE) perm vb else pte_of (phys t) r vb)"
      using Suc.IH [of t "va + PGSIZE" "pa + PGSIZE"] t(2) ips(2,3) Suc.prems(3) un by (auto simp: ext_def)
    have "mappages_loop (Suc (Suc n)) r va (va + of_nat (Suc n) * PGSIZE) pa perm s = Ret ret s'"
      using a t(1) Suc.prems(4) [OF self] ne IH(1) fin
      by (subst mappages_loop.simps(2)) (simp add: add.assoc del: mappages_loop.simps of_nat_Suc)
    moreover have "pte_of (phys s') r vb = (if in_pages va (Suc j) vb then mapped_pte va pa perm vb else pte_of (phys s) r vb)" if "vb < MAXVA" for vb
    proof -
      have "Suc j \<le> Suc (Suc n)" using IH(3) by (auto split: if_splits)
      then have "unat va + 4096 * Suc j \<le> 2 ^ 38" using Suc.prems(3) by simp
      note ip = in_pages_Suc(1) [OF Suc.prems(2) this]
      have "mapped_pte (va + PGSIZE) (pa + PGSIZE) perm vb = mapped_pte va pa perm vb"
        by (simp add: mapped_pte_def algebra_simps)
      moreover have "PGROUNDDOWN vb = va \<Longrightarrow> mapped_pte va pa perm vb = PA2PTE pa OR perm OR PTE_V"
        by (simp add: mapped_pte_def)
      ultimately show ?thesis using IH(4) t(3) that ip pv by auto
    qed
    moreover have "if ret = 0 then Suc j = Suc (Suc n) else ret = - 1 \<and> Suc j \<le> Suc n \<and> free_pages s' = []"
      using IH(3) by (auto split: if_splits)
    ultimately show ?thesis using ext_trans [OF t(2) IH(2)] by blast
  qed
qed

lemma pages_word:
  assumes "4096 * n \<le> 2 ^ 38"
  shows "unat (of_nat n * PGSIZE :: u64) = 4096 * n"
  using assms by (simp add: PGSIZE_def unat_word_ariths unat_of_nat_u64)

text \<open>
  C8. \<^verbatim>\<open>mappages\<close> on \<open>n\<close> unmapped pages below \<^verbatim>\<open>MAXVA\<close> returns. If it returns 0, the page table maps
  exactly those \<open>n\<close> pages in addition, to consecutive physical pages with the given
  permissions, and every other leaf entry is unchanged. If it returns -1 memory is exhausted
  and only a prefix of the range has been mapped. In both cases the tables stay a tree of
  distinct pages and no memory outside the tables and the free pages is touched.
\<close>

theorem mappages_maps:
  assumes "pt_inv r s" "page_aligned va" "0 < n" "unat va + 4096 * n \<le> 2 ^ 38"
    and "\<And>vb. in_pages va n vb \<Longrightarrow> \<not> pte_V (pte_of (phys s) r vb)"
  shows "\<exists>ret s' j. mappages r va (of_nat n * PGSIZE) pa perm s = Ret ret s' \<and> ext r s s' \<and>
     (if ret = 0 then j = n else ret = - 1 \<and> j < n \<and> free_pages s' = []) \<and>
     (\<forall>vb < MAXVA. pte_of (phys s') r vb = (if in_pages va j vb then mapped_pte va pa perm vb else pte_of (phys s) r vb))"
proof -
  obtain k where k: "n = Suc k" using assms(3) by (cases n) auto
  have u: "unat (of_nat n * PGSIZE :: u64) = 4096 * n" using assms(4) by (intro pages_word) simp
  have al: "va mod PGSIZE = 0" using assms(2) by (simp add: page_aligned_def)
  have e: "(of_nat n * PGSIZE :: u64) mod PGSIZE = 0"
    using u by (simp add: page_aligned_def [symmetric] page_aligned_nat)
  have e': "(of_nat n * PGSIZE :: u64) \<noteq> 0" "unat ((of_nat n * PGSIZE :: u64) div PGSIZE) = n"
    using u assms(3) by (auto simp: unat_div_distrib PGSIZE_def)
  have l: "va + of_nat n * PGSIZE - PGSIZE = va + of_nat k * PGSIZE" by (simp add: k algebra_simps)
  have eq: "mappages r va (of_nat n * PGSIZE) pa perm s = mappages_loop n r va (va + of_nat k * PGSIZE) pa perm s"
    by (simp only: mappages_def al e e' l if_False if_True simp_thms)
  show ?thesis
    unfolding k less_Suc_eq_le eq [unfolded k]
    by (rule mappages_loop_maps [OF assms(1,2) assms(4,5) [unfolded k]])
qed

lemma tabs_page_disjoint:
  assumes "pt_inv r s" "page_aligned p" "p \<notin> tabs (phys s) r" "p \<notin> set (free_pages s)" "in_region p 4096 b"
    and "x \<in> tabs (phys s) r \<union> set (free_pages s)"
  shows "\<not> in_region x 4096 b"
proof -
  have "page_aligned x"
    using assms(1,6) by (auto simp: pt_inv_def pt_ok_def kmem_ready_def kmem_inv_iff chain_ok_def valid_page_def)
  then show ?thesis using page_disjoint [OF assms(2) _ _ assms(5)] assms(3,4,6) by blast
qed

lemma ext_page:
  assumes "ext r s s'" "pt_inv r s" "page_aligned p" "p \<notin> tabs (phys s) r" "p \<notin> set (free_pages s)"
  shows "in_region p 4096 b \<Longrightarrow> phys s' b = phys s b" and "p \<notin> tabs (phys s') r" and "p \<notin> set (free_pages s')"
  using assms tabs_page_disjoint [OF assms(2-5)] by (auto simp: ext_def)

subsection \<open>Lazy allocation\<close>

lemma alloc_zero:
  assumes inv: "pt_inv r s" and f: "free_pages s = pg # fs"
  defines "t \<equiv> (kalloc_eff s)\<lparr>phys := memset (phys s) pg 0 4096\<rparr>"
  shows "kbind kalloc (\<lambda>p. kseq (zero_page p) (g p)) s = g pg t" and "freelist s = pg" and "pg \<noteq> 0" and "ext r s t"
    and "free_pages t = fs" and "pg \<notin> tabs (phys t) r" and "pg \<notin> set fs" and "page_aligned pg" and "valid_page (kend s) pg"
    and "pte_of (phys t) r va = pte_of (phys s) r va"
proof -
  have k: "kmem_inv s" "kmem_ready s" "pt_ok (kend s) (phys s) r" "tabs (phys s) r \<inter> set (free_pages s) = {}"
    "cpu_ok (core s)" "free_lock KmemLock (core s)"
    using inv by (simp_all add: pt_inv_def kmem_ready_def)
  show fl: "freelist s = pg" and nz: "pg \<noteq> 0" using kmem_inv_freelist [OF k(1) f] by auto
  show v: "valid_page (kend s) pg" and dist: "pg \<notin> set fs" using k(1) f by (auto simp: kmem_inv_iff chain_ok_def)
  show al: "page_aligned pg" using v by (simp add: valid_page_def)
  have ph: "phys (kalloc_eff s) = memset (phys s) pg 5 4096" using fl nz by (simp add: kalloc_eff_def)
  show "kbind kalloc (\<lambda>p. kseq (zero_page p) (g p)) s = g pg t"
    using k fl ph by (simp add: kstep zero_page_def t_def memset_memset)
  have e: "kmem_inv (kalloc_eff s)" "free_pages (kalloc_eff s) = fs" using kalloc_eff_inv [OF k(1)] f by simp_all
  have vs: "page_aligned p" if "p \<in> set fs" for p using k(1) f that by (simp add: kmem_inv_iff chain_ok_def valid_page_def)
  have "phys t b = phys (kalloc_eff s) b" if "p \<in> set fs" "in_region p 4096 b" for p b
    using page_disjoint [OF vs [OF that(1)] al _ that(2)] dist that(1) by (auto simp: t_def ph memset_eq)
  then have t: "kmem_inv t" "free_pages t = fs" using kmem_frame [OF e(1), of t] e(2) by (simp_all add: t_def)
  then show "free_pages t = fs" by simp
  have nt: "pg \<notin> tabs (phys s) r" using k(4) f by auto
  have fr: "phys t b = phys s b" if "x \<in> tabs (phys s) r" "in_region x 4096 b" for x b
  proof -
    have "page_aligned x" "x \<noteq> pg" using that(1) k(3) nt by (auto simp: pt_ok_def valid_page_def)
    then show ?thesis using page_disjoint [OF _ al _ that(2)] by (simp add: t_def memset_eq)
  qed
  note pf = pt_frame [OF fr]
  show "pg \<notin> tabs (phys t) r" using pf(1) nt by simp
  show "pte_of (phys t) r va = pte_of (phys s) r va" by (rule pf(3))
  have "pt_inv r t" using pf(1,2) t k f by (auto simp: pt_inv_def kmem_ready_def t_def)
  moreover have "phys t b = phys s b" if "\<forall>x \<in> tabs (phys s) r \<union> set (free_pages s). \<not> in_region x 4096 b" for b
    using that f by (simp add: t_def memset_eq)
  ultimately show "ext r s t" using t(2) f pf(1) by (auto simp: ext_def t_def)
qed

lemma ismapped_eq:
  assumes "pt_inv r s" "va < MAXVA"
  shows "ismapped r va s = Ret (pte_V (pte_of (phys s) r va)) s"
  using walk_nonzero [OF assms(1), of va]
  by (simp add: ismapped_def walk_read [OF assms(2)] pte_of_def get_pte_def kret_def split: option.split)

lemma kfree_unmapped:
  assumes "pt_inv r s" "valid_page (kend s) p" "p \<notin> tabs (phys s) r" "p \<notin> set (free_pages s)"
  shows "kfree p s = Ret () (kfree_eff p s)" and "pt_inv r (kfree_eff p s)"
    and "pte_of (phys (kfree_eff p s)) r va = pte_of (phys s) r va"
    and "free_pages (kfree_eff p s) = p # free_pages s" and "tabs (phys (kfree_eff p s)) r = tabs (phys s) r"
    and "\<not> in_region p 4096 b \<Longrightarrow> phys (kfree_eff p s) b = phys s b"
proof -
  have k: "kmem_inv s" "cpu_ok (core s)" "free_lock KmemLock (core s)" "tabs (phys s) r \<inter> set (free_pages s) = {}"
    using assms(1) by (simp_all add: pt_inv_def kmem_ready_def)
  show "kfree p s = Ret () (kfree_eff p s)" using k assms(2) by (intro kfree_eq)
  have al: "page_aligned p" using assms(2) by (simp add: valid_page_def)
  note ki = kfree_eff_inv [OF k(1) assms(2,4)]
  have out: "phys (kfree_eff p s) b = phys s b" if "\<not> in_region p 4096 b" for b
    using that in_region_mono [of p 8 b 4096] by (auto simp: kfree_eff_def store64_def memset_eq)
  then show "\<not> in_region p 4096 b \<Longrightarrow> phys (kfree_eff p s) b = phys s b" .
  have fr: "phys (kfree_eff p s) b = phys s b" if "x \<in> tabs (phys s) r" "in_region x 4096 b" for x b
  proof -
    have "page_aligned x" "x \<noteq> p" using that(1) assms(1,3) by (auto simp: pt_inv_def pt_ok_def valid_page_def)
    then show ?thesis using page_disjoint [OF _ al _ that(2)] out by blast
  qed
  note pf = pt_frame [OF fr]
  show "pte_of (phys (kfree_eff p s)) r va = pte_of (phys s) r va" by (rule pf(3))
  show "free_pages (kfree_eff p s) = p # free_pages s" using ki by simp
  show "tabs (phys (kfree_eff p s)) r = tabs (phys s) r" by (rule pf(1))
  show "pt_inv r (kfree_eff p s)" using assms(1,3) ki pf(1,2) k by (auto simp: pt_inv_def kmem_ready_def)
qed

text \<open>
  C18. A fault on a lazily allocated page: for an unmapped address below the process size,
  \<^verbatim>\<open>vmfault\<close> returns either 0, with the address space unchanged, or the address of a zeroed page
  that was free before, is now mapped there readable, writable and user-accessible, and is
  neither free nor a page-table page. All other mappings, and all memory that was neither
  free nor a page table, are unchanged.
\<close>

theorem vmfault_maps_zero_page:
  assumes inv: "pt_inv r s" and va: "va < psz" "psz \<le> MAXVA" and un: "\<not> pte_V (pte_of (phys s) r va)"
  shows "\<exists>pa s'. vmfault r psz va rd s = Ret pa s' \<and> pt_inv r s' \<and>
     (\<forall>b. (\<forall>x \<in> tabs (phys s) r \<union> set (free_pages s). \<not> in_region x 4096 b) \<longrightarrow> phys s' b = phys s b) \<and>
     (if pa = 0 then \<forall>vb < MAXVA. pte_of (phys s') r vb = pte_of (phys s) r vb
      else pa \<in> set (free_pages s) \<and> pa \<notin> set (free_pages s') \<and> pa \<notin> tabs (phys s') r \<and>
        (\<forall>b. in_region pa 4096 b \<longrightarrow> phys s' b = 0) \<and>
        (\<forall>vb < MAXVA. pte_of (phys s') r vb = (if PGROUNDDOWN vb = PGROUNDDOWN va
           then PA2PTE pa OR (PTE_W OR PTE_U OR PTE_R) OR PTE_V else pte_of (phys s) r vb)))"
proof -
  let ?va = "PGROUNDDOWN va"
  have lt: "va < MAXVA" using va by simp
  have le: "?va < MAXVA" using lt unat_PGROUNDDOWN [of va] times_div_less_eq_dividend [of 4096 "unat va"]
    by (simp add: word_less_nat_alt)
  have pp: "PGROUNDDOWN ?va = ?va" by (rule page_aligned_PGROUNDDOWN_id) simp
  have same: "pte_of m r ?va = pte_of m r va" for m
    using pp by (rule pte_of_page)
  have start: "vmfault r psz va rd s = kbind kalloc (\<lambda>mem. if mem = 0 then kret 0
      else kseq (zero_page mem) (kbind (mappages r ?va PGSIZE mem (PTE_W OR PTE_U OR PTE_R)) (\<lambda>q.
        if q \<noteq> 0 then kseq (kfree mem) (kret 0) else kret mem))) s"
    using va un ismapped_eq [OF inv le] by (simp add: vmfault_def same not_le [symmetric])
  have rd: "cpu_ok (core s)" "free_lock KmemLock (core s)" "kmem_inv s"
    using inv by (simp_all add: pt_inv_def kmem_ready_def)
  show ?thesis
  proof (cases "free_pages s")
    case Nil
    then have z: "freelist s = 0" using kmem_inv_empty [OF rd(3)] by simp
    have "pt_inv r (kalloc_eff s)" "phys (kalloc_eff s) = phys s"
      using inv kalloc_eff_inv [OF rd(3)] Nil z by (auto simp: pt_inv_def kmem_ready_def kalloc_eff_def)
    with start z rd show ?thesis by (simp add: kstep kret_def)
  next
    case (Cons pg fs)
    define t where "t = (kalloc_eff s)\<lparr>phys := memset (phys s) pg 0 4096\<rparr>"
    note az = alloc_zero [OF inv Cons, folded t_def]
    have it: "pt_inv r t" using az(4) by (simp add: ext_def)
    have st: "vmfault r psz va rd s = kbind (mappages r ?va PGSIZE pg (PTE_W OR PTE_U OR PTE_R)) (\<lambda>q.
        if q \<noteq> 0 then kseq (kfree pg) (kret 0) else kret pg) t"
      using start az(1) [of "\<lambda>mem. kbind (mappages r ?va PGSIZE mem (PTE_W OR PTE_U OR PTE_R)) (\<lambda>q.
        if q \<noteq> 0 then kseq (kfree mem) (kret 0) else kret mem)"] az(2,3) rd
      by (simp add: kstep)
    have rng: "unat ?va + 4096 * 1 \<le> 2 ^ 38"
    proof -
      have "unat va < 2 ^ 38" using lt by (simp add: MAXVA_def word_less_nat_alt)
      then have "unat va div 4096 < 2 ^ 26" by simp
      then show ?thesis by (simp add: unat_PGROUNDDOWN)
    qed
    have ip: "in_pages ?va 1 vb \<longleftrightarrow> PGROUNDDOWN vb = ?va" for vb
      using in_pages_Suc(1) [of ?va 0 vb] rng by (auto simp: in_pages_def)
    have un': "\<not> pte_V (pte_of (phys t) r vb)" if "in_pages ?va 1 vb" for vb
    proof -
      have "PGROUNDDOWN vb = ?va" using that ip by blast
      then have "pte_of (phys t) r vb = pte_of (phys t) r va" by (rule pte_of_page)
      with un show ?thesis by (simp add: az(10))
    qed
    obtain q s' j where mp: "mappages r ?va PGSIZE pg (PTE_W OR PTE_U OR PTE_R) t = Ret q s'" "ext r t s'"
      "if q = 0 then j = 1 else q = - 1 \<and> j = 0 \<and> free_pages s' = []"
      "\<forall>vb < MAXVA. pte_of (phys s') r vb = (if in_pages ?va j vb then mapped_pte ?va pg (PTE_W OR PTE_U OR PTE_R) vb else pte_of (phys t) r vb)"
      using mappages_maps [OF it page_aligned_PGROUNDDOWN _ rng un', of pg "PTE_W OR PTE_U OR PTE_R"]
      by (simp only: less_one of_nat_1 mult_1 zero_less_one simp_thms) blast
    have mpte: "PGROUNDDOWN vb = ?va \<Longrightarrow> mapped_pte ?va pg p vb = PA2PTE pg OR p OR PTE_V" for vb p
      by (simp add: mapped_pte_def)
    have nf: "pg \<notin> set (free_pages t)" using az(5,7) by simp
    note ep = ext_page [OF mp(2) it az(8,6) nf]
    have e: "ext r s s'" using az(4) mp(2) by (rule ext_trans)
    have i': "pt_inv r s'" using mp(2) by (simp add: ext_def)
    show ?thesis
    proof (cases "q = 0")
      case True
      then have "vmfault r psz va rd s = Ret pg s'" using st mp(1) by (simp add: kret_def)
      moreover have "phys s' b = 0" if "in_region pg 4096 b" for b
        using ep(1) [OF that] that by (simp add: t_def memset_eq)
      ultimately show ?thesis
        using e i' ep(2,3) mp(3,4) True ip az(3,10) mpte Cons by (auto simp: ext_def)
    next
      case False
      have v: "valid_page (kend s') pg" using az(9) e by (simp add: ext_def)
      note kf = kfree_unmapped [OF i' v ep(2,3)]
      have "vmfault r psz va rd s = Ret 0 (kfree_eff pg s')"
        using st mp(1) False kf(1) by (simp add: kret_def)
      moreover have "phys (kfree_eff pg s') b = phys s b"
        if "\<forall>x \<in> tabs (phys s) r \<union> set (free_pages s). \<not> in_region x 4096 b" for b
        using that kf(6) [of b] e Cons by (simp add: ext_def)
      ultimately show ?thesis using kf(2,3) mp(3,4) False az(10) by (auto simp: in_pages_def)
    qed
  qed
qed

subsection \<open>An empty page table\<close>

lemma pt_zero:
  assumes z: "\<And>b. in_region r 4096 b \<Longrightarrow> m b = 0" and v: "valid_page e r"
  shows "tabs m r = {r}" and "pt_ok e m r" and "pte_of m r va = 0"
proof -
  have n: "j < 512 \<Longrightarrow> load64 m (pte_at r j) = 0" for j
    using z in_slot_page(1) by (intro load64_zero) blast
  have t: "ptpath P \<Longrightarrow> tab m r P = (if P = [] then Some r else None)" for P
    by (induction P) (auto simp: node_def n)
  show ts: "tabs m r = {r}" unfolding tabs_def by (auto simp: t cong: conj_cong split: if_splits intro: exI [of _ "[]"])
  show "pt_ok e m r" unfolding pt_ok_def ts using v by (auto simp: t split: if_splits)
  show "pte_of m r va = 0" using t [OF path_vpath(1), of va] by (auto simp: pte_of_def vpath_def)
qed

text \<open>A small machine: an empty page table at \<open>0x80100000\<close> and three free pages behind it.\<close>

definition demo_free :: kmem_state where
  "demo_free = \<lparr>core = core0, phys = (\<lambda>_. 0), freelist = 0, kend = 0x80020000\<rparr>"

definition demo :: kmem_state where
  "demo = kfree_eff 0x80101000 (kfree_eff 0x80102000 (kfree_eff 0x80103000 demo_free))"

lemma demo_page: "p \<in> {0x80100000, 0x80101000, 0x80102000, 0x80103000} \<Longrightarrow> valid_page 0x80020000 p"
  by (auto simp: valid_page_def page_aligned_def PGSIZE_def PHYSTOP_def KERNBASE_def)

lemma kfree_step:
  assumes "pt_inv r s" "kend s = e" "valid_page e p" "p \<notin> tabs (phys s) r" "p \<notin> set (free_pages s)"
  shows "pt_inv r (kfree_eff p s) \<and> kend (kfree_eff p s) = e \<and> tabs (phys (kfree_eff p s)) r = tabs (phys s) r \<and>
     free_pages (kfree_eff p s) = p # free_pages s \<and>
     (\<forall>va. pte_of (phys (kfree_eff p s)) r va = pte_of (phys s) r va)"
  using kfree_unmapped [OF assms(1) _ assms(4,5)] assms(2,3) by simp

lemma demo_facts:
  "pt_inv 0x80100000 demo \<and> free_pages demo = [0x80101000, 0x80102000, 0x80103000] \<and>
   (\<forall>va. pte_of (phys demo) 0x80100000 va = 0)"
proof -
  have f: "free_pages demo_free = []" by (rule free_pages_eq) (simp add: demo_free_def)
  have d0: "tabs (phys demo_free) 0x80100000 = {0x80100000}" "pt_ok 0x80020000 (phys demo_free) 0x80100000"
    "\<forall>va. pte_of (phys demo_free) 0x80100000 va = 0"
    using pt_zero [of "0x80100000" "phys demo_free" "0x80020000"] demo_page by (simp_all add: demo_free_def)
  have "kmem_ready demo_free"
    using f by (simp add: kmem_ready_def kmem_inv_iff chain_ok_def) (simp add: demo_free_def)
  then have i: "pt_inv 0x80100000 demo_free" "kend demo_free = 0x80020000"
    using d0 f by (simp_all add: pt_inv_def demo_free_def)
  note d1 = kfree_step [OF i demo_page [of "0x80103000"], unfolded d0 f, simplified]
  have d2: "pt_inv 0x80100000 (kfree_eff 0x80102000 (kfree_eff 0x80103000 demo_free)) \<and>
     kend (kfree_eff 0x80102000 (kfree_eff 0x80103000 demo_free)) = 0x80020000 \<and>
     tabs (phys (kfree_eff 0x80102000 (kfree_eff 0x80103000 demo_free))) 0x80100000 = {0x80100000} \<and>
     free_pages (kfree_eff 0x80102000 (kfree_eff 0x80103000 demo_free)) = [0x80102000, 0x80103000] \<and>
     (\<forall>va. pte_of (phys (kfree_eff 0x80102000 (kfree_eff 0x80103000 demo_free))) 0x80100000 va = 0)"
    using kfree_step [of "0x80100000" "kfree_eff 0x80103000 demo_free" "0x80020000" "0x80102000"] d0 d1 i demo_page
    by simp
  with kfree_step [of "0x80100000" "kfree_eff 0x80102000 (kfree_eff 0x80103000 demo_free)" "0x80020000" "0x80101000"] demo_page
  show ?thesis by (simp add: demo_def)
qed

lemmas demo_inv = demo_facts [THEN conjunct1]
lemmas demo_pages = demo_facts [THEN conjunct2, THEN conjunct1]
lemmas demo_pte = demo_facts [THEN conjunct2, THEN conjunct2, rule_format]

theorem mappages_maps_witness:
  "\<exists>ret s' j. mappages 0x80100000 0x3000 (of_nat 2 * PGSIZE) 0x80200000 PTE_R demo = Ret ret s' \<and>
     (if ret = 0 then j = 2 else j < 2) \<and>
     (\<forall>vb < MAXVA. in_pages 0x3000 j vb \<longrightarrow> pte_of (phys s') 0x80100000 vb = mapped_pte 0x3000 0x80200000 PTE_R vb)"
  using mappages_maps [of "0x80100000" demo "0x3000" 2 "0x80200000" PTE_R] demo_inv
  by (simp add: demo_pte page_aligned_def PGSIZE_def) (metis (no_types))

theorem vmfault_maps_zero_page_witness:
  "\<exists>pa s'. vmfault 0x80100000 0x5000 0x4010 True demo = Ret pa s' \<and> pt_inv 0x80100000 s' \<and>
     (pa \<noteq> 0 \<longrightarrow> pa \<in> {0x80101000, 0x80102000, 0x80103000} \<and> (\<forall>b. in_region pa 4096 b \<longrightarrow> phys s' b = 0))"
proof -
  have "(0x4010 :: u64) < 0x5000" "(0x5000 :: u64) \<le> MAXVA" "\<not> pte_V (pte_of (phys demo) 0x80100000 0x4010)"
    by (simp_all add: demo_pte MAXVA_def)
  from vmfault_maps_zero_page [OF demo_inv this, of True] obtain pa s' where
    "vmfault 0x80100000 0x5000 0x4010 True demo = Ret pa s'" "pt_inv 0x80100000 s'"
    "pa \<noteq> 0 \<longrightarrow> pa \<in> set (free_pages demo) \<and> (\<forall>b. in_region pa 4096 b \<longrightarrow> phys s' b = 0)"
    by (metis (no_types))
  then show ?thesis by (auto simp: demo_pages)
qed

end
