(* ===== verification/Usercopy.thy ===== *)
theory Usercopy
  imports Pagetable
begin

text \<open>
  The copies between kernel and user memory on mapped memory: \<^verbatim>\<open>copyin\<close> reads, and \<^verbatim>\<open>copyout\<close>
  writes, exactly the bytes that the page table translates the user addresses to, across page
  boundaries, and a \<^verbatim>\<open>copyin\<close> after a \<^verbatim>\<open>copyout\<close> gets back what was written.
\<close>

subsection \<open>Translation\<close>

definition user_pte :: "u64 \<Rightarrow> bool" where
  "user_pte e \<longleftrightarrow> pte_V e \<and> e AND PTE_U \<noteq> 0 \<and> PTE2PA e \<noteq> 0"

text \<open>The physical address of a user byte.\<close>

definition uaddr :: "mem \<Rightarrow> u64 \<Rightarrow> u64 \<Rightarrow> u64" where
  "uaddr m r va = PTE2PA (pte_of m r va) + (va - PGROUNDDOWN va)"

lemma walkaddr_eq:
  assumes "pt_inv r s" "va < MAXVA"
  shows "walkaddr r va s = Ret (let e = pte_of (phys s) r va
     in if pte_V e \<and> e AND PTE_U \<noteq> 0 then PTE2PA e else 0) s"
  using walk_nonzero [OF assms(1), of va] assms(2)
  by (simp add: walkaddr_def walk_read [OF assms(2)] pte_of_def get_pte_def kret_def Let_def not_le [symmetric]
      split: option.split)

lemma PGROUNDDOWN_less: "va < MAXVA \<Longrightarrow> PGROUNDDOWN va < MAXVA"
  using unat_PGROUNDDOWN [of va] times_div_less_eq_dividend [of 4096 "unat va"] by (simp add: word_less_nat_alt)

lemma PGROUNDDOWN_idem [simp]: "PGROUNDDOWN (PGROUNDDOWN va) = PGROUNDDOWN va"
  by (rule page_aligned_PGROUNDDOWN_id) simp

lemma user_page_mapped:
  assumes "pt_inv r s" "va < MAXVA" "user_pte (pte_of (phys s) r va)"
  shows "user_page r psz (PGROUNDDOWN va) rd s = Ret (PTE2PA (pte_of (phys s) r va)) s"
proof -
  have "pte_of (phys s) r (PGROUNDDOWN va) = pte_of (phys s) r va" by (rule pte_of_page) simp
  then show ?thesis
    using assms walkaddr_eq [OF assms(1) PGROUNDDOWN_less [OF assms(2)]]
    by (simp add: user_page_def user_pte_def Let_def kret_def)
qed

subsection \<open>Chunks\<close>

lemma unat_page_offset: "unat (va - PGROUNDDOWN va) = unat va mod 4096"
proof -
  have "PGROUNDDOWN va \<le> va" by (simp add: word_le_nat_alt unat_PGROUNDDOWN)
  then show ?thesis by (simp add: unat_sub unat_PGROUNDDOWN minus_mult_div_eq_mod)
qed

lemma chunk_eq: "chunk va k = min (4096 - unat va mod 4096) k"
proof -
  have "unat va mod 4096 < 4096" by simp
  then have "va - PGROUNDDOWN va \<le> PGSIZE"
    by (simp add: word_le_nat_alt PGSIZE_def unat_page_offset)
  then have "unat (PGSIZE - (va - PGROUNDDOWN va)) = 4096 - unat va mod 4096"
    by (simp add: unat_sub unat_page_offset PGSIZE_def)
  then show ?thesis by (simp add: chunk_def)
qed

lemma unat_plus_nat: "unat (va :: u64) + k < 2 ^ 64 \<Longrightarrow> unat (va + of_nat k) = unat va + k"
  by (simp add: unat_word_ariths unat_of_nat_u64)

lemma same_chunk_page:
  assumes "k < chunk va n" "unat va + n \<le> 2 ^ 38"
  shows "PGROUNDDOWN (va + of_nat k) = PGROUNDDOWN va"
proof -
  have k: "k < 4096 - unat va mod 4096" "k < n" using assms(1) by (simp_all add: chunk_eq)
  then have "unat va mod 4096 + k < 4096" by simp
  moreover have "unat va = 4096 * (unat va div 4096) + unat va mod 4096" by simp
  ultimately have "4096 * (unat va div 4096) \<le> unat va + k" "unat va + k < 4096 * Suc (unat va div 4096)"
    unfolding mult_Suc_right by linarith+
  then have "(unat va + k) div 4096 = unat va div 4096" by (rule div_nat_eqI)
  moreover have "unat (va + of_nat k) = unat va + k" using assms(2) k(2) by (intro unat_plus_nat) simp
  ultimately show ?thesis by (simp add: word_unat_eq_iff unat_PGROUNDDOWN)
qed

lemma next_chunk:
  assumes "chunk va n < n" "unat va + n \<le> 2 ^ 38"
  shows "PGROUNDDOWN va + PGSIZE = va + of_nat (chunk va n)"
proof -
  have c: "chunk va n = 4096 - unat va mod 4096" using assms(1) by (simp add: chunk_eq min_def split: if_splits)
  then have "unat (va + of_nat (chunk va n)) = unat va + (4096 - unat va mod 4096)"
    using assms by (subst unat_plus_nat) auto
  moreover have "unat va = 4096 * (unat va div 4096) + unat va mod 4096" by simp
  moreover have "unat (PGROUNDDOWN va + PGSIZE) = 4096 * (unat va div 4096) + 4096"
    using unat_PGROUNDDOWN [of va] times_div_less_eq_dividend [of 4096 "unat va"] assms(2)
    by (simp add: PGSIZE_def unat_word_ariths)
  moreover have "unat va mod 4096 < 4096" by simp
  ultimately have "unat (PGROUNDDOWN va + PGSIZE) = unat (va + of_nat (chunk va n))" by linarith
  then show ?thesis by (simp only: word_unat_eq_iff)
qed

lemma upt_split: "c \<le> n \<Longrightarrow> map f [0..<n] = map f [0..<c] @ map (\<lambda>k. f (c + k)) [0..<n - c]"
proof -
  assume c: "c \<le> n"
  have "[0..<n] = [0..<c] @ map (\<lambda>k. k + c) [0..<n - c]"
    using c upt_add_eq_append [of 0 c "n - c"] by (simp add: map_add_upt)
  then show ?thesis by (simp add: comp_def add.commute)
qed

subsection \<open>Reading user memory\<close>

definition user_bytes :: "mem \<Rightarrow> u64 \<Rightarrow> u64 \<Rightarrow> nat \<Rightarrow> u8 list" where
  "user_bytes m r va n = map (\<lambda>k. m (uaddr m r (va + of_nat k))) [0..<n]"

definition user_range :: "mem \<Rightarrow> u64 \<Rightarrow> u64 \<Rightarrow> nat \<Rightarrow> bool" where
  "user_range m r va n \<longleftrightarrow> unat va + n \<le> 2 ^ 38 \<and> (\<forall>k < n. user_pte (pte_of m r (va + of_nat k)))"

lemma user_range_rest:
  assumes "user_range m r va n" "c \<le> n"
  shows "user_range m r (va + of_nat c) (n - c)"
proof -
  have "unat (va + of_nat c) + (n - c) \<le> 2 ^ 38"
    using assms by (subst unat_plus_nat) (auto simp: user_range_def)
  moreover have "user_pte (pte_of m r (va + of_nat c + of_nat k))" if "k < n - c" for k
  proof -
    have "c + k < n" using that by simp
    then have "user_pte (pte_of m r (va + of_nat (c + k)))" using assms(1) unfolding user_range_def by blast
    then show ?thesis by (simp add: add.assoc)
  qed
  ultimately show ?thesis by (simp add: user_range_def)
qed

lemma user_range_here:
  assumes "user_range m r va n" "0 < n"
  shows "user_pte (pte_of m r va)" "va < MAXVA"
proof -
  show "user_pte (pte_of m r va)" using assms by (auto simp: user_range_def dest: spec [where x = 0])
  show "va < MAXVA" using assms by (simp add: user_range_def MAXVA_def word_less_nat_alt)
qed

lemma uaddr_chunk:
  assumes "unat va + n \<le> 2 ^ 38" "k < chunk va n"
  shows "uaddr m r (va + of_nat k) = PTE2PA (pte_of m r va) + (va - PGROUNDDOWN va) + of_nat k"
proof -
  have p: "PGROUNDDOWN (va + of_nat k) = PGROUNDDOWN va" using assms by (intro same_chunk_page)
  then have "pte_of m r (va + of_nat k) = pte_of m r va" by (rule pte_of_page)
  with p show ?thesis by (simp add: uaddr_def algebra_simps)
qed

lemma chunk_bytes:
  assumes "user_range m r va n"
  shows "load_bytes m (PTE2PA (pte_of m r va) + (va - PGROUNDDOWN va)) (chunk va n) = user_bytes m r va (chunk va n)"
  using assms uaddr_chunk [of va n _ m r] by (auto simp: load_bytes_def user_bytes_def user_range_def)

lemma user_bytes_split:
  "c \<le> n \<Longrightarrow> user_bytes m r va n = user_bytes m r va c @ user_bytes m r (va + of_nat c) (n - c)"
  unfolding user_bytes_def by (subst upt_split [of c n]) (simp_all add: add.assoc)

lemma copyin_effect:
  assumes "pt_inv r s" "user_range (phys s) r va n"
  shows "copyin r psz va n s = Ret (0, user_bytes (phys s) r va n) s"
  using assms(2)
proof (induction n arbitrary: va rule: less_induct)
  case (less n)
  show ?case
  proof (cases "n = 0")
    case True
    then show ?thesis by (subst copyin.simps) (simp add: kret_def user_bytes_def)
  next
    case False
    note here = user_range_here [OF less.prems]
    let ?c = "chunk va n" and ?pa = "PTE2PA (pte_of (phys s) r va)"
    have c: "0 < ?c" "?c \<le> n" using False chunk_pos by (simp_all add: chunk_def)
    have up: "user_page r psz (PGROUNDDOWN va) True s = Ret ?pa s" "?pa \<noteq> 0"
      using user_page_mapped [OF assms(1)] here False by (simp_all add: user_pte_def)
    have rest: "copyin r psz (PGROUNDDOWN va + PGSIZE) (n - ?c) s =
        Ret (0, user_bytes (phys s) r (va + of_nat ?c) (n - ?c)) s"
    proof (cases "?c = n")
      case True
      then show ?thesis by (subst copyin.simps) (simp add: kret_def user_bytes_def)
    next
      case False
      then have "PGROUNDDOWN va + PGSIZE = va + of_nat ?c"
        using c less.prems by (intro next_chunk) (auto simp: user_range_def)
      with less.IH [of "n - ?c" "va + of_nat ?c"] user_range_rest [OF less.prems c(2)] c False show ?thesis by simp
    qed
    show ?thesis
      using False up rest chunk_bytes [OF less.prems] user_bytes_split [OF c(2), of "phys s" r va]
      by (subst copyin.simps) (simp add: kret_def)
  qed
qed

subsection \<open>Writing user memory\<close>

text \<open>
  \<open>user_writable\<close>: the range is mapped writable, to pages that are neither page tables nor free,
  and no two virtual pages of it share a physical page.
\<close>

definition user_writable :: "u64 \<Rightarrow> u64 \<Rightarrow> nat \<Rightarrow> 'z kmem_state_scheme \<Rightarrow> bool" where
  "user_writable r va n s \<longleftrightarrow> user_range (phys s) r va n \<and>
     (\<forall>k < n. let e = pte_of (phys s) r (va + of_nat k) in
        e AND PTE_W \<noteq> 0 \<and> PTE2PA e \<notin> tabs (phys s) r \<and> PTE2PA e \<notin> set (free_pages s) \<and>
        (\<forall>l < n. PTE2PA (pte_of (phys s) r (va + of_nat l)) = PTE2PA e \<longrightarrow>
           PGROUNDDOWN (va + of_nat l) = PGROUNDDOWN (va + of_nat k)))"

lemma user_writable_here:
  assumes "user_writable r va n s" "0 < n"
  shows "pte_of (phys s) r va AND PTE_W \<noteq> 0" "PTE2PA (pte_of (phys s) r va) \<notin> tabs (phys s) r"
    "PTE2PA (pte_of (phys s) r va) \<notin> set (free_pages s)"
proof -
  have "let e = pte_of (phys s) r (va + of_nat 0) in
        e AND PTE_W \<noteq> 0 \<and> PTE2PA e \<notin> tabs (phys s) r \<and> PTE2PA e \<notin> set (free_pages s)"
    using assms unfolding user_writable_def Let_def by blast
  then show "pte_of (phys s) r va AND PTE_W \<noteq> 0" "PTE2PA (pte_of (phys s) r va) \<notin> tabs (phys s) r"
    "PTE2PA (pte_of (phys s) r va) \<notin> set (free_pages s)" by (simp_all add: Let_def)
qed

lemma user_writable_mono:
  assumes w: "user_writable r va n s" and m: "m \<le> n"
  shows "user_writable r va m s"
proof -
  have "user_range (phys s) r va m" using w m by (simp add: user_writable_def user_range_def)
  moreover have "k < n" if "k < m" for k using that m by simp
  ultimately show ?thesis using w unfolding user_writable_def Let_def by blast
qed

lemma store_bytes_eq:
  assumes "length bs < 2 ^ 64"
  shows "store_bytes m a bs b = (if in_region a (length bs) b then bs ! unat (b - a) else m b)"
  using assms
proof (induction bs arbitrary: m a)
  case Nil
  then show ?case by (simp add: in_region_def)
next
  case (Cons x bs)
  have IH: "store_bytes (m(a := x)) (a + 1) bs b =
      (if in_region (a + 1) (length bs) b then bs ! unat (b - (a + 1)) else (m(a := x)) b)"
    using Cons by simp
  have r: "in_region a (Suc (length bs)) b \<longleftrightarrow> b = a \<or> in_region (a + 1) (length bs) b"
    using Cons.prems by (intro in_region_Suc) simp
  show ?case
  proof (cases "b = a")
    case True
    have "a - (a + 1) = (- 1 :: u64)" by simp
    then have "\<not> in_region (a + 1) (length bs) a"
      using Cons.prems unat_minus_one_u64 unfolding in_region_def by (simp only: list.size)
    with True IH r show ?thesis by simp
  next
    case False
    then have "b - a \<noteq> 0" by simp
    then have "unat (b - a - 1) = unat (b - a) - 1" "0 < unat (b - a)"
      by (rule unat_minus_one, simp only: unat_gt_0 simp_thms)
    moreover have "b - (a + 1) = b - a - 1" by (simp only: diff_diff_eq)
    ultimately have "unat (b - a) = Suc (unat (b - (a + 1)))" by (simp only: Suc_pred)
    with False IH r show ?thesis by simp
  qed
qed

lemma PTE2PA_aligned: "page_aligned (PTE2PA e)"
proof -
  have "PGROUNDDOWN (PTE2PA e) = PTE2PA e"
    by (rule bit_eqI) (auto simp: PGROUNDDOWN_shift PTE2PA_def bit_simps)
  then show ?thesis using page_aligned_PGROUNDDOWN [of "PTE2PA e"] by simp
qed

lemma uaddr_page: "in_region (PTE2PA (pte_of m r va)) 4096 (uaddr m r va)"
  by (simp add: in_region_def uaddr_def unat_page_offset)

lemma uaddr_inj:
  assumes "user_writable r va n s" "k < n" "l < n" "uaddr (phys s) r (va + of_nat k) = uaddr (phys s) r (va + of_nat l)"
  shows "k = l"
proof -
  let ?pk = "PTE2PA (pte_of (phys s) r (va + of_nat k))" and ?pl = "PTE2PA (pte_of (phys s) r (va + of_nat l))"
  have "?pk = ?pl"
    using page_unique [OF PTE2PA_aligned PTE2PA_aligned uaddr_page] uaddr_page assms(4) by metis
  then have pg: "PGROUNDDOWN (va + of_nat k) = PGROUNDDOWN (va + of_nat l)"
    using assms(1-3) unfolding user_writable_def Let_def by metis
  with \<open>?pk = ?pl\<close> assms(4) have "va + of_nat k = va + of_nat l" by (simp add: uaddr_def)
  then have "(of_nat k :: u64) = of_nat l" by simp
  then have "unat (of_nat k :: u64) = unat (of_nat l :: u64)" by simp
  then show ?thesis
    using assms(1-3) by (simp add: unat_of_nat_u64 user_writable_def user_range_def)
qed

lemma data_write:
  assumes inv: "pt_inv r s" and p: "page_aligned p" "p \<notin> tabs (phys s) r" "p \<notin> set (free_pages s)"
    and out: "\<And>b. \<not> in_region p 4096 b \<Longrightarrow> m' b = phys s b"
  shows "pt_inv r (s\<lparr>phys := m'\<rparr>)" "free_pages (s\<lparr>phys := m'\<rparr>) = free_pages s" "tabs m' r = tabs (phys s) r"
    "pte_of m' r va = pte_of (phys s) r va"
proof -
  have fr: "m' b = phys s b" if "x \<in> tabs (phys s) r \<union> set (free_pages s)" "in_region x 4096 b" for x b
    using out tabs_page_disjoint [OF inv p _ that(1), of b] that(2) by blast
  note pf = pt_frame [of "phys s" r m', OF fr]
  show tb: "tabs m' r = tabs (phys s) r" by (rule pf(1)) simp_all
  show "pte_of m' r va = pte_of (phys s) r va" by (rule pf(3)) simp_all
  have "pt_ok (kend s) m' r = pt_ok (kend s) (phys s) r" by (rule pf(2)) simp_all
  then have ok: "pt_ok (kend s) m' r" using inv by (simp add: pt_inv_def)
  have k: "kmem_inv s" using inv by (simp add: pt_inv_def kmem_ready_def)
  have "kmem_inv (s\<lparr>phys := m'\<rparr>)" and fp: "free_pages (s\<lparr>phys := m'\<rparr>) = free_pages s"
    by (rule kmem_frame [OF k]; use fr in auto)+
  then show "pt_inv r (s\<lparr>phys := m'\<rparr>)" "free_pages (s\<lparr>phys := m'\<rparr>) = free_pages s"
    using inv ok tb by (simp_all add: pt_inv_def kmem_ready_def)
qed

lemma write_chunk:
  assumes inv: "pt_inv r s" and w: "user_writable r va n s" and n: "length bs = n" "0 < n"
  defines "c \<equiv> chunk va n"
  defines "m' \<equiv> store_bytes (phys s) (PTE2PA (pte_of (phys s) r va) + (va - PGROUNDDOWN va)) (take c bs)"
  shows "pt_inv r (s\<lparr>phys := m'\<rparr>)" and "free_pages (s\<lparr>phys := m'\<rparr>) = free_pages s" and "tabs m' r = tabs (phys s) r"
    and "\<And>vb. pte_of m' r vb = pte_of (phys s) r vb"
    and "\<And>k. k < c \<Longrightarrow> m' (uaddr (phys s) r (va + of_nat k)) = bs ! k"
    and "\<And>b. (\<And>k. k < c \<Longrightarrow> b \<noteq> uaddr (phys s) r (va + of_nat k)) \<Longrightarrow> m' b = phys s b"
proof -
  let ?p = "PTE2PA (pte_of (phys s) r va)" and ?a = "PTE2PA (pte_of (phys s) r va) + (va - PGROUNDDOWN va)"
  have u: "unat va + n \<le> 2 ^ 38" using w by (simp add: user_writable_def user_range_def)
  have c: "c \<le> n" "c \<le> 4096 - unat va mod 4096" by (simp_all add: c_def chunk_eq)
  have len: "length (take c bs) = c" "c < 2 ^ 64" using c u n by simp_all
  have st: "m' b = (if in_region ?a c b then (take c bs) ! unat (b - ?a) else phys s b)" for b
    unfolding m'_def using store_bytes_eq [of "take c bs"] len by simp
  have ua: "uaddr (phys s) r (va + of_nat k) = ?a + of_nat k" if "k < c" for k
    using uaddr_chunk [OF u] that by (simp add: c_def)
  have pp: "?p \<notin> tabs (phys s) r" "?p \<notin> set (free_pages s)" using user_writable_here [OF w n(2)] by simp_all
  have "in_region ?p 4096 b" if "in_region ?a c b" for b
  proof -
    obtain k where k: "k < c" "b = ?a + of_nat k" using \<open>in_region ?a c b\<close> by (rule in_regionE)
    have "b - ?p = (va - PGROUNDDOWN va) + of_nat k" using k(2) by (simp add: algebra_simps)
    moreover have "unat ((va - PGROUNDDOWN va) + of_nat k) = unat va mod 4096 + k"
      using k(1) len(2) c(2) unat_page_offset [of va] by (subst unat_plus_nat) auto
    ultimately show ?thesis using k(1) c(2) by (simp add: in_region_def)
  qed
  then have out: "m' b = phys s b" if "\<not> in_region ?p 4096 b" for b using that by (auto simp: st)
  note dw = data_write [OF inv PTE2PA_aligned pp out]
  show "pt_inv r (s\<lparr>phys := m'\<rparr>)" "free_pages (s\<lparr>phys := m'\<rparr>) = free_pages s" "tabs m' r = tabs (phys s) r"
    "\<And>vb. pte_of m' r vb = pte_of (phys s) r vb"
    by (rule dw; assumption)+
  show "m' (uaddr (phys s) r (va + of_nat k)) = bs ! k" if "k < c" for k
    using that len(2) ua [OF that] by (simp add: st in_region_offset unat_of_nat_u64)
  show "m' b = phys s b" if "\<And>k. k < c \<Longrightarrow> b \<noteq> uaddr (phys s) r (va + of_nat k)" for b
    using that ua by (auto simp: st elim!: in_regionE)
qed

lemma user_writable_rest:
  assumes w: "user_writable r va n s" and c: "c \<le> n"
    and same: "\<And>vb. pte_of (phys t) r vb = pte_of (phys s) r vb" "tabs (phys t) r = tabs (phys s) r" "free_pages t = free_pages s"
  shows "user_writable r (va + of_nat c) (n - c) t"
proof -
  have "user_range (phys t) r (va + of_nat c) (n - c)"
    using user_range_rest [of "phys s" r va n c] w c same(1) by (simp add: user_writable_def user_range_def)
  moreover have "let e = pte_of (phys t) r (va + of_nat c + of_nat k) in
        e AND PTE_W \<noteq> 0 \<and> PTE2PA e \<notin> tabs (phys t) r \<and> PTE2PA e \<notin> set (free_pages t) \<and>
        (\<forall>l < n - c. PTE2PA (pte_of (phys t) r (va + of_nat c + of_nat l)) = PTE2PA e \<longrightarrow>
           PGROUNDDOWN (va + of_nat c + of_nat l) = PGROUNDDOWN (va + of_nat c + of_nat k))" if k: "k < n - c" for k
  proof -
    have "va + of_nat c + of_nat l = va + of_nat (c + l)" for l by (simp add: add.assoc)
    moreover have "c + l < n" if "l < n - c" for l using that by simp
    ultimately show ?thesis using w k unfolding user_writable_def Let_def same by metis
  qed
  ultimately show ?thesis unfolding user_writable_def by blast
qed

lemma copyout_effect:
  assumes "pt_inv r s" "user_writable r va (length bs) s"
  shows "\<exists>m'. copyout r psz va bs s = Ret 0 (s\<lparr>phys := m'\<rparr>) \<and> pt_inv r (s\<lparr>phys := m'\<rparr>) \<and>
     (\<forall>vb. pte_of m' r vb = pte_of (phys s) r vb) \<and>
     tabs m' r = tabs (phys s) r \<and> free_pages (s\<lparr>phys := m'\<rparr>) = free_pages s \<and>
     (\<forall>k < length bs. m' (uaddr (phys s) r (va + of_nat k)) = bs ! k) \<and>
     (\<forall>b. (\<forall>k < length bs. b \<noteq> uaddr (phys s) r (va + of_nat k)) \<longrightarrow> m' b = phys s b)"
  using assms
proof (induction "length bs" arbitrary: bs va s rule: less_induct)
  case less
  show ?case
  proof (cases "bs = []")
    case True
    then show ?thesis using less.prems by (subst copyout.simps) (auto simp: kret_def intro: exI [of _ "phys s"])
  next
    case False
    let ?n = "length bs"
    let ?c = "chunk va ?n" and ?e = "pte_of (phys s) r va"
    define m1 where "m1 = store_bytes (phys s) (PTE2PA ?e + (va - PGROUNDDOWN va)) (take ?c bs)"
    let ?s1 = "s\<lparr>phys := m1\<rparr>"
    have n: "0 < ?n" using False by simp
    have rng: "user_range (phys s) r va ?n" using less.prems(2) by (simp add: user_writable_def)
    note here = user_range_here [OF rng n]
    note wc = write_chunk [OF less.prems refl n, folded m1_def]
    have c: "0 < ?c" "?c \<le> ?n" using chunk_pos [OF n] by (simp, simp add: chunk_def)
    have up: "user_page r psz (PGROUNDDOWN va) False s = Ret (PTE2PA ?e) s" "PTE2PA ?e \<noteq> 0"
      using user_page_mapped [OF less.prems(1) here(2,1)] here(1) by (simp_all add: user_pte_def)
    have lt: "PGROUNDDOWN va < MAXVA" using here(2) by (rule PGROUNDDOWN_less)
    have pe: "pte_of (phys s) r (PGROUNDDOWN va) = ?e" by (rule pte_of_page) simp
    have W: "?e AND PTE_W \<noteq> 0" using user_writable_here(1) [OF less.prems(2) n] .
    have "pte_V ?e" using here(1) by (simp add: user_pte_def)
    then obtain y where y: "tab (phys s) r (vpath (PGROUNDDOWN va)) = Some y"
      using pe by (cases "tab (phys s) r (vpath (PGROUNDDOWN va))") (auto simp: pte_of_def)
    have wk: "walk r (PGROUNDDOWN va) False s = Ret (pte_at y (PX 0 (PGROUNDDOWN va))) s"
      "pte_at y (PX 0 (PGROUNDDOWN va)) \<noteq> 0" "load64 (phys s) (pte_at y (PX 0 (PGROUNDDOWN va))) = ?e"
      using y walk_read [OF lt, of r s] walk_nonzero [OF less.prems(1) y] pte_of_tab [OF y] pe by simp_all
    have step: "copyout r psz va bs s = copyout r psz (PGROUNDDOWN va + PGSIZE) (drop ?c bs) ?s1"
      using False up lt wk W by (subst copyout.simps) (simp add: get_pte_def not_le [symmetric] m1_def)
    show ?thesis
    proof (cases "?c = ?n")
      case True
      then have "copyout r psz va bs s = Ret 0 ?s1" using step by (subst (asm) (2) copyout.simps) (simp add: kret_def)
      with wc True show ?thesis by auto
    next
      case False
      have nx: "PGROUNDDOWN va + PGSIZE = va + of_nat ?c"
        using c False rng by (intro next_chunk) (auto simp: user_range_def)
      have w1: "user_writable r (va + of_nat ?c) (length (drop ?c bs)) ?s1"
        using user_writable_rest [OF less.prems(2) c(2), of ?s1] wc by simp
      have "\<exists>m'. copyout r psz (va + of_nat ?c) (drop ?c bs) ?s1 = Ret 0 (?s1\<lparr>phys := m'\<rparr>) \<and> pt_inv r (?s1\<lparr>phys := m'\<rparr>) \<and>
         (\<forall>vb. pte_of m' r vb = pte_of (phys ?s1) r vb) \<and>
         tabs m' r = tabs (phys ?s1) r \<and> free_pages (?s1\<lparr>phys := m'\<rparr>) = free_pages ?s1 \<and>
         (\<forall>k < length (drop ?c bs). m' (uaddr (phys ?s1) r (va + of_nat ?c + of_nat k)) = drop ?c bs ! k) \<and>
         (\<forall>b. (\<forall>k < length (drop ?c bs). b \<noteq> uaddr (phys ?s1) r (va + of_nat ?c + of_nat k)) \<longrightarrow> m' b = phys ?s1 b)"
        by (rule less.hyps [OF _ wc(1) w1]) (use c n in simp)
      then obtain m' where m': "copyout r psz (va + of_nat ?c) (drop ?c bs) ?s1 = Ret 0 (?s1\<lparr>phys := m'\<rparr>)"
        "pt_inv r (?s1\<lparr>phys := m'\<rparr>)" "\<And>vb. pte_of m' r vb = pte_of (phys ?s1) r vb"
        "\<And>k. k < ?n - ?c \<Longrightarrow> m' (uaddr (phys ?s1) r (va + of_nat ?c + of_nat k)) = drop ?c bs ! k"
        "\<And>b. (\<And>k. k < ?n - ?c \<Longrightarrow> b \<noteq> uaddr (phys ?s1) r (va + of_nat ?c + of_nat k)) \<Longrightarrow> m' b = phys ?s1 b"
        "tabs m' r = tabs (phys ?s1) r" "free_pages (?s1\<lparr>phys := m'\<rparr>) = free_pages ?s1"
        by auto
      have ua: "uaddr m1 r v = uaddr (phys s) r v" for v using wc(4) by (simp add: uaddr_def)
      have as: "va + of_nat ?c + of_nat k = va + of_nat (?c + k)" for k by (simp add: add.assoc)
      have byte: "m' (uaddr (phys s) r (va + of_nat k)) = bs ! k" if k: "k < ?n" for k
      proof (cases "k < ?c")
        case True
        have "uaddr (phys s) r (va + of_nat k) \<noteq> uaddr (phys s) r (va + of_nat (?c + l))" if "l < ?n - ?c" for l
        proof
          assume "uaddr (phys s) r (va + of_nat k) = uaddr (phys s) r (va + of_nat (?c + l))"
          moreover have "?c + l < ?n" using that by linarith
          ultimately have "k = ?c + l" using uaddr_inj [OF less.prems(2) k] by blast
          with True show False by simp
        qed
        then have "m' (uaddr (phys s) r (va + of_nat k)) = m1 (uaddr (phys s) r (va + of_nat k))"
          using m'(5) [of "uaddr (phys s) r (va + of_nat k)"] by (simp add: ua as)
        with wc(5) [OF True] show ?thesis by simp
      next
        case False
        then have "?c + (k - ?c) = k" "k - ?c < ?n - ?c" using k by simp_all
        with m'(4) [of "k - ?c"] show ?thesis by (simp add: ua as)
      qed
      have keep: "m' b = phys s b" if b: "\<forall>k < ?n. b \<noteq> uaddr (phys s) r (va + of_nat k)" for b
      proof -
        have "b \<noteq> uaddr (phys ?s1) r (va + of_nat ?c + of_nat k)" if "k < ?n - ?c" for k
        proof -
          have "?c + k < ?n" using that by linarith
          with b have "b \<noteq> uaddr (phys s) r (va + of_nat (?c + k))" by blast
          then show ?thesis by (simp add: ua as)
        qed
        then have "m' b = m1 b" using m'(5) [of b] by simp
        also have "\<dots> = phys s b" using wc(6) [of b] b c(2) by auto
        finally show ?thesis .
      qed
      show ?thesis using m'(1-3,6,7) wc(2-4) step nx byte keep by auto
    qed
  qed
qed

text \<open>
  \<^verbatim>\<open>copyin\<close> of \<open>n\<close> bytes of mapped user memory returns 0 and the bytes of the pages that the
  page table translates the addresses to, in order and across page boundaries; the state of
  the kernel does not change.
\<close>

theorem copyin_reads:
  assumes "pt_inv r s" "user_range (phys s) r va n"
  shows "copyin r psz va n s = Ret (0, user_bytes (phys s) r va n) s"
  using assms by (rule copyin_effect)

text \<open>
  \<^verbatim>\<open>copyout\<close> to mapped, writable user memory returns 0. Afterwards the user bytes are the bytes
  of the source, no other byte of memory has changed, and neither has the page table.
\<close>

theorem copyout_writes:
  assumes "pt_inv r s" "user_writable r va (length bs) s"
  shows "\<exists>m'. copyout r psz va bs s = Ret 0 (s\<lparr>phys := m'\<rparr>) \<and> pt_inv r (s\<lparr>phys := m'\<rparr>) \<and>
     (\<forall>vb. pte_of m' r vb = pte_of (phys s) r vb) \<and>
     (\<forall>k < length bs. m' (uaddr (phys s) r (va + of_nat k)) = bs ! k) \<and>
     (\<forall>b. (\<forall>k < length bs. b \<noteq> uaddr (phys s) r (va + of_nat k)) \<longrightarrow> m' b = phys s b)"
  using copyout_effect [OF assms] by blast

text \<open>
  C9. What \<^verbatim>\<open>copyout\<close> has written, \<^verbatim>\<open>copyin\<close> of the same range reads back.
\<close>

theorem copyin_after_copyout:
  assumes "pt_inv r s" "user_writable r va (length bs) s"
  shows "\<exists>s'. copyout r psz va bs s = Ret 0 s' \<and> copyin r psz va (length bs) s' = Ret (0, bs) s'"
proof -
  have w: "\<exists>m'. copyout r psz va bs s = Ret 0 (s\<lparr>phys := m'\<rparr>) \<and> pt_inv r (s\<lparr>phys := m'\<rparr>) \<and>
     (\<forall>vb. pte_of m' r vb = pte_of (phys s) r vb) \<and>
     (\<forall>k < length bs. m' (uaddr (phys s) r (va + of_nat k)) = bs ! k)"
    using copyout_effect [OF assms] by blast
  then obtain m' where m': "copyout r psz va bs s = Ret 0 (s\<lparr>phys := m'\<rparr>)" "pt_inv r (s\<lparr>phys := m'\<rparr>)"
    "\<And>vb. pte_of m' r vb = pte_of (phys s) r vb"
    "\<And>k. k < length bs \<Longrightarrow> m' (uaddr (phys s) r (va + of_nat k)) = bs ! k" by blast
  have "user_range m' r va (length bs)"
    using assms(2) m'(3) by (simp add: user_writable_def user_range_def)
  then have "copyin r psz va (length bs) (s\<lparr>phys := m'\<rparr>) = Ret (0, user_bytes m' r va (length bs)) (s\<lparr>phys := m'\<rparr>)"
    using copyin_effect [OF m'(2)] by simp
  moreover have "user_bytes m' r va (length bs) = bs"
    using m'(3,4) by (intro nth_equalityI) (simp_all add: user_bytes_def uaddr_def)
  ultimately show ?thesis using m'(1) by simp
qed

text \<open>A machine whose page table maps the first page of user memory.\<close>

definition demo_mem :: mem where
  "demo_mem = store64 (fill (fill (\<lambda>_. 0) 0x80100000 0 0x80101000) 0x80101000 0 0x80102000) (pte_at 0x80102000 0)
     (PA2PTE 0x80103000 OR (PTE_W OR PTE_U OR PTE_R OR PTE_V))"

definition demo_user :: kmem_state where
  "demo_user = \<lparr>core = core0, phys = demo_mem, freelist = 0, kend = 0x80020000\<rparr>"

lemma demo_user_facts:
  "pt_inv 0x80100000 demo_user \<and> tabs demo_mem 0x80100000 \<subseteq> {0x80100000, 0x80101000, 0x80102000} \<and>
   pte_of demo_mem 0x80100000 0 = PA2PTE 0x80103000 OR (PTE_W OR PTE_U OR PTE_R OR PTE_V) \<and> free_pages demo_user = []"
proof -
  let ?m1 = "fill (\<lambda>_. 0) 0x80100000 0 0x80101000"
  let ?m2 = "fill ?m1 0x80101000 0 0x80102000"
  have f1: "fill_step 0x80020000 (\<lambda>_. 0) 0x80100000 [] 0x80100000 0 0x80101000"
    using pt_zero [of "0x80100000" "\<lambda>_. 0" "0x80020000"] demo_page load64_zero [of _ "\<lambda>_. 0"]
    by (simp add: fill_step_def)
  have t1: "tabs ?m1 0x80100000 \<subseteq> {0x80101000, 0x80100000}"
    using tabs_fill [OF f1] pt_zero(1) [of "0x80100000" "\<lambda>_. 0" "0x80020000"] demo_page by simp
  have f2: "fill_step 0x80020000 ?m1 0x80100000 [0] 0x80101000 0 0x80102000"
    unfolding fill_step_def
    using pt_ok_fill [OF f1] tab_new [OF f1] load_new [OF f1, of 0] t1 demo_page [of "0x80102000"]
    by (auto simp del: tab.simps)
  have t2: "tabs ?m2 0x80100000 \<subseteq> {0x80102000, 0x80101000, 0x80100000}"
    using tabs_fill [OF f2] t1 by blast
  have vp: "vpath 0 = [0, 0]" "PX 0 0 = 0" by (simp_all add: vpath_def PX_def)
  have y: "tab ?m2 0x80100000 (vpath 0) = Some 0x80102000" using tab_new [OF f2] by (simp only: vp)
  note lw = leaf_write [OF pt_ok_fill [OF f2] y, of _ "PA2PTE 0x80103000 OR (PTE_W OR PTE_U OR PTE_R OR PTE_V)", unfolded vp, folded demo_mem_def]
  have m0: "(0 :: u64) < MAXVA" by (simp add: MAXVA_def)
  have tb: "tabs demo_mem 0x80100000 = tabs ?m2 0x80100000"
    unfolding tabs_def using lw(1) [OF m0] by auto
  have "pt_ok 0x80020000 demo_mem 0x80100000"
    using pt_ok_fill [OF f2] unfolding pt_ok_def tb by (simp add: lw(1) [OF m0] cong: conj_cong)
  moreover have fp: "free_pages demo_user = []" by (rule free_pages_eq) (simp add: demo_user_def)
  moreover have "kmem_ready demo_user"
    using fp by (simp add: kmem_ready_def kmem_inv_iff chain_ok_def) (simp add: demo_user_def)
  ultimately have "pt_inv 0x80100000 demo_user" by (simp add: pt_inv_def) (simp add: demo_user_def)
  moreover have "pte_of demo_mem 0x80100000 0 = PA2PTE 0x80103000 OR (PTE_W OR PTE_U OR PTE_R OR PTE_V)"
    using lw(2) [OF m0 m0] by simp
  ultimately show ?thesis using tb t2 fp by blast
qed

lemma demo_user_writable: "user_writable 0x80100000 0 5 demo_user"
proof -
  note d = demo_user_facts
  let ?e = "PA2PTE 0x80103000 OR (PTE_W OR PTE_U OR PTE_R OR PTE_V)"
  have ph: "phys demo_user = demo_mem" by (simp add: demo_user_def)
  have pg: "PGROUNDDOWN (of_nat k) = 0" if "k < 5" for k
    using same_chunk_page [of k 0 5] that by (simp add: chunk_eq PGROUNDDOWN_def)
  have p0: "PGROUNDDOWN 0 = 0" by (simp add: PGROUNDDOWN_def)
  have pt: "pte_of demo_mem 0x80100000 (of_nat k) = ?e" if "k < 5" for k
    using pte_of_page [of "of_nat k" 0 demo_mem "0x80100000"] pg [OF that] p0 d by simp
  have pa: "PTE2PA ?e = 0x80103000"
    using PTE2PA_PA2PTE [of "PTE_W OR PTE_U OR PTE_R OR PTE_V" "0x80103000"] demo_page [of "0x80103000"]
    by (simp add: page_aligned_PGROUNDDOWN_id valid_page_def)
  have fl: "pte_V ?e" "?e AND PTE_U \<noteq> 0" "?e AND PTE_W \<noteq> 0"
    by (simp_all add: pte_V_def PA2PTE_def PTE_U_def PTE_W_def PTE_R_def PTE_V_def)
  have "user_range demo_mem 0x80100000 0 5" using pt pa fl by (simp add: user_range_def user_pte_def)
  moreover have "0x80103000 \<notin> tabs demo_mem 0x80100000" using d by auto
  ultimately show ?thesis using pt pa fl pg d by (simp add: user_writable_def ph Let_def)
qed

theorem copyin_reads_witness:
  "copyin 0x80100000 0x1000 0 5 demo_user = Ret (0, user_bytes demo_mem 0x80100000 0 5) demo_user"
  using copyin_reads [of "0x80100000" demo_user 0 5 "0x1000"] demo_user_facts demo_user_writable
  by (simp add: user_writable_def) (simp add: demo_user_def)

theorem copyout_writes_witness:
  "\<exists>m'. copyout 0x80100000 0x1000 0 [104, 101, 108, 108, 111] demo_user = Ret 0 (demo_user\<lparr>phys := m'\<rparr>)"
  using copyout_writes [of "0x80100000" demo_user 0 "[104, 101, 108, 108, 111]" "0x1000"] demo_user_facts demo_user_writable
  by (auto simp: eval_nat_numeral)

theorem copyin_after_copyout_witness:
  "\<exists>s'. copyout 0x80100000 0x1000 0 [104, 101, 108, 108, 111] demo_user = Ret 0 s' \<and>
     copyin 0x80100000 0x1000 0 5 s' = Ret (0, [104, 101, 108, 108, 111]) s'"
  using copyin_after_copyout [of "0x80100000" demo_user 0 "[104, 101, 108, 108, 111]" "0x1000"] demo_user_facts demo_user_writable
  by (simp add: eval_nat_numeral)

end
