(* ===== verification/Pipe.thy ===== *)
theory Pipe
  imports Sched Usercopy
begin

text \<open>
  Pipes, \<^verbatim>\<open>kernel/pipe.c\<close> without \<^verbatim>\<open>pipealloc\<close> (which needs the file table). A pipe is a ring of 512
  bytes between two 32-bit counters that wrap around. Its bytes in transit are the list
  \<open>pipe_view\<close>; the locale \<open>fifo\<close> is interpreted on the statements that store and fetch one byte, and
  \<^verbatim>\<open>pipewrite\<close> and \<^verbatim>\<open>piperead\<close> are shown to append to and take from that list.

  Pipes are kept in a heap of their own, addressed by the page that \<^verbatim>\<open>kalloc\<close> returned.
\<close>

definition PIPESIZE :: u32 where "PIPESIZE = 512"

record pipe =
  pdata :: "u32 \<Rightarrow> u8"
  nread :: u32
  nwrite :: u32
  readopen :: bool
  writeopen :: bool

record pipe_state = sched_state +
  pipes :: "u64 \<Rightarrow> pipe"

definition upd_pipe :: "u64 \<Rightarrow> (pipe \<Rightarrow> pipe) \<Rightarrow> 'z pipe_state_scheme \<Rightarrow> 'z pipe_state_scheme" where
  "upd_pipe pi f s = s\<lparr>pipes := (pipes s)(pi := f (pipes s pi))\<rparr>"

subsection \<open>The routines\<close>

definition pipeclose :: "u64 \<Rightarrow> bool \<Rightarrow> 'z pipe_state_scheme \<Rightarrow> ('z pipe_state_scheme, unit) kres" where
  "pipeclose pi writable =
     kseq (acquire (PipeLock pi)) (
     kseq (if writable
           then kseq (kmod (upd_pipe pi (\<lambda>p. p\<lparr>writeopen := False\<rparr>))) (wakeup (Some (ChPipeRead pi)))
           else kseq (kmod (upd_pipe pi (\<lambda>p. p\<lparr>readopen := False\<rparr>))) (wakeup (Some (ChPipeWrite pi)))) (
     kbind (kget (\<lambda>s. pipes s pi)) (\<lambda>p.
     if \<not> readopen p \<and> \<not> writeopen p
     then kseq (release (PipeLock pi)) (kfree pi)
     else release (PipeLock pi))))"

text \<open>\<^verbatim>\<open>pi->data[pi->nwrite++ % PIPESIZE] = ch\<close>, and the fetch and the count of one byte.\<close>

definition pipe_put :: "u8 \<Rightarrow> pipe \<Rightarrow> pipe" where
  "pipe_put ch p = p\<lparr>pdata := (pdata p)(nwrite p mod PIPESIZE := ch), nwrite := nwrite p + 1\<rparr>"

definition pipe_get :: "pipe \<Rightarrow> u8" where
  "pipe_get p = pdata p (nread p mod PIPESIZE)"

definition pipe_adv :: "pipe \<Rightarrow> pipe" where
  "pipe_adv p = p\<lparr>nread := nread p + 1\<rparr>"

text \<open>
  The loops take one unit of fuel per turn; a turn moves a byte, returns, or sleeps. The
  result of \<open>pipewrite_loop\<close> is \<open>Inl r\<close> for a \<^verbatim>\<open>return r\<close> inside the loop and \<open>Inr i\<close> behind it.
\<close>

primrec pipewrite_loop ::
  "nat \<Rightarrow> u64 \<Rightarrow> u64 \<Rightarrow> int \<Rightarrow> nat \<Rightarrow> int \<Rightarrow> 'z pipe_state_scheme \<Rightarrow> ('z pipe_state_scheme, int + int) kres" where
  "pipewrite_loop 0 pi addr n pr i = (\<lambda>s. Loop)"
| "pipewrite_loop (Suc fuel) pi addr n pr i =
     (if \<not> i < n then kret (Inr i)
      else kbind (kget (\<lambda>s. readopen (pipes s pi))) (\<lambda>ro.
        kbind (if \<not> ro then kret True else kbind (killed pr) (\<lambda>k. kret (k \<noteq> 0))) (\<lambda>stop.
        if stop then kseq (release (PipeLock pi)) (kret (Inl (- 1)))
        else kbind (kget (\<lambda>s. pipes s pi)) (\<lambda>p.
          if nwrite p = nread p + PIPESIZE
          then kseq (wakeup (Some (ChPipeRead pi))) (
               kseq (sleep_prepare (Some (ChPipeWrite pi))) (
               kseq (release (PipeLock pi)) (
               kseq sleep (
               kseq (acquire (PipeLock pi)) (
               pipewrite_loop fuel pi addr n pr i)))))
          else kbind (kget (\<lambda>s. procs s pr)) (\<lambda>q.
            kbind (copyin (pagetable q) (sz q) (addr + word_of_int i) 1) (\<lambda>(r, bs).
            if r = - 1 then kret (Inr (if i = 0 then - 1 else i))
            else kseq (kmod (upd_pipe pi (pipe_put (hd bs)))) (
                 pipewrite_loop fuel pi addr n pr (i + 1))))))))"

definition pipewrite :: "nat \<Rightarrow> u64 \<Rightarrow> u64 \<Rightarrow> int \<Rightarrow> 'z pipe_state_scheme \<Rightarrow> ('z pipe_state_scheme, int) kres" where
  "pipewrite fuel pi addr n = with_proc (\<lambda>pr.
     kseq (acquire (PipeLock pi)) (
     kbind (pipewrite_loop fuel pi addr n pr 0) (\<lambda>r.
     case r of
       Inl r \<Rightarrow> kret r
     | Inr i \<Rightarrow> kseq (wakeup (Some (ChPipeRead pi))) (kseq (release (PipeLock pi)) (kret i)))))"

text \<open>The wait at the start of \<^verbatim>\<open>piperead\<close>: \<open>False\<close> if the reader was killed (and the lock released).\<close>

primrec piperead_wait :: "nat \<Rightarrow> u64 \<Rightarrow> nat \<Rightarrow> 'z pipe_state_scheme \<Rightarrow> ('z pipe_state_scheme, bool) kres" where
  "piperead_wait 0 pi pr = (\<lambda>s. Loop)"
| "piperead_wait (Suc fuel) pi pr =
     kbind (kget (\<lambda>s. pipes s pi)) (\<lambda>p.
     if \<not> (nread p = nwrite p \<and> writeopen p) then kret True
     else kbind (killed pr) (\<lambda>k.
       if k \<noteq> 0 then kseq (release (PipeLock pi)) (kret False)
       else kseq (sleep_prepare (Some (ChPipeRead pi))) (
            kseq (release (PipeLock pi)) (
            kseq sleep (
            kseq (acquire (PipeLock pi)) (
            piperead_wait fuel pi pr))))))"

text \<open>The \<^verbatim>\<open>for\<close> loop, with \<open>k\<close> turns left: it runs at most \<open>n\<close> times.\<close>

primrec piperead_copy :: "nat \<Rightarrow> u64 \<Rightarrow> u64 \<Rightarrow> nat \<Rightarrow> int \<Rightarrow> 'z pipe_state_scheme \<Rightarrow> ('z pipe_state_scheme, int) kres" where
  "piperead_copy 0 pi addr pr i = kret i"
| "piperead_copy (Suc k) pi addr pr i =
     kbind (kget (\<lambda>s. pipes s pi)) (\<lambda>p.
     if nread p = nwrite p then kret i
     else kbind (kget (\<lambda>s. procs s pr)) (\<lambda>q.
       kbind (copyout (pagetable q) (sz q) (addr + word_of_int i) [pipe_get p]) (\<lambda>r.
       if r = - 1 then kret (if i = 0 then - 1 else i)
       else kseq (kmod (upd_pipe pi pipe_adv)) (piperead_copy k pi addr pr (i + 1)))))"

definition piperead :: "nat \<Rightarrow> u64 \<Rightarrow> u64 \<Rightarrow> int \<Rightarrow> 'z pipe_state_scheme \<Rightarrow> ('z pipe_state_scheme, int) kres" where
  "piperead fuel pi addr n = with_proc (\<lambda>pr.
     kseq (acquire (PipeLock pi)) (
     kbind (piperead_wait fuel pi pr) (\<lambda>ok.
     if \<not> ok then kret (- 1)
     else kbind (piperead_copy (nat n) pi addr pr 0) (\<lambda>i.
       kseq (wakeup (Some (ChPipeWrite pi))) (
       kseq (release (PipeLock pi)) (kret i))))))"

subsection \<open>The bytes in transit\<close>

definition pipe_view :: "pipe \<Rightarrow> u8 list" where
  "pipe_view p = map (\<lambda>k. pdata p ((nread p + of_nat k) mod PIPESIZE)) [0..<unat (nwrite p - nread p)]"

definition pipe_inv :: "pipe \<Rightarrow> bool" where
  "pipe_inv p \<longleftrightarrow> unat (nwrite p - nread p) \<le> 512"

lemma length_pipe_view [simp]: "length (pipe_view p) = unat (nwrite p - nread p)"
  by (simp add: pipe_view_def)

text \<open>The full test of the code, and what it means for the list.\<close>

lemma pipe_full: "nwrite p = nread p + PIPESIZE \<longleftrightarrow> length (pipe_view p) = 512"
proof -
  have "nwrite p = nread p + PIPESIZE \<longleftrightarrow> nwrite p - nread p = PIPESIZE" by (simp add: algebra_simps)
  also have "\<dots> \<longleftrightarrow> unat (nwrite p - nread p) = 512" by (simp add: word_unat_eq_iff PIPESIZE_def)
  finally show ?thesis by simp
qed

lemma pipe_empty: "nread p = nwrite p \<longleftrightarrow> pipe_view p = []"
  by (auto simp: pipe_view_def unat_eq_0)

text \<open>When the size of the buffer divides the range of the counters, indices stay apart even when a counter wraps.\<close>

lemma u32_index_inj:
  fixes a N :: u32
  assumes N: "unat N dvd 2 ^ 32" and j: "j < unat N" and k: "k < unat N" and e: "(a + of_nat j) mod N = (a + of_nat k) mod N"
  shows "j = k"
proof -
  have m: "unat ((a + of_nat i) mod N) = (unat a + i) mod unat N" if "i < unat N" for i
  proof -
    have "i < 2 ^ 32" using that unsigned_less [of N, where 'a = nat] by simp
    then have "unat (a + of_nat i) = (unat a + i) mod 2 ^ 32"
      by (simp add: unat_word_ariths unat_of_nat take_bit_nat_def)
    then have "unat ((a + of_nat i) mod N) = (unat a + i) mod 2 ^ 32 mod unat N"
      by (simp add: unat_mod_distrib)
    also have "\<dots> = (unat a + i) mod unat N" using N by (simp add: mod_mod_cancel)
    finally show ?thesis .
  qed
  have "int ((unat a + j) mod unat N) = int ((unat a + k) mod unat N)" using m [OF j] m [OF k] e by simp
  then have "(int (unat a) + int j) mod int (unat N) = (int (unat a) + int k) mod int (unat N)"
    by (simp only: of_nat_add of_nat_mod)
  then have "int (unat N) dvd (int (unat a) + int j - (int (unat a) + int k))" by (simp only: mod_eq_dvd_iff)
  then have d: "int (unat N) dvd (int j - int k)" by (simp only: add_diff_cancel_left)
  have "\<bar>int j - int k\<bar> < int (unat N)" using j k by linarith
  with d dvd_imp_le_int [of "int j - int k" "int (unat N)"] show ?thesis by fastforce
qed

lemma pipe_index_inj:
  "j < 512 \<Longrightarrow> k < 512 \<Longrightarrow> ((a :: u32) + of_nat j) mod PIPESIZE = (a + of_nat k) mod PIPESIZE \<Longrightarrow> j = k"
  by (rule u32_index_inj [of PIPESIZE j k a]) (simp_all add: PIPESIZE_def)

lemma pipe_put_view:
  assumes "length (pipe_view p) < 512"
  shows "pipe_view (pipe_put c p) = pipe_view p @ [c]" "pipe_inv (pipe_put c p)"
proof -
  let ?n = "unat (nwrite p - nread p)"
  have n: "?n < 512" using assms by simp
  have s: "unat (nwrite p + 1 - nread p) = Suc ?n"
  proof -
    have "unat (d + 1) = Suc (unat d)" if "unat d < 512" for d :: u32 using that by (simp add: unat_word_ariths)
    from this [OF n] show ?thesis by (simp add: algebra_simps)
  qed
  have w: "nread p + of_nat ?n = nwrite p" by simp
  have "(nread p + of_nat k) mod PIPESIZE \<noteq> nwrite p mod PIPESIZE" if "k < ?n" for k
    using pipe_index_inj [of k ?n "nread p"] that n w by auto
  then show "pipe_view (pipe_put c p) = pipe_view p @ [c]"
    using w by (simp add: pipe_view_def pipe_put_def s)
  show "pipe_inv (pipe_put c p)" using n s by (simp add: pipe_inv_def pipe_put_def)
qed

lemma pipe_get_view:
  assumes "pipe_view p = c # cs" "pipe_inv p"
  shows "pipe_get p = c" "pipe_view (pipe_adv p) = cs" "pipe_inv (pipe_adv p)"
proof -
  let ?n = "unat (nwrite p - nread p)"
  obtain k where k: "?n = Suc k" using arg_cong [OF assms(1), of length] by auto
  have s: "unat (nwrite p - (nread p + 1)) = k"
  proof -
    have "nwrite p - nread p \<noteq> 0" using k by auto
    from unat_minus_one [OF this] show ?thesis using k by (simp add: diff_diff_eq)
  qed
  have u: "[0..<Suc k] = 0 # map Suc [0..<k]" by (simp add: map_Suc_upt upt_conv_Cons)
  have v: "pipe_view p = pdata p (nread p mod PIPESIZE) # map (\<lambda>j. pdata p ((nread p + of_nat (Suc j)) mod PIPESIZE)) [0..<k]"
    unfolding pipe_view_def k u by (simp add: comp_def)
  show "pipe_get p = c" using v assms(1) by (simp add: pipe_get_def)
  show "pipe_view (pipe_adv p) = cs" using v assms(1) by (simp add: pipe_view_def pipe_adv_def s add.assoc)
  show "pipe_inv (pipe_adv p)" using assms(2) k s by (simp add: pipe_inv_def pipe_adv_def)
qed

definition pipe_take :: "pipe \<Rightarrow> (pipe, u8 option) kres" where
  "pipe_take p = (if nread p = nwrite p then Ret None p else Ret (Some (pipe_get p)) (pipe_adv p))"

interpretation pipeq: fifo "\<lambda>c. kmod (pipe_put c)" pipe_take pipe_inv pipe_view "\<lambda>p c. length (pipe_view p) < 512"
proof unfold_locales
  fix p :: pipe and c :: u8 and cs :: "u8 list"
  show "\<exists>p'. kmod (pipe_put c) p = Ret () p' \<and> pipe_inv p' \<and> pipe_view p' = pipe_view p @ [c]"
    if "length (pipe_view p) < 512"
    using pipe_put_view [OF that, of c] by (simp add: kmod_def)
  show "pipe_take p = Ret None p" if "pipe_view p = []"
    using that pipe_empty [of p] by (simp add: pipe_take_def)
  show "\<exists>p'. pipe_take p = Ret (Some c) p' \<and> pipe_inv p' \<and> pipe_view p' = cs"
    if "pipe_inv p" "pipe_view p = c # cs"
    using pipe_get_view [OF that(2,1)] that pipe_empty [of p] by (simp add: pipe_take_def)
qed

subsection \<open>Writing\<close>

lemma fold_pipe_put:
  assumes "length (pipe_view p) + length cs \<le> 512" "pipe_inv p"
  shows "pipe_view (fold pipe_put cs p) = pipe_view p @ cs \<and> pipe_inv (fold pipe_put cs p)"
  using assms
proof (induction cs arbitrary: p)
  case (Cons c cs)
  note v = pipe_put_view [of p c]
  with Cons.prems have "pipe_view (pipe_put c p) = pipe_view p @ [c]" "pipe_inv (pipe_put c p)" by simp_all
  with Cons.IH [of "pipe_put c p"] Cons.prems show ?case by (simp del: length_pipe_view)
qed simp

lemma pipe_put_simps [simp]: "readopen (pipe_put c p) = readopen p" "writeopen (pipe_put c p) = writeopen p"
  by (simp_all add: pipe_put_def)

lemma upd_pipe_simps [simp]:
  "core (upd_pipe pi f s) = core s" "phys (upd_pipe pi f s) = phys s" "procs (upd_pipe pi f s) = procs s"
  "pipes (upd_pipe pi f s) = (pipes s)(pi := f (pipes s pi))" "kend (upd_pipe pi f s) = kend s"
  "freelist (upd_pipe pi f s) = freelist s"
  by (simp_all add: upd_pipe_def)

lemma pt_inv_cong:
  assumes "phys t = phys s" "freelist t = freelist s" "kend t = kend s" "cpu_ok (core t)" "free_lock KmemLock (core t)"
  shows "pt_inv r s \<Longrightarrow> pt_inv r t"
  using assms by (simp add: pt_inv_def kmem_ready_def kmem_inv_def free_pages_def)

lemma pt_inv_upd_pipe [simp]: "pt_inv r (upd_pipe pi f s) = pt_inv r s"
  by (simp add: pt_inv_def kmem_ready_def kmem_inv_def free_pages_def)

lemma table_ok_upd_pipe [simp]: "table_ok (upd_pipe pi f s) = table_ok s" "qview (upd_pipe pi f s) = qview s"
  by (simp_all add: upd_pipe_def table_ok_def mlfq_wf_def row_ok_def queued_def qview_def qcells_def fun_eq_iff)

lemma table_ok_mem [simp]:
  "table_ok (s\<lparr>phys := x\<rparr>) = table_ok s" "qview (s\<lparr>phys := x\<rparr>) = qview s"
  "table_ok (t\<lparr>pipes := y\<rparr>) = table_ok t" "qview (t\<lparr>pipes := y\<rparr>) = qview t"
  by (simp_all add: table_ok_def mlfq_wf_def row_ok_def queued_def qview_def qcells_def fun_eq_iff)

lemma pipes_more:
  "sched_state.more s = sched_state.more t \<Longrightarrow> pipes s = pipes t \<and> pipe_state.more s = pipe_state.more t"
  by (cases s; cases t) simp

lemma wakeup_eff_pipes [simp]:
  "pipes (wakeup_eff ch s) = pipes s" "pipe_state.more (wakeup_eff ch s) = pipe_state.more s"
  using pipes_more [of "wakeup_eff ch s" s] by simp_all

lemma core_id [simp]: "s\<lparr>core := core s\<rparr> = s"
  by simp

text \<open>\<open>calm p s\<close>: process \<open>p\<close> runs, is not killed, and its lock can be taken.\<close>

definition calm :: "nat \<Rightarrow> 'z sched_state_scheme \<Rightarrow> bool" where
  "calm p s \<longleftrightarrow> touch (core s) = core s \<and> cpu_ok (core s) \<and> free_lock (ProcLock p) (core s) \<and> killed_flag (procs s p) = 0"

lemma calm_killed: "calm p s \<Longrightarrow> killed p s = Ret 0 s"
  by (simp add: calm_def kstep)

lemma calm_upd_pipe [simp]: "calm p (upd_pipe pi f s) = calm p s"
  by (simp add: calm_def)

lemma user_bytes_Cons:
  "user_bytes m r va (Suc n) = m (uaddr m r va) # user_bytes m r (va + 1) n"
  using user_bytes_split [of 1 "Suc n" m r va] by (simp add: user_bytes_def)

lemma user_range_Suc:
  assumes "user_range m r va (Suc n)"
  shows "user_range m r va 1" "user_range m r (va + 1) n"
  using user_range_rest [OF assms, of 1] user_range_here(1) [OF assms] assms by (simp_all add: user_range_def)

lemma pipewrite_loop_appends:
  assumes "calm p t" "pt_inv (pagetable (procs t p)) t" "readopen (pipes t pi)" "pipe_inv (pipes t pi)"
    and "int k = n - i" "0 \<le> i" "length (pipe_view (pipes t pi)) + k \<le> 512" "k < fuel"
    and "user_range (phys t) (pagetable (procs t p)) (addr + word_of_int i) k"
  shows "pipewrite_loop fuel pi addr n p i t = Ret (Inr n)
     (upd_pipe pi (fold pipe_put (user_bytes (phys t) (pagetable (procs t p)) (addr + word_of_int i) k)) t)"
  using assms
proof (induction k arbitrary: fuel i t)
  case 0
  then obtain f where "fuel = Suc f" by (cases fuel) auto
  with 0 show ?case by (simp add: kret_def user_bytes_def upd_pipe_def)
next
  case (Suc k)
  obtain f where f: "fuel = Suc f" using Suc.prems(8) by (cases fuel) auto
  let ?r = "pagetable (procs t p)" and ?a = "addr + word_of_int i"
  let ?c = "phys t (uaddr (phys t) ?r ?a)"
  note ur = user_range_Suc [OF Suc.prems(9)]
  have nf: "nwrite (pipes t pi) \<noteq> nread (pipes t pi) + PIPESIZE"
    using pipe_full [of "pipes t pi"] Suc.prems(7) by simp
  have ci: "copyin ?r (sz (procs t p)) ?a 1 t = Ret (0, [?c]) t"
    using copyin_effect [OF Suc.prems(2) ur(1)] by (simp add: user_bytes_def)
  have a1: "addr + word_of_int (i + 1) = ?a + 1" by (simp add: algebra_simps)
  let ?t = "upd_pipe pi (pipe_put ?c) t"
  note pv = pipe_put_view [of "pipes t pi" ?c]
  have "pipewrite_loop f pi addr n p (i + 1) ?t = Ret (Inr n)
     (upd_pipe pi (fold pipe_put (user_bytes (phys ?t) (pagetable (procs ?t p)) (addr + word_of_int (i + 1)) k)) ?t)"
  proof (rule Suc.IH)
    show "length (pipe_view (pipes ?t pi)) + k \<le> 512" "pipe_inv (pipes ?t pi)"
      using pv Suc.prems(7) by (simp_all del: length_pipe_view)
    show "user_range (phys ?t) (pagetable (procs ?t p)) (addr + word_of_int (i + 1)) k" using ur(2) by (simp add: a1 del: of_int_add)
  qed (use Suc.prems f in simp_all)
  then have "pipewrite_loop f pi addr n p (i + 1) ?t = Ret (Inr n)
     (upd_pipe pi (fold pipe_put (user_bytes (phys t) ?r ?a (Suc k))) t)"
    by (simp add: user_bytes_Cons a1 del: of_int_add) (simp add: upd_pipe_def)
  with Suc.prems nf ci show ?case
    by (simp add: f calm_killed kret_def)
qed

text \<open>
  C10. \<^verbatim>\<open>pipewrite\<close> of \<open>n\<close> bytes into a pipe with room for them and an open read end returns \<open>n\<close>, has
  appended exactly the bytes of the user's buffer to the bytes in transit, has woken the
  waiting readers, and has not touched memory. The two counters may wrap around.
\<close>

theorem pipewrite_appends:
  assumes inv: "pt_inv r s" and tab: "table_ok s" "table_free (core s)" "free_lock (PipeLock pi) (core s)"
    and run: "cproc (mycpu (core s)) = Some p" "p < NPROC" "killed_flag (procs s p) = 0" "pagetable (procs s p) = r"
    and pipe: "readopen (pipes s pi)" "pipe_inv (pipes s pi)" "length (pipe_view (pipes s pi)) + n \<le> 512"
    and user: "user_range (phys s) r addr n" and fuel: "n < fuel"
  shows "\<exists>s'. pipewrite fuel pi addr (int n) s = Ret (int n) s' \<and>
     pipe_view (pipes s' pi) = pipe_view (pipes s pi) @ user_bytes (phys s) r addr n \<and> pipe_inv (pipes s' pi) \<and>
     (\<forall>q < NPROC. procs s' q = woken (Some (ChPipeRead pi)) (procs s q)) \<and> phys s' = phys s"
proof -
  have ok: "cpu_ok (core s)" "free_lock KmemLock (core s)" "free_lock (ProcLock p) (core s)"
    using inv tab run by (simp_all add: pt_inv_def kmem_ready_def table_free_def)
  let ?c = "c_acq (PipeLock pi) (touch (core s))"
  define t where "t = s\<lparr>core := ?c\<rparr>"
  define u where "u = upd_pipe pi (fold pipe_put (user_bytes (phys s) r addr n)) t"
  have i: "pt_inv r t" using inv ok by (intro pt_inv_cong [of t s]) (simp_all add: t_def)
  have "calm p t" using ok run by (simp add: calm_def t_def)
  then have l: "pipewrite_loop fuel pi addr (int n) p 0 t = Ret (Inr (int n)) u"
    using pipewrite_loop_appends [of p t pi n "int n" 0 fuel addr] i pipe user fuel run by (simp add: t_def u_def)
  have tu: "table_ok u" "core u = ?c" using tab by (simp_all add: u_def t_def)
  have "table_free (core u)" using tab tu by simp
  note w = wakeup_eq [OF tu(1) this, of "Some (ChPipeRead pi)"]
  let ?w = "wakeup_eff (Some (ChPipeRead pi)) u"
  have cw: "core ?w = ?c" using ok by (simp add: tu(2))
  have rl: "release (PipeLock pi) ?w = Ret () (?w\<lparr>core := c_rel (PipeLock pi) (core ?w)\<rparr>)"
    using release_section [OF cw] ok by simp
  have tt: "s\<lparr>core := c_acq (PipeLock pi) (touch (core s))\<rparr> = t" by (simp add: t_def)
  have run': "pipewrite fuel pi addr (int n) s = Ret (int n) (?w\<lparr>core := c_rel (PipeLock pi) (core ?w)\<rparr>)"
    using ok tab run l w rl by (simp add: pipewrite_def kstep tt kret_def)
  have "length (user_bytes (phys s) r addr n) = n" by (simp add: user_bytes_def)
  then have v: "pipe_view (pipes u pi) = pipe_view (pipes s pi) @ user_bytes (phys s) r addr n \<and> pipe_inv (pipes u pi)"
    using fold_pipe_put [of "pipes s pi" "user_bytes (phys s) r addr n"] pipe
    by (simp add: u_def t_def del: length_pipe_view)
  have "procs ?w q = woken (Some (ChPipeRead pi)) (procs s q)" if "q < NPROC" for q
    using wakeup_eff_ok(2) [OF tu(1) that] by (simp add: u_def t_def)
  with run' v show ?thesis by (simp add: u_def t_def)
qed

subsection \<open>Reading\<close>

lemma pipe_adv_simps [simp]: "writeopen (pipe_adv p) = writeopen p" "readopen (pipe_adv p) = readopen p"
  by (simp_all add: pipe_adv_def)

lemma upd_pipe_phys: "upd_pipe pi f (s\<lparr>phys := m\<rparr>) = (upd_pipe pi f s)\<lparr>phys := m\<rparr>"
  by (simp add: upd_pipe_def)

lemma free_pages_upd_pipe [simp]: "free_pages (upd_pipe pi f s) = free_pages s"
  by (simp add: free_pages_def)

lemma calm_phys [simp]: "calm p (s\<lparr>phys := m\<rparr>) = calm p s"
  by (simp add: calm_def)

lemma piperead_copy_takes:
  assumes "pt_inv r t" "pagetable (procs t p) = r" "pipe_inv (pipes t pi)" "0 \<le> i"
    and "user_writable r (addr + word_of_int i) k t"
  shows "\<exists>t'. piperead_copy k pi addr p i t = Ret (i + int (min k (length (pipe_view (pipes t pi))))) t' \<and>
     pipe_view (pipes t' pi) = drop k (pipe_view (pipes t pi)) \<and> pipe_inv (pipes t' pi) \<and>
     (\<forall>l < min k (length (pipe_view (pipes t pi))).
        phys t' (uaddr (phys t) r (addr + word_of_int i + of_nat l)) = pipe_view (pipes t pi) ! l) \<and>
     (\<forall>b. (\<forall>l < k. b \<noteq> uaddr (phys t) r (addr + word_of_int i + of_nat l)) \<longrightarrow> phys t' b = phys t b) \<and>
     t' = t\<lparr>phys := phys t', pipes := pipes t'\<rparr>"
  using assms
proof (induction k arbitrary: i t)
  case 0
  then show ?case by (simp add: kret_def)
next
  case (Suc k)
  let ?a = "addr + word_of_int i"
  show ?case
  proof (cases "pipe_view (pipes t pi)")
    case Nil
    then show ?thesis using pipe_empty [of "pipes t pi"] Suc.prems(3) by (simp add: kret_def)
  next
    case (Cons c cs)
    note g = pipe_get_view [OF Cons Suc.prems(3)]
    have ne: "nread (pipes t pi) \<noteq> nwrite (pipes t pi)" using pipe_empty [of "pipes t pi"] Cons by simp
    have w1: "user_writable r ?a (length [c]) t"
      using Suc.prems(5) by (rule user_writable_mono) simp
    obtain m where m: "copyout r (sz (procs t p)) ?a [c] t = Ret 0 (t\<lparr>phys := m\<rparr>)" "pt_inv r (t\<lparr>phys := m\<rparr>)"
      "\<And>vb. pte_of m r vb = pte_of (phys t) r vb" "tabs m r = tabs (phys t) r"
      "free_pages (t\<lparr>phys := m\<rparr>) = free_pages t" "m (uaddr (phys t) r ?a) = c"
      "\<And>b. b \<noteq> uaddr (phys t) r ?a \<Longrightarrow> m b = phys t b"
      using copyout_effect [OF Suc.prems(1) w1, of "sz (procs t p)"] by auto
    let ?t = "upd_pipe pi pipe_adv (t\<lparr>phys := m\<rparr>)"
    have a1: "addr + word_of_int (i + 1) = ?a + 1" by (simp add: algebra_simps)
    have ua: "uaddr m r v = uaddr (phys t) r v" for v using m(3) by (simp add: uaddr_def)
    have wr: "user_writable r (addr + word_of_int (i + 1)) k ?t"
      unfolding a1 using user_writable_rest [OF Suc.prems(5), of 1 ?t] m(3-5) by simp
    have t: "pt_inv r ?t" "pagetable (procs ?t p) = r" "pipe_inv (pipes ?t pi)" "0 \<le> i + 1"
      using m(2) Suc.prems(2,4) g(3) by simp_all
    have tv: "pipe_view (pipes ?t pi) = cs" "phys ?t = m" using g(2) by simp_all
    obtain t' where IH: "piperead_copy k pi addr p (i + 1) ?t = Ret (i + 1 + int (min k (length cs))) t'"
      "pipe_view (pipes t' pi) = drop k cs" "pipe_inv (pipes t' pi)"
      "\<And>l. l < min k (length cs) \<Longrightarrow> phys t' (uaddr (phys t) r (?a + 1 + of_nat l)) = cs ! l"
      "\<And>b. (\<And>l. l < k \<Longrightarrow> b \<noteq> uaddr (phys t) r (?a + 1 + of_nat l)) \<Longrightarrow> phys t' b = m b"
      "t' = ?t\<lparr>phys := phys t', pipes := pipes t'\<rparr>"
      using Suc.IH [OF t wr] unfolding tv a1 ua by blast
    have run: "piperead_copy (Suc k) pi addr p i t = Ret (i + 1 + int (min k (length cs))) t'"
      using ne m(1) IH(1) g(1) Suc.prems(2) by simp
    have "phys t' (uaddr (phys t) r ?a) = c"
    proof -
      have "uaddr (phys t) r ?a \<noteq> uaddr (phys t) r (?a + 1 + of_nat l)" if "l < k" for l
        using uaddr_inj [OF Suc.prems(5), of 0 "Suc l"] that by (auto simp: add.assoc)
      then show ?thesis using IH(5) m(6) by simp
    qed
    then have byte: "phys t' (uaddr (phys t) r (?a + of_nat l)) = (c # cs) ! l" if "l < min (Suc k) (Suc (length cs))" for l
      using that IH(4) [of "l - 1"] by (cases l) (auto simp: add.assoc)
    have keep: "phys t' b = phys t b" if b: "\<forall>l < Suc k. b \<noteq> uaddr (phys t) r (?a + of_nat l)" for b
    proof -
      have "b \<noteq> uaddr (phys t) r (?a + 1 + of_nat l)" if "l < k" for l
        using b [rule_format, of "Suc l"] that by (simp add: add.assoc)
      moreover have "b \<noteq> uaddr (phys t) r ?a" using b [rule_format, of 0] by simp
      ultimately show ?thesis using IH(5) m(7) by simp
    qed
    have "?t\<lparr>phys := phys t', pipes := pipes t'\<rparr> = t\<lparr>phys := phys t', pipes := pipes t'\<rparr>"
      by (simp add: upd_pipe_def)
    with IH(6) have "t' = t\<lparr>phys := phys t', pipes := pipes t'\<rparr>" by (rule trans)
    with run byte keep IH(2,3) Cons show ?thesis by (simp del: length_pipe_view)
  qed
qed

text \<open>
  C19. \<^verbatim>\<open>piperead\<close> of up to \<open>n\<close> bytes from a pipe that has some returns the number of bytes it took,
  which is the smaller of \<open>n\<close> and the number in transit. They are the oldest ones, they are now in
  the user's buffer in order, and the pipe holds the rest.
\<close>

theorem piperead_takes:
  assumes inv: "pt_inv r s" and tab: "table_ok s" "table_free (core s)" "free_lock (PipeLock pi) (core s)"
    and run: "cproc (mycpu (core s)) = Some p" "p < NPROC" "pagetable (procs s p) = r"
    and pipe: "pipe_inv (pipes s pi)" "pipe_view (pipes s pi) \<noteq> []"
    and user: "user_writable r addr n s" and fuel: "0 < fuel"
  shows "\<exists>s'. piperead fuel pi addr (int n) s = Ret (int (min n (length (pipe_view (pipes s pi))))) s' \<and>
     pipe_view (pipes s' pi) = drop n (pipe_view (pipes s pi)) \<and> pipe_inv (pipes s' pi) \<and>
     (\<forall>l < min n (length (pipe_view (pipes s pi))).
        phys s' (uaddr (phys s) r (addr + of_nat l)) = pipe_view (pipes s pi) ! l) \<and>
     (\<forall>b. (\<forall>l < n. b \<noteq> uaddr (phys s) r (addr + of_nat l)) \<longrightarrow> phys s' b = phys s b)"
proof -
  have ok: "cpu_ok (core s)" "free_lock KmemLock (core s)"
    using inv by (simp_all add: pt_inv_def kmem_ready_def)
  let ?c = "c_acq (PipeLock pi) (touch (core s))"
  define t where "t = s\<lparr>core := ?c\<rparr>"
  have i: "pt_inv r t" using inv ok by (intro pt_inv_cong [of t s]) (simp_all add: t_def)
  have w: "user_writable r addr n t"
    using user by (simp add: user_writable_def t_def free_pages_def)
  have pt: "pipes t = pipes s" "phys t = phys s" "procs t = procs s" by (simp_all add: t_def)
  obtain f where f: "fuel = Suc f" using fuel by (cases fuel) auto
  have wait: "piperead_wait fuel pi p t = Ret True t"
    using pipe_empty [of "pipes s pi"] pipe(2) by (simp add: f pt kret_def)
  obtain u where u: "piperead_copy n pi addr p 0 t = Ret (int (min n (length (pipe_view (pipes s pi))))) u"
     "pipe_view (pipes u pi) = drop n (pipe_view (pipes s pi))" "pipe_inv (pipes u pi)"
     "\<forall>l < min n (length (pipe_view (pipes s pi))). phys u (uaddr (phys s) r (addr + of_nat l)) = pipe_view (pipes s pi) ! l"
     "\<forall>b. (\<forall>l < n. b \<noteq> uaddr (phys s) r (addr + of_nat l)) \<longrightarrow> phys u b = phys s b"
     "u = t\<lparr>phys := phys u, pipes := pipes u\<rparr>"
    using piperead_copy_takes [OF i, of p pi 0 addr n, unfolded pt of_int_0 add_0_right add_0_left, OF run(3) pipe(1) order_refl w]
    by blast
  obtain a b where ab: "u = t\<lparr>phys := a, pipes := b\<rparr>" using u(6) by (rule that)
  have cu: "core u = ?c" by (simp add: ab t_def)
  have tu: "table_ok u"
    using tab(1) by (simp add: ab t_def)
  have "table_free (core u)" using tab cu by simp
  note wk = wakeup_eq [OF tu this, of "Some (ChPipeWrite pi)"]
  let ?w = "wakeup_eff (Some (ChPipeWrite pi)) u"
  have cw: "core ?w = ?c" using ok by (simp add: cu)
  have rl: "release (PipeLock pi) ?w = Ret () (?w\<lparr>core := c_rel (PipeLock pi) (core ?w)\<rparr>)"
    using release_section [OF cw] ok by simp
  have tt: "s\<lparr>core := c_acq (PipeLock pi) (touch (core s))\<rparr> = t" by (simp add: t_def)
  have "piperead fuel pi addr (int n) s = Ret (int (min n (length (pipe_view (pipes s pi))))) (?w\<lparr>core := c_rel (PipeLock pi) (core ?w)\<rparr>)"
    using ok tab run wait u(1) wk rl by (simp add: piperead_def kstep tt kret_def del: length_pipe_view)
  with u(2-5) show ?thesis by (simp del: length_pipe_view)
qed

text \<open>Process 2 writes five bytes of its memory into an empty pipe whose counters are about to wrap.\<close>

definition demo_pipe :: pipe_state where
  "demo_pipe = \<lparr>core = upd_mycpu (\<lambda>c. c\<lparr>cproc := Some 2\<rparr>) core0, phys = demo_mem, freelist = 0, kend = 0x80020000,
     procs = (\<lambda>_. proc0)(2 := proc0\<lparr>state := RUNNING, pagetable := 0x80100000, sz := 0x1000\<rparr>),
     trapframes = (\<lambda>_ _. 0), nextpid = 1, initproc = None, ticks = 0, mlfqi = (\<lambda>_. None),
     head = (\<lambda>_. 0), tail = (\<lambda>_. 0), len = (\<lambda>_. 0), boost = 0, stimecmp = (\<lambda>_. 0),
     pipes = (\<lambda>_. \<lparr>pdata = (\<lambda>_. 0), nread = - 2, nwrite = - 2, readopen = True, writeopen = True\<rparr>)\<rparr>"

lemma demo_pipe_facts:
  "pt_inv 0x80100000 demo_pipe" "table_ok demo_pipe" "table_free (core demo_pipe)"
  "free_lock (PipeLock pi) (core demo_pipe)" "cproc (mycpu (core demo_pipe)) = Some 2"
  "pagetable (procs demo_pipe 2) = 0x80100000" "killed_flag (procs demo_pipe 2) = 0"
proof -
  have ok: "cpu_ok (core demo_pipe)" "free_lock lk (core demo_pipe)" for lk
    by (simp_all add: demo_pipe_def core0_def hart_defs)
  then show "table_free (core demo_pipe)" "free_lock (PipeLock pi) (core demo_pipe)" by (simp_all add: table_free_def)
  have "kmem_inv demo_pipe = kmem_inv demo_user" "free_pages demo_pipe = free_pages demo_user"
    by (simp_all add: demo_pipe_def demo_user_def kmem_inv_def free_pages_def)
  then show "pt_inv 0x80100000 demo_pipe"
    using demo_user_facts ok by (simp add: pt_inv_def kmem_ready_def) (simp add: demo_pipe_def demo_user_def)
  show "table_ok demo_pipe"
    by (auto simp: table_ok_def mlfq_wf_def row_ok_def qcells_def queued_def qview_def demo_pipe_def is_level_def)
  show "cproc (mycpu (core demo_pipe)) = Some 2" "pagetable (procs demo_pipe 2) = 0x80100000" "killed_flag (procs demo_pipe 2) = 0"
    by (simp_all add: demo_pipe_def proc0_def)
qed

theorem pipewrite_appends_witness:
  "\<exists>s'. pipewrite 6 0x80104000 0 5 demo_pipe = Ret 5 s' \<and>
     pipe_view (pipes s' 0x80104000) = user_bytes demo_mem 0x80100000 0 5"
proof -
  have "user_range (phys demo_pipe) 0x80100000 0 5"
    using demo_user_writable by (simp add: user_writable_def demo_pipe_def demo_user_def)
  moreover have "readopen (pipes demo_pipe 0x80104000)" "pipe_inv (pipes demo_pipe 0x80104000)"
    "pipe_view (pipes demo_pipe 0x80104000) = []" "phys demo_pipe = demo_mem"
    by (simp_all add: demo_pipe_def pipe_inv_def pipe_view_def)
  ultimately show ?thesis
    using pipewrite_appends [OF demo_pipe_facts(1-5) _ demo_pipe_facts(7,6), of "0x80104000" 5 0 6]
    by (auto simp: NPROC_def)
qed

theorem piperead_takes_witness:
  "let s = upd_pipe 0x80104000 (fold pipe_put [1, 2, 3]) demo_pipe
   in \<exists>s'. piperead 1 0x80104000 0 2 s = Ret 2 s' \<and> pipe_view (pipes s' 0x80104000) = [3]"
proof -
  let ?s = "upd_pipe 0x80104000 (fold pipe_put [1, 2, 3]) demo_pipe"
  have e: "pipe_view (pipes demo_pipe 0x80104000) = []" "pipe_inv (pipes demo_pipe 0x80104000)"
    by (simp_all add: demo_pipe_def pipe_inv_def pipe_view_def)
  have v: "pipe_view (pipes ?s 0x80104000) = [1, 2, 3]" "pipe_inv (pipes ?s 0x80104000)"
    using fold_pipe_put [of "pipes demo_pipe 0x80104000" "[1, 2, 3]"] e by (simp_all del: fold_simps)
  have "free_pages demo_pipe = free_pages demo_user" by (simp add: demo_pipe_def demo_user_def free_pages_def)
  moreover have "phys demo_pipe = phys demo_user" by (simp add: demo_pipe_def demo_user_def)
  ultimately have "user_writable 0x80100000 0 5 ?s" using demo_user_writable by (simp add: user_writable_def)
  then have "user_writable 0x80100000 0 2 ?s" by (rule user_writable_mono) simp
  with v show ?thesis
    using piperead_takes [of "0x80100000" ?s "0x80104000" 2 0 2 1] demo_pipe_facts
    by (auto simp: NPROC_def Let_def simp del: fold_simps length_pipe_view)
qed

end
