(* ===== verification/Bio.thy ===== *)
theory Bio
  imports Pipe
begin

text \<open>
  Sleep locks (\<^verbatim>\<open>kernel/sleeplock.c\<close>) and the buffer cache (\<^verbatim>\<open>kernel/bio.c\<close>). A sleep lock is named by
  the spin lock inside it. The cache is an array of \<^verbatim>\<open>NBUF\<close> buffers in a circular doubly linked
  list, most recently used first; position \<open>NBUF\<close> is the list head \<^verbatim>\<open>bcache.head\<close>.

  The disk is a map from block numbers to blocks. The driver \<^verbatim>\<open>kernel/virtio_disk.c\<close> is represented
  here by what it promises its callers: \<open>disk_rw\<close>, the contract of \<^verbatim>\<open>virtio_disk_rw\<close>, moves one block
  between a buffer and the disk and returns when the transfer is done. Theory \<open>Virtio\<close> models the driver
  itself and shows that it keeps this contract. Every block written is also recorded in \<open>dwrites\<close>, in
  order, so that theorems can speak about a crash between two writes.

  Loops that sleep go round at most \<open>sfuel\<close> times in the model.
\<close>

type_synonym block = "nat \<Rightarrow> u8"

definition BSIZE :: nat where "BSIZE = 1024"
definition NBUF :: nat where "NBUF = 30"

record sleeplock =
  slocked :: u32
  sname :: string
  spid :: int

record buf =
  valid :: bool
  dev :: u32
  blockno :: u32
  refcnt :: u32
  bprev :: nat
  bnext :: nat
  bdata :: block

record bio_state = pipe_state +
  sfuel :: nat
  slocks :: "lockid \<Rightarrow> sleeplock"
  bufs :: "nat \<Rightarrow> buf"
  disk :: "u32 \<Rightarrow> block"
  dwrites :: "(u32 \<times> block) list"

definition upd_slock :: "lockid \<Rightarrow> (sleeplock \<Rightarrow> sleeplock) \<Rightarrow> 'z bio_state_scheme \<Rightarrow> 'z bio_state_scheme" where
  "upd_slock lk f s = s\<lparr>slocks := (slocks s)(lk := f (slocks s lk))\<rparr>"

definition upd_buf :: "nat \<Rightarrow> (buf \<Rightarrow> buf) \<Rightarrow> 'z bio_state_scheme \<Rightarrow> 'z bio_state_scheme" where
  "upd_buf b f s = s\<lparr>bufs := (bufs s)(b := f (bufs s b))\<rparr>"

subsection \<open>Sleep locks\<close>

definition initsleeplock :: "lockid \<Rightarrow> string \<Rightarrow> 'z bio_state_scheme \<Rightarrow> ('z bio_state_scheme, unit) kres" where
  "initsleeplock lk nm =
     kseq (initlock lk ''sleep lock'') (
     kmod (upd_slock lk (\<lambda>_. \<lparr>slocked = 0, sname = nm, spid = 0\<rparr>)))"

primrec acquiresleep_wait :: "nat \<Rightarrow> lockid \<Rightarrow> 'z bio_state_scheme \<Rightarrow> ('z bio_state_scheme, unit) kres" where
  "acquiresleep_wait 0 lk = (\<lambda>s. Loop)"
| "acquiresleep_wait (Suc n) lk =
     kbind (kget (\<lambda>s. slocked (slocks s lk))) (\<lambda>l.
     if l = 0 then kret ()
     else kseq (sleep_prepare (Some (ChSleeplock lk))) (
          kseq (release lk) (
          kseq sleep (
          kseq (acquire lk) (
          acquiresleep_wait n lk)))))"

definition acquiresleep :: "lockid \<Rightarrow> 'z bio_state_scheme \<Rightarrow> ('z bio_state_scheme, unit) kres" where
  "acquiresleep lk =
     kseq (acquire lk) (
     kbind (kget sfuel) (\<lambda>n.
     kseq (acquiresleep_wait n lk) (
     kseq (kmod (upd_slock lk (\<lambda>l. l\<lparr>slocked := 1\<rparr>))) (
     with_proc (\<lambda>p.
       kseq (kmod (\<lambda>s. upd_slock lk (\<lambda>l. l\<lparr>spid := pid (procs s p)\<rparr>) s)) (
       release lk))))))"

definition releasesleep :: "lockid \<Rightarrow> 'z bio_state_scheme \<Rightarrow> ('z bio_state_scheme, unit) kres" where
  "releasesleep lk =
     kseq (acquire lk) (
     kseq (kmod (upd_slock lk (\<lambda>l. l\<lparr>slocked := 0, spid := 0\<rparr>))) (
     kseq (wakeup (Some (ChSleeplock lk))) (
     release lk)))"

text \<open>\<^verbatim>\<open>myproc()\<close> is called only if the lock is held.\<close>

definition holdingsleep :: "lockid \<Rightarrow> 'z bio_state_scheme \<Rightarrow> ('z bio_state_scheme, bool) kres" where
  "holdingsleep lk =
     kseq (acquire lk) (
     kbind (kget (\<lambda>s. slocks s lk)) (\<lambda>l.
     kbind (if slocked l = 0 then kret False
            else with_proc (\<lambda>p. kbind (kget (\<lambda>s. pid (procs s p))) (\<lambda>i. kret (spid l = i)))) (\<lambda>r.
     kseq (release lk) (kret r))))"

subsection \<open>The buffer cache\<close>

definition binit :: "'z bio_state_scheme \<Rightarrow> ('z bio_state_scheme, unit) kres" where
  "binit =
     kseq (initlock BcacheLock ''bcache'') (
     kseq (kmod (upd_buf NBUF (\<lambda>h. h\<lparr>bprev := NBUF, bnext := NBUF\<rparr>))) (
     kfor [0..<NBUF] (\<lambda>b.
       kseq (kmod (\<lambda>s. upd_buf b (\<lambda>v. v\<lparr>bnext := bnext (bufs s NBUF), bprev := NBUF\<rparr>) s)) (
       kseq (initsleeplock (BufLk b) ''buffer'') (
       kseq (kmod (\<lambda>s. upd_buf (bnext (bufs s NBUF)) (\<lambda>v. v\<lparr>bprev := b\<rparr>) s)) (
       kmod (upd_buf NBUF (\<lambda>h. h\<lparr>bnext := b\<rparr>))))))))"

text \<open>
  The two searches of \<^verbatim>\<open>bget\<close>, forward for the block and backward for an unused buffer. A walk
  round the list passes at most \<open>NBUF\<close> buffers.
\<close>

primrec bget_cached :: "nat \<Rightarrow> nat \<Rightarrow> u32 \<Rightarrow> u32 \<Rightarrow> 'z bio_state_scheme \<Rightarrow> ('z bio_state_scheme, nat option) kres" where
  "bget_cached 0 b d n = (\<lambda>s. Loop)"
| "bget_cached (Suc k) b d n =
     (if b = NBUF then kret None
      else kbind (kget (\<lambda>s. bufs s b)) (\<lambda>v.
        if dev v = d \<and> blockno v = n then kret (Some b) else bget_cached k (bnext v) d n))"

primrec bget_unused :: "nat \<Rightarrow> nat \<Rightarrow> 'z bio_state_scheme \<Rightarrow> ('z bio_state_scheme, nat option) kres" where
  "bget_unused 0 b = (\<lambda>s. Loop)"
| "bget_unused (Suc k) b =
     (if b = NBUF then kret None
      else kbind (kget (\<lambda>s. bufs s b)) (\<lambda>v.
        if refcnt v = 0 then kret (Some b) else bget_unused k (bprev v)))"

definition bget :: "u32 \<Rightarrow> u32 \<Rightarrow> 'z bio_state_scheme \<Rightarrow> ('z bio_state_scheme, nat) kres" where
  "bget d n =
     kseq (acquire BcacheLock) (
     kbind (kget (\<lambda>s. bnext (bufs s NBUF))) (\<lambda>first.
     kbind (bget_cached (Suc NBUF) first d n) (\<lambda>r.
     case r of
       Some b \<Rightarrow>
         kseq (kmod (upd_buf b (\<lambda>v. v\<lparr>refcnt := refcnt v + 1\<rparr>))) (
         kseq (release BcacheLock) (
         kseq (acquiresleep (BufLk b)) (kret b)))
     | None \<Rightarrow>
         kbind (kget (\<lambda>s. bprev (bufs s NBUF))) (\<lambda>final.
         kbind (bget_unused (Suc NBUF) final) (\<lambda>r.
         case r of
           None \<Rightarrow> kpanic ''bget: no buffers''
         | Some b \<Rightarrow>
             kseq (kmod (upd_buf b (\<lambda>v. v\<lparr>dev := d, blockno := n, valid := False, refcnt := 1\<rparr>))) (
             kseq (release BcacheLock) (
             kseq (acquiresleep (BufLk b)) (kret b))))))))"

definition disk_rw :: "nat \<Rightarrow> bool \<Rightarrow> 'z bio_state_scheme \<Rightarrow> ('z bio_state_scheme, unit) kres" where
  "disk_rw b write =
     (if write
      then kmod (\<lambda>s. s\<lparr>disk := (disk s)(blockno (bufs s b) := bdata (bufs s b)),
                       dwrites := dwrites s @ [(blockno (bufs s b), bdata (bufs s b))]\<rparr>)
      else kmod (\<lambda>s. upd_buf b (\<lambda>v. v\<lparr>bdata := disk s (blockno v)\<rparr>) s))"

definition bread :: "u32 \<Rightarrow> u32 \<Rightarrow> 'z bio_state_scheme \<Rightarrow> ('z bio_state_scheme, nat) kres" where
  "bread d n =
     kbind (bget d n) (\<lambda>b.
     kbind (kget (\<lambda>s. valid (bufs s b))) (\<lambda>v.
     kseq (kwhen (\<not> v) (kseq (disk_rw b False) (kmod (upd_buf b (\<lambda>v. v\<lparr>valid := True\<rparr>))))) (
     kret b)))"

definition bwrite :: "nat \<Rightarrow> 'z bio_state_scheme \<Rightarrow> ('z bio_state_scheme, unit) kres" where
  "bwrite b =
     kbind (holdingsleep (BufLk b)) (\<lambda>h.
     if \<not> h then kpanic ''bwrite'' else disk_rw b True)"

text \<open>\<^verbatim>\<open>brelse\<close> moves a buffer that is no longer in use to the front of the list.\<close>

definition brelse :: "nat \<Rightarrow> 'z bio_state_scheme \<Rightarrow> ('z bio_state_scheme, unit) kres" where
  "brelse b =
     kbind (holdingsleep (BufLk b)) (\<lambda>h.
     if \<not> h then kpanic ''brelse''
     else
       kseq (releasesleep (BufLk b)) (
       kseq (acquire BcacheLock) (
       kseq (kmod (upd_buf b (\<lambda>v. v\<lparr>refcnt := refcnt v - 1\<rparr>))) (
       kbind (kget (\<lambda>s. refcnt (bufs s b))) (\<lambda>r.
       kseq (kwhen (r = 0) (
         kseq (kmod (\<lambda>s. upd_buf (bnext (bufs s b)) (\<lambda>v. v\<lparr>bprev := bprev (bufs s b)\<rparr>) s)) (
         kseq (kmod (\<lambda>s. upd_buf (bprev (bufs s b)) (\<lambda>v. v\<lparr>bnext := bnext (bufs s b)\<rparr>) s)) (
         kseq (kmod (\<lambda>s. upd_buf b (\<lambda>v. v\<lparr>bnext := bnext (bufs s NBUF)\<rparr>) s)) (
         kseq (kmod (upd_buf b (\<lambda>v. v\<lparr>bprev := NBUF\<rparr>))) (
         kseq (kmod (\<lambda>s. upd_buf (bnext (bufs s NBUF)) (\<lambda>v. v\<lparr>bprev := b\<rparr>) s)) (
         kmod (upd_buf NBUF (\<lambda>v. v\<lparr>bnext := b\<rparr>)))))))))
       (release BcacheLock))))))"

definition bpin :: "nat \<Rightarrow> 'z bio_state_scheme \<Rightarrow> ('z bio_state_scheme, unit) kres" where
  "bpin b =
     kseq (acquire BcacheLock) (
     kseq (kmod (upd_buf b (\<lambda>v. v\<lparr>refcnt := refcnt v + 1\<rparr>))) (
     release BcacheLock))"

definition bunpin :: "nat \<Rightarrow> 'z bio_state_scheme \<Rightarrow> ('z bio_state_scheme, unit) kres" where
  "bunpin b =
     kseq (acquire BcacheLock) (
     kseq (kmod (upd_buf b (\<lambda>v. v\<lparr>refcnt := refcnt v - 1\<rparr>))) (
     release BcacheLock))"

end
