(* ===== verification/Log.thy ===== *)
theory Log
  imports Bio
begin

text \<open>
  The redo log, \<^verbatim>\<open>kernel/log.c\<close>: transactions of file-system calls are collected in the buffer
  cache, written to the log area of the disk, committed by one write of the log's header block,
  and then installed at their home locations. After a crash \<^verbatim>\<open>recover_from_log\<close> installs a
  committed transaction again, or finds an empty header.
\<close>

unbundle bit_operations_syntax

definition MAXOPBLOCKS :: int where "MAXOPBLOCKS = 10"
definition LOGBLOCKS :: int where "LOGBLOCKS = MAXOPBLOCKS * 3"

subsection \<open>Words in a block\<close>

text \<open>32-bit loads and stores in a block, little-endian.\<close>

definition get32 :: "block \<Rightarrow> nat \<Rightarrow> u32" where
  "get32 b off = word_of_int (horner_sum uint 256 (map (\<lambda>i. b (off + i)) [0..<4]))"

definition put32 :: "block \<Rightarrow> nat \<Rightarrow> u32 \<Rightarrow> block" where
  "put32 b off v = (\<lambda>i. if off \<le> i \<and> i < off + 4 then ucast (drop_bit (8 * (i - off)) v) else b i)"

subsection \<open>Data\<close>

record superblock =
  sb_magic :: u32
  sb_size :: u32
  sb_nblocks :: u32
  sb_ninodes :: u32
  sb_nlog :: u32
  sb_logstart :: u32
  sb_inodestart :: u32
  sb_bmapstart :: u32

record logheader =
  lhn :: int
  lhblock :: "nat \<Rightarrow> u32"

record log =
  lstart :: u32
  outstanding :: int
  committing :: bool
  ldev :: u32
  ncommit :: int
  lh :: logheader

record log_state = bio_state +
  lg :: log

definition upd_log :: "(log \<Rightarrow> log) \<Rightarrow> 'z log_state_scheme \<Rightarrow> 'z log_state_scheme" where
  "upd_log f s = s\<lparr>lg := f (lg s)\<rparr>"

definition set_lhn :: "int \<Rightarrow> log \<Rightarrow> log" where
  "set_lhn n l = l\<lparr>lh := (lh l)\<lparr>lhn := n\<rparr>\<rparr>"

definition set_lhblock :: "nat \<Rightarrow> u32 \<Rightarrow> log \<Rightarrow> log" where
  "set_lhblock i v l = l\<lparr>lh := (lh l)\<lparr>lhblock := (lhblock (lh l))(i := v)\<rparr>\<rparr>"

text \<open>\<^verbatim>\<open>struct logheader\<close> in a block: \<^verbatim>\<open>n\<close> at offset 0, \<^verbatim>\<open>block[i]\<close> at offset \<open>4 + 4 i\<close>.\<close>

definition hdr_n :: "block \<Rightarrow> int" where
  "hdr_n b = sint (get32 b 0)"

definition hdr_block :: "block \<Rightarrow> nat \<Rightarrow> u32" where
  "hdr_block b i = get32 b (4 + 4 * i)"

subsection \<open>Reading and writing the log\<close>

definition install_one :: "bool \<Rightarrow> nat \<Rightarrow> 'z log_state_scheme \<Rightarrow> ('z log_state_scheme, unit) kres" where
  "install_one recovering tail_i =
     kbind (kget lg) (\<lambda>l.
     kbind (bread (ldev l) (lstart l + of_nat tail_i + 1)) (\<lambda>lbuf.
     kbind (bread (ldev l) (lhblock (lh l) tail_i)) (\<lambda>dbuf.
     kseq (kmod (\<lambda>s. upd_buf dbuf (\<lambda>v. v\<lparr>bdata := bdata (bufs s lbuf)\<rparr>) s)) (
     kseq (bwrite dbuf) (
     kseq (kwhen (\<not> recovering) (bunpin dbuf)) (
     kseq (brelse lbuf) (
     brelse dbuf)))))))"

definition install_trans :: "bool \<Rightarrow> 'z log_state_scheme \<Rightarrow> ('z log_state_scheme, unit) kres" where
  "install_trans recovering =
     kbind (kget (\<lambda>s. lhn (lh (lg s)))) (\<lambda>n. kfor [0..<nat n] (install_one recovering))"

text \<open>A header with more than \<^verbatim>\<open>LOGBLOCKS\<close> entries would overrun the in-memory array.\<close>

definition read_head :: "'z log_state_scheme \<Rightarrow> ('z log_state_scheme, unit) kres" where
  "read_head =
     kbind (kget lg) (\<lambda>l.
     kbind (bread (ldev l) (lstart l)) (\<lambda>b.
     kbind (kget (\<lambda>s. bdata (bufs s b))) (\<lambda>d.
     if LOGBLOCKS < hdr_n d then kub
     else kseq (kmod (upd_log (set_lhn (hdr_n d)))) (
          kseq (kfor [0..<nat (hdr_n d)] (\<lambda>i. kmod (upd_log (set_lhblock i (hdr_block d i))))) (
          brelse b)))))"

definition write_head :: "'z log_state_scheme \<Rightarrow> ('z log_state_scheme, unit) kres" where
  "write_head =
     kbind (kget lg) (\<lambda>l.
     kbind (bread (ldev l) (lstart l)) (\<lambda>b.
     kseq (kmod (upd_buf b (\<lambda>v. v\<lparr>bdata := put32 (bdata v) 0 (word_of_int (lhn (lh l)))\<rparr>))) (
     kseq (kfor [0..<nat (lhn (lh l))] (\<lambda>i.
       kmod (upd_buf b (\<lambda>v. v\<lparr>bdata := put32 (bdata v) (4 + 4 * i) (lhblock (lh l) i)\<rparr>)))) (
     kseq (bwrite b) (
     brelse b)))))"

definition recover_from_log :: "'z log_state_scheme \<Rightarrow> ('z log_state_scheme, unit) kres" where
  "recover_from_log =
     kseq read_head (
     kseq (install_trans True) (
     kseq (kmod (upd_log (set_lhn 0))) (
     write_head)))"

text \<open>The header of 124 bytes fits into a block, so the first test of \<^verbatim>\<open>initlog\<close> never fails.\<close>

definition initlog :: "u32 \<Rightarrow> superblock \<Rightarrow> 'z log_state_scheme \<Rightarrow> ('z log_state_scheme, unit) kres" where
  "initlog d sb =
     kseq (if 4 + 4 * nat LOGBLOCKS \<ge> BSIZE then kpanic ''initlog: too big logheader'' else kret ()) (
     kseq (initlock LogLock ''log'') (
     kseq (kmod (upd_log (\<lambda>l. l\<lparr>lstart := sb_logstart sb, ldev := d\<rparr>))) (
     recover_from_log)))"

subsection \<open>Transactions\<close>

definition log_sleep :: "'z log_state_scheme \<Rightarrow> ('z log_state_scheme, unit) kres" where
  "log_sleep =
     kseq (sleep_prepare (Some ChLog)) (
     kseq (release LogLock) (
     kseq sleep (
     acquire LogLock)))"

primrec begin_op_loop :: "nat \<Rightarrow> 'z log_state_scheme \<Rightarrow> ('z log_state_scheme, unit) kres" where
  "begin_op_loop 0 = (\<lambda>s. Loop)"
| "begin_op_loop (Suc n) =
     kbind (kget lg) (\<lambda>l.
     if committing l then kseq log_sleep (begin_op_loop n)
     else if lhn (lh l) + (outstanding l + 1) * MAXOPBLOCKS > LOGBLOCKS then kseq log_sleep (begin_op_loop n)
     else kseq (kmod (upd_log (\<lambda>l. l\<lparr>outstanding := outstanding l + 1\<rparr>))) (
          release LogLock))"

definition begin_op :: "'z log_state_scheme \<Rightarrow> ('z log_state_scheme, unit) kres" where
  "begin_op = kseq (acquire LogLock) (kbind (kget sfuel) begin_op_loop)"

definition write_log_one :: "nat \<Rightarrow> 'z log_state_scheme \<Rightarrow> ('z log_state_scheme, unit) kres" where
  "write_log_one tail_i =
     kbind (kget lg) (\<lambda>l.
     kbind (bread (ldev l) (lstart l + of_nat tail_i + 1)) (\<lambda>to.
     kbind (bread (ldev l) (lhblock (lh l) tail_i)) (\<lambda>from.
     kseq (kmod (\<lambda>s. upd_buf to (\<lambda>v. v\<lparr>bdata := bdata (bufs s from)\<rparr>) s)) (
     kseq (bwrite to) (
     kseq (brelse from) (
     brelse to))))))"

definition write_log :: "'z log_state_scheme \<Rightarrow> ('z log_state_scheme, unit) kres" where
  "write_log = kbind (kget (\<lambda>s. lhn (lh (lg s)))) (\<lambda>n. kfor [0..<nat n] write_log_one)"

definition commit :: "'z log_state_scheme \<Rightarrow> ('z log_state_scheme, unit) kres" where
  "commit =
     kbind (kget (\<lambda>s. lhn (lh (lg s)))) (\<lambda>n.
     kwhen (0 < n) (
       kseq write_log (
       kseq write_head (
       kseq (install_trans False) (
       kseq (kmod (upd_log (set_lhn 0))) (
       write_head))))))"

definition end_op :: "'z log_state_scheme \<Rightarrow> ('z log_state_scheme, unit) kres" where
  "end_op =
     kseq (acquire LogLock) (
     kseq (kmod (upd_log (\<lambda>l. l\<lparr>outstanding := outstanding l - 1\<rparr>))) (
     kbind (kget lg) (\<lambda>l.
     if committing l then kpanic ''log.committing''
     else
       kseq (if outstanding l = 0
             then kmod (upd_log (\<lambda>l. l\<lparr>committing := True\<rparr>))
             else wakeup (Some ChLog)) (
       kseq (release LogLock) (
       kwhen (outstanding l = 0) (
         kseq commit (
         kseq (acquire LogLock) (
         kseq (kmod (upd_log (\<lambda>l. l\<lparr>committing := False, ncommit := ncommit l + 1\<rparr>))) (
         kseq (wakeup (Some ChLog)) (
         release LogLock))))))))))"

text \<open>The position of a block in the header, or the end of the list (log absorption).\<close>

definition log_slot :: "logheader \<Rightarrow> u32 \<Rightarrow> nat" where
  "log_slot h b = (case find (\<lambda>i. lhblock h i = b) [0..<nat (lhn h)] of Some i \<Rightarrow> i | None \<Rightarrow> nat (lhn h))"

definition log_write :: "nat \<Rightarrow> 'z log_state_scheme \<Rightarrow> ('z log_state_scheme, unit) kres" where
  "log_write b =
     kseq (acquire LogLock) (
     kbind (kget lg) (\<lambda>l.
     if LOGBLOCKS \<le> lhn (lh l) then kpanic ''too big a transaction''
     else if outstanding l < 1 then kpanic ''log_write outside of trans''
     else kbind (kget (\<lambda>s. blockno (bufs s b))) (\<lambda>n.
       let i = log_slot (lh l) n in
       kseq (kmod (upd_log (set_lhblock i n))) (
       kseq (kwhen (int i = lhn (lh l)) (
         kseq (bpin b) (kmod (upd_log (\<lambda>l. set_lhn (lhn (lh l) + 1) l))))) (
       release LogLock)))))"

primrec sync_wait :: "nat \<Rightarrow> int \<Rightarrow> 'z log_state_scheme \<Rightarrow> ('z log_state_scheme, unit) kres" where
  "sync_wait 0 n = (\<lambda>s. Loop)"
| "sync_wait (Suc k) n =
     kbind (kget (\<lambda>s. ncommit (lg s))) (\<lambda>c.
     if c < n then kseq log_sleep (sync_wait k n) else kret ())"

definition sys_sync :: "'z log_state_scheme \<Rightarrow> ('z log_state_scheme, u64) kres" where
  "sys_sync =
     kseq (acquire LogLock) (
     kbind (kget lg) (\<lambda>l.
     kseq (kwhen (committing l \<or> 0 < outstanding l)
            (kbind (kget sfuel) (\<lambda>k. sync_wait k (ncommit l + 1)))) (
     kseq (release LogLock) (kret 0))))"

end
