(* ===== verification/Fs.thy ===== *)
theory Fs
  imports Log
begin

text \<open>
  The file system, \<^verbatim>\<open>kernel/fs.c\<close>, with the on-disk layout of \<^verbatim>\<open>kernel/fs.h\<close> and the in-memory inode
  of \<^verbatim>\<open>kernel/file.h\<close>: block allocation, inodes, inode contents, directories and path names.

  An in-memory inode is its index in \<^verbatim>\<open>itable.inode[]\<close>. Path names and names are lists of bytes
  without the terminating NUL. A kernel object that \<^verbatim>\<open>readi\<close> fills (a local variable whose address
  is passed) is the list of bytes that the model's \<open>readi\<close> returns; user memory and physical
  memory are written in place.
\<close>

unbundle bit_operations_syntax

definition NINODE :: nat where "NINODE = 50"
definition NDIRECT :: nat where "NDIRECT = 12"
definition NINDIRECT :: nat where "NINDIRECT = BSIZE div 4"
definition MAXFILE :: nat where "MAXFILE = NDIRECT + NINDIRECT"
definition BPB :: nat where "BPB = BSIZE * 8"
definition DIRSIZ :: nat where "DIRSIZ = 14"
definition FSMAGIC :: u32 where "FSMAGIC = 0x10203040"
definition ROOTDEV :: u32 where "ROOTDEV = 1"
definition ROOTINO :: u32 where "ROOTINO = 1"
definition T_DIR :: u16 where "T_DIR = 1"
definition T_FILE :: u16 where "T_FILE = 2"
definition T_DEVICE :: u16 where "T_DEVICE = 3"

text \<open>\<^verbatim>\<open>struct dinode\<close> has 64 bytes.\<close>

definition IPB :: nat where "IPB = BSIZE div 64"

record inode =
  i_dev :: u32
  i_inum :: u32
  i_ref :: int
  i_valid :: bool
  i_type :: u16
  i_major :: u16
  i_minor :: u16
  i_nlink :: u16
  i_size :: u32
  i_addrs :: "nat \<Rightarrow> u32"

record fs_state = log_state +
  itab :: "nat \<Rightarrow> inode"
  sb :: superblock

definition IBLOCK :: "u32 \<Rightarrow> superblock \<Rightarrow> u32" where
  "IBLOCK i b = i div of_nat IPB + sb_inodestart b"

definition BBLOCK :: "u32 \<Rightarrow> superblock \<Rightarrow> u32" where
  "BBLOCK n b = n div of_nat BPB + sb_bmapstart b"

definition upd_inode :: "nat \<Rightarrow> (inode \<Rightarrow> inode) \<Rightarrow> 'z fs_state_scheme \<Rightarrow> 'z fs_state_scheme" where
  "upd_inode ip f s = s\<lparr>itab := (itab s)(ip := f (itab s ip))\<rparr>"

definition get16 :: "block \<Rightarrow> nat \<Rightarrow> u16" where
  "get16 b off = word_of_int (uint (b off) + 256 * uint (b (off + 1)))"

definition put16 :: "block \<Rightarrow> nat \<Rightarrow> u16 \<Rightarrow> block" where
  "put16 b off v = (\<lambda>i. if i = off then ucast v else if i = off + 1 then ucast (drop_bit 8 v) else b i)"

definition set_data :: "nat \<Rightarrow> (block \<Rightarrow> block) \<Rightarrow> 'z bio_state_scheme \<Rightarrow> ('z bio_state_scheme, unit) kres" where
  "set_data b f = kmod (upd_buf b (\<lambda>v. v\<lparr>bdata := f (bdata v)\<rparr>))"

definition get_data :: "nat \<Rightarrow> 'z bio_state_scheme \<Rightarrow> ('z bio_state_scheme, block) kres" where
  "get_data b = kget (\<lambda>s. bdata (bufs s b))"

subsection \<open>The super block\<close>

definition readsb :: "u32 \<Rightarrow> 'z fs_state_scheme \<Rightarrow> ('z fs_state_scheme, superblock) kres" where
  "readsb d =
     kbind (bread d 1) (\<lambda>bp.
     kbind (get_data bp) (\<lambda>b.
     kseq (brelse bp) (
     kret \<lparr>sb_magic = get32 b 0, sb_size = get32 b 4, sb_nblocks = get32 b 8, sb_ninodes = get32 b 12,
           sb_nlog = get32 b 16, sb_logstart = get32 b 20, sb_inodestart = get32 b 24, sb_bmapstart = get32 b 28\<rparr>)))"

subsection \<open>Blocks\<close>

definition bzero :: "u32 \<Rightarrow> u32 \<Rightarrow> 'z fs_state_scheme \<Rightarrow> ('z fs_state_scheme, unit) kres" where
  "bzero d bno =
     kbind (bread d bno) (\<lambda>bp.
     kseq (set_data bp (\<lambda>_ _. 0)) (
     kseq (log_write bp) (
     brelse bp)))"

text \<open>The bit of block \<open>bi\<close> in a bitmap block, and the block with that bit set or cleared.\<close>

definition bmap_bit :: "block \<Rightarrow> nat \<Rightarrow> bool" where
  "bmap_bit b bi \<longleftrightarrow> b (bi div 8) AND push_bit (bi mod 8) 1 \<noteq> 0"

definition bmap_set :: "block \<Rightarrow> nat \<Rightarrow> block" where
  "bmap_set b bi = b(bi div 8 := b (bi div 8) OR push_bit (bi mod 8) 1)"

definition bmap_clear :: "block \<Rightarrow> nat \<Rightarrow> block" where
  "bmap_clear b bi = b(bi div 8 := b (bi div 8) AND NOT (push_bit (bi mod 8) 1))"

text \<open>The outer loop of \<^verbatim>\<open>balloc\<close>, over the first blocks of the bitmap blocks, and the inner search.\<close>

primrec balloc_loop :: "nat list \<Rightarrow> u32 \<Rightarrow> 'z fs_state_scheme \<Rightarrow> ('z fs_state_scheme, u32) kres" where
  "balloc_loop [] d = kret 0"
| "balloc_loop (b # bs) d =
     kbind (kget sb) (\<lambda>S.
     kbind (bread d (BBLOCK (of_nat b) S)) (\<lambda>bp.
     kbind (get_data bp) (\<lambda>data.
     case find (\<lambda>bi. \<not> bmap_bit data bi) [0..<min BPB (unat (sb_size S) - b)] of
       Some bi \<Rightarrow>
         kseq (set_data bp (\<lambda>data. bmap_set data bi)) (
         kseq (log_write bp) (
         kseq (brelse bp) (
         kseq (bzero d (of_nat (b + bi))) (kret (of_nat (b + bi))))))
     | None \<Rightarrow> kseq (brelse bp) (balloc_loop bs d))))"

definition balloc :: "u32 \<Rightarrow> 'z fs_state_scheme \<Rightarrow> ('z fs_state_scheme, u32) kres" where
  "balloc d =
     kbind (kget (\<lambda>s. unat (sb_size (sb s)))) (\<lambda>n.
     balloc_loop (map (\<lambda>k. k * BPB) [0..<(n + BPB - 1) div BPB]) d)"

definition bfree :: "u32 \<Rightarrow> u32 \<Rightarrow> 'z fs_state_scheme \<Rightarrow> ('z fs_state_scheme, unit) kres" where
  "bfree d b =
     kbind (kget sb) (\<lambda>S.
     kbind (bread d (BBLOCK b S)) (\<lambda>bp.
     kbind (get_data bp) (\<lambda>data.
     let bi = unat b mod BPB in
     if \<not> bmap_bit data bi then kpanic ''freeing free block''
     else kseq (set_data bp (\<lambda>data. bmap_clear data bi)) (
          kseq (log_write bp) (
          brelse bp)))))"

subsection \<open>Inodes\<close>

definition iinit :: "'z fs_state_scheme \<Rightarrow> ('z fs_state_scheme, unit) kres" where
  "iinit =
     kseq (initlock ItableLock ''itable'') (
     kfor [0..<NINODE] (\<lambda>i. initsleeplock (InodeLk i) ''inode''))"

text \<open>The on-disk inode number \<open>i\<close> of its block: its offset and its fields.\<close>

definition dino :: "u32 \<Rightarrow> nat" where
  "dino i = 64 * (unat i mod IPB)"

definition din_type :: "block \<Rightarrow> u32 \<Rightarrow> u16" where
  "din_type b i = get16 b (dino i)"

definition din_nlink :: "block \<Rightarrow> u32 \<Rightarrow> u16" where
  "din_nlink b i = get16 b (dino i + 6)"

definition din_put :: "u32 \<Rightarrow> inode \<Rightarrow> block \<Rightarrow> block" where
  "din_put i v b = fold (\<lambda>k c. put32 c (dino i + 12 + 4 * k) (i_addrs v k)) [0..<NDIRECT + 1]
     (put32 (put16 (put16 (put16 (put16 b (dino i) (i_type v)) (dino i + 2) (i_major v)) (dino i + 4) (i_minor v))
        (dino i + 6) (i_nlink v)) (dino i + 8) (i_size v))"

definition din_get :: "u32 \<Rightarrow> block \<Rightarrow> inode \<Rightarrow> inode" where
  "din_get i b v = v\<lparr>i_type := get16 b (dino i), i_major := get16 b (dino i + 2), i_minor := get16 b (dino i + 4),
     i_nlink := get16 b (dino i + 6), i_size := get32 b (dino i + 8),
     i_addrs := (\<lambda>k. if k < NDIRECT + 1 then get32 b (dino i + 12 + 4 * k) else i_addrs v k)\<rparr>"

text \<open>\<^verbatim>\<open>iget\<close>: the first entry in use for the inode, else the first entry with no reference.\<close>

definition iget :: "u32 \<Rightarrow> u32 \<Rightarrow> 'z fs_state_scheme \<Rightarrow> ('z fs_state_scheme, nat) kres" where
  "iget d i =
     kseq (acquire ItableLock) (
     kbind (kget itab) (\<lambda>t.
     case find (\<lambda>k. 0 < i_ref (t k) \<and> i_dev (t k) = d \<and> i_inum (t k) = i) [0..<NINODE] of
       Some ip \<Rightarrow>
         kseq (kmod (upd_inode ip (\<lambda>v. v\<lparr>i_ref := i_ref v + 1\<rparr>))) (
         kseq (release ItableLock) (kret ip))
     | None \<Rightarrow>
         (case find (\<lambda>k. i_ref (t k) = 0) [0..<NINODE] of
            None \<Rightarrow> kpanic ''iget: no inodes''
          | Some ip \<Rightarrow>
              kseq (kmod (upd_inode ip (\<lambda>v. v\<lparr>i_dev := d, i_inum := i, i_ref := 1, i_valid := False\<rparr>))) (
              kseq (release ItableLock) (kret ip)))))"

definition idup :: "nat \<Rightarrow> 'z fs_state_scheme \<Rightarrow> ('z fs_state_scheme, nat) kres" where
  "idup ip =
     kseq (acquire ItableLock) (
     kseq (kmod (upd_inode ip (\<lambda>v. v\<lparr>i_ref := i_ref v + 1\<rparr>))) (
     kseq (release ItableLock) (kret ip)))"

primrec ialloc_loop :: "nat list \<Rightarrow> u32 \<Rightarrow> u16 \<Rightarrow> 'z fs_state_scheme \<Rightarrow> ('z fs_state_scheme, nat option) kres" where
  "ialloc_loop [] d ty = kret None"
| "ialloc_loop (n # ns) d ty =
     kbind (kget sb) (\<lambda>S.
     kbind (bread d (IBLOCK (of_nat n) S)) (\<lambda>bp.
     kbind (get_data bp) (\<lambda>data.
     if din_type data (of_nat n) = 0
     then kseq (set_data bp (\<lambda>b i. if dino (of_nat n) \<le> i \<and> i < dino (of_nat n) + 64 then 0 else b i)) (
          kseq (set_data bp (\<lambda>b. put16 b (dino (of_nat n)) ty)) (
          kseq (log_write bp) (
          kseq (brelse bp) (
          kbind (iget d (of_nat n)) (\<lambda>ip. kret (Some ip))))))
     else kseq (brelse bp) (ialloc_loop ns d ty))))"

definition ialloc :: "u32 \<Rightarrow> u16 \<Rightarrow> 'z fs_state_scheme \<Rightarrow> ('z fs_state_scheme, nat option) kres" where
  "ialloc d ty = kbind (kget (\<lambda>s. unat (sb_ninodes (sb s)))) (\<lambda>n. ialloc_loop [1..<n] d ty)"

definition iupdate :: "nat \<Rightarrow> 'z fs_state_scheme \<Rightarrow> ('z fs_state_scheme, unit) kres" where
  "iupdate ip =
     kbind (kget (\<lambda>s. (itab s ip, sb s))) (\<lambda>(v, S).
     kbind (bread (i_dev v) (IBLOCK (i_inum v) S)) (\<lambda>bp.
     kseq (set_data bp (din_put (i_inum v) v)) (
     kseq (log_write bp) (
     brelse bp))))"

definition ilock :: "nat \<Rightarrow> 'z fs_state_scheme \<Rightarrow> ('z fs_state_scheme, unit) kres" where
  "ilock ip =
     kbind (kget (\<lambda>s. i_ref (itab s ip))) (\<lambda>r.
     if r < 1 then kpanic ''ilock''
     else
       kseq (acquiresleep (InodeLk ip)) (
       kbind (kget (\<lambda>s. (itab s ip, sb s))) (\<lambda>(v, S).
       kwhen (\<not> i_valid v) (
         kbind (bread (i_dev v) (IBLOCK (i_inum v) S)) (\<lambda>bp.
         kbind (get_data bp) (\<lambda>data.
         kseq (kmod (upd_inode ip (din_get (i_inum v) data))) (
         kseq (brelse bp) (
         kseq (kmod (upd_inode ip (\<lambda>v. v\<lparr>i_valid := True\<rparr>))) (
         kbind (kget (\<lambda>s. i_type (itab s ip))) (\<lambda>ty.
         kwhen (ty = 0) (kpanic ''ilock: no type'')))))))))))"

definition iunlock :: "nat \<Rightarrow> 'z fs_state_scheme \<Rightarrow> ('z fs_state_scheme, unit) kres" where
  "iunlock ip =
     kbind (holdingsleep (InodeLk ip)) (\<lambda>h.
     kbind (kget (\<lambda>s. i_ref (itab s ip))) (\<lambda>r.
     if \<not> h \<or> r < 1 then kpanic ''iunlock'' else releasesleep (InodeLk ip)))"

definition ifree :: "u32 \<Rightarrow> u32 \<Rightarrow> 'z fs_state_scheme \<Rightarrow> ('z fs_state_scheme, unit) kres" where
  "ifree d i =
     kbind (kget sb) (\<lambda>S.
     kbind (bread d (IBLOCK i S)) (\<lambda>bp.
     kseq (set_data bp (\<lambda>b. put16 b (dino i) 0)) (
     kseq (log_write bp) (
     brelse bp))))"

definition itrunc_direct :: "nat \<Rightarrow> nat \<Rightarrow> 'z fs_state_scheme \<Rightarrow> ('z fs_state_scheme, unit) kres" where
  "itrunc_direct ip i =
     kbind (kget (\<lambda>s. itab s ip)) (\<lambda>v.
     kwhen (i_addrs v i \<noteq> 0) (
       kseq (bfree (i_dev v) (i_addrs v i)) (
       kmod (upd_inode ip (\<lambda>v. v\<lparr>i_addrs := (i_addrs v)(i := 0)\<rparr>)))))"

definition itrunc_indirect :: "nat \<Rightarrow> 'z fs_state_scheme \<Rightarrow> ('z fs_state_scheme, unit) kres" where
  "itrunc_indirect ip =
     kbind (kget (\<lambda>s. itab s ip)) (\<lambda>v.
     kwhen (i_addrs v NDIRECT \<noteq> 0) (
       kbind (bread (i_dev v) (i_addrs v NDIRECT)) (\<lambda>bp.
       kseq (kfor [0..<NINDIRECT] (\<lambda>j.
         kbind (get_data bp) (\<lambda>a.
         kwhen (get32 a (4 * j) \<noteq> 0) (bfree (i_dev v) (get32 a (4 * j)))))) (
       kseq (brelse bp) (
       kseq (bfree (i_dev v) (i_addrs v NDIRECT)) (
       kmod (upd_inode ip (\<lambda>v. v\<lparr>i_addrs := (i_addrs v)(NDIRECT := 0)\<rparr>))))))))"

definition itrunc :: "nat \<Rightarrow> 'z fs_state_scheme \<Rightarrow> ('z fs_state_scheme, unit) kres" where
  "itrunc ip =
     kseq (kfor [0..<NDIRECT] (itrunc_direct ip)) (
     kseq (itrunc_indirect ip) (
     kseq (kmod (upd_inode ip (\<lambda>v. v\<lparr>i_size := 0\<rparr>))) (
     iupdate ip)))"

definition iput :: "nat \<Rightarrow> 'z fs_state_scheme \<Rightarrow> ('z fs_state_scheme, unit) kres" where
  "iput ip =
     kseq (acquire ItableLock) (
     kbind (kget (\<lambda>s. itab s ip)) (\<lambda>v.
     let final = (i_ref v = 1 \<and> i_valid v \<and> i_nlink v = 0) in
     kseq (kwhen final (
       kseq (acquiresleep (InodeLk ip)) (
       kseq (release ItableLock) (
       kseq (itrunc ip) (
       kseq (kmod (upd_inode ip (\<lambda>v. v\<lparr>i_valid := False\<rparr>))) (
       kseq (releasesleep (InodeLk ip)) (
       acquire ItableLock))))))) (
     kseq (kmod (upd_inode ip (\<lambda>v. v\<lparr>i_ref := i_ref v - 1\<rparr>))) (
     kseq (release ItableLock) (
     kwhen final (ifree (i_dev v) (i_inum v)))))))"

definition iunlockput :: "nat \<Rightarrow> 'z fs_state_scheme \<Rightarrow> ('z fs_state_scheme, unit) kres" where
  "iunlockput ip = kseq (iunlock ip) (iput ip)"

definition ireclaim_one :: "u32 \<Rightarrow> nat \<Rightarrow> 'z fs_state_scheme \<Rightarrow> ('z fs_state_scheme, unit) kres" where
  "ireclaim_one d n =
     kbind (kget sb) (\<lambda>S.
     kbind (bread d (IBLOCK (of_nat n) S)) (\<lambda>bp.
     kbind (get_data bp) (\<lambda>data.
     kbind (if din_type data (of_nat n) \<noteq> 0 \<and> din_nlink data (of_nat n) = 0
            then kbind (iget d (of_nat n)) (\<lambda>ip. kret (Some ip)) else kret None) (\<lambda>r.
     kseq (brelse bp) (
     case r of None \<Rightarrow> kret ()
     | Some ip \<Rightarrow> kseq begin_op (kseq (ilock ip) (kseq (iunlock ip) (kseq (iput ip) end_op))))))))"

definition ireclaim :: "u32 \<Rightarrow> 'z fs_state_scheme \<Rightarrow> ('z fs_state_scheme, unit) kres" where
  "ireclaim d = kbind (kget (\<lambda>s. unat (sb_ninodes (sb s)))) (\<lambda>n. kfor [1..<n] (ireclaim_one d))"

definition fsinit :: "u32 \<Rightarrow> 'z fs_state_scheme \<Rightarrow> ('z fs_state_scheme, unit) kres" where
  "fsinit d =
     kbind (readsb d) (\<lambda>S.
     kseq (kmod (\<lambda>s. s\<lparr>sb := S\<rparr>)) (
     if sb_magic S \<noteq> FSMAGIC then kpanic ''invalid file system''
     else kseq (initlog d S) (ireclaim d)))"

subsection \<open>Inode contents\<close>

definition bmap :: "nat \<Rightarrow> nat \<Rightarrow> 'z fs_state_scheme \<Rightarrow> ('z fs_state_scheme, u32) kres" where
  "bmap ip bn =
     kbind (kget (\<lambda>s. itab s ip)) (\<lambda>v.
     if bn < NDIRECT
     then if i_addrs v bn \<noteq> 0 then kret (i_addrs v bn)
          else kbind (balloc (i_dev v)) (\<lambda>addr.
            if addr = 0 then kret 0
            else kseq (kmod (upd_inode ip (\<lambda>v. v\<lparr>i_addrs := (i_addrs v)(bn := addr)\<rparr>))) (kret addr))
     else if bn - NDIRECT < NINDIRECT
     then kbind (if i_addrs v NDIRECT \<noteq> 0 then kret (i_addrs v NDIRECT)
                 else kbind (balloc (i_dev v)) (\<lambda>addr.
                   if addr = 0 then kret 0
                   else kseq (kmod (upd_inode ip (\<lambda>v. v\<lparr>i_addrs := (i_addrs v)(NDIRECT := addr)\<rparr>))) (kret addr))) (\<lambda>ind.
          if ind = 0 then kret 0
          else kbind (bread (i_dev v) ind) (\<lambda>bp.
            kbind (get_data bp) (\<lambda>a.
            kbind (if get32 a (4 * (bn - NDIRECT)) \<noteq> 0 then kret (get32 a (4 * (bn - NDIRECT)))
                   else kbind (balloc (i_dev v)) (\<lambda>addr.
                     if addr = 0 then kret 0
                     else kseq (set_data bp (\<lambda>a. put32 a (4 * (bn - NDIRECT)) addr)) (
                          kseq (log_write bp) (kret addr)))) (\<lambda>addr.
            kseq (brelse bp) (kret addr)))))
     else kpanic ''bmap: out of range'')"

record stat =
  st_dev :: u32
  st_ino :: u32
  st_type :: u16
  st_nlink :: u16
  st_size :: u64

definition stati :: "nat \<Rightarrow> 'z fs_state_scheme \<Rightarrow> stat" where
  "stati ip s = (let v = itab s ip in
     \<lparr>st_dev = i_dev v, st_ino = i_inum v, st_type = i_type v, st_nlink = i_nlink v, st_size = ucast (i_size v)\<rparr>)"

text \<open>
  Where \<^verbatim>\<open>readi\<close> delivers: a user address, an address in physical memory, or a local variable of
  the caller; and where \<^verbatim>\<open>writei\<close> takes from. \<^verbatim>\<open>either_copyout\<close> and \<^verbatim>\<open>either_copyin\<close> are in
  \<^verbatim>\<open>kernel/proc.c\<close>.
\<close>

datatype iodst = ToUser u64 | ToPhys u64 | ToBuf
datatype iosrc = FromUser u64 | FromBuf "u8 list"

primrec dst_plus :: "iodst \<Rightarrow> nat \<Rightarrow> iodst" where
  "dst_plus (ToUser a) k = ToUser (a + of_nat k)"
| "dst_plus (ToPhys a) k = ToPhys (a + of_nat k)"
| "dst_plus ToBuf k = ToBuf"

primrec src_plus :: "iosrc \<Rightarrow> nat \<Rightarrow> iosrc" where
  "src_plus (FromUser a) k = FromUser (a + of_nat k)"
| "src_plus (FromBuf bs) k = FromBuf (drop k bs)"

definition either_copyout :: "iodst \<Rightarrow> u8 list \<Rightarrow> 'z sched_state_scheme \<Rightarrow> ('z sched_state_scheme, int) kres" where
  "either_copyout dst src =
     kbind myproc (\<lambda>p.
     case dst of
       ToUser a \<Rightarrow> (case p of None \<Rightarrow> kub
         | Some p \<Rightarrow> kbind (kget (\<lambda>s. procs s p)) (\<lambda>r. copyout (pagetable r) (sz r) a src))
     | ToPhys a \<Rightarrow> kseq (kmod (\<lambda>s. s\<lparr>phys := store_bytes (phys s) a src\<rparr>)) (kret 0)
     | ToBuf \<Rightarrow> kret 0)"

definition either_copyin :: "iosrc \<Rightarrow> nat \<Rightarrow> 'z sched_state_scheme \<Rightarrow> ('z sched_state_scheme, int \<times> u8 list) kres" where
  "either_copyin src n =
     kbind myproc (\<lambda>p.
     case src of
       FromUser a \<Rightarrow> (case p of None \<Rightarrow> kub
         | Some p \<Rightarrow> kbind (kget (\<lambda>s. procs s p)) (\<lambda>r. copyin (pagetable r) (sz r) a n))
     | FromBuf bs \<Rightarrow> kret (0, take n bs))"

text \<open>How many bytes of the rest of a transfer lie in the block of offset \<open>off\<close>.\<close>

definition blk_chunk :: "nat \<Rightarrow> nat \<Rightarrow> nat" where
  "blk_chunk off n = min n (BSIZE - off mod BSIZE)"

lemma blk_chunk_pos: "0 < n \<Longrightarrow> 0 < blk_chunk off n"
  by (simp add: blk_chunk_def BSIZE_def)

definition block_bytes :: "block \<Rightarrow> nat \<Rightarrow> nat \<Rightarrow> u8 list" where
  "block_bytes b off n = map (\<lambda>i. b (off + i)) [0..<n]"

definition put_bytes :: "block \<Rightarrow> nat \<Rightarrow> u8 list \<Rightarrow> block" where
  "put_bytes b off bs = (\<lambda>i. if off \<le> i \<and> i < off + length bs then bs ! (i - off) else b i)"

text \<open>The loop of \<^verbatim>\<open>readi\<close> with \<open>n\<close> bytes to go and \<open>tot\<close> done: the count (-1: a failed copy) and the bytes.\<close>

function readi_loop :: "nat \<Rightarrow> iodst \<Rightarrow> nat \<Rightarrow> nat \<Rightarrow> nat \<Rightarrow> 'z fs_state_scheme \<Rightarrow> ('z fs_state_scheme, int \<times> u8 list) kres" where
  "readi_loop ip dst off n tot =
     (if n = 0 then kret (int tot, [])
      else kbind (bmap ip (off div BSIZE)) (\<lambda>addr.
        if addr = 0 then kret (int tot, [])
        else kbind (kget (\<lambda>s. i_dev (itab s ip))) (\<lambda>d.
          kbind (bread d addr) (\<lambda>bp.
          kbind (get_data bp) (\<lambda>data.
          kbind (either_copyout dst (block_bytes data (off mod BSIZE) (blk_chunk off n))) (\<lambda>r.
          if r = - 1 then kseq (brelse bp) (kret (- 1, []))
          else kseq (brelse bp) (
            kbind (readi_loop ip (dst_plus dst (blk_chunk off n)) (off + blk_chunk off n) (n - blk_chunk off n) (tot + blk_chunk off n)) (\<lambda>(r, rest).
            kret (r, block_bytes data (off mod BSIZE) (blk_chunk off n) @ rest)))))))))"
  by pat_completeness auto
termination
  by (relation "measure (\<lambda>(ip, dst, off, n, tot). n)") (auto simp: blk_chunk_pos)

declare readi_loop.simps [simp del]

definition readi :: "nat \<Rightarrow> iodst \<Rightarrow> u32 \<Rightarrow> u32 \<Rightarrow> 'z fs_state_scheme \<Rightarrow> ('z fs_state_scheme, int \<times> u8 list) kres" where
  "readi ip dst off n =
     kbind (kget (\<lambda>s. i_size (itab s ip))) (\<lambda>size.
     if size < off \<or> off + n < off then kret (0, [])
     else readi_loop ip dst (unat off) (unat (if size < off + n then size - off else n)) 0)"

text \<open>The loop of \<^verbatim>\<open>writei\<close>: how many bytes were written. The offset it ends with is \<^verbatim>\<open>off\<close> plus that.\<close>

function writei_loop :: "nat \<Rightarrow> iosrc \<Rightarrow> nat \<Rightarrow> nat \<Rightarrow> nat \<Rightarrow> 'z fs_state_scheme \<Rightarrow> ('z fs_state_scheme, nat) kres" where
  "writei_loop ip src off n tot =
     (if n = 0 then kret tot
      else kbind (bmap ip (off div BSIZE)) (\<lambda>addr.
        if addr = 0 then kret tot
        else kbind (kget (\<lambda>s. i_dev (itab s ip))) (\<lambda>d.
          kbind (bread d addr) (\<lambda>bp.
          kbind (either_copyin src (blk_chunk off n)) (\<lambda>(r, bs).
          kseq (set_data bp (\<lambda>b. put_bytes b (off mod BSIZE) bs)) (
          kseq (log_write bp) (
          kseq (brelse bp) (
          if r = - 1 then kret tot
          else writei_loop ip (src_plus src (blk_chunk off n)) (off + blk_chunk off n) (n - blk_chunk off n) (tot + blk_chunk off n)))))))))"
  by pat_completeness auto
termination
  by (relation "measure (\<lambda>(ip, src, off, n, tot). n)") (auto simp: blk_chunk_pos)

declare writei_loop.simps [simp del]

definition writei :: "nat \<Rightarrow> iosrc \<Rightarrow> u32 \<Rightarrow> u32 \<Rightarrow> 'z fs_state_scheme \<Rightarrow> ('z fs_state_scheme, int) kres" where
  "writei ip src off n =
     kbind (kget (\<lambda>s. i_size (itab s ip))) (\<lambda>size.
     if size < off \<or> off + n < off then kret (- 1)
     else if of_nat (MAXFILE * BSIZE) < off + n then kret (- 1)
     else kbind (writei_loop ip src (unat off) (unat n) 0) (\<lambda>tot.
       kseq (kmod (upd_inode ip (\<lambda>v. if i_size v < off + of_nat tot then v\<lparr>i_size := off + of_nat tot\<rparr> else v))) (
       kseq (iupdate ip) (kret (int tot)))))"

subsection \<open>Directories\<close>

text \<open>
  Names are byte strings without the NUL; a byte behind the end of a list is the NUL. A
  directory entry has 16 bytes, the inode number and the name.
\<close>

definition byte_at :: "u8 list \<Rightarrow> nat \<Rightarrow> u8" where
  "byte_at s i = (if i < length s then s ! i else 0)"

primrec namecmp_loop :: "nat \<Rightarrow> nat \<Rightarrow> u8 list \<Rightarrow> u8 list \<Rightarrow> int" where
  "namecmp_loop 0 i s t = 0"
| "namecmp_loop (Suc n) i s t =
     (if byte_at s i \<noteq> 0 \<and> byte_at s i = byte_at t i then namecmp_loop n (Suc i) s t
      else uint (byte_at s i) - uint (byte_at t i))"

definition namecmp :: "u8 list \<Rightarrow> u8 list \<Rightarrow> int" where
  "namecmp s t = namecmp_loop DIRSIZ 0 s t"

definition de_inum :: "u8 list \<Rightarrow> u16" where
  "de_inum bs = word_of_int (uint (byte_at bs 0) + 256 * uint (byte_at bs 1))"

definition de_name :: "u8 list \<Rightarrow> u8 list" where
  "de_name bs = drop 2 bs"

text \<open>\<^verbatim>\<open>strncpy(de.name, name, DIRSIZ)\<close>, and the entry as bytes.\<close>

definition de_make :: "u16 \<Rightarrow> u8 list \<Rightarrow> u8 list" where
  "de_make i name = [ucast i, ucast (drop_bit 8 i)] @ take DIRSIZ (name @ replicate DIRSIZ 0)"

definition dir_offsets :: "u32 \<Rightarrow> nat list" where
  "dir_offsets fsz = map (\<lambda>k. 16 * k) [0..<(unat fsz + 15) div 16]"

primrec dirlookup_loop :: "nat list \<Rightarrow> nat \<Rightarrow> u8 list \<Rightarrow> 'z fs_state_scheme \<Rightarrow> ('z fs_state_scheme, (nat \<times> nat) option) kres" where
  "dirlookup_loop [] dp name = kret None"
| "dirlookup_loop (off # offs) dp name =
     kbind (readi dp ToBuf (of_nat off) 16) (\<lambda>(r, de).
     if r \<noteq> 16 then kpanic ''dirlookup read''
     else if de_inum de = 0 then dirlookup_loop offs dp name
     else if namecmp name (de_name de) = 0
     then kbind (kget (\<lambda>s. i_dev (itab s dp))) (\<lambda>d.
          kbind (iget d (ucast (de_inum de))) (\<lambda>ip. kret (Some (ip, off))))
     else dirlookup_loop offs dp name)"

definition dirlookup :: "nat \<Rightarrow> u8 list \<Rightarrow> 'z fs_state_scheme \<Rightarrow> ('z fs_state_scheme, (nat \<times> nat) option) kres" where
  "dirlookup dp name =
     kbind (kget (\<lambda>s. itab s dp)) (\<lambda>v.
     if i_type v \<noteq> T_DIR then kpanic ''dirlookup not DIR''
     else dirlookup_loop (dir_offsets (i_size v)) dp name)"

text \<open>The search for an empty entry: its offset, or the offset behind the last entry.\<close>

primrec dirlink_free :: "nat list \<Rightarrow> nat \<Rightarrow> nat \<Rightarrow> 'z fs_state_scheme \<Rightarrow> ('z fs_state_scheme, nat) kres" where
  "dirlink_free [] dp final = kret final"
| "dirlink_free (off # offs) dp final =
     kbind (readi dp ToBuf (of_nat off) 16) (\<lambda>(r, de).
     if r \<noteq> 16 then kpanic ''dirlink read''
     else if de_inum de = 0 then kret off
     else dirlink_free offs dp final)"

definition dirlink :: "nat \<Rightarrow> u8 list \<Rightarrow> u32 \<Rightarrow> 'z fs_state_scheme \<Rightarrow> ('z fs_state_scheme, int) kres" where
  "dirlink dp name i =
     kbind (dirlookup dp name) (\<lambda>r.
     case r of
       Some (ip, _) \<Rightarrow> kseq (iput ip) (kret (- 1))
     | None \<Rightarrow>
         kbind (kget (\<lambda>s. i_size (itab s dp))) (\<lambda>fsz.
         kbind (dirlink_free (dir_offsets fsz) dp (16 * length (dir_offsets fsz))) (\<lambda>off.
         kbind (writei dp (FromBuf (de_make (ucast i) name)) (of_nat off) 16) (\<lambda>r.
         kret (if r \<noteq> 16 then - 1 else 0)))))"

subsection \<open>Path names\<close>

definition SLASH :: u8 where "SLASH = 47"

text \<open>\<^verbatim>\<open>skipelem\<close>: the rest of the path and the next element, cut to \<^verbatim>\<open>DIRSIZ\<close> bytes.\<close>

definition skipelem :: "u8 list \<Rightarrow> (u8 list \<times> u8 list) option" where
  "skipelem path =
     (let path = dropWhile (\<lambda>c. c = SLASH) path in
      if path = [] then None
      else let elem = takeWhile (\<lambda>c. c \<noteq> SLASH) path;
               rest = dropWhile (\<lambda>c. c \<noteq> SLASH) path
           in Some (dropWhile (\<lambda>c. c = SLASH) rest, take DIRSIZ elem))"

lemma skipelem_shorter: "skipelem path = Some (rest, name) \<Longrightarrow> length rest < length path"
proof -
  assume a: "skipelem path = Some (rest, name)"
  let ?p = "dropWhile (\<lambda>c. c = SLASH) path"
  have ne: "?p \<noteq> []" and r: "rest = dropWhile (\<lambda>c. c = SLASH) (dropWhile (\<lambda>c. c \<noteq> SLASH) ?p)"
    using a by (auto simp: skipelem_def Let_def split: if_splits)
  have "hd ?p \<noteq> SLASH" using hd_dropWhile [of "\<lambda>c. c = SLASH" path] ne by simp
  then obtain c cs where "?p = c # cs" "c \<noteq> SLASH" using ne by (cases ?p) auto
  then have "length (dropWhile (\<lambda>c. c \<noteq> SLASH) ?p) < length ?p"
    using length_dropWhile_le [of "\<lambda>c. c \<noteq> SLASH" cs] by simp
  moreover have "length rest \<le> length (dropWhile (\<lambda>c. c \<noteq> SLASH) ?p)" using r length_dropWhile_le by metis
  moreover have "length ?p \<le> length path" by (rule length_dropWhile_le)
  ultimately show "length rest < length path" by linarith
qed

text \<open>The loop of \<^verbatim>\<open>namex\<close>; the result is the inode and the last element copied to \<^verbatim>\<open>name\<close>.\<close>

function namex_loop :: "u8 list \<Rightarrow> bool \<Rightarrow> nat \<Rightarrow> u8 list \<Rightarrow> 'z fs_state_scheme \<Rightarrow> ('z fs_state_scheme, nat option \<times> u8 list) kres" where
  "namex_loop path wantparent ip name =
     (case skipelem path of
        None \<Rightarrow> if wantparent then kseq (iput ip) (kret (None, name)) else kret (Some ip, name)
      | Some (path, name) \<Rightarrow>
          kseq (ilock ip) (
          kbind (kget (\<lambda>s. itab s ip)) (\<lambda>v.
          if i_type v \<noteq> T_DIR then kseq (iunlockput ip) (kret (None, name))
          else if i_nlink v = 0 then kseq (iunlockput ip) (kret (None, name))
          else if wantparent \<and> path = [] then kseq (iunlock ip) (kret (Some ip, name))
          else kbind (dirlookup ip name) (\<lambda>r.
            case r of
              None \<Rightarrow> kseq (iunlockput ip) (kret (None, name))
            | Some (next, _) \<Rightarrow> kseq (iunlockput ip) (namex_loop path wantparent next name)))))"
  by pat_completeness auto
termination
  by (relation "measure (\<lambda>(path, wantparent, ip, name). length path)") (auto dest: skipelem_shorter)

declare namex_loop.simps [simp del]

definition namex :: "u8 list \<Rightarrow> bool \<Rightarrow> 'z fs_state_scheme \<Rightarrow> ('z fs_state_scheme, nat option \<times> u8 list) kres" where
  "namex path wantparent =
     kbind (if byte_at path 0 = SLASH then iget ROOTDEV ROOTINO
            else with_proc (\<lambda>p. kbind (kget (\<lambda>s. cwd (procs s p))) (\<lambda>c.
              case c of None \<Rightarrow> kub | Some ip \<Rightarrow> idup ip))) (\<lambda>ip.
     namex_loop path wantparent ip [])"

definition namei :: "u8 list \<Rightarrow> 'z fs_state_scheme \<Rightarrow> ('z fs_state_scheme, nat option) kres" where
  "namei path = kbind (namex path False) (\<lambda>(r, _). kret r)"

definition nameiparent :: "u8 list \<Rightarrow> 'z fs_state_scheme \<Rightarrow> ('z fs_state_scheme, nat option \<times> u8 list) kres" where
  "nameiparent path = namex path True"

end
