(* ===== verification/Console.thy ===== *)
theory Console
  imports Fs
begin

text \<open>
  The UART driver (\<^verbatim>\<open>kernel/uart.c\<close>) and the console (\<^verbatim>\<open>kernel/console.c\<close>).

  The 16550 is hardware. A register delivers some sequence of values to the reads the driver
  makes: \<open>udev r k\<close> is the answer to the \<open>k\<close>th read of register \<open>r\<close>, arbitrary, and \<open>ureads r\<close> counts
  the reads so far. The values written to the registers are recorded in order in \<open>uwrites\<close>.

  The console keeps a ring of 128 characters between three 32-bit indices that wrap around: from
  \<open>c_r\<close> to \<open>c_w\<close> lie the characters that readers may take, from \<open>c_w\<close> to \<open>c_e\<close> the line being edited.
  What \<^verbatim>\<open>procdump\<close> prints is recorded in \<open>dumps\<close>.
\<close>

unbundle bit_operations_syntax

definition INPUT_BUF_SIZE :: u32 where "INPUT_BUF_SIZE = 128"
definition BACKSPACE :: int where "BACKSPACE = 0x100"

text \<open>\<^verbatim>\<open>C(x)\<close>, the character that control-x sends.\<close>

definition Ctrl :: "int \<Rightarrow> int" where "Ctrl x = x - 64"

definition RHR :: nat where "RHR = 0"
definition THR :: nat where "THR = 0"
definition IER :: nat where "IER = 1"
definition FCR :: nat where "FCR = 2"
definition ISR :: nat where "ISR = 2"
definition LCR :: nat where "LCR = 3"
definition LSR :: nat where "LSR = 5"
definition LSR_RX_READY :: u8 where "LSR_RX_READY = 1"
definition LSR_TX_IDLE :: u8 where "LSR_TX_IDLE = push_bit 5 1"

record cons =
  c_buf :: "u32 \<Rightarrow> u8"
  c_r :: u32
  c_w :: u32
  c_e :: u32

record cons_state = fs_state +
  cons_data :: cons
  udev :: "nat \<Rightarrow> nat \<Rightarrow> u8"
  ureads :: "nat \<Rightarrow> nat"
  uwrites :: "(nat \<times> u8) list"
  dumps :: "(int \<times> string \<times> string \<times> int \<times> int) list list"

definition upd_cons :: "(cons \<Rightarrow> cons) \<Rightarrow> 'z cons_state_scheme \<Rightarrow> 'z cons_state_scheme" where
  "upd_cons f s = s\<lparr>cons_data := f (cons_data s)\<rparr>"

subsection \<open>The UART\<close>

definition ReadReg :: "nat \<Rightarrow> 'z cons_state_scheme \<Rightarrow> ('z cons_state_scheme, u8) kres" where
  "ReadReg r =
     kbind (kget (\<lambda>s. udev s r (ureads s r))) (\<lambda>v.
     kseq (kmod (\<lambda>s. s\<lparr>ureads := (ureads s)(r := Suc (ureads s r))\<rparr>)) (kret v))"

definition WriteReg :: "nat \<Rightarrow> u8 \<Rightarrow> 'z cons_state_scheme \<Rightarrow> ('z cons_state_scheme, unit) kres" where
  "WriteReg r v = kmod (\<lambda>s. s\<lparr>uwrites := uwrites s @ [(r, v)]\<rparr>)"

definition uartinit :: "'z cons_state_scheme \<Rightarrow> ('z cons_state_scheme, unit) kres" where
  "uartinit =
     kseq (WriteReg IER 0x00) (
     kseq (WriteReg LCR (push_bit 7 1)) (
     kseq (WriteReg 0 0x03) (
     kseq (WriteReg 1 0x00) (
     kseq (WriteReg LCR (push_bit 0 3)) (
     kseq (WriteReg FCR (push_bit 0 1 OR push_bit 1 3)) (
     kseq (WriteReg IER (push_bit 1 1 OR push_bit 0 1)) (
     initsleeplock TxLk ''uart'')))))))"

text \<open>One unit of fuel per turn; a turn sends a character or sleeps until the transmitter is idle.\<close>

primrec uartwrite_loop :: "nat \<Rightarrow> u8 list \<Rightarrow> 'z cons_state_scheme \<Rightarrow> ('z cons_state_scheme, unit) kres" where
  "uartwrite_loop 0 buf = (\<lambda>s. Loop)"
| "uartwrite_loop (Suc fuel) buf =
     (case buf of
        [] \<Rightarrow> kret ()
      | c # cs \<Rightarrow>
          kseq (sleep_prepare (Some ChTx)) (
          kbind (ReadReg LSR) (\<lambda>v.
          if v AND LSR_TX_IDLE \<noteq> 0
          then kseq (WriteReg THR c) (uartwrite_loop fuel cs)
          else kseq sleep (uartwrite_loop fuel buf))))"

definition uartwrite :: "u8 list \<Rightarrow> 'z cons_state_scheme \<Rightarrow> ('z cons_state_scheme, unit) kres" where
  "uartwrite buf =
     kseq (acquiresleep TxLk) (
     kbind (kget sfuel) (\<lambda>n.
     kseq (uartwrite_loop (n + length buf) buf) (
     releasesleep TxLk)))"

text \<open>
  \<^verbatim>\<open>panicking\<close> and \<^verbatim>\<open>panicked\<close> are set by \<^verbatim>\<open>panic\<close> only, which ends the run in the model; here both
  are 0.
\<close>

primrec uart_spin :: "nat \<Rightarrow> 'z cons_state_scheme \<Rightarrow> ('z cons_state_scheme, unit) kres" where
  "uart_spin 0 = (\<lambda>s. Loop)"
| "uart_spin (Suc fuel) =
     kbind (ReadReg LSR) (\<lambda>v. if v AND LSR_TX_IDLE = 0 then uart_spin fuel else kret ())"

definition uartputc_sync :: "u8 \<Rightarrow> 'z cons_state_scheme \<Rightarrow> ('z cons_state_scheme, unit) kres" where
  "uartputc_sync c =
     kseq (push_off) (
     kbind (kget sfuel) (\<lambda>n.
     kseq (uart_spin n) (
     kseq (WriteReg THR c) (
     pop_off))))"

definition uartgetc :: "'z cons_state_scheme \<Rightarrow> ('z cons_state_scheme, int) kres" where
  "uartgetc =
     kbind (ReadReg LSR) (\<lambda>v.
     if v AND LSR_RX_READY \<noteq> 0 then kbind (ReadReg RHR) (\<lambda>c. kret (uint c)) else kret (- 1))"

subsection \<open>The console\<close>

definition consputc :: "int \<Rightarrow> 'z cons_state_scheme \<Rightarrow> ('z cons_state_scheme, unit) kres" where
  "consputc c =
     (if c = BACKSPACE
      then kseq (uartputc_sync 8) (kseq (uartputc_sync 32) (uartputc_sync 8))
      else uartputc_sync (word_of_int c))"

text \<open>The loop of \<^verbatim>\<open>consolewrite\<close>, with \<open>n\<close> characters to go and \<open>i\<close> sent.\<close>

function consolewrite_loop :: "iosrc \<Rightarrow> nat \<Rightarrow> int \<Rightarrow> 'z cons_state_scheme \<Rightarrow> ('z cons_state_scheme, int) kres" where
  "consolewrite_loop src n i =
     (if n = 0 then kret i
      else kbind (either_copyin src (min 32 n)) (\<lambda>(r, buf).
        if r = - 1 then kret i
        else kseq (uartwrite buf) (
          consolewrite_loop (src_plus src (min 32 n)) (n - min 32 n) (i + int (min 32 n)))))"
  by pat_completeness auto
termination
  by (relation "measure (\<lambda>(src, n, i). n)") auto

declare consolewrite_loop.simps [simp del]

definition consolewrite :: "iosrc \<Rightarrow> int \<Rightarrow> 'z cons_state_scheme \<Rightarrow> ('z cons_state_scheme, int) kres" where
  "consolewrite src n = consolewrite_loop src (nat n) 0"

text \<open>The wait for input: \<open>False\<close> if the reader was killed (and the lock released).\<close>

primrec consoleread_wait :: "nat \<Rightarrow> 'z cons_state_scheme \<Rightarrow> ('z cons_state_scheme, bool) kres" where
  "consoleread_wait 0 = (\<lambda>s. Loop)"
| "consoleread_wait (Suc fuel) =
     kbind (kget cons_data) (\<lambda>c.
     if c_r c \<noteq> c_w c then kret True
     else with_proc (\<lambda>p. kbind (killed p) (\<lambda>k.
       if k \<noteq> 0 then kseq (release ConsLock) (kret False)
       else kseq (sleep_prepare (Some ChCons)) (
            kseq (release ConsLock) (
            kseq sleep (
            kseq (acquire ConsLock) (
            consoleread_wait fuel)))))))"

text \<open>
  The loop of \<^verbatim>\<open>consoleread\<close> with \<open>n\<close> characters of room left of \<open>target\<close>: the room left at its
  end, or \<open>None\<close> if the process was killed.
\<close>

primrec consoleread_loop :: "nat \<Rightarrow> nat \<Rightarrow> iodst \<Rightarrow> 'z cons_state_scheme \<Rightarrow> ('z cons_state_scheme, nat option) kres" where
  "consoleread_loop 0 target dst = kret (Some 0)"
| "consoleread_loop (Suc n) target dst =
     kbind (kget sfuel) (\<lambda>fuel.
     kbind (consoleread_wait fuel) (\<lambda>ok.
     if \<not> ok then kret None
     else kbind (kget cons_data) (\<lambda>k.
       let c = c_buf k (c_r k mod INPUT_BUF_SIZE) in
       kseq (kmod (upd_cons (\<lambda>k. k\<lparr>c_r := c_r k + 1\<rparr>))) (
       if uint c = Ctrl 68
       then kseq (kwhen (Suc n < target) (kmod (upd_cons (\<lambda>k. k\<lparr>c_r := c_r k - 1\<rparr>)))) (kret (Some (Suc n)))
       else kbind (either_copyout dst [c]) (\<lambda>r.
         if r = - 1 then kret (Some (Suc n))
         else if c = 10 then kret (Some n)
         else consoleread_loop n target (dst_plus dst 1))))))"

definition consoleread :: "iodst \<Rightarrow> int \<Rightarrow> 'z cons_state_scheme \<Rightarrow> ('z cons_state_scheme, int) kres" where
  "consoleread dst n =
     kseq (acquire ConsLock) (
     kbind (consoleread_loop (nat n) (nat n) dst) (\<lambda>r.
     case r of
       None \<Rightarrow> kret (- 1)
     | Some left \<Rightarrow> kseq (release ConsLock) (kret (int (nat n) - int left))))"

text \<open>Control-U: erase back to the start of the line; at most as many characters as are in the ring.\<close>

primrec kill_line :: "nat \<Rightarrow> 'z cons_state_scheme \<Rightarrow> ('z cons_state_scheme, unit) kres" where
  "kill_line 0 = (\<lambda>s. Loop)"
| "kill_line (Suc fuel) =
     kbind (kget cons_data) (\<lambda>c.
     if c_e c \<noteq> c_w c \<and> c_buf c ((c_e c - 1) mod INPUT_BUF_SIZE) \<noteq> 10
     then kseq (kmod (upd_cons (\<lambda>c. c\<lparr>c_e := c_e c - 1\<rparr>))) (
          kseq (consputc BACKSPACE) (
          kill_line fuel))
     else kret ())"

text \<open>\<^verbatim>\<open>cons.buf[cons.e++ % INPUT_BUF_SIZE] = c\<close>\<close>

definition cons_put :: "u8 \<Rightarrow> cons \<Rightarrow> cons" where
  "cons_put ch c = c\<lparr>c_buf := (c_buf c)(c_e c mod INPUT_BUF_SIZE := ch), c_e := c_e c + 1\<rparr>"

text \<open>The \<^verbatim>\<open>switch\<close> over the key.\<close>

definition consoleintr_switch :: "int \<Rightarrow> 'z cons_state_scheme \<Rightarrow> ('z cons_state_scheme, unit) kres" where
  "consoleintr_switch c =
     (if c = Ctrl 80 then kmod (\<lambda>s. s\<lparr>dumps := dumps s @ [procdump s]\<rparr>)
      else if c = Ctrl 85 then kill_line (Suc (unat INPUT_BUF_SIZE))
      else if c = Ctrl 72 \<or> c = 0x7f
      then kbind (kget cons_data) (\<lambda>k.
           kwhen (c_e k \<noteq> c_w k) (
             kseq (kmod (upd_cons (\<lambda>k. k\<lparr>c_e := c_e k - 1\<rparr>))) (consputc BACKSPACE)))
      else kbind (kget cons_data) (\<lambda>k.
           kwhen (c \<noteq> 0 \<and> c_e k - c_r k < INPUT_BUF_SIZE) (
             let c = (if c = 13 then 10 else c) in
             kseq (consputc c) (
             kseq (kmod (upd_cons (cons_put (word_of_int c)))) (
             kbind (kget cons_data) (\<lambda>k.
             kwhen (c = 10 \<or> c = Ctrl 68 \<or> c_e k - c_r k = INPUT_BUF_SIZE) (
               kseq (kmod (upd_cons (\<lambda>k. k\<lparr>c_w := c_e k\<rparr>))) (
               wakeup (Some ChCons)))))))))"

definition consoleintr :: "int \<Rightarrow> 'z cons_state_scheme \<Rightarrow> ('z cons_state_scheme, unit) kres" where
  "consoleintr c =
     kseq (acquire ConsLock) (
     kseq (consoleintr_switch c) (
     release ConsLock))"

text \<open>The interrupt handler; one unit of fuel per character that is waiting.\<close>

primrec uartintr_loop :: "nat \<Rightarrow> 'z cons_state_scheme \<Rightarrow> ('z cons_state_scheme, unit) kres" where
  "uartintr_loop 0 = (\<lambda>s. Loop)"
| "uartintr_loop (Suc fuel) =
     kbind uartgetc (\<lambda>c. if c = - 1 then kret () else kseq (consoleintr c) (uartintr_loop fuel))"

definition uartintr :: "'z cons_state_scheme \<Rightarrow> ('z cons_state_scheme, unit) kres" where
  "uartintr =
     kbind (ReadReg ISR) (\<lambda>_.
     kbind (ReadReg LSR) (\<lambda>v.
     kseq (kwhen (v AND LSR_TX_IDLE \<noteq> 0) (wakeup (Some ChTx))) (
     kbind (kget sfuel) uartintr_loop)))"

end
