(* ===== verification/File.thy ===== *)
theory File
  imports Console
begin

text \<open>
  Open files: \<^verbatim>\<open>kernel/file.c\<close>, \<^verbatim>\<open>pipealloc\<close> of \<^verbatim>\<open>kernel/pipe.c\<close> and \<^verbatim>\<open>consoleinit\<close> of
  \<^verbatim>\<open>kernel/console.c\<close>, which fills in the device table. A file is its index in \<^verbatim>\<open>ftable.file[]\<close>.
\<close>

unbundle bit_operations_syntax

definition NFILE :: nat where "NFILE = 100"
definition NDEV :: int where "NDEV = 10"
definition CONSOLE :: nat where "CONSOLE = 1"

datatype filetype = FD_NONE | FD_PIPE | FD_INODE | FD_DEVICE

record file_rec =
  f_type :: filetype
  f_ref :: int
  f_readable :: bool
  f_writable :: bool
  f_pipe :: u64
  f_ip :: "nat option"
  f_off :: u32
  f_major :: u16

text \<open>The functions that a device table entry can point to.\<close>

datatype devread_fn = Fn_consoleread
datatype devwrite_fn = Fn_consolewrite

record devsw =
  dev_read :: "devread_fn option"
  dev_write :: "devwrite_fn option"

record file_state = cons_state +
  ftab :: "nat \<Rightarrow> file_rec"
  devsws :: "nat \<Rightarrow> devsw"

definition upd_file :: "nat \<Rightarrow> (file_rec \<Rightarrow> file_rec) \<Rightarrow> 'z file_state_scheme \<Rightarrow> 'z file_state_scheme" where
  "upd_file f g s = s\<lparr>ftab := (ftab s)(f := g (ftab s f))\<rparr>"

definition consoleinit :: "'z file_state_scheme \<Rightarrow> ('z file_state_scheme, unit) kres" where
  "consoleinit =
     kseq (initlock ConsLock ''cons'') (
     kseq uartinit (
     kseq (kmod (\<lambda>s. s\<lparr>devsws := (devsws s)(CONSOLE := (devsws s CONSOLE)\<lparr>dev_read := Some Fn_consoleread\<rparr>)\<rparr>)) (
     kmod (\<lambda>s. s\<lparr>devsws := (devsws s)(CONSOLE := (devsws s CONSOLE)\<lparr>dev_write := Some Fn_consolewrite\<rparr>)\<rparr>))))"

subsection \<open>The file table\<close>

definition fileinit :: "'z file_state_scheme \<Rightarrow> ('z file_state_scheme, unit) kres" where
  "fileinit = initlock FtableLock ''ftable''"

definition filealloc :: "'z file_state_scheme \<Rightarrow> ('z file_state_scheme, nat option) kres" where
  "filealloc =
     kseq (acquire FtableLock) (
     kbind (kget ftab) (\<lambda>t.
     case find (\<lambda>f. f_ref (t f) = 0) [0..<NFILE] of
       Some f \<Rightarrow>
         kseq (kmod (upd_file f (\<lambda>v. v\<lparr>f_ref := 1\<rparr>))) (
         kseq (release FtableLock) (kret (Some f)))
     | None \<Rightarrow> kseq (release FtableLock) (kret None)))"

definition filedup :: "nat \<Rightarrow> 'z file_state_scheme \<Rightarrow> ('z file_state_scheme, nat) kres" where
  "filedup f =
     kseq (acquire FtableLock) (
     kbind (kget (\<lambda>s. f_ref (ftab s f))) (\<lambda>r.
     if r < 1 then kpanic ''filedup''
     else kseq (kmod (upd_file f (\<lambda>v. v\<lparr>f_ref := f_ref v + 1\<rparr>))) (
          kseq (release FtableLock) (kret f))))"

text \<open>What \<^verbatim>\<open>fileclose\<close> does when the last reference is gone, with the copy \<open>ff\<close> of the file.\<close>

definition fileclose_last :: "file_rec \<Rightarrow> 'z file_state_scheme \<Rightarrow> ('z file_state_scheme, unit) kres" where
  "fileclose_last ff =
     (if f_type ff = FD_PIPE then pipeclose (f_pipe ff) (f_writable ff)
      else if f_type ff = FD_INODE \<or> f_type ff = FD_DEVICE
      then kseq begin_op (
           kseq (case f_ip ff of None \<Rightarrow> kub | Some ip \<Rightarrow> iput ip) (
           end_op))
      else kret ())"

definition fileclose :: "nat \<Rightarrow> 'z file_state_scheme \<Rightarrow> ('z file_state_scheme, unit) kres" where
  "fileclose f =
     kseq (acquire FtableLock) (
     kbind (kget (\<lambda>s. f_ref (ftab s f))) (\<lambda>r.
     if r < 1 then kpanic ''fileclose''
     else
       kseq (kmod (upd_file f (\<lambda>v. v\<lparr>f_ref := f_ref v - 1\<rparr>))) (
       if 0 < r - 1 then release FtableLock
       else kbind (kget (\<lambda>s. ftab s f)) (\<lambda>ff.
         kseq (kmod (upd_file f (\<lambda>v. v\<lparr>f_ref := 0, f_type := FD_NONE\<rparr>))) (
         kseq (release FtableLock) (
         fileclose_last ff))))))"

definition with_ip :: "nat option \<Rightarrow> (nat \<Rightarrow> 's \<Rightarrow> ('s, 'a) kres) \<Rightarrow> 's \<Rightarrow> ('s, 'a) kres" where
  "with_ip r f = (case r of None \<Rightarrow> kub | Some ip \<Rightarrow> f ip)"

text \<open>
  \<^verbatim>\<open>struct stat\<close> has 24 bytes; the four between \<^verbatim>\<open>nlink\<close> and \<^verbatim>\<open>size\<close> are padding that nobody sets, so
  they are whatever was on the kernel stack (\<open>pad\<close>).
\<close>

definition word_bytes :: "nat \<Rightarrow> 'a::len word \<Rightarrow> u8 list" where
  "word_bytes n w = map (\<lambda>i. ucast (drop_bit (8 * i) w)) [0..<n]"

definition stat_bytes :: "u8 list \<Rightarrow> stat \<Rightarrow> u8 list" where
  "stat_bytes pad st = word_bytes 4 (st_dev st) @ word_bytes 4 (st_ino st) @ word_bytes 2 (st_type st)
     @ word_bytes 2 (st_nlink st) @ pad @ word_bytes 8 (st_size st)"

definition filestat :: "u8 list \<Rightarrow> nat \<Rightarrow> u64 \<Rightarrow> 'z file_state_scheme \<Rightarrow> ('z file_state_scheme, int) kres" where
  "filestat pad f addr = with_proc (\<lambda>p.
     kbind (kget (\<lambda>s. ftab s f)) (\<lambda>ff.
     if f_type ff = FD_INODE \<or> f_type ff = FD_DEVICE
     then with_ip (f_ip ff) (\<lambda>ip.
          kseq (ilock ip) (
          kbind (kget (stati ip)) (\<lambda>st.
          kseq (iunlock ip) (
          kbind (kget (\<lambda>s. procs s p)) (\<lambda>r.
          kbind (copyout (pagetable r) (sz r) addr (stat_bytes pad st)) (\<lambda>e.
          kret (if e < 0 then - 1 else 0)))))))
     else kret (- 1)))"

definition fileread :: "nat \<Rightarrow> u64 \<Rightarrow> int \<Rightarrow> 'z file_state_scheme \<Rightarrow> ('z file_state_scheme, int) kres" where
  "fileread f addr n =
     kbind (kget (\<lambda>s. ftab s f)) (\<lambda>ff.
     if \<not> f_readable ff \<or> n < 0 then kret (- 1)
     else case f_type ff of
       FD_PIPE \<Rightarrow> kbind (kget sfuel) (\<lambda>fuel. piperead fuel (f_pipe ff) addr n)
     | FD_DEVICE \<Rightarrow>
         kbind (kget devsws) (\<lambda>d.
         if sint (f_major ff) < 0 \<or> NDEV \<le> sint (f_major ff) then kret (- 1)
         else case dev_read (d (unat (f_major ff))) of
           None \<Rightarrow> kret (- 1)
         | Some Fn_consoleread \<Rightarrow> consoleread (ToUser addr) n)
     | FD_INODE \<Rightarrow> with_ip (f_ip ff) (\<lambda>ip.
         kseq (ilock ip) (
         kbind (kget (\<lambda>s. f_off (ftab s f))) (\<lambda>off.
         kbind (readi ip (ToUser addr) off (word_of_int n)) (\<lambda>(r, _).
         kseq (kwhen (0 < r) (kmod (upd_file f (\<lambda>v. v\<lparr>f_off := f_off v + word_of_int r\<rparr>)))) (
         kseq (iunlock ip) (kret r))))))
     | FD_NONE \<Rightarrow> kpanic ''fileread'')"

text \<open>
  The loop of \<^verbatim>\<open>filewrite\<close> on an inode, with \<open>n\<close> bytes to go: whether all were written. One
  transaction writes at most \<open>FILE_MAX\<close> bytes.
\<close>

definition FILE_MAX :: nat where
  "FILE_MAX = (nat MAXOPBLOCKS - 1 - 1 - 2) div 2 * BSIZE"

lemma FILE_MAX_pos: "0 < FILE_MAX"
  by (simp add: FILE_MAX_def MAXOPBLOCKS_def BSIZE_def)

function filewrite_loop :: "nat \<Rightarrow> nat \<Rightarrow> u64 \<Rightarrow> nat \<Rightarrow> 'z file_state_scheme \<Rightarrow> ('z file_state_scheme, bool) kres" where
  "filewrite_loop f ip addr n =
     (if n = 0 then kret True
      else
        kseq begin_op (
        kseq (ilock ip) (
        kbind (kget (\<lambda>s. f_off (ftab s f))) (\<lambda>off.
        kbind (writei ip (FromUser addr) off (of_nat (min n FILE_MAX))) (\<lambda>r.
        kseq (kwhen (0 < r) (kmod (upd_file f (\<lambda>v. v\<lparr>f_off := f_off v + word_of_int r\<rparr>)))) (
        kseq (iunlock ip) (
        kseq end_op (
        if r \<noteq> int (min n FILE_MAX) then kret False
        else filewrite_loop f ip (addr + of_nat (min n FILE_MAX)) (n - min n FILE_MAX)))))))))"
  by pat_completeness auto
termination
  by (relation "measure (\<lambda>(f, ip, addr, n). n)") (auto simp: FILE_MAX_pos)

declare filewrite_loop.simps [simp del]

definition filewrite :: "nat \<Rightarrow> u64 \<Rightarrow> int \<Rightarrow> 'z file_state_scheme \<Rightarrow> ('z file_state_scheme, int) kres" where
  "filewrite f addr n =
     kbind (kget (\<lambda>s. ftab s f)) (\<lambda>ff.
     if \<not> f_writable ff \<or> n < 0 then kret (- 1)
     else case f_type ff of
       FD_PIPE \<Rightarrow> kbind (kget sfuel) (\<lambda>fuel. pipewrite (fuel + nat n) (f_pipe ff) addr n)
     | FD_DEVICE \<Rightarrow>
         kbind (kget devsws) (\<lambda>d.
         if sint (f_major ff) < 0 \<or> NDEV \<le> sint (f_major ff) then kret (- 1)
         else case dev_write (d (unat (f_major ff))) of
           None \<Rightarrow> kret (- 1)
         | Some Fn_consolewrite \<Rightarrow> consolewrite (FromUser addr) n)
     | FD_INODE \<Rightarrow> with_ip (f_ip ff) (\<lambda>ip.
         kbind (filewrite_loop f ip addr (nat n)) (\<lambda>ok. kret (if ok then n else - 1)))
     | FD_NONE \<Rightarrow> kpanic ''filewrite'')"

subsection \<open>Making a pipe\<close>

text \<open>The error exit of \<^verbatim>\<open>pipealloc\<close>, and the whole: the two ends, or \<open>None\<close> for the result -1.\<close>

definition pipealloc_bad :: "nat option \<Rightarrow> nat option \<Rightarrow> 'z file_state_scheme \<Rightarrow> ('z file_state_scheme, (nat \<times> nat) option) kres" where
  "pipealloc_bad f0 f1 =
     kseq (case f0 of None \<Rightarrow> kret () | Some f \<Rightarrow> fileclose f) (
     kseq (case f1 of None \<Rightarrow> kret () | Some f \<Rightarrow> fileclose f) (
     kret None))"

definition pipealloc :: "'z file_state_scheme \<Rightarrow> ('z file_state_scheme, (nat \<times> nat) option) kres" where
  "pipealloc =
     kbind filealloc (\<lambda>f0.
     case f0 of
       None \<Rightarrow> pipealloc_bad None None
     | Some g0 \<Rightarrow>
     kbind filealloc (\<lambda>f1.
     case f1 of
       None \<Rightarrow> pipealloc_bad f0 None
     | Some g1 \<Rightarrow>
     kbind kalloc (\<lambda>pi.
     if pi = 0 then pipealloc_bad f0 f1
     else
       kseq (kmod (upd_pipe pi (\<lambda>p. p\<lparr>readopen := True, writeopen := True, nwrite := 0, nread := 0\<rparr>))) (
       kseq (initlock (PipeLock pi) ''pipe'') (
       kseq (kmod (upd_file g0 (\<lambda>v. v\<lparr>f_type := FD_PIPE, f_readable := True, f_writable := False, f_pipe := pi\<rparr>))) (
       kseq (kmod (upd_file g1 (\<lambda>v. v\<lparr>f_type := FD_PIPE, f_readable := False, f_writable := True, f_pipe := pi\<rparr>))) (
       kret (Some (g0, g1)))))))))"

end
