(* ===== verification/Process.thy ===== *)
theory Process
  imports File
begin

text \<open>
  Creation and end of processes: \<^verbatim>\<open>allocproc\<close>, \<^verbatim>\<open>freeproc\<close>, the user page table, \<^verbatim>\<open>userinit\<close>, \<^verbatim>\<open>growproc\<close>,
  \<^verbatim>\<open>kfork\<close>, \<^verbatim>\<open>kexit\<close>, \<^verbatim>\<open>kwait\<close> of \<^verbatim>\<open>kernel/proc.c\<close>; the corresponding system calls of \<^verbatim>\<open>kernel/sysproc.c\<close>;
  the fetching of system call arguments from user memory, \<^verbatim>\<open>kernel/syscall.c\<close>.

  The addresses that the linker gives to the trampoline code, to the trap entry points and to
  \<^verbatim>\<open>etext\<close> are fields of the state that no routine changes. The control registers that only traps use
  are per hart; the interrupt-enable bit of \<^verbatim>\<open>sstatus\<close> is \<open>sie\<close> of the core.
\<close>

unbundle bit_operations_syntax

definition NOFILE :: nat where "NOFILE = 16"
definition SBRK_EAGER :: int where "SBRK_EAGER = 1"

record symtab =
  sym_etext :: u64
  sym_trampoline :: u64
  sym_uservec :: u64
  sym_userret :: u64
  sym_usertrap :: u64
  sym_kernelvec :: u64
  sym_forkret :: u64

record csrs =
  spp :: bool
  spie :: bool
  sepc :: u64
  scause :: u64
  stval :: u64
  stvec :: u64
  satp :: u64

record proc_state = file_state +
  syms :: symtab
  csr :: "nat \<Rightarrow> csrs"
  now :: u64
  kernel_pagetable :: u64
  first_run :: bool
  plic_dev :: "nat \<Rightarrow> int"
  plic_claims :: nat
  plic_writes :: "(u64 \<times> int) list"

subsection \<open>Page tables of processes\<close>

text \<open>The result 0 is the null page table.\<close>

definition proc_pagetable :: "nat \<Rightarrow> 'z proc_state_scheme \<Rightarrow> ('z proc_state_scheme, u64) kres" where
  "proc_pagetable p =
     kbind uvmcreate (\<lambda>pt.
     if pt = 0 then kret 0
     else kbind (kget (\<lambda>s. sym_trampoline (syms s))) (\<lambda>tr.
       kbind (mappages pt TRAMPOLINE PGSIZE tr (PTE_R OR PTE_X)) (\<lambda>r.
       if r < 0 then kseq (uvmfree pt 0) (kret 0)
       else kbind (kget (\<lambda>s. trapframe (procs s p))) (\<lambda>tf.
         kbind (mappages pt TRAPFRAME PGSIZE tf (PTE_R OR PTE_W)) (\<lambda>r.
         if r < 0
         then kseq (uvmunmap pt TRAMPOLINE 1 False) (kseq (uvmfree pt 0) (kret 0))
         else kret pt)))))"

definition proc_freepagetable :: "u64 \<Rightarrow> u64 \<Rightarrow> 'z proc_state_scheme \<Rightarrow> ('z proc_state_scheme, unit) kres" where
  "proc_freepagetable pt n =
     kseq (uvmunmap pt TRAMPOLINE 1 False) (
     kseq (uvmunmap pt TRAPFRAME 1 False) (
     uvmfree pt n))"

subsection \<open>Allocating and freeing a process\<close>

definition freeproc :: "nat \<Rightarrow> 'z proc_state_scheme \<Rightarrow> ('z proc_state_scheme, unit) kres" where
  "freeproc p =
     kbind (kget (\<lambda>s. procs s p)) (\<lambda>r.
     kseq (kwhen (trapframe r \<noteq> 0) (kfree (trapframe r))) (
     kseq (kmod (upd_proc p (\<lambda>r. r\<lparr>trapframe := 0\<rparr>))) (
     kseq (kwhen (pagetable r \<noteq> 0) (proc_freepagetable (pagetable r) (sz r))) (
     kmod (upd_proc p (\<lambda>r. r\<lparr>pagetable := 0, sz := 0, pid := 0, pname := [], chan := None,
             killed_flag := 0, xstate := 0, state := UNUSED\<rparr>))))))"

text \<open>The search of \<^verbatim>\<open>allocproc\<close>: it ends with the lock of the entry it has found held.\<close>

primrec allocproc_scan :: "nat list \<Rightarrow> 'z proc_state_scheme \<Rightarrow> ('z proc_state_scheme, nat option) kres" where
  "allocproc_scan [] = kret None"
| "allocproc_scan (p # ps) =
     kseq (acquire (ProcLock p)) (
     kbind (kget (\<lambda>s. state (procs s p))) (\<lambda>st.
     if st = UNUSED then kret (Some p)
     else kseq (release (ProcLock p)) (allocproc_scan ps)))"

definition allocproc_fail :: "nat \<Rightarrow> 'z proc_state_scheme \<Rightarrow> ('z proc_state_scheme, nat option) kres" where
  "allocproc_fail p = kseq (freeproc p) (kseq (release (ProcLock p)) (kret None))"

definition allocproc :: "'z proc_state_scheme \<Rightarrow> ('z proc_state_scheme, nat option) kres" where
  "allocproc =
     kbind (allocproc_scan [0..<NPROC]) (\<lambda>found.
     case found of
       None \<Rightarrow> kret None
     | Some p \<Rightarrow>
         kbind allocpid (\<lambda>i.
         kseq (kmod (upd_proc p (\<lambda>r. r\<lparr>pid := i, state := USED, queue := 0, tick := 0, inq := 0\<rparr>))) (
         kbind kalloc (\<lambda>tf.
         kseq (kmod (upd_proc p (\<lambda>r. r\<lparr>trapframe := tf\<rparr>))) (
         if tf = 0 then allocproc_fail p
         else kbind (proc_pagetable p) (\<lambda>pt.
           kseq (kmod (upd_proc p (\<lambda>r. r\<lparr>pagetable := pt\<rparr>))) (
           if pt = 0 then allocproc_fail p
           else kseq (kmod (\<lambda>s. upd_proc p (\<lambda>r. r\<lparr>pcontext := (\<lambda>_. 0)(C_ra := sym_forkret (syms s), C_sp := kstack r + PGSIZE)\<rparr>) s)) (
                kret (Some p)))))))))"

text \<open>Marking a new process runnable and queueing it on level 0.\<close>

definition start_proc :: "nat \<Rightarrow> 'z proc_state_scheme \<Rightarrow> ('z proc_state_scheme, unit) kres" where
  "start_proc p =
     kseq (kmod (upd_proc p (\<lambda>r. r\<lparr>state := RUNNABLE\<rparr>))) (
     kseq (acquire MlfqLock) (
     kseq (push p 0 True) (
     release MlfqLock)))"

definition userinit :: "'z proc_state_scheme \<Rightarrow> ('z proc_state_scheme, unit) kres" where
  "userinit =
     kbind allocproc (\<lambda>r.
     kseq (kmod (\<lambda>s. s\<lparr>initproc := r\<rparr>)) (
     case r of
       None \<Rightarrow> kub
     | Some p \<Rightarrow>
         kbind (namei [SLASH]) (\<lambda>ip.
         kseq (kmod (upd_proc p (\<lambda>r. r\<lparr>cwd := ip\<rparr>))) (
         kseq (start_proc p) (
         release (ProcLock p))))))"

definition growproc :: "int \<Rightarrow> 'z proc_state_scheme \<Rightarrow> ('z proc_state_scheme, int) kres" where
  "growproc n = with_proc (\<lambda>p.
     kbind (kget (\<lambda>s. procs s p)) (\<lambda>r.
     if 0 < n
     then if sz r + word_of_int n > TRAPFRAME then kret (- 1)
          else kbind (uvmalloc (pagetable r) (sz r) (sz r + word_of_int n) PTE_W) (\<lambda>nsz.
            if nsz = 0 then kret (- 1)
            else kseq (kmod (upd_proc p (\<lambda>r. r\<lparr>sz := nsz\<rparr>))) (kret 0))
     else if n < 0
     then kbind (uvmdealloc (pagetable r) (sz r) (sz r + word_of_int n)) (\<lambda>nsz.
          kseq (kmod (upd_proc p (\<lambda>r. r\<lparr>sz := nsz\<rparr>))) (kret 0))
     else kseq (kmod (upd_proc p (\<lambda>q. q\<lparr>sz := sz r\<rparr>))) (kret 0)))"

subsection \<open>Fork\<close>

text \<open>\<^verbatim>\<open>if (p->ofile[i]) np->ofile[i] = filedup(p->ofile[i]);\<close>\<close>

definition dup_ofile :: "nat \<Rightarrow> nat \<Rightarrow> nat \<Rightarrow> 'z proc_state_scheme \<Rightarrow> ('z proc_state_scheme, unit) kres" where
  "dup_ofile p np i =
     kbind (kget (\<lambda>s. ofile (procs s p) i)) (\<lambda>r.
     case r of
       None \<Rightarrow> kret ()
     | Some f \<Rightarrow> kbind (filedup f) (\<lambda>f. kmod (upd_proc np (\<lambda>r. r\<lparr>ofile := (ofile r)(i := Some f)\<rparr>))))"

definition copy_trapframe :: "nat \<Rightarrow> nat \<Rightarrow> 'z proc_state_scheme \<Rightarrow> ('z proc_state_scheme, unit) kres" where
  "copy_trapframe p np =
     kmod (\<lambda>s. s\<lparr>trapframes := (trapframes s)(trapframe (procs s np) := (trapframes s (trapframe (procs s p)))(T_a0 := 0))\<rparr>)"

definition kfork :: "'z proc_state_scheme \<Rightarrow> ('z proc_state_scheme, int) kres" where
  "kfork = with_proc (\<lambda>p.
     kbind allocproc (\<lambda>r.
     case r of
       None \<Rightarrow> kret (- 1)
     | Some np \<Rightarrow>
         kbind (kget (\<lambda>s. (procs s p, pagetable (procs s np)))) (\<lambda>(pr, npt).
         kbind (uvmcopy (pagetable pr) npt (sz pr)) (\<lambda>e.
         if e < 0 then kseq (freeproc np) (kseq (release (ProcLock np)) (kret (- 1)))
         else
           kseq (kmod (upd_proc np (\<lambda>r. r\<lparr>sz := sz pr\<rparr>))) (
           kseq (copy_trapframe p np) (
           kseq (kfor [0..<NOFILE] (dup_ofile p np)) (
           kbind (with_ip (cwd pr) idup) (\<lambda>ip.
           kseq (kmod (upd_proc np (\<lambda>r. r\<lparr>cwd := Some ip\<rparr>))) (
           kseq (kmod (upd_proc np (\<lambda>r. r\<lparr>pname := take 15 (pname pr)\<rparr>))) (
           kbind (kget (\<lambda>s. pid (procs s np))) (\<lambda>i.
           kseq (release (ProcLock np)) (
           kseq (acquire WaitLock) (
           kseq (kmod (upd_proc np (\<lambda>r. r\<lparr>parent := Some p\<rparr>))) (
           kseq (release WaitLock) (
           kseq (acquire (ProcLock np)) (
           kseq (start_proc np) (
           kseq (release (ProcLock np)) (
           kret i))))))))))))))))))"

subsection \<open>Exit and wait\<close>

definition close_ofile :: "nat \<Rightarrow> nat \<Rightarrow> 'z proc_state_scheme \<Rightarrow> ('z proc_state_scheme, unit) kres" where
  "close_ofile p fd =
     kbind (kget (\<lambda>s. ofile (procs s p) fd)) (\<lambda>r.
     case r of
       None \<Rightarrow> kret ()
     | Some f \<Rightarrow> kseq (fileclose f) (kmod (upd_proc p (\<lambda>r. r\<lparr>ofile := (ofile r)(fd := None)\<rparr>))))"

text \<open>
  \<^verbatim>\<open>kexit\<close> never returns. A \<^verbatim>\<open>wakeup\<close> of a null parent wakes the processes with a null channel.
\<close>

definition kexit :: "int \<Rightarrow> 'z proc_state_scheme \<Rightarrow> ('z proc_state_scheme, 'a) kres" where
  "kexit status = with_proc (\<lambda>p.
     kbind (kget initproc) (\<lambda>ip.
     if ip = Some p then kpanic ''init exiting''
     else
       kseq (kfor [0..<NOFILE] (close_ofile p)) (
       kseq begin_op (
       kseq (kbind (kget (\<lambda>s. cwd (procs s p))) (\<lambda>c. with_ip c iput)) (
       kseq end_op (
       kseq (kmod (upd_proc p (\<lambda>r. r\<lparr>cwd := None\<rparr>))) (
       kseq (acquire WaitLock) (
       kseq (reparent p) (
       kseq (kbind (kget (\<lambda>s. parent (procs s p))) (\<lambda>q. wakeup (map_option ChProc q))) (
       kseq (acquire (ProcLock p)) (
       kseq (kmod (upd_proc p (\<lambda>r. r\<lparr>xstate := status, state := ZOMBIE\<rparr>))) (
       kseq (release WaitLock) (
       kseq sched (
       kpanic ''zombie exit''))))))))))))))"

text \<open>
  One scan of the table for exited children of \<open>p\<close>: \<open>Inl r\<close> for a return of \<open>r\<close> inside it (with the
  locks released), \<open>Inr havekids\<close> at its end.
\<close>

primrec kwait_scan :: "nat \<Rightarrow> u64 \<Rightarrow> bool \<Rightarrow> nat list \<Rightarrow> 'z proc_state_scheme \<Rightarrow> ('z proc_state_scheme, int + bool) kres" where
  "kwait_scan p addr kids [] = kret (Inr kids)"
| "kwait_scan p addr kids (pp # ps) =
     kbind (kget (\<lambda>s. parent (procs s pp))) (\<lambda>par.
     if par \<noteq> Some p then kwait_scan p addr kids ps
     else
       kseq (acquire (ProcLock pp)) (
       kbind (kget (\<lambda>s. procs s pp)) (\<lambda>r.
       if state r \<noteq> ZOMBIE then kseq (release (ProcLock pp)) (kwait_scan p addr True ps)
       else
         kbind (if addr = 0 then kret 0
                else kbind (kget (\<lambda>s. procs s p)) (\<lambda>q.
                  copyout (pagetable q) (sz q) addr (word_bytes 4 (word_of_int (xstate r) :: u32)))) (\<lambda>e.
         if e < 0 then kseq (release (ProcLock pp)) (kseq (release WaitLock) (kret (Inl (- 1))))
         else
           kseq (kmod (upd_proc pp (\<lambda>r. r\<lparr>parent := None\<rparr>))) (
           kseq (freeproc pp) (
           kseq (release (ProcLock pp)) (
           kseq (release WaitLock) (
           kret (Inl (pid r))))))))))"

primrec kwait_loop :: "nat \<Rightarrow> nat \<Rightarrow> u64 \<Rightarrow> 'z proc_state_scheme \<Rightarrow> ('z proc_state_scheme, int) kres" where
  "kwait_loop 0 p addr = (\<lambda>s. Loop)"
| "kwait_loop (Suc n) p addr =
     kbind (kwait_scan p addr False [0..<NPROC]) (\<lambda>r.
     case r of
       Inl r \<Rightarrow> kret r
     | Inr kids \<Rightarrow>
         kbind (if \<not> kids then kret True else kbind (killed p) (\<lambda>k. kret (k \<noteq> 0))) (\<lambda>stop.
         if stop then kseq (release WaitLock) (kret (- 1))
         else
           kseq (sleep_prepare (Some (ChProc p))) (
           kseq (release WaitLock) (
           kseq sleep (
           kseq (acquire WaitLock) (
           kwait_loop n p addr))))))"

definition kwait :: "u64 \<Rightarrow> 'z proc_state_scheme \<Rightarrow> ('z proc_state_scheme, int) kres" where
  "kwait addr = with_proc (\<lambda>p.
     kseq (acquire WaitLock) (
     kbind (kget sfuel) (\<lambda>n. kwait_loop n p addr)))"

subsection \<open>System calls\<close>

definition sys_exit :: "'z proc_state_scheme \<Rightarrow> ('z proc_state_scheme, u64) kres" where
  "sys_exit = kbind (argint 0) (\<lambda>n. kexit n)"

definition sys_fork :: "'z proc_state_scheme \<Rightarrow> ('z proc_state_scheme, u64) kres" where
  "sys_fork = kbind kfork (\<lambda>r. kret (word_of_int r))"

definition sys_wait :: "'z proc_state_scheme \<Rightarrow> ('z proc_state_scheme, u64) kres" where
  "sys_wait = kbind (argaddr 0) (\<lambda>a. kbind (kwait a) (\<lambda>r. kret (word_of_int r)))"

definition sys_sbrk :: "'z proc_state_scheme \<Rightarrow> ('z proc_state_scheme, u64) kres" where
  "sys_sbrk =
     kbind (argint 0) (\<lambda>n.
     kbind (argint 1) (\<lambda>t.
     with_proc (\<lambda>p.
     kbind (kget (\<lambda>s. sz (procs s p))) (\<lambda>addr.
     if t = SBRK_EAGER \<or> n < 0
     then kbind (growproc n) (\<lambda>r. kret (if r < 0 then - 1 else addr))
     else if addr + word_of_int n < addr then kret (- 1)
     else if addr + word_of_int n > TRAPFRAME then kret (- 1)
     else kseq (kmod (upd_proc p (\<lambda>r. r\<lparr>sz := sz r + word_of_int n\<rparr>))) (kret addr)))))"

subsection \<open>Arguments in user memory\<close>

text \<open>The result of \<open>fetchaddr\<close> is the status and the word; that of \<open>fetchstr\<close> the length (or -1) and the string.\<close>

definition bytes_word :: "u8 list \<Rightarrow> 'a::len word" where
  "bytes_word bs = word_of_int (horner_sum uint 256 bs)"

definition fetchaddr :: "u64 \<Rightarrow> 'z proc_state_scheme \<Rightarrow> ('z proc_state_scheme, int \<times> u64) kres" where
  "fetchaddr addr = with_proc (\<lambda>p.
     kbind (kget (\<lambda>s. procs s p)) (\<lambda>r.
     if sz r \<le> addr \<or> sz r < addr + 8 then kret (- 1, 0)
     else kbind (copyin (pagetable r) (sz r) addr 8) (\<lambda>(e, bs).
       kret (if e \<noteq> 0 then (- 1, 0) else (0, bytes_word bs)))))"

definition fetchstr :: "u64 \<Rightarrow> nat \<Rightarrow> 'z proc_state_scheme \<Rightarrow> ('z proc_state_scheme, int \<times> u8 list) kres" where
  "fetchstr addr mx = with_proc (\<lambda>p.
     kbind (kget (\<lambda>s. procs s p)) (\<lambda>r.
     kbind (copyinstr (pagetable r) (sz r) addr mx) (\<lambda>(e, bs).
     let str = takeWhile (\<lambda>b. b \<noteq> 0) bs in
     kret (if e < 0 then (- 1, []) else (int (length str), str)))))"

definition argstr :: "nat \<Rightarrow> nat \<Rightarrow> 'z proc_state_scheme \<Rightarrow> ('z proc_state_scheme, int \<times> u8 list) kres" where
  "argstr n mx = kbind (argaddr n) (\<lambda>a. fetchstr a mx)"

end
