(* ===== verification/Exec.thy ===== *)
theory Exec
  imports Process
begin

text \<open>
  \<^verbatim>\<open>kernel/exec.c\<close>: loading an ELF image. The argument strings are lists of bytes without their NUL;
  the ELF header and the program headers are the lists of bytes that \<^verbatim>\<open>readi\<close> delivers, and their
  fields are read at the offsets that the structs of \<^verbatim>\<open>kernel/elf.h\<close> give them.
\<close>

unbundle bit_operations_syntax

definition MAXARG :: nat where "MAXARG = 32"
definition USERSTACK :: u64 where "USERSTACK = 1"
definition ELF_MAGIC :: u32 where "ELF_MAGIC = 0x464C457F"
definition ELF_PROG_LOAD :: u32 where "ELF_PROG_LOAD = 1"

record elfhdr =
  e_magic :: u32
  e_entry :: u64
  e_phoff :: u64
  e_phnum :: u16

record proghdr =
  ph_type :: u32
  ph_flags :: u32
  ph_off :: u64
  ph_vaddr :: u64
  ph_filesz :: u64
  ph_memsz :: u64

definition elfhdr_of :: "u8 list \<Rightarrow> elfhdr" where
  "elfhdr_of bs = \<lparr>e_magic = bytes_word (take 4 bs), e_entry = bytes_word (take 8 (drop 24 bs)),
     e_phoff = bytes_word (take 8 (drop 32 bs)), e_phnum = bytes_word (take 2 (drop 56 bs))\<rparr>"

definition proghdr_of :: "u8 list \<Rightarrow> proghdr" where
  "proghdr_of bs = \<lparr>ph_type = bytes_word (take 4 bs), ph_flags = bytes_word (take 4 (drop 4 bs)),
     ph_off = bytes_word (take 8 (drop 8 bs)), ph_vaddr = bytes_word (take 8 (drop 16 bs)),
     ph_filesz = bytes_word (take 8 (drop 32 bs)), ph_memsz = bytes_word (take 8 (drop 40 bs))\<rparr>"

definition flags2perm :: "u32 \<Rightarrow> u64" where
  "flags2perm flags =
     (let perm = (if flags AND 0x1 \<noteq> 0 then PTE_X else 0)
      in if flags AND 0x2 \<noteq> 0 then perm OR PTE_W else perm)"

text \<open>\<^verbatim>\<open>loadseg\<close> over the page offsets \<open>is\<close> of a segment of \<open>n\<close> bytes.\<close>

primrec loadseg_loop :: "nat list \<Rightarrow> u64 \<Rightarrow> u64 \<Rightarrow> nat \<Rightarrow> u32 \<Rightarrow> nat \<Rightarrow> 'z proc_state_scheme \<Rightarrow> ('z proc_state_scheme, int) kres" where
  "loadseg_loop [] pt va ip offset n = kret 0"
| "loadseg_loop (i # is) pt va ip offset n =
     kbind (walkaddr pt (va + of_nat i)) (\<lambda>pa.
     if pa = 0 then kpanic ''loadseg: address should exist''
     else
       let m = (if n - i < unat PGSIZE then n - i else unat PGSIZE) in
       kbind (readi ip (ToPhys pa) (offset + of_nat i) (of_nat m)) (\<lambda>(r, _).
       if r \<noteq> int m then kret (- 1)
       else loadseg_loop is pt va ip offset n))"

definition loadseg :: "u64 \<Rightarrow> u64 \<Rightarrow> nat \<Rightarrow> u32 \<Rightarrow> u32 \<Rightarrow> 'z proc_state_scheme \<Rightarrow> ('z proc_state_scheme, int) kres" where
  "loadseg pt va ip offset n =
     loadseg_loop (map (\<lambda>k. k * unat PGSIZE) [0..<(unat n + unat PGSIZE - 1) div unat PGSIZE]) pt va ip offset (unat n)"

text \<open>
  The loop over the program headers, with \<open>k\<close> of them left, the next one at \<open>off\<close>, and \<open>n\<close> bytes of
  the new image allocated. \<open>Inl n\<close> is \<^verbatim>\<open>goto bad\<close>, \<open>Inr n\<close> the end of the loop.
\<close>

primrec load_loop :: "nat \<Rightarrow> u32 \<Rightarrow> nat \<Rightarrow> u64 \<Rightarrow> u64 \<Rightarrow> 'z proc_state_scheme \<Rightarrow> ('z proc_state_scheme, u64 + u64) kres" where
  "load_loop 0 off ip pt n = kret (Inr n)"
| "load_loop (Suc k) off ip pt n =
     kbind (readi ip ToBuf off 56) (\<lambda>(r, bs).
     let ph = proghdr_of bs in
     if r \<noteq> 56 then kret (Inl n)
     else if ph_type ph \<noteq> ELF_PROG_LOAD then load_loop k (off + 56) ip pt n
     else if ph_memsz ph < ph_filesz ph then kret (Inl n)
     else if ph_vaddr ph + ph_memsz ph < ph_vaddr ph then kret (Inl n)
     else if ph_vaddr ph mod PGSIZE \<noteq> 0 then kret (Inl n)
     else kbind (uvmalloc pt n (ph_vaddr ph + ph_memsz ph) (flags2perm (ph_flags ph))) (\<lambda>sz1.
       if sz1 = 0 then kret (Inl n)
       else kbind (loadseg pt (ph_vaddr ph) ip (ucast (ph_off ph)) (ucast (ph_filesz ph))) (\<lambda>e.
         if e < 0 then kret (Inl sz1) else load_loop k (off + 56) ip pt sz1)))"

text \<open>
  Pushing the argument strings: the stack pointer and the pointers pushed so far, or \<open>None\<close> for
  \<^verbatim>\<open>goto bad\<close>. \<^verbatim>\<open>ustack\<close> has \<^verbatim>\<open>MAXARG\<close> entries.
\<close>

definition align16 :: "u64 \<Rightarrow> u64" where
  "align16 sp = sp - sp mod 16"

primrec push_args :: "u8 list list \<Rightarrow> u64 \<Rightarrow> u64 \<Rightarrow> u64 \<Rightarrow> u64 \<Rightarrow> u64 list \<Rightarrow> 'z proc_state_scheme \<Rightarrow> ('z proc_state_scheme, (u64 \<times> u64 list) option) kres" where
  "push_args [] pt n sp stackbase ustack = kret (Some (sp, ustack))"
| "push_args (a # args) pt n sp stackbase ustack =
     (let sp = align16 (sp - of_nat (length a + 1)) in
      if sp < stackbase then kret None
      else kbind (copyout pt n sp (a @ [0])) (\<lambda>e.
        if e < 0 then kret None
        else if MAXARG \<le> length ustack then kub
        else push_args args pt n sp stackbase (ustack @ [sp])))"

text \<open>The text behind the last slash of the path.\<close>

definition after_slash :: "u8 list \<Rightarrow> u8 list" where
  "after_slash path = rev (takeWhile (\<lambda>c. c \<noteq> SLASH) (rev path))"

definition kexec_bad :: "u64 \<Rightarrow> u64 \<Rightarrow> nat option \<Rightarrow> 'z proc_state_scheme \<Rightarrow> ('z proc_state_scheme, int) kres" where
  "kexec_bad pt n ip =
     kseq (kwhen (pt \<noteq> 0) (proc_freepagetable pt n)) (
     kseq (case ip of None \<Rightarrow> kret () | Some ip \<Rightarrow> kseq (iunlockput ip) end_op) (
     kret (- 1)))"

definition set_tf :: "nat \<Rightarrow> tfreg \<Rightarrow> u64 \<Rightarrow> 'z sched_state_scheme \<Rightarrow> ('z sched_state_scheme, unit) kres" where
  "set_tf p r v = kmod (\<lambda>s. s\<lparr>trapframes := (trapframes s)(trapframe (procs s p) := (trapframes s (trapframe (procs s p)))(r := v))\<rparr>)"

text \<open>The end of \<^verbatim>\<open>kexec\<close>: the new image replaces the old one.\<close>

definition kexec_commit :: "nat \<Rightarrow> u8 list \<Rightarrow> elfhdr \<Rightarrow> u64 \<Rightarrow> u64 \<Rightarrow> u64 \<Rightarrow> u64 \<Rightarrow> 'z proc_state_scheme \<Rightarrow> ('z proc_state_scheme, unit) kres" where
  "kexec_commit p path elf pt n oldsz sp =
     kseq (set_tf p T_a1 sp) (
     kseq (kmod (upd_proc p (\<lambda>r. r\<lparr>pname := map (\<lambda>b. char_of (unat b)) (take 15 (after_slash path))\<rparr>))) (
     kbind (kget (\<lambda>s. pagetable (procs s p))) (\<lambda>old.
     kseq (kmod (upd_proc p (\<lambda>r. r\<lparr>pagetable := pt, sz := n\<rparr>))) (
     kseq (set_tf p T_epc (e_entry elf)) (
     kseq (set_tf p T_sp sp) (
     proc_freepagetable old oldsz))))))"

text \<open>Between the loading of the segments and the commit: the user stack.\<close>

definition kexec_stack :: "nat \<Rightarrow> u8 list \<Rightarrow> u8 list list \<Rightarrow> elfhdr \<Rightarrow> u64 \<Rightarrow> u64 \<Rightarrow> 'z proc_state_scheme \<Rightarrow> ('z proc_state_scheme, int) kres" where
  "kexec_stack p path args elf pt n0 =
     kbind (kget (\<lambda>s. sz (procs s p))) (\<lambda>oldsz.
     let n1 = PGROUNDUP n0 in
     kbind (uvmalloc pt n1 (n1 + (USERSTACK + 1) * PGSIZE) PTE_W) (\<lambda>n.
     if n = 0 then kexec_bad pt n1 None
     else
       kseq (uvmclear pt (n - (USERSTACK + 1) * PGSIZE)) (
       let stackbase = n - USERSTACK * PGSIZE in
       kbind (push_args args pt n n stackbase []) (\<lambda>r.
       case r of
         None \<Rightarrow> kexec_bad pt n None
       | Some (sp, ustack) \<Rightarrow>
           if MAXARG \<le> length ustack then kub
           else
             let sp = align16 (sp - of_nat ((length ustack + 1) * 8)) in
             if sp < stackbase then kexec_bad pt n None
             else kbind (copyout pt n sp (concat (map (word_bytes 8) (ustack @ [0])))) (\<lambda>e.
               if e < 0 then kexec_bad pt n None
               else kseq (kexec_commit p path elf pt n oldsz sp) (kret (int (length ustack))))))))"

definition kexec :: "u8 list \<Rightarrow> u8 list list \<Rightarrow> 'z proc_state_scheme \<Rightarrow> ('z proc_state_scheme, int) kres" where
  "kexec path args = with_proc (\<lambda>p.
     kseq begin_op (
     kbind (namei path) (\<lambda>r.
     case r of
       None \<Rightarrow> kseq end_op (kret (- 1))
     | Some ip \<Rightarrow>
         kseq (ilock ip) (
         kbind (readi ip ToBuf 0 64) (\<lambda>(r, bs).
         let elf = elfhdr_of bs in
         if r \<noteq> 64 then kexec_bad 0 0 (Some ip)
         else if e_magic elf \<noteq> ELF_MAGIC then kexec_bad 0 0 (Some ip)
         else kbind (proc_pagetable p) (\<lambda>pt.
           if pt = 0 then kexec_bad 0 0 (Some ip)
           else kbind (load_loop (unat (e_phnum elf)) (ucast (e_phoff elf)) ip pt 0) (\<lambda>r.
             case r of
               Inl n \<Rightarrow> kexec_bad pt n (Some ip)
             | Inr n \<Rightarrow>
                 kseq (iunlockput ip) (
                 kseq end_op (
                 kexec_stack p path args elf pt n)))))))))"

end
