(* ===== verification/Sysfile.thy ===== *)
theory Sysfile
  imports Exec
begin

text \<open>
  \<^verbatim>\<open>kernel/sysfile.c\<close>: the system calls on files, directories, pipes and programs. A null pointer result
  is \<open>None\<close>; the user's path names are lists of bytes without the NUL.
\<close>

unbundle bit_operations_syntax

definition MAXPATH :: nat where "MAXPATH = 128"
definition NLINK_MAX :: int where "NLINK_MAX = 32767"
definition O_RDONLY :: u32 where "O_RDONLY = 0x000"
definition O_WRONLY :: u32 where "O_WRONLY = 0x001"
definition O_RDWR :: u32 where "O_RDWR = 0x002"
definition O_CREATE :: u32 where "O_CREATE = 0x200"
definition O_TRUNC :: u32 where "O_TRUNC = 0x400"

definition DOT :: "u8 list" where "DOT = [46]"
definition DOTDOT :: "u8 list" where "DOTDOT = [46, 46]"

subsection \<open>File descriptors\<close>

text \<open>\<^verbatim>\<open>argfd\<close>: the descriptor and its file, or \<open>None\<close> for the result -1.\<close>

definition argfd :: "nat \<Rightarrow> 'z proc_state_scheme \<Rightarrow> ('z proc_state_scheme, (nat \<times> nat) option) kres" where
  "argfd n =
     kbind (argint n) (\<lambda>fd.
     if fd < 0 \<or> int NOFILE \<le> fd then kret None
     else with_proc (\<lambda>p.
       kbind (kget (\<lambda>s. ofile (procs s p) (nat fd))) (\<lambda>f.
       kret (map_option (\<lambda>f. (nat fd, f)) f))))"

definition set_ofile :: "nat \<Rightarrow> nat \<Rightarrow> nat option \<Rightarrow> 'z sched_state_scheme \<Rightarrow> ('z sched_state_scheme, unit) kres" where
  "set_ofile p fd v = kmod (upd_proc p (\<lambda>r. r\<lparr>ofile := (ofile r)(fd := v)\<rparr>))"

definition fdalloc :: "nat \<Rightarrow> 'z proc_state_scheme \<Rightarrow> ('z proc_state_scheme, int) kres" where
  "fdalloc f = with_proc (\<lambda>p.
     kbind (kget (\<lambda>s. ofile (procs s p))) (\<lambda>t.
     case find (\<lambda>fd. t fd = None) [0..<NOFILE] of
       None \<Rightarrow> kret (- 1)
     | Some fd \<Rightarrow> kseq (set_ofile p fd (Some f)) (kret (int fd))))"

definition sys_dup :: "'z proc_state_scheme \<Rightarrow> ('z proc_state_scheme, u64) kres" where
  "sys_dup =
     kbind (argfd 0) (\<lambda>r.
     case r of
       None \<Rightarrow> kret (- 1)
     | Some (_, f) \<Rightarrow>
         kbind (fdalloc f) (\<lambda>fd.
         if fd < 0 then kret (- 1)
         else kbind (filedup f) (\<lambda>_. kret (word_of_int fd))))"

definition sys_read :: "'z proc_state_scheme \<Rightarrow> ('z proc_state_scheme, u64) kres" where
  "sys_read =
     kbind (argaddr 1) (\<lambda>a.
     kbind (argint 2) (\<lambda>n.
     kbind (argfd 0) (\<lambda>r.
     case r of
       None \<Rightarrow> kret (- 1)
     | Some (_, f) \<Rightarrow> kbind (fileread f a n) (\<lambda>r. kret (word_of_int r)))))"

definition sys_write :: "'z proc_state_scheme \<Rightarrow> ('z proc_state_scheme, u64) kres" where
  "sys_write =
     kbind (argaddr 1) (\<lambda>a.
     kbind (argint 2) (\<lambda>n.
     kbind (argfd 0) (\<lambda>r.
     case r of
       None \<Rightarrow> kret (- 1)
     | Some (_, f) \<Rightarrow> kbind (filewrite f a n) (\<lambda>r. kret (word_of_int r)))))"

definition sys_close :: "'z proc_state_scheme \<Rightarrow> ('z proc_state_scheme, u64) kres" where
  "sys_close =
     kbind (argfd 0) (\<lambda>r.
     case r of
       None \<Rightarrow> kret (- 1)
     | Some (fd, f) \<Rightarrow> with_proc (\<lambda>p.
         kseq (set_ofile p fd None) (
         kseq (fileclose f) (kret 0))))"

definition sys_fstat :: "u8 list \<Rightarrow> 'z proc_state_scheme \<Rightarrow> ('z proc_state_scheme, u64) kres" where
  "sys_fstat pad =
     kbind (argaddr 1) (\<lambda>st.
     kbind (argfd 0) (\<lambda>r.
     case r of
       None \<Rightarrow> kret (- 1)
     | Some (_, f) \<Rightarrow> kbind (filestat pad f st) (\<lambda>r. kret (word_of_int r))))"

subsection \<open>Links\<close>

text \<open>End the transaction and return -1, the exit of every failed call below.\<close>

definition fail_op :: "'z proc_state_scheme \<Rightarrow> ('z proc_state_scheme, u64) kres" where
  "fail_op = kseq end_op (kret (- 1))"

definition add_nlink :: "nat \<Rightarrow> u16 \<Rightarrow> 'z fs_state_scheme \<Rightarrow> ('z fs_state_scheme, unit) kres" where
  "add_nlink ip d = kseq (kmod (upd_inode ip (\<lambda>v. v\<lparr>i_nlink := i_nlink v + d\<rparr>))) (iupdate ip)"

definition sys_link_bad :: "nat \<Rightarrow> 'z proc_state_scheme \<Rightarrow> ('z proc_state_scheme, u64) kres" where
  "sys_link_bad ip =
     kseq (ilock ip) (
     kseq (add_nlink ip (- 1)) (
     kseq (iunlockput ip) fail_op))"

definition sys_link :: "'z proc_state_scheme \<Rightarrow> ('z proc_state_scheme, u64) kres" where
  "sys_link =
     kbind (argstr 0 MAXPATH) (\<lambda>(e0, old).
     if e0 < 0 then kret (- 1) else
     kbind (argstr 1 MAXPATH) (\<lambda>(e1, new).
     if e1 < 0 then kret (- 1) else
     kseq begin_op (
     kbind (namei old) (\<lambda>r.
     case r of
       None \<Rightarrow> fail_op
     | Some ip \<Rightarrow>
         kseq (ilock ip) (
         kbind (kget (\<lambda>s. itab s ip)) (\<lambda>v.
         if i_type v = T_DIR then kseq (iunlockput ip) fail_op
         else if NLINK_MAX \<le> sint (i_nlink v) then kseq (iunlockput ip) fail_op
         else
           kseq (add_nlink ip 1) (
           kseq (iunlock ip) (
           kbind (nameiparent new) (\<lambda>(r, name).
           case r of
             None \<Rightarrow> sys_link_bad ip
           | Some dp \<Rightarrow>
               kseq (ilock dp) (
               kbind (kget (\<lambda>s. (itab s dp, itab s ip))) (\<lambda>(dv, iv).
               if i_nlink dv = 0 then kseq (iunlockput dp) (sys_link_bad ip)
               else kbind (if i_dev dv \<noteq> i_dev iv then kret (- 1) else dirlink dp name (i_inum iv)) (\<lambda>e.
                 if e < 0 then kseq (iunlockput dp) (sys_link_bad ip)
                 else
                   kseq (iunlockput dp) (
                   kseq (iput ip) (
                   kseq end_op (kret 0)))))))))))))))"

primrec isdirempty_loop :: "nat list \<Rightarrow> nat \<Rightarrow> 'z fs_state_scheme \<Rightarrow> ('z fs_state_scheme, bool) kres" where
  "isdirempty_loop [] dp = kret True"
| "isdirempty_loop (off # offs) dp =
     kbind (readi dp ToBuf (of_nat off) 16) (\<lambda>(r, de).
     if r \<noteq> 16 then kpanic ''isdirempty: readi''
     else if de_inum de \<noteq> 0 then kret False
     else isdirempty_loop offs dp)"

definition isdirempty :: "nat \<Rightarrow> 'z fs_state_scheme \<Rightarrow> ('z fs_state_scheme, bool) kres" where
  "isdirempty dp =
     kbind (kget (\<lambda>s. i_size (itab s dp))) (\<lambda>n. isdirempty_loop (drop 2 (dir_offsets n)) dp)"

definition sys_unlink_bad :: "nat \<Rightarrow> 'z proc_state_scheme \<Rightarrow> ('z proc_state_scheme, u64) kres" where
  "sys_unlink_bad dp = kseq (iunlockput dp) fail_op"

text \<open>The part of \<^verbatim>\<open>sys_unlink\<close> behind the lookup, with both inodes locked.\<close>

definition unlink_entry :: "nat \<Rightarrow> nat \<Rightarrow> nat \<Rightarrow> 'z proc_state_scheme \<Rightarrow> ('z proc_state_scheme, u64) kres" where
  "unlink_entry dp ip off =
     kbind (writei dp (FromBuf (replicate 16 0)) (of_nat off) 16) (\<lambda>r.
     if r \<noteq> 16 then kpanic ''unlink: writei''
     else
       kbind (kget (\<lambda>s. i_type (itab s ip))) (\<lambda>ty.
       kseq (kwhen (ty = T_DIR) (add_nlink dp (- 1))) (
       kseq (iunlockput dp) (
       kseq (add_nlink ip (- 1)) (
       kseq (iunlockput ip) (
       kseq end_op (kret 0)))))))"

definition sys_unlink :: "'z proc_state_scheme \<Rightarrow> ('z proc_state_scheme, u64) kres" where
  "sys_unlink =
     kbind (argstr 0 MAXPATH) (\<lambda>(e, path).
     if e < 0 then kret (- 1) else
     kseq begin_op (
     kbind (nameiparent path) (\<lambda>(r, name).
     case r of
       None \<Rightarrow> fail_op
     | Some dp \<Rightarrow>
         kseq (ilock dp) (
         if namecmp name DOT = 0 \<or> namecmp name DOTDOT = 0 then sys_unlink_bad dp
         else kbind (dirlookup dp name) (\<lambda>r.
           case r of
             None \<Rightarrow> sys_unlink_bad dp
           | Some (ip, off) \<Rightarrow>
               kseq (ilock ip) (
               kbind (kget (\<lambda>s. itab s ip)) (\<lambda>v.
               if sint (i_nlink v) < 1 then kpanic ''unlink: nlink < 1''
               else kbind (if i_type v = T_DIR then isdirempty ip else kret True) (\<lambda>empty.
                 if \<not> empty then kseq (iunlockput ip) (sys_unlink_bad dp)
                 else unlink_entry dp ip off))))))))"

subsection \<open>Creating\<close>

definition create_fail :: "nat \<Rightarrow> nat \<Rightarrow> 'z proc_state_scheme \<Rightarrow> ('z proc_state_scheme, nat option) kres" where
  "create_fail ip dp =
     kseq (kmod (upd_inode ip (\<lambda>v. v\<lparr>i_nlink := 0\<rparr>))) (
     kseq (iupdate ip) (
     kseq (iunlockput ip) (
     kseq (iunlockput dp) (kret None))))"

text \<open>The part of \<^verbatim>\<open>create\<close> behind \<^verbatim>\<open>ialloc\<close>.\<close>

definition create_new :: "nat \<Rightarrow> nat \<Rightarrow> u8 list \<Rightarrow> u16 \<Rightarrow> u16 \<Rightarrow> u16 \<Rightarrow> 'z proc_state_scheme \<Rightarrow> ('z proc_state_scheme, nat option) kres" where
  "create_new dp ip name ty mj mn =
     kseq (ilock ip) (
     kseq (kmod (upd_inode ip (\<lambda>v. v\<lparr>i_major := mj, i_minor := mn, i_nlink := 1\<rparr>))) (
     kseq (iupdate ip) (
     kbind (kget (\<lambda>s. (i_inum (itab s ip), i_inum (itab s dp)))) (\<lambda>(ino, dino).
     kbind (if ty \<noteq> T_DIR then kret 0
            else kbind (dirlink ip DOT ino) (\<lambda>e. if e < 0 then kret e else dirlink ip DOTDOT dino)) (\<lambda>e.
     if e < 0 then create_fail ip dp
     else kbind (dirlink dp name ino) (\<lambda>e.
       if e < 0 then create_fail ip dp
       else
         kseq (kwhen (ty = T_DIR) (add_nlink dp 1)) (
         kseq (iunlockput dp) (kret (Some ip)))))))))"

definition create :: "u8 list \<Rightarrow> u16 \<Rightarrow> u16 \<Rightarrow> u16 \<Rightarrow> 'z proc_state_scheme \<Rightarrow> ('z proc_state_scheme, nat option) kres" where
  "create path ty mj mn =
     kbind (nameiparent path) (\<lambda>(r, name).
     case r of
       None \<Rightarrow> kret None
     | Some dp \<Rightarrow>
         kseq (ilock dp) (
         kbind (kget (\<lambda>s. itab s dp)) (\<lambda>dv.
         if i_nlink dv = 0 then kseq (iunlockput dp) (kret None)
         else if ty = T_DIR \<and> NLINK_MAX \<le> sint (i_nlink dv) then kseq (iunlockput dp) (kret None)
         else kbind (dirlookup dp name) (\<lambda>r.
           case r of
             Some (ip, _) \<Rightarrow>
               kseq (iunlockput dp) (
               kseq (ilock ip) (
               kbind (kget (\<lambda>s. i_type (itab s ip))) (\<lambda>ity.
               if ty = T_FILE \<and> (ity = T_FILE \<or> ity = T_DEVICE) then kret (Some ip)
               else kseq (iunlockput ip) (kret None))))
           | None \<Rightarrow>
               kbind (ialloc (i_dev dv) ty) (\<lambda>r.
               case r of
                 None \<Rightarrow> kseq (iunlockput dp) (kret None)
               | Some ip \<Rightarrow> create_new dp ip name ty mj mn)))))"

subsection \<open>Opening\<close>

text \<open>The inode to open, locked; \<open>None\<close> with the transaction ended.\<close>

definition open_inode :: "u8 list \<Rightarrow> u32 \<Rightarrow> 'z proc_state_scheme \<Rightarrow> ('z proc_state_scheme, nat option) kres" where
  "open_inode path omode =
     (if omode AND O_CREATE \<noteq> 0
      then kbind (create path T_FILE 0 0) (\<lambda>r.
        case r of None \<Rightarrow> kseq end_op (kret None) | Some ip \<Rightarrow> kret (Some ip))
      else kbind (namei path) (\<lambda>r.
        case r of
          None \<Rightarrow> kseq end_op (kret None)
        | Some ip \<Rightarrow>
            kseq (ilock ip) (
            kbind (kget (\<lambda>s. i_type (itab s ip))) (\<lambda>ty.
            if ty = T_DIR \<and> omode \<noteq> O_RDONLY
            then kseq (iunlockput ip) (kseq end_op (kret None))
            else kret (Some ip)))))"

definition open_file :: "nat \<Rightarrow> nat \<Rightarrow> u32 \<Rightarrow> inode \<Rightarrow> file_rec \<Rightarrow> file_rec" where
  "open_file f ip omode v r =
     (let r = (if i_type v = T_DEVICE then r\<lparr>f_type := FD_DEVICE, f_major := i_major v\<rparr>
               else r\<lparr>f_type := FD_INODE, f_off := 0\<rparr>)
      in r\<lparr>f_ip := Some ip, f_readable := (omode AND O_WRONLY = 0),
           f_writable := (omode AND O_WRONLY \<noteq> 0 \<or> omode AND O_RDWR \<noteq> 0)\<rparr>)"

definition sys_open :: "'z proc_state_scheme \<Rightarrow> ('z proc_state_scheme, u64) kres" where
  "sys_open =
     kbind (argint 1) (\<lambda>om.
     kbind (argstr 0 MAXPATH) (\<lambda>(n, path).
     if n < 0 then kret (- 1) else
     let omode = (word_of_int om :: u32) in
     kseq begin_op (
     kbind (open_inode path omode) (\<lambda>r.
     case r of
       None \<Rightarrow> kret (- 1)
     | Some ip \<Rightarrow>
         kbind (kget (\<lambda>s. itab s ip)) (\<lambda>v.
         if i_type v = T_DEVICE \<and> (sint (i_major v) < 0 \<or> NDEV \<le> sint (i_major v))
         then kseq (iunlockput ip) fail_op
         else kbind filealloc (\<lambda>r.
           case r of
             None \<Rightarrow> kseq (iunlockput ip) fail_op
           | Some f \<Rightarrow>
               kbind (fdalloc f) (\<lambda>fd.
               if fd < 0 then kseq (fileclose f) (kseq (iunlockput ip) fail_op)
               else
                 kseq (kmod (upd_file f (open_file f ip omode v))) (
                 kseq (kwhen (omode AND O_TRUNC \<noteq> 0 \<and> i_type v = T_FILE) (itrunc ip)) (
                 kseq (iunlock ip) (
                 kseq end_op (kret (word_of_int fd))))))))))))"

definition sys_mkdir :: "'z proc_state_scheme \<Rightarrow> ('z proc_state_scheme, u64) kres" where
  "sys_mkdir =
     kseq begin_op (
     kbind (argstr 0 MAXPATH) (\<lambda>(e, path).
     if e < 0 then fail_op else
     kbind (create path T_DIR 0 0) (\<lambda>r.
     case r of
       None \<Rightarrow> fail_op
     | Some ip \<Rightarrow> kseq (iunlockput ip) (kseq end_op (kret 0)))))"

definition sys_mknod :: "'z proc_state_scheme \<Rightarrow> ('z proc_state_scheme, u64) kres" where
  "sys_mknod =
     kseq begin_op (
     kbind (argint 1) (\<lambda>mj.
     kbind (argint 2) (\<lambda>mn.
     kbind (argstr 0 MAXPATH) (\<lambda>(e, path).
     if e < 0 then fail_op else
     kbind (create path T_DEVICE (word_of_int mj) (word_of_int mn)) (\<lambda>r.
     case r of
       None \<Rightarrow> fail_op
     | Some ip \<Rightarrow> kseq (iunlockput ip) (kseq end_op (kret 0)))))))"

definition sys_chdir :: "'z proc_state_scheme \<Rightarrow> ('z proc_state_scheme, u64) kres" where
  "sys_chdir = with_proc (\<lambda>p.
     kseq begin_op (
     kbind (argstr 0 MAXPATH) (\<lambda>(e, path).
     if e < 0 then fail_op else
     kbind (namei path) (\<lambda>r.
     case r of
       None \<Rightarrow> fail_op
     | Some ip \<Rightarrow>
         kseq (ilock ip) (
         kbind (kget (\<lambda>s. i_type (itab s ip))) (\<lambda>ty.
         if ty \<noteq> T_DIR then kseq (iunlockput ip) fail_op
         else
           kseq (iunlock ip) (
           kseq (kbind (kget (\<lambda>s. cwd (procs s p))) (\<lambda>c. with_ip c iput)) (
           kseq end_op (
           kseq (kmod (upd_proc p (\<lambda>r. r\<lparr>cwd := Some ip\<rparr>))) (kret 0))))))))))"

subsection \<open>Exec and pipe\<close>

text \<open>
  Fetching the argument vector from user memory: \<open>k\<close> entries of \<^verbatim>\<open>argv\<close> are left, \<open>pages\<close> are the pages
  allocated for strings so far and \<open>strs\<close> the strings in them. \<open>Inl pages\<close> is \<^verbatim>\<open>goto bad\<close>.
\<close>

primrec exec_args :: "nat \<Rightarrow> u64 \<Rightarrow> u64 list \<Rightarrow> u8 list list \<Rightarrow> 'z proc_state_scheme \<Rightarrow> ('z proc_state_scheme, u64 list + u64 list \<times> u8 list list) kres" where
  "exec_args 0 uargv pages strs = kret (Inl pages)"
| "exec_args (Suc k) uargv pages strs =
     kbind (fetchaddr uargv) (\<lambda>(e, uarg).
     if e < 0 then kret (Inl pages)
     else if uarg = 0 then kret (Inr (pages, strs))
     else kbind kalloc (\<lambda>pg.
       if pg = 0 then kret (Inl pages)
       else kbind (fetchstr uarg (unat PGSIZE)) (\<lambda>(e, str).
         if e < 0 then kret (Inl (pages @ [pg]))
         else
           kseq (kmod (\<lambda>s. s\<lparr>phys := store_bytes (phys s) pg (str @ [0])\<rparr>)) (
           exec_args k (uargv + 8) (pages @ [pg]) (strs @ [str])))))"

definition sys_exec :: "'z proc_state_scheme \<Rightarrow> ('z proc_state_scheme, u64) kres" where
  "sys_exec =
     kbind (argaddr 1) (\<lambda>uargv.
     kbind (argstr 0 MAXPATH) (\<lambda>(e, path).
     if e < 0 then kret (- 1) else
     kbind (exec_args MAXARG uargv [] []) (\<lambda>r.
     case r of
       Inl pages \<Rightarrow> kseq (kfor pages kfree) (kret (- 1))
     | Inr (pages, strs) \<Rightarrow>
         kbind (kexec path strs) (\<lambda>ret.
         kseq (kfor pages kfree) (kret (word_of_int ret))))))"

text \<open>The error exit of \<^verbatim>\<open>sys_pipe\<close>.\<close>

definition sys_pipe_close :: "nat \<Rightarrow> nat \<Rightarrow> 'z proc_state_scheme \<Rightarrow> ('z proc_state_scheme, u64) kres" where
  "sys_pipe_close rfd wfd = kseq (fileclose rfd) (kseq (fileclose wfd) (kret (- 1)))"

definition sys_pipe :: "'z proc_state_scheme \<Rightarrow> ('z proc_state_scheme, u64) kres" where
  "sys_pipe = with_proc (\<lambda>p.
     kbind (argaddr 0) (\<lambda>fdarray.
     kbind pipealloc (\<lambda>r.
     case r of
       None \<Rightarrow> kret (- 1)
     | Some (rfd, wfd) \<Rightarrow>
         kbind (fdalloc rfd) (\<lambda>fd0.
         if fd0 < 0 then sys_pipe_close rfd wfd
         else kbind (fdalloc wfd) (\<lambda>fd1.
           if fd1 < 0 then kseq (set_ofile p (nat fd0) None) (sys_pipe_close rfd wfd)
           else
             kbind (kget (\<lambda>s. procs s p)) (\<lambda>q.
             kbind (copyout (pagetable q) (sz q) fdarray (word_bytes 4 (word_of_int fd0 :: u32))) (\<lambda>e0.
             kbind (if e0 < 0 then kret e0
                    else copyout (pagetable q) (sz q) (fdarray + 4) (word_bytes 4 (word_of_int fd1 :: u32))) (\<lambda>e.
             if e < 0
             then kseq (set_ofile p (nat fd0) None) (kseq (set_ofile p (nat fd1) None) (sys_pipe_close rfd wfd))
             else kret 0))))))))"

end
