(* ===== verification/Trap.thy ===== *)
theory Trap
  imports Sysfile
begin

text \<open>
  The way into and out of the kernel: system call dispatch (\<^verbatim>\<open>syscall\<close> of \<^verbatim>\<open>kernel/syscall.c\<close>), traps
  (\<^verbatim>\<open>kernel/trap.c\<close>), the interrupt controller (\<^verbatim>\<open>kernel/plic.c\<close>), \<^verbatim>\<open>forkret\<close> of \<^verbatim>\<open>kernel/proc.c\<close>, the kernel
  page table of \<^verbatim>\<open>kernel/vm.c\<close> and the start of hart 0 in \<^verbatim>\<open>kernel/main.c\<close>.

  The disk driver is a parameter where the code calls it directly: \<open>disk_intr\<close> for
  \<^verbatim>\<open>virtio_disk_intr\<close> and \<open>disk_init\<close> for \<^verbatim>\<open>virtio_disk_init\<close>. The answers of the interrupt controller to
  claims are the arbitrary sequence \<open>plic_dev\<close>; what is written to it is recorded in order. \<open>pad\<close> are
  the padding bytes of \<^verbatim>\<open>struct stat\<close>. What \<^verbatim>\<open>printk\<close> prints is not modelled.
\<close>

unbundle bit_operations_syntax

definition upd_csr :: "(csrs \<Rightarrow> csrs) \<Rightarrow> 'z proc_state_scheme \<Rightarrow> 'z proc_state_scheme" where
  "upd_csr f s = s\<lparr>csr := (csr s)(cpuid (core s) := f (csr s (cpuid (core s))))\<rparr>"

definition my_csr :: "'z proc_state_scheme \<Rightarrow> csrs" where
  "my_csr s = csr s (cpuid (core s))"

definition SATP_SV39 :: u64 where "SATP_SV39 = push_bit 60 8"

definition MAKE_SATP :: "u64 \<Rightarrow> u64" where
  "MAKE_SATP pt = SATP_SV39 OR drop_bit 12 pt"

subsection \<open>System calls\<close>

text \<open>The handler of a system call number, in the order of the table; \<open>None\<close> where it has no entry.\<close>

definition syscalls :: "u8 list \<Rightarrow> int \<Rightarrow> ('z proc_state_scheme \<Rightarrow> ('z proc_state_scheme, u64) kres) option" where
  "syscalls pad num =
     (if num = 1 then Some sys_fork
      else if num = 2 then Some sys_exit
      else if num = 3 then Some sys_wait
      else if num = 4 then Some sys_pipe
      else if num = 5 then Some sys_read
      else if num = 6 then Some sys_kill
      else if num = 7 then Some sys_exec
      else if num = 8 then Some (sys_fstat pad)
      else if num = 9 then Some sys_chdir
      else if num = 10 then Some sys_dup
      else if num = 11 then Some sys_getpid
      else if num = 12 then Some sys_sbrk
      else if num = 13 then Some (kbind (kget sfuel) sys_pause)
      else if num = 14 then Some sys_uptime
      else if num = 15 then Some sys_open
      else if num = 16 then Some sys_write
      else if num = 17 then Some sys_mknod
      else if num = 18 then Some sys_unlink
      else if num = 19 then Some sys_link
      else if num = 20 then Some sys_mkdir
      else if num = 21 then Some sys_close
      else if num = 22 then Some sys_sync
      else if num = 23 then Some sys_getqueue
      else None)"

definition syscall :: "u8 list \<Rightarrow> 'z proc_state_scheme \<Rightarrow> ('z proc_state_scheme, unit) kres" where
  "syscall pad = with_proc (\<lambda>p.
     kbind (kget (\<lambda>s. sint (ucast (trapframes s (trapframe (procs s p)) T_a7) :: u32))) (\<lambda>num.
     case (if 0 < num then syscalls pad num else None) of
       Some f \<Rightarrow> kbind f (\<lambda>r. set_tf p T_a0 r)
     | None \<Rightarrow> set_tf p T_a0 (- 1)))"

subsection \<open>Interrupts\<close>

definition UART0_IRQ :: int where "UART0_IRQ = 10"
definition VIRTIO0_IRQ :: int where "VIRTIO0_IRQ = 1"

definition PLIC_SENABLE :: "nat \<Rightarrow> u64" where "PLIC_SENABLE h = PLIC + 0x2080 + of_nat h * 0x100"
definition PLIC_SPRIORITY :: "nat \<Rightarrow> u64" where "PLIC_SPRIORITY h = PLIC + 0x201000 + of_nat h * 0x2000"
definition PLIC_SCLAIM :: "nat \<Rightarrow> u64" where "PLIC_SCLAIM h = PLIC + 0x201004 + of_nat h * 0x2000"

definition plic_write :: "u64 \<Rightarrow> int \<Rightarrow> 'z proc_state_scheme \<Rightarrow> ('z proc_state_scheme, unit) kres" where
  "plic_write a v = kmod (\<lambda>s. s\<lparr>plic_writes := plic_writes s @ [(a, v)]\<rparr>)"

definition plicinit :: "'z proc_state_scheme \<Rightarrow> ('z proc_state_scheme, unit) kres" where
  "plicinit = kseq (plic_write (PLIC + word_of_int (UART0_IRQ * 4)) 1) (plic_write (PLIC + word_of_int (VIRTIO0_IRQ * 4)) 1)"

definition plicinithart :: "'z proc_state_scheme \<Rightarrow> ('z proc_state_scheme, unit) kres" where
  "plicinithart =
     kbind (kget (\<lambda>s. cpuid (core s))) (\<lambda>hart.
     kseq (plic_write (PLIC_SENABLE hart) (push_bit (nat UART0_IRQ) 1 OR push_bit (nat VIRTIO0_IRQ) 1)) (
     plic_write (PLIC_SPRIORITY hart) 0))"

definition plic_claim :: "'z proc_state_scheme \<Rightarrow> ('z proc_state_scheme, int) kres" where
  "plic_claim =
     kbind (kget (\<lambda>s. plic_dev s (plic_claims s))) (\<lambda>irq.
     kseq (kmod (\<lambda>s. s\<lparr>plic_claims := Suc (plic_claims s)\<rparr>)) (kret irq))"

definition plic_complete :: "int \<Rightarrow> 'z proc_state_scheme \<Rightarrow> ('z proc_state_scheme, unit) kres" where
  "plic_complete irq = kbind (kget (\<lambda>s. cpuid (core s))) (\<lambda>hart. plic_write (PLIC_SCLAIM hart) irq)"

definition devintr :: "('z proc_state_scheme \<Rightarrow> ('z proc_state_scheme, unit) kres) \<Rightarrow> 'z proc_state_scheme \<Rightarrow> ('z proc_state_scheme, int) kres" where
  "devintr disk_intr =
     kbind (kget (\<lambda>s. scause (my_csr s))) (\<lambda>cause.
     if cause = 0x8000000000000009
     then kbind plic_claim (\<lambda>irq.
       kseq (if irq = UART0_IRQ then uartintr
             else if irq = VIRTIO0_IRQ then disk_intr
             else kret ()) (
       kseq (kwhen (irq \<noteq> 0) (plic_complete irq)) (
       kret 1)))
     else if cause = 0x8000000000000005
     then kbind (kget now) (\<lambda>t. kseq (clockintr t) (kret 2))
     else kret 0)"

subsection \<open>Traps\<close>

definition trapinit :: "'z proc_state_scheme \<Rightarrow> ('z proc_state_scheme, unit) kres" where
  "trapinit = initlock TicksLock ''time''"

definition trapinithart :: "'z proc_state_scheme \<Rightarrow> ('z proc_state_scheme, unit) kres" where
  "trapinithart = kmod (\<lambda>s. upd_csr (\<lambda>c. c\<lparr>stvec := sym_kernelvec (syms s)\<rparr>) s)"

definition prepare_return :: "'z proc_state_scheme \<Rightarrow> ('z proc_state_scheme, unit) kres" where
  "prepare_return = with_proc (\<lambda>p.
     kseq intr_off (
     kseq (kmod (\<lambda>s. upd_csr (\<lambda>c. c\<lparr>stvec := TRAMPOLINE + (sym_uservec (syms s) - sym_trampoline (syms s))\<rparr>) s)) (
     kbind (kget (\<lambda>s. (satp (my_csr s), kstack (procs s p), sym_usertrap (syms s), of_nat (cpuid (core s))))) (\<lambda>(ks, st, ut, hart).
     kseq (set_tf p T_kernel_satp ks) (
     kseq (set_tf p T_kernel_sp (st + PGSIZE)) (
     kseq (set_tf p T_kernel_trap ut) (
     kseq (set_tf p T_kernel_hartid hart) (
     kseq (kmod (upd_csr (\<lambda>c. c\<lparr>spp := False, spie := True\<rparr>))) (
     kmod (\<lambda>s. upd_csr (\<lambda>c. c\<lparr>sepc := trapframes s (trapframe (procs s p)) T_epc\<rparr>) s))))))))))"

text \<open>The body of the trap, up to the tests for \<^verbatim>\<open>killed\<close>; the result is \<^verbatim>\<open>which_dev\<close>.\<close>

definition usertrap_body :: "('z proc_state_scheme \<Rightarrow> ('z proc_state_scheme, unit) kres) \<Rightarrow> u8 list \<Rightarrow> nat \<Rightarrow> 'z proc_state_scheme \<Rightarrow> ('z proc_state_scheme, int) kres" where
  "usertrap_body disk_intr pad p =
     kbind (kget (\<lambda>s. scause (my_csr s))) (\<lambda>cause.
     if cause = 8
     then
       kbind (killed p) (\<lambda>k.
       kseq (kwhen (k \<noteq> 0) (kexit (- 1))) (
       kbind (kget (\<lambda>s. trapframes s (trapframe (procs s p)) T_epc)) (\<lambda>pc.
       kseq (set_tf p T_epc (pc + 4)) (
       kseq intr_on (
       kseq (syscall pad) (
       kret 0))))))
     else
       kbind (devintr disk_intr) (\<lambda>d.
       if d \<noteq> 0 then kret d
       else
         kbind (kget my_csr) (\<lambda>c.
         kbind (kget (\<lambda>s. procs s p)) (\<lambda>r.
         kbind (if scause c = 15 \<or> scause c = 13
                then vmfault (pagetable r) (sz r) (stval c) (scause c = 13) else kret 0) (\<lambda>m.
         kseq (kwhen (m = 0) (setkilled p)) (kret 0))))))"

definition usertrap :: "('z proc_state_scheme \<Rightarrow> ('z proc_state_scheme, unit) kres) \<Rightarrow> u8 list \<Rightarrow> 'z proc_state_scheme \<Rightarrow> ('z proc_state_scheme, u64) kres" where
  "usertrap disk_intr pad =
     kbind (kget (\<lambda>s. spp (my_csr s))) (\<lambda>sup.
     if sup then kpanic ''usertrap: not from user mode''
     else
       kseq trapinithart (
       with_proc (\<lambda>p.
       kbind (kget (\<lambda>s. sepc (my_csr s))) (\<lambda>pc.
       kseq (set_tf p T_epc pc) (
       kbind (usertrap_body disk_intr pad p) (\<lambda>which_dev.
       kbind (killed p) (\<lambda>k.
       kseq (kwhen (k \<noteq> 0) (kexit (- 1))) (
       kseq (kbind (kget sfuel) (\<lambda>n. kwhen (which_dev = 2) (yield n))) (
       kseq prepare_return (
       kbind (kget (\<lambda>s. pagetable (procs s p))) (\<lambda>pt.
       kret (MAKE_SATP pt))))))))))))"

definition kerneltrap :: "('z proc_state_scheme \<Rightarrow> ('z proc_state_scheme, unit) kres) \<Rightarrow> 'z proc_state_scheme \<Rightarrow> ('z proc_state_scheme, unit) kres" where
  "kerneltrap disk_intr =
     kbind (kget (\<lambda>s. (my_csr s, intr_get (core s)))) (\<lambda>(c, on).
     if \<not> spp c then kpanic ''kerneltrap: not from supervisor mode''
     else if on then kpanic ''kerneltrap: interrupts enabled''
     else
       kbind (devintr disk_intr) (\<lambda>d.
       if d = 0 then kpanic ''kerneltrap''
       else
         kbind (if d = 2 then myproc else kret None) (\<lambda>p.
         kseq (kbind (kget sfuel) (\<lambda>n. kwhen (p \<noteq> None) (yield n))) (
         kseq (kmod (upd_csr (\<lambda>r. r\<lparr>sepc := sepc c, spp := spp c, spie := spie c\<rparr>))) (
         kcore_mod (set_sie on))))))"

subsection \<open>The first run of a process\<close>

text \<open>\<^verbatim>\<open>/init\<close> as bytes. The result is the argument of the jump to \<^verbatim>\<open>userret\<close>.\<close>

definition INIT_PATH :: "u8 list" where
  "INIT_PATH = [47, 105, 110, 105, 116]"

definition forkret :: "'z proc_state_scheme \<Rightarrow> ('z proc_state_scheme, u64) kres" where
  "forkret = with_proc (\<lambda>p.
     kseq (release (ProcLock p)) (
     kbind (kget first_run) (\<lambda>first.
     kseq (kwhen first (
       kseq (fsinit ROOTDEV) (
       kseq (kmod (\<lambda>s. s\<lparr>first_run := False\<rparr>)) (
       kbind (kexec INIT_PATH [INIT_PATH]) (\<lambda>r.
       kseq (set_tf p T_a0 (word_of_int r)) (
       kwhen (r = - 1) (kpanic ''exec''))))))) (
     kseq prepare_return (
     kbind (kget (\<lambda>s. pagetable (procs s p))) (\<lambda>pt.
     kret (MAKE_SATP pt)))))))"

subsection \<open>The start of the kernel\<close>

definition kvminit :: "'z proc_state_scheme \<Rightarrow> ('z proc_state_scheme, unit) kres" where
  "kvminit =
     kbind (kget syms) (\<lambda>y.
     kbind (kvmmake (sym_etext y) (sym_trampoline y)) (\<lambda>pt.
     kmod (\<lambda>s. s\<lparr>kernel_pagetable := pt\<rparr>)))"

definition kvminithart :: "'z proc_state_scheme \<Rightarrow> ('z proc_state_scheme, unit) kres" where
  "kvminithart = kmod (\<lambda>s. upd_csr (\<lambda>c. c\<lparr>satp := MAKE_SATP (kernel_pagetable s)\<rparr>) s)"

definition printkinit :: "'z proc_state_scheme \<Rightarrow> ('z proc_state_scheme, unit) kres" where
  "printkinit = initlock PrLock ''pr''"

text \<open>\<^verbatim>\<open>main\<close> on hart 0, up to the call of the scheduler.\<close>

definition main_hart0 :: "('z proc_state_scheme \<Rightarrow> ('z proc_state_scheme, unit) kres) \<Rightarrow> 'z proc_state_scheme \<Rightarrow> ('z proc_state_scheme, unit) kres" where
  "main_hart0 disk_init =
     kseq consoleinit (
     kseq printkinit (
     kseq kinit (
     kseq kvminit (
     kseq kvminithart (
     kseq procinit (
     kseq trapinit (
     kseq trapinithart (
     kseq plicinit (
     kseq plicinithart (
     kseq binit (
     kseq iinit (
     kseq fileinit (
     kseq disk_init (
     userinit))))))))))))))"

end
