(* ===== verification/Layout.thy ===== *)
theory Layout
  imports Fs
begin

text \<open>
  The on-disk layout: what the routines of \<^verbatim>\<open>kernel/fs.c\<close> and \<^verbatim>\<open>kernel/log.c\<close> write into a block they
  read back. Fields of 2 and 4 bytes at disjoint offsets do not disturb each other; an inode
  written by \<^verbatim>\<open>iupdate\<close> is read back unchanged by \<^verbatim>\<open>ilock\<close>, and the other inodes of the block keep
  their bytes; a bit of the free map is set and cleared alone.
\<close>

unbundle bit_operations_syntax

subsection \<open>Fields of two and four bytes\<close>


lemma get32_put32 [simp]: "get32 (put32 b off v) off = v"
proof (rule bit_word_eqI)
  fix n
  assume n: "n < LENGTH(32)"
  let ?bs = "map (\<lambda>i. put32 b off v (off + i)) [0..<4]"
  have d: "n div 8 < 4" using n by simp
  then have e: "?bs ! (n div 8) = ucast (drop_bit (8 * (n div 8)) v)"
    by (simp add: put32_def del: upt_rec_numeral)
  have "bit (get32 (put32 b off v) off) n \<longleftrightarrow> bit (?bs ! (n div 8)) (n mod 8)"
    using n d by (simp add: get32_def bit_word_of_int_iff bit_horner_sum_u8 del: upt_rec_numeral)
  also have "\<dots> \<longleftrightarrow> bit v (8 * (n div 8) + n mod 8)"
    by (simp add: e bit_unsigned_iff bit_drop_bit_eq)
  finally show "bit (get32 (put32 b off v) off) n = bit v n" by simp
qed

lemma u16_bytes:
  fixes v :: u16
  shows "uint (ucast v :: u8) = uint v mod 256" "uint (ucast (drop_bit 8 v) :: u8) = uint v div 256"
proof -
  have "uint v < 2 ^ 16" using uint_lt2p [of v] by simp
  then have "uint v div 256 mod 256 = uint v div 256" by (intro mod_pos_pos_trivial) (simp_all add: div_int_pos_iff)
  then show "uint (ucast v :: u8) = uint v mod 256" "uint (ucast (drop_bit 8 v) :: u8) = uint v div 256"
    by (simp_all add: unsigned_ucast_eq unsigned_drop_bit_eq take_bit_eq_mod drop_bit_eq_div uint_div)
qed

lemma u16_join: "word_of_int (uint (ucast v :: u8) + 256 * uint (ucast (drop_bit 8 v) :: u8)) = (v :: u16)"
  by (simp only: u16_bytes(1) [of v] u16_bytes(2) [of v] mod_mult_div_eq word_of_int_uint)

lemma get16_put16 [simp]: "get16 (put16 b off v) off = v"
  using u16_join [of v] by (simp add: get16_def put16_def)

lemma get32_cong: "(\<And>i. off \<le> i \<Longrightarrow> i < off + 4 \<Longrightarrow> b i = c i) \<Longrightarrow> get32 b off = get32 c off"
  by (auto simp: get32_def intro!: arg_cong [where f = word_of_int] arg_cong [where f = "horner_sum uint 256"] map_cong)

lemma get16_cong: "(\<And>i. off \<le> i \<Longrightarrow> i < off + 2 \<Longrightarrow> b i = c i) \<Longrightarrow> get16 b off = get16 c off"
  by (simp add: get16_def)

lemma put_frame:
  "\<not> (off \<le> i \<and> i < off + 4) \<Longrightarrow> put32 b off v i = b i"
  "\<not> (off \<le> i \<and> i < off + 2) \<Longrightarrow> put16 b off w i = b i"
  by (auto simp: put32_def put16_def)

subsection \<open>Inodes\<close>

text \<open>The address array of an inode: \<open>n\<close> words from \<open>base\<close> on.\<close>

definition put_addrs :: "nat \<Rightarrow> (nat \<Rightarrow> u32) \<Rightarrow> nat \<Rightarrow> block \<Rightarrow> block" where
  "put_addrs base a n b = fold (\<lambda>k c. put32 c (base + 4 * k) (a k)) [0..<n] b"

lemma put_addrs_Suc: "put_addrs base a (Suc n) b = put32 (put_addrs base a n b) (base + 4 * n) (a n)"
  by (simp add: put_addrs_def)

lemma put_addrs_frame: "i < base \<or> base + 4 * n \<le> i \<Longrightarrow> put_addrs base a n b i = b i"
proof (induction n)
  case 0
  show ?case by (simp add: put_addrs_def)
next
  case (Suc n)
  then show ?case by (auto simp: put_addrs_Suc put_frame)
qed

lemma get_put_addrs: "k < n \<Longrightarrow> get32 (put_addrs base a n b) (base + 4 * k) = a k"
proof (induction n)
  case 0
  then show ?case by simp
next
  case (Suc n)
  show ?case
  proof (cases "k = n")
    case True
    then show ?thesis by (simp add: put_addrs_Suc)
  next
    case False
    have "get32 (put_addrs base a (Suc n) b) (base + 4 * k) = get32 (put_addrs base a n b) (base + 4 * k)"
      unfolding put_addrs_Suc by (rule get32_cong, rule put_frame(1)) (use False Suc.prems in auto)
    with Suc False show ?thesis by simp
  qed
qed

definition put_meta :: "nat \<Rightarrow> inode \<Rightarrow> block \<Rightarrow> block" where
  "put_meta o' v b = put32 (put16 (put16 (put16 (put16 b o' (i_type v)) (o' + 2) (i_major v)) (o' + 4) (i_minor v))
     (o' + 6) (i_nlink v)) (o' + 8) (i_size v)"

lemma din_put_alt: "din_put i v b = put_addrs (dino i + 12) (i_addrs v) 13 (put_meta (dino i) v b)"
  by (simp add: din_put_def put_addrs_def put_meta_def NDIRECT_def)

lemma put_meta_frame: "i < off \<or> off + 12 \<le> i \<Longrightarrow> put_meta off v b i = b i"
  by (auto simp: put_meta_def put_frame)

lemma din_put_frame: "k < dino i \<or> dino i + 64 \<le> k \<Longrightarrow> din_put i v b k = b k"
  by (auto simp: din_put_alt put_addrs_frame put_meta_frame)

lemma get_meta:
  "get16 (put_meta off v b) off = i_type v" "get16 (put_meta off v b) (off + 2) = i_major v"
  "get16 (put_meta off v b) (off + 4) = i_minor v" "get16 (put_meta off v b) (off + 6) = i_nlink v"
  "get32 (put_meta off v b) (off + 8) = i_size v"
  unfolding put_meta_def
  by ((subst get16_cong [where c = "put16 b off (i_type v)"], simp_all add: put_frame)[1],
      (subst get16_cong [where c = "put16 (put16 b off (i_type v)) (off + 2) (i_major v)"], simp_all add: put_frame)[1],
      (subst get16_cong [where c = "put16 (put16 (put16 b off (i_type v)) (off + 2) (i_major v)) (off + 4) (i_minor v)"], simp_all add: put_frame)[1],
      (subst get16_cong [where c = "put16 (put16 (put16 (put16 b off (i_type v)) (off + 2) (i_major v)) (off + 4) (i_minor v)) (off + 6) (i_nlink v)"], simp_all add: put_frame)[1],
      simp)

lemma get_din_put:
  "get16 (din_put i v b) (dino i) = i_type v" "get16 (din_put i v b) (dino i + 2) = i_major v"
  "get16 (din_put i v b) (dino i + 4) = i_minor v" "get16 (din_put i v b) (dino i + 6) = i_nlink v"
  "get32 (din_put i v b) (dino i + 8) = i_size v"
  unfolding din_put_alt
  by (simp_all add: get_meta put_addrs_frame
      get16_cong [of _ "put_addrs (dino i + 12) (i_addrs v) 13 (put_meta (dino i) v b)" "put_meta (dino i) v b"]
      get32_cong [of _ "put_addrs (dino i + 12) (i_addrs v) 13 (put_meta (dino i) v b)" "put_meta (dino i) v b"]
      del: add_2_eq_Suc')

lemma dino_disjoint: "unat i mod IPB \<noteq> unat j mod IPB \<Longrightarrow> dino i + 64 \<le> dino j \<or> dino j + 64 \<le> dino i"
  by (simp add: dino_def) linarith

lemma dino_bound: "dino i + 64 \<le> BSIZE"
proof -
  have "unat i mod 16 < 16" by simp
  then show ?thesis by (simp add: dino_def IPB_def BSIZE_def)
qed

lemma din_get_cong:
  assumes "\<And>k. dino j \<le> k \<Longrightarrow> k < dino j + 64 \<Longrightarrow> b k = c k"
  shows "din_get j b w = din_get j c w"
proof -
  have "get16 b (dino j + d) = get16 c (dino j + d)" if "d < 8" for d
    using that assms by (intro get16_cong) auto
  moreover have "get32 b (dino j + d) = get32 c (dino j + d)" if "d \<le> 60" for d
    using that assms by (intro get32_cong) auto
  moreover from calculation have "get16 b (dino j) = get16 c (dino j)"
    using add_0_right by (metis zero_less_numeral)
  ultimately show ?thesis
    by (simp add: din_get_def NDIRECT_def add.assoc cong: if_cong del: add_2_eq_Suc')
qed

lemma din_get_put:
  "din_get i (din_put i v b) w =
     w\<lparr>i_type := i_type v, i_major := i_major v, i_minor := i_minor v, i_nlink := i_nlink v,
       i_size := i_size v, i_addrs := (\<lambda>k. if k < 13 then i_addrs v k else i_addrs w k)\<rparr>"
proof -
  have "get32 (din_put i v b) (dino i + 12 + 4 * k) = i_addrs v k" if "k < 13" for k
    using that unfolding din_put_alt by (rule get_put_addrs)
  then show ?thesis by (simp add: din_get_def get_din_put NDIRECT_def cong: if_cong del: add_2_eq_Suc')
qed

lemma din_get_put_other: "unat i mod IPB \<noteq> unat j mod IPB \<Longrightarrow> din_get j (din_put i v b) w = din_get j b w"
  using dino_disjoint [of i j] by (intro din_get_cong din_put_frame) auto

text \<open>
  C21. An inode that \<^verbatim>\<open>iupdate\<close> writes into its slot of an inode block is read back by \<^verbatim>\<open>ilock\<close> with
  all fields equal: the type, the device numbers, the link count, the size and the thirteen block
  addresses. Every other inode of the block reads as before, and no byte outside the slot changes.
\<close>

theorem inode_roundtrip:
  "din_get i (din_put i v b) w =
     w\<lparr>i_type := i_type v, i_major := i_major v, i_minor := i_minor v, i_nlink := i_nlink v,
       i_size := i_size v, i_addrs := (\<lambda>k. if k < 13 then i_addrs v k else i_addrs w k)\<rparr>
   \<and> (unat i mod IPB \<noteq> unat j mod IPB \<longrightarrow> din_get j (din_put i v b) w = din_get j b w)
   \<and> (\<forall>k. \<not> (dino i \<le> k \<and> k < dino i + 64) \<longrightarrow> din_put i v b k = b k)"
  by (intro conjI impI allI din_get_put din_get_put_other din_put_frame) auto

definition demo_inode :: inode where
  "demo_inode = \<lparr>i_dev = 1, i_inum = 2, i_ref = 1, i_valid = True, i_type = T_FILE, i_major = 0, i_minor = 0,
     i_nlink = 1, i_size = 700, i_addrs = (\<lambda>k. if k = 0 then 50 else 0)\<rparr>"

theorem inode_roundtrip_witness:
  "din_get 3 (din_put 2 demo_inode (\<lambda>_. 7)) demo_inode = din_get 3 (\<lambda>_. 7) demo_inode
   \<and> i_addrs (din_get 2 (din_put 2 demo_inode (\<lambda>_. 7)) demo_inode) 0 = 50
   \<and> din_put 2 demo_inode (\<lambda>_. 7) 200 = 7"
  using inode_roundtrip [of 2 demo_inode "\<lambda>_. 7" demo_inode 3]
  by (simp add: IPB_def BSIZE_def dino_def demo_inode_def)

subsection \<open>The free map\<close>

lemma bmap_bit_iff: "bmap_bit b bi \<longleftrightarrow> bit (b (bi div 8)) (bi mod 8)"
  by (simp add: bmap_bit_def and_exp_eq_0_iff_not_bit push_bit_eq_mult)

lemma bmap_bit_set: "bmap_bit (bmap_set b bi) bj \<longleftrightarrow> bj = bi \<or> bmap_bit b bj"
proof -
  have "bi mod 8 = bj mod 8 \<and> bi div 8 = bj div 8 \<longleftrightarrow> bj = bi"
    by (metis div_mult_mod_eq)
  then show ?thesis
    by (auto simp: bmap_bit_iff bmap_set_def bit_or_iff bit_exp_iff)
qed

lemma bmap_bit_clear: "bmap_bit (bmap_clear b bi) bj \<longleftrightarrow> bj \<noteq> bi \<and> bmap_bit b bj"
proof -
  have "bi mod 8 = bj mod 8 \<and> bi div 8 = bj div 8 \<longleftrightarrow> bj = bi"
    by (metis div_mult_mod_eq)
  moreover have "bj mod 8 < 8" by simp
  ultimately show ?thesis
    by (auto simp: bmap_bit_iff bmap_clear_def bit_and_iff bit_not_iff bit_exp_iff)
qed

end
