(* ===== verification/Names.thy ===== *)
theory Names
  imports Layout
begin

text \<open>
  Path names and directory entries. \<open>elems\<close> is the reference meaning of a path, the non-empty pieces
  between slashes, each cut to \<^verbatim>\<open>DIRSIZ\<close> bytes; \<^verbatim>\<open>skipelem\<close>, which walks the string in place, takes
  exactly these pieces one after another. A directory entry is read back as it was written, and
  \<^verbatim>\<open>namecmp\<close> compares the first \<^verbatim>\<open>DIRSIZ\<close> bytes up to the NUL.
\<close>

unbundle bit_operations_syntax

subsection \<open>Path names\<close>

fun pieces :: "u8 list \<Rightarrow> u8 list list" where
  "pieces [] = [[]]"
| "pieces (c # cs) =
     (if c = SLASH then [] # pieces cs
      else case pieces cs of [] \<Rightarrow> [[c]] | p # ps \<Rightarrow> (c # p) # ps)"

definition elems :: "u8 list \<Rightarrow> u8 list list" where
  "elems path = map (take DIRSIZ) (filter (\<lambda>p. p \<noteq> []) (pieces path))"

lemma pieces_word: "SLASH \<notin> set w \<Longrightarrow> pieces w = [w]"
  by (induction w) auto

lemma pieces_word_slash: "SLASH \<notin> set w \<Longrightarrow> pieces (w @ SLASH # p) = w # pieces p"
  by (induction w) auto

lemma elems_Nil [simp]: "elems [] = []"
  by (simp add: elems_def)

lemma elems_skip [simp]: "elems (SLASH # p) = elems p"
  by (simp add: elems_def)

lemma elems_dropWhile [simp]: "elems (dropWhile (\<lambda>c. c = SLASH) p) = elems p"
  by (induction p) auto

lemma elems_word:
  assumes "SLASH \<notin> set w" "w \<noteq> []" and "rest = [] \<or> hd rest = SLASH"
  shows "elems (w @ rest) = take DIRSIZ w # elems rest"
proof (cases rest)
  case Nil
  with assms show ?thesis by (simp add: elems_def pieces_word)
next
  case (Cons c p)
  with assms show ?thesis by (simp add: elems_def pieces_word_slash)
qed

lemma elems_eq_Nil: "elems p = [] \<longleftrightarrow> dropWhile (\<lambda>c. c = SLASH) p = []"
proof -
  let ?q = "dropWhile (\<lambda>c. c = SLASH) p"
  have "elems ?q \<noteq> []" if ne: "?q \<noteq> []"
  proof -
    have "hd ?q \<noteq> SLASH" using hd_dropWhile [of "\<lambda>c. c = SLASH" p] ne by simp
    then have "takeWhile (\<lambda>c. c \<noteq> SLASH) ?q \<noteq> []" using ne by (cases ?q) auto
    moreover have "SLASH \<notin> set (takeWhile (\<lambda>c. c \<noteq> SLASH) ?q)" by (auto dest: set_takeWhileD)
    moreover have "dropWhile (\<lambda>c. c \<noteq> SLASH) ?q = [] \<or> hd (dropWhile (\<lambda>c. c \<noteq> SLASH) ?q) = SLASH"
      using hd_dropWhile [of "\<lambda>c. c \<noteq> SLASH" ?q] by blast
    ultimately have "elems (takeWhile (\<lambda>c. c \<noteq> SLASH) ?q @ dropWhile (\<lambda>c. c \<noteq> SLASH) ?q) \<noteq> []"
      by (subst elems_word) simp_all
    then show ?thesis unfolding takeWhile_dropWhile_id .
  qed
  then show ?thesis using elems_dropWhile [of p] by (metis elems_Nil)
qed

lemma skipelem_split:
  assumes "skipelem path = Some (rest, name)"
  obtains w r where "SLASH \<notin> set w" "w \<noteq> []" "r = [] \<or> hd r = SLASH" "dropWhile (\<lambda>c. c = SLASH) path = w @ r"
    "name = take DIRSIZ w" "rest = dropWhile (\<lambda>c. c = SLASH) r"
proof
  let ?q = "dropWhile (\<lambda>c. c = SLASH) path"
  let ?w = "takeWhile (\<lambda>c. c \<noteq> SLASH) ?q"
  let ?r = "dropWhile (\<lambda>c. c \<noteq> SLASH) ?q"
  have ne: "?q \<noteq> []" and eqs: "name = take DIRSIZ ?w" "rest = dropWhile (\<lambda>c. c = SLASH) ?r"
    using assms by (auto simp: skipelem_def Let_def split: if_splits)
  show "SLASH \<notin> set ?w" by (auto dest: set_takeWhileD)
  have "hd ?q \<noteq> SLASH" using hd_dropWhile [of "\<lambda>c. c = SLASH" path] ne by simp
  then show "?w \<noteq> []" using ne by (cases ?q) auto
  show "?r = [] \<or> hd ?r = SLASH" using hd_dropWhile [of "\<lambda>c. c \<noteq> SLASH" ?q] by blast
  show "?q = ?w @ ?r" by simp
  show "name = take DIRSIZ ?w" "rest = dropWhile (\<lambda>c. c = SLASH) ?r" by fact+
qed

text \<open>
  C22. \<^verbatim>\<open>skipelem\<close> agrees with the reference meaning of a path: it fails exactly on a path without
  elements; otherwise it delivers the first element, a non-empty name of at most \<^verbatim>\<open>DIRSIZ\<close> bytes
  without a slash, and a rest that stands for the remaining elements. The rest is empty exactly
  if the element was the last one, which is how \<^verbatim>\<open>namex\<close> finds the parent directory.
\<close>

theorem skipelem_takes_elements:
  "(skipelem path = None \<longleftrightarrow> elems path = [])
   \<and> (\<forall>rest name. skipelem path = Some (rest, name) \<longrightarrow>
        elems path = name # elems rest \<and> (rest = [] \<longleftrightarrow> length (elems path) = 1)
        \<and> name \<noteq> [] \<and> length name \<le> DIRSIZ \<and> SLASH \<notin> set name)"
proof (intro conjI allI impI)
  show "skipelem path = None \<longleftrightarrow> elems path = []"
    by (simp add: elems_eq_Nil skipelem_def Let_def)
next
  fix rest name
  assume "skipelem path = Some (rest, name)"
  then obtain w r where w: "SLASH \<notin> set w" "w \<noteq> []" "r = [] \<or> hd r = SLASH"
      "dropWhile (\<lambda>c. c = SLASH) path = w @ r" "name = take DIRSIZ w" "rest = dropWhile (\<lambda>c. c = SLASH) r"
    by (rule skipelem_split)
  have e: "elems path = take DIRSIZ w # elems r"
    using elems_word [OF w(1-3)] w(4) elems_dropWhile [of path] by simp
  then show "elems path = name # elems rest" using w by simp
  show "rest = [] \<longleftrightarrow> length (elems path) = 1"
    using e w(6) elems_eq_Nil [of r] by simp
  show "name \<noteq> []" "length name \<le> DIRSIZ" using w by (simp_all add: DIRSIZ_def)
  show "SLASH \<notin> set name" using w by (auto dest: in_set_takeD)
qed

text \<open>The path \<^verbatim>\<open>//usr/lib/\<close>.\<close>

definition demo_path :: "u8 list" where
  "demo_path = [47, 47, 117, 115, 114, 47, 108, 105, 98, 47]"

theorem skipelem_takes_elements_witness:
  "skipelem demo_path = Some ([108, 105, 98, 47], [117, 115, 114])
   \<and> elems demo_path = [117, 115, 114] # elems [108, 105, 98, 47]"
proof -
  have "skipelem demo_path = Some ([108, 105, 98, 47], [117, 115, 114])"
    by (simp add: skipelem_def demo_path_def SLASH_def DIRSIZ_def)
  then show ?thesis using skipelem_takes_elements [of demo_path] by simp
qed

subsection \<open>Directory entries\<close>

lemma de_inum_make [simp]: "de_inum (de_make i name) = i"
  using u16_join [of i] by (simp add: de_inum_def de_make_def byte_at_def)

lemma length_de_make [simp]: "length (de_make i name) = 16"
  by (simp add: de_make_def DIRSIZ_def)

text \<open>\<open>cname s\<close>: the name that a field of \<^verbatim>\<open>DIRSIZ\<close> bytes holds.\<close>

definition cname :: "u8 list \<Rightarrow> u8 list" where
  "cname s = takeWhile (\<lambda>c. c \<noteq> 0) (take DIRSIZ s)"

lemma byte_at_drop: "byte_at (drop i s) 0 = byte_at s i"
  by (simp add: byte_at_def)

lemma cname_step:
  "takeWhile (\<lambda>c. c \<noteq> 0) (take (Suc n) (drop i s)) =
     (if byte_at s i = 0 then [] else byte_at s i # takeWhile (\<lambda>c. c \<noteq> 0) (take n (drop (Suc i) s)))"
proof (cases "i < length s")
  case True
  then show ?thesis by (simp add: Cons_nth_drop_Suc [symmetric] byte_at_def)
next
  case False
  then show ?thesis by (simp add: byte_at_def)
qed

lemma namecmp_loop_eq_0:
  "namecmp_loop n i s t = 0 \<longleftrightarrow>
   takeWhile (\<lambda>c. c \<noteq> 0) (take n (drop i s)) = takeWhile (\<lambda>c. c \<noteq> 0) (take n (drop i t))"
proof (induction n arbitrary: i)
  case 0
  show ?case by simp
next
  case (Suc n)
  show ?case
    by (simp only: namecmp_loop.simps cname_step) (auto simp: Suc.IH word_uint_eq_iff [symmetric] uint_0_iff)
qed

lemma namecmp_eq_0: "namecmp s t = 0 \<longleftrightarrow> cname s = cname t"
  by (simp add: namecmp_def namecmp_loop_eq_0 cname_def)

lemma cname_de_make: "cname (de_name (de_make i name)) = cname name"
proof -
  have "takeWhile (\<lambda>c. c \<noteq> 0) (xs @ replicate k 0) = takeWhile (\<lambda>c. c \<noteq> 0) xs" for xs :: "u8 list" and k
    by (induction xs) (cases k, auto)
  then show ?thesis by (simp add: cname_def de_name_def de_make_def DIRSIZ_def)
qed

end
