(* ===== verification/Inodes.thy ===== *)
theory Inodes
  imports Fs
begin

text \<open>
  The table of in-memory inodes: \<^verbatim>\<open>iget\<close>, \<^verbatim>\<open>idup\<close> and \<^verbatim>\<open>iput\<close> of a reference that is not the last one. The
  invariant \<open>itab_ok\<close> says that counts are not negative and that no two entries in use stand for the
  same inode, so that the inode's sleep lock, which lives in the entry, is one lock.
\<close>

definition in_use :: "inode \<Rightarrow> bool" where
  "in_use v \<longleftrightarrow> 0 < i_ref v"

definition names_inode :: "u32 \<Rightarrow> u32 \<Rightarrow> inode \<Rightarrow> bool" where
  "names_inode d i v \<longleftrightarrow> in_use v \<and> i_dev v = d \<and> i_inum v = i"

definition itab_ok :: "'z fs_state_scheme \<Rightarrow> bool" where
  "itab_ok s \<longleftrightarrow> (\<forall>k < NINODE. 0 \<le> i_ref (itab s k))
     \<and> (\<forall>k < NINODE. \<forall>l < NINODE. \<forall>d i. names_inode d i (itab s k) \<longrightarrow> names_inode d i (itab s l) \<longrightarrow> k = l)"

lemma itab_okD: "itab_ok s \<Longrightarrow> k < NINODE \<Longrightarrow> l < NINODE \<Longrightarrow> names_inode d i (itab s k) \<Longrightarrow> names_inode d i (itab s l) \<Longrightarrow> k = l"
  unfolding itab_ok_def by blast

lemma itab_simps [simp]:
  "itab (upd_inode ip f s) = (itab s)(ip := f (itab s ip))"
  "core (upd_inode ip f s) = core s"
  "upd_inode ip f (s\<lparr>core := c\<rparr>) = (upd_inode ip f s)\<lparr>core := c\<rparr>"
  "itab_ok (s\<lparr>core := c\<rparr>) = itab_ok s"
  by (simp_all add: upd_inode_def itab_ok_def)

lemma find_None_upt: "find P [0..<n] = None \<longleftrightarrow> (\<forall>k < n. \<not> P k)"
  by (auto simp: find_None_iff)

lemma find_Some_upt: "find P [0..<n] = Some k \<Longrightarrow> k < n \<and> P k \<and> (\<forall>j < k. \<not> P j)"
  by (auto simp: find_Some_iff)

lemma iget_search:
  "find (\<lambda>k. 0 < i_ref (t k) \<and> i_dev (t k) = d \<and> i_inum (t k) = i) xs = find (\<lambda>k. names_inode d i (t k)) xs"
  by (rule arg_cong2 [where f = find]) (auto simp: names_inode_def in_use_def)

text \<open>The net effect of \<^verbatim>\<open>iget\<close> when its lock is free.\<close>

lemma iget_eq:
  assumes c: "cpu_ok (core s)" "free_lock ItableLock (core s)"
  shows "iget d i s =
    (case find (\<lambda>k. names_inode d i (itab s k)) [0..<NINODE] of
       Some ip \<Rightarrow> Ret ip ((upd_inode ip (\<lambda>v. v\<lparr>i_ref := i_ref v + 1\<rparr>) s)\<lparr>core := touch (core s)\<rparr>)
     | None \<Rightarrow>
         (case find (\<lambda>k. i_ref (itab s k) = 0) [0..<NINODE] of
            None \<Rightarrow> Panic ''iget: no inodes''
          | Some ip \<Rightarrow> Ret ip ((upd_inode ip (\<lambda>v. v\<lparr>i_dev := d, i_inum := i, i_ref := 1, i_valid := False\<rparr>) s)\<lparr>core := touch (core s)\<rparr>)))"
  using c by (auto simp: iget_def iget_search kstep kret_def kpanic_def split: option.splits)

lemma itab_ok_upd:
  assumes "itab_ok s" "k < NINODE" "0 \<le> i_ref v"
    and "\<And>l d i. l < NINODE \<Longrightarrow> names_inode d i v \<Longrightarrow> names_inode d i (itab s l) \<Longrightarrow> l = k"
    and "itab t = (itab s)(k := v)"
  shows "itab_ok t"
  using assms unfolding itab_ok_def by (auto split: if_splits)

text \<open>
  What a caller of \<^verbatim>\<open>iget\<close> gets: an entry in use for the inode, the one that stood for it before if
  there was one, with one more reference and everything else untouched, or a free one, with one
  reference and marked as not yet read from disk. No other entry changes.
\<close>

definition iget_post :: "u32 \<Rightarrow> u32 \<Rightarrow> 'z fs_state_scheme \<Rightarrow> nat \<Rightarrow> 'z fs_state_scheme \<Rightarrow> bool" where
  "iget_post d i s ip t \<longleftrightarrow> ip < NINODE \<and> names_inode d i (itab t ip) \<and> (\<forall>k. k \<noteq> ip \<longrightarrow> itab t k = itab s k)
     \<and> (\<forall>k < NINODE. names_inode d i (itab s k) \<longrightarrow> k = ip)
     \<and> (if names_inode d i (itab s ip) then itab t ip = (itab s ip)\<lparr>i_ref := i_ref (itab s ip) + 1\<rparr>
        else i_ref (itab s ip) = 0
          \<and> itab t ip = (itab s ip)\<lparr>i_dev := d, i_inum := i, i_ref := 1, i_valid := False\<rparr>)"

lemma iget_found:
  assumes ok: "itab_ok s" and ip: "ip < NINODE" "names_inode d i (itab s ip)"
    and t: "itab t = (itab s)(ip := (itab s ip)\<lparr>i_ref := i_ref (itab s ip) + 1\<rparr>)"
  shows "itab_ok t" "iget_post d i s ip t"
proof -
  let ?v = "(itab s ip)\<lparr>i_ref := i_ref (itab s ip) + 1\<rparr>"
  have v: "names_inode d' i' (itab s ip)" if "names_inode d' i' ?v" for d' i'
    using that ip(2) by (simp add: names_inode_def in_use_def)
  have "0 \<le> i_ref ?v" using ip by (simp add: names_inode_def in_use_def)
  then show "itab_ok t"
    using itab_okD [OF ok _ ip(1)] v by (intro itab_ok_upd [OF ok ip(1) _ _ t]) blast+
  have n: "names_inode d i ?v" using ip(2) by (simp add: names_inode_def in_use_def)
  have u: "\<forall>k < NINODE. names_inode d i (itab s k) \<longrightarrow> k = ip"
    using itab_okD [OF ok _ ip(1) _ ip(2)] by blast
  show "iget_post d i s ip t"
    unfolding iget_post_def t by (intro conjI ip(1) u) (simp_all add: n ip)
qed

lemma iget_fresh:
  assumes ok: "itab_ok s" and ip: "ip < NINODE" "i_ref (itab s ip) = 0"
    and no: "\<And>k. k < NINODE \<Longrightarrow> \<not> names_inode d i (itab s k)"
    and t: "itab t = (itab s)(ip := (itab s ip)\<lparr>i_dev := d, i_inum := i, i_ref := 1, i_valid := False\<rparr>)"
  shows "itab_ok t" "iget_post d i s ip t"
proof -
  let ?v = "(itab s ip)\<lparr>i_dev := d, i_inum := i, i_ref := 1, i_valid := False\<rparr>"
  have "d' = d \<and> i' = i" if "names_inode d' i' ?v" for d' i' using that by (simp add: names_inode_def)
  then show "itab_ok t" using no by (intro itab_ok_upd [OF ok ip(1) _ _ t]) auto
  show "iget_post d i s ip t" 
    unfolding iget_post_def t using no ip by (auto simp: names_inode_def in_use_def)
qed

text \<open>
  C23. \<^verbatim>\<open>iget(dev, inum)\<close> keeps the table free of duplicates. It panics exactly if no entry stands for
  the inode and none is free. Otherwise it returns an entry for the inode as \<open>iget_post\<close> says, with
  the table's lock released.
\<close>

theorem iget_no_duplicates:
  assumes ok: "itab_ok s" and c: "cpu_ok (core s)" "free_lock ItableLock (core s)"
  shows "(if \<exists>k < NINODE. names_inode d i (itab s k) \<or> i_ref (itab s k) = 0
          then \<exists>ip t. iget d i s = Ret ip t \<and> itab_ok t \<and> iget_post d i s ip t \<and> core t = touch (core s)
          else iget d i s = Panic ''iget: no inodes'')"
proof (cases "find (\<lambda>k. names_inode d i (itab s k)) [0..<NINODE]")
  case (Some ip)
  then have ip: "ip < NINODE" "names_inode d i (itab s ip)" using find_Some_upt by blast+
  let ?t = "(upd_inode ip (\<lambda>v. v\<lparr>i_ref := i_ref v + 1\<rparr>) s)\<lparr>core := touch (core s)\<rparr>"
  have "iget d i s = Ret ip ?t" using Some c by (simp add: iget_eq)
  moreover have "itab_ok ?t" "iget_post d i s ip ?t" using iget_found [OF ok ip, of ?t] by simp_all
  moreover have "core ?t = touch (core s)" by simp
  ultimately show ?thesis using ip by (metis (no_types, lifting))
next
  case None
  then have no: "\<not> names_inode d i (itab s k)" if "k < NINODE" for k using that by (simp add: find_None_upt)
  show ?thesis
  proof (cases "find (\<lambda>k. i_ref (itab s k) = 0) [0..<NINODE]")
    case None': None
    then have "iget d i s = Panic ''iget: no inodes''" using None c by (simp add: iget_eq)
    moreover have "\<not> (\<exists>k < NINODE. names_inode d i (itab s k) \<or> i_ref (itab s k) = 0)"
      using no None' by (simp add: find_None_upt)
    ultimately show ?thesis by (simp only: if_False)
  next
    case (Some ip)
    then have ip: "ip < NINODE" "i_ref (itab s ip) = 0" using find_Some_upt by blast+
    let ?t = "(upd_inode ip (\<lambda>v. v\<lparr>i_dev := d, i_inum := i, i_ref := 1, i_valid := False\<rparr>) s)\<lparr>core := touch (core s)\<rparr>"
    have "iget d i s = Ret ip ?t" using None Some c by (simp add: iget_eq)
    moreover have "itab_ok ?t" "iget_post d i s ip ?t" using iget_fresh [OF ok ip no, of ?t] by simp_all
    moreover have "core ?t = touch (core s)" by simp
    ultimately show ?thesis using ip by (metis (no_types, lifting))
  qed
qed

text \<open>
  A machine for the witnesses: every lock is free, process 2 runs on hart 0, the root inode is in
  the table with one reference.
\<close>

definition demo_inode_entry :: "nat \<Rightarrow> inode" where
  "demo_inode_entry k = \<lparr>i_dev = 1, i_inum = (if k = 0 then 1 else 0), i_ref = (if k = 0 then 1 else 0), i_valid = (k = 0),
     i_type = (if k = 0 then T_DIR else 0), i_major = 0, i_minor = 0, i_nlink = (if k = 0 then 1 else 0), i_size = 0,
     i_addrs = (\<lambda>_. 0)\<rparr>"

definition demo_buf :: "nat \<Rightarrow> buf" where
  "demo_buf b = \<lparr>valid = False, dev = 0, blockno = 0, refcnt = 0, bprev = (if b = NBUF then 0 else b + 1),
     bnext = (if b = 0 then NBUF else b - 1), bdata = (\<lambda>_. 0)\<rparr>"

definition demo_fs :: fs_state where
  "demo_fs = \<lparr>core = upd_mycpu (\<lambda>c. c\<lparr>cproc := Some 2\<rparr>) core0, phys = (\<lambda>_. 0), freelist = 0, kend = 0x80020000,
     procs = (\<lambda>_. proc0)(2 := proc0\<lparr>state := RUNNING, pid := 3\<rparr>),
     trapframes = (\<lambda>_ _. 0), nextpid = 4, initproc = None, ticks = 0, mlfqi = (\<lambda>_. None),
     head = (\<lambda>_. 0), tail = (\<lambda>_. 0), len = (\<lambda>_. 0), boost = 0, stimecmp = (\<lambda>_. 0),
     pipes = (\<lambda>_. \<lparr>pdata = (\<lambda>_. 0), nread = 0, nwrite = 0, readopen = False, writeopen = False\<rparr>),
     sfuel = 1, slocks = (\<lambda>_. \<lparr>slocked = 0, sname = [], spid = 0\<rparr>), bufs = demo_buf, disk = (\<lambda>_ _. 0), dwrites = [],
     lg = \<lparr>lstart = 2, outstanding = 0, committing = False, ldev = 1, ncommit = 0, lh = \<lparr>lhn = 0, lhblock = (\<lambda>_. 0)\<rparr>\<rparr>,
     itab = demo_inode_entry,
     sb = \<lparr>sb_magic = FSMAGIC, sb_size = 2000, sb_nblocks = 1954, sb_ninodes = 200, sb_nlog = 31, sb_logstart = 2,
           sb_inodestart = 33, sb_bmapstart = 46\<rparr>\<rparr>"

lemma demo_fs_core: "cpu_ok (core demo_fs)" "free_lock lk (core demo_fs)" "cproc (mycpu (core demo_fs)) = Some 2"
  by (simp_all add: demo_fs_def core0_def hart_defs)

lemma demo_fs_itab: "itab_ok demo_fs"
  by (simp add: itab_ok_def demo_fs_def demo_inode_entry_def names_inode_def in_use_def)

theorem iget_no_duplicates_witness:
  "\<exists>ip t. iget 1 7 demo_fs = Ret ip t \<and> itab_ok t \<and> iget_post 1 7 demo_fs ip t \<and> core t = touch (core demo_fs)"
proof -
  have "\<exists>k < NINODE. names_inode 1 7 (itab demo_fs k) \<or> i_ref (itab demo_fs k) = 0"
    by (rule exI [of _ 1]) (simp add: demo_fs_def demo_inode_entry_def NINODE_def)
  with iget_no_duplicates [OF demo_fs_itab demo_fs_core(1,2), of 1 7] show ?thesis by (simp only: if_True)
qed

end
