(* ===== verification/Links.thy ===== *)
theory Links
  imports Main
begin

text \<open>
  Linked lists in link fields: a link field is a function from nodes to nodes. \<open>lpath f x as y\<close> says
  that following \<open>f\<close> from \<open>x\<close> one visits \<open>as\<close> and then reaches \<open>y\<close>; a circular list is a path from its head
  back to its head. The buffer cache (theory \<open>Bcache\<close>) and the free list of the user allocator (theory
  \<open>Umalloc\<close>) are such lists.
\<close>

subsection \<open>Lists in links\<close>

primrec lpath :: "(nat \<Rightarrow> nat) \<Rightarrow> nat \<Rightarrow> nat list \<Rightarrow> nat \<Rightarrow> bool" where
  "lpath f x [] y \<longleftrightarrow> f x = y"
| "lpath f x (a # as) y \<longleftrightarrow> f x = a \<and> lpath f a as y"

lemma lpath_append: "lpath f x (as @ b # bs) y \<longleftrightarrow> lpath f x as b \<and> lpath f b bs y"
  by (induction as arbitrary: x) auto

lemma lpath_upd [simp]: "u \<noteq> x \<Longrightarrow> u \<notin> set as \<Longrightarrow> lpath (f(u := v)) x as y = lpath f x as y"
  by (induction as arbitrary: x) auto

lemma lpath_hd: "lpath f x as y \<Longrightarrow> f x = hd (as @ [y])"
  by (cases as) auto

lemma lpath_last: "lpath f x as y \<Longrightarrow> f (last (x # as)) = y"
  by (induction as arbitrary: x) auto

lemma lpath_retarget: "lpath f x as y \<Longrightarrow> distinct (x # as) \<Longrightarrow> lpath (f(last (x # as) := z)) x as z"
proof (induction as arbitrary: x)
  case Nil
  then show ?case by simp
next
  case (Cons a as)
  then have "lpath (f(last (a # as) := z)) a as z" by (intro Cons.IH) auto
  moreover have "last (a # as) \<noteq> x"
    using Cons.prems(2) last_in_set [of "a # as"] by auto
  moreover have "last (x # a # as) = last (a # as)" by simp
  ultimately show ?case using Cons.prems(1) by (simp add: fun_upd_def del: last.simps)
qed

lemma lpath_remove:
  assumes "lpath f x (as @ b # bs) y" "distinct (x # as @ b # bs)"
  shows "lpath (f(last (x # as) := f b)) x (as @ bs) y"
proof -
  have p: "lpath f x as b" "lpath f b bs y" using assms(1) by (simp_all add: lpath_append)
  have d: "distinct (x # as)" using assms(2) by auto
  show ?thesis
  proof (cases bs)
    case Nil
    then show ?thesis using p lpath_retarget [OF p(1) d] by simp
  next
    case (Cons c cs)
    have "last (x # as) \<noteq> c" "last (x # as) \<notin> set cs"
      using assms(2) last_in_set [of "x # as"] Cons by auto
    then show ?thesis using p lpath_retarget [OF p(1) d, of c] Cons by (simp add: lpath_append)
  qed
qed

lemma lpath_push: "lpath f x as y \<Longrightarrow> b \<notin> set (x # as) \<Longrightarrow> x \<notin> set as \<Longrightarrow> lpath (f(b := f x, x := b)) x (b # as) y"
  by (cases as) auto

lemma lpath_snoc:
  assumes "lpath f x as y" "b \<notin> set (x # as)" "distinct (x # as)"
  shows "lpath (f(b := y, last (x # as) := b)) x (as @ [b]) y"
proof -
  have "last (x # as) \<noteq> b" using assms(2) last_in_set [of "x # as"] by auto
  moreover have "lpath (f(b := y)) x as y" using assms by simp
  ultimately show ?thesis using assms lpath_retarget [of "f(b := y)" x as y b] by (simp add: lpath_append)
qed

subsection \<open>Walking round a circle\<close>

text \<open>Stepping \<open>i\<close> times from the head of a circular list gives its \<open>i\<close>th node.\<close>

lemma lpath_funpow:
  "lpath f x as y \<Longrightarrow> i \<le> length as \<Longrightarrow> (f ^^ i) x = (x # as) ! i"
proof (induction as arbitrary: x i)
  case (Cons a as)
  then show ?case by (cases i) (auto simp: funpow_Suc_right simp del: funpow.simps(2))
qed simp

lemma lpath_funpow_end: "lpath f x as y \<Longrightarrow> (f ^^ Suc (length as)) x = y"
  by (induction as arbitrary: x) (auto simp: funpow_Suc_right simp del: funpow.simps(2))

lemma circle_reaches:
  assumes "lpath f x as x" "u \<in> set (x # as)" "v \<in> set (x # as)"
  shows "\<exists>k < 2 * length (x # as). (f ^^ k) u = v"
proof -
  obtain i where i: "i < length (x # as)" "(x # as) ! i = u" using assms(2) by (metis in_set_conv_nth)
  obtain j where j: "j < length (x # as)" "(x # as) ! j = v" using assms(3) by (metis in_set_conv_nth)
  have u: "u = (f ^^ i) x" and v: "v = (f ^^ j) x" using i j lpath_funpow [OF assms(1)] by auto
  let ?k = "length (x # as) - i + j"
  have "(f ^^ ?k) u = (f ^^ (j + length (x # as))) x"
    unfolding u using i(1) by (simp add: funpow_add [symmetric, THEN fun_cong, simplified] add.commute del: funpow.simps)
  also have "\<dots> = (f ^^ j) ((f ^^ length (x # as)) x)" by (simp only: funpow_add o_apply)
  also have "\<dots> = v" using lpath_funpow_end [OF assms(1)] v by simp
  finally show ?thesis using i(1) j(1) by (intro exI [of _ ?k]) simp
qed

lemma circle_closed:
  assumes "lpath f x as x" "u \<in> set (x # as)"
  shows "f u \<in> set (x # as)"
proof -
  have "u \<in> set (z # bs) \<Longrightarrow> lpath f z bs y \<Longrightarrow> f u \<in> set bs \<union> {y}" for z bs y
    by (induction bs arbitrary: z) auto
  from this [OF assms(2,1)] show ?thesis by auto
qed

lemma circle_funpow: "lpath f x as x \<Longrightarrow> u \<in> set (x # as) \<Longrightarrow> (f ^^ k) u \<in> set (x # as)"
proof (induction k)
  case (Suc k)
  then show ?case using circle_closed [of f x as "(f ^^ k) u"] by simp
qed simp

text \<open>The first time a walk meets a property.\<close>

lemma circle_first:
  assumes "lpath f x as x" "u \<in> set (x # as)" "v \<in> set (x # as)" "P v"
  obtains k where "k < 2 * length (x # as)" "P ((f ^^ k) u)" "\<And>i. i < k \<Longrightarrow> \<not> P ((f ^^ i) u)"
proof -
  obtain m where m: "m < 2 * length (x # as)" "(f ^^ m) u = v" using circle_reaches [OF assms(1-3)] by blast
  let ?k = "LEAST k. P ((f ^^ k) u)"
  have "P ((f ^^ ?k) u)" using m assms(4) by (metis (mono_tags) LeastI)
  moreover have "?k \<le> m" using m assms(4) by (metis (mono_tags) Least_le)
  moreover have "\<not> P ((f ^^ i) u)" if "i < ?k" for i using not_less_Least [OF that] .
  ultimately show thesis using m(1) that by (meson le_less_trans)
qed

text \<open>A walk that has come back to where it started has seen every node.\<close>

lemma circle_round:
  assumes "lpath f x as x" "w \<in> set (x # as)" "(f ^^ Suc i) w = w" "v \<in> set (x # as)"
  shows "\<exists>j \<le> i. (f ^^ Suc j) w = v"
proof -
  obtain m where m: "(f ^^ m) (f w) = v"
    using circle_reaches [OF assms(1) circle_closed [OF assms(1,2)] assms(4)] by blast
  have "(f ^^ Suc i) (f w) = f w" using assms(3) by (metis funpow_swap1)
  then have "(f ^^ (m mod Suc i)) (f w) = v" using m funpow_mod_eq by metis
  then have "(f ^^ Suc (m mod Suc i)) w = v" by (simp add: funpow_swap1)
  moreover have "m mod Suc i \<le> i" using mod_less_divisor [of "Suc i" m] by simp
  ultimately show ?thesis by blast
qed

lemma circle_pred:
  assumes "lpath f x (as @ y # bs) x" "distinct (x # as @ y # bs)" "u \<in> set (x # as @ y # bs)" "f u = y"
  shows "u = last (x # as)"
proof -
  have l: "lpath f z cs e \<Longrightarrow> u \<in> set (z # cs) \<Longrightarrow> f u = y \<Longrightarrow> distinct (z # cs) \<Longrightarrow> y \<notin> set cs \<Longrightarrow> y = e \<and> u = last (z # cs)" for z cs e
    by (induction cs arbitrary: z) auto
  have p: "lpath f x as y" "lpath f y bs x" using assms(1) by (simp_all add: lpath_append)
  show ?thesis
  proof (cases "u \<in> set (x # as)")
    case True
    then show ?thesis using l [OF p(1)] assms by auto
  next
    case False
    then have "u \<in> set (y # bs)" using assms(3) by auto
    then show ?thesis using l [OF p(2)] assms by auto
  qed
qed

lemma lpath_succ:
  assumes "lpath f x as y" "u \<in> set (x # as)" "distinct (x # as)"
  shows "u = last (x # as) \<and> f u = y \<or> (\<exists>xs v ys. x # as = xs @ u # v # ys \<and> f u = v)"
  using assms
proof (induction as arbitrary: x)
  case (Cons a as)
  show ?case
  proof (cases "u = x")
    case True
    then show ?thesis using Cons.prems by (intro disjI2 exI [of _ "[]"] exI [of _ a] exI [of _ as]) simp
  next
    case False
    then have "u = last (a # as) \<and> f u = y \<or> (\<exists>xs v ys. a # as = xs @ u # v # ys \<and> f u = v)"
      using Cons by auto
    then show ?thesis
    proof
      assume "u = last (a # as) \<and> f u = y"
      then show ?thesis by (intro disjI1) auto
    next
      assume "\<exists>xs v ys. a # as = xs @ u # v # ys \<and> f u = v"
      then obtain xs v ys where "a # as = xs @ u # v # ys" "f u = v" by blast
      then show ?thesis by (intro disjI2 exI [of _ "x # xs"] exI [of _ v] exI [of _ ys]) simp
    qed
  qed
qed simp

lemma lpath_start: "lpath f z as y \<Longrightarrow> u \<notin> set as \<Longrightarrow> lpath (f(u := f z)) u as y"
  by (cases as) auto

lemma lpath_tail: "lpath f x (as @ bs) y \<Longrightarrow> lpath f (last (x # as)) bs y"
  by (induction as arbitrary: x) auto

lemma lpath_init: "lpath f x (as @ bs) y \<Longrightarrow> lpath f x as (f (last (x # as)))"
  by (induction as arbitrary: x) auto

end
