(* ===== verification/Bcache.thy ===== *)
theory Bcache
  imports Bio Links
begin

text \<open>
  The buffer cache as a list. The links of the buffers describe a list \<open>bs\<close> of all buffers, most
  recently released first (\<open>bring\<close>); \<^verbatim>\<open>bget\<close> searches it from the front for a block and from the back
  for an unused buffer, \<^verbatim>\<open>brelse\<close> moves a buffer to the front.

  \<open>bio_ok\<close> is the state between two operations of the file system when one process works alone: the
  links are a list, no block is cached twice, a buffer's reference count is 1 for the log's pin plus 1
  for the process that holds it, and a buffer that nobody refers to agrees with the disk. Each
  operation is described by its effect under this invariant.
\<close>

subsection \<open>The list of buffers\<close>

definition nxt :: "'z bio_state_scheme \<Rightarrow> nat \<Rightarrow> nat" where
  "nxt s b = bnext (bufs s b)"

definition prv :: "'z bio_state_scheme \<Rightarrow> nat \<Rightarrow> nat" where
  "prv s b = bprev (bufs s b)"

definition set_next :: "nat \<Rightarrow> nat \<Rightarrow> 'z bio_state_scheme \<Rightarrow> 'z bio_state_scheme" where
  "set_next b x = upd_buf b (\<lambda>v. v\<lparr>bnext := x\<rparr>)"

definition set_prev :: "nat \<Rightarrow> nat \<Rightarrow> 'z bio_state_scheme \<Rightarrow> 'z bio_state_scheme" where
  "set_prev b x = upd_buf b (\<lambda>v. v\<lparr>bprev := x\<rparr>)"

text \<open>What a buffer holds, without its links and its count.\<close>

definition bview :: "'z bio_state_scheme \<Rightarrow> nat \<Rightarrow> bool \<times> u32 \<times> u32 \<times> block" where
  "bview s b = (valid (bufs s b), dev (bufs s b), blockno (bufs s b), bdata (bufs s b))"

lemma set_link_simps [simp]:
  "nxt (set_next b x s) = (nxt s)(b := x)" "nxt (set_prev b x s) = nxt s"
  "prv (set_prev b x s) = (prv s)(b := x)" "prv (set_next b x s) = prv s"
  by (auto simp: nxt_def prv_def set_next_def set_prev_def upd_buf_def fun_eq_iff)

lemma set_link_frame [simp]:
  "bview (set_next b x s) = bview s" "bview (set_prev b x s) = bview s"
  "refcnt (bufs (set_next b x s) c) = refcnt (bufs s c)" "refcnt (bufs (set_prev b x s) c) = refcnt (bufs s c)"
  "bio_state.more (set_next b x s) = bio_state.more s" "bio_state.more (set_prev b x s) = bio_state.more s"
  "(set_next b x s)\<lparr>bufs := r\<rparr> = s\<lparr>bufs := r\<rparr>" "(set_prev b x s)\<lparr>bufs := r\<rparr> = s\<lparr>bufs := r\<rparr>"
  by (auto simp: bview_def set_next_def set_prev_def upd_buf_def fun_eq_iff)

definition bring :: "'z bio_state_scheme \<Rightarrow> nat list \<Rightarrow> bool" where
  "bring s bs \<longleftrightarrow> distinct bs \<and> set bs = {..<NBUF} \<and> lpath (nxt s) NBUF bs NBUF \<and> lpath (prv s) NBUF (rev bs) NBUF"

lemma bring_NBUF: "bring s bs \<Longrightarrow> NBUF \<notin> set bs"
  by (auto simp: bring_def)

lemma bring_length: "bring s bs \<Longrightarrow> length bs = NBUF"
  unfolding bring_def using distinct_card [of bs] by simp

lemma bget_cached_eq:
  "lpath (nxt s) x bs NBUF \<Longrightarrow> NBUF \<notin> set bs \<Longrightarrow> length bs < k \<Longrightarrow>
   bget_cached k (nxt s x) d n s = Ret (find (\<lambda>c. dev (bufs s c) = d \<and> blockno (bufs s c) = n) bs) s"
proof (induction bs arbitrary: x k)
  case Nil
  then obtain j where "k = Suc j" by (cases k) auto
  with Nil show ?case by (simp add: kret_def nxt_def prv_def)
next
  case (Cons b bs)
  then obtain j where "k = Suc j" by (cases k) auto
  with Cons show ?case by (auto simp: kret_def nxt_def prv_def)
qed

lemma bget_unused_eq:
  "lpath (prv s) x bs NBUF \<Longrightarrow> NBUF \<notin> set bs \<Longrightarrow> length bs < k \<Longrightarrow>
   bget_unused k (prv s x) s = Ret (find (\<lambda>c. refcnt (bufs s c) = 0) bs) s"
proof (induction bs arbitrary: x k)
  case Nil
  then obtain j where "k = Suc j" by (cases k) auto
  with Nil show ?case by (simp add: kret_def nxt_def prv_def)
next
  case (Cons b bs)
  then obtain j where "k = Suc j" by (cases k) auto
  with Cons show ?case by (auto simp: kret_def nxt_def prv_def)
qed

text \<open>The six pointer assignments of \<^verbatim>\<open>brelse\<close>.\<close>

definition to_front :: "nat \<Rightarrow> 'z bio_state_scheme \<Rightarrow> 'z bio_state_scheme" where
  "to_front b s =
     (let s1 = set_prev (nxt s b) (prv s b) s;
          s2 = set_next (prv s1 b) (nxt s1 b) s1;
          s3 = set_next b (nxt s2 NBUF) s2;
          s4 = set_prev b NBUF s3;
          s5 = set_prev (nxt s4 NBUF) b s4
      in set_next NBUF b s5)"

lemma to_front_links:
  assumes "b \<noteq> NBUF" "nxt s b \<noteq> b" "prv s b \<noteq> b"
  defines "n' \<equiv> (nxt s)(prv s b := nxt s b)"
  shows "nxt (to_front b s) = n'(b := n' NBUF, NBUF := b)"
    and "prv (to_front b s) = (prv s)(nxt s b := prv s b, b := NBUF, n' NBUF := b)"
  using assms by (simp_all add: to_front_def Let_def n'_def)

lemma to_front_frame [simp]:
  "bview (to_front b s) = bview s" "refcnt (bufs (to_front b s) c) = refcnt (bufs s c)"
  "bio_state.more (to_front b s) = bio_state.more s"
  "(to_front b s)\<lparr>bufs := r\<rparr> = s\<lparr>bufs := r\<rparr>"
  by (simp_all add: to_front_def Let_def)

lemma to_front_bring:
  assumes r: "bring s bs" and b: "b < NBUF"
  shows "bring (to_front b s) (b # remove1 b bs)"
proof -
  have "b \<in> set bs" using r b by (simp add: bring_def)
  then obtain xs ys where bs: "bs = xs @ b # ys" "b \<notin> set xs" by (metis split_list_first)
  have d: "distinct (NBUF # xs @ b # ys)" using r bring_NBUF [OF r] bs by (auto simp: bring_def)
  then have rm: "remove1 b bs = xs @ ys" using bs by (simp add: remove1_append)
  let ?n = "nxt s" and ?p = "prv s"
  have ln: "lpath ?n NBUF (xs @ b # ys) NBUF" and lp: "lpath ?p NBUF (rev ys @ b # rev xs) NBUF"
    using r bs by (simp_all add: bring_def)
  have pb: "?p b = last (NBUF # xs)" using lp lpath_hd [of ?p b "rev xs" NBUF]
    by (cases xs rule: rev_cases) (auto simp: lpath_append)
  have nb: "?n b = last (NBUF # rev ys)" using ln lpath_hd [of ?n b ys NBUF]
    by (cases ys) (auto simp: lpath_append)
  have nbb: "?n b \<noteq> b" and pbb: "?p b \<noteq> b" and bN: "b \<noteq> NBUF"
    using d pb nb last_in_set [of "NBUF # xs"] last_in_set [of "NBUF # rev ys"] by (auto split: if_splits)
  let ?n' = "?n(?p b := ?n b)"
  have n': "lpath ?n' NBUF (xs @ ys) NBUF"
    using lpath_remove [OF ln] d pb by (simp del: last.simps)
  have p': "lpath (?p(?n b := ?p b)) NBUF (rev (xs @ ys)) NBUF"
    using lpath_remove [OF lp] d nb by (simp add: Int_commute del: last.simps)
  have first: "?n' NBUF = last (NBUF # rev (xs @ ys))"
    using lpath_hd [OF n'] by (cases "xs @ ys") (auto simp: last_rev)
  have "lpath (nxt (to_front b s)) NBUF (b # xs @ ys) NBUF"
    unfolding to_front_links [OF bN nbb pbb] by (rule lpath_push [OF n']) (use d in auto)
  moreover have "lpath (prv (to_front b s)) NBUF (rev (xs @ ys) @ [b]) NBUF"
    unfolding to_front_links [OF bN nbb pbb] first by (rule lpath_snoc [OF p']) (use d in auto)
  ultimately show ?thesis using r bs d rm b by (auto simp: bring_def)
qed


subsection \<open>Sleep locks of a process that works alone\<close>

text \<open>No spin lock is held, process \<open>p\<close> runs, the process table is well formed.\<close>

definition quiet :: "nat \<Rightarrow> 'z bio_state_scheme \<Rightarrow> bool" where
  "quiet p s \<longleftrightarrow> cpu_ok (core s) \<and> (\<forall>lk. free_lock lk (core s)) \<and> cproc (mycpu (core s)) = Some p
     \<and> p < NPROC \<and> table_ok s \<and> 0 < sfuel s"

lemma quietD:
  assumes "quiet p s"
  shows "cpu_ok (core s)" "free_lock lk (core s)" "cproc (mycpu (core s)) = Some p" "table_ok s" "0 < sfuel s"
    "p < NPROC" "table_free (core s)"
  using assms by (simp_all add: quiet_def table_free_def)

lemma pipe_more_bio:
  assumes "pipe_state.more t = pipe_state.more s"
  shows "bufs t = bufs s" "slocks t = slocks s" "disk t = disk s" "dwrites t = dwrites s" "sfuel t = sfuel s"
    "bio_state.more t = bio_state.more s"
  using assms by (cases s, cases t, simp)+

definition take_lock :: "lockid \<Rightarrow> nat \<Rightarrow> 'z bio_state_scheme \<Rightarrow> 'z bio_state_scheme" where
  "take_lock lk p s = (upd_slock lk (\<lambda>l. l\<lparr>slocked := 1, spid := pid (procs s p)\<rparr>) s)\<lparr>core := touch (core s)\<rparr>"

definition drop_lock :: "lockid \<Rightarrow> 'z bio_state_scheme \<Rightarrow> 'z bio_state_scheme" where
  "drop_lock lk s = (wakeup_eff (Some (ChSleeplock lk))
     ((upd_slock lk (\<lambda>l. l\<lparr>slocked := 0, spid := 0\<rparr>) s)\<lparr>core := c_acq lk (core s)\<rparr>))\<lparr>core := touch (core s)\<rparr>"

lemma table_ok_cong:
  fixes s t :: "'z sched_state_scheme"
  assumes "procs t = procs s" "mlfqi t = mlfqi s" "head t = head s" "tail t = tail s" "len t = len s"
  shows "table_ok t = table_ok s"
  unfolding table_ok_def mlfq_wf_def row_ok_def queued_def qview_def qcells_def assms by (rule refl)

lemma table_ok_bio [simp]:
  "table_ok (s\<lparr>bufs := x\<rparr>) = table_ok s" "table_ok (s\<lparr>slocks := y\<rparr>) = table_ok s" "table_ok (s\<lparr>disk := D\<rparr>) = table_ok s"
  "table_ok (s\<lparr>dwrites := W\<rparr>) = table_ok s"
  by (rule table_ok_cong; simp)+

lemma upd_slock_simps [simp]:
  "core (upd_slock lk f s) = core s" "procs (upd_slock lk f s) = procs s" "bufs (upd_slock lk f s) = bufs s"
  "slocks (upd_slock lk f s) = (slocks s)(lk := f (slocks s lk))" "disk (upd_slock lk f s) = disk s"
  "dwrites (upd_slock lk f s) = dwrites s" "sfuel (upd_slock lk f s) = sfuel s" "table_ok (upd_slock lk f s) = table_ok s"
  "bio_state.more (upd_slock lk f s) = bio_state.more s" "upd_slock lk f (s\<lparr>core := c\<rparr>) = (upd_slock lk f s)\<lparr>core := c\<rparr>"
  by (simp_all add: upd_slock_def)

lemma upd_slock_twice [simp]: "upd_slock lk f (upd_slock lk g s) = upd_slock lk (\<lambda>l. f (g l)) s"
  by (simp add: upd_slock_def)

lemma acquiresleep_eq [kstep]:
  assumes q: "quiet p s" and free: "slocked (slocks s lk) = 0"
  shows "acquiresleep lk s = Ret () (take_lock lk p s)"
proof -
  note c = quietD(1,2) [OF q] quietD(3) [OF q]
  obtain n where n: "sfuel s = Suc n" using quietD(5) [OF q] by (cases "sfuel s") auto
  have "acquiresleep_wait (Suc n) lk (s\<lparr>core := c_acq lk (core s)\<rparr>) = Ret () (s\<lparr>core := c_acq lk (core s)\<rparr>)"
    using free by (simp add: kret_def)
  then show ?thesis
    using c n by (simp add: acquiresleep_def take_lock_def with_proc_def kstep)
qed

lemma releasesleep_eq [kstep]:
  assumes q: "quiet p s" and lk: "\<And>n. lk \<noteq> ProcLock n" "lk \<noteq> MlfqLock"
  shows "releasesleep lk s = Ret () (drop_lock lk s)"
proof -
  let ?a = "(upd_slock lk (\<lambda>l. l\<lparr>slocked := 0, spid := 0\<rparr>) s)\<lparr>core := c_acq lk (core s)\<rparr>"
  have "table_ok ?a" "table_free (core ?a)" using quietD [OF q] lk by simp_all
  then have "wakeup (Some (ChSleeplock lk)) ?a = Ret () (wakeup_eff (Some (ChSleeplock lk)) ?a)" by (rule wakeup_eq)
  then show ?thesis
    using quietD(1,2) [OF q] by (simp add: releasesleep_def drop_lock_def kstep)
qed

lemma drop_lock_frame [simp]:
  "bufs (drop_lock lk s) = bufs s" "disk (drop_lock lk s) = disk s" "dwrites (drop_lock lk s) = dwrites s"
  "sfuel (drop_lock lk s) = sfuel s" "bio_state.more (drop_lock lk s) = bio_state.more s"
  "core (drop_lock lk s) = touch (core s)"
  "slocks (drop_lock lk s) = (slocks s)(lk := (slocks s lk)\<lparr>slocked := 0, spid := 0\<rparr>)"
  unfolding drop_lock_def
  using pipe_more_bio [OF wakeup_eff_pipes(2), of "Some (ChSleeplock lk)" "(upd_slock lk (\<lambda>l. l\<lparr>slocked := 0, spid := 0\<rparr>) s)\<lparr>core := c_acq lk (core s)\<rparr>"]
  by simp_all

lemma drop_lock_table:
  assumes "table_ok s"
  shows "table_ok (drop_lock lk s)" "q < NPROC \<Longrightarrow> procs (drop_lock lk s) q = woken (Some (ChSleeplock lk)) (procs s q)"
  using assms wakeup_eff_ok [of "(upd_slock lk (\<lambda>l. l\<lparr>slocked := 0, spid := 0\<rparr>) s)\<lparr>core := c_acq lk (core s)\<rparr>"]
  by (simp_all add: drop_lock_def)

lemma pid_woken [simp]: "pid (woken ch r) = pid r"
  by (simp add: woken_def)

lemma holdingsleep_eq [kstep]:
  assumes q: "quiet p s"
  shows "holdingsleep lk s = Ret (slocked (slocks s lk) \<noteq> 0 \<and> spid (slocks s lk) = pid (procs s p)) (s\<lparr>core := touch (core s)\<rparr>)"
  using quietD(1,2) [OF q] quietD(3) [OF q] by (auto simp: holdingsleep_def with_proc_def kstep kret_def)

lemma quiet_simps [simp]:
  "quiet p (s\<lparr>core := touch c\<rparr>) = quiet p (s\<lparr>core := c\<rparr>)" "quiet p (s\<lparr>disk := D\<rparr>) = quiet p s"
  "quiet p (s\<lparr>dwrites := W\<rparr>) = quiet p s" "quiet p (upd_buf b f s) = quiet p s" "quiet p (upd_slock lk g s) = quiet p s"
  by (simp_all add: quiet_def upd_buf_def)

lemma quiet_core [simp]: "quiet p (s\<lparr>core := core s\<rparr>) = quiet p s"
  by simp

lemma quiet_drop_lock: "quiet p s \<Longrightarrow> quiet p (drop_lock lk s)"
  using drop_lock_table(1) [of s lk] by (simp add: quiet_def)

lemma quiet_take_lock: "quiet p s \<Longrightarrow> quiet p (take_lock lk p s)"
  by (simp add: take_lock_def quiet_def)


subsection \<open>The invariant\<close>

text \<open>
  One buffer: \<open>P\<close> are the buffers the log has pinned, \<open>H\<close> those the process holds locked. All cached
  blocks are of device \<open>dv\<close>.
\<close>

definition bok :: "u32 \<Rightarrow> nat \<Rightarrow> nat set \<Rightarrow> nat set \<Rightarrow> 'z bio_state_scheme \<Rightarrow> nat \<Rightarrow> bool" where
  "bok dv p P H s b \<longleftrightarrow> refcnt (bufs s b) = of_bool (b \<in> P) + of_bool (b \<in> H)
     \<and> (dev (bufs s b) \<noteq> dv \<longrightarrow> \<not> valid (bufs s b) \<and> b \<notin> P \<and> b \<notin> H)
     \<and> (b \<notin> P \<and> b \<notin> H \<and> valid (bufs s b) \<longrightarrow> bdata (bufs s b) = disk s (blockno (bufs s b)))
     \<and> (if b \<in> H then slocked (slocks s (BufLk b)) = 1 \<and> spid (slocks s (BufLk b)) = pid (procs s p)
        else slocked (slocks s (BufLk b)) = 0)"

definition holds_block :: "u32 \<Rightarrow> u32 \<Rightarrow> 'z bio_state_scheme \<Rightarrow> nat \<Rightarrow> bool" where
  "holds_block dv n s b \<longleftrightarrow> dev (bufs s b) = dv \<and> blockno (bufs s b) = n"

definition cached_once :: "u32 \<Rightarrow> 'z bio_state_scheme \<Rightarrow> bool" where
  "cached_once dv s \<longleftrightarrow> (\<forall>b < NBUF. \<forall>c < NBUF. \<forall>n. holds_block dv n s b \<longrightarrow> holds_block dv n s c \<longrightarrow> b = c)"

definition bio_ok :: "u32 \<Rightarrow> nat \<Rightarrow> nat set \<Rightarrow> nat set \<Rightarrow> 'z bio_state_scheme \<Rightarrow> bool" where
  "bio_ok dv p P H s \<longleftrightarrow> quiet p s \<and> (\<exists>bs. bring s bs) \<and> P \<subseteq> {..<NBUF} \<and> H \<subseteq> {..<NBUF}
     \<and> (\<forall>b < NBUF. bok dv p P H s b) \<and> cached_once dv s"

lemma bio_okD:
  assumes "bio_ok dv p P H s"
  shows "quiet p s" "\<exists>bs. bring s bs" "P \<subseteq> {..<NBUF}" "H \<subseteq> {..<NBUF}" "b < NBUF \<Longrightarrow> bok dv p P H s b" "cached_once dv s"
  using assms by (simp_all add: bio_ok_def)

lemma cached_onceD:
  "cached_once dv s \<Longrightarrow> b < NBUF \<Longrightarrow> c < NBUF \<Longrightarrow> holds_block dv n s b \<Longrightarrow> holds_block dv n s c \<Longrightarrow> b = c"
  unfolding cached_once_def by blast

lemma refcnt_zero: "bok dv p P H s b \<Longrightarrow> refcnt (bufs s b) = 0 \<longleftrightarrow> b \<notin> P \<and> b \<notin> H"
  by (auto simp: bok_def)

text \<open>A step that changes buffer \<open>b\<close> only.\<close>

lemma bok_other:
  assumes "bok dv p P H s c" "bufs t c = bufs s c" "slocks t (BufLk c) = slocks s (BufLk c)"
    "disk t (blockno (bufs s c)) = disk s (blockno (bufs s c))" "pid (procs t p) = pid (procs s p)"
    "c \<in> P' \<longleftrightarrow> c \<in> P" "c \<in> H' \<longleftrightarrow> c \<in> H"
  shows "bok dv p P' H' t c"
  using assms by (simp add: bok_def)

lemma bring_cong: "nxt t = nxt s \<Longrightarrow> prv t = prv s \<Longrightarrow> bring t bs = bring s bs"
  by (simp add: bring_def)

text \<open>What a block reads as: the cached copy if there is one, else the disk.\<close>

definition content :: "u32 \<Rightarrow> 'z bio_state_scheme \<Rightarrow> u32 \<Rightarrow> block" where
  "content dv s n =
     (case find (\<lambda>b. holds_block dv n s b \<and> valid (bufs s b)) [0..<NBUF] of
        Some b \<Rightarrow> bdata (bufs s b) | None \<Rightarrow> disk s n)"

lemma content_cached:
  assumes "cached_once dv s" "b < NBUF" "holds_block dv n s b" "valid (bufs s b)"
  shows "content dv s n = bdata (bufs s b)"
proof -
  have "find (\<lambda>b. holds_block dv n s b \<and> valid (bufs s b)) [0..<NBUF] \<noteq> None"
    using assms(2-4) by (auto simp: find_None_iff)
  then obtain c where c: "find (\<lambda>b. holds_block dv n s b \<and> valid (bufs s b)) [0..<NBUF] = Some c" by auto
  then have "c < NBUF" "holds_block dv n s c" by (auto simp: find_Some_iff)
  with assms have "c = b" using cached_onceD by blast
  with c show ?thesis by (simp add: content_def)
qed

lemma content_uncached:
  "(\<And>b. b < NBUF \<Longrightarrow> \<not> (holds_block dv n s b \<and> valid (bufs s b))) \<Longrightarrow> content dv s n = disk s n"
proof -
  assume "\<And>b. b < NBUF \<Longrightarrow> \<not> (holds_block dv n s b \<and> valid (bufs s b))"
  then have "find (\<lambda>b. holds_block dv n s b \<and> valid (bufs s b)) [0..<NBUF] = None" by (auto simp: find_None_iff)
  then show ?thesis by (simp add: content_def)
qed

subsection \<open>Getting a buffer\<close>

lemma find_SomeD: "find P xs = Some x \<Longrightarrow> x \<in> set xs \<and> P x"
  by (auto simp: find_Some_iff)

lemma upd_buf_simps [simp]:
  "core (upd_buf b f s) = core s" "bufs (upd_buf b f s) = (bufs s)(b := f (bufs s b))" "slocks (upd_buf b f s) = slocks s"
  "disk (upd_buf b f s) = disk s" "dwrites (upd_buf b f s) = dwrites s" "procs (upd_buf b f s) = procs s" "sfuel (upd_buf b f s) = sfuel s"
  "bio_state.more (upd_buf b f s) = bio_state.more s" "upd_buf b f (s\<lparr>core := c\<rparr>) = (upd_buf b f s)\<lparr>core := c\<rparr>"
  "table_ok (upd_buf b f s) = table_ok s"
  by (simp_all add: upd_buf_def)

lemma take_lock_simps [simp]:
  "bufs (take_lock lk p s) = bufs s" "disk (take_lock lk p s) = disk s" "dwrites (take_lock lk p s) = dwrites s"
  "procs (take_lock lk p s) = procs s" "core (take_lock lk p s) = touch (core s)" "sfuel (take_lock lk p s) = sfuel s"
  "bio_state.more (take_lock lk p s) = bio_state.more s"
  "slocks (take_lock lk p s) = (slocks s)(lk := (slocks s lk)\<lparr>slocked := 1, spid := pid (procs s p)\<rparr>)"
  by (simp_all add: take_lock_def)

lemma take_lock_core [simp]: "take_lock lk p (s\<lparr>core := touch (core s)\<rparr>) = take_lock lk p s"
  by (simp add: take_lock_def)

text \<open>The entry that \<^verbatim>\<open>bget\<close> reuses.\<close>

definition recycle :: "u32 \<Rightarrow> u32 \<Rightarrow> buf \<Rightarrow> buf" where
  "recycle d n v = v\<lparr>dev := d, blockno := n, valid := False, refcnt := 1\<rparr>"

lemma bget_eq:
  assumes q: "quiet p s" and r: "bring s bs" and free: "\<And>b. b < NBUF \<Longrightarrow> (dev (bufs s b) = d \<and> blockno (bufs s b) = n) \<or> refcnt (bufs s b) = 0 \<Longrightarrow> slocked (slocks s (BufLk b)) = 0"
  shows "bget d n s =
    (case find (\<lambda>c. dev (bufs s c) = d \<and> blockno (bufs s c) = n) bs of
       Some b \<Rightarrow> Ret b (take_lock (BufLk b) p (upd_buf b (\<lambda>v. v\<lparr>refcnt := refcnt v + 1\<rparr>) s))
     | None \<Rightarrow>
         (case find (\<lambda>c. refcnt (bufs s c) = 0) (rev bs) of
            None \<Rightarrow> Panic ''bget: no buffers''
          | Some b \<Rightarrow> Ret b (take_lock (BufLk b) p (upd_buf b (recycle d n) s))))"
proof -
  note c = quietD(1,2) [OF q]
  have set: "set bs = {..<NBUF}" using r by (simp add: bring_def)
  let ?s = "s\<lparr>core := c_acq BcacheLock (core s)\<rparr>"
  have links: "nxt ?s = nxt s" "prv ?s = prv s" by (simp_all add: nxt_def prv_def fun_eq_iff)
  have cached: "bget_cached (Suc NBUF) (bnext (bufs s NBUF)) d n ?s = Ret (find (\<lambda>c. dev (bufs s c) = d \<and> blockno (bufs s c) = n) bs) ?s"
    using bget_cached_eq [of ?s NBUF bs "Suc NBUF" d n] r bring_NBUF [OF r] bring_length [OF r] links
    by (simp add: bring_def nxt_def)
  have unused: "bget_unused (Suc NBUF) (bprev (bufs s NBUF)) ?s = Ret (find (\<lambda>c. refcnt (bufs s c) = 0) (rev bs)) ?s"
    using bget_unused_eq [of ?s NBUF "rev bs" "Suc NBUF"] r bring_NBUF [OF r] bring_length [OF r] links
    by (simp add: bring_def prv_def)
  have sl: "acquiresleep (BufLk b) ((upd_buf b f s)\<lparr>core := touch (core s)\<rparr>) = Ret () (take_lock (BufLk b) p (upd_buf b f s))"
    if "slocked (slocks s (BufLk b)) = 0" for b f
    using acquiresleep_eq [of p "(upd_buf b f s)\<lparr>core := touch (core s)\<rparr>" "BufLk b"] q that
    by (simp add: take_lock_def quiet_def)
  show ?thesis
  proof (cases "find (\<lambda>c. dev (bufs s c) = d \<and> blockno (bufs s c) = n) bs")
    case (Some b)
    then have "b < NBUF" "dev (bufs s b) = d" "blockno (bufs s b) = n" using set by (auto dest: find_SomeD)
    then show ?thesis using Some c cached free [of b]
      by (simp add: bget_def kstep sl kret_def del: bget_cached.simps bget_unused.simps)
  next
    case None
    show ?thesis
    proof (cases "find (\<lambda>c. refcnt (bufs s c) = 0) (rev bs)")
      case None': None
      then show ?thesis using None c cached unused
        by (simp add: bget_def kstep kpanic_def del: bget_cached.simps bget_unused.simps)
    next
      case (Some b)
      then have "b \<in> set (rev bs)" "refcnt (bufs s b) = 0" by (auto dest: find_SomeD)
      then have "b < NBUF" "refcnt (bufs s b) = 0" using set by auto
      then show ?thesis using None Some c cached unused free [of b]
        by (simp add: bget_def kstep sl kret_def recycle_def [abs_def] del: bget_cached.simps bget_unused.simps)
    qed
  qed
qed


text \<open>The links do not change while buffers are read, filled and written.\<close>

lemma bring_upd_buf:
  assumes "\<And>v. bnext (f v) = bnext v" "\<And>v. bprev (f v) = bprev v"
  shows "bring (upd_buf b f s) bs = bring s bs"
  using assms by (intro bring_cong) (auto simp: nxt_def prv_def fun_eq_iff)

lemma bring_frame [simp]:
  "bring (take_lock lk p s) bs = bring s bs" "bring (drop_lock lk s) bs = bring s bs"
  "bring (s\<lparr>core := c\<rparr>) bs = bring s bs" "bring (s\<lparr>disk := D\<rparr>) bs = bring s bs" "bring (s\<lparr>dwrites := W\<rparr>) bs = bring s bs"
  by (intro bring_cong; simp add: nxt_def prv_def fun_eq_iff)+

text \<open>
  A buffer that was not held becomes held: the step of \<^verbatim>\<open>bget\<close> and \<^verbatim>\<open>bread\<close> on \<open>bio_ok\<close>, for any new
  contents \<open>v\<close> of the entry that name a block nobody else has.
\<close>

lemma bio_ok_take:
  assumes ok: "bio_ok dv p P H s" and b: "b < NBUF" "b \<notin> H"
    and v: "dev v = dv" "refcnt v = of_bool (b \<in> P) + 1" "bnext v = bnext (bufs s b)" "bprev v = bprev (bufs s b)"
    and other: "\<And>c. c < NBUF \<Longrightarrow> c \<noteq> b \<Longrightarrow> \<not> holds_block dv (blockno v) s c"
  shows "bio_ok dv p P (insert b H) (take_lock (BufLk b) p (upd_buf b (\<lambda>_. v) s))"
    (is "bio_ok dv p P ?H ?t")
proof -
  have "nxt ?t = nxt s" "prv ?t = prv s" using v by (auto simp: nxt_def prv_def fun_eq_iff)
  then have ring: "\<exists>bs. bring ?t bs" using bio_okD(2) [OF ok] bring_cong [of ?t s] by blast
  have q: "quiet p ?t" using bio_okD(1) [OF ok] by (intro quiet_take_lock) simp
  have bk: "bok dv p P ?H ?t c" if "c < NBUF" for c
  proof (cases "c = b")
    case True
    then show ?thesis using v b by (simp add: bok_def)
  next
    case False
    then show ?thesis using bok_other [OF bio_okD(5) [OF ok that], of ?t P ?H] by simp
  qed
  have once: "cached_once dv ?t"
    unfolding cached_once_def
  proof (intro allI impI)
    fix c e n
    assume ce: "c < NBUF" "e < NBUF" "holds_block dv n ?t c" "holds_block dv n ?t e"
    have h: "holds_block dv n ?t x \<longleftrightarrow> (if x = b then n = blockno v else holds_block dv n s x)" for x
      using v by (auto simp: holds_block_def)
    show "c = e"
      using ce other cached_onceD [OF bio_okD(6) [OF ok] ce(1,2), of n] by (auto simp: h split: if_splits)
  qed
  show ?thesis using q ring bio_okD(3,4) [OF ok] b bk once by (simp add: bio_ok_def)
qed

lemma upd_buf_upd_buf [simp]: "upd_buf b f (upd_buf b g s) = upd_buf b (\<lambda>v. f (g v)) s"
  by (simp add: upd_buf_def)

lemma upd_buf_take_lock [simp]: "upd_buf b f (take_lock lk p s) = take_lock lk p (upd_buf b f s)"
  by (simp add: take_lock_def upd_buf_def upd_slock_def)

lemma upd_buf_const: "upd_buf b f s = upd_buf b (\<lambda>_. f (bufs s b)) s"
  by (simp add: upd_buf_def)

text \<open>
  \<open>reads dv n s b t\<close>: in \<open>t\<close> buffer \<open>b\<close> is locked and holds block \<open>n\<close> as it reads in \<open>s\<close>; nothing else of
  the cache, the disk or the rest of the state has changed.
\<close>

definition reads :: "u32 \<Rightarrow> u32 \<Rightarrow> 'z bio_state_scheme \<Rightarrow> nat \<Rightarrow> 'z bio_state_scheme \<Rightarrow> bool" where
  "reads dv n s b t \<longleftrightarrow> holds_block dv n t b \<and> valid (bufs t b) \<and> bdata (bufs t b) = content dv s n
     \<and> (\<forall>c. c \<noteq> b \<longrightarrow> bufs t c = bufs s c) \<and> disk t = disk s \<and> dwrites t = dwrites s
     \<and> bio_state.more t = bio_state.more s \<and> (\<forall>c < NBUF. holds_block dv n s c \<longrightarrow> c = b)"

lemma bread_state:
  assumes ok: "bio_ok dv p P H s" and b: "b < NBUF" "b \<notin> H"
    and other: "\<And>c. c < NBUF \<Longrightarrow> c \<noteq> b \<Longrightarrow> \<not> holds_block dv n s c"
    and f: "f (bufs s b) = v" "dev v = dv" "blockno v = n" "refcnt v = of_bool (b \<in> P) + 1" "bnext v = bnext (bufs s b)" "bprev v = bprev (bufs s b)"
    and content: "if valid v then bdata v = content dv s n else content dv s n = disk s n"
    and g: "bget dv n s = Ret b (take_lock (BufLk b) p (upd_buf b f s))"
  shows "\<exists>t. bread dv n s = Ret b t \<and> bio_ok dv p P (insert b H) t \<and> reads dv n s b t"
proof -
  let ?w = "if valid v then v else v\<lparr>bdata := disk s n, valid := True\<rparr>"
  let ?t = "take_lock (BufLk b) p (upd_buf b (\<lambda>_. ?w) s)"
  have "upd_buf b f s = upd_buf b (\<lambda>_. v) s" using f(1) upd_buf_const [of b f s] by simp
  then have "bread dv n s = Ret b ?t"
    using g f by (auto simp: bread_def disk_rw_def kwhen_def kret_def kmod_def)
  moreover have "bio_ok dv p P (insert b H) ?t"
    using f other by (intro bio_ok_take [OF ok b]) auto
  moreover have "reads dv n s b ?t"
    using f content other by (auto simp: reads_def holds_block_def)
  ultimately show ?thesis by blast
qed

lemma bread_ok:
  assumes ok: "bio_ok dv p P H s"
    and held: "\<And>b. b \<in> H \<Longrightarrow> \<not> holds_block dv n s b"
    and room: "(\<exists>b < NBUF. holds_block dv n s b) \<or> (\<exists>b < NBUF. b \<notin> P \<and> b \<notin> H)"
  shows "\<exists>b t. bread dv n s = Ret b t \<and> b < NBUF \<and> b \<notin> H \<and> bio_ok dv p P (insert b H) t \<and> reads dv n s b t
    \<and> (b \<in> P \<longrightarrow> holds_block dv n s b)"
proof -
  obtain bs where r: "bring s bs" using bio_okD(2) [OF ok] by blast
  have set: "set bs = {..<NBUF}" using r by (simp add: bring_def)
  have free: "slocked (slocks s (BufLk b)) = 0" if "b < NBUF" "(dev (bufs s b) = dv \<and> blockno (bufs s b) = n) \<or> refcnt (bufs s b) = 0" for b
  proof -
    have "b \<notin> H" using that held [of b] refcnt_zero [OF bio_okD(5) [OF ok that(1)]] by (auto simp: holds_block_def)
    then show ?thesis using bio_okD(5) [OF ok that(1)] by (simp add: bok_def)
  qed
  note g = bget_eq [OF bio_okD(1) [OF ok] r free]
  show ?thesis
  proof (cases "find (\<lambda>c. dev (bufs s c) = dv \<and> blockno (bufs s c) = n) bs")
    case (Some b)
    then have "b \<in> set bs" and hb: "holds_block dv n s b" by (auto simp: holds_block_def dest: find_SomeD)
    then have b: "b < NBUF" "b \<notin> H" using set held [of b] by auto
    have other: "\<not> holds_block dv n s c" if "c < NBUF" "c \<noteq> b" for c
      using cached_onceD [OF bio_okD(6) [OF ok] that(1) b(1) _ hb] that(2) by blast
    have cont: "content dv s n = disk s n" if "\<not> valid (bufs s b)"
      using content_uncached [of dv n s] other that by blast
    let ?v = "(bufs s b)\<lparr>refcnt := refcnt (bufs s b) + 1\<rparr>"
    have "\<exists>t. bread dv n s = Ret b t \<and> bio_ok dv p P (insert b H) t \<and> reads dv n s b t"
      by (rule bread_state [OF ok b other, where v = ?v and f = "\<lambda>v. v\<lparr>refcnt := refcnt v + 1\<rparr>"])
        (use hb b g Some bio_okD(5) [OF ok b(1)] cont content_cached [OF bio_okD(6) [OF ok] b(1) hb] in \<open>auto simp: holds_block_def bok_def\<close>)
    then show ?thesis using b hb by blast
  next
    case None
    then have no: "\<not> holds_block dv n s c" if "c < NBUF" for c using that set by (auto simp: find_None_iff holds_block_def)
    then obtain b0 where "b0 < NBUF" "b0 \<notin> P" "b0 \<notin> H" using room by blast
    then have "find (\<lambda>c. refcnt (bufs s c) = 0) (rev bs) \<noteq> None"
      using set refcnt_zero [OF bio_okD(5) [OF ok]] by (auto simp: find_None_iff)
    then obtain b where Some: "find (\<lambda>c. refcnt (bufs s c) = 0) (rev bs) = Some b" by auto
    then have "b \<in> set (rev bs)" and z: "refcnt (bufs s b) = 0" by (auto dest: find_SomeD)
    then have b: "b < NBUF" using set by auto
    then have bh: "b \<notin> H" "b \<notin> P" using z refcnt_zero [OF bio_okD(5) [OF ok b]] by auto
    have cont: "content dv s n = disk s n" using content_uncached [of dv n s] no by blast
    have "\<exists>t. bread dv n s = Ret b t \<and> bio_ok dv p P (insert b H) t \<and> reads dv n s b t"
      by (rule bread_state [OF ok b bh(1), where v = "recycle dv n (bufs s b)" and f = "recycle dv n"])
        (use g None Some bh no cont in \<open>auto simp: recycle_def [abs_def]\<close>)
    then show ?thesis using b bh by blast
  qed
qed


subsection \<open>Writing, releasing and pinning a buffer\<close>

lemma bio_ok_core [simp]: "bio_ok dv p P H (s\<lparr>core := touch (core s)\<rparr>) = bio_ok dv p P H s"
proof -
  have "quiet p (s\<lparr>core := touch (core s)\<rparr>) = quiet p s" by (simp add: quiet_def)
  then show ?thesis by (simp add: bio_ok_def bok_def cached_once_def holds_block_def)
qed

lemma bio_ok_data:
  assumes "bio_ok dv p P H s" "b \<in> H"
  shows "bio_ok dv p P H (upd_buf b (\<lambda>v. v\<lparr>bdata := d\<rparr>) s)" (is "bio_ok dv p P H ?t")
proof -
  have "bok dv p P H ?t c" if "c < NBUF" for c
    using bio_okD(5) [OF assms(1) that] assms(2) by (cases "c = b") (simp_all add: bok_def)
  moreover have "bring ?t = bring s" by (simp add: bring_upd_buf fun_eq_iff)
  moreover have "holds_block dv n ?t c = holds_block dv n s c" for n c by (simp add: holds_block_def)
  ultimately show ?thesis using assms(1) by (simp add: bio_ok_def cached_once_def)
qed

text \<open>One block goes to the disk.\<close>

definition disk_put :: "nat \<Rightarrow> 'z bio_state_scheme \<Rightarrow> 'z bio_state_scheme" where
  "disk_put b s = s\<lparr>disk := (disk s)(blockno (bufs s b) := bdata (bufs s b)),
     dwrites := dwrites s @ [(blockno (bufs s b), bdata (bufs s b))]\<rparr>"

lemma bwrite_ok:
  assumes ok: "bio_ok dv p P H s" and b: "b \<in> H"
  shows "bwrite b s = Ret () (disk_put b (s\<lparr>core := touch (core s)\<rparr>))"
    and "bio_ok dv p P H (disk_put b (s\<lparr>core := touch (core s)\<rparr>))"
proof -
  have bN: "b < NBUF" using b bio_okD(4) [OF ok] by auto
  have bb: "bok dv p P H s b" using bio_okD(5) [OF ok bN] .
  then show "bwrite b s = Ret () (disk_put b (s\<lparr>core := touch (core s)\<rparr>))"
    using b bio_okD(1) [OF ok] by (simp add: bwrite_def kstep disk_rw_def disk_put_def kmod_def bok_def)
  have dv: "dev (bufs s b) = dv" using bb b by (auto simp: bok_def)
  have bk: "bok dv p P H (disk_put b s) c" if c: "c < NBUF" for c
  proof -
    have "bdata (bufs s c) = bdata (bufs s b)" if "blockno (bufs s c) = blockno (bufs s b)" "dev (bufs s c) = dv"
    proof -
      have "c = b" using cached_onceD [OF bio_okD(6) [OF ok] c bN] that dv by (simp add: holds_block_def)
      then show ?thesis by simp
    qed
    then show ?thesis using bio_okD(5) [OF ok c] by (auto simp: bok_def disk_put_def)
  qed
  have "bring (disk_put b s) = bring s" "quiet p (disk_put b s) = quiet p s" "holds_block dv n (disk_put b s) c = holds_block dv n s c" for n c
    by (simp_all add: disk_put_def fun_eq_iff holds_block_def)
  then have "bio_ok dv p P H (disk_put b s)" using ok bk by (simp add: bio_ok_def cached_once_def)
  then have "bio_ok dv p P H ((disk_put b s)\<lparr>core := touch (core (disk_put b s))\<rparr>)" by simp
  moreover have "(disk_put b s)\<lparr>core := touch (core (disk_put b s))\<rparr> = disk_put b (s\<lparr>core := touch (core s)\<rparr>)"
    by (simp add: disk_put_def)
  ultimately show "bio_ok dv p P H (disk_put b (s\<lparr>core := touch (core s)\<rparr>))" by simp
qed

lemma to_front_core: "to_front b (s\<lparr>core := c\<rparr>) = (to_front b s)\<lparr>core := c\<rparr>"
proof -
  have "nxt (s\<lparr>core := c\<rparr>) = nxt s" "prv (s\<lparr>core := c\<rparr>) = prv s" for s :: "'a bio_state_scheme"
    by (simp_all add: nxt_def prv_def fun_eq_iff)
  moreover have "set_next x y (s\<lparr>core := c\<rparr>) = (set_next x y s)\<lparr>core := c\<rparr>" "set_prev x y (s\<lparr>core := c\<rparr>) = (set_prev x y s)\<lparr>core := c\<rparr>" for s :: "'a bio_state_scheme" and x y
    by (simp_all add: set_next_def set_prev_def)
  ultimately show ?thesis by (simp add: to_front_def Let_def)
qed

lemma to_front_bufs: "to_front b s = s\<lparr>bufs := bufs (to_front b s)\<rparr>"
proof -
  have same: "u = u\<lparr>bufs := bufs u\<rparr>" for u :: "'a bio_state_scheme" by simp
  have "to_front b s = (to_front b s)\<lparr>bufs := bufs (to_front b s)\<rparr>" by (rule same)
  also have "\<dots> = s\<lparr>bufs := bufs (to_front b s)\<rparr>" by (rule to_front_frame(4))
  finally show ?thesis .
qed

lemma to_front_rest [simp]:
  "core (to_front b s) = core s" "disk (to_front b s) = disk s" "dwrites (to_front b s) = dwrites s"
  "slocks (to_front b s) = slocks s" "procs (to_front b s) = procs s" "quiet p (to_front b s) = quiet p s"
proof -
  have "core (s\<lparr>bufs := r\<rparr>) = core s" "disk (s\<lparr>bufs := r\<rparr>) = disk s" "dwrites (s\<lparr>bufs := r\<rparr>) = dwrites s"
    "slocks (s\<lparr>bufs := r\<rparr>) = slocks s" "procs (s\<lparr>bufs := r\<rparr>) = procs s" "quiet p (s\<lparr>bufs := r\<rparr>) = quiet p s" for r
    by (simp_all add: quiet_def)
  then show "core (to_front b s) = core s" "disk (to_front b s) = disk s" "dwrites (to_front b s) = dwrites s"
    "slocks (to_front b s) = slocks s" "procs (to_front b s) = procs s" "quiet p (to_front b s) = quiet p s"
    using to_front_bufs [of b s] by metis+
qed

lemma c_acq_touch [simp]: "c_acq lk (touch c) = c_acq lk c"
  by (simp add: c_acq_def c_push_def)

lemma relink_eq:
  "kseq (kmod (\<lambda>s. upd_buf (bnext (bufs s b)) (\<lambda>v. v\<lparr>bprev := bprev (bufs s b)\<rparr>) s)) (
   kseq (kmod (\<lambda>s. upd_buf (bprev (bufs s b)) (\<lambda>v. v\<lparr>bnext := bnext (bufs s b)\<rparr>) s)) (
   kseq (kmod (\<lambda>s. upd_buf b (\<lambda>v. v\<lparr>bnext := bnext (bufs s NBUF)\<rparr>) s)) (
   kseq (kmod (upd_buf b (\<lambda>v. v\<lparr>bprev := NBUF\<rparr>))) (
   kseq (kmod (\<lambda>s. upd_buf (bnext (bufs s NBUF)) (\<lambda>v. v\<lparr>bprev := b\<rparr>) s)) (
   kmod (upd_buf NBUF (\<lambda>v. v\<lparr>bnext := b\<rparr>))))))) = kmod (to_front b)"
  by (rule ext) (simp add: to_front_def Let_def set_next_def set_prev_def nxt_def prv_def kmod_def del: upd_buf_simps)

text \<open>The state that \<^verbatim>\<open>brelse\<close> leaves.\<close>

definition unref :: "nat \<Rightarrow> 'z bio_state_scheme \<Rightarrow> 'z bio_state_scheme" where
  "unref b s = (let t = upd_buf b (\<lambda>v. v\<lparr>refcnt := refcnt v - 1\<rparr>) s in
     if refcnt (bufs t b) = 0 then to_front b t else t)"

lemma brelse_eq:
  assumes q: "quiet p s" and b: "slocked (slocks s (BufLk b)) = 1" "spid (slocks s (BufLk b)) = pid (procs s p)"
  shows "brelse b s = Ret () (unref b (drop_lock (BufLk b) s))"
proof -
  let ?s = "s\<lparr>core := touch (core s)\<rparr>"
  let ?d = "drop_lock (BufLk b) s"
  have q1: "quiet p ?s" using q by (simp add: quiet_def)
  have r: "releasesleep (BufLk b) ?s = Ret () ?d"
    using releasesleep_eq [OF q1, of "BufLk b"] by (simp add: drop_lock_def wakeup_eff_def)
  note c = quietD(1,2) [OF quiet_drop_lock [OF q, of "BufLk b"]]
  show ?thesis using q b r c
    by (auto simp: brelse_def kstep unref_def Let_def relink_eq kmod_def kwhen_def kret_def to_front_core)
qed


lemma bview_refcnt [simp]: "bview (upd_buf b (\<lambda>v. v\<lparr>refcnt := f v\<rparr>) s) = bview s"
  by (auto simp: bview_def fun_eq_iff)

lemma unref_frame [simp]:
  "bview (unref b s) = bview s" "core (unref b s) = core s" "disk (unref b s) = disk s" "dwrites (unref b s) = dwrites s"
  "slocks (unref b s) = slocks s" "procs (unref b s) = procs s" "quiet p (unref b s) = quiet p s"
  "bio_state.more (unref b s) = bio_state.more s"
  "refcnt (bufs (unref b s) c) = (if c = b then refcnt (bufs s b) - 1 else refcnt (bufs s c))"
  by (simp_all add: unref_def Let_def)

lemma unref_bring:
  assumes "bring s bs" "b < NBUF"
  shows "bring (unref b s) (if refcnt (bufs s b) = 1 then b # remove1 b bs else bs)"
proof -
  have "bring (upd_buf b (\<lambda>v. v\<lparr>refcnt := refcnt v - 1\<rparr>) s) bs" using assms(1) by (simp add: bring_upd_buf)
  then show ?thesis using to_front_bring [OF _ assms(2)] by (auto simp: unref_def Let_def)
qed

lemma bview_eqD:
  assumes "bview t c = bview s c"
  shows "valid (bufs t c) = valid (bufs s c)" "dev (bufs t c) = dev (bufs s c)" "blockno (bufs t c) = blockno (bufs s c)"
    "bdata (bufs t c) = bdata (bufs s c)" "holds_block dv n t c = holds_block dv n s c"
  using assms by (auto simp: bview_def holds_block_def)

lemma drop_lock_bview [simp]: "bview (drop_lock lk s) = bview s"
  by (simp add: bview_def fun_eq_iff)

lemma brelse_ok:
  assumes ok: "bio_ok dv p P H s" and b: "b \<in> H" and clean: "b \<in> P \<or> bdata (bufs s b) = disk s (blockno (bufs s b))"
  shows "\<exists>t. brelse b s = Ret () t \<and> bio_ok dv p P (H - {b}) t \<and> bview t = bview s \<and> disk t = disk s
    \<and> dwrites t = dwrites s \<and> bio_state.more t = bio_state.more s"
proof -
  have bN: "b < NBUF" using b bio_okD(4) [OF ok] by auto
  have bb: "bok dv p P H s b" using bio_okD(5) [OF ok bN] .
  note q = bio_okD(1) [OF ok]
  let ?d = "drop_lock (BufLk b) s"
  let ?t = "unref b ?d"
  have e: "brelse b s = Ret () ?t" using brelse_eq [OF q, of b] bb b by (simp add: bok_def)
  have pid: "pid (procs ?d p) = pid (procs s p)"
    using drop_lock_table(2) [OF quietD(4) [OF q] quietD(6) [OF q], of "BufLk b"] by simp
  have v: "bview ?t c = bview s c" for c by simp
  have bk: "bok dv p P (H - {b}) ?t c" if "c < NBUF" for c
  proof (cases "c = b")
    case True
    then show ?thesis using bb b clean bview_eqD [OF v [of b]] by (auto simp: bok_def)
  next
    case False
    then show ?thesis using bio_okD(5) [OF ok that] bview_eqD [OF v [of c]] pid by (simp add: bok_def)
  qed
  have "cached_once dv ?t" using bio_okD(6) [OF ok] bview_eqD(5) [OF v] by (simp add: cached_once_def)
  moreover have "\<exists>bs. bring ?t bs" using bio_okD(2) [OF ok] unref_bring [of ?d _ b] bN by auto
  moreover have "quiet p ?t" using quiet_drop_lock [OF q] by simp
  ultimately have "bio_ok dv p P (H - {b}) ?t" using bio_okD(3,4) [OF ok] bk by (auto simp: bio_ok_def)
  then show ?thesis using e by (intro exI [of _ ?t]) simp
qed

lemma bio_ok_count:
  assumes ok: "bio_ok dv p P H s" and b: "b < NBUF" "P' \<subseteq> {..<NBUF}" "\<And>c. c \<noteq> b \<Longrightarrow> c \<in> P' \<longleftrightarrow> c \<in> P"
    and r: "r = of_bool (b \<in> P') + of_bool (b \<in> H)" and d: "dev (bufs s b) = dv"
    and clean: "b \<in> P' \<or> b \<in> H \<or> bdata (bufs s b) = disk s (blockno (bufs s b))"
  shows "bio_ok dv p P' H (upd_buf b (\<lambda>v. v\<lparr>refcnt := r\<rparr>) s)" (is "bio_ok dv p P' H ?t")
proof -
  have "bok dv p P' H ?t c" if "c < NBUF" for c
    using bio_okD(5) [OF ok that] b r d clean by (cases "c = b") (auto simp: bok_def)
  moreover have "bring ?t = bring s" by (simp add: bring_upd_buf fun_eq_iff)
  moreover have "holds_block dv n ?t c = holds_block dv n s c" for n c by (simp add: holds_block_def)
  ultimately show ?thesis using ok b(2) by (simp add: bio_ok_def cached_once_def)
qed

lemma bunpin_ok:
  assumes ok: "bio_ok dv p P H s" and b: "b \<in> P" "b \<in> H"
  shows "\<exists>t. bunpin b s = Ret () t \<and> bio_ok dv p (P - {b}) H t \<and> bview t = bview s \<and> disk t = disk s
    \<and> dwrites t = dwrites s \<and> bio_state.more t = bio_state.more s"
proof -
  have bN: "b < NBUF" using b bio_okD(3) [OF ok] by auto
  have bb: "bok dv p P H s b" using bio_okD(5) [OF ok bN] .
  let ?t = "upd_buf b (\<lambda>v. v\<lparr>refcnt := refcnt v - 1\<rparr>) s"
  have "?t = upd_buf b (\<lambda>v. v\<lparr>refcnt := 1\<rparr>) s" using bb b by (simp add: upd_buf_def bok_def)
  moreover have "bio_ok dv p (P - {b}) H (upd_buf b (\<lambda>v. v\<lparr>refcnt := 1\<rparr>) s)"
    using bio_okD(3) [OF ok] bb b by (intro bio_ok_count [OF ok bN]) (auto simp: bok_def)
  ultimately have "bio_ok dv p (P - {b}) H (?t\<lparr>core := touch (core ?t)\<rparr>)" by (simp only: bio_ok_core)
  moreover have "bunpin b s = Ret () (?t\<lparr>core := touch (core ?t)\<rparr>)"
    using quietD(1,2) [OF bio_okD(1) [OF ok]] by (simp add: bunpin_def kstep)
  moreover have "bview (?t\<lparr>core := c\<rparr>) = bview ?t" for c by (simp add: bview_def fun_eq_iff)
  ultimately show ?thesis by (intro exI [of _ "?t\<lparr>core := touch (core ?t)\<rparr>"]) simp
qed

lemma bpin_ok:
  assumes ok: "bio_ok dv p P H s" and b: "b \<notin> P" "b \<in> H"
  shows "\<exists>t. bpin b s = Ret () t \<and> bio_ok dv p (insert b P) H t \<and> bview t = bview s \<and> disk t = disk s
    \<and> dwrites t = dwrites s \<and> bio_state.more t = bio_state.more s"
proof -
  have bN: "b < NBUF" using b bio_okD(4) [OF ok] by auto
  have bb: "bok dv p P H s b" using bio_okD(5) [OF ok bN] .
  let ?t = "upd_buf b (\<lambda>v. v\<lparr>refcnt := refcnt v + 1\<rparr>) s"
  have "?t = upd_buf b (\<lambda>v. v\<lparr>refcnt := 2\<rparr>) s" using bb b by (simp add: upd_buf_def bok_def)
  moreover have "bio_ok dv p (insert b P) H (upd_buf b (\<lambda>v. v\<lparr>refcnt := 2\<rparr>) s)"
    using bio_okD(3) [OF ok] bb b bN by (intro bio_ok_count [OF ok bN]) (auto simp: bok_def)
  ultimately have "bio_ok dv p (insert b P) H (?t\<lparr>core := touch (core ?t)\<rparr>)" by (simp only: bio_ok_core)
  moreover have "bpin b s = Ret () (?t\<lparr>core := touch (core ?t)\<rparr>)"
    using quietD(1,2) [OF bio_okD(1) [OF ok]] by (simp add: bpin_def kstep)
  moreover have "bview (?t\<lparr>core := c\<rparr>) = bview ?t" for c by (simp add: bview_def fun_eq_iff)
  ultimately show ?thesis by (intro exI [of _ "?t\<lparr>core := touch (core ?t)\<rparr>"]) simp
qed


text \<open>A block that no pinned or held buffer has reads as the disk has it.\<close>

lemma content_disk:
  assumes ok: "bio_ok dv p P H s" and no: "\<And>b. b \<in> P \<Longrightarrow> \<not> holds_block dv n s b" "\<And>b. b \<in> H \<Longrightarrow> \<not> holds_block dv n s b"
  shows "content dv s n = disk s n"
proof (cases "\<exists>b < NBUF. holds_block dv n s b \<and> valid (bufs s b)")
  case True
  then obtain b where b: "b < NBUF" "holds_block dv n s b" "valid (bufs s b)" by blast
  then have "b \<notin> P" "b \<notin> H" using no by blast+
  then have "bdata (bufs s b) = disk s n" using bio_okD(5) [OF ok b(1)] b by (auto simp: bok_def holds_block_def)
  then show ?thesis using content_cached [OF bio_okD(6) [OF ok] b] by simp
next
  case False
  then show ?thesis by (intro content_uncached) blast
qed


subsection \<open>A machine for the witnesses\<close>

text \<open>
  Every lock is free, process 2 runs on hart 0, and the ring is in the order that \<^verbatim>\<open>binit\<close> leaves: the
  last buffer first. The buffers of \<open>F\<close> are placed on that ring.
\<close>

definition ring_links :: "nat \<Rightarrow> buf \<Rightarrow> buf" where
  "ring_links b v = v\<lparr>bprev := (if b = NBUF then 0 else b + 1), bnext := (if b = 0 then NBUF else b - 1)\<rparr>"

definition empty_buf :: buf where
  "empty_buf = \<lparr>valid = False, dev = 0, blockno = 0, refcnt = 0, bprev = 0, bnext = 0, bdata = (\<lambda>_. 0)\<rparr>"

definition demo_bio :: "(nat \<Rightarrow> buf) \<Rightarrow> (u32 \<Rightarrow> block) \<Rightarrow> 'z \<Rightarrow> 'z bio_state_scheme" where
  "demo_bio F D m = \<lparr>core = upd_mycpu (\<lambda>c. c\<lparr>cproc := Some 2\<rparr>) core0, phys = (\<lambda>_. 0), freelist = 0, kend = 0x80020000,
     procs = (\<lambda>_. proc0)(2 := proc0\<lparr>state := RUNNING, pid := 3\<rparr>),
     trapframes = (\<lambda>_ _. 0), nextpid = 4, initproc = None, ticks = 0, mlfqi = (\<lambda>_. None),
     head = (\<lambda>_. 0), tail = (\<lambda>_. 0), len = (\<lambda>_. 0), boost = 0, stimecmp = (\<lambda>_. 0),
     pipes = (\<lambda>_. \<lparr>pdata = (\<lambda>_. 0), nread = 0, nwrite = 0, readopen = False, writeopen = False\<rparr>),
     sfuel = 1, slocks = (\<lambda>_. \<lparr>slocked = 0, sname = [], spid = 0\<rparr>), bufs = (\<lambda>b. ring_links b (F b)), disk = D, dwrites = [],
     \<dots> = m\<rparr>"

lemma ring_links_simps [simp]:
  "valid (ring_links b v) = valid v" "dev (ring_links b v) = dev v" "blockno (ring_links b v) = blockno v"
  "refcnt (ring_links b v) = refcnt v" "bdata (ring_links b v) = bdata v"
  by (simp_all add: ring_links_def)

lemma demo_bio_simps [simp]:
  "bufs (demo_bio F D m) b = ring_links b (F b)" "disk (demo_bio F D m) = D" "dwrites (demo_bio F D m) = []"
  "bio_state.more (demo_bio F D m) = m" "slocked (slocks (demo_bio F D m) lk) = 0" "pid (procs (demo_bio F D m) 2) = 3"
  by (simp_all add: demo_bio_def)

lemma demo_bio_quiet: "quiet 2 (demo_bio F D m)"
proof -
  have "cpu_ok (core (demo_bio F D m))" "free_lock lk (core (demo_bio F D m))" for lk
    by (simp_all add: demo_bio_def core0_def hart_defs)
  moreover have "table_ok (demo_bio F D m)"
    by (auto simp: table_ok_def mlfq_wf_def row_ok_def qcells_def queued_def qview_def demo_bio_def is_level_def)
  moreover have "cproc (mycpu (core (demo_bio F D m))) = Some 2" "0 < sfuel (demo_bio F D m)"
    by (simp_all add: demo_bio_def)
  ultimately show ?thesis by (simp add: quiet_def NPROC_def)
qed

lemma demo_bio_ring: "bring (demo_bio F D m) (rev [0..<NBUF])"
proof -
  have "lpath (nxt (demo_bio F D m)) k (rev [0..<k]) NBUF" for k
    by (induction k) (simp_all add: nxt_def ring_links_def)
  moreover have "lpath (prv (demo_bio F D m)) NBUF [0..<Suc k] (Suc k)" if "k < NBUF" for k
    using that by (induction k) (simp_all add: prv_def ring_links_def lpath_append)
  from this [of "NBUF - 1"] have "lpath (prv (demo_bio F D m)) NBUF [0..<NBUF] NBUF" by (simp add: NBUF_def)
  ultimately show ?thesis by (auto simp: bring_def)
qed

lemma demo_bio_ok:
  assumes "P \<subseteq> {..<NBUF}" "\<And>b. b < NBUF \<Longrightarrow> refcnt (F b) = of_bool (b \<in> P)" "\<And>b. b < NBUF \<Longrightarrow> b \<notin> P \<Longrightarrow> \<not> valid (F b) \<and> dev (F b) \<noteq> dv"
    "\<And>b. b \<in> P \<Longrightarrow> dev (F b) = dv" "\<And>b c. b \<in> P \<Longrightarrow> c \<in> P \<Longrightarrow> blockno (F b) = blockno (F c) \<Longrightarrow> b = c"
  shows "bio_ok dv 2 P {} (demo_bio F D m)"
proof -
  have "bok dv 2 P {} (demo_bio F D m) b" if "b < NBUF" for b
    using assms that by (cases "b \<in> P") (simp_all add: bok_def)
  moreover have "cached_once dv (demo_bio F D m)"
    unfolding cached_once_def holds_block_def using assms by (metis demo_bio_simps(1) ring_links_simps(2,3))
  ultimately show ?thesis using demo_bio_quiet [of F D m] demo_bio_ring [of F D m] assms(1) by (simp only: bio_ok_def) blast
qed

lemma demo_bio_empty: "bio_ok 1 2 {} {} (demo_bio (\<lambda>_. empty_buf) D m)"
  by (rule demo_bio_ok) (simp_all add: empty_buf_def)

subsection \<open>Properties\<close>

text \<open>
  C7. Reading a block: when the block is cached or some buffer is neither pinned nor held, \<^verbatim>\<open>bread\<close> returns
  a buffer that the process now holds locked, valid, with the contents of that block (those of the
  cached copy if there is one, those of the disk otherwise); no other buffer has changed, the disk has
  not, and the invariant of the cache (at most one buffer per block, counts equal to holders, unpinned
  unlocked copies equal to the disk, one ring of all buffers) still holds.
\<close>

theorem bread_returns_block:
  assumes "bio_ok dv p P H s" "\<And>b. b \<in> H \<Longrightarrow> \<not> holds_block dv n s b"
    "(\<exists>b < NBUF. holds_block dv n s b) \<or> (\<exists>b < NBUF. b \<notin> P \<and> b \<notin> H)"
  shows "\<exists>b t. bread dv n s = Ret b t \<and> b < NBUF \<and> b \<notin> H \<and> bio_ok dv p P (insert b H) t \<and>
    holds_block dv n t b \<and> valid (bufs t b) \<and> bdata (bufs t b) = content dv s n \<and>
    (\<forall>c. c \<noteq> b \<longrightarrow> bufs t c = bufs s c) \<and> disk t = disk s \<and> dwrites t = dwrites s"
  using bread_ok [OF assms] by (auto simp: reads_def)

theorem bread_returns_block_witness:
  "\<exists>b t. bread 1 7 (demo_bio (\<lambda>_. empty_buf) (\<lambda>n _. ucast n) ()) = Ret b t \<and> bdata (bufs t b) 3 = 7"
proof -
  let ?s = "demo_bio (\<lambda>_. empty_buf) (\<lambda>n _. ucast n) ()"
  have c: "content 1 ?s 7 = (\<lambda>_. 7)"
    using content_disk [OF demo_bio_empty, of 7 "\<lambda>n _. ucast n" "()"] by simp
  have "\<exists>b < NBUF. b \<notin> {} \<and> b \<notin> {}" by (rule exI [of _ 0]) (simp add: NBUF_def)
  then obtain b t where "bread 1 7 ?s = Ret b t" "bdata (bufs t b) = content 1 ?s 7"
    using bread_returns_block [OF demo_bio_empty, of 7 "\<lambda>n _. ucast n" "()"] by blast
  then show ?thesis using c by auto
qed

text \<open>
  The choice of a buffer: over the list \<open>bs\<close> of buffers in the order of the ring, \<^verbatim>\<open>bget\<close> returns the
  buffer that caches the block if there is one; otherwise it takes the least recently used buffer
  without a reference (the first from the back), gives it to the block and marks it invalid; when every
  buffer has a reference it panics. The order of the ring does not change.
\<close>

theorem bget_lru:
  assumes "quiet p s" "bring s bs"
    "\<And>b. b < NBUF \<Longrightarrow> (dev (bufs s b) = d \<and> blockno (bufs s b) = n) \<or> refcnt (bufs s b) = 0 \<Longrightarrow> slocked (slocks s (BufLk b)) = 0"
  shows "(case find (\<lambda>c. dev (bufs s c) = d \<and> blockno (bufs s c) = n) bs of
       Some b \<Rightarrow> \<exists>t. bget d n s = Ret b t \<and> bring t bs \<and> bufs t = (bufs s)(b := (bufs s b)\<lparr>refcnt := refcnt (bufs s b) + 1\<rparr>)
         \<and> slocked (slocks t (BufLk b)) = 1
     | None \<Rightarrow>
         (case find (\<lambda>c. refcnt (bufs s c) = 0) (rev bs) of
            None \<Rightarrow> bget d n s = Panic ''bget: no buffers''
          | Some b \<Rightarrow> \<exists>t. bget d n s = Ret b t \<and> bring t bs \<and>
              bufs t = (bufs s)(b := (bufs s b)\<lparr>dev := d, blockno := n, valid := False, refcnt := 1\<rparr>)
              \<and> slocked (slocks t (BufLk b)) = 1))"
proof -
  have e: "bget d n s = (case find (\<lambda>c. dev (bufs s c) = d \<and> blockno (bufs s c) = n) bs of
      Some b \<Rightarrow> Ret b (take_lock (BufLk b) p (upd_buf b (\<lambda>v. v\<lparr>refcnt := refcnt v + 1\<rparr>) s))
    | None \<Rightarrow> (case find (\<lambda>c. refcnt (bufs s c) = 0) (rev bs) of None \<Rightarrow> Panic ''bget: no buffers''
       | Some b \<Rightarrow> Ret b (take_lock (BufLk b) p (upd_buf b (recycle d n) s))))"
    using assms by (rule bget_eq)
  show ?thesis unfolding e using assms(2)
    by (simp add: bring_upd_buf recycle_def [abs_def] fun_eq_iff split: option.split)
qed

theorem bget_lru_witness:
  "\<exists>t. bget 1 7 (demo_bio (\<lambda>_. empty_buf) (\<lambda>_ _. 0) ()) = Ret 0 t \<and> blockno (bufs t 0) = 7"
proof -
  let ?s = "demo_bio (\<lambda>_. empty_buf) (\<lambda>_ _. 0) ()"
  have f: "find (\<lambda>c. dev (bufs ?s c) = 1 \<and> blockno (bufs ?s c) = 7) (rev [0..<NBUF]) = None"
    "find (\<lambda>c. refcnt (bufs ?s c) = 0) (rev (rev [0..<NBUF])) = Some 0"
    by (simp_all add: empty_buf_def find_None_iff NBUF_def upt_conv_Cons)
  from bget_lru [OF demo_bio_quiet demo_bio_ring, of "\<lambda>_. empty_buf" "\<lambda>_ _. 0" "()" 1 7] show ?thesis
    unfolding f by auto
qed

text \<open>
  C20. Giving a buffer back: \<^verbatim>\<open>brelse\<close> by the process that holds it drops one reference and the lock; when
  that was the last reference the buffer moves to the front of the ring (most recently used) and the
  order of the others stays; what the buffers hold and the disk do not change. The six pointer
  assignments keep the doubly linked list a ring of all the buffers.
\<close>

theorem brelse_lru:
  assumes "quiet p s" "bring s bs" "b < NBUF" "slocked (slocks s (BufLk b)) = 1" "spid (slocks s (BufLk b)) = pid (procs s p)"
  shows "\<exists>t. brelse b s = Ret () t \<and> bring t (if refcnt (bufs s b) = 1 then b # remove1 b bs else bs) \<and>
    (\<forall>c. bview t c = bview s c \<and> refcnt (bufs t c) = refcnt (bufs s c) - (if c = b then 1 else 0)) \<and>
    slocked (slocks t (BufLk b)) = 0 \<and> disk t = disk s"
  using brelse_eq [OF assms(1,4,5)] unref_bring [OF _ assms(3), of "drop_lock (BufLk b) s" bs] assms(2)
  by (cases "refcnt (bufs s b) = 1") (auto intro: exI [of _ "unref b (drop_lock (BufLk b) s)"])

theorem brelse_lru_witness:
  "\<exists>t. brelse 5 (upd_slock (BufLk 5) (\<lambda>l. l\<lparr>slocked := 1, spid := 3\<rparr>) (demo_bio (\<lambda>b. empty_buf\<lparr>refcnt := of_bool (b = 5)\<rparr>) (\<lambda>_ _. 0) ()))
     = Ret () t \<and> bring t (5 # remove1 5 (rev [0..<NBUF]))"
proof -
  let ?d = "demo_bio (\<lambda>b. empty_buf\<lparr>refcnt := of_bool (b = 5)\<rparr>) (\<lambda>_ _. 0) ()"
  let ?s = "upd_slock (BufLk 5) (\<lambda>l. l\<lparr>slocked := 1, spid := 3\<rparr>) ?d"
  have q: "quiet 2 ?s"
    using demo_bio_quiet [of "\<lambda>b. empty_buf\<lparr>refcnt := of_bool (b = 5)\<rparr>" "\<lambda>_ _. 0" "()"] by (simp add: upd_slock_def quiet_def)
  have r: "bring ?s (rev [0..<NBUF])"
    using demo_bio_ring [of "\<lambda>b. empty_buf\<lparr>refcnt := of_bool (b = 5)\<rparr>" "\<lambda>_ _. 0" "()"] by (simp add: bring_def nxt_def [abs_def] prv_def [abs_def])
  from brelse_lru [OF q r, of 5] show ?thesis by (auto simp: NBUF_def)
qed

end
