(* ===== verification/Crash.thy ===== *)
theory Crash
  imports Bcache Layout
begin

text \<open>
  Crash safety of the log. \<^verbatim>\<open>commit\<close> writes blocks to the disk in a fixed order: the log copies, the
  header, the home locations, the empty header. Whatever prefix of these writes has reached the disk
  when the machine stops, \<^verbatim>\<open>recover_from_log\<close> at the next boot produces a disk whose blocks outside
  the log are all as before the transaction, or all as after it; the write of the header decides.

  The routines are described by the writes they make (\<open>wrote\<close>), under the invariant \<open>bio_ok\<close> of the
  buffer cache.
\<close>

subsection \<open>Writes\<close>

definition apply_writes :: "(u32 \<times> block) list \<Rightarrow> (u32 \<Rightarrow> block) \<Rightarrow> u32 \<Rightarrow> block" where
  "apply_writes ws D = fold (\<lambda>(n, b) D. D(n := b)) ws D"

lemma apply_writes_simps [simp]:
  "apply_writes [] D = D" "apply_writes ((n, b) # ws) D = apply_writes ws (D(n := b))"
  "apply_writes (ws @ vs) D = apply_writes vs (apply_writes ws D)"
  by (simp_all add: apply_writes_def)

lemma apply_writes_other: "n \<notin> fst ` set ws \<Longrightarrow> apply_writes ws D n = D n"
  by (induction ws arbitrary: D) auto

lemma apply_writes_in: "distinct (map fst ws) \<Longrightarrow> (n, b) \<in> set ws \<Longrightarrow> apply_writes ws D n = b"
proof (induction ws arbitrary: D)
  case Nil
  then show ?case by simp
next
  case (Cons w ws)
  show ?case
  proof (cases "w = (n, b)")
    case True
    then have "n \<notin> fst ` set ws" using Cons.prems(1) by auto
    then show ?thesis using True by (simp add: apply_writes_other)
  next
    case False
    then show ?thesis using Cons by (cases w) auto
  qed
qed

definition wrote :: "(u32 \<times> block) list \<Rightarrow> 'z log_state_scheme \<Rightarrow> 'z log_state_scheme \<Rightarrow> bool" where
  "wrote ws s t \<longleftrightarrow> disk t = apply_writes ws (disk s) \<and> dwrites t = dwrites s @ ws"

lemma wrote_trans: "wrote ws s t \<Longrightarrow> wrote vs t u \<Longrightarrow> wrote (ws @ vs) s u"
  by (simp add: wrote_def)

lemma lg_more: "bio_state.more t = bio_state.more s \<Longrightarrow> lg t = lg s"
  by (cases s; cases t) simp

text \<open>Where the log keeps its copies.\<close>

definition slot_of :: "log \<Rightarrow> nat \<Rightarrow> u32" where
  "slot_of l i = lstart l + of_nat i + 1"

definition home_of :: "log \<Rightarrow> nat \<Rightarrow> u32" where
  "home_of l i = lhblock (lh l) i"

subsection \<open>Copying one block to the log\<close>

text \<open>\<open>pinned s P\<close>: what the pinned buffers hold.\<close>

definition same_pins :: "nat set \<Rightarrow> 'z log_state_scheme \<Rightarrow> 'z log_state_scheme \<Rightarrow> bool" where
  "same_pins P s t \<longleftrightarrow> (\<forall>b \<in> P. bview t b = bview s b)"

lemma same_pins_trans: "same_pins P s t \<Longrightarrow> same_pins P t u \<Longrightarrow> same_pins P s u"
  by (simp add: same_pins_def)

lemma readsD:
  assumes "reads dv n s b t"
  shows "holds_block dv n t b" "valid (bufs t b)" "bdata (bufs t b) = content dv s n" "c \<noteq> b \<Longrightarrow> bufs t c = bufs s c"
    "disk t = disk s" "dwrites t = dwrites s" "bio_state.more t = bio_state.more s"
    "c < NBUF \<Longrightarrow> holds_block dv n s c \<Longrightarrow> c = b"
  using assms by (auto simp: reads_def)

lemma holds_block_fun: "holds_block dv n s b \<Longrightarrow> holds_block dv m s b \<Longrightarrow> m = n"
  by (simp add: holds_block_def)

lemma write_log_one_ok:
  assumes ok: "bio_ok dv p P {} s" and l: "lg s = l" "ldev l = dv"
    and b: "b \<in> P" "holds_block dv (home_of l i) s b" "valid (bufs s b)"
    and room: "\<exists>c < NBUF. c \<notin> P" and slot: "\<And>c. c \<in> P \<Longrightarrow> \<not> holds_block dv (slot_of l i) s c"
  shows "\<exists>t. write_log_one i s = Ret () t \<and> bio_ok dv p P {} t \<and> lg t = l \<and> same_pins P s t
    \<and> wrote [(slot_of l i, bdata (bufs s b))] s t"
proof -
  have bN: "b < NBUF" using b(1) bio_okD(3) [OF ok] by auto
  obtain to t1 where t1: "bread dv (slot_of l i) s = Ret to t1" "to < NBUF" "bio_ok dv p P {to} t1" "reads dv (slot_of l i) s to t1"
      "to \<in> P \<longrightarrow> holds_block dv (slot_of l i) s to"
    using bread_ok [OF ok, of "slot_of l i"] room by auto
  then have toP: "to \<notin> P" using slot by blast
  then have "b \<noteq> to" using b(1) by blast
  then have b1: "bufs t1 b = bufs s b" using readsD(4) [OF t1(4)] by blast
  then have hb1: "holds_block dv (home_of l i) t1 b" using b(2) by (simp add: holds_block_def)
  have "\<not> holds_block dv (home_of l i) t1 to" 
    using cached_onceD [OF bio_okD(6) [OF t1(3)] bN t1(2) hb1] \<open>b \<noteq> to\<close> by blast
  then obtain from_b t2 where t2: "bread dv (home_of l i) t1 = Ret from_b t2" "bio_ok dv p P (insert from_b {to}) t2" "reads dv (home_of l i) t1 from_b t2"
      "from_b \<notin> {to}"
    using bread_ok [OF t1(3), of "home_of l i"] hb1 bN by auto
  have fb: "from_b = b" using readsD(8) [OF t2(3) bN hb1] by simp
  have data: "bdata (bufs t2 b) = bdata (bufs s b)"
    using readsD(3) [OF t2(3)] content_cached [OF bio_okD(6) [OF t1(3)] bN hb1] b1 b(3) fb by simp
  have to2: "bufs t2 to = bufs t1 to" using readsD(4) [OF t2(3), of to] \<open>b \<noteq> to\<close> fb by simp
  let ?t3 = "upd_buf to (\<lambda>v. v\<lparr>bdata := bdata (bufs s b)\<rparr>) t2"
  have ok3: "bio_ok dv p P {b, to} ?t3" using bio_ok_data [of dv p P "{b, to}" t2 to] t2(2) fb by simp
  let ?t4 = "disk_put to (?t3\<lparr>core := touch (core ?t3)\<rparr>)"
  note t4 = bwrite_ok [OF ok3, of to]
  have "blockno (bufs t2 to) = slot_of l i" using to2 readsD(1) [OF t1(4)] by (simp add: holds_block_def)
  then have d4: "disk ?t4 = (disk s)(slot_of l i := bdata (bufs s b))" "dwrites ?t4 = dwrites s @ [(slot_of l i, bdata (bufs s b))]"
      "blockno (bufs ?t4 to) = slot_of l i" "bdata (bufs ?t4 to) = bdata (bufs s b)"
    using readsD(5,6) [OF t1(4)] readsD(5,6) [OF t2(3)] by (simp_all add: disk_put_def)
  obtain t5 where t5: "brelse b ?t4 = Ret () t5" "bio_ok dv p P {to} t5" "bview t5 = bview ?t4" "disk t5 = disk ?t4" "dwrites t5 = dwrites ?t4" "bio_state.more t5 = bio_state.more ?t4"
    using brelse_ok [OF t4(2), of b] b(1) \<open>b \<noteq> to\<close> by (auto simp: insert_Diff_if)
  have "bdata (bufs t5 to) = disk t5 (blockno (bufs t5 to))"
    using bview_eqD(3,4) [of t5 to ?t4] t5(3,4) d4 by simp
  then obtain t6 where t6: "brelse to t5 = Ret () t6" "bio_ok dv p P {} t6" "bview t6 = bview t5" "disk t6 = disk t5" "dwrites t6 = dwrites t5" "bio_state.more t6 = bio_state.more t5"
    using brelse_ok [OF t5(2), of to] by auto
  have more: "bio_state.more t6 = bio_state.more s"
    using t6(6) t5(6) readsD(7) [OF t1(4)] readsD(7) [OF t2(3)] by (simp add: disk_put_def)
  have run: "write_log_one i s = Ret () t6"
    using t1(1) t2(1) t4(1) t5(1) t6(1) l fb data
    by (simp add: write_log_one_def slot_of_def home_of_def)
  have pins: "same_pins P s t6"
    unfolding same_pins_def
  proof
    fix c
    assume c: "c \<in> P"
    then have "c \<noteq> to" using toP by blast
    then have "bview ?t4 c = bview t2 c" by (simp add: bview_def disk_put_def)
    moreover have "bview t2 c = bview s c"
    proof (cases "c = b")
      case True
      then show ?thesis using data readsD(1,2) [OF t2(3)] b(2,3) fb by (simp add: bview_def holds_block_def)
    next
      case False
      then show ?thesis using readsD(4) [OF t2(3)] readsD(4) [OF t1(4)] \<open>c \<noteq> to\<close> fb by (simp add: bview_def)
    qed
    ultimately show "bview t6 c = bview s c" using t6(3) t5(3) by simp
  qed
  have "wrote [(slot_of l i, bdata (bufs s b))] s t6" using d4 t5(4,5) t6(4,5) by (simp add: wrote_def)
  then show ?thesis using run t6(2) pins lg_more [OF more] l by blast
qed


subsection \<open>The whole log\<close>

text \<open>
  \<open>staged dv P l B s\<close>: the log's header in memory lists \<open>length B\<close> distinct blocks outside the log; the
  \<open>i\<close>th is in a pinned, valid buffer with contents \<open>B ! i\<close>, and there is a buffer that is not pinned.
\<close>

definition staged :: "u32 \<Rightarrow> nat \<Rightarrow> nat set \<Rightarrow> log \<Rightarrow> block list \<Rightarrow> 'z log_state_scheme \<Rightarrow> bool" where
  "staged dv p P l B s \<longleftrightarrow> bio_ok dv p P {} s \<and> lg s = l \<and> (\<exists>c < NBUF. c \<notin> P)
     \<and> (\<forall>i < length B. \<exists>b \<in> P. holds_block dv (home_of l i) s b \<and> valid (bufs s b) \<and> bdata (bufs s b) = B ! i)
     \<and> (\<forall>c \<in> P. \<exists>i < length B. holds_block dv (home_of l i) s c)"

text \<open>\<open>log_layout\<close>: at most \<open>LOGBLOCKS\<close> blocks, distinct, and none of them in the log itself.\<close>

definition log_layout :: "log \<Rightarrow> nat \<Rightarrow> bool" where
  "log_layout l n \<longleftrightarrow> int n \<le> LOGBLOCKS \<and> distinct (map (home_of l) [0..<n])
     \<and> (\<forall>i < n. home_of l i \<noteq> lstart l) \<and> (\<forall>i < n. \<forall>j < nat LOGBLOCKS. home_of l i \<noteq> slot_of l j)"

lemma log_layoutD:
  assumes "log_layout l n" "i < n"
  shows "home_of l i \<noteq> lstart l" "j < n \<Longrightarrow> home_of l i \<noteq> slot_of l j" "j < n \<Longrightarrow> home_of l i = home_of l j \<Longrightarrow> i = j" "n \<le> 30"
proof -
  have n: "n \<le> 30" using assms(1) by (simp add: log_layout_def LOGBLOCKS_def MAXOPBLOCKS_def)
  show "home_of l i \<noteq> lstart l" using assms by (simp add: log_layout_def)
  show "home_of l i \<noteq> slot_of l j" if "j < n" using assms that n by (simp add: log_layout_def LOGBLOCKS_def MAXOPBLOCKS_def)
  show "i = j" if "j < n" "home_of l i = home_of l j"
    using assms that by (auto simp: log_layout_def distinct_map inj_on_def)
  show "n \<le> 30" by fact
qed

lemma of_nat_u32_eq: "i < 100 \<Longrightarrow> j < 100 \<Longrightarrow> (of_nat i :: u32) = of_nat j \<longleftrightarrow> i = j"
  by (simp add: word_unat_eq_iff unat_of_nat take_bit_nat_eq_self)

lemma slot_of_eq: "i < 30 \<Longrightarrow> j < 30 \<Longrightarrow> slot_of l i = slot_of l j \<longleftrightarrow> i = j"
  by (simp add: slot_of_def of_nat_u32_eq)

lemma slot_not_header: "i < 30 \<Longrightarrow> slot_of l i \<noteq> lstart l"
  using of_nat_u32_eq [of "Suc i" 0] by (auto simp: slot_of_def add.assoc add.commute)

lemma staged_pins:
  assumes "staged dv p P l B s" "bio_ok dv p P {} t" "lg t = l" "same_pins P s t"
  shows "staged dv p P l B t"
proof -
  have v: "bview t b = bview s b" if "b \<in> P" for b using assms(4) that by (simp add: same_pins_def)
  show ?thesis using assms(1-3) bview_eqD [OF v] by (auto simp: staged_def)
qed

lemma write_log_loop:
  assumes st: "staged dv p P l B s" and lay: "log_layout l (length B)" and dv: "ldev l = dv"
    and k: "j + k \<le> length B"
  shows "\<exists>t. kfor [j..<j + k] write_log_one s = Ret () t \<and> staged dv p P l B t
    \<and> same_pins P s t \<and> wrote (map (\<lambda>i. (slot_of l i, B ! i)) [j..<j + k]) s t"
  using st k
proof (induction k arbitrary: s j)
  case 0
  then show ?case by (simp add: kret_def wrote_def same_pins_def)
next
  case (Suc k)
  then have j: "j < length B" by simp
  obtain b where b: "b \<in> P" "holds_block dv (home_of l j) s b" "valid (bufs s b)" "bdata (bufs s b) = B ! j"
    using Suc.prems(1) j by (auto simp: staged_def)
  have slot: "\<not> holds_block dv (slot_of l j) s c" if "c \<in> P" for c
  proof
    assume h: "holds_block dv (slot_of l j) s c"
    obtain i where i: "i < length B" "holds_block dv (home_of l i) s c" using Suc.prems(1) \<open>c \<in> P\<close> by (auto simp: staged_def)
    have "home_of l i = slot_of l j" using holds_block_fun [OF h i(2)] .
    with log_layoutD(2) [OF lay i(1) j] show False by simp
  qed
  have "bio_ok dv p P {} s" "lg s = l" "\<exists>c < NBUF. c \<notin> P" using Suc.prems(1) by (simp_all add: staged_def)
  from write_log_one_ok [OF this(1,2) dv b(1-3) this(3) slot]
  obtain t where t: "write_log_one j s = Ret () t" "bio_ok dv p P {} t" "lg t = l" "same_pins P s t" "wrote [(slot_of l j, B ! j)] s t"
    using b(4) by auto
  have "staged dv p P l B t" by (rule staged_pins [OF Suc.prems(1) t(2-4)])
  moreover have "Suc j + k \<le> length B" using Suc.prems(2) by simp
  ultimately obtain u where u: "kfor [Suc j..<Suc j + k] write_log_one t = Ret () u" "staged dv p P l B u" "same_pins P t u"
      "wrote (map (\<lambda>i. (slot_of l i, B ! i)) [Suc j..<Suc j + k]) t u"
    using Suc.IH by blast
  have l': "[j..<j + Suc k] = j # [Suc j..<Suc j + k]" by (simp add: upt_conv_Cons)
  have "kfor [j..<j + Suc k] write_log_one s = Ret () u" unfolding l' using t(1) u(1) by (simp del: upt_Suc)
  moreover have "wrote (map (\<lambda>i. (slot_of l i, B ! i)) [j..<j + Suc k]) s u"
    using wrote_trans [OF t(5) u(4)] unfolding l' by (simp del: upt_Suc)
  ultimately show ?case using u(2) same_pins_trans [OF t(4) u(3)] by blast
qed

lemma write_log_ok:
  assumes "staged dv p P l B s" "log_layout l (length B)" "ldev l = dv" "lhn (lh l) = int (length B)"
  shows "\<exists>t. write_log s = Ret () t \<and> staged dv p P l B t \<and> same_pins P s t
    \<and> wrote (map (\<lambda>i. (slot_of l i, B ! i)) [0..<length B]) s t"
  using write_log_loop [OF assms(1-3), of 0 "length B"] assms(1,4) by (simp add: write_log_def staged_def)

subsection \<open>The header\<close>

definition header :: "int \<Rightarrow> (nat \<Rightarrow> u32) \<Rightarrow> block \<Rightarrow> block" where
  "header n f b = put_addrs 4 f (nat n) (put32 b 0 (word_of_int n))"

lemma hdr_n_header: "0 \<le> n \<Longrightarrow> n \<le> 30 \<Longrightarrow> hdr_n (header n f b) = n"
proof -
  assume n: "0 \<le> n" "n \<le> 30"
  have "get32 (header n f b) 0 = get32 (put32 b 0 (word_of_int n)) 0"
    unfolding header_def by (rule get32_cong) (simp add: put_addrs_frame)
  then show ?thesis using n by (simp add: hdr_n_def signed_of_int signed_take_bit_int_eq_self)
qed

lemma hdr_block_header: "int i < n \<Longrightarrow> hdr_block (header n f b) i = f i"
  using get_put_addrs [of i "nat n" 4 f] by (simp add: hdr_block_def header_def)

lemma header_loop:
  "kfor [0..<k] (\<lambda>i. kmod (upd_buf b (\<lambda>v. v\<lparr>bdata := put32 (bdata v) (4 + 4 * i) (f i)\<rparr>))) s =
   Ret () (upd_buf b (\<lambda>v. v\<lparr>bdata := put_addrs 4 f k (bdata v)\<rparr>) s)"
proof -
  have "kfor xs (\<lambda>i. kmod (upd_buf b (\<lambda>v. v\<lparr>bdata := put32 (bdata v) (4 + 4 * i) (f i)\<rparr>))) s =
     Ret () (upd_buf b (\<lambda>v. v\<lparr>bdata := fold (\<lambda>i c. put32 c (4 + 4 * i) (f i)) xs (bdata v)\<rparr>) s)" for xs
    by (induction xs arbitrary: s) (simp_all add: kret_def upd_buf_def)
  then show ?thesis by (simp add: put_addrs_def)
qed

lemma write_head_ok:
  assumes ok: "bio_ok dv p P {} s" and l: "lg s = l" "ldev l = dv" and room: "\<exists>c < NBUF. c \<notin> P"
    and no: "\<And>c. c \<in> P \<Longrightarrow> \<not> holds_block dv (lstart l) s c"
  shows "\<exists>t. write_head s = Ret () t \<and> bio_ok dv p P {} t \<and> lg t = l \<and> same_pins P s t
    \<and> wrote [(lstart l, header (lhn (lh l)) (lhblock (lh l)) (disk s (lstart l)))] s t"
proof -
  let ?h = "header (lhn (lh l)) (lhblock (lh l)) (disk s (lstart l))"
  obtain b t1 where t1: "bread dv (lstart l) s = Ret b t1" "b < NBUF" "bio_ok dv p P {b} t1" "reads dv (lstart l) s b t1"
      "b \<in> P \<longrightarrow> holds_block dv (lstart l) s b"
    using bread_ok [OF ok, of "lstart l"] room by auto
  have bP: "b \<notin> P" using t1(5) no by blast
  have data: "bdata (bufs t1 b) = disk s (lstart l)"
    using readsD(3) [OF t1(4)] content_disk [OF ok, of "lstart l"] no by simp
  let ?t2 = "upd_buf b (\<lambda>v. v\<lparr>bdata := ?h\<rparr>) t1"
  have ok2: "bio_ok dv p P {b} ?t2" using bio_ok_data [OF t1(3), of b] by simp
  let ?t3 = "disk_put b (?t2\<lparr>core := touch (core ?t2)\<rparr>)"
  note t3 = bwrite_ok [OF ok2, of b]
  have bn: "blockno (bufs t1 b) = lstart l" using readsD(1) [OF t1(4)] by (simp add: holds_block_def)
  obtain t4 where t4: "brelse b ?t3 = Ret () t4" "bio_ok dv p P {} t4" "bview t4 = bview ?t3" "disk t4 = disk ?t3" "dwrites t4 = dwrites ?t3" "bio_state.more t4 = bio_state.more ?t3"
    using brelse_ok [OF t3(2), of b] by (auto simp: disk_put_def)
  have fill: "kfor [0..<nat (lhn (lh l))] (\<lambda>i. kmod (upd_buf b (\<lambda>v. v\<lparr>bdata := put32 (bdata v) (4 + 4 * i) (lhblock (lh l) i)\<rparr>)))
      (upd_buf b (\<lambda>v. v\<lparr>bdata := put32 (bdata v) 0 (word_of_int (lhn (lh l)))\<rparr>) t1) = Ret () ?t2"
    unfolding header_loop using data by (simp add: header_def upd_buf_def)
  have "write_head s = Ret () t4"
    using t1(1) t3(1) t4(1) l fill by (simp add: write_head_def)
  moreover have "lg t4 = l" using lg_more [of t4 s] t4(6) readsD(7) [OF t1(4)] l by (simp add: disk_put_def)
  moreover have "same_pins P s t4"
    using t4(3) readsD(4) [OF t1(4)] bP by (auto simp: same_pins_def bview_def disk_put_def fun_eq_iff)
  moreover have "wrote [(lstart l, ?h)] s t4"
    using t4(4,5) readsD(5,6) [OF t1(4)] bn by (simp add: wrote_def disk_put_def)
  ultimately show ?thesis using t4(2) by blast
qed


subsection \<open>Installing\<close>

text \<open>
  The pinned buffers that remain when the block at \<open>home\<close> has been installed: at run time its buffer
  is unpinned, during recovery nothing is pinned.
\<close>

definition pins_left :: "bool \<Rightarrow> u32 \<Rightarrow> u32 \<Rightarrow> 'z log_state_scheme \<Rightarrow> nat set \<Rightarrow> nat set" where
  "pins_left recovering dv home s P = (if recovering then P else {b \<in> P. \<not> holds_block dv home s b})"

lemma install_one_ok:
  assumes ok: "bio_ok dv p P {} s" and l: "lg s = l" "ldev l = dv" and ne: "home_of l i \<noteq> slot_of l i"
    and slot: "\<And>c. c \<in> P \<Longrightarrow> \<not> holds_block dv (slot_of l i) s c"
    and room: "\<exists>c < NBUF. c \<notin> P"
    and home: "if recovering then P = {} else \<exists>b \<in> P. holds_block dv (home_of l i) s b"
  shows "\<exists>t. install_one recovering i s = Ret () t \<and> bio_ok dv p (pins_left recovering dv (home_of l i) s P) {} t \<and> lg t = l
    \<and> same_pins (pins_left recovering dv (home_of l i) s P) s t \<and> wrote [(home_of l i, disk s (slot_of l i))] s t"
proof -
  let ?D = "disk s (slot_of l i)"
  obtain lb t1 where t1: "bread dv (slot_of l i) s = Ret lb t1" "lb < NBUF" "bio_ok dv p P {lb} t1" "reads dv (slot_of l i) s lb t1"
      "lb \<in> P \<longrightarrow> holds_block dv (slot_of l i) s lb"
    using bread_ok [OF ok, of "slot_of l i"] room by auto
  have lbP: "lb \<notin> P" using t1(5) slot by blast
  have d1: "bdata (bufs t1 lb) = ?D" using readsD(3) [OF t1(4)] content_disk [OF ok, of "slot_of l i"] slot by simp
  have hl: "holds_block dv (slot_of l i) t1 lb" by (rule readsD(1) [OF t1(4)])
  have nh: "\<not> holds_block dv (home_of l i) t1 lb" using holds_block_fun [OF hl] ne by blast
  have room1: "(\<exists>b < NBUF. holds_block dv (home_of l i) t1 b) \<or> (\<exists>b < NBUF. b \<notin> P \<and> b \<notin> {lb})"
  proof (cases recovering)
    case True
    then have "P = {}" using home by simp
    then show ?thesis using exI [of "\<lambda>b. b < NBUF \<and> b \<notin> P \<and> b \<notin> {lb}" "if lb = 0 then 1 else 0"] by (auto simp: NBUF_def split: if_splits)
  next
    case False
    then obtain b where b: "b \<in> P" "holds_block dv (home_of l i) s b" using home by auto
    then have "bufs t1 b = bufs s b" "b < NBUF" using readsD(4) [OF t1(4), of b] lbP bio_okD(3) [OF ok] by auto
    then show ?thesis using b by (auto simp: holds_block_def)
  qed
  obtain db t2 where t2: "bread dv (home_of l i) t1 = Ret db t2" "db < NBUF" "db \<noteq> lb" "bio_ok dv p P {db, lb} t2" "reads dv (home_of l i) t1 db t2"
      "db \<in> P \<longrightarrow> holds_block dv (home_of l i) t1 db"
    using bread_ok [OF t1(3), of "home_of l i"] nh room1 by auto
  have lb2: "bufs t2 lb = bufs t1 lb" using readsD(4) [OF t2(5)] t2(3) by auto
  have sd: "disk t2 = disk s" "dwrites t2 = dwrites s" "bio_state.more t2 = bio_state.more s"
    using readsD(5-7) [OF t1(4)] readsD(5-7) [OF t2(5)] by simp_all
  let ?t3 = "upd_buf db (\<lambda>v. v\<lparr>bdata := ?D\<rparr>) t2"
  have ok3: "bio_ok dv p P {db, lb} ?t3" using bio_ok_data [OF t2(4), of db] by simp
  let ?t4 = "disk_put db (?t3\<lparr>core := touch (core ?t3)\<rparr>)"
  note t4 = bwrite_ok [OF ok3, of db]
  have bn: "blockno (bufs t2 db) = home_of l i" "blockno (bufs t2 lb) = slot_of l i"
    using readsD(1) [OF t2(5)] hl lb2 by (simp_all add: holds_block_def)
  have d4: "disk ?t4 = (disk s)(home_of l i := ?D)" "dwrites ?t4 = dwrites s @ [(home_of l i, ?D)]"
      "bdata (bufs ?t4 lb) = ?D" "blockno (bufs ?t4 lb) = slot_of l i" "bdata (bufs ?t4 db) = ?D" "blockno (bufs ?t4 db) = home_of l i"
    using sd bn t2(3) lb2 d1 by (simp_all add: disk_put_def)
  let ?P = "pins_left recovering dv (home_of l i) s P"
  have same12: "bufs t2 c = bufs s c" if "c \<noteq> lb" "c \<noteq> db" for c
    using that readsD(4) [OF t1(4)] readsD(4) [OF t2(5)] by simp
  have P: "?P = (if recovering then P else P - {db})" "\<not> recovering \<Longrightarrow> db \<in> P"
  proof -
    have "c = db" if "c \<in> P" "holds_block dv (home_of l i) s c" for c
    proof -
      have "c \<noteq> lb" "c < NBUF" using that lbP bio_okD(3) [OF ok] by auto
      then show ?thesis using that readsD(4) [OF t1(4), of c] readsD(8) [OF t2(5)] by (simp add: holds_block_def)
    qed
    moreover have "holds_block dv (home_of l i) s db" if "db \<in> P"
      using that t2(3,6) readsD(4) [OF t1(4), of db] by (simp add: holds_block_def)
    ultimately show "?P = (if recovering then P else P - {db})" by (auto simp: pins_left_def)
    show "db \<in> P" if "\<not> recovering" using that home \<open>\<And>c. c \<in> P \<Longrightarrow> holds_block dv (home_of l i) s c \<Longrightarrow> c = db\<close> by auto
  qed
  obtain t5 where t5: "kwhen (\<not> recovering) (bunpin db) ?t4 = Ret () t5" "bio_ok dv p ?P {db, lb} t5" "bview t5 = bview ?t4"
      "disk t5 = disk ?t4" "dwrites t5 = dwrites ?t4" "bio_state.more t5 = bio_state.more ?t4"
  proof (cases recovering)
    case True
    then show ?thesis using that [of ?t4] t4(2) P(1) by (simp add: kret_def)
  next
    case False
    then show ?thesis using that bunpin_ok [OF t4(2), of db] P by auto
  qed
  have "bdata (bufs t5 lb) = disk t5 (blockno (bufs t5 lb))"
    using bview_eqD(3,4) [of t5 lb ?t4] t5(3,4) d4 ne by auto
  then obtain t6 where t6: "brelse lb t5 = Ret () t6" "bio_ok dv p ?P {db} t6" "bview t6 = bview t5" "disk t6 = disk t5" "dwrites t6 = dwrites t5" "bio_state.more t6 = bio_state.more t5"
    using brelse_ok [OF t5(2), of lb] t2(3) by (auto simp: insert_Diff_if)
  have "bdata (bufs t6 db) = disk t6 (blockno (bufs t6 db))"
    using bview_eqD(3,4) [of t6 db ?t4] t5(3,4) t6(3,4) d4 by simp
  then obtain t7 where t7: "brelse db t6 = Ret () t7" "bio_ok dv p ?P {} t7" "bview t7 = bview t6" "disk t7 = disk t6" "dwrites t7 = dwrites t6" "bio_state.more t7 = bio_state.more t6"
    using brelse_ok [OF t6(2), of db] by auto
  have "install_one recovering i s = Ret () t7"
    using t1(1) t2(1) t4(1) t5(1) t6(1) t7(1) l lb2 d1 by (simp add: install_one_def slot_of_def home_of_def)
  moreover have "lg t7 = l" using lg_more [of t7 s] t7(6) t6(6) t5(6) sd l by (simp add: disk_put_def)
  moreover have "wrote [(home_of l i, ?D)] s t7" using d4 t5(4,5) t6(4,5) t7(4,5) by (simp add: wrote_def)
  moreover have "same_pins ?P s t7"
    unfolding same_pins_def
  proof
    fix c
    assume "c \<in> ?P"
    then have "c \<noteq> lb" "c \<noteq> db" using P(1) lbP home by (auto split: if_splits)
    then show "bview t7 c = bview s c" using t7(3) t6(3) t5(3) same12 by (simp add: bview_def disk_put_def fun_eq_iff)
  qed
  ultimately show ?thesis using t7(2) by blast
qed


text \<open>Blocks \<open>j\<close> to \<open>n - 1\<close> are still to be installed.\<close>

definition installing :: "bool \<Rightarrow> u32 \<Rightarrow> nat \<Rightarrow> nat set \<Rightarrow> log \<Rightarrow> nat \<Rightarrow> nat \<Rightarrow> 'z log_state_scheme \<Rightarrow> bool" where
  "installing recovering dv p P l j n s \<longleftrightarrow> bio_ok dv p P {} s \<and> lg s = l \<and> (\<exists>c < NBUF. c \<notin> P)
     \<and> (if recovering then P = {}
        else (\<forall>i \<in> {j..<n}. \<exists>b \<in> P. holds_block dv (home_of l i) s b) \<and> (\<forall>c \<in> P. \<exists>i \<in> {j..<n}. holds_block dv (home_of l i) s c))"

lemma install_step:
  assumes I: "installing recovering dv p P l j n s" and lay: "log_layout l n" and dv: "ldev l = dv" and j: "j < n"
  shows "\<exists>t. install_one recovering j s = Ret () t \<and> installing recovering dv p (pins_left recovering dv (home_of l j) s P) l (Suc j) n t
    \<and> wrote [(home_of l j, disk s (slot_of l j))] s t"
proof -
  let ?P = "pins_left recovering dv (home_of l j) s P"
  have slot: "\<not> holds_block dv (slot_of l j) s c" if c: "c \<in> P" for c
  proof
    assume h: "holds_block dv (slot_of l j) s c"
    have "\<not> recovering" using I c by (auto simp: installing_def)
    then have "\<forall>c \<in> P. \<exists>i \<in> {j..<n}. holds_block dv (home_of l i) s c" using I by (simp add: installing_def)
    then obtain i where i: "i < n" "holds_block dv (home_of l i) s c" using c by (meson atLeastLessThan_iff)
    with log_layoutD(2) [OF lay i(1) j] holds_block_fun [OF h i(2)] show False by simp
  qed
  have 0: "bio_ok dv p P {} s" "lg s = l" "\<exists>c < NBUF. c \<notin> P" using I by (simp_all add: installing_def)
  have h: "if recovering then P = {} else \<exists>b \<in> P. holds_block dv (home_of l j) s b"
    using I j by (auto simp: installing_def)
  from install_one_ok [OF 0(1,2) dv log_layoutD(2) [OF lay j j] slot 0(3) h]
  obtain t where t: "install_one recovering j s = Ret () t" "bio_ok dv p ?P {} t" "lg t = l" "same_pins ?P s t"
      "wrote [(home_of l j, disk s (slot_of l j))] s t" by blast
  have v: "holds_block dv m t b = holds_block dv m s b" if "b \<in> ?P" for b m
    using t(4) that bview_eqD(5) [of t b s] by (simp add: same_pins_def)
  have room: "\<exists>c < NBUF. c \<notin> ?P" using 0(3) by (auto simp: pins_left_def)
  have "installing recovering dv p ?P l (Suc j) n t"
  proof (cases recovering)
    case True
    then show ?thesis using I t(2,3) room by (simp add: installing_def pins_left_def)
  next
    case False
    have "\<exists>b \<in> ?P. holds_block dv (home_of l i) t b" if i: "i \<in> {Suc j..<n}" for i
    proof -
      have "\<forall>i \<in> {j..<n}. \<exists>b \<in> P. holds_block dv (home_of l i) s b" using I False by (simp add: installing_def)
      moreover have "i \<in> {j..<n}" using i by simp
      ultimately obtain b where b: "b \<in> P" "holds_block dv (home_of l i) s b" by blast
      have "home_of l i \<noteq> home_of l j" using log_layoutD(3) [OF lay, of i j] i j by auto
      then have "b \<in> ?P" using b False by (auto simp: pins_left_def holds_block_def)
      then show ?thesis using b v by blast
    qed
    moreover have "\<exists>i \<in> {Suc j..<n}. holds_block dv (home_of l i) t c" if c: "c \<in> ?P" for c
    proof -
      have "c \<in> P" "\<not> holds_block dv (home_of l j) s c" using c False by (auto simp: pins_left_def)
      moreover have "\<forall>c \<in> P. \<exists>i \<in> {j..<n}. holds_block dv (home_of l i) s c" using I False by (simp add: installing_def)
      ultimately obtain i where "i \<in> {j..<n}" "holds_block dv (home_of l i) s c" "i \<noteq> j" by blast
      then show ?thesis using v [OF c] by (intro bexI [of _ i]) auto
    qed
    ultimately show ?thesis using t(2,3) room False by (simp add: installing_def)
  qed
  then show ?thesis using t by blast
qed

lemma install_loop:
  assumes "installing recovering dv p P l j n s" and lay: "log_layout l n" and dv: "ldev l = dv" and "j + k \<le> n"
  shows "\<exists>t Q. kfor [j..<j + k] (install_one recovering) s = Ret () t \<and> installing recovering dv p Q l (j + k) n t
    \<and> wrote (map (\<lambda>i. (home_of l i, disk s (slot_of l i))) [j..<j + k]) s t"
  using assms(1,4)
proof (induction k arbitrary: s j P)
  case 0
  then show ?case by (auto simp: kret_def wrote_def)
next
  case (Suc k)
  have j: "j < n" using Suc.prems(2) by simp
  obtain t where t: "install_one recovering j s = Ret () t" "installing recovering dv p (pins_left recovering dv (home_of l j) s P) l (Suc j) n t"
      "wrote [(home_of l j, disk s (slot_of l j))] s t" using install_step [OF Suc.prems(1) lay dv j] by blast
  have "Suc j + k \<le> n" using Suc.prems(2) by simp
  with Suc.IH [OF t(2)] obtain u Q where u: "kfor [Suc j..<Suc j + k] (install_one recovering) t = Ret () u" "installing recovering dv p Q l (Suc j + k) n u"
      "wrote (map (\<lambda>i. (home_of l i, disk t (slot_of l i))) [Suc j..<Suc j + k]) t u" by blast
  have "disk t (slot_of l i) = disk s (slot_of l i)" if "i < n" for i
    using t(3) log_layoutD(2) [OF lay j that] by (simp add: wrote_def)
  then have e: "map (\<lambda>i. (home_of l i, disk t (slot_of l i))) [Suc j..<Suc j + k] = map (\<lambda>i. (home_of l i, disk s (slot_of l i))) [Suc j..<Suc j + k]"
    using Suc.prems(2) by auto
  have w: "wrote (map (\<lambda>i. (home_of l i, disk s (slot_of l i))) [Suc j..<Suc j + k]) t u"
    using u(3) unfolding e .
  have l': "[j..<j + Suc k] = j # [Suc j..<Suc j + k]" by (simp add: upt_conv_Cons)
  have "kfor [j..<j + Suc k] (install_one recovering) s = Ret () u" unfolding l' using t(1) u(1) by (simp del: upt_Suc)
  moreover have "wrote (map (\<lambda>i. (home_of l i, disk s (slot_of l i))) [j..<j + Suc k]) s u"
    using wrote_trans [OF t(3) w] unfolding l' by (simp del: upt_Suc)
  ultimately show ?case using u(2) by auto
qed

lemma install_trans_ok:
  assumes "installing recovering dv p P l 0 n s" "log_layout l n" "ldev l = dv" "lhn (lh l) = int n"
  shows "\<exists>t Q. install_trans recovering s = Ret () t \<and> installing recovering dv p Q l n n t
    \<and> wrote (map (\<lambda>i. (home_of l i, disk s (slot_of l i))) [0..<n]) s t"
  using install_loop [OF assms(1-3), of n] assms(1,4) by (simp add: install_trans_def installing_def)

lemma installed_no_pins: "installing recovering dv p P l n n s \<Longrightarrow> P = {} \<and> bio_ok dv p {} {} s \<and> lg s = l"
  by (auto simp: installing_def split: if_splits)

subsection \<open>Commit\<close>

lemma upd_log_simps [simp]:
  "lg (upd_log f s) = f (lg s)" "disk (upd_log f s) = disk s" "dwrites (upd_log f s) = dwrites s" "bufs (upd_log f s) = bufs s"
  "core (upd_log f s) = core s" "slocks (upd_log f s) = slocks s" "procs (upd_log f s) = procs s" "sfuel (upd_log f s) = sfuel s"
  "table_ok (upd_log f s) = table_ok s"
  by (simp_all add: upd_log_def) (rule table_ok_cong; simp)

lemma bio_ok_upd_log [simp]: "bio_ok dv p P H (upd_log f s) = bio_ok dv p P H s"
proof -
  have "bok dv p P H (upd_log f s) b = bok dv p P H s b" for b by (simp add: bok_def)
  moreover have "cached_once dv (upd_log f s) = cached_once dv s" by (simp add: cached_once_def holds_block_def)
  moreover have "bring (upd_log f s) = bring s" by (auto simp: fun_eq_iff nxt_def prv_def intro!: bring_cong)
  moreover have "quiet p (upd_log f s) = quiet p s" by (simp add: quiet_def)
  ultimately show ?thesis by (simp add: bio_ok_def)
qed

text \<open>The writes of a commit: the copies, the header, the home locations, the empty header.\<close>

definition commit_writes :: "log \<Rightarrow> block list \<Rightarrow> block \<Rightarrow> (u32 \<times> block) list" where
  "commit_writes l B h =
     map (\<lambda>i. (slot_of l i, B ! i)) [0..<length B]
     @ [(lstart l, header (int (length B)) (lhblock (lh l)) h)]
     @ map (\<lambda>i. (home_of l i, B ! i)) [0..<length B]
     @ [(lstart l, header 0 (lhblock (lh l)) (header (int (length B)) (lhblock (lh l)) h))]"


lemma staged_installing:
  "staged dv p P l B s \<Longrightarrow> installing False dv p P l 0 (length B) s"
  by (force simp: staged_def installing_def)

lemma staged_header:
  assumes "staged dv p P l B s" "log_layout l (length B)" "c \<in> P"
  shows "\<not> holds_block dv (lstart l) s c"
proof
  assume h: "holds_block dv (lstart l) s c"
  obtain i where i: "i < length B" "holds_block dv (home_of l i) s c" using assms(1,3) by (auto simp: staged_def)
  with log_layoutD(1) [OF assms(2) i(1)] holds_block_fun [OF h i(2)] show False by simp
qed

lemma set_lhn_simps [simp]:
  "lstart (set_lhn n l) = lstart l" "ldev (set_lhn n l) = ldev l" "lhn (lh (set_lhn n l)) = n"
  "lhblock (lh (set_lhn n l)) = lhblock (lh l)" "slot_of (set_lhn n l) = slot_of l" "home_of (set_lhn n l) = home_of l"
  by (simp_all add: set_lhn_def slot_of_def home_of_def fun_eq_iff)

lemma slot_writes:
  assumes "i < n" "n \<le> 30"
  shows "apply_writes (map (\<lambda>i. (slot_of l i, f i)) [0..<n]) D (slot_of l i) = f i"
proof (rule apply_writes_in)
  have "inj_on (slot_of l) {0..<n}" using assms(2) slot_of_eq by (auto simp: inj_on_def)
  then show "distinct (map fst (map (\<lambda>i. (slot_of l i, f i)) [0..<n]))" by (simp add: distinct_map comp_def)
  show "(slot_of l i, f i) \<in> set (map (\<lambda>i. (slot_of l i, f i)) [0..<n])" using assms(1) by force
qed

lemma header_untouched:
  "n \<le> 30 \<Longrightarrow> apply_writes (map (\<lambda>i. (slot_of l i, f i)) [0..<n]) D (lstart l) = D (lstart l)"
  using slot_not_header [of _ l] by (intro apply_writes_other) (auto simp: image_iff, metis less_le_trans)

lemma home_writes_header:
  "log_layout l n \<Longrightarrow> apply_writes (map (\<lambda>i. (home_of l i, f i)) [0..<n]) D (lstart l) = D (lstart l)"
  by (rule apply_writes_other) (auto simp: image_iff, metis log_layoutD(1))

lemma room0: "\<exists>c < NBUF. c \<notin> {}"
  by (rule exI [of _ 0]) (simp add: NBUF_def)

lemma commit_ok:
  assumes st: "staged dv p P l B s" and lay: "log_layout l (length B)" and l: "ldev l = dv" "lhn (lh l) = int (length B)" "B \<noteq> []"
  shows "\<exists>t. commit s = Ret () t \<and> bio_ok dv p {} {} t \<and> lg t = set_lhn 0 l \<and> wrote (commit_writes l B (disk s (lstart l))) s t"
proof -
  let ?n = "length B" and ?h = "disk s (lstart l)"
  have n: "?n \<le> 30" using log_layoutD(4) [OF lay, of 0] l(3) by simp
  obtain t1 where t1: "write_log s = Ret () t1" "staged dv p P l B t1" "wrote (map (\<lambda>i. (slot_of l i, B ! i)) [0..<?n]) s t1"
    using write_log_ok [OF st lay l(1,2)] by blast
  have h1: "disk t1 (lstart l) = ?h"
    using t1(3) header_untouched [OF n] by (simp add: wrote_def)
  have s1: "disk t1 (slot_of l i) = B ! i" if "i < ?n" for i
    using t1(3) slot_writes [OF that n, of l "\<lambda>i. B ! i"] by (simp add: wrote_def)
  have "bio_ok dv p P {} t1" "lg t1 = l" "\<exists>c < NBUF. c \<notin> P" using t1(2) by (simp_all add: staged_def)
  from write_head_ok [OF this(1,2) l(1) this(3) staged_header [OF t1(2) lay]]
  obtain t2 where t2: "write_head t1 = Ret () t2" "bio_ok dv p P {} t2" "lg t2 = l" "same_pins P t1 t2"
      "wrote [(lstart l, header (int ?n) (lhblock (lh l)) ?h)] t1 t2" using h1 l(2) by auto
  have "staged dv p P l B t2" by (rule staged_pins [OF t1(2) t2(2-4)])
  from install_trans_ok [OF staged_installing [OF this] lay l(1,2)]
  obtain t3 Q where t3: "install_trans False t2 = Ret () t3" "installing False dv p Q l ?n ?n t3"
      "wrote (map (\<lambda>i. (home_of l i, disk t2 (slot_of l i))) [0..<?n]) t2 t3" by blast
  have "disk t2 (slot_of l i) = B ! i" if "i < ?n" for i
    using t2(5) s1 [OF that] slot_not_header [of i l] that n by (simp add: wrote_def)
  then have "map (\<lambda>i. (home_of l i, disk t2 (slot_of l i))) [0..<?n] = map (\<lambda>i. (home_of l i, B ! i)) [0..<?n]" by simp
  with t3(3) have w3: "wrote (map (\<lambda>i. (home_of l i, B ! i)) [0..<?n]) t2 t3" by simp
  have ok3: "bio_ok dv p {} {} t3" "lg t3 = l" using installed_no_pins [OF t3(2)] by blast+
  let ?u = "upd_log (set_lhn 0) t3"
  have "disk t3 (lstart l) = disk t2 (lstart l)"
    using w3 home_writes_header [OF lay] by (simp add: wrote_def)
  then have h3: "disk ?u (lstart l) = header (int ?n) (lhblock (lh l)) ?h" using t2(5) by (simp add: wrote_def)
  obtain t4 where t4: "write_head ?u = Ret () t4" "bio_ok dv p {} {} t4" "lg t4 = set_lhn 0 l"
      "wrote [(lstart l, header 0 (lhblock (lh l)) (header (int ?n) (lhblock (lh l)) ?h))] ?u t4"
    using write_head_ok [OF _ _ _ room0, of dv p ?u "set_lhn 0 l"] ok3 l(1) h3 by auto
  have w4: "wrote [(lstart l, header 0 (lhblock (lh l)) (header (int ?n) (lhblock (lh l)) ?h))] t3 t4"
    using t4(4) by (simp add: wrote_def)
  have "commit s = Ret () t4"
    using t1(1) t2(1) t3(1) t4(1) st l(2,3) by (simp add: commit_def staged_def)
  moreover have "wrote (commit_writes l B ?h) s t4"
    unfolding commit_writes_def by (intro wrote_trans [OF t1(3)] wrote_trans [OF t2(5)] wrote_trans [OF w3] w4)
  ultimately show ?thesis using t4(2,3) by blast
qed

subsection \<open>Recovery\<close>

text \<open>The log header in memory after \<^verbatim>\<open>read_head\<close> has read block \<open>d\<close>.\<close>

definition load_header :: "block \<Rightarrow> log \<Rightarrow> log" where
  "load_header d l = l\<lparr>lh := \<lparr>lhn = hdr_n d, lhblock = (\<lambda>i. if i < nat (hdr_n d) then hdr_block d i else lhblock (lh l) i)\<rparr>\<rparr>"

lemma load_loop:
  "kfor [0..<k] (\<lambda>i. kmod (upd_log (set_lhblock i (hdr_block d i)))) s =
   Ret () (upd_log (\<lambda>l. l\<lparr>lh := (lh l)\<lparr>lhblock := (\<lambda>i. if i < k then hdr_block d i else lhblock (lh l) i)\<rparr>\<rparr>) s)"
proof -
  have "kfor xs (\<lambda>i. kmod (upd_log (set_lhblock i (hdr_block d i)))) s =
     Ret () (upd_log (\<lambda>l. l\<lparr>lh := (lh l)\<lparr>lhblock := (\<lambda>i. if i \<in> set xs then hdr_block d i else lhblock (lh l) i)\<rparr>\<rparr>) s)" for xs
  proof (induction xs arbitrary: s)
    case Nil
    show ?case by (simp add: kret_def upd_log_def)
  next
    case (Cons a xs)
    let ?s = "upd_log (set_lhblock a (hdr_block d a)) s"
    have f: "(\<lambda>i. if i \<in> set xs then hdr_block d i else lhblock (lh (lg ?s)) i) =
        (\<lambda>i. if i \<in> set (a # xs) then hdr_block d i else lhblock (lh (lg s)) i)"
      by (auto simp: upd_log_def set_lhblock_def)
    have "upd_log (\<lambda>l. l\<lparr>lh := (lh l)\<lparr>lhblock := (\<lambda>i. if i \<in> set xs then hdr_block d i else lhblock (lh l) i)\<rparr>\<rparr>) ?s =
        s\<lparr>lg := (lg s)\<lparr>lh := (lh (lg s))\<lparr>lhblock := (\<lambda>i. if i \<in> set xs then hdr_block d i else lhblock (lh (lg ?s)) i)\<rparr>\<rparr>\<rparr>"
      by (simp add: upd_log_def set_lhblock_def cong: if_cong)
    also have "\<dots> = upd_log (\<lambda>l. l\<lparr>lh := (lh l)\<lparr>lhblock := (\<lambda>i. if i \<in> set (a # xs) then hdr_block d i else lhblock (lh l) i)\<rparr>\<rparr>) s"
      unfolding f by (simp add: upd_log_def)
    finally show ?case by (simp add: Cons.IH)
  qed
  from this [of "[0..<k]"] show ?thesis by simp
qed

lemma read_head_ok:
  assumes ok: "bio_ok dv p {} {} s" and l: "lg s = l" "ldev l = dv" and n: "hdr_n (disk s (lstart l)) \<le> 30"
  shows "\<exists>t. read_head s = Ret () t \<and> bio_ok dv p {} {} t \<and> lg t = load_header (disk s (lstart l)) l \<and> wrote [] s t"
proof -
  let ?d = "disk s (lstart l)"
  obtain b t1 where t1: "bread dv (lstart l) s = Ret b t1" "b < NBUF" "bio_ok dv p {} {b} t1" "reads dv (lstart l) s b t1"
    using bread_ok [OF ok, of "lstart l"] room0 by auto
  have data: "bdata (bufs t1 b) = ?d" using readsD(3) [OF t1(4)] content_disk [OF ok, of "lstart l"] by simp
  have lg1: "lg t1 = l" using lg_more [OF readsD(7) [OF t1(4)]] l by simp
  let ?t2 = "upd_log (\<lambda>_. load_header ?d l) t1"
  have bn: "blockno (bufs t1 b) = lstart l" using readsD(1) [OF t1(4)] by (simp add: holds_block_def)
  obtain t3 where t3: "brelse b ?t2 = Ret () t3" "bio_ok dv p {} {} t3" "disk t3 = disk ?t2" "dwrites t3 = dwrites ?t2" "bio_state.more t3 = bio_state.more ?t2"
    using brelse_ok [of dv p "{}" "{b}" ?t2 b] t1(3) data bn readsD(5) [OF t1(4)] by auto
  have "upd_log (\<lambda>l. l\<lparr>lh := (lh l)\<lparr>lhblock := (\<lambda>i. if i < nat (hdr_n ?d) then hdr_block ?d i else lhblock (lh l) i)\<rparr>\<rparr>) (upd_log (set_lhn (hdr_n ?d)) t1) = ?t2"
    using lg1 by (simp add: upd_log_def load_header_def set_lhn_def cong: if_cong)
  then have "read_head s = Ret () t3"
    using t1(1) t3(1) l data n by (simp add: read_head_def load_loop LOGBLOCKS_def MAXOPBLOCKS_def)
  moreover have "lg t3 = load_header ?d l" using lg_more [OF t3(5)] by simp
  moreover have "wrote [] s t3" using t3(3,4) readsD(5,6) [OF t1(4)] by (simp add: wrote_def)
  ultimately show ?thesis using t3(2) by blast
qed

text \<open>What recovery writes: every block that the header on disk lists, from its copy, then an empty header.\<close>

definition recovery_writes :: "log \<Rightarrow> (u32 \<Rightarrow> block) \<Rightarrow> (u32 \<times> block) list" where
  "recovery_writes l D =
     (let d = D (lstart l); l' = load_header d l in
      map (\<lambda>i. (home_of l' i, D (slot_of l i))) [0..<nat (hdr_n d)] @ [(lstart l, header 0 (lhblock (lh l')) d)])"

lemma load_header_simps [simp]:
  "lstart (load_header d l) = lstart l" "ldev (load_header d l) = ldev l" "slot_of (load_header d l) = slot_of l"
  "lhn (lh (load_header d l)) = hdr_n d" "i < nat (hdr_n d) \<Longrightarrow> home_of (load_header d l) i = hdr_block d i"
  by (simp_all add: load_header_def slot_of_def home_of_def fun_eq_iff)

lemma recover_ok:
  assumes ok: "bio_ok dv p {} {} s" and l: "lg s = l" "ldev l = dv"
    and n: "0 \<le> hdr_n (disk s (lstart l))" "log_layout (load_header (disk s (lstart l)) l) (nat (hdr_n (disk s (lstart l))))"
  shows "\<exists>t. recover_from_log s = Ret () t \<and> bio_ok dv p {} {} t \<and> wrote (recovery_writes l (disk s)) s t"
proof -
  let ?d = "disk s (lstart l)"
  let ?l = "load_header ?d l" and ?n = "nat (hdr_n ?d)"
  have le: "hdr_n ?d \<le> 30" using n by (simp add: log_layout_def LOGBLOCKS_def MAXOPBLOCKS_def)
  obtain t1 where t1: "read_head s = Ret () t1" "bio_ok dv p {} {} t1" "lg t1 = ?l" "wrote [] s t1"
    using read_head_ok [OF ok l le] by blast
  have I: "installing True dv p {} ?l 0 ?n t1" using t1 room0 by (simp add: installing_def)
  obtain t2 Q where t2: "install_trans True t1 = Ret () t2" "installing True dv p Q ?l ?n ?n t2"
      "wrote (map (\<lambda>i. (home_of ?l i, disk t1 (slot_of ?l i))) [0..<?n]) t1 t2"
    using install_trans_ok [OF I n(2)] l n(1) by auto
  have ok2: "bio_ok dv p {} {} t2" "lg t2 = ?l" using installed_no_pins [OF t2(2)] by blast+
  have d1: "disk t1 = disk s" using t1(4) by (simp add: wrote_def)
  have h2: "disk t2 (lstart l) = ?d" using t2(3) home_writes_header [OF n(2)] d1 by (simp add: wrote_def)
  obtain t3 where t3: "write_head (upd_log (set_lhn 0) t2) = Ret () t3" "bio_ok dv p {} {} t3"
      "wrote [(lstart l, header 0 (lhblock (lh ?l)) ?d)] (upd_log (set_lhn 0) t2) t3"
    using write_head_ok [OF _ _ _ room0, of dv p "upd_log (set_lhn 0) t2" "set_lhn 0 ?l"] ok2 l(2) h2 by auto
  have w3: "wrote [(lstart l, header 0 (lhblock (lh ?l)) ?d)] t2 t3" using t3(3) by (simp add: wrote_def)
  have "wrote (recovery_writes l (disk s)) s t3"
    using wrote_trans [OF t1(4) wrote_trans [OF t2(3) w3]] d1 by (simp add: recovery_writes_def Let_def)
  moreover have "recover_from_log s = Ret () t3"
    using t1(1) t2(1) t3(1) by (simp add: recover_from_log_def)
  ultimately show ?thesis using t3(2) by blast
qed

subsection \<open>Crashes\<close>

text \<open>The contents of one block after a sequence of writes depend on its old contents only.\<close>

lemma apply_writes_local: "D n = E n \<Longrightarrow> apply_writes ws D n = apply_writes ws E n"
proof (induction ws arbitrary: D E)
  case (Cons w ws)
  obtain m b where w: "w = (m, b)" by (cases w)
  have "(D(m := b)) n = (E(m := b)) n" using Cons.prems by simp
  from Cons.IH [of "D(m := b)" "E(m := b)", OF this] show ?case unfolding w apply_writes_simps .
qed simp

lemma apply_writes_prefix:
  assumes "distinct (map fst ws)"
  shows "apply_writes ws (apply_writes (take j ws) D) = apply_writes ws D"
proof
  fix n
  show "apply_writes ws (apply_writes (take j ws) D) n = apply_writes ws D n"
  proof (cases "n \<in> fst ` set ws")
    case True
    then obtain b where "(n, b) \<in> set ws" by auto
    then show ?thesis using apply_writes_in [OF assms] by metis
  next
    case False
    then have "n \<notin> fst ` set (take j ws)" by (auto dest: in_set_takeD)
    with False show ?thesis by (simp add: apply_writes_other)
  qed
qed

definition log_area :: "log \<Rightarrow> u32 set" where
  "log_area l = insert (lstart l) (slot_of l ` {..<nat LOGBLOCKS})"


lemma home_area: "log_layout l n \<Longrightarrow> i < n \<Longrightarrow> home_of l i \<notin> log_area l"
  by (auto simp: log_layout_def log_area_def)

lemma home_of_header:
  "i < n \<Longrightarrow> n \<le> 30 \<Longrightarrow> home_of (load_header (header (int n) (lhblock (lh l)) h) l') i = home_of l i"
  by (simp add: hdr_n_header hdr_block_header) (simp add: home_of_def)

lemma log_layout_header:
  assumes "log_layout l n" "lstart l' = lstart l"
  shows "log_layout (load_header (header (int n) (lhblock (lh l)) h) l') n"
proof -
  let ?l = "load_header (header (int n) (lhblock (lh l)) h) l'"
  have n: "n \<le> 30" using assms(1) by (simp add: log_layout_def LOGBLOCKS_def MAXOPBLOCKS_def)
  have h: "home_of ?l i = home_of l i" if "i < n" for i using home_of_header [OF that n] .
  have s: "slot_of ?l = slot_of l" using assms(2) by (simp add: slot_of_def fun_eq_iff)
  have m: "map (home_of ?l) [0..<n] = map (home_of l) [0..<n]" using h by simp
  show ?thesis using assms h s by (simp add: log_layout_def m del: map_eq_conv)
qed

text \<open>
  A machine that starts after a crash: the cache is empty of pinned and locked buffers and agrees with
  the disk, and \<^verbatim>\<open>initlog\<close> has set where the log is.
\<close>

definition boots :: "u32 \<Rightarrow> nat \<Rightarrow> log \<Rightarrow> (u32 \<Rightarrow> block) \<Rightarrow> 'z log_state_scheme \<Rightarrow> bool" where
  "boots dv p l D u \<longleftrightarrow> bio_ok dv p {} {} u \<and> lstart (lg u) = lstart l \<and> ldev (lg u) = dv \<and> disk u = D"

text \<open>Recovery from an empty log changes no block outside the log.\<close>

lemma recover_empty:
  assumes u: "boots dv p l D u" and h: "hdr_n (D (lstart l)) = 0"
  shows "\<exists>v. recover_from_log u = Ret () v \<and> hdr_n (disk v (lstart l)) = 0 \<and> (\<forall>m. m \<notin> log_area l \<longrightarrow> disk v m = D m)"
proof -
  have "log_layout (load_header (disk u (lstart (lg u))) (lg u)) 0" by (simp add: log_layout_def LOGBLOCKS_def MAXOPBLOCKS_def)
  then obtain v where v: "recover_from_log u = Ret () v" "wrote (recovery_writes (lg u) (disk u)) u v"
    using recover_ok [of dv p u "lg u"] u h by (auto simp: boots_def)
  then have "hdr_n (disk v (lstart l)) = 0" "\<forall>m. m \<noteq> lstart l \<longrightarrow> disk v m = D m"
    using u h by (simp_all add: wrote_def recovery_writes_def Let_def boots_def hdr_n_header)
  then show ?thesis using v(1) by (auto simp: log_area_def)
qed

text \<open>Recovery from a log that lists \<open>n\<close> blocks installs all their copies.\<close>

lemma recover_full:
  assumes u: "boots dv p l D u" and h: "D (lstart l) = header (int n) (lhblock (lh l)) h" and lay: "log_layout l n"
    and c: "\<And>i. i < n \<Longrightarrow> D (slot_of l i) = f i"
  shows "\<exists>v. recover_from_log u = Ret () v \<and> hdr_n (disk v (lstart l)) = 0 \<and>
    (\<forall>m. m \<notin> log_area l \<longrightarrow> disk v m = apply_writes (map (\<lambda>i. (home_of l i, f i)) [0..<n]) D m)"
proof -
  have n: "n \<le> 30" using lay by (simp add: log_layout_def LOGBLOCKS_def MAXOPBLOCKS_def)
  let ?l = "load_header (D (lstart l)) (lg u)"
  have hn: "hdr_n (D (lstart l)) = int n" using h n by (simp add: hdr_n_header)
  have "log_layout ?l n" using log_layout_header [OF lay] u h by (simp add: boots_def)
  then obtain v where v: "recover_from_log u = Ret () v" "wrote (recovery_writes (lg u) (disk u)) u v"
    using recover_ok [of dv p u "lg u"] u hn by (auto simp: boots_def)
  have s: "slot_of (lg u) = slot_of l" using u by (simp add: boots_def slot_of_def fun_eq_iff)
  have "map (\<lambda>i. (home_of ?l i, D (slot_of (lg u) i))) [0..<n] = map (\<lambda>i. (home_of l i, f i)) [0..<n]"
    using c s h home_of_header [OF _ n] by simp
  then have W: "recovery_writes (lg u) (disk u) = map (\<lambda>i. (home_of l i, f i)) [0..<n] @ [(lstart l, header 0 (lhblock (lh ?l)) (D (lstart l)))]"
    using u hn by (simp add: recovery_writes_def Let_def boots_def)
  then have "disk v = (apply_writes (map (\<lambda>i. (home_of l i, f i)) [0..<n]) D)(lstart l := header 0 (lhblock (lh ?l)) (D (lstart l)))"
    using v(2) u by (simp add: wrote_def boots_def)
  then show ?thesis using v(1) by (auto simp: log_area_def hdr_n_header)
qed


lemma home_writes_distinct: "log_layout l n \<Longrightarrow> distinct (map fst (map (\<lambda>i. (home_of l i, f i)) [0..<n]))"
  by (simp add: log_layout_def comp_def)

lemma log_writes_outside:
  assumes "n \<le> 30" "m \<notin> log_area l"
  shows "apply_writes (take k (map (\<lambda>i. (slot_of l i, f i)) [0..<n])) D m = D m"
proof (rule apply_writes_other)
  have "i < nat LOGBLOCKS" if "i < n" for i using that assms(1) by (simp add: LOGBLOCKS_def MAXOPBLOCKS_def)
  then have "m \<noteq> slot_of l i" if "i < n" for i using that assms(2) by (auto simp: log_area_def)
  then show "m \<notin> fst ` set (take k (map (\<lambda>i. (slot_of l i, f i)) [0..<n]))" by (fastforce dest: in_set_takeD)
qed

lemma home_prefix:
  assumes "log_layout l n"
  shows "apply_writes (take j (map (\<lambda>i. (home_of l i, f i)) [0..<n])) D (lstart l) = D (lstart l)"
    "i < n \<Longrightarrow> apply_writes (take j (map (\<lambda>i. (home_of l i, f i)) [0..<n])) D (slot_of l i) = D (slot_of l i)"
proof -
  show "apply_writes (take j (map (\<lambda>i. (home_of l i, f i)) [0..<n])) D (lstart l) = D (lstart l)"
    using log_layoutD(1) [OF assms] by (intro apply_writes_other) (fastforce dest: in_set_takeD)
  show "apply_writes (take j (map (\<lambda>i. (home_of l i, f i)) [0..<n])) D (slot_of l i) = D (slot_of l i)" if "i < n"
    using log_layoutD(2) [OF assms _ that] by (intro apply_writes_other) (fastforce dest: in_set_takeD)
qed

text \<open>The three phases of a commit, and the disk as recovery leaves it after a crash in each.\<close>

lemma crash_before_header:
  assumes lay: "log_layout l (length B)" and h: "hdr_n (D (lstart l)) = 0" and k: "k \<le> length B"
    and u: "boots dv p l (apply_writes (take k (commit_writes l B h')) D) u"
  shows "\<exists>v. recover_from_log u = Ret () v \<and> hdr_n (disk v (lstart l)) = 0 \<and> (\<forall>m. m \<notin> log_area l \<longrightarrow> disk v m = D m)"
proof -
  let ?A = "map (\<lambda>i. (slot_of l i, B ! i)) [0..<length B]"
  have n: "length B \<le> 30" using lay by (simp add: log_layout_def LOGBLOCKS_def MAXOPBLOCKS_def)
  have W: "take k (commit_writes l B h') = take k ?A" using k by (simp add: commit_writes_def)
  have "apply_writes (take k ?A) D (lstart l) = D (lstart l)"
    using header_untouched [of k l "\<lambda>i. B ! i" D] k n by (simp add: take_map)
  then show ?thesis using recover_empty [OF u] h log_writes_outside [OF n] by (simp add: W)
qed

lemma crash_after_header:
  assumes lay: "log_layout l (length B)" and k: "length B < k" "k \<le> 2 * length B + 1"
    and u: "boots dv p l (apply_writes (take k (commit_writes l B h)) D) u"
  shows "\<exists>v. recover_from_log u = Ret () v \<and> hdr_n (disk v (lstart l)) = 0 \<and>
    (\<forall>m. m \<notin> log_area l \<longrightarrow> disk v m = apply_writes (map (\<lambda>i. (home_of l i, B ! i)) [0..<length B]) D m)"
proof -
  let ?n = "length B" and ?h = "header (int (length B)) (lhblock (lh l)) h"
  let ?A = "map (\<lambda>i. (slot_of l i, B ! i)) [0..<?n]" and ?C = "map (\<lambda>i. (home_of l i, B ! i)) [0..<?n]"
  have n: "?n \<le> 30" using lay by (simp add: log_layout_def LOGBLOCKS_def MAXOPBLOCKS_def)
  obtain j where j: "k = ?n + Suc j" "j \<le> ?n" using k by (metis less_iff_Suc_add add_Suc_right add_le_cancel_left Suc_le_mono add_2_eq_Suc' mult_2 Suc_eq_plus1 add.assoc)
  let ?D1 = "(apply_writes ?A D)(lstart l := ?h)"
  let ?E = "apply_writes (take j ?C) ?D1"
  have W: "take k (commit_writes l B h) = ?A @ (lstart l, ?h) # take j ?C" using j by (simp add: commit_writes_def)
  then have E: "apply_writes (take k (commit_writes l B h)) D = ?E" by simp
  have slots: "?E (slot_of l i) = B ! i" if "i < ?n" for i
    using home_prefix(2) [OF lay that, of j "\<lambda>i. B ! i" ?D1] slot_writes [OF that n, of l "\<lambda>i. B ! i" D] slot_not_header [of i l] that n by simp
  have head: "?E (lstart l) = ?h" using home_prefix(1) [OF lay, of j "\<lambda>i. B ! i" ?D1] by simp
  have out: "apply_writes ?C ?E m = apply_writes ?C D m" if "m \<notin> log_area l" for m
  proof -
    have "m \<noteq> lstart l" using that by (auto simp: log_area_def)
    then have "?D1 m = D m" using log_writes_outside [OF n that, of ?n "\<lambda>i. B ! i" D] by simp
    then show ?thesis
      unfolding apply_writes_prefix [OF home_writes_distinct [OF lay]] by (rule apply_writes_local)
  qed
  have u': "boots dv p l ?E u" using u unfolding E .
  obtain v where "recover_from_log u = Ret () v" "hdr_n (disk v (lstart l)) = 0" "\<forall>m. m \<notin> log_area l \<longrightarrow> disk v m = apply_writes ?C ?E m"
    using recover_full [OF u' head lay slots] by blast
  then show ?thesis using out by (intro exI [of _ v]) simp
qed

lemma commit_disk_outside:
  assumes lay: "log_layout l (length B)" and m: "m \<notin> log_area l"
  shows "apply_writes (commit_writes l B h) D m = apply_writes (map (\<lambda>i. (home_of l i, B ! i)) [0..<length B]) D m"
proof -
  let ?A = "map (\<lambda>i. (slot_of l i, B ! i)) [0..<length B]"
  have n: "length B \<le> 30" using lay by (simp add: log_layout_def LOGBLOCKS_def MAXOPBLOCKS_def)
  have "m \<noteq> lstart l" using m by (auto simp: log_area_def)
  then have "apply_writes (commit_writes l B h) D m =
      apply_writes (map (\<lambda>i. (home_of l i, B ! i)) [0..<length B]) ((apply_writes ?A D)(lstart l := header (int (length B)) (lhblock (lh l)) h)) m"
    by (simp add: commit_writes_def)
  also have "\<dots> = apply_writes (map (\<lambda>i. (home_of l i, B ! i)) [0..<length B]) D m"
    using log_writes_outside [OF n m, of "length B" "\<lambda>i. B ! i" D] \<open>m \<noteq> lstart l\<close> by (intro apply_writes_local) simp
  finally show ?thesis .
qed


subsection \<open>Properties\<close>

text \<open>
  C1. A transaction survives or vanishes as a whole. In a state where the log lists \<open>length B\<close> distinct
  blocks outside the log, each in a pinned buffer with the contents \<open>B ! i\<close>, and the header on disk is
  empty, \<^verbatim>\<open>commit\<close> returns after a sequence \<open>W\<close> of block writes that puts every \<open>B ! i\<close> to its home
  location. Whenever the machine stops after any prefix of \<open>W\<close>, the recovery of the next start
  (\<^verbatim>\<open>recover_from_log\<close>) returns with an empty header on disk, and every block outside the log is as before
  the commit when at most \<open>length B\<close> writes were made, and as after the commit otherwise.
\<close>

theorem commit_crash_atomic:
  fixes s :: "'z log_state_scheme"
  assumes "staged dv p P l B s" "log_layout l (length B)" "ldev l = dv" "lhn (lh l) = int (length B)" "B \<noteq> []"
    "hdr_n (disk s (lstart l)) = 0"
  shows "\<exists>t W. commit s = Ret () t \<and> dwrites t = dwrites s @ W \<and> length W = 2 * length B + 2
    \<and> disk t = apply_writes W (disk s) \<and> (\<forall>i < length B. disk t (home_of l i) = B ! i)
    \<and> (\<forall>k \<le> length W. \<forall>q (u :: 'z log_state_scheme). boots dv q l (apply_writes (take k W) (disk s)) u \<longrightarrow>
         (\<exists>v. recover_from_log u = Ret () v \<and> hdr_n (disk v (lstart l)) = 0 \<and>
           (\<forall>m. m \<notin> log_area l \<longrightarrow> disk v m = (if k \<le> length B then disk s m else disk t m))))"
proof -
  let ?W = "commit_writes l B (disk s (lstart l))" and ?C = "map (\<lambda>i. (home_of l i, B ! i)) [0..<length B]"
  note lay = assms(2)
  obtain t where t: "commit s = Ret () t" "wrote ?W s t" using commit_ok [OF assms(1-5)] by blast
  then have d: "disk t = apply_writes ?W (disk s)" "dwrites t = dwrites s @ ?W" by (simp_all add: wrote_def)
  have out: "disk t m = apply_writes ?C (disk s) m" if "m \<notin> log_area l" for m
    using commit_disk_outside [OF lay that] d(1) by simp
  have new: "disk t (home_of l i) = B ! i" if "i < length B" for i
    using out [OF home_area [OF lay that]] apply_writes_in [OF home_writes_distinct [OF lay], of "home_of l i" "B ! i"] that by force
  have len: "length ?W = 2 * length B + 2" by (simp add: commit_writes_def)
  have crash: "\<exists>v. recover_from_log u = Ret () v \<and> hdr_n (disk v (lstart l)) = 0 \<and>
      (\<forall>m. m \<notin> log_area l \<longrightarrow> disk v m = (if k \<le> length B then disk s m else disk t m))"
    if k: "k \<le> length ?W" and u: "boots dv q l (apply_writes (take k ?W) (disk s)) u" for k q and u :: "'z log_state_scheme"
  proof -
    consider "k \<le> length B" | "length B < k" "k \<le> 2 * length B + 1" | "k = length ?W" "length B < k" using k len by linarith
    then show ?thesis
    proof cases
      case 1
      then show ?thesis using crash_before_header [OF lay assms(6) 1 u] by simp
    next
      case 2
      then show ?thesis using crash_after_header [OF lay 2 u] out by simp
    next
      case 3
      have "disk t (lstart l) = header 0 (lhblock (lh l)) (header (int (length B)) (lhblock (lh l)) (disk s (lstart l)))"
        unfolding d(1) by (simp add: commit_writes_def)
      then have "hdr_n (disk t (lstart l)) = 0" by (simp add: hdr_n_header)
      moreover have "boots dv q l (disk t) u" using u 3 d(1) by simp
      ultimately show ?thesis using recover_empty [of dv q l "disk t" u] 3 by simp
    qed
  qed
  show ?thesis
    using t(1) d len new
    by (intro exI [of _ t] exI [of _ ?W] conjI) (assumption | (intro allI impI, erule (1) crash) | blast)+
qed


text \<open>Two blocks, 50 and 60, wait in buffers 4 and 9; the log starts at block 2.\<close>

definition demo_staged_buf :: "nat \<Rightarrow> buf" where
  "demo_staged_buf b =
     (if b = 4 then empty_buf\<lparr>valid := True, dev := 1, blockno := 50, refcnt := 1, bdata := (\<lambda>_. 5)\<rparr>
      else if b = 9 then empty_buf\<lparr>valid := True, dev := 1, blockno := 60, refcnt := 1, bdata := (\<lambda>_. 6)\<rparr>
      else empty_buf)"

definition demo_log :: log where
  "demo_log = \<lparr>lstart = 2, outstanding = 0, committing = True, ldev = 1, ncommit = 0,
     lh = \<lparr>lhn = 2, lhblock = (\<lambda>i. if i = 0 then 50 else 60)\<rparr>\<rparr>"

definition demo_staged :: log_state where
  "demo_staged = demo_bio demo_staged_buf (\<lambda>_ _. 0) \<lparr>lg = demo_log\<rparr>"

lemma demo_staged_ok: "staged 1 2 {4, 9} demo_log [\<lambda>_. 5, \<lambda>_. 6] demo_staged"
proof -
  have "bio_ok 1 2 {4, 9} {} demo_staged"
    unfolding demo_staged_def by (rule demo_bio_ok) (auto simp: demo_staged_buf_def empty_buf_def NBUF_def split: if_splits)
  moreover have "lg demo_staged = demo_log"
    unfolding demo_staged_def by (simp add: demo_bio_def)
  moreover have "\<exists>c < NBUF. c \<notin> {4, 9}" by (rule exI [of _ 0]) (simp add: NBUF_def)
  ultimately show ?thesis
    by (auto simp: staged_def demo_staged_def holds_block_def home_of_def demo_log_def demo_staged_buf_def less_Suc_eq)
qed


lemma demo_log_slots: "slot_of demo_log j \<noteq> 50 \<and> slot_of demo_log j \<noteq> 60" if "j < 30"
proof -
  have "unat (3 + of_nat j :: u32) = 3 + j" using that by (simp add: unat_word_ariths unat_of_nat take_bit_nat_eq_self)
  then show ?thesis using that by (auto simp: slot_of_def demo_log_def word_unat_eq_iff)
qed

lemma demo_log_area: "50 \<notin> log_area demo_log" "60 \<notin> log_area demo_log"
  using demo_log_slots by (auto simp: log_area_def LOGBLOCKS_def MAXOPBLOCKS_def demo_log_def)

theorem commit_crash_atomic_witness:
  "\<exists>t W. commit demo_staged = Ret () t \<and> length W = 6 \<and> disk t 60 = (\<lambda>_. 6)
    \<and> (\<forall>k \<le> 6. \<forall>u :: log_state. boots 1 2 demo_log (apply_writes (take k W) (\<lambda>_ _. 0)) u \<longrightarrow>
         (\<exists>v. recover_from_log u = Ret () v \<and> disk v 50 = (if k \<le> 2 then (\<lambda>_. 0) else (\<lambda>_. 5))
            \<and> disk v 60 = (if k \<le> 2 then (\<lambda>_. 0) else (\<lambda>_. 6))))"
proof -
  let ?B = "[\<lambda>_. 5, \<lambda>_. 6] :: block list"
  have lay: "log_layout demo_log (length ?B)"
    using demo_log_slots by (auto simp: log_layout_def LOGBLOCKS_def MAXOPBLOCKS_def home_of_def demo_log_def less_Suc_eq upt_rec)
  have d: "disk demo_staged = (\<lambda>_ _. 0)" by (simp add: demo_staged_def)
  have home: "home_of demo_log 0 = 50" "home_of demo_log (Suc 0) = 60" by (simp_all add: home_of_def demo_log_def)
  have "upt 0 4 = [0, 1, 2, 3]" by (simp add: upt_rec)
  then have h: "hdr_n (disk demo_staged (lstart demo_log)) = 0" by (simp add: d hdr_n_def get32_def)
  have l: "ldev demo_log = 1" "lhn (lh demo_log) = int (length ?B)" "?B \<noteq> []" by (simp_all add: demo_log_def)
  obtain t W where t: "commit demo_staged = Ret () t" "length W = 2 * length ?B + 2"
      "\<forall>i < length ?B. disk t (home_of demo_log i) = ?B ! i"
      "\<forall>k \<le> length W. \<forall>q (u :: log_state). boots 1 q demo_log (apply_writes (take k W) (disk demo_staged)) u \<longrightarrow>
         (\<exists>v. recover_from_log u = Ret () v \<and> hdr_n (disk v (lstart demo_log)) = 0 \<and>
           (\<forall>m. m \<notin> log_area demo_log \<longrightarrow> disk v m = (if k \<le> length ?B then disk demo_staged m else disk t m)))"
    using commit_crash_atomic [OF demo_staged_ok lay l h] by blast
  have new: "disk t 50 = (\<lambda>_. 5)" "disk t 60 = (\<lambda>_. 6)"
    using t(3) [rule_format, of 0] t(3) [rule_format, of 1] by (simp_all add: home)
  have "\<exists>v. recover_from_log u = Ret () v \<and> disk v 50 = (if k \<le> 2 then (\<lambda>_. 0) else (\<lambda>_. 5))
      \<and> disk v 60 = (if k \<le> 2 then (\<lambda>_. 0) else (\<lambda>_. 6))"
    if "k \<le> 6" "boots 1 2 demo_log (apply_writes (take k W) (\<lambda>_ _. 0)) u" for k and u :: log_state
    using t(4) [rule_format, of k 2 u] that demo_log_area new t(2) d by fastforce
  then show ?thesis using t(1,2) new(2) by (intro exI [of _ t] exI [of _ W]) simp
qed

end
