(* ===== verification/Transact.thy ===== *)
theory Transact
  imports Crash
begin

text \<open>
  Transactions (\<^verbatim>\<open>kernel/log.c\<close>, \<^verbatim>\<open>begin_op\<close>, \<^verbatim>\<open>log_write\<close>, \<^verbatim>\<open>end_op\<close>) over the buffer cache and the commit
  of theory Crash: the log's header lists the blocks of the pinned buffers, each once, at most
  \<open>LOGBLOCKS\<close>; the end of the last operation puts the contents of exactly these blocks on the disk.
\<close>

subsection \<open>The invariant of the log\<close>

definition log_view :: "log \<Rightarrow> u32 list" where
  "log_view l = map (home_of l) [0..<nat (lhn (lh l))]"

definition tx_ok :: "u32 \<Rightarrow> nat \<Rightarrow> nat set \<Rightarrow> nat set \<Rightarrow> 'z log_state_scheme \<Rightarrow> bool" where
  "tx_ok dv p P H s \<longleftrightarrow> bio_ok dv p P H s \<and> ldev (lg s) = dv \<and> 0 \<le> lhn (lh (lg s)) \<and> lhn (lh (lg s)) \<le> LOGBLOCKS
     \<and> distinct (log_view (lg s)) \<and> set (log_view (lg s)) = (\<lambda>b. blockno (bufs s b)) ` P
     \<and> set (log_view (lg s)) \<inter> log_area (lg s) = {} \<and> (\<forall>b \<in> P. valid (bufs s b))"

lemma tx_okD:
  assumes "tx_ok dv p P H s"
  shows "bio_ok dv p P H s" "ldev (lg s) = dv" "0 \<le> lhn (lh (lg s))" "lhn (lh (lg s)) \<le> LOGBLOCKS"
    "distinct (log_view (lg s))" "set (log_view (lg s)) = (\<lambda>b. blockno (bufs s b)) ` P"
    "set (log_view (lg s)) \<inter> log_area (lg s) = {}" "b \<in> P \<Longrightarrow> valid (bufs s b)"
  using assms unfolding tx_ok_def by blast+

lemma tx_ok_frame:
  assumes tx: "tx_ok dv p P H s" and t: "bio_ok dv p P H' t" "ldev (lg t) = ldev (lg s)" "lhn (lh (lg t)) = lhn (lh (lg s))"
    "log_view (lg t) = log_view (lg s)" "log_area (lg t) = log_area (lg s)" "\<And>b. bview t b = bview s b"
  shows "tx_ok dv p P H' t"
proof -
  have "valid (bufs t b) = valid (bufs s b)" "blockno (bufs t b) = blockno (bufs s b)" for b
    using bview_eqD [OF t(6)] by simp_all
  then show ?thesis using tx_okD(2-8) [OF tx] t(1-5) unfolding tx_ok_def by simp
qed

lemma content_bview:
  assumes "\<And>b. bview t b = bview s b" "disk t = disk s"
  shows "content dv t m = content dv s m"
  using bview_eqD [OF assms(1)] assms(2) by (simp add: content_def split: option.split)

lemma log_slot_view:
  "log_slot (lh l) n = (case find (\<lambda>i. home_of l i = n) [0..<nat (lhn (lh l))] of Some i \<Rightarrow> i | None \<Rightarrow> nat (lhn (lh l)))"
  by (simp add: log_slot_def home_of_def)

lemma log_slot_in:
  assumes "0 \<le> lhn (lh l)" "n \<in> set (log_view l)"
  shows "int (log_slot (lh l) n) < lhn (lh l)" "lhblock (lh l) (log_slot (lh l) n) = n"
proof -
  obtain i where i: "find (\<lambda>i. home_of l i = n) [0..<nat (lhn (lh l))] = Some i"
    using assms(2) by (cases "find (\<lambda>i. home_of l i = n) [0..<nat (lhn (lh l))]") (auto simp: find_None_iff log_view_def)
  then have "i \<in> set [0..<nat (lhn (lh l))]" "home_of l i = n" by (auto dest: find_SomeD)
  then show "int (log_slot (lh l) n) < lhn (lh l)" "lhblock (lh l) (log_slot (lh l) n) = n"
    using i by (auto simp: log_slot_view home_of_def)
qed

lemma log_slot_new: "n \<notin> set (log_view l) \<Longrightarrow> log_slot (lh l) n = nat (lhn (lh l))"
  by (auto simp: log_slot_view log_view_def find_None_iff split: option.split dest!: find_SomeD)

text \<open>The log after a block was recorded.\<close>

definition record_block :: "u32 \<Rightarrow> log \<Rightarrow> log" where
  "record_block n l = (if n \<in> set (log_view l) then l else set_lhn (lhn (lh l) + 1) (set_lhblock (nat (lhn (lh l))) n l))"

lemma log_view_record:
  assumes "0 \<le> lhn (lh l)"
  shows "log_view (record_block n l) = (if n \<in> set (log_view l) then log_view l else log_view l @ [n])"
proof -
  have "nat (lhn (lh l) + 1) = Suc (nat (lhn (lh l)))" using assms by simp
  then show ?thesis by (simp add: record_block_def log_view_def set_lhn_def set_lhblock_def home_of_def)
qed

lemma record_block_frame [simp]:
  "lstart (record_block n l) = lstart l" "ldev (record_block n l) = ldev l" "outstanding (record_block n l) = outstanding l"
  "committing (record_block n l) = committing l" "log_area (record_block n l) = log_area l"
  "lhn (lh (record_block n l)) = (if n \<in> set (log_view l) then lhn (lh l) else lhn (lh l) + 1)"
  by (simp_all add: record_block_def set_lhn_def set_lhblock_def log_area_def slot_of_def)

lemma logged_pinned:
  assumes tx: "tx_ok dv p P H s" and b: "b \<in> H"
  shows "blockno (bufs s b) \<in> set (log_view (lg s)) \<longleftrightarrow> b \<in> P"
proof -
  note ok = tx_okD(1) [OF tx]
  have on: "c < NBUF \<and> dev (bufs s c) = dv" if "c \<in> P \<or> c \<in> H" for c
  proof -
    have "c < NBUF" using that bio_okD(3,4) [OF ok] by auto
    then show ?thesis using bio_okD(5) [OF ok, of c] that by (auto simp: bok_def)
  qed
  have "b = c" if "c \<in> P" "blockno (bufs s c) = blockno (bufs s b)" for c
    using cached_onceD [OF bio_okD(6) [OF ok], of b c "blockno (bufs s b)"] on [of b] on [of c] that b by (simp add: holds_block_def)
  then show ?thesis unfolding tx_okD(6) [OF tx] by force
qed

lemma upd_log_more [simp]:
  "log_state.more (upd_log f s) = log_state.more s" "log_state.more (upd_buf b g s) = log_state.more s" "lg (upd_buf b g s) = lg s"
  by (simp_all add: upd_log_def upd_buf_def)

lemma same_lhblock [simp]: "lhblock (lh l) i = n \<Longrightarrow> set_lhblock i n l = l"
  by (auto simp: set_lhblock_def intro!: log.equality logheader.equality)

lemma upd_log_id [simp]: "upd_log (set_lhblock i n) s = s" if "lhblock (lh (lg s)) i = n"
  using that by (simp add: upd_log_def)

lemma log_write_eq:
  assumes tx: "tx_ok dv p P H s" and b: "b \<in> H" and full: "lhn (lh (lg s)) < LOGBLOCKS" and op: "1 \<le> outstanding (lg s)"
  shows "log_write b s = Ret () ((upd_log (record_block (blockno (bufs s b)))
     (if b \<in> P then s else upd_buf b (\<lambda>v. v\<lparr>refcnt := refcnt v + 1\<rparr>) s))\<lparr>core := touch (core s)\<rparr>)"
proof -
  note c = quietD(1,2) [OF bio_okD(1) [OF tx_okD(1) [OF tx]]]
  note lp = logged_pinned [OF tx b]
  let ?n = "blockno (bufs s b)"
  show ?thesis
  proof (cases "b \<in> P")
    case True
    then have n: "?n \<in> set (log_view (lg s))" using lp by simp
    note i = log_slot_in [OF tx_okD(3) [OF tx] n]
    then show ?thesis using True n c full op
      by (simp add: log_write_def kstep kwhen_def kret_def Let_def record_block_def) (simp add: upd_log_def record_block_def)
  next
    case False
    then have n: "?n \<notin> set (log_view (lg s))" using lp by simp
    note i = log_slot_new [OF n]
    then show ?thesis using False n c full op tx_okD(3) [OF tx]
      by (simp add: log_write_def kstep kwhen_def kret_def Let_def record_block_def bpin_def) (simp add: upd_log_def upd_buf_def set_lhn_def set_lhblock_def record_block_def)
  qed
qed


lemma bio_ok_pin:
  assumes ok: "bio_ok dv p P H s" and b: "b \<in> H"
  shows "bio_ok dv p (insert b P) H (if b \<in> P then s else upd_buf b (\<lambda>v. v\<lparr>refcnt := refcnt v + 1\<rparr>) s)"
proof (cases "b \<in> P")
  case True
  then show ?thesis using ok by (simp add: insert_absorb)
next
  case False
  have bN: "b < NBUF" using b bio_okD(4) [OF ok] by auto
  have bb: "bok dv p P H s b" using bio_okD(5) [OF ok bN] .
  have "upd_buf b (\<lambda>v. v\<lparr>refcnt := refcnt v + 1\<rparr>) s = upd_buf b (\<lambda>v. v\<lparr>refcnt := 2\<rparr>) s"
    using bb b False by (simp add: upd_buf_def bok_def)
  moreover have "bio_ok dv p (insert b P) H (upd_buf b (\<lambda>v. v\<lparr>refcnt := 2\<rparr>) s)"
    using bio_okD(3) [OF ok] bb b bN by (intro bio_ok_count [OF ok bN]) (auto simp: bok_def)
  ultimately show ?thesis using False by simp
qed

text \<open>What recording a block in the log does to the invariant.\<close>

lemma log_write_tx:
  assumes tx: "tx_ok dv p P H s" and b: "b \<in> H" "valid (bufs s b)" and full: "lhn (lh (lg s)) < LOGBLOCKS" and op: "1 \<le> outstanding (lg s)"
    and out: "blockno (bufs s b) \<notin> log_area (lg s)"
  shows "\<exists>t. log_write b s = Ret () t \<and> tx_ok dv p (insert b P) H t \<and> lg t = record_block (blockno (bufs s b)) (lg s)
    \<and> bview t = bview s \<and> disk t = disk s \<and> dwrites t = dwrites s \<and> log_state.more t = log_state.more s"
proof -
  let ?n = "blockno (bufs s b)"
  let ?u = "if b \<in> P then s else upd_buf b (\<lambda>v. v\<lparr>refcnt := refcnt v + 1\<rparr>) s"
  let ?t = "(upd_log (record_block ?n) ?u)\<lparr>core := touch (core s)\<rparr>"
  have u: "lg ?u = lg s" "core ?u = core s" "disk ?u = disk s" "dwrites ?u = dwrites s" "log_state.more ?u = log_state.more s"
    by (simp_all add: upd_buf_def)
  have bv: "bview ?t = bview s" by (auto simp: bview_def fun_eq_iff)
  have ok: "bio_ok dv p (insert b P) H ?t"
    using bio_ok_pin [OF tx_okD(1) [OF tx] b(1)] bio_ok_core [of dv p "insert b P" H "upd_log (record_block ?n) ?u"] u by simp
  have vt: "valid (bufs ?t c) = valid (bufs s c)" "blockno (bufs ?t c) = blockno (bufs s c)" for c
    using bview_eqD [of ?t c s] bv by simp_all
  have lgt: "lg ?t = record_block ?n (lg s)" using u by simp
  have view: "log_view (lg ?t) = (if ?n \<in> set (log_view (lg s)) then log_view (lg s) else log_view (lg s) @ [?n])"
    using log_view_record [OF tx_okD(3) [OF tx]] lgt by simp
  have "set (log_view (lg ?t)) = insert ?n (set (log_view (lg s)))" unfolding view by auto
  then have "set (log_view (lg ?t)) = (\<lambda>b. blockno (bufs ?t b)) ` insert b P" "set (log_view (lg ?t)) \<inter> log_area (lg ?t) = {}"
    using tx_okD(6,7) [OF tx] vt out lgt by auto
  moreover have "distinct (log_view (lg ?t))" using tx_okD(5) [OF tx] unfolding view by auto
  ultimately have "tx_ok dv p (insert b P) H ?t"
    using ok tx_okD(2-4,8) [OF tx] full b(2) lgt vt by (simp add: tx_ok_def)
  then show ?thesis using log_write_eq [OF tx b(1) full op] lgt bv u by (intro exI [of _ ?t]) simp
qed


subsection \<open>The end of a transaction\<close>

lemma tx_layout:
  assumes tx: "tx_ok dv p P H s"
  shows "log_layout (lg s) (nat (lhn (lh (lg s))))"
proof -
  have "home_of (lg s) i \<notin> log_area (lg s)" if "i < nat (lhn (lh (lg s)))" for i
    using tx_okD(7) [OF tx] that by (fastforce simp: log_view_def)
  then show ?thesis using tx_okD(3-5) [OF tx] by (auto simp: log_layout_def log_area_def log_view_def)
qed

lemma tx_staged:
  assumes tx: "tx_ok dv p P {} s" and room: "\<exists>c < NBUF. c \<notin> P"
  shows "staged dv p P (lg s) (map (content dv s) (log_view (lg s))) s"
proof -
  note ok = tx_okD(1) [OF tx]
  have on: "c < NBUF \<and> dev (bufs s c) = dv" if "c \<in> P" for c
  proof -
    have "c < NBUF" using that bio_okD(3) [OF ok] by auto
    then show ?thesis using bio_okD(5) [OF ok, of c] that by (auto simp: bok_def)
  qed
  have "\<exists>b \<in> P. holds_block dv (home_of (lg s) i) s b \<and> valid (bufs s b) \<and> bdata (bufs s b) = content dv s (home_of (lg s) i)"
    if "i < nat (lhn (lh (lg s)))" for i
  proof -
    have "home_of (lg s) i \<in> (\<lambda>b. blockno (bufs s b)) ` P" using tx_okD(6) [OF tx] that by (auto simp: log_view_def)
    then obtain b where b: "b \<in> P" "blockno (bufs s b) = home_of (lg s) i" by auto
    then have h: "holds_block dv (home_of (lg s) i) s b" using on [of b] by (simp add: holds_block_def)
    from content_cached [OF bio_okD(6) [OF ok] _ h tx_okD(8) [OF tx b(1)]] on [OF b(1)]
    show ?thesis using b(1) h tx_okD(8) [OF tx b(1)] by auto
  qed
  moreover have "\<exists>i < nat (lhn (lh (lg s))). holds_block dv (home_of (lg s) i) s c" if "c \<in> P" for c
  proof -
    have "blockno (bufs s c) \<in> set (log_view (lg s))" using tx_okD(6) [OF tx] that by auto
    then show ?thesis using on [OF that] by (auto simp: log_view_def holds_block_def)
  qed
  ultimately show ?thesis using ok room by (simp add: staged_def log_view_def)
qed

lemma home_write_at:
  assumes "log_layout l n" "i < n"
  shows "apply_writes (map (\<lambda>i. (home_of l i, f i)) [0..<n]) D (home_of l i) = f i"
  by (rule apply_writes_in [OF home_writes_distinct [OF assms(1)]]) (use assms(2) in force)

text \<open>
  The effect of \<^verbatim>\<open>commit\<close> on a log in its invariant: the pinned buffers are free again, and every listed
  block is on the disk as the cache had it.
\<close>

lemma commit_tx:
  assumes tx: "tx_ok dv p P {} s" and room: "\<exists>c < NBUF. c \<notin> P"
  shows "\<exists>t. commit s = Ret () t \<and> tx_ok dv p {} {} t \<and> lg t = set_lhn 0 (lg s)
    \<and> (\<forall>m. m \<notin> log_area (lg s) \<longrightarrow> disk t m = content dv s m)
    \<and> (lhn (lh (lg s)) = 0 \<longrightarrow> t = s) \<and> (lhn (lh (lg s)) \<noteq> 0 \<longrightarrow> hdr_n (disk t (lstart (lg s))) = 0)"
proof -
  let ?l = "lg s" let ?B = "map (content dv s) (log_view ?l)"
  have len: "int (length ?B) = lhn (lh ?l)" using tx_okD(3) [OF tx] by (simp add: log_view_def)
  have clean: "content dv s m = disk s m" if "m \<notin> set (log_view ?l)" for m
    using that tx_okD(6) [OF tx] by (intro content_disk [OF tx_okD(1) [OF tx]]) (auto simp: holds_block_def)
  show ?thesis
  proof (cases "?B = []")
    case True
    then have n: "lhn (lh ?l) = 0" "log_view ?l = []" using len by auto
    then have "P = {}" using tx_okD(6) [OF tx] by auto
    moreover have "set_lhn 0 ?l = ?l" using n by (simp add: set_lhn_def)
    ultimately show ?thesis using tx n clean by (intro exI [of _ s]) (simp add: commit_def kwhen_def kret_def)
  next
    case False
    have lay: "log_layout ?l (length ?B)" using tx_layout [OF tx] by (simp add: log_view_def)
    obtain t where t: "commit s = Ret () t" "bio_ok dv p {} {} t" "lg t = set_lhn 0 ?l" "wrote (commit_writes ?l ?B (disk s (lstart ?l))) s t"
      using commit_ok [OF tx_staged [OF tx room] lay tx_okD(2) [OF tx] _ False] len by auto
    have "disk t m = content dv s m" if "m \<notin> log_area ?l" for m
    proof -
      have d: "disk t m = apply_writes (map (\<lambda>i. (home_of ?l i, ?B ! i)) [0..<length ?B]) (disk s) m"
        using t(4) commit_disk_outside [OF lay that] by (simp add: wrote_def)
      show ?thesis
      proof (cases "m \<in> set (log_view ?l)")
        case True
        then obtain i where i: "i < length ?B" "home_of ?l i = m" by (auto simp: log_view_def)
        then have e: "content dv s m = ?B ! i" by (simp add: log_view_def)
        show ?thesis unfolding d e using home_write_at [OF lay i(1), of "\<lambda>i. ?B ! i" "disk s"] unfolding i(2) .
      next
        case False
        then have "m \<notin> fst ` set (map (\<lambda>i. (home_of ?l i, ?B ! i)) [0..<length ?B])" by (auto simp: log_view_def)
        then show ?thesis unfolding d clean [OF False] by (rule apply_writes_other)
      qed
    qed
    moreover have "hdr_n (disk t (lstart ?l)) = 0" using t(4) by (simp add: wrote_def commit_writes_def hdr_n_header)
    moreover have "tx_ok dv p {} {} t" using t(2,3) tx_okD(2) [OF tx] by (simp add: tx_ok_def log_view_def LOGBLOCKS_def MAXOPBLOCKS_def)
    ultimately show ?thesis using t(1,3) False len by (intro exI [of _ t]) auto
  qed
qed


subsection \<open>Waking up\<close>

text \<open>The lock of the log is free or held by this process while it wakes others; the cache does not notice.\<close>

lemma wakeup_eff_bio [simp]:
  "bufs (wakeup_eff ch s) = bufs s" "disk (wakeup_eff ch s) = disk s" "dwrites (wakeup_eff ch s) = dwrites s"
  "slocks (wakeup_eff ch s) = slocks s" "sfuel (wakeup_eff ch s) = sfuel s" "bio_state.more (wakeup_eff ch s) = bio_state.more s"
  using pipe_more_bio [OF wakeup_eff_pipes(2), of ch s] by simp_all

lemma wakeup_eff_core [simp]:
  "(wakeup_eff ch (s\<lparr>core := c\<rparr>))\<lparr>core := c'\<rparr> = (wakeup_eff ch s)\<lparr>core := c'\<rparr>"
proof -
  have "fold (wake_eff ch) ps (s\<lparr>core := c\<rparr>) = (fold (wake_eff ch) ps s)\<lparr>core := c\<rparr>" for ps
    by (induction ps arbitrary: s) simp_all
  then show ?thesis by (simp add: wakeup_eff_def)
qed

lemma bio_ok_wakeup:
  assumes ok: "bio_ok dv p P H s"
  shows "bio_ok dv p P H ((wakeup_eff ch s)\<lparr>core := touch (core s)\<rparr>)"
proof -
  let ?t = "(wakeup_eff ch s)\<lparr>core := touch (core s)\<rparr>"
  note q = bio_okD(1) [OF ok]
  have tab: "table_ok s" "p < NPROC" using q by (simp_all add: quiet_def)
  have pid: "pid (procs ?t p) = pid (procs s p)" using wakeup_eff_ok(2) [OF tab, of ch] by simp
  have "quiet p ?t" using q wakeup_eff_ok(1) [OF tab(1), of ch] by (simp add: quiet_def)
  moreover have "bring ?t bs = bring s bs" for bs by (intro bring_cong) (auto simp: nxt_def prv_def fun_eq_iff)
  moreover have "bok dv p P H ?t b = bok dv p P H s b" for b using pid by (simp add: bok_def)
  moreover have "cached_once dv ?t = cached_once dv s" by (simp add: cached_once_def holds_block_def)
  ultimately show ?thesis using ok by (simp add: bio_ok_def)
qed


text \<open>The state after the last operation of a transaction has committed.\<close>

lemma end_op_tx:
  assumes tx: "tx_ok dv p P {} s" and room: "\<exists>c < NBUF. c \<notin> P" and op: "outstanding (lg s) = 1" "\<not> committing (lg s)"
  shows "\<exists>t. end_op s = Ret () t \<and> tx_ok dv p {} {} t \<and> log_view (lg t) = [] \<and> outstanding (lg t) = 0 \<and> \<not> committing (lg t)
    \<and> lstart (lg t) = lstart (lg s) \<and> ncommit (lg t) = ncommit (lg s) + 1
    \<and> (\<forall>m. m \<notin> log_area (lg s) \<longrightarrow> disk t m = content dv s m)"
proof -
  let ?l1 = "(lg s)\<lparr>outstanding := 0, committing := True\<rparr>"
  let ?u = "(upd_log (\<lambda>_. ?l1) s)\<lparr>core := touch (core s)\<rparr>"
  note c = quietD(1,2) [OF bio_okD(1) [OF tx_okD(1) [OF tx]]]
  have v1: "log_view ?l1 = log_view (lg s)" "log_area ?l1 = log_area (lg s)"
    by (simp_all add: log_view_def home_of_def log_area_def slot_of_def)
  have "bio_ok dv p P {} ?u" using tx_okD(1) [OF tx] bio_ok_core [of dv p P "{}" "upd_log (\<lambda>_. ?l1) s"] by simp
  then have txu: "tx_ok dv p P {} ?u" by (rule tx_ok_frame [OF tx]) (simp_all add: v1 bview_def)
  have cont: "content dv ?u m = content dv s m" for m by (rule content_bview) (simp_all add: bview_def)
  obtain t where t: "commit ?u = Ret () t" "tx_ok dv p {} {} t" "lg t = set_lhn 0 ?l1"
      "\<forall>m. m \<notin> log_area (lg s) \<longrightarrow> disk t m = content dv s m"
    using commit_tx [OF txu room] by (auto simp: v1 cont)
  note ct = quietD(1,2,4) [OF bio_okD(1) [OF tx_okD(1) [OF t(2)]]]
  let ?l2 = "set_lhn 0 ((lg s)\<lparr>outstanding := 0, committing := False, ncommit := ncommit (lg s) + 1\<rparr>)"
  let ?w = "upd_log (\<lambda>_. ?l2) t"
  let ?v = "(wakeup_eff (Some ChLog) ?w)\<lparr>core := touch (core ?w)\<rparr>"
  have "bio_ok dv p {} {} ?v" using tx_okD(1) [OF t(2)] by (intro bio_ok_wakeup) simp
  moreover have lv: "lg ?v = ?l2" using lg_more [of "wakeup_eff (Some ChLog) ?w" ?w] by simp
  ultimately have "tx_ok dv p {} {} ?v"
    using tx_okD(2) [OF tx] by (simp add: tx_ok_def log_view_def LOGBLOCKS_def MAXOPBLOCKS_def)
  moreover have "end_op s = Ret () ?v"
  proof -
    have w: "wakeup (Some ChLog) (?w\<lparr>core := c_acq LogLock (core t)\<rparr>) = Ret () (wakeup_eff (Some ChLog) (?w\<lparr>core := c_acq LogLock (core t)\<rparr>))"
      using quietD [OF bio_okD(1) [OF tx_okD(1) [OF t(2)]]] by (intro wakeup_eq) simp_all
    have l: "(lg t)\<lparr>committing := False, ncommit := ncommit (lg t) + 1\<rparr> = ?l2" by (simp add: t(3) set_lhn_def)
    have u1: "upd_log (\<lambda>l. l\<lparr>committing := True\<rparr>) (upd_log (\<lambda>l. l\<lparr>outstanding := outstanding l - 1\<rparr>) s) = upd_log (\<lambda>_. ?l1) s"
      using op by (simp add: upd_log_def)
    have sw: "t\<lparr>core := a, lg := b\<rparr> = t\<lparr>lg := b, core := a\<rparr>" for a b by simp
    show ?thesis using c ct op t(1) w l u1
      by (simp add: end_op_def kstep kwhen_def upd_log_def sw)
  qed
  ultimately show ?thesis using t(4) lv by (intro exI [of _ ?v]) (simp add: log_view_def set_lhn_def)
qed


subsection \<open>Read, change, log, release\<close>

text \<open>
  The shape of \<^verbatim>\<open>bzero\<close>, \<^verbatim>\<open>iupdate\<close> and of the changes to the bitmap: read block \<open>n\<close>, change its bytes by \<open>f\<close>,
  record it in the log, release the buffer.
\<close>

definition logged_update :: "u32 \<Rightarrow> u32 \<Rightarrow> (block \<Rightarrow> block) \<Rightarrow> 'z log_state_scheme \<Rightarrow> ('z log_state_scheme, unit) kres" where
  "logged_update d n f =
     kbind (bread d n) (\<lambda>b.
     kseq (kmod (upd_buf b (\<lambda>v. v\<lparr>bdata := f (bdata v)\<rparr>))) (
     kseq (log_write b) (
     brelse b)))"

lemma more_lg: "bio_state.more t = bio_state.more s \<Longrightarrow> log_state.more t = log_state.more (s :: 'z log_state_scheme)"
  by (cases t; cases s; simp)

lemma content_other:
  assumes tx: "tx_ok dv p P {} s" and ok: "bio_ok dv p P {b} t" and b: "\<not> holds_block dv m t b" "b \<in> P \<Longrightarrow> \<not> holds_block dv m s b"
    and t: "\<And>c. c \<noteq> b \<Longrightarrow> bufs t c = bufs s c" "disk t = disk s"
  shows "content dv t m = content dv s m"
proof (cases "\<exists>c \<in> P. holds_block dv m s c")
  case True
  then obtain c where c: "c \<in> P" "holds_block dv m s c" by blast
  then have "c \<noteq> b" "c < NBUF" using b(2) bio_okD(3) [OF ok] by auto
  then show ?thesis
    using content_cached [OF bio_okD(6) [OF ok], of c m] content_cached [OF bio_okD(6) [OF tx_okD(1) [OF tx]], of c m] c t(1) [of c] tx_okD(8) [OF tx c(1)]
    by (simp add: holds_block_def)
next
  case False
  have "\<not> holds_block dv m t c" if "c \<in> P" for c using False that b(1) t(1) [of c] by (cases "c = b") (auto simp: holds_block_def)
  then have "content dv t m = disk t m" using b(1) by (intro content_disk [OF ok]) auto
  moreover have "content dv s m = disk s m" using False by (intro content_disk [OF tx_okD(1) [OF tx]]) auto
  ultimately show ?thesis using t(2) by simp
qed

lemma bread_tx:
  assumes tx: "tx_ok dv p P {} s" and room: "\<exists>c < NBUF. c \<notin> P"
  shows "\<exists>b t. bread dv n s = Ret b t \<and> b < NBUF \<and> tx_ok dv p P {b} t \<and> reads dv n s b t \<and> (b \<in> P \<longrightarrow> holds_block dv n s b)
    \<and> lg t = lg s \<and> log_state.more t = log_state.more s"
proof -
  obtain b t where t: "bread dv n s = Ret b t" "b < NBUF" "bio_ok dv p P {b} t" "reads dv n s b t" "b \<in> P \<longrightarrow> holds_block dv n s b"
    using bread_ok [OF tx_okD(1) [OF tx], of n] room by auto
  note rd = readsD [OF t(4)]
  have lg: "lg t = lg s" "log_state.more t = log_state.more s"
    using lg_more [OF rd(7)] more_lg [OF rd(7)] by simp_all
  have keep: "holds_block dv m t c = holds_block dv m s c" "valid (bufs t c)" if "c \<in> P" for c m
    using that t(5) rd(1,2) rd(4) [of c] tx_okD(8) [OF tx that] by (cases "c = b"; auto simp: holds_block_def)+
  have on: "c < NBUF \<and> dev (bufs s c) = dv" if "c \<in> P" for c
    using bio_okD(3) [OF tx_okD(1) [OF tx]] bio_okD(5) [OF tx_okD(1) [OF tx], of c] that by (auto simp: bok_def)
  have "blockno (bufs t c) = blockno (bufs s c)" if "c \<in> P" for c
    using keep(1) [OF that, of "blockno (bufs s c)"] on [OF that] by (simp add: holds_block_def)
  then have "(\<lambda>c. blockno (bufs t c)) ` P = (\<lambda>c. blockno (bufs s c)) ` P" by (intro image_cong) simp_all
  then have "tx_ok dv p P {b} t"
    using t(3) tx_okD(2-7) [OF tx] keep(2) lg unfolding tx_ok_def by simp
  then show ?thesis using t lg by blast
qed

lemma logged_update_tx:
  assumes tx: "tx_ok dv p P {} s" and room: "\<exists>c < NBUF. c \<notin> P" and full: "lhn (lh (lg s)) < LOGBLOCKS" and op: "1 \<le> outstanding (lg s)"
    and out: "n \<notin> log_area (lg s)"
  shows "\<exists>b t. logged_update dv n f s = Ret () t \<and> tx_ok dv p (insert b P) {} t \<and> lg t = record_block n (lg s)
    \<and> (\<forall>m. content dv t m = (if m = n then f (content dv s n) else content dv s m)) \<and> disk t = disk s
    \<and> log_state.more t = log_state.more s"
proof -
  obtain b t1 where t1: "bread dv n s = Ret b t1" "b < NBUF" "tx_ok dv p P {b} t1" "reads dv n s b t1" "b \<in> P \<longrightarrow> holds_block dv n s b"
      "lg t1 = lg s" "log_state.more t1 = log_state.more s"
    using bread_tx [OF tx room] by blast
  note rd = readsD [OF t1(4)] and lg1 = t1(6,7)
  let ?t2 = "upd_buf b (\<lambda>v. v\<lparr>bdata := f (bdata v)\<rparr>) t1"
  have "?t2 = upd_buf b (\<lambda>v. v\<lparr>bdata := f (bdata (bufs t1 b))\<rparr>) t1" by (simp add: upd_buf_def)
  then have ok2: "bio_ok dv p P {b} ?t2" using bio_ok_data [OF tx_okD(1) [OF t1(3)], of b] by simp
  have same: "blockno (bufs ?t2 c) = blockno (bufs t1 c)" "valid (bufs ?t2 c) = valid (bufs t1 c)" for c by simp_all
  have "tx_ok dv p P {b} ?t2"
    using ok2 tx_okD(2-8) [OF t1(3)] unfolding tx_ok_def same by simp
  from log_write_tx [OF this, of b] obtain t3 where t3: "log_write b ?t2 = Ret () t3" "tx_ok dv p (insert b P) {b} t3"
      "lg t3 = record_block n (lg s)" "bview t3 = bview ?t2" "disk t3 = disk s" "log_state.more t3 = log_state.more s"
    using rd lg1 full op out by (auto simp: holds_block_def)
  obtain t4 where t4: "brelse b t3 = Ret () t4" "bio_ok dv p (insert b P) ({b} - {b}) t4" "bview t4 = bview t3" "disk t4 = disk t3"
      "bio_state.more t4 = bio_state.more t3"
    using brelse_ok [OF tx_okD(1) [OF t3(2)], of b] by auto
  have tx4: "tx_ok dv p (insert b P) {} t4"
    by (rule tx_ok_frame [OF t3(2)]) (use t4 lg_more [OF t4(5)] in simp_all)
  have cont: "content dv t4 m = content dv ?t2 m" for m
    using t3(4,5) t4(3,4) rd(5) by (intro content_bview) simp_all
  have n: "content dv ?t2 n = f (content dv s n)"
    using content_cached [OF bio_okD(6) [OF ok2] t1(2), of n] rd(1-3) by (simp add: holds_block_def)
  have other: "content dv ?t2 m = content dv s m" if "m \<noteq> n" for m
    by (rule content_other [OF tx ok2]) (use that rd t1(5) in \<open>auto simp: holds_block_def\<close>)
  have "logged_update dv n f s = Ret () t4" using t1(1) t3(1) t4(1) by (simp add: logged_update_def kstep)
  then show ?thesis using tx4 t3(3,5,6) t4(4) cont n other lg_more [OF t4(5)] more_lg [OF t4(5)]
    by (intro exI [of _ b] exI [of _ t4]) simp
qed


subsection \<open>The start of an operation\<close>

definition starts_op :: "log \<Rightarrow> log" where
  "starts_op l = l\<lparr>outstanding := outstanding l + 1\<rparr>"

lemma begin_op_eq:
  assumes q: "quiet p s" and c: "\<not> committing (lg s)" and room: "lhn (lh (lg s)) + (outstanding (lg s) + 1) * MAXOPBLOCKS \<le> LOGBLOCKS"
  shows "begin_op s = Ret () ((upd_log starts_op s)\<lparr>core := touch (core s)\<rparr>)"
proof -
  obtain k where k: "sfuel s = Suc k" using quietD(5) [OF q] by (cases "sfuel s") auto
  show ?thesis using quietD(1,2) [OF q] c room k
    by (simp add: begin_op_def kstep starts_op_def [abs_def]) (simp add: upd_log_def starts_op_def)
qed

lemma starts_op_simps [simp]:
  "log_view (starts_op l) = log_view l" "log_area (starts_op l) = log_area l" "lhn (lh (starts_op l)) = lhn (lh l)"
  "ldev (starts_op l) = ldev l" "lstart (starts_op l) = lstart l" "outstanding (starts_op l) = outstanding l + 1"
  "committing (starts_op l) = committing l" "ncommit (starts_op l) = ncommit l"
  by (simp_all add: starts_op_def log_view_def home_of_def log_area_def slot_of_def)

lemma begin_op_tx:
  assumes tx: "tx_ok dv p P {} s" and c: "\<not> committing (lg s)" and room: "lhn (lh (lg s)) + (outstanding (lg s) + 1) * MAXOPBLOCKS \<le> LOGBLOCKS"
  shows "\<exists>t. begin_op s = Ret () t \<and> tx_ok dv p P {} t \<and> lg t = starts_op (lg s) \<and> bview t = bview s \<and> disk t = disk s
    \<and> log_state.more t = log_state.more s"
proof -
  let ?t = "(upd_log starts_op s)\<lparr>core := touch (core s)\<rparr>"
  have "bio_ok dv p P {} ?t" using tx_okD(1) [OF tx] bio_ok_core [of dv p P "{}" "upd_log starts_op s"] by simp
  then have "tx_ok dv p P {} ?t" by (rule tx_ok_frame [OF tx]) (simp_all add: bview_def)
  then show ?thesis using begin_op_eq [OF bio_okD(1) [OF tx_okD(1) [OF tx]] c room]
    by (intro exI [of _ ?t]) (simp add: bview_def fun_eq_iff)
qed

text \<open>A whole operation that changes one block.\<close>

lemma one_block_operation:
  assumes tx: "tx_ok dv p {} {} s" and idle: "outstanding (lg s) = 0" "\<not> committing (lg s)" and out: "n \<notin> log_area (lg s)"
  shows "\<exists>t. kseq begin_op (kseq (logged_update dv n f) end_op) s = Ret () t \<and> tx_ok dv p {} {} t \<and> outstanding (lg t) = 0
    \<and> \<not> committing (lg t) \<and> (\<forall>m. m \<notin> log_area (lg s) \<longrightarrow> disk t m = (if m = n then f (disk s n) else disk s m))"
proof -
  have e: "log_view (lg s) = []" using tx_okD(6) [OF tx] by simp
  then have h: "lhn (lh (lg s)) = 0" using tx_okD(3) [OF tx] by (simp add: log_view_def)
  obtain t1 where t1: "begin_op s = Ret () t1" "tx_ok dv p {} {} t1" "lg t1 = starts_op (lg s)" "bview t1 = bview s" "disk t1 = disk s"
    using begin_op_tx [OF tx idle(2)] idle h by (auto simp: LOGBLOCKS_def MAXOPBLOCKS_def)
  obtain b t2 where t2: "logged_update dv n f t1 = Ret () t2" "tx_ok dv p {b} {} t2" "lg t2 = record_block n (lg t1)"
      "\<forall>m. content dv t2 m = (if m = n then f (content dv t1 n) else content dv t1 m)"
    using logged_update_tx [OF t1(2) room0, of n f] t1(3) idle h out by (auto simp: LOGBLOCKS_def MAXOPBLOCKS_def)
  have c: "content dv t1 m = disk s m" for m using content_disk [OF tx_okD(1) [OF t1(2)], of m] t1(5) by simp
  have room: "\<exists>c < NBUF. c \<notin> {b}" by (rule exI [of _ "if b = 0 then 1 else 0"]) (simp add: NBUF_def)
  obtain t3 where t3: "end_op t2 = Ret () t3" "tx_ok dv p {} {} t3" "outstanding (lg t3) = 0" "\<not> committing (lg t3)"
      "\<forall>m. m \<notin> log_area (lg s) \<longrightarrow> disk t3 m = content dv t2 m"
    using end_op_tx [OF t2(2) room] t2(3) t1(3) idle by auto
  then show ?thesis using t1(1) t2(1,4) c by (intro exI [of _ t3]) simp
qed


lemma fs_more: "log_state.more t = log_state.more (s :: 'z fs_state_scheme) \<Longrightarrow> itab t = itab s \<and> sb t = sb s"
  by (cases t; cases s) simp

lemma iupdate_logged:
  "iupdate ip s = logged_update (i_dev (itab s ip)) (IBLOCK (i_inum (itab s ip)) (sb s)) (din_put (i_inum (itab s ip)) (itab s ip)) s"
  by (simp add: iupdate_def logged_update_def set_data_def)

lemma bzero_logged: "bzero d n = logged_update d n (\<lambda>_ _. 0)"
  by (simp add: bzero_def logged_update_def set_data_def fun_eq_iff)

subsection \<open>Properties\<close>

text \<open>
  C6. Recording a block: inside an operation and with room in the header, \<^verbatim>\<open>log_write\<close> of a held buffer
  returns; its block is in the header once (a block that is there already is absorbed, another is
  appended), the buffer is pinned, at most \<open>LOGBLOCKS\<close> distinct blocks outside the log are listed and
  they are exactly the blocks of the pinned buffers; no contents change and nothing goes to the disk.
\<close>

theorem log_write_absorbs:
  assumes "tx_ok dv p P H s" "b \<in> H" "valid (bufs s b)" "lhn (lh (lg s)) < LOGBLOCKS" "1 \<le> outstanding (lg s)"
    "blockno (bufs s b) \<notin> log_area (lg s)"
  shows "\<exists>t. log_write b s = Ret () t \<and> tx_ok dv p (insert b P) H t \<and>
    log_view (lg t) = (if blockno (bufs s b) \<in> set (log_view (lg s)) then log_view (lg s) else log_view (lg s) @ [blockno (bufs s b)]) \<and>
    (\<forall>c. bview t c = bview s c) \<and> disk t = disk s \<and> dwrites t = dwrites s"
  using log_write_tx [OF assms] log_view_record [OF tx_okD(3) [OF assms(1)]] by fastforce

text \<open>Two blocks are logged, in buffers 4 and 9; process 2 holds buffer 4 and writes it again.\<close>

definition demo_tx :: log_state where
  "demo_tx = upd_log (\<lambda>l. l\<lparr>outstanding := 1, committing := False\<rparr>) demo_staged"

lemma demo_tx_ok: "tx_ok 1 2 {4, 9} {} demo_tx"
proof -
  have "bio_ok 1 2 {4, 9} {} demo_tx" using demo_staged_ok by (simp add: demo_tx_def staged_def)
  moreover have lg: "lg demo_tx = demo_log\<lparr>outstanding := 1, committing := False\<rparr>"
    using demo_staged_ok by (simp add: demo_tx_def staged_def)
  moreover have view: "log_view (lg demo_tx) = [50, 60]"
    by (simp add: lg log_view_def home_of_def demo_log_def upt_rec)
  moreover have "log_area (lg demo_tx) = log_area demo_log" by (simp add: lg log_area_def slot_of_def)
  moreover have "blockno (bufs demo_tx 4) = 50" "blockno (bufs demo_tx 9) = 60" "valid (bufs demo_tx 4)" "valid (bufs demo_tx 9)"
    by (simp_all add: demo_tx_def demo_staged_def demo_staged_buf_def)
  ultimately show ?thesis using demo_log_area by (auto simp: tx_ok_def demo_log_def LOGBLOCKS_def MAXOPBLOCKS_def)
qed


theorem log_write_absorbs_witness:
  "\<exists>b t u. bread 1 50 demo_tx = Ret b t \<and> log_write b t = Ret () u \<and> log_view (lg u) = [50, 60]"
proof -
  have "\<exists>c < NBUF. c \<notin> {4, 9}" by (rule exI [of _ 0]) (simp add: NBUF_def)
  from bread_tx [OF demo_tx_ok this, of 50] obtain b t
    where t: "bread 1 50 demo_tx = Ret b t" "tx_ok 1 2 {4, 9} {b} t" "reads 1 50 demo_tx b t" "lg t = lg demo_tx" by blast
  have lg: "lg t = demo_log\<lparr>outstanding := 1, committing := False\<rparr>"
    using demo_staged_ok t(4) by (simp add: demo_tx_def staged_def)
  have view: "log_view (lg t) = [50, 60]" by (simp add: lg log_view_def home_of_def demo_log_def upt_rec)
  have area: "log_area (lg t) = log_area demo_log" by (simp add: lg log_area_def slot_of_def)
  have "blockno (bufs t b) = 50" "valid (bufs t b)" using readsD(1,2) [OF t(3)] by (simp_all add: holds_block_def)
  then obtain u where "log_write b t = Ret () u" "log_view (lg u) = [50, 60]"
    using log_write_absorbs [OF t(2), of b] demo_log_area area view
    by (auto simp: lg demo_log_def LOGBLOCKS_def MAXOPBLOCKS_def)
  then show ?thesis using t(1) by blast
qed

text \<open>
  C5. An operation reaches the disk: with an idle log, \<^verbatim>\<open>begin_op\<close>, \<^verbatim>\<open>iupdate\<close>, \<^verbatim>\<open>end_op\<close> in this order
  return; afterwards the inode's block on the disk holds the in-memory inode in its slot (and its old
  bytes elsewhere), every other block outside the log is unchanged, the log is idle and empty and no
  buffer is pinned or locked.
\<close>

theorem iupdate_durable:
  assumes "tx_ok dv p {} {} s" "outstanding (lg s) = 0" "\<not> committing (lg s)" "i_dev (itab s ip) = dv"
    "IBLOCK (i_inum (itab s ip)) (sb s) \<notin> log_area (lg s)"
  shows "\<exists>t. kseq begin_op (kseq (iupdate ip) end_op) s = Ret () t \<and> tx_ok dv p {} {} t \<and> outstanding (lg t) = 0 \<and> \<not> committing (lg t) \<and>
    (\<forall>m. m \<notin> log_area (lg s) \<longrightarrow> disk t m =
       (if m = IBLOCK (i_inum (itab s ip)) (sb s) then din_put (i_inum (itab s ip)) (itab s ip) (disk s m) else disk s m))"
proof -
  let ?v = "itab s ip"
  obtain t1 where t1: "begin_op s = Ret () t1" "log_state.more t1 = log_state.more s"
    using begin_op_tx [OF assms(1,3)] assms(2) tx_okD(3,6) [OF assms(1)]
    by (auto simp: log_view_def LOGBLOCKS_def MAXOPBLOCKS_def)
  then have "iupdate ip t1 = logged_update dv (IBLOCK (i_inum ?v) (sb s)) (din_put (i_inum ?v) ?v) t1"
    using fs_more [OF t1(2)] assms(4) by (simp add: iupdate_logged)
  then have "kseq begin_op (kseq (iupdate ip) end_op) s =
      kseq begin_op (kseq (logged_update dv (IBLOCK (i_inum ?v) (sb s)) (din_put (i_inum ?v) ?v)) end_op) s"
    using t1(1) by (simp add: kseq_def kbind_def)
  then show ?thesis using one_block_operation [OF assms(1-3,5), of "din_put (i_inum ?v) ?v"] by (auto cong: if_cong)
qed


text \<open>An idle log at block 2, the inodes from block 33: inode 2 of length 700 is written to block 33.\<close>

definition demo_idle_log :: log where
  "demo_idle_log = \<lparr>lstart = 2, outstanding = 0, committing = False, ldev = 1, ncommit = 0, lh = \<lparr>lhn = 0, lhblock = (\<lambda>_. 0)\<rparr>\<rparr>"

definition demo_idle :: fs_state where
  "demo_idle = demo_bio (\<lambda>_. empty_buf) (\<lambda>_ _. 0) \<lparr>lg = demo_idle_log, itab = (\<lambda>_. demo_inode),
     sb = \<lparr>sb_magic = FSMAGIC, sb_size = 2000, sb_nblocks = 1954, sb_ninodes = 200, sb_nlog = 31, sb_logstart = 2,
           sb_inodestart = 33, sb_bmapstart = 46\<rparr>\<rparr>"

lemma demo_idle_ok: "tx_ok 1 2 {} {} demo_idle" "lg demo_idle = demo_idle_log" "itab demo_idle ip = demo_inode" "disk demo_idle = (\<lambda>_ _. 0)"
  using demo_bio_empty [of "\<lambda>_ _. 0"]
  by (simp_all add: tx_ok_def demo_idle_def demo_bio_def demo_idle_log_def log_view_def LOGBLOCKS_def MAXOPBLOCKS_def)

theorem iupdate_durable_witness:
  "\<exists>t. kseq begin_op (kseq (iupdate 0) end_op) demo_idle = Ret () t \<and> disk t 33 = din_put 2 demo_inode (\<lambda>_. 0) \<and> disk t 34 = (\<lambda>_. 0)"
proof -
  have "IBLOCK (i_inum demo_inode) (sb demo_idle) = 33"
    by (simp add: IBLOCK_def demo_idle_def demo_bio_def demo_inode_def IPB_def BSIZE_def)
  moreover have "slot_of demo_idle_log j \<noteq> 33 \<and> slot_of demo_idle_log j \<noteq> 34" if "j < 30" for j
  proof -
    have "unat (3 + of_nat j :: u32) = 3 + j" using that by (simp add: unat_word_ariths unat_of_nat take_bit_nat_eq_self)
    then show ?thesis using that by (auto simp: slot_of_def demo_idle_log_def word_unat_eq_iff)
  qed
  then have "33 \<notin> log_area demo_idle_log" "34 \<notin> log_area demo_idle_log"
    by (auto simp: log_area_def LOGBLOCKS_def MAXOPBLOCKS_def demo_idle_log_def)
  ultimately show ?thesis
    using iupdate_durable [OF demo_idle_ok(1), of 0] demo_idle_ok(2,3,4)
    by (auto simp: demo_idle_log_def demo_inode_def)
qed

text \<open>
  The log may list as many blocks as there are buffers (\<open>LOGBLOCKS\<close> and \<open>NBUF\<close> are both thirty). When
  every buffer is referenced, \<^verbatim>\<open>commit\<close> cannot read the first block of the log unless it is cached: it
  panics in \<^verbatim>\<open>bget\<close> before anything has been written.
\<close>

theorem commit_needs_a_buffer:
  assumes "quiet p s" "bring s bs" "\<And>b. b < NBUF \<Longrightarrow> refcnt (bufs s b) \<noteq> 0"
    "\<And>b. b < NBUF \<Longrightarrow> \<not> holds_block (ldev (lg s)) (slot_of (lg s) 0) s b" "0 < lhn (lh (lg s))"
  shows "commit s = Panic ''bget: no buffers''"
proof -
  have set: "set bs = {..<NBUF}" using assms(2) by (simp add: bring_def)
  have n: "slot_of (lg s) 0 = lstart (lg s) + 1" by (simp add: slot_of_def)
  have f: "find (\<lambda>c. dev (bufs s c) = ldev (lg s) \<and> blockno (bufs s c) = lstart (lg s) + 1) bs = None" "find (\<lambda>c. refcnt (bufs s c) = 0) (rev bs) = None"
    using assms(3,4) set by (auto simp: find_None_iff holds_block_def n)
  have free: "slocked (slocks s (BufLk b)) = 0" if "b < NBUF" "(dev (bufs s b) = ldev (lg s) \<and> blockno (bufs s b) = lstart (lg s) + 1) \<or> refcnt (bufs s b) = 0" for b
    using assms(3,4) [OF that(1)] that(2) by (simp add: holds_block_def n)
  have "bget (ldev (lg s)) (lstart (lg s) + 1) s = Panic ''bget: no buffers''"
    using bget_eq [OF assms(1,2) free] f by simp
  moreover obtain k where "nat (lhn (lh (lg s))) = Suc k" using assms(5) by (cases "nat (lhn (lh (lg s)))") auto
  then have "[0..<nat (lhn (lh (lg s)))] = 0 # [1..<Suc k]" by (simp add: upt_conv_Cons)
  ultimately show ?thesis using assms(5)
    by (simp add: commit_def kwhen_def write_log_def write_log_one_def bread_def del: upt_Suc)
qed


definition demo_full :: log_state where
  "demo_full = demo_bio (\<lambda>b. empty_buf\<lparr>valid := True, dev := 1, blockno := 100 + of_nat b, refcnt := 1\<rparr>) (\<lambda>_ _. 0)
     \<lparr>lg = demo_idle_log\<lparr>lh := \<lparr>lhn = 30, lhblock = (\<lambda>i. 100 + of_nat i)\<rparr>\<rparr>\<rparr>"

theorem commit_needs_a_buffer_witness: "commit demo_full = Panic ''bget: no buffers''"
proof (rule commit_needs_a_buffer [of 2 _ "rev [0..<NBUF]"])
  show "quiet 2 demo_full" "bring demo_full (rev [0..<NBUF])"
    unfolding demo_full_def by (rule demo_bio_quiet demo_bio_ring)+
  show "refcnt (bufs demo_full b) \<noteq> 0" for b by (simp add: demo_full_def)
  have lg: "lg demo_full = demo_idle_log\<lparr>lh := \<lparr>lhn = 30, lhblock = (\<lambda>i. 100 + of_nat i)\<rparr>\<rparr>" by (simp add: demo_full_def demo_bio_def)
  then show "0 < lhn (lh (lg demo_full))" by simp
  have "(100 + of_nat b :: u32) \<noteq> 3" if "b < NBUF" for b
  proof -
    have "unat (100 + of_nat b :: u32) = 100 + b" using that by (simp add: unat_word_ariths unat_of_nat take_bit_nat_eq_self NBUF_def)
    then show ?thesis by (auto simp: word_unat_eq_iff)
  qed
  then show "\<not> holds_block (ldev (lg demo_full)) (slot_of (lg demo_full) 0) demo_full b" if "b < NBUF" for b
    using that by (simp add: holds_block_def slot_of_def lg demo_idle_log_def) (simp add: demo_full_def)
qed

end
