(* ===== verification/Lineedit.thy ===== *)
theory Lineedit
  imports Console Bcache
begin

text \<open>
  The input line of the console (\<^verbatim>\<open>kernel/console.c\<close>, \<^verbatim>\<open>consoleintr\<close>): the three indices into the circular
  buffer stand for a list of characters that are not read yet and the number of them that belong to
  finished lines; every key changes the list as an editor would, and it never has more than
  \<open>INPUT_BUF_SIZE\<close> characters.
\<close>

subsection \<open>The list behind the buffer\<close>

definition cons_chars :: "cons \<Rightarrow> u8 list" where
  "cons_chars c = map (\<lambda>k. c_buf c ((c_r c + of_nat k) mod INPUT_BUF_SIZE)) [0..<unat (c_e c - c_r c)]"

definition cons_done :: "cons \<Rightarrow> nat" where
  "cons_done c = unat (c_w c - c_r c)"

definition cons_ok :: "cons \<Rightarrow> bool" where
  "cons_ok c \<longleftrightarrow> unat (c_w c - c_r c) \<le> unat (c_e c - c_r c) \<and> unat (c_e c - c_r c) \<le> 128"

lemma length_cons_chars [simp]: "length (cons_chars c) = unat (c_e c - c_r c)"
  by (simp add: cons_chars_def)

lemma cons_pending: "c_e c \<noteq> c_w c \<longleftrightarrow> cons_done c \<noteq> length (cons_chars c)"
  by (simp add: cons_done_def word_unat_eq_iff [symmetric]) (metis add_right_cancel diff_add_cancel)

lemma cons_room: "c_e c - c_r c < INPUT_BUF_SIZE \<longleftrightarrow> length (cons_chars c) < 128"
  by (simp add: INPUT_BUF_SIZE_def word_less_nat_alt)

lemma cons_full: "c_e c - c_r c = INPUT_BUF_SIZE \<longleftrightarrow> length (cons_chars c) = 128"
  by (simp add: INPUT_BUF_SIZE_def word_unat_eq_iff)

lemma cons_put_chars:
  assumes "cons_ok c" "length (cons_chars c) < 128"
  shows "cons_chars (cons_put x c) = cons_chars c @ [x]" "cons_ok (cons_put x c)" "cons_done (cons_put x c) = cons_done c"
proof -
  let ?n = "unat (c_e c - c_r c)"
  have n: "?n < 128" using assms(2) by simp
  have s: "unat (c_e c + 1 - c_r c) = Suc ?n"
  proof -
    have "unat (d + 1) = Suc (unat d)" if "unat d < 128" for d :: u32 using that by (simp add: unat_word_ariths)
    from this [OF n] show ?thesis by (simp add: algebra_simps)
  qed
  have e: "c_r c + of_nat ?n = c_e c" by simp
  have "(c_r c + of_nat k) mod INPUT_BUF_SIZE \<noteq> c_e c mod INPUT_BUF_SIZE" if "k < ?n" for k
    using u32_index_inj [of INPUT_BUF_SIZE k ?n "c_r c"] that n e by (auto simp: INPUT_BUF_SIZE_def)
  then show "cons_chars (cons_put x c) = cons_chars c @ [x]"
    using e by (simp add: cons_chars_def cons_put_def s)
  show "cons_ok (cons_put x c)" using assms(1) n s by (simp add: cons_ok_def cons_put_def)
  show "cons_done (cons_put x c) = cons_done c" by (simp add: cons_done_def cons_put_def)
qed

lemma cons_back_chars:
  assumes "cons_ok c" "c_e c \<noteq> c_w c"
  shows "cons_chars (c\<lparr>c_e := c_e c - 1\<rparr>) = butlast (cons_chars c)" "cons_ok (c\<lparr>c_e := c_e c - 1\<rparr>)"
    "cons_done (c\<lparr>c_e := c_e c - 1\<rparr>) = cons_done c" "last (cons_chars c) = c_buf c ((c_e c - 1) mod INPUT_BUF_SIZE)"
    "cons_done c < length (cons_chars c)"
proof -
  let ?n = "unat (c_e c - c_r c)"
  show lt: "cons_done c < length (cons_chars c)"
    using assms cons_pending [of c] by (simp add: cons_ok_def cons_done_def)
  then obtain m where m: "?n = Suc m" by (cases ?n) auto
  then have "c_e c - c_r c \<noteq> 0" by auto
  from unat_minus_one [OF this] have s: "unat (c_e c - 1 - c_r c) = m" using m by (simp add: algebra_simps)
  show "cons_chars (c\<lparr>c_e := c_e c - 1\<rparr>) = butlast (cons_chars c)"
    by (simp add: cons_chars_def s m butlast_append)
  show "cons_ok (c\<lparr>c_e := c_e c - 1\<rparr>)" using assms(1) lt s m by (simp add: cons_ok_def cons_done_def)
  show "cons_done (c\<lparr>c_e := c_e c - 1\<rparr>) = cons_done c" by (simp add: cons_done_def)
  have "c_r c + of_nat (unat (c_e c - 1 - c_r c)) = c_e c - 1" by simp
  then have "c_r c + of_nat m = c_e c - 1" unfolding s .
  then show "last (cons_chars c) = c_buf c ((c_e c - 1) mod INPUT_BUF_SIZE)" by (simp add: cons_chars_def m)
qed

subsection \<open>Output\<close>

text \<open>The transmitter is idle whenever its status is read.\<close>

definition uart_idle :: "'z cons_state_scheme \<Rightarrow> bool" where
  "uart_idle s \<longleftrightarrow> (\<forall>n. udev s LSR n AND LSR_TX_IDLE \<noteq> 0) \<and> 0 < sfuel s"

definition uart_sent :: "u8 \<Rightarrow> 'z cons_state_scheme \<Rightarrow> 'z cons_state_scheme" where
  "uart_sent x s = s\<lparr>core := touch (core s), ureads := (ureads s)(LSR := Suc (ureads s LSR)), uwrites := uwrites s @ [(THR, x)]\<rparr>"

lemma uartputc_eq:
  assumes "uart_idle s" "cpu_ok (core s)"
  shows "uartputc_sync x s = Ret () (uart_sent x s)"
proof -
  obtain n where "sfuel s = Suc n" using assms(1) by (cases "sfuel s") (auto simp: uart_idle_def)
  then show ?thesis using assms cpu_ok_noff [of "core s"]
    by (simp add: uartputc_sync_def kstep ReadReg_def WriteReg_def uart_idle_def uart_sent_def kret_def)
qed

lemma uart_sent_frame [simp]:
  "cons_data (uart_sent x s) = cons_data s" "core (uart_sent x s) = touch (core s)" "uart_idle (uart_sent x s) = uart_idle s"
  "procs (uart_sent x s) = procs s" "sfuel (uart_sent x s) = sfuel s"
  by (simp_all add: uart_sent_def uart_idle_def)


subsection \<open>Keys\<close>

lemma consputc_ok:
  assumes "uart_idle s" "cpu_ok (core s)"
  shows "\<exists>t. consputc c s = Ret () t \<and> cons_data t = cons_data s \<and> core t = touch (core s) \<and> uart_idle t \<and> table_ok t = table_ok s
    \<and> uwrites t = uwrites s @ map (Pair THR) (if c = BACKSPACE then [8, 32, 8] else [word_of_int c])"
proof (cases "c = BACKSPACE")
  case True
  have "table_ok (uart_sent 8 (uart_sent 32 (uart_sent 8 s))) = table_ok s"
    by (simp add: uart_sent_def) (rule table_ok_cong; simp)
  then show ?thesis using True assms by (simp add: consputc_def uartputc_eq) (simp add: uart_sent_def)
next
  case False
  have "table_ok (uart_sent x s) = table_ok s" for x
    by (simp add: uart_sent_def) (rule table_ok_cong; simp)
  then show ?thesis using False assms by (simp add: consputc_def uartputc_eq) (simp add: uart_sent_def)
qed


text \<open>The editor: the characters that are not read, and how many of them are in finished lines.\<close>

definition erase_line :: "nat \<Rightarrow> u8 list \<Rightarrow> u8 list" where
  "erase_line d xs = take d xs @ rev (dropWhile (\<lambda>x. x \<noteq> 10) (rev (drop d xs)))"

definition cons_edit :: "int \<Rightarrow> u8 list \<times> nat \<Rightarrow> u8 list \<times> nat" where
  "cons_edit c = (\<lambda>(xs, d).
     if c = Ctrl 80 then (xs, d)
     else if c = Ctrl 85 then (erase_line d xs, d)
     else if c = Ctrl 72 \<or> c = 0x7f then (if d < length xs then butlast xs else xs, d)
     else if c = 0 \<or> 128 \<le> length xs then (xs, d)
     else (let x = (if c = 13 then 10 else c); ys = xs @ [word_of_int x] in
       (ys, if x = 10 \<or> x = Ctrl 68 \<or> length ys = 128 then length ys else d)))"

definition cons_view :: "cons \<Rightarrow> u8 list \<times> nat" where
  "cons_view c = (cons_chars c, cons_done c)"

lemma erase_line_step: "d < length xs \<Longrightarrow> last xs \<noteq> 10 \<Longrightarrow> erase_line d xs = erase_line d (butlast xs)"
  by (cases xs rule: rev_cases) (simp_all add: erase_line_def)

lemma erase_line_stop: "d = length xs \<or> (d < length xs \<and> last xs = 10) \<Longrightarrow> erase_line d xs = xs"
  by (cases xs rule: rev_cases) (auto simp: erase_line_def)

text \<open>With the lock of the console, the hart is inside \<^verbatim>\<open>push_off\<close> and output does not change its state.\<close>

definition cons_locked :: "'z cons_state_scheme \<Rightarrow> bool" where
  "cons_locked s \<longleftrightarrow> cons_ok (cons_data s) \<and> uart_idle s \<and> cpu_ok (core s) \<and> 1 \<le> noff (mycpu (core s)) \<and> table_ok s"

lemma touch_inside: "1 \<le> noff (mycpu c) \<Longrightarrow> touch c = c"
  by (simp add: touch_def core_defs)

definition edited :: "u8 list \<times> nat \<Rightarrow> 'z cons_state_scheme \<Rightarrow> 'z cons_state_scheme \<Rightarrow> bool" where
  "edited v s t \<longleftrightarrow> cons_locked t \<and> cons_view (cons_data t) = v \<and> core t = core s"

lemma upd_cons_simps [simp]:
  "cons_data (upd_cons f s) = f (cons_data s)" "core (upd_cons f s) = core s" "uart_idle (upd_cons f s) = uart_idle s"
  "table_ok (upd_cons f s) = table_ok s" "sfuel (upd_cons f s) = sfuel s"
  by (simp_all add: upd_cons_def uart_idle_def) (rule table_ok_cong; simp)

lemma erase_one:
  assumes l: "cons_locked s" and p: "c_e (cons_data s) \<noteq> c_w (cons_data s)"
  shows "\<exists>t. kseq (kmod (upd_cons (\<lambda>c. c\<lparr>c_e := c_e c - 1\<rparr>))) (consputc BACKSPACE) s = Ret () t
    \<and> edited (butlast (cons_chars (cons_data s)), cons_done (cons_data s)) s t"
proof -
  let ?u = "upd_cons (\<lambda>c. c\<lparr>c_e := c_e c - 1\<rparr>) s"
  obtain t where "consputc BACKSPACE ?u = Ret () t" "cons_data t = cons_data ?u" "core t = touch (core s)" "uart_idle t" "table_ok t"
    using consputc_ok [of ?u BACKSPACE] l by (auto simp: cons_locked_def)
  then show ?thesis using l cons_back_chars [OF _ p] by (simp add: edited_def cons_locked_def cons_view_def touch_inside kstep)
qed

lemma kill_line_ok:
  assumes "cons_locked s" "length (cons_chars (cons_data s)) < fuel"
  shows "\<exists>t. kill_line fuel s = Ret () t \<and> edited (erase_line (cons_done (cons_data s)) (cons_chars (cons_data s)), cons_done (cons_data s)) s t"
  using assms
proof (induction fuel arbitrary: s)
  case (Suc fuel)
  let ?c = "cons_data s"
  have ok: "cons_ok ?c" using Suc.prems(1) by (simp add: cons_locked_def)
  show ?case
  proof (cases "c_e ?c \<noteq> c_w ?c \<and> c_buf ?c ((c_e ?c - 1) mod INPUT_BUF_SIZE) \<noteq> 10")
    case True
    note b = cons_back_chars [OF ok conjunct1 [OF True]]
    obtain t where t: "kseq (kmod (upd_cons (\<lambda>c. c\<lparr>c_e := c_e c - 1\<rparr>))) (consputc BACKSPACE) s = Ret () t"
        "edited (butlast (cons_chars ?c), cons_done ?c) s t"
      using erase_one [OF Suc.prems(1) conjunct1 [OF True]] by blast
    have v: "cons_chars (cons_data t) = butlast (cons_chars ?c)" "cons_done (cons_data t) = cons_done ?c" "cons_locked t" "core t = core s"
      using t(2) by (simp_all add: edited_def cons_view_def)
    have "length (cons_chars (cons_data t)) < fuel" unfolding v(1) using Suc.prems(2) b(5) by simp
    then obtain u where u: "kill_line fuel t = Ret () u" "edited (erase_line (cons_done ?c) (butlast (cons_chars ?c)), cons_done ?c) t u"
      using Suc.IH [OF v(3)] v(1,2) by auto
    have "kill_line (Suc fuel) s = Ret () u" using True t(1) u(1) by simp
    moreover have "erase_line (cons_done ?c) (cons_chars ?c) = erase_line (cons_done ?c) (butlast (cons_chars ?c))"
      using b(4,5) True by (intro erase_line_step) simp_all
    ultimately show ?thesis using u(2) v(4) by (auto simp: edited_def)
  next
    case False
    have "erase_line (cons_done ?c) (cons_chars ?c) = cons_chars ?c"
      using False cons_pending [of ?c] cons_back_chars(4,5) [OF ok] by (intro erase_line_stop) auto
    then show ?thesis using False Suc.prems(1) by (auto simp: edited_def cons_view_def kret_def)
  qed
qed simp


lemma wakeup_cons:
  "cons_data (wakeup_eff ch s) = cons_data s" "uart_idle (wakeup_eff ch s) = uart_idle s"
proof -
  have "bio_state.more (wakeup_eff ch s) = bio_state.more s" "sfuel (wakeup_eff ch s) = sfuel s"
    using pipe_more_bio [OF wakeup_eff_pipes(2), of ch s] by simp_all
  then show "cons_data (wakeup_eff ch s) = cons_data s" "uart_idle (wakeup_eff ch s) = uart_idle s"
    unfolding uart_idle_def by (cases "wakeup_eff ch s"; cases s; simp)+
qed

lemma store_char_ok:
  assumes l: "cons_locked s" and room: "length (cons_chars (cons_data s)) < 128" and tf: "table_free (core s)"
  shows "\<exists>t. kseq (consputc x) (
     kseq (kmod (upd_cons (cons_put (word_of_int x)))) (
     kbind (kget cons_data) (\<lambda>k.
     kwhen (x = 10 \<or> x = Ctrl 68 \<or> c_e k - c_r k = INPUT_BUF_SIZE) (
       kseq (kmod (upd_cons (\<lambda>k. k\<lparr>c_w := c_e k\<rparr>))) (wakeup (Some ChCons)))))) s = Ret () t
   \<and> (let ys = cons_chars (cons_data s) @ [word_of_int x] in
      edited (ys, if x = 10 \<or> x = Ctrl 68 \<or> length ys = 128 then length ys else cons_done (cons_data s)) s t)"
proof -
  let ?c = "cons_data s"
  have ok: "cons_ok ?c" and core: "touch (core s) = core s" using l by (simp_all add: cons_locked_def touch_inside)
  obtain t where t: "consputc x s = Ret () t" "cons_data t = ?c" "core t = core s" "uart_idle t" "table_ok t"
    using consputc_ok [of s x] l core by (auto simp: cons_locked_def)
  let ?d = "cons_put (word_of_int x) ?c"
  note p = cons_put_chars [OF ok room, of "word_of_int x"]
  let ?u = "upd_cons (cons_put (word_of_int x)) t"
  have full: "c_e ?d - c_r ?d = INPUT_BUF_SIZE \<longleftrightarrow> length (cons_chars ?c @ [word_of_int x]) = 128"
    using cons_full [of ?d] p(1) by (metis length_append length_cons_chars)
  show ?thesis
  proof (cases "x = 10 \<or> x = Ctrl 68 \<or> length (cons_chars ?c @ [word_of_int x :: u8]) = 128")
    case False
    then have "edited (cons_chars ?c @ [word_of_int x], cons_done ?c) s ?u"
      using l t p by (simp add: edited_def cons_locked_def cons_view_def)
    then show ?thesis using False t full by (simp add: kstep kwhen_def kret_def Let_def)
  next
    case True
    let ?v = "upd_cons (\<lambda>k. k\<lparr>c_w := c_e k\<rparr>) ?u"
    have w: "wakeup (Some ChCons) ?v = Ret () (wakeup_eff (Some ChCons) ?v)"
      using t(3,5) tf by (intro wakeup_eq) simp_all
    have dn: "cons_ok (?d\<lparr>c_w := c_e ?d\<rparr>)" "cons_view (?d\<lparr>c_w := c_e ?d\<rparr>) = (cons_chars ?d, length (cons_chars ?d))"
      using p(2) by (simp_all add: cons_ok_def cons_view_def cons_chars_def cons_done_def)
    have "cons_data (wakeup_eff (Some ChCons) ?v) = cons_data ?v" "uart_idle (wakeup_eff (Some ChCons) ?v)"
      using wakeup_cons [of "Some ChCons" ?v] t(4) by simp_all
    then have "edited (cons_chars ?c @ [word_of_int x], length (cons_chars ?c @ [word_of_int x :: u8])) s (wakeup_eff (Some ChCons) ?v)"
      using l t dn p(1) core wakeup_eff_ok(1) [of ?v "Some ChCons"]
      by (simp add: edited_def cons_locked_def)
    then show ?thesis using True t full w by (auto simp: kstep kwhen_def Let_def)
  qed
qed


lemma switch_erase:
  assumes l: "cons_locked s" and c: "c \<noteq> Ctrl 80" "c \<noteq> Ctrl 85" "c = Ctrl 72 \<or> c = 0x7f"
  shows "\<exists>t. consoleintr_switch c s = Ret () t \<and> edited (cons_edit c (cons_view (cons_data s))) s t"
proof (cases "c_e (cons_data s) \<noteq> c_w (cons_data s)")
  case True
  have "cons_ok (cons_data s)" using l by (simp add: cons_locked_def)
  then show ?thesis using erase_one [OF l True] cons_back_chars(5) [OF _ True] True c
    by (simp add: consoleintr_switch_def cons_edit_def cons_view_def kwhen_def)
next
  case False
  then have "\<not> cons_done (cons_data s) < length (cons_chars (cons_data s))" using cons_pending [of "cons_data s"] by simp
  then show ?thesis using l False c
    by (simp add: consoleintr_switch_def cons_edit_def cons_view_def kwhen_def kret_def edited_def)
qed

lemma switch_store:
  assumes l: "cons_locked s" and tf: "table_free (core s)" and c: "c \<noteq> Ctrl 80" "c \<noteq> Ctrl 85" "\<not> (c = Ctrl 72 \<or> c = 0x7f)"
  shows "\<exists>t. consoleintr_switch c s = Ret () t \<and> edited (cons_edit c (cons_view (cons_data s))) s t"
proof (cases "c \<noteq> 0 \<and> c_e (cons_data s) - c_r (cons_data s) < INPUT_BUF_SIZE")
  case True
  then have room: "length (cons_chars (cons_data s)) < 128" using cons_room [of "cons_data s"] by simp
  from store_char_ok [OF l room tf, of "if c = 13 then 10 else c"] show ?thesis using True c room
    by (simp add: consoleintr_switch_def cons_edit_def cons_view_def kwhen_def Let_def del: length_cons_chars)
next
  case False
  then have "c = 0 \<or> 128 \<le> length (cons_chars (cons_data s))" using cons_room [of "cons_data s"] by auto
  then show ?thesis using l False c
    by (auto simp: consoleintr_switch_def cons_edit_def cons_view_def kwhen_def kret_def edited_def)
qed

lemma switch_ok:
  assumes l: "cons_locked s" and tf: "table_free (core s)"
  shows "\<exists>t. consoleintr_switch c s = Ret () t \<and> edited (cons_edit c (cons_view (cons_data s))) s t"
proof -
  consider "c = Ctrl 80" | "c \<noteq> Ctrl 80" "c = Ctrl 85" | "c \<noteq> Ctrl 80" "c \<noteq> Ctrl 85" by blast
  then show ?thesis
  proof cases
    case 1
    have "table_ok (s\<lparr>dumps := D\<rparr>) = table_ok s" for D by (rule table_ok_cong) simp_all
    then show ?thesis using l 1
      by (simp add: consoleintr_switch_def kmod_def cons_edit_def cons_view_def edited_def cons_locked_def uart_idle_def)
  next
    case 2
    have "length (cons_chars (cons_data s)) < Suc (unat INPUT_BUF_SIZE)"
      using l by (simp add: cons_locked_def cons_ok_def INPUT_BUF_SIZE_def)
    from kill_line_ok [OF l this] 2 show ?thesis
      by (simp add: consoleintr_switch_def cons_edit_def cons_view_def del: kill_line.simps)
  next
    case 3
    then show ?thesis using switch_erase [OF l 3] switch_store [OF l tf 3] by blast
  qed
qed

subsection \<open>Properties\<close>

text \<open>
  C12. The line editor of the console: for every key, \<^verbatim>\<open>consoleintr\<close> (with an idle transmitter and the lock
  free) returns; the characters that are not read yet and the number of them in finished lines change
  as in the editor \<open>cons_edit\<close>: control-U erases the unfinished line, backspace and delete its last
  character, a carriage return is a newline, a newline or end of file or a full buffer finishes the
  line, a full buffer takes no more. At most 128 characters are kept, also when the indices wrap around.
\<close>

theorem consoleintr_edits:
  assumes "cons_ok (cons_data s)" "uart_idle s" "table_ok s" "cpu_ok (core s)" "free_lock ConsLock (core s)" "table_free (core s)"
  shows "\<exists>t. consoleintr c s = Ret () t \<and> cons_ok (cons_data t) \<and> cons_view (cons_data t) = cons_edit c (cons_view (cons_data s)) \<and>
    length (cons_chars (cons_data t)) \<le> 128 \<and> core t = touch (core s)"
proof -
  let ?s = "s\<lparr>core := c_acq ConsLock (core s)\<rparr>"
  have l: "cons_locked ?s"
    using assms(1-4) cpu_ok_noff [OF assms(4)] by (simp add: cons_locked_def uart_idle_def)
  obtain t where t: "consoleintr_switch c ?s = Ret () t" "edited (cons_edit c (cons_view (cons_data s))) ?s t"
    using switch_ok [OF l, of c] assms(6) by auto
  have ct: "core t = c_acq ConsLock (core s)" using t(2) by (simp add: edited_def)
  have "consoleintr c s = Ret () (t\<lparr>core := c_rel ConsLock (core t)\<rparr>)"
    using assms(5) t(1) release_section [OF ct assms(4)] by (simp add: consoleintr_def kstep)
  moreover have "c_rel ConsLock (core t) = touch (core s)" using ct assms(4,5) by simp
  ultimately show ?thesis using t(2) by (simp add: edited_def cons_locked_def cons_ok_def)
qed


text \<open>Two characters of an unfinished line are in the buffer, the indices wrap around; the user presses return.\<close>

definition demo_console :: "'z \<Rightarrow> 'z cons_state_scheme" where
  "demo_console m = demo_bio (\<lambda>_. empty_buf) (\<lambda>_ _. 0)
     \<lparr>lg = \<lparr>lstart = 2, outstanding = 0, committing = False, ldev = 1, ncommit = 0, lh = \<lparr>lhn = 0, lhblock = (\<lambda>_. 0)\<rparr>\<rparr>,
      itab = (\<lambda>_. \<lparr>i_dev = 0, i_inum = 0, i_ref = 0, i_valid = False, i_type = 0, i_major = 0, i_minor = 0, i_nlink = 0, i_size = 0, i_addrs = (\<lambda>_. 0)\<rparr>),
      sb = \<lparr>sb_magic = FSMAGIC, sb_size = 2000, sb_nblocks = 1954, sb_ninodes = 200, sb_nlog = 31, sb_logstart = 2, sb_inodestart = 33, sb_bmapstart = 46\<rparr>,
      cons_data = \<lparr>c_buf = (\<lambda>i. if i = 127 then 108 else 115), c_r = - 1, c_w = - 1, c_e = 1\<rparr>,
      udev = (\<lambda>_ _. LSR_TX_IDLE), ureads = (\<lambda>_. 0), uwrites = [], dumps = [], \<dots> = m\<rparr>"

theorem consoleintr_edits_witness:
  "\<exists>t. consoleintr 13 (demo_console ()) = Ret () t \<and> cons_view (cons_data t) = ([108, 115, 10], 3)"
proof -
  have q: "quiet 2 (demo_console ())" unfolding demo_console_def by (rule demo_bio_quiet)
  have d: "cons_data (demo_console ()) = \<lparr>c_buf = (\<lambda>i. if i = 127 then 108 else 115), c_r = - 1, c_w = - 1, c_e = 1\<rparr>"
    and u: "udev (demo_console ()) = (\<lambda>_ _. LSR_TX_IDLE)"
    by (simp_all add: demo_console_def demo_bio_def)
  have idle: "uart_idle (demo_console ())" using quietD(5) [OF q] by (simp add: uart_idle_def u LSR_TX_IDLE_def)
  have ok: "cons_ok (cons_data (demo_console ()))" by (simp add: d cons_ok_def)
  have v: "cons_view (cons_data (demo_console ())) = ([108, 115], 0)"
    by (simp add: d cons_view_def cons_chars_def cons_done_def INPUT_BUF_SIZE_def upt_rec)
  show ?thesis using consoleintr_edits [OF ok idle quietD(4,1,2,7) [OF q], of 13]
    by (auto simp: v cons_edit_def Ctrl_def)
qed

end
