(* ===== verification/Syscalls.thy ===== *)
theory Syscalls
  imports Trap Lineedit
begin

text \<open>
  A system call from the trap to the return to user mode (\<^verbatim>\<open>kernel/trap.c\<close>, \<^verbatim>\<open>kernel/syscall.c\<close>): the trap
  handler, the dispatch table, a handler and \<^verbatim>\<open>prepare_return\<close> composed.
\<close>

subsection \<open>The control registers and the trap frame\<close>

lemma csr_frame [simp]:
  "core (upd_csr f s) = core s" "procs (upd_csr f s) = procs s" "trapframes (upd_csr f s) = trapframes s" "syms (upd_csr f s) = syms s"
  "my_csr (upd_csr f s) = f (my_csr s)"
  by (simp_all add: upd_csr_def my_csr_def)

lemma my_csr_core [simp]: "cpuid c = cpuid (core s) \<Longrightarrow> my_csr (s\<lparr>core := c\<rparr>) = my_csr s"
  by (simp add: my_csr_def)

lemma my_csr_tf [simp]: "my_csr (s\<lparr>trapframes := T\<rparr>) = my_csr s"
  by (simp add: my_csr_def)

lemma sie_hart [simp]:
  "noff (mycpu (set_sie b c)) = noff (mycpu c)" "cproc (mycpu (set_sie b c)) = cproc (mycpu c)" "cpuid (set_sie b c) = cpuid c"
  "free_lock lk (set_sie b c) = free_lock lk c" "intr_get (set_sie b c) = b"
  by (simp_all add: hart_defs)

lemma cpu_ok_outside: "noff (mycpu c) = 0 \<Longrightarrow> cpu_ok (set_sie b c)"
  by (simp add: cpu_ok_def hart_defs)

lemma set_tf_eq [kstep]:
  "set_tf p r v s = Ret () (s\<lparr>trapframes := (trapframes s)(trapframe (procs s p) := (trapframes s (trapframe (procs s p)))(r := v))\<rparr>)"
  by (simp add: set_tf_def kmod_def)

text \<open>A process on a hart without locks.\<close>

definition runs :: "nat \<Rightarrow> 'z proc_state_scheme \<Rightarrow> bool" where
  "runs p s \<longleftrightarrow> cpu_ok (core s) \<and> noff (mycpu (core s)) = 0 \<and> free_lock (ProcLock p) (core s) \<and> cproc (mycpu (core s)) = Some p"

lemma touch_noff [simp]: "noff (mycpu (touch c)) = noff (mycpu c)"
  by (simp add: touch_def core_defs)

lemma runs_core [simp]:
  "runs p (s\<lparr>core := touch (core s)\<rparr>) = runs p s" "runs p s \<Longrightarrow> runs p (s\<lparr>core := set_sie b (core s)\<rparr>)"
  "runs p (s\<lparr>trapframes := T\<rparr>) = runs p s" "runs p (upd_csr f s) = runs p s"
  by (simp_all add: runs_def cpu_ok_outside)

lemma prepare_return_eq:
  assumes "runs p s"
  shows "\<exists>t. prepare_return s = Ret () t \<and> procs t = procs s \<and> \<not> intr_get (core t)
    \<and> sepc (my_csr t) = trapframes s (trapframe (procs s p)) T_epc \<and> \<not> spp (my_csr t) \<and> spie (my_csr t)
    \<and> stvec (my_csr t) = TRAMPOLINE + (sym_uservec (syms s) - sym_trampoline (syms s))
    \<and> trapframes t = (trapframes s)(trapframe (procs s p) := (trapframes s (trapframe (procs s p)))
         (T_kernel_satp := satp (my_csr s), T_kernel_sp := kstack (procs s p) + PGSIZE, T_kernel_trap := sym_usertrap (syms s),
          T_kernel_hartid := of_nat (cpuid (core s))))"
  using assms by (simp add: prepare_return_def runs_def kstep cpu_ok_outside)


text \<open>What the calls that the table does not have, and \<^verbatim>\<open>getpid\<close>, return.\<close>

definition quick_result :: "int \<Rightarrow> int \<Rightarrow> u64 option" where
  "quick_result num i = (if num = 11 then Some (word_of_int i) else if num \<le> 0 \<or> 23 < num then Some (- 1) else None)"

lemma syscall_quick:
  assumes r: "runs p s" and q: "quick_result (sint (ucast (trapframes s (trapframe (procs s p)) T_a7) :: u32)) (pid (procs s p)) = Some v"
  shows "\<exists>t. syscall pad s = Ret () t \<and> runs p t \<and> procs t = procs s \<and> my_csr t = my_csr s \<and> syms t = syms s \<and> cpuid (core t) = cpuid (core s)
    \<and> trapframes t = (trapframes s)(trapframe (procs s p) := (trapframes s (trapframe (procs s p)))(T_a0 := v))"
proof -
  let ?num = "sint (ucast (trapframes s (trapframe (procs s p)) T_a7) :: u32)"
  consider (pid) "?num = 11" "v = word_of_int (pid (procs s p))" | (none) "?num \<le> 0 \<or> 23 < ?num" "v = - 1"
    using q by (auto simp: quick_result_def split: if_splits)
  then show ?thesis
  proof cases
    case pid
    then show ?thesis using r by (simp add: syscall_def runs_def kstep syscalls_def sys_getpid_def kret_def)
  next
    case none
    then show ?thesis using r
      by (cases "0 < ?num") (simp_all add: syscall_def runs_def kstep syscalls_def)
  qed
qed

lemma usertrap_body_quick:
  assumes r: "runs p s" and c: "scause (my_csr s) = 8" and k: "killed_flag (procs s p) = 0"
    and q: "quick_result (sint (ucast (trapframes s (trapframe (procs s p)) T_a7) :: u32)) (pid (procs s p)) = Some v"
  shows "\<exists>t. usertrap_body disk_intr pad p s = Ret 0 t \<and> runs p t \<and> procs t = procs s \<and> my_csr t = my_csr s \<and> syms t = syms s
    \<and> cpuid (core t) = cpuid (core s)
    \<and> trapframes t = (trapframes s)(trapframe (procs s p) := (trapframes s (trapframe (procs s p)))
        (T_epc := trapframes s (trapframe (procs s p)) T_epc + 4, T_a0 := v))"
proof -
  let ?tf = "trapframe (procs s p)"
  let ?u = "s\<lparr>core := touch (core s), trapframes := (trapframes s)(?tf := (trapframes s ?tf)(T_epc := trapframes s ?tf T_epc + 4))\<rparr>"
  let ?w = "?u\<lparr>core := set_sie True (core ?u)\<rparr>"
  have "runs p ?u" using r by (simp add: runs_def)
  then have "runs p ?w" by (rule runs_core(2))
  from syscall_quick [OF this, of v pad] q
  obtain t where t: "syscall pad ?w = Ret () t" "runs p t" "procs t = procs s" "my_csr t = my_csr s" "syms t = syms s" "cpuid (core t) = cpuid (core s)"
      "trapframes t = (trapframes ?w)(?tf := (trapframes ?w ?tf)(T_a0 := v))" by (auto simp: my_csr_def)
  have "usertrap_body disk_intr pad p s = Ret 0 t"
    using r c k t(1) by (simp add: usertrap_body_def runs_def kstep kwhen_def kret_def)
  then show ?thesis using t by simp
qed

subsection \<open>Properties\<close>

text \<open>
  C13. A system call, end to end: a process that was not killed executes an ecall in user mode with
  the number of \<^verbatim>\<open>getpid\<close>, or with a number that the table does not have. \<^verbatim>\<open>usertrap\<close> returns the page
  table of the process; its a0 is the process id, or -1 for the unknown numbers; the program counter
  is behind the ecall, all other user registers are as before; the hart is set up to return to user
  mode, with interrupts off until then and the next trap going to the trampoline; no other trap
  frame and no process changes.
\<close>

theorem usertrap_system_call:
  assumes "cpu_ok (core s)" "noff (mycpu (core s)) = 0" "free_lock (ProcLock p) (core s)" "cproc (mycpu (core s)) = Some p"
    "\<not> spp (my_csr s)" "scause (my_csr s) = 8" "killed_flag (procs s p) = 0"
    "quick_result (sint (ucast (trapframes s (trapframe (procs s p)) T_a7) :: u32)) (pid (procs s p)) = Some v"
  shows "\<exists>t. usertrap disk_intr pad s = Ret (MAKE_SATP (pagetable (procs s p))) t \<and>
    trapframes t (trapframe (procs s p)) T_a0 = v \<and> trapframes t (trapframe (procs s p)) T_epc = sepc (my_csr s) + 4 \<and>
    sepc (my_csr t) = sepc (my_csr s) + 4 \<and> \<not> spp (my_csr t) \<and> spie (my_csr t) \<and> \<not> intr_get (core t) \<and>
    stvec (my_csr t) = TRAMPOLINE + (sym_uservec (syms s) - sym_trampoline (syms s)) \<and>
    (\<forall>g. g \<notin> {T_a0, T_epc, T_kernel_satp, T_kernel_sp, T_kernel_trap, T_kernel_hartid} \<longrightarrow>
       trapframes t (trapframe (procs s p)) g = trapframes s (trapframe (procs s p)) g) \<and>
    (\<forall>a. a \<noteq> trapframe (procs s p) \<longrightarrow> trapframes t a = trapframes s a) \<and> procs t = procs s"
proof -
  let ?tf = "trapframe (procs s p)"
  let ?i = "upd_csr (\<lambda>c. c\<lparr>stvec := sym_kernelvec (syms s)\<rparr>) s"
  let ?u = "?i\<lparr>core := touch (core ?i), trapframes := (trapframes s)(?tf := (trapframes s ?tf)(T_epc := sepc (my_csr s)))\<rparr>"
  have r: "runs p ?u" using assms(1-4) by (simp add: runs_def)
  have c: "my_csr ?u = (my_csr s)\<lparr>stvec := sym_kernelvec (syms s)\<rparr>"
    by (simp add: my_csr_def upd_csr_def)
  obtain t where t: "usertrap_body disk_intr pad p ?u = Ret 0 t" "runs p t" "procs t = procs s" "my_csr t = my_csr ?u" "syms t = syms s"
      "trapframes t = (trapframes s)(?tf := (trapframes s ?tf)(T_epc := sepc (my_csr s) + 4, T_a0 := v))"
    using usertrap_body_quick [OF r, of v disk_intr pad] assms(6-8) c by auto
  let ?t = "t\<lparr>core := touch (core t)\<rparr>"
  have "runs p ?t" using t(2) by simp
  from prepare_return_eq [OF this] obtain w where w: "prepare_return ?t = Ret () w" "procs w = procs t" "\<not> intr_get (core w)"
      "sepc (my_csr w) = trapframes t (trapframe (procs t p)) T_epc" "\<not> spp (my_csr w)" "spie (my_csr w)"
      "stvec (my_csr w) = TRAMPOLINE + (sym_uservec (syms t) - sym_trampoline (syms t))"
      "trapframes w = (trapframes t)(trapframe (procs t p) := (trapframes t (trapframe (procs t p)))
         (T_kernel_satp := satp (my_csr ?t), T_kernel_sp := kstack (procs t p) + PGSIZE, T_kernel_trap := sym_usertrap (syms t),
          T_kernel_hartid := of_nat (cpuid (core t))))" by auto
  have "killed p t = Ret 0 ?t" using t(2,3) assms(7) by (simp add: runs_def kstep)
  then have "usertrap disk_intr pad s = Ret (MAKE_SATP (pagetable (procs s p))) w"
    using assms(1-5) t(1) w(1,2) t(3) by (simp add: usertrap_def trapinithart_def kstep kwhen_def kret_def)
  then show ?thesis using w t by auto
qed


text \<open>Process 2, with process id 3, traps at address 0x1000 with 11 in a7.\<close>

definition demo_trap :: proc_state where
  "demo_trap = (demo_console
     \<lparr>ftab = (\<lambda>_. \<lparr>f_type = FD_NONE, f_ref = 0, f_readable = False, f_writable = False, f_pipe = 0, f_ip = None, f_off = 0, f_major = 0\<rparr>),
      devsws = (\<lambda>_. \<lparr>dev_read = None, dev_write = None\<rparr>),
      syms = \<lparr>sym_etext = 0x80008000, sym_trampoline = 0x80007000, sym_uservec = 0x80007000, sym_userret = 0x80007100,
              sym_usertrap = 0x80002000, sym_kernelvec = 0x80005000, sym_forkret = 0x80001000\<rparr>,
      csr = (\<lambda>_. \<lparr>spp = False, spie = False, sepc = 0x1000, scause = 8, stval = 0, stvec = 0, satp = 0\<rparr>),
      now = 0, kernel_pagetable = 0, first_run = False, plic_dev = (\<lambda>_. 0), plic_claims = 0, plic_writes = []\<rparr>)
     \<lparr>trapframes := (\<lambda>_ g. if g = T_a7 then 11 else 7)\<rparr>"

theorem usertrap_system_call_witness:
  "\<exists>t. usertrap (\<lambda>s. Ret () s) [0, 0, 0, 0] demo_trap = Ret (MAKE_SATP 0) t \<and> trapframes t 0 T_a0 = 3 \<and> trapframes t 0 T_epc = 0x1004
    \<and> trapframes t 0 T_a7 = 11"
proof -
  have q: "cpu_ok (core demo_trap)" "noff (mycpu (core demo_trap)) = 0" "free_lock (ProcLock 2) (core demo_trap)" "cproc (mycpu (core demo_trap)) = Some 2"
    by (simp_all add: demo_trap_def demo_console_def demo_bio_def core0_def hart_defs)
  have p: "procs demo_trap 2 = proc0\<lparr>state := RUNNING, pid := 3\<rparr>" "trapframes demo_trap = (\<lambda>_ g. if g = T_a7 then 11 else 7)"
    by (simp_all add: demo_trap_def demo_console_def demo_bio_def)
  have c: "my_csr demo_trap = \<lparr>spp = False, spie = False, sepc = 0x1000, scause = 8, stval = 0, stvec = 0, satp = 0\<rparr>"
    by (simp add: demo_trap_def demo_console_def demo_bio_def my_csr_def)
  have z: "killed_flag (procs demo_trap 2) = 0" "trapframe (procs demo_trap 2) = 0" "pagetable (procs demo_trap 2) = 0" by (simp_all add: p proc0_def)
  have "quick_result (sint (ucast (trapframes demo_trap (trapframe (procs demo_trap 2)) T_a7) :: u32)) (pid (procs demo_trap 2)) = Some 3"
    by (simp add: p quick_result_def)
  from usertrap_system_call [OF q _ _ _ this, of "\<lambda>s. Ret () s" "[0, 0, 0, 0]"]
  obtain t where t: "usertrap (\<lambda>s. Ret () s) [0, 0, 0, 0] demo_trap = Ret (MAKE_SATP 0) t" "trapframes t 0 T_a0 = 3" "trapframes t 0 T_epc = 0x1000 + 4"
      "trapframes t 0 T_a7 = trapframes demo_trap 0 T_a7"
    using z by (auto simp: c)
  then show ?thesis using p(2) by auto
qed

end
