(* ===== verification/Mutex.thy ===== *)
theory Mutex
  imports Spinlock
begin

text \<open>
  The spin lock of \<^verbatim>\<open>kernel/spinlock.c\<close> with several harts: every access of \<^verbatim>\<open>acquire\<close>, \<^verbatim>\<open>holding\<close> and
  \<^verbatim>\<open>release\<close> to the fields of the lock is one step, the steps of the harts are interleaved in any order.
  Theory Spinlock runs \<^verbatim>\<open>acquire\<close> and \<^verbatim>\<open>release\<close> as one action of one hart; the simulation here justifies
  that.
\<close>

subsection \<open>One hart\<close>

text \<open>
  Where a hart is: outside; in \<^verbatim>\<open>acquire\<close> before the two reads of \<^verbatim>\<open>holding\<close>, in the loop with the atomic
  exchange, before the store of \<^verbatim>\<open>cpu\<close>; in its critical section; in \<^verbatim>\<open>release\<close> before the two reads of
  \<^verbatim>\<open>holding\<close>, before the two stores; or in one of the panics.
\<close>

datatype lock_pc = Out | AcqLocked | AcqCpu | Exchange | SetCpu | Inside | RelLocked | RelCpu | ClearCpu | Store | PanicAcquire | PanicRelease

definition lock_exec :: "nat \<Rightarrow> lock_pc \<Rightarrow> spinlock \<Rightarrow> lock_pc \<times> spinlock" where
  "lock_exec h pc lk =
     (case pc of
        Out \<Rightarrow> (AcqLocked, lk)
      | AcqLocked \<Rightarrow> (if locked lk \<noteq> 0 then AcqCpu else Exchange, lk)
      | AcqCpu \<Rightarrow> (if lcpu lk = Some h then PanicAcquire else Exchange, lk)
      | Exchange \<Rightarrow> (if locked lk \<noteq> 0 then Exchange else SetCpu, lk\<lparr>locked := 1\<rparr>)
      | SetCpu \<Rightarrow> (Inside, lk\<lparr>lcpu := Some h\<rparr>)
      | Inside \<Rightarrow> (RelLocked, lk)
      | RelLocked \<Rightarrow> (if locked lk \<noteq> 0 then RelCpu else PanicRelease, lk)
      | RelCpu \<Rightarrow> (if lcpu lk = Some h then ClearCpu else PanicRelease, lk)
      | ClearCpu \<Rightarrow> (Store, lk\<lparr>lcpu := None\<rparr>)
      | Store \<Rightarrow> (Out, lk\<lparr>locked := 0\<rparr>)
      | PanicAcquire \<Rightarrow> (PanicAcquire, lk)
      | PanicRelease \<Rightarrow> (PanicRelease, lk))"

subsection \<open>All harts\<close>

record smp =
  slock :: spinlock
  pcs :: "nat \<Rightarrow> lock_pc"

inductive smp_step :: "smp \<Rightarrow> smp \<Rightarrow> bool" where
  hart: "lock_exec h (pcs s h) (slock s) = (pc, lk) \<Longrightarrow> smp_step s (s\<lparr>slock := lk, pcs := (pcs s)(h := pc)\<rparr>)"

inductive_cases smp_stepE: "smp_step s t"

definition smp_init :: "string \<Rightarrow> smp" where
  "smp_init n = \<lparr>slock = \<lparr>locked = 0, lname = n, lcpu = None\<rparr>, pcs = (\<lambda>_. Out)\<rparr>"

subsection \<open>The lock as one action\<close>

text \<open>The abstract lock: nobody or one hart has it; taking it and giving it back are one step each.\<close>

inductive abs_lock :: "nat option \<Rightarrow> nat option \<Rightarrow> bool" where
  take_it: "abs_lock None (Some h)"
| give_back: "abs_lock (Some h) None"

fun owns :: "lock_pc \<Rightarrow> bool" where
  "owns SetCpu = True" | "owns Inside = True" | "owns RelLocked = True" | "owns RelCpu = True" | "owns ClearCpu = True"
| "owns Store = True" | "owns _ = False"

text \<open>The owner whose name is in the lock: after the store of \<^verbatim>\<open>cpu\<close> and before it is cleared.\<close>

fun named :: "lock_pc \<Rightarrow> bool" where
  "named Inside = True" | "named RelLocked = True" | "named RelCpu = True" | "named ClearCpu = True" | "named _ = False"

definition lock_sim :: "smp \<Rightarrow> nat option \<Rightarrow> bool" where
  "lock_sim s w \<longleftrightarrow> (\<forall>h. owns (pcs s h) \<longleftrightarrow> w = Some h) \<and> (locked (slock s) \<noteq> 0 \<longleftrightarrow> w \<noteq> None)
     \<and> lcpu (slock s) = (case w of None \<Rightarrow> None | Some h \<Rightarrow> if named (pcs s h) then Some h else None)
     \<and> (\<forall>h. pcs s h \<noteq> PanicAcquire \<and> pcs s h \<noteq> PanicRelease)"

lemma lock_sim_init: "lock_sim (smp_init n) None"
  by (simp add: lock_sim_def smp_init_def)

lemma lock_simI:
  assumes "\<And>k. k \<noteq> h \<Longrightarrow> owns (pcs s k) \<longleftrightarrow> w = Some k" "owns pc \<longleftrightarrow> w = Some h" "locked lk \<noteq> 0 \<longleftrightarrow> w \<noteq> None"
    "lcpu lk = (case w of None \<Rightarrow> None | Some k \<Rightarrow> if named (((pcs s)(h := pc)) k) then Some k else None)"
    "\<And>k. pcs s k \<noteq> PanicAcquire \<and> pcs s k \<noteq> PanicRelease" "pc \<noteq> PanicAcquire" "pc \<noteq> PanicRelease"
  shows "lock_sim (s\<lparr>slock := lk, pcs := (pcs s)(h := pc)\<rparr>) w"
  using assms unfolding lock_sim_def by auto

lemma lock_sim_exec:
  assumes sim: "lock_sim s w" and e: "lock_exec h (pcs s h) (slock s) = (pc, lk)"
  defines "w' \<equiv> (if pcs s h = Exchange \<and> locked (slock s) = 0 then Some h else if pcs s h = Store then None else w)"
  shows "lock_sim (s\<lparr>slock := lk, pcs := (pcs s)(h := pc)\<rparr>) w'" "w' = w \<or> abs_lock w w'"
proof -
  have I: "owns (pcs s k) \<longleftrightarrow> w = Some k" "locked (slock s) \<noteq> 0 \<longleftrightarrow> w \<noteq> None"
    "lcpu (slock s) = (case w of None \<Rightarrow> None | Some h \<Rightarrow> if named (pcs s h) then Some h else None)"
    "pcs s k \<noteq> PanicAcquire \<and> pcs s k \<noteq> PanicRelease" for k
    using sim unfolding lock_sim_def by blast+
  have mine: "w = Some h" if "owns (pcs s h)" using I(1) that by simp
  show "lock_sim (s\<lparr>slock := lk, pcs := (pcs s)(h := pc)\<rparr>) w'"
    by (cases "pcs s h"; rule lock_simI)
      (use I(1) [of h] I e in \<open>auto simp: lock_exec_def w'_def split: if_splits option.splits\<close>)
  show "w' = w \<or> abs_lock w w'"
    using I(1) [of h] I(2) by (cases w) (auto simp: w'_def intro: abs_lock.intros)
qed


lemma lock_sim_step:
  assumes "smp_step s t" "lock_sim s w"
  shows "\<exists>w'. lock_sim t w' \<and> (w' = w \<or> abs_lock w w')"
proof -
  obtain h pc lk where t: "t = s\<lparr>slock := lk, pcs := (pcs s)(h := pc)\<rparr>" "lock_exec h (pcs s h) (slock s) = (pc, lk)"
    using assms(1) by (auto elim: smp_stepE)
  from lock_sim_exec [OF assms(2) t(2)] show ?thesis unfolding t(1) by (intro exI conjI)
qed

lemma lock_sim_reach: "smp_step\<^sup>*\<^sup>* (smp_init n) s \<Longrightarrow> \<exists>w. lock_sim s w"
proof (induction rule: rtranclp_induct)
  case base
  show ?case using lock_sim_init by blast
next
  case (step s t)
  then show ?case using lock_sim_step by blast
qed

text \<open>A schedule: the harts that take the steps.\<close>

definition hart_step :: "nat \<Rightarrow> smp \<Rightarrow> smp" where
  "hart_step h s = (let (pc, lk) = lock_exec h (pcs s h) (slock s) in s\<lparr>slock := lk, pcs := (pcs s)(h := pc)\<rparr>)"

definition run_harts :: "nat list \<Rightarrow> smp \<Rightarrow> smp" where
  "run_harts hs s = fold hart_step hs s"

lemma run_harts_reach: "smp_step\<^sup>*\<^sup>* s (run_harts hs s)"
proof (induction hs arbitrary: s)
  case Nil
  show ?case by (simp add: run_harts_def)
next
  case (Cons h hs)
  have "smp_step s (hart_step h s)" by (auto simp: hart_step_def split: prod.split intro: smp_step.intros)
  then show ?case using Cons.IH [of "hart_step h s"] by (simp add: run_harts_def)
qed

subsection \<open>Properties\<close>

text \<open>
  C11. Mutual exclusion: in every interleaving of the harts, at most one hart is in its critical section,
  its number is in the lock and the lock is taken; no check of \<^verbatim>\<open>acquire\<close> or \<^verbatim>\<open>release\<close> fails; and every
  step is a step of the abstract lock that one hart takes and gives back in one action, or leaves its
  state alone.
\<close>

theorem spinlock_mutual_exclusion:
  assumes "smp_step\<^sup>*\<^sup>* (smp_init n) s"
  shows "(\<forall>h k. pcs s h = Inside \<longrightarrow> pcs s k = Inside \<longrightarrow> h = k) \<and>
    (\<forall>h. pcs s h = Inside \<longrightarrow> lcpu (slock s) = Some h \<and> locked (slock s) \<noteq> 0) \<and>
    (\<forall>h. pcs s h \<noteq> PanicAcquire \<and> pcs s h \<noteq> PanicRelease) \<and>
    (\<exists>w. lock_sim s w \<and> (\<forall>t. smp_step s t \<longrightarrow> (\<exists>w'. lock_sim t w' \<and> (w' = w \<or> abs_lock w w'))))"
proof -
  obtain w where w: "lock_sim s w" using lock_sim_reach [OF assms] by blast
  have in_w: "w = Some h" if "pcs s h = Inside" for h
  proof -
    have "owns (pcs s h)" using that by simp
    then show ?thesis using w by (simp add: lock_sim_def)
  qed
  have "h = k" if "pcs s h = Inside" "pcs s k = Inside" for h k using in_w [OF that(1)] in_w [OF that(2)] by simp
  moreover have "lcpu (slock s) = Some h \<and> locked (slock s) \<noteq> 0" if "pcs s h = Inside" for h
    using in_w [OF that] that w by (simp add: lock_sim_def)
  moreover have "pcs s h \<noteq> PanicAcquire \<and> pcs s h \<noteq> PanicRelease" for h using w by (simp add: lock_sim_def)
  ultimately show ?thesis using w lock_sim_step by blast
qed

theorem spinlock_mutual_exclusion_witness:
  "pcs (run_harts [0, 1, 0, 1, 1, 0, 1, 0] (smp_init ''pr'')) 1 = Inside \<and> pcs (run_harts [0, 1, 0, 1, 1, 0, 1, 0] (smp_init ''pr'')) 0 \<noteq> Inside
   \<and> lcpu (slock (run_harts [0, 1, 0, 1, 1, 0, 1, 0] (smp_init ''pr''))) = Some 1"
proof -
  let ?s = "run_harts [0, 1, 0, 1, 1, 0, 1, 0] (smp_init ''pr'')"
  have one: "pcs ?s 1 = Inside"
    by (simp add: run_harts_def hart_step_def lock_exec_def smp_init_def)
  note inv = spinlock_mutual_exclusion [OF run_harts_reach, of "[0, 1, 0, 1, 1, 0, 1, 0]" "''pr''"]
  have "pcs ?s 0 \<noteq> Inside" using inv one by (metis zero_neq_one)
  moreover have "lcpu (slock ?s) = Some 1" using inv one by blast
  ultimately show ?thesis using one by blast
qed

end
