(* ===== verification/Shell.thy ===== *)
theory Shell
  imports Prelude
begin

text \<open>
  The front end of the C shell (\<^verbatim>\<open>c-shell/src/lexer.c\<close>, \<^verbatim>\<open>c-shell/src/parser.c\<close>, the redirection arguments of
  \<^verbatim>\<open>command.c\<close>). A C string is the list of its characters before the final NUL; the index of the
  lexer's loop is the part of the line that is still to be read.
\<close>

subsection \<open>Tokens\<close>

record token =
  tvalue :: string
  ttype :: int

definition is_blank :: "char \<Rightarrow> bool" where
  "is_blank c \<longleftrightarrow> c = CHR '' '' \<or> c = CHR 0x09 \<or> c = CHR 0x0A \<or> c = CHR 0x0D"

definition is_op :: "char \<Rightarrow> bool" where
  "is_op c \<longleftrightarrow> c = CHR ''|'' \<or> c = CHR ''&'' \<or> c = CHR ''<'' \<or> c = CHR ''>'' \<or> c = CHR '';''"

abbreviation backslash :: char where
  "backslash \<equiv> CHR 0x5C"

abbreviation dquote :: char where
  "dquote \<equiv> CHR 0x22"

abbreviation squote :: char where
  "squote \<equiv> CHR 0x27"

definition op_tok :: "string \<Rightarrow> token" where
  "op_tok v = \<lparr>tvalue = v, ttype = 0\<rparr>"

definition word_tok :: "string \<Rightarrow> token" where
  "word_tok v = \<lparr>tvalue = v, ttype = 4\<rparr>"

subsection \<open>The lexer\<close>

text \<open>Inside double quotes: the characters so far are \<open>acc\<close>; \<open>None\<close> is the return of -1.\<close>

fun lex_dquote :: "string \<Rightarrow> string \<Rightarrow> (string \<times> string) option" where
  "lex_dquote [] acc = None"
| "lex_dquote (c # cs) acc =
     (if c = dquote then Some (acc, cs)
      else if c = backslash then
        (case cs of
           [] \<Rightarrow> None
         | d # ds \<Rightarrow> lex_dquote ds (if d = dquote \<or> d = backslash then acc @ [d] else acc @ [backslash, d]))
      else lex_dquote cs (acc @ [c]))"

fun lex_squote :: "string \<Rightarrow> string \<Rightarrow> (string \<times> string) option" where
  "lex_squote [] acc = None"
| "lex_squote (c # cs) acc = (if c = squote then Some (acc, cs) else lex_squote cs (acc @ [c]))"

lemma lex_dquote_shorter: "lex_dquote cs acc = Some (v, r) \<Longrightarrow> length r < length cs"
  by (induction cs acc rule: lex_dquote.induct) (auto split: if_splits list.splits)

lemma lex_squote_shorter: "lex_squote cs acc = Some (v, r) \<Longrightarrow> length r < length cs"
  by (induction cs acc rule: lex_squote.induct) (auto split: if_splits)

text \<open>A word, with the quoted and escaped parts that it is glued from.\<close>

function lex_word :: "string \<Rightarrow> string \<Rightarrow> (string \<times> string) option" where
  "lex_word [] acc = Some (acc, [])"
| "lex_word (c # cs) acc =
     (if is_blank c \<or> is_op c then Some (acc, c # cs)
      else if c = backslash then (case cs of [] \<Rightarrow> None | d # ds \<Rightarrow> lex_word ds (acc @ [d]))
      else if c = dquote then (case lex_dquote cs acc of None \<Rightarrow> None | Some (a, r) \<Rightarrow> lex_word r a)
      else if c = squote then (case lex_squote cs acc of None \<Rightarrow> None | Some (a, r) \<Rightarrow> lex_word r a)
      else lex_word cs (acc @ [c]))"
  by pat_completeness auto
termination
  by (relation "measure (\<lambda>(cs, acc). length cs)") (auto dest: lex_dquote_shorter lex_squote_shorter)

lemma lex_word_shorter: "lex_word cs acc = Some (v, r) \<Longrightarrow> length r \<le> length cs"
proof (induction cs acc rule: lex_word.induct)
  case (2 c cs acc)
  then show ?case
    by (auto split: if_splits list.splits option.splits dest!: lex_dquote_shorter lex_squote_shorter)
      (metis le_SucI le_trans less_imp_le_nat)+
qed auto

text \<open>
  The main loop. After a word the index is at the character that ended it, and the increment of the
  \<^verbatim>\<open>for\<close> statement steps over that character: the lexer goes on with the tail of the rest.
\<close>

definition push_tok :: "token \<Rightarrow> token list option \<Rightarrow> token list option" where
  "push_tok t r = map_option (\<lambda>ts. t # ts) r"

function lexer :: "string \<Rightarrow> token list option" where
  "lexer cmd =
     (case dropWhile is_blank cmd of
        [] \<Rightarrow> Some []
      | c # cs \<Rightarrow>
          if c = CHR ''>'' \<and> cs \<noteq> [] \<and> hd cs = CHR ''>'' then push_tok (op_tok ''>>'') (lexer (tl cs))
          else if is_op c then push_tok (op_tok [c]) (lexer cs)
          else (case lex_word (c # cs) [] of
                  None \<Rightarrow> None
                | Some (v, r) \<Rightarrow> push_tok (word_tok v) (lexer (tl r))))"
  by pat_completeness auto
termination
proof (relation "measure length", goal_cases)
  case (2 cmd c cs)
  then show ?case using length_dropWhile_le [of is_blank cmd] by (simp add: le_diff_conv)
next
  case (3 cmd c cs)
  then show ?case using length_dropWhile_le [of is_blank cmd] by simp
next
  case (4 cmd c cs a v r)
  then show ?case using length_dropWhile_le [of is_blank cmd] lex_word_shorter [of "c # cs" "[]" v r] by simp
qed simp

lemmas lexer_unfold = lexer.simps
declare lexer.simps [simp del]


text \<open>The operator character that stands for itself, and a line of such tokens.\<close>

lemma lexer_Nil [simp]: "lexer [] = Some []"
  by (simp add: lexer_unfold)

lemma lexer_blank: "is_blank c \<Longrightarrow> lexer (c # cs) = lexer cs"
  by (subst (1 2) lexer_unfold) simp

lemma op_not_blank [simp]: "is_op c \<Longrightarrow> \<not> is_blank c"
  by (auto simp: is_op_def is_blank_def)

lemma lexer_op: "is_op c \<Longrightarrow> \<not> (c = CHR ''>'' \<and> cs \<noteq> [] \<and> hd cs = CHR ''>'') \<Longrightarrow> lexer (c # cs) = push_tok (op_tok [c]) (lexer cs)"
  by (subst lexer_unfold) (auto simp: op_not_blank)

lemma lexer_appendop: "lexer (CHR ''>'' # CHR ''>'' # cs) = push_tok (op_tok ''>>'') (lexer cs)"
  by (subst lexer_unfold) (simp add: is_blank_def)

lemma lexer_word:
  "\<not> is_blank c \<Longrightarrow> \<not> is_op c \<Longrightarrow> lex_word (c # cs) [] = Some (v, r) \<Longrightarrow> lexer (c # cs) = push_tok (word_tok v) (lexer (tl r))"
  by (subst lexer_unfold) (auto simp: is_op_def)

subsection \<open>Printing tokens\<close>

text \<open>
  A token as a line can carry it: an operator as it is, a word with an empty pair of quotes first (so
  that the empty word is visible) and a backslash before each of its characters; a blank follows.
\<close>

definition quote_word :: "string \<Rightarrow> string" where
  "quote_word w = [squote, squote] @ concat (map (\<lambda>c. [backslash, c]) w)"

definition show_tok :: "token \<Rightarrow> string" where
  "show_tok t = (if ttype t = 0 then tvalue t else quote_word (tvalue t)) @ [CHR '' '']"

definition shell_token :: "token \<Rightarrow> bool" where
  "shell_token t \<longleftrightarrow> (ttype t = 0 \<and> tvalue t \<in> {''|'', ''&'', ''<'', ''>'', ''>>'', '';''}) \<or> ttype t = 4"

lemma lex_escaped:
  "lex_word (concat (map (\<lambda>c. [backslash, c]) w) @ CHR '' '' # r) acc = Some (acc @ w, CHR '' '' # r)"
  by (induction w arbitrary: acc) (simp_all add: is_blank_def is_op_def)

lemma lex_quoted: "lex_word (quote_word w @ CHR '' '' # r) [] = Some (w, CHR '' '' # r)"
  using lex_escaped [of w r "[]"] by (simp add: quote_word_def is_blank_def is_op_def)

lemma lexer_show:
  assumes "shell_token t"
  shows "lexer (show_tok t @ r) = push_tok t (lexer r)"
proof (cases "ttype t = 0")
  case True
  then have t: "t = op_tok (tvalue t)" "tvalue t \<in> {''|'', ''&'', ''<'', ''>'', ''>>'', '';''}"
    using assms by (auto simp: op_tok_def shell_token_def)
  have b: "lexer (CHR '' '' # r) = lexer r" by (simp add: lexer_blank is_blank_def)
  have "lexer (tvalue t @ CHR '' '' # r) = push_tok (op_tok (tvalue t)) (lexer (CHR '' '' # r))"
    using t(2) by (auto simp: lexer_op lexer_appendop is_op_def)
  then show ?thesis using True b t(1) by (simp add: show_tok_def)
next
  case False
  then have t: "t = word_tok (tvalue t)" using assms by (auto simp: word_tok_def shell_token_def)
  have "lexer (quote_word (tvalue t) @ CHR '' '' # r) = push_tok (word_tok (tvalue t)) (lexer (tl (CHR '' '' # r)))"
    using lexer_word [of squote "tl (quote_word (tvalue t) @ CHR '' '' # r)"] lex_quoted [of "tvalue t" r]
    by (simp add: quote_word_def is_blank_def is_op_def)
  then show ?thesis using False t by (simp add: show_tok_def)
qed


lemma lexer_show_line: "\<forall>t \<in> set ts. shell_token t \<Longrightarrow> lexer (concat (map show_tok ts) @ r) = map_option (\<lambda>us. ts @ us) (lexer r)"
  by (induction ts) (cases "lexer r"; auto simp: lexer_show push_tok_def)+

text \<open>Characters that mean nothing to the lexer.\<close>

definition plain :: "char \<Rightarrow> bool" where
  "plain c \<longleftrightarrow> \<not> is_blank c \<and> \<not> is_op c \<and> c \<noteq> backslash \<and> c \<noteq> dquote \<and> c \<noteq> squote"

lemma lex_plain:
  assumes "\<forall>c \<in> set w. plain c" "r = [] \<or> is_blank (hd r) \<or> is_op (hd r)"
  shows "lex_word (w @ r) acc = Some (acc @ w, r)"
  using assms(1)
proof (induction w arbitrary: acc)
  case Nil
  then show ?case using assms(2) by (cases r) auto
qed (simp add: plain_def)

lemma lexer_plain:
  assumes "\<forall>c \<in> set w. plain c" "w \<noteq> []" "r = [] \<or> is_blank (hd r) \<or> is_op (hd r)"
  shows "lexer (w @ r) = push_tok (word_tok w) (lexer (tl r))"
proof -
  obtain c cs where w: "w = c # cs" using assms(2) by (cases w) auto
  have "lex_word (c # cs @ r) [] = Some (w, r)" using lex_plain [OF assms(1,3), of "[]"] w by simp
  then show ?thesis using assms(1) w lexer_word [of c "cs @ r" w r] by (simp add: plain_def)
qed

lemma lex_dquote_length: "lex_dquote cs acc = Some (v, r) \<Longrightarrow> length v + length r < length acc + length cs"
  by (induction cs acc rule: lex_dquote.induct) (auto split: if_splits list.splits)

lemma lex_squote_length: "lex_squote cs acc = Some (v, r) \<Longrightarrow> length v + length r < length acc + length cs"
  by (induction cs acc rule: lex_squote.induct) (auto split: if_splits)

lemma lex_word_length: "lex_word cs acc = Some (v, r) \<Longrightarrow> length v + length r \<le> length acc + length cs"
proof (induction cs acc rule: lex_word.induct)
  case (2 c cs acc)
  then show ?case
    by (auto split: if_splits list.splits option.splits dest!: lex_dquote_length lex_squote_length)
      (metis le_SucI le_trans less_imp_le_nat add_Suc_right)+
qed simp

definition tok_chars :: "token list \<Rightarrow> nat" where
  "tok_chars ts = sum_list (map (\<lambda>t. length (tvalue t)) ts)"

lemma lexer_length: "lexer cmd = Some ts \<Longrightarrow> length ts \<le> length cmd \<and> tok_chars ts \<le> length cmd"
proof (induction cmd arbitrary: ts rule: lexer.induct)
  case (1 cmd)
  have dw: "length (dropWhile is_blank cmd) \<le> length cmd" by (rule length_dropWhile_le)
  show ?case
  proof (cases "dropWhile is_blank cmd")
    case Nil
    note e = "1.prems" [unfolded lexer_unfold [of cmd] Nil list.case]
    then show ?thesis by (simp add: tok_chars_def)
  next
    case (Cons c cs)
    note e = "1.prems" [unfolded lexer_unfold [of cmd] Cons list.case]
    consider (app) "c = CHR ''>'' \<and> cs \<noteq> [] \<and> hd cs = CHR ''>''"
      | (oper) "\<not> (c = CHR ''>'' \<and> cs \<noteq> [] \<and> hd cs = CHR ''>'')" "is_op c"
      | (wrd) "\<not> (c = CHR ''>'' \<and> cs \<noteq> [] \<and> hd cs = CHR ''>'')" "\<not> is_op c" by blast
    then show ?thesis
    proof cases
      case app
      then obtain us where us: "lexer (tl cs) = Some us" "ts = op_tok ''>>'' # us" using e by (auto simp: push_tok_def)
      then have "length us \<le> length (tl cs) \<and> tok_chars us \<le> length (tl cs)" using "1.IH"(1) [OF Cons app us(1)] by simp
      then show ?thesis using us app dw Cons by (cases cs) (auto simp: tok_chars_def op_tok_def)
    next
      case oper
      then obtain us where us: "lexer cs = Some us" "ts = op_tok [c] # us" using e by (auto simp: push_tok_def)
      then have "length us \<le> length cs \<and> tok_chars us \<le> length cs" using "1.IH"(2) [OF Cons oper us(1)] by simp
      then show ?thesis using us dw Cons by (auto simp: tok_chars_def op_tok_def)
    next
      case wrd
      then obtain v r us where us: "lex_word (c # cs) [] = Some (v, r)" "lexer (tl r) = Some us" "ts = word_tok v # us"
        using e by (auto simp: push_tok_def split: option.splits)
      then have "length us \<le> length (tl r) \<and> tok_chars us \<le> length (tl r)" using "1.IH"(3) [OF Cons wrd us(1) _ us(2)] by simp
      then show ?thesis using us lex_word_length [OF us(1)] dw Cons lex_word_shorter [OF us(1)]
        by (cases r) (auto simp: tok_chars_def word_tok_def)
    qed
  qed
qed


subsection \<open>The parser\<close>

text \<open>
  A command. The array \<^verbatim>\<open>args\<close> of a hundred pointers holds \<open>nargs\<close> in its first \<^verbatim>\<open>arg_index\<close> places; a store
  behind its end, or behind the end of the array of a hundred commands, is \<open>Overflow\<close>.
\<close>

record node =
  piped :: int
  background :: int
  redir :: int
  redir_type :: int
  output_file :: "string option"
  input_file :: "string option"
  ncmd :: "string option"
  nargs :: "string list"
  semi :: int

datatype shell_error = Syntax | Overflow

definition ARGS_MAX :: nat where
  "ARGS_MAX = 100"

definition COMS_MAX :: nat where
  "COMS_MAX = 100"

definition new_node :: node where
  "new_node = \<lparr>piped = 0, background = 0, redir = 0, redir_type = 0, output_file = None, input_file = None,
     ncmd = None, nargs = [], semi = 0\<rparr>"

definition add_word :: "string \<Rightarrow> node \<Rightarrow> node" where
  "add_word v n = n\<lparr>ncmd := (case ncmd n of None \<Rightarrow> Some v | Some c \<Rightarrow> Some c), nargs := nargs n @ [v]\<rparr>"

text \<open>The rest of the tokens, the commands that are finished, the current one.\<close>

fun parse_loop :: "token list \<Rightarrow> node list \<Rightarrow> node \<Rightarrow> shell_error + node list" where
  "parse_loop [] done cur =
     (if ncmd cur \<noteq> None
      then if ARGS_MAX \<le> length (nargs cur) then Inl Overflow else Inr (done @ [cur])
      else Inr done)"
| "parse_loop (t # ts) done cur =
     (if ttype t = 0 \<and> (tvalue t = ''|'' \<or> tvalue t = '';'')
      then if ts = [] \<or> ttype (hd ts) = 0 \<or> ncmd cur = None then Inl Syntax
           else if COMS_MAX \<le> length done + 1 then Inl Overflow
           else parse_loop ts (done @ [if tvalue t = ''|'' then cur\<lparr>piped := 1\<rparr> else cur\<lparr>semi := 1\<rparr>]) new_node
      else if ttype t = 0 \<and> tvalue t = ''&''
      then if ncmd cur = None then Inl Syntax
           else if COMS_MAX \<le> length done + 1 then Inl Overflow
           else parse_loop ts (done @ [cur\<lparr>background := 1\<rparr>]) new_node
      else if ARGS_MAX \<le> length (nargs cur) then Inl Overflow
      else parse_loop ts done (add_word (tvalue t) cur))"

definition parser :: "token list \<Rightarrow> shell_error + node list" where
  "parser ts = parse_loop ts [] new_node"

subsection \<open>Redirection arguments\<close>

text \<open>
  \<^verbatim>\<open>ext_in\<close> and \<^verbatim>\<open>ext_out\<close> of \<^verbatim>\<open>command.c\<close> take the redirections out of the arguments: what stays, and the
  files in order. \<open>None\<close> is the return of -1 after the message.
\<close>

definition redir_op :: "string \<Rightarrow> bool" where
  "redir_op a \<longleftrightarrow> a = ''<'' \<or> a = ''>'' \<or> a = ''>>''"

fun ext_in :: "string list \<Rightarrow> (string list \<times> string list) option" where
  "ext_in [] = Some ([], [])"
| "ext_in (a # as) =
     (if a = ''<''
      then (case as of
              [] \<Rightarrow> None
            | f # bs \<Rightarrow> if redir_op f then None else map_option (\<lambda>(r, fs). (r, f # fs)) (ext_in bs))
      else map_option (\<lambda>(r, fs). (a # r, fs)) (ext_in as))"

fun ext_out :: "string list \<Rightarrow> (string list \<times> (string \<times> bool) list) option" where
  "ext_out [] = Some ([], [])"
| "ext_out (a # as) =
     (if a = ''>'' \<or> a = ''>>''
      then (case as of
              [] \<Rightarrow> None
            | f # bs \<Rightarrow> if redir_op f then None else map_option (\<lambda>(r, fs). (r, (f, a = ''>>'') # fs)) (ext_out bs))
      else map_option (\<lambda>(r, fs). (a # r, fs)) (ext_out as))"

subsection \<open>The reference: segments between separators\<close>

definition is_sep :: "token \<Rightarrow> bool" where
  "is_sep t \<longleftrightarrow> ttype t = 0 \<and> tvalue t \<in> {''|'', '';'', ''&''}"

fun segments :: "token list \<Rightarrow> token list \<Rightarrow> (token list \<times> string) list" where
  "segments [] seg = (if seg = [] then [] else [(seg, [])])"
| "segments (t # ts) seg = (if is_sep t then (seg, tvalue t) # segments ts [] else segments ts (seg @ [t]))"

definition node_of :: "token list \<times> string \<Rightarrow> node" where
  "node_of = (\<lambda>(seg, sep). new_node\<lparr>ncmd := Some (tvalue (hd seg)), nargs := map tvalue seg,
     piped := of_bool (sep = ''|''), semi := of_bool (sep = '';''), background := of_bool (sep = ''&'')\<rparr>)"

text \<open>
  Every separator has a command in front of it, and after a pipe or a semicolon comes a word. The
  first argument says whether there is a token of the current command already.
\<close>

fun seps_ok :: "bool \<Rightarrow> token list \<Rightarrow> bool" where
  "seps_ok b [] \<longleftrightarrow> True"
| "seps_ok b (t # ts) \<longleftrightarrow>
     (if is_sep t then b \<and> (tvalue t = ''&'' \<or> (ts \<noteq> [] \<and> ttype (hd ts) \<noteq> 0)) \<and> seps_ok False ts else seps_ok True ts)"

definition partial_node :: "token list \<Rightarrow> node" where
  "partial_node seg = (if seg = [] then new_node else new_node\<lparr>ncmd := Some (tvalue (hd seg)), nargs := map tvalue seg\<rparr>)"

lemma add_word_partial [simp]: "add_word (tvalue t) (partial_node seg) = partial_node (seg @ [t])"
  by (simp add: add_word_def partial_node_def new_node_def)

lemma partial_node_simps [simp]:
  "ncmd (partial_node seg) = None \<longleftrightarrow> seg = []" "length (nargs (partial_node seg)) = length seg" "partial_node [] = new_node"
  by (simp_all add: partial_node_def new_node_def)

lemma finish_node:
  assumes "seg \<noteq> []"
  shows "(partial_node seg)\<lparr>piped := 1\<rparr> = node_of (seg, ''|'')" "(partial_node seg)\<lparr>semi := 1\<rparr> = node_of (seg, '';'')"
    "(partial_node seg)\<lparr>background := 1\<rparr> = node_of (seg, ''&'')" "partial_node seg = node_of (seg, [])"
  using assms by (simp_all add: partial_node_def node_of_def new_node_def)

lemma length_node_of [simp]: "length (nargs (node_of (seg, sep))) = length seg"
  by (simp add: node_of_def)

lemma parse_loop_segments:
  "length done + length seg + length ts < 100 \<Longrightarrow>
   parse_loop ts done (partial_node seg) =
     (if seps_ok (seg \<noteq> []) ts then Inr (done @ map node_of (segments ts seg)) else Inl Syntax)"
proof (induction ts arbitrary: "done" seg)
  case Nil
  then show ?case by (auto simp: ARGS_MAX_def finish_node)
next
  case (Cons t ts)
  show ?case
  proof (cases "is_sep t")
    case False
    then show ?thesis using Cons.IH [of "done" "seg @ [t]"] Cons.prems by (auto simp: is_sep_def ARGS_MAX_def)
  next
    case True
    have "parse_loop ts (done @ [n]) new_node = (if seps_ok False ts then Inr (done @ n # map node_of (segments ts [])) else Inl Syntax)"
      if "seg \<noteq> []" for n
      using Cons.IH [of "done @ [n]" "[]"] Cons.prems that by simp
    note step = this
    consider (empty) "seg = []" | (pipe) "seg \<noteq> []" "tvalue t = ''|''" | (semi) "seg \<noteq> []" "tvalue t = '';''" | (amp) "seg \<noteq> []" "tvalue t = ''&''"
      using True by (auto simp: is_sep_def)
    then show ?thesis
    proof cases
      case empty
      then show ?thesis using True by (auto simp: is_sep_def new_node_def)
    next
      case pipe
      then show ?thesis using True Cons.prems step [OF pipe(1)] by (simp add: is_sep_def COMS_MAX_def finish_node(1) [OF pipe(1)])
    next
      case semi
      then show ?thesis using True Cons.prems step [OF semi(1)] by (simp add: is_sep_def COMS_MAX_def finish_node(2) [OF semi(1)])
    next
      case amp
      then show ?thesis using True Cons.prems step [OF amp(1)] by (simp add: is_sep_def COMS_MAX_def finish_node(3) [OF amp(1)])
    qed
  qed
qed

subsection \<open>The grammar of the specification\<close>

text \<open>The grammar that the head comment of \<^verbatim>\<open>parser.c\<close> gives; \<open>BG\<close> has the productions of \<open>LINE\<close>, \<open>CMD\<close> and \<open>TGT\<close> are a word and \<open>ARG\<close>.\<close>

definition is_word :: "token \<Rightarrow> bool" where
  "is_word t \<longleftrightarrow> ttype t \<noteq> 0"

definition is_op_tok :: "token \<Rightarrow> string set \<Rightarrow> bool" where
  "is_op_tok t V \<longleftrightarrow> ttype t = 0 \<and> tvalue t \<in> V"

inductive line_g :: "token list \<Rightarrow> bool" and arg_g :: "token list \<Rightarrow> bool" where
  line_empty: "line_g []"
| line_word: "is_word w \<Longrightarrow> arg_g ts \<Longrightarrow> line_g (w # ts)"
| arg_empty: "arg_g []"
| arg_word: "is_word w \<Longrightarrow> arg_g ts \<Longrightarrow> arg_g (w # ts)"
| arg_target: "is_op_tok t {''<'', ''>'', ''>>''} \<Longrightarrow> is_word w \<Longrightarrow> arg_g ts \<Longrightarrow> arg_g (t # w # ts)"
| arg_command: "is_op_tok t {''|'', '';''} \<Longrightarrow> is_word w \<Longrightarrow> arg_g ts \<Longrightarrow> arg_g (t # w # ts)"
| arg_background: "is_op_tok t {''&''} \<Longrightarrow> line_g ts \<Longrightarrow> arg_g (t # ts)"

inductive_cases line_gE: "line_g (t # ts)"

lemma grammar_seps:
  "line_g ts \<Longrightarrow> seps_ok False ts"
  "arg_g ts \<Longrightarrow> seps_ok True ts"
  by (induction rule: line_g_arg_g.inducts) (auto simp: is_word_def is_op_tok_def is_sep_def)

subsection \<open>Properties\<close>

text \<open>
  C24. Every list of shell tokens can be written as a line that the lexer reads back: operators as they
  are, words (also empty ones, and with any characters) with an empty pair of quotes and a backslash before each character,
  a blank after each token.
\<close>

theorem lexer_roundtrip:
  assumes "\<forall>t \<in> set ts. shell_token t"
  shows "lexer (concat (map show_tok ts)) = Some ts"
  using lexer_show_line [OF assms, of "[]"] by simp

theorem lexer_roundtrip_witness:
  "lexer (concat (map show_tok [word_tok ''cat'', op_tok ''>>'', word_tok ''a b;c''])) = Some [word_tok ''cat'', op_tok ''>>'', word_tok ''a b;c'']"
  by (rule lexer_roundtrip) (simp add: shell_token_def word_tok_def op_tok_def)

text \<open>
  C25. An operator that directly follows a word is lost: for words of ordinary characters the lexer reads
  \<open>u\<close>, operator, \<open>v\<close> without blanks as the two words alone, while with a blank after \<open>u\<close> it reads all
  three tokens.
\<close>

theorem lexer_drops_operator:
  assumes "\<forall>c \<in> set u. plain c" "u \<noteq> []" "\<forall>c \<in> set v. plain c" "v \<noteq> []" "is_op c"
  shows "lexer (u @ c # v) = Some [word_tok u, word_tok v] \<and>
    lexer (u @ CHR '' '' # c # v) = Some [word_tok u, op_tok [c], word_tok v]"
proof
  have v: "lexer v = Some [word_tok v]"
    using lexer_plain [OF assms(3,4), of "[]"] by (simp add: push_tok_def)
  show "lexer (u @ c # v) = Some [word_tok u, word_tok v]"
    using lexer_plain [OF assms(1,2), of "c # v"] assms(5) v by (simp add: push_tok_def)
next
  have v: "lexer v = Some [word_tok v]"
    using lexer_plain [OF assms(3,4), of "[]"] by (simp add: push_tok_def)
  have "hd v \<noteq> CHR ''>''" using assms(3,4) by (cases v) (auto simp: plain_def is_op_def)
  then have "lexer (c # v) = Some [op_tok [c], word_tok v]"
    using lexer_op [of c v] assms(5) v by (simp add: push_tok_def)
  then show "lexer (u @ CHR '' '' # c # v) = Some [word_tok u, op_tok [c], word_tok v]"
    using lexer_plain [OF assms(1,2), of "CHR '' '' # c # v"] by (simp add: push_tok_def is_blank_def)
qed

theorem lexer_drops_operator_witness:
  "lexer ''ls|wc'' = Some [word_tok ''ls'', word_tok ''wc''] \<and> lexer ''ls |wc'' = Some [word_tok ''ls'', op_tok ''|'', word_tok ''wc'']"
  using lexer_drops_operator [of "''ls''" "''wc''" "CHR ''|''"] by (simp add: plain_def is_blank_def is_op_def)

text \<open>
  The buffers of the lexer are large enough: a line of \<open>n\<close> characters gives at most \<open>n\<close> tokens, and the
  values of all tokens together have at most \<open>n\<close> characters.
\<close>

theorem lexer_bounds:
  assumes "lexer cmd = Some ts"
  shows "length ts \<le> length cmd \<and> (\<Sum>t \<leftarrow> ts. length (tvalue t)) \<le> length cmd"
  using lexer_length [OF assms] by (simp add: tok_chars_def)

theorem lexer_bounds_witness: "\<exists>ts. lexer ''ls|wc'' = Some ts \<and> length ts \<le> 5"
proof -
  have "lexer (''ls'' @ CHR ''|'' # ''wc'') = Some [word_tok ''ls'', word_tok ''wc'']"
    using lexer_plain [of "''ls''" "CHR ''|'' # ''wc''"] lexer_plain [of "''wc''" "[]"]
    by (simp add: plain_def is_blank_def is_op_def push_tok_def)
  from lexer_bounds [OF this] show ?thesis
    using lexer_plain [of "''ls''" "CHR ''|'' # ''wc''"] lexer_plain [of "''wc''" "[]"]
    by (simp add: plain_def is_blank_def is_op_def push_tok_def)
qed

text \<open>
  C26. The parser cuts a line of fewer than a hundred tokens at the separators: when every separator has a
  command in front of it and every pipe and semicolon a word behind it, the result is one command per
  segment, with its tokens in order as arguments, the first as its name, and the flag of the separator
  that ends it; every other line is a syntax error.
\<close>

theorem parser_segments:
  assumes "length ts < 100"
  shows "parser ts = (if seps_ok False ts then Inr (map node_of (segments ts [])) else Inl Syntax)"
  using parse_loop_segments [of "[]" "[]" ts] assms by (simp add: parser_def)

theorem parser_segments_witness:
  "parser [word_tok ''ls'', op_tok ''|'', word_tok ''wc'', word_tok ''-l'', op_tok ''&''] =
     Inr [new_node\<lparr>piped := 1, ncmd := Some ''ls'', nargs := [''ls'']\<rparr>,
          new_node\<lparr>background := 1, ncmd := Some ''wc'', nargs := [''wc'', ''-l'']\<rparr>]"
  by (subst parser_segments) (simp_all add: word_tok_def op_tok_def is_sep_def node_of_def new_node_def)

text \<open>
  The grammar of the head comment is a proper part of what the parser accepts: every line of the
  grammar with fewer than a hundred tokens is accepted, but a redirection operator alone, which is not
  a line of the grammar, is accepted too and becomes the name of a command.
\<close>

theorem parser_accepts_grammar:
  assumes "line_g ts" "length ts < 100" "v \<in> {''<'', ''>'', ''>>''}"
  shows "parser ts = Inr (map node_of (segments ts [])) \<and>
    \<not> line_g [op_tok v] \<and> parser [op_tok v] = Inr [new_node\<lparr>ncmd := Some v, nargs := [v]\<rparr>]"
proof
  show "parser ts = Inr (map node_of (segments ts []))"
    using grammar_seps(1) [OF assms(1)] parse_loop_segments [of "[]" "[]" ts] assms(2) by (simp add: parser_def)
  show "\<not> line_g [op_tok v] \<and> parser [op_tok v] = Inr [new_node\<lparr>ncmd := Some v, nargs := [v]\<rparr>]"
    using assms(3) parse_loop_segments [of "[]" "[]" "[op_tok v]"]
    by (auto simp: parser_def is_sep_def op_tok_def node_of_def new_node_def is_word_def elim!: line_gE)
qed

theorem parser_accepts_grammar_witness:
  "parser [word_tok ''ls'', op_tok ''&''] = Inr [new_node\<lparr>ncmd := Some ''ls'', nargs := [''ls''], background := 1\<rparr>] \<and>
   parser [op_tok ''<''] = Inr [new_node\<lparr>ncmd := Some ''<'', nargs := [''<'']\<rparr>]"
proof -
  have "line_g [word_tok ''ls'', op_tok ''&'']"
    by (intro line_g_arg_g.intros) (simp_all add: is_word_def is_op_tok_def word_tok_def op_tok_def)
  from parser_accepts_grammar [OF this, of "''<''"] show ?thesis
    by (simp add: is_sep_def word_tok_def op_tok_def node_of_def new_node_def)
qed

end
