(* ===== verification/Hoststr.thy ===== *)
theory Hoststr
  imports Prelude
begin

text \<open>
  Routines of the C library on strings that the intrinsics of the C shell use: \<^verbatim>\<open>strtol\<close> with base 10, the
  conversions \<^verbatim>\<open>%d\<close> and \<^verbatim>\<open>%ld\<close> of \<^verbatim>\<open>printf\<close>, \<^verbatim>\<open>strstr\<close>, and the words that \<^verbatim>\<open>sscanf\<close> reads with \<^verbatim>\<open>%s\<close>. A string is the
  list of its characters before the NUL.
\<close>

abbreviation nl :: char where "nl \<equiv> CHR 0x0A"

definition cstr :: "string \<Rightarrow> string" where
  "cstr s = takeWhile (\<lambda>c. c \<noteq> CHR 0x00) s"

lemma cstr_id: "CHR 0x00 \<notin> set l \<Longrightarrow> cstr l = l"
  unfolding cstr_def by (rule takeWhile_eq_all_conv [THEN iffD2]) auto

lemma cstr_cstr [simp]: "cstr (cstr l) = cstr l"
  by (simp add: cstr_def)

subsection \<open>Decimal numbers\<close>

definition digit_char :: "nat \<Rightarrow> char" where
  "digit_char d = char_of (48 + d)"

definition char_digit :: "char \<Rightarrow> nat" where
  "char_digit c = of_char c - 48"

definition isdigit :: "char \<Rightarrow> bool" where
  "isdigit c \<longleftrightarrow> 48 \<le> (of_char c :: nat) \<and> (of_char c :: nat) \<le> 57"

definition isspace :: "char \<Rightarrow> bool" where
  "isspace c \<longleftrightarrow> (of_char c :: nat) = 32 \<or> 9 \<le> (of_char c :: nat) \<and> (of_char c :: nat) \<le> 13"

fun dec_nat :: "nat \<Rightarrow> string" where
  "dec_nat n = (if n < 10 then [digit_char n] else dec_nat (n div 10) @ [digit_char (n mod 10)])"

declare dec_nat.simps [simp del]

definition dec :: "int \<Rightarrow> string" where
  "dec n = (if n < 0 then CHR ''-'' # dec_nat (nat (- n)) else dec_nat (nat n))"

definition num_of :: "string \<Rightarrow> nat" where
  "num_of s = foldl (\<lambda>n c. 10 * n + char_digit c) 0 s"

lemma digit_char [simp]: "d < 10 \<Longrightarrow> char_digit (digit_char d) = d" "d < 10 \<Longrightarrow> isdigit (digit_char d)"
  by (simp_all add: digit_char_def char_digit_def isdigit_def of_char_of)

lemma dec_nat_digits: "\<forall>c \<in> set (dec_nat n). isdigit c" "dec_nat n \<noteq> []" "num_of (dec_nat n) = n"
proof (induction n rule: dec_nat.induct)
  case (1 n)
  {
    case 1
    then show ?case by (subst dec_nat.simps) (use "1.IH"(1) in auto)
  next
    case 2
    then show ?case by (subst dec_nat.simps) simp
  next
    case 3
    then show ?case by (subst dec_nat.simps) (use "1.IH"(3) in \<open>auto simp: num_of_def\<close>)
  }
qed

subsection \<open>Reading numbers\<close>

text \<open>Optional white space, an optional sign and digits; \<open>None\<close> if there is no digit.\<close>

definition scan_sign :: "string \<Rightarrow> bool \<times> string" where
  "scan_sign s = (if s \<noteq> [] \<and> hd s = CHR ''-'' then (True, tl s) else if s \<noteq> [] \<and> hd s = CHR ''+'' then (False, tl s) else (False, s))"

definition clamp_long :: "int \<Rightarrow> int" where
  "clamp_long n = min (2 ^ 63 - 1) (max (- (2 ^ 63)) n)"

definition scan_num :: "string \<Rightarrow> (int \<times> string) option" where
  "scan_num s =
     (let (neg, s) = scan_sign (dropWhile isspace s); ds = takeWhile isdigit s in
      if ds = [] then None
      else Some (clamp_long (if neg then - int (num_of ds) else int (num_of ds)), dropWhile isdigit s))"

text \<open>\<^verbatim>\<open>strtol(s, &end, 10)\<close>: the value and the string at \<^verbatim>\<open>end\<close>.\<close>

definition strtol :: "string \<Rightarrow> int \<times> string" where
  "strtol s = (case scan_num s of None \<Rightarrow> (0, s) | Some r \<Rightarrow> r)"

lemma isdigit_facts: "isdigit c \<Longrightarrow> \<not> isspace c" "isdigit c \<Longrightarrow> c \<noteq> CHR ''-''" "isdigit c \<Longrightarrow> c \<noteq> CHR ''+''"
  by (auto simp: isdigit_def isspace_def)

lemma takeWhile_digits:
  assumes "\<forall>c \<in> set ds. isdigit c" "r = [] \<or> \<not> isdigit (hd r)"
  shows "takeWhile isdigit (ds @ r) = ds" "dropWhile isdigit (ds @ r) = r"
  using assms by (cases r; auto)+

lemma scan_num_dec:
  assumes n: "- (2 ^ 63) \<le> n" "n < 2 ^ 63" and r: "r = [] \<or> \<not> isdigit (hd r)"
  shows "scan_num (dec n @ r) = Some (n, r)"
proof -
  have c: "clamp_long n = n" using n by (simp add: clamp_long_def)
  show ?thesis
  proof (cases "n < 0")
    case True
    have sp: "dropWhile isspace (CHR ''-'' # x) = CHR ''-'' # x" for x by (simp add: isspace_def)
    note d = dec_nat_digits [of "nat (- n)"]
    show ?thesis using True takeWhile_digits [OF d(1) r] d(2,3) c sp by (simp add: dec_def scan_num_def scan_sign_def Let_def)
  next
    case False
    note d = dec_nat_digits [of "nat n"]
    obtain x xs where x: "dec_nat (nat n) = x # xs" "isdigit x" using d(1,2) by (cases "dec_nat (nat n)") auto
    have sp: "dropWhile isspace (dec_nat (nat n) @ r) = dec_nat (nat n) @ r" using x isdigit_facts(1) by simp
    have sg: "scan_sign (dec_nat (nat n) @ r) = (False, dec_nat (nat n) @ r)" using x isdigit_facts(2,3) by (simp add: scan_sign_def)
    show ?thesis using False takeWhile_digits [OF d(1) r] d(2,3) c sp sg by (simp add: dec_def scan_num_def Let_def)
  qed
qed

lemma strtol_dec: "- (2 ^ 63) \<le> n \<Longrightarrow> n < 2 ^ 63 \<Longrightarrow> strtol (dec n) = (n, [])"
  using scan_num_dec [of n "[]"] by (simp add: strtol_def)

subsection \<open>Searching\<close>

fun strstr :: "string \<Rightarrow> string \<Rightarrow> bool" where
  "strstr [] n = (n = [])"
| "strstr (c # h) n = (take (length n) (c # h) = n \<or> strstr h n)"

lemma strstr_iff: "strstr h n \<longleftrightarrow> (\<exists>a b. h = a @ n @ b)"
proof (induction h)
  case (Cons c h)
  have "(\<exists>a b. c # h = a @ n @ b) \<longleftrightarrow> (\<exists>b. c # h = n @ b) \<or> (\<exists>a b. h = a @ n @ b)"
    by (metis append_Cons append_Nil list.distinct(1) list.exhaust list.inject)
  moreover have "(\<exists>b. c # h = n @ b) \<longleftrightarrow> take (length n) (c # h) = n" by (metis append_eq_conv_conj append_take_drop_id)
  ultimately show ?case using Cons.IH by simp
qed simp

text \<open>The words of a line.\<close>

function words :: "string \<Rightarrow> string list" where
  "words s = (case dropWhile isspace s of [] \<Rightarrow> [] | c # r \<Rightarrow> takeWhile (\<lambda>c. \<not> isspace c) (c # r) # words (dropWhile (\<lambda>c. \<not> isspace c) (c # r)))"
  by pat_completeness auto
termination
proof (relation "measure length")
  fix s c r
  assume a: "dropWhile isspace s = c # r"
  have "\<not> isspace c" using a by (metis hd_dropWhile list.distinct(1) list.sel(1))
  then have "length (dropWhile (\<lambda>c. \<not> isspace c) (c # r)) \<le> length r" by (simp add: length_dropWhile_le)
  also have "\<dots> < length s" using a length_dropWhile_le [of isspace s] by simp
  finally show "(dropWhile (\<lambda>c. \<not> isspace c) (c # r), s) \<in> measure length" by simp
qed simp

declare words.simps [simp del]

end
