(* ===== verification/Jobs.thy ===== *)
theory Jobs
  imports Hoststr "HOL-Library.Word"
begin

text \<open>
  The job table of the C shell (\<^verbatim>\<open>c-shell/src/main.c\<close>): jobs are entered when a command goes to the
  background or stops, the handler of SIGCHLD (\<^verbatim>\<open>plant\<close>) marks jobs and queues the children that
  ended, and \<^verbatim>\<open>no_longer_waiting\<close> reports them and takes them out of the table. The arrays \<^verbatim>\<open>members\<close> and
  \<^verbatim>\<open>name\<close> of a job are their first \<^verbatim>\<open>num\<close> entries; what \<^verbatim>\<open>waitpid\<close> returns is an input.
\<close>

subsection \<open>State\<close>

record bg =
  bpid :: int
  job :: int
  bcmd :: string
  pgid :: int
  sus :: bool
  members :: "int list"
  mname :: "string list"
  full_cmd :: "string list"

datatype job_msg =
    Started int int
  | Stopped int string
  | Ended string int bool
  | Listed int int "(int \<times> string) list" bool
  | Running int "string list"
  | Foreground "string list"
  | Sent int string
  | Failed string
  | KillPg int int
  | Kill int int

record job_state =
  bg_list :: "bg list"
  jobs :: int
  wait_list :: "(int \<times> bool) list"
  jout :: "job_msg list"

definition WAIT_MAX :: nat where
  "WAIT_MAX = 100"

text \<open>The counter is a \<^verbatim>\<open>long long\<close>, the job number an \<^verbatim>\<open>int\<close>.\<close>

definition to_int :: "int \<Rightarrow> int" where
  "to_int n = sint (word_of_int n :: 32 word)"

lemma to_int_small: "0 \<le> n \<Longrightarrow> n < 2 ^ 31 \<Longrightarrow> to_int n = n"
  unfolding to_int_def by (simp add: signed_of_int signed_take_bit_int_eq_self)

subsection \<open>Entering jobs\<close>

definition add_job :: "bg \<Rightarrow> job_msg \<Rightarrow> job_state \<Rightarrow> job_state" where
  "add_job b m s = s\<lparr>bg_list := bg_list s @ [b], jout := jout s @ [m], jobs := jobs s + 1\<rparr>"

definition assign_bg :: "int \<Rightarrow> string \<Rightarrow> string list \<Rightarrow> job_state \<Rightarrow> job_state" where
  "assign_bg p c as s =
     add_job \<lparr>bpid = p, job = to_int (jobs s), bcmd = c, pgid = p, sus = False, members = [p], mname = [c], full_cmd = as\<rparr>
       (Started (jobs s) p) s"

definition assign_stopped :: "int \<Rightarrow> string \<Rightarrow> string list \<Rightarrow> job_state \<Rightarrow> job_state" where
  "assign_stopped p c as s =
     add_job \<lparr>bpid = p, job = to_int (jobs s), bcmd = c, pgid = p, sus = True, members = [p], mname = [c], full_cmd = as\<rparr>
       (Stopped (jobs s) c) s"

text \<open>The processes of a pipeline and their names, \<open>ps\<close>, are not empty.\<close>

definition assign_bg_multi :: "(int \<times> string) list \<Rightarrow> string \<Rightarrow> string list \<Rightarrow> job_state \<Rightarrow> job_state" where
  "assign_bg_multi ps c as s =
     add_job \<lparr>bpid = fst (hd ps), job = to_int (jobs s), bcmd = c, pgid = fst (hd ps), sus = False,
              members = map fst ps, mname = map snd ps, full_cmd = as\<rparr>
       (Started (jobs s) (fst (hd ps))) s"

definition assign_stopped_multi :: "(int \<times> string) list \<Rightarrow> string \<Rightarrow> string list \<Rightarrow> job_state \<Rightarrow> job_state" where
  "assign_stopped_multi ps c as s =
     add_job \<lparr>bpid = fst (hd ps), job = to_int (jobs s), bcmd = c, pgid = fst (hd ps), sus = True,
              members = map fst ps, mname = map snd ps, full_cmd = as\<rparr>
       (Stopped (jobs s) c) s"

subsection \<open>The end of a child\<close>

definition drop_nth :: "nat \<Rightarrow> 'a list \<Rightarrow> 'a list" where
  "drop_nth m xs = take m xs @ drop (Suc m) xs"

text \<open>The first job that has the process, and its first place there.\<close>

definition find_member :: "int \<Rightarrow> bg list \<Rightarrow> (nat \<times> nat) option" where
  "find_member p l =
     (case find (\<lambda>i. p \<in> set (members (l ! i))) [0..<length l] of
        None \<Rightarrow> None
      | Some i \<Rightarrow> Some (i, the (find (\<lambda>m. members (l ! i) ! m = p) [0..<length (members (l ! i))])))"

definition announce_bg :: "int \<Rightarrow> bool \<Rightarrow> job_state \<Rightarrow> job_state" where
  "announce_bg p ok s =
     (case find_member p (bg_list s) of
        None \<Rightarrow> s
      | Some (i, m) \<Rightarrow>
          (let b = bg_list s ! i;
               b' = b\<lparr>members := drop_nth m (members b), mname := drop_nth m (mname b)\<rparr>
           in s\<lparr>jout := jout s @ [Ended (mname b ! m) p ok],
               bg_list := (if members b' = [] then drop_nth i (bg_list s) else (bg_list s)[i := b'])\<rparr>))"

definition no_longer_waiting :: "job_state \<Rightarrow> job_state" where
  "no_longer_waiting s = (fold (\<lambda>(p, ok). announce_bg p ok) (wait_list s) s)\<lparr>wait_list := []\<rparr>"

text \<open>One status that \<^verbatim>\<open>waitpid\<close> returns in the handler of SIGCHLD.\<close>

datatype wstatus = WStopped | WContinued | WExited int | WSignaled int

definition mark_sus :: "int \<Rightarrow> bool \<Rightarrow> bg list \<Rightarrow> bg list" where
  "mark_sus p v = map (\<lambda>b. if p \<in> set (members b) then b\<lparr>sus := v\<rparr> else b)"

definition plant_one :: "int \<times> wstatus \<Rightarrow> job_state \<Rightarrow> job_state" where
  "plant_one = (\<lambda>(p, st) s.
     case st of
       WStopped \<Rightarrow> s\<lparr>bg_list := mark_sus p True (bg_list s)\<rparr>
     | WContinued \<Rightarrow> s\<lparr>bg_list := mark_sus p False (bg_list s)\<rparr>
     | _ \<Rightarrow> if length (wait_list s) < WAIT_MAX then s\<lparr>wait_list := wait_list s @ [(p, st = WExited 0)]\<rparr> else s)"

definition plant :: "(int \<times> wstatus) list \<Rightarrow> job_state \<Rightarrow> job_state" where
  "plant ws s = fold plant_one ws s"

definition ctrld1 :: "job_state \<Rightarrow> bool" where
  "ctrld1 s \<longleftrightarrow> (\<exists>b \<in> set (bg_list s). sus b)"

definition ctrld2 :: "job_state \<Rightarrow> int list" where
  "ctrld2 s = map pgid (bg_list s)"

subsection \<open>The commands on jobs\<close>

text \<open>
  \<^verbatim>\<open>activities\<close>, \<^verbatim>\<open>resume\<close> and \<^verbatim>\<open>ping\<close> of \<^verbatim>\<open>c-shell/src/bins.c\<close>. The output and the signals that are sent are messages; \<open>args\<close> has the name of the
  command first. The terminal and the alarm are left out.
\<close>

definition say :: "job_msg list \<Rightarrow> job_state \<Rightarrow> job_state" where
  "say ms s = s\<lparr>jout := jout s @ ms\<rparr>"

definition activities :: "job_state \<Rightarrow> job_state" where
  "activities s =
     (let s = no_longer_waiting s in say (map (\<lambda>b. Listed (job b) (pgid b) (zip (members b) (mname b)) (sus b)) (bg_list s)) s)"

definition SIGCONT :: int where "SIGCONT = 18"
definition SIGTERM :: int where "SIGTERM = 15"

definition find_job :: "int \<Rightarrow> bg list \<Rightarrow> nat option" where
  "find_job n l = find (\<lambda>i. job (l ! i) = n) [0..<length l]"

text \<open>
  What \<^verbatim>\<open>waitpid\<close> gives for the members: \<open>None\<close> if the alarm interrupts it, otherwise whether the process stopped.
  The result is whether the wait was interrupted and whether a member stopped before.
\<close>

primrec wait_members :: "bool option list \<Rightarrow> bool \<times> bool" where
  "wait_members [] = (False, False)"
| "wait_members (w # ws) = (case w of None \<Rightarrow> (True, False) | Some b \<Rightarrow> (case wait_members ws of (t, st) \<Rightarrow> (t, b \<or> st)))"

text \<open>A job in the foreground; without a time limit an interrupted wait does not end the loop.\<close>

definition resume_fg :: "nat \<Rightarrow> bool \<Rightarrow> bool option list \<Rightarrow> job_state \<Rightarrow> job_state" where
  "resume_fg i limit ws s =
     (let b = bg_list s ! i; ws = take (length (members b)) ws;
          (timed, stopped) = (if limit then wait_members ws else (False, Some True \<in> set ws));
          s = say [Foreground (full_cmd b), KillPg (pgid b) SIGCONT] s
      in if timed then say [KillPg (pgid b) SIGTERM, Failed ''resume: job timed out''] (s\<lparr>bg_list := (bg_list s)[i := b\<lparr>sus := False\<rparr>]\<rparr>)
         else if stopped then s\<lparr>bg_list := (bg_list s)[i := b\<lparr>sus := True\<rparr>]\<rparr>
         else s\<lparr>bg_list := drop_nth i (bg_list s)\<rparr>)"

definition resume :: "string list \<Rightarrow> bool option list \<Rightarrow> job_state \<Rightarrow> job_state" where
  "resume args ws s =
     (let syntax = say [Failed ''resume: invalid syntax''] s in
      if length args < 3 \<or> args ! 1 = [] \<or> hd (args ! 1) \<noteq> CHR ''%'' then syntax
      else case strtol (tl (args ! 1)) of (job_num, rest) \<Rightarrow>
        if rest \<noteq> [] then syntax
        else case find_job job_num (bg_list s) of
            None \<Rightarrow> say [Failed ''resume: no such job''] s
          | Some i \<Rightarrow>
              if args ! 2 = ''bg''
              then if length args \<noteq> 3 then syntax
                   else let b = bg_list s ! i in
                        say [KillPg (pgid b) SIGCONT, Running (job b) (full_cmd b)] (s\<lparr>bg_list := (bg_list s)[i := b\<lparr>sus := False\<rparr>]\<rparr>)
              else if args ! 2 = ''fg''
              then if length args > 3
                   then if length args \<noteq> 5 \<or> args ! 3 \<noteq> ''--timeout'' then syntax
                        else case strtol (args ! 4) of (timeout, rest) \<Rightarrow>
                          if rest \<noteq> [] \<or> to_int timeout \<le> 0 then syntax else resume_fg i True ws s
                   else resume_fg i False ws s
              else syntax)"

definition ping :: "string list \<Rightarrow> job_state \<Rightarrow> job_state" where
  "ping args s =
     (let syntax = say [Failed ''ping: invalid syntax''] s in
      if length args \<noteq> 3 then syntax
      else case strtol (args ! 2) of (signal_num, rest) \<Rightarrow>
        if rest \<noteq> [] \<or> signal_num < 0 then syntax
        else if args ! 1 \<noteq> [] \<and> hd (args ! 1) = CHR ''%''
        then (case strtol (tl (args ! 1)) of (job_num, rest) \<Rightarrow>
          if rest \<noteq> [] then syntax
          else case find_job job_num (bg_list s) of
              None \<Rightarrow> say [Failed ''ping: no such process found''] s
            | Some i \<Rightarrow> say [KillPg (pgid (bg_list s ! i)) (signal_num mod 64), Sent signal_num (CHR ''%'' # dec job_num)] s)
        else (case strtol (args ! 1) of (pid, rest) \<Rightarrow>
          if rest \<noteq> [] then syntax
          else if \<not> (\<exists>b \<in> set (bg_list s). bpid b = pid) then say [Failed ''ping: no such process found''] s
          else say [Kill (to_int pid) (signal_num mod 64), Sent signal_num (dec pid)] s))"

subsection \<open>Taking a member out\<close>

definition table_pids :: "bg list \<Rightarrow> int list" where
  "table_pids l = concat (map members l)"

lemma drop_nth_length: "m < length xs \<Longrightarrow> length (drop_nth m xs) = length xs - 1"
  by (simp add: drop_nth_def)

lemma drop_nth_set: "set (drop_nth m xs) \<subseteq> set xs"
  by (auto simp: drop_nth_def dest: in_set_takeD in_set_dropD)

lemma map_drop_nth: "map f (drop_nth m xs) = drop_nth m (map f xs)"
  by (simp add: drop_nth_def take_map drop_map)

lemma distinct_drop_nth: "distinct xs \<Longrightarrow> distinct (drop_nth m xs)"
  by (auto simp: drop_nth_def distinct_take distinct_drop set_take_disj_set_drop_if_distinct dest: in_set_takeD in_set_dropD)

lemma drop_nth_remove1:
  assumes "m < length xs" "xs ! m = x" "\<And>k. k < m \<Longrightarrow> xs ! k \<noteq> x"
  shows "drop_nth m xs = remove1 x xs"
proof -
  have "x \<notin> set (take m xs)" using assms by (auto simp: in_set_conv_nth)
  moreover have "xs = take m xs @ x # drop (Suc m) xs" using assms id_take_nth_drop by metis
  ultimately show ?thesis unfolding drop_nth_def by (metis remove1.simps(2) remove1_append)
qed

lemma find_first: "find P [0..<n] = Some i \<Longrightarrow> i < n \<and> P i \<and> (\<forall>k < i. \<not> P k)"
  by (auto simp: find_Some_iff)

lemma find_member_None: "find_member p l = None \<longleftrightarrow> p \<notin> set (table_pids l)"
proof -
  have "p \<notin> set (table_pids l) \<longleftrightarrow> (\<forall>b \<in> set l. p \<notin> set (members b))" by (auto simp: table_pids_def)
  also have "\<dots> \<longleftrightarrow> (\<forall>i < length l. p \<notin> set (members (l ! i)))" by (rule all_set_conv_all_nth)
  also have "\<dots> \<longleftrightarrow> find (\<lambda>i. p \<in> set (members (l ! i))) [0..<length l] = None" by (auto simp: find_None_iff)
  finally show ?thesis by (simp add: find_member_def split: option.split)
qed

lemma find_member_Some:
  assumes "find_member p l = Some (i, m)"
  shows "i < length l" "m < length (members (l ! i))" "members (l ! i) ! m = p" "k < i \<Longrightarrow> p \<notin> set (members (l ! k))"
    "j < m \<Longrightarrow> members (l ! i) ! j \<noteq> p"
proof -
  have i: "find (\<lambda>i. p \<in> set (members (l ! i))) [0..<length l] = Some i"
    and m: "the (find (\<lambda>m. members (l ! i) ! m = p) [0..<length (members (l ! i))]) = m"
    using assms by (auto simp: find_member_def split: option.splits)
  note I = find_first [OF i]
  then have "find (\<lambda>m. members (l ! i) ! m = p) [0..<length (members (l ! i))] \<noteq> None"
    by (auto simp: find_None_iff in_set_conv_nth)
  then have "find (\<lambda>m. members (l ! i) ! m = p) [0..<length (members (l ! i))] = Some m" using m by auto
  from find_first [OF this] I
  show "i < length l" "m < length (members (l ! i))" "members (l ! i) ! m = p" "k < i \<Longrightarrow> p \<notin> set (members (l ! k))"
    "j < m \<Longrightarrow> members (l ! i) ! j \<noteq> p" by auto
qed

lemma announce_cases:
  assumes "find_member p (bg_list s) = Some (i, m)"
  defines "b \<equiv> bg_list s ! i"
  defines "b' \<equiv> b\<lparr>members := drop_nth m (members b), mname := drop_nth m (mname b)\<rparr>"
  shows "bg_list (announce_bg p ok s) = take i (bg_list s) @ (if members b' = [] then [] else [b']) @ drop (Suc i) (bg_list s)"
    "jout (announce_bg p ok s) = jout s @ [Ended (mname b ! m) p ok]" "wait_list (announce_bg p ok s) = wait_list s"
    "jobs (announce_bg p ok s) = jobs s" "members b' = remove1 p (members b)"
proof -
  note f = find_member_Some [OF assms(1)]
  show "bg_list (announce_bg p ok s) = take i (bg_list s) @ (if members b' = [] then [] else [b']) @ drop (Suc i) (bg_list s)"
    using assms(1) f(1) by (simp add: announce_bg_def b_def b'_def Let_def drop_nth_def upd_conv_take_nth_drop)
  show "jout (announce_bg p ok s) = jout s @ [Ended (mname b ! m) p ok]" "wait_list (announce_bg p ok s) = wait_list s"
    "jobs (announce_bg p ok s) = jobs s"
    using assms(1) by (simp_all add: announce_bg_def b_def Let_def)
  show "members b' = remove1 p (members b)"
    using drop_nth_remove1 [OF f(2,3,5)] by (simp add: b_def b'_def)
qed

lemma announce_pids: "table_pids (bg_list (announce_bg p ok s)) = remove1 p (table_pids (bg_list s))"
proof (cases "find_member p (bg_list s)")
  case None
  moreover have "p \<notin> set (table_pids (bg_list s))" using None by (simp add: find_member_None)
  ultimately show ?thesis by (simp add: announce_bg_def remove1_idem)
next
  case (Some im)
  obtain i m where im: "im = (i, m)" by (cases im)
  note f = find_member_Some [OF Some [unfolded im]] and c = announce_cases(1-4) [OF Some [unfolded im], of ok] announce_cases(5) [OF Some [unfolded im]]
  let ?l = "bg_list s"
  have l: "?l = take i ?l @ ?l ! i # drop (Suc i) ?l" using f(1) by (rule id_take_nth_drop)
  have no: "p \<notin> set (table_pids (take i ?l))"
  proof -
    have "p \<notin> set (members b)" if "b \<in> set (take i ?l)" for b
    proof -
      obtain k where "k < length (take i ?l)" "take i ?l ! k = b" using \<open>b \<in> set (take i ?l)\<close> unfolding in_set_conv_nth by blast
      then have "k < i" "b = ?l ! k" by auto
      then show ?thesis using f(4) [of k] by simp
    qed
    then show ?thesis by (auto simp: table_pids_def)
  qed
  have "table_pids (bg_list (announce_bg p ok s)) = table_pids (take i ?l) @ remove1 p (members (?l ! i)) @ table_pids (drop (Suc i) ?l)"
    using c(1,5) by (simp add: table_pids_def)
  also have "\<dots> = remove1 p (table_pids (take i ?l) @ members (?l ! i) @ table_pids (drop (Suc i) ?l))"
    using no f(2,3) nth_mem [OF f(2)] by (simp add: remove1_append)
  also have "table_pids (take i ?l) @ members (?l ! i) @ table_pids (drop (Suc i) ?l) = table_pids ?l"
    by (subst (4) l) (simp add: table_pids_def)
  finally show ?thesis .
qed

subsection \<open>The invariant\<close>

definition jobs_ok :: "job_state \<Rightarrow> bool" where
  "jobs_ok s \<longleftrightarrow> distinct (map job (bg_list s)) \<and> 1 \<le> jobs s \<and> jobs s \<le> 2 ^ 31 \<and> length (wait_list s) \<le> WAIT_MAX
     \<and> (\<forall>b \<in> set (bg_list s). 1 \<le> job b \<and> job b < jobs s \<and> members b \<noteq> [] \<and> length (mname b) = length (members b))"

lemma jobs_ok_announce:
  assumes ok: "jobs_ok s"
  shows "jobs_ok (announce_bg p st s)"
proof (cases "find_member p (bg_list s)")
  case None
  then show ?thesis using ok by (simp add: announce_bg_def)
next
  case (Some im)
  obtain i m where im: "im = (i, m)" by (cases im)
  note f = find_member_Some [OF Some [unfolded im]] and c = announce_cases(1-4) [OF Some [unfolded im], of st]
  let ?l = "bg_list s" and ?b = "bg_list s ! i"
  let ?b' = "?b\<lparr>members := drop_nth m (members ?b), mname := drop_nth m (mname ?b)\<rparr>"
  have b: "?b \<in> set ?l" using f(1) by simp
  have len: "length (mname ?b') = length (members ?b')"
    using ok b f(2) by (simp add: jobs_ok_def drop_nth_length)
  have sub: "set (bg_list (announce_bg p st s)) \<subseteq> insert ?b' (set ?l)" "?b' \<in> set (bg_list (announce_bg p st s)) \<longrightarrow> ?b' \<in> set ?l \<or> members ?b' \<noteq> []"
    unfolding c(1) by (auto dest: in_set_takeD in_set_dropD split: if_splits)
  have "map job (bg_list (announce_bg p st s)) = (if members ?b' = [] then drop_nth i (map job ?l) else map job ?l)"
  proof -
    have "map job ?l = take i (map job ?l) @ job ?b # drop (Suc i) (map job ?l)" using f(1) id_take_nth_drop [of i "map job ?l"] by simp
    then show ?thesis unfolding c(1) using f(1)
      by (cases "members ?b' = []") (simp_all add: map_drop_nth [symmetric] drop_nth_def [of i] take_map drop_map)
  qed
  then have "distinct (map job (bg_list (announce_bg p st s)))" using ok by (simp add: jobs_ok_def distinct_drop_nth)
  moreover have "1 \<le> job x \<and> job x < jobs s \<and> members x \<noteq> [] \<and> length (mname x) = length (members x)" if "x \<in> set (bg_list (announce_bg p st s))" for x
  proof (cases "x \<in> set ?l")
    case True
    then show ?thesis using ok by (simp add: jobs_ok_def)
  next
    case False
    then have "x = ?b'" "members x \<noteq> []" using sub that by auto
    then show ?thesis using ok b len by (simp add: jobs_ok_def)
  qed
  ultimately show ?thesis using ok c(3,4) by (simp add: jobs_ok_def)
qed


lemma jobs_ok_add:
  assumes "jobs_ok s" "jobs s < 2 ^ 31" "job b = to_int (jobs s)" "members b \<noteq> []" "length (mname b) = length (members b)"
  shows "jobs_ok (add_job b m s)"
proof -
  have "job b = jobs s" using assms(1-3) by (simp add: to_int_small jobs_ok_def)
  then show ?thesis using assms by (auto simp: jobs_ok_def add_job_def)
qed

lemma jobs_ok_fold: "(\<And>x t. jobs_ok t \<Longrightarrow> jobs_ok (f x t)) \<Longrightarrow> jobs_ok s \<Longrightarrow> jobs_ok (fold f xs s)"
  by (induction xs arbitrary: s) simp_all

lemma map_mark_sus: "map job (mark_sus p v l) = map job l"
  by (simp add: mark_sus_def)

lemma jobs_ok_plant_one: "jobs_ok s \<Longrightarrow> jobs_ok (plant_one w s)"
proof -
  assume ok: "jobs_ok s"
  have "jobs_ok (s\<lparr>bg_list := mark_sus p v (bg_list s)\<rparr>)" for p v
    using ok by (auto simp: jobs_ok_def map_mark_sus) (auto simp: mark_sus_def)
  then show ?thesis using ok by (auto simp: plant_one_def jobs_ok_def split: prod.split wstatus.split)
qed

text \<open>
  What the shell does with its jobs, one call after the other; the signal handler runs between them. In the program SIGCHLD is blocked only in
  \<^verbatim>\<open>no_longer_waiting\<close>; that the handler can also run in the middle of the other calls is not modelled.
\<close>

inductive job_step :: "job_state \<Rightarrow> job_state \<Rightarrow> bool" where
  step_bg: "jobs s < 2 ^ 31 \<Longrightarrow> job_step s (assign_bg p c as s)"
| step_stopped: "jobs s < 2 ^ 31 \<Longrightarrow> job_step s (assign_stopped p c as s)"
| step_bg_multi: "jobs s < 2 ^ 31 \<Longrightarrow> ps \<noteq> [] \<Longrightarrow> job_step s (assign_bg_multi ps c as s)"
| step_stopped_multi: "jobs s < 2 ^ 31 \<Longrightarrow> ps \<noteq> [] \<Longrightarrow> job_step s (assign_stopped_multi ps c as s)"
| step_plant: "job_step s (plant ws s)"
| step_report: "job_step s (no_longer_waiting s)"
| step_activities: "job_step s (activities s)"
| step_resume: "job_step s (resume args rs s)"
| step_ping: "job_step s (ping args s)"

definition no_jobs :: job_state where
  "no_jobs = \<lparr>bg_list = [], jobs = 1, wait_list = [], jout = []\<rparr>"

lemma jobs_ok_report: "jobs_ok s \<Longrightarrow> jobs_ok (no_longer_waiting s)"
proof -
  assume "jobs_ok s"
  then have "jobs_ok (fold (\<lambda>(p, ok). announce_bg p ok) (wait_list s) s)" by (intro jobs_ok_fold) (auto intro: jobs_ok_announce)
  then show ?thesis by (simp add: no_longer_waiting_def jobs_ok_def WAIT_MAX_def)
qed

lemma jobs_ok_say [simp]: "jobs_ok (say ms s) \<longleftrightarrow> jobs_ok s"
  by (simp add: jobs_ok_def say_def)

lemma jobs_ok_sus: "jobs_ok s \<Longrightarrow> i < length (bg_list s) \<Longrightarrow> jobs_ok (s\<lparr>bg_list := (bg_list s)[i := (bg_list s ! i)\<lparr>sus := v\<rparr>]\<rparr>)"
  using list_update_id [of "map job (bg_list s)" i] by (auto simp: jobs_ok_def map_update dest!: set_update_subset_insert [THEN subsetD])

lemma jobs_ok_drop: "jobs_ok s \<Longrightarrow> jobs_ok (s\<lparr>bg_list := drop_nth i (bg_list s)\<rparr>)"
  using drop_nth_set [of i "bg_list s"] by (auto simp: jobs_ok_def map_drop_nth distinct_drop_nth)

lemma find_job_Some: "find_job n l = Some i \<Longrightarrow> i < length l \<and> job (l ! i) = n"
  unfolding find_job_def by (auto dest: find_first)

lemma jobs_ok_resume_fg: "jobs_ok s \<Longrightarrow> i < length (bg_list s) \<Longrightarrow> jobs_ok (resume_fg i limit ws s)"
  using jobs_ok_sus [of s i] jobs_ok_drop [of s i] by (auto simp: resume_fg_def say_def jobs_ok_def Let_def split: prod.split)

lemma jobs_ok_resume: "jobs_ok s \<Longrightarrow> jobs_ok (resume args ws s)"
  by (auto simp: resume_def Let_def dest: find_job_Some intro: jobs_ok_resume_fg jobs_ok_sus split: prod.split option.split)

lemma jobs_ok_step: "job_step s t \<Longrightarrow> jobs_ok s \<Longrightarrow> jobs_ok t"
proof (induction rule: job_step.induct)
  case (step_plant s ws)
  then show ?case unfolding plant_def by (intro jobs_ok_fold jobs_ok_plant_one)
next
  case (step_report s)
  then show ?case by (rule jobs_ok_report)
next
  case (step_activities s)
  then show ?case using jobs_ok_report by (simp add: activities_def Let_def)
next
  case (step_resume s args rs)
  then show ?case by (rule jobs_ok_resume)
next
  case (step_ping s args)
  then show ?case by (auto simp: ping_def Let_def split: prod.split option.split)
qed (auto simp: assign_bg_def assign_stopped_def assign_bg_multi_def assign_stopped_multi_def intro!: jobs_ok_add)

subsection \<open>Properties\<close>

text \<open>
  C27. The job table is well formed in every state that the shell reaches (with fewer than two to the
  thirty-first jobs): job numbers are positive, different and below the counter, every job has at least
  one process and one name per process, and the queue of ended children stays inside its array.
\<close>

theorem job_table_invariant:
  assumes "job_step\<^sup>*\<^sup>* no_jobs s"
  shows "distinct (map job (bg_list s)) \<and> length (wait_list s) \<le> WAIT_MAX \<and>
    (\<forall>b \<in> set (bg_list s). 1 \<le> job b \<and> job b < jobs s \<and> members b \<noteq> [] \<and> length (mname b) = length (members b))"
proof -
  have "jobs_ok s" using assms
  proof (induction rule: rtranclp_induct)
    case base
    show ?case by (simp add: no_jobs_def jobs_ok_def)
  next
    case (step t u)
    then show ?case using jobs_ok_step by blast
  qed
  then show ?thesis by (simp add: jobs_ok_def)
qed

theorem job_table_invariant_witness:
  "map job (bg_list (announce_bg 7 True (assign_bg_multi [(7, ''ls''), (8, ''wc'')] ''ls'' [''ls''] (assign_bg 6 ''top'' [] no_jobs)))) = [1, 2]
   \<and> distinct (map job (bg_list (no_longer_waiting (plant [(7, WExited 0)] (assign_bg_multi [(7, ''ls''), (8, ''wc'')] ''ls'' [''ls''] (assign_bg 6 ''top'' [] no_jobs))))))"
proof -
  let ?a = "assign_bg 6 ''top'' [] no_jobs"
  let ?b = "assign_bg_multi [(7, ''ls''), (8, ''wc'')] ''ls'' [''ls''] ?a"
  have "job_step no_jobs ?a" "job_step ?a ?b" "job_step ?b (plant [(7, WExited 0)] ?b)"
      "job_step (plant [(7, WExited 0)] ?b) (no_longer_waiting (plant [(7, WExited 0)] ?b))"
    by (intro job_step.intros; simp add: no_jobs_def assign_bg_def add_job_def)+
  then have "job_step\<^sup>*\<^sup>* no_jobs (no_longer_waiting (plant [(7, WExited 0)] ?b))" by (meson converse_rtranclp_into_rtranclp rtranclp.rtrancl_refl)
  from job_table_invariant [OF this] show ?thesis
    by (simp add: no_jobs_def assign_bg_def assign_bg_multi_def add_job_def announce_bg_def find_member_def drop_nth_def upt_rec Let_def to_int_small)
qed

text \<open>
  A job that is brought to the foreground by its number leaves the table, unless one of its processes stops; then it is a stopped job again.
  No other job changes.
\<close>

lemma find_job_eq:
  assumes "jobs_ok s" "i < length (bg_list s)"
  shows "find_job (job (bg_list s ! i)) (bg_list s) = Some i"
proof -
  have "job (bg_list s ! j) = job (bg_list s ! i) \<longleftrightarrow> j = i" if "j < length (bg_list s)" for j
    using assms that nth_eq_iff_index_eq [of "map job (bg_list s)" j i] by (simp add: jobs_ok_def)
  moreover have "find_job (job (bg_list s ! i)) (bg_list s) \<noteq> None" using assms(2) by (auto simp: find_job_def find_None_iff)
  ultimately show ?thesis using find_job_Some [of "job (bg_list s ! i)" "bg_list s"] by auto
qed

lemma resume_foreground:
  assumes ok: "jobs_ok s" and i: "i < length (bg_list s)"
  defines "b \<equiv> bg_list s ! i"
  shows "bg_list (resume [''resume'', CHR ''%'' # dec (job b), ''fg''] ws s) =
    (if Some True \<in> set (take (length (members b)) ws) then (bg_list s)[i := b\<lparr>sus := True\<rparr>] else drop_nth i (bg_list s))"
proof -
  have "b \<in> set (bg_list s)" using i by (simp add: b_def)
  then have "1 \<le> job b" "job b < 2 ^ 31" using ok by (auto simp: jobs_ok_def)
  then have "strtol (dec (job b)) = (job b, [])" by (intro strtol_dec) simp_all
  moreover have "find_job (job b) (bg_list s) = Some i" unfolding b_def by (rule find_job_eq [OF ok i])
  ultimately show ?thesis by (simp add: resume_def resume_fg_def b_def Let_def say_def)
qed

text \<open>The process and the result that a message reports.\<close>

definition reports :: "job_msg list \<Rightarrow> (int \<times> bool) list" where
  "reports ms = concat (map (\<lambda>m. case m of Ended n p ok \<Rightarrow> [(p, ok)] | _ \<Rightarrow> []) ms)"

lemma announce_reports:
  "reports (jout (announce_bg p ok s)) = reports (jout s) @ (if p \<in> set (table_pids (bg_list s)) then [(p, ok)] else [])"
proof (cases "find_member p (bg_list s)")
  case None
  moreover have "p \<notin> set (table_pids (bg_list s))" using None by (simp add: find_member_None)
  ultimately show ?thesis by (simp add: announce_bg_def)
next
  case (Some im)
  then have "p \<in> set (table_pids (bg_list s))" using find_member_None [of p "bg_list s"] by auto
  then show ?thesis using Some announce_cases(2) [of p s "fst im" "snd im" ok] by (simp add: reports_def)
qed

lemma report_fold:
  assumes "distinct (map fst ws)" "distinct (table_pids (bg_list s))"
  shows "table_pids (bg_list (fold (\<lambda>(p, ok). announce_bg p ok) ws s)) = filter (\<lambda>p. p \<notin> fst ` set ws) (table_pids (bg_list s))
    \<and> reports (jout (fold (\<lambda>(p, ok). announce_bg p ok) ws s)) =
        reports (jout s) @ filter (\<lambda>(p, ok). p \<in> set (table_pids (bg_list s))) ws"
  using assms
proof (induction ws arbitrary: s)
  case (Cons w ws)
  obtain p ok where w: "w = (p, ok)" by (cases w)
  let ?s = "announce_bg p ok s" and ?t = "table_pids (bg_list s)"
  have t: "table_pids (bg_list ?s) = filter (\<lambda>x. x \<noteq> p) ?t"
    using announce_pids [of p ok s] Cons.prems(2) by (simp add: distinct_remove1_removeAll removeAll_filter_not_eq) (metis (mono_tags))
  have IH: "table_pids (bg_list (fold (\<lambda>(p, ok). announce_bg p ok) ws ?s)) = filter (\<lambda>p. p \<notin> fst ` set ws) (table_pids (bg_list ?s))
      \<and> reports (jout (fold (\<lambda>(p, ok). announce_bg p ok) ws ?s)) = reports (jout ?s) @ filter (\<lambda>(p, ok). p \<in> set (table_pids (bg_list ?s))) ws"
    using Cons.prems t by (intro Cons.IH) simp_all
  have "filter (\<lambda>(q, ok). q \<in> set (table_pids (bg_list ?s))) ws = filter (\<lambda>(q, ok). q \<in> set ?t) ws"
    using Cons.prems(1) w by (intro filter_cong) (auto simp: t image_iff)
  then show ?case using IH announce_reports [of p ok s] by (auto simp: w t intro: filter_cong)
qed simp

text \<open>
  C28. Reporting: when no process is in the table twice and every ended child was queued once,
  \<^verbatim>\<open>no_longer_waiting\<close> takes exactly the queued children out of the table, keeps all others in order,
  empties the queue, and reports the queued children that belong to jobs in the order of the queue,
  each with its own result.
\<close>

theorem ended_children_reported:
  assumes "distinct (map fst (wait_list s))" "distinct (table_pids (bg_list s))"
  shows "table_pids (bg_list (no_longer_waiting s)) = filter (\<lambda>p. p \<notin> fst ` set (wait_list s)) (table_pids (bg_list s)) \<and>
    reports (jout (no_longer_waiting s)) = reports (jout s) @ filter (\<lambda>(p, ok). p \<in> set (table_pids (bg_list s))) (wait_list s) \<and>
    wait_list (no_longer_waiting s) = []"
  using report_fold [OF assms] by (simp add: no_longer_waiting_def)

theorem ended_children_reported_witness:
  "table_pids (bg_list (no_longer_waiting (plant [(8, WSignaled 9), (5, WExited 0)]
      (assign_bg_multi [(7, ''ls''), (8, ''wc'')] ''ls'' [''ls''] (assign_bg 6 ''top'' [] no_jobs))))) = [6, 7]"
proof -
  let ?s = "plant [(8, WSignaled 9), (5, WExited 0)] (assign_bg_multi [(7, ''ls''), (8, ''wc'')] ''ls'' [''ls''] (assign_bg 6 ''top'' [] no_jobs))"
  have s: "wait_list ?s = [(8, False), (5, True)]" "table_pids (bg_list ?s) = [6, 7, 8]"
    by (simp_all add: no_jobs_def assign_bg_def assign_bg_multi_def add_job_def plant_def plant_one_def WAIT_MAX_def table_pids_def)
  then show ?thesis using ended_children_reported [of ?s] by simp
qed

end
