(* ===== verification/Virtio.thy ===== *)
theory Virtio
  imports Bcache
begin

text \<open>
  The disk driver, \<^verbatim>\<open>kernel/virtio_disk.c\<close> with \<^verbatim>\<open>kernel/virtio.h\<close>: the descriptor table, the two rings
  that driver and device share, the allocation of descriptors, the request routine \<^verbatim>\<open>virtio_disk_rw\<close>,
  the interrupt handler \<^verbatim>\<open>virtio_disk_intr\<close> and \<^verbatim>\<open>virtio_disk_init\<close>.

  A DMA address is named by the object it points to. Register writes are recorded in order
  (\<open>mmio\<close>); a register read is answered by a parameter \<open>rd\<close> of the writes so far, since the device
  is not part of the source. What the device does with a chain of descriptors is a second parameter;
  \<open>device_ok\<close> says of it what section 5.2.6 of the virtio specification documents.

  The theorems: \<^verbatim>\<open>alloc3_desc\<close> takes three distinct free descriptors or none, \<^verbatim>\<open>free_chain\<close> ends,
  a device that does not present itself as a virtio disk stops the boot, and \<^verbatim>\<open>virtio_disk_rw\<close>,
  \<^verbatim>\<open>virtio_disk_intr\<close> and the device together keep the contract \<open>disk_rw\<close> that the buffer cache uses.
\<close>

subsection \<open>Data\<close>

definition NUM :: nat where "NUM = 8"

datatype daddr = DNull | DOps nat | DData nat | DStatus nat

record virtq_desc =
  d_addr :: daddr
  d_len :: u32
  d_flags :: u16
  d_next :: u16

definition VRING_DESC_F_NEXT :: u16 where "VRING_DESC_F_NEXT = 1"
definition VRING_DESC_F_WRITE :: u16 where "VRING_DESC_F_WRITE = 2"

definition VIRTIO_BLK_T_IN :: u32 where "VIRTIO_BLK_T_IN = 0"
definition VIRTIO_BLK_T_OUT :: u32 where "VIRTIO_BLK_T_OUT = 1"

record virtio_blk_req =
  r_type :: u32
  r_reserved :: u32
  r_sector :: u64

text \<open>\<^verbatim>\<open>struct disk\<close>: \<open>a_\<close> and \<open>u_\<close> are the available and the used ring, \<open>i_\<close> the array \<^verbatim>\<open>info\<close>.\<close>

record vdisk =
  desc :: "nat \<Rightarrow> virtq_desc"
  a_idx :: u16
  a_ring :: "nat \<Rightarrow> u16"
  u_idx :: u16
  u_ring :: "nat \<Rightarrow> u32"
  vfree :: "nat \<Rightarrow> bool"
  used_idx :: u16
  i_buf :: "nat \<Rightarrow> nat option"
  i_status :: "nat \<Rightarrow> u8"
  ops :: "nat \<Rightarrow> virtio_blk_req"

text \<open>\<open>bdisk\<close> is the field \<^verbatim>\<open>disk\<close> of every \<^verbatim>\<open>struct buf\<close>; the last three are the pages of the queue.\<close>

record vio_state = bio_state +
  vd :: vdisk
  bdisk :: "nat \<Rightarrow> int"
  mmio :: "(nat \<times> u32) list"
  desc_pa :: u64
  avail_pa :: u64
  used_pa :: u64

definition upd_vd :: "(vdisk \<Rightarrow> vdisk) \<Rightarrow> 'z vio_state_scheme \<Rightarrow> 'z vio_state_scheme" where
  "upd_vd f s = s\<lparr>vd := f (vd s)\<rparr>"

definition upd_desc :: "nat \<Rightarrow> (virtq_desc \<Rightarrow> virtq_desc) \<Rightarrow> vdisk \<Rightarrow> vdisk" where
  "upd_desc i f v = v\<lparr>desc := (desc v)(i := f (desc v i))\<rparr>"

definition upd_op :: "nat \<Rightarrow> (virtio_blk_req \<Rightarrow> virtio_blk_req) \<Rightarrow> vdisk \<Rightarrow> vdisk" where
  "upd_op i f v = v\<lparr>ops := (ops v)(i := f (ops v i))\<rparr>"

definition set_free :: "nat \<Rightarrow> bool \<Rightarrow> vdisk \<Rightarrow> vdisk" where
  "set_free i x v = v\<lparr>vfree := (vfree v)(i := x)\<rparr>"

subsection \<open>Descriptors\<close>

primrec alloc_desc_from :: "nat list \<Rightarrow> 'z vio_state_scheme \<Rightarrow> ('z vio_state_scheme, nat option) kres" where
  "alloc_desc_from [] = kret None"
| "alloc_desc_from (i # is) =
     kbind (kget (\<lambda>s. vfree (vd s) i)) (\<lambda>f.
     if f then kseq (kmod (upd_vd (set_free i False))) (kret (Some i))
     else alloc_desc_from is)"

text \<open>\<open>None\<close> is the answer -1.\<close>

definition alloc_desc :: "'z vio_state_scheme \<Rightarrow> ('z vio_state_scheme, nat option) kres" where
  "alloc_desc = alloc_desc_from [0..<NUM]"

definition free_desc :: "nat \<Rightarrow> 'z vio_state_scheme \<Rightarrow> ('z vio_state_scheme, unit) kres" where
  "free_desc i =
     (if NUM \<le> i then kpanic ''free_desc 1''
      else kbind (kget (\<lambda>s. vfree (vd s) i)) (\<lambda>f.
        if f then kpanic ''free_desc 2''
        else kseq (kmod (upd_vd (upd_desc i (\<lambda>d. d\<lparr>d_addr := DNull, d_len := 0, d_flags := 0, d_next := 0\<rparr>)))) (
             kseq (kmod (upd_vd (set_free i True))) (
             wakeup (Some ChDesc)))))"

text \<open>The loop of \<^verbatim>\<open>free_chain\<close>, with fuel; every turn frees a descriptor that was in use.\<close>

primrec free_chain_loop :: "nat \<Rightarrow> nat \<Rightarrow> 'z vio_state_scheme \<Rightarrow> ('z vio_state_scheme, unit) kres" where
  "free_chain_loop 0 i = (\<lambda>s. Loop)"
| "free_chain_loop (Suc n) i =
     kbind (kget (\<lambda>s. desc (vd s) i)) (\<lambda>d.
     kseq (free_desc i) (
     if d_flags d AND VRING_DESC_F_NEXT \<noteq> 0 then free_chain_loop n (unat (d_next d)) else kret ()))"

definition free_chain :: "nat \<Rightarrow> 'z vio_state_scheme \<Rightarrow> ('z vio_state_scheme, unit) kres" where
  "free_chain = free_chain_loop (Suc NUM)"

text \<open>\<open>alloc3_from i got\<close>: \<open>got\<close> are the descriptors \<^verbatim>\<open>idx[0..i-1]\<close> already taken.\<close>

primrec alloc3_from :: "nat \<Rightarrow> nat list \<Rightarrow> 'z vio_state_scheme \<Rightarrow> ('z vio_state_scheme, nat list option) kres" where
  "alloc3_from 0 got = kret (Some got)"
| "alloc3_from (Suc k) got =
     kbind alloc_desc (\<lambda>r.
     case r of
       None \<Rightarrow> kseq (kfor got free_desc) (kret None)
     | Some i \<Rightarrow> alloc3_from k (got @ [i]))"

definition alloc3_desc :: "'z vio_state_scheme \<Rightarrow> ('z vio_state_scheme, nat list option) kres" where
  "alloc3_desc = alloc3_from 3 []"

subsection \<open>A request\<close>

text \<open>\<^verbatim>\<open>b->blockno * (BSIZE / 512)\<close> is a product of 32-bit numbers, widened afterwards.\<close>

definition sector_of :: "u32 \<Rightarrow> u64" where
  "sector_of n = ucast (n * of_nat (BSIZE div 512))"

text \<open>The wait for three descriptors, going round at most \<open>n\<close> times.\<close>

primrec rw_alloc :: "nat \<Rightarrow> 'z vio_state_scheme \<Rightarrow> ('z vio_state_scheme, nat list) kres" where
  "rw_alloc 0 = (\<lambda>s. Loop)"
| "rw_alloc (Suc n) =
     kbind alloc3_desc (\<lambda>r.
     case r of
       Some idx \<Rightarrow> kret idx
     | None \<Rightarrow>
         kseq (sleep_prepare (Some ChDesc)) (
         kseq (release VdiskLock) (
         kseq sleep (
         kseq (acquire VdiskLock) (rw_alloc n)))))"

definition format_request :: "nat \<Rightarrow> nat \<Rightarrow> nat \<Rightarrow> nat \<Rightarrow> bool \<Rightarrow> u64 \<Rightarrow> 'z vio_state_scheme \<Rightarrow> ('z vio_state_scheme, unit) kres" where
  "format_request i0 i1 i2 b write sector =
     kseq (kmod (upd_vd (upd_op i0 (\<lambda>r. r\<lparr>r_type := if write then VIRTIO_BLK_T_OUT else VIRTIO_BLK_T_IN\<rparr>)))) (
     kseq (kmod (upd_vd (upd_op i0 (\<lambda>r. r\<lparr>r_reserved := 0, r_sector := sector\<rparr>)))) (
     kseq (kmod (upd_vd (upd_desc i0 (\<lambda>d. d\<lparr>d_addr := DOps i0, d_len := 16, d_flags := VRING_DESC_F_NEXT,
       d_next := of_nat i1\<rparr>)))) (
     kseq (kmod (upd_vd (upd_desc i1 (\<lambda>d. d\<lparr>d_addr := DData b, d_len := of_nat BSIZE\<rparr>)))) (
     kseq (kmod (upd_vd (upd_desc i1 (\<lambda>d. d\<lparr>d_flags := if write then 0 else VRING_DESC_F_WRITE\<rparr>)))) (
     kseq (kmod (upd_vd (upd_desc i1 (\<lambda>d. d\<lparr>d_flags := d_flags d OR VRING_DESC_F_NEXT, d_next := of_nat i2\<rparr>)))) (
     kseq (kmod (upd_vd (\<lambda>v. v\<lparr>i_status := (i_status v)(i0 := 0xff)\<rparr>))) (
     kmod (upd_vd (upd_desc i2 (\<lambda>d. d\<lparr>d_addr := DStatus i0, d_len := 1, d_flags := VRING_DESC_F_WRITE,
       d_next := 0\<rparr>))))))))))"

definition VIRTIO_MMIO_QUEUE_NOTIFY :: nat where "VIRTIO_MMIO_QUEUE_NOTIFY = 0x050"
definition VIRTIO_MMIO_INTERRUPT_STATUS :: nat where "VIRTIO_MMIO_INTERRUPT_STATUS = 0x060"
definition VIRTIO_MMIO_INTERRUPT_ACK :: nat where "VIRTIO_MMIO_INTERRUPT_ACK = 0x064"

definition mmio_write :: "nat \<Rightarrow> u32 \<Rightarrow> 'z vio_state_scheme \<Rightarrow> ('z vio_state_scheme, unit) kres" where
  "mmio_write r v = kmod (\<lambda>s. s\<lparr>mmio := mmio s @ [(r, v)]\<rparr>)"

definition submit :: "nat \<Rightarrow> nat \<Rightarrow> 'z vio_state_scheme \<Rightarrow> ('z vio_state_scheme, unit) kres" where
  "submit i0 b =
     kseq (kmod (\<lambda>s. s\<lparr>bdisk := (bdisk s)(b := 1)\<rparr>)) (
     kseq (kmod (upd_vd (\<lambda>v. v\<lparr>i_buf := (i_buf v)(i0 := Some b)\<rparr>))) (
     kseq (kmod (upd_vd (\<lambda>v. v\<lparr>a_ring := (a_ring v)(unat (a_idx v) mod NUM := of_nat i0)\<rparr>))) (
     kseq (kmod (upd_vd (\<lambda>v. v\<lparr>a_idx := a_idx v + 1\<rparr>))) (
     mmio_write VIRTIO_MMIO_QUEUE_NOTIFY 0))))"

primrec rw_wait :: "nat \<Rightarrow> nat \<Rightarrow> 'z vio_state_scheme \<Rightarrow> ('z vio_state_scheme, unit) kres" where
  "rw_wait 0 b = (\<lambda>s. Loop)"
| "rw_wait (Suc n) b =
     kbind (kget (\<lambda>s. bdisk s b)) (\<lambda>d.
     if d \<noteq> 1 then kret ()
     else kseq (sleep_prepare (Some (ChBuf b))) (
          kseq (release VdiskLock) (
          kseq sleep (
          kseq (acquire VdiskLock) (rw_wait n b)))))"

definition virtio_disk_rw :: "nat \<Rightarrow> bool \<Rightarrow> 'z vio_state_scheme \<Rightarrow> ('z vio_state_scheme, unit) kres" where
  "virtio_disk_rw b write =
     kbind (kget (\<lambda>s. sector_of (blockno (bufs s b)))) (\<lambda>sector.
     kseq (acquire VdiskLock) (
     kbind (kget sfuel) (\<lambda>n.
     kbind (rw_alloc n) (\<lambda>idx.
     kseq (format_request (idx ! 0) (idx ! 1) (idx ! 2) b write sector) (
     kseq (submit (idx ! 0) b) (
     kseq (rw_wait n b) (
     kseq (kmod (upd_vd (\<lambda>v. v\<lparr>i_buf := (i_buf v)(idx ! 0 := None)\<rparr>))) (
     kseq (free_chain (idx ! 0)) (
     release VdiskLock)))))))))"

subsection \<open>The interrupt\<close>

text \<open>The used ring is at most \<open>2 ^ 16 - 1\<close> entries ahead of \<^verbatim>\<open>disk.used_idx\<close>.\<close>

primrec intr_loop :: "nat \<Rightarrow> 'z vio_state_scheme \<Rightarrow> ('z vio_state_scheme, unit) kres" where
  "intr_loop 0 = (\<lambda>s. Loop)"
| "intr_loop (Suc n) =
     kbind (kget vd) (\<lambda>v.
     if used_idx v = u_idx v then kret ()
     else let i = unat (u_ring v (unat (used_idx v) mod NUM)) in
       if NUM \<le> i then kub
       else if i_status v i \<noteq> 0 then kpanic ''virtio_disk_intr status''
       else case i_buf v i of
         None \<Rightarrow> kub
       | Some b \<Rightarrow>
           kseq (kmod (\<lambda>s. s\<lparr>bdisk := (bdisk s)(b := 0)\<rparr>)) (
           kseq (wakeup (Some (ChBuf b))) (
           kseq (kmod (upd_vd (\<lambda>v. v\<lparr>used_idx := used_idx v + 1\<rparr>))) (
           intr_loop n))))"

definition mmio_read :: "((nat \<times> u32) list \<Rightarrow> nat \<Rightarrow> u32) \<Rightarrow> nat \<Rightarrow> 'z vio_state_scheme \<Rightarrow> ('z vio_state_scheme, u32) kres" where
  "mmio_read rd r = kget (\<lambda>s. rd (mmio s) r)"

definition virtio_disk_intr :: "((nat \<times> u32) list \<Rightarrow> nat \<Rightarrow> u32) \<Rightarrow> 'z vio_state_scheme \<Rightarrow> ('z vio_state_scheme, unit) kres" where
  "virtio_disk_intr rd =
     kseq (acquire VdiskLock) (
     kbind (mmio_read rd VIRTIO_MMIO_INTERRUPT_STATUS) (\<lambda>st.
     kseq (mmio_write VIRTIO_MMIO_INTERRUPT_ACK (st AND 3)) (
     kseq (intr_loop (2 ^ 16)) (
     release VdiskLock))))"

subsection \<open>Initialisation\<close>

definition VIRTIO_MMIO_MAGIC_VALUE :: nat where "VIRTIO_MMIO_MAGIC_VALUE = 0x000"
definition VIRTIO_MMIO_VERSION :: nat where "VIRTIO_MMIO_VERSION = 0x004"
definition VIRTIO_MMIO_DEVICE_ID :: nat where "VIRTIO_MMIO_DEVICE_ID = 0x008"
definition VIRTIO_MMIO_VENDOR_ID :: nat where "VIRTIO_MMIO_VENDOR_ID = 0x00c"
definition VIRTIO_MMIO_DEVICE_FEATURES :: nat where "VIRTIO_MMIO_DEVICE_FEATURES = 0x010"
definition VIRTIO_MMIO_DRIVER_FEATURES :: nat where "VIRTIO_MMIO_DRIVER_FEATURES = 0x020"
definition VIRTIO_MMIO_QUEUE_SEL :: nat where "VIRTIO_MMIO_QUEUE_SEL = 0x030"
definition VIRTIO_MMIO_QUEUE_NUM_MAX :: nat where "VIRTIO_MMIO_QUEUE_NUM_MAX = 0x034"
definition VIRTIO_MMIO_QUEUE_NUM :: nat where "VIRTIO_MMIO_QUEUE_NUM = 0x038"
definition VIRTIO_MMIO_QUEUE_READY :: nat where "VIRTIO_MMIO_QUEUE_READY = 0x044"
definition VIRTIO_MMIO_STATUS :: nat where "VIRTIO_MMIO_STATUS = 0x070"
definition VIRTIO_MMIO_QUEUE_DESC_LOW :: nat where "VIRTIO_MMIO_QUEUE_DESC_LOW = 0x080"
definition VIRTIO_MMIO_QUEUE_DESC_HIGH :: nat where "VIRTIO_MMIO_QUEUE_DESC_HIGH = 0x084"
definition VIRTIO_MMIO_DRIVER_DESC_LOW :: nat where "VIRTIO_MMIO_DRIVER_DESC_LOW = 0x090"
definition VIRTIO_MMIO_DRIVER_DESC_HIGH :: nat where "VIRTIO_MMIO_DRIVER_DESC_HIGH = 0x094"
definition VIRTIO_MMIO_DEVICE_DESC_LOW :: nat where "VIRTIO_MMIO_DEVICE_DESC_LOW = 0x0a0"
definition VIRTIO_MMIO_DEVICE_DESC_HIGH :: nat where "VIRTIO_MMIO_DEVICE_DESC_HIGH = 0x0a4"

lemmas mmio_defs = VIRTIO_MMIO_MAGIC_VALUE_def VIRTIO_MMIO_VERSION_def VIRTIO_MMIO_DEVICE_ID_def
  VIRTIO_MMIO_VENDOR_ID_def VIRTIO_MMIO_DEVICE_FEATURES_def VIRTIO_MMIO_DRIVER_FEATURES_def
  VIRTIO_MMIO_QUEUE_SEL_def VIRTIO_MMIO_QUEUE_NUM_MAX_def VIRTIO_MMIO_QUEUE_NUM_def VIRTIO_MMIO_QUEUE_READY_def
  VIRTIO_MMIO_STATUS_def VIRTIO_MMIO_QUEUE_DESC_LOW_def VIRTIO_MMIO_QUEUE_DESC_HIGH_def
  VIRTIO_MMIO_DRIVER_DESC_LOW_def VIRTIO_MMIO_DRIVER_DESC_HIGH_def VIRTIO_MMIO_DEVICE_DESC_LOW_def
  VIRTIO_MMIO_DEVICE_DESC_HIGH_def VIRTIO_MMIO_QUEUE_NOTIFY_def VIRTIO_MMIO_INTERRUPT_STATUS_def
  VIRTIO_MMIO_INTERRUPT_ACK_def

text \<open>The status bits ACKNOWLEDGE, DRIVER, DRIVER_OK and FEATURES_OK.\<close>

definition S_ACKNOWLEDGE :: u32 where "S_ACKNOWLEDGE = 1"
definition S_DRIVER :: u32 where "S_DRIVER = 2"
definition S_DRIVER_OK :: u32 where "S_DRIVER_OK = 4"
definition S_FEATURES_OK :: u32 where "S_FEATURES_OK = 8"

text \<open>The features the driver declines, in the order in which it clears their bits.\<close>

definition declined :: "nat list" where "declined = [5, 7, 9, 11, 12, 27, 29, 28]"

definition driver_features :: "u64 \<Rightarrow> u64" where
  "driver_features f = fold (\<lambda>k f. f AND NOT (push_bit k 1)) declined f"

text \<open>Feature negotiation, up to the re-read of the status.\<close>

definition negotiate :: "((nat \<times> u32) list \<Rightarrow> nat \<Rightarrow> u32) \<Rightarrow> 'z vio_state_scheme \<Rightarrow> ('z vio_state_scheme, u32) kres" where
  "negotiate rd =
     kseq (mmio_write VIRTIO_MMIO_STATUS 0) (
     kseq (mmio_write VIRTIO_MMIO_STATUS S_ACKNOWLEDGE) (
     kseq (mmio_write VIRTIO_MMIO_STATUS (S_ACKNOWLEDGE OR S_DRIVER)) (
     kbind (mmio_read rd VIRTIO_MMIO_DEVICE_FEATURES) (\<lambda>f.
     kseq (mmio_write VIRTIO_MMIO_DRIVER_FEATURES (ucast (driver_features (ucast f)))) (
     kseq (mmio_write VIRTIO_MMIO_STATUS (S_ACKNOWLEDGE OR S_DRIVER OR S_FEATURES_OK)) (
     mmio_read rd VIRTIO_MMIO_STATUS))))))"

text \<open>
  The queue pages come from \<^verbatim>\<open>kalloc\<close> and are zeroed; \<open>vd\<close> is the typed view of their contents.
\<close>

definition queue_pages :: "'z vio_state_scheme \<Rightarrow> ('z vio_state_scheme, unit) kres" where
  "queue_pages =
     kbind kalloc (\<lambda>d. kseq (kmod (\<lambda>s. s\<lparr>desc_pa := d\<rparr>)) (
     kbind kalloc (\<lambda>a. kseq (kmod (\<lambda>s. s\<lparr>avail_pa := a\<rparr>)) (
     kbind kalloc (\<lambda>u. kseq (kmod (\<lambda>s. s\<lparr>used_pa := u\<rparr>)) (
     if d = 0 \<or> a = 0 \<or> u = 0 then kpanic ''virtio disk kalloc''
     else
       kseq (kmod (\<lambda>s. s\<lparr>phys := memset (phys s) d 0 4096\<rparr>)) (
       kseq (kmod (\<lambda>s. s\<lparr>phys := memset (phys s) a 0 4096\<rparr>)) (
       kseq (kmod (\<lambda>s. s\<lparr>phys := memset (phys s) u 0 4096\<rparr>)) (
       kmod (upd_vd (\<lambda>v. v\<lparr>desc := (\<lambda>_. \<lparr>d_addr = DNull, d_len = 0, d_flags = 0, d_next = 0\<rparr>),
         a_idx := 0, a_ring := (\<lambda>_. 0), u_idx := 0, u_ring := (\<lambda>_. 0)\<rparr>)))))))))))"

definition write_queue_addrs :: "'z vio_state_scheme \<Rightarrow> ('z vio_state_scheme, unit) kres" where
  "write_queue_addrs =
     kbind (kget (\<lambda>s. (desc_pa s, avail_pa s, used_pa s))) (\<lambda>(d, a, u).
     kseq (mmio_write VIRTIO_MMIO_QUEUE_DESC_LOW (ucast d)) (
     kseq (mmio_write VIRTIO_MMIO_QUEUE_DESC_HIGH (ucast (drop_bit 32 d))) (
     kseq (mmio_write VIRTIO_MMIO_DRIVER_DESC_LOW (ucast a)) (
     kseq (mmio_write VIRTIO_MMIO_DRIVER_DESC_HIGH (ucast (drop_bit 32 a))) (
     kseq (mmio_write VIRTIO_MMIO_DEVICE_DESC_LOW (ucast u)) (
     mmio_write VIRTIO_MMIO_DEVICE_DESC_HIGH (ucast (drop_bit 32 u))))))))"

definition virtio_disk_init :: "((nat \<times> u32) list \<Rightarrow> nat \<Rightarrow> u32) \<Rightarrow> 'z vio_state_scheme \<Rightarrow> ('z vio_state_scheme, unit) kres" where
  "virtio_disk_init rd =
     kseq (initlock VdiskLock ''virtio_disk'') (
     kbind (mmio_read rd VIRTIO_MMIO_MAGIC_VALUE) (\<lambda>magic.
     kbind (mmio_read rd VIRTIO_MMIO_VERSION) (\<lambda>version.
     kbind (mmio_read rd VIRTIO_MMIO_DEVICE_ID) (\<lambda>devid.
     kbind (mmio_read rd VIRTIO_MMIO_VENDOR_ID) (\<lambda>vendor.
     if magic \<noteq> 0x74726976 \<or> version \<noteq> 2 \<or> devid \<noteq> 2 \<or> vendor \<noteq> 0x554d4551
     then kpanic ''could not find virtio disk''
     else
     kbind (negotiate rd) (\<lambda>status.
     if status AND S_FEATURES_OK = 0 then kpanic ''virtio disk FEATURES_OK unset''
     else
     kseq (mmio_write VIRTIO_MMIO_QUEUE_SEL 0) (
     kbind (mmio_read rd VIRTIO_MMIO_QUEUE_READY) (\<lambda>ready.
     if ready \<noteq> 0 then kpanic ''virtio disk should not be ready''
     else
     kbind (mmio_read rd VIRTIO_MMIO_QUEUE_NUM_MAX) (\<lambda>mx.
     if mx = 0 then kpanic ''virtio disk has no queue 0''
     else if mx < of_nat NUM then kpanic ''virtio disk max queue too short''
     else
     kseq queue_pages (
     kseq (mmio_write VIRTIO_MMIO_QUEUE_NUM (of_nat NUM)) (
     kseq write_queue_addrs (
     kseq (mmio_write VIRTIO_MMIO_QUEUE_READY 1) (
     kseq (kfor [0..<NUM] (\<lambda>i. kmod (upd_vd (set_free i True)))) (
     mmio_write VIRTIO_MMIO_STATUS (status OR S_DRIVER_OK)))))))))))))))"

subsection \<open>Frames\<close>

lemma upd_vd_simps [simp]:
  "vd (upd_vd f s) = f (vd s)" "core (upd_vd f s) = core s" "procs (upd_vd f s) = procs s" "bufs (upd_vd f s) = bufs s"
  "disk (upd_vd f s) = disk s" "dwrites (upd_vd f s) = dwrites s" "sfuel (upd_vd f s) = sfuel s"
  "bdisk (upd_vd f s) = bdisk s" "mmio (upd_vd f s) = mmio s"
  "upd_vd f (upd_vd g s) = upd_vd (\<lambda>v. f (g v)) s" "upd_vd f (s\<lparr>core := c\<rparr>) = (upd_vd f s)\<lparr>core := c\<rparr>"
  by (simp_all add: upd_vd_def)

lemma table_ok_vio [simp]:
  "table_ok (upd_vd f s) = table_ok s" "table_ok (s\<lparr>bdisk := x\<rparr>) = table_ok s" "table_ok (s\<lparr>mmio := y\<rparr>) = table_ok s"
  by (rule table_ok_cong; simp add: upd_vd_def)+

lemma sched_more_vio:
  fixes s t :: "'z vio_state_scheme"
  assumes "sched_state.more t = sched_state.more s"
  shows "vd t = vd s" "bdisk t = bdisk s" "bufs t = bufs s" "disk t = disk s" "dwrites t = dwrites s"
    "sfuel t = sfuel s" "mmio t = mmio s"
  using assms by (cases s, cases t, simp)+

lemma wakeup_eff_vio [simp]:
  fixes s :: "'z vio_state_scheme"
  shows "vd (wakeup_eff ch s) = vd s" "bdisk (wakeup_eff ch s) = bdisk s" "bufs (wakeup_eff ch s) = bufs s"
    "disk (wakeup_eff ch s) = disk s" "dwrites (wakeup_eff ch s) = dwrites s" "sfuel (wakeup_eff ch s) = sfuel s"
    "mmio (wakeup_eff ch s) = mmio s"
  by (rule sched_more_vio; simp)+

text \<open>The part of the state that concerns blocks and their buffers.\<close>

definition same_blocks :: "'z vio_state_scheme \<Rightarrow> 'z vio_state_scheme \<Rightarrow> bool" where
  "same_blocks s t \<longleftrightarrow> bufs t = bufs s \<and> disk t = disk s \<and> dwrites t = dwrites s \<and> sfuel t = sfuel s \<and>
     bdisk t = bdisk s \<and> mmio t = mmio s"

lemma same_blocks_refl [simp]: "same_blocks s s"
  by (simp add: same_blocks_def)

lemma same_blocks_trans: "same_blocks s t \<Longrightarrow> same_blocks t u \<Longrightarrow> same_blocks s u"
  by (simp add: same_blocks_def)

subsection \<open>Allocation of descriptors\<close>

definition clear_desc :: "nat \<Rightarrow> vdisk \<Rightarrow> vdisk" where
  "clear_desc i v = set_free i True (upd_desc i (\<lambda>d. d\<lparr>d_addr := DNull, d_len := 0, d_flags := 0, d_next := 0\<rparr>) v)"

definition freed :: "nat \<Rightarrow> 'z vio_state_scheme \<Rightarrow> 'z vio_state_scheme" where
  "freed i s = wakeup_eff (Some ChDesc) (upd_vd (clear_desc i) s)"

definition ready :: "'z vio_state_scheme \<Rightarrow> bool" where
  "ready s \<longleftrightarrow> table_ok s \<and> table_free (core s)"

lemma readyD: "ready s \<Longrightarrow> table_ok s" "ready s \<Longrightarrow> table_free (core s)"
  by (simp_all add: ready_def)

lemma ready_simps [simp]:
  "ready (upd_vd f s) = ready s" "ready (s\<lparr>bdisk := x\<rparr>) = ready s" "ready (s\<lparr>mmio := y\<rparr>) = ready s"
  by (simp_all add: ready_def)

lemma ready_wakeup [simp]: "ready s \<Longrightarrow> ready (wakeup_eff ch s)"
  using wakeup_eff_ok(1) [of s ch] by (simp add: ready_def)

lemma ready_touch: "ready s \<Longrightarrow> ready (s\<lparr>core := touch (core s)\<rparr>)"
  by (simp add: ready_def)

lemma freed_simps [simp]:
  "vd (freed i s) = clear_desc i (vd s)" "core (freed i s) = touch (core s)" "same_blocks s (freed i s)"
  "ready s \<Longrightarrow> ready (freed i s)"
  by (simp_all add: freed_def same_blocks_def)

lemma free_desc_eq [kstep]:
  assumes "ready s" "i < NUM" "\<not> vfree (vd s) i"
  shows "free_desc i s = Ret () (freed i s)"
  using assms by (simp add: free_desc_def kstep readyD freed_def clear_desc_def [abs_def])

lemma free_desc_panics:
  "NUM \<le> i \<Longrightarrow> free_desc i s = Panic ''free_desc 1''"
  "i < NUM \<Longrightarrow> vfree (vd s) i \<Longrightarrow> free_desc i s = Panic ''free_desc 2''"
  by (simp_all add: free_desc_def kpanic_def)

lemma vfree_clear [simp]: "vfree (clear_desc i v) = (vfree v)(i := True)"
  by (simp add: clear_desc_def set_free_def upd_desc_def)

lemma free_all_eq:
  assumes "ready s" "distinct is" "\<forall>i \<in> set is. i < NUM \<and> \<not> vfree (vd s) i"
  shows "\<exists>t. kfor is free_desc s = Ret () t \<and> ready t \<and> same_blocks s t \<and> vd t = fold clear_desc is (vd s)"
  using assms
proof (induction "is" arbitrary: s)
  case Nil
  then show ?case by (simp add: kret_def)
next
  case (Cons i "is")
  then have "free_desc i s = Ret () (freed i s)" by (intro free_desc_eq) auto
  moreover have "\<exists>t. kfor is free_desc (freed i s) = Ret () t \<and> ready t \<and> same_blocks (freed i s) t \<and>
      vd t = fold clear_desc is (vd (freed i s))"
    using Cons.prems by (intro Cons.IH) auto
  ultimately show ?case using same_blocks_trans [OF freed_simps(3) [of s i]] by auto
qed

definition free_list :: "vdisk \<Rightarrow> nat list" where
  "free_list v = filter (vfree v) [0..<NUM]"

lemma find_filter_hd: "find P xs = (case filter P xs of [] \<Rightarrow> None | x # _ \<Rightarrow> Some x)"
  by (induction xs) auto

lemma alloc_desc_from_eq:
  "alloc_desc_from is s = (case find (vfree (vd s)) is of
     None \<Rightarrow> Ret None s | Some i \<Rightarrow> Ret (Some i) (upd_vd (set_free i False) s))"
  by (induction "is") (auto simp: kret_def)

lemma alloc_desc_eq [kstep]:
  "alloc_desc s = (case free_list (vd s) of
     [] \<Rightarrow> Ret None s | i # _ \<Rightarrow> Ret (Some i) (upd_vd (set_free i False) s))"
  by (simp add: alloc_desc_def alloc_desc_from_eq find_filter_hd free_list_def split: list.split)

lemma free_list_distinct [simp]: "distinct (free_list v)"
  by (simp add: free_list_def)

lemma free_list_set: "i \<in> set (free_list v) \<longleftrightarrow> i < NUM \<and> vfree v i"
  by (auto simp: free_list_def)

lemma free_list_take:
  assumes "free_list v = i # is"
  shows "free_list (set_free i False v) = is"
proof -
  have "free_list (set_free i False v) = filter (\<lambda>x. x \<noteq> i) (free_list v)"
    by (auto simp: free_list_def set_free_def intro!: filter_cong split: if_splits)
  moreover have "i \<notin> set is" using assms free_list_distinct [of v] by simp
  ultimately show ?thesis using assms by (auto intro!: filter_True)
qed

lemma alloc3_from_some:
  "k \<le> length (free_list (vd s)) \<Longrightarrow>
   alloc3_from k got s = Ret (Some (got @ take k (free_list (vd s))))
     (upd_vd (fold (\<lambda>i. set_free i False) (take k (free_list (vd s)))) s)"
proof (induction k arbitrary: got s)
  case 0
  then show ?case by (simp add: kret_def upd_vd_def)
next
  case (Suc k)
  then obtain i "is" where f: "free_list (vd s) = i # is" by (cases "free_list (vd s)") auto
  then show ?case using Suc free_list_take [OF f] by (simp add: kstep)
qed

lemma alloc3_from_none:
  "length (free_list (vd s)) < k \<Longrightarrow>
   alloc3_from k got s = kseq (kfor (got @ free_list (vd s)) free_desc) (kret None)
     (upd_vd (fold (\<lambda>i. set_free i False) (free_list (vd s))) s)"
proof (induction k arbitrary: got s)
  case 0
  then show ?case by simp
next
  case (Suc k)
  show ?case
  proof (cases "free_list (vd s)")
    case Nil
    then show ?thesis by (simp add: kstep upd_vd_def)
  next
    case (Cons i "is")
    then show ?thesis using Suc free_list_take [OF Cons] by (simp add: kstep)
  qed
qed

definition null_desc :: virtq_desc where
  "null_desc = \<lparr>d_addr = DNull, d_len = 0, d_flags = 0, d_next = 0\<rparr>"

text \<open>A free descriptor is cleared.\<close>

definition vd_clean :: "vdisk \<Rightarrow> bool" where
  "vd_clean v \<longleftrightarrow> (\<forall>i < NUM. vfree v i \<longrightarrow> desc v i = null_desc)"

lemma fold_take_free:
  "fold (\<lambda>i. set_free i False) is v = v\<lparr>vfree := (\<lambda>i. vfree v i \<and> i \<notin> set is)\<rparr>"
  by (induction "is" arbitrary: v) (auto simp: set_free_def fun_eq_iff intro!: vdisk.equality)

lemma fold_clear:
  "fold clear_desc is v = v\<lparr>vfree := (\<lambda>i. vfree v i \<or> i \<in> set is), desc := (\<lambda>i. if i \<in> set is then null_desc else desc v i)\<rparr>"
  by (induction "is" arbitrary: v)
    (auto simp: clear_desc_def set_free_def upd_desc_def null_desc_def fun_eq_iff intro!: vdisk.equality)

text \<open>
  \<^verbatim>\<open>alloc3_desc\<close> takes all or nothing: it answers three distinct descriptors that were free and
  marks exactly those as used, or it fails, and then fewer than three were free and the descriptor
  table is as before.
\<close>

theorem alloc3_desc_all_or_none:
  fixes s :: "'z vio_state_scheme"
  assumes "ready s" "vd_clean (vd s)"
  shows "\<exists>r t. alloc3_desc s = Ret r t \<and> ready t \<and> same_blocks s t \<and>
    (case r of
       Some idx \<Rightarrow> length idx = 3 \<and> distinct idx \<and> (\<forall>i \<in> set idx. i < NUM \<and> vfree (vd s) i) \<and>
         vd t = (vd s)\<lparr>vfree := (\<lambda>i. vfree (vd s) i \<and> i \<notin> set idx)\<rparr>
     | None \<Rightarrow> length (free_list (vd s)) < 3 \<and> vd t = vd s)"
proof (cases "3 \<le> length (free_list (vd s))")
  case True
  then show ?thesis
    using assms by (auto simp: alloc3_desc_def alloc3_from_some fold_take_free same_blocks_def free_list_set
        dest!: in_set_takeD)
next
  case False
  let ?fs = "free_list (vd s)" and ?s = "upd_vd (fold (\<lambda>i. set_free i False) (free_list (vd s))) s"
  have "\<exists>t. kfor ?fs free_desc ?s = Ret () t \<and> ready t \<and> same_blocks ?s t \<and> vd t = fold clear_desc ?fs (vd ?s)"
    using assms by (intro free_all_eq) (auto simp: fold_take_free free_list_set)
  then obtain t where t: "kfor ?fs free_desc ?s = Ret () t" "ready t" "same_blocks ?s t" "vd t = fold clear_desc ?fs (vd ?s)"
    by blast
  have "fold clear_desc ?fs (vd ?s) = vd s"
    using assms(2) by (auto simp: fold_take_free fold_clear vd_clean_def free_list_set fun_eq_iff intro!: vdisk.equality)
  moreover have "alloc3_desc s = Ret None t"
    using False t(1) by (simp add: alloc3_desc_def alloc3_from_none kret_def)
  ultimately show ?thesis using False t by (auto simp: same_blocks_def)
qed

lemma busy_decreases: "i < NUM \<Longrightarrow> \<not> vfree v i \<Longrightarrow>
   card {j. j < NUM \<and> \<not> vfree (clear_desc i v) j} < card {j. j < NUM \<and> \<not> vfree v j}"
  by (rule psubset_card_mono) auto

lemma free_chain_loop_ends:
  "ready s \<Longrightarrow> card {j. j < NUM \<and> \<not> vfree (vd s) j} < n \<Longrightarrow>
   (\<exists>t. free_chain_loop n i s = Ret () t \<and> same_blocks s t) \<or> (\<exists>m. free_chain_loop n i s = Panic m)"
proof (induction n arbitrary: i s)
  case (Suc n)
  consider "NUM \<le> i" | "i < NUM" "vfree (vd s) i" | "i < NUM" "\<not> vfree (vd s) i" by linarith
  then show ?case
  proof cases
    case 3
    then have e: "free_desc i s = Ret () (freed i s)" using Suc.prems by (intro free_desc_eq)
    have "card {j. j < NUM \<and> \<not> vfree (vd (freed i s)) j} < n"
      using busy_decreases [OF 3] Suc.prems by simp
    then have ih: "(\<exists>t. free_chain_loop n k (freed i s) = Ret () t \<and> same_blocks (freed i s) t) \<or>
        (\<exists>m. free_chain_loop n k (freed i s) = Panic m)" for k
      using Suc.prems by (intro Suc.IH) simp_all
    show ?thesis
      using e ih [of "unat (d_next (desc (vd s) i))"] same_blocks_trans [OF freed_simps(3) [of s i]] by (auto simp: kret_def)
  qed (simp_all add: free_desc_panics)
qed simp

text \<open>
  \<^verbatim>\<open>free_chain\<close> ends for every head and every contents of the descriptor table, a table with a
  cycle included: it returns, or it meets a descriptor that is free or out of range and panics. It
  touches no buffer and no block.
\<close>

theorem free_chain_ends:
  fixes s :: "'z vio_state_scheme"
  assumes "ready s"
  shows "(\<exists>t. free_chain i s = Ret () t \<and> same_blocks s t) \<or> (\<exists>m. free_chain i s = Panic m)"
proof -
  have "card {j. j < NUM \<and> \<not> vfree (vd s) j} \<le> card {..<NUM}" by (rule card_mono) auto
  then show ?thesis unfolding free_chain_def using assms by (intro free_chain_loop_ends) simp_all
qed

subsection \<open>Completions\<close>

text \<open>The buffers whose requests the device has completed and the driver has not looked at yet.\<close>

definition pending :: "vdisk \<Rightarrow> nat \<Rightarrow> nat list" where
  "pending v n = map (\<lambda>j. unat (u_ring v (unat (used_idx v + of_nat j) mod NUM))) [0..<n]"

definition completed :: "vdisk \<Rightarrow> nat \<Rightarrow> bool" where
  "completed v i \<longleftrightarrow> i < NUM \<and> i_status v i = 0 \<and> i_buf v i \<noteq> None"

definition woken_all :: "nat list \<Rightarrow> proc \<Rightarrow> proc" where
  "woken_all bs = fold (\<lambda>b. woken (Some (ChBuf b))) bs"

lemma pending_Suc:
  "pending v (Suc n) = unat (u_ring v (unat (used_idx v) mod NUM)) # pending (v\<lparr>used_idx := used_idx v + 1\<rparr>) n"
  by (simp add: pending_def upt_conv_Cons map_Suc_upt [symmetric] add.assoc del: upt_Suc)

lemma unat_diff_Suc:
  fixes a b :: u16
  assumes "unat (b - a) = Suc n"
  shows "unat (b - (a + 1)) = n" "a \<noteq> b"
proof -
  show "a \<noteq> b" using assms by auto
  have "b - a \<noteq> 0" using assms by auto
  then have "unat (b - a - 1) = unat (b - a) - 1" by (rule unat_minus_one)
  then show "unat (b - (a + 1)) = n" using assms by (simp add: algebra_simps)
qed

lemma unat_u16_lt: "unat (x :: u16) < 2 ^ 16"
  using unsigned_less [of x, where ?'a = nat] by simp

lemma intr_loop_all:
  fixes s :: "'z vio_state_scheme"
  assumes "ready s" "unat (u_idx (vd s) - used_idx (vd s)) = n" "n < fuel" "\<forall>i \<in> set (pending (vd s) n). completed (vd s) i"
  defines "bs \<equiv> map (\<lambda>i. the (i_buf (vd s) i)) (pending (vd s) n)"
  shows "\<exists>t. intr_loop fuel s = Ret () t \<and> ready t \<and> vd t = (vd s)\<lparr>used_idx := u_idx (vd s)\<rparr> \<and>
     bdisk t = (\<lambda>b. if b \<in> set bs then 0 else bdisk s b) \<and> bufs t = bufs s \<and> disk t = disk s \<and> dwrites t = dwrites s \<and>
     sfuel t = sfuel s \<and> (core t = core s \<or> core t = touch (core s)) \<and> (\<forall>q < NPROC. procs t q = woken_all bs (procs s q))"
  using assms(1-4) unfolding bs_def
proof (induction n arbitrary: s fuel)
  case 0
  then obtain k where k: "fuel = Suc k" by (cases fuel) auto
  have "u_idx (vd s) - used_idx (vd s) = 0" using 0(2) by (simp only: unat_eq_zero)
  then have "used_idx (vd s) = u_idx (vd s)" by simp
  then have "intr_loop fuel s = Ret () s" "vd s = (vd s)\<lparr>used_idx := u_idx (vd s)\<rparr>"
    by (simp_all add: k kret_def)
  then show ?case using 0 by (simp add: pending_def woken_all_def fun_eq_iff)
next
  case (Suc n)
  then obtain k where k: "fuel = Suc k" by (cases fuel) auto
  let ?i = "unat (u_ring (vd s) (unat (used_idx (vd s)) mod NUM))"
  have c: "completed (vd s) ?i" using Suc.prems(4) by (simp add: pending_Suc)
  then obtain b where b: "i_buf (vd s) ?i = Some b" by (auto simp: completed_def)
  let ?s1 = "wakeup_eff (Some (ChBuf b)) (s\<lparr>bdisk := (bdisk s)(b := 0)\<rparr>)"
  let ?s2 = "upd_vd (\<lambda>v. v\<lparr>used_idx := used_idx v + 1\<rparr>) ?s1"
  have rs: "ready (s\<lparr>bdisk := (bdisk s)(b := 0)\<rparr>)" using Suc.prems(1) by simp
  have step: "intr_loop fuel s = intr_loop k ?s2"
    using c b Suc.prems(1) unat_diff_Suc(2) [OF Suc.prems(2)]
    by (simp add: k Let_def completed_def wakeup_eq [OF readyD [OF rs]])
  have d: "unat (u_idx (vd ?s2) - used_idx (vd ?s2)) = n" using unat_diff_Suc(1) [OF Suc.prems(2)] by simp
  have "\<forall>i \<in> set (pending (vd ?s2) n). completed (vd ?s2) i"
    using Suc.prems(4) by (simp add: pending_Suc completed_def)
  from Suc.IH [OF _ d _ this, of k] obtain t where t: "intr_loop k ?s2 = Ret () t" "ready t"
    "vd t = (vd ?s2)\<lparr>used_idx := u_idx (vd ?s2)\<rparr>"
    "bdisk t = (\<lambda>b. if b \<in> set (map (\<lambda>i. the (i_buf (vd ?s2) i)) (pending (vd ?s2) n)) then 0 else bdisk ?s2 b)"
    "bufs t = bufs ?s2" "disk t = disk ?s2" "dwrites t = dwrites ?s2" "sfuel t = sfuel ?s2"
    "core t = core ?s2 \<or> core t = touch (core ?s2)"
    "\<forall>q < NPROC. procs t q = woken_all (map (\<lambda>i. the (i_buf (vd ?s2) i)) (pending (vd ?s2) n)) (procs ?s2 q)"
    using Suc.prems k rs by auto
  have "procs ?s2 q = woken (Some (ChBuf b)) (procs s q)" if "q < NPROC" for q
    using wakeup_eff_ok(2) [OF readyD(1) [OF rs] that] by simp
  then have "\<forall>q < NPROC. procs t q = woken_all (map (\<lambda>i. the (i_buf (vd s) i)) (pending (vd s) (Suc n))) (procs s q)"
    using t(10) b by (simp add: pending_Suc woken_all_def)
  moreover have "bdisk t = (\<lambda>b. if b \<in> set (map (\<lambda>i. the (i_buf (vd s) i)) (pending (vd s) (Suc n))) then 0 else bdisk s b)"
    using t(4) b by (auto simp: pending_Suc fun_eq_iff)
  ultimately show ?case using step t by auto
qed

lemma virtio_disk_intr_all:
  fixes s :: "'z vio_state_scheme"
  assumes r: "ready s" and f: "free_lock VdiskLock (core s)" and n: "unat (u_idx (vd s) - used_idx (vd s)) = n"
    and c: "\<forall>i \<in> set (pending (vd s) n). completed (vd s) i"
  defines "bs \<equiv> map (\<lambda>i. the (i_buf (vd s) i)) (pending (vd s) n)"
  shows "\<exists>t. virtio_disk_intr rd s = Ret () t \<and> table_ok t \<and> core t = touch (core s) \<and> vd t = (vd s)\<lparr>used_idx := u_idx (vd s)\<rparr> \<and>
     bdisk t = (\<lambda>b. if b \<in> set bs then 0 else bdisk s b) \<and> bufs t = bufs s \<and> disk t = disk s \<and> dwrites t = dwrites s \<and>
     sfuel t = sfuel s \<and> (\<forall>q < NPROC. procs t q = woken_all bs (procs s q))"
proof -
  let ?c = "c_acq VdiskLock (core s)"
  let ?s1 = "s\<lparr>core := ?c, mmio := mmio s @ [(VIRTIO_MMIO_INTERRUPT_ACK, rd (mmio s) VIRTIO_MMIO_INTERRUPT_STATUS AND 3)]\<rparr>"
  have ok: "cpu_ok (core s)" using r by (simp add: ready_def table_free_def)
  have r1: "ready ?s1" using r by (simp add: ready_def)
  have lt: "n < 2 ^ 16" using n unat_u16_lt [of "u_idx (vd s) - used_idx (vd s)"] by simp
  have e: "vd ?s1 = vd s" "bdisk ?s1 = bdisk s" "bufs ?s1 = bufs s" "disk ?s1 = disk s" "dwrites ?s1 = dwrites s"
    "sfuel ?s1 = sfuel s" "core ?s1 = ?c" "procs ?s1 = procs s"
    by simp_all
  obtain t where t: "intr_loop (2 ^ 16) ?s1 = Ret () t" "ready t" "vd t = (vd s)\<lparr>used_idx := u_idx (vd s)\<rparr>"
    "bdisk t = (\<lambda>b. if b \<in> set bs then 0 else bdisk s b)" "bufs t = bufs s" "disk t = disk s" "dwrites t = dwrites s"
    "sfuel t = sfuel s" "core t = ?c \<or> core t = touch ?c" "\<forall>q < NPROC. procs t q = woken_all bs (procs s q)"
    using intr_loop_all [OF r1, of n "2 ^ 16", unfolded e, OF n lt c] unfolding bs_def by blast
  have ct: "core t = ?c" using t(9) ok by auto
  then have "release VdiskLock t = Ret () (t\<lparr>core := touch (core s)\<rparr>)" using ok f by (simp add: kstep)
  moreover have "table_ok (t\<lparr>core := touch (core s)\<rparr>)" using t(2) by (simp add: ready_def)
  ultimately show ?thesis
    using t f by (simp add: virtio_disk_intr_def kstep mmio_read_def mmio_write_def)
qed

subsection \<open>The device\<close>

text \<open>
  \<open>blk_chain v h b w n\<close>: the chain that starts at descriptor \<open>h\<close> is a block request as the virtio
  specification lays it out (header, data, status byte): a write of buffer \<open>b\<close> to the two sectors of
  block \<open>n\<close> if \<open>w\<close>, a read otherwise. The status byte belongs to the same request.
\<close>

definition blk_chain :: "vdisk \<Rightarrow> nat \<Rightarrow> nat \<Rightarrow> bool \<Rightarrow> u32 \<Rightarrow> bool" where
  "blk_chain v h b w n \<longleftrightarrow>
     (let d0 = desc v h; d1 = desc v (unat (d_next d0)); d2 = desc v (unat (d_next d1)) in
      d_addr d0 = DOps h \<and> d_len d0 = 16 \<and> d_flags d0 = VRING_DESC_F_NEXT \<and>
      d_addr d1 = DData b \<and> d_len d1 = of_nat BSIZE \<and>
      d_flags d1 = (if w then VRING_DESC_F_NEXT else VRING_DESC_F_WRITE OR VRING_DESC_F_NEXT) \<and>
      d_addr d2 = DStatus h \<and> d_len d2 = 1 \<and> d_flags d2 = VRING_DESC_F_WRITE \<and>
      ops v h = \<lparr>r_type = (if w then VIRTIO_BLK_T_OUT else VIRTIO_BLK_T_IN), r_reserved = 0,
        r_sector = 2 * ucast n\<rparr>)"

text \<open>The block transfer itself, the status byte 0, and the entry in the used ring.\<close>

definition transfer :: "nat \<Rightarrow> bool \<Rightarrow> u32 \<Rightarrow> 'z bio_state_scheme \<Rightarrow> 'z bio_state_scheme" where
  "transfer b w n s =
     (if w then s\<lparr>disk := (disk s)(n := bdata (bufs s b)), dwrites := dwrites s @ [(n, bdata (bufs s b))]\<rparr>
      else upd_buf b (\<lambda>v. v\<lparr>bdata := disk s n\<rparr>) s)"

definition served :: "nat \<Rightarrow> vdisk \<Rightarrow> vdisk" where
  "served h v = v\<lparr>i_status := (i_status v)(h := 0), u_ring := (u_ring v)(unat (u_idx v) mod NUM := of_nat h),
     u_idx := u_idx v + 1\<rparr>"

definition device_ok :: "(nat \<Rightarrow> 'z vio_state_scheme \<Rightarrow> 'z vio_state_scheme) \<Rightarrow> bool" where
  "device_ok serve \<longleftrightarrow> (\<forall>s h b w n. blk_chain (vd s) h b w n \<longrightarrow> serve h s = upd_vd (served h) (transfer b w n s))"

subsection \<open>A request from start to end\<close>

definition request_vd :: "nat \<Rightarrow> nat \<Rightarrow> nat \<Rightarrow> nat \<Rightarrow> bool \<Rightarrow> u64 \<Rightarrow> vdisk \<Rightarrow> vdisk" where
  "request_vd i0 i1 i2 b w sec v = v\<lparr>
     ops := (ops v)(i0 := \<lparr>r_type = (if w then VIRTIO_BLK_T_OUT else VIRTIO_BLK_T_IN), r_reserved = 0, r_sector = sec\<rparr>),
     desc := (desc v)(i0 := \<lparr>d_addr = DOps i0, d_len = 16, d_flags = VRING_DESC_F_NEXT, d_next = of_nat i1\<rparr>,
       i1 := \<lparr>d_addr = DData b, d_len = of_nat BSIZE,
         d_flags = (if w then VRING_DESC_F_NEXT else VRING_DESC_F_WRITE OR VRING_DESC_F_NEXT), d_next = of_nat i2\<rparr>,
       i2 := \<lparr>d_addr = DStatus i0, d_len = 1, d_flags = VRING_DESC_F_WRITE, d_next = 0\<rparr>),
     i_status := (i_status v)(i0 := 0xff), i_buf := (i_buf v)(i0 := Some b),
     a_ring := (a_ring v)(unat (a_idx v) mod NUM := of_nat i0), a_idx := a_idx v + 1\<rparr>"

lemma request_eq:
  assumes "distinct [i0, i1, i2]"
  shows "kseq (format_request i0 i1 i2 b w sec) (kseq (submit i0 b) g) s =
    g ((upd_vd (request_vd i0 i1 i2 b w sec) s)\<lparr>bdisk := (bdisk s)(b := 1), mmio := mmio s @ [(VIRTIO_MMIO_QUEUE_NOTIFY, 0)]\<rparr>)"
proof -
  have [simp]: "r\<lparr>r_type := a, r_reserved := x, r_sector := y\<rparr> = \<lparr>r_type = a, r_reserved = x, r_sector = y\<rparr>"
    for r :: virtio_blk_req and a x y by (cases r) simp
  have [simp]: "d\<lparr>d_addr := a, d_len := l, d_flags := f, d_next := n\<rparr> = \<lparr>d_addr = a, d_len = l, d_flags = f, d_next = n\<rparr>"
    for d :: virtq_desc and a l f n by (cases d) simp
  show ?thesis
    using assms by (auto simp: format_request_def submit_def mmio_write_def kmod_def upd_vd_def upd_op_def upd_desc_def
        request_vd_def kseq_def kbind_def fun_eq_iff intro!: arg_cong [where f = g] vio_state.equality vdisk.equality)
qed

text \<open>Waiting with a lock: prepare, release, sleep.\<close>

definition asleep :: "nat \<Rightarrow> chan \<Rightarrow> kcore \<Rightarrow> 'z sched_state_scheme \<Rightarrow> 'z sched_state_scheme" where
  "asleep p ch c s = (upd_proc p (\<lambda>r. r\<lparr>chan := Some ch, state := SLEEPING\<rparr>) s)\<lparr>core := c_acq (ProcLock p) (touch c)\<rparr>"

definition resume :: "bool \<Rightarrow> nat \<Rightarrow> 'z sched_state_scheme \<Rightarrow> ('z sched_state_scheme, unit) kres" where
  "resume ie p = kseq (kcore_mod (upd_mycpu (\<lambda>c. c\<lparr>intena := ie\<rparr>))) (release (ProcLock p))"

lemma wait_switches:
  assumes c: "core s = c_acq lk c" "free_lock lk c" "noff (mycpu c) = 0" "cproc (mycpu c) = Some p"
    and f: "free_lock (ProcLock p) c" "lk \<noteq> ProcLock p"
  shows "kseq (sleep_prepare (Some ch)) (kseq (release lk) (kseq sleep g)) s = Sched (asleep p ch c s) (kseq (resume (intr_get c) p) g)"
proof -
  have ok: "cpu_ok c" using c by (simp add: cpu_ok_def)
  let ?s1 = "(upd_proc p (\<lambda>r. r\<lparr>chan := Some ch\<rparr>) s)\<lparr>core := touch c\<rparr>"
  have "sleep_prepare (Some ch) s = Ret () ((upd_proc p (\<lambda>r. r\<lparr>chan := Some ch\<rparr>) s)\<lparr>core := c_acq lk c\<rparr>)"
    using sleep_prepare_eq [of s p ch] c ok f by simp
  moreover have "release lk ((upd_proc p (\<lambda>r. r\<lparr>chan := Some ch\<rparr>) s)\<lparr>core := c_acq lk c\<rparr>) = Ret () ?s1"
    using ok c by (simp add: kstep)
  moreover have "sleep ?s1 = Sched (asleep p ch c s) (resume (intr_get c) p)"
    using sleep_switches [of ?s1 p ch] c f by (simp add: asleep_def resume_def upd_proc_twice)
  ultimately show ?thesis by simp
qed

lemma sched_more_asleep [simp]: "sched_state.more (asleep p ch c s) = sched_state.more s"
  by (simp add: asleep_def upd_proc_def)

lemma next_bits [simp]: "VRING_DESC_F_NEXT \<noteq> 0" "VRING_DESC_F_WRITE AND VRING_DESC_F_NEXT = 0"
  "(VRING_DESC_F_WRITE OR VRING_DESC_F_NEXT) AND VRING_DESC_F_NEXT \<noteq> 0"
  by (simp_all add: VRING_DESC_F_NEXT_def VRING_DESC_F_WRITE_def)

lemma desc_clear_other [simp]: "i \<noteq> j \<Longrightarrow> desc (clear_desc i v) j = desc v j"
  by (simp add: clear_desc_def set_free_def upd_desc_def)

lemma free_chain_three:
  assumes r: "ready s" and d: "distinct [i0, i1, i2]" and i: "\<forall>i \<in> {i0, i1, i2}. i < NUM \<and> \<not> vfree (vd s) i"
    and n: "d_flags (desc (vd s) i0) AND VRING_DESC_F_NEXT \<noteq> 0" "unat (d_next (desc (vd s) i0)) = i1"
      "d_flags (desc (vd s) i1) AND VRING_DESC_F_NEXT \<noteq> 0" "unat (d_next (desc (vd s) i1)) = i2"
      "d_flags (desc (vd s) i2) AND VRING_DESC_F_NEXT = 0"
  shows "free_chain i0 s = Ret () (freed i2 (freed i1 (freed i0 s)))"
proof -
  have "free_desc i0 s = Ret () (freed i0 s)" using r i by (intro free_desc_eq) auto
  moreover have "free_desc i1 (freed i0 s) = Ret () (freed i1 (freed i0 s))" using r i d by (intro free_desc_eq) auto
  moreover have "free_desc i2 (freed i1 (freed i0 s)) = Ret () (freed i2 (freed i1 (freed i0 s)))"
    using r i d by (intro free_desc_eq) auto
  ultimately show ?thesis
    using n d by (simp add: free_chain_def NUM_def numeral_eq_Suc kret_def)
qed

definition posted :: "nat \<Rightarrow> nat \<Rightarrow> nat \<Rightarrow> nat \<Rightarrow> bool \<Rightarrow> 'z vio_state_scheme \<Rightarrow> 'z vio_state_scheme" where
  "posted i0 i1 i2 b w s =
     (upd_vd (\<lambda>v. request_vd i0 i1 i2 b w (sector_of (blockno (bufs s b)))
        (v\<lparr>vfree := (\<lambda>i. vfree v i \<and> i \<notin> set [i0, i1, i2])\<rparr>)) s)
     \<lparr>bdisk := (bdisk s)(b := 1), mmio := mmio s @ [(VIRTIO_MMIO_QUEUE_NOTIFY, 0)]\<rparr>"

definition rw_finish :: "nat \<Rightarrow> 'z vio_state_scheme \<Rightarrow> ('z vio_state_scheme, unit) kres" where
  "rw_finish i0 =
     kseq (kmod (upd_vd (\<lambda>v. v\<lparr>i_buf := (i_buf v)(i0 := None)\<rparr>))) (
     kseq (free_chain i0) (release VdiskLock))"

text \<open>
  The state in which a process alone in the kernel asks for a transfer: the driver's lock is free, at
  least three descriptors are, and no completion is left unseen.
\<close>

definition can_request :: "nat \<Rightarrow> 'z vio_state_scheme \<Rightarrow> bool" where
  "can_request p s \<longleftrightarrow> quiet p s \<and> noff (mycpu (core s)) = 0 \<and> 1 < sfuel s \<and> state (procs s p) = RUNNING \<and>
     inq (procs s p) = 0 \<and> vd_clean (vd s) \<and> 3 \<le> length (free_list (vd s)) \<and> used_idx (vd s) = u_idx (vd s)"

lemma asleep_core [simp]: "asleep p ch c (s\<lparr>core := d\<rparr>) = asleep p ch c s"
  by (simp add: asleep_def upd_proc_def)

lemma rw_start:
  assumes r: "can_request p s" and idx: "take 3 (free_list (vd s)) = [i0, i1, i2]"
  shows "virtio_disk_rw b w s = Sched (asleep p (ChBuf b) (core s) (posted i0 i1 i2 b w s))
     (kseq (kseq (resume (intr_get (core s)) p) (kseq (acquire VdiskLock) (rw_wait (sfuel s - 1) b))) (rw_finish i0))"
proof -
  obtain n where n: "sfuel s = Suc n" using r by (cases "sfuel s") (auto simp: can_request_def)
  let ?c = "c_acq VdiskLock (core s)"
  have q: "quiet p s" using r by (simp add: can_request_def)
  let ?v = "upd_vd (\<lambda>v. v\<lparr>vfree := (\<lambda>i. vfree v i \<and> i \<notin> set [i0, i1, i2])\<rparr>) (s\<lparr>core := ?c\<rparr>)"
  let ?t = "(posted i0 i1 i2 b w s)\<lparr>core := ?c\<rparr>"
  have d: "distinct [i0, i1, i2]" using idx distinct_take [OF free_list_distinct [of "vd s"], of 3] by simp
  have "alloc3_desc (s\<lparr>core := ?c\<rparr>) = Ret (Some [i0, i1, i2]) ?v"
    using r idx by (simp add: alloc3_desc_def alloc3_from_some fold_take_free [of "[i0, i1, i2]", simplified]
        can_request_def upd_vd_def)
  then have al: "rw_alloc (sfuel s) (s\<lparr>core := ?c\<rparr>) = Ret [i0, i1, i2] ?v" by (simp add: n kret_def)
  have po: "kseq (format_request i0 i1 i2 b w (sector_of (blockno (bufs s b)))) (kseq (submit i0 b) g) ?v = g ?t"
    for g :: "'a vio_state_scheme \<Rightarrow> ('a vio_state_scheme, unit) kres"
    unfolding request_eq [OF d] by (rule arg_cong [where f = g], rule vio_state.equality) (simp_all add: posted_def upd_vd_def)
  have "rw_wait (sfuel s) b ?t = kseq (sleep_prepare (Some (ChBuf b))) (kseq (release VdiskLock)
      (kseq sleep (kseq (acquire VdiskLock) (rw_wait n b)))) ?t"
    by (simp add: n posted_def)
  also have "\<dots> = Sched (asleep p (ChBuf b) (core s) ?t) (kseq (resume (intr_get (core s)) p) (kseq (acquire VdiskLock) (rw_wait n b)))"
    using r quietD [OF q] by (intro wait_switches) (simp_all add: can_request_def)
  finally have w: "rw_wait (sfuel s) b ?t = Sched (asleep p (ChBuf b) (core s) (posted i0 i1 i2 b w s))
      (kseq (resume (intr_get (core s)) p) (kseq (acquire VdiskLock) (rw_wait n b)))" by simp
  have "virtio_disk_rw b w s = kseq (rw_wait (sfuel s) b) (rw_finish i0) ?t"
    unfolding virtio_disk_rw_def using quietD(1,2) [OF q] al po by (simp add: kstep rw_finish_def)
  then show ?thesis using w n by simp
qed

lemma sector_of_eq:
  assumes "unat n < 2 ^ 31"
  shows "sector_of n = 2 * ucast n"
proof -
  have "unat (n * 2) = unat n * 2" using assms by (simp add: unat_word_ariths(2))
  then have "(of_nat (unat (n * 2)) :: u64) = 2 * of_nat (unat n)" by simp
  then show ?thesis by (simp add: sector_of_def BSIZE_def)
qed

lemma posted_chain:
  assumes "distinct [i0, i1, i2]" "i1 < NUM" "i2 < NUM" "unat (blockno (bufs s b)) < 2 ^ 31"
  shows "blk_chain (vd (posted i0 i1 i2 b w s)) i0 b w (blockno (bufs s b))"
  using assms by (simp add: blk_chain_def posted_def request_vd_def Let_def NUM_def sector_of_eq unat_of_nat)

lemma rw_resume:
  fixes u :: "'z vio_state_scheme"
  assumes pk: "picked p u" and fr: "\<forall>lk. lk \<noteq> ProcLock p \<longrightarrow> free_lock lk (core u)" and tab: "table_ok u"
    and n: "0 < n" and b: "bdisk u b \<noteq> 1"
    and d: "distinct [i0, i1, i2]" and i: "\<forall>i \<in> {i0, i1, i2}. i < NUM \<and> \<not> vfree (vd u) i"
    and ch: "d_flags (desc (vd u) i0) AND VRING_DESC_F_NEXT \<noteq> 0" "unat (d_next (desc (vd u) i0)) = i1"
      "d_flags (desc (vd u) i1) AND VRING_DESC_F_NEXT \<noteq> 0" "unat (d_next (desc (vd u) i1)) = i2"
      "d_flags (desc (vd u) i2) AND VRING_DESC_F_NEXT = 0"
  shows "\<exists>t. kseq (kseq (resume ie p) (kseq (acquire VdiskLock) (rw_wait n b))) (rw_finish i0) u = Ret () t \<and>
    vd t = fold clear_desc [i0, i1, i2] ((vd u)\<lparr>i_buf := (i_buf (vd u))(i0 := None)\<rparr>) \<and>
    bufs t = bufs u \<and> disk t = disk u \<and> dwrites t = dwrites u \<and> bdisk t = bdisk u"
proof -
  let ?v = "back_on ie p u"
  obtain m where m: "n = Suc m" using n by (cases n) auto
  have c: "cpu_ok (core ?v)" "free_lock lk (core ?v)" for lk
    using pk fr by (auto simp: back_on_def picked_def hart_defs Let_def)
  have e: "vd ?v = vd u" "bufs ?v = bufs u" "disk ?v = disk u" "dwrites ?v = dwrites u" "bdisk ?v = bdisk u"
    by (simp_all add: back_on_def)
  let ?w = "upd_vd (\<lambda>v. v\<lparr>i_buf := (i_buf v)(i0 := None)\<rparr>) (?v\<lparr>core := c_acq VdiskLock (core ?v)\<rparr>)"
  have "ready ?w" using tab c by (simp add: ready_def table_free_def back_on_def)
  then have f: "free_chain i0 ?w = Ret () (freed i2 (freed i1 (freed i0 ?w)))"
    by (rule free_chain_three) (use d i ch e in auto)
  have "kseq (resume ie p) (kseq (acquire VdiskLock) (rw_wait n b)) u = Ret () (?v\<lparr>core := c_acq VdiskLock (core ?v)\<rparr>)"
    using swtch_resume [OF pk, of ie] c e b by (simp add: resume_def kstep m kret_def)
  moreover have "release VdiskLock (freed i2 (freed i1 (freed i0 ?w))) = Ret () ((freed i2 (freed i1 (freed i0 ?w)))\<lparr>core := touch (core ?v)\<rparr>)"
    using c by (simp add: kstep)
  moreover have "same_blocks ?w (freed i2 (freed i1 (freed i0 ?w)))"
    by (intro same_blocks_trans [OF _ freed_simps(3)] same_blocks_refl)
  ultimately show ?thesis using f e by (simp add: rw_finish_def same_blocks_def)
qed

text \<open>The process has been switched out and the scheduler has released its lock.\<close>

definition parked :: "nat \<Rightarrow> chan \<Rightarrow> kcore \<Rightarrow> 'z sched_state_scheme \<Rightarrow> 'z sched_state_scheme" where
  "parked p ch c s = (asleep p ch c s)\<lparr>core := c_rel (ProcLock p) (upd_mycpu (\<lambda>c. c\<lparr>cproc := None\<rparr>) (c_acq (ProcLock p) (touch c)))\<rparr>"

lemma asleep_back:
  assumes "noff (mycpu c) = 0"
  shows "scheduler_mlfq_back p (asleep p ch c s) = Ret () (parked p ch c s)"
proof -
  let ?d = "upd_mycpu (\<lambda>c. c\<lparr>cproc := None\<rparr>) (c_acq (ProcLock p) (touch c))"
  have "holding (ProcLock p) ?d" "\<not> intr_get ?d" "noff (mycpu ?d) = 1" using assms by (simp_all add: hart_defs)
  then show ?thesis by (simp add: scheduler_mlfq_back_def kstep parked_def asleep_def)
qed

lemma parked_core:
  assumes "free_lock (ProcLock p) c" "noff (mycpu c) = 0"
  shows "free_lock lk (core (parked p ch c s)) = free_lock lk c"
    and "cpu_ok (c\<lparr>tp := h\<rparr>) \<Longrightarrow> cpu_ok ((core (parked p ch c s))\<lparr>tp := h\<rparr>)"
  using assms by (auto simp: parked_def hart_defs Let_def)

lemma parked_table:
  "table_ok s \<Longrightarrow> inq (procs s p) = 0 \<Longrightarrow> table_ok (parked p ch c s)"
  by (simp add: parked_def asleep_def table_ok_def)

lemma parked_procs [simp]:
  "procs (parked p ch c s) = (procs s)(p := (procs s p)\<lparr>chan := Some ch, state := SLEEPING\<rparr>)"
  by (simp add: parked_def asleep_def)

lemma parked_vio [simp]:
  fixes s :: "'z vio_state_scheme"
  shows "vd (parked p ch c s) = vd s" "bdisk (parked p ch c s) = bdisk s" "bufs (parked p ch c s) = bufs s"
    "disk (parked p ch c s) = disk s" "dwrites (parked p ch c s) = dwrites s" "sfuel (parked p ch c s) = sfuel s"
  by (rule sched_more_vio, simp add: parked_def asleep_def upd_proc_def)+

lemma transfer_simps [simp]:
  fixes s :: "'z vio_state_scheme"
  shows "vd (transfer b w n s) = vd s" "bdisk (transfer b w n s) = bdisk s" "core (transfer b w n s) = core s"
    "procs (transfer b w n s) = procs s" "table_ok (transfer b w n s) = table_ok s" "sfuel (transfer b w n s) = sfuel s"
  by (simp_all add: transfer_def upd_buf_def)

lemma on_hart_vio [simp]:
  fixes s :: "'z vio_state_scheme"
  shows "vd (on_hart h s) = vd s" "bdisk (on_hart h s) = bdisk s" "bufs (on_hart h s) = bufs s" "disk (on_hart h s) = disk s"
    "dwrites (on_hart h s) = dwrites s" "sfuel (on_hart h s) = sfuel s"
  by (simp_all add: on_hart_def)

lemma posted_simps [simp]:
  "core (posted i0 i1 i2 b w s) = core s" "procs (posted i0 i1 i2 b w s) = procs s" "bufs (posted i0 i1 i2 b w s) = bufs s"
  "disk (posted i0 i1 i2 b w s) = disk s" "dwrites (posted i0 i1 i2 b w s) = dwrites s"
  "table_ok (posted i0 i1 i2 b w s) = table_ok s" "bdisk (posted i0 i1 i2 b w s) = (bdisk s)(b := 1)"
  "vd (posted i0 i1 i2 b w s) = request_vd i0 i1 i2 b w (sector_of (blockno (bufs s b)))
     ((vd s)\<lparr>vfree := (\<lambda>i. vfree (vd s) i \<and> i \<notin> set [i0, i1, i2])\<rparr>)"
  by (simp_all add: posted_def)

text \<open>The device serves the posted request while the process sleeps, and its interrupt is handled.\<close>

lemma rw_served:
  fixes s :: "'z vio_state_scheme" and w :: bool
  assumes r: "can_request p s" and idx: "take 3 (free_list (vd s)) = [i0, i1, i2]" and dev: "device_ok serve"
    and b: "unat (blockno (bufs s b)) < 2 ^ 31" and h: "cpu_ok ((core s)\<lparr>tp := h\<rparr>)"
  defines "x \<equiv> parked p (ChBuf b) (core s) (posted i0 i1 i2 b w s)"
  shows "\<exists>t. virtio_disk_intr rd (on_hart h (serve i0 x)) = Ret () t \<and> state (procs t p) = RUNNABLE \<and>
     vd t = (served i0 (vd x))\<lparr>used_idx := used_idx (vd s) + 1\<rparr> \<and> bdisk t b = 0 \<and>
     bufs t = bufs (transfer b w (blockno (bufs s b)) s) \<and> disk t = disk (transfer b w (blockno (bufs s b)) s) \<and>
     dwrites t = dwrites (transfer b w (blockno (bufs s b)) s)"
proof -
  let ?n = "blockno (bufs s b)"
  have q: "quiet p s" using r by (simp add: can_request_def)
  have i: "distinct [i0, i1, i2]" "i0 < NUM" "i1 < NUM" "i2 < NUM"
    using idx distinct_take [OF free_list_distinct [of "vd s"], of 3] in_set_takeD [of _ 3 "free_list (vd s)"]
    by (auto simp: free_list_set)
  have "blk_chain (vd x) i0 b w ?n" using posted_chain [OF i(1,3,4) b] by (simp only: x_def parked_vio)
  then have y: "serve i0 x = upd_vd (served i0) (transfer b w ?n x)" using dev by (simp add: device_ok_def)
  let ?y = "on_hart h (upd_vd (served i0) (transfer b w ?n x))"
  have nc: "noff (mycpu (core s)) = 0" "inq (procs s p) = 0" "used_idx (vd s) = u_idx (vd s)" using r by (simp_all add: can_request_def)
  have fl: "free_lock lk (core ?y)" for lk
    using parked_core(1) [OF quietD(2) [OF q] nc(1)] quietD(2) [OF q] by (simp add: x_def)
  have "cpu_ok (core ?y)" using parked_core(2) [OF quietD(2) [OF q] nc(1) h] by (simp add: x_def)
  moreover have "table_ok ?y" using parked_table [of "posted i0 i1 i2 b w s" p] quietD(4) [OF q] nc by (simp add: x_def)
  ultimately have rdy: "ready ?y" using fl by (simp add: ready_def table_free_def)
  have u: "u_idx (vd ?y) = used_idx (vd s) + 1" "used_idx (vd ?y) = used_idx (vd s)"
    using nc by (simp_all add: x_def served_def request_vd_def)
  have ui: "unat (of_nat i0 :: u32) = i0" using i by (simp add: NUM_def unat_of_nat)
  then have pe: "pending (vd ?y) 1 = [i0]" "completed (vd ?y) i0" "i_buf (vd ?y) i0 = Some b"
    using i nc by (simp_all add: x_def served_def request_vd_def pending_def completed_def)
  obtain t where t: "virtio_disk_intr rd ?y = Ret () t" "vd t = (vd ?y)\<lparr>used_idx := u_idx (vd ?y)\<rparr>"
    "bdisk t = (\<lambda>c. if c \<in> set [b] then 0 else bdisk ?y c)" "bufs t = bufs ?y" "disk t = disk ?y" "dwrites t = dwrites ?y"
    "\<forall>q < NPROC. procs t q = woken_all [b] (procs ?y q)"
    using virtio_disk_intr_all [OF rdy fl, of 1 rd] u pe by auto
  have "state (procs t p) = RUNNABLE" using t(7) quietD(6) [OF q] by (simp add: woken_all_def woken_def x_def)
  moreover have "bufs ?y = bufs (transfer b w ?n s)" "disk ?y = disk (transfer b w ?n s)" "dwrites ?y = dwrites (transfer b w ?n s)"
    by (simp_all add: transfer_def upd_buf_def x_def)
  ultimately show ?thesis using t u y by auto
qed

text \<open>
  C14. The driver keeps the contract of the buffer cache. A process alone in the kernel asks for a
  transfer of a buffer whose block number is below \<open>2 ^ 31\<close>: \<^verbatim>\<open>virtio_disk_rw\<close> puts the head of a chain
  of descriptors into the available ring and sleeps. If the device serves that chain as the virtio
  specification says, its interrupt makes the process runnable; and whenever the process is picked
  again, \<^verbatim>\<open>virtio_disk_rw\<close> returns with the buffers and the disk exactly as \<open>disk_rw\<close> leaves them and
  with every descriptor free that was free before.
\<close>

theorem virtio_disk_rw_refines:
  fixes s :: "'z vio_state_scheme"
  assumes r: "can_request p s" and dev: "device_ok serve"
    and b: "unat (blockno (bufs s b)) < 2 ^ 31" and h: "cpu_ok ((core s)\<lparr>tp := h\<rparr>)"
  shows "\<exists>s1 k i s2 s3. virtio_disk_rw b w s = Sched s1 k \<and>
    a_ring (vd s1) (unat (a_idx (vd s)) mod NUM) = of_nat i \<and> a_idx (vd s1) = a_idx (vd s) + 1 \<and>
    scheduler_mlfq_back p s1 = Ret () s2 \<and> virtio_disk_intr rd (on_hart h (serve i s2)) = Ret () s3 \<and>
    state (procs s3 p) = RUNNABLE \<and>
    (\<forall>u. picked p u \<and> (\<forall>lk. lk \<noteq> ProcLock p \<longrightarrow> free_lock lk (core u)) \<and> table_ok u \<and> vd u = vd s3 \<and> same_blocks s3 u \<longrightarrow>
      (\<exists>t e. k u = Ret () t \<and> disk_rw b w s = Ret () e \<and> bufs t = bufs e \<and> disk t = disk e \<and> dwrites t = dwrites e \<and>
        vfree (vd t) = vfree (vd s) \<and> vd_clean (vd t)))"
proof -
  have q: "quiet p s" and nf: "noff (mycpu (core s)) = 0" and n: "0 < sfuel s - 1" and f: "3 \<le> length (free_list (vd s))"
    and cl: "vd_clean (vd s)"
    using r by (auto simp: can_request_def)
  obtain i0 i1 i2 where idx: "take 3 (free_list (vd s)) = [i0, i1, i2]"
    using f by (cases "free_list (vd s)" rule: remdups_adj.cases) (auto simp: numeral_eq_Suc Suc_le_length_iff)
  have i: "distinct [i0, i1, i2]" "\<forall>i \<in> {i0, i1, i2}. i < NUM \<and> vfree (vd s) i"
    using idx distinct_take [OF free_list_distinct [of "vd s"], of 3] in_set_takeD [of _ 3 "free_list (vd s)"]
    by (auto simp: free_list_set)
  let ?s1 = "asleep p (ChBuf b) (core s) (posted i0 i1 i2 b w s)"
  let ?s2 = "parked p (ChBuf b) (core s) (posted i0 i1 i2 b w s)"
  let ?k = "kseq (kseq (resume (intr_get (core s)) p) (kseq (acquire VdiskLock) (rw_wait (sfuel s - 1) b))) (rw_finish i0)"
  obtain s3 where s3: "virtio_disk_intr rd (on_hart h (serve i0 ?s2)) = Ret () s3" "state (procs s3 p) = RUNNABLE"
    "vd s3 = (served i0 (vd ?s2))\<lparr>used_idx := used_idx (vd s) + 1\<rparr>" "bdisk s3 b = 0"
    "bufs s3 = bufs (transfer b w (blockno (bufs s b)) s)" "disk s3 = disk (transfer b w (blockno (bufs s b)) s)"
    "dwrites s3 = dwrites (transfer b w (blockno (bufs s b)) s)"
    using rw_served [OF r idx dev b h, where w = w and rd = rd] by blast
  have v1: "vd ?s1 = vd (posted i0 i1 i2 b w s)" by (rule sched_more_vio) simp
  have fin: "\<exists>t e. ?k u = Ret () t \<and> disk_rw b w s = Ret () e \<and> bufs t = bufs e \<and> disk t = disk e \<and> dwrites t = dwrites e \<and>
        vfree (vd t) = vfree (vd s) \<and> vd_clean (vd t)"
    if u: "picked p u" "\<forall>lk. lk \<noteq> ProcLock p \<longrightarrow> free_lock lk (core u)" "table_ok u" "vd u = vd s3" "same_blocks s3 u" for u
  proof -
    have "\<exists>t. ?k u = Ret () t \<and>
      vd t = fold clear_desc [i0, i1, i2] ((vd u)\<lparr>i_buf := (i_buf (vd u))(i0 := None)\<rparr>) \<and>
      bufs t = bufs u \<and> disk t = disk u \<and> dwrites t = dwrites u \<and> bdisk t = bdisk u"
      by (rule rw_resume [OF u(1-3) n _ i(1)])
        (use u s3 i in \<open>auto simp: same_blocks_def served_def request_vd_def NUM_def unat_of_nat\<close>)
    then obtain t where t: "?k u = Ret () t"
      "vd t = fold clear_desc [i0, i1, i2] ((vd u)\<lparr>i_buf := (i_buf (vd u))(i0 := None)\<rparr>)"
      "bufs t = bufs s3" "disk t = disk s3" "dwrites t = dwrites s3"
      using u(5) by (auto simp: same_blocks_def)
    have vt: "vfree (vd t) = (\<lambda>i. vfree (vd u) i \<or> i \<in> set [i0, i1, i2])"
      "desc (vd t) = (\<lambda>i. if i \<in> set [i0, i1, i2] then null_desc else desc (vd u) i)"
      unfolding t(2) fold_clear by (simp_all cong: if_cong)
    have "vfree (vd t) = vfree (vd s)"
      using i vt(1) u(4) s3(3) by (auto simp: fun_eq_iff served_def request_vd_def)
    moreover from this have "vd_clean (vd t)"
      using i vt(2) u(4) s3(3) cl by (simp add: vd_clean_def served_def request_vd_def)
    moreover have "disk_rw b w s = Ret () (transfer b w (blockno (bufs s b)) s)"
      by (simp add: disk_rw_def transfer_def kmod_def upd_buf_def)
    ultimately show ?thesis using t s3 by auto
  qed
  have "a_ring (vd ?s1) (unat (a_idx (vd s)) mod NUM) = of_nat i0" "a_idx (vd ?s1) = a_idx (vd s) + 1"
    by (simp_all add: v1 request_vd_def)
  with rw_start [OF r idx, of b w] asleep_back [OF nf, of p] s3(1,2) fin show ?thesis by blast
qed

subsection \<open>Boot\<close>

text \<open>The answers of a device that the driver accepts.\<close>

definition accepts :: "((nat \<times> u32) list \<Rightarrow> nat \<Rightarrow> u32) \<Rightarrow> bool" where
  "accepts rd \<longleftrightarrow> (\<forall>l. rd l VIRTIO_MMIO_MAGIC_VALUE = 0x74726976 \<and> rd l VIRTIO_MMIO_VERSION = 2 \<and>
     rd l VIRTIO_MMIO_DEVICE_ID = 2 \<and> rd l VIRTIO_MMIO_VENDOR_ID = 0x554d4551 \<and>
     rd l VIRTIO_MMIO_STATUS AND S_FEATURES_OK \<noteq> 0 \<and> rd l VIRTIO_MMIO_QUEUE_READY = 0 \<and>
     of_nat NUM \<le> rd l VIRTIO_MMIO_QUEUE_NUM_MAX)"

lemma kmem_more_vio:
  fixes s t :: "'z vio_state_scheme"
  assumes "kmem_state.more t = kmem_state.more s"
  shows "vd t = vd s" "bdisk t = bdisk s" "mmio t = mmio s" "desc_pa t = desc_pa s" "avail_pa t = avail_pa s" "used_pa t = used_pa s"
  using assms by (cases s, cases t, simp)+

lemma kalloc_vio [simp]:
  fixes s :: "'z vio_state_scheme"
  shows "vd (kalloc_eff s) = vd s" "mmio (kalloc_eff s) = mmio s" "desc_pa (kalloc_eff s) = desc_pa s"
    "avail_pa (kalloc_eff s) = avail_pa s" "used_pa (kalloc_eff s) = used_pa s"
  by (rule kmem_more_vio; simp)+

lemma kalloc_next:
  assumes "kmem_ready s" "free_pages s = p # ps"
  shows "kalloc s = Ret p (kalloc_eff s)" "kmem_ready (kalloc_eff s)" "free_pages (kalloc_eff s) = ps" "p \<noteq> 0"
  using assms kalloc_eff_inv [of s] kmem_inv_freelist [of s p ps] by (simp_all add: kmem_ready_def kalloc_eq)

lemma kmem_ready_more:
  "kmem_ready (s\<lparr>desc_pa := x\<rparr>) = kmem_ready s" "kmem_ready (s\<lparr>avail_pa := x\<rparr>) = kmem_ready s"
  "kmem_ready (s\<lparr>mmio := y\<rparr>) = kmem_ready s"
  "free_pages (s\<lparr>desc_pa := x\<rparr>) = free_pages s" "free_pages (s\<lparr>avail_pa := x\<rparr>) = free_pages s"
  "free_pages (s\<lparr>mmio := y\<rparr>) = free_pages s"
  by (simp_all add: kmem_ready_def kmem_inv_def free_pages_def)

lemma queue_pages_eq:
  fixes s :: "'z vio_state_scheme"
  assumes "kmem_ready s" "free_pages s = d # a # u # ps"
  shows "\<exists>t. queue_pages s = Ret () t \<and> desc_pa t = d \<and> avail_pa t = a \<and> used_pa t = u \<and> mmio t = mmio s \<and>
    vd t = (vd s)\<lparr>desc := (\<lambda>_. null_desc), a_idx := 0, a_ring := (\<lambda>_. 0), u_idx := 0, u_ring := (\<lambda>_. 0)\<rparr>"
proof -
  let ?s1 = "(kalloc_eff s)\<lparr>desc_pa := d\<rparr>"
  let ?s2 = "(kalloc_eff ?s1)\<lparr>avail_pa := a\<rparr>"
  have 1: "kalloc s = Ret d (kalloc_eff s)" "d \<noteq> 0" "kmem_ready ?s1" "free_pages ?s1 = a # u # ps"
    using kalloc_next [OF assms] by (simp_all add: kmem_ready_more)
  have 2: "kalloc ?s1 = Ret a (kalloc_eff ?s1)" "a \<noteq> 0" "kmem_ready ?s2" "free_pages ?s2 = u # ps"
    using kalloc_next [OF 1(3,4)] by (simp_all add: kmem_ready_more)
  have 3: "kalloc ?s2 = Ret u (kalloc_eff ?s2)" "u \<noteq> 0" using kalloc_next [OF 2(3,4)] by simp_all
  show ?thesis
    using 1(1,2) 2(1,2) 3 by (simp add: queue_pages_def kmod_def null_desc_def upd_vd_def)
qed

lemma free_all_descs:
  "kfor is (\<lambda>i. kmod (upd_vd (set_free i True))) s = Ret () (upd_vd (\<lambda>v. v\<lparr>vfree := (\<lambda>i. vfree v i \<or> i \<in> set is)\<rparr>) s)"
proof (induction "is" arbitrary: s)
  case Nil
  then show ?case by (simp add: kret_def upd_vd_def)
next
  case (Cons i "is")
  have "set_free i True v\<lparr>vfree := (\<lambda>j. vfree (set_free i True v) j \<or> j \<in> set is)\<rparr> = v\<lparr>vfree := (\<lambda>j. vfree v j \<or> j = i \<or> j \<in> set is)\<rparr>" for v
    by (auto simp: set_free_def fun_eq_iff intro!: vdisk.equality)
  then show ?case using Cons by simp
qed

lemma virtio_disk_init_refuses:
  assumes "rd (mmio s) VIRTIO_MMIO_MAGIC_VALUE \<noteq> 0x74726976 \<or> rd (mmio s) VIRTIO_MMIO_VERSION \<noteq> 2 \<or>
    rd (mmio s) VIRTIO_MMIO_DEVICE_ID \<noteq> 2 \<or> rd (mmio s) VIRTIO_MMIO_VENDOR_ID \<noteq> 0x554d4551"
  shows "virtio_disk_init rd s = Panic ''could not find virtio disk''"
  using assms by (simp add: virtio_disk_init_def initlock_def kcore_mod_def mmio_read_def kpanic_def)

text \<open>
  The boot handshake: with three pages to be had and a device that presents itself as a virtio
  block device with a long enough queue, \<^verbatim>\<open>virtio_disk_init\<close> returns, every descriptor is free and
  cleared, both rings are empty, and the device has seen exactly this sequence of register writes:
  reset, the status bits one by one, the features, queue 0 with its size and the addresses of the three
  pages, ready only after that, and DRIVER_OK last.
\<close>

theorem virtio_disk_init_ready:
  fixes s :: "'z vio_state_scheme"
  assumes acc: "accepts rd" and mem: "kmem_ready s" "free_pages s = d # a # u # ps"
  shows "\<exists>t f st. virtio_disk_init rd s = Ret () t \<and> (\<forall>i < NUM. vfree (vd t) i \<and> desc (vd t) i = null_desc) \<and>
    a_idx (vd t) = 0 \<and> u_idx (vd t) = 0 \<and>
    mmio t = mmio s @
      [(VIRTIO_MMIO_STATUS, 0), (VIRTIO_MMIO_STATUS, 1), (VIRTIO_MMIO_STATUS, 3),
       (VIRTIO_MMIO_DRIVER_FEATURES, f), (VIRTIO_MMIO_STATUS, 11), (VIRTIO_MMIO_QUEUE_SEL, 0), (VIRTIO_MMIO_QUEUE_NUM, 8),
       (VIRTIO_MMIO_QUEUE_DESC_LOW, ucast d), (VIRTIO_MMIO_QUEUE_DESC_HIGH, ucast (drop_bit 32 d)),
       (VIRTIO_MMIO_DRIVER_DESC_LOW, ucast a), (VIRTIO_MMIO_DRIVER_DESC_HIGH, ucast (drop_bit 32 a)),
       (VIRTIO_MMIO_DEVICE_DESC_LOW, ucast u), (VIRTIO_MMIO_DEVICE_DESC_HIGH, ucast (drop_bit 32 u)),
       (VIRTIO_MMIO_QUEUE_READY, 1), (VIRTIO_MMIO_STATUS, st OR 4)]"
proof -
  let ?s0 = "s\<lparr>core := upd_lock VdiskLock (\<lambda>_. \<lparr>locked = 0, lname = ''virtio_disk'', lcpu = None\<rparr>) (core s)\<rparr>"
  have q: "of_nat NUM \<le> rd l VIRTIO_MMIO_QUEUE_NUM_MAX" for l using acc by (simp add: accepts_def)
  have z: "rd l VIRTIO_MMIO_QUEUE_NUM_MAX \<noteq> 0" for l using q [of l] by (auto simp: NUM_def)
  have r: "rd l VIRTIO_MMIO_MAGIC_VALUE = 0x74726976" "rd l VIRTIO_MMIO_VERSION = 2" "rd l VIRTIO_MMIO_DEVICE_ID = 2"
    "rd l VIRTIO_MMIO_VENDOR_ID = 0x554d4551" "rd l VIRTIO_MMIO_STATUS AND S_FEATURES_OK \<noteq> 0" "rd l VIRTIO_MMIO_QUEUE_READY = 0"
    "rd l VIRTIO_MMIO_QUEUE_NUM_MAX \<noteq> 0" "\<not> rd l VIRTIO_MMIO_QUEUE_NUM_MAX < 8" for l
    using acc z [of l] by (auto simp: accepts_def not_less NUM_def)
  have "upd_lock VdiskLock (\<lambda>_. x) (core s) = (core s)\<lparr>locks := (locks (core s))(VdiskLock := x)\<rparr>" for x
    by (simp add: upd_lock_def)
  then have "cpu_ok (core ?s0) = cpu_ok (core s)" "free_lock KmemLock (core ?s0) = free_lock KmemLock (core s)"
    by (simp_all add: hart_defs)
  then have "kmem_ready ?s0" "free_pages ?s0 = d # a # u # ps"
    using mem by (simp_all add: kmem_ready_def kmem_inv_def free_pages_def)
  then have m: "kmem_ready (?s0\<lparr>mmio := l\<rparr>)" "free_pages (?s0\<lparr>mmio := l\<rparr>) = d # a # u # ps" for l
    by (simp_all only: kmem_ready_more)
  let ?f = "ucast (driver_features (ucast (rd (mmio s @ [(VIRTIO_MMIO_STATUS, 0), (VIRTIO_MMIO_STATUS, 1), (VIRTIO_MMIO_STATUS, 3)]) VIRTIO_MMIO_DEVICE_FEATURES)))"
  let ?l = "mmio s @ [(VIRTIO_MMIO_STATUS, 0), (VIRTIO_MMIO_STATUS, 1), (VIRTIO_MMIO_STATUS, 3),
       (VIRTIO_MMIO_DRIVER_FEATURES, ?f), (VIRTIO_MMIO_STATUS, 11)]"
  have n: "negotiate rd ?s0 = Ret (rd ?l VIRTIO_MMIO_STATUS) (?s0\<lparr>mmio := ?l\<rparr>)"
    by (simp add: negotiate_def mmio_write_def mmio_read_def kget_def S_ACKNOWLEDGE_def S_DRIVER_def S_FEATURES_OK_def)
  obtain t where t: "queue_pages (?s0\<lparr>mmio := ?l @ [(VIRTIO_MMIO_QUEUE_SEL, 0)]\<rparr>) = Ret () t" "desc_pa t = d" "avail_pa t = a" "used_pa t = u"
    "mmio t = ?l @ [(VIRTIO_MMIO_QUEUE_SEL, 0)]"
    "vd t = (vd s)\<lparr>desc := (\<lambda>_. null_desc), a_idx := 0, a_ring := (\<lambda>_. 0), u_idx := 0, u_ring := (\<lambda>_. 0)\<rparr>"
    using queue_pages_eq [OF m, of "?l @ [(VIRTIO_MMIO_QUEUE_SEL, 0)]"] by auto
  show ?thesis
    unfolding virtio_disk_init_def
    using t by (simp add: initlock_def kcore_mod_def mmio_read_def mmio_write_def r n write_queue_addrs_def free_all_descs
        kmod_def NUM_def S_DRIVER_OK_def) (rule exI, rule refl)
qed

subsection \<open>Witnesses\<close>

text \<open>A booted driver with all descriptors free, and a device that serves the chain it is shown.\<close>

definition demo_vd :: "nat set \<Rightarrow> vdisk" where
  "demo_vd F = \<lparr>desc = (\<lambda>_. null_desc), a_idx = 0, a_ring = (\<lambda>_. 0), u_idx = 0, u_ring = (\<lambda>_. 0), vfree = (\<lambda>i. i \<in> F),
     used_idx = 0, i_buf = (\<lambda>_. None), i_status = (\<lambda>_. 0), ops = (\<lambda>_. \<lparr>r_type = 0, r_reserved = 0, r_sector = 0\<rparr>)\<rparr>"

definition demo_vio :: "nat set \<Rightarrow> vio_state" where
  "demo_vio F = (demo_bio (\<lambda>_. empty_buf\<lparr>blockno := 7\<rparr>) (\<lambda>n _. ucast n)
     (vio_state.fields (demo_vd F) (\<lambda>_. 0) [] 0 0 0))\<lparr>sfuel := 2\<rparr>"

definition demo_serve :: "nat \<Rightarrow> 'z vio_state_scheme \<Rightarrow> 'z vio_state_scheme" where
  "demo_serve h s = (case d_addr (desc (vd s) (unat (d_next (desc (vd s) h)))) of
     DData b \<Rightarrow> upd_vd (served h) (transfer b (r_type (ops (vd s) h) = VIRTIO_BLK_T_OUT)
       (of_nat (unat (r_sector (ops (vd s) h)) div 2)) s)
   | _ \<Rightarrow> s)"

lemma demo_serve_ok: "device_ok demo_serve"
proof -
  have n: "of_nat (unat (2 * ucast n :: u64) div 2) = n" for n :: u32
  proof -
    have "unat (2 * ucast n :: u64) = 2 * unat n"
      using unat_u32_lt [of n] by (simp add: unat_word_ariths(2) unsigned_ucast_eq take_bit_nat_eq_self)
    then show ?thesis by simp
  qed
  show ?thesis
    by (auto simp: device_ok_def demo_serve_def blk_chain_def Let_def n VIRTIO_BLK_T_OUT_def VIRTIO_BLK_T_IN_def split: if_splits)
qed

lemma demo_vio_simps [simp]:
  "vd (demo_vio F) = demo_vd F" "core (demo_vio F) = upd_mycpu (\<lambda>c. c\<lparr>cproc := Some 2\<rparr>) core0"
  "blockno (bufs (demo_vio F) b) = 7" "disk (demo_vio F) = (\<lambda>n _. ucast n)" "sfuel (demo_vio F) = 2"
  "procs (demo_vio F) = (\<lambda>_. proc0)(2 := proc0\<lparr>state := RUNNING, pid := 3\<rparr>)"
  by (simp_all add: demo_vio_def demo_bio_def vio_state.defs ring_links_def empty_buf_def)

lemma demo_vio_ready: "ready (demo_vio F)"
  by (auto simp: ready_def table_ok_def mlfq_wf_def row_ok_def qcells_def queued_def qview_def demo_vio_def demo_bio_def
      is_level_def table_free_def core0_def hart_defs)

lemma demo_vd_simps [simp]: "vd_clean (demo_vd F)" "free_list (demo_vd F) = filter (\<lambda>i. i \<in> F) [0..<NUM]"
  by (simp_all add: demo_vd_def vd_clean_def free_list_def)

lemma demo_vio_can: "can_request 2 (demo_vio UNIV)"
proof -
  have "quiet 2 (demo_vio UNIV)"
    using demo_vio_ready [of UNIV] by (auto simp: ready_def quiet_def NPROC_def core0_def hart_defs)
  then show ?thesis by (simp add: can_request_def) (simp add: demo_vd_def NUM_def hart_defs core0_def)
qed

text \<open>With two descriptors left the allocation fails and gives them back; with four it takes the first three.\<close>

theorem alloc3_desc_all_or_none_witness:
  "\<exists>t. alloc3_desc (demo_vio {1, 4}) = Ret None t \<and> vd t = demo_vd {1, 4}"
proof -
  have fl: "free_list (vd (demo_vio {1, 4})) = [1, 4]" by (simp add: NUM_def upt_rec)
  obtain r t where a: "alloc3_desc (demo_vio {1, 4}) = Ret r t" and c: "case r of
       Some idx \<Rightarrow> length idx = 3 \<and> distinct idx \<and> (\<forall>i \<in> set idx. i < NUM \<and> vfree (vd (demo_vio {1, 4})) i) \<and>
         vd t = (vd (demo_vio {1, 4}))\<lparr>vfree := (\<lambda>i. vfree (vd (demo_vio {1, 4})) i \<and> i \<notin> set idx)\<rparr>
     | None \<Rightarrow> length (free_list (vd (demo_vio {1, 4}))) < 3 \<and> vd t = vd (demo_vio {1, 4})"
    using alloc3_desc_all_or_none [of "demo_vio {1, 4}"] demo_vio_ready [of "{1, 4}"] by auto
  have "r = None"
  proof (cases r)
    case (Some idx)
    then have "card (set idx) = 3" "set idx \<subseteq> {1, 4}" using c distinct_card [of idx] by (auto simp: demo_vd_def)
    then show ?thesis using card_mono [of "{1, 4}" "set idx"] by simp
  qed
  then show ?thesis using a c by simp
qed

text \<open>Descriptor 2 is in use and links to itself: the second turn of the loop panics.\<close>

theorem free_chain_ends_witness:
  "let s = upd_vd (upd_desc 2 (\<lambda>d. d\<lparr>d_flags := VRING_DESC_F_NEXT, d_next := 2\<rparr>)) (demo_vio (UNIV - {2}))
   in free_chain 2 s = Panic ''free_desc 2'' \<and>
      ((\<exists>t. free_chain 2 s = Ret () t \<and> same_blocks s t) \<or> (\<exists>m. free_chain 2 s = Panic m))"
proof -
  let ?s = "upd_vd (upd_desc 2 (\<lambda>d. d\<lparr>d_flags := VRING_DESC_F_NEXT, d_next := 2\<rparr>)) (demo_vio (UNIV - {2}))"
  have r: "ready ?s" using demo_vio_ready by simp
  have "free_desc 2 ?s = Ret () (freed 2 ?s)"
    using r by (intro free_desc_eq) (simp_all add: NUM_def demo_vd_def upd_desc_def)
  moreover have "free_desc 2 (freed 2 ?s) = Panic ''free_desc 2''"
    by (rule free_desc_panics(2)) (simp_all add: NUM_def)
  moreover have e: "free_chain 2 ?s = free_chain_loop (Suc (Suc 7)) 2 ?s" by (simp add: free_chain_def NUM_def)
  ultimately have "free_chain 2 ?s = Panic ''free_desc 2''"
    unfolding e free_chain_loop.simps by (simp add: upd_desc_def)
  then show ?thesis using free_chain_ends [OF r, of 2] by (simp add: Let_def)
qed

text \<open>Process 2 reads block 7; hart 1 takes the interrupt.\<close>

theorem virtio_disk_rw_refines_witness:
  "\<exists>s1 k i s2 s3. virtio_disk_rw 3 False (demo_vio UNIV) = Sched s1 k \<and> scheduler_mlfq_back 2 s1 = Ret () s2 \<and>
     virtio_disk_intr (\<lambda>_ _. 0) (on_hart 1 (demo_serve i s2)) = Ret () s3 \<and> state (procs s3 2) = RUNNABLE"
proof -
  have h: "cpu_ok ((core (demo_vio UNIV))\<lparr>tp := 1\<rparr>)" by (simp add: core0_def hart_defs)
  have b: "unat (blockno (bufs (demo_vio UNIV) 3)) < 2 ^ 31" by simp
  show ?thesis
    using virtio_disk_rw_refines [OF demo_vio_can demo_serve_ok b h, of False "\<lambda>_ _. 0"] by blast
qed

text \<open>A device that answers as QEMU's does, and three free pages.\<close>

definition demo_rd :: "(nat \<times> u32) list \<Rightarrow> nat \<Rightarrow> u32" where
  "demo_rd l r = (if r = VIRTIO_MMIO_MAGIC_VALUE then 0x74726976 else if r = VIRTIO_MMIO_VERSION then 2
     else if r = VIRTIO_MMIO_DEVICE_ID then 2 else if r = VIRTIO_MMIO_VENDOR_ID then 0x554d4551
     else if r = VIRTIO_MMIO_STATUS then 11 else if r = VIRTIO_MMIO_QUEUE_NUM_MAX then 1024 else 0)"

definition demo_boot :: vio_state where
  "demo_boot = kfree_eff 0x80022000 (kfree_eff 0x80021000 (kfree_eff 0x80020000 (demo_vio {})))"

lemma demo_boot_ready: "kmem_ready demo_boot" "free_pages demo_boot = [0x80022000, 0x80021000, 0x80020000]"
proof -
  let ?s = "demo_vio {}"
  have v: "valid_page (kend ?s) 0x80020000" "valid_page (kend ?s) 0x80021000" "valid_page (kend ?s) 0x80022000"
    by (simp_all add: demo_vio_def demo_bio_def valid_page_def page_aligned_def PHYSTOP_def KERNBASE_def PGSIZE_def)
  have e: "free_pages ?s = []" by (rule free_pages_eq) (simp add: demo_vio_def demo_bio_def)
  have i: "kmem_inv ?s"
    unfolding kmem_inv_iff e by (simp add: demo_vio_def demo_bio_def chain_ok_def)
  have 1: "kmem_inv (kfree_eff 0x80020000 ?s)" "free_pages (kfree_eff 0x80020000 ?s) = [0x80020000]"
    using kfree_eff_inv [OF i v(1)] e by simp_all
  have 2: "kmem_inv (kfree_eff 0x80021000 (kfree_eff 0x80020000 ?s))"
    "free_pages (kfree_eff 0x80021000 (kfree_eff 0x80020000 ?s)) = [0x80021000, 0x80020000]"
    using kfree_eff_inv [OF 1(1)] v 1(2) by simp_all
  have 3: "kmem_inv demo_boot" "free_pages demo_boot = [0x80022000, 0x80021000, 0x80020000]"
    using kfree_eff_inv [OF 2(1)] v 2(2) by (simp_all add: demo_boot_def)
  show "kmem_ready demo_boot" "free_pages demo_boot = [0x80022000, 0x80021000, 0x80020000]"
    using 3 by (simp_all add: kmem_ready_def demo_boot_def core0_def hart_defs)
qed

theorem virtio_disk_init_ready_witness:
  "\<exists>t. virtio_disk_init demo_rd demo_boot = Ret () t \<and> (\<forall>i < NUM. vfree (vd t) i)"
proof -
  have "accepts demo_rd" by (simp add: accepts_def demo_rd_def mmio_defs S_FEATURES_OK_def NUM_def)
  from virtio_disk_init_ready [OF this demo_boot_ready] show ?thesis by blast
qed

end
