(* ===== verification/Grep.thy ===== *)
theory Grep
  imports Prelude
begin

text \<open>
  The user program \<^verbatim>\<open>user/grep.c\<close>: the pattern matcher \<^verbatim>\<open>match\<close>, \<^verbatim>\<open>matchhere\<close>, \<^verbatim>\<open>matchstar\<close>, the routine
  \<^verbatim>\<open>grep\<close> that cuts its input into lines in a buffer of 1024 bytes, and \<^verbatim>\<open>main\<close>. A C string is the list
  of its characters without the final NUL, so that \<^verbatim>\<open>*text == '\0'\<close> is the empty list.

  A declarative reading of patterns (a list of items, each with the words it matches) gives the
  matcher its specification; \<open>grep_prints_matching_lines\<close> is about the whole routine, whatever the
  sizes of the pieces in which \<^verbatim>\<open>read\<close> delivers the file.
\<close>

subsection \<open>The matcher\<close>

function (sequential) matchhere :: "string \<Rightarrow> string \<Rightarrow> bool" and matchstar :: "char \<Rightarrow> string \<Rightarrow> string \<Rightarrow> bool" where
  "matchhere [] text = True"
| "matchhere (c # re) text =
     (if re \<noteq> [] \<and> hd re = CHR ''*'' then matchstar c (tl re) text
      else if c = CHR ''$'' \<and> re = [] then text = []
      else if text \<noteq> [] \<and> (c = CHR ''.'' \<or> c = hd text) then matchhere re (tl text)
      else False)"
| "matchstar c re text =
     (if matchhere re text then True
      else if text \<noteq> [] \<and> (hd text = c \<or> c = CHR ''.'') then matchstar c re (tl text)
      else False)"
  by pat_completeness auto

termination
  by (relation "measures [case_sum (\<lambda>(re, t). length re) (\<lambda>(c, re, t). length re),
      case_sum (\<lambda>(re, t). length t) (\<lambda>(c, re, t). length t), case_sum (\<lambda>_. 0) (\<lambda>_. 1)]") auto

declare matchhere.simps [simp del] matchstar.simps [simp del]

text \<open>The loop of \<^verbatim>\<open>match\<close>: it also looks at the empty string at the end of the text.\<close>

primrec match_from :: "string \<Rightarrow> string \<Rightarrow> bool" where
  "match_from re [] = matchhere re []"
| "match_from re (c # text) = (if matchhere re (c # text) then True else match_from re text)"

definition match :: "string \<Rightarrow> string \<Rightarrow> bool" where
  "match re text =
     (if re \<noteq> [] \<and> hd re = CHR ''^'' then matchhere (tl re) text else match_from re text)"

subsection \<open>The loop over the input\<close>

definition NL :: char where "NL = CHR 0x0A"
definition NUL :: char where "NUL = CHR 0x00"

text \<open>
  The lines of the buffer from \<open>p\<close> on: \<^verbatim>\<open>strchr\<close> finds a newline only before the first NUL. The result
  is what \<^verbatim>\<open>write\<close> has printed and the characters that stay for the next round.
\<close>

function grep_lines :: "string \<Rightarrow> string \<Rightarrow> string \<times> string" where
  "grep_lines pattern p =
     (if NL \<in> set (takeWhile (\<lambda>c. c \<noteq> NUL) p)
      then let line = takeWhile (\<lambda>c. c \<noteq> NL) p; rest = tl (dropWhile (\<lambda>c. c \<noteq> NL) p);
               (out, left) = grep_lines pattern rest
           in ((if match pattern line then line @ [NL] else []) @ out, left)
      else ([], p))"
  by pat_completeness auto

termination
proof (relation "measure (\<lambda>(_, p). length p)", goal_cases)
  case (2 pattern p line rest)
  then have "NL \<in> set p" by (auto dest: set_takeWhileD)
  then have "dropWhile (\<lambda>c. c \<noteq> NL) p \<noteq> []" by auto
  then show ?case using 2 length_dropWhile_le [of "\<lambda>c. c \<noteq> NL" p] by (cases "dropWhile (\<lambda>c. c \<noteq> NL) p") auto
qed simp

declare grep_lines.simps [simp del]

text \<open>
  \<open>grep_loop sz i pattern b inp\<close>: \<open>b\<close> are the \<^verbatim>\<open>m\<close> characters in the buffer, \<open>inp\<close> what is left of the
  file. The \<open>i\<close>-th call of \<^verbatim>\<open>read\<close> asks for \<open>1023 - m\<close> characters; the kernel hands over some of them,
  at least one if there is one and room for it (the parameter \<open>sz\<close> says how many at most), or fails
  (\<open>None\<close>).
\<close>

definition read_count :: "nat option \<Rightarrow> nat \<Rightarrow> nat \<Rightarrow> nat" where
  "read_count sz room avail = (case sz of None \<Rightarrow> 0 | Some k \<Rightarrow> min (max 1 k) (min room avail))"

function grep_loop :: "(nat \<Rightarrow> nat option) \<Rightarrow> nat \<Rightarrow> string \<Rightarrow> string \<Rightarrow> string \<Rightarrow> string" where
  "grep_loop sz i pattern b inp =
     (let n = read_count (sz i) (1023 - length b) (length inp) in
      if n = 0 then []
      else let (out, left) = grep_lines pattern (b @ take n inp)
           in out @ grep_loop sz (Suc i) pattern left (drop n inp))"
  by pat_completeness auto

termination
  by (relation "measure (\<lambda>(_, _, _, _, inp). length inp)") (auto simp: read_count_def split: option.splits)

declare grep_loop.simps [simp del]

definition grep :: "(nat \<Rightarrow> nat option) \<Rightarrow> string \<Rightarrow> string \<Rightarrow> string" where
  "grep sz pattern inp = grep_loop sz 0 pattern [] inp"

text \<open>
  \<^verbatim>\<open>main\<close>: the output and the exit status. \<open>files\<close> are the contents of the files that can be opened,
  \<open>stdin\<close> what descriptor 0 delivers.
\<close>

fun grep_files :: "(nat \<Rightarrow> nat option) \<Rightarrow> (string \<rightharpoonup> string) \<Rightarrow> string \<Rightarrow> string list \<Rightarrow> string \<times> int" where
  "grep_files sz files pattern [] = ([], 0)"
| "grep_files sz files pattern (f # fs) =
     (case files f of
        None \<Rightarrow> (''grep: cannot open '' @ f @ [NL], 1)
      | Some inp \<Rightarrow> (case grep_files sz files pattern fs of (out, st) \<Rightarrow> (grep sz pattern inp @ out, st)))"

definition grep_main :: "(nat \<Rightarrow> nat option) \<Rightarrow> (string \<rightharpoonup> string) \<Rightarrow> string \<Rightarrow> string list \<Rightarrow> string \<times> int" where
  "grep_main sz files stdin argv =
     (if length argv \<le> 1 then (''usage: grep pattern [file ...]'' @ [NL], 1)
      else if length argv \<le> 2 then (grep sz (argv ! 1) stdin, 0)
      else grep_files sz files (argv ! 1) (drop 2 argv))"

subsection \<open>What a pattern means\<close>

text \<open>An item is one character, or any number of characters of one kind; \<open>.\<close> stands for every character.\<close>

datatype item = One char | Many char

definition fits :: "char \<Rightarrow> char \<Rightarrow> bool" where
  "fits c x \<longleftrightarrow> c = CHR ''.'' \<or> c = x"

fun item_word :: "item \<Rightarrow> string \<Rightarrow> bool" where
  "item_word (One c) w \<longleftrightarrow> length w = 1 \<and> fits c (hd w)"
| "item_word (Many c) w \<longleftrightarrow> (\<forall>x \<in> set w. fits c x)"

text \<open>The items of a pattern, and whether it ends in \<open>$\<close>.\<close>

fun items :: "string \<Rightarrow> item list \<times> bool" where
  "items [] = ([], False)"
| "items [c] = (if c = CHR ''$'' then ([], True) else ([One c], False))"
| "items (c # d # re) =
     (if d = CHR ''*'' then (case items re of (is, e) \<Rightarrow> (Many c # is, e))
      else (case items (d # re) of (is, e) \<Rightarrow> (One c # is, e)))"

definition prefix_matches :: "item list \<times> bool \<Rightarrow> string \<Rightarrow> bool" where
  "prefix_matches r t \<longleftrightarrow>
     (\<exists>ws rest. t = concat ws @ rest \<and> list_all2 item_word (fst r) ws \<and> (snd r \<longrightarrow> rest = []))"

lemma prefix_matches_Nil [simp]: "prefix_matches ([], e) t \<longleftrightarrow> (e \<longrightarrow> t = [])"
  by (auto simp: prefix_matches_def)

lemma prefix_matches_Cons:
  "prefix_matches (i # is, e) t \<longleftrightarrow>
     (\<exists>w t'. t = w @ t' \<and> item_word i w \<and> prefix_matches (is, e) t')"
proof
  assume "prefix_matches (i # is, e) t"
  then obtain ws rest where ws: "t = concat ws @ rest" "list_all2 item_word (i # is) ws" "e \<longrightarrow> rest = []"
    by (auto simp: prefix_matches_def)
  then obtain w vs where v: "ws = w # vs" "item_word i w" "list_all2 item_word is vs" by (auto simp: list_all2_Cons1)
  then have "prefix_matches (is, e) (concat vs @ rest)" using ws by (auto simp: prefix_matches_def)
  then show "\<exists>w t'. t = w @ t' \<and> item_word i w \<and> prefix_matches (is, e) t'"
    using ws v by (intro exI [of _ w] exI [of _ "concat vs @ rest"]) simp
next
  assume "\<exists>w t'. t = w @ t' \<and> item_word i w \<and> prefix_matches (is, e) t'"
  then obtain w ws rest where w: "t = w @ concat ws @ rest" "item_word i w" "list_all2 item_word is ws" "e \<longrightarrow> rest = []"
    by (auto simp: prefix_matches_def)
  then show "prefix_matches (i # is, e) t"
    unfolding prefix_matches_def by (intro exI [of _ "w # ws"] exI [of _ rest]) simp
qed

lemma prefix_matches_One:
  "prefix_matches (One c # is, e) t \<longleftrightarrow> t \<noteq> [] \<and> fits c (hd t) \<and> prefix_matches (is, e) (tl t)"
proof
  assume "prefix_matches (One c # is, e) t"
  then obtain w t' where "t = w @ t'" "length w = 1" "fits c (hd w)" "prefix_matches (is, e) t'"
    unfolding prefix_matches_Cons by auto
  then show "t \<noteq> [] \<and> fits c (hd t) \<and> prefix_matches (is, e) (tl t)" by (cases w) auto
next
  assume "t \<noteq> [] \<and> fits c (hd t) \<and> prefix_matches (is, e) (tl t)"
  then show "prefix_matches (One c # is, e) t"
    unfolding prefix_matches_Cons by (intro exI [of _ "[hd t]"] exI [of _ "tl t"]) simp
qed

lemma prefix_matches_Many:
  "prefix_matches (Many c # is, e) t \<longleftrightarrow>
     prefix_matches (is, e) t \<or> t \<noteq> [] \<and> fits c (hd t) \<and> prefix_matches (Many c # is, e) (tl t)"
proof
  assume "prefix_matches (Many c # is, e) t"
  then obtain w t' where w: "t = w @ t'" "\<forall>x \<in> set w. fits c x" "prefix_matches (is, e) t'"
    unfolding prefix_matches_Cons by auto
  show "prefix_matches (is, e) t \<or> t \<noteq> [] \<and> fits c (hd t) \<and> prefix_matches (Many c # is, e) (tl t)"
  proof (cases w)
    case (Cons x v)
    then show ?thesis using w unfolding prefix_matches_Cons by auto
  qed (use w in simp)
next
  assume a: "prefix_matches (is, e) t \<or> t \<noteq> [] \<and> fits c (hd t) \<and> prefix_matches (Many c # is, e) (tl t)"
  show "prefix_matches (Many c # is, e) t"
  proof (cases "prefix_matches (is, e) t")
    case True
    then show ?thesis unfolding prefix_matches_Cons by (intro exI [of _ "[]"] exI [of _ t]) simp
  next
    case False
    then obtain x t' where t: "t = x # t'" "fits c x" "prefix_matches (Many c # is, e) t'" using a by (cases t) auto
    then obtain w t'' where "t' = w @ t''" "\<forall>y \<in> set w. fits c y" "prefix_matches (is, e) t''"
      unfolding prefix_matches_Cons by auto
    then show ?thesis using t unfolding prefix_matches_Cons by (intro exI [of _ "x # w"] exI [of _ t'']) simp
  qed
qed

lemma items_Cons:
  "items (c # re) = (if re \<noteq> [] \<and> hd re = CHR ''*'' then (Many c # fst (items (tl re)), snd (items (tl re)))
     else if c = CHR ''$'' \<and> re = [] then ([], True) else (One c # fst (items re), snd (items re)))"
  by (cases re) (auto split: prod.split)

lemma matchhere_meaning:
  "matchhere re t \<longleftrightarrow> prefix_matches (items re) t"
  "matchstar c re t \<longleftrightarrow> prefix_matches (Many c # fst (items re), snd (items re)) t"
proof (induction re t and c re t rule: matchhere_matchstar.induct)
  case (1 t)
  then show ?case by (simp add: matchhere.simps)
next
  case (2 c re t)
  consider (star) "re \<noteq> [] \<and> hd re = CHR ''*''" | (dollar) "\<not> (re \<noteq> [] \<and> hd re = CHR ''*'')" "c = CHR ''$'' \<and> re = []"
    | (one) "\<not> (re \<noteq> [] \<and> hd re = CHR ''*'')" "\<not> (c = CHR ''$'' \<and> re = [])" by blast
  then show ?case
  proof cases
    case star
    then show ?thesis using 2(1) [OF star] by (simp add: items_Cons matchhere.simps)
  next
    case dollar
    then show ?thesis by (simp add: items_Cons matchhere.simps)
  next
    case one
    have ic: "items (c # re) = (One c # fst (items re), snd (items re))"
      unfolding items_Cons using one by simp
    have "matchhere (c # re) t \<longleftrightarrow> t \<noteq> [] \<and> (c = CHR ''.'' \<or> c = hd t) \<and> matchhere re (tl t)"
      unfolding matchhere.simps using one by auto
    also have "\<dots> \<longleftrightarrow> t \<noteq> [] \<and> fits c (hd t) \<and> prefix_matches (items re) (tl t)"
      using 2(2) [OF one] by (auto simp: fits_def)
    also have "\<dots> \<longleftrightarrow> prefix_matches (items (c # re)) t"
      unfolding ic prefix_matches_One by simp
    finally show ?thesis .
  qed
next
  case (3 c re t)
  have "matchstar c re t \<longleftrightarrow>
      prefix_matches (items re) t \<or> t \<noteq> [] \<and> fits c (hd t) \<and> prefix_matches (Many c # fst (items re), snd (items re)) (tl t)"
    unfolding matchstar.simps [of c re t] using 3 by (auto simp: fits_def)
  then show ?case unfolding prefix_matches_Many [of c _ _ t] by simp
qed

lemma match_from_iff: "match_from re t \<longleftrightarrow> (\<exists>pre post. t = pre @ post \<and> matchhere re post)"
proof (induction t)
  case (Cons c t)
  then show ?case by (auto simp: Cons_eq_append_conv)
qed simp

subsection \<open>Properties\<close>

text \<open>
  C33. The matcher means what its patterns say: \<^verbatim>\<open>match\<close> accepts a text exactly if some part of it is a
  concatenation of words for the items of the pattern, where the part must begin the text if the
  pattern begins with \<open>^\<close> and end it if the pattern ends with \<open>$\<close>. The matcher terminates on every
  pattern and text.
\<close>

theorem match_meaning:
  "match re t \<longleftrightarrow>
     (let anchored = (re \<noteq> [] \<and> hd re = CHR ''^''); (is, e) = items (if anchored then tl re else re) in
      \<exists>pre ws post. t = pre @ concat ws @ post \<and> list_all2 item_word is ws \<and> (anchored \<longrightarrow> pre = []) \<and> (e \<longrightarrow> post = []))"
proof (cases "re \<noteq> [] \<and> hd re = CHR ''^''")
  case True
  then show ?thesis
    by (simp add: match_def matchhere_meaning prefix_matches_def case_prod_beta)
next
  case False
  then have "match re t \<longleftrightarrow> (\<exists>pre post. t = pre @ post \<and> prefix_matches (items re) post)"
    by (cases "re = []") (simp_all add: match_def match_from_iff matchhere_meaning)
  also have "\<dots> \<longleftrightarrow> (\<exists>pre ws post. t = pre @ concat ws @ post \<and> list_all2 item_word (fst (items re)) ws \<and> (snd (items re) \<longrightarrow> post = []))"
    unfolding prefix_matches_def by blast
  finally show ?thesis using False by (auto simp: case_prod_beta)
qed

text \<open>The pattern \<^verbatim>\<open>b*$\<close> finds the end of \<^verbatim>\<open>abb\<close>, \<^verbatim>\<open>^b\<close> does not find its beginning.\<close>

theorem match_meaning_witness: "match ''b*$'' ''abb'' \<and> \<not> match ''^b'' ''abb''"
proof -
  have "''abb'' = ''a'' @ concat [''bb''] @ [] \<and> list_all2 item_word [Many CHR ''b''] [''bb'']" by (simp add: fits_def)
  then have "match ''b*$'' ''abb''"
    using match_meaning [of "''b*$''" "''abb''"] by (simp only:) (auto simp: Let_def intro!: exI [of _ "[''bb'']"])
  moreover have "\<not> match ''^b'' ''abb''"
    using match_meaning [of "''^b''" "''abb''"] by (auto simp: list_all2_Cons1 fits_def Cons_eq_append_conv length_Suc_conv)
  ultimately show ?thesis by blast
qed

definition with_nl :: "string list \<Rightarrow> string" where
  "with_nl ls = concat (map (\<lambda>l. l @ [NL]) ls)"

lemma with_nl_simps [simp]: "with_nl [] = []" "with_nl (l # ls) = l @ NL # with_nl ls" "with_nl (ls @ ms) = with_nl ls @ with_nl ms"
  by (simp_all add: with_nl_def)

lemma line_nl:
  "NL \<notin> set l \<Longrightarrow> takeWhile (\<lambda>c. c \<noteq> NL) (l @ NL # xs) = l \<and> dropWhile (\<lambda>c. c \<noteq> NL) (l @ NL # xs) = NL # xs"
  by (induction l) auto

lemma grep_lines_eq:
  "\<forall>l \<in> set ls. NL \<notin> set l \<Longrightarrow> NL \<notin> set r \<Longrightarrow> NUL \<notin> set (with_nl ls @ r) \<Longrightarrow>
   grep_lines pat (with_nl ls @ r) = (with_nl (filter (match pat) ls), r)"
proof (induction ls)
  case Nil
  then show ?case by (subst grep_lines.simps) (auto dest: set_takeWhileD)
next
  case (Cons l ls)
  have "takeWhile (\<lambda>c. c \<noteq> NUL) (with_nl (l # ls) @ r) = with_nl (l # ls) @ r"
    using Cons.prems(3) by (intro takeWhile_eq_all_conv [THEN iffD2]) auto
  moreover have "grep_lines pat (with_nl ls @ r) = (with_nl (filter (match pat) ls), r)"
    using Cons.prems by (intro Cons.IH) auto
  ultimately show ?case
    using Cons.prems(1) line_nl [of l "with_nl ls @ r"] by (subst grep_lines.simps) simp
qed

lemma split_at_lines:
  "xs @ ys = with_nl ls @ r \<Longrightarrow> \<forall>l \<in> set ls. NL \<notin> set l \<Longrightarrow> NL \<notin> set r \<Longrightarrow>
   \<exists>ls1 ls2 b. ls = ls1 @ ls2 \<and> xs = with_nl ls1 @ b \<and> NL \<notin> set b \<and> b @ ys = with_nl ls2 @ r"
proof (induction ls arbitrary: xs)
  case Nil
  then have "NL \<notin> set xs" by (metis Un_iff append_Nil set_append with_nl_simps(1))
  then show ?case using Nil by (intro exI [of _ "[]"] exI [of _ xs]) simp
next
  case (Cons l ls)
  have e: "xs @ ys = (l @ [NL]) @ with_nl ls @ r" using Cons.prems(1) by simp
  show ?case
  proof (cases "length xs \<le> length l")
    case True
    then obtain us where l: "l = xs @ us" using Cons.prems(1) by (auto simp: append_eq_append_conv2)
    then have "NL \<notin> set xs" using Cons.prems(2) by simp
    then show ?thesis using Cons.prems(1) l by (intro exI [of _ "[]"] exI [of _ "l # ls"] exI [of _ xs]) simp
  next
    case False
    let ?n = "length (l @ [NL])" and ?us = "drop (length (l @ [NL])) xs"
    have "take ?n (xs @ ys) = l @ [NL]" "drop ?n (xs @ ys) = with_nl ls @ r" unfolding e by simp_all
    then have x: "xs = l @ NL # ?us" "?us @ ys = with_nl ls @ r"
      using False append_take_drop_id [of ?n xs] by (auto simp del: append_take_drop_id)
    then obtain ls1 ls2 b where "ls = ls1 @ ls2" "?us = with_nl ls1 @ b" "NL \<notin> set b" "b @ ys = with_nl ls2 @ r"
      using Cons.IH [OF x(2)] Cons.prems by auto
    then show ?thesis using x by (intro exI [of _ "l # ls1"] exI [of _ ls2] exI [of _ b]) simp
  qed
qed

lemma no_newline_lines: "NL \<notin> set b \<Longrightarrow> b = with_nl ls @ r \<Longrightarrow> ls = []"
  by (cases ls) auto

lemma grep_loop_eq:
  "\<forall>i. sz i \<noteq> None \<Longrightarrow> b @ inp = with_nl ls @ r \<Longrightarrow> \<forall>l \<in> set ls. NL \<notin> set l \<and> length l < 1023 \<Longrightarrow> NL \<notin> set r \<Longrightarrow>
    NUL \<notin> set (b @ inp) \<Longrightarrow> NL \<notin> set b \<Longrightarrow> grep_loop sz i pat b inp = with_nl (filter (match pat) ls)"
proof (induction sz i pat b inp arbitrary: ls rule: grep_loop.induct)
  case (1 sz i pat b inp)
  let ?n = "read_count (sz i) (1023 - length b) (length inp)"
  show ?case
  proof (cases "?n = 0")
    case True
    obtain k where k: "sz i = Some k" using 1(2) by auto
    then have "1023 \<le> length b \<or> inp = []" using True by (auto simp: read_count_def min_def split: if_splits)
    moreover have "ls = []" if "1023 \<le> length b"
    proof (cases ls)
      case (Cons l ms)
      then have e: "b @ inp = l @ NL # with_nl ms @ r" and "length l < length b" using 1 that by auto
      then have "NL \<in> set b" by (auto simp: append_eq_append_conv2 append_eq_Cons_conv Cons_eq_append_conv)
      then show ?thesis using 1 by simp
    qed
    moreover have "ls = []" if "inp = []" using that 1 no_newline_lines [of b ls r] by simp
    ultimately show ?thesis using True by (auto simp: grep_loop.simps [of sz i])
  next
    case False
    have "(b @ take ?n inp) @ drop ?n inp = with_nl ls @ r" using 1 by simp
    then obtain ls1 ls2 b' where s: "ls = ls1 @ ls2" "b @ take ?n inp = with_nl ls1 @ b'" "NL \<notin> set b'" "b' @ drop ?n inp = with_nl ls2 @ r"
      using split_at_lines [of "b @ take ?n inp" "drop ?n inp" ls r] 1 by auto
    have z: "NUL \<notin> set (with_nl ls1 @ b')" using s(2) 1(6) set_take_subset [of ?n inp] by (metis Un_iff set_append subsetD)
    have g: "grep_lines pat (b @ take ?n inp) = (with_nl (filter (match pat) ls1), b')"
      unfolding s(2) by (rule grep_lines_eq) (use s 1 z in auto)
    have "NUL \<notin> set (b' @ drop ?n inp)" using z 1(6) set_drop_subset [of ?n inp] by auto
    then have "grep_loop sz (Suc i) pat b' (drop ?n inp) = with_nl (filter (match pat) ls2)"
      using 1(1) [OF refl False g [symmetric] refl 1(2), of ls2] s 1 by simp
    then show ?thesis using False g s(1) by (simp add: grep_loop.simps [of sz i])
  qed
qed

text \<open>
  \<^verbatim>\<open>grep\<close> prints the matching lines: for a file of lines of at most 1022 characters without NUL,
  and however the reads cut it into pieces, the output is exactly the lines the pattern accepts, in
  order and each with its newline. What follows the last newline is never printed.
\<close>

theorem grep_prints_matching_lines:
  assumes "\<And>i. sz i \<noteq> None" "\<forall>l \<in> set ls. NL \<notin> set l \<and> length l < 1023" "NL \<notin> set r" "NUL \<notin> set (with_nl ls @ r)"
  shows "grep sz pat (with_nl ls @ r) = with_nl (filter (match pat) ls)"
  unfolding grep_def using assms by (intro grep_loop_eq [where r = r]) auto

text \<open>The pattern \<^verbatim>\<open>^a.*c$\<close>, a file of four lines, reads of two characters each.\<close>

theorem grep_prints_matching_lines_witness:
  "grep (\<lambda>_. Some 2) ''^a.*c$'' (with_nl [''abc'', ''xac'', ''ac'', ''abcd''] @ ''abc'') = with_nl [''abc'', ''ac'']"
proof -
  have "filter (match ''^a.*c$'') [''abc'', ''xac'', ''ac'', ''abcd''] = [''abc'', ''ac'']"
    by code_simp
  then show ?thesis
    using grep_prints_matching_lines [of "\<lambda>_. Some 2" "[''abc'', ''xac'', ''ac'', ''abcd'']" "''abc''" "''^a.*c$''"]
    by (simp add: NL_def NUL_def)
qed

text \<open>
  The buffer is a limit: if a file begins with 1023 characters without a newline, \<^verbatim>\<open>grep\<close> reads no
  further and prints nothing, whatever follows.
\<close>

theorem grep_stops_at_long_line:
  assumes "NL \<notin> set l" "NUL \<notin> set l" "length l = 1023"
  shows "grep (\<lambda>_. Some 1023) pat (l @ rest) = []"
proof -
  have g: "grep_lines pat l = ([], l)" using grep_lines_eq [of "[]" l pat] assms by simp
  have n: "read_count (Some 1023) (1023 - length []) (length (l @ rest)) = 1023"
    "read_count (Some 1023) (1023 - length l) m = 0" for m
    using assms(3) by (simp_all add: read_count_def)
  have "grep_loop (\<lambda>_. Some 1023) (Suc 0) pat l (drop 1023 (l @ rest)) = []"
    using n(2) by (subst grep_loop.simps) (simp add: Let_def)
  moreover have "take 1023 (l @ rest) = l" using assms(3) by simp
  ultimately show ?thesis unfolding grep_def using n(1) g by (subst grep_loop.simps) (simp add: Let_def)
qed

theorem grep_stops_at_long_line_witness:
  "grep (\<lambda>_. Some 1023) ''b'' (replicate 1023 (CHR ''a'') @ NL # ''bb'' @ [NL]) = []"
  using grep_stops_at_long_line [of "replicate 1023 (CHR ''a'')" "''b''" "NL # ''bb'' @ [NL]"] by (simp add: NL_def NUL_def)

end
