(* ===== verification/Printf.thy ===== *)
theory Printf
  imports Lineedit
begin

text \<open>
  Formatted output: \<^verbatim>\<open>printint\<close>, \<^verbatim>\<open>printptr\<close>, \<^verbatim>\<open>printk\<close> and \<^verbatim>\<open>panic\<close> of \<^verbatim>\<open>kernel/printk.c\<close>, their
  counterparts \<^verbatim>\<open>printint\<close>, \<^verbatim>\<open>printptr\<close> and \<^verbatim>\<open>vprintf\<close> of \<^verbatim>\<open>user/printf.c\<close>, and \<^verbatim>\<open>atoi\<close> of \<^verbatim>\<open>user/ulib.c\<close>.

  A format and its output are lists of characters. The variable arguments are a list; a conversion
  that finds no argument, or one of the wrong kind, has undefined behaviour (\<open>None\<close>), and so have the
  overflow of \<^verbatim>\<open>-xx\<close> at the smallest 64-bit number and a store beyond \<^verbatim>\<open>buf[20]\<close>.
\<close>

subsection \<open>Numbers\<close>

text \<open>The two digit tables: lower case in the kernel, upper case in the library.\<close>

definition kdigits :: string where "kdigits = ''0123456789abcdef''"
definition udigits :: string where "udigits = ''0123456789ABCDEF''"

text \<open>
  \<^verbatim>\<open>do buf[i++] = digits[x % base]; while ((x /= base) != 0)\<close>, for a base of at least 2 (the callers
  pass 10 and 16): the digits, last one first.
\<close>

function put_digits :: "string \<Rightarrow> nat \<Rightarrow> nat \<Rightarrow> string" where
  "put_digits ds base x =
     ds ! (x mod base) # (if base < 2 \<or> x div base = 0 then [] else put_digits ds base (x div base))"
  by pat_completeness auto

termination
  by (relation "measure (\<lambda>(_, _, x). x)") (auto simp: div_eq_0_iff not_less intro!: div_less_dividend)

declare put_digits.simps [simp del]

text \<open>\<^verbatim>\<open>xx\<close> is a 64-bit signed number; \<open>x\<close> is unsigned.\<close>

definition printint :: "string \<Rightarrow> int \<Rightarrow> nat \<Rightarrow> bool \<Rightarrow> string option" where
  "printint ds xx base sg =
     (let neg = sg \<and> xx < 0 in
      if neg \<and> xx = - (2 ^ 63) then None
      else let x = (if neg then nat (- xx) else nat (xx mod 2 ^ 64));
               buf = put_digits ds base x @ (if neg then ''-'' else [])
           in if 20 < length buf then None else Some (rev buf))"

primrec ptr_digits :: "string \<Rightarrow> nat \<Rightarrow> u64 \<Rightarrow> string" where
  "ptr_digits ds 0 x = []"
| "ptr_digits ds (Suc n) x = ds ! unat (drop_bit 60 x) # ptr_digits ds n (push_bit 4 x)"

definition printptr :: "string \<Rightarrow> u64 \<Rightarrow> string" where
  "printptr ds x = ''0x'' @ ptr_digits ds 16 x"

subsection \<open>Formats\<close>

text \<open>An argument is a number in a 64-bit register or a string pointer, null being \<open>VStr None\<close>.\<close>

datatype varg = VNum u64 | VStr "string option"

definition arg_int :: "varg \<Rightarrow> int option" where
  "arg_int a = (case a of VNum x \<Rightarrow> Some (sint (ucast x :: u32)) | VStr _ \<Rightarrow> None)"

definition arg_u32 :: "varg \<Rightarrow> int option" where
  "arg_u32 a = (case a of VNum x \<Rightarrow> Some (uint (ucast x :: u32)) | VStr _ \<Rightarrow> None)"

definition arg_u64 :: "varg \<Rightarrow> int option" where
  "arg_u64 a = (case a of VNum x \<Rightarrow> Some (sint x) | VStr _ \<Rightarrow> None)"

definition arg_str :: "varg \<Rightarrow> string option" where
  "arg_str a = (case a of VNum _ \<Rightarrow> None | VStr None \<Rightarrow> Some ''(null)'' | VStr (Some s) \<Rightarrow> Some s)"

text \<open>What one conversion does: the text it prints and how many characters of the format it takes.\<close>

datatype conv = CInt "varg \<Rightarrow> int option" nat bool | CPtr | CChar | CStr | CPercent | CUnknown char

definition nth0 :: "string \<Rightarrow> nat \<Rightarrow> char" where
  "nth0 f k = (if k < length f then f ! k else CHR 0x00)"

text \<open>
  The chain of tests on \<^verbatim>\<open>c0\<close>, \<^verbatim>\<open>c1\<close> and \<^verbatim>\<open>c2\<close>, which is the same in both programs; \<open>f\<close> is the format
  after the percent sign and not empty.
\<close>

definition conversion :: "string \<Rightarrow> conv \<times> nat" where
  "conversion f =
     (let c0 = nth0 f 0; c1 = nth0 f 1; c2 = (if c1 = CHR 0x00 then CHR 0x00 else nth0 f 2) in
      if c0 = CHR ''d'' then (CInt arg_int 10 True, 1)
      else if c0 = CHR ''l'' \<and> c1 = CHR ''d'' then (CInt arg_u64 10 True, 2)
      else if c0 = CHR ''l'' \<and> c1 = CHR ''l'' \<and> c2 = CHR ''d'' then (CInt arg_u64 10 True, 3)
      else if c0 = CHR ''u'' then (CInt arg_u32 10 False, 1)
      else if c0 = CHR ''l'' \<and> c1 = CHR ''u'' then (CInt arg_u64 10 False, 2)
      else if c0 = CHR ''l'' \<and> c1 = CHR ''l'' \<and> c2 = CHR ''u'' then (CInt arg_u64 10 False, 3)
      else if c0 = CHR ''x'' then (CInt arg_u32 16 False, 1)
      else if c0 = CHR ''l'' \<and> c1 = CHR ''x'' then (CInt arg_u64 16 False, 2)
      else if c0 = CHR ''l'' \<and> c1 = CHR ''l'' \<and> c2 = CHR ''x'' then (CInt arg_u64 16 False, 3)
      else if c0 = CHR ''p'' then (CPtr, 1)
      else if c0 = CHR ''c'' then (CChar, 1)
      else if c0 = CHR ''s'' then (CStr, 1)
      else if c0 = CHR ''%'' then (CPercent, 1)
      else (CUnknown c0, 1))"

text \<open>The text of a conversion and the arguments left, with the digit table \<open>ds\<close>.\<close>

definition convert :: "string \<Rightarrow> conv \<Rightarrow> varg list \<Rightarrow> (string \<times> varg list) option" where
  "convert ds cv args =
     (case cv of
        CInt get base sg \<Rightarrow> (case args of [] \<Rightarrow> None
          | a # as \<Rightarrow> Option.bind (get a) (\<lambda>xx. map_option (\<lambda>t. (t, as)) (printint ds xx base sg)))
      | CPtr \<Rightarrow> (case args of VNum x # as \<Rightarrow> Some (printptr ds x, as) | _ \<Rightarrow> None)
      | CChar \<Rightarrow> (case args of VNum x # as \<Rightarrow> Some ([char_of (unat (ucast x :: u8))], as) | _ \<Rightarrow> None)
      | CStr \<Rightarrow> (case args of [] \<Rightarrow> None | a # as \<Rightarrow> map_option (\<lambda>t. (t, as)) (arg_str a))
      | CPercent \<Rightarrow> Some (''%'', args)
      | CUnknown c \<Rightarrow> Some ([CHR ''%'', c], args))"

text \<open>The loop of \<^verbatim>\<open>printk\<close>: it looks ahead after a percent sign.\<close>

function printk_text :: "string \<Rightarrow> string \<Rightarrow> varg list \<Rightarrow> string option" where
  "printk_text digits fmt args =
     (case fmt of
        [] \<Rightarrow> Some []
      | cx # f \<Rightarrow>
          if cx \<noteq> CHR ''%'' then map_option (\<lambda>t. cx # t) (printk_text digits f args)
          else if f = [] then Some []
          else (case conversion f of (cv, k) \<Rightarrow>
            Option.bind (convert digits cv args) (\<lambda>(t, as). map_option (\<lambda>u. t @ u) (printk_text digits (drop (max 1 k) f) as))))"
  by pat_completeness auto

termination
  by (relation "measure (\<lambda>(_, fmt, _). length fmt)") auto

declare printk_text.simps [simp del]

text \<open>
  The loop of \<^verbatim>\<open>vprintf\<close>: \<^verbatim>\<open>state\<close> says whether the last character was a percent sign (\<open>True\<close>); the
  conversion takes \<open>k\<close> characters, the last \<open>k - 1\<close> of them by \<^verbatim>\<open>i += k - 1\<close>.
\<close>

function vprintf_text :: "string \<Rightarrow> bool \<Rightarrow> string \<Rightarrow> varg list \<Rightarrow> string option" where
  "vprintf_text digits st fmt args =
     (case fmt of
        [] \<Rightarrow> Some []
      | c0 # f \<Rightarrow>
          if \<not> st
          then (if c0 = CHR ''%'' then vprintf_text digits True f args else map_option (\<lambda>t. c0 # t) (vprintf_text digits False f args))
          else (case conversion (c0 # f) of (cv, k) \<Rightarrow>
            Option.bind (convert digits cv args) (\<lambda>(t, as). map_option (\<lambda>u. t @ u) (vprintf_text digits False (drop (k - 1) f) as))))"
  by pat_completeness auto

termination
  by (relation "measure (\<lambda>(_, _, fmt, _). length fmt)") auto

declare vprintf_text.simps [simp del]

subsection \<open>The kernel's routines\<close>

text \<open>
  \<^verbatim>\<open>printk\<close> outside a panic: the characters go to the console one by one under the lock.
\<close>

definition printk :: "string \<Rightarrow> varg list \<Rightarrow> 'z cons_state_scheme \<Rightarrow> ('z cons_state_scheme, int) kres" where
  "printk fmt args =
     kseq (acquire PrLock) (
     case printk_text kdigits fmt args of
       None \<Rightarrow> kub
     | Some t \<Rightarrow>
         kseq (kfor t (\<lambda>c. consputc (of_char c))) (
         kseq (release PrLock) (
         kret 0)))"

text \<open>The two lines \<^verbatim>\<open>panic\<close> prints before it stops the machine.\<close>

definition panic_text :: "string \<Rightarrow> string option" where
  "panic_text m = Option.bind (printk_text kdigits ''panic: '' []) (\<lambda>t.
     map_option (\<lambda>u. t @ u) (printk_text kdigits (''%s'' @ [CHR 0x0A]) [VStr (Some m)]))"

text \<open>\<^verbatim>\<open>fprintf\<close> and \<^verbatim>\<open>printf\<close>: what is written to the file descriptor.\<close>

definition fprintf :: "int \<Rightarrow> string \<Rightarrow> varg list \<Rightarrow> (int \<times> string) option" where
  "fprintf fd fmt args = map_option (\<lambda>t. (fd, t)) (vprintf_text udigits False fmt args)"

definition printf :: "string \<Rightarrow> varg list \<Rightarrow> (int \<times> string) option" where
  "printf fmt args = map_option (\<lambda>t. (1, t)) (vprintf_text udigits False fmt args)"

subsection \<open>Reading numbers\<close>

text \<open>\<^verbatim>\<open>atoi\<close>: the accumulator is a C int, whose overflow is undefined.\<close>

definition is_digit :: "char \<Rightarrow> bool" where
  "is_digit c \<longleftrightarrow> 48 \<le> (of_char c :: nat) \<and> (of_char c :: nat) \<le> 57"

primrec atoi_loop :: "int \<Rightarrow> string \<Rightarrow> int option" where
  "atoi_loop n [] = Some n"
| "atoi_loop n (c # s) =
     (if is_digit c
      then let n' = n * 10 + of_char c - 48 in if 2 ^ 31 \<le> n * 10 + of_char c then None else atoi_loop n' s
      else Some n)"

definition atoi :: "string \<Rightarrow> int option" where
  "atoi s = atoi_loop 0 s"

subsection \<open>Digits\<close>

definition value_of :: "nat \<Rightarrow> nat list \<Rightarrow> nat" where
  "value_of base ks = foldl (\<lambda>n k. n * base + k) 0 ks"

function digit_list :: "nat \<Rightarrow> nat \<Rightarrow> nat list" where
  "digit_list base x = (if base < 2 \<or> x div base = 0 then [] else digit_list base (x div base)) @ [x mod base]"
  by pat_completeness auto

termination
  by (relation "measure (\<lambda>(_, x). x)") (auto simp: div_eq_0_iff not_less intro!: div_less_dividend)

declare digit_list.simps [simp del]

lemma put_digits_eq: "rev (put_digits ds base x) = map (\<lambda>k. ds ! k) (digit_list base x)"
  by (induction base x rule: digit_list.induct) (subst put_digits.simps, subst digit_list.simps, simp)

lemma digit_list_less: "2 \<le> base \<Longrightarrow> k \<in> set (digit_list base x) \<Longrightarrow> k < base"
  by (induction base x rule: digit_list.induct) (subst (asm) (2) digit_list.simps, auto split: if_splits)

lemma value_snoc: "value_of base (ks @ [k]) = value_of base ks * base + k"
  by (simp add: value_of_def)

lemma value_digit_list: "2 \<le> base \<Longrightarrow> value_of base (digit_list base x) = x"
proof (induction base x rule: digit_list.induct)
  case (1 base x)
  then show ?case
    by (subst digit_list.simps) (auto simp: value_snoc div_eq_0_iff value_of_def)
qed

lemma length_digit_list: "2 \<le> base \<Longrightarrow> 0 < n \<Longrightarrow> x < base ^ n \<Longrightarrow> length (digit_list base x) \<le> n"
proof (induction n arbitrary: x)
  case (Suc n)
  show ?case
  proof (cases "x div base = 0")
    case True
    then show ?thesis by (subst digit_list.simps) simp
  next
    case False
    then have "n \<noteq> 0" using Suc.prems by (cases n) auto
    moreover have "x div base < base ^ n" using Suc.prems by (simp add: less_mult_imp_div_less mult.commute)
    ultimately have "length (digit_list base (x div base)) \<le> n" using Suc by simp
    then show ?thesis using False by (subst digit_list.simps) simp
  qed
qed simp

lemma length_put_digits: "length (put_digits ds base x) = length (digit_list base x)"
  using arg_cong [OF put_digits_eq, of length ds base x] by simp

subsection \<open>Properties\<close>

text \<open>
  C34. \<^verbatim>\<open>printint\<close> prints the number it is given: for every 64-bit number, in base 10 or 16, signed or not
  (the smallest number with a sign excepted, where \<^verbatim>\<open>-xx\<close> overflows), the text is an optional minus sign
  and digits below the base whose value is the magnitude of the number, and it fits into \<^verbatim>\<open>buf[20]\<close>.
\<close>

theorem printint_correct:
  assumes "- (2 ^ 63) \<le> xx" "xx < 2 ^ 63" "base = 10 \<or> base = 16" "\<not> (sg \<and> xx = - (2 ^ 63))"
  shows "\<exists>ks. printint ds xx base sg = Some ((if sg \<and> xx < 0 then ''-'' else []) @ map (\<lambda>k. ds ! k) ks) \<and>
     ks \<noteq> [] \<and> (\<forall>k \<in> set ks. k < base) \<and> length ks + of_bool (sg \<and> xx < 0) \<le> 20 \<and>
     int (value_of base ks) = (if sg then \<bar>xx\<bar> else xx mod 2 ^ 64)"
proof -
  define neg where "neg = (sg \<and> xx < 0)"
  define x where "x = (if neg then nat (- xx) else nat (xx mod 2 ^ 64))"
  let ?ks = "digit_list base x"
  have b: "2 \<le> base" using assms by auto
  have xb: "x < 10 ^ (if neg then 19 else 20)" "x < 16 ^ 16"
    using assms(1,2) pos_mod_bound [of "2 ^ 64" xx] by (auto simp: x_def neg_def nat_less_iff)
  have ln: "length ?ks \<le> (if neg then 19 else 20)"
    using assms(3)
  proof
    assume "base = 10"
    then show ?thesis using xb(1) length_digit_list [of 10 "if neg then 19 else 20" x] by simp
  next
    assume "base = 16"
    then show ?thesis using xb(2) length_digit_list [of 16 16 x] by simp
  qed
  have "length (put_digits ds base x @ (if neg then ''-'' else [])) \<le> 20"
    using ln by (auto simp: length_put_digits split: if_splits)
  moreover have "\<not> (neg \<and> xx = - (2 ^ 63))" using assms(4) by (simp add: neg_def)
  ultimately have "printint ds xx base sg = Some (rev (put_digits ds base x @ (if neg then ''-'' else [])))"
    unfolding printint_def Let_def neg_def [symmetric] x_def [symmetric] by simp
  also have "\<dots> = Some ((if neg then ''-'' else []) @ map (\<lambda>k. ds ! k) ?ks)" by (simp add: put_digits_eq)
  finally have p: "printint ds xx base sg = \<dots>" .
  have "int x = (if sg then \<bar>xx\<bar> else xx mod 2 ^ 64)"
    using assms(2) by (auto simp: x_def neg_def)
  then have v: "int (value_of base ?ks) = (if sg then \<bar>xx\<bar> else xx mod 2 ^ 64)" using value_digit_list [OF b, of x] by simp
  have "?ks \<noteq> []" by (subst digit_list.simps) simp
  moreover have "length ?ks + of_bool neg \<le> 20" using ln by (simp split: if_splits)
  ultimately show ?thesis
    unfolding neg_def [symmetric] using p v digit_list_less [OF b, of _ x] by (intro exI [of _ ?ks] conjI ballI)
qed

text \<open>The largest unsigned number takes all 20 places.\<close>

theorem printint_correct_witness:
  "\<exists>ks. printint kdigits (- 1) 10 False = Some (map (\<lambda>k. kdigits ! k) ks) \<and> int (value_of 10 ks) = 18446744073709551615"
  using printint_correct [of "- 1" 10 False kdigits] by auto

lemma udigit: "k < 10 \<Longrightarrow> (of_char (udigits ! k) :: nat) = 48 + k"
proof -
  have "\<forall>k \<in> set [0..<10]. (of_char (udigits ! k) :: nat) = 48 + k" by code_simp
  then show "k < 10 \<Longrightarrow> ?thesis" by simp
qed

lemma of_char_int: "(of_char c :: int) = int (of_char c)"
  by (simp add: of_nat_of_char)

lemma foldl_ge: "(n :: nat) \<le> foldl (\<lambda>n k. n * 10 + k) n ks"
proof (induction ks arbitrary: n)
  case (Cons k ks)
  show ?case using Cons [of "n * 10 + k"] by simp
qed simp

lemma atoi_loop_digits:
  "\<forall>k \<in> set ks. k < 10 \<Longrightarrow> foldl (\<lambda>n k. n * 10 + k) n ks + 48 < 2 ^ 31 \<Longrightarrow> rest = [] \<or> \<not> is_digit (hd rest) \<Longrightarrow>
   atoi_loop (int n) (map (\<lambda>k. udigits ! k) ks @ rest) = Some (int (foldl (\<lambda>n k. n * 10 + k) n ks))"
proof (induction ks arbitrary: n)
  case Nil
  then show ?case by (cases rest) auto
next
  case (Cons k ks)
  have k: "k < 10" using Cons.prems by simp
  have le: "n * 10 + k \<le> foldl (\<lambda>n k. n * 10 + k) (n * 10 + k) ks" by (rule foldl_ge)
  have "int n * 10 + (48 + int k) - 48 = int (n * 10 + k)" by simp
  moreover have "int n * 10 + (48 + int k) < 2 ^ 31" using Cons.prems(2) le by simp
  ultimately show ?case
    using Cons.IH [of "n * 10 + k"] Cons.prems k by (simp add: is_digit_def udigit of_char_int Let_def)
qed

text \<open>
  Numbers survive printing and reading: \<^verbatim>\<open>atoi\<close> applied to the digits that \<^verbatim>\<open>printf("%d")\<close> writes for
  a number from 0 to \<open>2 ^ 31 - 49\<close>, followed by anything that is not a digit, gives the number back.
  (Above that, \<^verbatim>\<open>n * 10 + *s\<close> overflows before \<^verbatim>\<open>'0'\<close> is subtracted.)
\<close>

theorem atoi_printint:
  assumes "0 \<le> n" "n + 48 < 2 ^ 31" "rest = [] \<or> \<not> is_digit (hd rest)"
  shows "\<exists>t. printint udigits n 10 True = Some t \<and> atoi (t @ rest) = Some n"
proof -
  have "int (nat n) = n" "nat n < 10 ^ 20" "n mod 2 ^ 64 = n" using assms by simp_all
  moreover have "length (digit_list 10 (nat n)) \<le> 20"
    using length_digit_list [of 10 20 "nat n"] \<open>nat n < 10 ^ 20\<close> by simp
  ultimately have p: "printint udigits n 10 True = Some (map (\<lambda>k. udigits ! k) (digit_list 10 (nat n)))"
    using assms(1) by (simp add: printint_def length_put_digits put_digits_eq)
  have v: "foldl (\<lambda>n k. n * 10 + k) 0 (digit_list 10 (nat n)) = nat n"
    using value_digit_list [of 10 "nat n"] by (simp add: value_of_def)
  have "atoi_loop (int 0) (map (\<lambda>k. udigits ! k) (digit_list 10 (nat n)) @ rest) =
      Some (int (foldl (\<lambda>n k. n * 10 + k) 0 (digit_list 10 (nat n))))"
    by (rule atoi_loop_digits) (use assms v digit_list_less [of 10] in auto)
  then show ?thesis using p v assms(1) by (simp add: atoi_def)
qed

theorem atoi_printint_witness:
  "\<exists>t. printint udigits 2147483599 10 True = Some t \<and> atoi (t @ '' x'') = Some 2147483599"
  using atoi_printint [of 2147483599 "'' x''"] by (simp add: is_digit_def of_char_def)

lemma conversion_pos: "conversion f = (cv, k) \<Longrightarrow> 1 \<le> k"
  by (auto simp: conversion_def Let_def split: if_splits)

text \<open>
  The library formats as the kernel does: the state machine of \<^verbatim>\<open>vprintf\<close>, which meets the percent
  sign and the conversion in different turns of its loop, produces for every format and every list of
  arguments the text of \<^verbatim>\<open>printk\<close>'s loop, which looks ahead, given the same table of digits.
\<close>

theorem vprintf_as_printk: "vprintf_text ds False fmt args = printk_text ds fmt args"
proof (induction ds fmt args rule: printk_text.induct)
  case (1 ds fmt args)
  show ?case
  proof (cases fmt)
    case Nil
    then show ?thesis by (simp add: vprintf_text.simps [of ds False] printk_text.simps)
  next
    case (Cons cx f)
    show ?thesis
    proof (cases "cx \<noteq> CHR ''%''")
      case True
      then show ?thesis
        using 1(1) [OF Cons True] Cons by (simp add: vprintf_text.simps [of ds False "cx # f"] printk_text.simps [of ds "cx # f"])
    next
      case False
      show ?thesis
      proof (cases f)
        case Nil
        then show ?thesis
          using False \<open>fmt = cx # f\<close> by (simp add: vprintf_text.simps printk_text.simps [of ds "''%''"])
      next
        case (Cons c0 g)
        obtain cv k where cv: "conversion f = (cv, k)" by fastforce
        have k: "drop (k - 1) g = drop (max 1 k) f" using conversion_pos [OF cv] Cons by (cases k) auto
        have "vprintf_text ds False fmt args = vprintf_text ds True f args"
          using False \<open>fmt = cx # f\<close> by (simp add: vprintf_text.simps [of ds False "CHR ''%'' # f"])
        also have "\<dots> = Option.bind (convert ds cv args) (\<lambda>(t, as). map_option (\<lambda>u. t @ u) (vprintf_text ds False (drop (max 1 k) f) as))"
          using cv Cons k by (simp add: vprintf_text.simps [of ds True "c0 # g"])
        also have "\<dots> = Option.bind (convert ds cv args) (\<lambda>(t, as). map_option (\<lambda>u. t @ u) (printk_text ds (drop (max 1 k) f) as))"
          using 1(2) [OF \<open>fmt = cx # f\<close> False _ cv [symmetric]] Cons by (cases "convert ds cv args") auto
        also have "\<dots> = printk_text ds fmt args"
          using False \<open>fmt = cx # f\<close> cv Cons by (simp add: printk_text.simps [of ds "CHR ''%'' # c0 # g"])
        finally show ?thesis .
      qed
    qed
  qed
qed

lemma consputc_char:
  assumes "uart_idle s" "cpu_ok (core s)"
  shows "consputc (of_char c) s = Ret () (uart_sent (of_char c) s)"
proof -
  have "(of_char c :: int) < 256" using of_char_int [of c] by (simp add: less_le_trans)
  then have "(of_char c :: int) \<noteq> BACKSPACE" by (simp add: BACKSPACE_def)
  moreover have "word_of_int (of_char c) = (of_char c :: u8)" by (simp add: of_int_of_char)
  ultimately show ?thesis using assms by (simp add: consputc_def uartputc_eq)
qed

lemma consputc_all:
  "uart_idle s \<Longrightarrow> cpu_ok (core s) \<Longrightarrow>
   \<exists>t. kfor cs (\<lambda>c. consputc (of_char c)) s = Ret () t \<and> uwrites t = uwrites s @ map (\<lambda>c. (THR, of_char c)) cs \<and>
     (core t = core s \<or> core t = touch (core s))"
proof (induction cs arbitrary: s)
  case Nil
  then show ?case by (simp add: kret_def)
next
  case (Cons c cs)
  have u: "uwrites (uart_sent (of_char c) s) = uwrites s @ [(THR, of_char c)]" by (simp add: uart_sent_def)
  obtain t where "kfor cs (\<lambda>c. consputc (of_char c)) (uart_sent (of_char c) s) = Ret () t"
    "uwrites t = uwrites (uart_sent (of_char c) s) @ map (\<lambda>c. (THR, of_char c)) cs" "core t = touch (core s)"
    using Cons.IH [of "uart_sent (of_char c) s"] Cons.prems by auto
  then show ?case using consputc_char [OF Cons.prems, of c] u by simp
qed

text \<open>
  \<^verbatim>\<open>printk\<close> sends exactly its text: with an idle transmitter and the lock free, the characters of the
  formatted text reach the UART in order, the lock is free again and the call returns 0.
\<close>

theorem printk_sends_text:
  assumes "uart_idle s" "cpu_ok (core s)" "free_lock PrLock (core s)" "printk_text kdigits fmt args = Some t"
  shows "\<exists>s'. printk fmt args s = Ret 0 s' \<and> uwrites s' = uwrites s @ map (\<lambda>c. (THR, of_char c)) t \<and>
     core s' = touch (core s)"
proof -
  let ?s = "s\<lparr>core := c_acq PrLock (core s)\<rparr>"
  have "uart_idle ?s" "cpu_ok (core ?s)" using assms by (simp_all add: uart_idle_def)
  then obtain u where u: "kfor t (\<lambda>c. consputc (of_char c)) ?s = Ret () u" "uwrites u = uwrites s @ map (\<lambda>c. (THR, of_char c)) t"
    "core u = c_acq PrLock (core s)"
    using consputc_all [of ?s t] assms(2) by auto
  then show ?thesis using assms by (simp add: printk_def kstep kret_def)
qed

theorem printk_sends_text_witness:
  "\<exists>s'. printk ''%d%c'' [VNum (- 5), VNum 10] (demo_console ()) = Ret 0 s' \<and>
     map snd (uwrites s') = [45, 53, 10]"
proof -
  have q: "quiet 2 (demo_console ())" unfolding demo_console_def by (rule demo_bio_quiet)
  have u: "udev (demo_console ()) = (\<lambda>_ _. LSR_TX_IDLE)" "uwrites (demo_console ()) = []"
    by (simp_all add: demo_console_def demo_bio_def)
  have idle: "uart_idle (demo_console ())" using quietD(5) [OF q] by (simp add: uart_idle_def u LSR_TX_IDLE_def)
  have t: "printk_text kdigits ''%d%c'' [VNum (- 5), VNum 10] = Some [CHR ''-'', CHR ''5'', CHR 0x0A]" by code_simp
  show ?thesis
    using printk_sends_text [OF idle quietD(1,2) [OF q] t] by (auto simp: u of_char_def)
qed

lemma panic_text_eq: "panic_text m = Some (''panic: '' @ m @ [CHR 0x0A])"
  by (simp add: panic_text_def printk_text.simps conversion_def nth0_def convert_def arg_str_def)

end
