(* ===== verification/Ulib.thy ===== *)
theory Ulib
  imports Kstring
begin

text \<open>
  The string and memory routines of the user library, \<^verbatim>\<open>user/ulib.c\<close>: \<^verbatim>\<open>strcpy\<close>, \<^verbatim>\<open>strcmp\<close>, \<^verbatim>\<open>strlen\<close>, \<^verbatim>\<open>memset\<close>,
  \<^verbatim>\<open>strchr\<close>, \<^verbatim>\<open>gets\<close>, \<^verbatim>\<open>memmove\<close>, \<^verbatim>\<open>memcmp\<close> and \<^verbatim>\<open>memcpy\<close>, on the byte memory of theory \<open>Kstring\<close>. The names carry
  the prefix \<open>u_\<close> where the kernel has a routine of the same name. A loop that runs to the next NUL is
  a \<^verbatim>\<open>partial_function\<close>: \<open>None\<close> if there is none. A plain \<^verbatim>\<open>char\<close> is unsigned on RISC-V.
\<close>

subsection \<open>The routines\<close>

partial_function (option) u_strcpy :: "mem \<Rightarrow> u64 \<Rightarrow> u64 \<Rightarrow> mem option" where
  "u_strcpy m s t = (let m' = m(s := m t) in if m t = 0 then Some m' else u_strcpy m' (s + 1) (t + 1))"

partial_function (option) u_strcmp :: "mem \<Rightarrow> u64 \<Rightarrow> u64 \<Rightarrow> int option" where
  "u_strcmp m p q =
     (if m p \<noteq> 0 \<and> m p = m q then u_strcmp m (p + 1) (q + 1) else Some (uint (m p) - uint (m q)))"

partial_function (option) u_strlen_loop :: "mem \<Rightarrow> u64 \<Rightarrow> nat \<Rightarrow> nat option" where
  "u_strlen_loop m s n = (if m (s + of_nat n) = 0 then Some n else u_strlen_loop m s (Suc n))"

definition u_strlen :: "mem \<Rightarrow> u64 \<Rightarrow> nat option" where
  "u_strlen m s = u_strlen_loop m s 0"

primrec u_memset_loop :: "mem \<Rightarrow> u64 \<Rightarrow> u8 \<Rightarrow> nat \<Rightarrow> nat \<Rightarrow> mem" where
  "u_memset_loop m cdst c 0 i = m"
| "u_memset_loop m cdst c (Suc k) i = u_memset_loop (m(cdst + of_nat i := c)) cdst c k (Suc i)"

definition u_memset :: "mem \<Rightarrow> u64 \<Rightarrow> u8 \<Rightarrow> u32 \<Rightarrow> mem" where
  "u_memset m dst c n = u_memset_loop m dst c (unat n) 0"

text \<open>The null pointer is 0.\<close>

partial_function (option) u_strchr :: "mem \<Rightarrow> u64 \<Rightarrow> u8 \<Rightarrow> u64 option" where
  "u_strchr m s c = (if m s = 0 then Some 0 else if m s = c then Some s else u_strchr m (s + 1) c)"

text \<open>
  \<^verbatim>\<open>memmove\<close> with \<^verbatim>\<open>n\<close> a C int: forward if the source is above the destination, backward otherwise.
\<close>

definition u_memmove :: "mem \<Rightarrow> u64 \<Rightarrow> u64 \<Rightarrow> int \<Rightarrow> mem" where
  "u_memmove m dst src n =
     (if dst < src then copy_fwd m dst src (nat n)
      else copy_back m (dst + of_int n) (src + of_int n) (nat n))"

primrec u_memcmp_loop :: "mem \<Rightarrow> u64 \<Rightarrow> u64 \<Rightarrow> nat \<Rightarrow> int" where
  "u_memcmp_loop m p1 p2 0 = 0"
| "u_memcmp_loop m p1 p2 (Suc n) =
     (if m p1 \<noteq> m p2 then uint (m p1) - uint (m p2) else u_memcmp_loop m (p1 + 1) (p2 + 1) n)"

definition u_memcmp :: "mem \<Rightarrow> u64 \<Rightarrow> u64 \<Rightarrow> u32 \<Rightarrow> int" where
  "u_memcmp m s1 s2 n = u_memcmp_loop m s1 s2 (unat n)"

definition u_memcpy :: "mem \<Rightarrow> u64 \<Rightarrow> u64 \<Rightarrow> u32 \<Rightarrow> mem" where
  "u_memcpy m dst src n = u_memmove m dst src (sint n)"

text \<open>
  \<^verbatim>\<open>gets\<close>: the bytes it stores, the final NUL included, and what is left of the input. \<open>i\<close> bytes are
  stored already.
\<close>

function gets_loop :: "int \<Rightarrow> int \<Rightarrow> u8 list \<Rightarrow> u8 list \<times> u8 list" where
  "gets_loop i mx inp =
     (if i + 1 < mx
      then (case inp of
          [] \<Rightarrow> ([], [])
        | c # cs \<Rightarrow>
            if c = 10 \<or> c = 13 then ([c], cs)
            else (case gets_loop (i + 1) mx cs of (buf, rest) \<Rightarrow> (c # buf, rest)))
      else ([], inp))"
  by pat_completeness auto

termination
  by (relation "measure (\<lambda>(_, _, inp). length inp)") auto

declare gets_loop.simps [simp del]

definition gets :: "int \<Rightarrow> u8 list \<Rightarrow> u8 list \<times> u8 list" where
  "gets mx inp = (case gets_loop 0 mx inp of (buf, rest) \<Rightarrow> (buf @ [0], rest))"

subsection \<open>Strings in memory\<close>

text \<open>\<open>cstr m p xs\<close>: the C string at \<open>p\<close> is \<open>xs\<close>.\<close>

primrec cstr :: "mem \<Rightarrow> u64 \<Rightarrow> u8 list \<Rightarrow> bool" where
  "cstr m p [] \<longleftrightarrow> m p = 0"
| "cstr m p (x # xs) \<longleftrightarrow> x \<noteq> 0 \<and> m p = x \<and> cstr m (p + 1) xs"

text \<open>The order of a dictionary.\<close>

fun before :: "u8 list \<Rightarrow> u8 list \<Rightarrow> bool" where
  "before xs [] \<longleftrightarrow> False"
| "before [] (y # ys) \<longleftrightarrow> True"
| "before (x # xs) (y # ys) \<longleftrightarrow> x < y \<or> x = y \<and> before xs ys"

lemma uint_pos: "x \<noteq> 0 \<Longrightarrow> 0 < uint (x :: u8)"
proof -
  assume "x \<noteq> 0"
  then have "uint x \<noteq> 0" using word_uint_eq_iff [of x 0] by simp
  moreover have "0 \<le> uint x" by simp
  ultimately show ?thesis by linarith
qed

text \<open>
  \<^verbatim>\<open>strcmp\<close> compares two strings as a dictionary does: it returns, its result is zero exactly for
  equal strings and negative exactly if the first comes before the second.
\<close>

theorem u_strcmp_order:
  "cstr m p xs \<Longrightarrow> cstr m q ys \<Longrightarrow>
   \<exists>d. u_strcmp m p q = Some d \<and> (d = 0 \<longleftrightarrow> xs = ys) \<and> (d < 0 \<longleftrightarrow> before xs ys)"
proof (induction xs arbitrary: p q ys)
  case Nil
  then show ?case by (subst u_strcmp.simps, cases ys) (auto simp: uint_pos dest: uint_pos)
next
  case (Cons x xs)
  show ?case
  proof (cases ys)
    case Nil
    then show ?thesis using Cons.prems uint_pos [of x] by (subst u_strcmp.simps) auto
  next
    case ys: (Cons y zs)
    show ?thesis
    proof (cases "x = y")
      case True
      then show ?thesis
        using Cons.IH [of "p + 1" "q + 1" zs] Cons.prems ys by (subst u_strcmp.simps) auto
    next
      case False
      then show ?thesis
        using Cons.prems ys by (subst u_strcmp.simps) (auto simp: word_less_def word_uint_eq_iff)
    qed
  qed
qed

theorem u_strcmp_order_witness:
  "\<exists>d. u_strcmp ((\<lambda>_. 0)(0 := 97, 1 := 98, 8 := 97, 9 := 99)) 0 8 = Some d \<and> d < 0"
  using u_strcmp_order [of "(\<lambda>_. 0)(0 := 97, 1 := 98, 8 := 97, 9 := 99)" 0 "[97, 98]" 8 "[97, 99]"] by auto

text \<open>\<^verbatim>\<open>strlen\<close>, \<^verbatim>\<open>memset\<close> and \<^verbatim>\<open>memcmp\<close> are the kernel's.\<close>

lemma u_memset_eq: "u_memset = memset"
proof -
  have "u_memset_loop m d c k i = memset_loop m d c k i" for m d c k i
    by (induction k arbitrary: m i) simp_all
  then show ?thesis by (simp add: fun_eq_iff u_memset_def memset_def)
qed

lemma u_memcmp_eq: "u_memcmp = memcmp"
proof -
  have "u_memcmp_loop m p q k = memcmp_loop m p q k" for m p q k
    by (induction k arbitrary: p q) simp_all
  then show ?thesis by (simp add: fun_eq_iff u_memcmp_def memcmp_def)
qed

lemma u_strlen_cstr: "cstr m s xs \<Longrightarrow> u_strlen m s = Some (length xs)"
proof -
  have "cstr m (s + of_nat n) xs \<Longrightarrow> u_strlen_loop m s n = Some (n + length xs)" for n
  proof (induction xs arbitrary: n)
    case Nil
    then show ?case by (subst u_strlen_loop.simps) simp
  next
    case (Cons x xs)
    then have "u_strlen_loop m s (Suc n) = Some (Suc n + length xs)" by (intro Cons.IH) (simp add: add_ac)
    then show ?case using Cons.prems by (subst u_strlen_loop.simps) simp
  qed
  from this [of 0] show "cstr m s xs \<Longrightarrow> ?thesis" by (simp add: u_strlen_def)
qed

lemma u_strchr_cstr:
  "cstr m s xs \<Longrightarrow> c \<noteq> 0 \<Longrightarrow>
   u_strchr m s c = Some (if c \<in> set xs then s + of_nat (length (takeWhile (\<lambda>x. x \<noteq> c) xs)) else 0)"
proof (induction xs arbitrary: s)
  case Nil
  then show ?case by (subst u_strchr.simps) simp
next
  case (Cons x xs)
  then show ?case using Cons.IH [of "s + 1"] by (subst u_strchr.simps) (auto simp: add_ac)
qed

text \<open>
  The library's \<^verbatim>\<open>memmove\<close>, which decides by the order of the pointers alone, copies as the kernel's
  does, which also asks whether the regions overlap: for regions that do not wrap around the end of
  the address space the two leave the same memory.
\<close>

theorem u_memmove_as_kernel:
  assumes "unat src + unat n < 2 ^ 64" "unat dst + unat n < 2 ^ 64" "unat n < 2 ^ 31"
  shows "u_memmove m dst src (int (unat n)) = memmove m dst src n"
proof
  fix a
  have n: "unat n < 2 ^ 64" using unat_u32_lt [of n] by simp
  have "u_memmove m dst src (int (unat n)) a = (if in_region dst (unat n) a then m (src + (a - dst)) else m a)"
  proof (cases "dst < src")
    case True
    then have "unat n \<le> unat (dst - src)" using assms(1) by (simp add: unat_diff_wrap word_less_nat_alt)
    then show ?thesis using True n by (simp add: u_memmove_def copy_fwd_eq)
  next
    case False
    have "unat (src - dst) = 0 \<or> unat n \<le> unat (src - dst)"
    proof (cases "src = dst")
      case neq: False
      then have "src < dst" using False by simp
      then show ?thesis using assms(2) by (simp add: unat_diff_wrap word_less_nat_alt)
    qed simp
    then show ?thesis using False n
      by (simp add: u_memmove_def copy_back_eq algebra_simps)
  qed
  then show "u_memmove m dst src (int (unat n)) a = memmove m dst src n a"
    using assms by (simp add: memmove_eq)
qed

theorem u_memmove_as_kernel_witness:
  "u_memmove (\<lambda>a. ucast a) 5 3 (int (unat (4 :: u32))) = memmove (\<lambda>a. ucast a) 5 3 4"
  using u_memmove_as_kernel [of 3 4 5 "\<lambda>a. ucast a"] by simp

lemma gets_loop_ok:
  "gets_loop i mx inp = (buf, rest) \<Longrightarrow> i < mx \<Longrightarrow>
   buf @ rest = inp \<and> i + int (length buf) < mx \<and> (\<forall>c \<in> set (butlast buf). c \<noteq> 10 \<and> c \<noteq> 13) \<and>
   (inp = buf \<or> i + int (length buf) + 1 = mx \<or> buf \<noteq> [] \<and> (last buf = 10 \<or> last buf = 13))"
proof (induction i mx inp arbitrary: buf rule: gets_loop.induct)
  case (1 i mx inp)
  show ?case
  proof (cases "i + 1 < mx \<and> inp \<noteq> []")
    case True
    then obtain c cs where inp: "inp = c # cs" by (cases inp) auto
    show ?thesis
    proof (cases "c = 10 \<or> c = 13")
      case True
      have "gets_loop i mx inp = ([c], cs)"
        using inp True \<open>i + 1 < mx \<and> inp \<noteq> []\<close> by (subst gets_loop.simps) simp
      then show ?thesis using 1(2,3) inp True \<open>i + 1 < mx \<and> inp \<noteq> []\<close> by auto
    next
      case False
      obtain b r where b: "gets_loop (i + 1) mx cs = (b, r)" by fastforce
      then have "gets_loop i mx inp = (c # b, r)" using inp True False by (subst gets_loop.simps) simp
      then have e: "buf = c # b" "rest = r" using 1(2) by simp_all
      have "b @ rest = cs \<and> i + 1 + int (length b) < mx \<and> (\<forall>c \<in> set (butlast b). c \<noteq> 10 \<and> c \<noteq> 13) \<and>
          (cs = b \<or> i + 1 + int (length b) + 1 = mx \<or> b \<noteq> [] \<and> (last b = 10 \<or> last b = 13))"
        using 1(1) [OF _ inp False] b e True by simp
      then show ?thesis using e inp False by (auto simp: algebra_simps)
    qed
  next
    case False
    then have "gets_loop i mx inp = ([], inp)" by (subst gets_loop.simps) auto
    then show ?thesis using False 1(2,3) by auto
  qed
qed

text \<open>
  \<^verbatim>\<open>gets\<close> never writes beyond its buffer and loses no input: with a buffer of \<^verbatim>\<open>max > 0\<close> bytes it stores
  at most \<^verbatim>\<open>max\<close> bytes, the last one a NUL; before it stand the next bytes of the input, in which a
  newline or carriage return can only be the last; it stops early only after such a byte or at the end
  of the input; and the bytes it has not stored are still there to be read.
\<close>

theorem gets_bounds:
  assumes "0 < mx" "gets mx inp = (buf, rest)"
  shows "\<exists>ln. buf = ln @ [0] \<and> ln @ rest = inp \<and> int (length buf) \<le> mx \<and> (\<forall>c \<in> set (butlast ln). c \<noteq> 10 \<and> c \<noteq> 13) \<and>
     (rest = [] \<or> int (length buf) = mx \<or> ln \<noteq> [] \<and> (last ln = 10 \<or> last ln = 13))"
proof -
  obtain b r where b: "gets_loop 0 mx inp = (b, r)" by fastforce
  then have "buf = b @ [0]" "rest = r" using assms(2) by (simp_all add: gets_def)
  then show ?thesis using gets_loop_ok [OF b] assms(1) by auto
qed

theorem gets_bounds_witness:
  "gets 8 [108, 115, 10, 119] = ([108, 115, 10, 0], [119]) \<and> int (length (fst (gets 3 [108, 115, 10, 119]))) \<le> 3"
proof -
  have "gets 8 [108, 115, 10, 119] = ([108, 115, 10, 0], [119])" "gets 3 [108, 115, 10, 119] = ([108, 115, 0], [10, 119])"
    by code_simp+
  then show ?thesis using gets_bounds [of 3 "[108, 115, 10, 119]"] by auto
qed

end
