(* ===== verification/Umalloc.thy ===== *)
theory Umalloc
  imports Prelude Links
begin

text \<open>
  The allocator of the user library, \<^verbatim>\<open>user/umalloc.c\<close> (Kernighan and Ritchie): \<^verbatim>\<open>free\<close>, \<^verbatim>\<open>morecore\<close> and
  \<^verbatim>\<open>malloc\<close> with the circular free list in address order.

  Addresses and sizes count units of \<^verbatim>\<open>sizeof(Header)\<close>, 16 bytes; a size is an \<^verbatim>\<open>uint\<close>, so sums of sizes
  are taken modulo \<open>2 ^ 32\<close>. Address 0 is the null pointer. \<^verbatim>\<open>sbrk\<close> is a system call: a parameter that
  maps the number of bytes asked for, a C int, and the current break to its answer (\<open>None\<close> for
  \<^verbatim>\<open>SBRK_ERROR\<close>) and the new break. The loops have fuel; \<open>None\<close> as the result of an operation means
  that the fuel ran out.
\<close>

subsection \<open>The routines\<close>

record heap =
  hptr :: "nat \<Rightarrow> nat"
  hsize :: "nat \<Rightarrow> nat"
  hbase :: nat
  freep :: nat
  hbrk :: nat

type_synonym sbrk_call = "int \<Rightarrow> nat \<Rightarrow> nat option \<times> nat"

definition uadd :: "nat \<Rightarrow> nat \<Rightarrow> nat" where
  "uadd a b = (a + b) mod 2 ^ 32"

definition set_ptr :: "nat \<Rightarrow> nat \<Rightarrow> heap \<Rightarrow> heap" where
  "set_ptr a v h = h\<lparr>hptr := (hptr h)(a := v)\<rparr>"

definition set_size :: "nat \<Rightarrow> nat \<Rightarrow> heap \<Rightarrow> heap" where
  "set_size a v h = h\<lparr>hsize := (hsize h)(a := v)\<rparr>"

text \<open>The search of \<^verbatim>\<open>free\<close> for the node behind which the block belongs.\<close>

definition free_stop :: "heap \<Rightarrow> nat \<Rightarrow> nat \<Rightarrow> bool" where
  "free_stop h bp p \<longleftrightarrow> p < bp \<and> bp < hptr h p \<or> hptr h p \<le> p \<and> (p < bp \<or> bp < hptr h p)"

primrec free_find :: "nat \<Rightarrow> heap \<Rightarrow> nat \<Rightarrow> nat \<Rightarrow> nat option" where
  "free_find 0 h bp p = None"
| "free_find (Suc n) h bp p = (if free_stop h bp p then Some p else free_find n h bp (hptr h p))"

definition free_link :: "nat \<Rightarrow> nat \<Rightarrow> heap \<Rightarrow> heap" where
  "free_link bp p h =
     (let q = hptr h p;
          h1 = (if bp + hsize h bp = q
                then set_ptr bp (hptr h q) (set_size bp (uadd (hsize h bp) (hsize h q)) h)
                else set_ptr bp q h);
          h2 = (if p + hsize h1 p = bp
                then set_ptr p (hptr h1 bp) (set_size p (uadd (hsize h1 p) (hsize h1 bp)) h1)
                else set_ptr p bp h1)
      in h2\<lparr>freep := p\<rparr>)"

definition free :: "nat \<Rightarrow> nat \<Rightarrow> heap \<Rightarrow> heap option" where
  "free fuel ap h =
     (let bp = ap - 1 in map_option (\<lambda>p. free_link bp p h) (free_find fuel h bp (freep h)))"

text \<open>\<^verbatim>\<open>nu * sizeof(Header)\<close> is converted to the C int that \<^verbatim>\<open>sbrk\<close> takes. The result 0 is the null pointer.\<close>

definition sbrk_arg :: "nat \<Rightarrow> int" where
  "sbrk_arg n = sint (of_nat n :: u32)"

definition morecore :: "nat \<Rightarrow> sbrk_call \<Rightarrow> nat \<Rightarrow> heap \<Rightarrow> (nat \<times> heap) option" where
  "morecore fuel sbrk nu h =
     (let nu = (if nu < 4096 then 4096 else nu) in
      case sbrk (sbrk_arg (nu * 16)) (hbrk h) of
        (None, k) \<Rightarrow> Some (0, h\<lparr>hbrk := k\<rparr>)
      | (Some hp, k) \<Rightarrow>
          map_option (\<lambda>h'. (freep h', h')) (free fuel (hp + 1) (set_size hp nu (h\<lparr>hbrk := k\<rparr>))))"

text \<open>The tail of a block that is too large is handed out.\<close>

definition malloc_take :: "nat \<Rightarrow> nat \<Rightarrow> nat \<Rightarrow> heap \<Rightarrow> nat \<times> heap" where
  "malloc_take nunits prevp p h =
     (if hsize h p = nunits
      then (p + 1, (set_ptr prevp (hptr h p) h)\<lparr>freep := prevp\<rparr>)
      else let m = hsize h p - nunits; r = p + m
           in (r + 1, (set_size r nunits (set_size p m h))\<lparr>freep := prevp\<rparr>))"

primrec malloc_loop :: "nat \<Rightarrow> nat \<Rightarrow> sbrk_call \<Rightarrow> nat \<Rightarrow> nat \<Rightarrow> nat \<Rightarrow> heap \<Rightarrow> (nat \<times> heap) option" where
  "malloc_loop 0 fuel sbrk nunits prevp p h = None"
| "malloc_loop (Suc n) fuel sbrk nunits prevp p h =
     (if nunits \<le> hsize h p then Some (malloc_take nunits prevp p h)
      else if p = freep h
      then (case morecore fuel sbrk nunits h of
          None \<Rightarrow> None
        | Some (q, h') \<Rightarrow> if q = 0 then Some (0, h') else malloc_loop n fuel sbrk nunits q (hptr h' q) h')
      else malloc_loop n fuel sbrk nunits p (hptr h p) h)"

definition units_for :: "nat \<Rightarrow> nat" where
  "units_for nbytes = (nbytes + 16 - 1) div 16 + 1"

definition malloc :: "nat \<Rightarrow> sbrk_call \<Rightarrow> nat \<Rightarrow> heap \<Rightarrow> (nat \<times> heap) option" where
  "malloc fuel sbrk nbytes h =
     (let nunits = units_for nbytes;
          h = (if freep h = 0
               then set_size (hbase h) 0 (set_ptr (hbase h) (hbase h) (h\<lparr>freep := hbase h\<rparr>)) else h)
      in malloc_loop fuel fuel sbrk nunits (freep h) (hptr h (freep h)) h)"

subsection \<open>The free list as a list of blocks\<close>

type_synonym blocks = "(nat \<times> nat) list"

definition units :: "blocks \<Rightarrow> nat set" where
  "units bs = (\<Union>(a, n) \<in> set bs. {a..<a + n})"

lemma units_simps [simp]: "units [] = {}" "units ((a, n) # bs) = {a..<a + n} \<union> units bs" "units (xs @ ys) = units xs \<union> units ys"
  by (auto simp: units_def)

text \<open>Blocks in address order, with a gap between any two of them, above \<open>b\<close> and below \<open>k\<close>.\<close>

fun spaced :: "nat \<Rightarrow> blocks \<Rightarrow> nat \<Rightarrow> bool" where
  "spaced b [] k \<longleftrightarrow> b \<le> k"
| "spaced b ((a, n) # bs) k \<longleftrightarrow> b < a \<and> 0 < n \<and> spaced (a + n) bs k"

lemma spaced_append: "spaced b (xs @ (a, n) # ys) k \<longleftrightarrow> (\<exists>c < a. spaced b xs c) \<and> 0 < n \<and> spaced (a + n) ys k"
  by (induction b xs k rule: spaced.induct) (auto intro: le_less_trans)

lemma spaced_bounds: "spaced b bs k \<Longrightarrow> b \<le> k"
  by (induction b bs k rule: spaced.induct) auto

lemma spaced_lower: "spaced b bs k \<Longrightarrow> (a, n) \<in> set bs \<Longrightarrow> b < a \<and> 0 < n \<and> a + n \<le> k"
proof (induction b bs k arbitrary: a n rule: spaced.induct)
  case (2 b a' n' bs k)
  have "a' + n' \<le> k" using 2(2) spaced_bounds [of "a' + n'" bs k] by simp
  then show ?case using 2(1) [of a n] 2(2,3) by auto
qed simp

lemma spaced_distinct: "spaced b bs k \<Longrightarrow> distinct (b # map fst bs)"
proof (induction b bs k rule: spaced.induct)
  case (2 b a n bs k)
  have "b < c" if "c \<in> set (map fst bs)" for c
    using that spaced_lower [of "a + n" bs k] 2(2) by fastforce
  moreover have "a \<noteq> c" if "c \<in> set (map fst bs)" for c
    using that spaced_lower [of "a + n" bs k] 2(2) by fastforce
  moreover have "distinct (map fst bs)" using 2 by auto
  ultimately show ?case using 2(2) by auto
qed simp

lemma spaced_units: "spaced b bs k \<Longrightarrow> x \<in> units bs \<Longrightarrow> b < x \<and> x < k"
  using spaced_lower by (fastforce simp: units_def)

text \<open>A run of free units lies in one block.\<close>

lemma spaced_covers:
  "spaced b bs k \<Longrightarrow> {x..<x + n} \<subseteq> units bs \<Longrightarrow> 0 < n \<Longrightarrow> \<exists>(a, m) \<in> set bs. a \<le> x \<and> x + n \<le> a + m"
proof (induction b bs k rule: spaced.induct)
  case (2 b a m bs k)
  have sp: "spaced (a + m) bs k" using 2(2) by simp
  have xin: "x \<in> units ((a, m) # bs)" using 2(3,4) subsetD [OF 2(3), of x] by simp
  show ?case
  proof (cases "x < a + m")
    case True
    then have ax: "a \<le> x" using xin spaced_units [OF sp, of x] by auto
    have "x + n \<le> a + m"
    proof (rule ccontr)
      assume "\<not> ?thesis"
      then have "a + m \<in> {x..<x + n}" using True by simp
      then have "a + m \<in> units ((a, m) # bs)" using 2(3) by (rule rev_subsetD)
      then show False using spaced_units [OF sp, of "a + m"] by auto
    qed
    then show ?thesis using ax by auto
  next
    case False
    then have "{x..<x + n} \<subseteq> units bs" using 2(3) by auto
    then show ?thesis using 2(1) [OF sp] 2(4) by auto
  qed
qed simp

text \<open>Where a block that is disjoint from the free blocks belongs.\<close>

lemma spaced_split:
  "spaced b bs k \<Longrightarrow> {x..<x + n} \<inter> units bs = {} \<Longrightarrow> b < x \<Longrightarrow> 0 < n \<Longrightarrow>
   \<exists>ls rs. bs = ls @ rs \<and> spaced b ls x \<and> (rs = [] \<or> x + n \<le> fst (hd rs))"
proof (induction b bs k rule: spaced.induct)
  case (1 b k)
  then show ?case by (intro exI [of _ "[]"]) simp
next
  case (2 b a m bs k)
  have dis: "z \<notin> units ((a, m) # bs)" if "z \<in> {x..<x + n}" for z using 2(3) that by blast
  have nx: "x \<notin> {a..<a + m}" "a \<notin> {x..<x + n}" using dis [of x] dis [of a] 2(2,5) by auto
  show ?case
  proof (cases "x < a")
    case True
    then show ?thesis using nx 2(2,4) by (intro exI [of _ "[]"] exI [of _ "(a, m) # bs"]) auto
  next
    case False
    then have am: "a + m \<le> x" using nx(1) by auto
    show ?thesis
    proof (cases "a + m = x")
      case True
      have "rs = [] \<or> x + n \<le> fst (hd rs)" if "rs = bs" for rs
      proof (cases bs)
        case (Cons c cs)
        obtain d l where c: "c = (d, l)" by fastforce
        have "x < d" "d \<in> units bs" using 2(2) Cons c True by auto
        then have "d \<notin> {x..<x + n}" using dis [of d] by auto
        then show ?thesis using \<open>x < d\<close> that Cons c by simp
      qed (use that in simp)
      then show ?thesis using True 2(2) by (intro exI [of _ "[(a, m)]"] exI [of _ bs]) auto
    next
      case False
      then have "\<exists>ls rs. bs = ls @ rs \<and> spaced (a + m) ls x \<and> (rs = [] \<or> x + n \<le> fst (hd rs))"
        using 2(1) 2(2-5) am by auto
      then obtain ls rs where "bs = ls @ rs" "spaced (a + m) ls x" "rs = [] \<or> x + n \<le> fst (hd rs)" by blast
      then show ?thesis using 2(2) by (intro exI [of _ "(a, m) # ls"] exI [of _ rs]) simp
    qed
  qed
qed

subsection \<open>The invariant\<close>

definition flist :: "heap \<Rightarrow> blocks \<Rightarrow> bool" where
  "flist h bs \<longleftrightarrow> spaced (hbase h) bs (hbrk h) \<and> lpath (hptr h) (hbase h) (map fst bs) (hbase h) \<and>
     (\<forall>(a, n) \<in> set bs. hsize h a = n) \<and> hsize h (hbase h) = 0 \<and> freep h \<in> set (hbase h # map fst bs) \<and>
     0 < hbase h \<and> hbase h < hbrk h \<and> hbrk h < 2 ^ 32"

lemma spaced_sorted: "spaced b bs k \<Longrightarrow> sorted_wrt (<) (b # map fst bs)"
proof (induction b bs k rule: spaced.induct)
  case (2 b a n bs k)
  have "b < c \<and> a < c" if "c \<in> set (map fst bs)" for c
    using that spaced_lower [of "a + n" bs k] 2(2) by fastforce
  moreover have "sorted_wrt (<) (map fst bs)" using 2 by simp
  ultimately show ?case using 2(2) by auto
qed simp

lemma sorted_succ: "sorted_wrt (<) (as :: nat list) \<Longrightarrow> as = xs @ u # v # ys \<Longrightarrow> u < v"
  by (simp add: sorted_wrt_append)

text \<open>The node behind which \<open>bp\<close> belongs is the only one where the search of \<^verbatim>\<open>free\<close> stops.\<close>

lemma stop_unique:
  assumes p: "lpath (hptr h) b (map fst (ls @ rs)) b" and l: "spaced b ls bp" and r: "rs = [] \<or> bp < fst (hd rs)"
    and b: "b < bp" and s: "spaced b (ls @ rs) k" and u: "u \<in> set (b # map fst (ls @ rs))"
  shows "free_stop h bp u \<longleftrightarrow> u = last (b # map fst ls)"
proof -
  let ?f = "hptr h"
  have so: "sorted_wrt (<) (b # map fst (ls @ rs))" using spaced_sorted [OF s] .
  have sl: "sorted_wrt (<) (b # map fst ls)" using spaced_sorted [OF l] .
  have lb: "x < bp" if "x \<in> set (b # map fst ls)" for x
    using that b spaced_lower [OF l] by fastforce
  have rb: "bp < x" if "x \<in> set (map fst rs)" for x
  proof (cases rs)
    case (Cons c cs)
    then have "sorted_wrt (<) (map fst rs)" using so by (simp add: sorted_wrt_append)
    then show ?thesis using that r Cons by auto
  qed (use that in simp)
  have gt: "\<forall>x \<in> set (map fst (ls @ rs)). b < x" using so unfolding sorted_wrt.simps by blast
  have ge: "b \<le> x" if "x \<in> set (b # map fst (ls @ rs))" for x
    using that bspec [OF gt, of x] by (cases "x = b") simp_all
  have nxt: "u = last (b # map fst (ls @ rs)) \<and> ?f u = b \<or> (\<exists>xs ys. b # map fst (ls @ rs) = xs @ u # ?f u # ys)"
    using lpath_succ [OF p u] spaced_distinct [OF s] by blast
  show ?thesis
  proof (cases "u \<in> set (b # map fst ls)")
    case True
    show ?thesis
    proof (cases rs)
      case Nil
      have "u = last (b # map fst ls) \<and> ?f u = b \<or> (\<exists>xs v ys. b # map fst ls = xs @ u # v # ys \<and> ?f u = v)"
        using lpath_succ [of ?f b "map fst ls" b u] p True spaced_distinct [OF l] Nil by simp
      then show ?thesis
      proof
        assume a: "u = last (b # map fst ls) \<and> ?f u = b"
        then have fu: "?f u = b" by blast
        have "free_stop h bp u" using lb [OF True] ge [OF u] unfolding free_stop_def fu by simp
        then show ?thesis using a by blast
      next
        assume "\<exists>xs v ys. b # map fst ls = xs @ u # v # ys \<and> ?f u = v"
        then obtain xs v ys where x: "b # map fst ls = xs @ u # v # ys" "?f u = v" by blast
        then have "u < v" "v < bp" using sorted_succ [OF sl x(1)] lb [of v] by simp_all
        moreover have "u \<noteq> last (b # map fst ls)"
          using spaced_distinct [OF l] unfolding x(1) by (auto simp: last_append split: if_splits)
        ultimately show ?thesis using x(2) by (simp add: free_stop_def del: last.simps)
      qed
    next
      case (Cons c cs)
      then have pl: "lpath ?f b (map fst ls) (fst c)" using p by (simp add: lpath_append)
      have c: "bp < fst c" using rb [of "fst c"] Cons by simp
      have "u = last (b # map fst ls) \<and> ?f u = fst c \<or> (\<exists>xs v ys. b # map fst ls = xs @ u # v # ys \<and> ?f u = v)"
        using lpath_succ [OF pl True] spaced_distinct [OF l] by simp
      then show ?thesis
      proof
        assume a: "u = last (b # map fst ls) \<and> ?f u = fst c"
        then have fu: "?f u = fst c" by blast
        have "free_stop h bp u" using lb [OF True] c unfolding free_stop_def fu by simp
        then show ?thesis using a by blast
      next
        assume "\<exists>xs v ys. b # map fst ls = xs @ u # v # ys \<and> ?f u = v"
        then obtain xs v ys where x: "b # map fst ls = xs @ u # v # ys" "?f u = v" by blast
        then have "u < v" "v < bp" using sorted_succ [OF sl x(1)] lb [of v] by simp_all
        moreover have "u \<noteq> last (b # map fst ls)"
          using spaced_distinct [OF l] unfolding x(1) by (auto simp: last_append split: if_splits)
        ultimately show ?thesis using x(2) by (simp add: free_stop_def del: last.simps)
      qed
    qed
  next
    case False
    then have "u \<in> set (map fst rs)" using u by auto
    then have "bp < u" by (rule rb)
    moreover have "u \<noteq> last (b # map fst ls)" using False last_in_set [of "b # map fst ls"] by blast
    moreover have "u < ?f u \<or> ?f u = b" using nxt sorted_succ [OF so] by blast
    ultimately show ?thesis using b by (auto simp: free_stop_def)
  qed
qed

lemma free_find_first:
  "\<forall>i < k. \<not> free_stop h bp ((hptr h ^^ i) p) \<Longrightarrow> free_stop h bp ((hptr h ^^ k) p) \<Longrightarrow> k < n \<Longrightarrow>
   free_find n h bp p = Some ((hptr h ^^ k) p)"
proof (induction k arbitrary: p n)
  case 0
  then show ?case by (cases n) auto
next
  case (Suc k)
  then obtain m where m: "n = Suc m" by (cases n) auto
  have "\<not> free_stop h bp p" using Suc.prems(1) by force
  moreover have "\<not> free_stop h bp ((hptr h ^^ i) (hptr h p))" if "i < k" for i
    using Suc.prems(1) that by (metis Suc_less_eq funpow_simps_right(2) o_apply)
  ultimately show ?case
    using Suc.IH [of "hptr h p" m] Suc.prems m by (simp add: funpow_swap1)
qed

lemma spaced_shrink:
  "spaced b ls x \<Longrightarrow> b < x \<Longrightarrow> ls = [] \<or> fst (last ls) + snd (last ls) \<noteq> x \<Longrightarrow> \<exists>c < x. spaced b ls c"
proof (induction b ls x rule: spaced.induct)
  case (2 b a n bs x)
  have "a + n \<le> x" using 2(2) spaced_bounds [of "a + n" bs x] by simp
  show ?case
  proof (cases "bs = []")
    case True
    then show ?thesis using 2(2,4) \<open>a + n \<le> x\<close> by (intro exI [of _ "a + n"]) auto
  next
    case False
    then obtain d m ds where bs: "bs = (d, m) # ds" by (metis list.exhaust surj_pair)
    then have "a + n < x" using 2(2) spaced_bounds [of "d + m" ds x] by simp
    then show ?thesis using 2(1) 2(2,4) False by auto
  qed
qed auto

lemma units_finite: "{bp..<bp + n} \<union> {bp + n..<bp + n + m} = {bp..<bp + (n + m :: nat)}"
  by auto

text \<open>The first half of \<^verbatim>\<open>free\<close>: joining to the upper neighbour.\<close>

lemma join_upper:
  assumes f: "flist h (ls @ rs)" and r: "rs = [] \<or> bp + n \<le> fst (hd rs)" and b: "hbase h < bp" and n: "hsize h bp = n" "0 < n" "bp + n \<le> hbrk h"
    and fresh: "bp \<notin> fst ` set rs"
  defines "q \<equiv> hptr h (last (hbase h # map fst ls))"
  defines "h1 \<equiv> (if bp + hsize h bp = q
                then set_ptr bp (hptr h q) (set_size bp (uadd (hsize h bp) (hsize h q)) h)
                else set_ptr bp q h)"
  obtains n' rs' v where "h1 = set_ptr bp v (set_size bp n' h)" "lpath ((hptr h)(bp := v)) bp (map fst rs') (hbase h)"
    "spaced (bp + n') rs' (hbrk h)" "{bp..<bp + n'} \<union> units rs' = {bp..<bp + n} \<union> units rs" "set rs' \<subseteq> set rs" "0 < n'"
    "length rs' \<le> length rs"
proof -
  let ?p = "last (hbase h # map fst ls)"
  have pt: "lpath (hptr h) ?p (map fst rs) (hbase h)"
    using f lpath_tail [of "hptr h" "hbase h" "map fst ls" "map fst rs" "hbase h"] by (simp add: flist_def)
  have K: "hbrk h < 2 ^ 32" using f by (simp add: flist_def)
  show thesis
  proof (cases "bp + n = q")
    case True
    have "rs \<noteq> []" using True pt b n(2) by (auto simp: q_def)
    then obtain c m rs1 where rs: "rs = (c, m) # rs1" by (metis list.exhaust surj_pair)
    then have c: "q = c" using pt by (simp add: q_def)
    have m: "hsize h c = m" using f rs by (auto simp: flist_def)
    have sp: "spaced (c + m) rs1 (hbrk h)"
      using f rs by (simp add: flist_def spaced_append)
    then have "c + m \<le> hbrk h" by (rule spaced_bounds)
    then have "uadd (hsize h bp) (hsize h q) = n + m" using True c n m K by (simp add: uadd_def)
    then have h1: "h1 = set_ptr bp (hptr h c) (set_size bp (n + m) h)" using True c n by (simp add: h1_def)
    have "lpath (hptr h) c (map fst rs1) (hbase h)" using pt rs by simp
    then have "lpath ((hptr h)(bp := hptr h c)) bp (map fst rs1) (hbase h)"
      using fresh rs by (intro lpath_start) auto
    moreover have "spaced (bp + (n + m)) rs1 (hbrk h)" using sp True c by (simp add: add.assoc [symmetric])
    moreover have "{bp..<bp + (n + m)} \<union> units rs1 = {bp..<bp + n} \<union> units rs"
      using True c rs units_finite [of bp n m] by auto
    ultimately show thesis using h1 rs n by (intro that [of "hptr h c" "n + m" rs1]) auto
  next
    case False
    have "h = set_size bp n h" unfolding set_size_def fun_upd_idem [of "hsize h", OF n(1)] by simp
    then have h1: "h1 = set_ptr bp q (set_size bp n h)" using False n by (simp add: h1_def)
    have "lpath ((hptr h)(bp := q)) bp (map fst rs) (hbase h)"
      unfolding q_def using pt fresh by (intro lpath_start) auto
    moreover have "spaced (bp + n) rs (hbrk h)"
    proof (cases rs)
      case (Cons c cs)
      obtain d m where c: "c = (d, m)" by fastforce
      have "q = d" using pt Cons c by (simp add: q_def)
      then have "bp + n < d" using r False Cons c by simp
      then show ?thesis using f Cons c by (simp add: flist_def spaced_append)
    qed (use n in simp)
    ultimately show thesis using h1 n by (intro that [of q n rs]) auto
  qed
qed

lemma link_simps [simp]:
  "hptr (set_ptr a v h) = (hptr h)(a := v)" "hsize (set_ptr a v h) = hsize h" "hbase (set_ptr a v h) = hbase h"
  "hbrk (set_ptr a v h) = hbrk h" "freep (set_ptr a v h) = freep h"
  "hptr (set_size a v h) = hptr h" "hsize (set_size a v h) = (hsize h)(a := v)" "hbase (set_size a v h) = hbase h"
  "hbrk (set_size a v h) = hbrk h" "freep (set_size a v h) = freep h"
  by (simp_all add: set_ptr_def set_size_def)

lemma free_link_ok:
  assumes f: "flist h (ls @ rs)" and l: "spaced (hbase h) ls bp" and r: "rs = [] \<or> bp + n \<le> fst (hd rs)" and b: "hbase h < bp"
    and n: "hsize h bp = n" "0 < n" "bp + n \<le> hbrk h"
  shows "\<exists>bs. flist (free_link bp (last (hbase h # map fst ls)) h) bs \<and> units bs = units (ls @ rs) \<union> {bp..<bp + n} \<and>
    length bs \<le> Suc (length (ls @ rs)) \<and> hbase (free_link bp (last (hbase h # map fst ls)) h) = hbase h \<and>
    hbrk (free_link bp (last (hbase h # map fst ls)) h) = hbrk h \<and>
    (\<forall>x. x \<notin> units bs \<longrightarrow> hsize (free_link bp (last (hbase h # map fst ls)) h) x = hsize h x)"
proof -
  define p where "p = last (hbase h # map fst ls)"
  let ?b = "hbase h"
  have sp: "spaced ?b (ls @ rs) (hbrk h)" and pa: "lpath (hptr h) ?b (map fst ls @ map fst rs) ?b"
    and sz: "\<forall>(a, m) \<in> set (ls @ rs). hsize h a = m" and K: "hbrk h < 2 ^ 32" and bz: "hsize h ?b = 0" "0 < ?b" "?b < hbrk h"
    using f by (simp_all add: flist_def)
  have dis: "distinct (?b # map fst ls @ map fst rs)" using spaced_distinct [OF sp] by simp
  have lsbp: "a + m \<le> bp" "a < bp" "?b < a" if "(a, m) \<in> set ls" for a m using spaced_lower [OF l that] by simp_all
  have rsbp: "bp < a" if "a \<in> fst ` set rs" for a
  proof (cases rs)
    case (Cons c cs)
    have "sorted_wrt (<) (map fst rs)" using spaced_sorted [OF sp] by (simp add: sorted_wrt_append)
    then show ?thesis using that r n(2) Cons by fastforce
  qed (use that in simp)
  have fresh: "bp \<notin> fst ` set rs" "bp \<notin> fst ` set ls" "bp \<noteq> ?b" using rsbp lsbp b by fastforce+
  obtain n' rs' v where h1: "(if bp + hsize h bp = hptr h p
                then set_ptr bp (hptr h (hptr h p)) (set_size bp (uadd (hsize h bp) (hsize h (hptr h p))) h)
                else set_ptr bp (hptr h p) h) = set_ptr bp v (set_size bp n' h)"
    and pr: "lpath ((hptr h)(bp := v)) bp (map fst rs') ?b" and sr: "spaced (bp + n') rs' (hbrk h)"
    and ur: "{bp..<bp + n'} \<union> units rs' = {bp..<bp + n} \<union> units rs" and sub: "set rs' \<subseteq> set rs" and n': "0 < n'" "length rs' \<le> length rs"
    by (rule join_upper [OF f r b n fresh(1), folded p_def])
  let ?h1 = "set_ptr bp v (set_size bp n' h)"
  have pin: "p \<in> set (?b # map fst ls)" unfolding p_def by (rule last_in_set) simp
  have pb3: "p < bp"
  proof (cases "p = ?b")
    case False
    then obtain m where "(p, m) \<in> set ls" using pin by auto
    then show ?thesis by (rule lsbp(2))
  qed (use b in simp)
  have "p \<notin> fst ` set rs'"
  proof
    assume "p \<in> fst ` set rs'"
    then have "p \<in> fst ` set rs" using sub by blast
    then have "bp < p" by (rule rsbp)
    then show False using pb3 by simp
  qed
  then have pb: "p \<noteq> bp" "p \<notin> fst ` set rs'" "p < bp" using pb3 by simp_all
  have link: "free_link bp p h = ((if p + hsize h p = bp
       then set_ptr p v (set_size p (uadd (hsize h p) n') ?h1) else set_ptr p bp ?h1))\<lparr>freep := p\<rparr>"
    unfolding free_link_def Let_def h1 using pb(1) by simp
  have rb': "bp + n' \<le> hbrk h" using spaced_bounds [OF sr] .
  have rsz: "hsize h a = m \<and> a \<noteq> bp \<and> a \<noteq> p" if am: "(a, m) \<in> set rs'" for a m
  proof -
    have "(a, m) \<in> set (ls @ rs)" "a \<in> fst ` set rs" using sub am by force+
    then show ?thesis using bspec [OF sz, of "(a, m)"] rsbp [of a] pb(3) by auto
  qed
  have lsz: "hsize h a = m \<and> a \<noteq> bp" if am: "(a, m) \<in> set ls" for a m
    using bspec [OF sz, of "(a, m)"] lsbp(2) [OF am] am by auto
  show ?thesis
  proof (cases "p + hsize h p = bp")
    case True
    have "ls \<noteq> []" using True bz pb by (auto simp: p_def)
    then obtain ls1 k where ls: "ls = ls1 @ [(p, k)]" by (cases ls rule: rev_cases) (auto simp: p_def)
    have k: "hsize h p = k" "p + k = bp" using sz ls True by auto
    let ?bs = "ls1 @ (p, k + n') # rs'"
    have ua: "uadd (hsize h p) n' = k + n'" using k rb' K by (simp add: uadd_def)
    have h2: "free_link bp p h = (set_ptr p v (set_size p (k + n') ?h1))\<lparr>freep := p\<rparr>" using link True ua by simp
    have "lpath (hptr h) ?b (map fst ls1) p" using pa ls by (simp add: lpath_append)
    then have "lpath ((hptr h)(bp := v, p := v)) ?b (map fst ls1) p"
      using fresh dis ls by (auto simp: lpath_upd)
    moreover have "lpath ((hptr h)(bp := v, p := v)) p (map fst rs') ?b"
      using lpath_start [OF pr, of p] pb(2) by simp
    ultimately have pa': "lpath (hptr (free_link bp p h)) ?b (map fst ?bs) ?b" by (simp add: h2 lpath_append)
    have "\<exists>c<p. spaced ?b ls1 c" using l ls spaced_append [of ?b ls1 p k "[]" bp] by simp
    moreover have "spaced (p + (k + n')) rs' (hbrk h)" using sr unfolding k(2) [symmetric] by (simp add: add.assoc)
    ultimately have sp': "spaced ?b ?bs (hbrk h)" using n' by (simp add: spaced_append)
    have dp: "p \<notin> fst ` set ls1" "p \<noteq> ?b" using dis ls by auto
    have sz': "hsize (free_link bp p h) a = m" if "(a, m) \<in> set ?bs" for a m
    proof -
      consider "(a, m) \<in> set ls1" | "a = p" "m = k + n'" | "(a, m) \<in> set rs'" using \<open>(a, m) \<in> set ?bs\<close> by auto
      then show ?thesis
      proof cases
        case 1
        then have "a \<noteq> p" "(a, m) \<in> set ls" using dp(1) ls by force+
        then show ?thesis using lsz [of a m] by (simp add: h2)
      next
        case 3
        then show ?thesis using rsz [of a m] by (simp add: h2)
      qed (simp add: h2)
    qed
    have "units ?bs = units ls1 \<union> {p..<p + k} \<union> ({bp..<bp + n'} \<union> units rs')"
      using k units_finite [of p k n'] by auto
    then have un: "units ?bs = units (ls @ rs) \<union> {bp..<bp + n}" using ls ur by auto
    have fr: "\<forall>x. x \<notin> units ?bs \<longrightarrow> hsize (free_link bp p h) x = hsize h x"
      using k n' by (auto simp: h2)
    have "flist (free_link bp p h) ?bs"
      unfolding flist_def using pa' sp' sz' bz dp K fresh(3) by (auto simp: h2)
    moreover have "length ?bs \<le> Suc (length (ls @ rs))" using n'(2) ls by simp
    moreover have "hbase (free_link bp p h) = ?b" "hbrk (free_link bp p h) = hbrk h" by (simp_all add: h2)
    ultimately show ?thesis using un fr unfolding p_def [symmetric] by blast
  next
    case False
    let ?bs = "ls @ (bp, n') # rs'"
    have h2: "free_link bp p h = (set_ptr p bp ?h1)\<lparr>freep := p\<rparr>" using link False by simp
    have "lpath (hptr h) ?b (map fst ls) (hptr h p)" using lpath_init [OF pa] by (simp add: p_def)
    then have "lpath ((hptr h)(bp := v)) ?b (map fst ls) (hptr h p)" using fresh by simp
    then have "lpath ((hptr h)(bp := v, p := bp)) ?b (map fst ls) bp"
      using lpath_retarget [of "(hptr h)(bp := v)" ?b "map fst ls" "hptr h p" bp] dis unfolding p_def by auto
    moreover have "lpath ((hptr h)(bp := v, p := bp)) bp (map fst rs') ?b" using pr pb by simp
    ultimately have pa': "lpath (hptr (free_link bp p h)) ?b (map fst ?bs) ?b" by (simp add: h2 lpath_append)
    have "ls = [] \<or> fst (last ls) + snd (last ls) \<noteq> bp"
    proof (cases ls rule: rev_cases)
      case (snoc ls1 x)
      then have "p = fst x" "hsize h p = snd x" using sz by (cases x; simp add: p_def)+
      then show ?thesis using False snoc by simp
    qed simp
    then have "\<exists>c < bp. spaced ?b ls c" using spaced_shrink [OF l b] by blast
    then have sp': "spaced ?b ?bs (hbrk h)" using sr n' by (simp add: spaced_append)
    have sz': "hsize (free_link bp p h) a = m" if "(a, m) \<in> set ?bs" for a m
      using that lsz [of a m] rsz [of a m] by (auto simp: h2)
    have un: "units ?bs = units (ls @ rs) \<union> {bp..<bp + n}" using ur by auto
    have fr: "\<forall>x. x \<notin> units ?bs \<longrightarrow> hsize (free_link bp p h) x = hsize h x"
      using n' by (auto simp: h2)
    have "flist (free_link bp p h) ?bs"
      unfolding flist_def using pa' sp' sz' bz K fresh(3) pin by (auto simp: h2)
    moreover have "length ?bs \<le> Suc (length (ls @ rs))" using n'(2) by simp
    moreover have "hbase (free_link bp p h) = ?b" "hbrk (free_link bp p h) = hbrk h" by (simp_all add: h2)
    ultimately show ?thesis using un fr unfolding p_def [symmetric] by blast
  qed
qed

subsection \<open>free\<close>

text \<open>\<open>owned h bs bp n\<close>: a block of \<open>n\<close> units with its header at \<open>bp\<close> that the program holds.\<close>

definition owned :: "heap \<Rightarrow> blocks \<Rightarrow> nat \<Rightarrow> nat \<Rightarrow> bool" where
  "owned h bs bp n \<longleftrightarrow> hsize h bp = n \<and> 0 < n \<and> hbase h < bp \<and> bp + n \<le> hbrk h \<and> {bp..<bp + n} \<inter> units bs = {}"

lemma free_ok:
  assumes f: "flist h bs" and o: "owned h bs bp n" and fuel: "2 * (length bs + 1) \<le> fuel"
  obtains h' bs' where "free fuel (bp + 1) h = Some h'" "flist h' bs'" "units bs' = units bs \<union> {bp..<bp + n}"
    "length bs' \<le> Suc (length bs)" "hbase h' = hbase h" "hbrk h' = hbrk h" "\<forall>x. x \<notin> units bs' \<longrightarrow> hsize h' x = hsize h x"
proof -
  have n: "hsize h bp = n" "0 < n" "bp + n \<le> hbrk h" "hbase h < bp" and dis: "{bp..<bp + n} \<inter> units bs = {}"
    using o by (simp_all add: owned_def)
  have sp: "spaced (hbase h) bs (hbrk h)" and pa: "lpath (hptr h) (hbase h) (map fst bs) (hbase h)"
    and fp: "freep h \<in> set (hbase h # map fst bs)" using f by (simp_all add: flist_def)
  obtain ls rs where bs: "bs = ls @ rs" and l: "spaced (hbase h) ls bp" and r: "rs = [] \<or> bp + n \<le> fst (hd rs)"
    using spaced_split [OF sp dis n(4,2)] by blast
  let ?p = "last (hbase h # map fst ls)"
  have r': "rs = [] \<or> bp < fst (hd rs)" using r n(2) by auto
  have "?p \<in> set (hbase h # map fst ls)" by (rule last_in_set) simp
  then have pin: "?p \<in> set (hbase h # map fst bs)" unfolding bs set_simps map_append set_append by blast
  have stop: "free_stop h bp u \<longleftrightarrow> u = ?p" if "u \<in> set (hbase h # map fst bs)" for u
    using stop_unique [OF pa [unfolded bs] l r' n(4) sp [unfolded bs]] that unfolding bs by blast
  obtain k where k: "k < 2 * length (hbase h # map fst bs)" "free_stop h bp ((hptr h ^^ k) (freep h))"
    "\<And>i. i < k \<Longrightarrow> \<not> free_stop h bp ((hptr h ^^ i) (freep h))"
    using circle_first [OF pa fp pin, of "free_stop h bp"] stop [OF pin] by blast
  then have "free_find fuel h bp (freep h) = Some ((hptr h ^^ k) (freep h))"
    using fuel by (intro free_find_first) auto
  moreover have "(hptr h ^^ k) (freep h) = ?p"
    using stop [OF circle_funpow [OF pa fp]] k(2) by blast
  ultimately have fr: "free fuel (bp + 1) h = Some (free_link bp ?p h)" by (simp add: free_def)
  obtain bs' where "flist (free_link bp ?p h) bs'" "units bs' = units (ls @ rs) \<union> {bp..<bp + n}"
    "length bs' \<le> Suc (length (ls @ rs))" "hbase (free_link bp ?p h) = hbase h" "hbrk (free_link bp ?p h) = hbrk h"
    "\<forall>x. x \<notin> units bs' \<longrightarrow> hsize (free_link bp ?p h) x = hsize h x"
    using free_link_ok [OF f [unfolded bs] l r n(4) n(1-3)] by blast
  then show thesis using that [OF fr] unfolding bs by blast
qed

subsection \<open>malloc\<close>

lemma spaced_shorten:
  assumes "spaced b (xs @ (a, n) # ys) k" "0 < m" "m \<le> n"
  shows "spaced b (xs @ (a, m) # ys) k"
proof -
  have "spaced c ys k \<Longrightarrow> c' \<le> c \<Longrightarrow> spaced c' ys k" for c c' by (cases ys) auto
  then show ?thesis using assms by (auto simp: spaced_append)
qed

lemma spaced_grow: "spaced b xs c \<Longrightarrow> c \<le> k \<Longrightarrow> spaced b xs k"
  by (induction b xs c rule: spaced.induct) auto

lemma spaced_drop:
  assumes "spaced b (xs @ (a, n) # ys) k"
  shows "spaced b (xs @ ys) k"
proof -
  obtain c where c: "c < a" "spaced b xs c" and y: "spaced (a + n) ys k" using assms by (auto simp: spaced_append)
  show ?thesis
  proof (cases ys)
    case Nil
    then show ?thesis using c y spaced_grow [OF c(2), of k] by simp
  next
    case (Cons e es)
    then show ?thesis using c y by (cases e) (auto simp: spaced_append intro: exI [of _ c])
  qed
qed

lemma spaced_disjoint:
  assumes "spaced b (xs @ (a, n) # ys) k"
  shows "{a..<a + n} \<inter> units (xs @ ys) = {}"
proof -
  obtain c where c: "c < a" "spaced b xs c" and y: "spaced (a + n) ys k" using assms by (auto simp: spaced_append)
  have "x < a" if "x \<in> units xs" for x using spaced_units [OF c(2) that] c(1) by simp
  moreover have "a + n < x" if "x \<in> units ys" for x using spaced_units [OF y that] by simp
  ultimately show ?thesis by fastforce
qed

lemma units_shorten:
  assumes "spaced b (xs @ (a, n) # ys) k" "m \<le> n"
  shows "units (xs @ (a, n - m) # ys) = units (xs @ (a, n) # ys) - {a + (n - m)..<a + n}"
proof -
  have "x \<notin> {a..<a + n}" if "x \<in> units (xs @ ys)" for x using spaced_disjoint [OF assms(1)] that by blast
  then have "x \<notin> {a + (n - m)..<a + n}" if "x \<in> units (xs @ ys)" for x using that by fastforce
  moreover have "{a..<a + n} - {a + (n - m)..<a + n} = {a..<a + (n - m)}" using assms(2) by auto
  ultimately show ?thesis unfolding units_simps by blast
qed

text \<open>Taking a block, or the tail of one, off the free list.\<close>

lemma malloc_take_ok:
  assumes f: "flist h bs" and prev: "prevp \<in> set (hbase h # map fst bs)" "hptr h prevp = p" and p: "p \<in> set (map fst bs)"
    and m: "0 < m" "m \<le> hsize h p"
  obtains r h' bs' where "malloc_take m prevp p h = (r + 1, h')" "flist h' bs'" "units bs' = units bs - {r..<r + m}"
    "{r..<r + m} \<subseteq> units bs" "hsize h' r = m" "length bs' \<le> length bs" "hbase h' = hbase h" "hbrk h' = hbrk h"
    "\<forall>x. x \<notin> units bs \<longrightarrow> hsize h' x = hsize h x"
proof -
  obtain xs n ys where bs: "bs = xs @ (p, n) # ys" using p by (metis (no_types, opaque_lifting) in_set_conv_decomp_first list.set_map imageE prod.collapse split_list)
  have sp: "spaced (hbase h) (xs @ (p, n) # ys) (hbrk h)" and pa: "lpath (hptr h) (hbase h) (map fst xs @ p # map fst ys) (hbase h)"
    and sz: "\<forall>(a, n) \<in> set bs. hsize h a = n" and hn: "hsize h p = n" and bz: "hsize h (hbase h) = 0" "0 < hbase h" "hbrk h < 2 ^ 32" "hbase h < hbrk h"
    using f bs by (simp_all add: flist_def)
  have dis: "distinct (hbase h # map fst xs @ p # map fst ys)" using spaced_distinct [OF sp] by simp
  have pl: "prevp = last (hbase h # map fst xs)"
    using circle_pred [OF pa dis] prev unfolding bs by simp
  have prevx: "prevp \<in> set (hbase h # map fst xs)" unfolding pl by (rule last_in_set) simp
  show thesis
  proof (cases "n = m")
    case True
    let ?h = "(set_ptr prevp (hptr h p) h)\<lparr>freep := prevp\<rparr>"
    have t: "malloc_take m prevp p h = (p + 1, ?h)" using True hn by (simp add: malloc_take_def)
    have "lpath ((hptr h)(prevp := hptr h p)) (hbase h) (map fst xs @ map fst ys) (hbase h)"
      using lpath_remove [OF pa dis] by (simp add: pl)
    then have fl: "flist ?h (xs @ ys)" using spaced_drop [OF sp] sz bz prevx by (auto simp: flist_def bs)
    have "units (xs @ ys) = units bs - {p..<p + m}" using spaced_disjoint [OF sp] True bs by auto
    then show thesis using that [OF t fl] hn True bs by auto
  next
    case False
    let ?r = "p + (n - m)"
    let ?h = "(set_size ?r m (set_size p (n - m) h))\<lparr>freep := prevp\<rparr>"
    let ?bs = "xs @ (p, n - m) # ys"
    have mn: "m < n" using m hn False by simp
    have t: "malloc_take m prevp p h = (?r + 1, ?h)" using False hn by (simp add: malloc_take_def Let_def)
    have rn: "?r \<in> {p..<p + n}" using mn m by simp
    then have rx: "?r \<notin> units (xs @ ys)" using spaced_disjoint [OF sp] by blast
    have sz': "hsize ?h a = k" if ak: "(a, k) \<in> set ?bs" for a k
    proof (cases "(a, k) \<in> set (xs @ ys)")
      case True
      then have "(a, k) \<in> set bs" using bs by auto
      then have hk: "hsize h a = k" "0 < k" using bspec [OF sz, of "(a, k)"] spaced_lower [OF sp, of a k] bs by auto
      then have "a \<in> units (xs @ ys)" using True unfolding units_def by (intro UN_I [of "(a, k)"]) simp_all
      moreover have "p \<in> {p..<p + n}" using mn by simp
      ultimately have "a \<noteq> ?r" "a \<noteq> p" using rx spaced_disjoint [OF sp] by blast+
      then show ?thesis using hk by simp
    next
      case False
      then have "a = p" "k = n - m" using ak by auto
      then show ?thesis using mn by auto
    qed
    have bne: "hbase h \<noteq> ?r" "hbase h \<noteq> p" using spaced_lower [OF sp, of p n] by auto
    have "spaced (hbase h) ?bs (hbrk h)" using spaced_shorten [OF sp, of "n - m"] mn by simp
    moreover have "prevp \<in> set (hbase h # map fst ?bs)" using prevx by auto
    ultimately have fl: "flist ?h ?bs" unfolding flist_def using sz' pa bz bne mn by auto
    have un: "units ?bs = units bs - {?r..<?r + m}" using units_shorten [OF sp, of m] mn bs by auto
    moreover have "{?r..<?r + m} \<subseteq> units bs" using mn bs by auto
    moreover have "\<forall>x. x \<notin> units bs \<longrightarrow> hsize ?h x = hsize h x" using rn mn bs by auto
    ultimately show thesis using that [OF t fl] bs by simp
  qed
qed

text \<open>The walk of \<^verbatim>\<open>malloc\<close>: it passes the nodes that are too small until it comes back to \<^verbatim>\<open>freep\<close>.\<close>

lemma malloc_walk:
  "\<forall>i < k. hsize h ((hptr h ^^ i) p) < m \<and> (hptr h ^^ i) p \<noteq> freep h \<Longrightarrow> hptr h prevp = p \<Longrightarrow>
   malloc_loop (k + j) fuel sbrk m prevp p h = malloc_loop j fuel sbrk m ((hptr h ^^ k) prevp) ((hptr h ^^ k) p) h"
proof (induction k arbitrary: prevp p)
  case (Suc k)
  have "hsize h p < m" "p \<noteq> freep h" using Suc.prems(1) by force+
  moreover have "hsize h ((hptr h ^^ i) (hptr h p)) < m \<and> (hptr h ^^ i) (hptr h p) \<noteq> freep h" if "i < k" for i
    using Suc.prems(1) that by (metis Suc_less_eq funpow_simps_right(2) o_apply)
  ultimately show ?case using Suc.IH [of "hptr h p" p] Suc.prems(2) by (simp add: funpow_swap1)
qed simp

lemma malloc_search:
  assumes f: "flist h bs" and m: "0 < m"
  obtains (fits) k prevp p where "k < 2 * (length bs + 1)" "prevp \<in> set (hbase h # map fst bs)" "hptr h prevp = p"
      "p \<in> set (map fst bs)" "m \<le> hsize h p"
      "\<And>j fuel sbrk. malloc_loop (k + Suc j) fuel sbrk m (freep h) (hptr h (freep h)) h = Some (malloc_take m prevp p h)"
  | (full) k where "k < 2 * (length bs + 1)" "\<forall>(a, n) \<in> set bs. n < m"
      "\<And>j fuel sbrk. malloc_loop (k + Suc j) fuel sbrk m (freep h) (hptr h (freep h)) h =
        (case morecore fuel sbrk m h of
           None \<Rightarrow> None
         | Some (q, h') \<Rightarrow> if q = 0 then Some (0, h') else malloc_loop j fuel sbrk m q (hptr h' q) h')"
proof -
  let ?f = "hptr h" and ?w = "freep h" and ?P = "\<lambda>v. m \<le> hsize h v \<or> v = freep h"
  have pa: "lpath ?f (hbase h) (map fst bs) (hbase h)" and w: "?w \<in> set (hbase h # map fst bs)"
    and sz: "\<forall>(a, n) \<in> set bs. hsize h a = n" and bz: "hsize h (hbase h) = 0"
    using f by (simp_all add: flist_def)
  have fw: "?f ?w \<in> set (hbase h # map fst bs)" by (rule circle_closed [OF pa w])
  obtain k where k: "k < 2 * length (hbase h # map fst bs)" "?P ((?f ^^ k) (?f ?w))"
    "\<And>i. i < k \<Longrightarrow> \<not> ?P ((?f ^^ i) (?f ?w))"
    using circle_first [OF pa fw w, of ?P] by blast
  let ?p = "(?f ^^ k) (?f ?w)" and ?pp = "(?f ^^ k) ?w"
  have step: "?f ?pp = ?p" by (simp add: funpow_swap1)
  have walk: "malloc_loop (k + j) fuel sbrk m ?w (?f ?w) h = malloc_loop j fuel sbrk m ?pp ?p h" for j fuel sbrk
    using k(3) by (intro malloc_walk) (auto simp: not_le)
  have k': "k < 2 * (length bs + 1)" using k(1) by simp
  show thesis
  proof (cases "m \<le> hsize h ?p")
    case True
    have "?p \<in> set (hbase h # map fst bs)" using circle_funpow [OF pa fw] .
    then have pin: "?p \<in> set (map fst bs)" using True bz m by (cases "?p = hbase h") auto
    have "malloc_loop (k + Suc j) fuel sbrk m ?w (?f ?w) h = Some (malloc_take m ?pp ?p h)" for j fuel sbrk
      unfolding walk using True by simp
    then show thesis by (rule fits [OF k' circle_funpow [OF pa w] step pin True])
  next
    case False
    then have pw: "?p = ?w" using k(2) by blast
    then have rnd: "(?f ^^ Suc k) ?w = ?w" by (simp add: funpow_swap1)
    have small: "hsize h v < m" if v: "v \<in> set (hbase h # map fst bs)" for v
    proof -
      obtain j where j: "j \<le> k" "(?f ^^ Suc j) ?w = v" using circle_round [OF pa w rnd v] by blast
      then have "(?f ^^ j) (?f ?w) = v" by (simp add: funpow_swap1)
      then show ?thesis using j(1) k(3) [of j] False by (cases "j = k") auto
    qed
    have "n < m" if "(a, n) \<in> set bs" for a n
      using small [of a] bspec [OF sz that] that by force
    then have "\<forall>(a, n) \<in> set bs. n < m" by auto
    moreover have "malloc_loop (k + Suc j) fuel sbrk m ?w (?f ?w) h =
      (case morecore fuel sbrk m h of
         None \<Rightarrow> None
       | Some (q, h') \<Rightarrow> if q = 0 then Some (0, h') else malloc_loop j fuel sbrk m q (hptr h' q) h')" for j fuel sbrk
      unfolding walk using False pw by simp
    ultimately show thesis by (rule full [OF k'])
  qed
qed

subsection \<open>More memory\<close>

text \<open>
  What the allocator relies on: asked for a non-negative number of bytes, \<^verbatim>\<open>sbrk\<close> answers with the old break and
  moves the break up by that much, or fails and leaves it. The break stays below \<open>2 ^ 36\<close> bytes, far more
  than the 128 megabytes of the machine, whose pages \<^verbatim>\<open>sbrk\<close> allocates at once.
\<close>

definition sbrk_ok :: "sbrk_call \<Rightarrow> bool" where
  "sbrk_ok sbrk \<longleftrightarrow> (\<forall>n k. 0 \<le> n \<longrightarrow> sbrk n k = (None, k) \<or>
     sbrk n k = (Some k, k + nat n div 16) \<and> k + nat n div 16 < 2 ^ 32)"

definition more_units :: "nat \<Rightarrow> nat" where
  "more_units m = (if m < 4096 then 4096 else m)"

lemma sbrk_arg_small: "n < 2 ^ 31 \<Longrightarrow> sbrk_arg n = int n"
  unfolding sbrk_arg_def by (simp add: sint_uint unsigned_of_nat signed_take_bit_int_eq_self take_bit_nat_eq_self)

lemma more_units: "m \<le> more_units m" "0 < more_units m"
  by (simp_all add: more_units_def)

lemma morecore_ok:
  assumes f: "flist h bs" and s: "sbrk_ok sbrk" and m: "m * 16 < 2 ^ 31" and fuel: "2 * (length bs + 1) \<le> fuel"
  obtains (fails) "morecore fuel sbrk m h = Some (0, h)"
  | (grown) h' bs' where "morecore fuel sbrk m h = Some (freep h', h')" "flist h' bs'" "freep h' \<noteq> 0"
      "units bs' = units bs \<union> {hbrk h..<hbrk h'}" "length bs' \<le> Suc (length bs)" "hbase h' = hbase h"
      "hbrk h' = hbrk h + more_units m" "\<forall>x. x \<notin> units bs' \<longrightarrow> hsize h' x = hsize h x"
proof -
  let ?n = "more_units m"
  have "?n * 16 < 2 ^ 31" using m by (simp add: more_units_def)
  then have ti: "sbrk_arg (?n * 16) = int (?n * 16)" by (rule sbrk_arg_small)
  have "sbrk (int (?n * 16)) (hbrk h) = (None, hbrk h) \<or>
      sbrk (int (?n * 16)) (hbrk h) = (Some (hbrk h), hbrk h + nat (int (?n * 16)) div 16) \<and> hbrk h + nat (int (?n * 16)) div 16 < 2 ^ 32"
    using s unfolding sbrk_ok_def by (metis of_nat_0_le_iff)
  then consider "sbrk (sbrk_arg (?n * 16)) (hbrk h) = (None, hbrk h)"
    | "sbrk (sbrk_arg (?n * 16)) (hbrk h) = (Some (hbrk h), hbrk h + ?n)" "hbrk h + ?n < 2 ^ 32"
    unfolding ti by (auto simp del: of_nat_mult of_nat_add)
  then show thesis
  proof cases
    case 1
    then show thesis using fails by (simp add: morecore_def more_units_def [symmetric])
  next
    case 2
    let ?h = "set_size (hbrk h) ?n (h\<lparr>hbrk := hbrk h + ?n\<rparr>)"
    have sp: "spaced (hbase h) bs (hbrk h)" and pa: "lpath (hptr h) (hbase h) (map fst bs) (hbase h)"
      and sz: "\<forall>(a, n) \<in> set bs. hsize h a = n" and bz: "hsize h (hbase h) = 0" "0 < hbase h"
      and fp: "freep h \<in> set (hbase h # map fst bs)"
      and bk: "hbase h < hbrk h"
      using f by (simp_all add: flist_def)
    have below: "a < hbrk h" "hbase h < a" if "(a, n) \<in> set bs" for a n using spaced_lower [OF sp that] by simp_all
    have sz': "hsize ?h a = n" if an: "(a, n) \<in> set bs" for a n
      using bspec [OF sz an] below [OF an] by simp
    have "flist ?h bs"
      unfolding flist_def using spaced_grow [OF sp, of "hbrk h + ?n"] sz' pa bz fp bk 2(2) by auto
    moreover have "owned ?h bs (hbrk h) ?n"
      using spaced_units [OF sp] bk more_units(2) by (force simp: owned_def)
    ultimately obtain h' bs' where h': "free fuel (hbrk h + 1) ?h = Some h'" "flist h' bs'" "units bs' = units bs \<union> {hbrk h..<hbrk h + ?n}"
      "length bs' \<le> Suc (length bs)" "hbase h' = hbase ?h" "hbrk h' = hbrk ?h" "\<forall>x. x \<notin> units bs' \<longrightarrow> hsize h' x = hsize ?h x"
      using fuel by (rule free_ok)
    have mc: "morecore fuel sbrk m h = Some (freep h', h')"
      using 2(1) h'(1) by (simp add: morecore_def more_units_def [symmetric])
    have "freep h' \<noteq> 0" using h'(2) spaced_lower [of "hbase h'" bs' "hbrk h'"] by (fastforce simp: flist_def)
    moreover have "units bs' = units bs \<union> {hbrk h..<hbrk h'}" using h'(3,6) by simp
    moreover have "hsize h' x = hsize h x" if "x \<notin> units bs'" for x
    proof -
      have "x \<noteq> hbrk h" using that h'(3) more_units(2) [of m] by auto
      then show ?thesis using h'(7) that by simp
    qed
    ultimately show thesis using grown [OF mc h'(2)] h'(4-6) by simp
  qed
qed

text \<open>A block of the caller outlives what happens to other units.\<close>

lemma owned_frame:
  assumes "owned h bs q n" "hbase h' = hbase h" "hbrk h \<le> hbrk h'" "units bs' \<subseteq> units bs \<union> X" "{q..<q + n} \<inter> X = {}"
    "\<forall>x. x \<noteq> hbase h \<longrightarrow> x \<notin> units bs \<union> X \<longrightarrow> hsize h' x = hsize h x"
  shows "owned h' bs' q n"
proof -
  have "q \<in> {q..<q + n}" "q \<noteq> hbase h" using assms(1) by (auto simp: owned_def)
  moreover from this have "q \<notin> units bs \<union> X" using assms(1,5) unfolding owned_def by blast
  ultimately show ?thesis using assms by (auto simp: owned_def)
qed

definition heap_ok :: "heap \<Rightarrow> blocks \<Rightarrow> bool" where
  "heap_ok h bs \<longleftrightarrow> (if freep h = 0 then bs = [] \<and> 0 < hbase h \<and> hbase h < hbrk h \<and> hbrk h < 2 ^ 32 else flist h bs)"

text \<open>What \<^verbatim>\<open>malloc\<close> promises when it answers \<open>r\<close> to a request of \<open>m\<close> units.\<close>

definition malloc_post :: "heap \<Rightarrow> blocks \<Rightarrow> nat \<Rightarrow> nat \<Rightarrow> heap \<Rightarrow> blocks \<Rightarrow> bool" where
  "malloc_post h bs m r h' bs' \<longleftrightarrow> flist h' bs' \<and> hbase h' = hbase h \<and>
     (if r = 0 then hbrk h' = hbrk h \<and> units bs' = units bs
      else hbrk h \<le> hbrk h' \<and> {r - 1..<r - 1 + m} \<subseteq> units bs \<union> {hbrk h..<hbrk h'} \<and>
        units bs' = units bs \<union> {hbrk h..<hbrk h'} - {r - 1..<r - 1 + m} \<and> owned h' bs' (r - 1) m) \<and>
     (\<forall>x. x \<noteq> hbase h \<longrightarrow> x \<notin> units bs \<union> {hbrk h..<hbrk h'} \<longrightarrow> hsize h' x = hsize h x)"

lemma take_post:
  assumes f: "flist h1 bs1" and h1: "hbase h1 = hbase h" "hbrk h \<le> hbrk h1" "units bs1 = units bs \<union> {hbrk h..<hbrk h1}"
      "\<forall>x. x \<noteq> hbase h \<longrightarrow> x \<notin> units bs1 \<longrightarrow> hsize h1 x = hsize h x"
    and prev: "prevp \<in> set (hbase h1 # map fst bs1)" "hptr h1 prevp = p" "p \<in> set (map fst bs1)" and m: "0 < m" "m \<le> hsize h1 p"
  obtains r h' bs' where "malloc_take m prevp p h1 = (r, h')" "r \<noteq> 0" "malloc_post h bs m r h' bs'" "length bs' \<le> length bs1"
proof -
  obtain r h' bs' where t: "malloc_take m prevp p h1 = (r + 1, h')" and fl: "flist h' bs'" "units bs' = units bs1 - {r..<r + m}"
    "{r..<r + m} \<subseteq> units bs1" "hsize h' r = m" "length bs' \<le> length bs1" "hbase h' = hbase h1" "hbrk h' = hbrk h1"
    "\<forall>x. x \<notin> units bs1 \<longrightarrow> hsize h' x = hsize h1 x"
    by (rule malloc_take_ok [OF f prev m])
  have "r + m - 1 \<in> units bs1" "r \<in> units bs1" using fl(3) m(1) by auto
  then have "hbase h < r" "r + m \<le> hbrk h1" using spaced_units [of "hbase h1" bs1 "hbrk h1"] f h1(1) m(1) by (fastforce simp: flist_def)+
  then have "owned h' bs' r m" using fl m h1(1) by (auto simp: owned_def)
  then have "malloc_post h bs m (r + 1) h' bs'" using fl h1 by (simp add: malloc_post_def)
  then show thesis using that [OF t] fl(5) by simp
qed

lemma malloc_loop_ok:
  assumes f: "flist h bs" and s: "sbrk_ok sbrk" and m: "0 < m" "m * 16 < 2 ^ 31" and fuel: "4 * (length bs + 2) \<le> fuel"
  shows "\<exists>r h' bs'. malloc_loop fuel fuel sbrk m (freep h) (hptr h (freep h)) h = Some (r, h') \<and> malloc_post h bs m r h' bs' \<and>
    length bs' \<le> Suc (length bs) \<and> (hbrk h' \<noteq> hbrk h \<or> r = 0 \<longrightarrow> (\<forall>(a, n) \<in> set bs. n < m))"
  using f m(1)
proof (cases rule: malloc_search)
  case (fits k prevp p)
  obtain r h' bs' where t: "malloc_take m prevp p h = (r, h')" "r \<noteq> 0" "malloc_post h bs m r h' bs'" "length bs' \<le> length bs"
    by (rule take_post [OF f _ _ _ _ fits(2-4) m(1) fits(5), of h bs]) simp_all
  have "fuel = k + Suc (fuel - Suc k)" using fits(1) fuel by simp
  then have "malloc_loop fuel fuel sbrk m (freep h) (hptr h (freep h)) h = Some (r, h')"
    using fits(6) [of "fuel - Suc k" fuel sbrk] t(1) by simp
  moreover have "hbrk h' = hbrk h" using malloc_take_def
    t(1) by (auto simp: malloc_take_def Let_def split: if_splits)
  ultimately show ?thesis using t by (intro exI [of _ r] exI [of _ h'] exI [of _ bs']) simp
next
  case (full k)
  have fk: "fuel = k + Suc (fuel - Suc k)" using full(1) fuel by simp
  have "2 * (length bs + 1) \<le> fuel" using fuel by simp
  with f s m(2) show ?thesis
  proof (cases rule: morecore_ok)
    case fails
    have "malloc_loop fuel fuel sbrk m (freep h) (hptr h (freep h)) h = Some (0, h)"
      using full(3) [of "fuel - Suc k" fuel sbrk] fk fails by simp
    then show ?thesis using full(2) f by (intro exI [of _ 0] exI [of _ h] exI [of _ bs]) (simp add: malloc_post_def)
  next
    case (grown h1 bs1)
    let ?j = "fuel - Suc k"
    have go: "malloc_loop fuel fuel sbrk m (freep h) (hptr h (freep h)) h = malloc_loop ?j fuel sbrk m (freep h1) (hptr h1 (freep h1)) h1"
      using full(3) [of ?j fuel sbrk] fk grown by simp
    have sp1: "spaced (hbase h1) bs1 (hbrk h1)" and sz1: "\<forall>(a, n) \<in> set bs1. hsize h1 a = n"
      using grown(2) by (simp_all add: flist_def)
    have "{hbrk h..<hbrk h + more_units m} \<subseteq> units bs1" using grown(4,7) by simp
    then have "\<exists>(a, l) \<in> set bs1. a \<le> hbrk h \<and> hbrk h + more_units m \<le> a + l"
      by (rule spaced_covers [OF sp1 _ more_units(2)])
    then obtain a l where al: "(a, l) \<in> set bs1" "m \<le> l" using more_units(1) [of m] by fastforce
    from grown(2) m(1) show ?thesis
    proof (cases rule: malloc_search)
      case (fits k1 prevp p)
      obtain r h' bs' where t: "malloc_take m prevp p h1 = (r, h')" "r \<noteq> 0" "malloc_post h bs m r h' bs'" "length bs' \<le> length bs1"
        by (rule take_post [OF grown(2) grown(6) _ grown(4) _ fits(2-4) m(1) fits(5)]) (use grown in simp_all)
      have "?j = k1 + Suc (?j - Suc k1)" using fits(1) full(1) fuel grown(5) by simp
      then have "malloc_loop ?j fuel sbrk m (freep h1) (hptr h1 (freep h1)) h1 = Some (r, h')"
        using fits(6) [of "?j - Suc k1" fuel sbrk] t(1) by simp
      then show ?thesis using t go full(2) grown(5) by (intro exI [of _ r] exI [of _ h'] exI [of _ bs']) simp
    next
      case (full k1)
      then show ?thesis using bspec [OF full(2) al(1)] al(2) by simp
    qed
  qed
qed

lemma units_for_small: "nbytes + 32 \<le> 2 ^ 31 \<Longrightarrow> units_for nbytes * 16 < 2 ^ 31" "nbytes \<le> (units_for nbytes - 1) * 16" "0 < units_for nbytes"
  unfolding units_for_def by (presburger, presburger, simp)

lemma malloc_ok:
  assumes h: "heap_ok h bs" and s: "sbrk_ok sbrk" and n: "nbytes + 32 \<le> 2 ^ 31" and fuel: "4 * (length bs + 2) \<le> fuel"
  obtains r h' bs' where "malloc fuel sbrk nbytes h = Some (r, h')" "malloc_post h bs (units_for nbytes) r h' bs'"
    "length bs' \<le> Suc (length bs)" "hbrk h' \<noteq> hbrk h \<or> r = 0 \<longrightarrow> (\<forall>(a, n) \<in> set bs. n < units_for nbytes)"
proof -
  define h0 where "h0 = (if freep h = 0 then set_size (hbase h) 0 (set_ptr (hbase h) (hbase h) (h\<lparr>freep := hbase h\<rparr>)) else h)"
  have f0: "flist h0 bs" using h by (auto simp: h0_def heap_ok_def flist_def)
  have fr: "hbase h0 = hbase h" "hbrk h0 = hbrk h" "\<forall>x. x \<noteq> hbase h \<longrightarrow> hsize h0 x = hsize h x" by (simp_all add: h0_def)
  have m: "malloc fuel sbrk nbytes h = malloc_loop fuel fuel sbrk (units_for nbytes) (freep h0) (hptr h0 (freep h0)) h0"
    by (simp add: malloc_def h0_def Let_def)
  obtain r h' bs' where r: "malloc fuel sbrk nbytes h = Some (r, h')" "malloc_post h0 bs (units_for nbytes) r h' bs'"
    "length bs' \<le> Suc (length bs)" "hbrk h' \<noteq> hbrk h0 \<or> r = 0 \<longrightarrow> (\<forall>(a, n) \<in> set bs. n < units_for nbytes)"
    using malloc_loop_ok [OF f0 s units_for_small(3) units_for_small(1) [OF n] fuel] unfolding m by blast
  have "malloc_post h bs (units_for nbytes) r h' bs'"
    using r(2) fr(3) unfolding malloc_post_def fr(1,2) by (elim conjE, intro conjI) (assumption+, simp)
  then show thesis using that [OF r(1)] r(3,4) fr by simp
qed

lemma post_keeps_owned:
  assumes p: "malloc_post h bs m r h' bs'" and o: "owned h bs q n"
  shows "owned h' bs' q n \<and> (r \<noteq> 0 \<longrightarrow> {q..<q + n} \<inter> {r - 1..<r - 1 + m} = {})"
proof -
  have q: "{q..<q + n} \<inter> (units bs \<union> {hbrk h..<hbrk h'}) = {}" using o by (auto simp: owned_def)
  have q': "{q..<q + n} \<inter> {hbrk h..<hbrk h'} = {}" using q by blast
  have "owned h' bs' q n"
    using o by (rule owned_frame [where X = "{hbrk h..<hbrk h'}", OF _ _ _ _ q']) (use p in \<open>auto simp: malloc_post_def split: if_splits\<close>)
  moreover have "r \<noteq> 0 \<Longrightarrow> {r - 1..<r - 1 + m} \<subseteq> units bs \<union> {hbrk h..<hbrk h'}" using p by (simp add: malloc_post_def)
  ultimately show ?thesis using q by blast
qed

subsection \<open>The theorems\<close>

text \<open>
  C30. \<^verbatim>\<open>free\<close> puts a block of the caller back: it returns, the free list is again in address order with no two
  blocks adjacent (neighbours have been joined), the free units are the old ones and exactly the units of the
  block, and every other block of the caller is left alone.
\<close>

theorem free_correct:
  assumes "flist h bs" "owned h bs bp n" "2 * (length bs + 1) \<le> fuel"
  shows "\<exists>h' bs'. free fuel (bp + 1) h = Some h' \<and> flist h' bs' \<and> units bs' = units bs \<union> {bp..<bp + n} \<and>
    (\<forall>q k. owned h bs q k \<and> {q..<q + k} \<inter> {bp..<bp + n} = {} \<longrightarrow> owned h' bs' q k)"
proof -
  obtain h' bs' where f: "free fuel (bp + 1) h = Some h'" "flist h' bs'" "units bs' = units bs \<union> {bp..<bp + n}"
    "length bs' \<le> Suc (length bs)" "hbase h' = hbase h" "hbrk h' = hbrk h" "\<forall>x. x \<notin> units bs' \<longrightarrow> hsize h' x = hsize h x"
    by (rule free_ok [OF assms])
  have "owned h' bs' q k" if "owned h bs q k" "{q..<q + k} \<inter> {bp..<bp + n} = {}" for q k
    using that(1) by (rule owned_frame [where X = "{bp..<bp + n}"]) (use f that(2) in auto)
  then show ?thesis using f by blast
qed

text \<open>
  C29. \<^verbatim>\<open>malloc\<close> returns, for any request below two gigabytes: either 0, when no free block is large enough and \<^verbatim>\<open>sbrk\<close>
  fails, or a block that is large enough for the bytes asked for, made of units that were free or fresh from
  \<^verbatim>\<open>sbrk\<close> and are no longer free; it overlaps no block the program holds, and those stay as they were. \<^verbatim>\<open>sbrk\<close>
  is asked only when no free block is large enough.
\<close>

theorem malloc_correct:
  assumes "heap_ok h bs" "sbrk_ok sbrk" "nbytes + 32 \<le> 2 ^ 31" "4 * (length bs + 2) \<le> fuel"
  shows "\<exists>r h' bs'. malloc fuel sbrk nbytes h = Some (r, h') \<and> malloc_post h bs (units_for nbytes) r h' bs' \<and>
    nbytes \<le> (units_for nbytes - 1) * 16 \<and>
    (hbrk h' \<noteq> hbrk h \<or> r = 0 \<longrightarrow> (\<forall>(a, n) \<in> set bs. n < units_for nbytes)) \<and>
    (\<forall>q n. owned h bs q n \<longrightarrow> owned h' bs' q n \<and> (r \<noteq> 0 \<longrightarrow> {q..<q + n} \<inter> {r - 1..<r - 1 + units_for nbytes} = {}))"
proof -
  obtain r h' bs' where r: "malloc fuel sbrk nbytes h = Some (r, h')" "malloc_post h bs (units_for nbytes) r h' bs'"
    "length bs' \<le> Suc (length bs)" "hbrk h' \<noteq> hbrk h \<or> r = 0 \<longrightarrow> (\<forall>(a, n) \<in> set bs. n < units_for nbytes)"
    by (rule malloc_ok [OF assms])
  then show ?thesis using post_keeps_owned [OF r(2)] units_for_small(2) by (intro exI [of _ r] exI [of _ h'] exI [of _ bs']) simp
qed

text \<open>
  Freed memory is used again: after \<^verbatim>\<open>malloc\<close> and \<^verbatim>\<open>free\<close> of a block, a request of at most that size is served from
  the free list, without a call of \<^verbatim>\<open>sbrk\<close>.
\<close>

theorem malloc_reuses_freed:
  assumes "heap_ok h bs" "sbrk_ok sbrk" "nbytes + 32 \<le> 2 ^ 31" "4 * (length bs + 4) \<le> fuel"
    and "malloc fuel sbrk nbytes h = Some (r, h1)" "r \<noteq> 0" "k \<le> nbytes"
  shows "\<exists>h2 r2 h3. free fuel r h1 = Some h2 \<and> malloc fuel sbrk k h2 = Some (r2, h3) \<and> r2 \<noteq> 0 \<and> hbrk h3 = hbrk h1"
proof -
  have "4 * (length bs + 2) \<le> fuel" using assms(4) by simp
  then obtain bs1 where r: "malloc_post h bs (units_for nbytes) r h1 bs1" "length bs1 \<le> Suc (length bs)"
    using malloc_ok [OF assms(1-3), of fuel thesis] assms(5) by auto
  then have f1: "flist h1 bs1" and o1: "owned h1 bs1 (r - 1) (units_for nbytes)" using assms(6) by (simp_all add: malloc_post_def)
  have "2 * (length bs1 + 1) \<le> fuel" using assms(4) r(2) by simp
  then obtain h2 bs2 where f2: "free fuel (r - 1 + 1) h1 = Some h2" "flist h2 bs2" "units bs2 = units bs1 \<union> {r - 1..<r - 1 + units_for nbytes}"
    "length bs2 \<le> Suc (length bs1)" "hbrk h2 = hbrk h1" using free_ok [OF f1 o1] by metis
  have sp2: "spaced (hbase h2) bs2 (hbrk h2)" using f2(2) by (simp add: flist_def)
  have "{r - 1..<r - 1 + units_for nbytes} \<subseteq> units bs2" using f2(3) by blast
  then have "\<exists>(a, l) \<in> set bs2. a \<le> r - 1 \<and> r - 1 + units_for nbytes \<le> a + l"
    by (rule spaced_covers [OF sp2 _ units_for_small(3)])
  then obtain a l where al: "(a, l) \<in> set bs2" "a \<le> r - 1" "r - 1 + units_for nbytes \<le> a + l" by blast
  have lu: "units_for nbytes \<le> l" using al(2,3) by linarith
  have kn: "units_for k \<le> units_for nbytes" unfolding units_for_def by (simp add: assms(7) div_le_mono)
  have "freep h2 \<noteq> 0" using f2(2) spaced_lower [OF sp2] by (fastforce simp: flist_def)
  then have hk: "heap_ok h2 bs2" using f2(2) by (simp add: heap_ok_def)
  have kk: "k + 32 \<le> 2 ^ 31" using assms(3,7) by linarith
  have "4 * (length bs2 + 2) \<le> fuel" using assms(4) r(2) f2(4) by simp
  then obtain r2 h3 bs3 where m3: "malloc fuel sbrk k h2 = Some (r2, h3)"
    "hbrk h3 \<noteq> hbrk h2 \<or> r2 = 0 \<longrightarrow> (\<forall>(a, n) \<in> set bs2. n < units_for k)"
    by (rule malloc_ok [OF hk assms(2) kk])
  then have "r2 \<noteq> 0" "hbrk h3 = hbrk h1" using al(1) lu kn f2(5) by fastforce+
  then show ?thesis using f2(1) m3(1) assms(6) by simp
qed

subsection \<open>A concrete heap\<close>

text \<open>A heap before its first use, and a \<^verbatim>\<open>sbrk\<close> with room for 100000 units.\<close>

definition demo_heap :: heap where
  "demo_heap = \<lparr>hptr = (\<lambda>_. 0), hsize = (\<lambda>_. 0), hbase = 1, freep = 0, hbrk = 2\<rparr>"

definition demo_sbrk :: sbrk_call where
  "demo_sbrk n k = (if n < 0 then (Some k, k - nat (- n) div 16)
     else if k + nat n div 16 < 100000 then (Some k, k + nat n div 16) else (None, k))"

lemma demo_sbrk_ok: "sbrk_ok demo_sbrk"
  by (auto simp: sbrk_ok_def demo_sbrk_def)

text \<open>After the first request of 100 bytes the list has one block, of 4088 of the 4096 units that \<^verbatim>\<open>sbrk\<close> gave.\<close>

definition demo_heap1 :: heap where
  "demo_heap1 = \<lparr>hptr = (\<lambda>_. 0)(1 := 2, 2 := 1), hsize = (\<lambda>_. 0)(2 := 4088, 4090 := 8), hbase = 1, freep = 1, hbrk = 4098\<rparr>"

lemmas run_numeral = malloc_loop.simps(2) [of "pred_numeral v" for v, folded numeral_eq_Suc]
  free_find.simps(2) [of "pred_numeral v" for v, folded numeral_eq_Suc]

lemma demo_malloc:
  "map_option (\<lambda>(r, h). (r, map (hptr h) [1, 2], map (hsize h) [1, 2, 4090], freep h, hbrk h)) (malloc 20 demo_sbrk 100 demo_heap) =
   Some (4091, map (hptr demo_heap1) [1, 2], map (hsize demo_heap1) [1, 2, 4090], freep demo_heap1, hbrk demo_heap1)"
  by (simp add: malloc_def units_for_def demo_heap_def demo_heap1_def demo_sbrk_def run_numeral morecore_def sbrk_arg_small
    free_def free_stop_def free_link_def malloc_take_def Let_def uadd_def)

lemma demo_malloc_some: "\<exists>h'. malloc 20 demo_sbrk 100 demo_heap = Some (4091, h')"
  using demo_malloc by auto

lemma demo_list: "flist demo_heap1 [(2, 4088)]" "owned demo_heap1 [(2, 4088)] 4090 8" "heap_ok demo_heap []"
  by (simp_all add: flist_def owned_def heap_ok_def demo_heap1_def demo_heap_def)

theorem free_correct_witness:
  "flist demo_heap1 [(2, 4088)] \<and> owned demo_heap1 [(2, 4088)] 4090 8 \<and>
   (\<exists>h' bs'. free 4 (4090 + 1) demo_heap1 = Some h' \<and> flist h' bs' \<and> units bs' = units [(2, 4088)] \<union> {4090..<4090 + 8})"
  using free_correct [OF demo_list(1,2), of 4] demo_list by auto

theorem malloc_correct_witness:
  "heap_ok demo_heap [] \<and> sbrk_ok demo_sbrk \<and>
   (\<exists>h' bs'. malloc 20 demo_sbrk 100 demo_heap = Some (4091, h') \<and> malloc_post demo_heap [] (units_for 100) 4091 h' bs')"
  using malloc_correct [OF demo_list(3) demo_sbrk_ok, of 100 20] demo_list(3) demo_sbrk_ok demo_malloc_some by auto

theorem malloc_reuses_freed_witness:
  "\<exists>h1 h2 r2 h3. malloc 20 demo_sbrk 100 demo_heap = Some (4091, h1) \<and> free 20 4091 h1 = Some h2 \<and>
     malloc 20 demo_sbrk 50 h2 = Some (r2, h3) \<and> r2 \<noteq> 0 \<and> hbrk h3 = hbrk h1"
proof -
  obtain h1 where h1: "malloc 20 demo_sbrk 100 demo_heap = Some (4091, h1)" using demo_malloc_some by blast
  then show ?thesis using malloc_reuses_freed [OF demo_list(3) demo_sbrk_ok _ _ h1, of 50] by simp
qed

text \<open>
  A request of nearly two gigabytes or more becomes a negative argument of \<^verbatim>\<open>sbrk\<close>, whose success does not mean memory.
\<close>

lemma malloc_huge_negative: "2 ^ 31 \<le> nbytes + 16 \<Longrightarrow> nbytes + 32 < 2 ^ 32 \<Longrightarrow> sbrk_arg (more_units (units_for nbytes) * 16) < 0"
proof -
  assume n: "2 ^ 31 \<le> nbytes + 16" "nbytes + 32 < 2 ^ 32"
  define k where "k = units_for nbytes * 16"
  have k: "2 ^ 31 \<le> k" "k < 2 ^ 32" "more_units (units_for nbytes) = units_for nbytes"
    using n unfolding k_def units_for_def more_units_def by auto
  have "int k div 2147483648 = 1" "take_bit 32 (int k) = int k" using k(1,2) by (auto intro: take_bit_int_eq_self)
  then have "sbrk_arg k = int k - 2 ^ 32"
    using k(1,2) by (simp add: sbrk_arg_def signed_of_nat signed_take_bit_eq_take_bit_minus take_bit_nat_eq_self bit_iff_odd)
  then show ?thesis using k unfolding k_def by simp
qed

end
