(* ===== verification/Xsh.thy ===== *)
theory Xsh
  imports Ulib "HOL-Library.Sublist"
begin

text \<open>
  The shell of xv6, \<^verbatim>\<open>user/sh.c\<close>: the tokens and the recursive-descent parser, the step that ends the words
  in place (\<^verbatim>\<open>nulterminate\<close>), the interpreter \<^verbatim>\<open>runcmd\<close> as a program of system calls, and the treatment of one
  input line in \<^verbatim>\<open>main\<close>.

  A pointer into the line is the text from it to the terminating NUL, so \<^verbatim>\<open>s == es\<close> is the empty text and
  the distance of two pointers is the difference of their lengths. The line contains no NUL. \<^verbatim>\<open>panic\<close> ends the
  process: \<open>PPanic\<close>. The parser has fuel; \<open>PLoop\<close> means that the fuel ran out. The nodes that \<^verbatim>\<open>malloc\<close> gives
  are values; \<^verbatim>\<open>parseexec\<close> fills in its node after \<^verbatim>\<open>parseredirs\<close> may have wrapped it, so here the wrappers
  are collected and put around the finished node.
\<close>

subsection \<open>Commands\<close>

definition MAXARGS :: nat where
  "MAXARGS = 10"

type_synonym ptr = string

datatype 'w cmd =
    EXEC "'w list"
  | REDIR "'w cmd" 'w int int
  | PIPE "'w cmd" "'w cmd"
  | LIST "'w cmd" "'w cmd"
  | BACK "'w cmd"

text \<open>In the parser a word is the pair of pointers to its first character and behind its last one.\<close>

type_synonym word_ptrs = "ptr \<times> ptr"

datatype 'a pres = POk 'a | PPanic string | PLoop

fun pbind :: "'a pres \<Rightarrow> ('a \<Rightarrow> 'b pres) \<Rightarrow> 'b pres" where
  "pbind (POk a) f = f a"
| "pbind (PPanic m) f = PPanic m"
| "pbind PLoop f = PLoop"

subsection \<open>Tokens\<close>

definition whitespace :: string where
  "whitespace = [CHR '' '', CHR 0x09, CHR 0x0D, CHR 0x0A, CHR 0x0B]"

definition symbols :: string where
  "symbols = ''<|>&;()''"

primrec skip :: "ptr \<Rightarrow> ptr" where
  "skip [] = []"
| "skip (c # s) = (if c \<in> set whitespace then skip s else c # s)"

primrec word_end :: "ptr \<Rightarrow> ptr" where
  "word_end [] = []"
| "word_end (c # s) = (if c \<notin> set whitespace \<and> c \<notin> set symbols then word_end s else c # s)"

text \<open>The token, the pointers to its beginning and its end, and the new position. At the end the token is 0.\<close>

definition gettoken :: "ptr \<Rightarrow> char \<times> ptr \<times> ptr \<times> ptr" where
  "gettoken s =
     (let q = skip s;
          (ret, eq) = (case q of
              [] \<Rightarrow> (CHR 0x00, q)
            | c # t \<Rightarrow>
                if c \<in> set ''|();&<'' then (c, t)
                else if c = CHR ''>''
                then (case t of d # t' \<Rightarrow> if d = CHR ''>'' then (CHR ''+'', t') else (c, t) | [] \<Rightarrow> (c, t))
                else (CHR ''a'', word_end q))
      in (ret, q, eq, skip eq))"

definition peek :: "ptr \<Rightarrow> string \<Rightarrow> bool \<times> ptr" where
  "peek s toks = (let s = skip s in (s \<noteq> [] \<and> hd s \<in> set toks, s))"

subsection \<open>The parser\<close>

definition O_RDONLY :: int where "O_RDONLY = 0"
definition O_WRONLY :: int where "O_WRONLY = 1"
definition O_RDWR :: int where "O_RDWR = 2"
definition O_CREATE :: int where "O_CREATE = 512"
definition O_TRUNC :: int where "O_TRUNC = 1024"

type_synonym redir = "word_ptrs \<times> int \<times> int"

definition wrap :: "('w \<times> int \<times> int) list \<Rightarrow> 'w cmd \<Rightarrow> 'w cmd" where
  "wrap rs c = foldl (\<lambda>c (w, mode, fd). REDIR c w mode fd) c rs"

definition redir_of :: "char \<Rightarrow> 'w \<Rightarrow> ('w \<times> int \<times> int) list" where
  "redir_of tok w =
     (if tok = CHR ''<'' then [(w, O_RDONLY, 0)]
      else if tok = CHR ''>'' then [(w, O_WRONLY + O_CREATE + O_TRUNC, 1)]
      else if tok = CHR ''+'' then [(w, O_WRONLY + O_CREATE, 1)] else [])"

primrec parseredirs :: "nat \<Rightarrow> ptr \<Rightarrow> (redir list \<times> ptr) pres" where
  "parseredirs 0 s = PLoop"
| "parseredirs (Suc n) s =
     (let (more, s) = peek s ''<>'' in
      if \<not> more then POk ([], s)
      else let (tok, _, _, s) = gettoken s; (tok', q, eq, s) = gettoken s in
        if tok' \<noteq> CHR ''a'' then PPanic ''missing file for redirection''
        else pbind (parseredirs n s) (\<lambda>(rs, s). POk (redir_of tok (q, eq) @ rs, s)))"

text \<open>The loop of \<^verbatim>\<open>parseexec\<close>: the words and the redirections so far are in \<open>argv\<close> and \<open>rs\<close>.\<close>

primrec exec_loop :: "nat \<Rightarrow> word_ptrs list \<Rightarrow> redir list \<Rightarrow> ptr \<Rightarrow> (word_ptrs cmd \<times> ptr) pres" where
  "exec_loop 0 argv rs s = PLoop"
| "exec_loop (Suc n) argv rs s =
     (let (stop, s) = peek s ''|)&;'' in
      if stop then POk (wrap rs (EXEC argv), s)
      else let (tok, q, eq, s) = gettoken s in
        if tok = CHR 0x00 then POk (wrap rs (EXEC argv), s)
        else if tok \<noteq> CHR ''a'' then PPanic ''syntax''
        else let argv = argv @ [(q, eq)] in
          if MAXARGS \<le> length argv then PPanic ''too many args''
          else pbind (parseredirs (Suc n) s) (\<lambda>(rs', s). exec_loop n argv (rs @ rs') s))"

primrec backs :: "nat \<Rightarrow> word_ptrs cmd \<Rightarrow> ptr \<Rightarrow> (word_ptrs cmd \<times> ptr) pres" where
  "backs 0 c s = PLoop"
| "backs (Suc n) c s =
     (let (more, s) = peek s ''&'' in
      if more then let (_, _, _, s) = gettoken s in backs n (BACK c) s else POk (c, s))"

fun parseline :: "nat \<Rightarrow> ptr \<Rightarrow> (word_ptrs cmd \<times> ptr) pres"
  and parsepipe :: "nat \<Rightarrow> ptr \<Rightarrow> (word_ptrs cmd \<times> ptr) pres"
  and parseexec :: "nat \<Rightarrow> ptr \<Rightarrow> (word_ptrs cmd \<times> ptr) pres"
  and parseblock :: "nat \<Rightarrow> ptr \<Rightarrow> (word_ptrs cmd \<times> ptr) pres" where
  "parseline 0 s = PLoop"
| "parseline (Suc n) s =
     pbind (parsepipe n s) (\<lambda>(c, s).
     pbind (backs (Suc n) c s) (\<lambda>(c, s).
     let (more, s) = peek s '';'' in
     if more then let (_, _, _, s) = gettoken s in pbind (parseline n s) (\<lambda>(d, s). POk (LIST c d, s))
     else POk (c, s)))"
| "parsepipe 0 s = PLoop"
| "parsepipe (Suc n) s =
     pbind (parseexec n s) (\<lambda>(c, s).
     let (more, s) = peek s ''|'' in
     if more then let (_, _, _, s) = gettoken s in pbind (parsepipe n s) (\<lambda>(d, s). POk (PIPE c d, s))
     else POk (c, s))"
| "parseexec 0 s = PLoop"
| "parseexec (Suc n) s =
     (let (block, s) = peek s ''('' in
      if block then parseblock n s
      else pbind (parseredirs (Suc n) s) (\<lambda>(rs, s). exec_loop (Suc n) [] rs s))"
| "parseblock 0 s = PLoop"
| "parseblock (Suc n) s =
     (let (ok, s) = peek s ''('' in
      if \<not> ok then PPanic ''parseblock''
      else let (_, _, _, s) = gettoken s in
        pbind (parseline n s) (\<lambda>(c, s).
        let (ok, s) = peek s '')'' in
        if \<not> ok then PPanic ''syntax - missing )''
        else let (_, _, _, s) = gettoken s in
          pbind (parseredirs (Suc n) s) (\<lambda>(rs, s). POk (wrap rs c, s))))"

text \<open>
  \<^verbatim>\<open>nulterminate\<close> stores a NUL behind every word, in the buffer of the line; \<open>offs\<close> is the place of a pointer in it.
\<close>

definition offs :: "string \<Rightarrow> ptr \<Rightarrow> nat" where
  "offs line p = length line - length p"

definition store_nul :: "string \<Rightarrow> ptr \<Rightarrow> string \<Rightarrow> string" where
  "store_nul line p b = b[offs line p := CHR 0x00]"

primrec nulterminate :: "string \<Rightarrow> word_ptrs cmd \<Rightarrow> string \<Rightarrow> string" where
  "nulterminate line (EXEC argv) b = fold (\<lambda>w. store_nul line (snd w)) argv b"
| "nulterminate line (REDIR c w mode fd) b = store_nul line (snd w) (nulterminate line c b)"
| "nulterminate line (PIPE l r) b = nulterminate line r (nulterminate line l b)"
| "nulterminate line (LIST l r) b = nulterminate line r (nulterminate line l b)"
| "nulterminate line (BACK c) b = nulterminate line c b"

definition c_string :: "string \<Rightarrow> nat \<Rightarrow> string" where
  "c_string b i = takeWhile (\<lambda>c. c \<noteq> CHR 0x00) (drop i b)"

definition parse_fuel :: "string \<Rightarrow> nat" where
  "parse_fuel line = 4 * length line + 4"

text \<open>The result is the command with its words as the C strings they have become in the buffer.\<close>

definition parsecmd :: "string \<Rightarrow> string cmd pres" where
  "parsecmd line =
     pbind (parseline (parse_fuel line) line) (\<lambda>(c, s).
     let (_, s) = peek s [] in
     if s \<noteq> [] then PPanic (''leftovers: '' @ s @ [CHR 0x0A] @ ''syntax'')
     else let b = nulterminate line c (line @ [CHR 0x00])
          in POk (map_cmd (\<lambda>(q, eq). c_string b (offs line q)) c))"

subsection \<open>Running a command\<close>

text \<open>
  A process as the sequence of its system calls: what it does next, as a function of what the call returns.
  \<^verbatim>\<open>exec\<close> returns only if it fails; \<^verbatim>\<open>close\<close>, \<^verbatim>\<open>dup\<close> and \<^verbatim>\<open>wait\<close> are used without their results.
\<close>

datatype prog =
    SExit int
  | SExec string "string list" prog
  | SOpen string int "int \<Rightarrow> prog"
  | SClose int prog
  | SDup int prog
  | SPipe "(int \<times> int) option \<Rightarrow> prog"
  | SFork "int \<Rightarrow> prog"
  | SWait prog
  | SMessage string prog

definition panic :: "string \<Rightarrow> prog" where
  "panic m = SMessage (m @ [CHR 0x0A]) (SExit 1)"

definition fork1 :: "(int \<Rightarrow> prog) \<Rightarrow> prog" where
  "fork1 k = SFork (\<lambda>pid. if pid = - 1 then panic ''fork'' else k pid)"

primrec runcmd :: "string cmd \<Rightarrow> prog" where
  "runcmd (EXEC argv) =
     (case argv of
        [] \<Rightarrow> SExit 1
      | a # _ \<Rightarrow> SExec a argv (SMessage (''exec '' @ a @ '' failed'' @ [CHR 0x0A]) (SExit 0)))"
| "runcmd (REDIR c f mode fd) =
     SClose fd (SOpen f mode (\<lambda>r.
       if r < 0 then SMessage (''open '' @ f @ '' failed'' @ [CHR 0x0A]) (SExit 1) else runcmd c))"
| "runcmd (LIST l r) = fork1 (\<lambda>pid. if pid = 0 then runcmd l else SWait (runcmd r))"
| "runcmd (PIPE l r) =
     SPipe (\<lambda>p. case p of
        None \<Rightarrow> panic ''pipe''
      | Some (p0, p1) \<Rightarrow>
          fork1 (\<lambda>pid.
            if pid = 0 then SClose 1 (SDup p1 (SClose p0 (SClose p1 (runcmd l))))
            else fork1 (\<lambda>pid.
              if pid = 0 then SClose 0 (SDup p0 (SClose p0 (SClose p1 (runcmd r))))
              else SClose p0 (SClose p1 (SWait (SWait (SExit 0)))))))"
| "runcmd (BACK c) = fork1 (\<lambda>pid. if pid = 0 then runcmd c else SExit 0)"

subsection \<open>A line of input\<close>

text \<open>
  What \<^verbatim>\<open>main\<close> does with a line that \<^verbatim>\<open>getcmd\<close> has read: nothing, \<^verbatim>\<open>chdir\<close> in the shell itself, or a child that
  parses and runs it. The end of the input ends the loop.
\<close>

datatype line_action = Blank | Chdir string | RunChild string

primrec skip_blanks :: "ptr \<Rightarrow> ptr" where
  "skip_blanks [] = []"
| "skip_blanks (c # s) = (if c = CHR '' '' \<or> c = CHR 0x09 then skip_blanks s else c # s)"

definition main_line :: "string \<Rightarrow> line_action" where
  "main_line buf =
     (let cmd = skip_blanks buf in
        if cmd \<noteq> [] \<and> hd cmd = CHR 0x0A then Blank
        else if take 3 cmd = ''cd '' then Chdir (drop 3 (butlast cmd))
        else RunChild cmd)"

definition child :: "string \<Rightarrow> prog" where
  "child cmd = (case parsecmd cmd of POk c \<Rightarrow> runcmd c | PPanic m \<Rightarrow> panic m | PLoop \<Rightarrow> SExit 1)"

text \<open>
  \<^verbatim>\<open>getcmd\<close> with the 100 bytes of \<^verbatim>\<open>buf\<close>, from the bytes of the standard input. The session: one action per
  line that is read, until a read gives an empty string.
\<close>

definition text_of :: "u8 list \<Rightarrow> string" where
  "text_of bs = map (\<lambda>b. char_of (unat b)) (takeWhile (\<lambda>c. c \<noteq> 0) bs)"

definition getcmd :: "u8 list \<Rightarrow> string \<times> u8 list" where
  "getcmd inp = (case gets 100 inp of (buf, rest) \<Rightarrow> (text_of buf, rest))"

function main_loop :: "u8 list \<Rightarrow> line_action list" where
  "main_loop inp =
     (case getcmd inp of (buf, rest) \<Rightarrow> if buf = [] then [] else main_line buf # main_loop rest)"
  by pat_completeness auto
termination
proof (relation "measure length"; (simp; fail)?)
  fix inp buf rest assume g: "(buf, rest) = getcmd inp" "buf \<noteq> []"
  obtain b where b: "gets_loop 0 100 inp = (b, rest)" "text_of (b @ [0]) = buf"
    using g(1) by (auto simp: getcmd_def gets_def split: prod.splits)
  then have "b \<noteq> []" using g(2) by (auto simp: text_of_def)
  then show "(rest, inp) \<in> measure length" using gets_loop_ok [OF b(1)] by auto
qed

declare main_loop.simps [simp del]

text \<open>The loop at the start of \<^verbatim>\<open>main\<close>, with fuel, and what follows it as \<open>k\<close>.\<close>

primrec open_console :: "nat \<Rightarrow> prog \<Rightarrow> prog" where
  "open_console 0 k = k"
| "open_console (Suc n) k =
     SOpen ''console'' O_RDWR (\<lambda>fd. if fd < 0 then k else if 3 \<le> fd then SClose fd k else open_console n k)"

subsection \<open>The parser ends\<close>

lemma skip_length: "length (skip s) \<le> length s"
  by (induction s) auto

lemma skip_skip [simp]: "skip (skip s) = skip s"
  by (induction s) auto

lemma skip_hd: "skip s \<noteq> [] \<Longrightarrow> hd (skip s) \<notin> set whitespace"
  by (induction s) auto

lemma word_end_length: "length (word_end s) \<le> length s"
  by (induction s) auto

lemma gettoken_cases:
  assumes "gettoken s = (t, q, eq, s')"
  obtains (eof) "skip s = []" "t = CHR 0x00" "q = []" "eq = []" "s' = []"
  | (sym) r where "skip s = t # r" "t \<in> set ''|();&<>''" "s' = skip r" "t = CHR ''>'' \<Longrightarrow> r = [] \<or> hd r \<noteq> CHR ''>''"
  | (app) r where "skip s = CHR ''>'' # CHR ''>'' # r" "t = CHR ''+''" "s' = skip r"
  | (word) c r where "skip s = c # r" "c \<notin> set whitespace" "c \<notin> set symbols" "t = CHR ''a''" "q = c # r" "eq = word_end r" "s' = skip eq"
proof (cases "skip s")
  case Nil
  then show thesis using assms eof by (simp add: gettoken_def)
next
  case (Cons c r)
  have ws: "c \<notin> set whitespace" using skip_hd [of s] Cons by simp
  consider "c \<in> set ''|();&<''" | "c = CHR ''>''" | "c \<notin> set symbols" by (auto simp: symbols_def)
  then show thesis
  proof cases
    case 1
    then show thesis using assms Cons sym [of r] by (simp add: gettoken_def) auto
  next
    case 2
    show thesis
    proof (cases "r \<noteq> [] \<and> hd r = CHR ''>''")
      case True
      then obtain r' where "r = CHR ''>'' # r'" by (cases r) auto
      then show thesis using assms Cons 2 app [of r'] by (auto simp: gettoken_def)
    next
      case False
      then show thesis using assms Cons 2 sym [of r] by (cases r) (auto simp: gettoken_def simp del: skip.simps)
    qed
  next
    case 3
    then have "c \<notin> set ''|();&<''" "c \<noteq> CHR ''>''" by (auto simp: symbols_def)
    then have "gettoken s = (CHR ''a'', c # r, word_end (c # r), skip (word_end (c # r)))"
      unfolding gettoken_def Cons Let_def by (simp del: word_end.simps)
    moreover have "word_end (c # r) = word_end r" using 3 ws by simp
    ultimately have "t = CHR ''a''" "q = c # r" "eq = word_end r" "s' = skip eq" using assms by auto
    then show thesis by (rule word [OF Cons ws 3])
  qed
qed

lemma gettoken_shorter:
  assumes "gettoken s = (t, q, eq, s')"
  shows "length s' \<le> length s" "t \<noteq> CHR 0x00 \<Longrightarrow> length s' < length s"
proof -
  have l: "length (skip s) \<le> length s" "\<And>r. length (skip r) \<le> length r" by (rule skip_length)+
  have "length s' \<le> length s \<and> (t \<noteq> CHR 0x00 \<longrightarrow> length s' < length s)" using assms
  proof (cases rule: gettoken_cases)
    case (sym r)
    then show ?thesis using l(1) l(2) [of r] by simp
  next
    case (app r)
    then show ?thesis using l(1) l(2) [of r] by simp
  next
    case (word c r)
    then show ?thesis using l(1) l(2) [of "word_end r"] word_end_length [of r] by simp
  qed simp
  then show "length s' \<le> length s" "t \<noteq> CHR 0x00 \<Longrightarrow> length s' < length s" by auto
qed

lemma peek_eq: "peek s toks = (b, s') \<longleftrightarrow> s' = skip s \<and> b = (s' \<noteq> [] \<and> hd s' \<in> set toks)"
  by (auto simp: peek_def Let_def)

text \<open>\<open>shrinks\<close>: the parser does not run out of fuel, and the position it returns is not before the one it began at.\<close>

definition shrinks :: "('a \<times> ptr) pres \<Rightarrow> nat \<Rightarrow> bool" where
  "shrinks r k \<longleftrightarrow> (case r of POk (_, s') \<Rightarrow> length s' \<le> k | PPanic _ \<Rightarrow> True | PLoop \<Rightarrow> False)"

lemma shrinks_simps [simp]: "shrinks (POk (c, s')) k \<longleftrightarrow> length s' \<le> k" "shrinks (PPanic m) k" "\<not> shrinks PLoop k"
  by (simp_all add: shrinks_def)

lemma shrinks_bind:
  assumes "shrinks r k" "\<And>c s'. length s' \<le> k \<Longrightarrow> shrinks (f (c, s')) j"
  shows "shrinks (pbind r f) j"
proof (cases r)
  case (POk p)
  then show ?thesis using assms by (cases p) simp
qed (use assms in auto)

lemma shrinks_mono: "shrinks r k \<Longrightarrow> k \<le> j \<Longrightarrow> shrinks r j"
  by (cases r) auto

lemma gettoken_peeked:
  assumes "s = skip s" "s \<noteq> []" "gettoken s = (t, q, eq, s')"
  shows "length s' < length s"
  using assms(3)
proof (cases rule: gettoken_cases)
  case eof
  then show ?thesis using assms by simp
qed (use gettoken_shorter(2) [OF assms(3)] in auto)

lemma parseredirs_shrinks: "length s < n \<Longrightarrow> shrinks (parseredirs n s) (length s)"
proof (induction n arbitrary: s)
  case (Suc n)
  obtain b s1 where p: "peek s ''<>'' = (b, s1)" by fastforce
  obtain t q eq s2 where g: "gettoken s1 = (t, q, eq, s2)" by (metis prod_cases4)
  obtain t' q' eq' s3 where g': "gettoken s2 = (t', q', eq', s3)" by (metis prod_cases4)
  have s1: "s1 = skip s" and b: "b \<longleftrightarrow> s1 \<noteq> [] \<and> hd s1 \<in> set ''<>''" using p by (auto simp: peek_eq)
  have l1: "length s1 \<le> length s" using skip_length s1 by simp
  show ?case
  proof (cases b)
    case True
    have "length s2 < length s1" using gettoken_peeked [OF _ _ g] s1 b True by simp
    then have l3: "length s3 < length s" using gettoken_shorter(1) [OF g'] l1 by simp
    then have "shrinks (parseredirs n s3) (length s3)" using Suc by simp
    then show ?thesis using p g g' True l3 by (auto intro!: shrinks_bind [of _ "length s3"])
  next
    case False
    then show ?thesis using p l1 by simp
  qed
qed simp

lemma exec_loop_shrinks: "length s < n \<Longrightarrow> shrinks (exec_loop n argv rs s) (length s)"
proof (induction n arbitrary: s argv rs)
  case (Suc n)
  obtain b s1 where p: "peek s ''|)&;'' = (b, s1)" by fastforce
  obtain t q eq s2 where g: "gettoken s1 = (t, q, eq, s2)" by (metis prod_cases4)
  have l1: "length s1 \<le> length s" using skip_length p by (simp add: peek_eq)
  have l2: "length s2 \<le> length s1" "t \<noteq> CHR 0x00 \<Longrightarrow> length s2 < length s1" using gettoken_shorter [OF g] by auto
  show ?case
  proof (cases "b \<or> t \<noteq> CHR ''a''")
    case False
    then have l: "length s2 < length s" using l1 l2 by simp
    have "shrinks (parseredirs (Suc n) s2) (length s2)" using l Suc.prems by (intro parseredirs_shrinks) simp
    then have "shrinks (pbind (parseredirs (Suc n) s2) (\<lambda>(rs', s). exec_loop n (argv @ [(q, eq)]) (rs @ rs') s)) (length s)"
      using Suc l by (intro shrinks_bind [of _ "length s2"]) (auto intro: shrinks_mono [OF Suc.IH])
    then show ?thesis using p g False by (auto simp: Let_def)
  qed (use p g l1 l2 in \<open>auto simp: Let_def\<close>)
qed simp

lemma backs_shrinks: "length s < n \<Longrightarrow> shrinks (backs n c s) (length s)"
proof (induction n arbitrary: s c)
  case (Suc n)
  obtain b s1 where p: "peek s ''&'' = (b, s1)" by fastforce
  obtain t q eq s2 where g: "gettoken s1 = (t, q, eq, s2)" by (metis prod_cases4)
  have s1: "s1 = skip s" and b: "b \<longleftrightarrow> s1 \<noteq> [] \<and> hd s1 \<in> set ''&''" using p by (auto simp: peek_eq)
  have l1: "length s1 \<le> length s" using skip_length s1 by simp
  show ?case
  proof (cases b)
    case True
    have "length s2 < length s1" using gettoken_peeked [OF _ _ g] s1 b True by simp
    then show ?thesis using p g True Suc l1 by (auto intro: shrinks_mono [OF Suc.IH])
  qed (use p l1 in simp)
qed simp

declare parseredirs.simps [simp del] exec_loop.simps [simp del] backs.simps [simp del]

text \<open>A symbol that \<^verbatim>\<open>peek\<close> has seen and \<^verbatim>\<open>gettoken\<close> takes.\<close>

lemma take_symbol:
  assumes "peek s toks = (b, s1)" "gettoken s1 = (t, q, eq, s2)"
  shows "length s1 \<le> length s" "b \<Longrightarrow> length s2 < length s"
proof -
  have s1: "s1 = skip s" and b: "b \<longleftrightarrow> s1 \<noteq> [] \<and> hd s1 \<in> set toks" using assms(1) by (auto simp: peek_eq)
  show "length s1 \<le> length s" using skip_length s1 by simp
  then show "length s2 < length s" if b using gettoken_peeked [OF _ _ assms(2)] s1 b that by simp
qed

lemma parse_shrinks:
  "(4 * length s + 4 \<le> n \<longrightarrow> shrinks (parseline n s) (length s)) \<and>
   (4 * length s + 3 \<le> n \<longrightarrow> shrinks (parsepipe n s) (length s)) \<and>
   (4 * length s + 2 \<le> n \<longrightarrow> shrinks (parseexec n s) (length s)) \<and>
   (4 * length s + 1 \<le> n \<longrightarrow> shrinks (parseblock n s) (length s))"
proof (induction n arbitrary: s)
  case (Suc n)
  have line: "shrinks (parseline (Suc n) s) (length s)" if n: "4 * length s + 4 \<le> Suc n"
  proof -
    have tail: "shrinks (let (more, s) = peek s1 '';'' in
       if more then let (_, _, _, s) = gettoken s in pbind (parseline n s) (\<lambda>(d, s). POk (LIST c d, s)) else POk (c, s)) (length s)"
      if s1: "length s1 \<le> length s" for c s1
    proof -
      obtain b s2 where p: "peek s1 '';'' = (b, s2)" by fastforce
      obtain t q eq s3 where g: "gettoken s2 = (t, q, eq, s3)" by (metis prod_cases4)
      note l = take_symbol [OF p g]
      have "shrinks (pbind (parseline n s3) (\<lambda>(d, s). POk (LIST c d, s))) (length s)" if b
        using Suc.IH [of s3] l(2) [OF that] s1 n by (intro shrinks_bind [of _ "length s3"]) auto
      then show ?thesis using p g l(1) s1 by simp
    qed
    have "shrinks (backs (Suc n) c s1) (length s)" if "length s1 \<le> length s" for c s1
      using backs_shrinks [of s1 "Suc n" c] that n by (auto intro: shrinks_mono)
    then show ?thesis using Suc.IH [of s] n tail
      by (auto intro!: shrinks_bind [of "parsepipe n s" "length s"] shrinks_bind [of "backs (Suc n) c s1" "length s" for c s1])
  qed
  moreover have pipe: "shrinks (parsepipe (Suc n) s) (length s)" if n: "4 * length s + 3 \<le> Suc n"
  proof -
    have tail: "shrinks (let (more, s) = peek s1 ''|'' in
       if more then let (_, _, _, s) = gettoken s in pbind (parsepipe n s) (\<lambda>(d, s). POk (PIPE c d, s)) else POk (c, s)) (length s)"
      if s1: "length s1 \<le> length s" for c s1
    proof -
      obtain b s2 where p: "peek s1 ''|'' = (b, s2)" by fastforce
      obtain t q eq s3 where g: "gettoken s2 = (t, q, eq, s3)" by (metis prod_cases4)
      note l = take_symbol [OF p g]
      have "shrinks (pbind (parsepipe n s3) (\<lambda>(d, s). POk (PIPE c d, s))) (length s)" if b
        using Suc.IH [of s3] l(2) [OF that] s1 n by (intro shrinks_bind [of _ "length s3"]) auto
      then show ?thesis using p g l(1) s1 by simp
    qed
    then show ?thesis using Suc.IH [of s] n by (auto intro!: shrinks_bind [of "parseexec n s" "length s"])
  qed
  moreover have exec: "shrinks (parseexec (Suc n) s) (length s)" if n: "4 * length s + 2 \<le> Suc n"
  proof -
    obtain b s1 where p: "peek s ''('' = (b, s1)" by fastforce
    have l: "length s1 \<le> length s" using skip_length p by (simp add: peek_eq)
    have "shrinks (parseblock n s1) (length s)" using Suc.IH [of s1] l n by (auto intro: shrinks_mono)
    moreover have "shrinks (pbind (parseredirs (Suc n) s1) (\<lambda>(rs, s). exec_loop (Suc n) [] rs s)) (length s)"
      using parseredirs_shrinks [of s1 "Suc n"] l n
      by (intro shrinks_bind [of _ "length s1"]) (auto intro: shrinks_mono [OF exec_loop_shrinks])
    ultimately show ?thesis using p by simp
  qed
  moreover have block: "shrinks (parseblock (Suc n) s) (length s)" if n: "4 * length s + 1 \<le> Suc n"
  proof -
    obtain b s1 where p: "peek s ''('' = (b, s1)" by fastforce
    obtain t q eq s2 where g: "gettoken s1 = (t, q, eq, s2)" by (metis prod_cases4)
    note l = take_symbol [OF p g]
    have tail: "shrinks (let (ok, s) = peek s3 '')'' in
        if \<not> ok then PPanic ''syntax - missing )''
        else let (_, _, _, s) = gettoken s in pbind (parseredirs (Suc n) s) (\<lambda>(rs, s). POk (wrap rs c, s))) (length s)"
      if s3: "length s3 \<le> length s" for c s3
    proof -
      obtain b s4 where p: "peek s3 '')'' = (b, s4)" by fastforce
      obtain t q eq s5 where g: "gettoken s4 = (t, q, eq, s5)" by (metis prod_cases4)
      note l = take_symbol [OF p g]
      have "shrinks (pbind (parseredirs (Suc n) s5) (\<lambda>(rs, s). POk (wrap rs c, s))) (length s)" if b
        using parseredirs_shrinks [of s5 "Suc n"] l(2) [OF that] s3 n by (intro shrinks_bind [of _ "length s5"]) auto
      then show ?thesis using p g by simp
    qed
    show ?thesis
    proof (cases b)
      case True
      then show ?thesis using p g l(2) n Suc.IH [of s2] tail
        by (auto intro!: shrinks_bind [of "parseline n s2" "length s2"])
    qed (use p in simp)
  qed
  ultimately show ?case by blast
qed simp

subsection \<open>The line as a list of tokens\<close>

datatype tok = TWord string | TSym char

definition wtext :: "word_ptrs \<Rightarrow> string" where
  "wtext w = take (length (fst w) - length (snd w)) (fst w)"

function tokens :: "string \<Rightarrow> tok list" where
  "tokens s = (case gettoken s of (t, q, eq, s') \<Rightarrow>
     if t = CHR 0x00 then [] else (if t = CHR ''a'' then TWord (wtext (q, eq)) else TSym t) # tokens s')"
  by pat_completeness auto
termination
  by (relation "measure length") (auto simp: gettoken_shorter(2) split: prod.splits dest: sym)

declare tokens.simps [simp del]

lemma tokens_unfold:
  "gettoken s = (t, q, eq, s') \<Longrightarrow>
   tokens s = (if t = CHR 0x00 then [] else (if t = CHR ''a'' then TWord (wtext (q, eq)) else TSym t) # tokens s')"
  by (subst tokens.simps) simp

lemma gettoken_skip: "gettoken (skip s) = gettoken s"
  by (simp add: gettoken_def)

lemma tokens_skip [simp]: "tokens (skip s) = tokens s"
  by (subst (1 2) tokens.simps) (simp add: gettoken_skip)

text \<open>A character of a word, and the two pointers of a word in the text \<open>s\<close>.\<close>

definition plain :: "char \<Rightarrow> bool" where
  "plain c \<longleftrightarrow> c \<notin> set whitespace \<and> c \<notin> set symbols"

definition good :: "string \<Rightarrow> word_ptrs \<Rightarrow> bool" where
  "good s w \<longleftrightarrow> suffix (fst w) s \<and> (\<exists>x. x \<noteq> [] \<and> fst w = x @ snd w \<and> list_all plain x) \<and> (snd w = [] \<or> \<not> plain (hd (snd w)))"

lemma good_suffix: "good s w \<Longrightarrow> suffix s t \<Longrightarrow> good t w"
  by (auto simp: good_def intro: suffix_order.trans)

lemma skip_suffix: "suffix (skip s) s"
  by (induction s) (auto intro: suffix_ConsI)

lemma word_end_split: "\<exists>x. s = x @ word_end s \<and> list_all plain x \<and> (word_end s = [] \<or> \<not> plain (hd (word_end s)))"
proof (induction s)
  case (Cons c s)
  then obtain x where x: "s = x @ word_end s" "list_all plain x" "word_end s = [] \<or> \<not> plain (hd (word_end s))" by blast
  show ?case
  proof (cases "plain c")
    case True
    then have "word_end (c # s) = word_end s" by (simp add: plain_def)
    then show ?thesis using x True by (intro exI [of _ "c # x"]) (simp del: word_end.simps)
  next
    case False
    then show ?thesis by (intro exI [of _ "[]"]) (auto simp: plain_def)
  qed
qed simp

lemma gettoken_good:
  assumes "gettoken s = (t, q, eq, s')"
  shows "suffix s' s" "t = CHR ''a'' \<Longrightarrow> good s (q, eq)"
proof -
  have k: "suffix (skip s) s" "\<And>r. suffix (skip r) r" by (rule skip_suffix)+
  have "suffix s' s \<and> (t = CHR ''a'' \<longrightarrow> good s (q, eq))" using assms
  proof (cases rule: gettoken_cases)
    case (sym r)
    then show ?thesis using k(1) k(2) [of r] by (auto intro: suffix_order.trans suffix_ConsD)
  next
    case (app r)
    then have "suffix r s" using k(1) by (metis suffix_ConsD)
    then show ?thesis using app k(2) [of r] by (auto intro: suffix_order.trans)
  next
    case (word c r)
    obtain x where x: "r = x @ word_end r" "list_all plain x" "word_end r = [] \<or> \<not> plain (hd (word_end r))"
      using word_end_split by blast
    have "suffix (word_end r) r" using x(1) by (metis suffixI)
    then have "suffix s' s" using word k(1) k(2) [of "word_end r"] by (auto intro: suffix_order.trans suffix_ConsD)
    moreover have "good s (q, eq)" unfolding good_def using word x k(1)
      by (auto simp: plain_def intro!: exI [of _ "c # x"])
    ultimately show ?thesis by simp
  qed simp
  then show "suffix s' s" "t = CHR ''a'' \<Longrightarrow> good s (q, eq)" by auto
qed

definition starts :: "string \<Rightarrow> tok list \<Rightarrow> bool" where
  "starts C ts \<longleftrightarrow> (\<exists>c r. ts = TSym c # r \<and> c \<in> set C)"

lemma starts_simps [simp]: "\<not> starts C []" "\<not> starts C (TWord w # ts)" "starts C (TSym c # ts) \<longleftrightarrow> c \<in> set C"
  by (auto simp: starts_def)

lemma peek_starts:
  assumes "peek s toks = (b, s')" "set toks \<subseteq> set symbols"
  shows "tokens s' = tokens s" "suffix s' s" "b \<longleftrightarrow> starts (if CHR ''>'' \<in> set toks then CHR ''+'' # toks else toks) (tokens s)"
proof -
  have s': "s' = skip s" and b: "b \<longleftrightarrow> s' \<noteq> [] \<and> hd s' \<in> set toks" using assms(1) by (auto simp: peek_eq)
  show "tokens s' = tokens s" "suffix s' s" using s' skip_suffix by auto
  obtain t q eq u where g: "gettoken s = (t, q, eq, u)" by (metis prod_cases4)
  have sy: "CHR ''+'' \<notin> set toks" "CHR ''a'' \<notin> set toks" using assms(2) by (auto simp: symbols_def)
  from g show "b \<longleftrightarrow> starts (if CHR ''>'' \<in> set toks then CHR ''+'' # toks else toks) (tokens s)"
  proof (cases rule: gettoken_cases)
    case (sym r)
    then have "t \<noteq> CHR 0x00" "t \<noteq> CHR ''a''" "t \<noteq> CHR ''+''" by auto
    then show ?thesis using b s' sym tokens_unfold [OF g] by simp
  next
    case (word c r)
    then show ?thesis using b s' assms(2) tokens_unfold [OF g] by auto
  qed (use b s' tokens_unfold [OF g] sy in auto)
qed

subsection \<open>The grammar\<close>

text \<open>
  A line is a pipeline, any number of \<^verbatim>\<open>&\<close>, and possibly \<^verbatim>\<open>;\<close> and another line; a pipeline is made of
  simple commands (words and redirections, in any order) and blocks in parentheses with redirections behind.
\<close>

type_synonym redir_text = "char \<times> string"

datatype item = IWord string | IRedir redir_text

datatype gline = GLine gpipe nat "gline option"
  and gpipe = GPipe gatom "gpipe option"
  and gatom = GSimple "item list" | GBlock gline "redir_text list"

definition flat_redir :: "redir_text \<Rightarrow> tok list" where
  "flat_redir k = [TSym (fst k), TWord (snd k)]"

primrec flat_item :: "item \<Rightarrow> tok list" where
  "flat_item (IWord w) = [TWord w]"
| "flat_item (IRedir k) = flat_redir k"

fun flat_line :: "gline \<Rightarrow> tok list" and flat_pipe :: "gpipe \<Rightarrow> tok list" and flat_atom :: "gatom \<Rightarrow> tok list" where
  "flat_line (GLine p n None) = flat_pipe p @ replicate n (TSym (CHR ''&''))"
| "flat_line (GLine p n (Some l)) = flat_pipe p @ replicate n (TSym (CHR ''&'')) @ TSym (CHR '';'') # flat_line l"
| "flat_pipe (GPipe a None) = flat_atom a"
| "flat_pipe (GPipe a (Some p)) = flat_atom a @ TSym (CHR ''|'') # flat_pipe p"
| "flat_atom (GSimple is) = concat (map flat_item is)"
| "flat_atom (GBlock l ks) = TSym (CHR ''('') # flat_line l @ TSym (CHR '')'') # concat (map flat_redir ks)"

text \<open>The command a line means.\<close>

primrec words_of :: "item list \<Rightarrow> string list" where
  "words_of [] = []"
| "words_of (i # is) = (case i of IWord w \<Rightarrow> w # words_of is | IRedir _ \<Rightarrow> words_of is)"

primrec redirs_of :: "item list \<Rightarrow> redir_text list" where
  "redirs_of [] = []"
| "redirs_of (i # is) = (case i of IWord _ \<Rightarrow> redirs_of is | IRedir k \<Rightarrow> k # redirs_of is)"

definition redirs :: "redir_text list \<Rightarrow> (string \<times> int \<times> int) list" where
  "redirs ks = concat (map (\<lambda>(c, w). redir_of c w) ks)"

fun ast_line :: "gline \<Rightarrow> string cmd" and ast_pipe :: "gpipe \<Rightarrow> string cmd" and ast_atom :: "gatom \<Rightarrow> string cmd" where
  "ast_line (GLine p n None) = (BACK ^^ n) (ast_pipe p)"
| "ast_line (GLine p n (Some l)) = LIST ((BACK ^^ n) (ast_pipe p)) (ast_line l)"
| "ast_pipe (GPipe a None) = ast_atom a"
| "ast_pipe (GPipe a (Some p)) = PIPE (ast_atom a) (ast_pipe p)"
| "ast_atom (GSimple is) = wrap (redirs (redirs_of is)) (EXEC (words_of is))"
| "ast_atom (GBlock l ks) = wrap (redirs ks) (ast_line l)"

definition redir_ok :: "redir_text \<Rightarrow> bool" where
  "redir_ok k \<longleftrightarrow> fst k \<in> set ''<>+''"

fun wf_line :: "gline \<Rightarrow> bool" and wf_pipe :: "gpipe \<Rightarrow> bool" and wf_atom :: "gatom \<Rightarrow> bool" where
  "wf_line (GLine p n None) = wf_pipe p"
| "wf_line (GLine p n (Some l)) = (wf_pipe p \<and> wf_line l)"
| "wf_pipe (GPipe a None) = wf_atom a"
| "wf_pipe (GPipe a (Some p)) = (wf_atom a \<and> wf_pipe p)"
| "wf_atom (GSimple is) = (length (words_of is) < MAXARGS \<and> list_all redir_ok (redirs_of is))"
| "wf_atom (GBlock l ks) = (wf_line l \<and> list_all redir_ok ks)"

lemma items_append [simp]:
  "words_of (is @ js) = words_of is @ words_of js" "redirs_of (is @ js) = redirs_of is @ redirs_of js"
  by (induction "is") (auto split: item.splits)

lemma items_redirs [simp]:
  "words_of (map IRedir ks) = []" "redirs_of (map IRedir ks) = ks" "concat (map (flat_item \<circ> IRedir) ks) = concat (map flat_redir ks)"
  by (induction ks) auto

lemma redirs_simps [simp]:
  "redirs (ks @ ls) = redirs ks @ redirs ls" "redirs [] = []" "redirs ((c, w) # ks) = redir_of c w @ redirs ks"
  "flat_redir (c, w) = [TSym c, TWord w]" "redir_ok (c, w) \<longleftrightarrow> c \<in> set ''<>+''"
  by (simp_all add: redirs_def flat_redir_def redir_ok_def)

lemma wrap_map: "map_cmd f (wrap rs c) = wrap (map (apfst f) rs) (map_cmd f c)"
  unfolding wrap_def by (induction rs arbitrary: c) auto

lemma wrap_set: "set_cmd (wrap rs c) = set_cmd c \<union> fst ` set rs"
  unfolding wrap_def by (induction rs arbitrary: c) auto

subsection \<open>What the parser accepts is in the grammar\<close>

definition all_good :: "string \<Rightarrow> word_ptrs set \<Rightarrow> bool" where
  "all_good s W \<longleftrightarrow> (\<forall>w \<in> W. good s w)"

lemma all_good_simps [simp]: "all_good s {}" "all_good s (insert w W) \<longleftrightarrow> good s w \<and> all_good s W" "all_good s (V \<union> W) \<longleftrightarrow> all_good s V \<and> all_good s W"
  by (auto simp: all_good_def)

lemma all_good_suffix: "all_good s W \<Longrightarrow> suffix s t \<Longrightarrow> all_good t W"
  by (auto simp: all_good_def intro: good_suffix)

lemma redir_of_map: "map (apfst f) (redir_of c w) = redir_of c (f w)" "c \<in> set ''<>+'' \<Longrightarrow> fst ` set (redir_of c w) = {w}"
  by (auto simp: redir_of_def)

lemma parseredirs_sound:
  "parseredirs n s = POk (rs, s') \<Longrightarrow>
   \<exists>ks. tokens s = concat (map flat_redir ks) @ tokens s' \<and> map (apfst wtext) rs = redirs ks \<and> list_all redir_ok ks \<and>
     \<not> starts ''<>+'' (tokens s') \<and> suffix s' s \<and> all_good s (fst ` set rs)"
proof (induction n arbitrary: s rs s')
  case (Suc n)
  obtain b s1 where p: "peek s ''<>'' = (b, s1)" by fastforce
  obtain t q eq s2 where g: "gettoken s1 = (t, q, eq, s2)" by (metis prod_cases4)
  obtain t' q' eq' s3 where g': "gettoken s2 = (t', q', eq', s3)" by (metis prod_cases4)
  have k: "tokens s1 = tokens s" "suffix s1 s" "b \<longleftrightarrow> starts ''<>+'' (tokens s)"
    using peek_starts [OF p] by (auto simp: symbols_def starts_def)
  show ?case
  proof (cases b)
    case False
    then show ?thesis using Suc.prems p k by (intro exI [of _ "[]"]) (auto simp: parseredirs.simps)
  next
    case True
    have t: "tokens s = TSym t # tokens s2" "t \<in> set ''<>+''"
      using tokens_unfold [OF g] k True by (auto simp: starts_def split: if_splits)
    have a: "t' = CHR ''a''" using Suc.prems p g g' True by (auto simp: parseredirs.simps split: if_splits)
    then have t': "tokens s2 = TWord (wtext (q', eq')) # tokens s3" using tokens_unfold [OF g'] by simp
    obtain rs1 where r: "parseredirs n s3 = POk (rs1, s')" "rs = redir_of t (q', eq') @ rs1"
      using Suc.prems p g g' True a by (cases "parseredirs n s3") (auto simp: parseredirs.simps)
    obtain ks where ks: "tokens s3 = concat (map flat_redir ks) @ tokens s'" "map (apfst wtext) rs1 = redirs ks" "list_all redir_ok ks"
      "\<not> starts ''<>+'' (tokens s')" "suffix s' s3" "all_good s3 (fst ` set rs1)" using Suc.IH [OF r(1)] by blast
    have s2: "suffix s2 s" "suffix s3 s"
      using gettoken_good(1) [OF g] gettoken_good(1) [OF g'] k(2) by (auto intro: suffix_order.trans)
    have "good s (q', eq')" using gettoken_good(2) [OF g' a] s2(1) by (rule good_suffix)
    then have "all_good s (fst ` set rs)"
      using all_good_suffix [OF ks(6) s2(2)] redir_of_map(2) [OF t(2), of "(q', eq')"] by (simp add: r(2) image_Un)
    moreover have "suffix s' s" using ks(5) s2(2) by (rule suffix_order.trans)
    ultimately show ?thesis using ks t t' r(2)
      by (intro exI [of _ "(t, wtext (q', eq')) # ks"]) (simp add: redir_of_map(1) del: set_simps)
  qed
qed (simp add: parseredirs.simps)

text \<open>From \<open>s\<close> the parser has read the tokens \<open>ts\<close>, arrived at \<open>s'\<close> and built a command with the meaning \<open>a\<close>.\<close>

definition parsed :: "ptr \<Rightarrow> tok list \<Rightarrow> word_ptrs cmd \<Rightarrow> string cmd \<Rightarrow> ptr \<Rightarrow> bool" where
  "parsed s ts c a s' \<longleftrightarrow> tokens s = ts @ tokens s' \<and> map_cmd wtext c = a \<and> suffix s' s \<and> all_good s (set_cmd c)"

lemma exec_loop_sound:
  "exec_loop n argv rs s = POk (c, s') \<Longrightarrow> length argv < MAXARGS \<Longrightarrow>
   \<exists>its. tokens s = concat (map flat_item its) @ tokens s' \<and>
     map_cmd wtext c = wrap (map (apfst wtext) rs @ redirs (redirs_of its)) (EXEC (map wtext argv @ words_of its)) \<and>
     length argv + length (words_of its) < MAXARGS \<and> list_all redir_ok (redirs_of its) \<and> suffix s' s \<and>
     (\<forall>w \<in> set_cmd c. w \<in> set argv \<or> w \<in> fst ` set rs \<or> good s w)"
proof (induction n arbitrary: s argv rs)
  case (Suc n)
  obtain b s1 where p: "peek s ''|)&;'' = (b, s1)" by fastforce
  obtain t q eq s2 where g: "gettoken s1 = (t, q, eq, s2)" by (metis prod_cases4)
  have k: "tokens s1 = tokens s" "suffix s1 s" using peek_starts [OF p] by (auto simp: symbols_def)
  have s2: "suffix s2 s" using gettoken_good(1) [OF g] k(2) by (auto intro: suffix_order.trans)
  show ?case
  proof (cases "b \<or> t = CHR 0x00")
    case True
    have "t = CHR 0x00 \<Longrightarrow> tokens s2 = tokens s" using tokens_unfold [OF g] k g
      by (cases rule: gettoken_cases [OF g]) (auto simp: tokens.simps [of "[]"] gettoken_def)
    then have "c = wrap rs (EXEC argv)" "tokens s' = tokens s" "suffix s' s"
      using Suc.prems p g k s2 True by (auto simp: exec_loop.simps split: if_splits)
    then show ?thesis using Suc.prems(2) by (intro exI [of _ "[]"]) (auto simp: wrap_map wrap_set)
  next
    case False
    have a: "t = CHR ''a''" and m: "length (argv @ [(q, eq)]) < MAXARGS"
      using Suc.prems(1) p g False by (auto simp: exec_loop.simps Let_def not_le split: if_splits)
    obtain rs1 s3 where r: "parseredirs (Suc n) s2 = POk (rs1, s3)" "exec_loop n (argv @ [(q, eq)]) (rs @ rs1) s3 = POk (c, s')"
      using Suc.prems(1) p g False a m by (cases "parseredirs (Suc n) s2") (auto simp: exec_loop.simps Let_def split: if_splits)
    obtain ks where ks: "tokens s2 = concat (map flat_redir ks) @ tokens s3" "map (apfst wtext) rs1 = redirs ks" "list_all redir_ok ks"
      "suffix s3 s2" "all_good s2 (fst ` set rs1)" using parseredirs_sound [OF r(1)] by blast
    obtain its where its: "tokens s3 = concat (map flat_item its) @ tokens s'"
      "map_cmd wtext c = wrap (map (apfst wtext) (rs @ rs1) @ redirs (redirs_of its)) (EXEC (map wtext (argv @ [(q, eq)]) @ words_of its))"
      "length (argv @ [(q, eq)]) + length (words_of its) < MAXARGS" "list_all redir_ok (redirs_of its)" "suffix s' s3"
      "\<forall>w \<in> set_cmd c. w \<in> set (argv @ [(q, eq)]) \<or> w \<in> fst ` set (rs @ rs1) \<or> good s3 w"
      using Suc.IH [OF r(2) m] by blast
    have tk: "tokens s = TWord (wtext (q, eq)) # tokens s2" using tokens_unfold [OF g] k(1) a by simp
    have s3: "suffix s3 s" using ks(4) s2 by (rule suffix_order.trans)
    have "good s (q, eq)" using gettoken_good(2) [OF g a] k(2) by (rule good_suffix)
    moreover have "good s w" if "w \<in> fst ` set rs1" for w
      using all_good_suffix [OF ks(5) s2] that unfolding all_good_def by blast
    moreover have "good s w" if "good s3 w" for w using that s3 by (rule good_suffix)
    ultimately have gd: "\<forall>w \<in> set_cmd c. w \<in> set argv \<or> w \<in> fst ` set rs \<or> good s w" using its(6) by fastforce
    let ?its = "IWord (wtext (q, eq)) # map IRedir ks @ its"
    have "tokens s = concat (map flat_item ?its) @ tokens s'" using tk ks(1) its(1) by simp
    moreover have "map_cmd wtext c = wrap (map (apfst wtext) rs @ redirs (redirs_of ?its)) (EXEC (map wtext argv @ words_of ?its))"
      using its(2) ks(2) by simp
    moreover have "suffix s' s" using its(5) s3 by (rule suffix_order.trans)
    ultimately show ?thesis using its(3,4) ks(3) gd by (intro exI [of _ ?its]) simp
  qed
qed (simp add: exec_loop.simps)

lemma backs_sound:
  "backs n c s = POk (c', s') \<Longrightarrow>
   \<exists>k. tokens s = replicate k (TSym (CHR ''&'')) @ tokens s' \<and> c' = (BACK ^^ k) c \<and> suffix s' s \<and> \<not> starts ''&'' (tokens s')"
proof (induction n arbitrary: s c)
  case (Suc n)
  obtain b s1 where p: "peek s ''&'' = (b, s1)" by fastforce
  obtain t q eq s2 where g: "gettoken s1 = (t, q, eq, s2)" by (metis prod_cases4)
  have k: "tokens s1 = tokens s" "suffix s1 s" "b \<longleftrightarrow> starts ''&'' (tokens s)"
    using peek_starts [OF p] by (auto simp: symbols_def)
  show ?case
  proof (cases b)
    case False
    then show ?thesis using Suc.prems p k by (intro exI [of _ 0]) (auto simp: backs.simps)
  next
    case True
    have t: "tokens s = TSym (CHR ''&'') # tokens s2"
      using tokens_unfold [OF g] k True by (auto simp: starts_def split: if_splits)
    have "backs n (BACK c) s2 = POk (c', s')" using Suc.prems p g True by (simp add: backs.simps)
    then obtain j where j: "tokens s2 = replicate j (TSym (CHR ''&'')) @ tokens s'" "c' = (BACK ^^ j) (BACK c)" "suffix s' s2"
      "\<not> starts ''&'' (tokens s')" using Suc.IH by blast
    have "suffix s' s" using j(3) gettoken_good(1) [OF g] k(2) by (auto intro: suffix_order.trans)
    then show ?thesis using j t by (intro exI [of _ "Suc j"]) (simp add: funpow_swap1)
  qed
qed (simp add: backs.simps)

text \<open>A symbol that is tested with \<^verbatim>\<open>peek\<close> and then taken.\<close>

lemma symbol_taken:
  assumes "peek s [x] = (True, s1)" "gettoken s1 = (t, q, eq, s2)" "x \<in> set symbols" "x \<noteq> CHR ''>''"
  shows "tokens s = TSym x # tokens s2" "suffix s2 s"
proof -
  have k: "tokens s1 = tokens s" "suffix s1 s" "starts [x] (tokens s)" using peek_starts [OF assms(1)] assms(3,4) by auto
  show "tokens s = TSym x # tokens s2" using tokens_unfold [OF assms(2)] k by (auto simp: starts_def split: if_splits)
  show "suffix s2 s" using gettoken_good(1) [OF assms(2)] k(2) by (auto intro: suffix_order.trans)
qed

lemma pbind_POk: "pbind r f = POk y \<longleftrightarrow> (\<exists>x. r = POk x \<and> f x = POk y)"
  by (cases r) auto

lemma BACK_pow [simp]: "map_cmd f ((BACK ^^ k) c) = (BACK ^^ k) (map_cmd f c)" "set_cmd ((BACK ^^ k) c) = set_cmd c"
  by (induction k) auto

lemma parsed_seq:
  assumes "parsed s ts c a s1" "tokens s1 = us @ tokens s2" "suffix s2 s1" "parsed s2 vs d b s'"
  shows "tokens s = (ts @ us @ vs) @ tokens s'" "suffix s' s" "all_good s (set_cmd c \<union> set_cmd d)" "map_cmd wtext c = a" "map_cmd wtext d = b"
proof -
  have s2: "suffix s2 s" using assms by (auto simp: parsed_def intro: suffix_order.trans)
  then show "suffix s' s" using assms(4) by (auto simp: parsed_def intro: suffix_order.trans)
  have "all_good s2 (set_cmd d)" "all_good s (set_cmd c)" using assms by (auto simp: parsed_def)
  then show "all_good s (set_cmd c \<union> set_cmd d)" using all_good_suffix [OF _ s2] by simp
  show "tokens s = (ts @ us @ vs) @ tokens s'" "map_cmd wtext c = a" "map_cmd wtext d = b" using assms by (simp_all add: parsed_def)
qed

lemma parse_sound:
  "(parseline n s = POk (c, s') \<longrightarrow> (\<exists>l. wf_line l \<and> parsed s (flat_line l) c (ast_line l) s')) \<and>
   (parsepipe n s = POk (c, s') \<longrightarrow> (\<exists>p. wf_pipe p \<and> parsed s (flat_pipe p) c (ast_pipe p) s')) \<and>
   (parseexec n s = POk (c, s') \<longrightarrow> (\<exists>a. wf_atom a \<and> parsed s (flat_atom a) c (ast_atom a) s')) \<and>
   (parseblock n s = POk (c, s') \<longrightarrow> (\<exists>a. wf_atom a \<and> parsed s (flat_atom a) c (ast_atom a) s'))"
proof (induction n arbitrary: s c s')
  case (Suc n)
  have line: "\<exists>l. wf_line l \<and> parsed s (flat_line l) c (ast_line l) s'" if r: "parseline (Suc n) s = POk (c, s')"
  proof -
    obtain c1 s1 c2 s2 where p1: "parsepipe n s = POk (c1, s1)" and p2: "backs (Suc n) c1 s1 = POk (c2, s2)"
      and rest: "(let (more, s) = peek s2 '';'' in
         if more then let (_, _, _, s) = gettoken s in pbind (parseline n s) (\<lambda>(d, s). POk (LIST c2 d, s)) else POk (c2, s)) = POk (c, s')"
      using r by (auto simp: pbind_POk)
    obtain p where p: "wf_pipe p" "parsed s (flat_pipe p) c1 (ast_pipe p) s1" using Suc.IH [of s c1 s1] p1 by blast
    obtain k where k: "tokens s1 = replicate k (TSym (CHR ''&'')) @ tokens s2" "c2 = (BACK ^^ k) c1" "suffix s2 s1"
      using backs_sound [OF p2] by blast
    obtain b s3 where pk: "peek s2 '';'' = (b, s3)" by fastforce
    obtain t q eq s4 where g: "gettoken s3 = (t, q, eq, s4)" by (metis prod_cases4)
    show ?thesis
    proof (cases b)
      case True
      obtain d where d: "parseline n s4 = POk (d, s')" "c = LIST c2 d" using rest pk g True by (auto simp: pbind_POk)
      obtain l where l: "wf_line l" "parsed s4 (flat_line l) d (ast_line l) s'" using Suc.IH [of s4 d s'] d by blast
      have t: "tokens s2 = TSym (CHR '';'') # tokens s4" "suffix s4 s2"
        using symbol_taken [of s2 "CHR '';''" s3 t q eq s4] pk g True by (auto simp: symbols_def)
      have "tokens s1 = (replicate k (TSym (CHR ''&'')) @ [TSym (CHR '';'')]) @ tokens s4" "suffix s4 s1"
        using k t by (auto intro: suffix_order.trans)
      note q = parsed_seq [OF p(2) this l(2)]
      show ?thesis using p l q k(2) d(2) by (intro exI [of _ "GLine p k (Some l)"]) (simp add: parsed_def)
    next
      case False
      then have s': "c = c2" "s' = s3" "tokens s3 = tokens s2" "suffix s3 s2" using rest pk peek_starts [OF pk] by (auto simp: symbols_def)
      then have "suffix s' s" using k(3) p(2) by (auto simp: parsed_def intro: suffix_order.trans)
      then show ?thesis using p k s' by (intro exI [of _ "GLine p k None"]) (simp add: parsed_def)
    qed
  qed
  have pipe: "\<exists>p. wf_pipe p \<and> parsed s (flat_pipe p) c (ast_pipe p) s'" if r: "parsepipe (Suc n) s = POk (c, s')"
  proof -
    obtain c1 s1 where p1: "parseexec n s = POk (c1, s1)"
      and rest: "(let (more, s) = peek s1 ''|'' in
         if more then let (_, _, _, s) = gettoken s in pbind (parsepipe n s) (\<lambda>(d, s). POk (PIPE c1 d, s)) else POk (c1, s)) = POk (c, s')"
      using r by (auto simp: pbind_POk)
    obtain a where a: "wf_atom a" "parsed s (flat_atom a) c1 (ast_atom a) s1" using Suc.IH [of s c1 s1] p1 by blast
    obtain b s3 where pk: "peek s1 ''|'' = (b, s3)" by fastforce
    obtain t q eq s4 where g: "gettoken s3 = (t, q, eq, s4)" by (metis prod_cases4)
    show ?thesis
    proof (cases b)
      case True
      obtain d where d: "parsepipe n s4 = POk (d, s')" "c = PIPE c1 d" using rest pk g True by (auto simp: pbind_POk)
      obtain p where p: "wf_pipe p" "parsed s4 (flat_pipe p) d (ast_pipe p) s'" using Suc.IH [of s4 d s'] d by blast
      have "tokens s1 = [TSym (CHR ''|'')] @ tokens s4" "suffix s4 s1"
        using symbol_taken [of s1 "CHR ''|''" s3 t q eq s4] pk g True by (auto simp: symbols_def)
      note q = parsed_seq [OF a(2) this p(2)]
      show ?thesis using a p q d(2) by (intro exI [of _ "GPipe a (Some p)"]) (simp add: parsed_def)
    next
      case False
      then have s': "c = c1" "s' = s3" "tokens s3 = tokens s1" "suffix s3 s1" using rest pk peek_starts [OF pk] by (auto simp: symbols_def)
      then have "suffix s' s" using a(2) by (auto simp: parsed_def intro: suffix_order.trans)
      then show ?thesis using a s' by (intro exI [of _ "GPipe a None"]) (simp add: parsed_def)
    qed
  qed
  have block: "\<exists>a. wf_atom a \<and> parsed s (flat_atom a) c (ast_atom a) s'" if r: "parseblock (Suc n) s = POk (c, s')"
  proof -
    obtain b s1 where pk: "peek s ''('' = (b, s1)" by fastforce
    obtain t q eq s2 where g: "gettoken s1 = (t, q, eq, s2)" by (metis prod_cases4)
    have b: b using r pk by (auto split: if_splits)
    obtain c1 s3 where p1: "parseline n s2 = POk (c1, s3)"
      and rest: "(let (ok, s) = peek s3 '')'' in
        if \<not> ok then PPanic ''syntax - missing )''
        else let (_, _, _, s) = gettoken s in pbind (parseredirs (Suc n) s) (\<lambda>(rs, s). POk (wrap rs c1, s))) = POk (c, s')"
      using r pk g b by (auto simp: pbind_POk)
    obtain b' s4 where pk': "peek s3 '')'' = (b', s4)" by fastforce
    obtain t' q' eq' s5 where g': "gettoken s4 = (t', q', eq', s5)" by (metis prod_cases4)
    have b': b' using rest pk' by (auto split: if_splits)
    obtain rs where rs: "parseredirs (Suc n) s5 = POk (rs, s')" "c = wrap rs c1" using rest pk' g' b' by (auto simp: pbind_POk)
    obtain l where l: "wf_line l" "parsed s2 (flat_line l) c1 (ast_line l) s3" using Suc.IH [of s2 c1 s3] p1 by blast
    obtain ks where ks: "tokens s5 = concat (map flat_redir ks) @ tokens s'" "map (apfst wtext) rs = redirs ks" "list_all redir_ok ks"
      "suffix s' s5" "all_good s5 (fst ` set rs)" using parseredirs_sound [OF rs(1)] by blast
    have o: "tokens s = TSym (CHR ''('') # tokens s2" "suffix s2 s"
      using symbol_taken [of s "CHR ''(''" s1 t q eq s2] pk g b by (auto simp: symbols_def)
    have e: "tokens s3 = TSym (CHR '')'') # tokens s5" "suffix s5 s3"
      using symbol_taken [of s3 "CHR '')''" s4 t' q' eq' s5] pk' g' b' by (auto simp: symbols_def)
    have "suffix s5 s" using o(2) l(2) e(2) by (auto simp: parsed_def intro: suffix_order.trans)
    then have "suffix s' s" "all_good s (fst ` set rs)" using ks(4,5) by (auto intro: suffix_order.trans all_good_suffix)
    moreover have "all_good s (set_cmd c1)" using l(2) o(2) by (auto simp: parsed_def intro: all_good_suffix)
    ultimately show ?thesis using o e l ks rs(2)
      by (intro exI [of _ "GBlock l ks"]) (simp add: parsed_def wrap_map wrap_set)
  qed
  have exec: "\<exists>a. wf_atom a \<and> parsed s (flat_atom a) c (ast_atom a) s'" if r: "parseexec (Suc n) s = POk (c, s')"
  proof -
    obtain b s1 where pk: "peek s ''('' = (b, s1)" by fastforce
    have k: "tokens s1 = tokens s" "suffix s1 s" using peek_starts [OF pk] by (auto simp: symbols_def)
    show ?thesis
    proof (cases b)
      case True
      then have "parseblock n s1 = POk (c, s')" using r pk by simp
      then obtain a where "wf_atom a" "parsed s1 (flat_atom a) c (ast_atom a) s'" using Suc.IH [of s1 c s'] by blast
      then show ?thesis using k by (auto simp: parsed_def intro: suffix_order.trans all_good_suffix)
    next
      case False
      obtain rs s2 where p1: "parseredirs (Suc n) s1 = POk (rs, s2)" "exec_loop (Suc n) [] rs s2 = POk (c, s')"
        using r pk False by (auto simp: pbind_POk)
      obtain ks where ks: "tokens s1 = concat (map flat_redir ks) @ tokens s2" "map (apfst wtext) rs = redirs ks" "list_all redir_ok ks"
        "suffix s2 s1" "all_good s1 (fst ` set rs)" using parseredirs_sound [OF p1(1)] by blast
      obtain its where its: "tokens s2 = concat (map flat_item its) @ tokens s'"
        "map_cmd wtext c = wrap (map (apfst wtext) rs @ redirs (redirs_of its)) (EXEC (map wtext [] @ words_of its))"
        "length (words_of its) < MAXARGS" "list_all redir_ok (redirs_of its)" "suffix s' s2"
        "\<forall>w \<in> set_cmd c. w \<in> set [] \<or> w \<in> fst ` set rs \<or> good s2 w"
        using exec_loop_sound [OF p1(2)] by (auto simp: MAXARGS_def)
      have s2: "suffix s2 s" using ks(4) k(2) by (rule suffix_order.trans)
      have "all_good s (fst ` set rs)" using ks(5) k(2) by (rule all_good_suffix)
      moreover have "\<forall>w \<in> set_cmd c. w \<in> fst ` set rs \<or> good s2 w" using its(6) by simp
      ultimately have "all_good s (set_cmd c)" using good_suffix [OF _ s2] unfolding all_good_def by blast
      moreover have "suffix s' s" using its(5) s2 by (rule suffix_order.trans)
      ultimately show ?thesis using its ks k(1)
        by (intro exI [of _ "GSimple (map IRedir ks @ its)"]) (simp add: parsed_def)
    qed
  qed
  show ?case using line pipe exec block by blast
qed simp

subsection \<open>Everything in the grammar is accepted\<close>

lemma next_token:
  assumes "tokens s = x # ts"
  obtains t q eq s' where "gettoken s = (t, q, eq, s')" "tokens s' = ts" "length s' < length s"
    "\<And>w. x = TWord w \<Longrightarrow> t = CHR ''a'' \<and> wtext (q, eq) = w" "\<And>c. x = TSym c \<Longrightarrow> t = c \<and> c \<noteq> CHR ''a'' \<and> c \<noteq> CHR 0x00"
proof -
  obtain t q eq s' where g: "gettoken s = (t, q, eq, s')" by (metis prod_cases4)
  have tk: "tokens s = (if t = CHR 0x00 then [] else (if t = CHR ''a'' then TWord (wtext (q, eq)) else TSym t) # tokens s')"
    by (rule tokens_unfold [OF g])
  then have "t \<noteq> CHR 0x00" using assms by auto
  then have x: "x = (if t = CHR ''a'' then TWord (wtext (q, eq)) else TSym t)" "tokens s' = ts" "length s' < length s"
    using tk assms gettoken_shorter(2) [OF g] by simp_all
  show thesis
  proof (rule that [OF g x(2,3)])
    show "t = CHR ''a'' \<and> wtext (q, eq) = w" if "x = TWord w" for w using that x(1) by (simp split: if_splits)
    show "t = c \<and> c \<noteq> CHR ''a'' \<and> c \<noteq> CHR 0x00" if "x = TSym c" for c
      using that x(1) \<open>t \<noteq> CHR 0x00\<close> by (simp split: if_splits)
  qed
qed

lemma peek_symbol:
  assumes "set toks \<subseteq> set symbols" "CHR ''>'' \<notin> set toks"
  shows "peek s toks = (starts toks (tokens s), skip s)"
  using peek_starts(3) [of s toks "fst (peek s toks)" "snd (peek s toks)"] assms by (auto simp: peek_def Let_def)

lemma peek_redir: "peek s ''<>'' = (starts ''<>+'' (tokens s), skip s)"
  using peek_starts(3) [of s "''<>''" "fst (peek s ''<>'')" "snd (peek s ''<>'')"] by (auto simp: peek_def Let_def symbols_def starts_def)

text \<open>A symbol at the front is taken.\<close>

lemma take_front:
  assumes "tokens s = TSym x # ts"
  obtains q eq s' where "gettoken (skip s) = (x, q, eq, s')" "tokens s' = ts" "length s' < length s"
  using assms by (auto simp: gettoken_skip elim: next_token)

lemma parseredirs_complete:
  "tokens s = concat (map flat_redir ks) @ ts \<Longrightarrow> \<not> starts ''<>+'' ts \<Longrightarrow> list_all redir_ok ks \<Longrightarrow> length s < n \<Longrightarrow>
   \<exists>rs s'. parseredirs n s = POk (rs, s') \<and> map (apfst wtext) rs = redirs ks \<and> tokens s' = ts \<and> length s' \<le> length s"
proof (induction n arbitrary: s ks)
  case (Suc n)
  show ?case
  proof (cases ks)
    case Nil
    then show ?thesis using Suc.prems skip_length [of s] by (simp add: parseredirs.simps peek_redir)
  next
    case (Cons k ks')
    obtain x w where k: "k = (x, w)" by fastforce
    have tk: "tokens s = TSym x # TWord w # concat (map flat_redir ks') @ ts" using Suc.prems(1) Cons k by simp
    have x: "x \<in> set ''<>+''" using Suc.prems(3) Cons k by simp
    obtain q eq s1 where g: "gettoken (skip s) = (x, q, eq, s1)" "tokens s1 = TWord w # concat (map flat_redir ks') @ ts" "length s1 < length s"
      using take_front [OF tk] by metis
    obtain t' q' eq' s2 where g': "gettoken s1 = (t', q', eq', s2)" "tokens s2 = concat (map flat_redir ks') @ ts" "length s2 < length s1"
      "t' = CHR ''a''" "wtext (q', eq') = w" using next_token [OF g(2)] by metis
    obtain rs s' where r: "parseredirs n s2 = POk (rs, s')" "map (apfst wtext) rs = redirs ks'" "tokens s' = ts" "length s' \<le> length s2"
      using Suc.IH [OF g'(2) Suc.prems(2)] Suc.prems(3,4) Cons g(3) g'(3) by auto
    have "starts ''<>+'' (tokens s)" using tk x by simp
    then have "parseredirs (Suc n) s = POk (redir_of x (q', eq') @ rs, s')"
      using g(1) g'(1,4) r(1) by (simp add: parseredirs.simps peek_redir)
    then show ?thesis using r g(3) g'(3,5) Cons k by (simp add: redir_of_map(1))
  qed
qed simp

lemma split_items: "\<exists>ks js. its = map IRedir ks @ js \<and> (js = [] \<or> (\<exists>w r. js = IWord w # r))"
proof (induction its)
  case (Cons i its)
  show ?case
  proof (cases i)
    case (IWord w)
    then show ?thesis by (intro exI [of _ "[]"] exI [of _ "i # its"]) simp
  next
    case (IRedir k)
    then show ?thesis using Cons by (metis append_Cons list.map(2))
  qed
qed simp

definition ends :: "string \<Rightarrow> tok list \<Rightarrow> bool" where
  "ends C ts \<longleftrightarrow> ts = [] \<or> starts C ts"

lemma ends_starts: "ends C ts \<Longrightarrow> set C \<inter> set D = {} \<Longrightarrow> \<not> starts D ts"
  by (auto simp: ends_def starts_def)

lemma tokens_Nil: "tokens s = [] \<Longrightarrow> skip s = []"
proof -
  assume a: "tokens s = []"
  obtain t q eq s' where g: "gettoken s = (t, q, eq, s')" by (metis prod_cases4)
  from g show "skip s = []"
    by (cases rule: gettoken_cases) (use a tokens_unfold [OF g] in \<open>auto split: if_splits\<close>)
qed

lemma exec_loop_complete:
  "tokens s = concat (map flat_item its) @ ts \<Longrightarrow> ends ''|)&;'' ts \<Longrightarrow> list_all redir_ok (redirs_of its) \<Longrightarrow>
   its = [] \<or> (\<exists>w r. its = IWord w # r) \<Longrightarrow> length argv + length (words_of its) < MAXARGS \<Longrightarrow> length s < n \<Longrightarrow>
   \<exists>c s'. exec_loop n argv rs s = POk (c, s') \<and> tokens s' = ts \<and>
     map_cmd wtext c = wrap (map (apfst wtext) rs @ redirs (redirs_of its)) (EXEC (map wtext argv @ words_of its))"
proof (induction n arbitrary: s its argv rs)
  case (Suc n)
  have pk: "peek s ''|)&;'' = (starts ''|)&;'' (tokens s), skip s)" by (rule peek_symbol) (auto simp: symbols_def)
  show ?case
  proof (cases its)
    case Nil
    then have tk: "tokens s = ts" using Suc.prems(1) by simp
    have "gettoken (skip s) = (CHR 0x00, [], [], [])" if "ts = []"
      using tokens_Nil [of s] tk that by (simp add: gettoken_def)
    moreover have "tokens [] = []" by (subst tokens.simps) (simp add: gettoken_def)
    ultimately show ?thesis using Suc.prems(2) pk tk Nil by (auto simp: exec_loop.simps ends_def wrap_map)
  next
    case (Cons i r)
    then obtain w where i: "its = IWord w # r" using Suc.prems(4) by auto
    obtain ks js where sp: "r = map IRedir ks @ js" "js = [] \<or> (\<exists>w r. js = IWord w # r)" using split_items by blast
    have tk: "tokens s = TWord w # concat (map flat_redir ks) @ concat (map flat_item js) @ ts" using Suc.prems(1) i sp(1) by simp
    then have "tokens (skip s) = TWord w # concat (map flat_redir ks) @ concat (map flat_item js) @ ts" by simp
    then obtain t q eq s1 where g: "gettoken (skip s) = (t, q, eq, s1)" "tokens s1 = concat (map flat_redir ks) @ concat (map flat_item js) @ ts"
      "length s1 < length (skip s)" "t = CHR ''a''" "wtext (q, eq) = w" by (metis next_token)
    have l1: "length s1 < length s" using g(3) skip_length [of s] by simp
    have ns: "\<not> starts ''<>+'' (concat (map flat_item js) @ ts)"
      using sp(2) ends_starts [OF Suc.prems(2), of "''<>+''"] by (cases js) auto
    have ok: "list_all redir_ok ks" "list_all redir_ok (redirs_of js)" using Suc.prems(3) i sp(1) by auto
    obtain rs1 s2 where r1: "parseredirs (Suc n) s1 = POk (rs1, s2)" "map (apfst wtext) rs1 = redirs ks"
      "tokens s2 = concat (map flat_item js) @ ts" "length s2 \<le> length s1"
      using parseredirs_complete [OF g(2) ns ok(1), of "Suc n"] l1 Suc.prems(6) by auto
    have m: "length (argv @ [(q, eq)]) + length (words_of js) < MAXARGS" using Suc.prems(5) i sp(1) by simp
    obtain c s' where c: "exec_loop n (argv @ [(q, eq)]) (rs @ rs1) s2 = POk (c, s')" "tokens s' = ts"
      "map_cmd wtext c = wrap (map (apfst wtext) (rs @ rs1) @ redirs (redirs_of js)) (EXEC (map wtext (argv @ [(q, eq)]) @ words_of js))"
      using Suc.IH [OF r1(3) Suc.prems(2) ok(2) sp(2) m, of "rs @ rs1"] l1 r1(4) Suc.prems(6) by auto
    have "exec_loop (Suc n) argv rs s = POk (c, s')"
      using pk tk g(1,4) r1(1) c(1) m by (simp add: exec_loop.simps Let_def)
    then show ?thesis using c(2,3) r1(2) g(5) i sp(1) by simp
  qed
qed simp

lemma backs_complete:
  "tokens s = replicate k (TSym (CHR ''&'')) @ ts \<Longrightarrow> \<not> starts ''&'' ts \<Longrightarrow> length s < n \<Longrightarrow>
   \<exists>s'. backs n c s = POk ((BACK ^^ k) c, s') \<and> tokens s' = ts \<and> length s' \<le> length s"
proof (induction n arbitrary: s k c)
  case (Suc n)
  have pk: "peek s ''&'' = (starts ''&'' (tokens s), skip s)" by (rule peek_symbol) (auto simp: symbols_def)
  show ?case
  proof (cases k)
    case 0
    then show ?thesis using Suc.prems pk skip_length [of s] by (simp add: backs.simps)
  next
    case (Suc j)
    then have tk: "tokens s = TSym (CHR ''&'') # replicate j (TSym (CHR ''&'')) @ ts" using Suc.prems(1) by simp
    obtain q eq s1 where g: "gettoken (skip s) = (CHR ''&'', q, eq, s1)" "tokens s1 = replicate j (TSym (CHR ''&'')) @ ts" "length s1 < length s"
      using take_front [OF tk] by metis
    obtain s' where "backs n (BACK c) s1 = POk ((BACK ^^ j) (BACK c), s')" "tokens s' = ts" "length s' \<le> length s1"
      using Suc.IH [OF g(2) Suc.prems(2), of "BACK c"] g(3) Suc.prems(3) by auto
    then show ?thesis using pk tk g Suc by (simp add: backs.simps funpow_swap1)
  qed
qed simp

lemma parse_complete:
  "(4 * length s + 4 \<le> n \<longrightarrow> wf_line l \<longrightarrow> tokens s = flat_line l @ ts \<longrightarrow> ends '')'' ts \<longrightarrow>
     (\<exists>c s'. parseline n s = POk (c, s') \<and> map_cmd wtext c = ast_line l \<and> tokens s' = ts)) \<and>
   (4 * length s + 3 \<le> n \<longrightarrow> wf_pipe p \<longrightarrow> tokens s = flat_pipe p @ ts \<longrightarrow> ends '')&;'' ts \<longrightarrow>
     (\<exists>c s'. parsepipe n s = POk (c, s') \<and> map_cmd wtext c = ast_pipe p \<and> tokens s' = ts)) \<and>
   (4 * length s + 2 \<le> n \<longrightarrow> wf_atom a \<longrightarrow> tokens s = flat_atom a @ ts \<longrightarrow> ends ''|)&;'' ts \<longrightarrow>
     (\<exists>c s'. parseexec n s = POk (c, s') \<and> map_cmd wtext c = ast_atom a \<and> tokens s' = ts)) \<and>
   (4 * length s + 1 \<le> n \<longrightarrow> wf_line l \<longrightarrow> list_all redir_ok ks \<longrightarrow> tokens s = flat_atom (GBlock l ks) @ ts \<longrightarrow> ends ''|)&;'' ts \<longrightarrow>
     (\<exists>c s'. parseblock n s = POk (c, s') \<and> map_cmd wtext c = ast_atom (GBlock l ks) \<and> tokens s' = ts))"
proof (induction n arbitrary: s l p a ks ts)
  case (Suc n)
  have sym: "peek u [x] = (starts [x] (tokens u), skip u)" if "x \<in> set ''&;|()''" for u x
    by (rule peek_symbol) (use that in \<open>auto simp: symbols_def\<close>)
  have ihl: "\<exists>c s'. parseline n u = POk (c, s') \<and> map_cmd wtext c = ast_line m \<and> tokens s' = us"
    if "4 * length u + 4 \<le> n" "wf_line m" "tokens u = flat_line m @ us" "ends '')'' us" for u m us
    using Suc.IH that by blast
  have ihp: "\<exists>c s'. parsepipe n u = POk (c, s') \<and> map_cmd wtext c = ast_pipe m \<and> tokens s' = us"
    if "4 * length u + 3 \<le> n" "wf_pipe m" "tokens u = flat_pipe m @ us" "ends '')&;'' us" for u m us
    using Suc.IH that by blast
  have iha: "\<exists>c s'. parseexec n u = POk (c, s') \<and> map_cmd wtext c = ast_atom m \<and> tokens s' = us"
    if "4 * length u + 2 \<le> n" "wf_atom m" "tokens u = flat_atom m @ us" "ends ''|)&;'' us" for u m us
    using Suc.IH that by blast
  have ihb: "\<exists>c s'. parseblock n u = POk (c, s') \<and> map_cmd wtext c = ast_atom (GBlock m ks) \<and> tokens s' = us"
    if "4 * length u + 1 \<le> n" "wf_line m" "list_all redir_ok ks" "tokens u = flat_atom (GBlock m ks) @ us" "ends ''|)&;'' us" for u m us ks
    using Suc.IH that by blast
  have line: "\<exists>c s'. parseline (Suc n) s = POk (c, s') \<and> map_cmd wtext c = ast_line l \<and> tokens s' = ts"
    if n: "4 * length s + 4 \<le> Suc n" and wf: "wf_line l" and tk: "tokens s = flat_line l @ ts" and e: "ends '')'' ts"
  proof -
    obtain p k r where l: "l = GLine p k r" by (cases l)
    define us where "us = (case r of None \<Rightarrow> ts | Some m \<Rightarrow> TSym (CHR '';'') # flat_line m @ ts)"
    have tp: "tokens s = flat_pipe p @ replicate k (TSym (CHR ''&'')) @ us" "wf_pipe p"
      using tk wf l by (cases r; simp add: us_def)+
    have us: "ends '');'' us" using e by (cases r) (auto simp: us_def ends_def starts_def)
    then have "ends '')&;'' (replicate k (TSym (CHR ''&'')) @ us)" by (cases k) (auto simp: ends_def starts_def)
    then obtain c1 s1 where c1: "parsepipe n s = POk (c1, s1)" "map_cmd wtext c1 = ast_pipe p" "tokens s1 = replicate k (TSym (CHR ''&'')) @ us"
      using ihp [of s p "replicate k (TSym (CHR ''&'')) @ us"] tp n by auto
    have "shrinks (parsepipe n s) (length s)" using parse_shrinks [of s n] n by simp
    then have l1: "length s1 \<le> length s" using c1(1) by simp
    have "\<not> starts ''&'' us" using ends_starts [OF us] by simp
    then obtain s2 where s2: "backs (Suc n) c1 s1 = POk ((BACK ^^ k) c1, s2)" "tokens s2 = us" "length s2 \<le> length s1"
      using backs_complete [OF c1(3), of "Suc n" c1] l1 n by auto
    show ?thesis
    proof (cases r)
      case None
      then have "\<not> starts '';'' (tokens s2)" using s2(2) ends_starts [OF e] by (simp add: us_def)
      then show ?thesis using c1 s2 l None sym [of "CHR '';''" s2] by (simp add: us_def)
    next
      case (Some m)
      then have t2: "tokens s2 = TSym (CHR '';'') # flat_line m @ ts" using s2(2) by (simp add: us_def)
      obtain q eq s3 where g: "gettoken (skip s2) = (CHR '';'', q, eq, s3)" "tokens s3 = flat_line m @ ts" "length s3 < length s2"
        using take_front [OF t2] by metis
      have "wf_line m" using wf l Some by simp
      then obtain d s' where "parseline n s3 = POk (d, s')" "map_cmd wtext d = ast_line m" "tokens s' = ts"
        using ihl [of s3 m ts] g s2(3) l1 n e by auto
      then show ?thesis using c1(1,2) s2(1) l Some sym [of "CHR '';''" s2] t2 g by simp
    qed
  qed
  have pipe: "\<exists>c s'. parsepipe (Suc n) s = POk (c, s') \<and> map_cmd wtext c = ast_pipe p \<and> tokens s' = ts"
    if n: "4 * length s + 3 \<le> Suc n" and wf: "wf_pipe p" and tk: "tokens s = flat_pipe p @ ts" and e: "ends '')&;'' ts"
  proof -
    obtain a r where p: "p = GPipe a r" by (cases p)
    define us where "us = (case r of None \<Rightarrow> ts | Some m \<Rightarrow> TSym (CHR ''|'') # flat_pipe m @ ts)"
    have ta: "tokens s = flat_atom a @ us" "wf_atom a" using tk wf p by (cases r; simp add: us_def)+
    have "ends ''|)&;'' us" using e by (cases r) (auto simp: us_def ends_def starts_def)
    then obtain c1 s1 where c1: "parseexec n s = POk (c1, s1)" "map_cmd wtext c1 = ast_atom a" "tokens s1 = us"
      using iha [of s a us] ta n by auto
    have "shrinks (parseexec n s) (length s)" using parse_shrinks [of s n] n by simp
    then have l1: "length s1 \<le> length s" using c1(1) by simp
    show ?thesis
    proof (cases r)
      case None
      then have "\<not> starts ''|'' (tokens s1)" using c1(3) ends_starts [OF e] by (simp add: us_def)
      then show ?thesis using c1 p None sym [of "CHR ''|''" s1] by (simp add: us_def)
    next
      case (Some m)
      then have t1: "tokens s1 = TSym (CHR ''|'') # flat_pipe m @ ts" using c1(3) by (simp add: us_def)
      obtain q eq s3 where g: "gettoken (skip s1) = (CHR ''|'', q, eq, s3)" "tokens s3 = flat_pipe m @ ts" "length s3 < length s1"
        using take_front [OF t1] by metis
      have "wf_pipe m" using wf p Some by simp
      then obtain d s' where "parsepipe n s3 = POk (d, s')" "map_cmd wtext d = ast_pipe m" "tokens s' = ts"
        using ihp [of s3 m ts] g l1 n e by auto
      then show ?thesis using c1(1,2) p Some sym [of "CHR ''|''" s1] t1 g by simp
    qed
  qed
  have block: "\<exists>c s'. parseblock (Suc n) s = POk (c, s') \<and> map_cmd wtext c = ast_atom (GBlock l ks) \<and> tokens s' = ts"
    if n: "4 * length s + 1 \<le> Suc n" and wf: "wf_line l" "list_all redir_ok ks" and tk: "tokens s = flat_atom (GBlock l ks) @ ts" and e: "ends ''|)&;'' ts" for ks
  proof -
    have t0: "tokens s = TSym (CHR ''('') # flat_line l @ TSym (CHR '')'') # concat (map flat_redir ks) @ ts" using tk by simp
    obtain q eq s1 where g: "gettoken (skip s) = (CHR ''('', q, eq, s1)" "tokens s1 = flat_line l @ TSym (CHR '')'') # concat (map flat_redir ks) @ ts"
      "length s1 < length s" using take_front [OF t0] by metis
    have "ends '')'' (TSym (CHR '')'') # concat (map flat_redir ks) @ ts)" by (simp add: ends_def)
    then obtain c1 s2 where c1: "parseline n s1 = POk (c1, s2)" "map_cmd wtext c1 = ast_line l" "tokens s2 = TSym (CHR '')'') # concat (map flat_redir ks) @ ts"
      using ihl [OF _ wf(1) g(2)] g(3) n by auto
    have "shrinks (parseline n s1) (length s1)" using parse_shrinks [of s1 n] n g(3) by simp
    then have l2: "length s2 \<le> length s1" using c1(1) by simp
    obtain q' eq' s3 where g': "gettoken (skip s2) = (CHR '')'', q', eq', s3)" "tokens s3 = concat (map flat_redir ks) @ ts" "length s3 < length s2"
      using take_front [OF c1(3)] by metis
    have "\<not> starts ''<>+'' ts" using ends_starts [OF e] by simp
    then obtain rs s' where r: "parseredirs (Suc n) s3 = POk (rs, s')" "map (apfst wtext) rs = redirs ks" "tokens s' = ts"
      using parseredirs_complete [OF g'(2) _ wf(2), of "Suc n"] g'(3) l2 g(3) n by auto
    have "parseblock (Suc n) s = POk (wrap rs c1, s')"
      using sym [of "CHR ''(''" s] sym [of "CHR '')''" s2] t0 g c1 g' r by simp
    then show ?thesis using c1(2) r(2,3) by (simp add: wrap_map)
  qed
  have exec: "\<exists>c s'. parseexec (Suc n) s = POk (c, s') \<and> map_cmd wtext c = ast_atom a \<and> tokens s' = ts"
    if n: "4 * length s + 2 \<le> Suc n" and wf: "wf_atom a" and tk: "tokens s = flat_atom a @ ts" and e: "ends ''|)&;'' ts"
  proof (cases a)
    case (GBlock m js)
    have "4 * length (skip s) + 1 \<le> n" using n skip_length [of s] by simp
    then have "\<exists>c s'. parseblock n (skip s) = POk (c, s') \<and> map_cmd wtext c = ast_atom (GBlock m js) \<and> tokens s' = ts"
      using ihb [of "skip s" m js ts] GBlock wf tk e by simp
    moreover have "starts ''('' (tokens s)" using tk GBlock by simp
    ultimately show ?thesis using sym [of "CHR ''(''" s] GBlock by auto
  next
    case (GSimple its)
    obtain ks js where sp: "its = map IRedir ks @ js" "js = [] \<or> (\<exists>w r. js = IWord w # r)" using split_items by blast
    have ok: "list_all redir_ok ks" "list_all redir_ok (redirs_of js)" "length (words_of js) < MAXARGS" using wf GSimple sp(1) by auto
    have t0: "tokens (skip s) = concat (map flat_redir ks) @ concat (map flat_item js) @ ts" using tk GSimple sp(1) by simp
    have nj: "\<not> starts ''<>+'' (concat (map flat_item js) @ ts)" using sp(2) ends_starts [OF e, of "''<>+''"] by (cases js) auto
    have "\<not> starts ''('' (concat (map flat_item js) @ ts)" using sp(2) ends_starts [OF e, of "''(''"] by (cases js) auto
    then have "\<not> starts ''('' (tokens s)"
      using t0 ok(1) by (cases ks) (auto simp: redir_ok_def flat_redir_def)
    then have pk: "peek s ''('' = (False, skip s)" using sym [of "CHR ''(''" s] by simp
    obtain rs s2 where r: "parseredirs (Suc n) (skip s) = POk (rs, s2)" "map (apfst wtext) rs = redirs ks" "tokens s2 = concat (map flat_item js) @ ts" "length s2 \<le> length (skip s)"
      using parseredirs_complete [OF t0 nj ok(1), of "Suc n"] n skip_length [of s] by auto
    obtain c s' where c: "exec_loop (Suc n) [] rs s2 = POk (c, s')" "tokens s' = ts"
      "map_cmd wtext c = wrap (map (apfst wtext) rs @ redirs (redirs_of js)) (EXEC (map wtext [] @ words_of js))"
      using exec_loop_complete [OF r(3) e ok(2) sp(2), of "[]" "Suc n" rs] ok(3) r(4) n skip_length [of s] by auto
    show ?thesis using pk r c GSimple sp(1) by simp
  qed
  show ?case using line pipe exec block by blast
qed simp

subsection \<open>Ending the words in place\<close>

lemma fold_store:
  "length (fold (\<lambda>w. store_nul line (snd w)) ws b) = length b"
  "i < length b \<Longrightarrow> fold (\<lambda>w. store_nul line (snd w)) ws b ! i = (if i \<in> offs line ` snd ` set ws then CHR 0x00 else b ! i)"
  by (induction ws arbitrary: b) (auto simp: store_nul_def nth_list_update)

lemma nulterminate_length [simp]: "length (nulterminate line c b) = length b"
  by (induction c arbitrary: b) (auto simp: fold_store store_nul_def)

lemma nulterminate_nth:
  "i < length b \<Longrightarrow> nulterminate line c b ! i = (if i \<in> offs line ` snd ` set_cmd c then CHR 0x00 else b ! i)"
proof (induction c arbitrary: b)
  case (EXEC argv)
  then show ?case using fold_store(2) [of i b line argv] by simp
next
  case (REDIR c w mode fd)
  then show ?case by (cases "i = offs line (snd w)") (simp_all add: store_nul_def)
qed (simp_all add: image_Un)

lemma c_string_eq:
  assumes "\<And>j. j < length x \<Longrightarrow> b ! (i + j) = x ! j" "CHR 0x00 \<notin> set x" "i + length x < length b" "b ! (i + length x) = CHR 0x00"
  shows "c_string b i = x"
proof -
  have "drop i b = take (length x) (drop i b) @ b ! (i + length x) # drop (Suc (i + length x)) b"
    using assms(3) by (metis add.commute drop_drop id_take_nth_drop le_add1 le_less_trans length_drop less_diff_conv nth_drop less_imp_le_nat append_take_drop_id Cons_nth_drop_Suc)
  moreover have "take (length x) (drop i b) = x" using assms(1,3) by (intro nth_equalityI) auto
  ultimately have "drop i b = x @ CHR 0x00 # drop (Suc (i + length x)) b" using assms(4) by simp
  then show ?thesis using assms(2) unfolding c_string_def by (simp add: takeWhile_tail) (metis takeWhile_eq_all_conv)
qed

text \<open>No end of a word falls into another word, so every word becomes the C string it spells.\<close>

lemma c_string_word:
  assumes g: "all_good line W" and w: "w \<in> W" and nul: "CHR 0x00 \<notin> set line" and c: "set_cmd c = W"
  shows "c_string (nulterminate line c (line @ [CHR 0x00])) (offs line (fst w)) = wtext w"
proof -
  let ?b = "nulterminate line c (line @ [CHR 0x00])"
  obtain pre x where l: "line = pre @ x @ snd w" "fst w = x @ snd w" and pl: "list_all plain x"
    using g w by (auto simp: all_good_def good_def suffix_def)
  have oq: "offs line (fst w) = length pre" "offs line (snd w) = length pre + length x" using l by (simp_all add: offs_def)
  have out: "length pre + j \<notin> offs line ` snd ` set_cmd c" if j: "j < length x" for j
  proof
    assume "length pre + j \<in> offs line ` snd ` set_cmd c"
    then obtain v where v: "v \<in> W" "length pre + j = offs line (snd v)" using c by auto
    obtain pre' x' where l': "line = (pre' @ x') @ snd v" and e: "snd v = [] \<or> \<not> plain (hd (snd v))"
      using g v(1) by (auto simp: all_good_def good_def suffix_def)
    have o: "length pre + j = length (pre' @ x')" using v(2) l' by (simp add: offs_def)
    have "snd v \<noteq> []"
    proof
      assume "snd v = []"
      then have "length line = length pre + j" using o l' by (metis append_Nil2)
      then show False using l j by simp
    qed
    then have "line ! (length pre + j) = hd (snd v)" unfolding o by (subst l') (simp add: nth_append hd_conv_nth)
    moreover have "line ! (length pre + j) = x ! j" using j by (subst l) (simp add: nth_append)
    moreover have "plain (x ! j)" using pl j by (simp add: list_all_length)
    ultimately show False using e \<open>snd v \<noteq> []\<close> by simp
  qed
  have "c_string ?b (length pre) = x"
  proof (rule c_string_eq)
    show "?b ! (length pre + j) = x ! j" if "j < length x" for j
      using out [OF that] that l(1) by (simp add: nulterminate_nth nth_append)
    show "CHR 0x00 \<notin> set x" using nul l(1) by auto
    show "length pre + length x < length ?b" using l(1) by simp
    have "length pre + length x \<in> offs line ` snd ` set_cmd c" using w c oq(2) by (metis image_eqI)
    then show "?b ! (length pre + length x) = CHR 0x00" using l(1) by (simp add: nulterminate_nth)
  qed
  then show ?thesis using oq(1) l by (simp add: wtext_def)
qed

subsection \<open>The theorems on parsing\<close>

lemma parsecmd_words:
  assumes "CHR 0x00 \<notin> set line" "parseline (parse_fuel line) line = POk (c, s)"
  shows "parsecmd line = (if tokens s = [] then POk (map_cmd wtext c) else PPanic (''leftovers: '' @ skip s @ [CHR 0x0A] @ ''syntax''))"
proof -
  have g: "all_good line (set_cmd c)" using parse_sound [of "parse_fuel line" line c s] assms(2) by (auto simp: parsed_def)
  let ?b = "nulterminate line c (line @ [CHR 0x00])"
  have "map_cmd (\<lambda>(q, eq). c_string ?b (offs line q)) c = map_cmd wtext c"
    by (rule cmd.map_cong) (use c_string_word [OF g _ assms(1) refl] in \<open>auto split: prod.splits\<close>)
  moreover have "tokens [] = []" by (subst tokens.simps) (simp add: gettoken_def)
  then have "skip s = [] \<longleftrightarrow> tokens s = []" using tokens_Nil [of s] tokens_skip [of s] by metis
  ultimately show ?thesis using assms(2) by (auto simp: parsecmd_def peek_def Let_def)
qed

lemma parseline_complete:
  assumes "wf_line l" "tokens line = flat_line l"
  obtains d s where "parseline (parse_fuel line) line = POk (d, s)" "map_cmd wtext d = ast_line l" "tokens s = []"
  using parse_complete [of line "parse_fuel line" l "[]" undefined undefined undefined] assms that by (auto simp: parse_fuel_def ends_def)

lemma parsecmd_complete: "CHR 0x00 \<notin> set line \<Longrightarrow> wf_line l \<Longrightarrow> tokens line = flat_line l \<Longrightarrow> parsecmd line = POk (ast_line l)"
  by (erule (1) parseline_complete) (simp add: parsecmd_words)

text \<open>
  C31. The parser of the xv6 shell decides the grammar: it never runs forever, and it accepts a line exactly if
  the tokens of the line are those of a line of the grammar with at most nine words in each simple command; the
  command it returns, whose words are read from the buffer after \<^verbatim>\<open>nulterminate\<close> has stored the NULs, is the
  meaning of that line.
\<close>

theorem parsecmd_grammar:
  assumes "CHR 0x00 \<notin> set line"
  shows "parsecmd line \<noteq> PLoop \<and> (parsecmd line = POk c \<longleftrightarrow> (\<exists>l. wf_line l \<and> tokens line = flat_line l \<and> c = ast_line l))"
proof -
  let ?r = "parseline (parse_fuel line) line"
  have sh: "shrinks ?r (length line)" using parse_shrinks [of line "parse_fuel line"] by (simp add: parse_fuel_def)
  note comp = parsecmd_complete [OF assms]
  show ?thesis
  proof (cases ?r)
    case (POk x)
    obtain d s where x: "x = (d, s)" by fastforce
    note pc = parsecmd_words [OF assms POk [unfolded x]]
    obtain l where l: "wf_line l" "parsed line (flat_line l) d (ast_line l) s" using parse_sound [of "parse_fuel line" line d s] POk x by blast
    have "\<exists>l. wf_line l \<and> tokens line = flat_line l \<and> c = ast_line l" if "parsecmd line = POk c"
      using that pc l by (intro exI [of _ l]) (auto simp: parsed_def split: if_splits)
    moreover have "parsecmd line \<noteq> PLoop" using pc by simp
    ultimately show ?thesis using comp by blast
  next
    case (PPanic m)
    then have "parsecmd line = PPanic m" by (simp add: parsecmd_def)
    then show ?thesis using comp by fastforce
  next
    case PLoop
    then show ?thesis using sh by simp
  qed
qed

subsection \<open>The processes of a command\<close>

text \<open>
  What the system calls do to the descriptors of a process: \<^verbatim>\<open>open\<close>, \<^verbatim>\<open>dup\<close> and \<^verbatim>\<open>pipe\<close> take the lowest free
  descriptors below \<^verbatim>\<open>NOFILE\<close> (\<^verbatim>\<open>fdalloc\<close> in \<^verbatim>\<open>kernel/sysfile.c\<close>), \<^verbatim>\<open>fork\<close> copies them, \<^verbatim>\<open>exec\<close> keeps them. Here files
  exist and programs can be executed. Pipes are numbered in the order of their creation. The outcome is the
  list of the processes: with what program and descriptors they go on, or how they exit.
\<close>

datatype handle = HFile string int | HRead nat | HWrite nat | HOther nat

type_synonym fdt = "int \<Rightarrow> handle option"

datatype outcome = Execs string "string list" fdt | Exits int

definition descriptors :: "int list" where
  "descriptors = 0 # 1 # [2..15]"

definition lowest :: "fdt \<Rightarrow> int option" where
  "lowest f = find (\<lambda>d. f d = None) descriptors"

primrec run :: "prog \<Rightarrow> nat \<Rightarrow> fdt \<Rightarrow> outcome list \<times> nat" where
  "run (SExit n) k f = ([Exits n], k)"
| "run (SExec p a r) k f = ([Execs p a f], k)"
| "run (SOpen p m r) k f = (case lowest f of None \<Rightarrow> run (r (- 1)) k f | Some d \<Rightarrow> run (r d) k (f(d \<mapsto> HFile p m)))"
| "run (SClose d r) k f = run r k (f(d := None))"
| "run (SDup d r) k f =
     (case f d of None \<Rightarrow> run r k f
      | Some h \<Rightarrow> (case lowest f of None \<Rightarrow> run r k f | Some e \<Rightarrow> run r k (f(e \<mapsto> h))))"
| "run (SPipe r) k f =
     (case lowest f of None \<Rightarrow> run (r None) k f
      | Some d \<Rightarrow> (case lowest (f(d \<mapsto> HRead k)) of None \<Rightarrow> run (r None) k f
         | Some e \<Rightarrow> run (r (Some (d, e))) (Suc k) (f(d \<mapsto> HRead k, e \<mapsto> HWrite k))))"
| "run (SFork r) k f = (case run (r 0) k f of (os, k') \<Rightarrow> case run (r 1) k' f of (os', k'') \<Rightarrow> (os @ os', k''))"
| "run (SWait r) k f = run r k f"
| "run (SMessage m r) k f = run r k f"

text \<open>
  The meaning of a command: a redirection replaces one descriptor; the left side of a pipe has its output, the
  right side its input in the pipe, and no process has any other end of it.
\<close>

primrec meaning :: "string cmd \<Rightarrow> nat \<Rightarrow> fdt \<Rightarrow> outcome list \<times> nat" where
  "meaning (EXEC argv) k f = ([if argv = [] then Exits 1 else Execs (hd argv) argv f], k)"
| "meaning (REDIR c w mode fd) k f = meaning c k (f(fd \<mapsto> HFile w mode))"
| "meaning (PIPE l r) k f =
     (case meaning l (Suc k) (f(1 \<mapsto> HWrite k)) of (os, k') \<Rightarrow>
      case meaning r k' (f(0 \<mapsto> HRead k)) of (os', k'') \<Rightarrow> (os @ os' @ [Exits 0], k''))"
| "meaning (LIST l r) k f =
     (case meaning l k f of (os, k') \<Rightarrow> case meaning r k' f of (os', k'') \<Rightarrow> (os @ os', k''))"
| "meaning (BACK c) k f = (case meaning c k f of (os, k') \<Rightarrow> (os @ [Exits 0], k'))"

primrec std :: "'w cmd \<Rightarrow> bool" where
  "std (EXEC argv) = True"
| "std (REDIR c w mode fd) = (std c \<and> (fd = 0 \<or> fd = 1))"
| "std (PIPE l r) = (std l \<and> std r)"
| "std (LIST l r) = (std l \<and> std r)"
| "std (BACK c) = std c"

text \<open>Standard input and output are open and two descriptors are free.\<close>

definition fds_ok :: "fdt \<Rightarrow> bool" where
  "fds_ok f \<longleftrightarrow> f 0 \<noteq> None \<and> f 1 \<noteq> None \<and>
     (case lowest f of None \<Rightarrow> False | Some d \<Rightarrow> lowest (f(d \<mapsto> HRead 0)) \<noteq> None)"

lemma lowest_simps:
  "lowest (f(0 := None)) = Some 0" "f 0 \<noteq> None \<Longrightarrow> lowest (f(1 := None)) = Some 1"
  by (simp_all add: lowest_def descriptors_def)

lemma found_free: "find P xs = Some d \<Longrightarrow> P d \<and> d \<in> set xs"
  by (induction xs) (auto split: if_splits)

lemma lowest_SomeD:
  assumes "lowest f = Some d" "f 0 \<noteq> None" "f 1 \<noteq> None"
  shows "f d = None" "2 \<le> d"
proof -
  have "f d = None" "d \<in> set descriptors" using found_free assms(1) unfolding lowest_def by fast+
  then have "f d = None" "d \<noteq> 0" "d \<noteq> 1" "0 \<le> d" using assms(2,3) by (auto simp: descriptors_def)
  then show "f d = None" "2 \<le> d" by simp_all
qed

lemma lowest_dom: "(\<And>d. f d = None \<longleftrightarrow> g d = None) \<Longrightarrow> lowest f = lowest g"
  by (simp add: lowest_def)

lemma fds_okD:
  assumes "fds_ok f"
  obtains d e where "lowest f = Some d" "\<And>k. lowest (f(d \<mapsto> HRead k)) = Some e" "f d = None" "f e = None" "d \<noteq> e" "2 \<le> d" "2 \<le> e"
proof -
  obtain d where d: "lowest f = Some d" "lowest (f(d \<mapsto> HRead 0)) \<noteq> None" using assms by (auto simp: fds_ok_def split: option.splits)
  then obtain e where e: "lowest (f(d \<mapsto> HRead 0)) = Some e" by blast
  have o: "f 0 \<noteq> None" "f 1 \<noteq> None" using assms by (auto simp: fds_ok_def)
  have "f d = None" "2 \<le> d" using lowest_SomeD [OF d(1) o] by auto
  moreover have ed: "(f(d \<mapsto> HRead 0)) e = None" "2 \<le> e" using lowest_SomeD [OF e] o by auto
  then have "f e = None" "d \<noteq> e" by (cases "e = d"; simp)+
  moreover have "lowest (f(d \<mapsto> HRead k)) = Some e" for k using lowest_dom [of "f(d \<mapsto> HRead k)" "f(d \<mapsto> HRead 0)"] e by simp
  ultimately show thesis using d(1) \<open>f e = None\<close> \<open>d \<noteq> e\<close> ed(2) by (intro that)
qed

lemma fds_ok_upd: "fds_ok f \<Longrightarrow> d = 0 \<or> d = 1 \<Longrightarrow> fds_ok (f(d \<mapsto> h))"
proof -
  assume f: "fds_ok f" and d: "d = 0 \<or> d = 1"
  have "(f(d \<mapsto> h)) x = None \<longleftrightarrow> f x = None" for x using f d by (auto simp: fds_ok_def)
  then have "lowest (f(d \<mapsto> h)) = lowest f" "lowest (f(d \<mapsto> h, e \<mapsto> HRead 0)) = lowest (f(e \<mapsto> HRead 0))" for e
    by (intro lowest_dom; simp)+
  then show "fds_ok (f(d \<mapsto> h))" using f d by (auto simp: fds_ok_def split: option.splits)
qed

text \<open>The plumbing of a pipe, for both of its sides.\<close>

lemma pipe_side:
  assumes f: "fds_ok f" and d: "f d = None" "f e = None" "d \<noteq> e" "2 \<le> d" "2 \<le> e" and x: "x = 0 \<or> x = (1::int)" and y: "y = d \<or> y = e"
  shows "run (SClose x (SDup y (SClose d (SClose e r)))) k (f(d \<mapsto> a, e \<mapsto> b)) = run r k (f(x \<mapsto> if y = d then a else b))"
proof -
  let ?f = "f(d \<mapsto> a, e \<mapsto> b)"
  have o: "?f 0 \<noteq> None" "?f 1 \<noteq> None" using f d by (auto simp: fds_ok_def)
  have l: "lowest (?f(x := None)) = Some x" using x o by (auto simp: lowest_simps)
  have y': "(?f(x := None)) y = Some (if y = d then a else b)" using x y d by auto
  have "(?f(x := None, x \<mapsto> h))(d := None, e := None) = f(x \<mapsto> h)" for h using x d by (auto simp: fun_eq_iff)
  then show ?thesis using l y' by simp
qed

lemma run_runcmd: "std c \<Longrightarrow> fds_ok f \<Longrightarrow> run (runcmd c) k f = meaning c k f"
proof (induction c arbitrary: k f)
  case (EXEC argv)
  then show ?case by (cases argv) auto
next
  case (REDIR c w mode fd)
  have "lowest (f(fd := None)) = Some fd" using REDIR.prems by (auto simp: lowest_simps fds_ok_def)
  moreover have "run (runcmd c) k (f(fd \<mapsto> HFile w mode)) = meaning c k (f(fd \<mapsto> HFile w mode))"
    using REDIR.prems by (intro REDIR.IH fds_ok_upd) simp_all
  moreover have "\<not> fd < 0" using REDIR.prems by auto
  ultimately show ?case by simp
next
  case (PIPE l r)
  obtain d e where de: "lowest f = Some d" "\<And>k. lowest (f(d \<mapsto> HRead k)) = Some e" "f d = None" "f e = None" "d \<noteq> e" "2 \<le> d" "2 \<le> e"
    by (rule fds_okD [OF PIPE.prems(2)]) blast
  note side = pipe_side [OF PIPE.prems(2) de(3-7)]
  have "run (runcmd l) j (f(1 \<mapsto> HWrite k)) = meaning l j (f(1 \<mapsto> HWrite k))" "run (runcmd r) j (f(0 \<mapsto> HRead k)) = meaning r j (f(0 \<mapsto> HRead k))" for j
    using PIPE fds_ok_upd [OF PIPE.prems(2)] by auto
  then show ?case using de side [of 1 e "runcmd l" "Suc k" "HRead k" "HWrite k"] side [of 0 d "runcmd r" _ "HRead k" "HWrite k"]
    by (simp add: fork1_def del: fun_upd_apply split: prod.splits)
qed (auto simp: fork1_def split: prod.splits)

lemma std_wrap: "std c \<Longrightarrow> \<forall>r \<in> set rs. snd (snd r) = 0 \<or> snd (snd r) = 1 \<Longrightarrow> std (wrap rs c)"
  unfolding wrap_def by (induction rs arbitrary: c) auto

lemma std_redirs: "\<forall>r \<in> set (redirs ks). snd (snd r) = 0 \<or> snd (snd r) = 1"
  by (auto simp: redirs_def redir_of_def split: if_splits)

lemma std_ast: "std (ast_line l)" "std (ast_pipe p)" "std (ast_atom a)"
proof (induction l and p and a rule: ast_line_ast_pipe_ast_atom.induct)
  case (1 p n)
  then show ?case by (induction n) auto
next
  case (2 p n l)
  have "std ((BACK ^^ n) (ast_pipe p))" using 2(1) by (induction n) auto
  then show ?case using 2(2) by simp
qed (auto intro!: std_wrap [OF _ std_redirs])

text \<open>
  C32. Running an accepted line gives the processes of its meaning: every program runs with the standard input and
  output that the redirections and pipes of the line give it and with all other descriptors as the shell has
  them; in particular no process keeps another end of a pipe open.
\<close>

theorem child_runs_meaning:
  assumes "CHR 0x00 \<notin> set line" "wf_line l" "tokens line = flat_line l" "fds_ok f"
  shows "run (child line) k f = meaning (ast_line l) k f"
proof -
  have "parsecmd line = POk (ast_line l)" by (rule parsecmd_complete [OF assms(1-3)])
  then show ?thesis using run_runcmd [OF std_ast(1) assms(4)] by (simp add: child_def)
qed

text \<open>
  The shell takes the last character of a \<^verbatim>\<open>cd\<close> line for the end of the line: on a last line without a newline
  it changes to a directory whose name has lost its last character.
\<close>

theorem cd_loses_last_character:
  assumes "d \<noteq> []" "hd d \<noteq> CHR '' ''" "hd d \<noteq> CHR 0x09"
  shows "main_line (''cd '' @ d @ [CHR 0x0A]) = Chdir d \<and> main_line (''cd '' @ d) = Chdir (butlast d)"
  using assms by (simp add: main_line_def butlast_append)

lemma gets_loop_line:
  "10 \<notin> set b \<Longrightarrow> 13 \<notin> set b \<Longrightarrow> i + int (length b) + 1 < mx \<Longrightarrow> gets_loop i mx (b @ 10 # r) = (b @ [10], r)"
  by (induction b arbitrary: i) (subst gets_loop.simps, simp)+

definition line_ok :: "u8 list \<Rightarrow> bool" where
  "line_ok b \<longleftrightarrow> length b \<le> 98 \<and> 10 \<notin> set b \<and> 13 \<notin> set b \<and> 0 \<notin> set b"

text \<open>
  The shell reads its input line by line: for lines of at most 98 characters the actions of the session are those of
  the lines, in order.
\<close>

theorem main_loop_lines:
  assumes "list_all line_ok ls"
  shows "main_loop (concat (map (\<lambda>b. b @ [10]) ls)) = map (\<lambda>b. main_line (text_of (b @ [10]))) ls"
  using assms
proof (induction ls)
  case Nil
  then show ?case by (simp add: main_loop.simps getcmd_def gets_def gets_loop.simps text_of_def)
next
  case (Cons b ls)
  have b: "10 \<notin> set b" "13 \<notin> set b" "0 + int (length b) + 1 < 100" "0 \<notin> set b" using Cons.prems by (auto simp: line_ok_def)
  have "takeWhile (\<lambda>c. c \<noteq> 0) ((b @ [10]) @ [0]) = b @ [10]" "takeWhile (\<lambda>c. c \<noteq> 0) (b @ [10]) = b @ [10]"
    using b(4) by (induction b) auto
  then have "text_of ((b @ [10]) @ [0]) = text_of (b @ [10])" unfolding text_of_def by simp
  moreover have "text_of (b @ [10]) \<noteq> []" by (cases b) (use b in \<open>auto simp: text_of_def\<close>)
  ultimately show ?case using gets_loop_line [OF b(1-3)] Cons by (simp add: main_loop.simps [of "_ @ _"] getcmd_def gets_def)
qed

text \<open>Started without descriptors, the shell has the console as its standard input, output and error output.\<close>

lemma console_opened:
  "run (open_console 4 k) 0 (\<lambda>_. None) =
   run k 0 (\<lambda>d. if 0 \<le> d \<and> d < 3 then Some (HFile ''console'' O_RDWR) else None)"
proof -
  let ?h = "HFile ''console'' O_RDWR"
  have l: "lowest (\<lambda>_. None) = Some 0" "lowest ([0 \<mapsto> ?h]) = Some 1" "lowest ([0 \<mapsto> ?h, 1 \<mapsto> ?h]) = Some 2"
    "lowest ([0 \<mapsto> ?h, 1 \<mapsto> ?h, 2 \<mapsto> ?h]) = Some 3" by (simp_all add: lowest_def descriptors_def)
  have "[0 \<mapsto> ?h, 1 \<mapsto> ?h, 2 \<mapsto> ?h] = (\<lambda>d :: int. if 0 \<le> d \<and> d < 3 then Some ?h else None)" by (auto simp: fun_eq_iff)
  moreover have "[0 \<mapsto> ?h, 1 \<mapsto> ?h, 2 \<mapsto> ?h](3 := None) = ([0 \<mapsto> ?h, 1 \<mapsto> ?h, 2 \<mapsto> ?h] :: fdt)" by (auto simp: fun_eq_iff)
  ultimately show ?thesis using l by (simp add: numeral_eq_Suc)
qed

subsection \<open>Witnesses\<close>

definition demo_line :: string where
  "demo_line = ''ls -l|wc>out&'' @ [CHR 0x0A]"

definition demo_gline :: gline where
  "demo_gline = GLine (GPipe (GSimple [IWord ''ls'', IWord ''-l'']) (Some (GPipe (GSimple [IWord ''wc'', IRedir (CHR ''>'', ''out'')]) None))) 1 None"

definition demo_fds :: fdt where
  "demo_fds d = (if 0 \<le> d \<and> d < 3 then Some (HOther 0) else None)"

lemma demo_tokens: "tokens demo_line = flat_line demo_gline" "wf_line demo_gline" "CHR 0x00 \<notin> set demo_line" "fds_ok demo_fds"
  by code_simp+

theorem parsecmd_grammar_witness:
  "parsecmd demo_line = POk (BACK (PIPE (EXEC [''ls'', ''-l'']) (REDIR (EXEC [''wc'']) ''out'' (O_WRONLY + O_CREATE + O_TRUNC) 1)))"
proof -
  have "ast_line demo_gline = BACK (PIPE (EXEC [''ls'', ''-l'']) (REDIR (EXEC [''wc'']) ''out'' (O_WRONLY + O_CREATE + O_TRUNC) 1))"
    by (simp add: demo_gline_def redir_of_def wrap_def)
  then show ?thesis using parsecmd_grammar [OF demo_tokens(3), of "ast_line demo_gline"] demo_tokens(1,2) by auto
qed

theorem child_runs_meaning_witness:
  "fst (run (child demo_line) 0 demo_fds) =
   [Execs ''ls'' [''ls'', ''-l''] (demo_fds(1 \<mapsto> HWrite 0)),
    Execs ''wc'' [''wc''] (demo_fds(0 \<mapsto> HRead 0, 1 \<mapsto> HFile ''out'' (O_WRONLY + O_CREATE + O_TRUNC))), Exits 0, Exits 0]"
  using child_runs_meaning [OF demo_tokens(3,2,1,4), of 0] by (simp add: demo_gline_def redir_of_def wrap_def)

theorem cd_loses_last_character_witness:
  "main_line (''cd '' @ ''src'' @ [CHR 0x0A]) = Chdir ''src'' \<and> main_line (''cd '' @ ''src'') = Chdir ''sr''"
  using cd_loses_last_character [of "''src''"] by simp

theorem main_loop_lines_witness:
  "main_loop (concat (map (\<lambda>b. b @ [10]) [[108, 115], [32], [99, 100, 32, 97]])) = [RunChild (''ls'' @ [CHR 0x0A]), Blank, Chdir ''a'']"
proof -
  have "list_all line_ok [[108, 115], [32], [99, 100, 32, 97]]" by (simp add: line_ok_def)
  moreover have "map (\<lambda>b. main_line (text_of (b @ [10]))) [[108, 115], [32], [99, 100, 32, 97]] = [RunChild (''ls'' @ [CHR 0x0A]), Blank, Chdir ''a'']"
    by code_simp
  ultimately show ?thesis using main_loop_lines [of "[[108, 115], [32], [99, 100, 32, 97]]"] by simp
qed

end
