(* ===== verification/Mkfs.thy ===== *)
theory Mkfs
  imports Names "HOL-Library.Monad_Syntax"
begin

text \<open>
  The builder of the file system image, \<^verbatim>\<open>mkfs/mkfs.c\<close>. The image is a map from sectors to blocks together with the
  counters \<^verbatim>\<open>freeinode\<close> and \<^verbatim>\<open>freeblock\<close>. The host file has the \<open>FSSIZE\<close> sectors that \<^verbatim>\<open>main\<close> writes first: a read behind
  them fails, and every later write goes to a sector that was read before. A failed \<^verbatim>\<open>assert\<close> and \<^verbatim>\<open>die\<close> are \<open>None\<close>; other
  errors of the host (no space for the image file) are left out, and so are the messages. The host is little-endian. On disk the layout is that of the
  kernel, so the definitions of theory \<open>Fs\<close> for inodes (\<open>din_put\<close>, \<open>din_get\<close>), directory entries (\<open>de_make\<close>) and
  the bitmap (\<open>bmap_set\<close>) are used.

  The proofs follow the program from one block to the whole image: a fresh block enters the block map of a file (\<open>maps_ok\<close>), one turn of the loop of
  \<^verbatim>\<open>iappend\<close> extends the contents of a file (\<open>wrote\<close>), and each call keeps the image equal to a list of files (\<open>represents\<close>).
\<close>

subsection \<open>The program\<close>

definition FSSIZE :: nat where "FSSIZE = 2000"
definition NINODES :: nat where "NINODES = 200"

definition nbitmap :: nat where "nbitmap = FSSIZE div BPB + 1"
definition ninodeblocks :: nat where "ninodeblocks = NINODES div IPB + 1"
definition nlog :: nat where "nlog = nat LOGBLOCKS + 1"
definition nmeta :: nat where "nmeta = 2 + nlog + ninodeblocks + nbitmap"

definition xshort :: "u16 \<Rightarrow> u16" where
  "xshort x = word_of_int (horner_sum uint 256 [ucast x :: u8, ucast (drop_bit 8 x)])"

definition xint :: "u32 \<Rightarrow> u32" where
  "xint x = word_of_int (horner_sum uint 256 [ucast x :: u8, ucast (drop_bit 8 x), ucast (drop_bit 16 x), ucast (drop_bit 24 x)])"

text \<open>The sector map, \<^verbatim>\<open>freeinode\<close> and \<^verbatim>\<open>freeblock\<close>.\<close>

record image =
  img :: "u32 \<Rightarrow> block"
  freeinode :: nat
  freeblock :: nat

definition mk_sb :: superblock where
  "mk_sb = \<lparr>sb_magic = FSMAGIC, sb_size = xint (of_nat FSSIZE), sb_nblocks = xint (of_nat (FSSIZE - nmeta)), sb_ninodes = xint (of_nat NINODES),
     sb_nlog = xint (of_nat nlog), sb_logstart = xint 2, sb_inodestart = xint (of_nat (2 + nlog)),
     sb_bmapstart = xint (of_nat (2 + nlog + ninodeblocks))\<rparr>"

definition rsect :: "u32 \<Rightarrow> image \<Rightarrow> block option" where
  "rsect sec m = (if unat sec < FSSIZE then Some (img m sec) else None)"

definition wsect :: "u32 \<Rightarrow> block \<Rightarrow> image \<Rightarrow> image" where
  "wsect sec b m = m\<lparr>img := (img m)(sec := b)\<rparr>"

text \<open>A \<^verbatim>\<open>struct dinode\<close> of zeroes; the fields that only the kernel has in memory are 0.\<close>

definition zero_din :: inode where
  "zero_din = \<lparr>i_dev = 0, i_inum = 0, i_ref = 0, i_valid = False, i_type = 0, i_major = 0, i_minor = 0, i_nlink = 0,
     i_size = 0, i_addrs = (\<lambda>_. 0)\<rparr>"

definition winode :: "u32 \<Rightarrow> inode \<Rightarrow> image \<Rightarrow> image option" where
  "winode inum v m = do {
     let bn = IBLOCK inum mk_sb;
     buf \<leftarrow> rsect bn m;
     Some (wsect bn (din_put inum v buf) m)
   }"

definition rinode :: "u32 \<Rightarrow> image \<Rightarrow> inode option" where
  "rinode inum m = do {
     buf \<leftarrow> rsect (IBLOCK inum mk_sb) m;
     Some (din_get inum buf zero_din)
   }"

definition mk_ialloc :: "u16 \<Rightarrow> image \<Rightarrow> (u32 \<times> image) option" where
  "mk_ialloc type m = do {
     let inum = of_nat (freeinode m);
     let din = zero_din\<lparr>i_type := xshort type, i_nlink := xshort 1, i_size := xint 0\<rparr>;
     m \<leftarrow> winode inum din (m\<lparr>freeinode := freeinode m + 1\<rparr>);
     Some (inum, m)
   }"

definition mk_balloc :: "nat \<Rightarrow> image \<Rightarrow> image option" where
  "mk_balloc used m =
     (if used < BPB then Some (wsect (sb_bmapstart mk_sb) (fold (\<lambda>i b. bmap_set b i) [0..<used] (\<lambda>_. 0)) m) else None)"

text \<open>If entry \<open>k\<close> of the inode is empty, the next free block becomes it.\<close>

definition new_addr :: "nat \<Rightarrow> inode \<Rightarrow> image \<Rightarrow> inode \<times> image" where
  "new_addr k din m =
     (if xint (i_addrs din k) = 0
      then (din\<lparr>i_addrs := (i_addrs din)(k := xint (of_nat (freeblock m)))\<rparr>, m\<lparr>freeblock := freeblock m + 1\<rparr>) else (din, m))"

definition new_indirect :: "u32 \<Rightarrow> nat \<Rightarrow> image \<Rightarrow> (u32 \<times> image) option" where
  "new_indirect sec k m = do {
     indirect \<leftarrow> rsect sec m;
     if get32 indirect (4 * k) = 0
     then let ind = put32 indirect (4 * k) (xint (of_nat (freeblock m)))
          in Some (xint (get32 ind (4 * k)), wsect sec ind (m\<lparr>freeblock := freeblock m + 1\<rparr>))
     else Some (xint (get32 indirect (4 * k)), m)
   }"

definition iappend_block :: "nat \<Rightarrow> inode \<Rightarrow> image \<Rightarrow> (u32 \<times> inode \<times> image) option" where
  "iappend_block fbn din m =
     (if fbn < NDIRECT
      then let (din, m) = new_addr fbn din m in Some (xint (i_addrs din fbn), din, m)
      else let (din, m) = new_addr NDIRECT din m in do {
        (x, m) \<leftarrow> new_indirect (xint (i_addrs din NDIRECT)) (fbn - NDIRECT) m;
        Some (x, din, m)
      })"

text \<open>The bytes \<open>p\<close> go to the offset \<open>off\<close>, one block per turn.\<close>

definition chunk_len :: "nat \<Rightarrow> nat \<Rightarrow> nat" where
  "chunk_len off n = min n ((off div BSIZE + 1) * BSIZE - off)"

lemma chunk_len_pos: "0 < n \<Longrightarrow> 0 < chunk_len off n"
  using div_mult_mod_eq [of off BSIZE] by (simp add: chunk_len_def BSIZE_def)

definition iappend_step :: "nat \<Rightarrow> u8 list \<Rightarrow> inode \<Rightarrow> image \<Rightarrow> (inode \<times> image) option" where
  "iappend_step off p din m =
     (let fbn = off div BSIZE in
      if \<not> fbn < MAXFILE then None
      else do {
        (x, din, m) \<leftarrow> iappend_block fbn din m;
        buf \<leftarrow> rsect x m;
        Some (din, wsect x (put_bytes buf (off - fbn * BSIZE) (take (chunk_len off (length p)) p)) m)
      })"

function iappend_loop :: "nat \<Rightarrow> u8 list \<Rightarrow> inode \<Rightarrow> image \<Rightarrow> (nat \<times> inode \<times> image) option" where
  "iappend_loop off p din m =
     (if p = [] then Some (off, din, m)
      else do {
        (din, m) \<leftarrow> iappend_step off p din m;
        let n1 = chunk_len off (length p);
        iappend_loop (off + n1) (drop n1 p) din m
      })"
  by pat_completeness auto
termination
  by (relation "measure (\<lambda>(_, p, _, _). length p)") (auto simp: chunk_len_pos)

declare iappend_loop.simps [simp del]

definition iappend :: "u32 \<Rightarrow> u8 list \<Rightarrow> image \<Rightarrow> image option" where
  "iappend inum p m = do {
     din \<leftarrow> rinode inum m;
     (off, din, m) \<leftarrow> iappend_loop (unat (xint (i_size din))) p din m;
     winode inum (din\<lparr>i_size := xint (of_nat off)\<rparr>) m
   }"

primrec iappends :: "u32 \<Rightarrow> u8 list list \<Rightarrow> image \<Rightarrow> image option" where
  "iappends inum [] m = Some m"
| "iappends inum (c # cs) m = do { m \<leftarrow> iappend inum c m; iappends inum cs m }"

text \<open>
  A file on the command line: its name, and the pieces in which \<^verbatim>\<open>read\<close> delivers its contents, or \<open>None\<close> if it
  cannot be opened.
\<close>

type_synonym host_file = "string \<times> u8 list list option"

definition name_bytes :: "string \<Rightarrow> u8 list" where
  "name_bytes s = map of_char s"

definition shortname :: "string \<Rightarrow> string option" where
  "shortname a =
     (let s = (if take 5 a = ''user/'' then drop 5 a else a) in
      if CHR ''/'' \<in> set s then None
      else let s = (if s \<noteq> [] \<and> hd s = CHR ''_'' then tl s else s) in if length s \<le> DIRSIZ then Some s else None)"

definition add_file :: "host_file \<Rightarrow> image \<Rightarrow> image option" where
  "add_file f m = do {
     s \<leftarrow> shortname (fst f);
     chunks \<leftarrow> snd f;
     (inum, m) \<leftarrow> mk_ialloc T_FILE m;
     m \<leftarrow> iappend ROOTINO (de_make (xshort (ucast inum)) (name_bytes s)) m;
     iappends inum chunks m
   }"

primrec add_files :: "host_file list \<Rightarrow> image \<Rightarrow> image option" where
  "add_files [] m = Some m"
| "add_files (f # fs) m = do { m \<leftarrow> add_file f m; add_files fs m }"

definition sb_block :: block where
  "sb_block = (let b = (\<lambda>_. 0);
     b = put32 b 0 (sb_magic mk_sb); b = put32 b 4 (sb_size mk_sb); b = put32 b 8 (sb_nblocks mk_sb); b = put32 b 12 (sb_ninodes mk_sb);
     b = put32 b 16 (sb_nlog mk_sb); b = put32 b 20 (sb_logstart mk_sb); b = put32 b 24 (sb_inodestart mk_sb)
     in put32 b 28 (sb_bmapstart mk_sb))"

definition fix_root :: "image \<Rightarrow> image option" where
  "fix_root m = do {
     din \<leftarrow> rinode ROOTINO m;
     let off = (unat (xint (i_size din)) div BSIZE + 1) * BSIZE;
     winode ROOTINO (din\<lparr>i_size := xint (of_nat off)\<rparr>) m
   }"

definition empty_image :: image where
  "empty_image = \<lparr>img = (\<lambda>_ _. 0), freeinode = 1, freeblock = nmeta\<rparr>"

definition mkfs_main :: "host_file list \<Rightarrow> image option" where
  "mkfs_main files = do {
     let m = wsect 1 sb_block empty_image;
     (rootino, m) \<leftarrow> mk_ialloc T_DIR m;
     if rootino \<noteq> ROOTINO then None
     else do {
       m \<leftarrow> iappend rootino (de_make (xshort (ucast rootino)) (name_bytes ''.'')) m;
       m \<leftarrow> iappend rootino (de_make (xshort (ucast rootino)) (name_bytes ''..'')) m;
       m \<leftarrow> add_files files m;
       m \<leftarrow> fix_root m;
       mk_balloc (freeblock m) m
     }
   }"

subsection \<open>Byte order\<close>

lemma xint [simp]: "xint x = x"
  using get32_put32 [of "\<lambda>_. 0" 0 x] by (simp add: get32_def put32_def xint_def upt_rec del: get32_put32)

lemma xshort [simp]: "xshort x = x"
  using u16_join [of x] by (simp add: xshort_def)

subsection \<open>Block maps\<close>

text \<open>
  The block map of an inode: keys below \<open>MAXFILE\<close> are the blocks of the file, key \<open>MAXFILE\<close> is the indirect block.
  0 means that there is no block.
\<close>

definition kaddr :: "(u32 \<Rightarrow> block) \<Rightarrow> inode \<Rightarrow> nat \<Rightarrow> u32" where
  "kaddr d v f =
     (if f < NDIRECT then i_addrs v f
      else if f = MAXFILE then i_addrs v NDIRECT
      else if i_addrs v NDIRECT = 0 then 0
      else get32 (d (i_addrs v NDIRECT)) (4 * (f - NDIRECT)))"

definition fblock :: "(u32 \<Rightarrow> block) \<Rightarrow> inode \<Rightarrow> nat \<Rightarrow> block" where
  "fblock d v f = d (kaddr d v f)"

text \<open>The bytes of a file, as the kernel reads them.\<close>

definition contents :: "(u32 \<Rightarrow> block) \<Rightarrow> inode \<Rightarrow> nat \<Rightarrow> u8 list" where
  "contents d v n = map (\<lambda>k. fblock d v (k div BSIZE) (k mod BSIZE)) [0..<n]"

text \<open>
  Inode \<open>i < n\<close> uses the keys \<open>U i\<close>: its block map has blocks exactly there, all in the data area below \<open>fb\<close>, no
  block is used twice, the blocks from \<open>fb\<close> on are still zero, and every block of the data area below \<open>fb\<close> is used.
\<close>

definition maps_ok :: "nat \<Rightarrow> (nat \<Rightarrow> inode) \<Rightarrow> (nat \<Rightarrow> nat set) \<Rightarrow> nat \<Rightarrow> (u32 \<Rightarrow> block) \<Rightarrow> bool" where
  "maps_ok n D U fb d \<longleftrightarrow>
     (\<forall>i < n. \<forall>f \<le> MAXFILE. kaddr d (D i) f \<noteq> 0 \<longleftrightarrow> f \<in> U i) \<and>
     (\<forall>i < n. \<forall>f \<in> U i. f \<le> MAXFILE \<and> nmeta \<le> unat (kaddr d (D i) f) \<and> unat (kaddr d (D i) f) < fb) \<and>
     (\<forall>i < n. \<forall>j < n. \<forall>f \<in> U i. \<forall>g \<in> U j. kaddr d (D i) f = kaddr d (D j) g \<longrightarrow> i = j \<and> f = g) \<and>
     (\<forall>r. fb \<le> unat r \<longrightarrow> d r = (\<lambda>_. 0)) \<and> fb = nmeta + (\<Sum>i < n. card (U i))"

lemma maps_okD:
  assumes "maps_ok n D U fb d"
  shows "i < n \<Longrightarrow> f \<le> MAXFILE \<Longrightarrow> kaddr d (D i) f \<noteq> 0 \<longleftrightarrow> f \<in> U i"
    "i < n \<Longrightarrow> f \<in> U i \<Longrightarrow> f \<le> MAXFILE" "i < n \<Longrightarrow> f \<in> U i \<Longrightarrow> nmeta \<le> unat (kaddr d (D i) f)"
    "i < n \<Longrightarrow> f \<in> U i \<Longrightarrow> unat (kaddr d (D i) f) < fb"
    "i < n \<Longrightarrow> j < n \<Longrightarrow> f \<in> U i \<Longrightarrow> g \<in> U j \<Longrightarrow> kaddr d (D i) f = kaddr d (D j) g \<Longrightarrow> i = j \<and> f = g"
    "fb \<le> unat r \<Longrightarrow> d r = (\<lambda>_. 0)" "fb = nmeta + (\<Sum>i < n. card (U i))" "nmeta \<le> fb" "i < n \<Longrightarrow> finite (U i)"
proof -
  show "i < n \<Longrightarrow> finite (U i)" using assms unfolding maps_ok_def by (intro finite_subset [of "U i" "{..MAXFILE}"]) auto
  show "nmeta \<le> fb" using assms unfolding maps_ok_def by simp
qed (use assms in \<open>unfold maps_ok_def, blast+\<close>)

text \<open>Only the addresses of the inodes matter.\<close>

lemma maps_ok_kaddr:
  assumes m: "maps_ok n D U fb d" and k: "\<And>i f. i < n \<Longrightarrow> kaddr d' (D' i) f = kaddr d (D i) f" and z: "\<And>r. fb \<le> unat r \<Longrightarrow> d' r = d r"
  shows "maps_ok n D' U fb d'"
  unfolding maps_ok_def
proof (intro conjI allI impI ballI)
  show "fb = nmeta + (\<Sum>i < n. card (U i))" by (rule maps_okD(7) [OF m])
  fix i j f g assume "i < n" "j < n" "f \<in> U i" "g \<in> U j" "kaddr d' (D' i) f = kaddr d' (D' j) g"
  then show "i = j" "f = g" using maps_okD(5) [OF m, of i j f g] k by simp_all
qed (use maps_okD(1-4,6) [OF m] k z in simp_all)

lemma nmeta_eq: "nmeta = 47"
  by (simp add: nmeta_def nlog_def LOGBLOCKS_def MAXOPBLOCKS_def ninodeblocks_def nbitmap_def NINODES_def FSSIZE_def IPB_def BPB_def BSIZE_def)

lemma unat_fb: "fb < 2 ^ 32 - 1 \<Longrightarrow> unat (of_nat fb :: u32) = fb"
  by (simp add: unsigned_of_nat take_bit_nat_eq_self)

text \<open>A fresh block becomes key \<open>f\<close> of inode \<open>i\<close>.\<close>

lemma maps_ok_insert:
  assumes m: "maps_ok n D U fb d" and i: "i < n" "f \<le> MAXFILE" "f \<notin> U i" and fb: "fb < 2 ^ 32 - 1"
    and k: "\<And>j g. j < n \<Longrightarrow> g \<le> MAXFILE \<Longrightarrow> kaddr d' (D' j) g = (if j = i \<and> g = f then of_nat fb else kaddr d (D j) g)"
    and z: "\<And>r. fb < unat r \<Longrightarrow> d' r = d r"
  shows "maps_ok n D' (U(i := insert f (U i))) (Suc fb) d'"
proof -
  note m' = maps_okD [OF m]
  have u: "unat (of_nat fb :: u32) = fb" using fb by (rule unat_fb)
  have nz: "(of_nat fb :: u32) \<noteq> 0" using u m'(8) by (auto simp: nmeta_eq)
  have kj: "kaddr d' (D' j) g = (if j = i \<and> g = f then of_nat fb else kaddr d (D j) g)" if "j < n" "g \<in> (U(i := insert f (U i))) j" for j g
    using that k m'(2) i(2) by (cases "j = i") auto
  have old: "kaddr d (D j) g \<noteq> of_nat fb" if "j < n" "g \<in> U j" for j g using m'(4) [OF that] u by auto
  have "\<forall>j < n. \<forall>g \<le> MAXFILE. kaddr d' (D' j) g \<noteq> 0 \<longleftrightarrow> g \<in> (U(i := insert f (U i))) j" using k m'(1) nz by auto
  moreover have "\<forall>j < n. \<forall>g \<in> (U(i := insert f (U i))) j. g \<le> MAXFILE \<and> nmeta \<le> unat (kaddr d' (D' j) g) \<and> unat (kaddr d' (D' j) g) < Suc fb"
  proof (intro allI impI ballI)
    fix j g assume j: "j < n" "g \<in> (U(i := insert f (U i))) j"
    show "g \<le> MAXFILE \<and> nmeta \<le> unat (kaddr d' (D' j) g) \<and> unat (kaddr d' (D' j) g) < Suc fb"
    proof (cases "j = i \<and> g = f")
      case True
      then show ?thesis using kj [OF j] u m'(8) i(2) by simp
    next
      case False
      then have "g \<in> U j" using j(2) by (auto split: if_splits)
      then show ?thesis using kj [OF j] False m'(2-4) [OF j(1)] by (auto simp: less_Suc_eq)
    qed
  qed
  moreover have "\<forall>j < n. \<forall>j' < n. \<forall>g \<in> (U(i := insert f (U i))) j. \<forall>h \<in> (U(i := insert f (U i))) j'. kaddr d' (D' j) g = kaddr d' (D' j') h \<longrightarrow> j = j' \<and> g = h"
  proof (intro allI impI ballI)
    fix j j' g h assume j: "j < n" "j' < n" "g \<in> (U(i := insert f (U i))) j" "h \<in> (U(i := insert f (U i))) j'" "kaddr d' (D' j) g = kaddr d' (D' j') h"
    consider "j = i" "g = f" "j' = i" "h = f" | "j = i" "g = f" "h \<in> U j'" "\<not> (j' = i \<and> h = f)" | "j' = i" "h = f" "g \<in> U j" "\<not> (j = i \<and> g = f)"
      | "g \<in> U j" "h \<in> U j'" "\<not> (j = i \<and> g = f)" "\<not> (j' = i \<and> h = f)" using j(3,4) by (auto split: if_splits)
    then show "j = j' \<and> g = h"
    proof cases
      case 2
      then show ?thesis using kj [OF j(1,3)] kj [OF j(2,4)] j(5) old [OF j(2) 2(3)] by (auto split: if_splits)
    next
      case 3
      then show ?thesis using kj [OF j(1,3)] kj [OF j(2,4)] j(5) old [OF j(1) 3(3)] by (auto split: if_splits)
    next
      case 4
      then show ?thesis using kj [OF j(1,3)] kj [OF j(2,4)] j(5) m'(5) [OF j(1,2) 4(1,2)] by auto
    qed simp
  qed
  moreover have "\<forall>r. Suc fb \<le> unat r \<longrightarrow> d' r = (\<lambda>_. 0)" using z m'(6) by (simp add: Suc_le_eq)
  moreover have "card (insert f (U i)) = Suc (card (U i))" using i(3) m'(9) [OF i(1)] by simp
  then have "Suc fb = nmeta + (\<Sum>j < n. card ((U(i := insert f (U i))) j))"
    using m'(7) i(1) by (simp add: sum.remove [of "{..<n}" i])
  ultimately show ?thesis unfolding maps_ok_def by - (intro conjI; assumption)
qed

text \<open>The blocks that files had before are as they were.\<close>

definition same_files :: "nat \<Rightarrow> (nat \<Rightarrow> nat set) \<Rightarrow> (nat \<Rightarrow> inode) \<Rightarrow> (u32 \<Rightarrow> block) \<Rightarrow> (nat \<Rightarrow> inode) \<Rightarrow> (u32 \<Rightarrow> block) \<Rightarrow> bool" where
  "same_files n U D d D' d' \<longleftrightarrow> (\<forall>j < n. \<forall>g \<in> U j. g < MAXFILE \<longrightarrow> fblock d' (D' j) g = fblock d (D j) g)"

lemma MAXFILE_eq: "MAXFILE = 268" "NDIRECT = 12"
  by (simp_all add: MAXFILE_def NDIRECT_def NINDIRECT_def BSIZE_def)

lemma get32_zero: "get32 (\<lambda>_. 0) off = 0"
  by (simp add: get32_def upt_rec)

lemma alloc_addr:
  assumes m: "maps_ok n D U fb d" and i: "i < n" "f \<notin> U i" and fb: "fb < 2 ^ 32 - 1" and f: "f < NDIRECT \<and> k = f \<or> f = MAXFILE \<and> k = NDIRECT"
  defines "D' \<equiv> D(i := (D i)\<lparr>i_addrs := (i_addrs (D i))(k := of_nat fb)\<rparr>)"
  shows "maps_ok n D' (U(i := insert f (U i))) (Suc fb) d" "same_files n U D d D' d" "kaddr d (D' i) f = of_nat fb"
proof -
  note m' = maps_okD [OF m]
  have fz: "f \<le> MAXFILE" using f by (auto simp: MAXFILE_eq)
  then have a0: "kaddr d (D i) f = 0" using m'(1) [OF i(1)] i(2) by blast
  have u: "unat (of_nat fb :: u32) = fb" using fb by (rule unat_fb)
  then have z: "d (of_nat fb) = (\<lambda>_. 0)" using m'(6) by simp
  have k: "kaddr d (D' j) g = (if j = i \<and> g = f then of_nat fb else kaddr d (D j) g)" if "g \<le> MAXFILE" for j g
    using f a0 z that by (auto simp: D'_def kaddr_def get32_zero MAXFILE_eq)
  show "maps_ok n D' (U(i := insert f (U i))) (Suc fb) d"
    by (rule maps_ok_insert [OF m i(1) fz i(2) fb]) (use k in auto)
  show "kaddr d (D' i) f = of_nat fb" using k [OF fz] by simp
  show "same_files n U D d D' d" using k i(2) unfolding same_files_def fblock_def by auto
qed

lemma alloc_entry:
  assumes m: "maps_ok n D U fb d" and i: "i < n" "f \<notin> U i" "MAXFILE \<in> U i" and fb: "fb < 2 ^ 32 - 1" and f: "NDIRECT \<le> f" "f < MAXFILE"
  defines "s \<equiv> i_addrs (D i) NDIRECT"
  defines "d' \<equiv> d(s := put32 (d s) (4 * (f - NDIRECT)) (of_nat fb))"
  shows "maps_ok n D (U(i := insert f (U i))) (Suc fb) d'" "same_files n U D d D d'" "kaddr d' (D i) f = of_nat fb"
proof -
  note m' = maps_okD [OF m]
  have sk: "kaddr d (D i) MAXFILE = s" by (simp add: s_def kaddr_def MAXFILE_eq)
  then have s0: "s \<noteq> 0" "unat s < fb" using m'(1) [OF i(1), of MAXFILE] i(3) m'(4) [OF i(1,3)] by auto
  have other: "i_addrs (D j) NDIRECT \<noteq> s" if j: "j < n" "j \<noteq> i" for j
  proof
    assume a: "i_addrs (D j) NDIRECT = s"
    then have "kaddr d (D j) MAXFILE = s" by (simp add: kaddr_def MAXFILE_eq)
    then have "MAXFILE \<in> U j" using m'(1) [OF j(1), of MAXFILE] s0(1) by simp
    then show False using m'(5) [OF j(1) i(1) _ i(3)] sk \<open>kaddr d (D j) MAXFILE = s\<close> j(2) by blast
  qed
  have entry: "get32 (put32 (d s) (4 * a) v) (4 * b) = get32 (d s) (4 * b)" if "a \<noteq> b" for a b v
    using that by (intro get32_cong) (auto simp: put32_def)
  have k: "kaddr d' (D j) g = (if j = i \<and> g = f then of_nat fb else kaddr d (D j) g)" if j: "j < n" "g \<le> MAXFILE" for j g
  proof (cases "j = i")
    case True
    then show ?thesis using f s0(1) entry [of "f - NDIRECT" "g - NDIRECT"] by (auto simp: d'_def kaddr_def s_def [symmetric])
  next
    case False
    then show ?thesis using other [OF j(1) False] by (simp add: kaddr_def d'_def)
  qed
  show "maps_ok n D (U(i := insert f (U i))) (Suc fb) d'"
    by (rule maps_ok_insert [OF m i(1) _ i(2) fb]) (use k f s0(2) in \<open>auto simp: d'_def\<close>)
  show "kaddr d' (D i) f = of_nat fb" using k [OF i(1), of f] f by simp
  have "kaddr d (D j) g \<noteq> s" if "j < n" "g \<in> U j" "g < MAXFILE" for j g
    using m'(5) [OF that(1) i(1) that(2) i(3)] that(3) sk by auto
  then show "same_files n U D d D d'" using k i(2) unfolding same_files_def fblock_def by (auto simp: d'_def)
qed

lemma write_block:
  fixes b :: block
  assumes m: "maps_ok n D U fb d" and i: "i < n" "f \<in> U i" "f < MAXFILE"
  defines "d' \<equiv> d(kaddr d (D i) f := b)"
  shows "maps_ok n D U fb d'" "j < n \<Longrightarrow> g \<in> U j \<Longrightarrow> g < MAXFILE \<Longrightarrow> fblock d' (D j) g = (if j = i \<and> g = f then b else fblock d (D j) g)"
proof -
  note m' = maps_okD [OF m]
  have x: "kaddr d (D i) f \<noteq> 0" "unat (kaddr d (D i) f) < fb" using m'(1) [OF i(1), of f] i m'(4) [OF i(1,2)] by auto
  have other: "i_addrs (D j) NDIRECT \<noteq> kaddr d (D i) f" if j: "j < n" for j
  proof
    assume a: "i_addrs (D j) NDIRECT = kaddr d (D i) f"
    then have e: "kaddr d (D j) MAXFILE = kaddr d (D i) f" by (simp add: kaddr_def MAXFILE_eq)
    then have "MAXFILE \<in> U j" using m'(1) [OF j, of MAXFILE] x(1) by simp
    then show False using m'(5) [OF j i(1) _ i(2) e] i(3) by simp
  qed
  have k: "kaddr d' (D j) g = kaddr d (D j) g" if "j < n" for j g
    using other [OF that] by (simp add: kaddr_def d'_def)
  show "maps_ok n D U fb d'" by (rule maps_ok_kaddr [OF m k]) (use x(2) in \<open>auto simp: d'_def\<close>)
  show "fblock d' (D j) g = (if j = i \<and> g = f then b else fblock d (D j) g)" if "j < n" "g \<in> U j" "g < MAXFILE"
    using m'(5) [OF that(1) i(1) that(2) i(2)] k [OF that(1)] by (auto simp: fblock_def d'_def)
qed

subsection \<open>One turn of iappend\<close>

lemma same_files_refl [simp]: "same_files n U D d D d"
  by (simp add: same_files_def)

lemma same_files_trans: "same_files n U D d D' d' \<Longrightarrow> same_files n V D' d' D'' d'' \<Longrightarrow> (\<And>j. j < n \<Longrightarrow> U j \<subseteq> V j) \<Longrightarrow> same_files n U D d D'' d''"
  by (simp add: same_files_def subset_iff)

text \<open>What is not in the data area, and the inode apart from its addresses, stay as they are.\<close>

definition outside_same :: "image \<Rightarrow> image \<Rightarrow> bool" where
  "outside_same m m' \<longleftrightarrow> freeinode m' = freeinode m \<and> freeblock m \<le> freeblock m' \<and> (\<forall>r. unat r < nmeta \<longrightarrow> img m' r = img m r)"

definition same_inode :: "inode \<Rightarrow> inode \<Rightarrow> bool" where
  "same_inode v w \<longleftrightarrow> (\<exists>a. w = v\<lparr>i_addrs := a\<rparr> \<and> (\<forall>k > NDIRECT. a k = i_addrs v k))"

lemma outside_same_refl [simp]: "outside_same m m"
  by (simp add: outside_same_def)

lemma outside_same_trans: "outside_same m m' \<Longrightarrow> outside_same m' m'' \<Longrightarrow> outside_same m m''"
  by (auto simp: outside_same_def)

lemma same_inode_refl [simp]: "same_inode v v"
  unfolding same_inode_def by (intro exI [of _ "i_addrs v"]) simp

lemma same_inode_trans: "same_inode u v \<Longrightarrow> same_inode v w \<Longrightarrow> same_inode u w"
  unfolding same_inode_def by fastforce

definition appended :: "nat \<Rightarrow> (nat \<Rightarrow> nat set) \<Rightarrow> (nat \<Rightarrow> inode) \<Rightarrow> image \<Rightarrow> nat \<Rightarrow> nat set \<Rightarrow> inode \<Rightarrow> image \<Rightarrow> bool" where
  "appended n U D m i K v m' \<longleftrightarrow> maps_ok n (D(i := v)) (U(i := K)) (freeblock m') (img m') \<and>
     same_files n U D (img m) (D(i := v)) (img m') \<and> outside_same m m' \<and> same_inode (D i) v"

lemma new_addr_ok:
  assumes m: "maps_ok n D U (freeblock m) (img m)" and i: "i < n" and fb: "freeblock m < 2 ^ 32 - 1"
    and f: "f < NDIRECT \<and> k = f \<or> f = MAXFILE \<and> k = NDIRECT" and r: "new_addr k (D i) m = (v, m')"
  shows "appended n U D m i (insert f (U i)) v m'" "i_addrs v k = kaddr (img m') v f"
    "f \<in> U i \<Longrightarrow> m' = m" "f \<notin> U i \<Longrightarrow> freeblock m' = Suc (unat (i_addrs v k))" "f \<notin> U i \<Longrightarrow> freeblock m' = Suc (freeblock m)"
    "f \<notin> U i \<Longrightarrow> img m' (i_addrs v k) = (\<lambda>_. 0)"
proof -
  have ka: "kaddr d w f = i_addrs w k" for d w using f by (auto simp: kaddr_def MAXFILE_eq)
  then show "i_addrs v k = kaddr (img m') v f" by simp
  have fz: "f \<le> MAXFILE" using f by (auto simp: MAXFILE_eq)
  have used: "i_addrs (D i) k = 0 \<longleftrightarrow> f \<notin> U i" using maps_okD(1) [OF m i fz] ka by auto
  show "f \<in> U i \<Longrightarrow> m' = m" using r used by (auto simp: new_addr_def)
  have new: "v = (D i)\<lparr>i_addrs := (i_addrs (D i))(k := of_nat (freeblock m))\<rparr>" "m' = m\<lparr>freeblock := freeblock m + 1\<rparr>" if "f \<notin> U i"
    using r used that by (auto simp: new_addr_def)
  show "f \<notin> U i \<Longrightarrow> freeblock m' = Suc (unat (i_addrs v k))" "f \<notin> U i \<Longrightarrow> freeblock m' = Suc (freeblock m)"
    using new unat_fb [OF fb] by auto
  show "f \<notin> U i \<Longrightarrow> img m' (i_addrs v k) = (\<lambda>_. 0)"
    using new unat_fb [OF fb] maps_okD(6) [OF m] by simp
  show "appended n U D m i (insert f (U i)) v m'"
  proof (cases "f \<in> U i")
    case True
    then have "v = D i" "m' = m" using r used by (auto simp: new_addr_def)
    then show ?thesis using m True by (simp add: appended_def insert_absorb)
  next
    case False
    have kn: "k \<le> NDIRECT" using f by auto
    show ?thesis unfolding appended_def using alloc_addr(1,2) [OF m i False fb f] new [OF False] kn
      by (auto simp: outside_same_def same_inode_def)
  qed
qed

lemma new_indirect_ok:
  assumes m: "maps_ok n D U (freeblock m) (img m)" and i: "i < n" "MAXFILE \<in> U i" and fb: "freeblock m < 2 ^ 32 - 1"
    and f: "NDIRECT \<le> f" "f < MAXFILE" and r: "new_indirect (i_addrs (D i) NDIRECT) (f - NDIRECT) m = Some (x, m')"
  shows "appended n U D m i (insert f (U i)) (D i) m'" "x = kaddr (img m') (D i) f" "unat (i_addrs (D i) NDIRECT) < FSSIZE"
    "f \<in> U i \<Longrightarrow> m' = m" "f \<notin> U i \<Longrightarrow> freeblock m' = Suc (unat x)" "f \<notin> U i \<Longrightarrow> freeblock m' = Suc (freeblock m)"
    "f \<notin> U i \<Longrightarrow> img m' x = (\<lambda>_. 0)"
proof -
  let ?s = "i_addrs (D i) NDIRECT" and ?o = "4 * (f - NDIRECT)"
  show s: "unat ?s < FSSIZE" using r by (auto simp: new_indirect_def rsect_def split: if_splits)
  have s0: "?s \<noteq> 0" using maps_okD(1) [OF m i(1), of MAXFILE] i(2) by (simp add: kaddr_def MAXFILE_eq)
  have sn: "nmeta \<le> unat ?s" using maps_okD(3) [OF m i] by (simp add: kaddr_def MAXFILE_eq)
  have ka: "kaddr (img m) (D i) f = get32 (img m ?s) ?o" using f s0 by (simp add: kaddr_def)
  then have used: "get32 (img m ?s) ?o = 0 \<longleftrightarrow> f \<notin> U i" using maps_okD(1) [OF m i(1), of f] f by auto
  have old: "x = get32 (img m ?s) ?o" "m' = m" if "f \<in> U i" using r s used that by (auto simp: new_indirect_def rsect_def)
  have new: "x = of_nat (freeblock m)" "m' = wsect ?s (put32 (img m ?s) ?o (of_nat (freeblock m))) (m\<lparr>freeblock := freeblock m + 1\<rparr>)" if "f \<notin> U i"
    using r s used that by (auto simp: new_indirect_def rsect_def Let_def)
  show "f \<in> U i \<Longrightarrow> m' = m" using old by simp
  show "f \<notin> U i \<Longrightarrow> freeblock m' = Suc (unat x)" "f \<notin> U i \<Longrightarrow> freeblock m' = Suc (freeblock m)"
    using new unat_fb [OF fb] by (auto simp: wsect_def)
  have "unat ?s < freeblock m" using maps_okD(4) [OF m i] by (simp add: kaddr_def MAXFILE_eq)
  then show "f \<notin> U i \<Longrightarrow> img m' x = (\<lambda>_. 0)"
    using new unat_fb [OF fb] maps_okD(6) [OF m] by (auto simp: wsect_def)
  have "appended n U D m i (insert f (U i)) (D i) m' \<and> x = kaddr (img m') (D i) f"
  proof (cases "f \<in> U i")
    case True
    then show ?thesis using m old ka by (simp add: appended_def insert_absorb)
  next
    case False
    show ?thesis unfolding appended_def using alloc_entry [OF m i(1) False i(2) fb f] new [OF False] sn
      by (auto simp: outside_same_def wsect_def)
  qed
  then show "appended n U D m i (insert f (U i)) (D i) m'" "x = kaddr (img m') (D i) f" by auto
qed

lemma appended_trans:
  assumes "appended n U D m i K v m'" "appended n (U(i := K)) (D(i := v)) m' i L w m''" "U i \<subseteq> K"
  shows "appended n U D m i L w m''"
  using assms same_files_trans [of n U D "img m" "D(i := v)" "img m'" "U(i := K)" "D(i := w)" "img m''"]
  by (auto simp: appended_def intro: outside_same_trans same_inode_trans)

text \<open>The keys of block \<open>f\<close>.\<close>

definition keys_at :: "nat \<Rightarrow> nat set" where
  "keys_at f = (if f < NDIRECT then {f} else {f, MAXFILE})"

lemma iappend_block_ok:
  assumes m: "maps_ok n D U (freeblock m) (img m)" and i: "i < n" and fb: "freeblock m < 2 ^ 32 - 2" "freeblock m \<le> FSSIZE" and f: "f < MAXFILE"
    and r: "iappend_block f (D i) m = Some (x, v, m')" and x: "unat x < FSSIZE"
  shows "appended n U D m i (U i \<union> keys_at f) v m'" "x = kaddr (img m') v f" "freeblock m' \<le> FSSIZE" "f \<notin> U i \<Longrightarrow> fblock (img m') v f = (\<lambda>_. 0)"
proof -
  have "appended n U D m i (U i \<union> keys_at f) v m' \<and> x = kaddr (img m') v f \<and> freeblock m' \<le> FSSIZE \<and> (f \<notin> U i \<longrightarrow> img m' x = (\<lambda>_. 0))"
  proof (cases "f < NDIRECT")
    case True
    then have a: "new_addr f (D i) m = (v, m')" "x = i_addrs v f" using r by (auto simp: iappend_block_def split: prod.splits)
    have "f < NDIRECT \<and> f = f \<or> f = MAXFILE \<and> f = NDIRECT" using True by simp
    note n = new_addr_ok [OF m i _ this a(1)]
    show ?thesis using n True a(2) x fb by (cases "f \<in> U i") (auto simp: keys_at_def)
  next
    case False
    then obtain m1 where a: "new_addr NDIRECT (D i) m = (v, m1)" and b: "new_indirect (i_addrs v NDIRECT) (f - NDIRECT) m1 = Some (x, m')"
      using r by (auto simp: iappend_block_def split: prod.splits bind_splits)
    have k: "MAXFILE < NDIRECT \<and> NDIRECT = MAXFILE \<or> MAXFILE = MAXFILE \<and> NDIRECT = NDIRECT" by simp
    have fb1: "freeblock m < 2 ^ 32 - 1" using fb(1) by simp
    note n1 = new_addr_ok [OF m i fb1 k a]
    let ?K = "insert MAXFILE (U i)"
    have m1: "maps_ok n (D(i := v)) (U(i := ?K)) (freeblock m1) (img m1)" using n1(1) by (simp add: appended_def)
    have fb2: "freeblock m1 < 2 ^ 32 - 1" using n1(3,5) fb(1) by (cases "MAXFILE \<in> U i") auto
    have fn: "NDIRECT \<le> f" using False by simp
    have b': "new_indirect (i_addrs ((D(i := v)) i) NDIRECT) (f - NDIRECT) m1 = Some (x, m')" using b by simp
    have mk: "MAXFILE \<in> (U(i := ?K)) i" by simp
    note n2 = new_indirect_ok [OF m1 i mk fb2 fn f b']
    have ap: "appended n U D m i (insert f ?K) v m'" by (rule appended_trans [OF n1(1)]) (use n2(1) in \<open>simp only: fun_upd_same\<close>, blast)
    have "U i \<union> keys_at f = insert f ?K" using False by (auto simp: keys_at_def)
    moreover have fu: "f \<in> (U(i := ?K)) i \<longleftrightarrow> f \<in> U i" using f by auto
    have "freeblock m' \<le> FSSIZE"
    proof (cases "f \<in> U i")
      case True
      then have "kaddr (img m) (D i) f \<noteq> 0" using maps_okD(1) [OF m i, of f] f by auto
      then have "kaddr (img m) (D i) MAXFILE \<noteq> 0" using fn f by (auto simp: kaddr_def MAXFILE_eq split: if_splits)
      then have "MAXFILE \<in> U i" using maps_okD(1) [OF m i, of MAXFILE] by auto
      then show ?thesis using n1(3) n2(4) fu True fb(2) by simp
    next
      case False
      then show ?thesis using n2(5) fu x by simp
    qed
    moreover have "x = kaddr (img m') v f" using n2(2) by simp
    moreover have "f \<notin> U i \<longrightarrow> img m' x = (\<lambda>_. 0)" using n2(7) fu by blast
    ultimately show ?thesis using ap by simp
  qed
  then show "appended n U D m i (U i \<union> keys_at f) v m'" "x = kaddr (img m') v f" "freeblock m' \<le> FSSIZE" "f \<notin> U i \<Longrightarrow> fblock (img m') v f = (\<lambda>_. 0)"
    by (auto simp: fblock_def)
qed

subsection \<open>Appending bytes\<close>

definition nblk :: "nat \<Rightarrow> nat" where
  "nblk s = (s + BSIZE - 1) div BSIZE"

definition keys :: "nat \<Rightarrow> nat set" where
  "keys s = {f. f < nblk s} \<union> (if NDIRECT < nblk s then {MAXFILE} else {})"

lemma BSIZE_pos [simp]: "0 < BSIZE"
  by (simp add: BSIZE_def)

lemma block_arith:
  obtains q where "n div BSIZE = q" "1024 * q \<le> n" "n < 1024 + 1024 * q"
  using times_div_less_eq_dividend [of BSIZE n] dividend_less_times_div [of BSIZE n] unfolding BSIZE_def by fastforce

lemma nblk_step:
  assumes "0 < k" "off + k \<le> (off div BSIZE + 1) * BSIZE"
  shows "nblk (off + k) = off div BSIZE + 1" "nblk off = (if off mod BSIZE = 0 then off div BSIZE else off div BSIZE + 1)"
proof -
  have "(off + k + BSIZE - 1) div BSIZE = off div BSIZE + 1"
  proof (rule div_nat_eqI)
    show "BSIZE * (off div BSIZE + 1) \<le> off + k + BSIZE - 1" using assms(1) by (rule_tac block_arith [of off]) (simp add: BSIZE_def)
    show "off + k + BSIZE - 1 < BSIZE * Suc (off div BSIZE + 1)" using assms by (simp add: algebra_simps BSIZE_def)
  qed
  then show "nblk (off + k) = off div BSIZE + 1" by (simp add: nblk_def)
  have "(off + BSIZE - 1) div BSIZE = (if off mod BSIZE = 0 then off div BSIZE else off div BSIZE + 1)"
  proof (rule block_arith [of off], rule div_nat_eqI)
    fix q assume q: "off div BSIZE = q" "1024 * q \<le> off" "off < 1024 + 1024 * q"
    have m: "off mod BSIZE = off - 1024 * q" using minus_mult_div_eq_mod [of off BSIZE] q(1) by (simp add: BSIZE_def)
    show "BSIZE * (if off mod BSIZE = 0 then off div BSIZE else off div BSIZE + 1) \<le> off + BSIZE - 1"
      "off + BSIZE - 1 < BSIZE * Suc (if off mod BSIZE = 0 then off div BSIZE else off div BSIZE + 1)"
      unfolding q(1) m using q(2,3) by (auto simp: BSIZE_def)
  qed
  then show "nblk off = (if off mod BSIZE = 0 then off div BSIZE else off div BSIZE + 1)" by (simp add: nblk_def)
qed

lemma keys_step:
  assumes "0 < k" "off + k \<le> (off div BSIZE + 1) * BSIZE"
  shows "keys off \<union> keys_at (off div BSIZE) = keys (off + k)"
  using nblk_step [OF assms] by (auto simp: keys_def keys_at_def)

lemma contents_cong: "(\<And>f. f < nblk s \<Longrightarrow> fblock d v f = fblock d' v' f) \<Longrightarrow> contents d v s = contents d' v' s"
proof -
  assume a: "\<And>f. f < nblk s \<Longrightarrow> fblock d v f = fblock d' v' f"
  have "k div BSIZE < nblk s" if "k < s" for k
  proof -
    have "k div BSIZE \<le> (s - 1) div BSIZE" using that by (intro div_le_mono) simp
    also have "\<dots> < nblk s" using that by (simp add: nblk_def BSIZE_def)
    finally show ?thesis .
  qed
  then show ?thesis using a by (simp add: contents_def)
qed

lemma chunk_len_le: "off + chunk_len off n \<le> (off div BSIZE + 1) * BSIZE" "chunk_len off n \<le> n"
proof -
  have "off < (off div BSIZE + 1) * BSIZE" by (rule block_arith [of off]) (simp add: BSIZE_def)
  then show "off + chunk_len off n \<le> (off div BSIZE + 1) * BSIZE" "chunk_len off n \<le> n" by (auto simp: chunk_len_def)
qed

text \<open>The bytes of the last block: what was there, then the new ones.\<close>

lemma contents_append:
  assumes k: "off + length bs \<le> (off div BSIZE + 1) * BSIZE"
    and old: "\<And>f. f < nblk off \<Longrightarrow> f \<noteq> off div BSIZE \<Longrightarrow> fblock d' v' f = fblock d v f"
    and last: "fblock d' v' (off div BSIZE) = put_bytes b (off - off div BSIZE * BSIZE) bs"
    and b: "off div BSIZE < nblk off \<Longrightarrow> b = fblock d v (off div BSIZE)"
  shows "contents d' v' (off + length bs) = contents d v off @ bs"
proof (rule nth_equalityI)
  show "length (contents d' v' (off + length bs)) = length (contents d v off @ bs)" by (simp add: contents_def)
  fix k assume "k < length (contents d' v' (off + length bs))"
  then have kl: "k < off + length bs" by (simp add: contents_def)
  have om: "off - off div BSIZE * BSIZE = off mod BSIZE" by (simp add: minus_div_mult_eq_mod)
  show "contents d' v' (off + length bs) ! k = (contents d v off @ bs) ! k"
  proof (cases "k < off")
    case True
    have kn: "k div BSIZE \<le> off div BSIZE" using True by (intro div_le_mono) simp
    have "k div BSIZE < nblk off"
    proof -
      have "k div BSIZE \<le> (off - 1) div BSIZE" using True by (intro div_le_mono) simp
      also have "\<dots> < nblk off" using True by (simp add: nblk_def BSIZE_def)
      finally show ?thesis .
    qed
    moreover have "k mod BSIZE < off mod BSIZE" if "k div BSIZE = off div BSIZE"
      using True that div_mult_mod_eq [of k BSIZE] div_mult_mod_eq [of off BSIZE] by (metis nat_add_left_cancel_less)
    ultimately have "fblock d' v' (k div BSIZE) (k mod BSIZE) = fblock d v (k div BSIZE) (k mod BSIZE)"
      using old [of "k div BSIZE"] last b om by (cases "k div BSIZE = off div BSIZE") (auto simp: put_bytes_def)
    then show ?thesis using True kl by (simp add: contents_def nth_append)
  next
    case False
    have kd: "k div BSIZE = off div BSIZE"
    proof (rule div_nat_eqI)
      show "BSIZE * (off div BSIZE) \<le> k" using False by (rule_tac block_arith [of off]) (simp add: BSIZE_def)
      show "k < BSIZE * Suc (off div BSIZE)" using kl k by (simp add: algebra_simps)
    qed
    obtain q where q: "off div BSIZE = q" "1024 * q \<le> off" by (rule block_arith [of off])
    have "k mod BSIZE = k - 1024 * q" "off mod BSIZE = off - 1024 * q"
      using minus_mult_div_eq_mod [of k BSIZE] minus_mult_div_eq_mod [of off BSIZE] q(1) kd by (simp_all add: BSIZE_def)
    moreover obtain j where j: "k = off + j" "j < length bs" using False kl by (metis le_Suc_ex nat_add_left_cancel_less not_less)
    ultimately have "k mod BSIZE = off mod BSIZE + j" using q(2) by linarith
    then have "fblock d' v' (k div BSIZE) (k mod BSIZE) = bs ! j" using kd last om j(2) by (simp add: put_bytes_def)
    then show ?thesis using j by (simp add: contents_def nth_append)
  qed
qed

subsection \<open>Appending to a file\<close>

text \<open>All inodes below \<open>n\<close> have the blocks of their sizes.\<close>

definition files_ok :: "nat \<Rightarrow> (nat \<Rightarrow> inode) \<Rightarrow> (nat \<Rightarrow> nat) \<Rightarrow> image \<Rightarrow> bool" where
  "files_ok n D sizes m \<longleftrightarrow> maps_ok n D (\<lambda>i. keys (sizes i)) (freeblock m) (img m) \<and> freeblock m \<le> FSSIZE \<and> (\<forall>i < n. sizes i \<le> MAXFILE * BSIZE)"

text \<open>After \<open>bs\<close> has been appended to inode \<open>i\<close>, whose in-memory copy is now \<open>v\<close>.\<close>

definition wrote :: "nat \<Rightarrow> (nat \<Rightarrow> inode) \<Rightarrow> (nat \<Rightarrow> nat) \<Rightarrow> image \<Rightarrow> nat \<Rightarrow> u8 list \<Rightarrow> inode \<Rightarrow> image \<Rightarrow> bool" where
  "wrote n D sizes m i bs v m' \<longleftrightarrow> files_ok n (D(i := v)) (sizes(i := sizes i + length bs)) m' \<and>
     contents (img m') v (sizes i + length bs) = contents (img m) (D i) (sizes i) @ bs \<and>
     (\<forall>j < n. j \<noteq> i \<longrightarrow> contents (img m') (D j) (sizes j) = contents (img m) (D j) (sizes j)) \<and>
     outside_same m m' \<and> same_inode (D i) v"

lemma iappend_step_ok:
  assumes f: "files_ok n D sizes m" and i: "i < n" and p: "p \<noteq> []" and r: "iappend_step (sizes i) p (D i) m = Some (v, m')"
  shows "wrote n D sizes m i (take (chunk_len (sizes i) (length p)) p) v m'"
proof -
  let ?off = "sizes i" and ?n = "chunk_len (sizes i) (length p)" and ?f = "sizes i div BSIZE" and ?U = "\<lambda>i. keys (sizes i)"
  have fm: "?f < MAXFILE" using r by (auto simp: iappend_step_def Let_def split: if_splits)
  obtain x m1 where b: "iappend_block ?f (D i) m = Some (x, v, m1)" and x: "unat x < FSSIZE"
    and m': "m' = wsect x (put_bytes (img m1 x) (?off - ?f * BSIZE) (take ?n p)) m1"
    using r fm by (auto simp: iappend_step_def Let_def rsect_def split: bind_splits if_splits)
  have mo: "maps_ok n D ?U (freeblock m) (img m)" and fb: "freeblock m \<le> FSSIZE" using f by (simp_all add: files_ok_def)
  have fb': "freeblock m < 2 ^ 32 - 2" using fb by (simp add: FSSIZE_def)
  note bl = iappend_block_ok [OF mo i fb' fb fm b x]
  have n0: "0 < ?n" using p by (intro chunk_len_pos) simp
  note cl = chunk_len_le [of ?off "length p"]
  have len: "length (take ?n p) = ?n" using cl(2) by simp
  let ?V = "?U(i := keys (?off + ?n))"
  have V: "keys ?off \<union> keys_at ?f = keys (?off + ?n)" by (rule keys_step [OF n0 cl(1)])
  have ap: "appended n ?U D m i (keys (?off + ?n)) v m1" using bl(1) unfolding V .
  have m1: "maps_ok n (D(i := v)) ?V (freeblock m1) (img m1)" using ap by (simp add: appended_def)
  have fk: "?f \<in> ?V i" using nblk_step(1) [OF n0 cl(1)] by (simp add: keys_def)
  have xk: "x = kaddr (img m1) ((D(i := v)) i) ?f" using bl(2) by simp
  let ?b = "put_bytes (img m1 x) (?off - ?f * BSIZE) (take ?n p)"
  note wb = write_block [OF m1 i fk fm, where b = ?b, folded xk]
  have im: "img m' = (img m1)(x := ?b)" "freeblock m' = freeblock m1" "freeinode m' = freeinode m1" using m' by (simp_all add: wsect_def)
  have blk: "fblock (img m') ((D(i := v)) j) g = (if j = i \<and> g = ?f then ?b else fblock (img m1) ((D(i := v)) j) g)"
    if "j < n" "g \<in> ?V j" "g < MAXFILE" for j g using wb(2) [OF that] im(1) by simp
  have same: "fblock (img m1) ((D(i := v)) j) g = fblock (img m) (D j) g" if "j < n" "g \<in> keys (sizes j)" "g < MAXFILE" for j g
    using ap that by (simp add: appended_def same_files_def)
  have lim: "?off + ?n \<le> MAXFILE * BSIZE"
  proof -
    have "(?f + 1) * BSIZE \<le> MAXFILE * BSIZE" using fm by (intro mult_le_mono1) simp
    then show ?thesis using cl(1) by simp
  qed
  have szs: "sizes j \<le> MAXFILE * BSIZE" if "j < n" for j using f that by (simp add: files_ok_def)
  have nb: "g < MAXFILE" if "g < nblk s" "s \<le> MAXFILE * BSIZE" for g s
  proof -
    have "nblk s \<le> (MAXFILE * BSIZE + BSIZE - 1) div BSIZE" unfolding nblk_def using that(2) by (intro div_le_mono) simp
    also have "\<dots> = MAXFILE" by (simp add: MAXFILE_eq BSIZE_def)
    finally show ?thesis using that(1) by simp
  qed
  have "contents (img m') v (?off + length (take ?n p)) = contents (img m) (D i) ?off @ take ?n p"
  proof (rule contents_append)
    show "?off + length (take ?n p) \<le> (?f + 1) * BSIZE" using cl(1) len by simp
    show "fblock (img m') v g = fblock (img m) (D i) g" if g: "g < nblk ?off" "g \<noteq> ?f" for g
    proof -
      have "g \<in> keys ?off" "g < MAXFILE" using g nb [OF g(1) szs [OF i]] by (auto simp: keys_def)
      moreover from this have "g \<in> ?V i" using V by auto
      ultimately show ?thesis using blk [OF i, of g] same [OF i, of g] g(2) by simp
    qed
    show "fblock (img m') v ?f = ?b" using blk [OF i fk fm] by simp
    show "img m1 x = fblock (img m) (D i) ?f" if "?f < nblk ?off"
      using same [OF i, of ?f] that fm xk by (simp add: keys_def fblock_def)
  qed
  moreover have "contents (img m') (D j) (sizes j) = contents (img m) (D j) (sizes j)" if j: "j < n" "j \<noteq> i" for j
  proof (rule contents_cong)
    fix g assume g: "g < nblk (sizes j)"
    have "g \<in> keys (sizes j)" "g < MAXFILE" using g nb [OF g szs [OF j(1)]] by (auto simp: keys_def)
    then show "fblock (img m') (D j) g = fblock (img m) (D j) g" using blk [OF j(1), of g] same [OF j(1), of g] j(2) by simp
  qed
  moreover have "files_ok n (D(i := v)) (sizes(i := ?off + ?n)) m'"
  proof -
    have "(\<lambda>j. keys ((sizes(i := ?off + ?n)) j)) = ?V" by (simp add: fun_eq_iff)
    then have "maps_ok n (D(i := v)) (\<lambda>j. keys ((sizes(i := ?off + ?n)) j)) (freeblock m') (img m')"
      unfolding im(1,2) using wb(1) by (simp only:)
    then show ?thesis unfolding files_ok_def using im(2) bl(3) lim szs by simp
  qed
  moreover have "nmeta \<le> unat x" using maps_okD(3) [OF m1 i fk] xk by simp
  then have "outside_same m m'" using ap im by (auto simp: appended_def outside_same_def)
  moreover have "same_inode (D i) v" using ap by (simp add: appended_def)
  ultimately show ?thesis using len by (simp add: wrote_def)
qed

lemma wrote_append:
  assumes "wrote n D sizes m i bs v m1" "wrote n (D(i := v)) (sizes(i := sizes i + length bs)) m1 i cs w m2" "i < n"
  shows "wrote n D sizes m i (bs @ cs) w m2"
  using assms by (auto simp: wrote_def add.assoc intro: outside_same_trans same_inode_trans)

lemma iappend_loop_ok:
  assumes "files_ok n D sizes m" "i < n" "iappend_loop (sizes i) p (D i) m = Some (off, v, m')"
  shows "off = sizes i + length p \<and> wrote n D sizes m i p v m'"
  using assms
proof (induction "length p" arbitrary: p D sizes m rule: less_induct)
  case less
  show ?case
  proof (cases "p = []")
    case True
    then have "off = sizes i" "v = D i" "m' = m" using less.prems(3) by (simp_all add: iappend_loop.simps [of _ "[]"])
    then show ?thesis using True less.prems(1) by (simp add: wrote_def)
  next
    case False
    let ?n = "chunk_len (sizes i) (length p)"
    obtain v1 m1 where s: "iappend_step (sizes i) p (D i) m = Some (v1, m1)" and l: "iappend_loop (sizes i + ?n) (drop ?n p) v1 m1 = Some (off, v, m')"
      using less.prems(3) False by (subst (asm) iappend_loop.simps) (auto simp: Let_def split: bind_splits)
    have n: "0 < ?n" "?n \<le> length p" using False chunk_len_pos [of "length p"] chunk_len_le(2) by auto
    have w: "wrote n D sizes m i (take ?n p) v1 m1" by (rule iappend_step_ok [OF less.prems(1,2) False s])
    then have f1: "files_ok n (D(i := v1)) (sizes(i := sizes i + ?n)) m1" using n(2) by (simp add: wrote_def)
    have "off = (sizes(i := sizes i + ?n)) i + length (drop ?n p) \<and> wrote n (D(i := v1)) (sizes(i := sizes i + ?n)) m1 i (drop ?n p) v m'"
      using less.hyps [of "drop ?n p" "D(i := v1)" "sizes(i := sizes i + ?n)" m1] f1 less.prems(2) l n False by simp
    then show ?thesis using wrote_append [OF w, of "drop ?n p" v m'] less.prems(2) n(2) by simp
  qed
qed

text \<open>There is a block for every turn as long as the image has room for the new sizes.\<close>

lemma iappend_block_some:
  assumes m: "maps_ok n D U (freeblock m) (img m)" and i: "i < n" and f: "f < MAXFILE"
    and room: "nmeta + (\<Sum>j < n. card ((U(i := U i \<union> keys_at f)) j)) \<le> FSSIZE"
  obtains x v m' where "iappend_block f (D i) m = Some (x, v, m')" "unat x < FSSIZE"
proof -
  have fin: "finite (U j)" if "j < n" for j using maps_okD(9) [OF m that] .
  have le: "nmeta + (\<Sum>j < n. card ((U(i := K)) j)) \<le> FSSIZE" if "K \<subseteq> U i \<union> keys_at f" for K
  proof -
    have "card ((U(i := K)) j) \<le> card ((U(i := U i \<union> keys_at f)) j)" if "j < n" for j
      using fin [OF that] \<open>K \<subseteq> _\<close> by (auto simp: keys_at_def intro!: card_mono)
    then have "(\<Sum>j < n. card ((U(i := K)) j)) \<le> (\<Sum>j < n. card ((U(i := U i \<union> keys_at f)) j))" by (intro sum_mono) simp
    then show ?thesis using room by linarith
  qed
  have fb: "freeblock m < 2 ^ 32 - 1" using le [of "U i"] maps_okD(7) [OF m] by (simp add: FSSIZE_def fun_upd_triv)
  have small: "unat (kaddr (img m') v g) < FSSIZE" if "appended n U D m i K v m'" "g \<in> K" "K \<subseteq> U i \<union> keys_at f" for K v m' g
  proof -
    have a: "maps_ok n (D(i := v)) (U(i := K)) (freeblock m') (img m')" using that(1) by (simp add: appended_def)
    show ?thesis using maps_okD(4) [OF a i, of g] maps_okD(7) [OF a] le [OF that(3)] that(2) by simp
  qed
  show thesis
  proof (cases "f < NDIRECT")
    case True
    obtain v m' where a: "new_addr f (D i) m = (v, m')" by fastforce
    have k: "f < NDIRECT \<and> f = f \<or> f = MAXFILE \<and> f = NDIRECT" using True by simp
    note na = new_addr_ok [OF m i fb k a]
    show thesis by (rule that [of "i_addrs v f" v m']) (use True a small [OF na(1)] na(2) in \<open>auto simp: iappend_block_def keys_at_def\<close>)
  next
    case False
    obtain v m1 where a: "new_addr NDIRECT (D i) m = (v, m1)" by fastforce
    have k: "MAXFILE < NDIRECT \<and> NDIRECT = MAXFILE \<or> MAXFILE = MAXFILE \<and> NDIRECT = NDIRECT" by simp
    note na = new_addr_ok [OF m i fb k a]
    let ?K = "insert MAXFILE (U i)"
    have kk: "?K \<subseteq> U i \<union> keys_at f" using False by (auto simp: keys_at_def)
    have s: "unat (i_addrs v NDIRECT) < FSSIZE" using small [OF na(1) _ kk] na(2) by simp
    then have "new_indirect (i_addrs ((D(i := v)) i) NDIRECT) (f - NDIRECT) m1 \<noteq> None"
      by (simp add: new_indirect_def rsect_def Let_def)
    then obtain x m' where b: "new_indirect (i_addrs ((D(i := v)) i) NDIRECT) (f - NDIRECT) m1 = Some (x, m')" by auto
    have m1: "maps_ok n (D(i := v)) (U(i := ?K)) (freeblock m1) (img m1)" using na(1) by (simp add: appended_def)
    have fb1: "freeblock m1 < 2 ^ 32 - 1" using maps_okD(7) [OF m1] le [OF kk] by (simp add: FSSIZE_def)
    have mk: "MAXFILE \<in> (U(i := ?K)) i" and fn: "NDIRECT \<le> f" using False by simp_all
    note ni = new_indirect_ok [OF m1 i mk fb1 fn f b]
    have "appended n U D m i (insert f ?K) v m'" by (rule appended_trans [OF na(1)]) (use ni(1) in \<open>simp only: fun_upd_same\<close>, blast)
    from small [OF this, of f] have "unat x < FSSIZE" using ni(2) False by (auto simp: keys_at_def)
    then show thesis using that [of x v m'] False a b by (simp add: iappend_block_def)
  qed
qed

lemma iappend_step_some:
  assumes f: "files_ok n D sizes m" and i: "i < n" and p: "p \<noteq> []" and k: "sizes i + length p \<le> MAXFILE * BSIZE"
    and room: "nmeta + (\<Sum>j < n. card (keys ((sizes(i := sizes i + chunk_len (sizes i) (length p))) j))) \<le> FSSIZE"
  obtains v m' where "iappend_step (sizes i) p (D i) m = Some (v, m')"
proof -
  let ?f = "sizes i div BSIZE" and ?n = "chunk_len (sizes i) (length p)" and ?U = "\<lambda>i. keys (sizes i)"
  have "0 < length p" using p by simp
  with k have "sizes i < MAXFILE * BSIZE" by linarith
  then have fm: "?f < MAXFILE" by (intro div_less_iff_less_mult [THEN iffD2]) simp_all
  have mo: "maps_ok n D ?U (freeblock m) (img m)" using f by (simp add: files_ok_def)
  have n0: "0 < ?n" using p by (intro chunk_len_pos) simp
  have "keys (sizes i) \<union> keys_at ?f = keys (sizes i + ?n)" by (rule keys_step [OF n0 chunk_len_le(1)])
  then have "?U(i := ?U i \<union> keys_at ?f) = (\<lambda>j. keys ((sizes(i := sizes i + ?n)) j))" by (simp add: fun_eq_iff)
  then have "nmeta + (\<Sum>j < n. card ((?U(i := ?U i \<union> keys_at ?f)) j)) \<le> FSSIZE" using room by (simp only:)
  from iappend_block_some [OF mo i fm this] obtain x v m' where "iappend_block ?f (D i) m = Some (x, v, m')" "unat x < FSSIZE" .
  then show thesis using that fm by (simp add: iappend_step_def Let_def rsect_def)
qed

lemma keys_mono: "s \<le> t \<Longrightarrow> keys s \<subseteq> keys t"
proof -
  assume "s \<le> t"
  then have "nblk s \<le> nblk t" unfolding nblk_def by (intro div_le_mono) simp
  then show ?thesis by (auto simp: keys_def)
qed

lemma finite_keys [simp]: "finite (keys s)"
  by (simp add: keys_def)

lemma room_mono:
  assumes "nmeta + (\<Sum>j < n. card (keys (t j))) \<le> FSSIZE" "\<And>j. j < n \<Longrightarrow> s j \<le> t j"
  shows "nmeta + (\<Sum>j < n. card (keys (s j))) \<le> FSSIZE"
proof -
  have "(\<Sum>j < n. card (keys (s j))) \<le> (\<Sum>j < n. card (keys (t j)))"
    using assms(2) by (intro sum_mono card_mono keys_mono) simp_all
  then show ?thesis using assms(1) by linarith
qed

lemma iappend_loop_some:
  assumes "files_ok n D sizes m" "i < n" "sizes i + length p \<le> MAXFILE * BSIZE"
    "nmeta + (\<Sum>j < n. card (keys ((sizes(i := sizes i + length p)) j))) \<le> FSSIZE"
  shows "\<exists>off v m'. iappend_loop (sizes i) p (D i) m = Some (off, v, m')"
  using assms
proof (induction "length p" arbitrary: p D sizes m rule: less_induct)
  case less
  show ?case
  proof (cases "p = []")
    case False
    let ?n = "chunk_len (sizes i) (length p)"
    have n: "0 < ?n" "?n \<le> length p" using False chunk_len_pos [of "length p"] chunk_len_le(2) by auto
    have "nmeta + (\<Sum>j < n. card (keys ((sizes(i := sizes i + ?n)) j))) \<le> FSSIZE"
      by (rule room_mono [OF less.prems(4)]) (use n(2) in simp)
    from iappend_step_some [OF less.prems(1,2) False less.prems(3) this]
    obtain v m1 where s: "iappend_step (sizes i) p (D i) m = Some (v, m1)" .
    have w: "wrote n D sizes m i (take ?n p) v m1" by (rule iappend_step_ok [OF less.prems(1,2) False s])
    then have "files_ok n (D(i := v)) (sizes(i := sizes i + ?n)) m1" using n(2) by (simp add: wrote_def)
    from less.hyps [OF _ this less.prems(2), of "drop ?n p"] show ?thesis
      using n False less.prems(3,4) s by (subst iappend_loop.simps) (simp add: Let_def)
  qed (simp add: iappend_loop.simps [of _ "[]"])
qed

subsection \<open>Inodes on the disk\<close>

lemma sb_simps:
  "sb_inodestart mk_sb = 33" "sb_bmapstart mk_sb = 46" "IPB = 16" "FSSIZE = 2000" "BPB = 8192"
  by (simp_all add: mk_sb_def nlog_def LOGBLOCKS_def MAXOPBLOCKS_def ninodeblocks_def NINODES_def FSSIZE_def IPB_def BPB_def BSIZE_def)

lemma iblock_unat: "i < 208 \<Longrightarrow> unat (IBLOCK (of_nat i) mk_sb) = i div 16 + 33"
proof -
  assume i: "i < 208"
  then have u: "unat (of_nat i :: u32) = i" by (simp add: unsigned_of_nat take_bit_nat_eq_self)
  have d: "unat ((of_nat i :: u32) div 16) = i div 16" by (simp add: unat_div u)
  have "i div 16 < 13" using i by simp
  then show "unat (IBLOCK (of_nat i) mk_sb) = i div 16 + 33"
    using d by (simp add: IBLOCK_def sb_simps unat_word_ariths)
qed

lemma slot_differs:
  assumes "i < 208" "j < 208" "i \<noteq> j" "IBLOCK (of_nat i) mk_sb = IBLOCK (of_nat j) mk_sb"
  shows "unat (of_nat i :: u32) mod IPB \<noteq> unat (of_nat j :: u32) mod IPB"
proof -
  have "i div 16 = j div 16" using assms(4) iblock_unat [OF assms(1)] iblock_unat [OF assms(2)] by simp
  then have "i mod 16 \<noteq> j mod 16" using assms(3) div_mult_mod_eq by metis
  moreover have "unat (of_nat i :: u32) = i" "unat (of_nat j :: u32) = j"
    using assms(1,2) by (simp_all add: unsigned_of_nat take_bit_nat_eq_self)
  ultimately show ?thesis by (simp add: sb_simps)
qed

definition on_disk :: "inode \<Rightarrow> bool" where
  "on_disk v \<longleftrightarrow> i_dev v = 0 \<and> i_inum v = 0 \<and> i_ref v = 0 \<and> \<not> i_valid v \<and> (\<forall>k > NDIRECT. i_addrs v k = 0)"

lemma din_get_put_zero: "on_disk v \<Longrightarrow> din_get i (din_put i v b) zero_din = v"
proof -
  assume v: "on_disk v"
  have "(\<lambda>k. if k < 13 then i_addrs v k else i_addrs zero_din k) = i_addrs v"
    using v by (auto simp: fun_eq_iff on_disk_def zero_din_def MAXFILE_eq)
  then show ?thesis using v unfolding din_get_put by (simp add: on_disk_def zero_din_def)
qed

lemma on_disk_same: "on_disk v \<Longrightarrow> same_inode v w \<Longrightarrow> on_disk w" "on_disk v \<Longrightarrow> on_disk (v\<lparr>i_size := x\<rparr>)"
  by (auto simp: on_disk_def same_inode_def)

lemma winode_eq:
  assumes "i < 208"
  shows "winode (of_nat i) v m =
    Some (wsect (IBLOCK (of_nat i) mk_sb) (din_put (of_nat i) v (img m (IBLOCK (of_nat i) mk_sb))) m)"
  using iblock_unat [OF assms] assms by (simp add: winode_def rsect_def sb_simps Let_def)

lemma rinode_eq: "i < 208 \<Longrightarrow> rinode (of_nat i) m = Some (din_get (of_nat i) (img m (IBLOCK (of_nat i) mk_sb)) zero_din)"
  using iblock_unat [of i] by (simp add: rinode_def rsect_def sb_simps)

lemma winode_ok:
  assumes w: "winode (of_nat i) v m = Some m'" and i: "i < 208" and v: "on_disk v"
  shows "j < 208 \<Longrightarrow> rinode (of_nat j) m' = (if j = i then Some v else rinode (of_nat j) m)"
    "freeinode m' = freeinode m" "freeblock m' = freeblock m" "unat r < 33 \<or> 46 \<le> unat r \<Longrightarrow> img m' r = img m r"
proof -
  let ?b = "IBLOCK (of_nat i) mk_sb"
  have m': "m' = wsect ?b (din_put (of_nat i) v (img m ?b)) m" using w winode_eq [OF i] by simp
  show "freeinode m' = freeinode m" "freeblock m' = freeblock m" by (simp_all add: m' wsect_def)
  have "i div 16 < 13" using i by simp
  then show "unat r < 33 \<or> 46 \<le> unat r \<Longrightarrow> img m' r = img m r" using iblock_unat [OF i] by (auto simp: m' wsect_def)
  show "rinode (of_nat j) m' = (if j = i then Some v else rinode (of_nat j) m)" if j: "j < 208"
  proof (cases "j = i")
    case True
    then show ?thesis using rinode_eq [OF i, of m'] din_get_put_zero [OF v] by (simp add: m' wsect_def)
  next
    case False
    then show ?thesis using rinode_eq [OF j] slot_differs [OF i j] din_get_put_other by (auto simp: m' wsect_def)
  qed
qed

lemma same_inode_fields: "same_inode v w \<Longrightarrow> i_type w = i_type v \<and> i_nlink w = i_nlink v \<and> i_size w = i_size v"
  by (auto simp: same_inode_def)

text \<open>Blocks outside the data area do not matter for the files.\<close>

lemma kaddr_low:
  assumes m: "maps_ok n D U fb d" and d: "\<And>r. nmeta \<le> unat r \<Longrightarrow> d' r = d r" and i: "i < n"
  shows "kaddr d' (D i) f = kaddr d (D i) f"
proof (cases "i_addrs (D i) NDIRECT = 0")
  case False
  then have k: "kaddr d (D i) MAXFILE \<noteq> 0" "kaddr d (D i) MAXFILE = i_addrs (D i) NDIRECT" by (simp_all add: kaddr_def MAXFILE_eq)
  then have "MAXFILE \<in> U i" using maps_okD(1) [OF m i, of MAXFILE] by simp
  then have "nmeta \<le> unat (i_addrs (D i) NDIRECT)" unfolding k(2) [symmetric] by (rule maps_okD(3) [OF m i])
  then show ?thesis using d by (simp add: kaddr_def)
qed (simp add: kaddr_def)

lemma maps_ok_low:
  assumes m: "maps_ok n D U fb d" and d: "\<And>r. nmeta \<le> unat r \<Longrightarrow> d' r = d r"
  shows "maps_ok n D U fb d'"
  by (rule maps_ok_kaddr [OF m kaddr_low [OF m d]]) (use maps_okD(8) [OF m] d in simp_all)

lemma contents_low:
  assumes m: "maps_ok n D U fb d" and d: "\<And>r. nmeta \<le> unat r \<Longrightarrow> d' r = d r" and i: "i < n" "keys s \<subseteq> U i"
  shows "contents d' (D i) s = contents d (D i) s"
proof (rule contents_cong)
  fix f assume "f < nblk s"
  then have "f \<in> U i" using i(2) by (auto simp: keys_def)
  then have "nmeta \<le> unat (kaddr d (D i) f)" by (rule maps_okD(3) [OF m i(1)])
  then show "fblock d' (D i) f = fblock d (D i) f" using kaddr_low [OF m d i(1)] d by (simp add: fblock_def)
qed

subsection \<open>The image as a list of files\<close>

text \<open>
  A file is its type, its link count and its bytes; the image is the list of its files by inode number, with
  an unused inode 0.
\<close>

type_synonym vfile = "u16 \<times> u16 \<times> u8 list"

definition vfile_of :: "(u32 \<Rightarrow> block) \<Rightarrow> inode \<Rightarrow> nat \<Rightarrow> vfile" where
  "vfile_of d v s = (i_type v, i_nlink v, contents d v s)"

definition image_ok :: "image \<Rightarrow> (nat \<Rightarrow> inode) \<Rightarrow> (nat \<Rightarrow> nat) \<Rightarrow> bool" where
  "image_ok m D sizes \<longleftrightarrow> files_ok (freeinode m) D sizes m \<and> freeinode m \<le> NINODES \<and> img m 1 = sb_block \<and>
     (\<forall>i < freeinode m. rinode (of_nat i) m = Some (D i) \<and> on_disk (D i) \<and> unat (i_size (D i)) = sizes i)"

definition represents :: "image \<Rightarrow> vfile list \<Rightarrow> bool" where
  "represents m fs \<longleftrightarrow> freeinode m = length fs \<and>
     (\<exists>D sizes. image_ok m D sizes \<and> (\<forall>i < length fs. fs ! i = vfile_of (img m) (D i) (sizes i)))"

lemma representsI:
  "freeinode m = length fs \<Longrightarrow> image_ok m D sizes \<Longrightarrow> (\<And>i. i < length fs \<Longrightarrow> fs ! i = vfile_of (img m) (D i) (sizes i)) \<Longrightarrow> represents m fs"
  unfolding represents_def by blast

definition vappend :: "vfile \<Rightarrow> u8 list \<Rightarrow> vfile" where
  "vappend f bs = (fst f, fst (snd f), snd (snd f) @ bs)"

lemma files_ok_low:
  assumes f: "files_ok n D sizes m" and d': "\<forall>r. nmeta \<le> unat r \<longrightarrow> img m' r = img m r" and fb: "freeblock m' = freeblock m"
  shows "files_ok n D sizes m'" "i < n \<Longrightarrow> contents (img m') (D i) (sizes i) = contents (img m) (D i) (sizes i)"
proof -
  have d: "\<And>r. nmeta \<le> unat r \<Longrightarrow> img m' r = img m r" using d' by simp
  have mo: "maps_ok n D (\<lambda>i. keys (sizes i)) (freeblock m) (img m)" using f by (simp add: files_ok_def)
  show "files_ok n D sizes m'" using f maps_ok_low [OF mo d] fb by (simp add: files_ok_def)
  show "contents (img m') (D i) (sizes i) = contents (img m) (D i) (sizes i)" if "i < n"
    by (rule contents_low [OF mo d that]) auto
qed

text \<open>An inode is used by its addresses only.\<close>

lemma kaddr_size [simp]: "kaddr d (v\<lparr>i_size := x\<rparr>) f = kaddr d v f"
  by (simp add: kaddr_def)

lemma contents_size [simp]: "contents d (v\<lparr>i_size := x\<rparr>) s = contents d v s"
  by (simp add: contents_def fblock_def)

lemma maps_ok_cong: "(\<And>i f. i < n \<Longrightarrow> kaddr d (D' i) f = kaddr d (D i) f) \<Longrightarrow> maps_ok n D U fb d \<Longrightarrow> maps_ok n D' U fb d"
  by (rule maps_ok_kaddr) simp_all

lemma files_ok_size: "files_ok n (D(i := v)) sizes m \<Longrightarrow> files_ok n (D(i := v\<lparr>i_size := x\<rparr>)) sizes m"
  unfolding files_ok_def by (auto intro: maps_ok_cong [rotated])

lemma iappend_represents:
  assumes r: "represents m fs" and i: "i < length fs" and a: "iappend (of_nat i) bs m = Some m'"
  shows "represents m' (fs[i := vappend (fs ! i) bs])"
proof -
  obtain D sizes where ok: "image_ok m D sizes" and fs: "\<And>j. j < length fs \<Longrightarrow> fs ! j = vfile_of (img m) (D j) (sizes j)" and n: "freeinode m = length fs"
    using r by (auto simp: represents_def)
  have f: "files_ok (length fs) D sizes m" and nn: "length fs \<le> 200" and ri: "\<And>j. j < length fs \<Longrightarrow> rinode (of_nat j) m = Some (D j)"
    and od: "\<And>j. j < length fs \<Longrightarrow> on_disk (D j)" and us: "\<And>j. j < length fs \<Longrightarrow> unat (i_size (D j)) = sizes j" and sb: "img m 1 = sb_block"
    using ok n by (auto simp: image_ok_def NINODES_def)
  obtain off v m1 where l: "iappend_loop (sizes i) bs (D i) m = Some (off, v, m1)"
    and w: "winode (of_nat i) (v\<lparr>i_size := of_nat off\<rparr>) m1 = Some m'"
    using a ri [OF i] us [OF i] by (auto simp: iappend_def split: bind_splits)
  have off: "off = sizes i + length bs" and wr: "wrote (length fs) D sizes m i bs v m1"
    using iappend_loop_ok [OF f i l] by auto
  let ?v = "v\<lparr>i_size := of_nat off\<rparr>" and ?s = "sizes(i := off)"
  have sm: "same_inode (D i) v" "outside_same m m1" and f1: "files_ok (length fs) (D(i := v)) ?s m1" using wr off by (simp_all add: wrote_def)
  have i208: "j < 208" if "j < length fs" for j using that nn by simp
  have ov: "on_disk ?v" using on_disk_same(1) [OF od [OF i] sm(1)] by (rule on_disk_same(2))
  note wo = winode_ok [OF w i208 [OF i] ov]
  have low: "\<forall>r. nmeta \<le> unat r \<longrightarrow> img m' r = img m1 r" using wo(4) by (simp add: nmeta_eq)
  have f2: "files_ok (length fs) (D(i := ?v)) ?s m1" using f1 by (rule files_ok_size)
  note f3 = files_ok_low [OF f2 low wo(3)]
  have outs: "img m1 r = img m r" if "unat r < nmeta" for r using sm(2) that by (simp add: outside_same_def)
  have ri1: "rinode (of_nat j) m1 = Some (D j)" if j: "j < length fs" for j
  proof -
    have "unat (IBLOCK (of_nat j) mk_sb) < nmeta" using iblock_unat [OF i208 [OF j]] i208 [OF j] by (simp add: nmeta_eq)
    then show ?thesis using ri [OF j] rinode_eq [OF i208 [OF j]] outs by simp
  qed
  have offb: "off \<le> MAXFILE * BSIZE" using f2 i by (auto simp: files_ok_def)
  then have uo: "unat (of_nat off :: u32) = off" by (simp add: unsigned_of_nat take_bit_nat_eq_self MAXFILE_eq BSIZE_def)
  have fi: "freeinode m' = length fs" using wo(2) sm(2) n by (simp add: outside_same_def)
  have "img m' 1 = sb_block" using wo(4) [of 1] outs [of 1] sb by (simp add: nmeta_eq)
  then have "image_ok m' (D(i := ?v)) ?s"
    unfolding image_ok_def using f3(1) fi nn wo(1) ri1 od ov us uo i208 by (auto simp: NINODES_def)
  moreover have "fs[i := vappend (fs ! i) bs] ! j = vfile_of (img m') ((D(i := ?v)) j) (?s j)" if j: "j < length fs" for j
  proof (cases "j = i")
    case True
    have "contents (img m') ?v off = contents (img m1) v off" using f3(2) [OF i] by simp
    also have "\<dots> = contents (img m) (D i) (sizes i) @ bs" using wr off by (simp add: wrote_def)
    finally show ?thesis using True i fs [OF i] same_inode_fields [OF sm(1)] by (simp add: vfile_of_def vappend_def)
  next
    case False
    have "contents (img m') (D j) (sizes j) = contents (img m1) (D j) (sizes j)" using f3(2) [OF j] False by simp
    also have "\<dots> = contents (img m) (D j) (sizes j)" using wr j False by (simp add: wrote_def)
    finally show ?thesis using False fs [OF j] by (simp add: vfile_of_def)
  qed
  ultimately show ?thesis using fi by (intro representsI [of _ _ "D(i := ?v)" ?s]) simp_all
qed

lemma maps_ok_fresh:
  assumes m: "maps_ok n D U fb d" and v: "\<And>f. kaddr d v f = 0"
  shows "maps_ok (Suc n) (D(n := v)) (U(n := {})) fb d"
proof -
  note m' = maps_okD [OF m]
  show ?thesis
    unfolding maps_ok_def
  proof (intro conjI allI impI ballI)
    show "kaddr d ((D(n := v)) i) f \<noteq> 0 \<longleftrightarrow> f \<in> (U(n := {})) i" if "i < Suc n" "f \<le> MAXFILE" for i f
      using that v m'(1) by (cases "i = n") auto
  next
    fix i f assume a: "i < Suc n" "f \<in> (U(n := {})) i"
    have "i \<noteq> n" using a(2) by auto
    then have "i < n" "f \<in> U i" "(D(n := v)) i = D i" using a by simp_all
    then show "f \<le> MAXFILE" "nmeta \<le> unat (kaddr d ((D(n := v)) i) f)" "unat (kaddr d ((D(n := v)) i) f) < fb"
      using m'(2-4) by auto
  next
    fix i j f g assume a: "i < Suc n" "j < Suc n" "f \<in> (U(n := {})) i" "g \<in> (U(n := {})) j" "kaddr d ((D(n := v)) i) f = kaddr d ((D(n := v)) j) g"
    have "i \<noteq> n" "j \<noteq> n" using a(3,4) by auto
    then have "i < n" "j < n" "f \<in> U i" "g \<in> U j" "kaddr d (D i) f = kaddr d (D j) g" using a by simp_all
    then show "i = j" "f = g" using m'(5) by blast+
  next
    show "d r = (\<lambda>_. 0)" if "fb \<le> unat r" for r using that by (rule m'(6))
    show "fb = nmeta + (\<Sum>i < Suc n. card ((U(n := {})) i))" using m'(7) by simp
  qed
qed

lemma mk_ialloc_represents:
  assumes r: "represents m fs" and n: "length fs < NINODES"
  obtains m' where "mk_ialloc t m = Some (of_nat (length fs), m')" "represents m' (fs @ [(t, 1, [])])"
proof -
  obtain D sizes where ok: "image_ok m D sizes" and fs: "\<And>j. j < length fs \<Longrightarrow> fs ! j = vfile_of (img m) (D j) (sizes j)" and fi: "freeinode m = length fs"
    using r by (auto simp: represents_def)
  let ?i = "length fs" and ?v = "zero_din\<lparr>i_type := t, i_nlink := 1, i_size := 0\<rparr>" and ?m = "m\<lparr>freeinode := freeinode m + 1\<rparr>"
  have i: "?i < 208" using n by (simp add: NINODES_def)
  obtain m' where w: "winode (of_nat ?i) ?v ?m = Some m'" using winode_eq [OF i] by blast
  have ov: "on_disk ?v" by (simp add: on_disk_def zero_din_def)
  note wo = winode_ok [OF w i ov]
  let ?D = "D(?i := ?v)" and ?s = "sizes(?i := 0)"
  have mo: "maps_ok ?i D (\<lambda>i. keys (sizes i)) (freeblock m) (img m)" using ok fi by (simp add: image_ok_def files_ok_def)
  have kz: "kaddr d ?v f = 0" for d f by (simp add: kaddr_def zero_din_def)
  have "maps_ok (Suc ?i) ?D ((\<lambda>i. keys (sizes i))(?i := {})) (freeblock m) (img m)" using kz by (rule maps_ok_fresh [OF mo])
  moreover have "(\<lambda>i. keys (sizes i))(?i := {}) = (\<lambda>i. keys (?s i))" by (auto simp: fun_eq_iff keys_def nblk_def BSIZE_def)
  ultimately have "maps_ok (Suc ?i) ?D (\<lambda>i. keys (?s i)) (freeblock m) (img m)" by (simp only:)
  then have f1: "files_ok (Suc ?i) ?D ?s ?m" using ok fi by (auto simp: image_ok_def files_ok_def less_Suc_eq)
  have low: "\<forall>r. nmeta \<le> unat r \<longrightarrow> img m' r = img ?m r" using wo(4) by (simp add: nmeta_eq)
  note f2 = files_ok_low [OF f1 low wo(3)]
  have rj: "rinode (of_nat j) ?m = rinode (of_nat j) m" for j by (simp add: rinode_def rsect_def)
  have "img m' 1 = sb_block" using wo(4) [of 1] ok by (simp add: image_ok_def)
  moreover have "rinode (of_nat j) m' = Some (?D j) \<and> on_disk (?D j) \<and> unat (i_size (?D j)) = ?s j" if "j < Suc ?i" for j
    using that wo(1) [of j] rj ok ov n fi by (auto simp: image_ok_def less_Suc_eq NINODES_def)
  ultimately have "image_ok m' ?D ?s" unfolding image_ok_def using f2(1) wo(2) fi n by simp
  moreover have "(fs @ [(t, 1, [])]) ! j = vfile_of (img m') (?D j) (?s j)" if "j < Suc ?i" for j
    using that f2(2) [of j] fs by (auto simp: less_Suc_eq nth_append vfile_of_def contents_def)
  ultimately have "represents m' (fs @ [(t, 1, [])])" using wo(2) fi by (intro representsI [of _ _ ?D ?s]) simp_all
  moreover have "mk_ialloc t m = Some (of_nat ?i, m')" using w fi by (simp add: mk_ialloc_def Let_def)
  ultimately show thesis by (rule that [rotated])
qed

text \<open>
  The blocks that a file of \<open>s\<close> bytes takes, the indirect block counted, and the room that a list of files needs.
\<close>

definition file_blocks :: "nat \<Rightarrow> nat" where
  "file_blocks s = nblk s + (if NDIRECT < nblk s then 1 else 0)"

definition fits :: "vfile list \<Rightarrow> bool" where
  "fits fs \<longleftrightarrow> (\<forall>f \<in> set fs. length (snd (snd f)) \<le> MAXFILE * BSIZE) \<and> nmeta + (\<Sum>f\<leftarrow>fs. file_blocks (length (snd (snd f)))) \<le> FSSIZE"

lemma nblk_MAXFILE: "s \<le> MAXFILE * BSIZE \<Longrightarrow> nblk s \<le> MAXFILE"
proof -
  assume "s \<le> MAXFILE * BSIZE"
  then have "nblk s \<le> (MAXFILE * BSIZE + BSIZE - 1) div BSIZE" unfolding nblk_def by (intro div_le_mono) simp
  also have "\<dots> = MAXFILE" by (simp add: MAXFILE_eq BSIZE_def)
  finally show ?thesis .
qed

lemma card_keys: "s \<le> MAXFILE * BSIZE \<Longrightarrow> card (keys s) = file_blocks s"
  using nblk_MAXFILE [of s] by (auto simp: keys_def file_blocks_def)

lemma room_files:
  assumes "\<And>j. j < length fs \<Longrightarrow> length (snd (snd (fs ! j))) = sizes j" "\<And>f. f \<in> set fs \<Longrightarrow> length (snd (snd f)) \<le> MAXFILE * BSIZE"
  shows "(\<Sum>j < length fs. card (keys (sizes j))) = (\<Sum>f\<leftarrow>fs. file_blocks (length (snd (snd f))))"
proof -
  have "(\<Sum>j < length fs. card (keys (sizes j))) = (\<Sum>j < length fs. file_blocks (length (snd (snd (fs ! j)))))"
    using assms by (intro sum.cong refl) (metis card_keys lessThan_iff nth_mem)
  then show ?thesis by (simp add: sum_list_sum_nth atLeast0LessThan)
qed

lemma represents_fits:
  assumes r: "represents m fs"
  shows "fits fs" "freeblock m = nmeta + (\<Sum>f\<leftarrow>fs. file_blocks (length (snd (snd f))))"
proof -
  obtain D sizes where ok: "files_ok (length fs) D sizes m" and fs: "\<And>j. j < length fs \<Longrightarrow> fs ! j = vfile_of (img m) (D j) (sizes j)"
    using r by (auto simp: represents_def image_ok_def)
  have len: "length (snd (snd (fs ! j))) = sizes j" if "j < length fs" for j using fs [OF that] by (simp add: vfile_of_def contents_def)
  have le: "length (snd (snd f)) \<le> MAXFILE * BSIZE" if "f \<in> set fs" for f using that ok len by (auto simp: files_ok_def in_set_conv_nth)
  show "freeblock m = nmeta + (\<Sum>f\<leftarrow>fs. file_blocks (length (snd (snd f))))"
    using ok room_files [OF len le] maps_okD(7) by (fastforce simp: files_ok_def)
  then show "fits fs" using ok le by (simp add: fits_def files_ok_def)
qed

lemma iappend_some:
  assumes r: "represents m fs" and i: "i < length fs" and f: "fits (fs[i := vappend (fs ! i) bs])"
  shows "\<exists>m'. iappend (of_nat i) bs m = Some m'"
proof -
  obtain D sizes where ok: "image_ok m D sizes" and fs: "\<And>j. j < length fs \<Longrightarrow> fs ! j = vfile_of (img m) (D j) (sizes j)" and n: "freeinode m = length fs"
    using r by (auto simp: represents_def)
  have fo: "files_ok (length fs) D sizes m" and i208: "i < 208" and ri: "rinode (of_nat i) m = Some (D i)" "unat (i_size (D i)) = sizes i"
    using ok n i by (auto simp: image_ok_def NINODES_def)
  let ?fs = "fs[i := vappend (fs ! i) bs]" and ?s = "sizes(i := sizes i + length bs)"
  have len: "length (snd (snd (?fs ! j))) = ?s j" if "j < length ?fs" for j
    using that fs [of j] by (cases "j = i") (simp_all add: vfile_of_def contents_def vappend_def)
  have le: "length (snd (snd f)) \<le> MAXFILE * BSIZE" if "f \<in> set ?fs" for f using that f by (simp add: fits_def)
  have "sizes i + length bs \<le> MAXFILE * BSIZE" using le [of "?fs ! i"] len [of i] i by (simp add: nth_mem set_update_memI)
  moreover have "nmeta + (\<Sum>j < length fs. card (keys (?s j))) \<le> FSSIZE"
    using room_files [OF len le] f by (simp add: fits_def)
  ultimately obtain off v m1 where "iappend_loop (sizes i) bs (D i) m = Some (off, v, m1)" using iappend_loop_some [OF fo i] by blast
  then show ?thesis using ri winode_eq [OF i208] by (simp add: iappend_def)
qed

lemma vappend_vappend [simp]: "vappend (vappend f xs) ys = vappend f (xs @ ys)" "vappend f [] = f"
  by (simp_all add: vappend_def)

lemma iappends_represents:
  "represents m fs \<Longrightarrow> i < length fs \<Longrightarrow> iappends (of_nat i) cs m = Some m' \<Longrightarrow> represents m' (fs[i := vappend (fs ! i) (concat cs)])"
proof (induction cs arbitrary: m fs)
  case (Cons c cs)
  obtain m1 where m1: "iappend (of_nat i) c m = Some m1" "iappends (of_nat i) cs m1 = Some m'" using Cons.prems(3) by (auto split: bind_splits)
  have "represents m1 (fs[i := vappend (fs ! i) c])" by (rule iappend_represents [OF Cons.prems(1,2) m1(1)])
  then show ?case using Cons.IH [OF _ _ m1(2)] Cons.prems(2) by fastforce
qed simp

text \<open>What the image should hold: the directory entry of file \<open>f\<close> with inode \<open>k\<close>, and the list of files.\<close>

definition entry :: "nat \<Rightarrow> host_file \<Rightarrow> u8 list" where
  "entry k f = de_make (of_nat k) (name_bytes (the (shortname (fst f))))"

primrec entries :: "nat \<Rightarrow> host_file list \<Rightarrow> u8 list" where
  "entries k [] = []"
| "entries k (f # fs) = entry k f @ entries (Suc k) fs"

definition new_vfile :: "host_file \<Rightarrow> vfile" where
  "new_vfile f = (T_FILE, 1, concat (the (snd f)))"

definition dot_entries :: "u8 list" where
  "dot_entries = de_make 1 (name_bytes ''.'') @ de_make 1 (name_bytes ''..'')"

definition mkfs_files :: "host_file list \<Rightarrow> vfile list" where
  "mkfs_files files = (0, 0, []) # (T_DIR, 1, dot_entries @ entries 2 files) # map new_vfile files"

lemma add_file_represents:
  assumes r: "represents m fs" and n: "2 \<le> length fs" "length fs < NINODES" and a: "add_file f m = Some m'"
  shows "represents m' (fs[1 := vappend (fs ! 1) (entry (length fs) f)] @ [new_vfile f])"
proof -
  let ?k = "length fs"
  obtain m1 where i: "mk_ialloc T_FILE m = Some (of_nat ?k, m1)" "represents m1 (fs @ [(T_FILE, 1, [])])"
    using mk_ialloc_represents [OF r n(2), of T_FILE thesis] by blast
  obtain s cs m2 where s: "shortname (fst f) = Some s" "snd f = Some cs" "iappend ROOTINO (de_make (ucast (of_nat ?k :: u32)) (name_bytes s)) m1 = Some m2"
    "iappends (of_nat ?k) cs m2 = Some m'"
    using a i(1) by (auto simp: add_file_def split: bind_splits)
  have uc: "ucast (of_nat ?k :: u32) = (of_nat ?k :: u16)" using n(2) by (simp add: unsigned_of_nat take_bit_nat_eq_self NINODES_def)
  have e: "de_make (ucast (of_nat ?k :: u32)) (name_bytes s) = entry ?k f" using s(1) uc by (simp add: entry_def)
  have one: "ROOTINO = of_nat 1" by (simp add: ROOTINO_def)
  have l: "1 < length (fs @ [(T_FILE, 1, [])])" using n(1) by (cases fs) auto
  have "represents m2 ((fs @ [(T_FILE, 1, [])])[1 := vappend ((fs @ [(T_FILE, 1, [])]) ! 1) (entry ?k f)])"
    by (rule iappend_represents [OF i(2) l]) (use s(3) in \<open>simp only: e one\<close>)
  then have r2: "represents m2 (fs[1 := vappend (fs ! 1) (entry ?k f)] @ [(T_FILE, 1, [])])"
    using n(1) by (simp add: list_update_append nth_append)
  have "?k < length (fs[1 := vappend (fs ! 1) (entry ?k f)] @ [(T_FILE, 1, [])])" by simp
  from iappends_represents [OF r2 this s(4)] show ?thesis
    using s(2) by (simp add: nth_append list_update_append new_vfile_def vappend_def)
qed

lemma add_files_represents:
  "represents m (z # (t, l, r) # gs) \<Longrightarrow> length gs + 2 + length files \<le> NINODES \<Longrightarrow> add_files files m = Some m' \<Longrightarrow>
   represents m' (z # (t, l, r @ entries (length gs + 2) files) # gs @ map new_vfile files)"
proof (induction files arbitrary: m r gs)
  case (Cons f files)
  obtain m1 where m1: "add_file f m = Some m1" "add_files files m1 = Some m'" using Cons.prems(3) by (auto split: bind_splits)
  have "represents m1 (z # (t, l, r @ entry (length gs + 2) f) # (gs @ [new_vfile f]))"
    using add_file_represents [OF Cons.prems(1) _ _ m1(1)] Cons.prems(2) by (simp add: vappend_def)
  from Cons.IH [OF this _ m1(2)] show ?case using Cons.prems(2) by simp
qed simp

lemma empty_represents: "represents (wsect 1 sb_block empty_image) [(0, 0, [])]"
proof (rule representsI [of _ _ "\<lambda>_. zero_din" "\<lambda>_. 0"])
  let ?m = "wsect 1 sb_block empty_image"
  show "freeinode ?m = length [(0, 0, [])]" by (simp add: wsect_def empty_image_def)
  have kz: "kaddr d zero_din f = 0" for d f by (simp add: kaddr_def zero_din_def)
  have "keys 0 = {}" by (auto simp: keys_def nblk_def BSIZE_def)
  then have "maps_ok 1 (\<lambda>_. zero_din) (\<lambda>_. keys 0) (freeblock ?m) (img ?m)"
    using kz by (auto simp: maps_ok_def wsect_def empty_image_def nmeta_eq)
  then have "files_ok 1 (\<lambda>_. zero_din) (\<lambda>_. 0) ?m" by (simp add: files_ok_def wsect_def empty_image_def nmeta_eq FSSIZE_def)
  moreover have "rinode (of_nat 0) ?m = Some zero_din"
  proof -
    have "unat (IBLOCK (of_nat 0) mk_sb) = 33" using iblock_unat [of 0] by simp
    then have "IBLOCK (of_nat 0) mk_sb \<noteq> 1" by auto
    then have "img ?m (IBLOCK (of_nat 0) mk_sb) = (\<lambda>_. 0)" by (simp add: wsect_def empty_image_def)
    then show ?thesis using rinode_eq [of 0 ?m]
      by (simp add: din_get_def zero_din_def get16_def get32_zero cong: if_cong)
  qed
  moreover have "on_disk zero_din" "unat (i_size zero_din) = 0" by (simp_all add: on_disk_def zero_din_def)
  ultimately show "image_ok ?m (\<lambda>_. zero_din) (\<lambda>_. 0)"
    by (simp add: image_ok_def wsect_def empty_image_def NINODES_def)
  show "[(0, 0, [])] ! i = vfile_of (img ?m) zero_din 0" if "i < length [(0 :: u16, 0 :: u16, [] :: u8 list)]" for i
    using that by (simp add: vfile_of_def zero_din_def contents_def)
qed

subsection \<open>Enough room\<close>

lemma file_blocks_mono: "s \<le> t \<Longrightarrow> file_blocks s \<le> file_blocks t"
proof -
  assume "s \<le> t"
  then have "nblk s \<le> nblk t" unfolding nblk_def by (intro div_le_mono) simp
  then show ?thesis by (auto simp: file_blocks_def)
qed

lemma fits_mono:
  assumes g: "fits gs" and l: "length fs \<le> length gs" and le: "\<And>j. j < length fs \<Longrightarrow> length (snd (snd (fs ! j))) \<le> length (snd (snd (gs ! j)))"
  shows "fits fs"
proof -
  let ?b = "\<lambda>fs j. file_blocks (length (snd (snd (fs ! j))))"
  have "(\<Sum>j < length fs. ?b fs j) \<le> (\<Sum>j < length fs. ?b gs j)" using le by (intro sum_mono file_blocks_mono) simp
  also have "\<dots> \<le> (\<Sum>j < length gs. ?b gs j)" using l by (intro sum_mono2) auto
  finally have "nmeta + (\<Sum>f\<leftarrow>fs. file_blocks (length (snd (snd f)))) \<le> FSSIZE"
    using g by (simp add: fits_def sum_list_sum_nth atLeast0LessThan)
  moreover have "length (snd (snd f)) \<le> MAXFILE * BSIZE" if f: "f \<in> set fs" for f
  proof -
    obtain j where j: "j < length fs" "f = fs ! j" using f by (auto simp: in_set_conv_nth)
    then have "length (snd (snd (gs ! j))) \<le> MAXFILE * BSIZE" using g l by (simp add: fits_def)
    then show ?thesis using le [OF j(1)] j(2) by simp
  qed
  ultimately show ?thesis by (simp add: fits_def)
qed

lemma iappends_some:
  "represents m fs \<Longrightarrow> i < length fs \<Longrightarrow> fits (fs[i := vappend (fs ! i) (concat cs)]) \<Longrightarrow> \<exists>m'. iappends (of_nat i) cs m = Some m'"
proof (induction cs arbitrary: m fs)
  case (Cons c cs)
  have "fits (fs[i := vappend (fs ! i) c])"
    by (rule fits_mono [OF Cons.prems(3)]) (use Cons.prems(2) in \<open>auto simp: nth_list_update vappend_def\<close>)
  then obtain m1 where m1: "iappend (of_nat i) c m = Some m1" using iappend_some [OF Cons.prems(1,2)] by blast
  have "represents m1 (fs[i := vappend (fs ! i) c])" by (rule iappend_represents [OF Cons.prems(1,2) m1])
  from Cons.IH [OF this] show ?case using Cons.prems(2,3) m1 by simp
qed simp

definition readable :: "host_file \<Rightarrow> bool" where
  "readable f \<longleftrightarrow> shortname (fst f) \<noteq> None \<and> snd f \<noteq> None"

lemma add_file_some:
  assumes r: "represents m fs" and n: "2 \<le> length fs" "length fs < NINODES" and f: "readable f"
    and fit: "fits (fs[1 := vappend (fs ! 1) (entry (length fs) f)] @ [new_vfile f])"
  shows "\<exists>m'. add_file f m = Some m'"
proof -
  let ?k = "length fs" and ?gs = "fs @ [(T_FILE, 1, [])]"
  obtain s cs where s: "shortname (fst f) = Some s" "snd f = Some cs" using f by (auto simp: readable_def)
  obtain m1 where i: "mk_ialloc T_FILE m = Some (of_nat ?k, m1)" "represents m1 ?gs"
    using mk_ialloc_represents [OF r n(2), of T_FILE thesis] by blast
  have uc: "ucast (of_nat ?k :: u32) = (of_nat ?k :: u16)" using n(2) by (simp add: unsigned_of_nat take_bit_nat_eq_self NINODES_def)
  have e: "de_make (ucast (of_nat ?k :: u32)) (name_bytes s) = entry ?k f" using s(1) uc by (simp add: entry_def)
  have one: "ROOTINO = of_nat 1" by (simp add: ROOTINO_def)
  have l: "1 < length ?gs" using n(1) by (cases fs) auto
  have gs: "?gs[1 := vappend (?gs ! 1) (entry ?k f)] = fs[1 := vappend (fs ! 1) (entry ?k f)] @ [(T_FILE, 1, [])]"
    using n(1) by (simp add: list_update_append nth_append)
  have "fits (?gs[1 := vappend (?gs ! 1) (entry ?k f)])"
    unfolding gs by (rule fits_mono [OF fit]) (auto simp: nth_append)
  from iappend_some [OF i(2) l this] obtain m2 where m2: "iappend (of_nat 1) (entry ?k f) m1 = Some m2" by blast
  have r2: "represents m2 (fs[1 := vappend (fs ! 1) (entry ?k f)] @ [(T_FILE, 1, [])])"
    using iappend_represents [OF i(2) l m2] unfolding gs .
  have "\<exists>m'. iappends (of_nat ?k) cs m2 = Some m'"
    by (rule iappends_some [OF r2]) (use fit s(2) in \<open>simp_all add: nth_append list_update_append new_vfile_def vappend_def\<close>)
  then show ?thesis using s i(1) m2 e one by (simp add: add_file_def del: of_nat_1)
qed

lemma add_files_some:
  "represents m (z # (t, l, r) # gs) \<Longrightarrow> length gs + 2 + length files \<le> NINODES \<Longrightarrow> \<forall>f \<in> set files. readable f \<Longrightarrow>
   fits (z # (t, l, r @ entries (length gs + 2) files) # gs @ map new_vfile files) \<Longrightarrow> \<exists>m'. add_files files m = Some m'"
proof (induction files arbitrary: m r gs)
  case (Cons f files)
  let ?fs = "z # (t, l, r) # gs"
  have e: "?fs[1 := vappend (?fs ! 1) (entry (length ?fs) f)] @ [new_vfile f] = z # (t, l, r @ entry (length gs + 2) f) # (gs @ [new_vfile f])"
    by (simp add: vappend_def)
  have "fits (z # (t, l, r @ entry (length gs + 2) f) # (gs @ [new_vfile f]))"
    by (rule fits_mono [OF Cons.prems(4)]) (auto simp: nth_Cons nth_append split: nat.splits)
  then obtain m1 where m1: "add_file f m = Some m1" using add_file_some [OF Cons.prems(1), of f] Cons.prems(2,3) unfolding e by auto
  have "represents m1 (z # (t, l, r @ entry (length gs + 2) f) # (gs @ [new_vfile f]))"
    using add_file_represents [OF Cons.prems(1) _ _ m1] Cons.prems(2) unfolding e by simp
  from Cons.IH [OF this] show ?case using Cons.prems(2-4) m1 by simp
qed simp

subsection \<open>The theorems\<close>

lemma bitmap_bits: "bmap_bit (fold (\<lambda>i b. bmap_set b i) [0..<n] (\<lambda>_. 0)) k \<longleftrightarrow> k < n"
proof (induction n)
  case 0
  show ?case by (simp add: bmap_bit_iff)
qed (auto simp: bmap_bit_set)

text \<open>
  \<open>fs_image m fs\<close>: the inodes of the image are those of the files \<open>fs\<close>, with their types and link counts; reading them
  through their block maps gives their bytes. The size of the root directory is rounded up to the next block.
  The blocks of the data area below \<open>freeblock\<close> are those that the sizes of the files need, and each belongs to one place of one file.
\<close>

definition file_keys :: "vfile list \<Rightarrow> nat \<Rightarrow> nat set" where
  "file_keys fs i = keys (length (snd (snd (fs ! i))))"

definition fs_image :: "image \<Rightarrow> vfile list \<Rightarrow> bool" where
  "fs_image m fs \<longleftrightarrow>
     (\<exists>D. maps_ok (length fs) D (file_keys fs) (freeblock m) (img m) \<and>
       (\<forall>i < length fs. rinode (of_nat i) m = Some (D i) \<and> i_type (D i) = fst (fs ! i) \<and> i_nlink (D i) = fst (snd (fs ! i)) \<and>
          (let bs = snd (snd (fs ! i)) in
             contents (img m) (D i) (length bs) = bs \<and>
             unat (i_size (D i)) = (if i = 1 then (length bs div BSIZE + 1) * BSIZE else length bs))))"

lemma maps_ok_keys_cong:
  assumes "\<And>i. i < n \<Longrightarrow> U i = V i"
  shows "maps_ok n D U fb d \<longleftrightarrow> maps_ok n D V fb d"
  unfolding maps_ok_def using assms by simp

lemma fix_root_image:
  assumes r: "represents m fs" and n: "1 < length fs" and a: "fix_root m = Some m'"
  shows "fs_image m' fs \<and> freeblock m' = freeblock m \<and> img m' 1 = sb_block \<and> freeblock m \<le> FSSIZE"
proof -
  obtain D sizes where ok: "image_ok m D sizes" and fs: "\<And>j. j < length fs \<Longrightarrow> fs ! j = vfile_of (img m) (D j) (sizes j)" and fi: "freeinode m = length fs"
    using r by (auto simp: represents_def)
  have mo: "maps_ok (length fs) D (\<lambda>i. keys (sizes i)) (freeblock m) (img m)" and nn: "length fs \<le> 200"
    and ri: "\<And>j. j < length fs \<Longrightarrow> rinode (of_nat j) m = Some (D j)" and od: "\<And>j. j < length fs \<Longrightarrow> on_disk (D j)"
    and us: "\<And>j. j < length fs \<Longrightarrow> unat (i_size (D j)) = sizes j" and s1: "sizes 1 \<le> MAXFILE * BSIZE" and fb: "freeblock m \<le> FSSIZE"
    using ok fi n by (auto simp: image_ok_def files_ok_def NINODES_def)
  let ?off = "(sizes 1 div BSIZE + 1) * BSIZE" and ?v = "(D 1)\<lparr>i_size := of_nat ((sizes 1 div BSIZE + 1) * BSIZE)\<rparr>"
  have one: "ROOTINO = of_nat 1" by (simp add: ROOTINO_def)
  have w: "winode (of_nat 1) ?v m = Some m'"
    using a ri [OF n] us [OF n] by (simp add: fix_root_def one Let_def del: of_nat_1)
  have ov: "on_disk ?v" using od [OF n] by (rule on_disk_same(2))
  have i1: "(1::nat) < 208" by simp
  note wo = winode_ok [OF w i1 ov]
  have low: "\<And>r. nmeta \<le> unat r \<Longrightarrow> img m' r = img m r" using wo(4) by (simp add: nmeta_eq)
  let ?D = "D(1 := ?v)"
  have "maps_ok (length fs) ?D (\<lambda>i. keys (sizes i)) (freeblock m) (img m)" by (rule maps_ok_cong [OF _ mo]) simp
  then have mo': "maps_ok (length fs) ?D (\<lambda>i. keys (sizes i)) (freeblock m') (img m')" using maps_ok_low low wo(3) by metis
  have "?off \<le> (MAXFILE + 1) * BSIZE" using div_le_mono [OF s1, of BSIZE] by (intro mult_le_mono1) simp
  then have "?off < 2 ^ 32 - 1" by (rule le_less_trans) (simp add: MAXFILE_eq BSIZE_def)
  then have uo: "unat (of_nat ?off :: u32) = ?off" by (rule unat_fb)
  have ct: "contents (img m') (?D j) (sizes j) = contents (img m) (D j) (sizes j)" if "j < length fs" for j
    using contents_low [OF mo low that subset_refl] by (cases "j = 1") simp_all
  have len: "length (snd (snd (fs ! j))) = sizes j" if "j < length fs" for j using fs [OF that] by (simp add: vfile_of_def contents_def)
  have "rinode (of_nat i) m' = Some (?D i) \<and> i_type (?D i) = fst (fs ! i) \<and> i_nlink (?D i) = fst (snd (fs ! i)) \<and>
      (let bs = snd (snd (fs ! i)) in contents (img m') (?D i) (length bs) = bs \<and>
         unat (i_size (?D i)) = (if i = 1 then (length bs div BSIZE + 1) * BSIZE else length bs))" if i: "i < length fs" for i
    using wo(1) [of i] ri [OF i] us [OF i] ct [OF i] len [OF i] fs [OF i] uo i nn by (auto simp: vfile_of_def Let_def)
  moreover have "maps_ok (length fs) ?D (file_keys fs) (freeblock m') (img m')"
    using mo' maps_ok_keys_cong [of "length fs" "file_keys fs" "\<lambda>i. keys (sizes i)"] len by (simp add: file_keys_def)
  ultimately have "fs_image m' fs" unfolding fs_image_def by blast
  moreover have "img m' 1 = sb_block" using wo(4) [of 1] ok by (simp add: image_ok_def)
  ultimately show ?thesis using wo(3) fb by simp
qed

lemma fs_image_low:
  assumes f: "fs_image m fs" and n: "length fs \<le> 208" and d: "\<And>r. unat r \<noteq> 46 \<Longrightarrow> img m' r = img m r" and b: "freeblock m' = freeblock m"
  shows "fs_image m' fs"
proof -
  obtain D where m: "maps_ok (length fs) D (file_keys fs) (freeblock m) (img m)"
    and i: "\<And>i. i < length fs \<Longrightarrow> rinode (of_nat i) m = Some (D i) \<and> i_type (D i) = fst (fs ! i) \<and> i_nlink (D i) = fst (snd (fs ! i)) \<and>
          (let bs = snd (snd (fs ! i)) in
             contents (img m) (D i) (length bs) = bs \<and>
             unat (i_size (D i)) = (if i = 1 then (length bs div BSIZE + 1) * BSIZE else length bs))"
    using f unfolding fs_image_def by blast
  have low: "\<And>r. nmeta \<le> unat r \<Longrightarrow> img m' r = img m r" using d by (simp add: nmeta_eq)
  have "rinode (of_nat i) m' = rinode (of_nat i) m" if "i < length fs" for i
    using that n d [of "IBLOCK (of_nat i) mk_sb"] iblock_unat [of i] by (simp add: rinode_eq)
  moreover have "contents (img m') (D j) (length (snd (snd (fs ! j)))) = contents (img m) (D j) (length (snd (snd (fs ! j))))" if "j < length fs" for j
    by (rule contents_low [OF m low that]) (simp_all add: file_keys_def)
  ultimately show ?thesis unfolding fs_image_def using maps_ok_low [OF m low] b i
    by (intro exI [of _ D]) (simp add: Let_def)
qed

lemma get32_put32_other: "off + 4 \<le> off' \<or> off' + 4 \<le> off \<Longrightarrow> get32 (put32 b off v) off' = get32 b off'"
  by (auto simp: get32_def put32_def upt_rec)

lemma sb_fields:
  "get32 sb_block 0 = sb_magic mk_sb" "get32 sb_block 4 = sb_size mk_sb" "get32 sb_block 8 = sb_nblocks mk_sb"
  "get32 sb_block 12 = sb_ninodes mk_sb" "get32 sb_block 16 = sb_nlog mk_sb" "get32 sb_block 20 = sb_logstart mk_sb"
  "get32 sb_block 24 = sb_inodestart mk_sb" "get32 sb_block 28 = sb_bmapstart mk_sb"
  by (simp_all add: sb_block_def Let_def get32_put32_other)

definition read_sb :: "block \<Rightarrow> superblock" where
  "read_sb b = \<lparr>sb_magic = get32 b 0, sb_size = get32 b 4, sb_nblocks = get32 b 8, sb_ninodes = get32 b 12, sb_nlog = get32 b 16,
     sb_logstart = get32 b 20, sb_inodestart = get32 b 24, sb_bmapstart = get32 b 28\<rparr>"

lemma mkfs_root:
  assumes "mk_ialloc T_DIR (wsect 1 sb_block empty_image) = Some (r, m1)"
  shows "r = of_nat 1 \<and> represents m1 [(0, 0, []), (T_DIR, 1, [])]"
proof -
  have "length [(0 :: u16, 0 :: u16, [] :: u8 list)] < NINODES" by (simp add: NINODES_def)
  from mk_ialloc_represents [OF empty_represents this, of T_DIR] show ?thesis using assms by (metis One_nat_def append_Cons append_Nil length_Cons list.size(3) option.inject prod.inject)
qed

lemma root_append:
  assumes "represents m ((0, 0, []) # (T_DIR, 1, bs) # fs)" "iappend (of_nat 1) p m = Some m'"
  shows "represents m' ((0, 0, []) # (T_DIR, 1, bs @ p) # fs)"
proof -
  have l: "1 < length ((0 :: u16, 0 :: u16, [] :: u8 list) # (T_DIR, 1, bs) # fs)" by simp
  show ?thesis using iappend_represents [OF assms(1) l assms(2)] by (simp add: vappend_def)
qed

text \<open>The run up to the two entries of the root directory, which never fails, and the rest of it.\<close>

lemma mkfs_start:
  obtains m where "represents m [(0, 0, []), (T_DIR, 1, dot_entries)]"
    "\<And>files. mkfs_main files = do { m \<leftarrow> add_files files m; m \<leftarrow> fix_root m; mk_balloc (freeblock m) m }"
proof -
  have fit: "fits [(0, 0, []), (T_DIR, 1, bs)]" if "length bs \<le> 32" for bs :: "u8 list"
    using that file_blocks_mono [OF that] by (simp add: fits_def file_blocks_def nblk_def MAXFILE_eq BSIZE_def nmeta_eq FSSIZE_def)
  have n: "length [(0 :: u16, 0 :: u16, [] :: u8 list)] < NINODES" by (simp add: NINODES_def)
  obtain m1 where m1: "mk_ialloc T_DIR (wsect 1 sb_block empty_image) = Some (of_nat 1, m1)" and 1: "represents m1 [(0, 0, []), (T_DIR, 1, [])]"
    using mk_ialloc_represents [OF empty_represents n, of T_DIR thesis] by auto
  have some: "\<exists>m'. iappend (of_nat 1) p m = Some m'" if "represents m [(0, 0, []), (T_DIR, 1, bs)]" "length (bs @ p) \<le> 32" for m bs p
    using iappend_some [OF that(1), of 1 p] fit [OF that(2)] by (simp add: vappend_def)
  obtain m2 where m2: "iappend (of_nat 1) (de_make 1 (name_bytes ''.'')) m1 = Some m2"
    using some [OF 1, of "de_make 1 (name_bytes ''.'')"] by auto
  note 2 = root_append [OF 1 m2]
  obtain m3 where m3: "iappend (of_nat 1) (de_make 1 (name_bytes ''..'')) m2 = Some m3"
    using some [OF 2, of "de_make 1 (name_bytes ''..'')"] by auto
  note 3 = root_append [OF 2 m3]
  show thesis
  proof (rule that [of m3])
    show "represents m3 [(0, 0, []), (T_DIR, 1, dot_entries)]" using 3 by (simp add: dot_entries_def)
    show "mkfs_main files = do { m \<leftarrow> add_files files m3; m \<leftarrow> fix_root m; mk_balloc (freeblock m) m }" for files
      using m1 m2 m3 by (simp add: mkfs_main_def Let_def ROOTINO_def)
  qed
qed

lemma add_files_readable: "add_files files m = Some m' \<Longrightarrow> \<forall>f \<in> set files. readable f"
  by (induction files arbitrary: m) (auto simp: add_file_def readable_def split: bind_splits)

lemma add_files_iff:
  assumes "represents m [(0, 0, []), (T_DIR, 1, dot_entries)]" "length files + 2 \<le> NINODES"
  shows "add_files files m = None \<longleftrightarrow> \<not> ((\<forall>f \<in> set files. readable f) \<and> fits (mkfs_files files))"
    "add_files files m = Some m' \<Longrightarrow> represents m' (mkfs_files files)"
proof -
  show r: "represents m' (mkfs_files files)" if "add_files files m = Some m'" for m'
    using add_files_represents [OF assms(1) _ that] assms(2) by (simp add: mkfs_files_def numeral_2_eq_2)
  show "add_files files m = None \<longleftrightarrow> \<not> ((\<forall>f \<in> set files. readable f) \<and> fits (mkfs_files files))"
    using r represents_fits(1) add_files_readable add_files_some [OF assms(1), of files] assms(2)
    by (cases "add_files files m") (auto simp: mkfs_files_def numeral_2_eq_2)
qed

lemma fix_root_some: "\<exists>m'. fix_root m = Some m'"
proof -
  have i: "(1::nat) < 208" and one: "ROOTINO = of_nat 1" by (simp_all add: ROOTINO_def)
  show ?thesis using rinode_eq [OF i] winode_eq [OF i] unfolding fix_root_def one by (simp add: Let_def)
qed

lemma finish_image:
  assumes r: "represents m fs" and n: "1 < length fs" "length fs \<le> NINODES"
  obtains m1 m' where "fix_root m = Some m1" "mk_balloc (freeblock m1) m1 = Some m'" "fs_image m' fs" "read_sb (img m' 1) = mk_sb"
    "\<And>b. bmap_bit (img m' (sb_bmapstart mk_sb)) b \<longleftrightarrow> b < freeblock m'" "freeblock m' = freeblock m"
proof -
  obtain m1 where f: "fix_root m = Some m1" using fix_root_some by blast
  note 5 = fix_root_image [OF r n(1) f]
  let ?m = "wsect 46 (fold (\<lambda>i b. bmap_set b i) [0..<freeblock m1] (\<lambda>_. 0)) m1"
  have b: "mk_balloc (freeblock m1) m1 = Some ?m" using 5 by (simp add: mk_balloc_def sb_simps)
  have ne: "img ?m r = img m1 r" if "unat r \<noteq> 46" for r using that by (auto simp: wsect_def)
  have fb: "freeblock ?m = freeblock m1" by (simp add: wsect_def)
  have "fs_image ?m fs" by (rule fs_image_low [OF _ _ ne fb]) (use 5 n in \<open>auto simp: NINODES_def\<close>)
  moreover have "read_sb (img ?m 1) = mk_sb" using ne [of 1] 5 by (simp add: read_sb_def sb_fields)
  moreover have "bmap_bit (img ?m (sb_bmapstart mk_sb)) k \<longleftrightarrow> k < freeblock ?m" for k by (simp add: wsect_def sb_simps bitmap_bits)
  ultimately show thesis using that [OF f b] 5 fb by simp
qed

text \<open>Nothing stops \<^verbatim>\<open>ialloc\<close> at the last inode: with more than 206 files an inode goes to the block of the bitmap.\<close>

lemma ialloc_reaches_bitmap: "IBLOCK (of_nat 208) mk_sb = sb_bmapstart mk_sb"
  by (simp add: IBLOCK_def sb_simps)

text \<open>
  C2. The image builder \<^verbatim>\<open>mkfs\<close>, given at most 198 files, either fails or builds the image of exactly those files.
  It fails if and only if a file cannot be opened, has a name with a slash or of more than \<^verbatim>\<open>DIRSIZ\<close> characters, or the
  files do not fit: one is longer than \<^verbatim>\<open>MAXFILE\<close> blocks, or their blocks with the indirect blocks, the directory and the meta blocks are
  more than \<^verbatim>\<open>FSSIZE\<close>. Otherwise the superblock reads back with the layout of the kernel; inode 1 is the root directory, with the entries \<^verbatim>\<open>.\<close>, \<^verbatim>\<open>..\<close> and
  the short names of the files with the inode numbers 2, 3, and so on; each of these inodes has the type, link count,
  size and bytes of its file; no block belongs to two files; and the bitmap marks the meta blocks
  and the blocks that the files use, and no other block.
\<close>

theorem mkfs_correct:
  assumes n: "length files + 2 \<le> NINODES"
  shows "case mkfs_main files of
    None \<Rightarrow> \<not> ((\<forall>f \<in> set files. readable f) \<and> fits (mkfs_files files))
  | Some m \<Rightarrow> (\<forall>f \<in> set files. readable f) \<and> fits (mkfs_files files) \<and> fs_image m (mkfs_files files) \<and> read_sb (img m 1) = mk_sb \<and>
      (\<forall>b. bmap_bit (img m (sb_bmapstart mk_sb)) b \<longleftrightarrow> b < freeblock m) \<and>
      freeblock m = nmeta + (\<Sum>f\<leftarrow>mkfs_files files. file_blocks (length (snd (snd f))))"
proof (rule mkfs_start)
  fix m0
  assume r: "represents m0 [(0, 0, []), (T_DIR, 1, dot_entries)]"
    and e: "\<And>files. mkfs_main files = do { m \<leftarrow> add_files files m0; m \<leftarrow> fix_root m; mk_balloc (freeblock m) m }"
  show ?thesis
  proof (cases "add_files files m0")
    case None
    then show ?thesis using e [of files] add_files_iff(1) [OF r n] by simp
  next
    case (Some m)
    have m: "represents m (mkfs_files files)" by (rule add_files_iff(2) [OF r n Some])
    have l: "1 < length (mkfs_files files)" "length (mkfs_files files) \<le> NINODES" using n by (simp_all add: mkfs_files_def)
    obtain m1 m' where "fix_root m = Some m1" "mk_balloc (freeblock m1) m1 = Some m'" "fs_image m' (mkfs_files files)" "read_sb (img m' 1) = mk_sb"
      "\<forall>b. bmap_bit (img m' (sb_bmapstart mk_sb)) b \<longleftrightarrow> b < freeblock m'" "freeblock m' = freeblock m"
      using finish_image [OF m l, of thesis] by blast
    then show ?thesis using e [of files] Some represents_fits [OF m] add_files_iff(1) [OF r n] by simp
  qed
qed

theorem mkfs_correct_witness:
  "\<exists>m. mkfs_main [(''user/_cat'', Some [[1, 2], [3]])] = Some m \<and> fs_image m (mkfs_files [(''user/_cat'', Some [[1, 2], [3]])]) \<and> freeblock m = 49"
proof -
  have "readable (''user/_cat'', Some [[1, 2], [3]])" by (simp add: readable_def shortname_def DIRSIZ_def)
  moreover have "fits (mkfs_files [(''user/_cat'', Some [[1, 2], [3]])])"
    "nmeta + (\<Sum>f\<leftarrow>mkfs_files [(''user/_cat'', Some [[1, 2], [3]])]. file_blocks (length (snd (snd f)))) = 49"
    by (simp_all add: fits_def mkfs_files_def dot_entries_def entry_def new_vfile_def file_blocks_def nblk_def MAXFILE_eq BSIZE_def nmeta_eq FSSIZE_def)
  ultimately show ?thesis using mkfs_correct [of "[(''user/_cat'', Some [[1, 2], [3]])]"]
    by (auto simp: NINODES_def split: option.splits)
qed

end
