(* ===== verification/Peek.thy ===== *)
theory Peek
  imports Hoststr
begin

text \<open>
  The intrinsic \<^verbatim>\<open>peek\<close> of the C shell (\<^verbatim>\<open>c-shell/src/bins.c\<close>): it prints files, numbered with \<^verbatim>\<open>-n\<close> and from the last line
  to the first with \<^verbatim>\<open>-r\<close>. Forward it collects the lines with \<^verbatim>\<open>getline\<close>; backward it reads a file in chunks of 2048
  bytes from the end and keeps the beginning of a chunk that is not a whole line yet for the next one. The host is an input: what is under a name, and the text
  that standard input delivers up to each end of file. The output is a list of lines; counters are unbounded.
\<close>

subsection \<open>Input and output\<close>

datatype peek_out =
    PBlank
  | PLine string
  | PNum int string
  | PErr string

text \<open>What \<^verbatim>\<open>stat\<close> and \<^verbatim>\<open>fopen\<close> find under a name.\<close>

datatype host_entry = HDir | HFile string | HNone

text \<open>The lines that \<^verbatim>\<open>getline\<close> returns, each with its newline.\<close>

function getlines :: "string \<Rightarrow> string list" where
  "getlines s =
     (if s = [] then []
      else case dropWhile (\<lambda>c. c \<noteq> nl) s of
          [] \<Rightarrow> [s]
        | c # r \<Rightarrow> (takeWhile (\<lambda>c. c \<noteq> nl) s @ [c]) # getlines r)"
  by pat_completeness auto
termination
proof (relation "measure length")
  fix s :: string and c r
  assume "dropWhile (\<lambda>c. c \<noteq> nl) s = c # r"
  then have "length (c # r) \<le> length s" using length_dropWhile_le by metis
  then show "(r, s) \<in> measure length" by simp
qed simp

declare getlines.simps [simp del]

definition chomp :: "string \<Rightarrow> string" where
  "chomp l = (if l \<noteq> [] \<and> last l = nl then butlast l else l)"

text \<open>The array \<^verbatim>\<open>lines\<close>: each line without its newline, as \<^verbatim>\<open>strdup\<close> copies it.\<close>

definition read_lines :: "string \<Rightarrow> string list" where
  "read_lines s = map (\<lambda>l. cstr (chomp l)) (getlines s)"

subsection \<open>Forward\<close>

definition show_line :: "bool \<Rightarrow> int \<Rightarrow> string \<Rightarrow> peek_out" where
  "show_line num k l = (if num then PNum k l else PLine l)"

primrec print_fwd :: "bool \<Rightarrow> int \<Rightarrow> string list \<Rightarrow> peek_out list" where
  "print_fwd num k [] = []"
| "print_fwd num k (l # ls) =
     (if l = [] then PBlank # print_fwd num k ls else show_line num (k + 1) l # print_fwd num (k + 1) ls)"

primrec print_back :: "bool \<Rightarrow> int \<Rightarrow> string list \<Rightarrow> peek_out list" where
  "print_back num kk [] = []"
| "print_back num kk (l # ls) =
     (if l = [] then PBlank # print_back num kk ls else show_line num kk l # print_back num (kk - 1) ls)"

text \<open>Standard input is printed backward from the array of all lines.\<close>

definition peek_stdin_rev :: "bool \<Rightarrow> string \<Rightarrow> peek_out list" where
  "peek_stdin_rev num s =
     (let lines = read_lines s in print_back num (int (length (filter (\<lambda>l. l \<noteq> []) lines))) (rev lines))"

subsection \<open>Backward\<close>

definition chunk_size :: nat where "chunk_size = 2048"

text \<open>
  The loop over \<^verbatim>\<open>j\<close> from \<^verbatim>\<open>prev\<close> down to 0. \<open>e\<close> is \<^verbatim>\<open>prev + 1\<close>, the end of the line that is being looked for; a newline at
  \<open>j\<close> completes it.
\<close>

primrec peek_scan :: "bool \<Rightarrow> string \<Rightarrow> nat \<Rightarrow> nat \<Rightarrow> int \<Rightarrow> peek_out list \<times> nat \<times> int" where
  "peek_scan num buffer 0 e k = ([], e, k)"
| "peek_scan num buffer (Suc j) e k =
     (if buffer ! j = nl
      then let str = e - Suc j; line = cstr (take str (drop (Suc j) buffer)) in
           if str = 0 then (case peek_scan num buffer j j k of (out, r) \<Rightarrow> (PBlank # out, r))
           else (case peek_scan num buffer j j (k - 1) of (out, r) \<Rightarrow> (show_line num k line # out, r))
      else peek_scan num buffer j e k)"

text \<open>One turn of the loop over the chunks: what is printed, the rest, and the line number.\<close>

definition peek_chunk :: "bool \<Rightarrow> string \<Rightarrow> nat \<Rightarrow> string \<Rightarrow> int \<Rightarrow> peek_out list \<times> string \<times> int" where
  "peek_chunk num bytes pos rest k =
     (let reade = (if chunk_size < pos then chunk_size else pos);
          buffer = take reade (drop (pos - reade) bytes) @ rest;
          e = length buffer;
          e = (if pos = length bytes \<and> buffer ! (e - 1) = nl then e - 1 else e)
      in case peek_scan num buffer e e k of (out, e, k) \<Rightarrow> (out, take e buffer, k))"

function peek_chunks :: "bool \<Rightarrow> string \<Rightarrow> nat \<Rightarrow> string \<Rightarrow> int \<Rightarrow> peek_out list" where
  "peek_chunks num bytes pos rest k =
     (if 0 < pos
      then (case peek_chunk num bytes pos rest k of
          (out, rest, k) \<Rightarrow> out @ peek_chunks num bytes (pos - (if chunk_size < pos then chunk_size else pos)) rest k)
      else if rest \<noteq> [] then [show_line num k (cstr rest)] else [])"
  by pat_completeness auto
termination
  by (relation "measure (\<lambda>(_, _, pos, _, _). pos)") (auto simp: chunk_size_def)

declare peek_chunks.simps [simp del]

text \<open>With \<^verbatim>\<open>-n\<close> the lines that are not empty are counted first.\<close>

definition count_lines :: "string \<Rightarrow> int" where
  "count_lines bytes = int (length (filter (\<lambda>l. cstr l \<noteq> [nl] \<and> cstr l \<noteq> []) (getlines bytes)))"

definition peek_file_rev :: "bool \<Rightarrow> string \<Rightarrow> peek_out list" where
  "peek_file_rev num bytes =
     (if bytes = [] then []
      else peek_chunks num bytes (length bytes) [] (if num then count_lines bytes else 0))"

subsection \<open>The command\<close>

text \<open>One argument: what is printed, and what standard input has left.\<close>

definition peek_one :: "(string \<Rightarrow> host_entry) \<Rightarrow> bool \<Rightarrow> bool \<Rightarrow> string \<Rightarrow> string list \<Rightarrow> peek_out list \<times> string list" where
  "peek_one host rev_opt num a inp =
     (if a = ''-''
      then let s = (if inp = [] then [] else hd inp) in
           (if rev_opt then peek_stdin_rev num s else print_fwd num 0 (read_lines s), tl inp)
      else (case host a of
          HDir \<Rightarrow> [PErr ''peek: is a directory'']
        | HNone \<Rightarrow> [PErr ''peek: no such file or directory'']
        | HFile bytes \<Rightarrow> if rev_opt then peek_file_rev num bytes else print_fwd num 0 (read_lines bytes), inp))"

primrec peek_args :: "(string \<Rightarrow> host_entry) \<Rightarrow> bool \<Rightarrow> bool \<Rightarrow> string list \<Rightarrow> string list \<Rightarrow> peek_out list" where
  "peek_args host rev_opt num [] inp = []"
| "peek_args host rev_opt num (a # as) inp =
     (case peek_one host rev_opt num a inp of (out, inp) \<Rightarrow> out @ peek_args host rev_opt num as inp)"

text \<open>The letters of one option; an unknown one ends the command.\<close>

primrec opt_letters :: "string \<Rightarrow> bool \<times> bool \<Rightarrow> char + bool \<times> bool" where
  "opt_letters [] rn = Inr rn"
| "opt_letters (c # cs) rn =
     (if c = CHR ''r'' then opt_letters cs (True, snd rn)
      else if c = CHR ''n'' then opt_letters cs (fst rn, True)
      else Inl c)"

fun peek_opts :: "string list \<Rightarrow> bool \<times> bool \<Rightarrow> char + (bool \<times> bool) \<times> string list" where
  "peek_opts [] rn = Inr (rn, [])"
| "peek_opts (a # as) rn =
     (if a \<noteq> [] \<and> hd a = CHR ''-'' \<and> 1 < length a
      then (case opt_letters (tl a) rn of Inl c \<Rightarrow> Inl c | Inr rn \<Rightarrow> peek_opts as rn)
      else Inr (rn, a # as))"

text \<open>
  \<open>args\<close> are the arguments after the name of the command. Without a file the test of \<^verbatim>\<open>args[i-1]\<close> sees the
  last option or the name \<^verbatim>\<open>peek\<close>, neither of which is \<^verbatim>\<open>-\<close>.
\<close>

definition cmd_peek :: "(string \<Rightarrow> host_entry) \<Rightarrow> string list \<Rightarrow> string list \<Rightarrow> peek_out list" where
  "cmd_peek host args inp =
     (case peek_opts args (False, False) of
        Inl c \<Rightarrow> [PErr (''peek: invalid option '' @ [c])]
      | Inr ((rev_opt, num), as) \<Rightarrow>
          if as = [] then [PErr ''peek: invalid syntax''] else peek_args host rev_opt num as inp)"

subsection \<open>The parts of a text between newlines\<close>

fun segs :: "string \<Rightarrow> string list" where
  "segs [] = [[]]"
| "segs (c # s) = (if c = nl then [] # segs s else (c # hd (segs s)) # tl (segs s))"

lemma segs_not_Nil [simp]: "segs s \<noteq> []"
  by (induction s) auto

lemma segs_line: "nl \<notin> set z \<Longrightarrow> segs z = [z]"
  by (induction z) auto

lemma segs_append: "segs (p @ b) = butlast (segs p) @ (last (segs p) @ hd (segs b)) # tl (segs b)"
proof (induction p)
  case Nil
  show ?case by simp
next
  case (Cons c p)
  have "hd (butlast (segs p) @ (last (segs p) @ hd (segs b)) # tl (segs b)) = hd (segs p) \<and> butlast (segs p) \<noteq> [] \<or>
      segs p = [last (segs p)]"
    by (cases "segs p") auto
  then show ?case using Cons by (cases "segs p") auto
qed

lemma segs_last: "segs (p @ b) = segs (p @ hd (segs b)) @ tl (segs b)"
proof -
  have "nl \<notin> set (hd (segs b))" by (induction b) auto
  then have "segs (hd (segs b)) = [hd (segs b)]" by (rule segs_line)
  then show ?thesis by (simp add: segs_append [of p b] segs_append [of p "hd (segs b)"])
qed

lemma hd_segs_no_nl: "nl \<notin> set (hd (segs b))"
  by (induction b) auto

lemma segs_snoc: "nl \<notin> set z \<Longrightarrow> segs (x @ nl # z) = segs x @ [z]"
  using segs_append [of x "nl # z"] by (simp add: segs_line)

text \<open>The lines are the parts of the text without its last newline.\<close>

lemma chomp_append: "y \<noteq> [] \<Longrightarrow> chomp (x @ y) = x @ chomp y"
  by (simp add: chomp_def butlast_append)

lemma chomp_take: "t \<noteq> [] \<Longrightarrow> chomp t = take (if last t = nl then length t - 1 else length t) t"
  by (simp add: chomp_def butlast_conv_take)

lemma getlines_segs: "s \<noteq> [] \<Longrightarrow> map chomp (getlines s) = segs (chomp s)"
proof (induction s rule: getlines.induct)
  case (1 s)
  let ?t = "takeWhile (\<lambda>c. c \<noteq> nl) s" and ?d = "dropWhile (\<lambda>c. c \<noteq> nl) s"
  have s: "s = ?t @ ?d" by simp
  have t: "nl \<notin> set ?t" by (auto dest: set_takeWhileD)
  show ?case
  proof (cases ?d)
    case Nil
    then have n: "nl \<notin> set s" by (metis append_Nil2 s t)
    then have "chomp s = s" by (metis chomp_def last_in_set)
    then show ?thesis using 1(2) n by (simp add: getlines.simps [of s] Nil segs_line)
  next
    case (Cons c r)
    then have c: "c = nl" using hd_dropWhile [of "\<lambda>c. c \<noteq> nl" s] by auto
    have g: "map chomp (getlines s) = ?t # map chomp (getlines r)"
      using 1(2) Cons c by (subst getlines.simps) (simp add: chomp_def)
    have sr: "s = ?t @ nl # r" using takeWhile_dropWhile_id [of "\<lambda>c. c \<noteq> nl" s] Cons c by simp
    show ?thesis
    proof (cases "r = []")
      case True
      then have "chomp s = ?t" by (subst sr) (simp add: chomp_def butlast_append)
      then show ?thesis using g True t by (simp add: segs_line getlines.simps [of "[]"])
    next
      case False
      then have "chomp s = ?t @ nl # chomp r" by (subst sr) (simp add: chomp_def butlast_append)
      moreover have "segs (?t @ nl # chomp r) = ?t # segs (chomp r)" using segs_append [of ?t "nl # chomp r"] t by (simp add: segs_line)
      ultimately show ?thesis using g 1(1) [OF 1(2) Cons False] by simp
    qed
  qed
qed

subsection \<open>The backward loop\<close>

definition full :: "string list \<Rightarrow> nat" where
  "full ls = length (filter (\<lambda>l. l \<noteq> []) ls)"

text \<open>Printing backward, from the text of the lines.\<close>

primrec back_lines :: "bool \<Rightarrow> int \<Rightarrow> string list \<Rightarrow> peek_out list" where
  "back_lines num k [] = []"
| "back_lines num k (l # ls) =
     (if l = [] then PBlank # back_lines num k ls else show_line num k (cstr l) # back_lines num (k - 1) ls)"

lemma back_lines_append: "back_lines num k (xs @ ys) = back_lines num k xs @ back_lines num (k - int (full xs)) ys"
  by (induction xs arbitrary: k) (auto simp: full_def algebra_simps)

lemma full_append [simp]: "full (xs @ ys) = full xs + full ys"
  by (simp add: full_def)

lemma peek_scan_segs:
  "j \<le> e \<Longrightarrow> e \<le> length buffer \<Longrightarrow> nl \<notin> set (take (e - j) (drop j buffer)) \<Longrightarrow>
   peek_scan num buffer j e k =
     (let ls = segs (take e buffer) in (back_lines num k (rev (tl ls)), length (hd ls), k - int (full (tl ls))))"
proof (induction j arbitrary: e k)
  case 0
  then show ?case by (simp add: segs_line full_def)
next
  case (Suc j)
  let ?l = "take (e - Suc j) (drop (Suc j) buffer)"
  have j: "j < length buffer" using Suc.prems by simp
  have tk: "take (e - j) (drop j buffer) = buffer ! j # ?l"
    using Suc.prems(1) j by (simp add: Suc_diff_Suc Cons_nth_drop_Suc [symmetric] take_Cons')
  show ?case
  proof (cases "buffer ! j = nl")
    case False
    then show ?thesis using Suc.IH [of e k] Suc.prems tk by simp
  next
    case True
    have "take e buffer = take j buffer @ take (e - j) (drop j buffer)" using Suc.prems(1) by (metis Suc_leD le_add_diff_inverse take_add)
    then have sg: "segs (take e buffer) = segs (take j buffer) @ [?l]" using tk True segs_snoc [OF Suc.prems(3)] by simp
    have len: "length ?l = e - Suc j" using Suc.prems by simp
    have ih: "peek_scan num buffer j j k' = (let ls = segs (take j buffer) in (back_lines num k' (rev (tl ls)), length (hd ls), k' - int (full (tl ls))))" for k'
      using Suc.IH [of j k'] j by simp
    show ?thesis using True ih [of k] ih [of "k - 1"] len sg
      by (cases "e - Suc j = 0") (auto simp: Let_def full_def)
  qed
qed

lemma take_hd_segs: "take (length (hd (segs b))) b = hd (segs b)"
  by (induction b) auto

text \<open>
  One chunk prints the whole lines of the chunk and the rest and keeps the first part; only the first chunk drops the newline
  at its end.
\<close>

lemma peek_chunk_segs:
  assumes p: "0 < pos" "pos \<le> length bytes" and r: "pos = length bytes \<Longrightarrow> rest = []"
  defines "n \<equiv> (if chunk_size < pos then chunk_size else pos)"
  defines "b \<equiv> (let t = take n (drop (pos - n) bytes) @ rest in if pos = length bytes then chomp t else t)"
  shows "peek_chunk num bytes pos rest k = (back_lines num k (rev (tl (segs b))), hd (segs b), k - int (full (tl (segs b))))"
proof -
  define t where "t = take n (drop (pos - n) bytes) @ rest"
  have n: "0 < n" "n \<le> pos" using p(1) by (auto simp: n_def chunk_size_def)
  then have t: "t \<noteq> []" using p by (auto simp: t_def)
  let ?e = "if pos = length bytes \<and> last t = nl then length t - 1 else length t"
  have b: "b = take ?e t" using chomp_take [OF t] by (simp add: b_def t_def [symmetric] Let_def)
  have e: "?e \<le> length t" by simp
  have sc: "peek_scan num t ?e ?e k = (back_lines num k (rev (tl (segs b))), length (hd (segs b)), k - int (full (tl (segs b))))"
    using peek_scan_segs [of ?e ?e t num k] e by (simp add: b Let_def)
  have "take (length (hd (segs b))) t = hd (segs b)"
  proof -
    have "length (hd (segs b)) \<le> length b" by (metis nat_le_linear take_all take_hd_segs)
    then have "length (hd (segs b)) \<le> ?e" using b by simp
    then have "take (length (hd (segs b))) t = take (length (hd (segs b))) b" by (simp add: b min_def)
    then show ?thesis by (simp add: take_hd_segs)
  qed
  then show ?thesis using sc t unfolding peek_chunk_def n_def [symmetric] Let_def t_def [symmetric] last_conv_nth [OF t, symmetric] by simp
qed

definition skip_blank :: "string list \<Rightarrow> string list" where
  "skip_blank ls = (if ls \<noteq> [] \<and> hd ls = [] then tl ls else ls)"

text \<open>The text that is left when \<open>pos\<close> bytes are unread.\<close>

definition unread :: "string \<Rightarrow> nat \<Rightarrow> string \<Rightarrow> string" where
  "unread bytes pos rest = (if pos = length bytes then chomp bytes else take pos bytes @ rest)"

lemma peek_chunks_segs:
  "pos \<le> length bytes \<Longrightarrow> bytes \<noteq> [] \<Longrightarrow> (pos = length bytes \<Longrightarrow> rest = []) \<Longrightarrow> nl \<notin> set rest \<Longrightarrow>
   peek_chunks num bytes pos rest k = back_lines num k (rev (skip_blank (segs (unread bytes pos rest))))"
proof (induction num bytes pos rest k rule: peek_chunks.induct)
  case (1 num bytes pos rest k)
  show ?case
  proof (cases "0 < pos")
    case False
    then show ?thesis using 1(3,5) by (subst peek_chunks.simps) (auto simp: unread_def segs_line skip_blank_def)
  next
    case True
    let ?n = "if chunk_size < pos then chunk_size else pos"
    let ?b = "let t = take ?n (drop (pos - ?n) bytes) @ rest in if pos = length bytes then chomp t else t"
    note pc = peek_chunk_segs [OF True 1(2,4), of num k]
    have n: "0 < ?n" "?n \<le> pos" using True by (auto simp: chunk_size_def)
    have u: "unread bytes pos rest = take (pos - ?n) bytes @ ?b"
    proof (cases "pos = length bytes")
      case True
      have "take (pos - ?n) bytes @ chomp (drop (pos - ?n) bytes) = chomp bytes"
        using n True chomp_append [of "drop (pos - ?n) bytes" "take (pos - ?n) bytes"] by simp
      then show ?thesis using True 1(4) by (simp add: unread_def Let_def)
    next
      case False
      have "take pos bytes = take (pos - ?n) bytes @ take ?n (drop (pos - ?n) bytes)"
        using n by (metis le_add_diff_inverse2 take_add)
      then show ?thesis using False by (simp add: unread_def)
    qed
    have "peek_chunks num bytes (pos - ?n) (hd (segs ?b)) (k - int (full (tl (segs ?b)))) =
        back_lines num (k - int (full (tl (segs ?b)))) (rev (skip_blank (segs (unread bytes (pos - ?n) (hd (segs ?b))))))"
      by (rule 1(1) [OF True pc [symmetric] refl]) (use 1(2,3) n hd_segs_no_nl in auto)
    moreover have "pos - ?n \<noteq> length bytes" using n 1(2) by linarith
    then have "unread bytes (pos - ?n) (hd (segs ?b)) = take (pos - ?n) bytes @ hd (segs ?b)" by (simp only: unread_def if_False)
    moreover have "segs (unread bytes pos rest) = segs (take (pos - ?n) bytes @ hd (segs ?b)) @ tl (segs ?b)"
      unfolding u by (rule segs_last)
    ultimately show ?thesis using True pc
      by (subst peek_chunks.simps) (simp add: skip_blank_def back_lines_append full_def rev_filter [symmetric])
  qed
qed

subsection \<open>Backward and forward\<close>

lemma concat_getlines: "concat (getlines s) = s"
proof (induction s rule: getlines.induct)
  case (1 s)
  show ?case
  proof (cases "dropWhile (\<lambda>c. c \<noteq> nl) s")
    case Nil
    then show ?thesis by (simp add: getlines.simps [of s] Nil)
  next
    case (Cons c r)
    have "s \<noteq> []" using Cons by auto
    then have "concat (getlines s) = takeWhile (\<lambda>c. c \<noteq> nl) s @ c # r"
      using 1 [OF _ Cons] by (simp add: getlines.simps [of s] Cons)
    also have "\<dots> = s" unfolding Cons [symmetric] by (rule takeWhile_dropWhile_id)
    finally show ?thesis .
  qed
qed

lemma getlines_not_Nil: "[] \<notin> set (getlines s)"
proof (induction s rule: getlines.induct)
  case (1 s)
  then show ?case by (subst getlines.simps) (auto split: list.splits)
qed

lemma chomp_set: "set (chomp l) \<subseteq> set l"
  by (auto simp: chomp_def dest: in_set_butlastD)

lemma getlines_no_nul: "CHR 0x00 \<notin> set s \<Longrightarrow> l \<in> set (getlines s) \<Longrightarrow> CHR 0x00 \<notin> set l"
  using concat_getlines [of s] by (metis UN_I set_concat)

lemma read_lines_segs: "s \<noteq> [] \<Longrightarrow> CHR 0x00 \<notin> set s \<Longrightarrow> read_lines s = segs (chomp s)"
proof -
  assume s: "s \<noteq> []" "CHR 0x00 \<notin> set s"
  have "cstr (chomp l) = chomp l" if "l \<in> set (getlines s)" for l
    by (rule cstr_id) (use getlines_no_nul [OF s(2) that] chomp_set in blast)
  then show ?thesis using getlines_segs [OF s(1)] by (simp add: read_lines_def cong: map_cong)
qed

lemma count_lines_full:
  assumes s: "CHR 0x00 \<notin> set s"
  shows "count_lines s = int (full (map chomp (getlines s)))"
proof -
  have "(cstr l \<noteq> [nl] \<and> cstr l \<noteq> []) = (chomp l \<noteq> [])" if "l \<in> set (getlines s)" for l
  proof -
    have "l \<noteq> []" using that getlines_not_Nil by metis
    then show ?thesis using cstr_id [OF getlines_no_nul [OF s that]] by (cases l rule: rev_cases) (auto simp: chomp_def)
  qed
  then show ?thesis unfolding count_lines_def full_def filter_map length_map by (simp cong: filter_cong)
qed

lemma rev_print_fwd: "\<forall>l \<in> set ls. cstr l = l \<Longrightarrow> rev (print_fwd num k ls) = back_lines num (k + int (full ls)) (rev ls)"
  by (induction ls arbitrary: k) (auto simp: back_lines_append full_def rev_filter [symmetric] algebra_simps)

lemma print_back_lines: "\<forall>l \<in> set ls. cstr l = l \<Longrightarrow> print_back num k ls = back_lines num k ls"
  by (induction ls arbitrary: k) auto

lemma back_lines_unnumbered: "back_lines False k ls = back_lines False k' ls"
  by (induction ls arbitrary: k k') (auto simp: show_line_def)

lemma print_fwd_blank:
  "print_fwd num 0 (skip_blank ls) = (let out = print_fwd num 0 ls in if out \<noteq> [] \<and> hd out = PBlank then tl out else out)"
  by (cases ls) (auto simp: skip_blank_def show_line_def)

lemma skip_blank_set: "set (skip_blank ls) \<subseteq> set ls"
  by (cases ls) (auto simp: skip_blank_def)

lemma full_skip_blank: "full (skip_blank ls) = full ls"
  by (cases ls) (auto simp: skip_blank_def full_def)

text \<open>
  C35. \<^verbatim>\<open>peek -r\<close> on a file without NUL bytes, which reads the file in chunks from its end, prints the lines that \<^verbatim>\<open>peek\<close>
  prints, with the same numbers, in reverse order, wherever the chunks cut the lines; only an empty first line of the file is lost. On standard input, which is read as
  a whole, no line is lost.
\<close>

theorem peek_reverses:
  "CHR 0x00 \<notin> set bytes \<Longrightarrow>
   peek_file_rev num bytes =
     rev (let out = print_fwd num 0 (read_lines bytes) in if out \<noteq> [] \<and> hd out = PBlank then tl out else out) \<and>
   peek_stdin_rev num s = rev (print_fwd num 0 (read_lines s))"
proof (intro conjI)
  assume n: "CHR 0x00 \<notin> set bytes"
  let ?ls = "segs (chomp bytes)"
  show "peek_file_rev num bytes =
      rev (let out = print_fwd num 0 (read_lines bytes) in if out \<noteq> [] \<and> hd out = PBlank then tl out else out)"
  proof (cases "bytes = []")
    case True
    then show ?thesis by (simp add: peek_file_rev_def read_lines_def getlines.simps [of "[]"])
  next
    case False
    have c: "cstr l = l" if "l \<in> set (skip_blank ?ls)" for l
    proof -
      have "l \<in> set (read_lines bytes)" using that read_lines_segs [OF False n] skip_blank_set by auto
      then show ?thesis by (auto simp: read_lines_def)
    qed
    have "peek_file_rev num bytes = back_lines num (if num then count_lines bytes else 0) (rev (skip_blank ?ls))"
      using False peek_chunks_segs [of "length bytes" bytes "[]" num] by (simp add: peek_file_rev_def unread_def)
    also have "\<dots> = back_lines num (0 + int (full (skip_blank ?ls))) (rev (skip_blank ?ls))"
      using count_lines_full [OF n] getlines_segs [OF False] back_lines_unnumbered by (cases num) (simp_all add: full_skip_blank)
    also have "\<dots> = rev (print_fwd num 0 (skip_blank ?ls))" using rev_print_fwd [of "skip_blank ?ls" num 0] c by simp
    finally show ?thesis using read_lines_segs [OF False n] print_fwd_blank by simp
  qed
  show "peek_stdin_rev num s = rev (print_fwd num 0 (read_lines s))"
    using rev_print_fwd [of "read_lines s" num 0] print_back_lines [of "rev (read_lines s)" num]
    by (simp add: peek_stdin_rev_def full_def read_lines_def)
qed

theorem peek_reverses_witness:
  "peek_file_rev True (''a'' @ [nl] @ [nl] @ ''bc'' @ [nl]) = [PNum 2 ''bc'', PBlank, PNum 1 ''a'']"
  using peek_reverses [of "''a'' @ [nl] @ [nl] @ ''bc'' @ [nl]" True "[]"]
  by (simp add: read_lines_def getlines.simps cstr_def chomp_def show_line_def)

text \<open>An empty first line is printed forward and not backward.\<close>

lemma peek_loses_blank_line:
  "print_fwd False 0 (read_lines [nl, CHR ''a'', nl]) = [PBlank, PLine ''a'']" "peek_file_rev False [nl, CHR ''a'', nl] = [PLine ''a'']"
  by (simp_all add: read_lines_def getlines.simps cstr_def chomp_def show_line_def peek_file_rev_def peek_chunks.simps peek_chunk_def chunk_size_def)

end
