(* ===== verification/Frecency.thy ===== *)
theory Frecency
  imports Hoststr Complex_Main
begin

text \<open>
  The intrinsic \<^verbatim>\<open>hop\<close> of the C shell and its database of visited directories (\<^verbatim>\<open>search\<close>, \<^verbatim>\<open>update\<close> in
  \<^verbatim>\<open>c-shell/src/bins.c\<close>): a text file of at most 100 lines, each with a path, a score and a time stamp, ranked by frequency and age. The file is
  a string that \<^verbatim>\<open>fgets\<close> and \<^verbatim>\<open>sscanf\<close> take apart and \<^verbatim>\<open>fprintf\<close> writes. The host is a parameter: which names are
  directories, where \<^verbatim>\<open>chdir\<close> leads, and the clock. Ranks are real numbers, every operation on a \<^verbatim>\<open>double\<close> followed by
  the rounding \<open>rnd\<close>, also a parameter; a division by zero, which needs a time stamp exactly 140943 seconds in the future, is 0 here and infinite there.
\<close>

subsection \<open>The file\<close>

definition PATH_MAX :: nat where "PATH_MAX = 4096"

record element =
  epath :: string
  escore :: int
  estamp :: int

text \<open>\<open>fgets_lines n s\<close>: what repeated \<^verbatim>\<open>fgets\<close> with a buffer of \<open>n + 2\<close> characters returns.\<close>

function fgets_lines :: "nat \<Rightarrow> string \<Rightarrow> string list" where
  "fgets_lines n s =
     (if s = [] then []
      else let l = takeWhile (\<lambda>c. c \<noteq> nl) s;
               l = take (Suc n) (take (Suc (length l)) s)
           in l # fgets_lines n (drop (length l) s))"
  by pat_completeness auto
termination
  by (relation "measure (\<lambda>(_, s). length s)") (auto simp: min_def)

declare fgets_lines.simps [simp del]

definition scan_lit :: "string \<Rightarrow> string \<Rightarrow> string option" where
  "scan_lit p s = (if take (length p) s = p then Some (drop (length p) s) else None)"

definition to_int32 :: "int \<Rightarrow> int" where
  "to_int32 n = signed_take_bit 31 n"

text \<open>The call of \<^verbatim>\<open>sscanf\<close> that reads a line, \<open>None\<close> if it does not convert all three fields. What follows the third one is not looked at.\<close>

definition scan_element :: "string \<Rightarrow> element option" where
  "scan_element line =
     (case scan_lit ''{p:\"'' line of None \<Rightarrow> None | Some s \<Rightarrow>
      (let p = takeWhile (\<lambda>c. c \<noteq> CHR 0x22) s in
       if p = [] then None
       else (case scan_lit ''\",s:\"'' (drop (length p) s) of None \<Rightarrow> None | Some s \<Rightarrow>
         (case scan_num s of None \<Rightarrow> None | Some (score, s) \<Rightarrow>
           (case scan_lit ''\",t:\"'' s of None \<Rightarrow> None | Some s \<Rightarrow>
             (case scan_num s of None \<Rightarrow> None | Some (stamp, s) \<Rightarrow>
               Some \<lparr>epath = p, escore = to_int32 score, estamp = stamp\<rparr>))))))"

definition print_element :: "element \<Rightarrow> string" where
  "print_element e = ''{p:\"'' @ epath e @ ''\",s:\"'' @ dec (escore e) @ ''\",t:\"'' @ dec (estamp e) @ ''\"}'' @ [nl]"

definition file_lines :: "string \<Rightarrow> string list" where
  "file_lines s = fgets_lines (PATH_MAX + 98) s"

subsection \<open>Ranks\<close>

definition rank :: "(real \<Rightarrow> real) \<Rightarrow> int \<Rightarrow> element \<Rightarrow> real" where
  "rank rnd ct e =
     (let units_old = rnd (rnd (of_int (ct - estamp e)) / 12813)
      in rnd (of_int (escore e) / rnd (rnd (units_old / 11) + 1)))"

definition DBL_MAX :: real where
  "DBL_MAX = (2 - 1 / 2 ^ 52) * 2 ^ 1023"

subsection \<open>search\<close>

record best =
  max_rank :: real
  best_path :: "string option"

definition no_best :: best where
  "no_best = \<lparr>max_rank = - 1, best_path = None\<rparr>"

definition better :: "real \<Rightarrow> string \<Rightarrow> best \<Rightarrow> best" where
  "better r p b = (if max_rank b < r then \<lparr>max_rank = r, best_path = Some p\<rparr> else b)"

text \<open>The part behind the last slash.\<close>

definition basename :: "string \<Rightarrow> string" where
  "basename p = rev (takeWhile (\<lambda>c. c \<noteq> CHR ''/'') (rev p))"

definition search_step :: "(real \<Rightarrow> real) \<Rightarrow> int \<Rightarrow> (string \<Rightarrow> bool) \<Rightarrow> string \<Rightarrow> string \<Rightarrow> best \<times> best \<Rightarrow> best \<times> best" where
  "search_step rnd ct isdir path line = (\<lambda>(m, bk).
     case scan_element line of
       None \<Rightarrow> (m, bk)
     | Some el \<Rightarrow>
         if \<not> strstr (epath el) path \<or> \<not> isdir (epath el) then (m, bk)
         else let r = rank rnd ct el in
              (if strstr (basename (epath el)) path then better r (epath el) m else m, better r (epath el) bk))"

definition search :: "(real \<Rightarrow> real) \<Rightarrow> int \<Rightarrow> (string \<Rightarrow> bool) \<Rightarrow> string option \<Rightarrow> string \<Rightarrow> string option" where
  "search rnd ct isdir file path =
     (case file of
        None \<Rightarrow> None
      | Some s \<Rightarrow>
          (let (m, bk) = fold (search_step rnd ct isdir path) (file_lines s) (no_best, no_best)
           in if best_path m \<noteq> None then best_path m else best_path bk))"

subsection \<open>update\<close>

definition DB_MAX :: nat where "DB_MAX = 100"

text \<open>The entries of the file, as far as the array has room.\<close>

definition read_db :: "string option \<Rightarrow> element list" where
  "read_db file = (case file of None \<Rightarrow> [] | Some s \<Rightarrow> take DB_MAX (List.map_filter scan_element (file_lines s)))"

text \<open>The index of the lowest rank, found while the entries are read.\<close>

definition min_step :: "(real \<Rightarrow> real) \<Rightarrow> int \<Rightarrow> element list \<Rightarrow> nat \<Rightarrow> real \<times> nat \<Rightarrow> real \<times> nat" where
  "min_step rnd ct db i = (\<lambda>(min_rank, mn). if rank rnd ct (db ! i) < min_rank then (rank rnd ct (db ! i), i) else (min_rank, mn))"

definition min_index :: "(real \<Rightarrow> real) \<Rightarrow> int \<Rightarrow> element list \<Rightarrow> nat" where
  "min_index rnd ct db = snd (fold (min_step rnd ct db) [0..<length db] (DBL_MAX, 0))"

definition update_db :: "(real \<Rightarrow> real) \<Rightarrow> int \<Rightarrow> string \<Rightarrow> element list \<Rightarrow> element list" where
  "update_db rnd ct path db =
     (case find (\<lambda>i. epath (db ! i) = path) [0..<length db] of
        Some i \<Rightarrow> db[i := (db ! i)\<lparr>escore := to_int32 (escore (db ! i) + 1), estamp := ct\<rparr>]
      | None \<Rightarrow>
          if length db < DB_MAX then db @ [\<lparr>epath = path, escore = 1, estamp = ct\<rparr>]
          else db[min_index rnd ct db := \<lparr>epath = path, escore = 1, estamp = ct\<rparr>])"

definition update :: "(real \<Rightarrow> real) \<Rightarrow> int \<Rightarrow> bool \<Rightarrow> string \<Rightarrow> string option \<Rightarrow> string option" where
  "update rnd ct writable path file =
     (if writable then Some (concat (map print_element (update_db rnd ct path (read_db file)))) else file)"

subsection \<open>hop\<close>

text \<open>The working directory, the previous one, the file, and the time of the next call.\<close>

record hop_state =
  hcwd :: string
  hprev :: string
  hfile :: "string option"
  hchanged :: bool
  hclock :: "int list"
  hout :: "string list"

text \<open>The answers of the host: \<^verbatim>\<open>stat\<close> and \<^verbatim>\<open>chdir\<close> in a working directory, and whether the file can be written.\<close>

record hop_host =
  h_isdir :: "string \<Rightarrow> string \<Rightarrow> bool"
  h_chdir :: "string \<Rightarrow> string \<Rightarrow> string option"
  h_writable :: bool
  h_rnd :: "real \<Rightarrow> real"

definition now :: "hop_state \<Rightarrow> int" where
  "now s = (if hclock s = [] then 0 else hd (hclock s))"

definition do_update :: "hop_host \<Rightarrow> string \<Rightarrow> hop_state \<Rightarrow> hop_state" where
  "do_update h path s = s\<lparr>hfile := update (h_rnd h) (now s) (h_writable h) path (hfile s), hclock := tl (hclock s)\<rparr>"

definition do_search :: "hop_host \<Rightarrow> string \<Rightarrow> hop_state \<Rightarrow> string option \<times> hop_state" where
  "do_search h a s = (search (h_rnd h) (now s) (h_isdir h (hcwd s)) (hfile s) a, s\<lparr>hclock := tl (hclock s)\<rparr>)"

text \<open>The target of one argument; \<open>None\<close> if there is nothing to do.\<close>

definition hop_target :: "hop_host \<Rightarrow> string \<Rightarrow> string \<Rightarrow> hop_state \<Rightarrow> string option \<times> hop_state" where
  "hop_target h home a s =
     (if a = ''~'' then (Some home, s)
      else if a = ''-'' then (if hprev s = [] then None else Some (hprev s), s)
      else if a = ''.'' then (None, s)
      else if a = ''..'' then (if hcwd s = ''/'' then None else Some ''..'', s)
      else if h_isdir h (hcwd s) a then (Some a, s)
      else (case do_search h a s of
          (Some t, s) \<Rightarrow> (Some t, s)
        | (None, s) \<Rightarrow> (None, s\<lparr>hout := hout s @ [''hop: no such directory'']\<rparr>)))"

definition hop_one :: "hop_host \<Rightarrow> string \<Rightarrow> string \<Rightarrow> hop_state \<Rightarrow> hop_state" where
  "hop_one h home a s =
     (case hop_target h home a s of
        (None, s) \<Rightarrow> s
      | (Some tar, s) \<Rightarrow>
          (case h_chdir h (hcwd s) tar of
             None \<Rightarrow> s
           | Some ncwd \<Rightarrow> do_update h ncwd (s\<lparr>hcwd := ncwd, hprev := hcwd s, hchanged := True\<rparr>)))"

definition hop :: "hop_host \<Rightarrow> string \<Rightarrow> string list \<Rightarrow> hop_state \<Rightarrow> hop_state" where
  "hop h home args s =
     (if length args = 1
      then do_update h home
        (s\<lparr>hcwd := (case h_chdir h (hcwd s) home of None \<Rightarrow> hcwd s | Some c \<Rightarrow> c), hprev := hcwd s, hchanged := True\<rparr>)
      else fold (hop_one h home) (tl args) s)"

subsection \<open>Reading back what is written\<close>

definition entry_ok :: "element \<Rightarrow> bool" where
  "entry_ok e \<longleftrightarrow> epath e \<noteq> [] \<and> CHR 0x22 \<notin> set (epath e) \<and> nl \<notin> set (epath e) \<and> length (epath e) < PATH_MAX \<and>
     - (2 ^ 31) \<le> escore e \<and> escore e < 2 ^ 31 \<and> - (2 ^ 63) \<le> estamp e \<and> estamp e < 2 ^ 63"

definition print_db :: "element list \<Rightarrow> string" where
  "print_db db = concat (map print_element db)"

definition db_ok :: "element list \<Rightarrow> bool" where
  "db_ok db \<longleftrightarrow> length db \<le> DB_MAX \<and> distinct (map epath db) \<and> (\<forall>e \<in> set db. entry_ok e)"

lemma to_int32_id: "- (2 ^ 31) \<le> n \<Longrightarrow> n < 2 ^ 31 \<Longrightarrow> to_int32 n = n"
  unfolding to_int32_def by (rule signed_take_bit_int_eq_self)

lemma scan_lit_append [simp]: "scan_lit p (p @ s) = Some s"
  by (simp add: scan_lit_def)

lemma takeWhile_quote: "CHR 0x22 \<notin> set p \<Longrightarrow> takeWhile (\<lambda>c. c \<noteq> CHR 0x22) (p @ CHR 0x22 # s) = p"
  by (induction p) auto

lemma scan_print_element:
  assumes "entry_ok e"
  shows "scan_element (print_element e) = Some e"
proof -
  note e = assms [unfolded entry_ok_def]
  let ?t = "dec (estamp e) @ ''\"}'' @ [nl]"
  let ?s = "dec (escore e) @ ''\",t:\"'' @ ?t"
  have t: "scan_num ?t = Some (estamp e, ''\"}'' @ [nl])" using e by (intro scan_num_dec) (simp_all add: isdigit_def)
  have "- (2 ^ 63) \<le> escore e" "escore e < 2 ^ 63" using e by simp_all
  then have s: "scan_num ?s = Some (escore e, ''\",t:\"'' @ ?t)" by (rule scan_num_dec) (simp add: isdigit_def)
  have tw: "takeWhile (\<lambda>c. c \<noteq> CHR 0x22) (epath e @ ''\",s:\"'' @ ?s) = epath e" using e takeWhile_quote by simp
  have "scan_lit ''{p:\"'' (print_element e) = Some (epath e @ ''\",s:\"'' @ ?s)" unfolding print_element_def by (rule scan_lit_append)
  moreover have "drop (length (epath e)) (epath e @ ''\",s:\"'' @ ?s) = ''\",s:\"'' @ ?s" by simp
  ultimately show ?thesis unfolding scan_element_def Let_def
    using e tw s t to_int32_id [of "escore e"] by (simp only: option.case prod.case scan_lit_append if_False) simp
qed

lemma dec_nat_length: "n < 10 ^ k \<Longrightarrow> 0 < k \<Longrightarrow> length (dec_nat n) \<le> k"
proof (induction n arbitrary: k rule: dec_nat.induct)
  case (1 n)
  show ?case
  proof (cases "n < 10")
    case False
    obtain j where j: "k = Suc j" using 1(3) by (cases k) auto
    have "n div 10 < 10 ^ j" using 1(2) j by (simp add: div_less_iff_less_mult mult.commute)
    moreover have "0 < j" using False 1(2) j by (cases j) auto
    ultimately show ?thesis using 1(1) [OF False] False j by (simp add: dec_nat.simps [of n])
  qed (use 1(3) in \<open>simp add: dec_nat.simps [of n]\<close>)
qed

lemma dec_length: "\<bar>n\<bar> \<le> 2 ^ 63 \<Longrightarrow> length (dec n) \<le> 20"
proof -
  assume "\<bar>n\<bar> \<le> 2 ^ 63"
  then have "nat (- n) < 10 ^ 19" "nat n < 10 ^ 19" by simp_all
  then have "length (dec_nat (nat (- n))) \<le> 19" "length (dec_nat (nat n)) \<le> 19" by (auto intro!: dec_nat_length)
  then show ?thesis by (simp add: dec_def)
qed

lemma dec_no_nl: "nl \<notin> set (dec n)"
proof -
  have "\<not> isdigit nl" by (simp add: isdigit_def)
  then show ?thesis using dec_nat_digits(1) by (auto simp: dec_def)
qed

lemma fgets_lines_line:
  assumes "nl \<notin> set l" "length l \<le> n"
  shows "fgets_lines n ((l @ [nl]) @ s) = (l @ [nl]) # fgets_lines n s"
proof -
  have "takeWhile (\<lambda>c. c \<noteq> nl) ((l @ [nl]) @ s) = l" using assms(1) by (induction l) auto
  then show ?thesis using assms(2) by (subst fgets_lines.simps) (simp add: Let_def)
qed

lemma file_lines_print: "\<forall>e \<in> set db. entry_ok e \<Longrightarrow> file_lines (print_db db) = map print_element db"
proof (induction db)
  case (Cons e db)
  let ?l = "butlast (print_element e)"
  have e: "entry_ok e" using Cons.prems by simp
  have pl: "print_element e = ?l @ [nl]" by (simp add: print_element_def butlast_append)
  have "nl \<notin> set ?l" using e dec_no_nl by (auto simp: print_element_def butlast_append entry_ok_def)
  moreover have "length (dec (escore e)) \<le> 20" "length (dec (estamp e)) \<le> 20" using e by (auto simp: entry_ok_def intro!: dec_length)
  then have "length ?l \<le> PATH_MAX + 98" using e by (simp add: print_element_def entry_ok_def)
  ultimately have "file_lines ((?l @ [nl]) @ print_db db) = (?l @ [nl]) # file_lines (print_db db)"
    unfolding file_lines_def by (rule fgets_lines_line)
  then show ?case using Cons unfolding pl [symmetric] by (simp add: print_db_def)
qed (simp add: print_db_def file_lines_def fgets_lines.simps [of _ "[]"])

lemma map_filter_print: "\<forall>e \<in> set db. entry_ok e \<Longrightarrow> List.map_filter scan_element (map print_element db) = db"
  by (induction db) (auto simp: scan_print_element map_filter_def)

lemma read_print_db: "db_ok db \<Longrightarrow> read_db (Some (print_db db)) = db"
  by (simp add: read_db_def file_lines_print map_filter_print db_ok_def)

subsection \<open>The database after a visit\<close>

lemma min_fold:
  "i \<le> length db \<Longrightarrow> \<forall>e \<in> set db. rank rnd ct e < DBL_MAX \<Longrightarrow>
   (case fold (min_step rnd ct db) [0..<i] (DBL_MAX, 0) of (r, m) \<Rightarrow>
      (if i = 0 then r = DBL_MAX \<and> m = 0 else m < i \<and> r = rank rnd ct (db ! m)) \<and> (\<forall>j < i. r \<le> rank rnd ct (db ! j)))"
proof (induction i)
  case (Suc i)
  have "rank rnd ct (db ! i) < DBL_MAX" using Suc.prems by simp
  moreover have "i \<le> length db" using Suc.prems(1) by simp
  note ih = Suc.IH [OF this Suc.prems(2)]
  ultimately show ?case using ih by (cases "i = 0") (auto simp: min_step_def less_Suc_eq split: prod.splits if_splits)
qed simp

lemma min_index_least:
  assumes "db \<noteq> []" "\<forall>e \<in> set db. rank rnd ct e < DBL_MAX"
  shows "min_index rnd ct db < length db \<and> (\<forall>j < length db. rank rnd ct (db ! min_index rnd ct db) \<le> rank rnd ct (db ! j))"
  using min_fold [of "length db" db rnd ct] assms by (auto simp: min_index_def split: prod.splits)

definition new_entry :: "string \<Rightarrow> int \<Rightarrow> element" where
  "new_entry path ct = \<lparr>epath = path, escore = 1, estamp = ct\<rparr>"

text \<open>\<open>visited db path ct db'\<close>: the visit of a directory that the database has, that it has room for, or that takes the place of an entry of lowest rank.\<close>

definition visited :: "(real \<Rightarrow> real) \<Rightarrow> int \<Rightarrow> string \<Rightarrow> element list \<Rightarrow> element list \<Rightarrow> bool" where
  "visited rnd ct path db db' \<longleftrightarrow>
     (if path \<in> set (map epath db)
      then db' = map (\<lambda>e. if epath e = path then e\<lparr>escore := escore e + 1, estamp := ct\<rparr> else e) db
      else if length db < DB_MAX then db' = db @ [new_entry path ct]
      else \<exists>i < length db. db' = db[i := new_entry path ct] \<and> (\<forall>e \<in> set db. rank rnd ct (db ! i) \<le> rank rnd ct e))"

lemma find_path:
  assumes "distinct (map epath db)"
  shows "find (\<lambda>i. epath (db ! i) = path) [0..<length db] = None \<longleftrightarrow> path \<notin> set (map epath db)"
    "find (\<lambda>i. epath (db ! i) = path) [0..<length db] = Some i \<Longrightarrow> i < length db \<and> (\<forall>j < length db. epath (db ! j) = path \<longleftrightarrow> j = i)"
proof -
  show "find (\<lambda>i. epath (db ! i) = path) [0..<length db] = None \<longleftrightarrow> path \<notin> set (map epath db)"
  proof -
    have "path \<in> set (map epath db) \<longleftrightarrow> (\<exists>i < length db. epath (db ! i) = path)" by (metis in_set_conv_nth length_map nth_map)
    then show ?thesis by (auto simp: find_None_iff)
  qed
  assume "find (\<lambda>i. epath (db ! i) = path) [0..<length db] = Some i"
  then have i: "i < length db" "epath (db ! i) = path" by (auto simp: find_Some_iff)
  then have "epath (db ! j) = path \<longleftrightarrow> j = i" if "j < length db" for j
    using that nth_eq_iff_index_eq [OF assms, of j i] by auto
  then show "i < length db \<and> (\<forall>j < length db. epath (db ! j) = path \<longleftrightarrow> j = i)" using i(1) by blast
qed

lemma update_db_visited:
  assumes db: "db_ok db" and s: "\<forall>e \<in> set db. escore e < 2 ^ 31 - 1" and r: "\<forall>e \<in> set db. rank rnd ct e < DBL_MAX"
  shows "visited rnd ct path db (update_db rnd ct path db)"
proof (cases "find (\<lambda>i. epath (db ! i) = path) [0..<length db]")
  case (Some i)
  have d: "distinct (map epath db)" using db by (simp add: db_ok_def)
  note i = find_path(2) [OF d Some]
  then have "db ! i \<in> set db" by simp
  then have "to_int32 (escore (db ! i) + 1) = escore (db ! i) + 1" using s db by (intro to_int32_id) (auto simp: db_ok_def entry_ok_def)
  then have "update_db rnd ct path db = map (\<lambda>e. if epath e = path then e\<lparr>escore := escore e + 1, estamp := ct\<rparr> else e) db"
    using i Some by (intro nth_equalityI) (auto simp: update_db_def nth_list_update)
  moreover have "path \<in> set (map epath db)" using Some find_path(1) [OF d] by (metis option.distinct(1))
  ultimately show ?thesis by (simp add: visited_def)
next
  case None
  have d: "distinct (map epath db)" using db by (simp add: db_ok_def)
  have n: "path \<notin> set (map epath db)" using None find_path(1) [OF d] by metis
  have "db \<noteq> []" if "\<not> length db < DB_MAX" using that by (auto simp: DB_MAX_def)
  then show ?thesis using None n min_index_least [OF _ r] 
    by (auto simp: visited_def update_db_def new_entry_def in_set_conv_nth intro!: exI [of _ "min_index rnd ct db"])
qed

lemma visited_ok:
  assumes db: "db_ok db" and s: "\<forall>e \<in> set db. escore e < 2 ^ 31 - 1" and e: "entry_ok (new_entry path ct)" and v: "visited rnd ct path db db'"
  shows "db_ok db'"
proof (cases "path \<in> set (map epath db)")
  case True
  let ?f = "\<lambda>e. if epath e = path then e\<lparr>escore := escore e + 1, estamp := ct\<rparr> else e"
  have m: "map epath (map ?f db) = map epath db" by simp
  have ok: "entry_ok (?f e)" if "e \<in> set db" for e using that db s assms(3) by (auto simp: db_ok_def entry_ok_def new_entry_def)
  have d: "db' = map ?f db" using True v by (simp add: visited_def)
  show ?thesis
    unfolding d db_ok_def
  proof (intro conjI ballI)
    show "length (map ?f db) \<le> DB_MAX" using db by (simp add: db_ok_def)
    show "distinct (map epath (map ?f db))" unfolding m using db by (simp add: db_ok_def)
    fix e assume "e \<in> set (map ?f db)"
    then obtain x where "x \<in> set db" "e = ?f x" unfolding set_map by (rule imageE)
    then show "entry_ok e" using ok by simp
  qed
next
  case False
  have u: "db_ok (db[i := new_entry path ct])" if "i < length db" for i
  proof -
    have "distinct ((map epath db)[i := path])" using db False by (auto simp: db_ok_def intro!: distinct_list_update)
    moreover have "entry_ok x" if "x \<in> set (db[i := new_entry path ct])" for x
      using that set_update_subset_insert [of db i "new_entry path ct"] db e by (auto simp: db_ok_def)
    ultimately show ?thesis using db by (simp add: db_ok_def map_update new_entry_def)
  qed
  show ?thesis
  proof (cases "length db < DB_MAX")
    case True
    then show ?thesis using False v db e by (auto simp: visited_def db_ok_def new_entry_def)
  qed (use False v u in \<open>auto simp: visited_def\<close>)
qed

text \<open>
  C37. A visit of a directory rewrites the database of \<^verbatim>\<open>hop\<close> as intended: the score of a path that it has grows by one and its time stamp is the current time, a new path is added
  with score 1 while there are fewer than 100 entries, and takes the place of an entry of lowest rank
  otherwise; all other entries stay. The database stays well formed (at most 100 entries, no path twice), and the file that is written is read back
  as exactly this database. Scores do not overflow, and paths contain neither a quotation mark nor a newline.
\<close>

theorem update_visits:
  assumes "db_ok db" and "\<forall>e \<in> set db. escore e < 2 ^ 31 - 1" and "\<forall>e \<in> set db. rank rnd ct e < DBL_MAX" and "entry_ok (new_entry path ct)"
  shows "\<exists>db'. update rnd ct True path (Some (print_db db)) = Some (print_db db') \<and> visited rnd ct path db db' \<and> db_ok db' \<and>
    read_db (Some (print_db db')) = db'"
proof (intro exI conjI)
  let ?db = "update_db rnd ct path db"
  show v: "visited rnd ct path db ?db" by (rule update_db_visited [OF assms(1-3)])
  show ok: "db_ok ?db" by (rule visited_ok [OF assms(1,2,4) v])
  show "update rnd ct True path (Some (print_db db)) = Some (print_db ?db)"
    using read_print_db [OF assms(1)] by (simp add: update_def print_db_def)
  show "read_db (Some (print_db ?db)) = ?db" by (rule read_print_db [OF ok])
qed

theorem update_visits_witness:
  "\<exists>db'. update (\<lambda>x. x) 50 True ''/b'' (Some (print_db [new_entry ''/a'' 20])) = Some (print_db db') \<and>
     visited (\<lambda>x. x) 50 ''/b'' [new_entry ''/a'' 20] db' \<and> read_db (Some (print_db db')) = db'"
proof -
  have "entry_ok (new_entry ''/b'' 50)" "db_ok [new_entry ''/a'' 20]"
    by (simp_all add: db_ok_def entry_ok_def new_entry_def DB_MAX_def PATH_MAX_def)
  moreover have "rank (\<lambda>x. x) 50 (new_entry ''/a'' 20) < DBL_MAX"
  proof -
    have "rank (\<lambda>x. x) 50 (new_entry ''/a'' 20) \<le> 1" by (simp add: rank_def new_entry_def)
    also have "1 < DBL_MAX" by (simp add: DBL_MAX_def)
    finally show ?thesis .
  qed
  ultimately show ?thesis using update_visits [of "[new_entry ''/a'' 20]" "\<lambda>x. x" 50 "''/b''"] by (auto simp: new_entry_def)
qed

subsection \<open>The best match\<close>

text \<open>The entries that \<^verbatim>\<open>search\<close> considers, and those whose last component matches.\<close>

definition candidates :: "(string \<Rightarrow> bool) \<Rightarrow> string \<Rightarrow> element list \<Rightarrow> element list" where
  "candidates isdir path db = filter (\<lambda>e. strstr (epath e) path \<and> isdir (epath e)) db"

definition base_candidates :: "(string \<Rightarrow> bool) \<Rightarrow> string \<Rightarrow> element list \<Rightarrow> element list" where
  "base_candidates isdir path db = filter (\<lambda>e. strstr (basename (epath e)) path) (candidates isdir path db)"

text \<open>\<open>b\<close> is a best of the entries \<open>es\<close>.\<close>

definition best_of :: "(real \<Rightarrow> real) \<Rightarrow> int \<Rightarrow> element list \<Rightarrow> best \<Rightarrow> bool" where
  "best_of rnd ct es b \<longleftrightarrow>
     (if es = [] then b = no_best
      else \<exists>e \<in> set es. best_path b = Some (epath e) \<and> max_rank b = rank rnd ct e \<and> (\<forall>e' \<in> set es. rank rnd ct e' \<le> rank rnd ct e))"

lemma better_best: "best_of rnd ct es b \<Longrightarrow> - 1 < rank rnd ct e \<Longrightarrow> best_of rnd ct (es @ [e]) (better (rank rnd ct e) (epath e) b)"
  unfolding best_of_def better_def no_best_def by (cases "es = []") force+

lemma best_of_path:
  "best_of rnd ct es b \<Longrightarrow>
   (case best_path b of None \<Rightarrow> es = [] | Some p \<Rightarrow> es \<noteq> [] \<and> (\<exists>e \<in> set es. epath e = p \<and> (\<forall>e' \<in> set es. rank rnd ct e' \<le> rank rnd ct e)))"
  by (auto simp: best_of_def no_best_def split: if_splits)

lemma search_fold:
  "\<forall>e \<in> set db. entry_ok e \<Longrightarrow> \<forall>e \<in> set (candidates isdir path db). - 1 < rank rnd ct e \<Longrightarrow>
   (case fold (search_step rnd ct isdir path) (map print_element db) (no_best, no_best) of (m, bk) \<Rightarrow>
      best_of rnd ct (base_candidates isdir path db) m \<and> best_of rnd ct (candidates isdir path db) bk)"
proof (induction db rule: rev_induct)
  case (snoc e db)
  have "scan_element (print_element e) = Some e" using snoc.prems(1) by (simp add: scan_print_element)
  then show ?case using snoc better_best
    by (auto simp: search_step_def candidates_def base_candidates_def Let_def split: prod.splits)
qed (simp add: best_of_def candidates_def base_candidates_def)

text \<open>
  \<^verbatim>\<open>search\<close> finds a directory exactly if an entry of the database contains the text and still is a directory. It
  returns a path of the highest rank among those whose last component contains the text, and, if there is none, among all.
  (Ranks are above -1, as they are when scores are positive and time stamps are not in the future.)
\<close>

theorem search_finds_best:
  assumes "db_ok db" and "\<forall>e \<in> set (candidates isdir path db). - 1 < rank rnd ct e"
  shows "let bs = base_candidates isdir path db; cs = candidates isdir path db; es = (if bs = [] then cs else bs) in
    (case search rnd ct isdir (Some (print_db db)) path of
       None \<Rightarrow> cs = []
     | Some p \<Rightarrow> \<exists>e \<in> set es. epath e = p \<and> (\<forall>e' \<in> set es. rank rnd ct e' \<le> rank rnd ct e))"
proof -
  have ok: "\<forall>e \<in> set db. entry_ok e" using assms(1) by (simp add: db_ok_def)
  obtain m bk where f: "fold (search_step rnd ct isdir path) (map print_element db) (no_best, no_best) = (m, bk)"
    and m: "best_of rnd ct (base_candidates isdir path db) m" "best_of rnd ct (candidates isdir path db) bk"
    using search_fold [OF ok assms(2)] by (auto split: prod.splits)
  have "base_candidates isdir path db \<noteq> [] \<Longrightarrow> candidates isdir path db \<noteq> []" by (auto simp: base_candidates_def)
  then show ?thesis using f best_of_path [OF m(1)] best_of_path [OF m(2)] file_lines_print [OF ok]
    by (auto simp: search_def Let_def split: option.splits)
qed

theorem search_finds_best_witness:
  "search (\<lambda>x. x) 60 (\<lambda>_. True) (Some (print_db [new_entry ''/ab/c'' 20, new_entry ''/x/ab'' 10])) ''ab'' = Some ''/x/ab''"
proof -
  let ?db = "[new_entry ''/ab/c'' 20, new_entry ''/x/ab'' 10]"
  have "db_ok ?db" by (simp add: db_ok_def entry_ok_def new_entry_def DB_MAX_def PATH_MAX_def)
  moreover have "candidates (\<lambda>_. True) ''ab'' ?db = ?db" "base_candidates (\<lambda>_. True) ''ab'' ?db = [new_entry ''/x/ab'' 10]"
    by (simp_all add: candidates_def base_candidates_def new_entry_def basename_def)
  moreover have "- 1 < rank (\<lambda>x. x) 60 e" if "e \<in> set ?db" for e using that by (auto simp: rank_def new_entry_def)
  ultimately show ?thesis using search_finds_best [of ?db "\<lambda>_. True" "''ab''" "\<lambda>x. x" 60]
    by (auto simp: Let_def new_entry_def split: option.splits)
qed

subsection \<open>Going back\<close>

text \<open>
  \<^verbatim>\<open>hop d -\<close> comes back to the directory where it started and remembers the other one, and both directories are
  visited once more.
\<close>

lemma hop_there_and_back:
  assumes "h_isdir h (hcwd s) d" "d \<notin> {''~'', ''-'', ''.'', ''..''}" "h_chdir h (hcwd s) d = Some c" "h_chdir h c (hcwd s) = Some (hcwd s)" "hcwd s \<noteq> []"
  shows "hcwd (hop h home [''hop'', d, ''-''] s) = hcwd s \<and> hprev (hop h home [''hop'', d, ''-''] s) = c"
  using assms by (simp add: hop_def hop_one_def hop_target_def do_update_def)

end
