(* ===== verification/Reveal.thy ===== *)
theory Reveal
  imports Hoststr "HOL-Library.Sublist"
begin

text \<open>
  The intrinsics \<^verbatim>\<open>reveal\<close> and \<^verbatim>\<open>locate\<close> of the C shell (\<^verbatim>\<open>c-shell/src/bins.c\<close>). \<^verbatim>\<open>reveal\<close> lists a directory, with \<^verbatim>\<open>-t\<close> and
  all below it; \<^verbatim>\<open>locate\<close> looks for programs in the working directory and the directories of \<^verbatim>\<open>PATH\<close>. The host is a parameter: the sorted
  names that \<^verbatim>\<open>scandir\<close> returns, which paths are directories, and which are executable files. The recursion of \<^verbatim>\<open>reveal\<close> has fuel:
  \<^verbatim>\<open>stat\<close> follows symbolic links, so a directory may be below itself. The buffer of \<^verbatim>\<open>locate\<close> is unbounded.
\<close>

primrec split_on :: "char \<Rightarrow> string \<Rightarrow> string list" where
  "split_on d [] = [[]]"
| "split_on d (c # s) = (if c = d then [] # split_on d s else case split_on d s of [] \<Rightarrow> [[c]] | w # ws \<Rightarrow> (c # w) # ws)"

fun join_with :: "string \<Rightarrow> string list \<Rightarrow> string" where
  "join_with sep [] = []"
| "join_with sep [x] = x"
| "join_with sep (x # xs) = x @ sep @ join_with sep xs"

definition cut_path :: "string \<Rightarrow> string" where
  "cut_path p = take 4095 p"

subsection \<open>reveal\<close>

record dir_host =
  d_scan :: "string \<Rightarrow> string list option"
  d_isdir :: "string \<Rightarrow> bool"

text \<open>The letters of an option: \<open>(hidden, recurse)\<close>, or the first letter that is not known.\<close>

primrec flag_letters :: "string \<Rightarrow> bool \<times> bool \<Rightarrow> char + bool \<times> bool" where
  "flag_letters [] hr = Inr hr"
| "flag_letters (c # cs) hr =
     (if c = CHR ''a'' then flag_letters cs (True, snd hr)
      else if c = CHR ''t'' then flag_letters cs (fst hr, True)
      else Inl c)"

definition is_option :: "string \<Rightarrow> bool" where
  "is_option a \<longleftrightarrow> a \<noteq> [] \<and> hd a = CHR ''-''"

primrec flag_args :: "string list \<Rightarrow> bool \<times> bool \<Rightarrow> char + (bool \<times> bool) \<times> string list" where
  "flag_args [] hr = Inr (hr, [])"
| "flag_args (a # as) hr =
     (if is_option a then (case flag_letters (tl a) hr of Inl c \<Rightarrow> Inl c | Inr hr \<Rightarrow> flag_args as hr) else Inr (hr, a # as))"

definition join_path :: "string \<Rightarrow> string \<Rightarrow> string" where
  "join_path d name =
     cut_path (if d = ''.'' then name else if d \<noteq> [] \<and> last d = CHR ''/'' then d @ name else d @ ''/'' @ name)"

text \<open>A path with its components quoted where they contain a space.\<close>

definition quoted_path :: "string \<Rightarrow> string \<Rightarrow> string" where
  "quoted_path q p =
     join_with ''/'' (map (\<lambda>s. if CHR '' '' \<in> set s then [CHR 0x27] @ s @ q else s) (split_on (CHR ''/'') p))"

definition skipped :: "bool \<Rightarrow> string \<Rightarrow> bool" where
  "skipped hidden name \<longleftrightarrow> \<not> hidden \<and> name \<noteq> [] \<and> hd name = CHR ''.'' \<or> name = ''.'' \<or> name = ''..''"

text \<open>One entry; \<open>short\<close> prints a name when there is no option, \<open>rec\<close> is the call for a directory.\<close>

definition show_entry :: "dir_host \<Rightarrow> bool \<times> bool \<Rightarrow> string \<Rightarrow> (string \<Rightarrow> string) \<Rightarrow> (string \<Rightarrow> string option) \<Rightarrow> string \<Rightarrow> string option" where
  "show_entry h hr d short rec name =
     (case hr of (hidden, recurse) \<Rightarrow>
      if skipped hidden name then Some []
      else let path = join_path d name; dir = d_isdir h path;
               line = (if recurse \<or> hidden then quoted_path [CHR 0x27] path @ (if dir \<and> recurse then ''/'' else []) @ [nl] else short name)
           in if recurse \<and> dir then map_option (\<lambda>out. line @ out) (rec path) else Some line)"

primrec collect :: "('a \<Rightarrow> string option) \<Rightarrow> 'a list \<Rightarrow> string option" where
  "collect f [] = Some []"
| "collect f (x # xs) = (case f x of None \<Rightarrow> None | Some a \<Rightarrow> map_option (\<lambda>b. a @ b) (collect f xs))"

text \<open>The two spellings of a name without options.\<close>

definition short_spaced :: "string \<Rightarrow> string" where
  "short_spaced name = (if CHR '' '' \<in> set name then [CHR 0x27] @ name @ [CHR 0x27] @ '' '' else name @ '' '')"

definition short_plain :: "string \<Rightarrow> string" where
  "short_plain name = quoted_path [CHR 0x27, CHR 0x27] name"

definition reveal_dir :: "dir_host \<Rightarrow> bool \<times> bool \<Rightarrow> string \<Rightarrow> (string \<Rightarrow> string) \<Rightarrow> (string \<Rightarrow> string option) \<Rightarrow> string option" where
  "reveal_dir h hr d short rec =
     (case d_scan h d of
        None \<Rightarrow> Some (''reveal: no such directory'' @ [nl])
      | Some names \<Rightarrow>
          map_option (\<lambda>out. out @ (if \<not> snd hr \<and> \<not> fst hr then [nl] else [])) (collect (show_entry h hr d short rec) names))"

primrec reveal :: "nat \<Rightarrow> dir_host \<Rightarrow> string list \<Rightarrow> string option" where
  "reveal 0 h args = None"
| "reveal (Suc n) h args =
     (if length args = 2
      then if is_option (args ! 1)
           then (case flag_letters (tl (args ! 1)) (False, False) of
               Inl c \<Rightarrow> Some (''cshell: invalid option '' @ [c, nl])
             | Inr hr \<Rightarrow> reveal_dir h hr ''.'' short_spaced (\<lambda>path. reveal n h [args ! 0, args ! 1, path]))
           else reveal_dir h (False, False) (args ! 1) short_spaced (\<lambda>path. reveal n h [args ! 0, args ! 1, path])
      else if 1 < length args
      then (case flag_args (tl args) (False, False) of
          Inl c \<Rightarrow> Some (''cshell: invalid option '' @ [c, nl])
        | Inr (hr, as) \<Rightarrow>
            (let rec = (\<lambda>path. reveal n h (butlast args @ [path])) in
             if as = [] then reveal_dir h hr ''.'' short_plain rec
             else if length as \<noteq> 1 then Some (''reveal: invalid syntax'' @ [nl])
             else reveal_dir h hr (hd as) short_plain rec))
      else Some [nl])"

subsection \<open>locate\<close>

text \<open>One directory of the list: the result so far, and whether the program was found.\<close>

definition locate_dir :: "(string \<Rightarrow> bool) \<Rightarrow> string \<Rightarrow> string \<Rightarrow> string \<times> bool \<Rightarrow> string \<times> bool" where
  "locate_dir exec_file name seg = (\<lambda>(res, exist).
     if seg = [] then (res, exist)
     else let target = cut_path (seg @ ''/'' @ name) in
          if exec_file target \<and> \<not> strstr res (target @ [nl]) then (res @ target @ [nl], True) else (res, exist))"

definition locate_one :: "(string \<Rightarrow> bool) \<Rightarrow> string list \<Rightarrow> string \<Rightarrow> string \<Rightarrow> string" where
  "locate_one exec_file segs name res =
     (case fold (locate_dir exec_file name) segs (res, False) of
        (res, exist) \<Rightarrow> if exist then res else res @ ''locate: command not found ('' @ name @ '')'' @ [nl])"

text \<open>What is printed at once, and the buffer \<^verbatim>\<open>res\<close>.\<close>

definition locate :: "(string \<Rightarrow> bool) \<Rightarrow> string option \<Rightarrow> string \<Rightarrow> string list \<Rightarrow> string \<Rightarrow> string \<times> string" where
  "locate exec_file paths cwd names res =
     (case paths of
        None \<Rightarrow> (''cshell: PATH environment variable not set'' @ [nl], res)
      | Some p \<Rightarrow> ([], fold (locate_one exec_file (split_on (CHR '':'') (cwd @ '':'' @ p))) names res))"

subsection \<open>What locate prints\<close>

text \<open>The test for duplicates compares with the ends of the lines, not with whole lines.\<close>

lemma line_in_lines:
  assumes "nl \<notin> set t" "\<forall>l \<in> set ls. nl \<notin> set l"
  shows "strstr (concat (map (\<lambda>l. l @ [nl]) ls)) (t @ [nl]) \<longleftrightarrow> (\<exists>l \<in> set ls. suffix t l)"
  using assms(2)
proof (induction ls)
  case (Cons l ls)
  let ?rest = "concat (map (\<lambda>l. l @ [nl]) ls)"
  have "(\<exists>a b. l @ nl # ?rest = a @ t @ nl # b) \<longleftrightarrow> suffix t l \<or> (\<exists>a b. ?rest = a @ t @ nl # b)"
  proof
    assume "\<exists>a b. l @ nl # ?rest = a @ t @ nl # b"
    then obtain a b where e: "l @ nl # ?rest = (a @ t) @ nl # b" by auto
    consider x where "l = (a @ t) @ x" "x @ nl # ?rest = nl # b" | x where "l @ x = a @ t" "nl # ?rest = x @ nl # b"
      using append_eq_append_conv2 [THEN iffD1, OF e] by blast
    then show "suffix t l \<or> (\<exists>a b. ?rest = a @ t @ nl # b)"
    proof cases
      case 1
      then have "x = []" using Cons.prems by (cases x) auto
      then show ?thesis using 1(1) by (auto simp: suffix_def)
    next
      case 2
      show ?thesis
      proof (cases x)
        case Nil
        then show ?thesis using 2(1) by (auto simp: suffix_def)
      next
        case (Cons c y)
        then have c: "c = nl" "?rest = y @ nl # b" using 2(2) by auto
        have "l @ nl # y = a @ t" using 2(1) Cons c(1) by simp
        then consider z where "a = l @ z" "z @ t = nl # y" | z where "l = a @ z" "z @ nl # y = t" by (auto simp: append_eq_append_conv2)
        then obtain z where "y = z @ t"
        proof cases
          case 1
          then show ?thesis using assms(1) that by (cases z) auto
        qed (use assms(1) in auto)
        then have "?rest = z @ t @ nl # b" using c(2) by simp
        then show ?thesis by blast
      qed
    qed
  next
    assume "suffix t l \<or> (\<exists>a b. ?rest = a @ t @ nl # b)"
    then show "\<exists>a b. l @ nl # ?rest = a @ t @ nl # b"
    proof
      assume "suffix t l"
      then obtain z where "l = z @ t" by (auto simp: suffix_def)
      then have "l @ nl # ?rest = z @ t @ nl # ?rest" by simp
      then show ?thesis by blast
    next
      assume "\<exists>a b. ?rest = a @ t @ nl # b"
      then obtain a b where "?rest = a @ t @ nl # b" by blast
      then have "l @ nl # ?rest = (l @ nl # a) @ t @ nl # b" by simp
      then show ?thesis by blast
    qed
  qed
  then show ?case using Cons by (simp add: strstr_iff)
qed (simp add: strstr_iff)

text \<open>The paths that are printed for one name: a path is left out if a path before it ends with it.\<close>

primrec keep_paths :: "string list \<Rightarrow> string list \<Rightarrow> string list" where
  "keep_paths ls [] = ls"
| "keep_paths ls (t # ts) = keep_paths (if \<exists>l \<in> set ls. suffix t l then ls else ls @ [t]) ts"

definition found_paths :: "(string \<Rightarrow> bool) \<Rightarrow> string list \<Rightarrow> string \<Rightarrow> string list" where
  "found_paths exec_file segs name = filter exec_file (map (\<lambda>s. cut_path (s @ ''/'' @ name)) (filter (\<lambda>s. s \<noteq> []) segs))"

lemma keep_paths_ne: "ls \<noteq> [] \<Longrightarrow> keep_paths ls ts \<noteq> []"
  by (induction ts arbitrary: ls) auto

lemma locate_fold:
  "\<forall>t \<in> set (found_paths exec_file segs name). nl \<notin> set t \<Longrightarrow> \<forall>l \<in> set ls. nl \<notin> set l \<Longrightarrow>
   fold (locate_dir exec_file name) segs (concat (map (\<lambda>l. l @ [nl]) ls), ls \<noteq> []) =
     (let ks = keep_paths ls (found_paths exec_file segs name) in (concat (map (\<lambda>l. l @ [nl]) ks), ks \<noteq> []))"
proof (induction segs arbitrary: ls)
  case (Cons s segs)
  let ?t = "cut_path (s @ ''/'' @ name)"
  show ?case
  proof (cases "s \<noteq> [] \<and> exec_file ?t")
    case True
    have fp: "found_paths exec_file (s # segs) name = ?t # found_paths exec_file segs name" using True by (simp add: found_paths_def)
    let ?ls = "if \<exists>l \<in> set ls. suffix ?t l then ls else ls @ [?t]"
    have "nl \<notin> set ?t" using Cons.prems(1) fp by simp
    note d = line_in_lines [OF this Cons.prems(2)]
    have "locate_dir exec_file name s (concat (map (\<lambda>l. l @ [nl]) ls), ls \<noteq> []) = (concat (map (\<lambda>l. l @ [nl]) ?ls), ?ls \<noteq> [])"
      using True d by (simp add: locate_dir_def Let_def)
    moreover have "\<forall>l \<in> set ?ls. nl \<notin> set l" using Cons.prems fp by auto
    ultimately show ?thesis using Cons.IH [of ?ls] Cons.prems(1) fp by simp
  next
    case False
    then have "found_paths exec_file (s # segs) name = found_paths exec_file segs name" by (auto simp: found_paths_def)
    moreover have "locate_dir exec_file name s (concat (map (\<lambda>l. l @ [nl]) ls), ls \<noteq> []) = (concat (map (\<lambda>l. l @ [nl]) ls), ls \<noteq> [])"
      using False by (auto simp: locate_dir_def Let_def)
    ultimately show ?thesis using Cons.IH [of ls] Cons.prems by simp
  qed
qed (simp add: found_paths_def)

text \<open>
  \<^verbatim>\<open>locate\<close> with one name prints the executable files of that name in the working directory and the directories of \<^verbatim>\<open>PATH\<close>,
  in this order, except those whose path is the end of a path printed before (as \<^verbatim>\<open>/bin/ls\<close> is of \<^verbatim>\<open>/usr/bin/ls\<close>); if there is none it
  says that the command was not found. No path has a newline in it.
\<close>

theorem locate_prints:
  assumes "\<forall>t \<in> set (found_paths exec_file (split_on (CHR '':'') (cwd @ '':'' @ p)) name). nl \<notin> set t"
  shows "locate exec_file (Some p) cwd [name] [] = ([],
    let ks = keep_paths [] (found_paths exec_file (split_on (CHR '':'') (cwd @ '':'' @ p)) name) in
     if ks = [] then ''locate: command not found ('' @ name @ '')'' @ [nl] else concat (map (\<lambda>l. l @ [nl]) ks))"
  using locate_fold [OF assms, of "[]"] by (simp add: locate_def locate_one_def Let_def)

theorem locate_prints_witness:
  "locate (\<lambda>t. t \<in> {''/usr/bin/ls'', ''/bin/ls''}) (Some ''/usr/bin:/bin'') ''/home'' [''ls''] [] = ([], ''/usr/bin/ls'' @ [nl])"
proof -
  have "suffix ''/bin/ls'' ''/usr/bin/ls''" by (rule suffixI [of _ "''/usr''"]) simp
  moreover have "found_paths (\<lambda>t. t \<in> {''/usr/bin/ls'', ''/bin/ls''}) (split_on (CHR '':'') (''/home'' @ '':'' @ ''/usr/bin:/bin'')) ''ls'' = [''/usr/bin/ls'', ''/bin/ls'']"
    by code_simp
  ultimately show ?thesis
    using locate_prints [of "\<lambda>t. t \<in> {''/usr/bin/ls'', ''/bin/ls''}" "''/home''" "''/usr/bin:/bin''" "''ls''"]
    by (simp only:) (simp add: Let_def)
qed

text \<open>The second time that a name is given, it is reported as not found.\<close>

lemma locate_twice:
  "locate (\<lambda>t. t = ''/bin/ls'') (Some ''/bin'') ''/home'' [''ls'', ''ls''] [] = ([], ''/bin/ls'' @ [nl] @ ''locate: command not found (ls)'' @ [nl])"
  by (simp add: locate_def locate_one_def locate_dir_def cut_path_def Let_def)

subsection \<open>The options of reveal\<close>

lemma collect_cong: "(\<And>x. x \<in> set xs \<Longrightarrow> f x = g x) \<Longrightarrow> collect f xs = collect g xs"
  by (induction xs) (auto split: option.split)

text \<open>A list of options, with the flags it sets.\<close>

definition options :: "string list \<Rightarrow> bool \<times> bool \<Rightarrow> bool" where
  "options os hr \<longleftrightarrow> os \<noteq> [] \<and> (\<forall>a \<in> set os. is_option a \<and> set (tl a) \<subseteq> {CHR ''a'', CHR ''t''}) \<and>
     hr = (\<exists>a \<in> set os. CHR ''a'' \<in> set (tl a), \<exists>a \<in> set os. CHR ''t'' \<in> set (tl a))"

lemma flag_letters_ok: "set l \<subseteq> {CHR ''a'', CHR ''t''} \<Longrightarrow> flag_letters l (h, r) = Inr (h \<or> CHR ''a'' \<in> set l, r \<or> CHR ''t'' \<in> set l)"
  by (induction l arbitrary: h r) auto

lemma flag_args_ok:
  "\<forall>a \<in> set os. is_option a \<and> set (tl a) \<subseteq> {CHR ''a'', CHR ''t''} \<Longrightarrow> \<not> is_option d \<Longrightarrow>
   flag_args (os @ [d]) (h, r) =
     Inr ((h \<or> (\<exists>a \<in> set os. CHR ''a'' \<in> set (tl a)), r \<or> (\<exists>a \<in> set os. CHR ''t'' \<in> set (tl a))), [d])"
  by (induction os arbitrary: h r) (auto simp: flag_letters_ok)

text \<open>A directory that is not taken for an option, nor for the working directory.\<close>

definition plain_dir :: "string \<Rightarrow> bool" where
  "plain_dir d \<longleftrightarrow> d \<noteq> [] \<and> hd d \<noteq> CHR ''-'' \<and> d \<noteq> ''.''"

lemma plain_join: "plain_dir d \<Longrightarrow> plain_dir (join_path d name)"
proof -
  assume "plain_dir d"
  then obtain c s where d: "d = c # s" "c \<noteq> CHR ''-''" "d \<noteq> ''.''" by (cases d) (auto simp: plain_dir_def)
  define t where "t = (if last d = CHR ''/'' then name else ''/'' @ name)"
  have j: "join_path d name = c # take 4094 (s @ t)" using d by (auto simp: join_path_def cut_path_def t_def take_Cons')
  have "s @ t \<noteq> []" if "c = CHR ''.''" using d that by (auto simp: t_def)
  then show ?thesis using d(2) unfolding j plain_dir_def by auto
qed

lemma reveal_unfold:
  assumes "options os hr" "plain_dir d"
  shows "reveal (Suc n) h (cmd # os @ [d]) = reveal_dir h hr d short_plain (\<lambda>path. reveal n h (cmd # os @ [path]))"
proof -
  have "flag_args (os @ [d]) (False, False) = Inr (hr, [d])"
    using assms flag_args_ok [of os d False False] by (auto simp: options_def plain_dir_def is_option_def)
  moreover have "length (cmd # os @ [d]) \<noteq> 2" using assms(1) by (auto simp: options_def)
  ultimately show ?thesis by (simp add: butlast_append)
qed

text \<open>
  The options of \<^verbatim>\<open>reveal\<close> may be written together or apart, in any order and more than once: for a directory given by a
  name that is neither \<^verbatim>\<open>.\<close> nor begins with a dash, the listing depends only on which letters the options have, at every depth. A single
  option without a directory lists the working directory.
\<close>

theorem reveal_options:
  assumes "options os hr" and "options os' hr" and "plain_dir d"
  shows "reveal n h (cmd # os @ [d]) = reveal n h (cmd # os' @ [d]) \<and>
    (os = [a] \<longrightarrow> fst hr \<or> snd hr \<longrightarrow> reveal n h [cmd, a] = reveal n h [cmd, a, ''.''])"
proof (intro conjI impI)
  show "reveal n h (cmd # os @ [d]) = reveal n h (cmd # os' @ [d])" using assms(3)
  proof (induction n arbitrary: d)
    case (Suc n)
    have "show_entry h hr d short_plain (\<lambda>path. reveal n h (cmd # os @ [path])) name =
        show_entry h hr d short_plain (\<lambda>path. reveal n h (cmd # os' @ [path])) name" for name
      using Suc.IH [OF plain_join [OF Suc.prems]] by (simp add: show_entry_def Let_def split: prod.split)
    then show ?case unfolding reveal_unfold [OF assms(1) Suc.prems] reveal_unfold [OF assms(2) Suc.prems] reveal_dir_def
      by (simp cong: collect_cong option.case_cong)
  qed simp
  assume a: "os = [a]" "fst hr \<or> snd hr"
  then have f: "is_option a" "flag_letters (tl a) (False, False) = Inr hr" using assms(1) by (auto simp: options_def flag_letters_ok)
  have "show_entry h hr ''.'' short_spaced rec = show_entry h hr ''.'' short_plain rec" for rec
    using a(2) by (auto simp: show_entry_def fun_eq_iff Let_def split: prod.split)
  then have "reveal_dir h hr ''.'' short_spaced rec = reveal_dir h hr ''.'' short_plain rec" for rec by (simp only: reveal_dir_def)
  then show "reveal n h [cmd, a] = reveal n h [cmd, a, ''.'']"
    using f by (cases n) (simp_all add: is_option_def)
qed

theorem reveal_options_witness:
  "reveal 5 \<lparr>d_scan = (\<lambda>d. if d = ''x'' then Some [''.'', ''..'', ''.y''] else None), d_isdir = (\<lambda>_. False)\<rparr> [''reveal'', ''-a'', ''-ta'', ''x''] =
   reveal 5 \<lparr>d_scan = (\<lambda>d. if d = ''x'' then Some [''.'', ''..'', ''.y''] else None), d_isdir = (\<lambda>_. False)\<rparr> [''reveal'', ''-at'', ''x'']"
  using reveal_options [of "[''-a'', ''-ta'']" "(True, True)" "[''-at'']" "''x''" 5
      "\<lparr>d_scan = (\<lambda>d. if d = ''x'' then Some [''.'', ''..'', ''.y''] else None), d_isdir = (\<lambda>_. False)\<rparr>" "''reveal''"]
  by (simp add: options_def is_option_def plain_dir_def)

text \<open>
  With several options and no directory the last option is replaced by the path in the recursive calls: here \<^verbatim>\<open>-t\<close> is
  lost below the first level, and \<^verbatim>\<open>d/e/f\<close> is not listed.
\<close>

definition small_tree :: dir_host where
  "small_tree = \<lparr>d_scan = map_of [(''.'', [''d'']), (''d'', [''e'']), (''d/e'', [''f''])], d_isdir = (\<lambda>p. p \<in> {''d'', ''d/e''})\<rparr>"

lemma reveal_loses_option:
  "reveal 9 small_tree [''reveal'', ''-at''] = Some (''d/'' @ [nl] @ ''d/e/'' @ [nl] @ ''d/e/f'' @ [nl])"
  "reveal 9 small_tree [''reveal'', ''-a'', ''-t''] = Some (''d/'' @ [nl] @ ''d/e'' @ [nl])"
  by code_simp+

end
