(* ===== verification/Insertion.thy ===== *)
theory Insertion
  imports Prelude "HOL-Library.Multiset"
begin

text \<open>
  Insertion sort on an array, as \<^verbatim>\<open>spy\<close> and \<^verbatim>\<open>snoop\<close> of the C shell have it (\<^verbatim>\<open>c-shell/src/bins.c\<close>): entry \<open>i\<close> moves to the
  left past the entries that belong behind it. The locale \<open>keyed\<close> states what the loop condition has to be for the
  result to be the stable sort of the library.
\<close>

subsection \<open>The loops\<close>

text \<open>The inner loop; the first argument is the loop condition on an entry and \<open>k\<close>, the second to last one is \<^verbatim>\<open>j + 1\<close>.\<close>

primrec ins_loop :: "('a \<Rightarrow> 'a \<Rightarrow> bool) \<Rightarrow> 'a \<Rightarrow> nat \<Rightarrow> 'a list \<Rightarrow> 'a list" where
  "ins_loop behind k 0 a = a[0 := k]"
| "ins_loop behind k (Suc j) a = (if behind (a ! j) k then ins_loop behind k j (a[Suc j := a ! j]) else a[Suc j := k])"

definition insertion_sort :: "('a \<Rightarrow> 'a \<Rightarrow> bool) \<Rightarrow> 'a list \<Rightarrow> 'a list" where
  "insertion_sort behind a = fold (\<lambda>i a. ins_loop behind (a ! i) i a) [0..<length a] a"

subsection \<open>The result\<close>

definition stays :: "('a \<Rightarrow> 'a \<Rightarrow> bool) \<Rightarrow> 'a \<Rightarrow> 'a list \<Rightarrow> 'a list" where
  "stays behind k p = rev (dropWhile (\<lambda>y. behind y k) (rev p))"

definition moves :: "('a \<Rightarrow> 'a \<Rightarrow> bool) \<Rightarrow> 'a \<Rightarrow> 'a list \<Rightarrow> 'a list" where
  "moves behind k p = rev (takeWhile (\<lambda>y. behind y k) (rev p))"

lemma stays_moves: "stays behind k p @ moves behind k p = p"
  by (simp add: stays_def moves_def flip: rev_append)

lemma ins_loop_eq: "ins_loop behind k (length p) (p @ x # q) = stays behind k p @ k # moves behind k p @ q"
proof (induction p arbitrary: x q rule: rev_induct)
  case Nil
  show ?case by (simp add: stays_def moves_def)
next
  case (snoc y p)
  have y: "((p @ [y]) @ x # q) ! length p = y" by (simp add: nth_append)
  have u: "((p @ [y]) @ x # q)[Suc (length p) := v] = p @ y # v # q" for v by (simp add: list_update_append)
  show ?case using snoc [of y "y # q"] u y by (simp add: stays_def moves_def)
qed

locale keyed =
  fixes behind :: "'a \<Rightarrow> 'a \<Rightarrow> bool" and f :: "'a \<Rightarrow> 'k :: linorder"
  assumes behind_iff: "behind x y \<longleftrightarrow> f y < f x"
begin

lemma moves_above: "x \<in> set (moves behind k p) \<Longrightarrow> f k < f x"
  by (auto simp: moves_def behind_iff dest: set_takeWhileD)

lemma stays_below:
  assumes "sorted (map f p)" "x \<in> set (stays behind k p)"
  shows "f x \<le> f k"
proof -
  let ?d = "dropWhile (\<lambda>y. behind y k) (rev p)"
  have x: "x \<in> set ?d" using assms(2) by (simp add: stays_def)
  then obtain l d where d: "?d = l # d" by (cases ?d) auto
  have "sorted (map f (stays behind k p) @ map f (moves behind k p))" using assms(1) by (simp add: stays_moves flip: map_append)
  then have "sorted (map f (rev d @ [l]))" using d by (simp add: sorted_append stays_def)
  then have "f x \<le> f l" using x d by (auto simp: sorted_append)
  also have "\<dots> \<le> f k" using d hd_dropWhile [of "\<lambda>y. behind y k" "rev p"] by (auto simp: behind_iff not_less)
  finally show ?thesis .
qed

lemma insert_sorted:
  assumes "sorted (map f p)"
  shows "sorted (map f (stays behind k p @ k # moves behind k p))"
proof -
  have "sorted (map f (stays behind k p) @ map f (moves behind k p))" using assms by (simp add: stays_moves flip: map_append)
  then show ?thesis using stays_below [OF assms, of _ k] moves_above [of _ k p] by (auto simp: sorted_append less_imp_le)
qed

lemma insert_stable: "filter (\<lambda>x. f c = f x) (stays behind k p @ k # moves behind k p) = filter (\<lambda>x. f c = f x) (p @ [k])"
proof -
  have "filter (\<lambda>x. f c = f x) (moves behind k p) = []" if "f c = f k"
    using that by (auto simp: filter_empty_conv dest: moves_above)
  moreover have "filter (\<lambda>x. f c = f x) p = filter (\<lambda>x. f c = f x) (stays behind k p) @ filter (\<lambda>x. f c = f x) (moves behind k p)"
    by (simp add: stays_moves flip: filter_append)
  ultimately show ?thesis by simp
qed

lemma sorts_prefix:
  "i \<le> length a \<Longrightarrow> fold (\<lambda>i a. ins_loop behind (a ! i) i a) [0..<i] a = sort_key f (take i a) @ drop i a"
proof (induction i)
  case (Suc i)
  let ?p = "sort_key f (take i a)" and ?k = "a ! i"
  have len: "length ?p = i" using Suc.prems by simp
  have d: "drop i a = ?k # drop (Suc i) a" using Suc.prems by (simp add: Cons_nth_drop_Suc)
  have "fold (\<lambda>i a. ins_loop behind (a ! i) i a) [0..<Suc i] a = ins_loop behind ?k i (?p @ ?k # drop (Suc i) a)"
    using Suc d len by (simp add: nth_append)
  also have "\<dots> = (stays behind ?k ?p @ ?k # moves behind ?k ?p) @ drop (Suc i) a"
    using ins_loop_eq [of behind ?k ?p ?k "drop (Suc i) a"] len by simp
  also have "stays behind ?k ?p @ ?k # moves behind ?k ?p = sort_key f (take (Suc i) a)"
  proof (rule properties_for_sort_key [symmetric])
    have "mset (stays behind ?k ?p) + mset (moves behind ?k ?p) = mset (take i a)"
      by (simp add: stays_moves flip: mset_append)
    then show "mset (stays behind ?k ?p @ ?k # moves behind ?k ?p) = mset (take (Suc i) a)"
      using Suc.prems by (simp add: take_Suc_conv_app_nth)
    show "filter (\<lambda>x. f c = f x) (stays behind ?k ?p @ ?k # moves behind ?k ?p) = filter (\<lambda>x. f c = f x) (take (Suc i) a)" for c
      unfolding insert_stable using Suc.prems by (simp add: take_Suc_conv_app_nth eq_commute [of "f c"] sort_key_stable)
    show "sorted (map f (stays behind ?k ?p @ ?k # moves behind ?k ?p))" by (rule insert_sorted) simp
  qed
  finally show ?case .
qed simp

lemma sorts: "insertion_sort behind a = sort_key f a"
  using sorts_prefix [of "length a" a] by (simp add: insertion_sort_def)

end

end
