(* ===== verification/Snoop.thy ===== *)
theory Snoop
  imports Hoststr Insertion "HOL-Library.Product_Lexorder"
begin

text \<open>
  The intrinsics \<^verbatim>\<open>snoop\<close> and \<^verbatim>\<open>spy\<close> of the C shell (\<^verbatim>\<open>c-shell/src/bins.c\<close>). \<^verbatim>\<open>snoop\<close> traces a process: what \<^verbatim>\<open>ptrace\<close> and
  \<^verbatim>\<open>waitpid\<close> report in each turn of its loop is an input, the table of system calls is the state. \<^verbatim>\<open>spy\<close> prints
  what \<^verbatim>\<open>/proc\<close> says about a process: the contents of \<^verbatim>\<open>/proc\<close> are an input. Times are exact numbers of
  nanoseconds where the code adds up a \<^verbatim>\<open>double\<close>; the tables of 1024 and 512 entries keep their bounds.
\<close>

subsection \<open>Names of system calls\<close>

definition call_names :: "(int \<times> string) list" where
  "call_names =
     [(0, ''read''), (1, ''write''), (2, ''open''), (3, ''close''), (4, ''stat''), (5, ''fstat''), (6, ''lstat''), (8, ''lseek''),
      (9, ''mmap''), (10, ''mprotect''), (11, ''munmap''), (12, ''brk''), (13, ''rt_sigaction''), (14, ''rt_sigprocmask''),
      (16, ''ioctl''), (21, ''access''), (22, ''pipe''), (32, ''dup''), (33, ''dup2''), (35, ''nanosleep''), (39, ''getpid''),
      (59, ''execve''), (60, ''exit''), (61, ''wait4''), (62, ''kill''), (72, ''fcntl''), (79, ''getcwd''), (89, ''readlink''),
      (96, ''gettimeofday''), (97, ''getrlimit''), (102, ''getuid''), (104, ''getgid''), (107, ''geteuid''), (108, ''getegid''),
      (158, ''arch_prctl''), (202, ''futex''), (231, ''exit_group''), (257, ''openat''), (262, ''newfstatat''),
      (273, ''set_robust_list''), (302, ''prlimit64''), (318, ''getrandom''), (334, ''rseq'')]"

text \<open>The default has room for 19 characters.\<close>

definition lookup :: "int \<Rightarrow> string" where
  "lookup num = (case map_of call_names num of Some s \<Rightarrow> s | None \<Rightarrow> take 19 (''syscall_'' @ dec num))"

subsection \<open>The trace\<close>

record syscall_row =
  sc_num :: int
  sc_calls :: int
  sc_tt :: int
  sc_first :: int

definition INFO_MAX :: nat where "INFO_MAX = 1024"

record snoop =
  info :: "syscall_row list"
  in_syscall :: bool
  cur :: int
  entry_time :: int
  order :: int
  pending :: int

definition snoop_init :: snoop where
  "snoop_init = \<lparr>info = [], in_syscall = False, cur = - 1, entry_time = 0, order = 0, pending = 0\<rparr>"

text \<open>
  One turn of the loop: \<^verbatim>\<open>ptrace\<close> or \<^verbatim>\<open>waitpid\<close> fails or the process has ended, or its status is not a stop, or it
  stopped for a signal, or for a system call, with its number and the time in nanoseconds.
\<close>

datatype turn =
    TEnd
  | TOther
  | TSignal int
  | TSyscall int int

definition find_call :: "int \<Rightarrow> syscall_row list \<Rightarrow> nat option" where
  "find_call n l = find (\<lambda>i. sc_num (l ! i) = n) [0..<length l]"

definition count_call :: "int \<Rightarrow> snoop \<Rightarrow> snoop" where
  "count_call passed s =
     (case find_call (cur s) (info s) of
        None \<Rightarrow>
          if length (info s) < INFO_MAX
          then s\<lparr>info := info s @ [\<lparr>sc_num = cur s, sc_calls = 0, sc_tt = 0, sc_first = order s + 1\<rparr>], order := order s + 1\<rparr>
          else s
      | Some i \<Rightarrow> s\<lparr>info := (info s)[i := (info s ! i)\<lparr>sc_calls := sc_calls (info s ! i) + 1, sc_tt := sc_tt (info s ! i) + passed\<rparr>]\<rparr>)"

text \<open>A turn that goes on: the signal that \<^verbatim>\<open>ptrace\<close> passes to the process in the next turn is \<^verbatim>\<open>pending\<close>.\<close>

definition snoop_turn :: "turn \<Rightarrow> snoop \<Rightarrow> snoop" where
  "snoop_turn t s =
     (let s = s\<lparr>pending := 0\<rparr> in
      case t of
        TSignal sig \<Rightarrow> s\<lparr>pending := sig\<rparr>
      | TSyscall n now \<Rightarrow>
          if \<not> in_syscall s then s\<lparr>in_syscall := True, cur := n, entry_time := now\<rparr>
          else (count_call (now - entry_time s) s)\<lparr>in_syscall := False\<rparr>
      | _ \<Rightarrow> s)"

text \<open>\<open>None\<close> as long as the process is traced.\<close>

primrec snoop_loop :: "turn list \<Rightarrow> snoop \<Rightarrow> snoop option" where
  "snoop_loop [] s = None"
| "snoop_loop (t # ts) s = (if t = TEnd then Some s else snoop_loop ts (snoop_turn t s))"

text \<open>The table: most calls first, then in the order of the first calls.\<close>

definition row_behind :: "syscall_row \<Rightarrow> syscall_row \<Rightarrow> bool" where
  "row_behind a k \<longleftrightarrow> sc_calls a < sc_calls k \<or> sc_calls a = sc_calls k \<and> sc_first a > sc_first k"

definition snoop_table :: "turn list \<Rightarrow> (string \<times> int \<times> int) list option" where
  "snoop_table ts =
     (case snoop_loop ts snoop_init of
        None \<Rightarrow> None
      | Some s \<Rightarrow> Some (map (\<lambda>r. (lookup (sc_num r), sc_calls r, sc_tt r)) (insertion_sort row_behind (info s))))"

text \<open>
  The start of \<^verbatim>\<open>snoop\<close>: a running process with \<^verbatim>\<open>-p\<close>, or a new one. The answers of the host: whether
  \<^verbatim>\<open>/proc/pid\<close> is there, whether \<^verbatim>\<open>PTRACE_ATTACH\<close> works, and whether \<^verbatim>\<open>execvp\<close> failed.
\<close>

datatype snoop_start = SnError string | SnAttach int | SnRun "string list"

definition to_pid :: "int \<Rightarrow> int" where
  "to_pid n = signed_take_bit 31 n"

definition start_snoop :: "(int \<Rightarrow> bool) \<Rightarrow> (int \<Rightarrow> bool) \<Rightarrow> (string list \<Rightarrow> bool) \<Rightarrow> string list \<Rightarrow> snoop_start" where
  "start_snoop proc_dir attach exec_fails args =
     (if 3 \<le> length args \<and> args ! 1 = ''-p''
      then let (l, rest) = strtol (args ! 2); pid = to_pid l in
           if rest \<noteq> [] \<or> l < 0 then SnError ''snoop: no such process''
           else if \<not> proc_dir pid \<or> \<not> attach pid then SnError ''snoop: no such process''
           else SnAttach pid
      else if 2 \<le> length args
      then if exec_fails (tl args) then SnError ''snoop: command not found'' else SnRun (tl args)
      else SnError ''snoop: invalid syntax'')"

definition cmd_snoop :: "(int \<Rightarrow> bool) \<Rightarrow> (int \<Rightarrow> bool) \<Rightarrow> (string list \<Rightarrow> bool) \<Rightarrow> string list \<Rightarrow> turn list \<Rightarrow> string + (string \<times> int \<times> int) list option" where
  "cmd_snoop proc_dir attach exec_fails args ts =
     (case start_snoop proc_dir attach exec_fails args of SnError e \<Rightarrow> Inl e | _ \<Rightarrow> Inr (snoop_table ts))"

subsection \<open>spy\<close>

text \<open>What the host says about a process.\<close>

record proc_host =
  ph_gone :: "int \<Rightarrow> bool"
  ph_dir :: "int \<Rightarrow> bool"
  ph_cwd :: "int \<Rightarrow> string"
  ph_exe :: "int \<Rightarrow> string"
  ph_maps :: "int \<Rightarrow> string list"
  ph_fds :: "int \<Rightarrow> string list"
  ph_link :: "int \<Rightarrow> int \<Rightarrow> string option"
  ph_type :: "int \<Rightarrow> int \<Rightarrow> string option"

datatype spy_row =
    SpyErr string
  | SpyHead
  | SpyCwd int string
  | SpyTxt int string
  | SpyMem int string
  | SpyFd int int string string

text \<open>The path in a line of \<^verbatim>\<open>maps\<close> is its sixth word.\<close>

definition maps_path :: "string \<Rightarrow> string option" where
  "maps_path line =
     (let ws = words line in if length ws < 6 \<or> hd (ws ! 5) = CHR ''['' then None else Some (ws ! 5))"

text \<open>The array \<^verbatim>\<open>seen\<close> holds 512 paths.\<close>

definition spy_maps_step :: "int \<Rightarrow> string \<Rightarrow> string list \<times> spy_row list \<Rightarrow> string list \<times> spy_row list" where
  "spy_maps_step pid line = (\<lambda>(seen, out).
     case maps_path line of
       None \<Rightarrow> (seen, out)
     | Some p \<Rightarrow>
         if p \<in> set seen then (seen, out)
         else (if length seen < 512 then seen @ [p] else seen, out @ [SpyMem pid p]))"

definition spy_maps :: "int \<Rightarrow> string list \<Rightarrow> spy_row list" where
  "spy_maps pid lines = snd (fold (spy_maps_step pid) lines ([], []))"

definition fd_number :: "string \<Rightarrow> int option" where
  "fd_number name =
     (if name \<noteq> [] \<and> hd name = CHR ''.'' then None
      else let (fdn, rest) = strtol name in if rest \<noteq> [] then None else Some (to_pid fdn))"

definition spy_fd_numbers :: "string list \<Rightarrow> int list" where
  "spy_fd_numbers names = insertion_sort (\<lambda>a k. k < a) (take 1024 (List.map_filter fd_number names))"

text \<open>
  The buffer \<^verbatim>\<open>buff\<close> is shared by all calls of \<^verbatim>\<open>readlink\<close>, which does not terminate what it stores; behind the characters of \<open>b\<close> the buffer holds NULs. For the directory and the
  program a NUL is stored behind the text, for the descriptors not.
\<close>

definition read_link :: "string \<Rightarrow> string \<Rightarrow> string" where
  "read_link l b = l @ drop (length l) b"

definition read_link_nul :: "string \<Rightarrow> string \<Rightarrow> string" where
  "read_link_nul l b = (if l = [] then b else l @ CHR 0x00 # drop (Suc (length l)) b)"

primrec spy_fd_rows :: "proc_host \<Rightarrow> int \<Rightarrow> int list \<Rightarrow> string \<Rightarrow> spy_row list" where
  "spy_fd_rows h pid [] b = []"
| "spy_fd_rows h pid (fd # fds) b =
     (case ph_link h pid fd of
        None \<Rightarrow> spy_fd_rows h pid fds b
      | Some l \<Rightarrow>
          SpyFd pid fd (case ph_type h pid fd of None \<Rightarrow> ''UNK'' | Some t \<Rightarrow> t) (takeWhile (\<lambda>c. c \<noteq> CHR 0x00) (read_link l b)) #
          spy_fd_rows h pid fds (read_link l b))"

definition spy_process :: "proc_host \<Rightarrow> int \<Rightarrow> spy_row list" where
  "spy_process h pid =
     (if ph_gone h pid \<or> \<not> ph_dir h pid then [SpyErr ''spy: no such process'']
      else [SpyHead] @
        (if ph_cwd h pid \<noteq> [] then [SpyCwd pid (ph_cwd h pid)] else []) @
        (if ph_exe h pid \<noteq> [] then [SpyTxt pid (ph_exe h pid)] else []) @
        spy_maps pid (ph_maps h pid) @
        spy_fd_rows h pid (spy_fd_numbers (ph_fds h pid)) (read_link_nul (ph_exe h pid) (read_link_nul (ph_cwd h pid) [])))"

definition spy :: "proc_host \<Rightarrow> int \<Rightarrow> string list \<Rightarrow> spy_row list" where
  "spy h self args =
     (if 2 < length args then [SpyErr ''spy: invalid syntax'']
      else if length args = 1 then spy_process h self
      else if length args = 2
      then let (l, rest) = strtol (args ! 1) in
           if rest \<noteq> [] \<or> l < 0 then [SpyErr ''spy: invalid pid''] else spy_process h (to_pid l)
      else [])"

subsection \<open>The two sorts\<close>

interpretation rows: keyed row_behind "\<lambda>r. (- sc_calls r, sc_first r)"
  by unfold_locales (auto simp: row_behind_def less_prod_def)

interpretation fds: keyed "\<lambda>a k :: int. k < a" "\<lambda>n. n"
  by unfold_locales simp

text \<open>The descriptors of \<^verbatim>\<open>spy\<close> are printed in ascending order.\<close>

lemma spy_fds_sorted: "spy_fd_numbers names = sort (take 1024 (List.map_filter fd_number names))"
  unfolding spy_fd_numbers_def by (rule fds.sorts)

text \<open>
  A descriptor that leads to a shorter path than the text that was read before is shown with the rest of that text behind it.
\<close>

lemma spy_stale_text:
  assumes "ph_link h pid fd = Some l" "CHR 0x00 \<notin> set l" "CHR 0x00 \<notin> set old" "length l \<le> length old"
  shows "\<exists>t r. spy_fd_rows h pid (fd # fds) (old @ CHR 0x00 # b) = SpyFd pid fd t (l @ drop (length l) old) # r"
proof -
  have "takeWhile (\<lambda>c. c \<noteq> CHR 0x00) (read_link l (old @ CHR 0x00 # b)) = l @ drop (length l) old"
  proof -
    have d: "drop (length l) (old @ CHR 0x00 # b) = drop (length l) old @ CHR 0x00 # b" using assms(4) by simp
    have "\<forall>c \<in> set (l @ drop (length l) old). c \<noteq> CHR 0x00" using assms(2,3) by (auto dest: in_set_dropD)
    then have "takeWhile (\<lambda>c. c \<noteq> CHR 0x00) ((l @ drop (length l) old) @ CHR 0x00 # b) = (l @ drop (length l) old) @ takeWhile (\<lambda>c. c \<noteq> CHR 0x00) (CHR 0x00 # b)"
      by (intro takeWhile_append2) blast
    then show ?thesis unfolding read_link_def d by simp
  qed
  then show ?thesis using assms(1) by simp
qed

text \<open>The mapped files of \<^verbatim>\<open>spy\<close>: each path once, in the order of the lines, as long as there are at most 512 of them.\<close>

definition first_order :: "'a list \<Rightarrow> 'a list" where
  "first_order l = rev (remdups (rev l))"

lemma first_order_simps [simp]:
  "first_order [] = []" "first_order (l @ [x]) = (if x \<in> set l then first_order l else first_order l @ [x])"
  by (simp_all add: first_order_def)

lemma set_first_order [simp]: "set (first_order l) = set l" "distinct (first_order l)"
  by (simp_all add: first_order_def)

lemma length_first_order: "length (first_order l) = card (set l)"
  by (simp add: first_order_def length_remdups_card_conv)

lemma spy_maps_once:
  "card (set (List.map_filter maps_path lines)) \<le> 512 \<Longrightarrow>
   fold (spy_maps_step pid) lines ([], []) =
     (first_order (List.map_filter maps_path lines), map (SpyMem pid) (first_order (List.map_filter maps_path lines)))"
proof (induction lines rule: rev_induct)
  case (snoc l ls)
  let ?ps = "List.map_filter maps_path ls"
  have a: "List.map_filter maps_path (ls @ [l]) = ?ps @ (case maps_path l of None \<Rightarrow> [] | Some p \<Rightarrow> [p])"
    by (simp add: map_filter_def split: option.splits)
  have "set ?ps \<subseteq> set (List.map_filter maps_path (ls @ [l]))" unfolding a by simp
  note ih = snoc.IH [OF order_trans [OF card_mono [OF finite_set this] snoc.prems]]
  show ?case
  proof (cases "maps_path l")
    case None
    then show ?thesis using ih a by (simp add: spy_maps_step_def)
  next
    case (Some p)
    then have "length (first_order ?ps) < 512" if "p \<notin> set ?ps" using snoc.prems a that by (simp add: length_first_order)
    then show ?thesis using ih a Some by (simp add: spy_maps_step_def)
  qed
qed (simp add: map_filter_def)

subsection \<open>What the table of snoop says\<close>

text \<open>The stops for system calls, and the calls with their durations: each takes two stops.\<close>

primrec stops :: "turn list \<Rightarrow> (int \<times> int) list" where
  "stops [] = []"
| "stops (t # ts) = (case t of TEnd \<Rightarrow> [] | TSyscall n now \<Rightarrow> (n, now) # stops ts | _ \<Rightarrow> stops ts)"

fun timed_calls :: "(int \<times> int) list \<Rightarrow> (int \<times> int) list" where
  "timed_calls ((n, t) # (m, t') # r) = (n, t' - t) # timed_calls r"
| "timed_calls _ = []"

text \<open>The durations of the calls of one kind.\<close>

definition durations :: "int \<Rightarrow> (int \<times> int) list \<Rightarrow> int list" where
  "durations n cs = map snd (filter (\<lambda>c. fst c = n) cs)"

text \<open>The row of a system call: its first call is missing.\<close>

definition row_of :: "(int \<times> int) list \<Rightarrow> nat \<Rightarrow> syscall_row" where
  "row_of cs i =
     (let n = first_order (map fst cs) ! i; ds = tl (durations n cs) in
      \<lparr>sc_num = n, sc_calls = int (length ds), sc_tt = sum_list ds, sc_first = int i + 1\<rparr>)"

definition rows_of :: "(int \<times> int) list \<Rightarrow> syscall_row list" where
  "rows_of cs = map (row_of cs) [0..<length (first_order (map fst cs))]"

lemma durations_snoc: "durations n (cs @ [(m, d)]) = durations n cs @ (if m = n then [d] else [])"
  by (simp add: durations_def)

lemma durations_Nil: "durations n cs = [] \<longleftrightarrow> n \<notin> set (map fst cs)"
  by (auto simp: durations_def filter_empty_conv)

lemma find_call_rows:
  "find_call n (rows_of cs) = None \<longleftrightarrow> n \<notin> set (map fst cs)"
  "find_call n (rows_of cs) = Some i \<Longrightarrow> i < length (first_order (map fst cs)) \<and> first_order (map fst cs) ! i = n"
proof -
  have r: "sc_num (rows_of cs ! i) = first_order (map fst cs) ! i" if "i < length (first_order (map fst cs))" for i
    using that by (simp add: rows_of_def row_of_def Let_def)
  have l: "length (rows_of cs) = length (first_order (map fst cs))" by (simp add: rows_of_def)
  have m: "n \<in> set (map fst cs) \<longleftrightarrow> (\<exists>i < length (first_order (map fst cs)). first_order (map fst cs) ! i = n)"
    using set_first_order(1) [of "map fst cs"] in_set_conv_nth [of n "first_order (map fst cs)"] by simp
  show "find_call n (rows_of cs) = None \<longleftrightarrow> n \<notin> set (map fst cs)"
    unfolding find_call_def find_None_iff m using r l by auto
  show "find_call n (rows_of cs) = Some i \<Longrightarrow> i < length (first_order (map fst cs)) \<and> first_order (map fst cs) ! i = n"
    unfolding find_call_def find_Some_iff using r l by auto
qed

lemma count_call_rows:
  assumes i: "info s = rows_of cs" "order s = int (length (first_order (map fst cs)))"
    and c: "card (set (map fst (cs @ [(cur s, d)]))) \<le> INFO_MAX"
  shows "count_call d s = s\<lparr>info := rows_of (cs @ [(cur s, d)]), order := int (length (first_order (map fst (cs @ [(cur s, d)]))))\<rparr>"
proof (cases "cur s \<in> set (map fst cs)")
  case False
  let ?fo = "first_order (map fst cs)" and ?cs = "cs @ [(cur s, d)]"
  have fo: "first_order (map fst ?cs) = ?fo @ [cur s]" using False by simp
  have l: "length ?fo < INFO_MAX" using c False by (simp add: length_first_order)
  have "durations n ?cs = durations n cs" if "n \<in> set ?fo" for n using that False by (auto simp: durations_snoc)
  then have "row_of ?cs j = row_of cs j" if "j < length ?fo" for j
    using that fo nth_mem [of j ?fo] by (simp add: row_of_def nth_append Let_def)
  moreover have "durations (cur s) cs = []" using False durations_Nil by simp
  then have "row_of ?cs (length ?fo) = \<lparr>sc_num = cur s, sc_calls = 0, sc_tt = 0, sc_first = int (length ?fo) + 1\<rparr>"
    using fo by (simp add: row_of_def durations_snoc)
  ultimately have "rows_of ?cs = rows_of cs @ [\<lparr>sc_num = cur s, sc_calls = 0, sc_tt = 0, sc_first = int (length ?fo) + 1\<rparr>]"
    unfolding rows_of_def fo by simp
  then show ?thesis using False find_call_rows(1) [of "cur s" cs] l i fo by (simp add: count_call_def rows_of_def)
next
  case True
  let ?fo = "first_order (map fst cs)" and ?cs = "cs @ [(cur s, d)]"
  have fo: "first_order (map fst ?cs) = ?fo" using True by simp
  obtain k where k: "find_call (cur s) (rows_of cs) = Some k" using True find_call_rows(1) [of "cur s" cs] by auto
  note kk = find_call_rows(2) [OF k]
  have l: "length (rows_of cs) = length ?fo" by (simp add: rows_of_def)
  let ?r = "rows_of cs ! k" and ?upd = "\<lambda>r. r\<lparr>sc_calls := sc_calls r + 1, sc_tt := sc_tt r + d\<rparr>"
  have "row_of ?cs j = (if j = k then ?upd (row_of cs k) else row_of cs j)" if j: "j < length ?fo" for j
  proof (cases "j = k")
    case True
    obtain x xs where "durations (cur s) cs = x # xs" using \<open>cur s \<in> _\<close> durations_Nil by (metis list.exhaust)
    then show ?thesis using True kk fo by (simp add: row_of_def Let_def durations_snoc)
  next
    case False
    then have "?fo ! j \<noteq> cur s" using kk j nth_eq_iff_index_eq [OF set_first_order(2)] by metis
    then show ?thesis using False fo by (simp add: row_of_def Let_def durations_snoc)
  qed
  then have "(rows_of cs)[k := ?upd ?r] = rows_of ?cs"
    using kk fo by (intro nth_equalityI) (simp_all add: rows_of_def nth_list_update)
  then show ?thesis using k i fo by (simp add: count_call_def)
qed

text \<open>The state after the calls \<open>cs\<close>, with the stop \<open>opn\<close> of a call that has not returned.\<close>

definition traced :: "snoop \<Rightarrow> (int \<times> int) list \<Rightarrow> (int \<times> int) list \<Rightarrow> bool" where
  "traced s cs opn \<longleftrightarrow> info s = rows_of cs \<and> order s = int (length (first_order (map fst cs))) \<and>
     (if in_syscall s then opn = [(cur s, entry_time s)] else opn = [])"

lemma snoop_loop_rows:
  "traced s cs opn \<Longrightarrow> card (set (map fst (cs @ timed_calls (opn @ stops ts)))) \<le> INFO_MAX \<Longrightarrow> TEnd \<in> set ts \<Longrightarrow>
   \<exists>s'. snoop_loop ts s = Some s' \<and> info s' = rows_of (cs @ timed_calls (opn @ stops ts))"
proof (induction ts arbitrary: s cs opn)
  case (Cons t ts)
  consider "t = TEnd" | sig where "t = TOther \<or> t = TSignal sig" | n now where "t = TSyscall n now" "\<not> in_syscall s" | n now where "t = TSyscall n now" "in_syscall s"
    by (cases t) auto
  then show ?case
  proof cases
    case 1
    then show ?thesis using Cons.prems(1) by (cases "in_syscall s") (auto simp: traced_def)
  next
    case 2
    have "traced (snoop_turn t s) cs opn" using 2 Cons.prems(1) by (auto simp: traced_def snoop_turn_def Let_def)
    from Cons.IH [OF this] show ?thesis using 2 Cons.prems by auto
  next
    case 3
    have "traced (snoop_turn t s) cs [(n, now)]" using 3 Cons.prems(1) by (auto simp: traced_def snoop_turn_def Let_def)
    moreover have "opn = []" using 3(2) Cons.prems(1) by (simp add: traced_def)
    ultimately show ?thesis using Cons.IH [of "snoop_turn t s" cs "[(n, now)]"] 3(1) Cons.prems by auto
  next
    case 4
    let ?d = "now - entry_time s"
    have o: "opn = [(cur s, entry_time s)]" using 4(2) Cons.prems(1) by (simp add: traced_def)
    then have e: "cs @ timed_calls (opn @ stops (t # ts)) = (cs @ [(cur s, ?d)]) @ timed_calls (stops ts)" using 4(1) by simp
    have "set (map fst (cs @ [(cur s, ?d)])) \<subseteq> set (map fst (cs @ timed_calls (opn @ stops (t # ts))))" unfolding e by auto
    then have c: "card (set (map fst (cs @ [(cur s, ?d)]))) \<le> INFO_MAX" using card_mono [OF finite_set] Cons.prems(2) by (metis order_trans)
    have "count_call ?d (s\<lparr>pending := 0\<rparr>) = (s\<lparr>pending := 0\<rparr>)\<lparr>info := rows_of (cs @ [(cur s, ?d)]), order := int (length (first_order (map fst (cs @ [(cur s, ?d)]))))\<rparr>"
      using count_call_rows [of "s\<lparr>pending := 0\<rparr>" cs ?d] Cons.prems(1) c by (simp add: traced_def)
    then have "traced (snoop_turn t s) (cs @ [(cur s, ?d)]) []" using 4 by (simp add: traced_def snoop_turn_def Let_def)
    from Cons.IH [OF this] show ?thesis using e 4(1) Cons.prems(2,3) by simp
  qed
qed simp

text \<open>
  C36. The table that \<^verbatim>\<open>snoop\<close> prints after a trace with at most 1024 kinds of system calls has one row per kind, sorted by the
  number of calls and then by the first call; the number in a row is one less than the calls that the process
  made, and the time leaves out the first of them: the turn that enters a new kind into the table does not count it.
\<close>

theorem snoop_counts_one_less:
  assumes "TEnd \<in> set ts" and "card (set (map fst (timed_calls (stops ts)))) \<le> INFO_MAX"
  shows "snoop_table ts =
    Some (map (\<lambda>r. (lookup (sc_num r), sc_calls r, sc_tt r))
      (sort_key (\<lambda>r. (- sc_calls r, sc_first r)) (rows_of (timed_calls (stops ts)))))"
proof -
  have "traced snoop_init [] []" by (simp add: traced_def snoop_init_def rows_of_def)
  from snoop_loop_rows [OF this, of ts] assms show ?thesis by (auto simp: snoop_table_def rows.sorts)
qed

theorem snoop_counts_one_less_witness:
  "snoop_table [TSyscall 1 10, TSyscall 1 15, TSyscall 0 20, TSyscall 0 22, TSignal 17, TSyscall 0 30, TSyscall 0 37, TSyscall 3 40, TEnd] =
     Some [(''read'', 1, 7), (''write'', 0, 0)]"
  using snoop_counts_one_less [of "[TSyscall 1 10, TSyscall 1 15, TSyscall 0 20, TSyscall 0 22, TSignal 17, TSyscall 0 30, TSyscall 0 37, TSyscall 3 40, TEnd]"]
  by (simp add: INFO_MAX_def rows_of_def row_of_def durations_def first_order_def Let_def upt_rec lookup_def call_names_def)

end
