(* ===== verification/Redirect.thy ===== *)
theory Redirect
  imports Shell
begin

text \<open>
  How the C shell connects the standard streams of its children (\<^verbatim>\<open>c-shell/src/command.c\<close>): \<^verbatim>\<open>redir_in\<close>, \<^verbatim>\<open>redir_out\<close>, the pipes of
  \<^verbatim>\<open>piped\<close> and the choice of the program in \<^verbatim>\<open>run_cmd\<close>. A descriptor table maps numbers to open files; \<^verbatim>\<open>open\<close> and \<^verbatim>\<open>pipe\<close> take
  the lowest free numbers. Several input files are copied into a pipe by a child (\<open>CatOf\<close>), and several output files are written by a
  child that reads a pipe (\<open>TeeTo\<close>). Which files can be opened, and whether \<^verbatim>\<open>fork\<close> succeeds there, are parameters: without the
  child that copies the input files nothing is ever written to the pipe.
\<close>

subsection \<open>Descriptors\<close>

datatype fobj =
    Given nat
  | PipeR nat
  | PipeW nat
  | InFile string
  | OutFile string bool
  | CatOf "string list"
  | CatIn "string list"
  | TeeTo "(string \<times> bool) list"
  | TeeOut "(string \<times> bool) list"

type_synonym fdtab = "nat \<Rightarrow> fobj option"

definition OPEN_MAX :: nat where "OPEN_MAX = 1024"

definition open_fd :: "fobj \<Rightarrow> fdtab \<Rightarrow> (nat \<times> fdtab) option" where
  "open_fd f t = map_option (\<lambda>n. (n, t(n := Some f))) (find (\<lambda>n. t n = None) [0..<OPEN_MAX])"

definition close_fd :: "nat \<Rightarrow> fdtab \<Rightarrow> fdtab" where
  "close_fd n t = t(n := None)"

definition dup_to :: "nat \<Rightarrow> nat \<Rightarrow> fdtab \<Rightarrow> fdtab" where
  "dup_to old new t = t(new := t old)"

text \<open>\<^verbatim>\<open>pipe\<close>: the read end and the write end.\<close>

definition open_pipe :: "fobj \<Rightarrow> fobj \<Rightarrow> fdtab \<Rightarrow> (nat \<times> nat \<times> fdtab) option" where
  "open_pipe r w t =
     (case open_fd r t of None \<Rightarrow> None | Some (p0, t) \<Rightarrow> map_option (\<lambda>(p1, t). (p0, p1, t)) (open_fd w t))"

subsection \<open>Redirections\<close>

text \<open>\<^verbatim>\<open>redir_in\<close>: \<open>None\<close> is the return of -1. Every file is opened once to see whether it can be read.\<close>

definition redir_in :: "bool \<Rightarrow> (string \<Rightarrow> bool) \<Rightarrow> string list \<Rightarrow> fdtab \<Rightarrow> fdtab option" where
  "redir_in forked readable ins t =
     (if ins = [] then Some t
      else if \<not> list_all readable ins \<or> open_fd (InFile (hd ins)) t = None then None
      else if length ins = 1
      then map_option (\<lambda>(fd, t). close_fd fd (dup_to fd 0 t)) (open_fd (InFile (hd ins)) t)
      else map_option (\<lambda>(p0, p1, t). close_fd p0 (dup_to p0 0 (close_fd p1 t))) (open_pipe (CatOf (if forked then ins else [])) (CatIn ins) t))"

primrec open_outs :: "(string \<Rightarrow> bool) \<Rightarrow> (string \<times> bool) list \<Rightarrow> fdtab \<Rightarrow> (nat list \<times> fdtab) option" where
  "open_outs writable [] t = Some ([], t)"
| "open_outs writable (f # fs) t =
     (if \<not> writable (fst f) then None
      else case open_fd (OutFile (fst f) (snd f)) t of
          None \<Rightarrow> None
        | Some (fd, t) \<Rightarrow> map_option (\<lambda>(fds, t). (fd # fds, t)) (open_outs writable fs t))"

definition redir_out :: "bool \<Rightarrow> (string \<Rightarrow> bool) \<Rightarrow> (string \<times> bool) list \<Rightarrow> fdtab \<Rightarrow> fdtab option" where
  "redir_out forked writable outs t =
     (if outs = [] then Some t
      else case open_outs writable outs t of
          None \<Rightarrow> None
        | Some (fds, t) \<Rightarrow>
            if length outs = 1 then Some (close_fd (hd fds) (dup_to (hd fds) 1 t))
            else if \<not> forked then None
            else map_option (\<lambda>(p0, p1, t). fold close_fd fds (close_fd p1 (dup_to p1 1 (close_fd p0 t))))
              (open_pipe (TeeTo outs) (TeeOut outs) t))"

subsection \<open>Pipelines\<close>

text \<open>The pipes of a pipeline: pipe \<open>k\<close> is behind command \<open>k\<close>.\<close>

primrec make_pipes :: "nat list \<Rightarrow> fdtab \<Rightarrow> ((nat \<times> nat) list \<times> fdtab) option" where
  "make_pipes [] t = Some ([], t)"
| "make_pipes (k # ks) t =
     (case open_pipe (PipeR k) (PipeW k) t of
        None \<Rightarrow> None
      | Some (p0, p1, t) \<Rightarrow> map_option (\<lambda>(ps, t). ((p0, p1) # ps, t)) (make_pipes ks t))"

definition close_pipes :: "(nat \<times> nat) list \<Rightarrow> fdtab \<Rightarrow> fdtab" where
  "close_pipes ps t = fold (\<lambda>(p0, p1) t. close_fd p1 (close_fd p0 t)) ps t"

text \<open>The child for command \<open>k\<close> of \<open>num\<close>.\<close>

definition pipe_child :: "nat \<Rightarrow> nat \<Rightarrow> (nat \<times> nat) list \<Rightarrow> fdtab \<Rightarrow> fdtab" where
  "pipe_child k num pipes t =
     (let t = (if 0 < k then dup_to (fst (pipes ! (k - 1))) 0 t else t);
          t = (if k < num - 1 then dup_to (snd (pipes ! k)) 1 t else t)
      in close_pipes pipes t)"

text \<open>
  What child \<open>k\<close> is when it starts its program: its descriptors and arguments, or its exit status if a redirection is wrong.
\<close>

definition stage :: "bool \<Rightarrow> (string \<Rightarrow> bool) \<Rightarrow> (string \<Rightarrow> bool) \<Rightarrow> nat \<Rightarrow> nat \<Rightarrow> (nat \<times> nat) list \<Rightarrow> string list \<Rightarrow> fdtab \<Rightarrow> int + (fdtab \<times> string list)" where
  "stage forked readable writable k num pipes args t =
     (let t = pipe_child k num pipes t in
      case ext_in args of
        None \<Rightarrow> Inl 0
      | Some (args, ins) \<Rightarrow>
          (case redir_in forked readable ins t of
             None \<Rightarrow> Inl 1
           | Some t \<Rightarrow>
               (case ext_out args of
                  None \<Rightarrow> Inl 1
                | Some (args, outs) \<Rightarrow>
                    (case redir_out forked writable outs t of None \<Rightarrow> Inl 1 | Some t \<Rightarrow> Inr (t, args)))))"

subsection \<open>The program\<close>

definition builtin :: "string \<Rightarrow> bool" where
  "builtin cmd \<longleftrightarrow> cmd \<in> {''hop'', ''reveal'', ''peek'', ''locate''}"

text \<open>
  \<^verbatim>\<open>run_cmd\<close>: which program is started with which arguments. \<open>exec_path\<close> says whether \<^verbatim>\<open>execv\<close> succeeds on a path, \<open>exec_name\<close> where
  \<^verbatim>\<open>execvp\<close> finds a name, \<open>runnable\<close> whether a path is a regular file with execute permission.
\<close>

datatype started = Program string "string list" | NotFound string int | Nothing

definition run_cmd :: "(string \<Rightarrow> bool) \<Rightarrow> (string \<Rightarrow> string option) \<Rightarrow> (string \<Rightarrow> bool) \<Rightarrow> string \<Rightarrow> string list \<Rightarrow> started" where
  "run_cmd exec_path exec_name runnable cmd args =
     (if cmd = [] then Nothing
      else if CHR ''/'' \<in> set cmd then (if exec_path cmd then Program cmd args else NotFound cmd 1)
      else if hd cmd = CHR ''%''
      then (case exec_name (tl cmd) of Some p \<Rightarrow> Program p (tl cmd # tl args) | None \<Rightarrow> NotFound (tl cmd) 1)
      else let here = take 4095 (''./'' @ cmd) in
           if runnable here \<and> exec_path here then Program here args
           else (case exec_name cmd of Some p \<Rightarrow> Program p args | None \<Rightarrow> NotFound cmd 8))"

subsection \<open>Lowest free descriptors\<close>

lemma open_fd_Some:
  assumes "open_fd f t = Some (n, t')"
  shows "t n = None \<and> t' = t(n := Some f)"
  using assms by (auto simp: open_fd_def find_Some_iff)

lemma open_fd_cong: "open_fd f t = None \<longleftrightarrow> open_fd g t = None"
  by (simp add: open_fd_def)

lemma open_pipe_Some:
  assumes "open_pipe r w t = Some (p0, p1, t')"
  shows "t p0 = None \<and> t p1 = None \<and> p0 \<noteq> p1 \<and> t' = t(p0 := Some r, p1 := Some w)"
  using assms by (auto simp: open_pipe_def split: option.splits prod.splits dest!: open_fd_Some split: if_splits)

text \<open>
  A redirection changes one standard stream and nothing else: no other descriptor is left open or closed.
\<close>

definition in_obj :: "bool \<Rightarrow> string list \<Rightarrow> fobj" where
  "in_obj forked ins = (if length ins = 1 then InFile (hd ins) else CatOf (if forked then ins else []))"

definition out_obj :: "(string \<times> bool) list \<Rightarrow> fobj" where
  "out_obj outs = (if length outs = 1 then OutFile (fst (hd outs)) (snd (hd outs)) else TeeOut outs)"

lemma redir_in_result:
  assumes "redir_in forked readable ins t = Some t'" "t 0 \<noteq> None"
  shows "t' = (if ins = [] then t else t(0 := Some (in_obj forked ins))) \<and> (\<forall>f \<in> set ins. readable f)"
proof -
  have ok: "\<forall>f \<in> set ins. readable f" using assms(1) by (auto simp: redir_in_def list_all_iff split: if_splits)
  consider "ins = []" | "length ins = 1" | "ins \<noteq> []" "length ins \<noteq> 1" by blast
  then have "t' = (if ins = [] then t else t(0 := Some (in_obj forked ins)))"
  proof cases
    case 2
    then obtain fd t1 where o: "open_fd (InFile (hd ins)) t = Some (fd, t1)" and t': "t' = close_fd fd (dup_to fd 0 t1)"
      using assms(1) by (auto simp: redir_in_def split: if_splits)
    note f = open_fd_Some [OF o]
    then have "fd \<noteq> 0" using assms(2) by metis
    then show ?thesis using 2 f t' by (auto simp: in_obj_def close_fd_def dup_to_def fun_eq_iff)
  next
    case 3
    then obtain p0 p1 t1 where o: "open_pipe (CatOf (if forked then ins else [])) (CatIn ins) t = Some (p0, p1, t1)" and t': "t' = close_fd p0 (dup_to p0 0 (close_fd p1 t1))"
      using assms(1) by (auto simp: redir_in_def split: if_splits)
    note f = open_pipe_Some [OF o]
    then have "p0 \<noteq> 0" "p1 \<noteq> 0" using assms(2) by metis+
    then show ?thesis using 3 f t' by (auto simp: in_obj_def close_fd_def dup_to_def fun_eq_iff)
  qed (use assms in \<open>auto simp: redir_in_def\<close>)
  then show ?thesis using ok by blast
qed

lemma open_outs_Some:
  "open_outs writable outs t = Some (fds, t') \<Longrightarrow>
   length fds = length outs \<and> distinct fds \<and> (\<forall>n \<in> set fds. t n = None) \<and> (\<forall>n. n \<notin> set fds \<longrightarrow> t' n = t n) \<and>
   (\<forall>i < length outs. t' (fds ! i) = Some (OutFile (fst (outs ! i)) (snd (outs ! i)))) \<and> (\<forall>f \<in> set outs. writable (fst f))"
proof (induction outs arbitrary: t fds)
  case (Cons f outs)
  obtain fd t1 fds1 where o: "open_fd (OutFile (fst f) (snd f)) t = Some (fd, t1)" "open_outs writable outs t1 = Some (fds1, t')" "fds = fd # fds1" "writable (fst f)"
    using Cons.prems by (auto split: if_splits option.splits)
  note a = open_fd_Some [OF o(1)]
  note b = Cons.IH [OF o(2)]
  have "fd \<notin> set fds1" using a b by auto
  moreover from this have "\<forall>n \<in> set fds1. t n = None" using a b by (metis fun_upd_other)
  ultimately show ?case using a b o(3,4) by (auto simp: nth_Cons split: nat.split)
qed simp

lemma close_fds: "fold close_fd fds t = (\<lambda>n. if n \<in> set fds then None else t n)"
  by (induction fds arbitrary: t) (auto simp: close_fd_def fun_eq_iff)

lemma redir_out_result:
  assumes "redir_out forked writable outs t = Some t'" "t 1 \<noteq> None"
  shows "t' = (if outs = [] then t else t(1 := Some (out_obj outs))) \<and> (\<forall>f \<in> set outs. writable (fst f))"
proof (cases "outs = []")
  case False
  obtain fds t1 where o: "open_outs writable outs t = Some (fds, t1)" using assms(1) False by (auto simp: redir_out_def split: option.splits)
  note f = open_outs_Some [OF o]
  have one: "1 \<notin> set fds" using f assms(2) by auto
  have "t' = t(1 := Some (out_obj outs))"
  proof (cases "length outs = 1")
    case True
    then obtain fd where fd: "fds = [fd]" using f by (metis length_0_conv length_Suc_conv One_nat_def)
    have "t' = close_fd fd (dup_to fd 1 t1)" using assms(1) False o True fd by (simp add: redir_out_def)
    moreover have "t1 fd = Some (OutFile (fst (hd outs)) (snd (hd outs)))" using f True fd False by (auto simp: hd_conv_nth)
    ultimately show ?thesis using f one fd True by (auto simp: close_fd_def dup_to_def out_obj_def fun_eq_iff)
  next
    case len: False
    then obtain p0 p1 t2 where p: "open_pipe (TeeTo outs) (TeeOut outs) t1 = Some (p0, p1, t2)"
      and t': "t' = fold close_fd fds (close_fd p1 (dup_to p1 1 (close_fd p0 t2)))"
      using assms(1) False o by (auto simp: redir_out_def split: option.splits if_splits)
    note g = open_pipe_Some [OF p]
    have "p0 \<noteq> 1" "p1 \<noteq> 1" "p0 \<notin> set fds" "p1 \<notin> set fds" using g f one assms(2) by (metis in_set_conv_nth option.distinct(1))+
    then show ?thesis using g f one len t' by (auto simp: close_fds close_fd_def dup_to_def out_obj_def fun_eq_iff)
  qed
  then show ?thesis using False f by simp
qed (use assms in \<open>auto simp: redir_out_def\<close>)

subsection \<open>The wiring of a pipeline\<close>

definition pipe_ends :: "(nat \<times> nat) list \<Rightarrow> nat set" where
  "pipe_ends ps = fst ` set ps \<union> snd ` set ps"

lemma pipe_ends_simps [simp]: "pipe_ends [] = {}" "pipe_ends ((p0, p1) # ps) = insert p0 (insert p1 (pipe_ends ps))"
  by (auto simp: pipe_ends_def)

lemma pipe_ends_nth: "i < length ps \<Longrightarrow> fst (ps ! i) \<in> pipe_ends ps \<and> snd (ps ! i) \<in> pipe_ends ps"
  by (simp add: pipe_ends_def)

lemma make_pipes_Some:
  "make_pipes ks t = Some (ps, t') \<Longrightarrow>
   length ps = length ks \<and> (\<forall>n \<in> pipe_ends ps. t n = None) \<and> (\<forall>n. n \<notin> pipe_ends ps \<longrightarrow> t' n = t n) \<and>
   (\<forall>i < length ks. t' (fst (ps ! i)) = Some (PipeR (ks ! i)) \<and> t' (snd (ps ! i)) = Some (PipeW (ks ! i)))"
proof (induction ks arbitrary: t ps)
  case (Cons k ks)
  obtain p0 p1 t1 ps1 where o: "open_pipe (PipeR k) (PipeW k) t = Some (p0, p1, t1)" "make_pipes ks t1 = Some (ps1, t')" "ps = (p0, p1) # ps1"
    using Cons.prems by (auto split: option.splits)
  note a = open_pipe_Some [OF o(1)]
  note b = Cons.IH [OF o(2)]
  have n: "p0 \<notin> pipe_ends ps1" "p1 \<notin> pipe_ends ps1" using a b by auto
  have z: "t n = None" if "n \<in> pipe_ends ps1" for n
  proof -
    have "n \<noteq> p0" "n \<noteq> p1" using that n by metis+
    moreover have "t1 n = None" using that b by blast
    ultimately show ?thesis using a by simp
  qed
  have "t' p0 = Some (PipeR k)" "t' p1 = Some (PipeW k)" using a b n by auto
  then show ?case using a b o(3) z by (auto simp: nth_Cons split: nat.split)
qed simp

lemma close_pipes_eq: "close_pipes ps t = (\<lambda>n. if n \<in> pipe_ends ps then None else t n)"
proof (induction ps arbitrary: t)
  case (Cons p ps)
  obtain p0 p1 where p: "p = (p0, p1)" by fastforce
  have "close_pipes (p # ps) t = close_pipes ps (close_fd p1 (close_fd p0 t))" by (simp add: close_pipes_def p)
  then show ?case using Cons.IH by (auto simp: close_fd_def fun_eq_iff p)
qed (simp add: close_pipes_def)

text \<open>Descriptors that a stage should have: its neighbours' pipes, the files of its redirections, and otherwise those of the shell.\<close>

definition stage_fds :: "bool \<Rightarrow> nat \<Rightarrow> nat \<Rightarrow> string list \<Rightarrow> (string \<times> bool) list \<Rightarrow> fdtab \<Rightarrow> fdtab" where
  "stage_fds forked k num ins outs t =
     t(0 := (if ins \<noteq> [] then Some (in_obj forked ins) else if 0 < k then Some (PipeR (k - 1)) else t 0),
       1 := (if outs \<noteq> [] then Some (out_obj outs) else if k < num - 1 then Some (PipeW k) else t 1))"

lemma pipe_child_fds:
  assumes m: "make_pipes [0..<num - 1] t = Some (ps, t')" and k: "k < num" and t: "t 0 \<noteq> None" "t 1 \<noteq> None"
  shows "pipe_child k num ps t' = stage_fds forked k num [] [] t"
proof -
  note p = make_pipes_Some [OF m]
  have S: "0 \<notin> pipe_ends ps" "1 \<notin> pipe_ends ps" using p t by metis+
  have r: "t' (fst (ps ! (k - 1))) = Some (PipeR (k - 1))" if "0 < k" using p k that by auto
  have w: "t' (snd (ps ! k)) = Some (PipeW k) \<and> snd (ps ! k) \<noteq> 0" if "k < num - 1"
  proof -
    have "k < length ps" using p that by simp
    then have "snd (ps ! k) \<noteq> 0" using pipe_ends_nth S(1) by metis
    then show ?thesis using p that by simp
  qed
  show ?thesis
  proof
    fix n
    have "n \<noteq> 0 \<and> n \<noteq> 1" if "n \<in> pipe_ends ps" using that S by metis
    then show "pipe_child k num ps t' n = stage_fds forked k num [] [] t n"
      using p r w S by (cases "n \<in> pipe_ends ps") (auto simp: pipe_child_def Let_def close_pipes_eq dup_to_def stage_fds_def)
  qed
qed

text \<open>
  C38. In a pipeline of the C shell the program of command \<open>k\<close> starts with the pipe from its left neighbour as standard input and the pipe to
  its right neighbour as standard output, unless its redirections say otherwise, with all other descriptors as in
  the shell: no further end of a pipe and no further file is open, so that every reader sees the end of its input. Several input files arrive as one stream if
  \<^verbatim>\<open>fork\<close> succeeds. The redirections name files that can be opened, and the shell itself is left with the descriptors it had.
\<close>

theorem pipeline_wiring:
  assumes "make_pipes [0..<num - 1] t = Some (ps, t')" and "k < num" and "t 0 \<noteq> None" and "t 1 \<noteq> None"
    and "stage forked readable writable k num ps args t' = Inr (u, args')"
  shows "(\<exists>ins outs as. ext_in args = Some (as, ins) \<and> ext_out as = Some (args', outs) \<and> u = stage_fds forked k num ins outs t \<and>
      (\<forall>f \<in> set ins. readable f) \<and> (\<forall>f \<in> set outs. writable (fst f))) \<and> close_pipes ps t' = t"
proof
  note c = pipe_child_fds [OF assms(1-4)]
  obtain as ins outs t1 where a: "ext_in args = Some (as, ins)" "ext_out as = Some (args', outs)"
    and r: "redir_in forked readable ins (stage_fds forked k num [] [] t) = Some t1" "redir_out forked writable outs t1 = Some u"
    using assms(5) c by (auto simp: stage_def Let_def split: option.splits prod.splits)
  have "stage_fds forked k num [] [] t 0 \<noteq> None" using assms(3) by (simp add: stage_fds_def)
  note i = redir_in_result [OF r(1) this]
  then have "t1 1 \<noteq> None" using assms(4) by (auto simp: stage_fds_def)
  note o = redir_out_result [OF r(2) this]
  have "u = stage_fds forked k num ins outs t" using i o by (auto simp: stage_fds_def fun_eq_iff)
  then show "\<exists>ins outs as. ext_in args = Some (as, ins) \<and> ext_out as = Some (args', outs) \<and> u = stage_fds forked k num ins outs t \<and>
      (\<forall>f \<in> set ins. readable f) \<and> (\<forall>f \<in> set outs. writable (fst f))" using a i o by blast
  show "close_pipes ps t' = t" using make_pipes_Some [OF assms(1)] by (auto simp: close_pipes_eq fun_eq_iff)
qed

definition std_fds :: fdtab where
  "std_fds n = (if n < 3 then Some (Given n) else None)"

theorem pipeline_wiring_witness:
  "\<exists>ps t' u. make_pipes [0..<2] std_fds = Some (ps, t') \<and> stage True (\<lambda>_. True) (\<lambda>_. True) 1 3 ps [''sort''] t' = Inr (u, [''sort'']) \<and>
     u 0 = Some (PipeR 0) \<and> u 1 = Some (PipeW 1) \<and> u 3 = None \<and> u 4 = None \<and> u 5 = None \<and> u 6 = None"
proof -
  have "[0..<7 + 1017] = [0..<7] @ [7..<7 + 1017 :: nat]" by (rule upt_add_eq_append) simp
  moreover have "7 + 1017 = OPEN_MAX" by (simp add: OPEN_MAX_def)
  ultimately have "[0..<OPEN_MAX] = [0..<7] @ [7..<OPEN_MAX]" by (simp only:)
  moreover have "[0..<7] = [0, 1, 2, 3, 4, 5, 6 :: nat]" by (simp add: upt_rec)
  ultimately have r: "[0..<OPEN_MAX] = [0, 1, 2, 3, 4, 5, 6] @ [7..<OPEN_MAX]" by (simp only:)
  let ?t = "std_fds(3 := Some (PipeR 0), 4 := Some (PipeW 0), 5 := Some (PipeR 1), 6 := Some (PipeW 1))"
  have m: "make_pipes [0..<2] std_fds = Some ([(3, 4), (5, 6)], ?t)"
  proof -
    have "[0..<2] = [0, 1 :: nat]" by (simp add: upt_rec)
    then show ?thesis by (simp add: open_pipe_def open_fd_def r std_fds_def)
  qed
  have s: "stage True (\<lambda>_. True) (\<lambda>_. True) 1 3 [(3, 4), (5, 6)] [''sort''] ?t = Inr (pipe_child 1 3 [(3, 4), (5, 6)] ?t, [''sort''])"
    by (simp add: stage_def redir_in_def redir_out_def)
  show ?thesis using pipeline_wiring [of 3 std_fds "[(3, 4), (5, 6)]" ?t 1, OF _ _ _ _ s] m s
    by (auto simp: std_fds_def stage_fds_def)
qed

end
