(* ===== verification/Dispatch.thy ===== *)
theory Dispatch
  imports Redirect Frecency Jobs Reveal
begin

text \<open>
  The main loop of the C shell (\<^verbatim>\<open>c-shell/src/main.c\<close>): \<^verbatim>\<open>str_replace\<close>, \<^verbatim>\<open>getpwd\<close>, \<^verbatim>\<open>process_cmd\<close> and \<^verbatim>\<open>main\<close>. A line is taken apart by
  the lexer and the parser of theory \<open>Shell\<close>; its commands run one after the other, in the shell itself or in
  children. What \<^verbatim>\<open>hop\<close> and the commands on jobs do in the shell is what theories \<open>Frecency\<close> and \<open>Jobs\<close> say; the other intrinsics only print, and
  the log records that they ran (\<open>Prints\<close>). What a child does happens in its own copy of the shell and is only recorded. Inputs are the
  process numbers that \<^verbatim>\<open>fork\<close> returns (negative if it fails), the results of \<^verbatim>\<open>waitpid\<close>, the lines that are read, and which files can be opened. While the shell is blocked
  in \<^verbatim>\<open>waitpid\<close> or \<^verbatim>\<open>fgets\<close> the handler of SIGCHLD runs, with the statuses that come with the input. The terminal and
  signal dispositions are left out. A store behind the end of the array of tokens, of an array of the parser or of the buffer of a token is the result \<open>BufferOverflow\<close>, a
  loop without end the result \<open>Endless\<close>.
\<close>

datatype halt = BufferOverflow | Endless

definition hbind :: "halt + 'a \<Rightarrow> ('a \<Rightarrow> halt + 'b) \<Rightarrow> halt + 'b" where
  "hbind r f = (case r of Inl e \<Rightarrow> Inl e | Inr a \<Rightarrow> f a)"

lemma hbind_simps [simp]: "hbind (Inl e) f = Inl e" "hbind (Inr a) f = f a"
  by (simp_all add: hbind_def)

subsection \<open>The buffers of the tokens\<close>

text \<open>
  The lexer allocates for every token as many bytes as the rest of the line has, and one more. These are their sizes, in the order of
  the array of tokens, up to and including the token in which the lexer fails.
\<close>

function token_bufs :: "string \<Rightarrow> nat list" where
  "token_bufs cmd =
     (case dropWhile is_blank cmd of
        [] \<Rightarrow> []
      | c # cs \<Rightarrow>
          Suc (length (c # cs)) #
          (if c = CHR ''>'' \<and> cs \<noteq> [] \<and> hd cs = CHR ''>'' then token_bufs (tl cs)
           else if is_op c then token_bufs cs
           else (case lex_word (c # cs) [] of None \<Rightarrow> [] | Some (v, r) \<Rightarrow> token_bufs (tl r))))"
  by pat_completeness auto
termination
proof (relation "measure length", goal_cases)
  case (2 cmd c cs)
  then show ?case using length_dropWhile_le [of is_blank cmd] by (simp add: le_diff_conv)
next
  case (3 cmd c cs)
  then show ?case using length_dropWhile_le [of is_blank cmd] by simp
next
  case (4 cmd c cs a v r)
  then show ?case using length_dropWhile_le [of is_blank cmd] lex_word_shorter [of "c # cs" "[]" v r] by simp
qed simp

declare token_bufs.simps [simp del]

definition TOKENS_MAX :: nat where
  "TOKENS_MAX = 100"

text \<open>A command with the sizes of the buffers of its arguments; the parser keeps the pointers of the tokens, and a separator is a token too.\<close>

record bnode = node +
  nbufs :: "nat list"

primrec deal :: "node list \<Rightarrow> nat list \<Rightarrow> bnode list" where
  "deal [] bs = []"
| "deal (c # cs) bs =
     node.extend c (bnode.fields (take (length (nargs c)) bs)) # deal cs (drop (Suc (length (nargs c))) bs)"

subsection \<open>Replacing a prefix\<close>

text \<open>
  \<^verbatim>\<open>str_replace\<close> goes on as long as the string begins with \<^verbatim>\<open>sstr\<close>, in a buffer of \<open>cap\<close> bytes; \<open>None\<close> if that never ends.
\<close>

partial_function (option) str_replace :: "nat \<Rightarrow> string \<Rightarrow> string \<Rightarrow> string \<Rightarrow> (halt + string) option" where
  "str_replace cap old sstr new =
     (if take (length sstr) old = sstr
      then (if cap \<le> length (new @ drop (length sstr) old) then Some (Inl BufferOverflow)
            else str_replace cap (new @ drop (length sstr) old) sstr new)
      else Some (Inr old))"

declare str_replace.simps [code]

definition replaced :: "nat \<Rightarrow> string \<Rightarrow> string \<Rightarrow> string \<Rightarrow> halt + string" where
  "replaced cap old sstr new = (case str_replace cap old sstr new of None \<Rightarrow> Inl Endless | Some r \<Rightarrow> r)"

definition getpwd :: "string \<Rightarrow> string \<Rightarrow> halt + string" where
  "getpwd home cwd = replaced PATH_MAX cwd home ''~''"

definition expand :: "string \<Rightarrow> nat \<Rightarrow> string \<Rightarrow> halt + string" where
  "expand home cap a = (if a \<noteq> [] \<and> hd a = CHR ''~'' then replaced cap a ''~'' home else Inr a)"

text \<open>The arguments of a command, with the sizes of their buffers.\<close>

primrec expand_args :: "string \<Rightarrow> nat list \<Rightarrow> string list \<Rightarrow> halt + string list" where
  "expand_args home bs [] = Inr []"
| "expand_args home bs (a # as) =
     hbind (expand home (case bs of [] \<Rightarrow> 0 | b # _ \<Rightarrow> b) a) (\<lambda>a'. hbind (expand_args home (tl bs) as) (\<lambda>as'. Inr (a' # as')))"

subsection \<open>State\<close>

datatype cstatus = CExited int | CStopped | CSignaled int

datatype sh_event =
    Prompt string
  | Says string
  | Prints string "string list"
  | Child int string "string list" "string list" "(string \<times> bool) list"
  | Stages "(int \<times> string list) list"

record sh =
  s_hop :: hop_state
  s_jobs :: job_state
  s_pids :: "int list"
  s_stats :: "((int \<times> wstatus) list \<times> cstatus) list"
  s_resumes :: "((int \<times> wstatus) list \<times> bool option list) list"
  s_log :: "sh_event list"

record sh_host =
  e_hop :: hop_host
  e_home :: string
  e_readable :: "string \<Rightarrow> bool"
  e_writable :: "string \<Rightarrow> bool"
  e_pipes :: "nat \<Rightarrow> bool"
  e_exec :: "string \<Rightarrow> bool"
  e_path :: "string option"

definition emit :: "sh_event \<Rightarrow> sh \<Rightarrow> sh" where
  "emit e s = s\<lparr>s_log := s_log s @ [e]\<rparr>"

definition on_jobs :: "(job_state \<Rightarrow> job_state) \<Rightarrow> sh \<Rightarrow> sh" where
  "on_jobs f s = s\<lparr>s_jobs := f (s_jobs s)\<rparr>"

definition sh_fork :: "sh \<Rightarrow> int \<times> sh" where
  "sh_fork s = (case s_pids s of [] \<Rightarrow> (- 1, s) | p # ps \<Rightarrow> (p, s\<lparr>s_pids := ps\<rparr>))"

text \<open>\<^verbatim>\<open>waitpid\<close>, with the statuses that the handler of SIGCHLD collects meanwhile.\<close>

definition sh_wait :: "sh \<Rightarrow> cstatus \<times> sh" where
  "sh_wait s = (case s_stats s of [] \<Rightarrow> (CExited 0, s) | (ws, w) # r \<Rightarrow> (w, on_jobs (plant ws) (s\<lparr>s_stats := r\<rparr>)))"

text \<open>A command without its redirections.\<close>

record ctx =
  x_cmd :: string
  x_args :: "string list"
  x_bufs :: "nat list"
  x_bg :: bool
  x_ins :: "string list"
  x_outs :: "(string \<times> bool) list"

definition need_redir :: "ctx \<Rightarrow> bool" where
  "need_redir x \<longleftrightarrow> x_ins x \<noteq> [] \<or> x_outs x \<noteq> []"

text \<open>In the background: a child with the command, entered as a job; if \<^verbatim>\<open>fork\<close> fails, the command goes on in the foreground.\<close>

definition try_bg :: "ctx \<Rightarrow> sh \<Rightarrow> bool \<times> sh" where
  "try_bg x s =
     (if x_bg x
      then (case sh_fork s of (pid, s) \<Rightarrow>
        if pid < 0 then (False, emit (Says ''cshell: failed to create child process'') s)
        else (True, on_jobs (assign_bg pid (x_cmd x) (x_args x)) (emit (Child pid (x_cmd x) (x_args x) (x_ins x) (x_outs x)) s)))
      else (False, s))"

text \<open>In a child that the shell waits for; a child that stops becomes a job.\<close>

definition in_child :: "ctx \<Rightarrow> sh \<Rightarrow> cstatus \<times> sh" where
  "in_child x s =
     (case sh_fork s of (pid, s) \<Rightarrow>
      (case sh_wait (emit (Child pid (x_cmd x) (x_args x) (x_ins x) (x_outs x)) s) of (st, s) \<Rightarrow>
       (st, if st = CStopped then on_jobs (assign_stopped pid (x_cmd x) (x_args x)) s else s)))"

definition here_or_child :: "ctx \<Rightarrow> (sh \<Rightarrow> sh) \<Rightarrow> sh \<Rightarrow> sh" where
  "here_or_child x body s = (if need_redir x then snd (in_child x s) else body s)"

definition intrinsic :: "ctx \<Rightarrow> (sh \<Rightarrow> sh) \<Rightarrow> sh \<Rightarrow> sh" where
  "intrinsic x body s = (case try_bg x s of (True, s) \<Rightarrow> s | (False, s) \<Rightarrow> here_or_child x body s)"

subsection \<open>The intrinsics\<close>

definition run_hop :: "sh_host \<Rightarrow> ctx \<Rightarrow> sh \<Rightarrow> sh" where
  "run_hop h x s = intrinsic x (\<lambda>s. s\<lparr>s_hop := hop (e_hop h) (e_home h) (x_args x) (s_hop s)\<rparr>) s"

text \<open>
  The first argument from \<open>j\<close> on that is not an option with letters: its index if it is \<^verbatim>\<open>-\<close>.
\<close>

definition skip_options :: "nat \<Rightarrow> string list \<Rightarrow> nat" where
  "skip_options j args = length args - length (dropWhile (\<lambda>a. is_option a \<and> a \<noteq> ''-'') (drop j args))"

definition dash_at :: "nat \<Rightarrow> string list \<Rightarrow> nat option" where
  "dash_at j args = (let k = skip_options j args in if k < length args \<and> args ! k = ''-'' then Some k else None)"

text \<open>
  Without a previous directory \<^verbatim>\<open>reveal -\<close> increments the index of the command and goes on with the arguments of
  the next one. \<open>dash_skip j cs\<close> is the number of messages after the first one; as many commands behind this one are passed over.
\<close>

primrec dash_skip :: "nat \<Rightarrow> bnode list \<Rightarrow> nat" where
  "dash_skip j [] = 0"
| "dash_skip j (c # cs) = (case dash_at j (nargs c) of None \<Rightarrow> 0 | Some k \<Rightarrow> Suc (dash_skip k cs))"

definition no_such_dir :: sh_event where
  "no_such_dir = Says ''reveal: no such directory''"

text \<open>
  The state after \<^verbatim>\<open>reveal\<close>, and how many of the following commands are passed over. The previous directory is copied over the \<^verbatim>\<open>-\<close> in its buffer.
\<close>

definition run_reveal :: "ctx \<Rightarrow> bnode list \<Rightarrow> sh \<Rightarrow> halt + nat \<times> sh" where
  "run_reveal x cs s =
     (case try_bg x s of
        (True, s) \<Rightarrow> Inr (0, s)
      | (False, s) \<Rightarrow>
          if length (x_args x) = 1
          then (let x = x\<lparr>x_args := x_args x @ [''.'']\<rparr> in Inr (0, here_or_child x (emit (Prints ''reveal'' (x_args x))) s))
          else (case dash_at 1 (x_args x) of
              Some k \<Rightarrow>
                if hprev (s_hop s) = []
                then (let n = dash_skip k cs in Inr (min (Suc n) (length cs), (emit no_such_dir ^^ Suc n) s))
                else if \<not> (k < length (x_bufs x) \<and> length (hprev (s_hop s)) < x_bufs x ! k) then Inl BufferOverflow
                else (let x = x\<lparr>x_args := (x_args x)[k := hprev (s_hop s)]\<rparr> in
                      if Suc (Suc k) < length (x_args x) then Inr (0, emit (Says ''reveal: invalid syntax'') s)
                      else Inr (0, here_or_child x (emit (Prints ''reveal'' (x_args x))) s))
            | None \<Rightarrow>
                if Suc (skip_options 1 (x_args x)) < length (x_args x) then Inr (0, emit (Says ''reveal: invalid syntax'') s)
                else Inr (0, here_or_child x (emit (Prints ''reveal'' (x_args x))) s)))"

text \<open>The arguments of \<^verbatim>\<open>peek\<close>: standard input if there is no file; \<open>None\<close> if an option follows a file.\<close>

definition peek_check :: "string list \<Rightarrow> string list option" where
  "peek_check args =
     (let args = (if length args < 2 then args @ [''-''] else args);
          j = skip_options 1 args;
          args' = (if j = length args then args @ [''-''] else args);
          j' = (if j = length args then Suc j else j)
      in if list_ex (\<lambda>a. is_option a \<and> a \<noteq> ''-'') (drop j' args') then None else Some args')"

text \<open>A wrong argument of \<^verbatim>\<open>peek\<close> ends the whole line.\<close>

definition run_peek :: "ctx \<Rightarrow> sh \<Rightarrow> bool \<times> sh" where
  "run_peek x s =
     (case try_bg x s of
        (True, s) \<Rightarrow> (True, s)
      | (False, s) \<Rightarrow>
          (case peek_check (x_args x) of
             None \<Rightarrow> (False, emit (Says ''peek: invalid syntax'') s)
           | Some args \<Rightarrow> (let x = x\<lparr>x_args := args\<rparr> in (True, here_or_child x (emit (Prints ''peek'' args)) s))))"

text \<open>\<^verbatim>\<open>locate\<close> collects its output in a buffer of ten thousand bytes.\<close>

definition LOCATE_MAX :: nat where
  "LOCATE_MAX = 10000"

definition run_locate :: "sh_host \<Rightarrow> ctx \<Rightarrow> sh \<Rightarrow> halt + sh" where
  "run_locate h x s =
     (case try_bg x s of
        (True, s) \<Rightarrow> Inr s
      | (False, s) \<Rightarrow>
          if length (x_args x) < 2 then Inr (emit (Says ''locate: invalid syntax'') s)
          else (let names = takeWhile (\<lambda>a. \<not> is_option a) (tl (x_args x)) in
                if need_redir x then Inr (snd (in_child x s))
                else if LOCATE_MAX \<le> length (snd (locate (e_exec h) (e_path h) (hcwd (s_hop s)) names [])) then Inl BufferOverflow
                else Inr (emit (Prints ''locate'' names) s)))"

definition run_activities :: "ctx \<Rightarrow> sh \<Rightarrow> sh" where
  "run_activities x s = intrinsic x (on_jobs activities) s"

text \<open>\<^verbatim>\<open>resume\<close> runs in the shell in any case, with its streams redirected for the time being.\<close>

definition run_resume :: "sh_host \<Rightarrow> ctx \<Rightarrow> sh \<Rightarrow> sh" where
  "run_resume h x s =
     (if list_all (e_readable h) (x_ins x) \<and> list_all (\<lambda>f. e_writable h (fst f)) (x_outs x)
      then (let (ps, ws) = (case s_resumes s of [] \<Rightarrow> ([], []) | w # _ \<Rightarrow> w)
            in on_jobs (Jobs.resume (x_args x) ws) (on_jobs (plant ps) (s\<lparr>s_resumes := tl (s_resumes s)\<rparr>)))
      else s)"

definition run_ping :: "ctx \<Rightarrow> sh \<Rightarrow> sh" where
  "run_ping x s = intrinsic x (on_jobs (ping (x_args x))) s"

definition run_spy :: "ctx \<Rightarrow> sh \<Rightarrow> sh" where
  "run_spy x s = intrinsic x (emit (Prints ''spy'' (x_args x))) s"

definition run_snoop :: "ctx \<Rightarrow> sh \<Rightarrow> sh" where
  "run_snoop x s =
     (if 3 \<le> length (x_args x) \<and> x_args x ! 1 = ''-p'' then emit (Prints ''snoop'' (x_args x)) s else snd (in_child x s))"

text \<open>Other commands always run in a child; the status 8 of a command that was not found ends the line.\<close>

definition run_external :: "ctx \<Rightarrow> sh \<Rightarrow> bool \<times> sh" where
  "run_external x s =
     (case try_bg x s of
        (True, s) \<Rightarrow> (True, s)
      | (False, s) \<Rightarrow> (case in_child x s of (st, s) \<Rightarrow> (st \<noteq> CExited 8, s)))"

subsection \<open>Pipelines\<close>

primrec fork_stages :: "string list list \<Rightarrow> sh \<Rightarrow> (int \<times> string list) list \<times> sh" where
  "fork_stages [] s = ([], s)"
| "fork_stages (a # as) s =
     (case sh_fork s of (pid, s) \<Rightarrow> (case fork_stages as s of (ps, s) \<Rightarrow> ((pid, a) # ps, s)))"

primrec wait_stages :: "nat \<Rightarrow> sh \<Rightarrow> bool \<times> sh" where
  "wait_stages 0 s = (False, s)"
| "wait_stages (Suc n) s = (case sh_wait s of (st, s) \<Rightarrow> (case wait_stages n s of (b, s) \<Rightarrow> (st = CStopped \<or> b, s)))"

text \<open>
  The arguments of a stage after \<^verbatim>\<open>ext_in\<close> and \<^verbatim>\<open>ext_out\<close>, which move what they keep to the front of the array. A call that fails
  has moved the arguments in front of the wrong redirection and leaves the number of arguments as it was.
\<close>

fun kept :: "('a \<Rightarrow> string) \<Rightarrow> (string \<Rightarrow> bool) \<Rightarrow> 'a list \<Rightarrow> 'a list" where
  "kept key op [] = []"
| "kept key op (a # as) =
     (if op (key a) then (case as of [] \<Rightarrow> [] | f # bs \<Rightarrow> if redir_op (key f) then [] else kept key op bs) else a # kept key op as)"

definition moved :: "(string \<Rightarrow> bool) \<Rightarrow> string list \<Rightarrow> string list" where
  "moved op args = (let k = kept (\<lambda>a. a) op args in k @ drop (length k) args)"

text \<open>The sizes of the buffers of the arguments that stay.\<close>

definition kept_bufs :: "string list \<Rightarrow> nat list \<Rightarrow> nat list" where
  "kept_bufs args bs = map snd (kept fst (\<lambda>a. a = ''>'' \<or> a = ''>>'') (kept fst (\<lambda>a. a = ''<'') (zip args bs)))"

definition bare_args :: "string list \<Rightarrow> string list" where
  "bare_args args =
     (let as = (case ext_in args of None \<Rightarrow> moved (\<lambda>a. a = ''<'') args | Some (as, _) \<Rightarrow> as)
      in case ext_out as of None \<Rightarrow> moved (\<lambda>a. a = ''>'' \<or> a = ''>>'') as | Some (bs, _) \<Rightarrow> bs)"

definition run_piped :: "sh_host \<Rightarrow> bool \<Rightarrow> string list list \<Rightarrow> sh \<Rightarrow> sh" where
  "run_piped h bg stages s =
     (if \<not> e_pipes h (length stages - 1) then emit (Says ''cshell: pipe not made'') s
      else case fork_stages stages s of (ps, s) \<Rightarrow>
        let s = emit (Stages ps) s; first = bare_args (hd stages);
            pids = map (\<lambda>(p, a). (p, hd a)) ps
        in if bg then on_jobs (assign_bg_multi pids (hd (hd stages)) first) s
           else (case wait_stages (length ps) s of (stopped, s) \<Rightarrow>
             if stopped then on_jobs (assign_stopped_multi pids (hd (hd stages)) first) s else s))"

subsection \<open>One line\<close>

text \<open>How a turn of the loop over the commands ends: with the next command but \<open>n\<close>, at the end of the loop, or with a return.\<close>

datatype flow = Next nat | Break | Return

definition run_one :: "sh_host \<Rightarrow> ctx \<Rightarrow> bnode list \<Rightarrow> sh \<Rightarrow> halt + flow \<times> sh" where
  "run_one h x cs s =
     (if x_cmd x = ''hop'' then Inr (Next 0, run_hop h x s)
      else if x_cmd x = ''reveal'' then hbind (run_reveal x cs s) (\<lambda>(n, s). Inr (Next n, s))
      else if x_cmd x = ''peek'' then (case run_peek x s of (ok, s) \<Rightarrow> Inr (if ok then Next 0 else Return, s))
      else if x_cmd x = ''locate'' then hbind (run_locate h x s) (\<lambda>s. Inr (Next 0, s))
      else if x_cmd x = ''activities'' then Inr (Next 0, run_activities x s)
      else if x_cmd x = ''resume'' then Inr (Next 0, run_resume h x s)
      else if x_cmd x = ''ping'' then Inr (Next 0, run_ping x s)
      else if x_cmd x = ''spy'' then Inr (Next 0, run_spy x s)
      else if x_cmd x = ''snoop'' then Inr (Next 0, run_snoop x s)
      else (case run_external x s of (ok, s) \<Rightarrow> Inr (if ok then Next 0 else Break, s)))"

definition bad_syntax :: sh_event where
  "bad_syntax = Says ''cshell: invalid syntax''"

text \<open>
  A command that is not part of a pipeline, with its arguments after the tilde has been replaced. The name of the command and its first argument are one
  string in the source, so the replacement reaches the name as well.
\<close>

definition run_single :: "sh_host \<Rightarrow> bnode \<Rightarrow> string list \<Rightarrow> bnode list \<Rightarrow> sh \<Rightarrow> halt + flow \<times> sh" where
  "run_single h c args cs s =
     (case ext_in args of
        None \<Rightarrow> Inr (Next 0, emit bad_syntax s)
      | Some (as, ins) \<Rightarrow>
          (case ext_out as of
             None \<Rightarrow> Inr (if background c \<noteq> 0 \<or> semi c \<noteq> 0 then Return else Next 0, emit bad_syntax s)
           | Some (bs, outs) \<Rightarrow>
               run_one h \<lparr>x_cmd = hd args, x_args = bs, x_bufs = kept_bufs args (nbufs c), x_bg = (background c \<noteq> 0), x_ins = ins, x_outs = outs\<rparr> cs s))"

primrec expand_stages :: "string \<Rightarrow> bnode list \<Rightarrow> halt + string list list" where
  "expand_stages home [] = Inr []"
| "expand_stages home (c # cs) =
     hbind (expand_args home (nbufs c) (nargs c)) (\<lambda>a. hbind (expand_stages home cs) (\<lambda>as. Inr (a # as)))"

text \<open>The commands of a line from \<open>c\<close> on; a pipeline reaches up to the first command that is not piped.\<close>

function run_coms :: "sh_host \<Rightarrow> bnode list \<Rightarrow> sh \<Rightarrow> halt + sh" where
  "run_coms h [] s = Inr (on_jobs no_longer_waiting s)"
| "run_coms h (c # cs) s =
     (if piped c \<noteq> 0
      then let n = length (takeWhile (\<lambda>d. piped d \<noteq> 0) cs) in
           (case expand_stages (e_home h) (c # take (Suc n) cs) of
              Inl e \<Rightarrow> Inl e
            | Inr stages \<Rightarrow> run_coms h (drop (Suc n) cs) (run_piped h (background (cs ! n) \<noteq> 0) stages s))
      else (case expand_args (e_home h) (nbufs c) (nargs c) of
          Inl e \<Rightarrow> Inl e
        | Inr args \<Rightarrow>
            (case run_single h c args cs s of
               Inl e \<Rightarrow> Inl e
             | Inr (Next k, s) \<Rightarrow> run_coms h (drop k cs) s
             | Inr (Break, s) \<Rightarrow> Inr (on_jobs no_longer_waiting s)
             | Inr (Return, s) \<Rightarrow> Inr s)))"
  by pat_completeness auto
termination
  by (relation "measure (\<lambda>(_, cs, _). length cs)") auto

definition process_cmd :: "sh_host \<Rightarrow> string \<Rightarrow> sh \<Rightarrow> halt + sh" where
  "process_cmd h cmd s =
     (if TOKENS_MAX < length (token_bufs cmd) then Inl BufferOverflow
      else case lexer cmd of
        None \<Rightarrow> Inr (emit bad_syntax s)
      | Some ts \<Rightarrow>
          (case parser ts of
             Inl Syntax \<Rightarrow> Inr (emit bad_syntax s)
           | Inl Overflow \<Rightarrow> Inl BufferOverflow
           | Inr coms \<Rightarrow> run_coms h (deal coms (token_bufs cmd)) s))"

subsection \<open>The main loop\<close>

text \<open>
  The results of \<^verbatim>\<open>fgets\<close>, \<open>None\<close> for end of file, each with the statuses that the handler of SIGCHLD collects while \<^verbatim>\<open>fgets\<close> waits. The loop
  returns the state at the exit of the shell, with the process groups that get SIGHUP, or
  the state that waits for more input.
\<close>

definition prompt :: "sh_host \<Rightarrow> sh \<Rightarrow> halt + sh" where
  "prompt h s =
     (let s = on_jobs no_longer_waiting s in hbind (getpwd (e_home h) (hcwd (s_hop s))) (\<lambda>p. Inr (emit (Prompt p) s)))"

fun cshell_main :: "sh_host \<Rightarrow> ((int \<times> wstatus) list \<times> string option) list \<Rightarrow> bool \<Rightarrow> sh \<Rightarrow> halt + int list option \<times> sh" where
  "cshell_main h [] ctrld s = hbind (prompt h s) (\<lambda>s. Inr (None, s))"
| "cshell_main h ((ws, None) # inp) ctrld s =
     (case prompt h s of
        Inl e \<Rightarrow> Inl e
      | Inr s \<Rightarrow>
          let s = on_jobs (plant ws) s in
          if ctrld1 (s_jobs s) \<and> \<not> ctrld then cshell_main h inp True (emit (Says ''cshell: there are stopped jobs'') s)
          else Inr (Some (ctrld2 (s_jobs s)), s))"
| "cshell_main h ((ws, Some line) # inp) ctrld s =
     (case prompt h s of
        Inl e \<Rightarrow> Inl e
      | Inr s \<Rightarrow>
          let s = on_jobs (plant ws) s; cmd = takeWhile (\<lambda>c. c \<noteq> nl) line in
          if cmd = [] then cshell_main h inp False s
          else (case process_cmd h cmd s of Inl e \<Rightarrow> Inl e | Inr s \<Rightarrow> cshell_main h inp False s))"

subsection \<open>The tilde\<close>

abbreviation tilde :: "string \<Rightarrow> string \<Rightarrow> string" where
  "tilde home a \<equiv> (if a \<noteq> [] \<and> hd a = CHR ''~'' then home @ tl a else a)"

text \<open>The buffers are large enough for what the tilde stands for.\<close>

definition args_fit :: "string \<Rightarrow> nat list \<Rightarrow> string list \<Rightarrow> bool" where
  "args_fit home bs as \<longleftrightarrow>
     (\<forall>i < length as. as ! i \<noteq> [] \<and> hd (as ! i) = CHR ''~'' \<longrightarrow> i < length bs \<and> length home + length (as ! i) \<le> bs ! i)"

lemma expand_tilde:
  assumes "home \<noteq> []" "hd home = CHR ''/''"
  shows "expand home cap a = (if a \<noteq> [] \<and> hd a = CHR ''~'' \<and> cap < length home + length a then Inl BufferOverflow else Inr (tilde home a))"
proof (cases "a \<noteq> [] \<and> hd a = CHR ''~''")
  case True
  then obtain b where a: "a = CHR ''~'' # b" by (cases a) auto
  have n: "str_replace cap (home @ b) ''~'' home = Some (Inr (home @ b))" using assms by (subst str_replace.simps) (cases home; simp)
  have "str_replace cap a ''~'' home = Some (if cap \<le> length (home @ b) then Inl BufferOverflow else Inr (home @ b))"
    using a n by (subst str_replace.simps) simp
  then show ?thesis using True a by (auto simp: expand_def replaced_def)
qed (auto simp: expand_def)

lemma expand_args_eq:
  assumes "home \<noteq> []" "hd home = CHR ''/''"
  shows "expand_args home bs as = (if args_fit home bs as then Inr (map (tilde home) as) else Inl BufferOverflow)"
proof (induction as arbitrary: bs)
  case (Cons a as)
  have "args_fit home bs (a # as) \<longleftrightarrow>
    (a \<noteq> [] \<and> hd a = CHR ''~'' \<longrightarrow> length home + length a \<le> (case bs of [] \<Rightarrow> 0 | b # _ \<Rightarrow> b)) \<and> args_fit home (tl bs) as"
    using assms(1) by (cases bs) (simp_all add: args_fit_def All_less_Suc2)
  then show ?case using Cons.IH [of "tl bs"] by (auto simp: expand_tilde [OF assms])
qed (simp add: args_fit_def)

lemma expand_stages_eq:
  assumes "home \<noteq> []" "hd home = CHR ''/''"
  shows "expand_stages home cs =
    (if \<forall>c \<in> set cs. args_fit home (nbufs c) (nargs c) then Inr (map (\<lambda>c. map (tilde home) (nargs c)) cs) else Inl BufferOverflow)"
  by (induction cs) (auto simp: expand_args_eq [OF assms])

lemma tilde_same: "home \<noteq> [] \<Longrightarrow> hd home = CHR ''/'' \<Longrightarrow> w \<noteq> [] \<Longrightarrow> hd w \<noteq> CHR ''/'' \<Longrightarrow> hd w \<noteq> CHR ''~'' \<Longrightarrow> tilde home a = w \<longleftrightarrow> a = w"
  by (cases home; cases w) auto

text \<open>The prompt shows a home directory that is a prefix of the directory, whether or not the prefix ends at a slash.\<close>

lemma getpwd_eq:
  assumes "home \<noteq> []" "hd home = CHR ''/''" "length cwd < PATH_MAX"
  shows "getpwd home cwd = Inr (if take (length home) cwd = home then CHR ''~'' # drop (length home) cwd else cwd)"
proof (cases "take (length home) cwd = home")
  case True
  let ?r = "CHR ''~'' # drop (length home) cwd"
  have n: "take (length home) ?r \<noteq> home" using assms by (cases home) auto
  have "length home \<le> length cwd" using True by (metis length_take min.cobounded1)
  moreover have "0 < length home" using assms(1) by simp
  ultimately have "length ?r < PATH_MAX" using assms(3) by (simp only: list.size length_drop)
  then have "str_replace PATH_MAX cwd home ''~'' = str_replace PATH_MAX ?r home ''~''" using True by (subst str_replace.simps) simp
  also have "\<dots> = Some (Inr ?r)" using n by (subst str_replace.simps) simp
  finally show ?thesis using True by (simp add: getpwd_def replaced_def)
next
  case False
  then have "str_replace PATH_MAX cwd home ''~'' = Some (Inr cwd)" by (subst str_replace.simps) simp
  then show ?thesis using False by (simp add: getpwd_def replaced_def)
qed

lemma sibling_shown_as_home: "getpwd ''/u/ann'' ''/u/anna'' = Inr ''~a''"
  by (simp add: getpwd_eq PATH_MAX_def)

text \<open>The buffer of a token holds the token: the lexer itself stays inside its buffers.\<close>

lemma lexer_in_buffers: "lexer cmd = Some ts \<Longrightarrow> list_all2 (\<lambda>t b. length (tvalue t) < b) ts (token_bufs cmd)"
proof (induction cmd arbitrary: ts rule: lexer.induct)
  case (1 cmd)
  show ?case
  proof (cases "dropWhile is_blank cmd")
    case Nil
    note e = "1.prems" [unfolded lexer_unfold [of cmd] Nil list.case]
    then show ?thesis by (simp add: token_bufs.simps [of cmd] Nil)
  next
    case (Cons c cs)
    note e = "1.prems" [unfolded lexer_unfold [of cmd] Cons list.case]
    consider (app) "c = CHR ''>'' \<and> cs \<noteq> [] \<and> hd cs = CHR ''>''"
      | (oper) "\<not> (c = CHR ''>'' \<and> cs \<noteq> [] \<and> hd cs = CHR ''>'')" "is_op c"
      | (wrd) "\<not> (c = CHR ''>'' \<and> cs \<noteq> [] \<and> hd cs = CHR ''>'')" "\<not> is_op c" by blast
    then show ?thesis
    proof cases
      case app
      then obtain us where us: "lexer (tl cs) = Some us" "ts = op_tok ''>>'' # us" using e by (auto simp: push_tok_def)
      then show ?thesis using "1.IH"(1) [OF Cons app us(1)] app by (cases cs) (simp_all add: token_bufs.simps [of cmd] Cons op_tok_def)
    next
      case oper
      then obtain us where us: "lexer cs = Some us" "ts = op_tok [c] # us" using e by (auto simp: push_tok_def)
      then show ?thesis using "1.IH"(2) [OF Cons oper us(1)] oper by (auto simp: token_bufs.simps [of cmd] Cons op_tok_def)
    next
      case wrd
      then obtain v r us where us: "lex_word (c # cs) [] = Some (v, r)" "lexer (tl r) = Some us" "ts = word_tok v # us"
        using e by (auto simp: push_tok_def split: option.splits)
      then show ?thesis using "1.IH"(3) [OF Cons wrd us(1) _ us(2)] lex_word_length [OF us(1)] wrd
        by (auto simp: token_bufs.simps [of cmd] Cons word_tok_def)
    qed
  qed
qed

subsection \<open>The job table\<close>

text \<open>
  What happens to the job table is a sequence of the steps of theory \<open>Jobs\<close> that enters at most \<open>n\<close> jobs.
\<close>

definition adv :: "nat \<Rightarrow> sh \<Rightarrow> sh \<Rightarrow> bool" where
  "adv n s t \<longleftrightarrow> (jobs (s_jobs s) + int n \<le> 2 ^ 31 \<longrightarrow>
     job_step\<^sup>*\<^sup>* (s_jobs s) (s_jobs t) \<and> jobs (s_jobs t) \<le> jobs (s_jobs s) + int n)"

named_theorems advs

lemma adv_same [advs]: "s_jobs t = s_jobs s \<Longrightarrow> adv n s t"
  by (simp add: adv_def)

lemma adv_trans: "adv m s t \<Longrightarrow> adv n t u \<Longrightarrow> adv (m + n) s u"
  by (force simp: adv_def intro: rtranclp_trans)

lemma adv_mono: "adv m s t \<Longrightarrow> m \<le> n \<Longrightarrow> adv n s t"
  by (force simp: adv_def)

lemma adv_step:
  assumes "jobs (s_jobs s) < 2 ^ 31 \<Longrightarrow> job_step (s_jobs s) (f (s_jobs s))" "jobs (f (s_jobs s)) \<le> jobs (s_jobs s) + 1"
  shows "adv (Suc 0) s (on_jobs f s)"
  using assms by (auto simp: adv_def on_jobs_def)

lemma adv_step0:
  assumes "job_step (s_jobs s) (f (s_jobs s))" "jobs (f (s_jobs s)) \<le> jobs (s_jobs s)"
  shows "adv n s (on_jobs f s)"
  using assms by (auto simp: adv_def on_jobs_def)

lemma jobs_assign [simp]:
  "jobs (assign_bg p c as s) = jobs s + 1" "jobs (assign_stopped p c as s) = jobs s + 1"
  "jobs (assign_bg_multi ps c as s) = jobs s + 1" "jobs (assign_stopped_multi ps c as s) = jobs s + 1"
  by (simp_all add: assign_bg_def assign_stopped_def assign_bg_multi_def assign_stopped_multi_def add_job_def)

lemma jobs_announce: "jobs (announce_bg p ok s) = jobs s"
  by (simp add: announce_bg_def Let_def split: option.split prod.split)

lemma jobs_report [simp]: "jobs (no_longer_waiting s) = jobs s"
proof -
  have "jobs (fold (\<lambda>(p, ok). announce_bg p ok) ws t) = jobs t" for ws t
    by (induction ws arbitrary: t) (auto simp: jobs_announce)
  then show ?thesis by (simp add: no_longer_waiting_def)
qed

lemma jobs_plant [simp]: "jobs (plant ws s) = jobs s"
proof -
  have "jobs (plant_one w t) = jobs t" for w t by (simp add: plant_one_def split: prod.split wstatus.split)
  then have "jobs (fold plant_one ws t) = jobs t" for t by (induction ws arbitrary: t) simp_all
  then show ?thesis by (simp add: plant_def)
qed

lemma jobs_commands [simp]: "jobs (activities s) = jobs s" "jobs (ping args s) = jobs s" "jobs (Jobs.resume args ws s) = jobs s"
  by (auto simp: activities_def ping_def Jobs.resume_def resume_fg_def say_def Let_def split: prod.split option.split)

lemma adv_enter [advs]:
  "adv (Suc 0) s (on_jobs (assign_bg p c as) s)" "adv (Suc 0) s (on_jobs (assign_stopped p c as) s)"
  "ps \<noteq> [] \<Longrightarrow> adv (Suc 0) s (on_jobs (assign_bg_multi ps c as) s)" "ps \<noteq> [] \<Longrightarrow> adv (Suc 0) s (on_jobs (assign_stopped_multi ps c as) s)"
  by (auto intro!: adv_step job_step.intros)

lemma adv_use [advs]:
  "adv n s (on_jobs no_longer_waiting s)" "adv n s (on_jobs activities s)" "adv n s (on_jobs (ping args) s)"
  "adv n s (on_jobs (Jobs.resume args ws) s)" "adv n s (on_jobs (plant ps) s)"
  by (auto intro!: adv_step0 job_step.intros)

text \<open>
  Except in a foreground \<^verbatim>\<open>hop\<close> the directories are untouched, and each fork takes one process number.
\<close>

definition keeps_dir :: "nat \<Rightarrow> sh \<Rightarrow> sh \<Rightarrow> bool" where
  "keeps_dir n s t \<longleftrightarrow> s_hop t = s_hop s \<and> (\<exists>k \<le> n. s_pids t = drop k (s_pids s))"

definition forks_ok :: "nat \<Rightarrow> sh \<Rightarrow> bool" where
  "forks_ok n s \<longleftrightarrow> n \<le> length (s_pids s) \<and> (\<forall>p \<in> set (s_pids s). 0 \<le> p)"

lemma keeps_dir_trans: "keeps_dir m s t \<Longrightarrow> keeps_dir n t u \<Longrightarrow> keeps_dir (m + n) s u"
  unfolding keeps_dir_def by (metis add_le_mono drop_drop add.commute)

lemma keeps_dir_mono: "keeps_dir m s t \<Longrightarrow> m \<le> n \<Longrightarrow> keeps_dir n s t"
  unfolding keeps_dir_def by (meson le_trans)

lemma keeps_dir_same: "s_hop t = s_hop s \<Longrightarrow> s_pids t = s_pids s \<Longrightarrow> keeps_dir n s t"
  unfolding keeps_dir_def by (metis drop0 zero_le)

lemma forks_ok_mono: "forks_ok n s \<Longrightarrow> m \<le> n \<Longrightarrow> forks_ok m s"
  by (simp add: forks_ok_def)

lemma forks_ok_keeps_dir: "forks_ok (m + n) s \<Longrightarrow> keeps_dir m s t \<Longrightarrow> forks_ok n t"
  unfolding keeps_dir_def forks_ok_def by (auto dest!: in_set_dropD)

lemma state_simps [simp]:
  "s_hop (emit e s) = s_hop s" "s_pids (emit e s) = s_pids s" "s_jobs (emit e s) = s_jobs s"
  "s_hop (on_jobs f s) = s_hop s" "s_pids (on_jobs f s) = s_pids s" "s_jobs (on_jobs f s) = f (s_jobs s)"
  by (simp_all add: emit_def on_jobs_def)

lemma sh_wait_frame:
  assumes "sh_wait s = (w, t)"
  shows "s_hop t = s_hop s" "s_pids t = s_pids s" "adv 0 s t"
proof -
  have "adv 0 s (on_jobs (plant ws) (s\<lparr>s_stats := r\<rparr>))" for ws r
    using adv_trans [OF adv_same [of "s\<lparr>s_stats := r\<rparr>" s 0] adv_use(5) [of 0]] by simp
  then show "s_hop t = s_hop s" "s_pids t = s_pids s" "adv 0 s t" using assms by (auto simp: sh_wait_def adv_same split: list.splits)
qed

lemma sh_fork_frame: "sh_fork s = (p, t) \<Longrightarrow> s_hop t = s_hop s \<and> s_jobs t = s_jobs s \<and> keeps_dir (Suc 0) s t"
  by (auto simp: sh_fork_def keeps_dir_def split: list.splits intro: exI [of _ 0] exI [of _ 1])

lemma sh_fork_ok: "sh_fork s = (p, t) \<Longrightarrow> forks_ok (Suc n) s \<Longrightarrow> 0 \<le> p"
  by (auto simp: sh_fork_def forks_ok_def split: list.splits)

lemma in_child_adv:
  assumes "in_child x s = (st, t)"
  shows "adv (Suc 0) s t" "keeps_dir (Suc 0) s t"
proof -
  obtain p u w v where f: "sh_fork s = (p, u)" "sh_wait (emit (Child p (x_cmd x) (x_args x) (x_ins x) (x_outs x)) u) = (w, v)"
    "t = (if w = CStopped then on_jobs (assign_stopped p (x_cmd x) (x_args x)) v else v)"
    using assms by (auto simp: in_child_def split: prod.splits)
  note a = sh_fork_frame [OF f(1)] and b = sh_wait_frame [OF f(2)]
  have "adv 0 s v" using adv_trans [OF adv_same b(3)] a by force
  moreover have "adv (Suc 0) v t" using f(3) by (simp add: adv_same adv_enter)
  ultimately show "adv (Suc 0) s t" using adv_trans by force
  have "keeps_dir 0 u t" using b(1,2) f(3) by (simp add: keeps_dir_same)
  then show "keeps_dir (Suc 0) s t" using a keeps_dir_trans by force
qed

lemma here_or_child_adv:
  assumes "adv (Suc 0) s (body s)"
  shows "adv (Suc 0) s (here_or_child x body s)"
  using assms in_child_adv(1) by (cases "in_child x s") (simp add: here_or_child_def)

lemma here_or_child_keeps_dir:
  assumes "need_redir x \<or> keeps_dir (Suc 0) s (body s)"
  shows "keeps_dir (Suc 0) s (here_or_child x body s)"
  using assms in_child_adv(2) by (cases "in_child x s") (auto simp: here_or_child_def)

text \<open>A command that did not go to the background has entered no job.\<close>

lemma try_bg_adv:
  assumes "try_bg x s = (b, t)"
  shows "if b then adv (Suc 0) s t else s_jobs t = s_jobs s" "s_hop t = s_hop s" "forks_ok (Suc 0) s \<Longrightarrow> if b then keeps_dir (Suc 0) s t else \<not> x_bg x \<and> t = s"
proof -
  have "x_bg x \<Longrightarrow> (if b then adv (Suc 0) s t else s_jobs t = s_jobs s) \<and> s_hop t = s_hop s \<and> (forks_ok (Suc 0) s \<longrightarrow> b \<and> keeps_dir (Suc 0) s t)"
  proof -
    assume bg: "x_bg x"
    obtain p u where f: "sh_fork s = (p, u)" by fastforce
    note a = sh_fork_frame [OF f]
    have "adv (Suc 0) s (on_jobs (assign_bg p (x_cmd x) (x_args x)) v)" if "s_jobs v = s_jobs s" for v
      using adv_trans [OF adv_same [OF that, of 0] adv_enter(1) [of v]] by simp
    moreover have "0 \<le> p" if "forks_ok (Suc 0) s" using sh_fork_ok [OF f] that by metis
    moreover have "keeps_dir (Suc 0) s v" if "s_hop v = s_hop u" "s_pids v = s_pids u" for v
      using keeps_dir_trans [of "Suc 0" s u 0 v] keeps_dir_same [of v u 0] a that by simp
    ultimately show ?thesis using assms bg f a by (auto simp: try_bg_def split: if_splits)
  qed
  then show "if b then adv (Suc 0) s t else s_jobs t = s_jobs s" "s_hop t = s_hop s" "forks_ok (Suc 0) s \<Longrightarrow> if b then keeps_dir (Suc 0) s t else \<not> x_bg x \<and> t = s"
    using assms by (cases "x_bg x"; auto simp: try_bg_def)+
qed

lemma try_then_adv:
  assumes "try_bg x s = (b, t)" "b \<Longrightarrow> u = t" "\<not> b \<Longrightarrow> adv (Suc 0) t u"
  shows "adv (Suc 0) s u"
  using try_bg_adv(1) [OF assms(1)] assms(2,3) adv_trans [OF adv_same [of t s 0]] by (cases b) auto

lemma try_then_keeps_dir:
  assumes "try_bg x s = (b, t)" "forks_ok (Suc 0) s" "b \<Longrightarrow> u = t" "\<not> b \<Longrightarrow> \<not> x_bg x \<Longrightarrow> t = s \<Longrightarrow> keeps_dir (Suc 0) s u"
  shows "keeps_dir (Suc 0) s u"
  using try_bg_adv(3) [OF assms(1,2)] assms(3,4) by (cases b) auto

lemma try_then:
  assumes "try_bg x s = (b, t)" "b \<Longrightarrow> u = t" "\<not> b \<Longrightarrow> adv (Suc 0) t u \<and> keeps_dir (Suc 0) t u"
  shows "adv (Suc 0) s u" "forks_ok (Suc 0) s \<Longrightarrow> keeps_dir (Suc 0) s u"
proof -
  show "adv (Suc 0) s u" using assms by (blast intro: try_then_adv)
  assume f: "forks_ok (Suc 0) s"
  show "keeps_dir (Suc 0) s u" by (rule try_then_keeps_dir [OF assms(1) f assms(2)]) (use assms(3) in auto)
qed

lemma intrinsic_adv:
  assumes "\<And>t. adv (Suc 0) t (body t)"
  shows "adv (Suc 0) s (intrinsic x body s)"
proof -
  obtain b t where "try_bg x s = (b, t)" by fastforce
  moreover from this have "intrinsic x body s = (if b then t else here_or_child x body t)" by (simp add: intrinsic_def split: bool.split)
  moreover have "adv (Suc 0) t (here_or_child x body t)" using assms by (rule here_or_child_adv)
  ultimately show ?thesis by (auto intro: try_then_adv)
qed

lemma intrinsic_keeps_dir:
  assumes "forks_ok (Suc 0) s" "x_bg x \<or> need_redir x \<or> keeps_dir (Suc 0) s (body s)"
  shows "keeps_dir (Suc 0) s (intrinsic x body s)"
proof -
  obtain b t where b: "try_bg x s = (b, t)" by fastforce
  from b have e: "intrinsic x body s = (if b then t else here_or_child x body t)" by (simp add: intrinsic_def split: bool.split)
  show ?thesis
  proof (rule try_then_keeps_dir [OF b assms(1)])
    assume "\<not> b" "\<not> x_bg x" "t = s"
    then show "keeps_dir (Suc 0) s (intrinsic x body s)" using assms(2) e here_or_child_keeps_dir [of x s body] by simp
  qed (simp add: e)
qed

lemma print_frame: "adv n s (emit e s)" "keeps_dir n s (emit e s)"
  by (simp_all add: adv_same keeps_dir_same)

lemma prints_frame: "adv n s ((emit e ^^ k) s)" "keeps_dir n s ((emit e ^^ k) s)"
proof -
  have "s_jobs ((emit e ^^ k) s) = s_jobs s \<and> s_hop ((emit e ^^ k) s) = s_hop s \<and> s_pids ((emit e ^^ k) s) = s_pids s" by (induction k) simp_all
  then show "adv n s ((emit e ^^ k) s)" "keeps_dir n s ((emit e ^^ k) s)" by (simp_all add: adv_same keeps_dir_same)
qed

lemma print_here: "adv (Suc 0) s (here_or_child x (emit e) s)" "keeps_dir (Suc 0) s (here_or_child x (emit e) s)"
  using here_or_child_adv [of s "emit e" x] here_or_child_keeps_dir [of x s "emit e"] print_frame by blast+

lemma dash_at_Some: "dash_at j args = Some k \<Longrightarrow> ''-'' \<in> set args"
  by (auto simp: dash_at_def Let_def split: if_splits) (metis nth_mem)

lemma run_reveal_cases:
  obtains "run_reveal x cs s = Inl BufferOverflow" "''-'' \<in> set (x_args x)" | r where "run_reveal x cs s = Inr r"
  using dash_at_Some [of 1 "x_args x"]
  by (cases "run_reveal x cs s") (fastforce simp: run_reveal_def Let_def split: if_splits option.splits prod.splits bool.splits)+

lemma run_reveal_frame:
  assumes "run_reveal x cs s = Inr (n, t)"
  shows "adv (Suc 0) s t" "forks_ok (Suc 0) s \<Longrightarrow> keeps_dir (Suc 0) s t" "s_hop t = s_hop s"
proof -
  obtain b u where b: "try_bg x s = (b, u)" by fastforce
  have r: "b \<Longrightarrow> t = u" "\<not> b \<Longrightarrow> adv (Suc 0) u t \<and> keeps_dir (Suc 0) u t"
    using assms b by (auto simp: run_reveal_def Let_def print_here print_frame prints_frame simp del: funpow.simps split: if_splits option.splits)
  show "adv (Suc 0) s t" "forks_ok (Suc 0) s \<Longrightarrow> keeps_dir (Suc 0) s t" using try_then [OF b r] by simp_all
  show "s_hop t = s_hop s" using try_bg_adv(2) [OF b] r by (cases b) (auto simp: keeps_dir_def)
qed

lemma run_peek_frame:
  assumes "run_peek x s = (ok, t)"
  shows "adv (Suc 0) s t" "forks_ok (Suc 0) s \<Longrightarrow> keeps_dir (Suc 0) s t" "s_hop t = s_hop s"
proof -
  obtain b u where b: "try_bg x s = (b, u)" by fastforce
  have "b \<Longrightarrow> t = u" "\<not> b \<Longrightarrow> adv (Suc 0) u t \<and> keeps_dir (Suc 0) u t"
    using assms b by (auto simp: run_peek_def Let_def print_here print_frame split: option.splits)
  note r = this
  show "adv (Suc 0) s t" "forks_ok (Suc 0) s \<Longrightarrow> keeps_dir (Suc 0) s t"
    using try_then [OF b r] by simp_all
  show "s_hop t = s_hop s" using try_bg_adv(2) [OF b] r by (cases b) (auto simp: keeps_dir_def)
qed

lemma run_locate_frame:
  assumes "run_locate h x s = Inr t"
  shows "adv (Suc 0) s t" "forks_ok (Suc 0) s \<Longrightarrow> keeps_dir (Suc 0) s t" "s_hop t = s_hop s"
proof -
  obtain b u where b: "try_bg x s = (b, u)" by fastforce
  have "adv (Suc 0) u (snd (in_child x u)) \<and> keeps_dir (Suc 0) u (snd (in_child x u))"
    using in_child_adv [of x u "fst (in_child x u)"] by simp
  then have r: "b \<Longrightarrow> t = u" "\<not> b \<Longrightarrow> adv (Suc 0) u t \<and> keeps_dir (Suc 0) u t"
    using assms b by (auto simp: run_locate_def Let_def print_frame split: if_splits)
  show "adv (Suc 0) s t" "forks_ok (Suc 0) s \<Longrightarrow> keeps_dir (Suc 0) s t" using try_then [OF b r] by simp_all
  show "s_hop t = s_hop s" using try_bg_adv(2) [OF b] r by (cases b) (auto simp: keeps_dir_def)
qed

lemma run_locate_halt: "run_locate h x s = Inl e \<Longrightarrow> e = BufferOverflow"
  by (auto simp: run_locate_def Let_def split: if_splits prod.splits bool.splits)

lemma run_external_frame:
  assumes "run_external x s = (ok, t)"
  shows "adv (Suc 0) s t" "forks_ok (Suc 0) s \<Longrightarrow> keeps_dir (Suc 0) s t" "s_hop t = s_hop s"
proof -
  obtain b u where b: "try_bg x s = (b, u)" by fastforce
  obtain st v where c: "in_child x u = (st, v)" by fastforce
  have "b \<Longrightarrow> t = u" "\<not> b \<Longrightarrow> t = v" using assms b c by (auto simp: run_external_def)
  then have "b \<Longrightarrow> t = u" "\<not> b \<Longrightarrow> adv (Suc 0) u t \<and> keeps_dir (Suc 0) u t" using in_child_adv [OF c] by blast+
  note r = this
  show "adv (Suc 0) s t" "forks_ok (Suc 0) s \<Longrightarrow> keeps_dir (Suc 0) s t"
    using try_then [OF b r] by simp_all
  show "s_hop t = s_hop s" using try_bg_adv(2) [OF b] r by (cases b) (auto simp: keeps_dir_def)
qed

lemma run_resume_frame: "adv (Suc 0) s (run_resume h x s)" "keeps_dir n s (run_resume h x s)"
proof -
  have "adv (Suc 0) s (on_jobs (Jobs.resume as ws) (on_jobs (plant ps) (s\<lparr>s_resumes := r\<rparr>)))" for as ws ps r
    using adv_trans [OF adv_trans [OF adv_same [of "s\<lparr>s_resumes := r\<rparr>" s 0] adv_use(5) [of 0]] adv_use(4) [of "Suc 0"]] by simp
  then show "adv (Suc 0) s (run_resume h x s)" by (simp add: run_resume_def Let_def adv_same split: prod.split)
  show "keeps_dir n s (run_resume h x s)" by (simp add: run_resume_def Let_def keeps_dir_same split: prod.split)
qed

lemma run_snoop_frame: "adv (Suc 0) s (run_snoop x s)" "keeps_dir (Suc 0) s (run_snoop x s)"
  using in_child_adv [of x s "fst (in_child x s)" "snd (in_child x s)"] by (simp_all add: run_snoop_def print_frame)

definition leaves_shell :: "ctx \<Rightarrow> bool" where
  "leaves_shell x \<longleftrightarrow> x_cmd x = ''hop'' \<longrightarrow> x_bg x \<or> need_redir x"

lemma intrinsic_hop:
  assumes "\<And>t. s_hop (body t) = f (s_hop t)"
  shows "s_hop (intrinsic x body s) \<in> {s_hop s, f (s_hop s)}"
proof -
  obtain b t where b: "try_bg x s = (b, t)" by fastforce
  have "s_hop (snd (in_child x t)) = s_hop t" using in_child_adv(2) [of x t "fst (in_child x t)"] by (simp add: keeps_dir_def)
  then show ?thesis using try_bg_adv(2) [OF b] assms b by (cases b) (auto simp: intrinsic_def here_or_child_def)
qed

lemma run_hop_frame:
  "adv (Suc 0) s (run_hop h x s)" "forks_ok (Suc 0) s \<Longrightarrow> x_bg x \<or> need_redir x \<Longrightarrow> keeps_dir (Suc 0) s (run_hop h x s)"
  "s_hop (run_hop h x s) \<in> {s_hop s, hop (e_hop h) (e_home h) (x_args x) (s_hop s)}"
proof -
  let ?b = "\<lambda>s :: sh. s\<lparr>s_hop := hop (e_hop h) (e_home h) (x_args x) (s_hop s)\<rparr>"
  have "adv (Suc 0) s (intrinsic x ?b s)" by (rule intrinsic_adv) (simp add: adv_same)
  moreover have "s_hop (intrinsic x ?b s) \<in> {s_hop s, hop (e_hop h) (e_home h) (x_args x) (s_hop s)}" by (rule intrinsic_hop) simp
  ultimately show "adv (Suc 0) s (run_hop h x s)" "s_hop (run_hop h x s) \<in> {s_hop s, hop (e_hop h) (e_home h) (x_args x) (s_hop s)}"
    by (simp_all add: run_hop_def)
  assume "forks_ok (Suc 0) s" "x_bg x \<or> need_redir x"
  then have "keeps_dir (Suc 0) s (intrinsic x ?b s)" by (intro intrinsic_keeps_dir) auto
  then show "keeps_dir (Suc 0) s (run_hop h x s)" by (simp add: run_hop_def)
qed

lemma quiet_frame:
  assumes "\<And>t. adv (Suc 0) t (body t)" "\<And>t. s_hop (body t) = s_hop t" "\<And>t. s_pids (body t) = s_pids t"
  shows "adv (Suc 0) s (intrinsic x body s) \<and> (forks_ok (Suc 0) s \<longrightarrow> keeps_dir (Suc 0) s (intrinsic x body s)) \<and>
    s_hop (intrinsic x body s) = s_hop s"
  using intrinsic_adv [of body s x] intrinsic_keeps_dir [of s x body] intrinsic_hop [of body "\<lambda>u. u" x s] keeps_dir_same assms by auto

lemma run_activities_frame:
  "adv (Suc 0) s (run_activities x s)" "forks_ok (Suc 0) s \<Longrightarrow> keeps_dir (Suc 0) s (run_activities x s)" "s_hop (run_activities x s) = s_hop s"
  using quiet_frame [of "on_jobs activities" s x] adv_use(2) by (simp_all add: run_activities_def)

lemma run_ping_frame:
  "adv (Suc 0) s (run_ping x s)" "forks_ok (Suc 0) s \<Longrightarrow> keeps_dir (Suc 0) s (run_ping x s)" "s_hop (run_ping x s) = s_hop s"
  using quiet_frame [of "on_jobs (ping (x_args x))" s x] adv_use(3) by (simp_all add: run_ping_def)

lemma run_spy_frame:
  "adv (Suc 0) s (run_spy x s)" "forks_ok (Suc 0) s \<Longrightarrow> keeps_dir (Suc 0) s (run_spy x s)" "s_hop (run_spy x s) = s_hop s"
  using quiet_frame [of "emit (Prints ''spy'' (x_args x))" s x] print_frame(1) by (simp_all add: run_spy_def)

lemmas intrinsic_frames = run_hop_frame run_activities_frame run_ping_frame run_spy_frame run_resume_frame run_snoop_frame

lemma run_one_adv: "run_one h x cs s = Inr (fl, t) \<Longrightarrow> adv (Suc 0) s t"
  by (cases "run_reveal x cs s"; cases "run_locate h x s")
    (auto simp: run_one_def intrinsic_frames dest: run_reveal_frame run_locate_frame run_peek_frame run_external_frame split: if_splits prod.splits)

lemma run_one_keeps_dir: "run_one h x cs s = Inr (fl, t) \<Longrightarrow> forks_ok (Suc 0) s \<Longrightarrow> leaves_shell x \<Longrightarrow> keeps_dir (Suc 0) s t"
  by (cases "run_reveal x cs s"; cases "run_locate h x s")
    (auto simp: leaves_shell_def run_one_def intrinsic_frames dest: run_reveal_frame run_locate_frame run_peek_frame run_external_frame split: if_splits prod.splits)

lemma keeps_dir_hop: "keeps_dir n s t \<Longrightarrow> s_hop t = s_hop s"
  by (simp add: keeps_dir_def)

lemma run_one_hop:
  "run_one h x cs s = Inr (fl, t) \<Longrightarrow> s_hop t = s_hop s \<or> s_hop t = hop (e_hop h) (e_home h) (x_args x) (s_hop s)"
  using run_hop_frame(3) [of h x s] keeps_dir_hop [OF run_resume_frame(2)] keeps_dir_hop [OF run_snoop_frame(2)]
  by (cases "run_reveal x cs s"; cases "run_locate h x s")
    (auto simp: run_one_def intrinsic_frames dest: run_reveal_frame run_locate_frame run_peek_frame run_external_frame split: if_splits prod.splits)

lemma run_one_cases:
  obtains "run_one h x cs s = Inl BufferOverflow" "x_cmd x = ''locate'' \<or> x_cmd x = ''reveal'' \<and> ''-'' \<in> set (x_args x)"
    | fl t where "run_one h x cs s = Inr (fl, t)"
  by (rule run_reveal_cases [of x cs s]; cases "run_locate h x s"; cases "run_one h x cs s")
    (auto simp: run_one_def dest: run_locate_halt split: if_splits prod.splits)

subsection \<open>A whole line\<close>

lemma fork_stages_frame: "fork_stages as s = (ps, t) \<Longrightarrow> length ps = length as \<and> s_jobs t = s_jobs s \<and> keeps_dir (length as) s t"
proof (induction as arbitrary: s ps)
  case (Cons a as)
  obtain p u qs where f: "sh_fork s = (p, u)" "fork_stages as u = (qs, t)" "ps = (p, a) # qs" using Cons.prems by (auto split: prod.splits)
  show ?case using sh_fork_frame [OF f(1)] Cons.IH [OF f(2)] f(3) keeps_dir_trans [of "Suc 0" s u "length as" t] by simp
qed (auto simp: keeps_dir_same)

lemma wait_stages_frame: "wait_stages n s = (b, t) \<Longrightarrow> adv 0 s t \<and> s_hop t = s_hop s \<and> s_pids t = s_pids s"
proof (induction n arbitrary: s b)
  case (Suc n)
  obtain w u c where f: "sh_wait s = (w, u)" "wait_stages n u = (c, t)" using Suc.prems by (auto split: prod.splits)
  show ?case using sh_wait_frame [OF f(1)] Suc.IH [OF f(2)] adv_trans [of 0 s u 0 t] by simp
qed (simp add: adv_same)

lemma run_piped_frame:
  assumes "stages \<noteq> []"
  shows "adv (Suc 0) s (run_piped h bg stages s)" "keeps_dir (length stages) s (run_piped h bg stages s)"
proof -
  obtain ps u where f: "fork_stages stages s = (ps, u)" by fastforce
  obtain b v where w: "wait_stages (length ps) (emit (Stages ps) u) = (b, v)" by fastforce
  note F = fork_stages_frame [OF f] and W = wait_stages_frame [OF w]
  have ne: "map (\<lambda>(p, a). (p, hd a)) ps \<noteq> []" using F assms by auto
  let ?t = "run_piped h bg stages s"
  consider (no) "?t = emit (Says ''cshell: pipe not made'') s"
    | (bg) "?t = on_jobs (assign_bg_multi (map (\<lambda>(p, a). (p, hd a)) ps) (hd (hd stages)) (bare_args (hd stages))) (emit (Stages ps) u)"
    | (stop) "?t = on_jobs (assign_stopped_multi (map (\<lambda>(p, a). (p, hd a)) ps) (hd (hd stages)) (bare_args (hd stages))) v"
    | (through) "?t = v"
    using f w by (cases "e_pipes h (length stages - 1)"; cases bg; cases b) (simp_all add: run_piped_def Let_def)
  then have "adv (Suc 0) s ?t \<and> (?t = emit (Says ''cshell: pipe not made'') s \<or> s_hop ?t = s_hop u \<and> s_pids ?t = s_pids u)"
  proof cases
    case bg
    then show ?thesis using adv_trans [OF adv_same [of "emit (Stages ps) u" s 0] adv_enter(3) [OF ne]] F by simp
  next
    case stop
    then show ?thesis using adv_trans [OF adv_trans [OF adv_same [of "emit (Stages ps) u" s 0] conjunct1 [OF W]] adv_enter(4) [OF ne]] F W by simp
  next
    case through
    then show ?thesis using adv_mono [OF adv_trans [OF adv_same [of "emit (Stages ps) u" s 0] conjunct1 [OF W]], of "Suc 0"] F W by simp
  qed (simp add: print_frame)
  then show "adv (Suc 0) s ?t" "keeps_dir (length stages) s ?t"
    using F keeps_dir_trans [of "length stages" s u 0 ?t] keeps_dir_same [of ?t u 0] by (auto simp: print_frame)
qed

text \<open>The commands that change the directory of the shell.\<close>

definition moves_shell :: "'z node_scheme \<Rightarrow> bool" where
  "moves_shell c \<longleftrightarrow> piped c = 0 \<and> background c = 0 \<and> hd (nargs c) = ''hop'' \<and> (\<forall>a \<in> set (nargs c). \<not> redir_op a)"

lemma ext_in_none: "ext_in as = Some (bs, []) \<Longrightarrow> bs = as \<and> ''<'' \<notin> set as"
  by (induction as arbitrary: bs rule: ext_in.induct) (auto split: if_splits list.splits)

lemma ext_out_none: "ext_out as = Some (bs, []) \<Longrightarrow> ''>'' \<notin> set as \<and> ''>>'' \<notin> set as"
  by (induction as arbitrary: bs rule: ext_out.induct) (auto split: if_splits list.splits)

lemma ext_in_set: "ext_in as = Some (bs, fs) \<Longrightarrow> set bs \<subseteq> set as"
  by (induction as arbitrary: bs fs rule: ext_in.induct) (fastforce split: if_splits list.splits)+

lemma ext_out_set: "ext_out as = Some (bs, fs) \<Longrightarrow> set bs \<subseteq> set as"
proof (induction as arbitrary: bs fs rule: ext_out.induct)
  case (2 a as)
  show ?case
  proof (cases "a = ''>'' \<or> a = ''>>''")
    case True
    note e = "2.prems" [unfolded ext_out.simps(2) if_P [OF True]]
    obtain f cs where as: "as = f # cs" using e by (cases as) simp_all
    have f: "\<not> redir_op f" using e by (rule contrapos_pn) (simp add: as)
    obtain gs where "ext_out cs = Some (bs, gs)" using e f by (auto simp: as)
    then show ?thesis using "2.IH"(1) [OF True as f] as by auto
  next
    case False
    note e = "2.prems" [unfolded ext_out.simps(2) if_not_P [OF False]]
    then obtain cs gs where "ext_out as = Some (cs, gs)" "bs = a # cs" by auto
    then show ?thesis using "2.IH"(2) [OF False] by auto
  qed
qed simp

text \<open>Commands for which the buffers of their arguments are large enough.\<close>

definition node_fits :: "string \<Rightarrow> bnode \<Rightarrow> bool" where
  "node_fits home c \<longleftrightarrow> args_fit home (nbufs c) (nargs c) \<and> hd (nargs c) \<noteq> ''locate'' \<and> (hd (nargs c) = ''reveal'' \<longrightarrow> ''-'' \<notin> set (nargs c))"

definition chdir_ok :: "sh_host \<Rightarrow> bool" where
  "chdir_ok h \<longleftrightarrow> (\<forall>d p q. h_chdir (e_hop h) d p = Some q \<longrightarrow> length q < PATH_MAX)"

definition short_cwd :: "sh \<Rightarrow> bool" where
  "short_cwd s \<longleftrightarrow> length (hcwd (s_hop s)) < PATH_MAX"

lemma hop_short:
  assumes "chdir_ok h" "length (hcwd s) < PATH_MAX"
  shows "length (hcwd (hop (e_hop h) home args s)) < PATH_MAX"
proof -
  have t: "hcwd u = hcwd v" if "hop_target (e_hop h) home a v = (r, u)" for a r u v
    using that by (auto simp: hop_target_def do_search_def split: if_splits option.splits prod.splits)
  have "length (hcwd (hop_one (e_hop h) home a v)) < PATH_MAX" if "length (hcwd v) < PATH_MAX" for a v
    using that assms(1) t by (auto simp: hop_one_def do_update_def chdir_ok_def split: prod.split option.split)
  then have "length (hcwd (fold (hop_one (e_hop h) home) as v)) < PATH_MAX" if "length (hcwd v) < PATH_MAX" for as v
    using that by (induction as arbitrary: v) simp_all
  then show ?thesis using assms by (auto simp: hop_def do_update_def chdir_ok_def split: option.split)
qed

text \<open>What is known of the state after the commands \<open>cs\<close>.\<close>

definition did :: "sh_host \<Rightarrow> nat \<Rightarrow> bool \<Rightarrow> sh \<Rightarrow> sh \<Rightarrow> bool" where
  "did h n still s t \<longleftrightarrow> adv n s t \<and> (forks_ok n s \<and> still \<longrightarrow> keeps_dir n s t) \<and> (chdir_ok h \<and> short_cwd s \<longrightarrow> short_cwd t)"

lemma did_trans: "did h m a s t \<Longrightarrow> did h n b t u \<Longrightarrow> did h (m + n) (a \<and> b) s u"
proof -
  assume r: "did h m a s t" "did h n b t u"
  have "keeps_dir (m + n) s u" if f: "forks_ok (m + n) s" and ab: "a" "b"
  proof -
    have k: "keeps_dir m s t" using r(1) forks_ok_mono [OF f, of m] ab(1) by (simp add: did_def)
    then show ?thesis using r(2) forks_ok_keeps_dir [OF f k] ab(2) keeps_dir_trans [OF k] by (simp add: did_def)
  qed
  then show ?thesis using r adv_trans [of m s t n u] by (simp add: did_def)
qed

lemma did_mono: "did h m a s t \<Longrightarrow> m \<le> n \<Longrightarrow> (b \<Longrightarrow> a) \<Longrightarrow> did h n b s t"
  unfolding did_def using adv_mono keeps_dir_mono forks_ok_mono by metis

lemma did_same: "adv n s t \<Longrightarrow> s_hop t = s_hop s \<Longrightarrow> s_pids t = s_pids s \<Longrightarrow> did h n a s t"
  by (simp add: did_def short_cwd_def keeps_dir_same)

lemma did_piped: "stages \<noteq> [] \<Longrightarrow> did h (length stages) a s (run_piped h bg stages s)"
  using run_piped_frame [of stages s h bg] adv_mono [of "Suc 0" s _ "length stages"]
  by (simp add: did_def short_cwd_def keeps_dir_hop Suc_le_eq)

lemma did_one:
  assumes "run_one h x cs s = Inr (fl, t)"
  shows "did h (Suc 0) (leaves_shell x) s t"
  using run_one_adv [OF assms] run_one_keeps_dir [OF assms] run_one_hop [OF assms] hop_short
  by (auto simp: did_def short_cwd_def)

text \<open>A single command: it runs, or a buffer is too small.\<close>

lemma did_single:
  assumes home: "e_home h \<noteq> []" "hd (e_home h) = CHR ''/''" and c: "nargs c \<noteq> []" "piped c = 0"
  shows "(\<exists>fl t. run_single h c (map (tilde (e_home h)) (nargs c)) cs s = Inr (fl, t) \<and> did h (Suc 0) (\<not> moves_shell c) s t) \<or>
    run_single h c (map (tilde (e_home h)) (nargs c)) cs s = Inl BufferOverflow \<and> \<not> node_fits (e_home h) c"
proof -
  let ?args = "map (tilde (e_home h)) (nargs c)"
  have T: "tilde (e_home h) a = w \<longleftrightarrow> a = w" if "w \<in> {''hop'', ''reveal'', ''locate'', ''-'', ''<'', ''>'', ''>>''}" for a w
    using that home by (intro tilde_same) fastforce+
  have M: "w \<in> set ?args \<longleftrightarrow> w \<in> set (nargs c)" if "w \<in> {''hop'', ''reveal'', ''locate'', ''-'', ''<'', ''>'', ''>>''}" for w
  proof -
    have "w \<in> set ?args \<longleftrightarrow> (\<exists>a \<in> set (nargs c). tilde (e_home h) a = w)" by (simp only: set_map image_iff) metis
    then show ?thesis using T [OF that] by (simp only: bex_simps) blast
  qed
  have H: "hd ?args = w \<longleftrightarrow> hd (nargs c) = w" if "w \<in> {''hop'', ''reveal'', ''locate''}" for w
    using T [of w "hd (nargs c)"] that c(1) by (auto simp: hd_map)
  consider (syn) fl where "run_single h c ?args cs s = Inr (fl, emit bad_syntax s)"
    | (run) as ins bs outs where "ext_in ?args = Some (as, ins)" "ext_out as = Some (bs, outs)"
  proof (cases "ext_in ?args")
    case None
    then show ?thesis using syn [of "Next 0"] by (simp add: run_single_def)
  next
    case (Some p)
    obtain as ins where p: "p = (as, ins)" by fastforce
    show ?thesis
    proof (cases "ext_out as")
      case None
      then show ?thesis using Some p syn [of "if background c \<noteq> 0 \<or> semi c \<noteq> 0 then Return else Next 0"] by (simp add: run_single_def)
    next
      case (Some q)
      then show ?thesis using \<open>ext_in ?args = Some p\<close> p run [of as ins "fst q" "snd q"] by simp
    qed
  qed
  then show ?thesis
  proof cases
    case syn
    then show ?thesis by (auto intro!: did_same simp: print_frame)
  next
    case run
    let ?x = "\<lparr>x_cmd = hd ?args, x_args = bs, x_bufs = kept_bufs ?args (nbufs c), x_bg = (background c \<noteq> 0), x_ins = ins, x_outs = outs\<rparr>"
    have e: "run_single h c ?args cs s = run_one h ?x cs s" using run by (simp add: run_single_def)
    have L: "leaves_shell ?x" if "\<not> moves_shell c"
    proof (cases "ins = [] \<and> outs = []")
      case True
      have i: "as = ?args \<and> ''<'' \<notin> set ?args" by (rule ext_in_none) (use run(1) True in simp)
      have o: "''>'' \<notin> set as \<and> ''>>'' \<notin> set as" by (rule ext_out_none) (use run(2) True in simp)
      have "\<forall>a \<in> set (nargs c). \<not> redir_op a" using i o M by (auto simp: redir_op_def)
      then show ?thesis using that c H by (auto simp: leaves_shell_def moves_shell_def)
    qed (auto simp: leaves_shell_def need_redir_def)
    show ?thesis
    proof (rule run_one_cases [of h ?x cs s])
      assume o: "run_one h ?x cs s = Inl BufferOverflow" "x_cmd ?x = ''locate'' \<or> x_cmd ?x = ''reveal'' \<and> ''-'' \<in> set (x_args ?x)"
      have "''-'' \<in> set (nargs c)" if "''-'' \<in> set bs"
        using that ext_in_set [OF run(1)] ext_out_set [OF run(2)] M [of "''-''"] by blast
      then have "\<not> node_fits (e_home h) c" using o(2) H [of "''reveal''"] H [of "''locate''"] by (auto simp: node_fits_def)
      then show ?thesis using o(1) e by simp
    next
      fix fl t
      assume r: "run_one h ?x cs s = Inr (fl, t)"
      then show ?thesis using did_mono [OF did_one [OF r] le_refl L] e by auto
    qed
  qed
qed

lemma run_coms_result:
  assumes "e_home h \<noteq> []" "hd (e_home h) = CHR ''/''" "\<forall>c \<in> set cs. nargs c \<noteq> []"
  shows "(\<exists>t. run_coms h cs s = Inr t \<and> did h (length cs) (\<forall>c \<in> set cs. \<not> moves_shell c) s t) \<or>
    run_coms h cs s = Inl BufferOverflow \<and> \<not> (\<forall>c \<in> set cs. node_fits (e_home h) c)"
  using assms
proof (induction h cs s rule: run_coms.induct)
  case (1 h s)
  then show ?case by (simp add: adv_use did_same)
next
  case (2 h c cs s)
  note home = "2.prems"(1,2)
  show ?case
  proof (cases "piped c \<noteq> 0")
    case True
    let ?n = "length (takeWhile (\<lambda>d. piped d \<noteq> 0) cs)"
    let ?cs = "c # take (Suc ?n) cs" and ?rest = "drop (Suc ?n) cs"
    let ?st = "map (\<lambda>c. map (tilde (e_home h)) (nargs c)) ?cs"
    let ?u = "run_piped h (background (cs ! ?n) \<noteq> 0) ?st s"
    show ?thesis
    proof (cases "\<forall>c \<in> set ?cs. args_fit (e_home h) (nbufs c) (nargs c)")
      case False
      then have "expand_stages (e_home h) ?cs = Inl BufferOverflow" by (simp add: expand_stages_eq [OF home] del: expand_stages.simps)
      then have "run_coms h (c # cs) s = Inl BufferOverflow" using True by (simp add: Let_def del: expand_stages.simps)
      moreover have "set ?cs \<subseteq> set (c # cs)" by (auto dest: in_set_takeD)
      ultimately show ?thesis using False by (auto simp: node_fits_def)
    next
      case fits: True
      then have x: "expand_stages (e_home h) ?cs = Inr ?st" by (simp add: expand_stages_eq [OF home] del: expand_stages.simps)
      have e: "run_coms h (c # cs) s = run_coms h ?rest ?u" using True x by (simp add: Let_def del: expand_stages.simps)
      have ne: "?st \<noteq> []" by simp
      have len: "length ?st + length ?rest = length (c # cs)" by simp
      have sub: "set ?rest \<subseteq> set (c # cs)" by (auto dest: in_set_dropD)
      have "(\<exists>t. run_coms h ?rest ?u = Inr t \<and> did h (length ?rest) (\<forall>c \<in> set ?rest. \<not> moves_shell c) ?u t) \<or>
        run_coms h ?rest ?u = Inl BufferOverflow \<and> \<not> (\<forall>c \<in> set ?rest. node_fits (e_home h) c)"
        by (rule "2.IH"(1) [OF True refl x home]) (use "2.prems"(3) sub in auto)
      then show ?thesis
      proof (elim disjE exE conjE)
        fix t
        assume t: "run_coms h ?rest ?u = Inr t" "did h (length ?rest) (\<forall>c \<in> set ?rest. \<not> moves_shell c) ?u t"
        note r = did_trans [OF did_piped [OF ne, of h True s "background (cs ! ?n) \<noteq> 0"] t(2), unfolded len]
        have "did h (length (c # cs)) (\<forall>c \<in> set (c # cs). \<not> moves_shell c) s t" by (rule did_mono [OF r]) (use sub in auto)
        then show ?thesis using e t(1) by auto
      qed (use e sub in auto)
    qed
  next
    case False
    let ?args = "map (tilde (e_home h)) (nargs c)"
    show ?thesis
    proof (cases "args_fit (e_home h) (nbufs c) (nargs c)")
      case nofit: False
      then show ?thesis using False by (simp add: expand_args_eq [OF home] node_fits_def)
    next
      case fits: True
      then have x: "expand_args (e_home h) (nbufs c) (nargs c) = Inr ?args" by (simp add: expand_args_eq [OF home])
      have ne: "nargs c \<noteq> []" "piped c = 0" using "2.prems"(3) False by simp_all
      from did_single [OF home ne, of cs s] show ?thesis
      proof (elim disjE exE conjE)
        fix fl u
        assume r: "run_single h c ?args cs s = Inr (fl, u)" "did h (Suc 0) (\<not> moves_shell c) s u"
        have "(\<exists>t. run_coms h (c # cs) s = Inr t \<and> did h (length cs) (\<forall>c \<in> set cs. \<not> moves_shell c) u t) \<or>
          run_coms h (c # cs) s = Inl BufferOverflow \<and> \<not> (\<forall>c \<in> set cs. node_fits (e_home h) c)"
        proof (cases fl)
          case (Next k)
          have sub: "set (drop k cs) \<subseteq> set cs" by (rule set_drop_subset)
          have e: "run_coms h (c # cs) s = run_coms h (drop k cs) u" using False x r(1) Next by simp
          have "(\<exists>t. run_coms h (drop k cs) u = Inr t \<and> did h (length (drop k cs)) (\<forall>c \<in> set (drop k cs). \<not> moves_shell c) u t) \<or>
            run_coms h (drop k cs) u = Inl BufferOverflow \<and> \<not> (\<forall>c \<in> set (drop k cs). node_fits (e_home h) c)"
            by (rule "2.IH"(2) [OF False x r(1) refl Next home]) (use "2.prems"(3) sub in auto)
          then show ?thesis
          proof (elim disjE exE conjE)
            fix t
            assume t: "run_coms h (drop k cs) u = Inr t" "did h (length (drop k cs)) (\<forall>c \<in> set (drop k cs). \<not> moves_shell c) u t"
            have "did h (length cs) (\<forall>c \<in> set cs. \<not> moves_shell c) u t" by (rule did_mono [OF t(2)]) (use sub in auto)
            then show ?thesis using e t(1) by auto
          qed (use e sub in auto)
        qed (use False x r(1) in \<open>auto simp: adv_use adv_same intro!: did_same\<close>)
        then show ?thesis
        proof (elim disjE exE conjE)
          fix t
          assume t: "run_coms h (c # cs) s = Inr t" "did h (length cs) (\<forall>c \<in> set cs. \<not> moves_shell c) u t"
          have "did h (length (c # cs)) (\<forall>c \<in> set (c # cs). \<not> moves_shell c) s t" by (rule did_mono [OF did_trans [OF r(2) t(2)]]) auto
          then show ?thesis using t(1) by blast
        qed auto
      qed (use False x in auto)
    qed
  qed
qed

lemma parse_loop_nargs:
  "parse_loop ts ns cur = Inr coms \<Longrightarrow> (ncmd cur \<noteq> None \<longrightarrow> nargs cur \<noteq> []) \<Longrightarrow> \<forall>c \<in> set ns. nargs c \<noteq> [] \<Longrightarrow> \<forall>c \<in> set coms. nargs c \<noteq> []"
proof (induction ts ns cur rule: parse_loop.induct)
  case (1 ns cur)
  then show ?case by (auto split: if_splits)
next
  case (2 t ts ns cur)
  have N: "ncmd new_node = None" "nargs (add_word v n) \<noteq> []" for v n by (simp_all add: new_node_def add_word_def)
  consider (sep) "ttype t = 0 \<and> (tvalue t = ''|'' \<or> tvalue t = '';'')"
    | (amp) "\<not> (ttype t = 0 \<and> (tvalue t = ''|'' \<or> tvalue t = '';''))" "ttype t = 0 \<and> tvalue t = ''&''"
    | (wrd) "\<not> (ttype t = 0 \<and> (tvalue t = ''|'' \<or> tvalue t = '';''))" "\<not> (ttype t = 0 \<and> tvalue t = ''&'')" by blast
  then show ?case
  proof cases
    case sep
    note e = "2.prems"(1) [unfolded parse_loop.simps(2) if_P [OF sep]]
    have g: "\<not> (ts = [] \<or> ttype (hd ts) = 0 \<or> ncmd cur = None)" using e by (rule contrapos_pn) simp
    note e = e [unfolded if_not_P [OF g]]
    have l: "\<not> COMS_MAX \<le> length ns + 1" using e by (rule contrapos_pn) simp
    show ?thesis by (rule "2.IH"(1) [OF sep g l]) (use e [unfolded if_not_P [OF l]] "2.prems"(2,3) N g in simp_all)
  next
    case amp
    note e = "2.prems"(1) [unfolded parse_loop.simps(2) if_not_P [OF amp(1)] if_P [OF amp(2)]]
    have g: "\<not> ncmd cur = None" using e by (rule contrapos_pn) simp
    note e = e [unfolded if_not_P [OF g]]
    have l: "\<not> COMS_MAX \<le> length ns + 1" using e by (rule contrapos_pn) simp
    show ?thesis by (rule "2.IH"(2) [OF amp g l]) (use e [unfolded if_not_P [OF l]] "2.prems"(2,3) N g in simp_all)
  next
    case wrd
    note e = "2.prems"(1) [unfolded parse_loop.simps(2) if_not_P [OF wrd(1)] if_not_P [OF wrd(2)]]
    have l: "\<not> ARGS_MAX \<le> length (nargs cur)" using e by (rule contrapos_pn) simp
    show ?thesis by (rule "2.IH"(3) [OF wrd l]) (use e [unfolded if_not_P [OF l]] "2.prems"(2,3) N in simp_all)
  qed
qed

lemma parse_loop_length: "parse_loop ts ns cur = Inr coms \<Longrightarrow> length ns < COMS_MAX \<Longrightarrow> length coms \<le> COMS_MAX"
proof (induction ts ns cur rule: parse_loop.induct)
  case (1 ns cur)
  then show ?case by (auto split: if_splits)
next
  case (2 t ts ns cur)
  consider (sep) "ttype t = 0 \<and> (tvalue t = ''|'' \<or> tvalue t = '';'')"
    | (amp) "\<not> (ttype t = 0 \<and> (tvalue t = ''|'' \<or> tvalue t = '';''))" "ttype t = 0 \<and> tvalue t = ''&''"
    | (wrd) "\<not> (ttype t = 0 \<and> (tvalue t = ''|'' \<or> tvalue t = '';''))" "\<not> (ttype t = 0 \<and> tvalue t = ''&'')" by blast
  then show ?case
  proof cases
    case sep
    note e = "2.prems"(1) [unfolded parse_loop.simps(2) if_P [OF sep]]
    have g: "\<not> (ts = [] \<or> ttype (hd ts) = 0 \<or> ncmd cur = None)" using e by (rule contrapos_pn) simp
    note e = e [unfolded if_not_P [OF g]]
    have l: "\<not> COMS_MAX \<le> length ns + 1" using e by (rule contrapos_pn) simp
    show ?thesis by (rule "2.IH"(1) [OF sep g l]) (use e [unfolded if_not_P [OF l]] l in simp_all)
  next
    case amp
    note e = "2.prems"(1) [unfolded parse_loop.simps(2) if_not_P [OF amp(1)] if_P [OF amp(2)]]
    have g: "\<not> ncmd cur = None" using e by (rule contrapos_pn) simp
    note e = e [unfolded if_not_P [OF g]]
    have l: "\<not> COMS_MAX \<le> length ns + 1" using e by (rule contrapos_pn) simp
    show ?thesis by (rule "2.IH"(2) [OF amp g l]) (use e [unfolded if_not_P [OF l]] l in simp_all)
  next
    case wrd
    note e = "2.prems"(1) [unfolded parse_loop.simps(2) if_not_P [OF wrd(1)] if_not_P [OF wrd(2)]]
    have l: "\<not> ARGS_MAX \<le> length (nargs cur)" using e by (rule contrapos_pn) simp
    show ?thesis by (rule "2.IH"(3) [OF wrd l]) (use e [unfolded if_not_P [OF l]] "2.prems"(2) in simp_all)
  qed
qed

lemma parser_nargs: "parser ts = Inr coms \<Longrightarrow> \<forall>c \<in> set coms. nargs c \<noteq> []"
  unfolding parser_def by (erule parse_loop_nargs) (simp_all add: new_node_def)

lemma parser_length: "parser ts = Inr coms \<Longrightarrow> length coms \<le> COMS_MAX"
  unfolding parser_def by (erule parse_loop_length) (simp add: COMS_MAX_def)

lemma length_deal [simp]: "length (deal coms bs) = length coms"
  by (induction coms arbitrary: bs) simp_all

lemma deal_node: "c \<in> set (deal coms bs) \<Longrightarrow> \<exists>d \<in> set coms. nargs c = nargs d \<and> moves_shell c = moves_shell d"
  by (induction coms arbitrary: bs) (auto simp: node.extend_def moves_shell_def)

text \<open>
  A line that the memory of the shell is large enough for: not more than a hundred tokens, room in the arrays of the parser, in the buffers of
  the tokens with a tilde, and neither \<^verbatim>\<open>reveal -\<close> nor \<^verbatim>\<open>locate\<close>, for which the room they need depends on the state.
\<close>

definition line_fits :: "string \<Rightarrow> string \<Rightarrow> bool" where
  "line_fits home cmd \<longleftrightarrow> length (token_bufs cmd) \<le> TOKENS_MAX \<and>
     (case lexer cmd of
        None \<Rightarrow> True
      | Some ts \<Rightarrow> (case parser ts of Inl e \<Rightarrow> e = Syntax | Inr coms \<Rightarrow> list_all (node_fits home) (deal coms (token_bufs cmd))))"

lemma process_parsed:
  assumes "e_home h \<noteq> []" "hd (e_home h) = CHR ''/''" and p: "lexer cmd = Some ts" "parser ts = Inr coms"
  shows "(\<exists>t. process_cmd h cmd s = Inr t \<and> did h (length coms) (\<forall>c \<in> set coms. \<not> moves_shell c) s t) \<or>
    process_cmd h cmd s = Inl BufferOverflow \<and> \<not> line_fits (e_home h) cmd"
proof (cases "TOKENS_MAX < length (token_bufs cmd)")
  case True
  then show ?thesis by (simp add: process_cmd_def line_fits_def)
next
  case few: False
  let ?cs = "deal coms (token_bufs cmd)"
  have e: "process_cmd h cmd s = run_coms h ?cs s" using few p by (simp add: process_cmd_def)
  have ne: "\<forall>c \<in> set ?cs. nargs c \<noteq> []" using parser_nargs [OF p(2)] deal_node by fastforce
  from run_coms_result [OF assms(1,2) ne, of s] show ?thesis
  proof (elim disjE exE conjE)
    fix t
    assume t: "run_coms h ?cs s = Inr t" "did h (length ?cs) (\<forall>c \<in> set ?cs. \<not> moves_shell c) s t"
    have "did h (length coms) (\<forall>c \<in> set coms. \<not> moves_shell c) s t"
      by (rule did_mono [OF t(2)]) (use deal_node in \<open>auto, blast\<close>)
    then show ?thesis using e t(1) by auto
  qed (use e few p in \<open>auto simp: line_fits_def list_all_iff\<close>)
qed

lemma process_cmd_result:
  assumes "e_home h \<noteq> []" "hd (e_home h) = CHR ''/''"
  shows "(\<exists>t. process_cmd h cmd s = Inr t \<and> did h COMS_MAX False s t) \<or> process_cmd h cmd s = Inl BufferOverflow \<and> \<not> line_fits (e_home h) cmd"
proof -
  have syn: "did h COMS_MAX False s (emit bad_syntax s)" by (simp add: did_same print_frame)
  consider (many) "TOKENS_MAX < length (token_bufs cmd)"
    | (bad) "\<not> TOKENS_MAX < length (token_bufs cmd)" "lexer cmd = None"
    | (wrong) ts e where "\<not> TOKENS_MAX < length (token_bufs cmd)" "lexer cmd = Some ts" "parser ts = Inl e"
    | (ok) ts coms where "lexer cmd = Some ts" "parser ts = Inr coms"
    by (cases "lexer cmd"; cases "parser (the (lexer cmd))") auto
  then show ?thesis
  proof cases
    case many
    then show ?thesis by (simp add: process_cmd_def line_fits_def)
  next
    case bad
    then show ?thesis using syn by (simp add: process_cmd_def)
  next
    case wrong
    then show ?thesis using syn by (cases e) (simp_all add: process_cmd_def line_fits_def)
  next
    case ok
    from process_parsed [OF assms ok, of s] show ?thesis using did_mono [OF _ parser_length [OF ok(2)], of h _ s _ False] by blast
  qed
qed

text \<open>
  C39. A line that the parser accepts is worked off, whatever the commands in it are, if the memory of the shell is large enough for it (\<open>line_fits\<close>, which excludes \<^verbatim>\<open>locate\<close> and \<^verbatim>\<open>reveal -\<close>) and the home directory is an
  absolute path. Otherwise it is worked off in the same way or the shell writes behind the end of a buffer, as it does for every line with more than a hundred tokens; it never goes into a loop without end. What a
  line does to the job table is a sequence of the steps of the job table, so that its invariant holds after every line. And no command but a \<^verbatim>\<open>hop\<close> in the foreground, without
  redirection and without a pipe behind it, changes the directory or the previous directory of the shell or the \<^verbatim>\<open>hop\<close> database in
  the shell itself (if \<^verbatim>\<open>fork\<close> succeeds; a background \<^verbatim>\<open>hop\<close> for which it fails is run by the shell).
\<close>

theorem line_worked_off:
  assumes "e_home h \<noteq> []" and "hd (e_home h) = CHR ''/''" and "lexer cmd = Some ts" and "parser ts = Inr coms"
    and "jobs (s_jobs s) + int (length coms) \<le> 2 ^ 31"
  shows "((\<exists>t. process_cmd h cmd s = Inr t \<and> job_step\<^sup>*\<^sup>* (s_jobs s) (s_jobs t) \<and>
        (forks_ok (length coms) s \<and> (\<forall>c \<in> set coms. \<not> moves_shell c) \<longrightarrow> s_hop t = s_hop s)) \<or>
      process_cmd h cmd s = Inl BufferOverflow \<and> \<not> line_fits (e_home h) cmd) \<and>
    (TOKENS_MAX < length ts \<longrightarrow> process_cmd h cmd s = Inl BufferOverflow)"
proof -
  have "length ts = length (token_bufs cmd)" using lexer_in_buffers [OF assms(3)] by (rule list_all2_lengthD)
  then have "TOKENS_MAX < length ts \<longrightarrow> process_cmd h cmd s = Inl BufferOverflow" by (simp add: process_cmd_def)
  then show ?thesis using process_parsed [OF assms(1-4), of s] assms(5) by (auto simp: did_def adv_def dest: keeps_dir_hop)
qed

definition demo_host :: sh_host where
  "demo_host = \<lparr>e_hop = \<lparr>h_isdir = (\<lambda>_ _. True), h_chdir = (\<lambda>_ p. if length p < PATH_MAX then Some p else None), h_writable = True, h_rnd = id\<rparr>,
     e_home = ''/u'', e_readable = (\<lambda>_. True), e_writable = (\<lambda>_. True), e_pipes = (\<lambda>_. True), e_exec = (\<lambda>_. False), e_path = None\<rparr>"

definition demo_sh :: "int list \<Rightarrow> ((int \<times> wstatus) list \<times> cstatus) list \<Rightarrow> sh" where
  "demo_sh pids ws = \<lparr>s_hop = \<lparr>hcwd = ''/u'', hprev = [], hfile = None, hchanged = False, hclock = [], hout = []\<rparr>, s_jobs = no_jobs, s_pids = pids,
     s_stats = ws, s_resumes = [], s_log = []\<rparr>"

lemma demo_bg:
  "lexer ''hop /tmp &'' = Some [word_tok ''hop'', word_tok ''/tmp'', op_tok ''&'']"
  "parser [word_tok ''hop'', word_tok ''/tmp'', op_tok ''&''] = Inr [new_node\<lparr>ncmd := Some ''hop'', nargs := [''hop'', ''/tmp''], background := 1\<rparr>]"
  "line_fits ''/u'' ''hop /tmp &''"
proof -
  show l: "lexer ''hop /tmp &'' = Some [word_tok ''hop'', word_tok ''/tmp'', op_tok ''&'']"
    using lexer_plain [of "''hop''" "'' /tmp &''"] lexer_plain [of "''/tmp''" "'' &''"] lexer_op [of "CHR ''&''" "[]"]
    by (simp add: plain_def is_blank_def is_op_def push_tok_def)
  show p: "parser [word_tok ''hop'', word_tok ''/tmp'', op_tok ''&''] = Inr [new_node\<lparr>ncmd := Some ''hop'', nargs := [''hop'', ''/tmp''], background := 1\<rparr>]"
    by (simp add: parser_def word_tok_def op_tok_def add_word_def new_node_def ARGS_MAX_def COMS_MAX_def)
  have "length (token_bufs ''hop /tmp &'') = 3" using list_all2_lengthD [OF lexer_in_buffers [OF l]] by simp
  then show "line_fits ''/u'' ''hop /tmp &''"
    by (auto simp: line_fits_def l p TOKENS_MAX_def node_fits_def args_fit_def node.extend_def new_node_def All_less_Suc2)
qed

theorem line_worked_off_witness:
  "\<exists>t. process_cmd demo_host ''hop /tmp &'' (demo_sh [7] []) = Inr t \<and> hcwd (s_hop t) = ''/u'' \<and> job_step\<^sup>*\<^sup>* no_jobs (s_jobs t)"
proof -
  have h: "e_home demo_host = ''/u''" by (simp add: demo_host_def)
  show ?thesis
    using line_worked_off [OF _ _ demo_bg(1,2), of demo_host "demo_sh [7] []"] demo_bg(3)
    by (auto simp: h demo_sh_def no_jobs_def forks_ok_def moves_shell_def new_node_def)
qed

text \<open>A tilde at the end of a line does not fit: its token has two bytes.\<close>

lemma tilde_overflows:
  assumes "hd (e_home h) = CHR ''/''" "2 \<le> length (e_home h)"
  shows "process_cmd h ''ls ~'' s = Inl BufferOverflow"
proof -
  have "lexer ''ls ~'' = Some [word_tok ''ls'', word_tok ''~'']"
    using lexer_plain [of "''ls''" "'' ~''"] lexer_plain [of "''~''" "[]"] by (simp add: plain_def is_blank_def is_op_def push_tok_def)
  moreover have "token_bufs ''ls ~'' = [5, 2]" by code_simp
  moreover have "parser [word_tok ''ls'', word_tok ''~''] = Inr [new_node\<lparr>ncmd := Some ''ls'', nargs := [''ls'', ''~'']\<rparr>]"
    by (simp add: parser_def word_tok_def add_word_def new_node_def ARGS_MAX_def)
  moreover have "e_home h \<noteq> []" using assms(2) by auto
  ultimately show ?thesis
    using assms by (simp add: process_cmd_def TOKENS_MAX_def node.extend_def bnode.fields_def new_node_def expand_tilde)
qed

text \<open>
  \<^verbatim>\<open>reveal -\<close> before any \<^verbatim>\<open>hop\<close> passes over the command behind it, even if that begins a pipeline.
\<close>

lemma reveal_dash_skips:
  assumes "hprev (s_hop s) = []" "nargs c = [''reveal'', ''-'']" "piped c = 0" "background c = 0" "dash_at 1 (nargs d) = None"
    and "e_home h \<noteq> []" "hd (e_home h) = CHR ''/''"
  shows "run_coms h (c # d # cs) s = run_coms h cs (emit no_such_dir s)"
proof -
  have x: "expand_args (e_home h) (nbufs c) (nargs c) = Inr [''reveal'', ''-'']" using assms by (simp add: expand_tilde)
  have "skip_options 1 [''reveal'', ''-''] = 1" by (simp add: skip_options_def)
  then have "dash_at 1 [''reveal'', ''-''] = Some 1" by (simp add: dash_at_def)
  then have "run_single h c [''reveal'', ''-''] (d # cs) s = Inr (Next 1, emit no_such_dir s)"
    using assms(1,4,5) by (simp add: run_single_def run_one_def run_reveal_def try_bg_def)
  then show ?thesis using x assms(3) by simp
qed

subsection \<open>A session\<close>

text \<open>Two ends of file with nothing between them; \<open>c\<close> says whether an end of file came before.\<close>

fun twice_eof :: "bool \<Rightarrow> ('a \<times> 'b option) list \<Rightarrow> bool" where
  "twice_eof c [] \<longleftrightarrow> False"
| "twice_eof c ((_, None) # inp) \<longleftrightarrow> c \<or> twice_eof True inp"
| "twice_eof c ((_, Some _) # inp) \<longleftrightarrow> twice_eof False inp"

definition input_fits :: "string \<Rightarrow> ('a \<times> string option) list \<Rightarrow> bool" where
  "input_fits home inp \<longleftrightarrow>
     list_all (\<lambda>(_, l). case l of None \<Rightarrow> True | Some line \<Rightarrow> line_fits home (takeWhile (\<lambda>c. c \<noteq> nl) line)) inp"

lemma prompt_result:
  assumes "e_home h \<noteq> []" "hd (e_home h) = CHR ''/''" "short_cwd s"
  shows "\<exists>t. prompt h s = Inr t \<and> adv 0 s (on_jobs (plant ws) t) \<and> short_cwd (on_jobs (plant ws) t)"
proof -
  obtain p where p: "getpwd (e_home h) (hcwd (s_hop s)) = Inr p" using getpwd_eq [OF assms(1,2)] assms(3) by (auto simp: short_cwd_def)
  let ?t = "emit (Prompt p) (on_jobs no_longer_waiting s)"
  have "adv 0 s ?t" using adv_trans [OF adv_use(1) [of 0 s] print_frame(1) [of 0]] by simp
  then have "adv 0 s (on_jobs (plant ws) ?t)" using adv_trans [OF _ adv_use(5) [of 0]] by fastforce
  then show ?thesis using p assms(3) by (simp add: prompt_def Let_def short_cwd_def)
qed

lemma session_result:
  assumes home: "e_home h \<noteq> []" "hd (e_home h) = CHR ''/''" and "chdir_ok h"
  shows "short_cwd s \<Longrightarrow> input_fits (e_home h) inp \<Longrightarrow>
    \<exists>r t. cshell_main h inp c s = Inr (r, t) \<and> adv (COMS_MAX * length inp) s t \<and> (r = None \<longrightarrow> \<not> twice_eof c inp) \<and>
      (\<forall>ks. r = Some ks \<longrightarrow> ks = map pgid (bg_list (s_jobs t)) \<and> (ctrld1 (s_jobs t) \<longrightarrow> twice_eof c inp))"
proof (induction inp arbitrary: c s)
  case Nil
  then show ?case using prompt_result [OF home, of s "[]"] by (auto simp: plant_def on_jobs_def adv_def)
next
  case (Cons i inp)
  obtain ws l where i: "i = (ws, l)" by fastforce
  obtain t where t: "prompt h s = Inr t" "adv 0 s (on_jobs (plant ws) t)" "short_cwd (on_jobs (plant ws) t)"
    using prompt_result [OF home Cons.prems(1), of ws] by blast
  let ?t = "on_jobs (plant ws) t"
  have fits: "input_fits (e_home h) inp" using Cons.prems(2) by (simp add: input_fits_def)
  have go: ?case if e: "cshell_main h (i # inp) c s = cshell_main h inp d u" "adv COMS_MAX s u" "short_cwd u"
    "twice_eof c (i # inp) = twice_eof d inp" for d u
  proof -
    obtain r v where v: "cshell_main h inp d u = Inr (r, v)" "adv (COMS_MAX * length inp) u v" "r = None \<longrightarrow> \<not> twice_eof d inp"
      "\<forall>ks. r = Some ks \<longrightarrow> ks = map pgid (bg_list (s_jobs v)) \<and> (ctrld1 (s_jobs v) \<longrightarrow> twice_eof d inp)"
      using Cons.IH [OF e(3) fits, of d] by blast
    have "adv (COMS_MAX * length (i # inp)) s v" using adv_trans [OF e(2) v(2)] by simp
    then show ?thesis using v e(1,4) by auto
  qed
  show ?case
  proof (cases l)
    case None
    show ?thesis
    proof (cases "ctrld1 (s_jobs ?t) \<and> \<not> c")
      case True
      let ?u = "emit (Says ''cshell: there are stopped jobs'') ?t"
      have "adv COMS_MAX s ?u" using adv_mono [OF adv_trans [OF t(2) print_frame(1) [of 0]]] by simp
      moreover have "short_cwd ?u" using t(3) by (simp add: short_cwd_def)
      ultimately show ?thesis using go [of True ?u] i None t(1) True by (simp add: Let_def)
    next
      case False
      then have "cshell_main h (i # inp) c s = Inr (Some (ctrld2 (s_jobs ?t)), ?t)" using i None t(1) by (auto simp: Let_def)
      then show ?thesis using adv_mono [OF t(2)] False i None by (auto simp: ctrld2_def)
    qed
  next
    case (Some line)
    let ?cmd = "takeWhile (\<lambda>c. c \<noteq> nl) line"
    show ?thesis
    proof (cases "?cmd = []")
      case True
      then show ?thesis using go [of False ?t] i Some t adv_mono [OF t(2)] by (simp add: Let_def)
    next
      case False
      have "line_fits (e_home h) ?cmd" using Cons.prems(2) i Some by (simp add: input_fits_def)
      then obtain u where u: "process_cmd h ?cmd ?t = Inr u" "did h COMS_MAX False ?t u" using process_cmd_result [OF home, of ?cmd ?t] by blast
      then have "adv COMS_MAX s u" "short_cwd u" using adv_trans [OF t(2), of COMS_MAX u] t(3) assms(3) by (simp_all add: did_def)
      then show ?thesis using go [of False u] i Some t(1) u(1) False by (simp add: Let_def)
    qed
  qed
qed

text \<open>
  C40. A whole session of the C shell, for any input whose lines fit into its memory, with the SIGCHLD handler running whenever the shell waits for input or for a child. The
  shell never hangs on its own, and its job table only goes through the steps of the job table. Two ends of file in a row always end it, and then every job that is left in the
  table gets SIGHUP. It never ends while a job is stopped unless the two ends of file did come in a row: a line in between, even an empty one, takes back the first.
\<close>

theorem session:
  assumes "e_home h \<noteq> []" and "hd (e_home h) = CHR ''/''" and "chdir_ok h" and "short_cwd s" and "input_fits (e_home h) inp"
    and "jobs (s_jobs s) + int (COMS_MAX * length inp) \<le> 2 ^ 31"
  shows "\<exists>r t. cshell_main h inp False s = Inr (r, t) \<and> job_step\<^sup>*\<^sup>* (s_jobs s) (s_jobs t) \<and> (twice_eof False inp \<longrightarrow> r \<noteq> None) \<and>
    (\<forall>ks. r = Some ks \<longrightarrow> ks = map pgid (bg_list (s_jobs t)) \<and> (ctrld1 (s_jobs t) \<longrightarrow> twice_eof False inp))"
  using session_result [OF assms(1-5), of False] assms(6) unfolding adv_def by blast

text \<open>A program that is stopped, and two ends of file.\<close>

definition demo_input :: "((int \<times> wstatus) list \<times> string option) list" where
  "demo_input = [([], Some (''vi'' @ [nl])), ([], None), ([], None)]"

theorem session_witness:
  "\<exists>t. cshell_main demo_host demo_input False (demo_sh [7] [([], CStopped)]) = Inr (Some [7], t) \<and> ctrld1 (s_jobs t) \<and>
     job_step\<^sup>*\<^sup>* no_jobs (s_jobs t)"
proof -
  let ?s = "demo_sh [7] [([], CStopped)]"
  have h: "e_home demo_host = ''/u''" "chdir_ok demo_host" by (simp_all add: demo_host_def chdir_ok_def)
  have f: "input_fits ''/u'' demo_input" by code_simp
  have s: "short_cwd ?s" "s_jobs ?s = no_jobs" "jobs no_jobs = 1" by (simp_all add: demo_sh_def short_cwd_def PATH_MAX_def no_jobs_def)
  have e: "map_sum id (\<lambda>(r, t). (r, ctrld1 (s_jobs t))) (cshell_main demo_host demo_input False ?s) = Inr (Some [7], True)" by code_simp
  obtain r t where t: "cshell_main demo_host demo_input False ?s = Inr (r, t)" "job_step\<^sup>*\<^sup>* no_jobs (s_jobs t)"
    using session [of demo_host ?s demo_input] h f s by (auto simp: COMS_MAX_def demo_input_def)
  then show ?thesis using e by auto
qed

end
