(* ===== verification/Fdrefs.thy ===== *)
theory Fdrefs
  imports Sysfile
begin

text \<open>
  Reference counts of open files: between system calls the count of an entry of \<^verbatim>\<open>ftable\<close> is the number of descriptors, over all processes, that
  refer to it. \<^verbatim>\<open>sys_dup\<close> and \<^verbatim>\<open>sys_close\<close> (\<^verbatim>\<open>kernel/sysfile.c\<close>) and the copy of the descriptors in \<^verbatim>\<open>kfork\<close> (\<^verbatim>\<open>kernel/proc.c\<close>) keep
  it, on a hart where the lock of the table is free.
\<close>

definition slots :: "'z proc_state_scheme \<Rightarrow> nat \<Rightarrow> (nat \<times> nat) set" where
  "slots s f = {(p, fd). p < NPROC \<and> fd < NOFILE \<and> ofile (procs s p) fd = Some f}"

definition refs_ok :: "'z proc_state_scheme \<Rightarrow> bool" where
  "refs_ok s \<longleftrightarrow> (\<forall>f. slots s f \<noteq> {} \<longrightarrow> f < NFILE) \<and> (\<forall>f < NFILE. f_ref (ftab s f) = int (card (slots s f)))"

definition fd_hart :: "nat \<Rightarrow> 'z proc_state_scheme \<Rightarrow> bool" where
  "fd_hart p s \<longleftrightarrow> cpu_ok (core s) \<and> cproc (mycpu (core s)) = Some p \<and> p < NPROC \<and> free_lock FtableLock (core s)"

abbreviation put_fd :: "nat \<Rightarrow> nat \<Rightarrow> nat option \<Rightarrow> 'z proc_state_scheme \<Rightarrow> 'z proc_state_scheme" where
  "put_fd p fd v \<equiv> upd_proc p (\<lambda>r. r\<lparr>ofile := (ofile r)(fd := v)\<rparr>)"

abbreviation add_ref :: "nat \<Rightarrow> int \<Rightarrow> 'z proc_state_scheme \<Rightarrow> 'z proc_state_scheme" where
  "add_ref f d \<equiv> upd_file f (\<lambda>v. v\<lparr>f_ref := f_ref v + d\<rparr>)"

lemma upd_file_simps [simp]:
  "core (upd_file f g s) = core s" "procs (upd_file f g s) = procs s" "ftab (upd_file f g s) = (ftab s)(f := g (ftab s f))"
  "trapframes (upd_file f g s) = trapframes s"
  by (simp_all add: upd_file_def)

lemma ftab_upd_proc [simp]: "ftab (upd_proc p g s) = ftab s" "trapframes (upd_proc p g s) = trapframes s"
  by (simp_all add: upd_proc_def)

lemma upd_core [simp]:
  "upd_proc p g (s\<lparr>core := c\<rparr>) = (upd_proc p g s)\<lparr>core := c\<rparr>" "upd_file f h (s\<lparr>core := c\<rparr>) = (upd_file f h s)\<lparr>core := c\<rparr>"
  by (cases s; simp add: upd_proc_def upd_file_def)+

lemma slots_simps [simp]:
  "slots (s\<lparr>core := c\<rparr>) f = slots s f" "slots (upd_file g h s) f = slots s f"
  by (simp_all add: slots_def)

lemma refs_ok_core [simp]: "refs_ok (s\<lparr>core := c\<rparr>) = refs_ok s"
  by (simp add: refs_ok_def)

lemma finite_slots [simp]: "finite (slots s f)"
  by (rule finite_subset [of _ "{..<NPROC} \<times> {..<NOFILE}"]) (auto simp: slots_def)

lemma slots_put:
  assumes "p < NPROC" "fd < NOFILE"
  shows "slots (put_fd p fd (Some f) s) g = (if g = f then insert (p, fd) (slots s g) else slots s g - {(p, fd)})"
    "slots (put_fd p fd None s) g = slots s g - {(p, fd)}"
  using assms by (auto simp: slots_def split: if_splits)

text \<open>A new reference in a free descriptor, and one that is given up.\<close>

lemma refs_ok_put:
  assumes "refs_ok s" "p < NPROC" "fd < NOFILE" "ofile (procs s p) fd = None" "f < NFILE"
  shows "refs_ok (add_ref f 1 (put_fd p fd (Some f) s))"
proof -
  have n: "(p, fd) \<notin> slots s g" for g using assms(4) by (simp add: slots_def)
  then have S: "slots (put_fd p fd (Some f) s) g = (if g = f then insert (p, fd) (slots s g) else slots s g)" for g
    using assms(2,3) by (simp add: slots_put)
  show ?thesis using assms(1,5) n unfolding refs_ok_def by (auto simp: S)
qed

lemma refs_ok_drop:
  assumes "refs_ok s" "p < NPROC" "fd < NOFILE" "ofile (procs s p) fd = Some f"
  shows "refs_ok (add_ref f (- 1) (put_fd p fd None s))" "1 \<le> f_ref (ftab s f)" "f < NFILE"
proof -
  have i: "(p, fd) \<in> slots s f" using assms by (simp add: slots_def)
  then show f: "f < NFILE" using assms(1) by (auto simp: refs_ok_def)
  have o: "slots s g - {(p, fd)} = slots s g" if "g \<noteq> f" for g using that assms(4) by (auto simp: slots_def)
  have c: "int (card (slots s f - {(p, fd)})) = int (card (slots s f)) - 1" "1 \<le> card (slots s f)"
    using i card_Diff_singleton [OF i] card_gt_0_iff [of "slots s f"] by (auto simp: Suc_le_eq intro!: of_nat_diff)
  show "refs_ok (add_ref f (- 1) (put_fd p fd None s))"
    using assms(1) c(1) o unfolding refs_ok_def by (auto simp: slots_put [OF assms(2,3)])
  show "1 \<le> f_ref (ftab s f)" using assms(1) c(2) f by (simp add: refs_ok_def)
qed

subsection \<open>The routines\<close>

lemma fd_hart_simps [simp]:
  "fd_hart p (s\<lparr>core := touch (core s)\<rparr>) = fd_hart p s" "fd_hart p (upd_proc q g s) = fd_hart p s" "fd_hart p (upd_file f h s) = fd_hart p s"
  by (simp_all add: fd_hart_def)

lemma filedup_eq:
  assumes "fd_hart p s" "1 \<le> f_ref (ftab s f)"
  shows "filedup f s = Ret f ((add_ref f 1 s)\<lparr>core := touch (core s)\<rparr>)"
  using assms by (simp add: filedup_def fd_hart_def kstep upd_file_def kret_def)

definition fd_arg :: "nat \<Rightarrow> 'z proc_state_scheme \<Rightarrow> int" where
  "fd_arg p s = sint (ucast (trapframes s (trapframe (procs s p)) T_a0) :: u32)"

definition fd_file :: "nat \<Rightarrow> 'z proc_state_scheme \<Rightarrow> nat option" where
  "fd_file p s = (if fd_arg p s < 0 \<or> int NOFILE \<le> fd_arg p s then None else ofile (procs s p) (nat (fd_arg p s)))"

lemma argfd_eq:
  assumes "fd_hart p s"
  shows "argfd 0 s = Ret (map_option (\<lambda>f. (nat (fd_arg p s), f)) (fd_file p s)) (s\<lparr>core := touch (core s)\<rparr>)"
  using assms by (simp add: argfd_def argint_def argraw_def fd_hart_def kstep kret_def fd_arg_def fd_file_def)


text \<open>\<^verbatim>\<open>dup\<close> takes the lowest free descriptor, or returns -1 and changes nothing.\<close>

lemma sys_dup_refs:
  assumes h: "fd_hart p s" and ok: "refs_ok s"
  shows "\<exists>r s'. sys_dup s = Ret r s' \<and> refs_ok s' \<and>
    (case fd_file p s of
       None \<Rightarrow> r = - 1 \<and> s' = s\<lparr>core := touch (core s)\<rparr>
     | Some f \<Rightarrow>
         (case find (\<lambda>d. ofile (procs s p) d = None) [0..<NOFILE] of
            None \<Rightarrow> r = - 1 \<and> s' = s\<lparr>core := touch (core s)\<rparr>
          | Some d \<Rightarrow> r = of_nat d \<and> s' = (add_ref f 1 (put_fd p d (Some f) s))\<lparr>core := touch (core s)\<rparr>))"
proof -
  let ?s = "s\<lparr>core := touch (core s)\<rparr>"
  have p: "cpu_ok (core s)" "cproc (mycpu (core s)) = Some p" "p < NPROC" using h by (simp_all add: fd_hart_def)
  note a = argfd_eq [OF h]
  show ?thesis
  proof (cases "fd_file p s")
    case None
    then show ?thesis using a ok by (simp add: sys_dup_def kret_def)
  next
    case (Some f)
    have n: "nat (fd_arg p s) < NOFILE" "ofile (procs s p) (nat (fd_arg p s)) = Some f" using Some by (auto simp: fd_file_def split: if_splits)
    have f: "f < NFILE" "1 \<le> f_ref (ftab s f)" using refs_ok_drop(2,3) [OF ok p(3) n] by simp_all
    show ?thesis
    proof (cases "find (\<lambda>d. ofile (procs s p) d = None) [0..<NOFILE]")
      case None
      then have "fdalloc f ?s = Ret (- 1) ?s" using p by (simp add: fdalloc_def kstep kret_def)
      then show ?thesis using a Some None ok by (simp add: sys_dup_def kret_def)
    next
      case (Some d)
      then have d: "d < NOFILE" "ofile (procs s p) d = None" by (auto simp: find_Some_iff)
      let ?t = "put_fd p d (Some f) ?s"
      have "fdalloc f ?s = Ret (int d) ?t" using p Some by (simp add: fdalloc_def kstep kret_def set_ofile_def)
      moreover have "filedup f ?t = Ret f ((add_ref f 1 ?t)\<lparr>core := touch (core ?t)\<rparr>)" by (rule filedup_eq [of p]) (use h f(2) in \<open>simp_all add: fd_hart_def\<close>)
      ultimately have "sys_dup s = Ret (of_nat d) ((add_ref f 1 (put_fd p d (Some f) s))\<lparr>core := touch (core s)\<rparr>)"
        using a \<open>fd_file p s = Some f\<close> by (simp add: sys_dup_def kret_def upd_proc_def upd_file_def)
      then show ?thesis using Some \<open>fd_file p s = Some f\<close> refs_ok_put [OF ok p(3) d f(1)] by simp
    qed
  qed
qed

text \<open>
  \<^verbatim>\<open>close\<close> keeps the reference counts of the file table. On a descriptor that is not open it returns -1; otherwise the descriptor is free afterwards, the count
  of its file is one less and equal to the number of descriptors that still refer to it, and \<^verbatim>\<open>fileclose\<close> does not panic. The pipe or inode behind the file is let go exactly
  when no descriptor refers to the file any more, and the entry is free by then.
\<close>

lemma sys_close_refs:
  assumes "fd_hart p s" and "refs_ok s"
  shows "\<exists>s'. refs_ok s' \<and>
    (case fd_file p s of
       None \<Rightarrow> sys_close s = Ret (- 1) s' \<and> s' = s\<lparr>core := touch (core s)\<rparr>
     | Some f \<Rightarrow>
         procs s' = procs (put_fd p (nat (fd_arg p s)) None s) \<and> f_ref (ftab s' f) = f_ref (ftab s f) - 1 \<and> (\<forall>g. g \<noteq> f \<longrightarrow> ftab s' g = ftab s g) \<and>
         (if slots s f = {(p, nat (fd_arg p s))}
          then f_type (ftab s' f) = FD_NONE \<and> sys_close s = kseq (fileclose_last ((ftab s f)\<lparr>f_ref := 0\<rparr>)) (kret 0) s'
          else sys_close s = Ret 0 s'))"
proof (cases "fd_file p s")
  case None
  then show ?thesis using argfd_eq [OF assms(1)] assms(2) by (simp add: sys_close_def kret_def)
next
  case (Some f)
  let ?fd = "nat (fd_arg p s)" and ?c = "touch (core s)"
  have p: "cpu_ok (core s)" "cproc (mycpu (core s)) = Some p" "p < NPROC" "free_lock FtableLock (core s)" using assms(1) by (simp_all add: fd_hart_def)
  have n: "?fd < NOFILE" "ofile (procs s p) ?fd = Some f" using Some by (auto simp: fd_file_def split: if_splits)
  note d = refs_ok_drop [OF assms(2) p(3) n]
  have i: "(p, ?fd) \<in> slots s f" using n p(3) by (simp add: slots_def)
  have one: "f_ref (ftab s f) = 1 \<longleftrightarrow> slots s f = {(p, ?fd)}"
  proof -
    have "f_ref (ftab s f) = int (card (slots s f))" using assms(2) d(3) by (simp add: refs_ok_def)
    then show ?thesis using i by (auto simp: card_1_singleton_iff)
  qed
  have a: "sys_close s = kseq (fileclose f) (kret 0) ((put_fd p ?fd None s)\<lparr>core := ?c\<rparr>)"
    using argfd_eq [OF assms(1)] Some p by (simp add: sys_close_def kstep set_ofile_def)
  let ?s' = "(add_ref f (- 1) (put_fd p ?fd None s))\<lparr>core := ?c\<rparr>"
  show ?thesis
  proof (cases "f_ref (ftab s f) = 1")
    case False
    then have "fileclose f ((put_fd p ?fd None s)\<lparr>core := ?c\<rparr>) = Ret () ?s'"
      using p d(2) by (simp add: fileclose_def kstep upd_file_def upd_proc_def)
    then show ?thesis using a Some False one d(1) by (intro exI [of _ ?s']) (simp add: kret_def)
  next
    case True
    let ?t = "(upd_file f (\<lambda>v. v\<lparr>f_ref := 0, f_type := FD_NONE\<rparr>) (add_ref f (- 1) (put_fd p ?fd None s)))\<lparr>core := ?c\<rparr>"
    have "fileclose f ((put_fd p ?fd None s)\<lparr>core := ?c\<rparr>) = fileclose_last ((ftab s f)\<lparr>f_ref := 0\<rparr>) ?t"
      using p True by (simp add: fileclose_def kstep upd_file_def upd_proc_def)
    then have "sys_close s = kseq (fileclose_last ((ftab s f)\<lparr>f_ref := 0\<rparr>)) (kret 0) ?t" using a by (simp add: kseq_def kbind_def)
    moreover have "refs_ok ?t" using d(1) True by (auto simp: refs_ok_def)
    ultimately show ?thesis using Some True one by (intro exI [of _ ?t]) simp
  qed
qed

lemma dup_ofile_eq:
  assumes "fd_hart p s" "refs_ok s" "np < NPROC" "np \<noteq> q" "q < NPROC" "i < NOFILE" "ofile (procs s np) i = None"
  shows "\<exists>s'. dup_ofile q np i s = Ret () s' \<and> refs_ok s' \<and> fd_hart p s' \<and> procs s' = procs (put_fd np i (ofile (procs s q) i) s)"
proof (cases "ofile (procs s q) i")
  case None
  then have "procs (put_fd np i None s) = procs s" using assms(7) by (auto simp: fun_eq_iff fun_upd_idem)
  then show ?thesis using None assms by (simp add: dup_ofile_def kret_def)
next
  case (Some f)
  note d = refs_ok_drop(2,3) [OF assms(2,5,6) Some]
  have e: "dup_ofile q np i s = Ret () (put_fd np i (Some f) ((add_ref f 1 s)\<lparr>core := touch (core s)\<rparr>))"
    using Some filedup_eq [OF assms(1) d(1)] by (simp add: dup_ofile_def kmod_def)
  have "put_fd np i (Some f) ((add_ref f 1 s)\<lparr>core := touch (core s)\<rparr>) = (add_ref f 1 (put_fd np i (Some f) s))\<lparr>core := touch (core s)\<rparr>"
    by (simp add: upd_proc_def upd_file_def)
  moreover have "fd_hart p (put_fd np i (Some f) ((add_ref f 1 s)\<lparr>core := touch (core s)\<rparr>))" using assms(1) by (simp add: fd_hart_def)
  ultimately show ?thesis using e Some refs_ok_put [OF assms(2,3,6,7) d(2)] by simp
qed

text \<open>
  The copy of the descriptors in \<^verbatim>\<open>kfork\<close>: the child gets every open file of its parent, and the counts are right afterwards.
\<close>

lemma dup_ofiles:
  assumes "fd_hart p s" "refs_ok s" "np < NPROC" "np \<noteq> q" "q < NPROC" "distinct is" "\<forall>i \<in> set is. i < NOFILE \<and> ofile (procs s np) i = None"
  shows "\<exists>s'. kfor is (dup_ofile q np) s = Ret () s' \<and> refs_ok s' \<and> (\<forall>r. r \<noteq> np \<longrightarrow> procs s' r = procs s r) \<and>
    ofile (procs s' np) = (\<lambda>i. if i \<in> set is then ofile (procs s q) i else ofile (procs s np) i)"
  using assms
proof (induction "is" arbitrary: s)
  case (Cons i "is")
  obtain t where t: "dup_ofile q np i s = Ret () t" "refs_ok t" "fd_hart p t" "procs t = procs (put_fd np i (ofile (procs s q) i) s)"
    using dup_ofile_eq [OF Cons.prems(1-5), of i] Cons.prems(7) by auto
  have n: "ofile (procs t np) = (ofile (procs s np))(i := ofile (procs s q) i)" "procs t q = procs s q" using t(4) Cons.prems(4) by simp_all
  have "\<forall>j \<in> set is. j < NOFILE \<and> ofile (procs t np) j = None" using Cons.prems(6,7) n by auto
  then obtain u where u: "kfor is (dup_ofile q np) t = Ret () u" "refs_ok u" "\<forall>r. r \<noteq> np \<longrightarrow> procs u r = procs t r"
    "ofile (procs u np) = (\<lambda>i. if i \<in> set is then ofile (procs t q) i else ofile (procs t np) i)"
    using Cons.IH [OF t(3,2) Cons.prems(3-5), of] Cons.prems(6) by auto
  have "\<forall>r. r \<noteq> np \<longrightarrow> procs u r = procs s r" using u(3) t(4) by simp
  moreover have "ofile (procs u np) = (\<lambda>j. if j \<in> set (i # is) then ofile (procs s q) j else ofile (procs s np) j)" using u(4) n by (auto simp: fun_eq_iff)
  ultimately show ?case using t(1) u(1,2) by auto
qed (simp add: kret_def)

lemma fork_shares_files:
  assumes "fd_hart p s" "refs_ok s" "np < NPROC" "np \<noteq> p" "\<forall>i < NOFILE. ofile (procs s np) i = None"
  shows "\<exists>s'. kfor [0..<NOFILE] (dup_ofile p np) s = Ret () s' \<and> refs_ok s' \<and> (\<forall>r. r \<noteq> np \<longrightarrow> procs s' r = procs s r) \<and>
    (\<forall>i < NOFILE. ofile (procs s' np) i = ofile (procs s p) i)"
proof -
  have "p < NPROC" using assms(1) by (simp add: fd_hart_def)
  from dup_ofiles [OF assms(1-4) this, of "[0..<NOFILE]"] assms(5) show ?thesis by auto
qed

end
