(* ===== verification/Spec2Isabelle.thy ===== *)
theory Spec2Isabelle
  imports Trap Names Inodes Transact Syscalls Mutex Shell Jobs Virtio Grep Printf Ulib Umalloc Xsh Mkfs Peek Frecency Reveal Snoop Dispatch Fdrefs
begin

text \<open>
  Verification of \<^verbatim>\<open>src/xv6\<close>, a kernel (xv6 for RISC-V with a multi-level feedback queue scheduler, MLFQ build) with its user library,
  its shell and the builder of its file system image, and of the shell for a Unix host in \<^verbatim>\<open>src/c-shell\<close>.

  \<^bold>\<open>How the kernel is modelled.\<close> A C function is an Isabelle function from the state to a result \<open>kres\<close>
  (theory Prelude): \<open>Ret a s\<close> (it returns \<open>a\<close> in state \<open>s\<close>), \<open>Panic m\<close> (the message of \<^verbatim>\<open>panic\<close>), \<open>UB\<close> (a
  store outside an array), \<open>Spin s\<close> (it spins on a lock that another hart holds), \<open>Sched s k\<close> (it has
  called \<^verbatim>\<open>swtch\<close> in state \<open>s\<close> and goes on with \<open>k\<close> in the state in which it is picked again) or \<open>Loop\<close>
  (out of fuel). Statements are composed with \<open>kbind\<close>, \<open>kseq\<close>, \<open>kwhen\<close> and \<open>kfor\<close> in the order of the
  code; the equations that execute one statement are in the collection \<open>kstep\<close>. The state is a
  chain of records, each theory extends the one below with the globals of its files: the hart with
  its locks, interrupts and CPU structures (\<open>kbase\<close>, \<open>kcore\<close>), physical memory as bytes
  (\<open>kmem_state\<close>), the process table, run queues, trap frames and clock (\<open>sched_state\<close>), pipes
  (\<open>pipe_state\<close>), sleep locks, buffers and the disk as a map of blocks with the history of its writes
  (\<open>bio_state\<close>), the log (\<open>log_state\<close>), inodes and super block (\<open>fs_state\<close>), console and UART registers
  (\<open>cons_state\<close>), file and device tables (\<open>file_state\<close>), control registers and the PLIC (\<open>proc_state\<close>).
  Integers have their widths (\<open>u8\<close> to \<open>u64\<close>), arithmetic on them wraps. C \<^verbatim>\<open>int\<close> counters that the code
  keeps small are \<open>int\<close>. Addresses of kernel objects that are only compared (locks, sleep channels,
  files, inodes, buffers, processes) are names or table indices; addresses of memory are \<open>u64\<close>.

  \<^bold>\<open>How the programs are modelled.\<close> User programs and the C shell are functions on the text they read and on the
  part of the host's or the kernel's state that they use: descriptor tables, files, the heap, the answers of \<^verbatim>\<open>fork\<close>, \<^verbatim>\<open>waitpid\<close>, \<^verbatim>\<open>stat\<close> and
  so on. Failures are values (\<open>None\<close>, \<open>Inl\<close>), output is a list of lines or messages.

  \<^bold>\<open>Fuel and inputs.\<close> A \<^verbatim>\<open>for (;;)\<close> loop that sleeps takes one unit of \<open>sfuel\<close> per turn; the theorems that
  such a loop returns hold for every positive fuel because they describe the turn in which the
  condition holds. The boost loop of \<^verbatim>\<open>yield_mlfq\<close> takes its
  fuel as an argument: with more than a queue can hold it returns when queue 0 is empty
  (\<open>boost_moves_everyone_up\<close>), and it runs out of any fuel when queue 0 is not empty
  (\<open>boost_hangs_on_nonempty_top_queue\<close>). \<^verbatim>\<open>kill_line\<close> has the fuel
  \<open>INPUT_BUF_SIZE + 1\<close>, one more than the characters there can be (\<open>kill_line_ok\<close>). The search of the user allocator gets one unit per block of
  its circular list and one more (\<open>malloc_correct\<close>, \<open>free_correct\<close>); the parser of the xv6 shell a number computed from the line, which is
  enough (\<open>parsecmd_grammar\<close>); \<^verbatim>\<open>reveal\<close> has fuel because links may lead its recursion in a circle; \<^verbatim>\<open>str_replace\<close> of the C shell is a partial function, and
  it ends for an absolute home directory (\<open>line_worked_off\<close>, \<open>session\<close>). What devices return
  (UART registers, claimed interrupts, \<^verbatim>\<open>waitpid\<close> in the shell) is an arbitrary sequence in the state or an
  argument. The interrupt routine of the disk and the padding bytes of \<^verbatim>\<open>struct stat\<close> are
  arguments of the definitions that use them.

  \<^bold>\<open>Theories and sources\<close> (under \<^verbatim>\<open>src/xv6/kernel\<close> unless said otherwise).
  \<^item> Prelude, Ring: the result type, circular buffers, the locale \<open>fifo\<close> (contract of a queue with a list
    view), interpreted on the run queues (\<open>runq\<close>, theory Mlfq) and on pipes (\<open>pipeq\<close>, theory Pipe).
  \<^item> Spinlock (\<^verbatim>\<open>spinlock.c\<close>, parts of \<^verbatim>\<open>proc.h\<close>, \<^verbatim>\<open>riscv.h\<close>): locks and nesting of interrupt disabling on one
    hart. Mutex: the same lock, one memory access per step, with any number of harts; a simulation of
    the atomic lock gives mutual exclusion.
  \<^item> Kstring (\<^verbatim>\<open>string.c\<close>), Kalloc (\<^verbatim>\<open>kalloc.c\<close>; locale \<open>page_allocator\<close>, interpreted as \<open>kmem\<close>): the free list
    threaded through free pages, \<^verbatim>\<open>kinit\<close>.
  \<^item> Mlfq, Sched (\<^verbatim>\<open>proc.c\<close>, \<^verbatim>\<open>sysproc.c\<close>, parts of \<^verbatim>\<open>trap.c\<close>, \<^verbatim>\<open>syscall.c\<close>): the run queues, the scheduler,
    preemption, the priority boost, sleep and wakeup, kill, the clock.
  \<^item> Vm, Pagetable, Usercopy (\<^verbatim>\<open>vm.c\<close>, \<^verbatim>\<open>riscv.h\<close>): Sv39 tables in byte memory, seen as trees; \<^verbatim>\<open>mappages\<close>,
    page faults, copies between kernel and user memory.
  \<^item> Pipe (\<^verbatim>\<open>pipe.c\<close>), Bio (\<^verbatim>\<open>sleeplock.c\<close>, \<^verbatim>\<open>bio.c\<close>), Log (\<^verbatim>\<open>log.c\<close>), Fs (\<^verbatim>\<open>fs.c\<close>, \<^verbatim>\<open>fs.h\<close>), Console (\<^verbatim>\<open>uart.c\<close>,
    \<^verbatim>\<open>console.c\<close>), File (\<^verbatim>\<open>file.c\<close>), Process (\<^verbatim>\<open>proc.c\<close>, \<^verbatim>\<open>sysproc.c\<close>), Exec (\<^verbatim>\<open>exec.c\<close>), Sysfile (\<^verbatim>\<open>sysfile.c\<close>),
    Trap (\<^verbatim>\<open>trap.c\<close>, \<^verbatim>\<open>plic.c\<close>, \<^verbatim>\<open>syscall.c\<close>, \<^verbatim>\<open>main.c\<close>): the operations, one definition per function or loop.
  \<^item> Bcache: the links of the buffers are a list of all buffers in order of use; the invariant of the
    cache (one buffer per block, counts equal to holders, clean copies equal to the disk) and what
    \<^verbatim>\<open>bread\<close>, \<^verbatim>\<open>bwrite\<close>, \<^verbatim>\<open>brelse\<close>, \<^verbatim>\<open>bpin\<close>, \<^verbatim>\<open>bunpin\<close> do to it.
  \<^item> Layout, Names, Inodes: dinodes, bitmap and header in a block; path elements against the split of
    the path at slashes; the inode table.
  \<^item> Crash: \<^verbatim>\<open>commit\<close> as a sequence of block writes, and recovery after any prefix of it. Transact: the
    invariant of the log between \<^verbatim>\<open>begin_op\<close> and \<^verbatim>\<open>end_op\<close>, and a whole operation on inode, log, cache and
    disk.
  \<^item> Fdrefs: the reference counts of the file table as numbers of descriptors.
  \<^item> Lineedit: the console's line editor against an editor on lists. Syscalls: a system call from the
    trap to the return to user mode.
  \<^item> Virtio (\<^verbatim>\<open>virtio_disk.c\<close>, \<^verbatim>\<open>virtio.h\<close>): descriptors, rings, requests and the interrupt of the disk driver;
    with a device that behaves as the virtio specification says it keeps the contract \<open>disk_rw\<close> that the
    buffer cache is built on.
  \<^item> Printf (\<^verbatim>\<open>printk.c\<close>, \<^verbatim>\<open>user/printf.c\<close>), Ulib (\<^verbatim>\<open>user/ulib.c\<close>), Grep (\<^verbatim>\<open>user/grep.c\<close>): formatted output and
    reading numbers back, the string routines of the user library, the pattern matcher against the
    meaning of patterns and the loop that cuts a file into lines.
  \<^item> Links, Umalloc (\<^verbatim>\<open>user/umalloc.c\<close>): circular lists, and the free list of the user allocator on them. Xsh (\<^verbatim>\<open>user/sh.c\<close>): the parser of the
    xv6 shell against its grammar, and the processes it starts against the meaning of a command. Mkfs (\<^verbatim>\<open>mkfs/mkfs.c\<close>): the builder of the image.
  \<^item> Shell (\<^verbatim>\<open>c-shell/src/lexer.c\<close>, \<^verbatim>\<open>parser.c\<close>, \<^verbatim>\<open>command.c\<close>): the lexer, the parser against the split of the
    line at separators and against the grammar, the redirection arguments. Jobs (\<^verbatim>\<open>c-shell/src/main.c\<close>, \<^verbatim>\<open>bins.c\<close>):
    the job table as a state machine, with \<^verbatim>\<open>activities\<close>, \<^verbatim>\<open>resume\<close> and \<^verbatim>\<open>ping\<close>. Redirect (\<^verbatim>\<open>command.c\<close>): the descriptors of
    redirections and pipelines. Dispatch (\<^verbatim>\<open>main.c\<close>): a whole line with the buffers it is kept in, and the main loop with the
    SIGCHLD handler.
  \<^item> Hoststr, Insertion: C strings and numbers of the host's library, the insertion sort that \<^verbatim>\<open>snoop\<close> and \<^verbatim>\<open>spy\<close> share (locale \<open>keyed\<close>, interpreted on
    the rows of \<^verbatim>\<open>snoop\<close> and on the descriptors of \<^verbatim>\<open>spy\<close>). Peek, Frecency, Reveal, Snoop (\<^verbatim>\<open>c-shell/src/bins.c\<close>): \<^verbatim>\<open>peek\<close>; \<^verbatim>\<open>hop\<close> with its database; \<^verbatim>\<open>reveal\<close>
    and \<^verbatim>\<open>locate\<close>; \<^verbatim>\<open>snoop\<close> and \<^verbatim>\<open>spy\<close>.

  \<^bold>\<open>What is shown.\<close> Functional behaviour of scheduler, sleep and wakeup, allocator, page tables,
  copies, pipes, buffer cache, log, inode update, console, \<^verbatim>\<open>usertrap\<close>, lexers, parsers, job table; invariants
  kept by their operations; refinement of lists by the run queues, pipes, buffer ring, console buffer
  and of an atomic lock by the spin lock; crash atomicity of transactions; no lost wakeups; the user allocator hands out blocks that do not
  overlap and keeps its list well formed; the xv6 shell starts the processes that the command means; \<^verbatim>\<open>mkfs\<close> writes an image
  from which the files can be read back, or fails; \<^verbatim>\<open>peek -r\<close> in chunks prints what a reversal of the lines gives; the database of \<^verbatim>\<open>hop\<close> counts visits
  and evicts the entry of lowest rank; pipelines of the C shell have the descriptors they should, and a line of the C shell that fits into its
  buffers is worked off within the rules of the job table, and a session ends when and only when it should; \<^verbatim>\<open>dup\<close>, \<^verbatim>\<open>close\<close> and the copy of descriptors in \<^verbatim>\<open>fork\<close> keep the
  reference counts of open files. And the
  places where the code does not do what it means to: the boost that hangs, the head index that
  wraps to -1, \<^verbatim>\<open>procdump\<close> stopping early, the lexer dropping operators, the parser beyond its grammar,
  a full log without a free buffer, \<^verbatim>\<open>grep\<close> on a long line, \<^verbatim>\<open>atoi\<close> beyond 32 bits, \<^verbatim>\<open>cd\<close> on a last line without a newline, a blank line that \<^verbatim>\<open>peek -r\<close> loses,
  \<^verbatim>\<open>snoop\<close> counting one call too few, options that \<^verbatim>\<open>reveal\<close> loses, \<^verbatim>\<open>reveal -\<close> passing over the next command, the
  buffers that long lines, a tilde, \<^verbatim>\<open>reveal -\<close> and \<^verbatim>\<open>locate\<close> overflow, stale text in the rows of \<^verbatim>\<open>spy\<close>. The properties about one hart assume that
  the locks they need are free and that the invariants named in them hold; each has a concrete
  state in which its hypotheses are met.

  \<^bold>\<open>Not modelled.\<close> \<^verbatim>\<open>start.c\<close> and the assembly files, the memory model (steps are sequentially consistent), the small user programs and the tests,
  the round robin build of the scheduler; of the C shell the terminal, process groups, signal dispositions, the effects of children on the host, and the SIGCHLD handler in the
  middle of an operation on the job table. The times of \<^verbatim>\<open>snoop\<close> and the ranks of \<^verbatim>\<open>hop\<close> are exact numbers instead of doubles.
  No properties are proved of Exec and most of Sysfile, File and Process; their definitions are
  there for the composition of whole system calls.

  \<^bold>\<open>Left for later.\<close> \<^verbatim>\<open>balloc\<close>, \<^verbatim>\<open>bmap\<close>, \<^verbatim>\<open>readi\<close> and \<^verbatim>\<open>writei\<close> over the log (a file as a list of bytes), directories,
  \<^verbatim>\<open>kfork\<close>, \<^verbatim>\<open>kexit\<close> and \<^verbatim>\<open>kwait\<close>, the bounds of the argument stack of \<^verbatim>\<open>kexec\<close>.
\<close>

end
